(* ===== verification/Prelude.thy ===== *)
theory Prelude
  imports Main "HOL-Library.Word" "HOL-Library.Multiset"
begin

text \<open>
  Shared vocabulary of the development: the machine-integer types of the C and C++ sources, the
  two result types (a run of C++ code that may hit undefined behaviour or throw; a C function that
  returns an error number), little-endian byte access, and the generic lemmas on words, lists and
  results that the component theories use.
\<close>

unbundle bit_operations_syntax

section \<open>Machine integers\<close>

type_synonym u8 = "8 word"
type_synonym u16 = "16 word"
type_synonym u32 = "32 word"
type_synonym u64 = "64 word"

definition INT_MAX :: int where
  "INT_MAX = 2147483647"

definition UINT32_MAX :: nat where
  "UINT32_MAX = 4294967295"

text \<open>Values of 32 bits.\<close>

lemma unat_lt32: "unat (x :: u32) < 4294967296"
proof -
  have "(unsigned x :: nat) < 2 ^ LENGTH(32)" by (rule unsigned_less)
  then show ?thesis by simp
qed

lemma unat_ucast_u64: "unat (ucast (x :: u32) :: u64) = unat x"
  by (simp add: unsigned_ucast_eq take_bit_nat_eq_self less_trans [OF unat_lt32])

lemma unat_mult_small: "unat a * unat (b :: u32) < 4294967296 \<Longrightarrow> unat (a * b) = unat a * unat b"
  by (simp add: unat_word_ariths)

section \<open>Results\<close>

text \<open>
  A \<open>fault\<close> is an execution the language gives no meaning to (a shift out of range, a signed
  overflow, a division by zero, an access outside an object, the read of an indeterminate value), a loop that never ends,
  a C++ exception that nobody catches, or a call of \<open>exit\<close>. C functions report errors as negative error numbers;
  \<open>err\<close> keeps the two apart.
\<close>

datatype fault =
    Shift_Range
  | Signed_Overflow
  | Div_By_Zero
  | Out_Of_Bounds
  | Indeterminate
  | No_Return
  | Uncaught string
  | Exit int

datatype err = Errno int | Fault fault

primrec bindR :: "'e + 'a \<Rightarrow> ('a \<Rightarrow> 'e + 'b) \<Rightarrow> 'e + 'b" where
  "bindR (Inl e) f = Inl e"
| "bindR (Inr x) f = f x"

definition guardR :: "bool \<Rightarrow> 'e \<Rightarrow> 'e + unit" where
  "guardR b e = (if b then Inr () else Inl e)"

primrec foldR :: "('a \<Rightarrow> 's \<Rightarrow> 'e + 's) \<Rightarrow> 'a list \<Rightarrow> 's \<Rightarrow> 'e + 's" where
  "foldR f [] s = Inr s"
| "foldR f (x # xs) s = bindR (f x s) (foldR f xs)"

lemma bindR_eq_Inr [simp]:
  "bindR m f = Inr y \<longleftrightarrow> (\<exists>x. m = Inr x \<and> f x = Inr y)"
  by (cases m) auto

lemma bindR_eq_Inl:
  "bindR m f = Inl e \<longleftrightarrow> m = Inl e \<or> (\<exists>x. m = Inr x \<and> f x = Inl e)"
  by (cases m) auto

lemma bindR_assoc: "bindR (bindR m f) g = bindR m (\<lambda>x. bindR (f x) g)"
  by (cases m) auto

lemma bindR_case: "bindR m f = (case m of Inl e \<Rightarrow> Inl e | Inr x \<Rightarrow> f x)"
  by (cases m) auto

lemma bindR_cong [fundef_cong]:
  "m = m' \<Longrightarrow> (\<And>x. m' = Inr x \<Longrightarrow> f x = g x) \<Longrightarrow> bindR m f = bindR m' g"
  by (cases m') auto

lemma guardR_simps [simp]:
  "guardR True e = Inr ()" "guardR False e = Inl e"
  by (simp_all add: guardR_def)

lemma guardR_eq_Inr [simp]: "guardR b e = Inr u \<longleftrightarrow> b"
  by (simp add: guardR_def)

lemma foldR_append: "foldR f (xs @ ys) s = bindR (foldR f xs s) (foldR f ys)"
proof (induction xs arbitrary: s)
  case Nil
  show ?case by simp
next
  case (Cons x xs)
  then show ?case by (cases "f x s") simp_all
qed

lemma foldR_invariant:
  assumes "foldR f xs s = Inr t" and "I s"
    and "\<And>x s t. x \<in> set xs \<Longrightarrow> I s \<Longrightarrow> f x s = Inr t \<Longrightarrow> I t"
  shows "I t"
  using assms
proof (induction xs arbitrary: s)
  case Nil
  then show ?case by simp
next
  case (Cons x xs)
  from Cons.prems(1) obtain s' where "f x s = Inr s'" "foldR f xs s' = Inr t"
    by auto
  with Cons show ?case by (metis list.set_intros)
qed

section \<open>Bit masks\<close>

text \<open>The C++ expression \<open>1ULL << s\<close>; shifting by a negative amount or by the width has no meaning.\<close>

definition shl1 :: "int \<Rightarrow> fault + u64" where
  "shl1 s = (if 0 \<le> s \<and> s < 64 then Inr (push_bit (nat s) 1) else Inl Shift_Range)"

lemma shl1_in [simp]: "0 \<le> s \<Longrightarrow> s < 64 \<Longrightarrow> shl1 s = Inr (2 ^ nat s)"
  by (simp add: shl1_def)

lemma shl1_eq_Inr: "shl1 s = Inr b \<longleftrightarrow> 0 \<le> s \<and> s < 64 \<and> b = 2 ^ nat s"
  by (auto simp: shl1_def)

lemma shl1_uint: "unat (x :: u8) < 64 \<Longrightarrow> shl1 (uint x) = Inr (2 ^ unat x)"
  unfolding uint_nat using shl1_in [of "int (unat x)"] by (simp only: nat_int of_nat_0_le_iff of_nat_less_numeral_iff)

lemma bit_two_power [simp]:
  "bit (2 ^ n :: 'a::len word) k \<longleftrightarrow> k = n \<and> n < LENGTH('a)"
  by (auto simp: bit_exp_iff)

lemma word_eq_bits:
  fixes a b :: "'a::len word"
  shows "a = b \<longleftrightarrow> (\<forall>n<LENGTH('a). bit a n = bit b n)"
  by (auto intro: bit_word_eqI)

lemma and_two_power_eq_0:
  fixes w :: "'a::len word"
  shows "n < LENGTH('a) \<Longrightarrow> (w AND 2 ^ n) = 0 \<longleftrightarrow> \<not> bit w n"
  by (auto simp: word_eq_bits bit_and_iff)

lemma and_mask_eq_mask:
  fixes f m :: "'a::len word"
  shows "f AND m = m \<longleftrightarrow> (\<forall>n. bit m n \<longrightarrow> bit f n)"
  by (auto simp: word_eq_bits bit_and_iff) (meson bit_imp_le_length)

section \<open>All ordered pairs of positions\<close>

text \<open>The nested index loop \<open>for i; for j = i + 1\<close> over a vector, and its structural form.\<close>

definition index_pairs :: "'a list \<Rightarrow> ('a \<times> 'a) list" where
  "index_pairs xs =
     concat (map (\<lambda>i. map (\<lambda>j. (xs ! i, xs ! j)) [Suc i..<length xs]) [0..<length xs])"

primrec list_pairs :: "'a list \<Rightarrow> ('a \<times> 'a) list" where
  "list_pairs [] = []"
| "list_pairs (x # xs) = map (Pair x) xs @ list_pairs xs"

lemma upt_shift: "[Suc i..<Suc n] = map Suc [i..<n]"
  by (simp add: map_Suc_upt)

lemma index_row_head: "map (\<lambda>j. (x, (x # xs) ! j)) [Suc 0..<Suc (length xs)] = map (Pair x) xs"
proof -
  have "map (\<lambda>j. (x, (x # xs) ! j)) [Suc 0..<Suc (length xs)] = map (Pair x) (map ((!) xs) [0..<length xs])"
    unfolding upt_shift by (simp add: comp_def)
  then show ?thesis by (simp only: map_nth)
qed

lemma index_pairs_eq: "index_pairs xs = list_pairs xs"
proof (induction xs)
  case Nil
  show ?case by (simp add: index_pairs_def)
next
  case (Cons x xs)
  let ?row = "\<lambda>xs i. map (\<lambda>j. (xs ! i, xs ! j)) [Suc i..<length xs]"
  have "?row (x # xs) (Suc i) = ?row xs i" for i
    unfolding length_Cons upt_shift by (simp add: comp_def)
  then have tail: "map (?row (x # xs)) [Suc 0..<Suc (length xs)] = map (?row xs) [0..<length xs]"
    unfolding upt_shift map_map by (simp only: comp_def)
  have "[0..<length (x # xs)] = 0 # [Suc 0..<Suc (length xs)]"
    unfolding length_Cons by (rule upt_conv_Cons) simp
  then have "index_pairs (x # xs) = ?row (x # xs) 0 @ concat (map (?row (x # xs)) [Suc 0..<Suc (length xs)])"
    unfolding index_pairs_def by (simp only: list.map concat.simps)
  also have "\<dots> = map (Pair x) xs @ index_pairs xs"
    unfolding tail index_pairs_def using index_row_head [of x xs] by simp
  finally show ?case using Cons.IH by simp
qed

lemma set_list_pairs: "(a, b) \<in> set (list_pairs xs) \<Longrightarrow> a \<in> set xs \<and> b \<in> set xs"
  by (induction xs) auto

lemma length_list_pairs: "2 * length (list_pairs xs) = length xs * (length xs - 1)"
proof (induction xs)
  case Nil
  show ?case by simp
next
  case (Cons x xs)
  then show ?case by (cases xs) (simp_all add: algebra_simps)
qed

lemma concat_if: "concat (map (\<lambda>j. if P j then [f j] else []) xs) = map f (filter P xs)"
  by (induction xs) auto

lemma filtered_pairs:
  "[(i, j). i \<leftarrow> [k..<n], P i, j \<leftarrow> [Suc i..<n], P j] = list_pairs (filter P [k..<n])"
proof (induction "n - k" arbitrary: k)
  case 0
  then show ?case by simp
next
  case (Suc d)
  then have k: "[k..<n] = k # [Suc k..<n]" by (simp add: upt_conv_Cons)
  have "d = n - Suc k" using Suc by simp
  from Suc(1)[OF this] show ?case unfolding k by (simp add: concat_if)
qed

lemma filter_upt_stages:
  assumes "sorted_wrt (<) (xs :: int list)" "\<forall>s\<in>set xs. 0 \<le> s \<and> s < int n" "\<And>i. i < n \<Longrightarrow> P i \<longleftrightarrow> int i \<in> set xs"
  shows "filter P [0..<n] = map nat xs"
proof (rule sorted_distinct_set_unique)
  show "sorted (filter P [0..<n])" "distinct (filter P [0..<n])" by (simp_all add: sorted_wrt_filter)
  show "sorted (map nat xs)" using assms(1) by (auto simp: sorted_map intro: sorted_wrt_mono_rel [rotated])
  show "distinct (map nat xs)" using assms(1,2) by (auto simp: distinct_map inj_on_def strict_sorted_iff) (metis nat_eq_iff2 nat_0_le)
  show "set (filter P [0..<n]) = set (map nat xs)" using assms(2,3) by force
qed

lemma list_pairs_map: "list_pairs (map f xs) = map (\<lambda>(a, b). (f a, f b)) (list_pairs xs)"
  by (induction xs) auto

lemma foldR_map: "foldR f (map g xs) s = foldR (\<lambda>x. f (g x)) xs s"
  by (induction xs arbitrary: s) (simp_all add: bindR_case split: sum.split)

lemma foldR_cong: "(\<And>x s. x \<in> set xs \<Longrightarrow> f x s = g x s) \<Longrightarrow> foldR f xs s = foldR g xs s"
  by (induction xs arbitrary: s) (simp_all add: bindR_case split: sum.split)

section \<open>Deterministic walks\<close>

fun walk :: "('a \<Rightarrow> 'a option) \<Rightarrow> nat \<Rightarrow> 'a \<Rightarrow> 'a option" where
  "walk nxt 0 x = Some x"
| "walk nxt (Suc n) x = Option.bind (nxt x) (walk nxt n)"

lemma walk_add: "walk nxt (m + n) x = Option.bind (walk nxt m x) (walk nxt n)"
  by (induction m arbitrary: x) (simp_all, metis Option.bind_assoc)

lemma walk_prefix: "walk nxt n x = Some y \<Longrightarrow> m \<le> n \<Longrightarrow> \<exists>z. walk nxt m x = Some z"
  by (metis Option.bind_eq_Some_conv le_add_diff_inverse walk_add)

text \<open>A deterministic walk that makes as many steps as there are places visits one of them twice and goes on for ever.\<close>

lemma walk_forever:
  assumes fin: "finite S" and dom: "\<And>x y. nxt x = Some y \<Longrightarrow> x \<in> S" and long: "walk nxt (Suc (card S)) x = Some y"
  shows "\<exists>z. walk nxt n x = Some z"
proof -
  let ?N = "Suc (card S)"
  define f where "f i = the (walk nxt i x)" for i
  have f: "walk nxt i x = Some (f i)" if "i \<le> ?N" for i using walk_prefix [OF long that] by (auto simp: f_def)
  have inS: "f i \<in> S" if "i < ?N" for i
  proof -
    have "walk nxt (i + 1) x = Some (f (i + 1))" by (rule f) (use that in simp)
    then have "nxt (f i) = Some (f (i + 1))" using f [of i] that unfolding walk_add by (auto split: Option.bind_splits)
    then show ?thesis by (rule dom)
  qed
  have "\<not> inj_on f {..<?N}"
  proof
    assume "inj_on f {..<?N}"
    then have "card {..<?N} \<le> card S" by (rule card_inj_on_le) (use inS fin in auto)
    then show False by simp
  qed
  then obtain i j where ij: "i < j" "j < ?N" "f i = f j" unfolding inj_on_def by (metis lessThan_iff linorder_neqE_nat)
  have period: "walk nxt (i + k * (j - i)) x = Some (f i)" for k
  proof (induction k)
    case 0
    then show ?case using f [of i] ij by simp
  next
    case (Suc k)
    have "walk nxt (j - i) (f i) = Some (f i)"
      using f [of j] f [of i] walk_add [of nxt i "j - i" x] ij by simp
    moreover have "i + Suc k * (j - i) = i + k * (j - i) + (j - i)" by simp
    ultimately show ?case using Suc walk_add [of nxt "i + k * (j - i)" "j - i" x] by (simp add: add.assoc del: mult_Suc)
  qed
  have "1 \<le> j - i" using ij(1) by simp
  then have "n * 1 \<le> n * (j - i)" by (rule mult_le_mono2)
  then have "n \<le> i + n * (j - i)" unfolding mult_1_right by (rule trans_le_add2)
  then show ?thesis by (rule walk_prefix [OF period])
qed

lemma card_ids: "finite {t :: u32. unat t < n} \<and> card {t :: u32. unat t < n} \<le> n"
proof -
  have "unat ` {t :: u32. unat t < n} \<subseteq> {..<n}" by auto
  then have "card {t :: u32. unat t < n} \<le> card {..<n}" by (intro card_inj_on_le) (auto simp: inj_on_def word_unat_eq_iff)
  then show ?thesis by simp
qed

end
