(* ===== verification/Matcher.thy ===== *)
theory Matcher
  imports Prelude
begin

text \<open>
  The data of \<open>src/matcher.h\<close> that every pairing strategy shares: the raw event read from the ring
  buffer, the record a group of stages is collected in, the delta it produces and the snapshot its
  completion callbacks see; and the interface of the base class \<open>Matcher\<close>, as a locale.
\<close>

section \<open>Events, records, deltas\<close>

record Delta =
  d_val_ns :: u64
  d_from_stage :: int
  d_to_stage :: int
  d_ts_from :: u64
  d_ts_to :: u64
  d_tid :: u32

record RawEvent =
  re_ts :: u64
  re_tid :: u32
  re_stage :: u8
  re_key :: u64

text \<open>An event given by its parts.\<close>

definition mk_event :: "u8 \<Rightarrow> u32 \<Rightarrow> u64 \<Rightarrow> u64 \<Rightarrow> RawEvent" where
  "mk_event stage tid ts key = \<lparr>re_ts = ts, re_tid = tid, re_stage = stage, re_key = key\<rparr>"

lemma mk_event_simps [simp]:
  "re_ts (mk_event s t ts k) = ts" "re_tid (mk_event s t ts k) = t" "re_stage (mk_event s t ts k) = s" "re_key (mk_event s t ts k) = k"
  by (simp_all add: mk_event_def)

text \<open>
  \<open>StageSnapshot\<close> is declared without an initialiser: \<open>ts[64]\<close> holds indeterminate values except at
  the stages that are assigned, and \<open>key\<close> is never assigned. A partial map and an option say so.
\<close>

record StageSnapshot =
  snap_ts :: "nat \<Rightarrow> u64 option"
  snap_stages :: u64
  snap_key :: "u64 option"
  snap_tid :: u32

record Record =
  rec_ts :: "u64 list"
  rec_filled :: u64
  rec_tid :: u32

text \<open>The record after \<open>memset\<close> (SeqMatcher) or value initialisation (\<open>records_[key]\<close> of KeyMatcher).\<close>

definition zero_record :: Record where
  "zero_record = \<lparr>rec_ts = replicate 64 0, rec_filled = 0, rec_tid = 0\<rparr>"

text \<open>The loop of both constructors over \<open>stages_\<close>: the bit mask and the smallest stage.\<close>

definition stage_mask_loop :: "int list \<Rightarrow> fault + (u64 \<times> int)" where
  "stage_mask_loop stages =
     foldR (\<lambda>s (msk, first). bindR (shl1 s) (\<lambda>b. Inr (msk OR b, if s < first then s else first)))
       stages (0, 64)"

text \<open>The nested loop over \<open>stages_\<close> that pushes one delta for each pair of positions.\<close>

definition record_deltas :: "int list \<Rightarrow> Record \<Rightarrow> Delta list" where
  "record_deltas stages r =
     map (\<lambda>(from, to). \<lparr>d_val_ns = rec_ts r ! nat to - rec_ts r ! nat from,
            d_from_stage = from, d_to_stage = to,
            d_ts_from = rec_ts r ! nat from, d_ts_to = rec_ts r ! nat to,
            d_tid = rec_tid r\<rparr>)
       (index_pairs stages)"

text \<open>
  One event at its record: \<open>rec.ts[stage] = e.ts; rec.filled |= 1ULL << stage\<close>, and the test
  \<open>(filled & mask) == mask\<close> that follows.
\<close>

definition record_put :: "nat \<Rightarrow> u64 \<Rightarrow> u64 \<Rightarrow> Record \<Rightarrow> Record" where
  "record_put stage ts b r = r\<lparr>rec_ts := (rec_ts r)[stage := ts], rec_filled := rec_filled r OR b\<rparr>"

definition record_complete :: "u64 \<Rightarrow> Record \<Rightarrow> bool" where
  "record_complete msk r \<longleftrightarrow> (rec_filled r AND msk) = msk"

section \<open>What a record means\<close>

text \<open>
  A record stands for the finite map from the stages seen so far to their time stamps. The deltas
  of a complete map are the differences over all ordered pairs of stages.
\<close>

definition record_map :: "int list \<Rightarrow> Record \<Rightarrow> int \<Rightarrow> u64 option" where
  "record_map stages r s =
     (if s \<in> set stages \<and> bit (rec_filled r) (nat s) then Some (rec_ts r ! nat s) else None)"

definition map_deltas :: "int list \<Rightarrow> (int \<Rightarrow> u64 option) \<Rightarrow> u32 \<Rightarrow> Delta list" where
  "map_deltas stages f t =
     map (\<lambda>(from, to). \<lparr>d_val_ns = the (f to) - the (f from), d_from_stage = from, d_to_stage = to,
            d_ts_from = the (f from), d_ts_to = the (f to), d_tid = t\<rparr>)
       (list_pairs stages)"

definition valid_stages :: "int list \<Rightarrow> bool" where
  "valid_stages stages \<longleftrightarrow> (\<forall>s\<in>set stages. 0 \<le> s \<and> s < 64)"

definition mask_of :: "int list \<Rightarrow> u64 \<Rightarrow> bool" where
  "mask_of stages msk \<longleftrightarrow> (\<forall>n<64. bit msk n \<longleftrightarrow> int n \<in> set stages)"

definition first_of :: "int list \<Rightarrow> int \<Rightarrow> bool" where
  "first_of stages first \<longleftrightarrow> first = fold min stages 64"

lemma valid_stagesD: "valid_stages stages \<Longrightarrow> s \<in> set stages \<Longrightarrow> 0 \<le> s \<and> s < 64"
  by (simp add: valid_stages_def)

lemma fold_min_eq: "fold min xs (a :: int) = Min (insert a (set xs))"
proof (induction xs arbitrary: a)
  case Nil
  show ?case by simp
next
  case (Cons x xs)
  have "Min (insert (min x a) (set xs)) = Min (insert a (insert x (set xs)))"
    by (cases "set xs = {}") (auto simp: min.commute min.left_commute min.assoc Min_insert)
  with Cons show ?case by simp
qed

lemma first_of_iff:
  assumes "valid_stages stages" "first_of stages first" "s \<in> set stages"
  shows "s = first \<longleftrightarrow> (\<forall>s'\<in>set stages. s \<le> s')"
proof -
  have lt: "x < 64" if "x \<in> set stages" for x
    using assms(1) that by (simp add: valid_stages_def)
  have first: "first = Min (insert 64 (set stages))"
    using assms(2) by (simp add: first_of_def fold_min_eq)
  have le: "first \<le> x" if "x \<in> set stages" for x
    unfolding first using that by simp
  have mem: "first \<in> set stages"
  proof -
    have "first \<in> insert 64 (set stages)" unfolding first by (rule Min_in) auto
    with le [OF assms(3)] lt [OF assms(3)] show ?thesis by auto
  qed
  show ?thesis using le mem assms(3) by force
qed

lemma first_of_mem:
  assumes "valid_stages stages" "first_of stages first" "stages \<noteq> []"
  shows "first \<in> set stages"
proof -
  obtain m where m: "m \<in> set stages" "\<forall>s'\<in>set stages. m \<le> s'"
    using assms(3) by (metis List.finite_set Min_in Min_le set_empty)
  with first_of_iff [OF assms(1,2) m(1)] show ?thesis by simp
qed

lemma stage_mask_loop_aux:
  "foldR (\<lambda>s (msk, first). bindR (shl1 s) (\<lambda>b. Inr (msk OR b, if s < first then s else first)))
       stages (msk, first) = Inr (msk', first') \<Longrightarrow>
   valid_stages stages \<and> (\<forall>n<64. bit msk' n \<longleftrightarrow> bit msk n \<or> int n \<in> set stages) \<and>
   first' = fold min stages first"
proof (induction stages arbitrary: msk first)
  case Nil
  then show ?case by (simp add: valid_stages_def)
next
  case (Cons s stages)
  then obtain b where b: "0 \<le> s" "s < 64" "b = 2 ^ nat s"
    and rest: "foldR (\<lambda>s (msk, first). bindR (shl1 s) (\<lambda>b. Inr (msk OR b, if s < first then s else first)))
       stages (msk OR b, if s < first then s else first) = Inr (msk', first')"
    by (auto simp: shl1_eq_Inr)
  have "min s first = (if s < first then s else first)" by (auto simp: min_def)
  with Cons.IH [OF rest] b show ?case
    by (auto simp: valid_stages_def bit_or_iff)
qed

lemma stage_mask_loop_correct:
  assumes "stage_mask_loop stages = Inr (msk, first)"
  shows "valid_stages stages" "mask_of stages msk" "first_of stages first"
  using stage_mask_loop_aux [OF assms [unfolded stage_mask_loop_def]]
  by (simp_all add: mask_of_def first_of_def)

lemma stage_mask_loop_defined:
  "valid_stages stages \<Longrightarrow> \<exists>msk first. stage_mask_loop stages = Inr (msk, first)"
proof -
  have "\<exists>m' f'. foldR (\<lambda>s (msk, first). bindR (shl1 s)
          (\<lambda>b. Inr (msk OR b, if s < first then s else first))) stages (m, f) = Inr (m', f')"
    if "valid_stages stages" for m f
    using that by (induction stages arbitrary: m f) (auto simp: valid_stages_def)
  then show "valid_stages stages \<Longrightarrow> ?thesis" by (simp add: stage_mask_loop_def)
qed

lemma record_complete_iff:
  assumes "valid_stages stages" "mask_of stages msk"
  shows "record_complete msk r \<longleftrightarrow> set stages \<subseteq> dom (record_map stages r)"
proof -
  have m: "bit msk n \<longleftrightarrow> n < 64 \<and> int n \<in> set stages" for n
    using assms(2) bit_imp_le_length [of msk n] by (auto simp: mask_of_def)
  have "record_complete msk r \<longleftrightarrow> (\<forall>n. n < 64 \<and> int n \<in> set stages \<longrightarrow> bit (rec_filled r) n)"
    by (simp add: record_complete_def and_mask_eq_mask m)
  also have "\<dots> \<longleftrightarrow> (\<forall>s\<in>set stages. bit (rec_filled r) (nat s))"
  proof safe
    fix s assume "\<forall>n. n < 64 \<and> int n \<in> set stages \<longrightarrow> bit (rec_filled r) n" "s \<in> set stages"
    with valid_stagesD [OF assms(1), of s] show "bit (rec_filled r) (nat s)"
      by (metis nat_0_le nat_less_iff of_nat_numeral)
  next
    fix n assume "\<forall>s\<in>set stages. bit (rec_filled r) (nat s)" "int n \<in> set stages"
    then show "bit (rec_filled r) n" by force
  qed
  also have "\<dots> \<longleftrightarrow> set stages \<subseteq> dom (record_map stages r)"
    by (auto simp: record_map_def dom_def split: if_splits)
  finally show ?thesis .
qed

lemma record_map_put:
  assumes "valid_stages stages" "length (rec_ts r) = 64" "s \<in> set stages"
  shows "record_map stages (record_put (nat s) t (2 ^ nat s) r) = (record_map stages r)(s \<mapsto> t)"
proof
  fix x
  have s: "0 \<le> s" "s < 64" using valid_stagesD [OF assms(1,3)] by auto
  show "record_map stages (record_put (nat s) t (2 ^ nat s) r) x = ((record_map stages r)(s \<mapsto> t)) x"
  proof (cases "x \<in> set stages")
    case True
    then have "0 \<le> x" "x < 64" using valid_stagesD [OF assms(1)] by auto
    with s have "nat x = nat s \<longleftrightarrow> x = s" by auto
    with s assms(2,3) True show ?thesis
      by (auto simp: record_map_def record_put_def bit_or_iff)
  next
    case False
    with assms(3) show ?thesis by (auto simp: record_map_def record_put_def)
  qed
qed

lemma record_deltas_map:
  assumes "set stages \<subseteq> dom (record_map stages r)"
  shows "record_deltas stages r = map_deltas stages (record_map stages r) (rec_tid r)"
proof -
  have "the (record_map stages r s) = rec_ts r ! nat s" if "s \<in> set stages" for s
    using assms that by (auto simp: record_map_def dom_def split: if_splits)
  then show ?thesis
    unfolding record_deltas_def map_deltas_def index_pairs_eq
    by (intro map_cong) (auto dest: set_list_pairs)
qed

lemma record_put_simps [simp]:
  "length (rec_ts (record_put s t b r)) = length (rec_ts r)"
  "rec_tid (record_put s t b r) = rec_tid r"
  "rec_filled (record_put s t b r) = rec_filled r OR b"
  by (simp_all add: record_put_def)

lemma record_map_filled_0 [simp]: "record_map stages (r\<lparr>rec_filled := 0\<rparr>) = Map.empty"
  by (rule ext) (simp add: record_map_def)

lemma record_map_tid [simp]: "record_map stages (r\<lparr>rec_tid := t\<rparr>) = record_map stages r"
  by (rule ext) (simp add: record_map_def)

lemma record_map_zero [simp]: "record_map stages zero_record = Map.empty"
  by (rule ext) (simp add: record_map_def zero_record_def)

lemma rec_tid_zero [simp]: "rec_tid zero_record = 0"
  by (simp add: zero_record_def)

lemma length_zero_record [simp]: "length (rec_ts zero_record) = 64"
  by (simp add: zero_record_def)

lemma mask_test:
  assumes "mask_of stages msk" "n < 64"
  shows "msk AND 2 ^ n = 0 \<longleftrightarrow> int n \<notin> set stages"
  using assms by (simp add: mask_of_def and_two_power_eq_0)

section \<open>The interface of the base class\<close>

text \<open>
  \<open>Matcher\<close> promises \<open>feed\<close> and \<open>drain\<close>. Its clients rely on two laws: feeding only appends to what
  has not been drained yet, and draining hands all of it over and leaves nothing behind. Then
  nothing is lost and nothing is delivered twice, whenever the client chooses to drain.
\<close>

locale matcher =
  fixes feed :: "RawEvent \<Rightarrow> 'm \<times> 'w \<Rightarrow> fault + ('m \<times> 'w)"
    and drain :: "'m \<Rightarrow> Delta list \<times> 'm"
    and undrained :: "'m \<Rightarrow> Delta list"
    and core :: "'m \<Rightarrow> 'm"
  assumes drain_out: "fst (drain m) = undrained m"
    and drain_empty: "undrained (snd (drain m)) = []"
    and drain_core: "core (snd (drain m)) = core m"
    and feed_core: "core m1 = core m2 \<Longrightarrow> feed e (m1, w) = Inr (n1, w1) \<Longrightarrow>
      \<exists>n2 ds. feed e (m2, w) = Inr (n2, w1) \<and> core n1 = core n2 \<and>
        undrained n1 = undrained m1 @ ds \<and> undrained n2 = undrained m2 @ ds"
begin

lemma feed_appends:
  assumes "feed e (m, w) = Inr (n, w')"
  shows "\<exists>ds. undrained n = undrained m @ ds"
  using feed_core [OF refl assms] by auto

lemma run_core:
  assumes "foldR feed es (m1, w) = Inr (n1, w1)" and "core m1 = core m2"
  shows "\<exists>n2 ds. foldR feed es (m2, w) = Inr (n2, w1) \<and> core n1 = core n2 \<and>
    undrained n1 = undrained m1 @ ds \<and> undrained n2 = undrained m2 @ ds"
  using assms
proof (induction es arbitrary: m1 m2 w)
  case Nil
  then show ?case by auto
next
  case (Cons e es)
  then obtain k1 v where k1: "feed e (m1, w) = Inr (k1, v)" "foldR feed es (k1, v) = Inr (n1, w1)"
    by auto
  obtain k2 ds where k2: "feed e (m2, w) = Inr (k2, v)" "core k1 = core k2"
    "undrained k1 = undrained m1 @ ds" "undrained k2 = undrained m2 @ ds"
    using feed_core [OF Cons.prems(2) k1(1)] by auto
  obtain n2 ds' where n2: "foldR feed es (k2, v) = Inr (n2, w1)" "core n1 = core n2"
    "undrained n1 = undrained k1 @ ds'" "undrained n2 = undrained k2 @ ds'"
    using Cons.IH [OF k1(2) k2(2)] by auto
  have "foldR feed (e # es) (m2, w) = Inr (n2, w1)" using k2(1) n2(1) by simp
  moreover have "undrained n1 = undrained m1 @ (ds @ ds')" "undrained n2 = undrained m2 @ (ds @ ds')"
    using k2(3,4) n2(3,4) by simp_all
  ultimately show ?case using n2(2) by blast
qed

text \<open>Draining between two batches delivers the same deltas, in the same order, as draining once.\<close>

lemma drain_between:
  assumes run1: "foldR feed xs (m, w) = Inr (m1, w1)"
    and run2: "foldR feed ys (snd (drain m1), w1) = Inr (m2, w2)"
  shows "\<exists>m3. foldR feed (xs @ ys) (m, w) = Inr (m3, w2) \<and>
    undrained m3 = fst (drain m1) @ fst (drain m2)"
proof -
  obtain m3 ds where "foldR feed ys (m1, w1) = Inr (m3, w2)" "undrained m2 = ds"
    "undrained m3 = undrained m1 @ ds"
    using run_core [OF run2 drain_core [of m1]] by (auto simp: drain_empty)
  then show ?thesis using run1 by (auto simp: foldR_append drain_out)
qed

end

end
