(* ===== verification/Seq_Matcher.thy ===== *)
theory Seq_Matcher
  imports Matcher
begin

text \<open>
  \<open>SeqMatcher\<close> of \<open>src/matcher.cpp\<close>: events of one thread are paired in arrival order. The state
  has one record per hash of a thread id; completion callbacks are functions on the world they
  capture by reference. The main results: one \<open>feed\<close> implements one step on the finite map a slot
  stands for, a run restricted to a slot is the run of that slot's events alone, and a request whose
  stages arrive in order yields exactly its deltas.
\<close>

section \<open>Model\<close>

record 'w SeqMatcher =
  sq_id :: string
  sq_stages :: "int list"
  sq_stages_mask :: u64
  sq_first_stage :: int
  sq_on_complete :: "(StageSnapshot \<Rightarrow> 'w \<Rightarrow> fault + 'w) list"
  sq_slots :: "nat \<Rightarrow> Record"
  sq_pending :: "Delta list"

definition TID_SLOTS :: nat where
  "TID_SLOTS = 65536"

definition tid_hash :: "u32 \<Rightarrow> nat" where
  "tid_hash tid = unat tid mod TID_SLOTS"

definition SeqMatcher_new :: "string \<Rightarrow> int list \<Rightarrow> fault + 'w SeqMatcher" where
  "SeqMatcher_new ident stages =
     bindR (stage_mask_loop stages) (\<lambda>(msk, first).
       Inr \<lparr>sq_id = ident, sq_stages = stages, sq_stages_mask = msk, sq_first_stage = first,
            sq_on_complete = [], sq_slots = (\<lambda>_. zero_record), sq_pending = []\<rparr>)"

definition onComplete :: "(StageSnapshot \<Rightarrow> 'w \<Rightarrow> fault + 'w) \<Rightarrow> 'w SeqMatcher \<Rightarrow> 'w SeqMatcher" where
  "onComplete cb m = m\<lparr>sq_on_complete := sq_on_complete m @ [cb]\<rparr>"

definition hasStage :: "'w SeqMatcher \<Rightarrow> int \<Rightarrow> fault + bool" where
  "hasStage m stage = bindR (shl1 stage) (\<lambda>b. Inr ((sq_stages_mask m AND b) \<noteq> 0))"

definition make_snapshot :: "'w SeqMatcher \<Rightarrow> Record \<Rightarrow> StageSnapshot" where
  "make_snapshot m slot =
     \<lparr>snap_ts = fold (\<lambda>s t. t(nat s \<mapsto> rec_ts slot ! nat s)) (sq_stages m) Map.empty,
      snap_stages = sq_stages_mask m, snap_key = None, snap_tid = rec_tid slot\<rparr>"

definition SeqMatcher_feed :: "RawEvent \<Rightarrow> 'w SeqMatcher \<times> 'w \<Rightarrow> fault + ('w SeqMatcher \<times> 'w)" where
  "SeqMatcher_feed e = (\<lambda>(m, w).
     let stage = uint (re_stage e) in
     bindR (shl1 stage) (\<lambda>b.
       if (sq_stages_mask m AND b) = 0 then Inr (m, w)
       else
         let h = tid_hash (re_tid e);
             slot = sq_slots m h;
             slot = (if stage = sq_first_stage m then slot\<lparr>rec_filled := 0, rec_tid := re_tid e\<rparr> else slot);
             slot = record_put (nat stage) (re_ts e) b slot
         in if record_complete (sq_stages_mask m) slot then
              let m = m\<lparr>sq_pending := sq_pending m @ record_deltas (sq_stages m) slot\<rparr>;
                  snap = make_snapshot m slot
              in bindR (foldR (\<lambda>cb. cb snap) (sq_on_complete m) w)
                   (\<lambda>w. Inr (m\<lparr>sq_slots := (sq_slots m)(h := slot\<lparr>rec_filled := 0\<rparr>)\<rparr>, w))
            else Inr (m\<lparr>sq_slots := (sq_slots m)(h := slot)\<rparr>, w)))"

definition SeqMatcher_drain :: "'w SeqMatcher \<Rightarrow> Delta list \<times> 'w SeqMatcher" where
  "SeqMatcher_drain m = (sq_pending m, m\<lparr>sq_pending := []\<rparr>)"

section \<open>Specification\<close>

text \<open>
  A slot holds the stages collected so far and the thread that opened the group. The smallest stage
  opens a new group and forgets an unfinished one; the event that completes the group closes it.
\<close>

type_synonym group = "(int \<Rightarrow> u64 option) \<times> u32"

definition seq_spec_step :: "int list \<Rightarrow> RawEvent \<Rightarrow> group \<Rightarrow> group \<times> group option" where
  "seq_spec_step stages e g =
     (let s = uint (re_stage e) in
      if s \<notin> set stages then (g, None)
      else let (f, t) = (if \<forall>s'\<in>set stages. s \<le> s' then (Map.empty, re_tid e) else g);
               f' = f(s \<mapsto> re_ts e)
           in if set stages \<subseteq> dom f' then ((Map.empty, t), Some (f', t)) else ((f', t), None))"

primrec seq_spec_run :: "int list \<Rightarrow> RawEvent list \<Rightarrow> group \<Rightarrow> group list" where
  "seq_spec_run stages [] g = []"
| "seq_spec_run stages (e # es) g =
     (case seq_spec_step stages e g of (g', None) \<Rightarrow> seq_spec_run stages es g'
      | (g', Some d) \<Rightarrow> d # seq_spec_run stages es g')"

definition seq_group :: "'w SeqMatcher \<Rightarrow> nat \<Rightarrow> group" where
  "seq_group m h = (record_map (sq_stages m) (sq_slots m h), rec_tid (sq_slots m h))"

definition group_deltas :: "int list \<Rightarrow> group \<Rightarrow> Delta list" where
  "group_deltas stages g = map_deltas stages (fst g) (snd g)"

text \<open>
  The invariant: constructor facts about stages, mask and first stage; 64 time stamps per slot; and
  a slot that has seen the first stage belongs to a thread that hashes to it.
\<close>

definition seq_inv :: "'w SeqMatcher \<Rightarrow> bool" where
  "seq_inv m \<longleftrightarrow>
     valid_stages (sq_stages m) \<and> mask_of (sq_stages m) (sq_stages_mask m) \<and>
     first_of (sq_stages m) (sq_first_stage m) \<and>
     (\<forall>h. length (rec_ts (sq_slots m h)) = 64) \<and>
     (\<forall>h. sq_stages m \<noteq> [] \<longrightarrow> bit (rec_filled (sq_slots m h)) (nat (sq_first_stage m)) \<longrightarrow>
        tid_hash (rec_tid (sq_slots m h)) = h)"

section \<open>One event\<close>

lemma SeqMatcher_new_inv:
  assumes "SeqMatcher_new ident stages = Inr m"
  shows "seq_inv m" "sq_stages m = stages" "sq_pending m = []" "fst (seq_group m h) = Map.empty"
proof -
  obtain msk first where *: "stage_mask_loop stages = Inr (msk, first)"
    "m = \<lparr>sq_id = ident, sq_stages = stages, sq_stages_mask = msk, sq_first_stage = first,
            sq_on_complete = [], sq_slots = (\<lambda>_. zero_record), sq_pending = []\<rparr>"
    using assms by (auto simp: SeqMatcher_new_def)
  show "seq_inv m" using stage_mask_loop_correct [OF *(1)] *(2)
    by (simp add: seq_inv_def) (simp add: zero_record_def)
  show "sq_stages m = stages" "sq_pending m = []" "fst (seq_group m h) = Map.empty"
    using *(2) by (simp_all add: seq_group_def)
qed

text \<open>
  The record an event of a known stage leaves in its slot: the put after the conditional reset.
\<close>

definition seq_slot_next :: "RawEvent \<Rightarrow> 'w SeqMatcher \<Rightarrow> Record" where
  "seq_slot_next e m =
     (let slot = sq_slots m (tid_hash (re_tid e));
          slot = (if uint (re_stage e) = sq_first_stage m
                  then slot\<lparr>rec_filled := 0, rec_tid := re_tid e\<rparr> else slot)
      in record_put (unat (re_stage e)) (re_ts e) (2 ^ unat (re_stage e)) slot)"

lemma seq_feed_eq:
  assumes "seq_inv m" "unat (re_stage e) < 64"
  shows "SeqMatcher_feed e (m, w) =
    (if uint (re_stage e) \<notin> set (sq_stages m) then Inr (m, w)
     else let slot = seq_slot_next e m; h = tid_hash (re_tid e) in
       if record_complete (sq_stages_mask m) slot
       then bindR (foldR (\<lambda>cb. cb (make_snapshot m slot)) (sq_on_complete m) w)
              (\<lambda>w. Inr (m\<lparr>sq_pending := sq_pending m @ record_deltas (sq_stages m) slot,
                          sq_slots := (sq_slots m)(h := slot\<lparr>rec_filled := 0\<rparr>)\<rparr>, w))
       else Inr (m\<lparr>sq_slots := (sq_slots m)(h := slot)\<rparr>, w))"
proof -
  have "sq_stages_mask m AND 2 ^ unat (re_stage e) = 0 \<longleftrightarrow> uint (re_stage e) \<notin> set (sq_stages m)"
    using mask_test [of "sq_stages m" "sq_stages_mask m" "unat (re_stage e)"] assms
    by (simp add: seq_inv_def)
  moreover have "shl1 (uint (re_stage e)) = Inr (2 ^ unat (re_stage e))"
    using assms(2) by (rule shl1_uint)
  ultimately show ?thesis
    by (simp add: SeqMatcher_feed_def Let_def seq_slot_next_def make_snapshot_def)
qed

lemma seq_slot_next_map:
  assumes inv: "seq_inv m" and mem: "uint (re_stage e) \<in> set (sq_stages m)"
  defines "g \<equiv> (if \<forall>s'\<in>set (sq_stages m). uint (re_stage e) \<le> s' then (Map.empty, re_tid e)
     else seq_group m (tid_hash (re_tid e)))"
  shows "record_map (sq_stages m) (seq_slot_next e m) = (fst g)(uint (re_stage e) \<mapsto> re_ts e)"
    and "rec_tid (seq_slot_next e m) = snd g"
    and "length (rec_ts (seq_slot_next e m)) = 64"
proof -
  have v: "valid_stages (sq_stages m)" and f: "first_of (sq_stages m) (sq_first_stage m)"
    and len: "length (rec_ts (sq_slots m h)) = 64" for h
    using inv by (auto simp: seq_inv_def)
  note first = first_of_iff [OF v f mem]
  have put: "record_map (sq_stages m) (record_put (unat (re_stage e)) (re_ts e) (2 ^ unat (re_stage e)) r)
      = (record_map (sq_stages m) r)(uint (re_stage e) \<mapsto> re_ts e)" if "length (rec_ts r) = 64" for r
    using record_map_put [OF v that mem, of "re_ts e"] by simp
  show "record_map (sq_stages m) (seq_slot_next e m) = (fst g)(uint (re_stage e) \<mapsto> re_ts e)"
    using first by (simp add: seq_slot_next_def put len g_def seq_group_def Let_def)
  show "rec_tid (seq_slot_next e m) = snd g"
    using first by (simp add: seq_slot_next_def g_def seq_group_def Let_def)
  show "length (rec_ts (seq_slot_next e m)) = 64"
    by (simp add: seq_slot_next_def len Let_def)
qed

lemma seq_spec_step_eq:
  assumes inv: "seq_inv m"
  shows "seq_spec_step (sq_stages m) e (seq_group m (tid_hash (re_tid e))) =
    (if uint (re_stage e) \<notin> set (sq_stages m) then (seq_group m (tid_hash (re_tid e)), None)
     else let r = seq_slot_next e m; f = record_map (sq_stages m) r in
       if record_complete (sq_stages_mask m) r then ((Map.empty, rec_tid r), Some (f, rec_tid r))
       else ((f, rec_tid r), None))"
proof (cases "uint (re_stage e) \<in> set (sq_stages m)")
  case True
  have "record_complete (sq_stages_mask m) (seq_slot_next e m) \<longleftrightarrow>
      set (sq_stages m) \<subseteq> dom (record_map (sq_stages m) (seq_slot_next e m))"
    using inv by (intro record_complete_iff) (auto simp: seq_inv_def)
  with True show ?thesis
    using seq_slot_next_map [OF inv True]
    by (simp add: seq_spec_step_def Let_def split_beta)
next
  case False
  then show ?thesis by (simp add: seq_spec_step_def Let_def)
qed

text \<open>The snapshot given to the callbacks holds the time stamps of the completed group.\<close>

lemma fold_upd_stages:
  "valid_stages stages \<Longrightarrow>
   fold (\<lambda>s t. t(nat s \<mapsto> g s)) stages f n =
     (if int n \<in> set stages then Some (g (int n)) else f n)"
proof (induction stages arbitrary: f)
  case Nil
  then show ?case by simp
next
  case (Cons s stages)
  then have "0 \<le> s" "valid_stages stages" by (auto simp: valid_stages_def)
  with Cons.IH show ?case by auto
qed

lemma make_snapshot_ts:
  assumes "seq_inv m"
  shows "snap_ts (make_snapshot m r) n =
    (if int n \<in> set (sq_stages m) then Some (rec_ts r ! n) else None)"
  using assms fold_upd_stages [of "sq_stages m" "\<lambda>s. rec_ts r ! nat s" Map.empty n]
  by (simp add: make_snapshot_def seq_inv_def)

lemma seq_slot_next_inv:
  assumes inv: "seq_inv m" and mem: "uint (re_stage e) \<in> set (sq_stages m)"
    and b: "bit (rec_filled (seq_slot_next e m)) (nat (sq_first_stage m))"
  shows "tid_hash (rec_tid (seq_slot_next e m)) = tid_hash (re_tid e)"
proof -
  have ne: "sq_stages m \<noteq> []" using mem by auto
  have v: "valid_stages (sq_stages m)" and f: "first_of (sq_stages m) (sq_first_stage m)"
    using inv by (auto simp: seq_inv_def)
  have "0 \<le> sq_first_stage m"
    using valid_stagesD [OF v first_of_mem [OF v f ne]] by simp
  then have "uint (re_stage e) = sq_first_stage m \<or> nat (sq_first_stage m) \<noteq> unat (re_stage e)"
    by (metis nat_0_le uint_nat)
  with b inv ne show ?thesis
    by (auto simp: seq_slot_next_def Let_def bit_or_iff seq_inv_def split: if_splits)
qed

lemma seq_inv_upd:
  assumes inv: "seq_inv m" and "length (rec_ts r) = 64"
    and "bit (rec_filled r) (nat (sq_first_stage m)) \<Longrightarrow> tid_hash (rec_tid r) = h"
  shows "seq_inv (m\<lparr>sq_pending := p, sq_slots := (sq_slots m)(h := r)\<rparr>)"
    and "seq_inv (m\<lparr>sq_slots := (sq_slots m)(h := r)\<rparr>)"
  using assms by (simp_all add: seq_inv_def)

text \<open>
  One \<open>feed\<close> against one step of the specification: the state of the event's slot, every other slot,
  the deltas, and what happens to the world.
\<close>

lemma seq_feed_refines:
  assumes inv: "seq_inv m" and st: "unat (re_stage e) < 64"
    and feed: "SeqMatcher_feed e (m, w) = Inr (m', w')"
    and step: "seq_spec_step (sq_stages m) e (seq_group m (tid_hash (re_tid e))) = (g', out)"
  shows "seq_inv m' \<and> sq_stages m' = sq_stages m \<and>
    seq_group m' = (seq_group m)(tid_hash (re_tid e) := g') \<and>
    sq_pending m' = sq_pending m @ (case out of None \<Rightarrow> [] | Some d \<Rightarrow> group_deltas (sq_stages m) d) \<and>
    (case out of None \<Rightarrow> w' = w | Some d \<Rightarrow> tid_hash (snd d) = tid_hash (re_tid e))"
proof (cases "uint (re_stage e) \<in> set (sq_stages m)")
  case False
  then have "m' = m" "w' = w"
    using feed by (simp_all add: seq_feed_eq [OF inv st])
  moreover have "g' = seq_group m (tid_hash (re_tid e))" "out = None"
    using step False by (simp_all add: seq_spec_step_eq [OF inv])
  ultimately show ?thesis using inv by simp
next
  case True
  let ?r = "seq_slot_next e m" and ?h = "tid_hash (re_tid e)"
  note sn = seq_slot_next_map(3) [OF inv True]
  note si = seq_slot_next_inv [OF inv True]
  show ?thesis
  proof (cases "record_complete (sq_stages_mask m) ?r")
    case False
    then have m': "m' = m\<lparr>sq_slots := (sq_slots m)(?h := ?r)\<rparr>" "w' = w"
      and g': "g' = (record_map (sq_stages m) ?r, rec_tid ?r)" "out = None"
      using feed step True by (simp_all add: seq_feed_eq [OF inv st] seq_spec_step_eq [OF inv] Let_def)
    have "seq_inv m'" unfolding m' using sn si by (intro seq_inv_upd inv)
    then show ?thesis using m' g' by (auto simp: seq_group_def fun_eq_iff)
  next
    case c: True
    then have m': "m' = m\<lparr>sq_pending := sq_pending m @ record_deltas (sq_stages m) ?r,
                          sq_slots := (sq_slots m)(?h := ?r\<lparr>rec_filled := 0\<rparr>)\<rparr>"
      and g': "g' = (Map.empty, rec_tid ?r)" "out = Some (record_map (sq_stages m) ?r, rec_tid ?r)"
      using feed step True by (auto simp: seq_feed_eq [OF inv st] seq_spec_step_eq [OF inv] Let_def)
    have dom: "set (sq_stages m) \<subseteq> dom (record_map (sq_stages m) ?r)"
      using c inv by (subst record_complete_iff [symmetric]) (auto simp: seq_inv_def)
    have v: "valid_stages (sq_stages m)" "first_of (sq_stages m) (sq_first_stage m)"
      using inv by (auto simp: seq_inv_def)
    have "sq_stages m \<noteq> []" using True by auto
    then have "bit (rec_filled ?r) (nat (sq_first_stage m))"
      using first_of_mem [OF v] dom by (auto simp: record_map_def dom_def split: if_splits)
    then have t: "tid_hash (rec_tid ?r) = ?h" by (rule si)
    have "seq_inv m'" unfolding m' using sn by (intro seq_inv_upd inv) simp_all
    then show ?thesis using m' g' t record_deltas_map [OF dom]
      by (auto simp: seq_group_def fun_eq_iff group_deltas_def)
  qed
qed

lemma seq_feed_total:
  assumes "seq_inv m" "unat (re_stage e) < 64"
    and "\<forall>cb\<in>set (sq_on_complete m). \<forall>s w. \<exists>w'. cb s w = Inr w'"
  shows "\<exists>m' w'. SeqMatcher_feed e (m, w) = Inr (m', w') \<and> sq_on_complete m' = sq_on_complete m"
proof -
  have "\<exists>w'. foldR (\<lambda>cb. cb s) cbs w = Inr w'"
    if "\<forall>cb\<in>set cbs. \<forall>s w. \<exists>w'. cb s w = Inr w'" for s w and cbs :: "(StageSnapshot \<Rightarrow> 'a \<Rightarrow> fault + 'a) list"
    using that by (induction cbs arbitrary: w) (simp, simp, metis)
  from this [OF assms(3)] show ?thesis
    unfolding seq_feed_eq [OF assms(1,2)] by (auto simp: Let_def)
qed

section \<open>Runs\<close>

abbreviation seq_run :: "RawEvent list \<Rightarrow> 'w SeqMatcher \<times> 'w \<Rightarrow> fault + ('w SeqMatcher \<times> 'w)" where
  "seq_run \<equiv> foldR SeqMatcher_feed"

definition of_slot :: "nat \<Rightarrow> Delta list \<Rightarrow> Delta list" where
  "of_slot h = filter (\<lambda>d. tid_hash (d_tid d) = h)"

definition slot_events :: "nat \<Rightarrow> RawEvent list \<Rightarrow> RawEvent list" where
  "slot_events h = filter (\<lambda>e. tid_hash (re_tid e) = h)"

lemma of_slot_append [simp]: "of_slot h (xs @ ys) = of_slot h xs @ of_slot h ys"
  by (simp add: of_slot_def)

lemma of_slot_group_deltas:
  "of_slot h (group_deltas stages g) = (if tid_hash (snd g) = h then group_deltas stages g else [])"
  by (auto simp: of_slot_def group_deltas_def map_deltas_def filter_map comp_def split_beta)

lemma seq_run_slot:
  assumes "seq_inv m" "\<forall>e\<in>set es. unat (re_stage e) < 64" "seq_run es (m, w) = Inr (m', w')"
  shows "seq_inv m' \<and> sq_stages m' = sq_stages m \<and>
    of_slot h (sq_pending m') = of_slot h (sq_pending m) @
      concat (map (group_deltas (sq_stages m)) (seq_spec_run (sq_stages m) (slot_events h es) (seq_group m h)))"
  using assms
proof (induction es arbitrary: m w)
  case Nil
  then show ?case by (simp add: slot_events_def)
next
  case (Cons e es)
  obtain m1 w1 where f: "SeqMatcher_feed e (m, w) = Inr (m1, w1)" and run: "seq_run es (m1, w1) = Inr (m', w')"
    using Cons.prems(3) by auto
  obtain g' out where step: "seq_spec_step (sq_stages m) e (seq_group m (tid_hash (re_tid e))) = (g', out)"
    by (metis surj_pair)
  note r = seq_feed_refines [OF Cons.prems(1) _ f step]
  have st: "unat (re_stage e) < 64" "\<forall>e\<in>set es. unat (re_stage e) < 64" using Cons.prems(2) by auto
  note r = r [OF st(1)]
  have inv1: "seq_inv m1" using r by blast
  note ih = Cons.IH [OF inv1 st(2) run]
  show ?case
  proof (cases "tid_hash (re_tid e) = h")
    case True
    have ev: "slot_events h (e # es) = e # slot_events h es" using True by (simp add: slot_events_def)
    show ?thesis using ih r step True unfolding ev
      by (cases out) (simp_all add: of_slot_group_deltas)
  next
    case False
    have ev: "slot_events h (e # es) = slot_events h es" using False by (simp add: slot_events_def)
    show ?thesis using ih r False unfolding ev
      by (cases out) (simp_all add: of_slot_group_deltas)
  qed
qed

lemma seq_run_total:
  assumes "seq_inv m" "\<forall>e\<in>set es. unat (re_stage e) < 64"
    and "\<forall>cb\<in>set (sq_on_complete m). \<forall>s w. \<exists>w'. cb s w = Inr w'"
  shows "\<exists>m' w'. seq_run es (m, w) = Inr (m', w')"
  using assms
proof (induction es arbitrary: m w)
  case Nil
  then show ?case by simp
next
  case (Cons e es)
  have e64: "unat (re_stage e) < 64" using Cons.prems(2) by simp
  obtain m1 w1 where f: "SeqMatcher_feed e (m, w) = Inr (m1, w1)" "sq_on_complete m1 = sq_on_complete m"
    using seq_feed_total [OF Cons.prems(1) e64 Cons.prems(3)] by blast
  have "seq_inv m1"
    using seq_feed_refines [OF Cons.prems(1) e64 f(1)] by (metis surj_pair)
  with Cons f show ?case by auto
qed

section \<open>A request whose stages arrive in order\<close>

lemma seq_spec_run_relevant:
  "seq_spec_run stages es g = seq_spec_run stages (filter (\<lambda>e. uint (re_stage e) \<in> set stages) es) g"
  by (induction es arbitrary: g) (auto simp: seq_spec_step_def Let_def split: prod.splits option.splits)

lemma seq_spec_run_suffix:
  assumes "sorted_wrt (<) (pre @ post)" "pre \<noteq> []" "post \<noteq> []" "dom f = set pre"
    and "map (\<lambda>e. uint (re_stage e)) rs = post"
  shows "seq_spec_run (pre @ post) rs (f, t) = [(f(post [\<mapsto>] map re_ts rs), t)]"
  using assms
proof (induction post arbitrary: pre f rs)
  case Nil
  then show ?case by simp
next
  case (Cons s post)
  from Cons.prems(5) obtain e rs' where rs: "rs = e # rs'" and e: "uint (re_stage e) = s"
    and rs': "map (\<lambda>e. uint (re_stage e)) rs' = post" by auto
  let ?f = "f(s \<mapsto> re_ts e)"
  have dom: "dom ?f = set (pre @ [s])" using Cons.prems(4) by auto
  have gt: "\<forall>x\<in>set pre. x < s" using Cons.prems(1) by (auto simp: sorted_wrt_append)
  obtain p where "p \<in> set pre" using Cons.prems(2) by (meson list.set_sel(1))
  then have nofirst: "\<not> (\<forall>s'\<in>set (pre @ s # post). s \<le> s')" using gt by (metis UnCI linorder_not_le set_append)
  show ?case
  proof (cases "post = []")
    case True
    then have "seq_spec_step (pre @ s # post) e (f, t) = ((Map.empty, t), Some (?f, t))"
      using nofirst dom by (auto simp: seq_spec_step_def Let_def e)
    then show ?thesis using True rs rs' by (simp add: fun_eq_iff)
  next
    case False
    then obtain p' where p': "p' \<in> set post" by (meson list.set_sel(1))
    have "\<forall>y\<in>set post. y \<notin> set (pre @ [s])"
      using Cons.prems(1) by (fastforce simp: sorted_wrt_append)
    then have "\<not> set (pre @ s # post) \<subseteq> dom ?f" using p' dom by auto
    then have step: "seq_spec_step (pre @ s # post) e (f, t) = ((?f, t), None)"
      using nofirst by (auto simp: seq_spec_step_def Let_def e)
    have "seq_spec_run ((pre @ [s]) @ post) rs' (?f, t) = [(?f(post [\<mapsto>] map re_ts rs'), t)]"
      using Cons.prems(1) False dom rs' by (intro Cons.IH [where f = ?f]) (simp, simp, simp, rule dom, simp)
    then show ?thesis using step rs by simp
  qed
qed

lemma seq_spec_run_in_order:
  assumes "sorted_wrt (<) stages" "stages \<noteq> []" "map (\<lambda>e. uint (re_stage e)) rs = stages"
  shows "seq_spec_run stages rs g = [([stages [\<mapsto>] map re_ts rs], re_tid (hd rs))]"
proof -
  obtain s post where st: "stages = s # post" using assms(2) by (cases stages) auto
  obtain e rs' where rs: "rs = e # rs'" and e: "uint (re_stage e) = s"
    and rs': "map (\<lambda>e. uint (re_stage e)) rs' = post" using assms(3) st by auto
  have first: "\<forall>s'\<in>set (s # post). s \<le> s'" using assms(1) st by auto
  show ?thesis
  proof (cases "post = []")
    case True
    then show ?thesis using first st rs rs' e by (auto simp: seq_spec_step_def Let_def fun_eq_iff)
  next
    case False
    have "\<not> set stages \<subseteq> dom (Map.empty(s \<mapsto> re_ts e))" using False assms(1) st
      by (cases post) auto
    then have step: "seq_spec_step stages e g = (([s \<mapsto> re_ts e], re_tid e), None)"
      using first st e by (auto simp: seq_spec_step_def Let_def fun_eq_iff)
    have "seq_spec_run ([s] @ post) rs' ([s \<mapsto> re_ts e], re_tid e) =
        [([s \<mapsto> re_ts e](post [\<mapsto>] map re_ts rs'), re_tid e)]"
      using False assms(1) st rs' by (intro seq_spec_run_suffix) auto
    then show ?thesis using step st rs by simp
  qed
qed

section \<open>The base-class contract\<close>

lemma seq_feed_pending:
  "SeqMatcher_feed e (m\<lparr>sq_pending := p\<rparr>, w) =
   (case SeqMatcher_feed e (m\<lparr>sq_pending := []\<rparr>, w) of Inl x \<Rightarrow> Inl x
    | Inr (n, w') \<Rightarrow> Inr (n\<lparr>sq_pending := p @ sq_pending n\<rparr>, w'))"
proof -
  have snap: "make_snapshot (m\<lparr>sq_pending := q\<rparr>) r = make_snapshot m r" for q r
    by (simp add: make_snapshot_def)
  show ?thesis
  proof (cases "shl1 (uint (re_stage e))")
    case (Inr b)
    then show ?thesis
      by (simp add: SeqMatcher_feed_def Let_def snap bindR_case split: sum.split)
  qed (simp add: SeqMatcher_feed_def)
qed

interpretation seq_matcher: matcher SeqMatcher_feed SeqMatcher_drain sq_pending "\<lambda>m. m\<lparr>sq_pending := []\<rparr>"
proof
  fix e and m1 m2 n1 :: "'a SeqMatcher" and w w1
  assume core: "m1\<lparr>sq_pending := []\<rparr> = m2\<lparr>sq_pending := []\<rparr>"
    and feed: "SeqMatcher_feed e (m1, w) = Inr (n1, w1)"
  have self: "SeqMatcher_feed e (m, w) =
     (case SeqMatcher_feed e (m\<lparr>sq_pending := []\<rparr>, w) of Inl x \<Rightarrow> Inl x
      | Inr (n, w') \<Rightarrow> Inr (n\<lparr>sq_pending := sq_pending m @ sq_pending n\<rparr>, w'))" for m :: "'a SeqMatcher"
    using seq_feed_pending [where m = m and p = "sq_pending m"] by simp
  obtain n where n: "SeqMatcher_feed e (m1\<lparr>sq_pending := []\<rparr>, w) = Inr (n, w1)"
    "n1 = n\<lparr>sq_pending := sq_pending m1 @ sq_pending n\<rparr>"
    using feed self [of m1] by (auto split: sum.splits)
  then have "SeqMatcher_feed e (m2, w) = Inr (n\<lparr>sq_pending := sq_pending m2 @ sq_pending n\<rparr>, w1)"
    using self [of m2] core by simp
  with n(2) show "\<exists>n2 ds. SeqMatcher_feed e (m2, w) = Inr (n2, w1) \<and>
      n1\<lparr>sq_pending := []\<rparr> = n2\<lparr>sq_pending := []\<rparr> \<and>
      sq_pending n1 = sq_pending m1 @ ds \<and> sq_pending n2 = sq_pending m2 @ ds"
    by auto
qed (simp_all add: SeqMatcher_drain_def)

section \<open>A matcher of two stages\<close>

definition sample_seq :: "unit SeqMatcher" where
  "sample_seq = \<lparr>sq_id = ''seq'', sq_stages = [0, 1], sq_stages_mask = 3, sq_first_stage = 0, sq_on_complete = [],
     sq_slots = (\<lambda>_. zero_record), sq_pending = []\<rparr>"

lemma sample_seq_new: "SeqMatcher_new ''seq'' [0, 1] = Inr sample_seq"
  by (simp add: SeqMatcher_new_def stage_mask_loop_def sample_seq_def)

lemmas sample_seq_inv = SeqMatcher_new_inv(1) [OF sample_seq_new]

lemma sample_seq_group: "seq_group sample_seq h = (Map.empty, 0)"
  by (simp add: seq_group_def sample_seq_def)

section \<open>Properties\<close>

text \<open>
  C1. Slot refinement. Whatever the interleaving of threads, the deltas that a run of the
  sequential matcher adds for one hash slot are exactly those of the abstract group machine run on
  that slot's events alone, and the matcher's invariant is kept.
\<close>

theorem seq_run_refines_slot_spec:
  assumes "seq_inv m" and "\<forall>e\<in>set es. unat (re_stage e) < 64"
    and "seq_run es (m, w) = Inr (m', w')"
  shows "seq_inv m' \<and> (\<forall>h. of_slot h (sq_pending m') = of_slot h (sq_pending m) @
      concat (map (group_deltas (sq_stages m)) (seq_spec_run (sq_stages m) (slot_events h es) (seq_group m h))))"
  using seq_run_slot [OF assms] by blast

theorem seq_run_refines_slot_spec_witness:
  "\<exists>m'. seq_run [mk_event 0 7 100 0, mk_event 0 8 110 0, mk_event 1 7 150 0] (sample_seq, ()) = Inr (m', ()) \<and> seq_inv m' \<and>
    of_slot 7 (sq_pending m') = concat (map (group_deltas [0, 1])
      (seq_spec_run [0, 1] [mk_event 0 7 100 0, mk_event 1 7 150 0] (Map.empty, 0)))"
proof -
  let ?es = "[mk_event 0 7 100 0, mk_event 0 8 110 0, mk_event 1 7 150 0]"
  have st: "\<forall>e\<in>set ?es. unat (re_stage e) < 64" by simp
  obtain m' where run: "seq_run ?es (sample_seq, ()) = Inr (m', ())"
    using seq_run_total [OF sample_seq_inv st] by (auto simp: sample_seq_def)
  have ev: "slot_events 7 ?es = [mk_event 0 7 100 0, mk_event 1 7 150 0]"
    by (simp add: slot_events_def tid_hash_def TID_SLOTS_def)
  show ?thesis
    using seq_run_refines_slot_spec [OF sample_seq_inv st run] run ev sample_seq_group [of 7]
    by (auto simp: sample_seq_def of_slot_def)
qed

text \<open>
  C12. A request is paired. The stages of the matcher are configured in ascending order, there is one, the callbacks
  do not fault, and the stages of all events are below 64. When the events of a slot that concern the
  matcher are exactly one request whose stages arrive in this order, then, between any events of other
  slots and any events of stages the matcher does not have, and from any earlier state, the run completes and
  yields for the slot exactly the deltas of that request, attributed to the thread of its first event. A slot
  is shared by the threads whose ids agree modulo 65536.
\<close>

theorem seq_in_order_request:
  assumes inv: "seq_inv m" and st: "\<forall>e\<in>set es. unat (re_stage e) < 64"
    and cbs: "\<forall>cb\<in>set (sq_on_complete m). \<forall>s w. \<exists>w'. cb s w = Inr w'"
    and asc: "sorted_wrt (<) (sq_stages m)" and ne: "sq_stages m \<noteq> []"
    and req: "filter (\<lambda>e. uint (re_stage e) \<in> set (sq_stages m)) (slot_events h es) = rs"
    and ord: "map (\<lambda>e. uint (re_stage e)) rs = sq_stages m"
  shows "\<exists>m' w'. seq_run es (m, w) = Inr (m', w') \<and>
    of_slot h (sq_pending m') = of_slot h (sq_pending m) @
      map_deltas (sq_stages m) [sq_stages m [\<mapsto>] map re_ts rs] (re_tid (hd rs))"
proof -
  obtain m' w' where run: "seq_run es (m, w) = Inr (m', w')"
    using seq_run_total [OF inv st cbs] by blast
  have "seq_spec_run (sq_stages m) (slot_events h es) (seq_group m h) =
      [([sq_stages m [\<mapsto>] map re_ts rs], re_tid (hd rs))]"
    using seq_spec_run_in_order [OF asc ne ord] req
    by (subst seq_spec_run_relevant) simp
  with seq_run_slot [OF inv st run, of h] run show ?thesis
    by (auto simp: group_deltas_def)
qed

theorem seq_in_order_request_witness:
  "\<exists>m'. seq_run [mk_event 0 7 100 0, mk_event 0 8 110 0, mk_event 5 7 120 0, mk_event 1 7 150 0] (sample_seq, ()) = Inr (m', ()) \<and>
    of_slot 7 (sq_pending m') =
      [\<lparr>d_val_ns = 50, d_from_stage = 0, d_to_stage = 1, d_ts_from = 100, d_ts_to = 150, d_tid = 7\<rparr>]"
proof -
  let ?es = "[mk_event 0 7 100 0, mk_event 0 8 110 0, mk_event 5 7 120 0, mk_event 1 7 150 0]"
  have 1: "\<forall>e\<in>set ?es. unat (re_stage e) < 64" by simp
  have 2: "\<forall>cb\<in>set (sq_on_complete sample_seq). \<forall>s w. \<exists>w'. cb s w = Inr w'" by (simp add: sample_seq_def)
  have 3: "sorted_wrt (<) (sq_stages sample_seq)" "sq_stages sample_seq \<noteq> []" by (simp_all add: sample_seq_def)
  have 4: "filter (\<lambda>e. uint (re_stage e) \<in> set (sq_stages sample_seq)) (slot_events 7 ?es) = [mk_event 0 7 100 0, mk_event 1 7 150 0]"
    by (simp add: slot_events_def tid_hash_def TID_SLOTS_def sample_seq_def)
  have 5: "map (\<lambda>e. uint (re_stage e)) [mk_event 0 7 100 0, mk_event 1 7 150 0] = sq_stages sample_seq"
    by (simp add: sample_seq_def)
  show ?thesis
    using seq_in_order_request [OF sample_seq_inv 1 2 3 4 5, of "()"] by (simp add: sample_seq_def of_slot_def map_deltas_def)
qed

text \<open>
  C34. Construction. A sequential matcher can be built without undefined behaviour exactly when
  every configured stage lies between 0 and 63; the matcher built then satisfies the invariant, has
  no open group and nothing to drain.
\<close>

theorem seq_new_defined_iff:
  "case SeqMatcher_new ident stages of
     Inl f \<Rightarrow> \<not> valid_stages stages
   | Inr m \<Rightarrow> valid_stages stages \<and> seq_inv (m :: 'w SeqMatcher) \<and> sq_pending m = [] \<and> (\<forall>h. fst (seq_group m h) = Map.empty)"
proof (cases "SeqMatcher_new ident stages :: fault + 'w SeqMatcher")
  case (Inl f)
  then show ?thesis using stage_mask_loop_defined [of stages] by (auto simp: SeqMatcher_new_def)
next
  case (Inr m)
  then show ?thesis using SeqMatcher_new_inv [OF Inr] stage_mask_loop_correct(1) by (auto simp: SeqMatcher_new_def)
qed

text \<open>
  Threads are told apart by their hash only. An event that does not carry the first stage is
  handled the same for any two thread ids that agree modulo 65536: the slot's \<open>tid\<close> is never
  compared with the event's, so such a thread can complete a group another thread opened.
\<close>

theorem seq_feed_ignores_tid_within_slot:
  assumes "tid_hash t = tid_hash (re_tid e)" and "uint (re_stage e) \<noteq> sq_first_stage m"
  shows "SeqMatcher_feed (e\<lparr>re_tid := t\<rparr>) (m, w) = SeqMatcher_feed e (m, w)"
  using assms by (cases "shl1 (uint (re_stage e))") (simp_all add: SeqMatcher_feed_def Let_def)

theorem seq_feed_ignores_tid_within_slot_witness:
  "SeqMatcher_feed (mk_event 1 65543 150 0) (sample_seq, ()) = SeqMatcher_feed (mk_event 1 7 150 0) (sample_seq, ())"
  using seq_feed_ignores_tid_within_slot [of 65543 "mk_event 1 7 150 0" sample_seq "()"]
  by (simp add: tid_hash_def TID_SLOTS_def sample_seq_def) (simp add: mk_event_def)

text \<open>
  Draining the sequential matcher between two batches of events delivers the same deltas, in
  the same order, as one drain at the end.
\<close>

theorem seq_drain_between:
  assumes "seq_run xs (m, w) = Inr (m1, w1)"
    and "seq_run ys (snd (SeqMatcher_drain m1), w1) = Inr (m2, w2)"
  shows "\<exists>m3. seq_run (xs @ ys) (m, w) = Inr (m3, w2) \<and>
    fst (SeqMatcher_drain m3) = fst (SeqMatcher_drain m1) @ fst (SeqMatcher_drain m2)"
  using seq_matcher.drain_between [OF assms] by (simp add: seq_matcher.drain_out)

theorem seq_drain_between_witness:
  "\<exists>m1 m2 m3. seq_run [mk_event 0 7 100 0] (sample_seq, ()) = Inr (m1, ()) \<and>
    seq_run [mk_event 1 7 150 0] (snd (SeqMatcher_drain m1), ()) = Inr (m2, ()) \<and>
    seq_run [mk_event 0 7 100 0, mk_event 1 7 150 0] (sample_seq, ()) = Inr (m3, ()) \<and>
    fst (SeqMatcher_drain m3) = fst (SeqMatcher_drain m1) @ fst (SeqMatcher_drain m2)"
proof -
  have cb: "\<forall>cb\<in>set (sq_on_complete sample_seq). \<forall>s w. \<exists>w'. cb s w = Inr w'" by (simp add: sample_seq_def)
  obtain m1 where 1: "seq_run [mk_event 0 7 100 0] (sample_seq, ()) = Inr (m1, ())"
    using seq_run_total [OF sample_seq_inv _ cb, of "[mk_event 0 7 100 0]"] by auto
  then have "sq_on_complete m1 = []"
    by (auto simp: SeqMatcher_feed_def Let_def sample_seq_def split: if_splits)
  moreover have "seq_inv m1" using seq_run_slot [OF sample_seq_inv _ 1] by simp
  ultimately have "seq_inv (snd (SeqMatcher_drain m1))" "\<forall>cb\<in>set (sq_on_complete (snd (SeqMatcher_drain m1))). \<forall>s w. \<exists>w'. cb s w = Inr w'"
    by (simp_all add: SeqMatcher_drain_def seq_inv_def)
  then obtain m2 where 2: "seq_run [mk_event 1 7 150 0] (snd (SeqMatcher_drain m1), ()) = Inr (m2, ())"
    using seq_run_total [of "snd (SeqMatcher_drain m1)" "[mk_event 1 7 150 0]"] by auto
  show ?thesis using seq_drain_between [OF 1 2] 1 2 by (metis append_Cons append_Nil)
qed

end
