(* ===== verification/Key_Matcher.thy ===== *)
theory Key_Matcher
  imports Matcher
begin

text \<open>
  \<open>KeyMatcher\<close> of \<open>src/matcher.cpp\<close>: events are grouped by request id, whatever their thread and
  order. The state is a hash map from keys to records; a completed record is erased. The main
  results: a run acts on each key as if only that key's events had been fed, and the events of one
  request complete its group in any order.
\<close>

section \<open>Model\<close>

record KeyMatcher =
  km_id :: string
  km_stages :: "int list"
  km_stages_mask :: u64
  km_first_stage :: int
  km_records :: "u64 \<Rightarrow> Record option"
  km_pending :: "Delta list"

definition KeyMatcher_new :: "string \<Rightarrow> int list \<Rightarrow> fault + KeyMatcher" where
  "KeyMatcher_new ident stages =
     bindR (stage_mask_loop stages) (\<lambda>(msk, first).
       Inr \<lparr>km_id = ident, km_stages = stages, km_stages_mask = msk, km_first_stage = first,
            km_records = Map.empty, km_pending = []\<rparr>)"

definition KeyMatcher_feed :: "RawEvent \<Rightarrow> KeyMatcher \<Rightarrow> fault + KeyMatcher" where
  "KeyMatcher_feed e m =
     (let stage = uint (re_stage e) in
      bindR (shl1 stage) (\<lambda>b.
        if (km_stages_mask m AND b) = 0 then Inr m
        else
          let r = (case km_records m (re_key e) of None \<Rightarrow> zero_record | Some r \<Rightarrow> r);
              r = (if stage = km_first_stage m then r\<lparr>rec_tid := re_tid e\<rparr> else r);
              r = record_put (nat stage) (re_ts e) b r
          in if record_complete (km_stages_mask m) r
             then Inr (m\<lparr>km_pending := km_pending m @ record_deltas (km_stages m) r,
                         km_records := (km_records m)(re_key e := None)\<rparr>)
             else Inr (m\<lparr>km_records := (km_records m)(re_key e \<mapsto> r)\<rparr>)))"

definition KeyMatcher_drain :: "KeyMatcher \<Rightarrow> Delta list \<times> KeyMatcher" where
  "KeyMatcher_drain m = (km_pending m, m\<lparr>km_pending := []\<rparr>)"

section \<open>Specification\<close>

text \<open>The group of a key: the stages seen since the key was last completed, and the thread of the last
  event that carried the smallest stage.\<close>

type_synonym key_group = "(int \<Rightarrow> u64 option) \<times> u32"

definition key_spec_step :: "int list \<Rightarrow> RawEvent \<Rightarrow> key_group \<Rightarrow> key_group \<times> key_group option" where
  "key_spec_step stages e g =
     (let s = uint (re_stage e) in
      if s \<notin> set stages then (g, None)
      else let t = (if \<forall>s'\<in>set stages. s \<le> s' then re_tid e else snd g);
               f = (fst g)(s \<mapsto> re_ts e)
           in if set stages \<subseteq> dom f then ((Map.empty, 0), Some (f, t)) else ((f, t), None))"

primrec key_spec_run :: "int list \<Rightarrow> RawEvent list \<Rightarrow> key_group \<Rightarrow> key_group list" where
  "key_spec_run stages [] g = []"
| "key_spec_run stages (e # es) g =
     (case key_spec_step stages e g of (g', None) \<Rightarrow> key_spec_run stages es g'
      | (g', Some d) \<Rightarrow> d # key_spec_run stages es g')"

definition key_group_of :: "KeyMatcher \<Rightarrow> u64 \<Rightarrow> key_group" where
  "key_group_of m k = (case km_records m k of None \<Rightarrow> (Map.empty, 0)
     | Some r \<Rightarrow> (record_map (km_stages m) r, rec_tid r))"

definition key_group_deltas :: "int list \<Rightarrow> key_group \<Rightarrow> Delta list" where
  "key_group_deltas stages g = map_deltas stages (fst g) (snd g)"

definition key_inv :: "KeyMatcher \<Rightarrow> bool" where
  "key_inv m \<longleftrightarrow>
     valid_stages (km_stages m) \<and> mask_of (km_stages m) (km_stages_mask m) \<and>
     first_of (km_stages m) (km_first_stage m) \<and>
     (\<forall>k r. km_records m k = Some r \<longrightarrow> length (rec_ts r) = 64)"

definition key_events :: "u64 \<Rightarrow> RawEvent list \<Rightarrow> RawEvent list" where
  "key_events k = filter (\<lambda>e. re_key e = k)"

abbreviation key_run :: "RawEvent list \<Rightarrow> KeyMatcher \<Rightarrow> fault + KeyMatcher" where
  "key_run \<equiv> foldR KeyMatcher_feed"

section \<open>One event\<close>

lemma KeyMatcher_new_inv:
  assumes "KeyMatcher_new ident stages = Inr m"
  shows "key_inv m" "km_stages m = stages" "km_pending m = []" "km_records m = Map.empty"
proof -
  obtain msk first where *: "stage_mask_loop stages = Inr (msk, first)"
    "m = \<lparr>km_id = ident, km_stages = stages, km_stages_mask = msk, km_first_stage = first,
            km_records = Map.empty, km_pending = []\<rparr>"
    using assms by (auto simp: KeyMatcher_new_def)
  show "key_inv m" "km_stages m = stages" "km_pending m = []" "km_records m = Map.empty"
    using stage_mask_loop_correct [OF *(1)] *(2) by (simp_all add: key_inv_def)
qed

lemma key_feed_refines:
  assumes inv: "key_inv m" and st: "unat (re_stage e) < 64"
    and step: "key_spec_step (km_stages m) e (key_group_of m (re_key e)) = (g', out)"
  shows "\<exists>m'. KeyMatcher_feed e m = Inr m' \<and> key_inv m' \<and> km_stages m' = km_stages m \<and>
    key_group_of m' = (key_group_of m)(re_key e := g') \<and>
    km_pending m' = km_pending m @ (case out of None \<Rightarrow> [] | Some d \<Rightarrow> key_group_deltas (km_stages m) d)"
proof (cases "uint (re_stage e) \<in> set (km_stages m)")
  case False
  then have "km_stages_mask m AND 2 ^ unat (re_stage e) = 0"
    using inv st mask_test [of "km_stages m" "km_stages_mask m" "unat (re_stage e)"]
    by (simp add: key_inv_def)
  then have "KeyMatcher_feed e m = Inr m" using shl1_uint [OF st] by (simp add: KeyMatcher_feed_def Let_def)
  moreover have "g' = key_group_of m (re_key e)" "out = None"
    using step False by (simp_all add: key_spec_step_def Let_def)
  ultimately show ?thesis using inv by simp
next
  case True
  have v: "valid_stages (km_stages m)" and mk: "mask_of (km_stages m) (km_stages_mask m)"
    and f: "first_of (km_stages m) (km_first_stage m)"
    using inv by (auto simp: key_inv_def)
  define r0 where "r0 = (case km_records m (re_key e) of None \<Rightarrow> zero_record | Some r \<Rightarrow> r)"
  define r1 where "r1 = (if uint (re_stage e) = km_first_stage m then r0\<lparr>rec_tid := re_tid e\<rparr> else r0)"
  define r where "r = record_put (unat (re_stage e)) (re_ts e) (2 ^ unat (re_stage e)) r1"
  have len0: "length (rec_ts r0) = 64"
    using inv by (auto simp: r0_def key_inv_def split: option.split)
  have g0: "key_group_of m (re_key e) = (record_map (km_stages m) r0, rec_tid r0)"
    by (simp add: key_group_of_def r0_def split: option.split)
  have "length (rec_ts r1) = 64" "record_map (km_stages m) r1 = record_map (km_stages m) r0"
    using len0 by (simp_all add: r1_def)
  then have map: "record_map (km_stages m) r = (record_map (km_stages m) r0)(uint (re_stage e) \<mapsto> re_ts e)"
    using record_map_put [OF v _ True, of r1 "re_ts e"] by (simp add: r_def)
  have tid: "rec_tid r = (if \<forall>s'\<in>set (km_stages m). uint (re_stage e) \<le> s' then re_tid e else rec_tid r0)"
    using first_of_iff [OF v f True] by (simp add: r_def r1_def)
  have len: "length (rec_ts r) = 64" using len0 by (simp add: r_def r1_def)
  have "km_stages_mask m AND 2 ^ unat (re_stage e) \<noteq> 0"
    using True st mask_test [OF mk] by simp
  then have feed: "KeyMatcher_feed e m = Inr (if record_complete (km_stages_mask m) r
      then m\<lparr>km_pending := km_pending m @ record_deltas (km_stages m) r,
             km_records := (km_records m)(re_key e := None)\<rparr>
      else m\<lparr>km_records := (km_records m)(re_key e \<mapsto> r)\<rparr>)"
    using shl1_uint [OF st]
    by (simp add: KeyMatcher_feed_def Let_def r_def r1_def r0_def)
  note complete = record_complete_iff [OF v mk, of r]
  have spec: "key_spec_step (km_stages m) e (key_group_of m (re_key e)) =
     (if record_complete (km_stages_mask m) r
      then ((Map.empty, 0), Some (record_map (km_stages m) r, rec_tid r))
      else ((record_map (km_stages m) r, rec_tid r), None))"
    using True unfolding complete map tid g0 by (auto simp: key_spec_step_def Let_def)
  show ?thesis
  proof (cases "record_complete (km_stages_mask m) r")
    case c: True
    then have "g' = (Map.empty, 0)" "out = Some (record_map (km_stages m) r, rec_tid r)"
      using step spec by simp_all
    then show ?thesis using feed c inv complete
      by (auto simp: key_inv_def key_group_of_def fun_eq_iff key_group_deltas_def record_deltas_map split: option.split)
  next
    case c: False
    then have "g' = (record_map (km_stages m) r, rec_tid r)" "out = None"
      using step spec by simp_all
    then show ?thesis using feed c inv len
      by (auto simp: key_inv_def key_group_of_def fun_eq_iff split: option.split)
  qed
qed

section \<open>Runs\<close>

lemma key_run_keys:
  assumes "key_inv m" "\<forall>e\<in>set es. unat (re_stage e) < 64" "finite K" "re_key ` set es \<subseteq> K"
  shows "\<exists>m'. key_run es m = Inr m' \<and> key_inv m' \<and> km_stages m' = km_stages m \<and>
    mset (km_pending m') = mset (km_pending m) +
      (\<Sum>k\<in>K. mset (concat (map (key_group_deltas (km_stages m))
         (key_spec_run (km_stages m) (key_events k es) (key_group_of m k)))))"
  using assms(1,2,4)
proof (induction es arbitrary: m)
  case Nil
  then show ?case by (simp add: key_events_def)
next
  case (Cons e es)
  let ?k = "re_key e"
  have st: "unat (re_stage e) < 64" "\<forall>e\<in>set es. unat (re_stage e) < 64" "re_key ` set es \<subseteq> K" "?k \<in> K"
    using Cons.prems(2,3) by auto
  obtain g' out where step: "key_spec_step (km_stages m) e (key_group_of m ?k) = (g', out)"
    by (metis surj_pair)
  obtain m1 where m1: "KeyMatcher_feed e m = Inr m1" "key_inv m1" "km_stages m1 = km_stages m"
    "key_group_of m1 = (key_group_of m)(?k := g')"
    "km_pending m1 = km_pending m @ (case out of None \<Rightarrow> [] | Some d \<Rightarrow> key_group_deltas (km_stages m) d)"
    using key_feed_refines [OF Cons.prems(1) st(1) step] by blast
  let ?F = "\<lambda>m es k. mset (concat (map (key_group_deltas (km_stages m))
         (key_spec_run (km_stages m) (key_events k es) (key_group_of m k))))"
  obtain m' where m': "key_run es m1 = Inr m'" "key_inv m'" "km_stages m' = km_stages m1"
    "mset (km_pending m') = mset (km_pending m1) + (\<Sum>k\<in>K. ?F m1 es k)"
    using Cons.IH [OF m1(2) st(2,3)] by blast
  have same: "?F m (e # es) k = ?F m1 es k" if "k \<noteq> ?k" for k
    using that m1(3,4) by (simp add: key_events_def)
  have own: "?F m (e # es) ?k =
      mset (case out of None \<Rightarrow> [] | Some d \<Rightarrow> key_group_deltas (km_stages m) d) + ?F m1 es ?k"
    using step m1(3,4) by (cases out) (simp_all add: key_events_def)
  have "(\<Sum>k\<in>K. ?F m (e # es) k) = ?F m (e # es) ?k + (\<Sum>k\<in>K - {?k}. ?F m (e # es) k)"
    using assms(3) st(4) by (rule sum.remove)
  also have "(\<Sum>k\<in>K - {?k}. ?F m (e # es) k) = (\<Sum>k\<in>K - {?k}. ?F m1 es k)"
    using same by (intro sum.cong) auto
  finally have "(\<Sum>k\<in>K. ?F m (e # es) k) =
      mset (case out of None \<Rightarrow> [] | Some d \<Rightarrow> key_group_deltas (km_stages m) d) + (\<Sum>k\<in>K. ?F m1 es k)"
    using own sum.remove [OF assms(3) st(4), of "?F m1 es"] by (simp add: ac_simps)
  then have "mset (km_pending m') = mset (km_pending m) + (\<Sum>k\<in>K. ?F m (e # es) k)"
    using m'(4) m1(5) by (simp add: ac_simps)
  then show ?case using m1(1,3) m'(1,2,3) by simp
qed

section \<open>Any order\<close>

lemma key_spec_run_relevant:
  "key_spec_run stages es g = key_spec_run stages (filter (\<lambda>e. uint (re_stage e) \<in> set stages) es) g"
  by (induction es arbitrary: g) (auto simp: key_spec_step_def Let_def split: prod.splits option.splits)

text \<open>The thread a completed group is attributed to.\<close>

definition first_tid :: "int list \<Rightarrow> RawEvent list \<Rightarrow> u32 \<Rightarrow> u32" where
  "first_tid stages es t =
     fold (\<lambda>e t. if \<forall>s'\<in>set stages. uint (re_stage e) \<le> s' then re_tid e else t) es t"

lemma key_spec_run_any_order:
  assumes "distinct (map (\<lambda>e. uint (re_stage e)) rs)" "rs \<noteq> []"
    and "dom f \<inter> (\<lambda>e. uint (re_stage e)) ` set rs = {}"
    and "dom f \<union> (\<lambda>e. uint (re_stage e)) ` set rs = set stages"
  shows "key_spec_run stages rs (f, t) =
    [(f(map (\<lambda>e. uint (re_stage e)) rs [\<mapsto>] map re_ts rs), first_tid stages rs t)]"
  using assms
proof (induction rs arbitrary: f t)
  case Nil
  then show ?case by simp
next
  case (Cons e rs)
  let ?s = "uint (re_stage e)" and ?f = "f(uint (re_stage e) \<mapsto> re_ts e)"
  let ?t = "if \<forall>s'\<in>set stages. ?s \<le> s' then re_tid e else t"
  have mem: "?s \<in> set stages" using Cons.prems(4) by auto
  show ?case
  proof (cases "rs = []")
    case True
    then have "set stages \<subseteq> dom ?f" using Cons.prems(4) by auto
    then have "key_spec_step stages e (f, t) = ((Map.empty, 0), Some (?f, ?t))"
      using mem by (auto simp: key_spec_step_def Let_def)
    then show ?thesis using True by (simp add: fun_eq_iff first_tid_def)
  next
    case False
    then obtain e' where e': "e' \<in> set rs" by (meson list.set_sel(1))
    then have "uint (re_stage e') \<in> set stages" "uint (re_stage e') \<notin> dom f" "uint (re_stage e') \<noteq> ?s"
      using Cons.prems(1,3,4) by (auto, metis imageI)
    then have "\<not> set stages \<subseteq> dom ?f" by auto
    then have step: "key_spec_step stages e (f, t) = ((?f, ?t), None)"
      using mem by (auto simp: key_spec_step_def Let_def)
    have d: "dom ?f \<inter> (\<lambda>e. uint (re_stage e)) ` set rs = {}"
      "dom ?f \<union> (\<lambda>e. uint (re_stage e)) ` set rs = set stages"
      using Cons.prems(1,3,4) by auto
    have "key_spec_run stages rs (?f, ?t) =
        [(?f(map (\<lambda>e. uint (re_stage e)) rs [\<mapsto>] map re_ts rs), first_tid stages rs ?t)]"
      using Cons.prems(1) by (intro Cons.IH [OF _ False d]) simp
    then show ?thesis using step by (simp add: first_tid_def)
  qed
qed

section \<open>The base-class contract\<close>

text \<open>As a \<open>Matcher\<close> the key matcher has no callbacks: the world is passed through.\<close>

definition KeyMatcher_feed_world :: "RawEvent \<Rightarrow> KeyMatcher \<times> 'w \<Rightarrow> fault + (KeyMatcher \<times> 'w)" where
  "KeyMatcher_feed_world e = (\<lambda>(m, w). bindR (KeyMatcher_feed e m) (\<lambda>m. Inr (m, w)))"

lemma key_feed_pending:
  "KeyMatcher_feed e (m\<lparr>km_pending := p\<rparr>) =
   (case KeyMatcher_feed e (m\<lparr>km_pending := []\<rparr>) of Inl x \<Rightarrow> Inl x
    | Inr n \<Rightarrow> Inr (n\<lparr>km_pending := p @ km_pending n\<rparr>))"
  by (cases "shl1 (uint (re_stage e))") (simp_all add: KeyMatcher_feed_def Let_def)

interpretation key_matcher: matcher KeyMatcher_feed_world KeyMatcher_drain km_pending "\<lambda>m. m\<lparr>km_pending := []\<rparr>"
proof
  fix e and m1 m2 n1 :: KeyMatcher and w w1 :: 'a
  assume core: "m1\<lparr>km_pending := []\<rparr> = m2\<lparr>km_pending := []\<rparr>"
    and feed: "KeyMatcher_feed_world e (m1, w) = Inr (n1, w1)"
  have self: "KeyMatcher_feed e m =
     (case KeyMatcher_feed e (m\<lparr>km_pending := []\<rparr>) of Inl x \<Rightarrow> Inl x
      | Inr n \<Rightarrow> Inr (n\<lparr>km_pending := km_pending m @ km_pending n\<rparr>))" for m
    using key_feed_pending [where m = m and p = "km_pending m"] by simp
  obtain n where n: "KeyMatcher_feed e (m1\<lparr>km_pending := []\<rparr>) = Inr n"
    "n1 = n\<lparr>km_pending := km_pending m1 @ km_pending n\<rparr>" "w1 = w"
    using feed self [of m1] by (auto simp: KeyMatcher_feed_world_def split: sum.splits)
  then have "KeyMatcher_feed e m2 = Inr (n\<lparr>km_pending := km_pending m2 @ km_pending n\<rparr>)"
    using self [of m2] core by simp
  with n(2,3) show "\<exists>n2 ds. KeyMatcher_feed_world e (m2, w) = Inr (n2, w1) \<and>
      n1\<lparr>km_pending := []\<rparr> = n2\<lparr>km_pending := []\<rparr> \<and>
      km_pending n1 = km_pending m1 @ ds \<and> km_pending n2 = km_pending m2 @ ds"
    by (auto simp: KeyMatcher_feed_world_def)
qed (simp_all add: KeyMatcher_drain_def)

section \<open>A matcher of two stages\<close>

definition sample_key :: KeyMatcher where
  "sample_key = \<lparr>km_id = ''key'', km_stages = [0, 1], km_stages_mask = 3, km_first_stage = 0, km_records = Map.empty, km_pending = []\<rparr>"

lemma sample_key_new: "KeyMatcher_new ''key'' [0, 1] = Inr sample_key"
  by (simp add: KeyMatcher_new_def stage_mask_loop_def sample_key_def)

lemmas sample_key_inv = KeyMatcher_new_inv(1) [OF sample_key_new]

section \<open>Properties\<close>

text \<open>
  C13. Key refinement. A run of the key matcher over events of stages below 64 never faults, keeps
  the invariant, and its deltas are, as a multiset, those of the abstract group machine run for
  each key on that key's events alone.
\<close>

theorem key_run_refines_key_spec:
  assumes "key_inv m" and "\<forall>e\<in>set es. unat (re_stage e) < 64"
  shows "\<exists>m'. key_run es m = Inr m' \<and> key_inv m' \<and>
    mset (km_pending m') = mset (km_pending m) +
      (\<Sum>k\<in>re_key ` set es. mset (concat (map (key_group_deltas (km_stages m))
         (key_spec_run (km_stages m) (key_events k es) (key_group_of m k)))))"
  using key_run_keys [OF assms, of "re_key ` set es"] by auto

theorem key_run_refines_key_spec_witness:
  "\<exists>m'. key_run [mk_event 1 7 150 9, mk_event 0 8 100 9] sample_key = Inr m' \<and> key_inv m' \<and>
    mset (km_pending m') = mset (concat (map (key_group_deltas [0, 1])
      (key_spec_run [0, 1] [mk_event 1 7 150 9, mk_event 0 8 100 9] (Map.empty, 0))))"
proof -
  let ?es = "[mk_event 1 7 150 9, mk_event 0 8 100 9]"
  have "\<forall>e\<in>set ?es. unat (re_stage e) < 64" by simp
  from key_run_refines_key_spec [OF sample_key_inv this] show ?thesis
    by (auto simp: sample_key_def key_events_def key_group_of_def)
qed

text \<open>
  C30. A request is paired in any order and across threads. When the relevant events of a fresh key
  carry every stage of the matcher exactly once, in any order and from any threads, the run adds
  exactly that request's deltas for the key (attributed to the thread of the smallest stage), next
  to whatever the other keys contribute.
\<close>

theorem key_any_order_request:
  assumes inv: "key_inv m" and st: "\<forall>e\<in>set es. unat (re_stage e) < 64"
    and fresh: "km_records m k = None" and mem: "k \<in> re_key ` set es"
    and req: "filter (\<lambda>e. uint (re_stage e) \<in> set (km_stages m)) (key_events k es) = rs"
    and once: "distinct (map (\<lambda>e. uint (re_stage e)) rs)"
    and all: "(\<lambda>e. uint (re_stage e)) ` set rs = set (km_stages m)" and ne: "km_stages m \<noteq> []"
  shows "\<exists>m'. key_run es m = Inr m' \<and>
    mset (km_pending m') = mset (km_pending m) +
      mset (map_deltas (km_stages m) [map (\<lambda>e. uint (re_stage e)) rs [\<mapsto>] map re_ts rs]
              (first_tid (km_stages m) rs 0)) +
      (\<Sum>k'\<in>re_key ` set es - {k}. mset (concat (map (key_group_deltas (km_stages m))
         (key_spec_run (km_stages m) (key_events k' es) (key_group_of m k')))))"
proof -
  have "rs \<noteq> []" using all ne by auto
  then have "key_spec_run (km_stages m) rs (Map.empty, 0) =
      [([map (\<lambda>e. uint (re_stage e)) rs [\<mapsto>] map re_ts rs], first_tid (km_stages m) rs 0)]"
    using once all by (intro key_spec_run_any_order) simp_all
  then have own: "key_spec_run (km_stages m) (key_events k es) (key_group_of m k) =
      [([map (\<lambda>e. uint (re_stage e)) rs [\<mapsto>] map re_ts rs], first_tid (km_stages m) rs 0)]"
    using fresh req by (subst key_spec_run_relevant) (simp add: key_group_of_def)
  let ?F = "\<lambda>k. mset (concat (map (key_group_deltas (km_stages m))
         (key_spec_run (km_stages m) (key_events k es) (key_group_of m k))))"
  have "sum ?F (re_key ` set es) = ?F k + sum ?F (re_key ` set es - {k})"
    using mem by (intro sum.remove) simp_all
  moreover obtain m' where "key_run es m = Inr m'"
    "mset (km_pending m') = mset (km_pending m) + sum ?F (re_key ` set es)"
    using key_run_keys [OF inv st, of "re_key ` set es"] by auto
  ultimately show ?thesis by (auto simp: own key_group_deltas_def)
qed

theorem key_any_order_request_witness:
  "\<exists>m'. key_run [mk_event 1 7 150 9, mk_event 0 8 100 9] sample_key = Inr m' \<and>
    mset (km_pending m') =
      {#\<lparr>d_val_ns = 50, d_from_stage = 0, d_to_stage = 1, d_ts_from = 100, d_ts_to = 150, d_tid = 8\<rparr>#}"
proof -
  let ?es = "[mk_event 1 7 150 9, mk_event 0 8 100 9]"
  have 1: "\<forall>e\<in>set ?es. unat (re_stage e) < 64" by simp
  have 2: "km_records sample_key 9 = None" "9 \<in> re_key ` set ?es" by (simp_all add: sample_key_def)
  have 3: "filter (\<lambda>e. uint (re_stage e) \<in> set (km_stages sample_key)) (key_events 9 ?es) = ?es"
    by (simp add: key_events_def sample_key_def)
  have 4: "distinct (map (\<lambda>e. uint (re_stage e)) ?es)" "(\<lambda>e. uint (re_stage e)) ` set ?es = set (km_stages sample_key)"
    "km_stages sample_key \<noteq> []" by (auto simp: sample_key_def)
  show ?thesis
    using key_any_order_request [OF sample_key_inv 1 2 3 4] by (simp add: sample_key_def map_deltas_def first_tid_def)
qed

end
