(* ===== verification/Fifo_Queue.thy ===== *)
theory Fifo_Queue
  imports Prelude
begin

text \<open>
  \<open>FifoQueue\<close> of \<open>src/matcher.cpp\<close>: the bounded queue of time stamps that links two sequential
  matchers. Positions are \<open>int\<close> counters that only grow; a full queue forgets its oldest entry. The
  locale \<open>bounded_queue\<close> is the contract its client relies on, and the queue of the code is shown
  to satisfy it.
\<close>

section \<open>Model\<close>

record FifoQueue =
  fq_id :: string
  fq_capacity :: int
  fq_head :: int
  fq_tail :: int
  fq_queue :: "u64 list"

text \<open>\<open>new uint64_t[capacity_]\<close> throws for a negative capacity; its elements are not initialised,
  and every element is written before it is read, so their initial value is immaterial.\<close>

definition FifoQueue_new :: "string \<Rightarrow> int \<Rightarrow> fault + FifoQueue" where
  "FifoQueue_new ident capacity =
     (if capacity < 0 then Inl (Uncaught ''bad_array_new_length'')
      else Inr \<lparr>fq_id = ident, fq_capacity = capacity, fq_head = 0, fq_tail = 0,
                fq_queue = replicate (nat capacity) 0\<rparr>)"

text \<open>
  \<open>tail_++ % capacity_\<close> divides by the capacity and increments a signed counter. The second
  component says whether the overflow message was printed.
\<close>

definition FifoQueue_push :: "u64 \<Rightarrow> FifoQueue \<Rightarrow> fault + (FifoQueue \<times> bool)" where
  "FifoQueue_push ts q =
     (if fq_capacity q = 0 then Inl Div_By_Zero
      else if fq_tail q \<ge> INT_MAX then Inl Signed_Overflow
      else let slot = fq_tail q mod fq_capacity q;
               q = q\<lparr>fq_tail := fq_tail q + 1\<rparr>;
               overflow = (fq_tail q - fq_head q > fq_capacity q);
               q = (if overflow then q\<lparr>fq_head := fq_tail q - fq_capacity q\<rparr> else q)
           in Inr (q\<lparr>fq_queue := (fq_queue q)[nat slot := ts]\<rparr>, overflow))"

definition FifoQueue_pop :: "FifoQueue \<Rightarrow> FifoQueue \<times> u64 option" where
  "FifoQueue_pop q =
     (if fq_head q \<ge> fq_tail q then (q, None)
      else let slot = fq_head q mod fq_capacity q
           in (q\<lparr>fq_head := fq_head q + 1\<rparr>, Some (fq_queue q ! nat slot)))"

section \<open>Invariant and abstraction\<close>

definition fifo_inv :: "FifoQueue \<Rightarrow> bool" where
  "fifo_inv q \<longleftrightarrow> 0 < fq_capacity q \<and> 0 \<le> fq_head q \<and> fq_head q \<le> fq_tail q \<and>
     fq_tail q - fq_head q \<le> fq_capacity q \<and> fq_tail q \<le> INT_MAX \<and>
     length (fq_queue q) = nat (fq_capacity q)"

definition fifo_list :: "FifoQueue \<Rightarrow> u64 list" where
  "fifo_list q = map (\<lambda>i. fq_queue q ! nat (i mod fq_capacity q)) [fq_head q..fq_tail q - 1]"

text \<open>How many pushes the counters allow before the signed overflow.\<close>

definition fifo_room :: "FifoQueue \<Rightarrow> nat" where
  "fifo_room q = nat (INT_MAX - fq_tail q)"

text \<open>Popping a number of times, and the results in order.\<close>

primrec fifo_pops :: "nat \<Rightarrow> FifoQueue \<Rightarrow> u64 option list" where
  "fifo_pops 0 q = []"
| "fifo_pops (Suc n) q = (let (q', r) = FifoQueue_pop q in r # fifo_pops n q')"

section \<open>The contract of a bounded queue\<close>

locale bounded_queue =
  fixes push :: "'a \<Rightarrow> 'q \<Rightarrow> fault + ('q \<times> bool)"
    and pop :: "'q \<Rightarrow> 'q \<times> 'a option"
    and contents :: "'q \<Rightarrow> 'a list"
    and capacity :: "'q \<Rightarrow> nat"
    and room :: "'q \<Rightarrow> nat"
    and inv :: "'q \<Rightarrow> bool"
  assumes contents_bound: "inv q \<Longrightarrow> length (contents q) \<le> capacity q"
    and push_spec: "inv q \<Longrightarrow> 0 < room q \<Longrightarrow> \<exists>q'. push x q = Inr (q', length (contents q) = capacity q) \<and>
      inv q' \<and> room q' = room q - 1 \<and> capacity q' = capacity q \<and>
      contents q' = (if length (contents q) < capacity q then contents q else tl (contents q)) @ [x]"
    and pop_spec: "inv q \<Longrightarrow> \<exists>q'. pop q = (q', case contents q of [] \<Rightarrow> None | x # _ \<Rightarrow> Some x) \<and>
      inv q' \<and> room q' = room q \<and> capacity q' = capacity q \<and> contents q' = tl (contents q)"
begin

primrec push_all :: "'a list \<Rightarrow> 'q \<Rightarrow> fault + 'q" where
  "push_all [] q = Inr q"
| "push_all (x # xs) q = bindR (push x q) (\<lambda>(q, _). push_all xs q)"

text \<open>Pushing within the capacity loses nothing.\<close>

lemma push_all_fits:
  assumes "inv q" "length (contents q) + length xs \<le> capacity q" "length xs \<le> room q"
  shows "\<exists>q'. push_all xs q = Inr q' \<and> inv q' \<and> contents q' = contents q @ xs"
  using assms
proof (induction xs arbitrary: q)
  case Nil
  then show ?case by simp
next
  case (Cons x xs)
  then have "0 < room q" "length (contents q) < capacity q" by auto
  then obtain q1 b where q1: "push x q = Inr (q1, b)" "inv q1" "room q1 = room q - 1"
    "capacity q1 = capacity q" "contents q1 = contents q @ [x]"
    using push_spec [OF Cons.prems(1), of x] by auto
  moreover obtain q' where "push_all xs q1 = Inr q'" "inv q'" "contents q' = contents q1 @ xs"
    using Cons.IH [OF q1(2)] Cons.prems q1 by fastforce
  ultimately show ?case by auto
qed

primrec pop_all :: "nat \<Rightarrow> 'q \<Rightarrow> 'a option list" where
  "pop_all 0 q = []"
| "pop_all (Suc n) q = (let (q', r) = pop q in r # pop_all n q')"

text \<open>Popping hands the entries out in the order they were pushed, then reports an empty queue.\<close>

lemma pop_all_order:
  "inv q \<Longrightarrow> pop_all n q = map Some (take n (contents q)) @ replicate (n - length (contents q)) None"
proof (induction n arbitrary: q)
  case 0
  then show ?case by simp
next
  case (Suc n)
  obtain q' where q': "pop q = (q', case contents q of [] \<Rightarrow> None | x # _ \<Rightarrow> Some x)"
    "inv q'" "contents q' = tl (contents q)"
    using pop_spec [OF Suc.prems] by blast
  with Suc.IH [OF q'(2)] show ?case by (cases "contents q") simp_all
qed

end

section \<open>The queue of the code satisfies it\<close>

lemma upto_snoc: "i \<le> j \<Longrightarrow> [i..j] = [i..j - 1] @ [j]"
  using upto_split2 [of i j j] by (cases "i \<le> j - 1") (auto simp: upto_rec2)

lemma mod_window_distinct:
  fixes i j c :: int
  assumes "0 < c" "i \<noteq> j" "\<bar>i - j\<bar> < c" "0 \<le> i" "0 \<le> j"
  shows "nat (i mod c) \<noteq> nat (j mod c)"
proof
  assume "nat (i mod c) = nat (j mod c)"
  then have "i mod c = j mod c" using assms(1) by (simp add: eq_nat_nat_iff)
  then have "c dvd i - j" by (simp add: mod_eq_dvd_iff)
  with assms(2,3) show False using zdvd_not_zless [of "\<bar>i - j\<bar>" c] by auto
qed

lemma fifo_list_update:
  assumes "fifo_inv q" and "\<And>i. i \<in> {lo..hi} \<Longrightarrow> 0 \<le> i \<and> i \<noteq> t \<and> \<bar>i - t\<bar> < fq_capacity q" "0 \<le> t"
  shows "map (\<lambda>i. (fq_queue q)[nat (t mod fq_capacity q) := x] ! nat (i mod fq_capacity q)) [lo..hi] =
    map (\<lambda>i. fq_queue q ! nat (i mod fq_capacity q)) [lo..hi]"
proof (rule map_cong [OF refl])
  fix i assume "i \<in> set [lo..hi]"
  with assms have "nat (t mod fq_capacity q) \<noteq> nat (i mod fq_capacity q)"
    using mod_window_distinct [of "fq_capacity q" i t] by (force simp: fifo_inv_def)
  then show "(fq_queue q)[nat (t mod fq_capacity q) := x] ! nat (i mod fq_capacity q) =
      fq_queue q ! nat (i mod fq_capacity q)" by simp
qed

lemma length_fifo_list: "fifo_inv q \<Longrightarrow> length (fifo_list q) = nat (fq_tail q - fq_head q)"
  by (simp add: fifo_list_def)

lemma nth_mod_update:
  "fifo_inv q \<Longrightarrow> (fq_queue q)[nat (t mod fq_capacity q) := x] ! nat (t mod fq_capacity q) = x"
  by (auto simp: fifo_inv_def intro!: nth_list_update_eq)

lemma fifo_push_spec:
  assumes inv: "fifo_inv q" and room: "fq_tail q < INT_MAX"
  shows "\<exists>q'. FifoQueue_push x q = Inr (q', length (fifo_list q) = nat (fq_capacity q)) \<and>
    fifo_inv q' \<and> fifo_room q' = fifo_room q - 1 \<and> fq_capacity q' = fq_capacity q \<and>
    fifo_list q' = (if length (fifo_list q) < nat (fq_capacity q) then fifo_list q else tl (fifo_list q)) @ [x]"
proof -
  let ?c = "fq_capacity q" and ?h = "fq_head q" and ?t = "fq_tail q"
  let ?a = "(fq_queue q)[nat (?t mod ?c) := x]"
  have b: "0 < ?c" "0 \<le> ?h" "?h \<le> ?t" "?t - ?h \<le> ?c" using inv by (auto simp: fifo_inv_def)
  define over where "over = (?t - ?h = ?c)"
  define h' where "h' = (if over then ?h + 1 else ?h)"
  define q' where "q' = q\<lparr>fq_tail := ?t + 1, fq_head := h', fq_queue := ?a\<rparr>"
  have over: "length (fifo_list q) = nat ?c \<longleftrightarrow> over" "\<not> over \<Longrightarrow> ?t - ?h < ?c"
    using b by (auto simp: length_fifo_list [OF inv] over_def)
  have push: "FifoQueue_push x q = Inr (q', over)"
    using b room by (auto simp: FifoQueue_push_def Let_def q'_def h'_def over_def)
  have inv': "fifo_inv q'" using inv room over(2) b
    by (cases over) (auto simp: fifo_inv_def q'_def h'_def over_def)
  have h': "?h \<le> h'" "h' \<le> ?t" "?t - h' < ?c" using b over(2) by (auto simp: h'_def over_def)
  have keep: "map (\<lambda>i. ?a ! nat (i mod ?c)) [h'..?t - 1] = map (\<lambda>i. fq_queue q ! nat (i mod ?c)) [h'..?t - 1]"
    using b h' by (intro fifo_list_update [OF inv]) auto
  have split: "[h'..?t] = [h'..?t - 1] @ [?t]" using h'(2) by (rule upto_snoc)
  have "fifo_list q' = map (\<lambda>i. ?a ! nat (i mod ?c)) [h'..?t]"
    by (simp add: fifo_list_def q'_def)
  also have "\<dots> = map (\<lambda>i. fq_queue q ! nat (i mod ?c)) [h'..?t - 1] @ [x]"
    unfolding split map_append keep using nth_mod_update [OF inv, of ?t x] by simp
  also have "map (\<lambda>i. fq_queue q ! nat (i mod ?c)) [h'..?t - 1] = (if over then tl (fifo_list q) else fifo_list q)"
    using b by (auto simp: h'_def fifo_list_def over_def upto_rec1)
  finally have "fifo_list q' = (if over then tl (fifo_list q) else fifo_list q) @ [x]" .
  moreover have "fifo_room q' = fifo_room q - 1" using room by (simp add: fifo_room_def q'_def)
  moreover have "length (fifo_list q) < nat ?c \<longleftrightarrow> \<not> over"
    using over b by (auto simp: length_fifo_list [OF inv])
  moreover have "fq_capacity q' = ?c" by (simp add: q'_def)
  ultimately show ?thesis using push inv' over(1) by auto
qed

lemma fifo_pop_spec:
  assumes inv: "fifo_inv q"
  shows "\<exists>q'. FifoQueue_pop q = (q', case fifo_list q of [] \<Rightarrow> None | x # _ \<Rightarrow> Some x) \<and>
    fifo_inv q' \<and> fifo_room q' = fifo_room q \<and> fq_capacity q' = fq_capacity q \<and>
    fifo_list q' = tl (fifo_list q)"
proof (cases "fq_head q < fq_tail q")
  case True
  then have "[fq_head q..fq_tail q - 1] = fq_head q # [fq_head q + 1..fq_tail q - 1]"
    by (simp add: upto_rec1)
  with True inv show ?thesis
    by (auto simp: FifoQueue_pop_def fifo_list_def fifo_inv_def fifo_room_def)
next
  case False
  with inv show ?thesis by (simp add: FifoQueue_pop_def fifo_list_def)
qed

interpretation fifo: bounded_queue FifoQueue_push FifoQueue_pop fifo_list
  "\<lambda>q. nat (fq_capacity q)" fifo_room fifo_inv
proof
  fix q :: FifoQueue and x
  assume inv: "fifo_inv q"
  show "length (fifo_list q) \<le> nat (fq_capacity q)"
    using inv by (auto simp: length_fifo_list fifo_inv_def)
  show "0 < fifo_room q \<Longrightarrow> \<exists>q'. FifoQueue_push x q = Inr (q', length (fifo_list q) = nat (fq_capacity q)) \<and>
      fifo_inv q' \<and> fifo_room q' = fifo_room q - 1 \<and> nat (fq_capacity q') = nat (fq_capacity q) \<and>
      fifo_list q' = (if length (fifo_list q) < nat (fq_capacity q) then fifo_list q else tl (fifo_list q)) @ [x]"
    using fifo_push_spec [OF inv, of x] by (fastforce simp: fifo_room_def)
  show "\<exists>q'. FifoQueue_pop q = (q', case fifo_list q of [] \<Rightarrow> None | x # _ \<Rightarrow> Some x) \<and>
      fifo_inv q' \<and> fifo_room q' = fifo_room q \<and> nat (fq_capacity q') = nat (fq_capacity q) \<and>
      fifo_list q' = tl (fifo_list q)"
    using fifo_pop_spec [OF inv] by fastforce
qed

section \<open>Properties\<close>

text \<open>
  C35. The queue refines a bounded list. A push below the counter limit appends at the end, dropping
  the oldest entry exactly when the queue is full (the case the code reports), and a pop removes the
  front entry or reports an empty queue; both keep the invariant.
\<close>

theorem fifo_refines_bounded_list:
  assumes "fifo_inv q"
  shows "(fq_tail q < INT_MAX \<longrightarrow>
      (\<exists>q'. FifoQueue_push x q = Inr (q', length (fifo_list q) = nat (fq_capacity q)) \<and> fifo_inv q' \<and>
        fifo_list q' = (if length (fifo_list q) < nat (fq_capacity q) then fifo_list q else tl (fifo_list q)) @ [x])) \<and>
    (\<exists>q'. FifoQueue_pop q = (q', case fifo_list q of [] \<Rightarrow> None | y # _ \<Rightarrow> Some y) \<and> fifo_inv q' \<and>
        fifo_list q' = tl (fifo_list q))"
  using fifo_push_spec [OF assms, of x] fifo_pop_spec [OF assms] by blast

theorem fifo_refines_bounded_list_witness:
  "\<exists>q q'. FifoQueue_new ''q'' 2 = Inr q \<and> FifoQueue_push 7 q = Inr (q', False) \<and> fifo_list q' = [7] \<and>
    fifo_list (fst (FifoQueue_pop q)) = []"
proof -
  obtain q where q: "FifoQueue_new ''q'' 2 = Inr q" by (simp add: FifoQueue_new_def)
  then have i: "fifo_inv q" "fifo_list q = []" "fq_capacity q = 2" "fq_tail q < INT_MAX"
    by (auto simp: FifoQueue_new_def fifo_inv_def fifo_list_def INT_MAX_def)
  then show ?thesis using fifo_refines_bounded_list [OF i(1), of 7] q by auto
qed

text \<open>
  First in, first out. Pushing no more entries than a fresh queue of positive capacity can hold
  loses none, and popping them afterwards returns them in the order they were pushed.
\<close>

theorem fifo_push_pop_order:
  assumes "0 < capacity" "capacity \<le> INT_MAX" "int (length xs) \<le> capacity"
  shows "\<exists>q q'. FifoQueue_new ident capacity = Inr q \<and>
    foldR (\<lambda>x q. bindR (FifoQueue_push x q) (\<lambda>(q, _). Inr q)) xs q = Inr q' \<and>
    fifo_pops (length xs) q' = map Some xs"
proof -
  have same: "foldR (\<lambda>x q. bindR (FifoQueue_push x q) (\<lambda>(q, _). Inr q)) xs q = fifo.push_all xs q" for xs q
    by (induction xs arbitrary: q) (simp_all add: bindR_assoc bindR_case split: sum.split)
  have pops: "fifo_pops n q = fifo.pop_all n q" for n q
    by (induction n arbitrary: q) (simp_all add: split_beta)
  obtain q where q: "FifoQueue_new ident capacity = Inr q" "fifo_inv q" "fifo_list q = []"
    "fq_capacity q = capacity" "fifo_room q = nat INT_MAX"
    using assms(1) by (simp add: FifoQueue_new_def fifo_inv_def fifo_list_def fifo_room_def INT_MAX_def)
  then obtain q' where "fifo.push_all xs q = Inr q'" "fifo_inv q'" "fifo_list q' = xs"
    using fifo.push_all_fits [of q xs] assms(2,3) by (auto simp: le_nat_iff)
  with q(1) show ?thesis using fifo.pop_all_order [of q' "length xs"] by (simp add: same pops)
qed

theorem fifo_push_pop_order_witness:
  "\<exists>q q'. FifoQueue_new ''q'' 4 = Inr q \<and>
    foldR (\<lambda>x q. bindR (FifoQueue_push x q) (\<lambda>(q, _). Inr q)) [5, 6, 7] q = Inr q' \<and>
    fifo_pops 3 q' = [Some 5, Some 6, Some 7]"
  using fifo_push_pop_order [of 4 "[5, 6, 7]"] by (simp add: INT_MAX_def numeral_3_eq_3)

end
