(* ===== verification/Text_Util.thy ===== *)
theory Text_Util
  imports Prelude
begin

text \<open>
  The text functions of the C++ and C libraries that the sources use: decimal printing
  (\<open>std::to_string\<close>, \<open>%d\<close>, \<open>%u\<close>), \<open>std::stoi\<close>, and searching and cutting strings.
\<close>

definition nl :: string where
  "nl = [CHR 10]"

definition dq :: string where
  "dq = [CHR 34]"

section \<open>Decimal numbers\<close>

definition digit_char :: "nat \<Rightarrow> char" where
  "digit_char d = char_of (48 + d)"

fun nat_to_string :: "nat \<Rightarrow> string" where
  "nat_to_string n = (if n < 10 then [digit_char n] else nat_to_string (n div 10) @ [digit_char (n mod 10)])"

declare nat_to_string.simps [simp del]

definition int_to_string :: "int \<Rightarrow> string" where
  "int_to_string i = (if i < 0 then CHR ''-'' # nat_to_string (nat (- i)) else nat_to_string (nat i))"

definition is_digit :: "char \<Rightarrow> bool" where
  "is_digit c \<longleftrightarrow> 48 \<le> (of_char c :: nat) \<and> (of_char c :: nat) \<le> 57"

definition digit_val :: "char \<Rightarrow> nat" where
  "digit_val c = of_char c - 48"

definition is_space :: "char \<Rightarrow> bool" where
  "is_space c \<longleftrightarrow> (of_char c :: nat) \<in> {9, 10, 11, 12, 13, 32}"

definition digits_val :: "string \<Rightarrow> nat" where
  "digits_val ds = fold (\<lambda>c n. 10 * n + digit_val c) ds 0"

text \<open>\<open>std::stoi\<close>: leading white space, an optional sign, the longest run of digits; the rest is ignored.\<close>

definition stoi :: "string \<Rightarrow> fault + int" where
  "stoi s =
     (let s = dropWhile is_space s;
          (neg, s) = (case s of [] \<Rightarrow> (False, [])
             | c # cs \<Rightarrow> if c = CHR ''-'' then (True, cs) else if c = CHR ''+'' then (False, cs) else (False, s));
          ds = takeWhile is_digit s;
          v = (if neg then - int (digits_val ds) else int (digits_val ds))
      in if ds = [] then Inl (Uncaught ''invalid_argument'')
         else if v < - INT_MAX - 1 \<or> INT_MAX < v then Inl (Uncaught ''out_of_range'')
         else Inr v)"

section \<open>Cutting strings\<close>

text \<open>\<open>find(c)\<close> and \<open>rfind(c)\<close>; None is \<open>npos\<close>.\<close>

primrec str_find :: "char \<Rightarrow> string \<Rightarrow> nat option" where
  "str_find c [] = None"
| "str_find c (x # xs) = (if x = c then Some 0 else map_option Suc (str_find c xs))"

definition str_rfind :: "char \<Rightarrow> string \<Rightarrow> nat option" where
  "str_rfind c s = map_option (\<lambda>k. length s - Suc k) (str_find c (rev s))"

definition starts_with :: "string \<Rightarrow> string \<Rightarrow> bool" where
  "starts_with p s \<longleftrightarrow> take (length p) s = p"

section \<open>Lemmas\<close>

lemma of_digit_char: "d < 10 \<Longrightarrow> of_char (digit_char d) = 48 + d"
  by (simp add: digit_char_def of_char_of)

lemma is_digit_head:
  assumes "is_digit c"
  shows "\<not> is_space c" "c \<noteq> CHR ''-''" "c \<noteq> CHR ''+''"
  using assms by (auto simp: is_digit_def is_space_def)

lemma digit_char_props:
  assumes "d < 10"
  shows "is_digit (digit_char d)" "digit_val (digit_char d) = d"
  using of_digit_char [OF assms] assms by (simp_all add: is_digit_def digit_val_def)

lemma nat_to_string_digits: "nat_to_string n \<noteq> [] \<and> list_all is_digit (nat_to_string n)"
proof (induction n rule: nat_to_string.induct)
  case (1 n)
  then show ?case
    by (cases "n < 10") (simp_all add: nat_to_string.simps [of n] digit_char_props)
qed

lemma digits_val_snoc: "digits_val (ds @ [c]) = 10 * digits_val ds + digit_val c"
  by (simp add: digits_val_def)

lemma digits_val_nat_to_string: "digits_val (nat_to_string n) = n"
proof (induction n rule: nat_to_string.induct)
  case (1 n)
  show ?case
  proof (cases "n < 10")
    case True
    then show ?thesis by (simp add: nat_to_string.simps [of n] digits_val_def digit_char_props)
  next
    case False
    with 1 show ?thesis
      by (simp add: nat_to_string.simps [of n] digits_val_snoc digit_char_props)
  qed
qed

lemma nat_to_string_inj [simp]: "nat_to_string m = nat_to_string n \<longleftrightarrow> m = n"
  by (metis digits_val_nat_to_string)

lemma takeWhile_all: "list_all P xs \<Longrightarrow> takeWhile P xs = xs"
  by (simp add: list_all_iff)

lemma stoi_digits:
  assumes "ds \<noteq> []" "list_all is_digit ds" "int (digits_val ds) \<le> INT_MAX"
  shows "stoi ds = Inr (int (digits_val ds))"
proof -
  obtain c cs where ds: "ds = c # cs" and c: "is_digit c" using assms(1,2) by (cases ds) auto
  have "dropWhile is_space ds = ds" using is_digit_head(1) [OF c] ds by simp
  then show ?thesis
    using assms is_digit_head [OF c] takeWhile_all [OF assms(2)] ds
    by (simp add: stoi_def Let_def INT_MAX_def del: takeWhile_eq_all_conv)
qed

text \<open>Printing an \<open>int\<close> and reading it back with \<open>stoi\<close> gives the number.\<close>

lemma stoi_int_to_string:
  assumes "- INT_MAX - 1 \<le> i" "i \<le> INT_MAX"
  shows "stoi (int_to_string i) = Inr i"
proof (cases "i < 0")
  case False
  then show ?thesis
    using stoi_digits [of "nat_to_string (nat i)"] nat_to_string_digits [of "nat i"] assms
    by (simp add: int_to_string_def digits_val_nat_to_string)
next
  case True
  let ?ds = "nat_to_string (nat (- i))"
  have "takeWhile is_digit ?ds = ?ds" "?ds \<noteq> []"
    using nat_to_string_digits takeWhile_all by auto
  moreover have "\<not> is_space CHR ''-''" by (simp add: is_space_def)
  ultimately show ?thesis using True assms
    by (simp add: int_to_string_def stoi_def Let_def digits_val_nat_to_string del: takeWhile_eq_all_conv)
qed

lemma str_find_Some_iff:
  "str_find c s = Some k \<longleftrightarrow> k < length s \<and> s ! k = c \<and> c \<notin> set (take k s)"
proof (induction s arbitrary: k)
  case Nil
  then show ?case by simp
next
  case (Cons x s)
  then show ?case by (cases k) auto
qed

lemma str_find_None_iff: "str_find c s = None \<longleftrightarrow> c \<notin> set s"
  by (induction s) auto

lemma str_find_append: "c \<notin> set p \<Longrightarrow> str_find c (p @ c # r) = Some (length p)"
  by (induction p) auto

lemma str_rfind_append: "c \<notin> set r \<Longrightarrow> str_rfind c (p @ c # r) = Some (length p)"
proof -
  assume "c \<notin> set r"
  then have "str_find c (rev r @ c # rev p) = Some (length r)"
    by (intro str_find_append [of c "rev r" "rev p", simplified]) simp
  then show ?thesis by (simp add: str_rfind_def)
qed

end
