(* ===== verification/Hist.thy ===== *)
theory Hist
  imports Text_Util
begin

text \<open>
  The latency histogram of \<open>src/lensx.cpp\<close>: 48 power-of-two buckets, the CSV rows written as
  samples are recorded, and the percentile estimate of the report. The floating-point arithmetic of
  \<open>count * p / 100.0\<close> is not modelled: the percentile takes its integral target as an argument.
\<close>

section \<open>Model\<close>

definition HIST_BUCKETS :: nat where
  "HIST_BUCKETS = 48"

record Hist =
  h_buckets :: "u64 list"
  h_count :: int

definition Hist_new :: Hist where
  "Hist_new = \<lparr>h_buckets = replicate HIST_BUCKETS 0, h_count = 0\<rparr>"

record Csv_Row =
  row_from :: int
  row_to :: int
  row_val :: u64
  row_ts_from :: u64
  row_ts_to :: u64
  row_tid :: u32

text \<open>\<open>__builtin_clzll\<close>: the number of zero bits above the highest set bit (of a non-zero argument).\<close>

definition clzll :: "u64 \<Rightarrow> nat" where
  "clzll w = length (takeWhile (\<lambda>i. \<not> bit w i) (rev [0..<64]))"

definition hist_index :: "u64 \<Rightarrow> nat" where
  "hist_index val_ns =
     (let idx = 63 - clzll (val_ns OR 1) in if idx \<ge> HIST_BUCKETS then HIST_BUCKETS - 1 else idx)"

text \<open>\<open>Hist::record\<close>: the state is the histogram and the CSV file (None when there is no file).\<close>

definition Hist_record :: "Csv_Row \<Rightarrow> Hist \<times> Csv_Row list option \<Rightarrow> fault + (Hist \<times> Csv_Row list option)" where
  "Hist_record row = (\<lambda>(h, csv).
     if h_count h \<ge> INT_MAX then Inl Signed_Overflow
     else let h = h\<lparr>h_count := h_count h + 1\<rparr>;
              idx = hist_index (row_val row);
              h = h\<lparr>h_buckets := (h_buckets h)[idx := h_buckets h ! idx + 1]\<rparr>
          in Inr (h, map_option (\<lambda>rows. rows @ [row]) csv))"

text \<open>The lambda \<open>pct\<close> of \<open>Hist::print\<close>, after its target has been computed.\<close>

fun hist_pct_from :: "nat \<Rightarrow> u64 \<Rightarrow> u64 \<Rightarrow> u64 list \<Rightarrow> u64" where
  "hist_pct_from i target cum [] = 0"
| "hist_pct_from i target cum (b # bs) =
     (let cum = cum + b in
      if cum \<ge> target then (push_bit i 1 + push_bit (i + 1) 1) div 2
      else hist_pct_from (i + 1) target cum bs)"

definition hist_pct :: "Hist \<Rightarrow> u64 \<Rightarrow> u64" where
  "hist_pct h target = hist_pct_from 0 target 0 (h_buckets h)"

text \<open>The lambdas \<open>fmt\<close> and \<open>f\<close>, and the length of the bar of one bucket.\<close>

definition hist_fmt :: "u64 \<Rightarrow> string" where
  "hist_fmt ns =
     (if ns \<ge> 1000000000 then nat_to_string (unat (ns div 1000000000)) @ ''s''
      else if ns \<ge> 1000000 then nat_to_string (unat (ns div 1000000)) @ ''ms''
      else if ns \<ge> 1000 then nat_to_string (unat (ns div 1000)) @ ''us''
      else nat_to_string (unat ns) @ ''ns'')"

definition hist_bar :: "u64 \<Rightarrow> u64 \<Rightarrow> nat" where
  "hist_bar b max_b = (let bar = unat (30 * b div max_b) in if bar < 1 then 1 else bar)"

section \<open>Bucket index\<close>

lemma takeWhile_rev_upt:
  assumes "k < n" "P k" "\<forall>j. k < j \<and> j < n \<longrightarrow> \<not> P j"
  shows "length (takeWhile (\<lambda>i. \<not> P i) (rev [0..<n])) = n - Suc k"
  using assms
proof (induction n)
  case 0
  then show ?case by simp
next
  case (Suc n)
  then show ?case by (cases "k = n") (auto simp: Suc_diff_Suc)
qed

lemma highest_bit_exists:
  fixes w :: "'a::len word"
  assumes "w \<noteq> 0"
  shows "\<exists>k<LENGTH('a). bit w k \<and> (\<forall>j>k. \<not> bit w j)"
proof -
  let ?B = "{k. bit w k}"
  have fin: "finite ?B" by (rule finite_subset [of _ "{..<LENGTH('a)}"]) (auto dest: bit_imp_le_length)
  have ne: "?B \<noteq> {}" using assms by (auto simp: word_eq_bits)
  have "bit w (Max ?B)" using Max_in [OF fin ne] by simp
  moreover have "\<not> bit w j" if "j > Max ?B" for j
    using Max_ge [OF fin, of j] that by (meson mem_Collect_eq not_le)
  ultimately show ?thesis using bit_imp_le_length by blast
qed

lemma unat_highest_bit:
  fixes w :: "'a::len word"
  assumes "bit w k" "\<forall>j>k. \<not> bit w j"
  shows "2 ^ k \<le> unat w" "unat w < 2 ^ Suc k"
proof -
  have b: "bit (unat w) j \<longleftrightarrow> bit w j" for j
    by (auto simp: bit_unsigned_iff dest: bit_imp_le_length)
  have "unat w = take_bit (Suc k) (unat w)"
    using assms(2) by (auto simp: bit_eq_iff bit_take_bit_iff b not_less_eq)
  then show "unat w < 2 ^ Suc k" using take_bit_nat_less_exp [of "Suc k" "unat w"] by simp
  show "2 ^ k \<le> unat w"
  proof (rule ccontr)
    assume "\<not> 2 ^ k \<le> unat w"
    then have "take_bit k (unat w) = unat w" by (simp add: take_bit_nat_eq_self)
    with assms(1) b [of k] show False by (metis bit_take_bit_iff less_irrefl)
  qed
qed

lemma clzll_bounds:
  assumes "w \<noteq> 0"
  shows "clzll w \<le> 63" "2 ^ (63 - clzll w) \<le> unat w" "unat w < 2 ^ Suc (63 - clzll w)"
proof -
  obtain k where k: "k < 64" "bit w k" "\<forall>j>k. \<not> bit w j"
    using highest_bit_exists [OF assms] by auto
  have "clzll w = 64 - Suc k"
    unfolding clzll_def using k by (intro takeWhile_rev_upt) auto
  with k unat_highest_bit [OF k(2,3)]
  show "clzll w \<le> 63" "2 ^ (63 - clzll w) \<le> unat w" "unat w < 2 ^ Suc (63 - clzll w)"
    by simp_all
qed

lemma hist_index_bound: "hist_index v < HIST_BUCKETS"
  by (simp add: hist_index_def Let_def HIST_BUCKETS_def)

lemma or_one_nonzero: "(v OR 1 :: u64) \<noteq> 0"
proof
  assume "v OR 1 = (0 :: u64)"
  then have "bit (v OR 1) 0 = bit (0 :: u64) 0" by simp
  then show False by (simp add: bit_or_iff)
qed

lemma unat_or_one: "unat (v OR 1 :: u64) = (if even (unat v) then Suc (unat v) else unat v)"
proof -
  have "unat (v OR 1) = unat v OR Suc 0"
    by (metis One_nat_def unsigned_1 unsigned_or_eq)
  then show ?thesis by (simp only: or_Suc_0_eq) simp
qed

lemma even_le_or_one: "p \<le> (if even n then Suc n else n) \<Longrightarrow> even p \<Longrightarrow> p \<le> n" for n p :: nat
  by (auto simp: le_Suc_eq split: if_splits)

section \<open>Counting\<close>

definition hist_inv :: "Hist \<Rightarrow> bool" where
  "hist_inv h \<longleftrightarrow> length (h_buckets h) = HIST_BUCKETS \<and> 0 \<le> h_count h \<and> h_count h \<le> INT_MAX \<and>
     int (sum_list (map unat (h_buckets h))) = h_count h"

abbreviation hist_records :: "Csv_Row list \<Rightarrow> Hist \<times> Csv_Row list option \<Rightarrow> fault + (Hist \<times> Csv_Row list option)" where
  "hist_records \<equiv> foldR Hist_record"

lemma hist_inv_new: "hist_inv Hist_new"
  by (simp add: hist_inv_def Hist_new_def INT_MAX_def sum_list_replicate)

lemma sum_list_unat_ge: "i < length xs \<Longrightarrow> unat (xs ! i) \<le> sum_list (map unat (xs :: u64 list))"
  using elem_le_sum_list [of i "map unat xs"] by simp

lemma hist_record_step:
  assumes inv: "hist_inv h" and room: "h_count h < INT_MAX"
  shows "\<exists>h'. Hist_record row (h, csv) = Inr (h', map_option (\<lambda>rows. rows @ [row]) csv) \<and>
    hist_inv h' \<and> h_count h' = h_count h + 1 \<and>
    (\<forall>i<HIST_BUCKETS. unat (h_buckets h' ! i) =
       unat (h_buckets h ! i) + (if i = hist_index (row_val row) then 1 else 0))"
proof -
  let ?i = "hist_index (row_val row)" and ?b = "h_buckets h"
  have len: "length ?b = 48" and i: "?i < 48"
    using inv hist_index_bound [of "row_val row"] by (simp_all add: hist_inv_def HIST_BUCKETS_def)
  have "unat (?b ! ?i) \<le> nat (h_count h)"
    using sum_list_unat_ge [of ?i ?b] inv len i by (auto simp: hist_inv_def)
  then have "unat (?b ! ?i) + 1 < 2 ^ 64" using room by (simp add: INT_MAX_def)
  then have inc: "unat (?b ! ?i + 1) = unat (?b ! ?i) + 1"
    by (simp add: unat_word_ariths)
  have sum: "sum_list (map unat (?b[?i := ?b ! ?i + 1])) = sum_list (map unat ?b) + 1"
    using len i inc by (simp add: map_update sum_list_update sum_list_unat_ge)
  let ?h = "h\<lparr>h_count := h_count h + 1, h_buckets := ?b[?i := ?b ! ?i + 1]\<rparr>"
  have "hist_inv ?h" using inv room sum by (simp add: hist_inv_def)
  moreover have "\<forall>k<HIST_BUCKETS. unat (h_buckets ?h ! k) = unat (?b ! k) + (if k = ?i then 1 else 0)"
    using len i inc by (auto simp: nth_list_update HIST_BUCKETS_def)
  moreover have "Hist_record row (h, csv) = Inr (?h, map_option (\<lambda>rows. rows @ [row]) csv)"
    using room by (simp add: Hist_record_def Let_def)
  ultimately show ?thesis by auto
qed

lemma hist_records_count:
  assumes "hist_inv h" "h_count h + int (length rows) \<le> INT_MAX"
  shows "\<exists>h'. hist_records rows (h, csv) = Inr (h', map_option (\<lambda>rs. rs @ rows) csv) \<and> hist_inv h' \<and>
    h_count h' = h_count h + int (length rows) \<and>
    (\<forall>i<HIST_BUCKETS. unat (h_buckets h' ! i) =
       unat (h_buckets h ! i) + length (filter (\<lambda>r. hist_index (row_val r) = i) rows))"
  using assms
proof (induction rows arbitrary: h csv)
  case Nil
  then show ?case by (simp add: option.map_ident)
next
  case (Cons r rows)
  obtain h1 where h1: "Hist_record r (h, csv) = Inr (h1, map_option (\<lambda>rs. rs @ [r]) csv)" "hist_inv h1"
    "h_count h1 = h_count h + 1"
    "\<forall>i<HIST_BUCKETS. unat (h_buckets h1 ! i) = unat (h_buckets h ! i) + (if i = hist_index (row_val r) then 1 else 0)"
    using hist_record_step [OF Cons.prems(1), of r csv] Cons.prems(2) by auto
  have "h_count h1 + int (length rows) \<le> INT_MAX" using h1(3) Cons.prems(2) by simp
  from Cons.IH [OF h1(2) this, of "map_option (\<lambda>rs. rs @ [r]) csv"] h1
  show ?case by (auto simp: option.map_comp comp_def)
qed

lemma hist_index_facts:
  "hist_index v < HIST_BUCKETS"
  "hist_index v < HIST_BUCKETS - 1 \<Longrightarrow> unat v < 2 ^ Suc (hist_index v)"
  "v \<noteq> 0 \<Longrightarrow> 2 ^ hist_index v \<le> unat v"
  "hist_index 0 = 0"
proof -
  let ?w = "v OR 1" and ?k = "63 - clzll (v OR 1)"
  note b = clzll_bounds [OF or_one_nonzero, of v]
  have le: "unat v \<le> unat ?w" "v \<noteq> 0 \<Longrightarrow> unat ?w \<le> Suc (unat v)" by (simp_all add: unat_or_one)
  show "hist_index v < HIST_BUCKETS" by (rule hist_index_bound)
  show "unat v < 2 ^ Suc (hist_index v)" if "hist_index v < HIST_BUCKETS - 1"
  proof -
    have "hist_index v = ?k" using that by (auto simp: hist_index_def Let_def HIST_BUCKETS_def split: if_splits)
    then show ?thesis using b(3) le(1) by simp
  qed
  show "2 ^ hist_index v \<le> unat v" if "v \<noteq> 0"
  proof -
    have pos: "0 < unat v" using that by (simp add: unat_gt_0)
    have "(2 :: nat) ^ ?k \<le> unat v"
    proof (cases "?k = 0")
      case True
      then show ?thesis using pos by simp
    next
      case False
      then have "even ((2 :: nat) ^ ?k)" by simp
      with b(2) show ?thesis
        unfolding unat_or_one by (rule even_le_or_one)
    qed
    moreover have "(2 :: nat) ^ hist_index v \<le> 2 ^ ?k"
      by (rule power_increasing) (simp_all add: hist_index_def Let_def HIST_BUCKETS_def)
    ultimately show ?thesis by (rule le_trans [rotated])
  qed
  show "hist_index 0 = 0"
    using less_le_trans [OF less_exp clzll_bounds(2) [of 1]]
    by (simp add: hist_index_def Let_def HIST_BUCKETS_def)
qed

definition sample_row :: Csv_Row where
  "sample_row = \<lparr>row_from = 0, row_to = 1, row_val = 1000, row_ts_from = 1, row_ts_to = 1001, row_tid = 7\<rparr>"

section \<open>Properties\<close>

text \<open>
  Every sample lands in the bucket of its magnitude: below the last bucket, a positive sample of
  index i lies between 2^i and 2^(i+1), the sample 0 is counted with 1 in bucket 0, and everything
  from 2^47 up is in the last bucket.
\<close>

theorem hist_index_brackets:
  "hist_index v < HIST_BUCKETS \<and> hist_index 0 = 0 \<and>
   (hist_index v < HIST_BUCKETS - 1 \<longrightarrow> unat v < 2 ^ Suc (hist_index v)) \<and> (v \<noteq> 0 \<longrightarrow> 2 ^ hist_index v \<le> unat v)"
  using hist_index_facts by blast

theorem hist_index_brackets_witness: "2 ^ hist_index 1000 \<le> (1000 :: nat) \<and> hist_index 1000 < HIST_BUCKETS"
  using hist_index_brackets [of 1000] by simp

text \<open>
  C36. Counting. Recording fewer than 2^31 samples never faults; the count grows by the number of
  samples, each bucket by the number of samples of its index, the bucket sum stays equal to the
  count, and the CSV file gains exactly one row per sample in order.
\<close>

theorem hist_records_exact:
  assumes "hist_inv h" and "h_count h + int (length rows) \<le> INT_MAX"
  shows "\<exists>h'. hist_records rows (h, csv) = Inr (h', map_option (\<lambda>rs. rs @ rows) csv) \<and> hist_inv h' \<and>
    h_count h' = h_count h + int (length rows) \<and>
    (\<forall>i<HIST_BUCKETS. unat (h_buckets h' ! i) =
       unat (h_buckets h ! i) + length (filter (\<lambda>r. hist_index (row_val r) = i) rows))"
  using assms by (rule hist_records_count)

theorem hist_records_exact_witness:
  "\<exists>h'. hist_records [sample_row, sample_row] (Hist_new, Some []) = Inr (h', Some [sample_row, sample_row]) \<and> h_count h' = 2 \<and>
    unat (h_buckets h' ! hist_index (row_val sample_row)) = 2"
proof -
  have i: "hist_inv Hist_new" "h_count Hist_new + int (length [sample_row, sample_row]) \<le> INT_MAX"
    using hist_inv_new by (simp, simp add: Hist_new_def INT_MAX_def)
  have z: "h_buckets Hist_new ! hist_index v = 0" for v
    using hist_index_facts(1) [of v] by (simp add: Hist_new_def)
  show ?thesis
    using hist_records_exact [OF i, of "Some []"] hist_index_facts(1) [of "row_val sample_row"] z
    by (auto simp: Hist_new_def)
qed

text \<open>
  A percentile with target 0 is reported as 1 ns whatever was recorded: the loop stops at the
  first bucket, empty or not. The target \<open>(uint64_t)(count * p / 100.0)\<close> is 0 for the median of one
  sample.
\<close>

theorem hist_pct_target_zero: "h_buckets h \<noteq> [] \<Longrightarrow> hist_pct h 0 = 1"
  by (cases "h_buckets h") (simp_all add: hist_pct_def)

theorem hist_pct_target_zero_witness: "hist_pct Hist_new 0 = 1"
  by (rule hist_pct_target_zero) (simp add: Hist_new_def HIST_BUCKETS_def)

end
