(* ===== verification/Config.thy ===== *)
theory Config
  imports Text_Util
begin

text \<open>
  \<open>src/config.h\<close> and \<open>src/config.cpp\<close>: the configuration structures and their construction from a
  YAML document. yaml-cpp is not part of the repository; the operations of \<open>YAML::Node\<close> that the
  code calls are the fields of \<open>yaml_api\<close>, an argument of the definitions.
\<close>

section \<open>Model\<close>

record ProbeConfig =
  pc_name :: string
  pc_type :: string
  pc_symbol :: string
  pc_event :: string
  pc_stage :: int
  pc_key :: string

record MatcherConfig =
  mc_id :: string
  mc_stages :: "int list"
  mc_mode :: string
  mc_queue_size :: int

record ReportConfig =
  rc_name :: string
  rc_from :: int
  rc_to :: int

record Config =
  cfg_process :: string
  cfg_csv_path :: string
  cfg_probes :: "ProbeConfig list"
  cfg_matchers :: "MatcherConfig list"
  cfg_reports :: "ReportConfig list"

text \<open>\<open>node[key]\<close>, the conversion of a node to \<open>bool\<close>, iteration, and the two \<open>as\<close> conversions, which
  may throw.\<close>

record 'n yaml_api =
  y_get :: "'n \<Rightarrow> string \<Rightarrow> fault + 'n"
  y_defined :: "'n \<Rightarrow> bool"
  y_items :: "'n \<Rightarrow> 'n list"
  y_string :: "'n \<Rightarrow> fault + string"
  y_int :: "'n \<Rightarrow> fault + int"

definition y_string_at :: "('n, 'z) yaml_api_scheme \<Rightarrow> 'n \<Rightarrow> string \<Rightarrow> fault + string" where
  "y_string_at y n k = bindR (y_get y n k) (y_string y)"

definition y_int_at :: "('n, 'z) yaml_api_scheme \<Rightarrow> 'n \<Rightarrow> string \<Rightarrow> fault + int" where
  "y_int_at y n k = bindR (y_get y n k) (y_int y)"

text \<open>\<open>if (node[k]) x = node[k].as<T>();\<close> with the member's default otherwise.\<close>

definition y_opt :: "('n, 'z) yaml_api_scheme \<Rightarrow> ('n \<Rightarrow> fault + 'v) \<Rightarrow> 'n \<Rightarrow> string \<Rightarrow> 'v \<Rightarrow> fault + 'v" where
  "y_opt y conv n k d = bindR (y_get y n k) (\<lambda>c. if y_defined y c then conv c else Inr d)"

primrec mapR :: "('a \<Rightarrow> 'e + 'b) \<Rightarrow> 'a list \<Rightarrow> 'e + 'b list" where
  "mapR f [] = Inr []"
| "mapR f (x # xs) = bindR (f x) (\<lambda>y. bindR (mapR f xs) (\<lambda>ys. Inr (y # ys)))"

definition parse_target :: "('n, 'z) yaml_api_scheme \<Rightarrow> 'n \<Rightarrow> fault + string" where
  "parse_target y root =
     bindR (y_get y root ''target'') (\<lambda>t.
       if y_defined y t then y_opt y (y_string y) t ''process'' [] else Inr [])"

definition parse_output :: "('n, 'z) yaml_api_scheme \<Rightarrow> 'n \<Rightarrow> fault + string" where
  "parse_output y root =
     bindR (y_get y root ''output'') (\<lambda>t.
       if y_defined y t then y_opt y (y_string y) t ''csv'' [] else Inr [])"

definition parse_probe :: "('n, 'z) yaml_api_scheme \<Rightarrow> 'n \<Rightarrow> fault + ProbeConfig" where
  "parse_probe y n =
     bindR (y_string_at y n ''name'') (\<lambda>name.
     bindR (y_string_at y n ''type'') (\<lambda>type.
     bindR (y_int_at y n ''stage'') (\<lambda>stage.
     bindR (y_opt y (y_string y) n ''symbol'' []) (\<lambda>symbol.
     bindR (y_opt y (y_string y) n ''event'' []) (\<lambda>event.
     bindR (y_opt y (y_string y) n ''key'' []) (\<lambda>key.
       Inr \<lparr>pc_name = name, pc_type = type, pc_symbol = symbol, pc_event = event,
            pc_stage = stage, pc_key = key\<rparr>))))))"

definition parse_matcher :: "('n, 'z) yaml_api_scheme \<Rightarrow> 'n \<Rightarrow> fault + MatcherConfig" where
  "parse_matcher y n =
     bindR (y_string_at y n ''id'') (\<lambda>ident.
     bindR (y_string_at y n ''mode'') (\<lambda>mode.
     bindR (y_get y n ''stages'') (\<lambda>ss.
     bindR (mapR (y_int y) (y_items y ss)) (\<lambda>stages.
     bindR (y_opt y (y_int y) n ''queue_size'' 4096) (\<lambda>qs.
       Inr \<lparr>mc_id = ident, mc_stages = stages, mc_mode = mode, mc_queue_size = qs\<rparr>)))))"

definition parse_report :: "('n, 'z) yaml_api_scheme \<Rightarrow> 'n \<Rightarrow> fault + ReportConfig" where
  "parse_report y n =
     bindR (y_string_at y n ''name'') (\<lambda>name.
     bindR (y_int_at y n ''from'') (\<lambda>from.
     bindR (y_int_at y n ''to'') (\<lambda>to.
       Inr \<lparr>rc_name = name, rc_from = from, rc_to = to\<rparr>)))"

definition parse_section :: "('n, 'z) yaml_api_scheme \<Rightarrow> ('n \<Rightarrow> fault + 'v) \<Rightarrow> 'n \<Rightarrow> string \<Rightarrow> fault + 'v list" where
  "parse_section y p root k =
     bindR (y_get y root k) (\<lambda>t. if y_defined y t then mapR p (y_items y t) else Inr [])"

text \<open>The checks at the end of \<open>parse_config\<close>: the loop stops at the first probe it rejects.\<close>

definition probe_ok :: "ProbeConfig \<Rightarrow> bool" where
  "probe_ok p \<longleftrightarrow> \<not> (pc_type p = ''tracepoint'' \<and> pc_event p = []) \<and>
     \<not> ((pc_type p = ''uprobe'' \<or> pc_type p = ''kprobe'') \<and> pc_symbol p = [])"

definition parse_config :: "('n, 'z) yaml_api_scheme \<Rightarrow> (string \<Rightarrow> fault + 'n) \<Rightarrow> string \<Rightarrow> fault + Config" where
  "parse_config y load path =
     bindR (load path) (\<lambda>root.
     bindR (parse_target y root) (\<lambda>process.
     bindR (parse_output y root) (\<lambda>csv.
     bindR (parse_section y (parse_probe y) root ''probes'') (\<lambda>probes.
     bindR (parse_section y (parse_matcher y) root ''matchers'') (\<lambda>matchers.
     bindR (parse_section y (parse_report y) root ''reports'') (\<lambda>reports.
       if probes = [] then Inl (Exit 1)
       else if \<not> list_all probe_ok probes then Inl (Exit 1)
       else Inr \<lparr>cfg_process = process, cfg_csv_path = csv, cfg_probes = probes,
                 cfg_matchers = matchers, cfg_reports = reports\<rparr>))))))"

section \<open>Accepted configurations\<close>

lemma mapR_length: "mapR f xs = Inr ys \<Longrightarrow> length ys = length xs"
  by (induction xs arbitrary: ys) auto

lemma mapR_nth: "mapR f xs = Inr ys \<Longrightarrow> i < length xs \<Longrightarrow> f (xs ! i) = Inr (ys ! i)"
  by (induction xs arbitrary: ys i) (auto simp: nth_Cons split: nat.split)

text \<open>The values are those of the entries of a section, one for one and in order; a section that is missing has none.\<close>

definition section_entries :: "('n, 'z) yaml_api_scheme \<Rightarrow> ('n \<Rightarrow> fault + 'v) \<Rightarrow> 'n \<Rightarrow> string \<Rightarrow> 'v list \<Rightarrow> bool" where
  "section_entries y p root k vs \<longleftrightarrow> (\<exists>t. y_get y root k = Inr t \<and>
     (if y_defined y t then length vs = length (y_items y t) \<and> (\<forall>i<length vs. p (y_items y t ! i) = Inr (vs ! i)) else vs = []))"

lemma parse_section_entries:
  assumes "parse_section y p root k = Inr vs"
  shows "section_entries y p root k vs"
proof -
  obtain t where t: "y_get y root k = Inr t" "(if y_defined y t then mapR p (y_items y t) else Inr []) = Inr vs"
    using assms by (auto simp: parse_section_def)
  show ?thesis
  proof (cases "y_defined y t")
    case True
    then have m: "mapR p (y_items y t) = Inr vs" using t(2) by simp
    then show ?thesis using t(1) True mapR_length [OF m] mapR_nth [OF m] by (simp add: section_entries_def)
  next
    case False
    then show ?thesis using t by (simp add: section_entries_def)
  qed
qed

lemma parse_config_facts:
  assumes "parse_config y load path = Inr cfg"
  shows "cfg_probes cfg \<noteq> []"
    and "\<forall>p\<in>set (cfg_probes cfg).
      (pc_type p = ''tracepoint'' \<longrightarrow> pc_event p \<noteq> []) \<and>
      (pc_type p \<in> {''uprobe'', ''kprobe''} \<longrightarrow> pc_symbol p \<noteq> [])"
    and "\<exists>root. load path = Inr root \<and> section_entries y (parse_probe y) root ''probes'' (cfg_probes cfg) \<and>
      section_entries y (parse_matcher y) root ''matchers'' (cfg_matchers cfg) \<and>
      section_entries y (parse_report y) root ''reports'' (cfg_reports cfg)"
proof -
  obtain root probes matchers reports where root: "load path = Inr root"
    and s: "parse_section y (parse_probe y) root ''probes'' = Inr probes" "parse_section y (parse_matcher y) root ''matchers'' = Inr matchers"
      "parse_section y (parse_report y) root ''reports'' = Inr reports"
    and ok: "probes \<noteq> []" "list_all probe_ok probes" "cfg_probes cfg = probes" "cfg_matchers cfg = matchers" "cfg_reports cfg = reports"
    using assms by (auto simp: parse_config_def split: if_splits)
  show "cfg_probes cfg \<noteq> []" using ok by simp
  show "\<forall>p\<in>set (cfg_probes cfg).
      (pc_type p = ''tracepoint'' \<longrightarrow> pc_event p \<noteq> []) \<and>
      (pc_type p \<in> {''uprobe'', ''kprobe''} \<longrightarrow> pc_symbol p \<noteq> [])"
    using ok by (auto simp: list_all_iff probe_ok_def)
  show "\<exists>root. load path = Inr root \<and> section_entries y (parse_probe y) root ''probes'' (cfg_probes cfg) \<and>
      section_entries y (parse_matcher y) root ''matchers'' (cfg_matchers cfg) \<and>
      section_entries y (parse_report y) root ''reports'' (cfg_reports cfg)"
    using root s [THEN parse_section_entries] ok(3-5) by blast
qed

section \<open>Documents as trees\<close>

text \<open>An instance of the YAML interface: a document is a tree, a missing key is an undefined node.\<close>

datatype ynode = YNull | YStr string | YInt int | YSeq "ynode list" | YMap "(string \<times> ynode) list"

definition tree_yaml :: "ynode yaml_api" where
  "tree_yaml = \<lparr>y_get = (\<lambda>n k. Inr (case n of YMap kvs \<Rightarrow> (case map_of kvs k of None \<Rightarrow> YNull | Some v \<Rightarrow> v) | _ \<Rightarrow> YNull)),
     y_defined = (\<lambda>n. n \<noteq> YNull), y_items = (\<lambda>n. case n of YSeq ns \<Rightarrow> ns | _ \<Rightarrow> []),
     y_string = (\<lambda>n. case n of YStr s \<Rightarrow> Inr s | _ \<Rightarrow> Inl (Uncaught ''BadConversion'')),
     y_int = (\<lambda>n. case n of YInt i \<Rightarrow> Inr i | _ \<Rightarrow> Inl (Uncaught ''BadConversion''))\<rparr>"

definition sample_doc :: ynode where
  "sample_doc = YMap [(''probes'', YSeq [YMap [(''name'', YStr ''p''), (''type'', YStr ''uprobe''), (''stage'', YInt 0), (''symbol'', YStr ''f'')]])]"

definition sample_config :: Config where
  "sample_config = \<lparr>cfg_process = [], cfg_csv_path = [],
     cfg_probes = [\<lparr>pc_name = ''p'', pc_type = ''uprobe'', pc_symbol = ''f'', pc_event = [], pc_stage = 0, pc_key = []\<rparr>],
     cfg_matchers = [], cfg_reports = []\<rparr>"

lemma parse_sample: "parse_config tree_yaml (\<lambda>_. Inr sample_doc) ''c.yaml'' = Inr sample_config"
  by (simp add: parse_config_def parse_target_def parse_output_def parse_section_def parse_probe_def y_string_at_def y_int_at_def
      y_opt_def tree_yaml_def sample_doc_def sample_config_def probe_ok_def)

section \<open>Properties\<close>

text \<open>
  C39. What \<open>parse_config\<close> guarantees. A configuration that is returned has at least one probe; every
  tracepoint names its event, and every uprobe and kprobe names its symbol (of a kretprobe, or a type that
  is not known, nothing is required); and probes, matchers and reports are the entries of the
  document's three sections, one for one and in order, where a missing section has no entries.
\<close>

theorem parse_config_sound:
  assumes "parse_config y load path = Inr cfg"
  shows "cfg_probes cfg \<noteq> [] \<and>
    (\<forall>p\<in>set (cfg_probes cfg).
      (pc_type p = ''tracepoint'' \<longrightarrow> pc_event p \<noteq> []) \<and>
      (pc_type p \<in> {''uprobe'', ''kprobe''} \<longrightarrow> pc_symbol p \<noteq> [])) \<and>
    (\<exists>root. load path = Inr root \<and> section_entries y (parse_probe y) root ''probes'' (cfg_probes cfg) \<and>
      section_entries y (parse_matcher y) root ''matchers'' (cfg_matchers cfg) \<and>
      section_entries y (parse_report y) root ''reports'' (cfg_reports cfg))"
  using parse_config_facts [OF assms] by blast

theorem parse_config_sound_witness:
  "\<exists>cfg. parse_config tree_yaml (\<lambda>_. Inr sample_doc) ''c.yaml'' = Inr cfg \<and> cfg_probes cfg \<noteq> [] \<and>
    pc_symbol (cfg_probes cfg ! 0) \<noteq> []"
  using parse_config_sound [OF parse_sample] parse_sample by (auto simp: sample_config_def)

end
