(* ===== verification/Bpf_Gen.thy ===== *)
theory Bpf_Gen
  imports Config
begin

text \<open>
  \<open>src/bpf_gen.cpp\<close>: the text of the generated BPF program and the command that compiles it, and
  the naming rule by which \<open>src/lensx.cpp\<close> looks the programs up again. Writing the file and running
  clang are outside the model.
\<close>

section \<open>Model\<close>

definition gen_header :: "Config \<Rightarrow> string" where
  "gen_header cfg =
     ''// Auto-generated by LensX V2 '' @ [CHR 0xE2, CHR 0x80, CHR 0x94] @ '' do not edit'' @ nl @
     ''#include '' @ dq @ ''vmlinux.h'' @ dq @ nl @
     ''#include <bpf_helpers.h>'' @ nl @
     (if \<exists>p\<in>set (cfg_probes cfg). pc_key p = ''arg1'' \<or> pc_key p = ''arg2''
      then ''#include <bpf_tracing.h>'' @ nl else []) @
     nl @ ''struct event {'' @ nl @
     ''    __u64 ts;'' @ nl @
     ''    __u32 tid;'' @ nl @
     ''    __u8  stage;'' @ nl @
     ''    __u8  pad[3];'' @ nl @
     ''    __u64 key;'' @ nl @
     ''};'' @ nl @ nl @
     ''struct {'' @ nl @
     ''    __uint(type, BPF_MAP_TYPE_RINGBUF);'' @ nl @
     ''    __uint(max_entries, 1 << 20);'' @ nl @
     ''} rb SEC('' @ dq @ ''.maps'' @ dq @ '');'' @ nl @ nl @
     ''char _license[] SEC('' @ dq @ ''license'' @ dq @ '') = '' @ dq @ ''GPL'' @ dq @ '';'' @ nl @ nl"

text \<open>\<open>"io_uring/io_uring_complete"\<close> gives the struct name \<open>io_uring_complete\<close>.\<close>

definition tp_struct :: "string \<Rightarrow> string" where
  "tp_struct event = (case str_rfind (CHR ''/'') event of None \<Rightarrow> event | Some k \<Rightarrow> drop (k + 1) event)"

definition gen_section :: "ProbeConfig \<Rightarrow> string" where
  "gen_section p =
     (if pc_type p = ''tracepoint'' then
        ''SEC('' @ dq @ ''tracepoint/'' @ pc_event p @ dq @ '')'' @ nl @
        (if take 5 (pc_key p) = ''ctx->''
         then ''int tp_'' @ pc_name p @ ''(struct trace_event_raw_'' @ tp_struct (pc_event p) @ '' *ctx) {'' @ nl
         else ''int tp_'' @ pc_name p @ ''(void *ctx) {'' @ nl)
      else if pc_type p = ''kprobe'' \<or> pc_type p = ''kretprobe'' then
        ''SEC('' @ dq @ pc_type p @ ''/'' @ pc_symbol p @ dq @ '')'' @ nl @
        ''int kp_'' @ pc_name p @ ''(struct pt_regs *ctx) {'' @ nl
      else
        ''SEC('' @ dq @ ''uprobe'' @ dq @ '')'' @ nl @
        ''int up_'' @ pc_name p @ ''(struct pt_regs *ctx) {'' @ nl)"

definition gen_key :: "ProbeConfig \<Rightarrow> string" where
  "gen_key p =
     (if pc_key p = ''arg1'' then ''    e.key   = PT_REGS_PARM1(ctx);'' @ nl
      else if pc_key p = ''arg2'' then ''    e.key   = PT_REGS_PARM2(ctx);'' @ nl
      else if take 5 (pc_key p) = ''ctx->'' then ''    e.key   = '' @ pc_key p @ '';'' @ nl
      else ''    e.key   = 0;'' @ nl)"

definition gen_probe :: "ProbeConfig \<Rightarrow> string" where
  "gen_probe p =
     gen_section p @
     ''    struct event e = {};'' @ nl @
     ''    e.ts    = bpf_ktime_get_ns();'' @ nl @
     ''    e.tid   = (__u32)bpf_get_current_pid_tgid();'' @ nl @
     ''    e.stage = '' @ int_to_string (pc_stage p) @ '';'' @ nl @
     gen_key p @
     ''    bpf_ringbuf_output(&rb, &e, sizeof(e), 0);'' @ nl @
     ''    return 0;'' @ nl @
     ''}'' @ nl @ nl"

text \<open>The text written to \<open>out_c\<close> by \<open>generate_bpf_source\<close>.\<close>

definition generate_bpf_source :: "Config \<Rightarrow> string" where
  "generate_bpf_source cfg = gen_header cfg @ concat (map gen_probe (cfg_probes cfg))"

text \<open>The object path and the command line of \<open>compile_bpf\<close>; \<open>have_clang\<close> is the \<open>access\<close> test. With no
  dot in the path \<open>substr(0, npos)\<close> is the whole path.\<close>

definition compile_bpf_paths :: "bool \<Rightarrow> string \<Rightarrow> string \<times> string" where
  "compile_bpf_paths have_clang c_path =
     (let base = (case str_rfind (CHR ''.'') c_path of None \<Rightarrow> c_path | Some k \<Rightarrow> take k c_path);
          obj = base @ ''.bpf.o'';
          dir = (case str_rfind (CHR ''/'') base of None \<Rightarrow> [] | Some k \<Rightarrow> take (k + 1) base);
          clang = (if have_clang then ''/usr/bin/clang'' else ''clang'')
      in (obj, clang @ '' -g -O2 -target bpf -D__TARGET_ARCH_x86'' @ '' -I'' @ dir @
               '' -I/home/qiwang/LensX/libbpf/src'' @ '' -I/home/qiwang/LensX/libbpf/include/uapi'' @
               '' -c '' @ c_path @ '' -o '' @ obj @ '' 2>/dev/null''))"

definition compile_bpf :: "bool \<Rightarrow> (string \<Rightarrow> int) \<Rightarrow> string \<Rightarrow> fault + string" where
  "compile_bpf have_clang system c_path =
     (let (obj, cmd) = compile_bpf_paths have_clang c_path
      in if system cmd \<noteq> 0 then Inl (Exit 1) else Inr obj)"

text \<open>The name under which \<open>main\<close> looks a probe's program up in the loaded object.\<close>

definition probe_prog_name :: "ProbeConfig \<Rightarrow> string" where
  "probe_prog_name p =
     (if pc_type p = ''tracepoint'' then ''tp_''
      else if pc_type p = ''kprobe'' \<or> pc_type p = ''kretprobe'' then ''kp_'' else ''up_'') @ pc_name p"

section \<open>Properties\<close>

lemma gen_section_names:
  "\<exists>sec args. gen_section p = sec @ ''int '' @ probe_prog_name p @ ''('' @ args"
proof -
  consider (tp) "pc_type p = ''tracepoint''" | (kp) "pc_type p = ''kprobe'' \<or> pc_type p = ''kretprobe''"
    | (up) "pc_type p \<noteq> ''tracepoint''" "\<not> (pc_type p = ''kprobe'' \<or> pc_type p = ''kretprobe'')"
    by blast
  then show ?thesis
  proof cases
    case tp
    then have "gen_section p = (''SEC('' @ dq @ ''tracepoint/'' @ pc_event p @ dq @ '')'' @ nl) @ ''int '' @
        probe_prog_name p @ ''('' @
        (if take 5 (pc_key p) = ''ctx->''
         then ''struct trace_event_raw_'' @ tp_struct (pc_event p) @ '' *ctx) {'' @ nl else ''void *ctx) {'' @ nl)"
      by (simp add: gen_section_def probe_prog_name_def)
    then show ?thesis by blast
  next
    case kp
    then have "gen_section p = (''SEC('' @ dq @ pc_type p @ ''/'' @ pc_symbol p @ dq @ '')'' @ nl) @ ''int '' @
        probe_prog_name p @ ''('' @ (''struct pt_regs *ctx) {'' @ nl)"
      by (auto simp: gen_section_def probe_prog_name_def)
    then show ?thesis by blast
  next
    case up
    then have "gen_section p = (''SEC('' @ dq @ ''uprobe'' @ dq @ '')'' @ nl) @ ''int '' @
        probe_prog_name p @ ''('' @ (''struct pt_regs *ctx) {'' @ nl)"
      by (simp add: gen_section_def probe_prog_name_def)
    then show ?thesis by blast
  qed
qed

text \<open>
  Generator and loader agree on names. For every probe of the configuration the generated
  source declares a function of exactly the name that the loader later looks up, and that function
  stores the probe's configured stage, printed so that it reads back as the same number.
\<close>

theorem generated_program_name_and_stage:
  assumes "p \<in> set (cfg_probes cfg)" "- INT_MAX - 1 \<le> pc_stage p" "pc_stage p \<le> INT_MAX"
  shows "\<exists>before body after. generate_bpf_source cfg =
      before @ ''int '' @ probe_prog_name p @ ''('' @ body @
        ''    e.stage = '' @ int_to_string (pc_stage p) @ '';'' @ after \<and>
      stoi (int_to_string (pc_stage p)) = Inr (pc_stage p)"
proof -
  obtain ps qs where ps: "cfg_probes cfg = ps @ p # qs" using assms(1) by (meson split_list)
  obtain sec args where "gen_section p = sec @ ''int '' @ probe_prog_name p @ ''('' @ args"
    using gen_section_names by blast
  then have "generate_bpf_source cfg =
      (gen_header cfg @ concat (map gen_probe ps) @ sec) @ ''int '' @ probe_prog_name p @ ''('' @
      (args @ ''    struct event e = {};'' @ nl @ ''    e.ts    = bpf_ktime_get_ns();'' @ nl @
       ''    e.tid   = (__u32)bpf_get_current_pid_tgid();'' @ nl) @
      ''    e.stage = '' @ int_to_string (pc_stage p) @ '';'' @
      (nl @ gen_key p @ ''    bpf_ringbuf_output(&rb, &e, sizeof(e), 0);'' @ nl @
       ''    return 0;'' @ nl @ ''}'' @ nl @ nl @ concat (map gen_probe qs))"
    by (simp add: generate_bpf_source_def ps gen_probe_def)
  then show ?thesis using stoi_int_to_string [OF assms(2,3)] by blast
qed

theorem generated_program_name_and_stage_witness:
  "\<exists>before body after. generate_bpf_source sample_config =
      before @ ''int '' @ probe_prog_name (hd (cfg_probes sample_config)) @ ''('' @ body @
        ''    e.stage = '' @ int_to_string 0 @ '';'' @ after"
  using generated_program_name_and_stage [of "hd (cfg_probes sample_config)" sample_config] by (simp add: sample_config_def INT_MAX_def)

end
