(* ===== verification/Bytes.thy ===== *)
theory Bytes
  imports Prelude
begin

text \<open>
  Little-endian access to byte memory: fixed-width integers in a list of bytes, with the two round
  trips, and reads and writes at an offset that fail outside the list.
\<close>

primrec to_le :: "nat \<Rightarrow> 'a::len word \<Rightarrow> u8 list" where
  "to_le 0 w = []"
| "to_le (Suc n) w = ucast w # to_le n (drop_bit 8 w)"

primrec from_le :: "u8 list \<Rightarrow> 'a::len word" where
  "from_le [] = 0"
| "from_le (b # bs) = ucast b OR push_bit 8 (from_le bs)"

definition read_le :: "nat \<Rightarrow> nat \<Rightarrow> u8 list \<Rightarrow> ('a::len word) option" where
  "read_le n off bs = (if off + n \<le> length bs then Some (from_le (take n (drop off bs))) else None)"

definition write_bytes :: "nat \<Rightarrow> u8 list \<Rightarrow> u8 list \<Rightarrow> u8 list option" where
  "write_bytes off xs bs =
     (if off + length xs \<le> length bs then Some (take off bs @ xs @ drop (off + length xs) bs) else None)"

lemma length_to_le [simp]: "length (to_le n w) = n"
  by (induction n arbitrary: w) simp_all

lemma bit_from_le_to_le:
  fixes w :: "'a::len word"
  shows "bit (from_le (to_le n w) :: 'b::len word) k \<longleftrightarrow> k < 8 * n \<and> k < LENGTH('b) \<and> bit w k"
proof (induction n arbitrary: w k)
  case 0
  show ?case by simp
next
  case (Suc n)
  show ?case
  proof (cases "k < 8")
    case True
    then show ?thesis by (auto simp: bit_or_iff bit_push_bit_iff bit_ucast_iff dest: bit_imp_le_length)
  next
    case False
    then show ?thesis
      by (auto simp: bit_or_iff bit_push_bit_iff bit_ucast_iff Suc bit_drop_bit_eq dest: bit_imp_le_length)
  qed
qed

lemma from_le_to_le:
  fixes w :: "'a::len word"
  assumes "LENGTH('a) \<le> 8 * n"
  shows "from_le (to_le n w) = w"
  using assms by (auto simp: word_eq_bits bit_from_le_to_le)

lemma bit_from_le:
  "bit (from_le bs :: 'a::len word) k \<longleftrightarrow>
     k < LENGTH('a) \<and> k div 8 < length bs \<and> bit (bs ! (k div 8)) (k mod 8)"
proof (induction bs arbitrary: k)
  case Nil
  show ?case by simp
next
  case (Cons b bs)
  show ?case
  proof (cases "k < 8")
    case True
    then show ?thesis by (auto simp: bit_or_iff bit_push_bit_iff bit_ucast_iff)
  next
    case False
    then have "k div 8 = Suc ((k - 8) div 8)" "k mod 8 = (k - 8) mod 8"
      by (simp_all add: div_if le_mod_geq)
    with False show ?thesis
      by (auto simp: bit_or_iff bit_push_bit_iff bit_ucast_iff Cons dest: bit_imp_le_length)
  qed
qed

lemma nth_to_le:
  "i < n \<Longrightarrow> to_le n w ! i = ucast (drop_bit (8 * i) w)"
  by (induction n arbitrary: w i) (auto simp: nth_Cons drop_bit_drop_bit less_Suc_eq_0_disj add.commute split: nat.split)

lemma to_le_from_le:
  assumes "8 * length bs \<le> LENGTH('a)"
  shows "to_le (length bs) (from_le bs :: 'a::len word) = bs"
proof (rule nth_equalityI)
  fix i assume "i < length (to_le (length bs) (from_le bs :: 'a word))"
  then have i: "i < length bs" by simp
  have "bit (ucast (drop_bit (8 * i) (from_le bs :: 'a word)) :: u8) k \<longleftrightarrow> bit (bs ! i) k" if "k < 8" for k
    using that i assms by (simp add: bit_ucast_iff bit_drop_bit_eq bit_from_le)
  then show "to_le (length bs) (from_le bs :: 'a word) ! i = bs ! i"
    using i by (simp add: nth_to_le word_eq_bits)
qed simp

lemma read_le_append1 [simp]:
  "off + n \<le> length xs \<Longrightarrow> read_le n off (xs @ ys) = read_le n off xs"
  by (simp add: read_le_def)

lemma read_le_append2 [simp]:
  "length xs \<le> off \<Longrightarrow> read_le n off (xs @ ys) = read_le n (off - length xs) ys"
  by (auto simp: read_le_def)

lemma read_le_to_le [simp]:
  fixes w :: "'a::len word"
  shows "LENGTH('a) \<le> 8 * n \<Longrightarrow> read_le n 0 (to_le n w @ ys) = Some w"
  by (simp add: read_le_def from_le_to_le)

lemma read_le_to_le_whole [simp]:
  fixes w :: "'a::len word"
  shows "LENGTH('a) \<le> 8 * n \<Longrightarrow> read_le n 0 (to_le n w) = Some w"
  by (simp add: read_le_def from_le_to_le)

end
