(* ===== verification/Lensx.thy ===== *)
theory Lensx
  imports Seq_Matcher Key_Matcher Fifo_Queue Hist Bpf_Gen Bytes
begin

text \<open>
  \<open>main\<close> of \<open>src/lensx.cpp\<close>: command line, choice of the process, attaching the probes, building the
  matchers and wiring their callbacks to queues and histograms, the ring-buffer handler, and the
  final drain. Objects that the C++ code reaches through pointers are positions in the vector of
  matchers and names in the maps of queues and histograms. The iteration order of an
  \<open>unordered_map\<close> is not specified by C++: it is the argument \<open>order\<close>.
\<close>

section \<open>The world the callbacks capture\<close>

record World =
  w_hists :: "string \<Rightarrow> Hist option"
  w_fifos :: "string \<Rightarrow> FifoQueue option"
  w_csv :: "Csv_Row list option"

text \<open>\<open>hists[name].record(...)\<close>; the subscript creates an empty histogram for a new name.\<close>

definition record_sample :: "string \<Rightarrow> Csv_Row \<Rightarrow> World \<Rightarrow> fault + World" where
  "record_sample name row w =
     (let h = (case w_hists w name of None \<Rightarrow> Hist_new | Some h \<Rightarrow> h)
      in bindR (Hist_record row (h, w_csv w)) (\<lambda>(h, csv).
           Inr (w\<lparr>w_hists := (w_hists w)(name \<mapsto> h), w_csv := csv\<rparr>)))"

text \<open>The map \<open>report_keys\<close>: a later report for the same pair of stages replaces an earlier one.\<close>

type_synonym report_map = "int \<times> int \<Rightarrow> string option"

definition build_report_keys :: "ReportConfig list \<Rightarrow> report_map" where
  "build_report_keys rs = fold (\<lambda>r m. m((rc_from r, rc_to r) \<mapsto> rc_name r)) rs Map.empty"

text \<open>Reading a time stamp of the snapshot; a stage that was never assigned is indeterminate.\<close>

definition snap_read :: "StageSnapshot \<Rightarrow> nat \<Rightarrow> fault + u64" where
  "snap_read s i = (if i \<ge> 64 then Inl Out_Of_Bounds
     else case snap_ts s i of None \<Rightarrow> Inl Indeterminate | Some t \<Rightarrow> Inr t)"

text \<open>The completion callback of every sequential matcher: report all pairs of its stages.\<close>

definition report_pair_cb :: "report_map \<Rightarrow> StageSnapshot \<Rightarrow> nat \<times> nat \<Rightarrow> World \<Rightarrow> fault + World" where
  "report_pair_cb rk s = (\<lambda>(i, j) w.
     case rk (int i, int j) of None \<Rightarrow> Inr w
     | Some name \<Rightarrow> bindR (snap_read s i) (\<lambda>ti. bindR (snap_read s j) (\<lambda>tj.
         record_sample name \<lparr>row_from = int i, row_to = int j, row_val = tj - ti,
           row_ts_from = ti, row_ts_to = tj, row_tid = snap_tid s\<rparr> w)))"

definition seq_report_cb :: "report_map \<Rightarrow> StageSnapshot \<Rightarrow> World \<Rightarrow> fault + World" where
  "seq_report_cb rk s =
     foldR (report_pair_cb rk s)
       [(i, j). i \<leftarrow> [0..<64], bit (snap_stages s) i, j \<leftarrow> [Suc i..<64], bit (snap_stages s) j]"

text \<open>The two callbacks that link the matchers of a cross-thread report through a queue.\<close>

definition fifo_push_cb :: "string \<Rightarrow> int \<Rightarrow> StageSnapshot \<Rightarrow> World \<Rightarrow> fault + World" where
  "fifo_push_cb fkey push_stage s w =
     bindR (shl1 push_stage) (\<lambda>b.
       if (snap_stages s AND b) = 0 then Inr w
       else case w_fifos w fkey of None \<Rightarrow> Inl Out_Of_Bounds
         | Some q \<Rightarrow> bindR (snap_read s (nat push_stage)) (\<lambda>t.
             bindR (FifoQueue_push t q) (\<lambda>(q, _). Inr (w\<lparr>w_fifos := (w_fifos w)(fkey \<mapsto> q)\<rparr>))))"

definition fifo_pop_cb :: "string \<Rightarrow> ReportConfig \<Rightarrow> StageSnapshot \<Rightarrow> World \<Rightarrow> fault + World" where
  "fifo_pop_cb fkey r s w =
     bindR (shl1 (rc_to r)) (\<lambda>b.
       if (snap_stages s AND b) = 0 then Inr w
       else case w_fifos w fkey of None \<Rightarrow> Inl Out_Of_Bounds
         | Some q \<Rightarrow>
            (case FifoQueue_pop q of (q, None) \<Rightarrow> Inr (w\<lparr>w_fifos := (w_fifos w)(fkey \<mapsto> q)\<rparr>)
             | (q, Some push_ts) \<Rightarrow> bindR (snap_read s (nat (rc_to r))) (\<lambda>t.
                 record_sample (rc_name r)
                   \<lparr>row_from = rc_from r, row_to = rc_to r, row_val = t - push_ts,
                    row_ts_from = push_ts, row_ts_to = t, row_tid = snap_tid s\<rparr>
                   (w\<lparr>w_fifos := (w_fifos w)(fkey \<mapsto> q)\<rparr>))))"

section \<open>Construction and wiring\<close>

datatype AnyMatcher = SeqM "World SeqMatcher" | KeyM KeyMatcher

record App =
  app_matchers :: "AnyMatcher list"
  app_seq_map :: "string \<Rightarrow> nat option"
  app_world :: World

definition build_matcher :: "MatcherConfig \<Rightarrow> App \<Rightarrow> fault + App" where
  "build_matcher mc a =
     (if mc_mode mc = ''seq'' then
        bindR (SeqMatcher_new (mc_id mc) (mc_stages mc)) (\<lambda>m.
          Inr (a\<lparr>app_seq_map := (app_seq_map a)(mc_id mc \<mapsto> length (app_matchers a)),
                 app_matchers := app_matchers a @ [SeqM m]\<rparr>))
      else if mc_mode mc = ''key'' then
        bindR (KeyMatcher_new (mc_id mc) (mc_stages mc)) (\<lambda>m.
          Inr (a\<lparr>app_matchers := app_matchers a @ [KeyM m]\<rparr>))
      else if mc_mode mc = ''fifo'' then
        (if length (mc_stages mc) < 2 then Inr a
         else bindR (FifoQueue_new (mc_id mc) (mc_queue_size mc)) (\<lambda>q.
           Inr (a\<lparr>app_world := (app_world a)\<lparr>w_fifos := (w_fifos (app_world a))(mc_id mc \<mapsto> q)\<rparr>\<rparr>)))
      else Inr a)"

definition register_cb :: "nat \<Rightarrow> (StageSnapshot \<Rightarrow> World \<Rightarrow> fault + World) \<Rightarrow> App \<Rightarrow> App" where
  "register_cb k cb a =
     (case app_matchers a ! k of
        SeqM m \<Rightarrow> a\<lparr>app_matchers := (app_matchers a)[k := SeqM (onComplete cb m)]\<rparr>
      | KeyM m \<Rightarrow> a)"

text \<open>\<open>for (auto &[id, seq] : seq_map) if (seq->hasStage(stage)) found = seq;\<close> the last match wins.\<close>

definition find_seq :: "string list \<Rightarrow> App \<Rightarrow> int \<Rightarrow> fault + nat option" where
  "find_seq order a stage =
     foldR (\<lambda>ident found. case app_seq_map a ident of None \<Rightarrow> Inr found
       | Some k \<Rightarrow> (case app_matchers a ! k of KeyM m \<Rightarrow> Inr found
           | SeqM m \<Rightarrow> bindR (hasStage m stage) (\<lambda>b. Inr (if b then Some k else found))))
       order None"

definition wire_report :: "string list \<Rightarrow> ReportConfig \<Rightarrow> App \<Rightarrow> fault + App" where
  "wire_report order r a =
     bindR (find_seq order a (rc_from r)) (\<lambda>push_seq.
     bindR (find_seq order a (rc_to r)) (\<lambda>pop_seq.
       case (push_seq, pop_seq) of
         (Some i, Some j) \<Rightarrow>
           if i = j then Inr a
           else
             bindR (case w_fifos (app_world a) (rc_name r) of Some q \<Rightarrow> Inr a
               | None \<Rightarrow> bindR (FifoQueue_new (rc_name r) 4096) (\<lambda>q.
                   Inr (a\<lparr>app_world := (app_world a)\<lparr>w_fifos := (w_fifos (app_world a))(rc_name r \<mapsto> q)\<rparr>\<rparr>)))
               (\<lambda>a. Inr (register_cb j (fifo_pop_cb (rc_name r) r)
                          (register_cb i (fifo_push_cb (rc_name r) (rc_from r)) a)))
       | _ \<Rightarrow> Inr a))"

definition app_setup :: "string list \<Rightarrow> Config \<Rightarrow> fault + App" where
  "app_setup order cfg =
     (let rk = build_report_keys (cfg_reports cfg) in
      bindR (foldR build_matcher (cfg_matchers cfg)
               \<lparr>app_matchers = [], app_seq_map = Map.empty,
                app_world = \<lparr>w_hists = Map.empty, w_fifos = Map.empty, w_csv = None\<rparr>\<rparr>) (\<lambda>a.
      bindR (foldR (\<lambda>ident a. case app_seq_map a ident of None \<Rightarrow> Inr a
                     | Some k \<Rightarrow> Inr (register_cb k (seq_report_cb rk) a)) order a) (\<lambda>a.
      bindR (foldR (wire_report order) (cfg_reports cfg) a) (\<lambda>a.
        Inr (if cfg_csv_path cfg = [] then a
             else a\<lparr>app_world := (app_world a)\<lparr>w_csv := Some []\<rparr>\<rparr>)))))"

section \<open>Events and the final report\<close>

text \<open>The layout of \<open>RawEvent\<close> on x86-64: ts at 0, tid at 8, stage at 12, three bytes of padding, key at 16.\<close>

definition decode_event :: "u8 list \<Rightarrow> RawEvent option" where
  "decode_event data =
     (if length data < 24 then None
      else Some \<lparr>re_ts = the (read_le 8 0 data), re_tid = the (read_le 4 8 data),
                 re_stage = the (read_le 1 12 data), re_key = the (read_le 8 16 data)\<rparr>)"

text \<open>The bytes of \<open>struct event\<close> as the generated program lays them out (\<open>pad[3]\<close> is zeroed by \<open>= {}\<close>).\<close>

definition encode_event :: "RawEvent \<Rightarrow> u8 list" where
  "encode_event e = to_le 8 (re_ts e) @ to_le 4 (re_tid e) @ to_le 1 (re_stage e) @ [0, 0, 0] @ to_le 8 (re_key e)"

fun feed_matcher :: "RawEvent \<Rightarrow> AnyMatcher \<Rightarrow> World \<Rightarrow> fault + (AnyMatcher \<times> World)" where
  "feed_matcher e (SeqM m) w = bindR (SeqMatcher_feed e (m, w)) (\<lambda>(m, w). Inr (SeqM m, w))"
| "feed_matcher e (KeyM m) w = bindR (KeyMatcher_feed e m) (\<lambda>m. Inr (KeyM m, w))"

primrec feed_all :: "RawEvent \<Rightarrow> AnyMatcher list \<Rightarrow> World \<Rightarrow> fault + (AnyMatcher list \<times> World)" where
  "feed_all e [] w = Inr ([], w)"
| "feed_all e (m # ms) w = bindR (feed_matcher e m w) (\<lambda>(m, w).
     bindR (feed_all e ms w) (\<lambda>(ms, w). Inr (m # ms, w)))"

definition handle_ring_event :: "u8 list \<Rightarrow> App \<Rightarrow> fault + App" where
  "handle_ring_event data a =
     (case decode_event data of None \<Rightarrow> Inr a
      | Some e \<Rightarrow> bindR (feed_all e (app_matchers a) (app_world a)) (\<lambda>(ms, w).
          Inr (a\<lparr>app_matchers := ms, app_world := w\<rparr>)))"

definition delta_row :: "Delta \<Rightarrow> Csv_Row" where
  "delta_row d = \<lparr>row_from = d_from_stage d, row_to = d_to_stage d, row_val = d_val_ns d,
     row_ts_from = d_ts_from d, row_ts_to = d_ts_to d, row_tid = d_tid d\<rparr>"

definition report_delta :: "report_map \<Rightarrow> Delta \<Rightarrow> World \<Rightarrow> fault + World" where
  "report_delta rk d w = (case rk (d_from_stage d, d_to_stage d) of None \<Rightarrow> Inr w
     | Some name \<Rightarrow> record_sample name (delta_row d) w)"

fun drain_matcher :: "AnyMatcher \<Rightarrow> Delta list \<times> AnyMatcher" where
  "drain_matcher (SeqM m) = (let (ds, m) = SeqMatcher_drain m in (ds, SeqM m))"
| "drain_matcher (KeyM m) = (let (ds, m) = KeyMatcher_drain m in (ds, KeyM m))"

definition final_drain :: "report_map \<Rightarrow> App \<Rightarrow> fault + World" where
  "final_drain rk a =
     foldR (\<lambda>m. foldR (report_delta rk) (fst (drain_matcher m))) (app_matchers a) (app_world a)"

text \<open>A whole session: setup, the events the ring buffer delivers, the final drain.\<close>

definition lensx_session :: "string list \<Rightarrow> Config \<Rightarrow> u8 list list \<Rightarrow> fault + World" where
  "lensx_session order cfg samples =
     bindR (app_setup order cfg) (\<lambda>a. bindR (foldR handle_ring_event samples a)
       (final_drain (build_report_keys (cfg_reports cfg))))"

section \<open>Command line, target and probes\<close>

text \<open>\<open>for (i = 3; i < argc - 1; i++)\<close>: the word after each \<open>--pid\<close>; the last one counts.\<close>

fun parse_pid_args :: "string list \<Rightarrow> int \<Rightarrow> fault + int" where
  "parse_pid_args (a # b # rest) pid =
     (if a = ''--pid'' then bindR (stoi b) (parse_pid_args (b # rest)) else parse_pid_args (b # rest) pid)"
| "parse_pid_args _ pid = Inr pid"

text \<open>Arguments, configuration and process id; \<open>Exit 1\<close> is \<open>return 1\<close> of \<open>main\<close>.\<close>

definition choose_target ::
  "(string \<Rightarrow> fault + Config) \<Rightarrow> (string \<Rightarrow> fault + int) \<Rightarrow> string list \<Rightarrow> fault + (Config \<times> int)" where
  "choose_target parse resolve_pid argv =
     (if length argv < 3 \<or> argv ! 1 \<noteq> ''run'' then Inl (Exit 1)
      else bindR (parse_pid_args (drop 3 argv) 0) (\<lambda>pid.
           bindR (parse (argv ! 2)) (\<lambda>cfg.
           bindR (if pid = 0 \<and> cfg_process cfg \<noteq> [] then resolve_pid (cfg_process cfg) else Inr pid) (\<lambda>pid.
             if pid = 0 then Inl (Exit 1) else Inr (cfg, pid)))))"

text \<open>What step 5 asks libbpf to attach for one probe; a tracepoint's event is cut at its first slash
  (\<open>substr(npos + 1)\<close> is the whole string when there is none).\<close>

datatype attach_request =
    Attach_Uprobe string
  | Attach_Kprobe bool string
  | Attach_Tracepoint string string
  | Attach_Nothing

definition probe_attach_request :: "ProbeConfig \<Rightarrow> attach_request" where
  "probe_attach_request p =
     (if pc_type p = ''uprobe'' then Attach_Uprobe (pc_symbol p)
      else if pc_type p = ''kprobe'' \<or> pc_type p = ''kretprobe''
        then Attach_Kprobe (pc_type p = ''kretprobe'') (pc_symbol p)
      else if pc_type p = ''tracepoint'' then
        (case str_find (CHR ''/'') (pc_event p) of
           None \<Rightarrow> Attach_Tracepoint (pc_event p) (pc_event p)
         | Some k \<Rightarrow> Attach_Tracepoint (take k (pc_event p)) (drop (k + 1) (pc_event p)))
      else Attach_Nothing)"

text \<open>The attach loop: a probe whose program is missing or whose attachment fails is skipped with a
  message; \<open>find_prog\<close> and \<open>attach\<close> stand for libbpf's lookup and attach calls.\<close>

definition attach_probes ::
  "(string \<Rightarrow> 'p option) \<Rightarrow> ('p \<Rightarrow> attach_request \<Rightarrow> 'l option) \<Rightarrow> ProbeConfig list \<Rightarrow> 'l list" where
  "attach_probes find_prog attach ps =
     concat (map (\<lambda>p. case find_prog (probe_prog_name p) of None \<Rightarrow> []
       | Some prog \<Rightarrow> (if probe_attach_request p = Attach_Nothing then []
           else case attach prog (probe_attach_request p) of None \<Rightarrow> [] | Some l \<Rightarrow> [l])) ps)"

section \<open>Lemmas\<close>

text \<open>
  What the completion callback does with a snapshot is what reporting the deltas of the same group
  does: the pairs are visited in the same order when the stages are configured in ascending order.
\<close>

lemma snapshot_pairs:
  assumes inv: "seq_inv m" and asc: "sorted_wrt (<) (sq_stages m)"
  shows "[(i, j). i \<leftarrow> [0..<64], bit (snap_stages (make_snapshot m r)) i,
            j \<leftarrow> [Suc i..<64], bit (snap_stages (make_snapshot m r)) j] =
    map (\<lambda>(a, b). (nat a, nat b)) (list_pairs (sq_stages m))"
proof -
  have "filter (bit (sq_stages_mask m)) [0..<64] = map nat (sq_stages m)"
    using inv asc by (intro filter_upt_stages) (auto simp: seq_inv_def valid_stages_def mask_of_def)
  then show ?thesis unfolding filtered_pairs by (simp add: make_snapshot_def list_pairs_map)
qed

lemma report_pair_delta:
  assumes inv: "seq_inv m" and "(a, b) \<in> set (list_pairs (sq_stages m))"
  shows "report_pair_cb rk (make_snapshot m r) (nat a, nat b) w =
    report_delta rk \<lparr>d_val_ns = rec_ts r ! nat b - rec_ts r ! nat a, d_from_stage = a, d_to_stage = b,
      d_ts_from = rec_ts r ! nat a, d_ts_to = rec_ts r ! nat b, d_tid = rec_tid r\<rparr> w"
proof -
  have ab: "a \<in> set (sq_stages m)" "b \<in> set (sq_stages m)" using set_list_pairs [OF assms(2)] by auto
  have v: "valid_stages (sq_stages m)" using inv by (simp add: seq_inv_def)
  have "snap_read (make_snapshot m r) (nat x) = Inr (rec_ts r ! nat x)" if "x \<in> set (sq_stages m)" for x
    using valid_stagesD [OF v that] that by (auto simp: snap_read_def make_snapshot_ts [OF inv] le_nat_iff)
  then show ?thesis
    using valid_stagesD [OF v ab(1)] valid_stagesD [OF v ab(2)] ab
    by (simp add: report_pair_cb_def report_delta_def delta_row_def make_snapshot_def split: option.split)
qed

lemma callback_reports_deltas:
  assumes inv: "seq_inv m" and asc: "sorted_wrt (<) (sq_stages m)"
  shows "seq_report_cb rk (make_snapshot m r) w = foldR (report_delta rk) (record_deltas (sq_stages m) r) w"
proof -
  have "seq_report_cb rk (make_snapshot m r) w =
      foldR (\<lambda>(a, b). report_pair_cb rk (make_snapshot m r) (nat a, nat b)) (list_pairs (sq_stages m)) w"
    unfolding seq_report_cb_def snapshot_pairs [OF inv asc] foldR_map by (simp add: case_prod_unfold)
  also have "\<dots> = foldR (\<lambda>(a, b). report_delta rk \<lparr>d_val_ns = rec_ts r ! nat b - rec_ts r ! nat a,
      d_from_stage = a, d_to_stage = b, d_ts_from = rec_ts r ! nat a, d_ts_to = rec_ts r ! nat b,
      d_tid = rec_tid r\<rparr>) (list_pairs (sq_stages m)) w"
    by (rule foldR_cong) (auto simp: report_pair_delta [OF inv])
  also have "\<dots> = foldR (report_delta rk) (record_deltas (sq_stages m) r) w"
    unfolding record_deltas_def index_pairs_eq foldR_map by (simp add: case_prod_unfold)
  finally show ?thesis .
qed

text \<open>A sequential matcher whose only callback is the report one has reported all deltas it keeps for the final drain.\<close>

definition reporting :: "report_map \<Rightarrow> World SeqMatcher \<Rightarrow> bool" where
  "reporting rk m \<longleftrightarrow> seq_inv m \<and> sorted_wrt (<) (sq_stages m) \<and> sq_on_complete m = [seq_report_cb rk]"

lemma seq_feed_reports:
  assumes m: "reporting rk m" and feed: "SeqMatcher_feed e (m, w) = Inr (m', w')"
  shows "reporting rk m' \<and> (\<exists>ds. sq_pending m' = sq_pending m @ ds \<and> foldR (report_delta rk) ds w = Inr w')"
proof -
  have inv: "seq_inv m" and asc: "sorted_wrt (<) (sq_stages m)" and cb: "sq_on_complete m = [seq_report_cb rk]"
    using m by (simp_all add: reporting_def)
  have st: "unat (re_stage e) < 64"
    using feed by (simp add: SeqMatcher_feed_def Let_def shl1_eq_Inr) (metis nat_less_iff nat_numeral unat_eq_nat_uint uint_ge_0 of_nat_numeral)
  obtain g out where "seq_spec_step (sq_stages m) e (seq_group m (tid_hash (re_tid e))) = (g, out)" by fastforce
  note ref = seq_feed_refines [OF inv st feed this]
  have "sq_on_complete m' = sq_on_complete m \<and> (\<exists>ds. sq_pending m' = sq_pending m @ ds \<and> foldR (report_delta rk) ds w = Inr w')"
  proof (cases "uint (re_stage e) \<in> set (sq_stages m) \<and> record_complete (sq_stages_mask m) (seq_slot_next e m)")
    case True
    then show ?thesis using feed
      by (auto simp: seq_feed_eq [OF inv st] cb callback_reports_deltas [OF inv asc] Let_def)
  next
    case False
    then show ?thesis using feed by (auto simp: seq_feed_eq [OF inv st] Let_def split: if_splits)
  qed
  then show ?thesis using ref asc cb by (simp add: reporting_def)
qed

lemma seq_run_reports:
  assumes "reporting rk m" "seq_run es (m, w) = Inr (m', w')"
  shows "reporting rk m' \<and> (\<exists>ds. sq_pending m' = sq_pending m @ ds \<and> foldR (report_delta rk) ds w = Inr w')"
  using assms
proof (induction es arbitrary: m w)
  case Nil
  then show ?case by auto
next
  case (Cons e es)
  then obtain m1 w1 where f: "SeqMatcher_feed e (m, w) = Inr (m1, w1)" "seq_run es (m1, w1) = Inr (m', w')" by auto
  obtain ds where 1: "reporting rk m1" "sq_pending m1 = sq_pending m @ ds" "foldR (report_delta rk) ds w = Inr w1"
    using seq_feed_reports [OF Cons.prems(1) f(1)] by blast
  obtain ds' where 2: "reporting rk m'" "sq_pending m' = sq_pending m1 @ ds'" "foldR (report_delta rk) ds' w1 = Inr w'"
    using Cons.IH [OF 1(1) f(2)] by blast
  show ?case using 1 2 by (intro conjI exI [of _ "ds @ ds'"]) (auto simp: foldR_append)
qed

text \<open>The rows that reporting adds to the CSV file.\<close>

definition reported_rows :: "report_map \<Rightarrow> Delta list \<Rightarrow> Csv_Row list" where
  "reported_rows rk ds = map delta_row (filter (\<lambda>d. rk (d_from_stage d, d_to_stage d) \<noteq> None) ds)"

lemma report_rows:
  "foldR (report_delta rk) ds w = Inr w' \<Longrightarrow> w_csv w' = map_option (\<lambda>rows. rows @ reported_rows rk ds) (w_csv w)"
proof (induction ds arbitrary: w)
  case Nil
  then show ?case by (simp add: reported_rows_def option.map_ident)
next
  case (Cons d ds)
  then obtain w1 where w1: "report_delta rk d w = Inr w1" "foldR (report_delta rk) ds w1 = Inr w'" by auto
  have "w_csv w1 = map_option (\<lambda>rows. rows @ reported_rows rk [d]) (w_csv w)"
    using w1(1) by (auto simp: report_delta_def record_sample_def Hist_record_def reported_rows_def Let_def option.map_ident
        split: option.splits if_splits)
  then show ?case using Cons.IH [OF w1(2)] by (cases "w_csv w") (auto simp: reported_rows_def)
qed

text \<open>A session with one sequential matcher: setup, the ring handler, and the drain.\<close>

lemma one_matcher_setup:
  assumes cfg: "cfg_matchers cfg = [mc]" "mc_mode mc = ''seq''" and run: "app_setup [mc_id mc] cfg = Inr a"
  shows "\<exists>m. SeqMatcher_new (mc_id mc) (mc_stages mc) = Inr m \<and>
    app_matchers a = [SeqM (onComplete (seq_report_cb (build_report_keys (cfg_reports cfg))) m)] \<and>
    w_hists (app_world a) = Map.empty \<and> w_csv (app_world a) = (if cfg_csv_path cfg = [] then None else Some [])"
proof -
  let ?rk = "build_report_keys (cfg_reports cfg)"
  obtain m :: "World SeqMatcher" where m: "SeqMatcher_new (mc_id mc) (mc_stages mc) = Inr m"
    using run cfg by (auto simp: app_setup_def build_matcher_def Let_def)
  define a0 where "a0 = \<lparr>app_matchers = [SeqM (onComplete (seq_report_cb ?rk) m)], app_seq_map = [mc_id mc \<mapsto> 0],
    app_world = \<lparr>w_hists = Map.empty, w_fifos = Map.empty, w_csv = None\<rparr>\<rparr>"
  have find: "find_seq [mc_id mc] a0 s = Inr k \<Longrightarrow> k = None \<or> k = Some 0" for s k
    by (auto simp: find_seq_def a0_def split: if_splits)
  have wire: "wire_report [mc_id mc] r a0 = Inr a1 \<Longrightarrow> a1 = a0" for r a1
    using find by (fastforce simp: wire_report_def split: option.splits if_splits)
  have "foldR (wire_report [mc_id mc]) rs a0 = Inr a1 \<Longrightarrow> a1 = a0" for rs a1
    by (induction rs) (auto dest: wire)
  note wires = this
  obtain x where x: "foldR (wire_report [mc_id mc]) (cfg_reports cfg) a0 = Inr x"
    "a = (if cfg_csv_path cfg = [] then x else x\<lparr>app_world := (app_world x)\<lparr>w_csv := Some []\<rparr>\<rparr>)"
    using run cfg m by (auto simp: app_setup_def build_matcher_def Let_def register_cb_def a0_def)
  then have "a = (if cfg_csv_path cfg = [] then a0 else a0\<lparr>app_world := (app_world a0)\<lparr>w_csv := Some []\<rparr>\<rparr>)"
    using wires [OF x(1)] by simp
  then show ?thesis using m by (auto simp: a0_def)
qed

lemma one_matcher_events:
  assumes "app_matchers a = [SeqM m]" "foldR handle_ring_event samples a = Inr a'"
  shows "\<exists>m' w'. seq_run (List.map_filter decode_event samples) (m, app_world a) = Inr (m', w') \<and>
    app_matchers a' = [SeqM m'] \<and> app_world a' = w'"
  using assms
proof (induction samples arbitrary: a m)
  case Nil
  then show ?case by (simp add: map_filter_simps)
next
  case (Cons d samples)
  show ?case
  proof (cases "decode_event d")
    case None
    then show ?thesis using Cons by (simp add: handle_ring_event_def map_filter_simps)
  next
    case (Some e)
    then obtain m1 w1 where f: "SeqMatcher_feed e (m, app_world a) = Inr (m1, w1)"
      "foldR handle_ring_event samples (a\<lparr>app_matchers := [SeqM m1], app_world := w1\<rparr>) = Inr a'"
    proof -
      have "handle_ring_event d a = bindR (SeqMatcher_feed e (m, app_world a)) (\<lambda>(m, w). Inr (a\<lparr>app_matchers := [SeqM m], app_world := w\<rparr>))"
        using Some Cons.prems(1) by (simp add: handle_ring_event_def bindR_case split: sum.split prod.split)
      then show thesis using that Cons.prems(2) by auto
    qed
    then show ?thesis using Cons.IH [of "a\<lparr>app_matchers := [SeqM m1], app_world := w1\<rparr>" m1] Some by (simp add: map_filter_simps)
  qed
qed

lemma read_le_exact:
  fixes w :: "'a::len word"
  assumes "LENGTH('a) \<le> 8 * n"
  shows "read_le n (length pre) (pre @ to_le n w @ post) = Some w"
  using assms by (simp add: read_le_def from_le_to_le)

lemma decode_encode_event: "decode_event (encode_event e) = Some e"
proof -
  let ?a = "to_le 8 (re_ts e)" and ?b = "to_le 4 (re_tid e)" and ?c = "to_le 1 (re_stage e)"
    and ?d = "to_le 8 (re_key e)" and ?p = "[0, 0, 0] :: u8 list"
  have "read_le 8 0 (encode_event e) = Some (re_ts e)"
    using read_le_exact [of 8 "[]" "re_ts e" "?b @ ?c @ ?p @ ?d"] by (simp only: encode_event_def append.simps list.size) simp
  moreover have "read_le 4 8 (encode_event e) = Some (re_tid e)"
    using read_le_exact [of 4 ?a "re_tid e" "?c @ ?p @ ?d"] by (simp only: encode_event_def append_assoc length_to_le) simp
  moreover have "read_le 1 12 (encode_event e) = Some (re_stage e)"
    using read_le_exact [of 1 "?a @ ?b" "re_stage e" "?p @ ?d"]
    by (simp only: encode_event_def append_assoc length_append length_to_le) simp
  moreover have "read_le 8 16 (encode_event e) = Some (re_key e)"
    using read_le_exact [of 8 "?a @ ?b @ ?c @ ?p" "re_key e" "[]"]
    by (simp only: encode_event_def append_assoc append_Nil2 length_append length_to_le) simp
  moreover have "length (encode_event e) = 24" by (simp add: encode_event_def)
  ultimately show ?thesis by (simp add: decode_event_def)
qed

section \<open>Two matchers linked by a queue\<close>

text \<open>The abstract link: a list of pushed time stamps, bounded by the capacity.\<close>

datatype link_action = Push_Done StageSnapshot | Pop_Done StageSnapshot

definition link_cb :: "string \<Rightarrow> ReportConfig \<Rightarrow> link_action \<Rightarrow> World \<Rightarrow> fault + World" where
  "link_cb fkey r a = (case a of Push_Done s \<Rightarrow> fifo_push_cb fkey (rc_from r) s
     | Pop_Done s \<Rightarrow> fifo_pop_cb fkey r s)"

primrec link_spec :: "nat \<Rightarrow> ReportConfig \<Rightarrow> link_action list \<Rightarrow> u64 list \<Rightarrow> Csv_Row list" where
  "link_spec c r [] q = []"
| "link_spec c r (a # as) q = (case a of
     Push_Done s \<Rightarrow> link_spec c r as ((if length q < c then q else tl q) @ [the (snap_ts s (nat (rc_from r)))])
   | Pop_Done s \<Rightarrow> (case q of [] \<Rightarrow> link_spec c r as []
       | t # q' \<Rightarrow> (let t' = the (snap_ts s (nat (rc_to r))) in
           \<lparr>row_from = rc_from r, row_to = rc_to r, row_val = t' - t, row_ts_from = t, row_ts_to = t',
            row_tid = snap_tid s\<rparr> # link_spec c r as q')))"

definition link_ok :: "ReportConfig \<Rightarrow> link_action \<Rightarrow> bool" where
  "link_ok r a = (case a of
     Push_Done s \<Rightarrow> 0 \<le> rc_from r \<and> rc_from r < 64 \<and> bit (snap_stages s) (nat (rc_from r)) \<and>
       snap_ts s (nat (rc_from r)) \<noteq> None
   | Pop_Done s \<Rightarrow> 0 \<le> rc_to r \<and> rc_to r < 64 \<and> bit (snap_stages s) (nat (rc_to r)) \<and>
       snap_ts s (nat (rc_to r)) \<noteq> None)"

definition link_inv :: "string \<Rightarrow> string \<Rightarrow> nat \<Rightarrow> FifoQueue \<Rightarrow> World \<Rightarrow> bool" where
  "link_inv fkey name n q w \<longleftrightarrow> w_fifos w fkey = Some q \<and> fifo_inv q \<and> n \<le> fifo_room q \<and>
     (\<forall>h. w_hists w name = Some h \<longrightarrow> hist_inv h \<and> h_count h + int n \<le> INT_MAX)"

lemma record_sample_step:
  assumes "w_csv w = Some rows"
    and h: "\<forall>h. w_hists w name = Some h \<longrightarrow> hist_inv h \<and> h_count h + int (Suc n) \<le> INT_MAX"
    and n: "int (Suc n) \<le> INT_MAX"
  shows "\<exists>w'. record_sample name row w = Inr w' \<and> w_csv w' = Some (rows @ [row]) \<and>
    w_fifos w' = w_fifos w \<and>
    (\<forall>h. w_hists w' name = Some h \<longrightarrow> hist_inv h \<and> h_count h + int n \<le> INT_MAX)"
proof -
  define h where "h = (case w_hists w name of None \<Rightarrow> Hist_new | Some h \<Rightarrow> h)"
  have "hist_inv h" "h_count h + int (Suc n) \<le> INT_MAX"
    using assms(2) n hist_inv_new by (auto simp: h_def Hist_new_def split: option.split)
  then obtain h' where "Hist_record row (h, w_csv w) = Inr (h', Some (rows @ [row]))" "hist_inv h'"
    "h_count h' = h_count h + 1"
    using hist_record_step [of h row "w_csv w"] assms(1) by auto
  then show ?thesis using \<open>h_count h + int (Suc n) \<le> INT_MAX\<close>
    by (auto simp: record_sample_def h_def [symmetric])
qed

lemma link_step:
  assumes inv: "link_inv fkey (rc_name r) (Suc n) q w" and ok: "link_ok r a"
    and csv: "w_csv w = Some rows" and n: "int (Suc n) \<le> INT_MAX"
  shows "\<exists>w' q' out. link_cb fkey r a w = Inr w' \<and> link_inv fkey (rc_name r) n q' w' \<and>
    fq_capacity q' = fq_capacity q \<and> w_csv w' = Some (rows @ out) \<and>
    link_spec (nat (fq_capacity q)) r (a # as) (fifo_list q) =
      out @ link_spec (nat (fq_capacity q)) r as (fifo_list q')"
proof (cases a)
  case (Push_Done s)
  then obtain t where t: "0 \<le> rc_from r" "rc_from r < 64" "bit (snap_stages s) (nat (rc_from r))"
    "snap_ts s (nat (rc_from r)) = Some t"
    using ok by (auto simp: link_ok_def)
  have "fq_tail q < INT_MAX" using inv by (auto simp: link_inv_def fifo_room_def)
  then obtain q' b where q': "FifoQueue_push t q = Inr (q', b)" "fifo_inv q'" "fifo_room q' = fifo_room q - 1"
    "fq_capacity q' = fq_capacity q"
    "fifo_list q' = (if length (fifo_list q) < nat (fq_capacity q) then fifo_list q else tl (fifo_list q)) @ [t]"
    using fifo_push_spec [of q t] inv by (auto simp: link_inv_def)
  have "link_cb fkey r a w = Inr (w\<lparr>w_fifos := (w_fifos w)(fkey \<mapsto> q')\<rparr>)"
    using Push_Done t q'(1) inv
    by (auto simp: link_cb_def fifo_push_cb_def link_inv_def snap_read_def and_two_power_eq_0 le_nat_iff)
  moreover have "link_inv fkey (rc_name r) n q' (w\<lparr>w_fifos := (w_fifos w)(fkey \<mapsto> q')\<rparr>)"
    using inv q' by (auto simp: link_inv_def)
  ultimately show ?thesis using Push_Done t(4) q'(4,5) csv
    by (intro exI [of _ "w\<lparr>w_fifos := (w_fifos w)(fkey \<mapsto> q')\<rparr>"] exI [of _ q'] exI [of _ "[]"]) simp
next
  case (Pop_Done s)
  then obtain t' where t: "0 \<le> rc_to r" "rc_to r < 64" "bit (snap_stages s) (nat (rc_to r))"
    "snap_ts s (nat (rc_to r)) = Some t'"
    using ok by (auto simp: link_ok_def)
  obtain q' where q': "FifoQueue_pop q = (q', case fifo_list q of [] \<Rightarrow> None | x # _ \<Rightarrow> Some x)"
    "fifo_inv q'" "fifo_room q' = fifo_room q" "fq_capacity q' = fq_capacity q" "fifo_list q' = tl (fifo_list q)"
    using fifo_pop_spec [of q] inv by (auto simp: link_inv_def)
  let ?w = "w\<lparr>w_fifos := (w_fifos w)(fkey \<mapsto> q')\<rparr>"
  have inv': "link_inv fkey (rc_name r) (Suc n) q' ?w" using inv q' by (simp add: link_inv_def)
  show ?thesis
  proof (cases "fifo_list q")
    case Nil
    then have "link_cb fkey r a w = Inr ?w"
      using Pop_Done t q'(1) inv
      by (simp add: link_cb_def fifo_pop_cb_def link_inv_def and_two_power_eq_0)
    moreover have "link_inv fkey (rc_name r) n q' ?w" using inv' by (auto simp: link_inv_def)
    ultimately show ?thesis using Nil Pop_Done q'(4,5) csv
      by (intro exI [of _ ?w] exI [of _ q'] exI [of _ "[]"]) simp
  next
    case (Cons t l)
    let ?row = "\<lparr>row_from = rc_from r, row_to = rc_to r, row_val = t' - t, row_ts_from = t, row_ts_to = t',
            row_tid = snap_tid s\<rparr>"
    have "link_cb fkey r a w = record_sample (rc_name r) ?row ?w"
      using Pop_Done t q'(1) inv Cons
      by (auto simp: link_cb_def fifo_pop_cb_def link_inv_def and_two_power_eq_0 snap_read_def le_nat_iff)
    moreover obtain w' where w': "record_sample (rc_name r) ?row ?w = Inr w'" "w_csv w' = Some (rows @ [?row])"
      "w_fifos w' = w_fifos ?w" "\<forall>h. w_hists w' (rc_name r) = Some h \<longrightarrow> hist_inv h \<and> h_count h + int n \<le> INT_MAX"
      using record_sample_step [of ?w rows "rc_name r" n ?row] inv' csv n by (auto simp: link_inv_def)
    moreover have "link_inv fkey (rc_name r) n q' w'"
      using inv' w'(3,4) by (simp add: link_inv_def)
    ultimately show ?thesis using Cons Pop_Done q'(4,5) t(4)
      by (intro exI [of _ w'] exI [of _ q'] exI [of _ "[?row]"]) simp
  qed
qed

lemma link_run:
  assumes "link_inv fkey (rc_name r) (length as) q w" "list_all (link_ok r) as"
    and "w_csv w = Some rows" "int (length as) \<le> INT_MAX"
  shows "\<exists>w'. foldR (link_cb fkey r) as w = Inr w' \<and>
    w_csv w' = Some (rows @ link_spec (nat (fq_capacity q)) r as (fifo_list q))"
  using assms
proof (induction as arbitrary: q w rows)
  case Nil
  then show ?case by simp
next
  case (Cons a as)
  from Cons.prems obtain w1 q1 out where s: "link_cb fkey r a w = Inr w1"
    "link_inv fkey (rc_name r) (length as) q1 w1" "fq_capacity q1 = fq_capacity q"
    "w_csv w1 = Some (rows @ out)"
    "link_spec (nat (fq_capacity q)) r (a # as) (fifo_list q) =
      out @ link_spec (nat (fq_capacity q)) r as (fifo_list q1)"
    using link_step [of fkey r "length as" q w a rows as] by auto
  have "list_all (link_ok r) as" "int (length as) \<le> INT_MAX" using Cons.prems by auto
  from Cons.IH [OF s(2) this(1) s(4) this(2)] s show ?case by auto
qed

section \<open>Sample states\<close>

definition sample_fifo :: FifoQueue where
  "sample_fifo = \<lparr>fq_id = ''k'', fq_capacity = 4, fq_head = 0, fq_tail = 0, fq_queue = [0, 0, 0, 0]\<rparr>"

definition sample_world :: World where
  "sample_world = \<lparr>w_hists = Map.empty, w_fifos = [''k'' \<mapsto> sample_fifo], w_csv = Some []\<rparr>"

definition sample_app :: App where
  "sample_app = \<lparr>app_matchers = [], app_seq_map = Map.empty, app_world = sample_world\<rparr>"

definition sample_report :: ReportConfig where
  "sample_report = \<lparr>rc_name = ''r'', rc_from = 1, rc_to = 1\<rparr>"

definition sample_snap :: "u64 \<Rightarrow> StageSnapshot" where
  "sample_snap ts = \<lparr>snap_ts = [1 \<mapsto> ts], snap_stages = 2, snap_key = None, snap_tid = 7\<rparr>"

definition sample_world_seq :: "World SeqMatcher" where
  "sample_world_seq = \<lparr>sq_id = ''seq'', sq_stages = [0, 1], sq_stages_mask = 3, sq_first_stage = 0, sq_on_complete = [],
     sq_slots = (\<lambda>_. zero_record), sq_pending = []\<rparr>"

lemma sample_world_seq_inv: "seq_inv sample_world_seq" "sorted_wrt (<) (sq_stages sample_world_seq)"
proof -
  have "SeqMatcher_new ''seq'' [0, 1] = Inr sample_world_seq"
    by (simp add: SeqMatcher_new_def stage_mask_loop_def sample_world_seq_def)
  from SeqMatcher_new_inv(1) [OF this] show "seq_inv sample_world_seq" .
qed (simp add: sample_world_seq_def)

text \<open>A session that reports the time from stage 0 to stage 1 of one sequential matcher, and a request.\<close>

definition twice_config :: Config where
  "twice_config = \<lparr>cfg_process = [], cfg_csv_path = ''out'', cfg_probes = [],
     cfg_matchers = [\<lparr>mc_id = ''s'', mc_stages = [0, 1], mc_mode = ''seq'', mc_queue_size = 0\<rparr>],
     cfg_reports = [\<lparr>rc_name = ''r'', rc_from = 0, rc_to = 1\<rparr>]\<rparr>"

definition twice_samples :: "u8 list list" where
  "twice_samples = [encode_event (mk_event 0 7 100 0), encode_event (mk_event 1 7 150 0)]"

abbreviation twice_rk :: report_map where "twice_rk \<equiv> build_report_keys (cfg_reports twice_config)"

definition twice_matcher :: "World SeqMatcher" where
  "twice_matcher = \<lparr>sq_id = ''s'', sq_stages = [0, 1], sq_stages_mask = 3, sq_first_stage = 0, sq_on_complete = [seq_report_cb twice_rk],
     sq_slots = (\<lambda>_. zero_record), sq_pending = []\<rparr>"

definition twice_world :: World where
  "twice_world = \<lparr>w_hists = Map.empty, w_fifos = Map.empty, w_csv = Some []\<rparr>"

lemma twice_setup: "app_setup [''s''] twice_config = Inr \<lparr>app_matchers = [SeqM twice_matcher], app_seq_map = [''s'' \<mapsto> 0], app_world = twice_world\<rparr>"
proof -
  have "SeqMatcher_new ''s'' [0, 1] = Inr (twice_matcher\<lparr>sq_on_complete := []\<rparr>)"
    by (simp add: SeqMatcher_new_def stage_mask_loop_def twice_matcher_def)
  then show ?thesis
    by (simp add: app_setup_def build_matcher_def twice_config_def register_cb_def wire_report_def find_seq_def hasStage_def onComplete_def
        Let_def twice_world_def del: bindR_eq_Inr) (simp add: twice_matcher_def twice_config_def)
qed

definition twice_record :: Record where
  "twice_record = \<lparr>rec_ts = (replicate 64 0)[0 := 100, 1 := 150], rec_filled = 3, rec_tid = 7\<rparr>"

definition twice_delta :: Delta where
  "twice_delta = \<lparr>d_val_ns = 50, d_from_stage = 0, d_to_stage = 1, d_ts_from = 100, d_ts_to = 150, d_tid = 7\<rparr>"

lemma twice_deltas: "record_deltas [0, 1] twice_record = [twice_delta]"
  by (simp add: record_deltas_def index_pairs_eq twice_record_def twice_delta_def)

definition twice_open :: "World SeqMatcher" where
  "twice_open = twice_matcher\<lparr>sq_slots := (\<lambda>_. zero_record)(7 := \<lparr>rec_ts = (replicate 64 0)[0 := 100], rec_filled = 1, rec_tid = 7\<rparr>)\<rparr>"

lemma twice_inv: "reporting twice_rk twice_matcher"
proof -
  have "SeqMatcher_new ''s'' [0, 1] = Inr (twice_matcher\<lparr>sq_on_complete := []\<rparr>)"
    by (simp add: SeqMatcher_new_def stage_mask_loop_def twice_matcher_def)
  from SeqMatcher_new_inv(1) [OF this] show ?thesis by (simp add: reporting_def seq_inv_def) (simp add: twice_matcher_def)
qed

lemma twice_first: "SeqMatcher_feed (mk_event 0 7 100 0) (twice_matcher, w) = Inr (twice_open, w)"
  by (simp add: SeqMatcher_feed_def Let_def twice_matcher_def twice_open_def tid_hash_def TID_SLOTS_def record_put_def record_complete_def
      zero_record_def del: bindR_eq_Inr)

lemma bindR_foldR_Nil: "bindR m (foldR f []) = m"
  by (cases m) simp_all

lemma twice_second: "SeqMatcher_feed (mk_event 1 7 150 0) (twice_open, w) =
    bindR (report_delta twice_rk twice_delta w)
      (\<lambda>w. Inr (twice_open\<lparr>sq_pending := [twice_delta], sq_slots := (sq_slots twice_open)(7 := twice_record\<lparr>rec_filled := 0\<rparr>)\<rparr>, w))"
proof -
  have rep: "reporting twice_rk twice_open" using seq_feed_reports [OF twice_inv twice_first] by blast
  then have inv: "seq_inv twice_open" "sorted_wrt (<) (sq_stages twice_open)" "sq_on_complete twice_open = [seq_report_cb twice_rk]"
    by (simp_all add: reporting_def)
  have slot: "seq_slot_next (mk_event 1 7 150 0) twice_open = twice_record"
    by (simp add: seq_slot_next_def twice_open_def twice_matcher_def tid_hash_def TID_SLOTS_def record_put_def twice_record_def)
  have "sq_stages twice_open = [0, 1]" "sq_stages_mask twice_open = 3" "sq_pending twice_open = []" "tid_hash 7 = 7"
    by (simp_all add: twice_open_def twice_matcher_def tid_hash_def TID_SLOTS_def)
  moreover have "record_complete 3 twice_record" by (simp add: record_complete_def twice_record_def)
  ultimately show ?thesis
    by (simp add: seq_feed_eq [OF inv(1)] slot inv(3) callback_reports_deltas [OF inv(1,2)] twice_deltas Let_def bindR_foldR_Nil del: bindR_eq_Inr)
qed

lemma twice_session: "\<exists>w'. lensx_session [''s''] twice_config twice_samples = Inr w' \<and> w_csv w' \<noteq> Some []"
proof -
  have rec: "report_delta twice_rk twice_delta w = record_sample ''r'' (delta_row twice_delta) w" for w
    by (simp add: report_delta_def twice_delta_def twice_config_def build_report_keys_def)
  obtain w1 where w1: "record_sample ''r'' (delta_row twice_delta) twice_world = Inr w1" "w_csv w1 = Some [delta_row twice_delta]"
    "\<forall>h. w_hists w1 ''r'' = Some h \<longrightarrow> hist_inv h \<and> h_count h + int (Suc 0) \<le> INT_MAX"
    using record_sample_step [of twice_world "[]" "''r''" "Suc 0" "delta_row twice_delta"] by (auto simp: twice_world_def INT_MAX_def)
  obtain w2 where w2: "record_sample ''r'' (delta_row twice_delta) w1 = Inr w2" "w_csv w2 \<noteq> Some []"
    using record_sample_step [OF w1(2,3), of "delta_row twice_delta"] by (auto simp: INT_MAX_def)
  show ?thesis using w1(1) w2
    by (simp add: lensx_session_def twice_setup twice_samples_def handle_ring_event_def decode_encode_event twice_first twice_second
        final_drain_def SeqMatcher_drain_def rec)
qed

section \<open>Properties\<close>

text \<open>
  The event layout. The handler decodes the 24 bytes that the generated program's \<open>struct event\<close>
  occupies into the same four fields, and drops shorter samples.
\<close>

theorem ring_event_round_trip:
  "decode_event (encode_event e) = Some e \<and> length (encode_event e) = 24 \<and>
   (length data < 24 \<longrightarrow> handle_ring_event data a = Inr a)"
  using decode_encode_event [of e] by (simp add: encode_event_def handle_ring_event_def decode_event_def)

theorem ring_event_round_trip_witness:
  "decode_event (encode_event (mk_event 3 7 100 9)) = Some (mk_event 3 7 100 9) \<and> handle_ring_event [1, 2, 3] sample_app = Inr sample_app"
  using ring_event_round_trip [of "mk_event 3 7 100 9" "[1, 2, 3]" sample_app] by simp

text \<open>
  C40. Sequential samples are reported twice. In a session of \<open>main\<close> whose only matcher is a sequential
  one with its stages in ascending order, and that ends without a fault, the reports of the completion callback
  and of the final drain are the same: the histograms and the CSV file at the end are those of
  reporting, after the set-up, all deltas of the run in order, and then all of them once more. With a CSV file every
  reported delta therefore has two rows.
\<close>

theorem seq_session_reports_twice:
  assumes "cfg_matchers cfg = [mc]" "mc_mode mc = ''seq''" "sorted_wrt (<) (mc_stages mc)"
    and "lensx_session [mc_id mc] cfg samples = Inr w'" and "rk = build_report_keys (cfg_reports cfg)"
  shows "\<exists>a m m' w1. app_setup [mc_id mc] cfg = Inr a \<and> app_matchers a = [SeqM m] \<and>
    seq_run (List.map_filter decode_event samples) (m, app_world a) = Inr (m', w1) \<and>
    foldR (report_delta rk) (sq_pending m') (app_world a) = Inr w1 \<and>
    foldR (report_delta rk) (sq_pending m' @ sq_pending m') (app_world a) = Inr w' \<and>
    (cfg_csv_path cfg \<noteq> [] \<longrightarrow> w_csv w' = Some (reported_rows rk (sq_pending m') @ reported_rows rk (sq_pending m')))"
proof -
  obtain a a' where a: "app_setup [mc_id mc] cfg = Inr a" "foldR handle_ring_event samples a = Inr a'" "final_drain rk a' = Inr w'"
    using assms(4,5) by (auto simp: lensx_session_def)
  obtain m0 where m0: "SeqMatcher_new (mc_id mc) (mc_stages mc) = Inr m0" "app_matchers a = [SeqM (onComplete (seq_report_cb rk) m0)]"
    "w_csv (app_world a) = (if cfg_csv_path cfg = [] then None else Some [])"
    using one_matcher_setup [OF assms(1,2) a(1)] assms(5) by auto
  let ?m = "onComplete (seq_report_cb rk) m0"
  have cb0: "sq_on_complete m0 = []" using m0(1) by (auto simp: SeqMatcher_new_def)
  then have m: "reporting rk ?m" "sq_pending ?m = []"
    using SeqMatcher_new_inv [OF m0(1)] assms(3) by (simp_all add: reporting_def onComplete_def seq_inv_def)
  obtain m' w1 where r: "seq_run (List.map_filter decode_event samples) (?m, app_world a) = Inr (m', w1)"
    "app_matchers a' = [SeqM m']" "app_world a' = w1"
    using one_matcher_events [OF m0(2) a(2)] by blast
  have once: "foldR (report_delta rk) (sq_pending m') (app_world a) = Inr w1"
    using seq_run_reports [OF m(1) r(1)] m(2) by auto
  have "foldR (report_delta rk) (sq_pending m') w1 = Inr w'"
    using a(3) r(2,3) by (simp add: final_drain_def SeqMatcher_drain_def)
  then have twice: "foldR (report_delta rk) (sq_pending m' @ sq_pending m') (app_world a) = Inr w'"
    using once by (simp add: foldR_append)
  show ?thesis using a(1) m0(2,3) r(1) once twice report_rows [OF twice]
    by (intro exI [of _ a] exI [of _ ?m] exI [of _ m'] exI [of _ w1]) (simp add: reported_rows_def)
qed

theorem seq_session_reports_twice_witness:
  "\<exists>w' rows. lensx_session [''s''] twice_config twice_samples = Inr w' \<and> w_csv w' = Some (rows @ rows) \<and> rows \<noteq> []"
proof -
  obtain w' where w': "lensx_session [''s''] twice_config twice_samples = Inr w'" "w_csv w' \<noteq> Some []"
    using twice_session by blast
  have c: "cfg_matchers twice_config = [\<lparr>mc_id = ''s'', mc_stages = [0, 1], mc_mode = ''seq'', mc_queue_size = 0\<rparr>]"
    "cfg_csv_path twice_config \<noteq> []" by (simp_all add: twice_config_def)
  show ?thesis using seq_session_reports_twice [OF c(1) _ _ _ refl, of twice_samples w'] w' c(2) by auto
qed

text \<open>
  C28. Cross-thread pairing. For any interleaving of completions of the two linked matchers, the
  rows the link writes are those of the abstract bounded list of time stamps: each completion on the
  popping side is paired with the oldest unpaired completion of the pushing side, and a full queue
  forgets its oldest entry.
\<close>

theorem fifo_link_pairs_in_order:
  assumes "link_inv fkey (rc_name r) (length as) q w" and "list_all (link_ok r) as"
    and "w_csv w = Some rows" and "int (length as) \<le> INT_MAX"
  shows "\<exists>w'. foldR (link_cb fkey r) as w = Inr w' \<and>
    w_csv w' = Some (rows @ link_spec (nat (fq_capacity q)) r as (fifo_list q))"
  using assms by (rule link_run)

theorem fifo_link_pairs_in_order_witness:
  "\<exists>w'. foldR (link_cb ''k'' sample_report) [Push_Done (sample_snap 100), Push_Done (sample_snap 200), Pop_Done (sample_snap 150)] sample_world = Inr w' \<and>
    w_csv w' = Some [\<lparr>row_from = 1, row_to = 1, row_val = 50, row_ts_from = 100, row_ts_to = 150, row_tid = 7\<rparr>]"
proof -
  let ?as = "[Push_Done (sample_snap 100), Push_Done (sample_snap 200), Pop_Done (sample_snap 150)]"
  have 1: "link_inv ''k'' (rc_name sample_report) (length ?as) sample_fifo sample_world"
    by (simp add: link_inv_def sample_world_def sample_fifo_def fifo_inv_def fifo_room_def INT_MAX_def)
  have 2: "list_all (link_ok sample_report) ?as" by (simp add: link_ok_def sample_report_def sample_snap_def)
  have 3: "w_csv sample_world = Some []" "int (length ?as) \<le> INT_MAX" by (simp_all add: sample_world_def INT_MAX_def)
  show ?thesis using fifo_link_pairs_in_order [OF 1 2 3]
    by (simp add: sample_fifo_def fifo_list_def sample_report_def sample_snap_def)
qed

text \<open>
  The process to trace. A session starts only with a non-zero process id: the last \<open>--pid\<close> on the
  command line if it is not 0, otherwise what the configured process name resolves to.
\<close>

theorem choose_target_pid:
  assumes "choose_target parse resolve argv = Inr (cfg, pid)"
  shows "pid \<noteq> 0 \<and> (\<exists>p. parse_pid_args (drop 3 argv) 0 = Inr p \<and>
      (p \<noteq> 0 \<longrightarrow> pid = p) \<and> (p = 0 \<longrightarrow> cfg_process cfg \<noteq> [] \<and> resolve (cfg_process cfg) = Inr pid))"
  using assms by (auto simp: choose_target_def split: if_splits)

theorem choose_target_pid_witness:
  "choose_target (\<lambda>_. Inr (sample_config\<lparr>cfg_process := ''app''\<rparr>)) (\<lambda>_. Inr 42) [''lensx'', ''run'', ''c.yaml''] =
     Inr (sample_config\<lparr>cfg_process := ''app''\<rparr>, 42) \<and> (42 :: int) \<noteq> 0"
proof -
  have r: "choose_target (\<lambda>_. Inr (sample_config\<lparr>cfg_process := ''app''\<rparr>)) (\<lambda>_. Inr 42) [''lensx'', ''run'', ''c.yaml''] =
     Inr (sample_config\<lparr>cfg_process := ''app''\<rparr>, 42)" by (simp add: choose_target_def)
  show ?thesis using choose_target_pid [OF r] r by blast
qed

end
