(* ===== verification/Errno.thy ===== *)
theory Errno
  imports Text_Util
begin

text \<open>
  Error numbers: the constants of \<open>errno.h\<close> that the library returns, the library's own codes with
  their messages (\<open>libbpf_errno.c\<close>) and the wrapper \<open>libbpf_strerror_r\<close> (\<open>str_error.c\<close>).
\<close>

definition EPERM :: int where "EPERM = 1"
definition ENOENT :: int where "ENOENT = 2"
definition ESRCH :: int where "ESRCH = 3"
definition E2BIG :: int where "E2BIG = 7"
definition ENOMEM :: int where "ENOMEM = 12"
definition EEXIST :: int where "EEXIST = 17"
definition EINVAL :: int where "EINVAL = 22"
definition EFBIG :: int where "EFBIG = 27"
definition ERANGE :: int where "ERANGE = 34"
definition ELOOP :: int where "ELOOP = 40"
definition EOPNOTSUPP :: int where "EOPNOTSUPP = 95"
definition ENOTSUP :: int where "ENOTSUP = 95"
definition EUCLEAN :: int where "EUCLEAN = 117"

named_theorems errno_defs

lemmas errno_values [errno_defs] =
  EPERM_def ENOENT_def ESRCH_def E2BIG_def ENOMEM_def EEXIST_def EINVAL_def EFBIG_def ERANGE_def ELOOP_def
  EOPNOTSUPP_def ENOTSUP_def EUCLEAN_def

section \<open>The library's own codes\<close>

datatype libbpf_errno = LIBELF | FORMAT | KVERSION | ENDIAN | INTERNAL | RELOC | LOAD | VERIFY | PROG2BIG | KVER
  | PROGTYPE | WRNGPID | INVSEQ | NLPARSE

definition LIBBPF_ERRNO__START :: int where "LIBBPF_ERRNO__START = 4000"

fun errno_code :: "libbpf_errno \<Rightarrow> int" where
  "errno_code LIBELF = LIBBPF_ERRNO__START"
| "errno_code FORMAT = LIBBPF_ERRNO__START + 1"
| "errno_code KVERSION = LIBBPF_ERRNO__START + 2"
| "errno_code ENDIAN = LIBBPF_ERRNO__START + 3"
| "errno_code INTERNAL = LIBBPF_ERRNO__START + 4"
| "errno_code RELOC = LIBBPF_ERRNO__START + 5"
| "errno_code LOAD = LIBBPF_ERRNO__START + 6"
| "errno_code VERIFY = LIBBPF_ERRNO__START + 7"
| "errno_code PROG2BIG = LIBBPF_ERRNO__START + 8"
| "errno_code KVER = LIBBPF_ERRNO__START + 9"
| "errno_code PROGTYPE = LIBBPF_ERRNO__START + 10"
| "errno_code WRNGPID = LIBBPF_ERRNO__START + 11"
| "errno_code INVSEQ = LIBBPF_ERRNO__START + 12"
| "errno_code NLPARSE = LIBBPF_ERRNO__START + 13"

definition LIBBPF_ERRNO__END :: int where "LIBBPF_ERRNO__END = LIBBPF_ERRNO__START + 14"

text \<open>The table of messages: designated initialisers leave the entries that are not named null.\<close>

definition libbpf_strerror_table :: "string option list" where
  "libbpf_strerror_table =
    [Some ''Something wrong in libelf'',
     Some ''BPF object format invalid'',
     Some (CHR 0x27 # ''version'' @ CHR 0x27 # '' section incorrect or lost''),
     Some ''Endian mismatch'',
     Some ''Internal error in libbpf'',
     Some ''Relocation failed'',
     None,
     Some ''Kernel verifier blocks program loading'',
     Some ''Program too big'',
     Some ''Incorrect kernel version'',
     Some (''Kernel doesn'' @ CHR 0x27 # ''t support this program type''),
     Some ''Wrong pid in netlink message'',
     Some ''Invalid netlink sequence'',
     Some ''Incorrect netlink message parsing'']"

text \<open>
  \<open>strerror_r\<close> is the C library's: it answers a return value and the string it left in a buffer of
  the given sz. \<open>snprintf\<close> keeps what fits with the terminator. The result is the return value and
  the string in the caller's buffer (\<open>None\<close> when it was not written); passing a null pointer to
  \<open>%s\<close> and negating \<open>INT_MIN\<close> have no meaning.
\<close>

definition snprintf_str :: "nat \<Rightarrow> string \<Rightarrow> string" where
  "snprintf_str sz msg = take (sz - 1) msg"

definition libbpf_err_errno :: "int \<Rightarrow> int \<Rightarrow> int" where
  "libbpf_err_errno errno ret = (if ret < 0 then - errno else ret)"

definition libbpf_strerror ::
  "(int \<Rightarrow> nat \<Rightarrow> int \<times> string) \<Rightarrow> int \<Rightarrow> int \<Rightarrow> nat option \<Rightarrow> fault + (int \<times> string option)" where
  "libbpf_strerror strerror_r errno err buf = (case buf of None \<Rightarrow> Inr (- EINVAL, None)
   | Some sz \<Rightarrow>
      if sz = 0 then Inr (- EINVAL, None)
      else bindR (if err > 0 then Inr err else if err = - INT_MAX - 1 then Inl Signed_Overflow else Inr (- err)) (\<lambda>err.
        if err < LIBBPF_ERRNO__START then
          (case strerror_r err sz of (ret, s) \<Rightarrow> Inr (libbpf_err_errno errno ret, Some (snprintf_str sz s)))
        else if err < LIBBPF_ERRNO__END then
          (case libbpf_strerror_table ! nat (err - LIBBPF_ERRNO__START) of
             None \<Rightarrow> Inl Indeterminate
           | Some msg \<Rightarrow> Inr (0, Some (snprintf_str sz msg)))
        else Inr (- ENOENT, Some (snprintf_str sz (''Unknown libbpf error '' @ int_to_string err)))))"

text \<open>\<open>libbpf_strerror_r\<close> writes its own message when the C library's function fails.\<close>

definition libbpf_strerror_r :: "(int \<Rightarrow> nat \<Rightarrow> int \<times> string) \<Rightarrow> int \<Rightarrow> nat \<Rightarrow> string" where
  "libbpf_strerror_r strerror_r err len =
     (case strerror_r (if err < 0 then - err else err) len of (ret, s) \<Rightarrow>
        if ret \<noteq> 0 then snprintf_str len (''ERROR: strerror_r('' @ int_to_string err @ '')='' @ int_to_string ret)
        else s)"

section \<open>Properties\<close>

text \<open>
  Messages of the library's codes. In a large enough buffer each code but \<open>LOAD\<close> yields its entry
  of the table, for the code itself and for its negation; \<open>LIBBPF_ERRNO__LOAD\<close> has no entry, so that
  the null pointer reaches \<open>%s\<close>.
\<close>

theorem strerror_table_total_but_load:
  fixes d :: int
  assumes "d = 1 \<or> d = - 1" "100 \<le> sz"
  shows "(c \<noteq> LOAD \<longrightarrow> (\<exists>msg. libbpf_strerror_table ! nat (errno_code c - LIBBPF_ERRNO__START) = Some msg \<and>
      libbpf_strerror f e (d * errno_code c) (Some sz) = Inr (0, Some msg))) \<and>
    libbpf_strerror f e (d * errno_code LOAD) (Some sz) = Inl Indeterminate"
proof -
  note defs = libbpf_strerror_def LIBBPF_ERRNO__START_def LIBBPF_ERRNO__END_def libbpf_strerror_table_def
    snprintf_str_def INT_MAX_def
  have "c \<noteq> LOAD \<Longrightarrow> \<exists>msg. libbpf_strerror_table ! nat (errno_code c - LIBBPF_ERRNO__START) = Some msg \<and>
      libbpf_strerror f e (d * errno_code c) (Some sz) = Inr (0, Some msg)"
    using assms by (cases c) (auto simp: defs)
  moreover have "libbpf_strerror f e (d * errno_code LOAD) (Some sz) = Inl Indeterminate"
    using assms by (auto simp: defs)
  ultimately show ?thesis by blast
qed

theorem strerror_table_total_but_load_witness:
  "\<exists>msg. libbpf_strerror_table ! nat (errno_code RELOC - LIBBPF_ERRNO__START) = Some msg \<and>
      libbpf_strerror (\<lambda>e n. (0, [])) 0 (- 1 * errno_code RELOC) (Some 128) = Inr (0, Some msg)"
  using strerror_table_total_but_load [of "- 1" 128 RELOC "\<lambda>e n. (0, [])" 0] by simp

end
