(* ===== verification/Ringbuf.thy ===== *)
theory Ringbuf
  imports Bytes Errno
begin

text \<open>
  The user-space consumer of BPF ring buffers, \<open>libbpf/src/ringbuf.c\<close>: registering rings
  (\<open>ring_buffer__add\<close>, \<open>ring_buffer__new\<close>, \<open>ring_buffer__free\<close>), the consumer loop
  \<open>ringbuf_process_ring\<close>, and \<open>ring_buffer__consume\<close> / \<open>ring_buffer__poll\<close> over all rings. The memory
  shared with the kernel is explicit; the kernel's producer is an environment that may act between
  any two steps of the consumer. The answers of system calls and of the allocator are arguments.
\<close>

section \<open>Data\<close>

definition BPF_RINGBUF_BUSY_BIT :: u32 where "BPF_RINGBUF_BUSY_BIT = 0x80000000"
definition BPF_RINGBUF_DISCARD_BIT :: u32 where "BPF_RINGBUF_DISCARD_BIT = 0x40000000"
definition BPF_RINGBUF_HDR_SZ :: nat where "BPF_RINGBUF_HDR_SZ = 8"
definition BPF_MAP_TYPE_RINGBUF :: u32 where "BPF_MAP_TYPE_RINGBUF = 27"

text \<open>
  \<open>struct ring\<close>: the callback threads a context, the two mappings are addresses (0 is \<open>NULL\<close>). The
  contents of the mappings are \<open>ring_mem\<close>: the positions and the data area, mapped twice.
\<close>

record 'c ring =
  ring_sample_cb :: "'c \<Rightarrow> u8 list \<Rightarrow> u32 \<Rightarrow> int \<times> 'c"
  ring_consumer_addr :: u64
  ring_producer_addr :: u64
  ring_mask :: u64
  ring_map_fd :: int

record ring_mem =
  rm_consumer_pos :: u64
  rm_producer_pos :: u64
  rm_data :: "u8 list"

text \<open>
  \<open>struct ring_buffer\<close>; \<open>ring_cnt\<close> is the length of the list of rings, which is the contents of the array
  that \<open>rings\<close> points to. The two pointers and the address of the structure itself are kept as addresses,
  0 for \<open>NULL\<close>.
\<close>

record 'c ring_buffer =
  rb_self :: u64
  rb_events_ptr :: u64
  rb_rings_ptr :: u64
  rb_rings :: "'c ring list"
  rb_page_size :: u64
  rb_epoll_fd :: int

section \<open>The consumer loop\<close>

definition roundup_len :: "u32 \<Rightarrow> u32" where
  "roundup_len len =
     (let len = push_bit 2 len;
          len = drop_bit 2 len;
          len = len + of_nat BPF_RINGBUF_HDR_SZ
      in (len + 7) div 8 * 8)"

text \<open>
  The local state of \<open>ringbuf_process_ring\<close> and where it is: before loading \<open>producer_pos\<close> (\<open>Outer\<close>),
  at the test of the inner loop (\<open>Inner\<close>), after loading the length word at an offset (\<open>Have_Len\<close>),
  returned with the count (\<open>Done\<close>) or with the callback's error (\<open>Failed\<close>), or stuck on an access
  outside the mapping.
\<close>

datatype ring_pc = Outer | Inner | Have_Len nat u32 | Done | Failed int | Stuck fault

record 'c consumer =
  cs_cons_pos :: u64
  cs_prod_pos :: u64
  cs_got_new_data :: bool
  cs_cnt :: int
  cs_pc :: ring_pc
  cs_ctx :: 'c

definition consumer_start :: "ring_mem \<Rightarrow> 'c \<Rightarrow> 'c consumer" where
  "consumer_start m c = \<lparr>cs_cons_pos = rm_consumer_pos m, cs_prod_pos = 0, cs_got_new_data = False,
     cs_cnt = 0, cs_pc = Outer, cs_ctx = c\<rparr>"

definition deliver_sample :: "'c ring \<Rightarrow> nat \<Rightarrow> u32 \<Rightarrow> ring_mem \<Rightarrow> 'c \<Rightarrow> fault + (int \<times> 'c)" where
  "deliver_sample r off len m c =
     (if off + BPF_RINGBUF_HDR_SZ + unat len \<le> length (rm_data m)
      then Inr (ring_sample_cb r c (take (unat len) (drop (off + BPF_RINGBUF_HDR_SZ) (rm_data m))) len)
      else Inl Out_Of_Bounds)"

text \<open>One step: each step does at most one load from the shared memory, or handles the record whose
  length word was loaded.\<close>

definition consumer_step :: "'c ring \<Rightarrow> ring_mem \<times> 'c consumer \<Rightarrow> ring_mem \<times> 'c consumer" where
  "consumer_step r = (\<lambda>(m, s). case cs_pc s of
     Outer \<Rightarrow> (m, s\<lparr>cs_got_new_data := False, cs_prod_pos := rm_producer_pos m, cs_pc := Inner\<rparr>)
   | Inner \<Rightarrow>
       if cs_cons_pos s < cs_prod_pos s then
         (let off = unat (cs_cons_pos s AND ring_mask r) in
          case read_le 4 off (rm_data m) of None \<Rightarrow> (m, s\<lparr>cs_pc := Stuck Out_Of_Bounds\<rparr>)
          | Some len \<Rightarrow> (m, s\<lparr>cs_pc := Have_Len off len\<rparr>))
       else if cs_got_new_data s then (m, s\<lparr>cs_pc := Outer\<rparr>)
       else (m, s\<lparr>cs_pc := Done\<rparr>)
   | Have_Len off len \<Rightarrow>
       if len AND BPF_RINGBUF_BUSY_BIT \<noteq> 0 then (m, s\<lparr>cs_pc := Done\<rparr>)
       else
         (let cons_pos = cs_cons_pos s + scast (roundup_len len);
              s = s\<lparr>cs_got_new_data := True, cs_cons_pos := cons_pos\<rparr>;
              m' = m\<lparr>rm_consumer_pos := cons_pos\<rparr>
          in if len AND BPF_RINGBUF_DISCARD_BIT = 0 then
               (case deliver_sample r off len m (cs_ctx s) of Inl f \<Rightarrow> (m, s\<lparr>cs_pc := Stuck f\<rparr>)
                | Inr (err, c) \<Rightarrow>
                   if err < 0 then (m', s\<lparr>cs_ctx := c, cs_pc := Failed err\<rparr>)
                   else (m', s\<lparr>cs_ctx := c, cs_cnt := cs_cnt s + 1, cs_pc := Inner\<rparr>))
             else (m', s\<lparr>cs_pc := Inner\<rparr>))
   | _ \<Rightarrow> (m, s))"

definition consumer_halted :: "'c consumer \<Rightarrow> bool" where
  "consumer_halted s = (case cs_pc s of Done \<Rightarrow> True | Failed _ \<Rightarrow> True | Stuck _ \<Rightarrow> True | _ \<Rightarrow> False)"

text \<open>The consumer running alone, with fuel: \<open>None\<close> when it has not returned yet.\<close>

fun consumer_run :: "nat \<Rightarrow> 'c ring \<Rightarrow> ring_mem \<times> 'c consumer \<Rightarrow> (ring_mem \<times> 'c consumer) option" where
  "consumer_run n r (m, s) =
     (if consumer_halted s then Some (m, s)
      else case n of 0 \<Rightarrow> None | Suc n \<Rightarrow> consumer_run n r (consumer_step r (m, s)))"

definition consumer_result :: "'c consumer \<Rightarrow> fault + int" where
  "consumer_result s = (case cs_pc s of Failed e \<Rightarrow> Inr e | Stuck f \<Rightarrow> Inl f | _ \<Rightarrow> Inr (cs_cnt s))"

definition ringbuf_process_ring :: "nat \<Rightarrow> 'c ring \<Rightarrow> ring_mem \<Rightarrow> 'c \<Rightarrow> (fault + (int \<times> ring_mem \<times> 'c)) option" where
  "ringbuf_process_ring n r m c =
     map_option (\<lambda>(m, s). bindR (consumer_result s) (\<lambda>v. Inr (v, m, cs_ctx s)))
       (consumer_run n r (m, consumer_start m c))"

section \<open>All rings of a manager\<close>

text \<open>The memories of the rings are found by map descriptor. The error of a callback ends the loop.\<close>

fun process_rings ::
  "nat \<Rightarrow> 'c ring list \<Rightarrow> int \<Rightarrow> (int \<Rightarrow> ring_mem) \<times> 'c \<Rightarrow> (fault + (int \<times> (int \<Rightarrow> ring_mem) \<times> 'c)) option" where
  "process_rings n [] res (ms, c) = Some (Inr ((if res > INT_MAX then INT_MAX else res), ms, c))"
| "process_rings n (r # rs) res (ms, c) =
     (case ringbuf_process_ring n r (ms (ring_map_fd r)) c of None \<Rightarrow> None
      | Some (Inl f) \<Rightarrow> Some (Inl f)
      | Some (Inr (err, m, c)) \<Rightarrow>
          (let ms = ms(ring_map_fd r := m) in
           if err < 0 then Some (Inr (err, ms, c)) else process_rings n rs (res + err) (ms, c)))"

definition ring_buffer__consume ::
  "nat \<Rightarrow> 'c ring_buffer \<Rightarrow> (int \<Rightarrow> ring_mem) \<times> 'c \<Rightarrow> (fault + (int \<times> (int \<Rightarrow> ring_mem) \<times> 'c)) option" where
  "ring_buffer__consume n rb w = process_rings n (rb_rings rb) 0 w"

text \<open>\<open>epoll_wait\<close> answers an error number or the \<open>data.fd\<close> fields of the ready events.\<close>

definition ring_buffer__poll ::
  "nat \<Rightarrow> (int + u32 list) \<Rightarrow> 'c ring_buffer \<Rightarrow> (int \<Rightarrow> ring_mem) \<times> 'c \<Rightarrow>
     (fault + (int \<times> (int \<Rightarrow> ring_mem) \<times> 'c)) option" where
  "ring_buffer__poll n ready rb = (\<lambda>(ms, c). case ready of
     Inl errno \<Rightarrow> Some (Inr (- errno, ms, c))
   | Inr ids \<Rightarrow>
       if \<forall>i\<in>set ids. unat i < length (rb_rings rb)
       then process_rings n (map (\<lambda>i. rb_rings rb ! unat i) ids) 0 (ms, c)
       else Some (Inl Out_Of_Bounds))"

section \<open>Registering rings\<close>

text \<open>
  What the process holds of the operating system and of the allocator: mappings (address and length),
  open descriptors, and the addresses of allocated memory.
\<close>

record os =
  os_maps :: "(u64 \<times> u64) multiset"
  os_fds :: "int multiset"
  os_heap :: "u64 multiset"

text \<open>The answers that one call of \<open>ring_buffer__add\<close> may get, in program order; those of the allocator are
  addresses, 0 when there is no memory.\<close>

record add_answers =
  an_info :: "int + (u32 \<times> u32)"
  an_realloc_rings :: u64
  an_realloc_events :: u64
  an_mmap_consumer :: "int + u64"
  an_mmap_producer :: "int + u64"
  an_epoll_add :: "int option"

definition os_munmap :: "u64 \<Rightarrow> u64 \<Rightarrow> os \<Rightarrow> os" where
  "os_munmap addr len o1 = o1\<lparr>os_maps := os_maps o1 - {#(addr, len)#}\<rparr>"

definition os_mmap :: "u64 \<Rightarrow> u64 \<Rightarrow> os \<Rightarrow> os" where
  "os_mmap addr len o1 = o1\<lparr>os_maps := add_mset (addr, len) (os_maps o1)\<rparr>"

definition os_open :: "int \<Rightarrow> os \<Rightarrow> os" where
  "os_open fd o1 = o1\<lparr>os_fds := add_mset fd (os_fds o1)\<rparr>"

definition os_close :: "int \<Rightarrow> os \<Rightarrow> os" where
  "os_close fd o1 = o1\<lparr>os_fds := os_fds o1 - {#fd#}\<rparr>"

text \<open>\<open>free(NULL)\<close> does nothing; \<open>realloc\<close> gives the old block up when it succeeds, and only then.\<close>

definition os_alloc :: "u64 \<Rightarrow> os \<Rightarrow> os" where
  "os_alloc p o1 = o1\<lparr>os_heap := add_mset p (os_heap o1)\<rparr>"

definition os_free :: "u64 \<Rightarrow> os \<Rightarrow> os" where
  "os_free p o1 = (if p = 0 then o1 else o1\<lparr>os_heap := os_heap o1 - {#p#}\<rparr>)"

definition os_realloc :: "u64 \<Rightarrow> u64 \<Rightarrow> os \<Rightarrow> os" where
  "os_realloc old new o1 = os_alloc new (os_free old o1)"

definition ringbuf_unmap_ring :: "u64 \<Rightarrow> 'c ring \<Rightarrow> os \<Rightarrow> os \<times> 'c ring" where
  "ringbuf_unmap_ring page r o1 =
     (let (o1, r) = (if ring_consumer_addr r \<noteq> 0
            then (os_munmap (ring_consumer_addr r) page o1, r\<lparr>ring_consumer_addr := 0\<rparr>) else (o1, r))
      in if ring_producer_addr r \<noteq> 0
         then (os_munmap (ring_producer_addr r) (page + 2 * (ring_mask r + 1)) o1, r\<lparr>ring_producer_addr := 0\<rparr>)
         else (o1, r))"

text \<open>
  \<open>2 * info.max_entries\<close> is computed in 32 bits before it is added to the 64-bit page size, and
  \<open>info.max_entries - 1\<close> before it is widened to the mask.
\<close>

definition ring_buffer__add ::
  "add_answers \<Rightarrow> int \<Rightarrow> ('c \<Rightarrow> u8 list \<Rightarrow> u32 \<Rightarrow> int \<times> 'c) \<Rightarrow> 'c ring_buffer \<times> os \<Rightarrow> int \<times> 'c ring_buffer \<times> os" where
  "ring_buffer__add an map_fd cb = (\<lambda>(rb, o1). case an_info an of
     Inl errno \<Rightarrow> (- errno, rb, o1)
   | Inr (type, max_entries) \<Rightarrow>
       if type \<noteq> BPF_MAP_TYPE_RINGBUF then (- EINVAL, rb, o1)
       else if an_realloc_rings an = 0 then (- ENOMEM, rb, o1)
       else
        (let o1 = os_realloc (rb_rings_ptr rb) (an_realloc_rings an) o1;
             rb = rb\<lparr>rb_rings_ptr := an_realloc_rings an\<rparr> in
         if an_realloc_events an = 0 then (- ENOMEM, rb, o1)
         else
          (let o1 = os_realloc (rb_events_ptr rb) (an_realloc_events an) o1;
               rb = rb\<lparr>rb_events_ptr := an_realloc_events an\<rparr>;
               r = \<lparr>ring_sample_cb = cb, ring_consumer_addr = 0, ring_producer_addr = 0,
                    ring_mask = ucast (max_entries - 1), ring_map_fd = map_fd\<rparr>
           in case an_mmap_consumer an of Inl errno \<Rightarrow> (- errno, rb, o1)
           | Inr a \<Rightarrow>
             (let o1 = os_mmap a (rb_page_size rb) o1; r = r\<lparr>ring_consumer_addr := a\<rparr> in
              case an_mmap_producer an of
                Inl errno \<Rightarrow> (- errno, rb, fst (ringbuf_unmap_ring (rb_page_size rb) r o1))
              | Inr p \<Rightarrow>
                (let o1 = os_mmap p (rb_page_size rb + ucast (2 * max_entries)) o1;
                     r = r\<lparr>ring_producer_addr := p\<rparr>
                 in case an_epoll_add an of
                      Some errno \<Rightarrow> (- errno, rb, fst (ringbuf_unmap_ring (rb_page_size rb) r o1))
                    | None \<Rightarrow> (0, rb\<lparr>rb_rings := rb_rings rb @ [r]\<rparr>, o1))))))"

definition ring_buffer__free :: "'c ring_buffer option \<Rightarrow> os \<Rightarrow> os" where
  "ring_buffer__free rbo o1 = (case rbo of None \<Rightarrow> o1
     | Some rb \<Rightarrow>
        (let o1 = fold (\<lambda>r o1. fst (ringbuf_unmap_ring (rb_page_size rb) r o1)) (rb_rings rb) o1;
             o1 = (if rb_epoll_fd rb \<ge> 0 then os_close (rb_epoll_fd rb) o1 else o1)
         in os_free (rb_self rb) (os_free (rb_rings_ptr rb) (os_free (rb_events_ptr rb) o1))))"

text \<open>\<open>Inl\<close> is the \<open>errno\<close> left behind when \<open>NULL\<close> is returned; \<open>calloc_ptr\<close> answers the allocation of the structure.\<close>

definition ring_buffer__new ::
  "bool \<Rightarrow> u64 \<Rightarrow> u64 \<Rightarrow> (int + int) \<Rightarrow> add_answers \<Rightarrow> int \<Rightarrow> ('c \<Rightarrow> u8 list \<Rightarrow> u32 \<Rightarrow> int \<times> 'c) \<Rightarrow> os \<Rightarrow>
     (int + 'c ring_buffer) \<times> os" where
  "ring_buffer__new opts_valid calloc_ptr page_size epoll_create an map_fd cb o1 =
     (if \<not> opts_valid then (Inl EINVAL, o1)
      else if calloc_ptr = 0 then (Inl ENOMEM, o1)
      else
        (let rb = \<lparr>rb_self = calloc_ptr, rb_events_ptr = 0, rb_rings_ptr = 0, rb_rings = [],
                   rb_page_size = page_size, rb_epoll_fd = 0\<rparr>;
             o1 = os_alloc calloc_ptr o1 in
         case epoll_create of
           Inl errno \<Rightarrow> (Inl errno, ring_buffer__free (Some (rb\<lparr>rb_epoll_fd := - 1\<rparr>)) o1)
         | Inr fd \<Rightarrow>
            (let rb = rb\<lparr>rb_epoll_fd := fd\<rparr>;
                 (err, rb, o1) = ring_buffer__add an map_fd cb (rb, os_open fd o1)
             in if err \<noteq> 0 then (Inl (- err), ring_buffer__free (Some rb) o1) else (Inr rb, o1))))"

text \<open>Further rings a client registers with a manager; it goes on after a failure.\<close>

fun ring_adds ::
  "(add_answers \<times> int \<times> ('c \<Rightarrow> u8 list \<Rightarrow> u32 \<Rightarrow> int \<times> 'c)) list \<Rightarrow> 'c ring_buffer \<times> os \<Rightarrow> 'c ring_buffer \<times> os" where
  "ring_adds [] w = w"
| "ring_adds ((an, map_fd, cb) # adds) w = ring_adds adds (snd (ring_buffer__add an map_fd cb w))"

definition ring_buffer__epoll_fd :: "'c ring_buffer \<Rightarrow> int" where
  "ring_buffer__epoll_fd rb = rb_epoll_fd rb"


section \<open>Records in the ring\<close>

text \<open>
  The abstract content of a ring: a list of records, reserved and still being written (\<open>Busy\<close>),
  committed with their bytes, or discarded. A record occupies a header of 8 bytes, whose first word
  holds the length and the two flags, and its payload rounded up to 8 bytes.
\<close>

datatype ring_rec = Busy nat | Commit "u8 list" | Discard nat

fun rec_len :: "ring_rec \<Rightarrow> nat" where
  "rec_len (Busy n) = n"
| "rec_len (Commit bs) = length bs"
| "rec_len (Discard n) = n"

definition rec_size :: "ring_rec \<Rightarrow> nat" where
  "rec_size x = (rec_len x + 15) div 8 * 8"

definition log_size :: "ring_rec list \<Rightarrow> nat" where
  "log_size l = sum_list (map rec_size l)"

fun rec_hdr :: "ring_rec \<Rightarrow> u32" where
  "rec_hdr (Busy n) = of_nat n OR BPF_RINGBUF_BUSY_BIT"
| "rec_hdr (Commit bs) = of_nat (length bs)"
| "rec_hdr (Discard n) = of_nat n OR BPF_RINGBUF_DISCARD_BIT"

definition is_busy :: "ring_rec \<Rightarrow> bool" where
  "is_busy x = (case x of Busy _ \<Rightarrow> True | _ \<Rightarrow> False)"

fun rec_sample :: "ring_rec \<Rightarrow> u8 list option" where
  "rec_sample (Commit bs) = Some bs"
| "rec_sample _ = None"

definition log_samples :: "ring_rec list \<Rightarrow> u8 list list" where
  "log_samples l = List.map_filter rec_sample l"

text \<open>How the data area holds a record at a position, and a list of records from a position on.\<close>

definition holds_rec :: "u64 \<Rightarrow> u8 list \<Rightarrow> nat \<Rightarrow> ring_rec \<Rightarrow> bool" where
  "holds_rec msk data pos x \<longleftrightarrow>
     (let off = unat ((of_nat pos :: u64) AND msk) in
      rec_len x < 2 ^ 30 \<and> read_le 4 off data = Some (rec_hdr x) \<and>
      (case x of Commit bs \<Rightarrow> off + 8 + length bs \<le> length data \<and> take (length bs) (drop (off + 8) data) = bs
       | _ \<Rightarrow> True))"

fun holds_log :: "u64 \<Rightarrow> u8 list \<Rightarrow> nat \<Rightarrow> ring_rec list \<Rightarrow> bool" where
  "holds_log msk data pos [] = True"
| "holds_log msk data pos (x # l) \<longleftrightarrow> holds_rec msk data pos x \<and> holds_log msk data (pos + rec_size x) l"

text \<open>
  The shared memory represents the log of all records since \<open>start\<close>: the consumer position stands
  after the first \<open>k\<close> of them, the rest is in the data area, and the producer position is at the end.
\<close>

definition ring_rep :: "u64 \<Rightarrow> nat \<Rightarrow> ring_rec list \<Rightarrow> nat \<Rightarrow> ring_mem \<Rightarrow> bool" where
  "ring_rep msk start l k m \<longleftrightarrow>
     k \<le> length l \<and> start + log_size l < 2 ^ 64 \<and>
     unat (rm_consumer_pos m) = start + log_size (take k l) \<and>
     unat (rm_producer_pos m) = start + log_size l \<and>
     holds_log msk (rm_data m) (start + log_size (take k l)) (drop k l)"

text \<open>What the producer may do to the log: append records, and complete busy ones in place.\<close>

definition rec_le :: "ring_rec \<Rightarrow> ring_rec \<Rightarrow> bool" where
  "rec_le x y \<longleftrightarrow> rec_len y = rec_len x \<and> (is_busy x \<or> y = x)"

definition log_le :: "ring_rec list \<Rightarrow> ring_rec list \<Rightarrow> bool" where
  "log_le l l' \<longleftrightarrow> length l \<le> length l' \<and> list_all2 rec_le l (take (length l) l')"

text \<open>
  The interleavings: a state is the memory, the log and the consumer. The consumer takes its steps;
  the producer may change memory and log whenever it likes, leaving the consumer position alone.
\<close>

inductive ring_reach ::
  "'c ring \<Rightarrow> nat \<Rightarrow> ring_mem \<times> ring_rec list \<Rightarrow> 'c \<Rightarrow> ring_mem \<times> ring_rec list \<times> 'c consumer \<Rightarrow> bool"
  for r start ml0 c0 where
  ring_start: "ml0 = (m, l) \<Longrightarrow> ring_reach r start ml0 c0 (m, l, consumer_start m c0)"
| ring_consume: "ring_reach r start ml0 c0 (m, l, s) \<Longrightarrow> consumer_step r (m, s) = (m', s') \<Longrightarrow>
    ring_reach r start ml0 c0 (m', l, s')"
| ring_produce: "ring_reach r start ml0 c0 (m, l, s) \<Longrightarrow> rm_consumer_pos m' = rm_consumer_pos m \<Longrightarrow>
    log_le l l' \<Longrightarrow> ring_rep (ring_mask r) start l' k m' \<Longrightarrow> ring_reach r start ml0 c0 (m', l', s)"

inductive_cases ring_reach_cases: "ring_reach r start ml0 c0 (m, l, s)"

section \<open>Lemmas\<close>

lemma roundup_len_unat: "unat (roundup_len len) = (unat len mod 2 ^ 30 + 15) div 8 * 8"
proof -
  define n where "n = unat len mod 2 ^ 30"
  have n: "n < 2 ^ 30" by (simp add: n_def)
  have "drop_bit 2 (push_bit 2 len) = take_bit 30 len"
    by (auto simp: word_eq_bits bit_simps)
  then have d: "unat (drop_bit 2 (push_bit 2 len)) = n"
    by (simp add: n_def take_bit_eq_mod unat_mod)
  have "unat (drop_bit 2 (push_bit 2 len) + 8) = n + 8"
    using n by (subst unat_add_lem [THEN iffD1]) (simp_all add: d)
  then have e: "unat (drop_bit 2 (push_bit 2 len) + 8 + 7) = n + 15"
    using n by (subst unat_add_lem [THEN iffD1]) simp_all
  have "(n + 15) div 8 * 8 < 2 ^ 32" using n by simp
  then have "unat ((drop_bit 2 (push_bit 2 len) + 8 + 7) div 8 * 8) = (n + 15) div 8 * 8"
    by (subst unat_mult_lem [THEN iffD1]) (simp_all add: unat_div e [simplified])
  then show ?thesis by (simp add: roundup_len_def BPF_RINGBUF_HDR_SZ_def n_def)
qed

lemma scast_roundup: "unat (scast (roundup_len len) :: u64) = unat (roundup_len len)"
proof -
  have "unat (roundup_len len) < 2 ^ 31"
    unfolding roundup_len_unat using mod_less_divisor [of "2 ^ 30" "unat len"] by simp
  then have "\<not> bit (unat (roundup_len len)) 31" by (simp add: bit_iff_odd)
  then have b: "\<not> bit (roundup_len len) 31" by (simp add: bit_unsigned_iff)
  have "\<not> bit (roundup_len len) n" if "31 \<le> n" for n
    using b that bit_imp_le_length [of "roundup_len len" n] by (cases "n = 31") auto
  with b have "(scast (roundup_len len) :: u64) = ucast (roundup_len len)"
    by (auto simp: word_eq_bits bit_simps min_def)
  then show ?thesis by (simp add: unsigned_ucast_eq take_bit_nat_eq_self unsigned_less [THEN less_trans])
qed

lemma log_size_simps [simp]:
  "log_size [] = 0" "log_size (x # l) = rec_size x + log_size l" "log_size (l @ l') = log_size l + log_size l'"
  by (simp_all add: log_size_def)

lemma rec_size_pos [simp]: "0 < rec_size x"
  by (simp add: rec_size_def)

lemma log_size_mono: "k \<le> j \<Longrightarrow> log_size (take k l) \<le> log_size (take j l)"
  by (metis le_iff_add le_add1 log_size_simps(3) take_add)

lemma log_size_strict:
  assumes "k < j" "j \<le> length l"
  shows "log_size (take k l) < log_size (take j l)"
proof -
  have "log_size (take (Suc k) l) = log_size (take k l) + rec_size (l ! k)"
    using assms by (simp add: take_Suc_conv_app_nth)
  moreover have "log_size (take (Suc k) l) \<le> log_size (take j l)" using assms by (simp add: log_size_mono)
  ultimately show ?thesis using rec_size_pos [of "l ! k"] by linarith
qed

lemma log_samples_simps [simp]:
  "log_samples [] = []"
  "log_samples (x # l) = (case rec_sample x of None \<Rightarrow> [] | Some bs \<Rightarrow> [bs]) @ log_samples l"
  "log_samples (l @ l') = log_samples l @ log_samples l'"
  by (simp_all add: log_samples_def List.map_filter_def split: option.split)

lemma small_nat_bit:
  assumes "n < 2 ^ 30" "30 \<le> k"
  shows "\<not> bit (n :: nat) k"
proof -
  have "n < 2 ^ k" using assms power_increasing [of 30 k "2 :: nat"] by linarith
  then show ?thesis by (simp add: bit_iff_odd)
qed

lemma flag_bits: "BPF_RINGBUF_BUSY_BIT = 2 ^ 31" "BPF_RINGBUF_DISCARD_BIT = 2 ^ 30"
  by (simp_all add: BPF_RINGBUF_BUSY_BIT_def BPF_RINGBUF_DISCARD_BIT_def)

lemma bit_flags [simp]:
  "bit BPF_RINGBUF_BUSY_BIT k \<longleftrightarrow> k = 31" "bit BPF_RINGBUF_DISCARD_BIT k \<longleftrightarrow> k = 30"
  unfolding flag_bits bit_two_power by simp_all

lemma bit_rec_hdr:
  assumes "rec_len x < 2 ^ 30" "k < 32"
  shows "bit (rec_hdr x) k \<longleftrightarrow> bit (rec_len x) k \<or> k = 31 \<and> is_busy x \<or> k = 30 \<and> \<not> is_busy x \<and> rec_sample x = None"
  using assms by (cases x) (auto simp: bit_simps is_busy_def)

lemma rec_hdr_flags:
  assumes "rec_len x < 2 ^ 30"
  shows "rec_hdr x AND BPF_RINGBUF_BUSY_BIT = 0 \<longleftrightarrow> \<not> is_busy x"
    and "rec_hdr x AND BPF_RINGBUF_DISCARD_BIT = 0 \<longleftrightarrow> is_busy x \<or> rec_sample x \<noteq> None"
  using bit_rec_hdr [OF assms] small_nat_bit [OF assms] unfolding flag_bits by (simp_all add: and_two_power_eq_0 del: power_numeral)

lemma rec_hdr_len:
  assumes "rec_len x < 2 ^ 30"
  shows "unat (rec_hdr x) mod 2 ^ 30 = rec_len x"
proof -
  have "take_bit 30 (rec_hdr x) = of_nat (rec_len x)"
    using bit_rec_hdr [OF assms] small_nat_bit [OF assms] by (auto simp: word_eq_bits bit_simps) (meson not_le)
  then have "unat (take_bit 30 (rec_hdr x)) = rec_len x"
    using assms by (simp add: unsigned_of_nat take_bit_nat_eq_self)
  then show ?thesis by (simp add: take_bit_eq_mod unat_mod)
qed

lemma roundup_rec: "rec_len x < 2 ^ 30 \<Longrightarrow> unat (scast (roundup_len (rec_hdr x)) :: u64) = rec_size x"
  by (simp only: scast_roundup roundup_len_unat rec_hdr_len rec_size_def)

lemma log_size_take_inj:
  assumes "log_size (take k l) = log_size (take j l)" "k \<le> length l" "j \<le> length l"
  shows "k = j"
  using log_size_strict [of k j l] log_size_strict [of j k l] assms by (cases k j rule: linorder_cases) auto

lemma log_le_size:
  assumes "log_le l l'"
  shows "k \<le> length l \<Longrightarrow> log_size (take k l') = log_size (take k l)"
proof -
  assume k: "k \<le> length l"
  have "list_all2 rec_le (take k l) (take k l')"
    using assms k list_all2_takeI [of rec_le l "take (length l) l'" k] by (auto simp: log_le_def min_def)
  then have "map rec_size (take k l') = map rec_size (take k l)"
    by (auto simp: list_eq_iff_nth_eq list_all2_conv_all_nth rec_le_def rec_size_def)
  then show ?thesis by (simp add: log_size_def)
qed

lemma log_le_nth: "log_le l l' \<Longrightarrow> i < length l \<Longrightarrow> rec_le (l ! i) (l' ! i)"
  by (auto simp: log_le_def list_all2_conv_all_nth)

lemma log_le_done:
  assumes "log_le l l'" "k \<le> length l" "list_all (\<lambda>x. \<not> is_busy x) (take k l)"
  shows "take k l' = take k l"
proof (rule nth_equalityI)
  show len: "length (take k l') = length (take k l)" using assms by (auto simp: log_le_def)
  fix i assume "i < length (take k l')"
  then have "i < k" "i < length l" using len assms(2) by auto
  then show "take k l' ! i = take k l ! i"
    using log_le_nth [OF assms(1)] assms(3) by (force simp: list_all_length rec_le_def)
qed

section \<open>The invariant of the interleaved system\<close>

definition feed_sample :: "'c ring \<Rightarrow> u8 list \<Rightarrow> 'c \<Rightarrow> 'c" where
  "feed_sample r bs c = snd (ring_sample_cb r c bs (of_nat (length bs)))"

definition consumed :: "'c ring \<Rightarrow> 'c \<Rightarrow> ring_rec list \<Rightarrow> 'c consumer \<Rightarrow> bool" where
  "consumed r c0 done s \<longleftrightarrow> list_all (\<lambda>x. \<not> is_busy x) done \<and>
     cs_ctx s = fold (feed_sample r) (log_samples done) c0 \<and>
     cs_cnt s + (case cs_pc s of Failed _ \<Rightarrow> 1 | _ \<Rightarrow> 0) = int (length (log_samples done))"

definition pc_ok :: "'c ring \<Rightarrow> ring_rec list \<Rightarrow> nat \<Rightarrow> 'c consumer \<Rightarrow> bool" where
  "pc_ok r l k s \<longleftrightarrow> (case cs_pc s of
     Have_Len off len \<Rightarrow> off = unat (cs_cons_pos s AND ring_mask r) \<and> k < length l \<and>
       (len AND BPF_RINGBUF_BUSY_BIT \<noteq> 0 \<or> \<not> is_busy (l ! k) \<and> len = rec_hdr (l ! k))
   | Stuck _ \<Rightarrow> False | Failed e \<Rightarrow> e < 0 | _ \<Rightarrow> True)"

definition prod_seen :: "nat \<Rightarrow> ring_rec list \<Rightarrow> 'c consumer \<Rightarrow> bool" where
  "prod_seen start l s \<longleftrightarrow>
     (cs_pc s \<noteq> Outer \<longrightarrow> (\<exists>j\<le>length l. unat (cs_prod_pos s) = start + log_size (take j l)))"

definition ring_inv :: "'c ring \<Rightarrow> nat \<Rightarrow> 'c \<Rightarrow> nat \<Rightarrow> ring_mem \<Rightarrow> ring_rec list \<Rightarrow> 'c consumer \<Rightarrow> bool" where
  "ring_inv r start c0 k m l s \<longleftrightarrow> ring_rep (ring_mask r) start l k m \<and>
     cs_cons_pos s = rm_consumer_pos m \<and> consumed r c0 (take k l) s \<and> pc_ok r l k s \<and> prod_seen start l s"

lemma ring_inv_produce:
  assumes inv: "ring_inv r start c0 k m l s" and cp: "rm_consumer_pos m' = rm_consumer_pos m"
    and le: "log_le l l'" and rep: "ring_rep (ring_mask r) start l' k' m'"
  shows "ring_inv r start c0 k m' l' s"
proof -
  have k: "k \<le> length l" "list_all (\<lambda>x. \<not> is_busy x) (take k l)"
    using inv by (auto simp: ring_inv_def ring_rep_def consumed_def)
  have len: "length l \<le> length l'" using le by (simp add: log_le_def)
  have tk: "take k l' = take k l" using log_le_done [OF le k] .
  have "log_size (take k' l') = log_size (take k l')"
    using inv cp rep tk by (simp add: ring_inv_def ring_rep_def)
  then have "k' = k" using rep k len by (intro log_size_take_inj [of k' l' k]) (auto simp: ring_rep_def)
  moreover have "pc_ok r l' k s"
    using inv len log_le_nth [OF le, of k] by (auto simp: ring_inv_def pc_ok_def rec_le_def split: ring_pc.splits)
  moreover have "prod_seen start l' s"
    using inv len log_le_size [OF le] unfolding ring_inv_def prod_seen_def by (metis le_trans)
  ultimately show ?thesis using inv cp rep tk by (simp add: ring_inv_def)
qed

lemma ring_rep_head:
  assumes "ring_rep msk start l k m" "k < length l"
  shows "holds_rec msk (rm_data m) (unat (rm_consumer_pos m)) (l ! k)"
    and "unat (rm_consumer_pos m) + rec_size (l ! k) < 2 ^ 64"
proof -
  have "drop k l = l ! k # drop (Suc k) l" using assms(2) by (simp add: Cons_nth_drop_Suc)
  then show "holds_rec msk (rm_data m) (unat (rm_consumer_pos m)) (l ! k)"
    using assms(1) by (simp add: ring_rep_def)
  have "log_size (take (Suc k) l) \<le> log_size (take (length l) l)"
    using assms(2) by (intro log_size_mono) simp
  then show "unat (rm_consumer_pos m) + rec_size (l ! k) < 2 ^ 64"
    using assms by (simp add: ring_rep_def take_Suc_conv_app_nth)
qed

lemma ring_rep_advance:
  assumes rep: "ring_rep msk start l k m" and k: "k < length l"
  defines "p \<equiv> rm_consumer_pos m + scast (roundup_len (rec_hdr (l ! k)))"
  shows "ring_rep msk start l (Suc k) (m\<lparr>rm_consumer_pos := p\<rparr>)"
proof -
  have len: "rec_len (l ! k) < 2 ^ 30"
    using ring_rep_head(1) [OF rep k] by (simp add: holds_rec_def Let_def)
  have "unat p = unat (rm_consumer_pos m) + rec_size (l ! k)"
    unfolding p_def using ring_rep_head(2) [OF rep k] roundup_rec [OF len]
    by (subst unat_add_lem [THEN iffD1]) simp_all
  moreover have "holds_log msk (rm_data m) (start + log_size (take (Suc k) l)) (drop (Suc k) l)"
    using rep k by (simp add: ring_rep_def Cons_nth_drop_Suc [symmetric] take_Suc_conv_app_nth add.assoc)
  ultimately show ?thesis using rep k by (simp add: ring_rep_def take_Suc_conv_app_nth)
qed

lemma ring_rep_sample:
  assumes rep: "ring_rep (ring_mask r) start l k m" and k: "k < length l" and x: "l ! k = Commit bs"
  shows "deliver_sample r (unat (rm_consumer_pos m AND ring_mask r)) (rec_hdr (l ! k)) m c =
    Inr (ring_sample_cb r c bs (of_nat (length bs)))"
proof -
  have h: "length bs < 2 ^ 30" "unat (rm_consumer_pos m AND ring_mask r) + 8 + length bs \<le> length (rm_data m)"
    "take (length bs) (drop (unat (rm_consumer_pos m AND ring_mask r) + 8) (rm_data m)) = bs"
    using ring_rep_head(1) [OF rep k] x by (simp_all add: holds_rec_def Let_def)
  moreover have "unat (of_nat (length bs) :: u32) = length bs"
    using h(1) by (simp add: unsigned_of_nat take_bit_nat_eq_self)
  ultimately show ?thesis using x by (simp add: deliver_sample_def BPF_RINGBUF_HDR_SZ_def)
qed

lemma ring_inv_inner:
  assumes inv: "ring_inv r start c0 k m l s" and pc: "cs_pc s = Inner"
  shows "consumer_step r (m, s) = (m', s') \<Longrightarrow> m' = m \<and> ring_inv r start c0 k m l s'"
    and "cs_cons_pos s < cs_prod_pos s \<Longrightarrow> k < length l \<and>
      consumer_step r (m, s) = (m, s\<lparr>cs_pc := Have_Len (unat (cs_cons_pos s AND ring_mask r)) (rec_hdr (l ! k))\<rparr>)"
proof -
  have rep: "ring_rep (ring_mask r) start l k m" and cp: "cs_cons_pos s = rm_consumer_pos m"
    using inv by (auto simp: ring_inv_def)
  have load: "k < length l \<and> rec_len (l ! k) < 2 ^ 30 \<and> read_le 4 (unat (cs_cons_pos s AND ring_mask r)) (rm_data m) = Some (rec_hdr (l ! k))"
    if lt: "cs_cons_pos s < cs_prod_pos s"
  proof -
    obtain j where j: "j \<le> length l" "unat (cs_prod_pos s) = start + log_size (take j l)"
      using inv pc by (auto simp: ring_inv_def prod_seen_def)
    have "unat (cs_cons_pos s) = start + log_size (take k l)" using rep cp by (simp add: ring_rep_def)
    then have "k < j" using lt j(2) log_size_mono [of j k l] by (auto simp: word_less_nat_alt not_le [symmetric])
    then show ?thesis using ring_rep_head(1) [OF rep, of] j(1) cp by (simp add: holds_rec_def Let_def)
  qed
  then show "k < length l \<and>
      consumer_step r (m, s) = (m, s\<lparr>cs_pc := Have_Len (unat (cs_cons_pos s AND ring_mask r)) (rec_hdr (l ! k))\<rparr>)"
    if "cs_cons_pos s < cs_prod_pos s"
    using that pc by (simp add: consumer_step_def Let_def)
  assume "consumer_step r (m, s) = (m', s')"
  then show "m' = m \<and> ring_inv r start c0 k m l s'"
    using inv pc load
    by (auto simp: consumer_step_def Let_def ring_inv_def consumed_def pc_ok_def prod_seen_def rec_hdr_flags split: if_splits)
qed

text \<open>Handling the record at the consumer position: stop at a busy one, otherwise move past it, and
  call the callback if it was committed.\<close>

lemma ring_inv_have_len:
  assumes inv: "ring_inv r start c0 k m l s" and pc: "cs_pc s = Have_Len off len"
    and step: "consumer_step r (m, s) = (m', s')"
  shows "len AND BPF_RINGBUF_BUSY_BIT \<noteq> 0 \<and> m' = m \<and> s' = s\<lparr>cs_pc := Done\<rparr> \<and> ring_inv r start c0 k m l s' \<or>
    len AND BPF_RINGBUF_BUSY_BIT = 0 \<and> ring_inv r start c0 (Suc k) m' l s' \<and> rm_data m' = rm_data m \<and>
    cs_prod_pos s' = cs_prod_pos s \<and> cs_got_new_data s' \<and> (cs_pc s' = Inner \<or> (\<exists>e. cs_pc s' = Failed e))"
proof (cases "len AND BPF_RINGBUF_BUSY_BIT = 0")
  case False
  then show ?thesis using inv pc step
    by (auto simp: consumer_step_def ring_inv_def consumed_def pc_ok_def prod_seen_def)
next
  case True
  have rep: "ring_rep (ring_mask r) start l k m" and cp: "cs_cons_pos s = rm_consumer_pos m"
    and con: "consumed r c0 (take k l) s" and seen: "prod_seen start l s"
    using inv by (auto simp: ring_inv_def)
  have k: "k < length l" and x: "\<not> is_busy (l ! k)" "len = rec_hdr (l ! k)"
    and off: "off = unat (rm_consumer_pos m AND ring_mask r)"
    using inv pc True by (auto simp: ring_inv_def pc_ok_def)
  have len: "rec_len (l ! k) < 2 ^ 30"
    using ring_rep_head(1) [OF rep k] by (simp add: holds_rec_def Let_def)
  note adv = ring_rep_advance [OF rep k, folded x(2)]
  have tk: "take (Suc k) l = take k l @ [l ! k]" using k by (rule take_Suc_conv_app_nth)
  show ?thesis
  proof (cases "l ! k")
    case (Busy n)
    then show ?thesis using x(1) by (simp add: is_busy_def)
  next
    case (Discard n)
    then have "len AND BPF_RINGBUF_DISCARD_BIT \<noteq> 0" using rec_hdr_flags(2) [OF len] x by (simp add: is_busy_def)
    then show ?thesis using step True pc adv cp con seen x(1) Discard
      by (auto simp: consumer_step_def Let_def ring_inv_def consumed_def pc_ok_def prod_seen_def tk)
  next
    case (Commit bs)
    then have "len AND BPF_RINGBUF_DISCARD_BIT = 0" using rec_hdr_flags(2) [OF len] x by simp
    moreover have "deliver_sample r off len m (cs_ctx s) = Inr (ring_sample_cb r (cs_ctx s) bs (of_nat (length bs)))"
      using ring_rep_sample [OF rep k Commit] x(2) off by simp
    ultimately show ?thesis using step True pc adv cp con seen x(1) Commit
      by (cases "ring_sample_cb r (cs_ctx s) bs (of_nat (length bs))")
        (auto simp: consumer_step_def Let_def ring_inv_def consumed_def pc_ok_def prod_seen_def tk feed_sample_def
           split: if_splits)
  qed
qed

lemma ring_inv_step:
  assumes inv: "ring_inv r start c0 k m l s" and step: "consumer_step r (m, s) = (m', s')"
  shows "\<exists>k'. ring_inv r start c0 k' m' l s'"
proof (cases "cs_pc s")
  case Outer
  have "\<exists>j\<le>length l. unat (rm_producer_pos m) = start + log_size (take j l)"
    using inv by (intro exI [of _ "length l"]) (simp add: ring_inv_def ring_rep_def)
  then have "ring_inv r start c0 k m' l s'" using Outer inv step
    by (auto simp: consumer_step_def ring_inv_def consumed_def pc_ok_def prod_seen_def)
  then show ?thesis ..
next
  case Inner
  then show ?thesis using ring_inv_inner(1) [OF inv Inner step] by auto
next
  case (Have_Len off len)
  then show ?thesis using ring_inv_have_len [OF inv Have_Len step] by auto
next
  case Done
  then show ?thesis using inv step by (auto simp: consumer_step_def)
next
  case (Failed e)
  then show ?thesis using inv step by (auto simp: consumer_step_def)
next
  case (Stuck f)
  then show ?thesis using inv step by (auto simp: consumer_step_def)
qed

lemma ring_inv_start:
  assumes "ring_rep (ring_mask r) start l 0 m"
  shows "ring_inv r start c0 0 m l (consumer_start m c0)"
  using assms by (simp add: ring_inv_def consumer_start_def consumed_def pc_ok_def prod_seen_def)

lemma ring_reach_inv:
  assumes "ring_reach r start (m0, l0) c0 st" and "ring_rep (ring_mask r) start l0 0 m0"
  shows "case st of (m, l, s) \<Rightarrow> \<exists>k. ring_inv r start c0 k m l s"
  using assms
proof (induction rule: ring_reach.induct)
  case (ring_start m l)
  then show ?case using ring_inv_start by fastforce
next
  case (ring_consume m l s m' s')
  then show ?case using ring_inv_step by fastforce
next
  case (ring_produce m l s m' l' k)
  then show ?case using ring_inv_produce by fastforce
qed

section \<open>A quiet producer\<close>

text \<open>What one call consumes of a given log, recursively: the value returned, the number of records
  passed, the final context.\<close>

fun drain_log :: "'c ring \<Rightarrow> ring_rec list \<Rightarrow> int \<Rightarrow> 'c \<Rightarrow> int \<times> nat \<times> 'c" where
  "drain_log r [] cnt c = (cnt, 0, c)"
| "drain_log r (Busy n # l) cnt c = (cnt, 0, c)"
| "drain_log r (Discard n # l) cnt c = (case drain_log r l cnt c of (v, k, c) \<Rightarrow> (v, Suc k, c))"
| "drain_log r (Commit bs # l) cnt c =
     (case ring_sample_cb r c bs (of_nat (length bs)) of (err, c) \<Rightarrow>
        if err < 0 then (err, 1, c)
        else (case drain_log r l (cnt + 1) c of (v, k, c) \<Rightarrow> (v, Suc k, c)))"

definition drained :: "'c ring \<Rightarrow> nat \<Rightarrow> ring_rec list \<Rightarrow> nat \<Rightarrow> ring_mem \<Rightarrow> int \<times> nat \<times> 'c \<Rightarrow> ring_mem \<Rightarrow> 'c consumer \<Rightarrow> bool" where
  "drained r start l k m res m' s' \<longleftrightarrow> (case res of (v, j, c) \<Rightarrow>
     consumer_result s' = Inr v \<and> cs_ctx s' = c \<and> rm_data m' = rm_data m \<and>
     ring_rep (ring_mask r) start l (k + j) m')"

lemma consumer_run_halted: "consumer_halted s \<Longrightarrow> consumer_run n r (m, s) = Some (m, s)"
  by simp

lemma consumer_run_Suc: "\<not> consumer_halted s \<Longrightarrow> consumer_run (Suc n) r (m, s) = consumer_run n r (consumer_step r (m, s))"
  by simp

lemmas halted_pcs = consumer_halted_def ring_pc.case
declare consumer_run.simps [simp del]

lemma run_at_end:
  assumes inv: "ring_inv r start c0 k m l s" and pc: "cs_pc s = Inner" and k: "k = length l"
    and prod: "cs_prod_pos s = rm_producer_pos m"
  shows "\<exists>s'. consumer_run (n + 4) r (m, s) = Some (m, s') \<and> drained r start l k m (cs_cnt s, 0, cs_ctx s) m s'"
proof -
  have ge: "\<not> cs_cons_pos s < rm_producer_pos m" "rm_consumer_pos m = cs_cons_pos s"
    using inv k by (auto simp: ring_inv_def ring_rep_def word_less_nat_alt)
  have rep: "ring_rep (ring_mask r) start l k m" using inv by (simp add: ring_inv_def)
  have n: "n + 4 = Suc (Suc (Suc (Suc n)))" by simp
  show ?thesis
  proof (cases "cs_got_new_data s")
    case True
    then have "consumer_run (n + 4) r (m, s) = Some (m, s\<lparr>cs_got_new_data := False, cs_prod_pos := rm_producer_pos m, cs_pc := Done\<rparr>)"
      unfolding n using pc ge prod by (simp add: halted_pcs consumer_step_def consumer_run_Suc consumer_run_halted)
    then show ?thesis using rep by (simp add: drained_def consumer_result_def)
  next
    case False
    then have "consumer_run (n + 4) r (m, s) = Some (m, s\<lparr>cs_pc := Done\<rparr>)"
      unfolding n using pc ge prod by (simp add: halted_pcs consumer_step_def consumer_run_Suc consumer_run_halted)
    then show ?thesis using rep by (simp add: drained_def consumer_result_def)
  qed
qed

lemma run_one_record:
  assumes inv: "ring_inv r start c0 k m l s" and pc: "cs_pc s = Inner" and k: "k < length l"
    and prod: "cs_prod_pos s = rm_producer_pos m"
  obtains s1 m2 s2 where
    "consumer_run (Suc (Suc n)) r (m, s) = consumer_run n r (m2, s2)"
    "cs_pc s1 = Have_Len (unat (rm_consumer_pos m AND ring_mask r)) (rec_hdr (l ! k))"
    "s1 = s\<lparr>cs_pc := cs_pc s1\<rparr>" "ring_inv r start c0 k m l s1" "consumer_step r (m, s1) = (m2, s2)"
proof -
  have "log_size (take k l) < log_size (take (length l) l)" using k by (intro log_size_strict) simp_all
  then have lt: "cs_cons_pos s < cs_prod_pos s"
    using inv prod by (simp add: ring_inv_def ring_rep_def word_less_nat_alt)
  define s1 where "s1 = s\<lparr>cs_pc := Have_Len (unat (cs_cons_pos s AND ring_mask r)) (rec_hdr (l ! k))\<rparr>"
  obtain m2 s2 where m2: "consumer_step r (m, s1) = (m2, s2)" by (cases "consumer_step r (m, s1)")
  have one: "consumer_step r (m, s) = (m, s1)" using ring_inv_inner(2) [OF inv pc lt] by (simp add: s1_def)
  then have "consumer_run (Suc (Suc n)) r (m, s) = consumer_run n r (m2, s2)"
    using pc m2 by (simp add: consumer_run_Suc consumer_halted_def s1_def)
  moreover have "ring_inv r start c0 k m l s1" using ring_inv_inner(1) [OF inv pc one] by simp
  moreover have "cs_cons_pos s = rm_consumer_pos m" using inv by (simp add: ring_inv_def)
  ultimately show ?thesis using m2 by (intro that [of m2 s2 s1]) (simp_all add: s1_def)
qed

lemma run_from_inner:
  assumes "ring_inv r start c0 k m l s" and "cs_pc s = Inner"
    and "cs_prod_pos s = rm_producer_pos m" and "2 * (length l - k) + 4 \<le> n"
  shows "\<exists>m' s'. consumer_run n r (m, s) = Some (m', s') \<and>
    drained r start l k m (drain_log r (drop k l) (cs_cnt s) (cs_ctx s)) m' s'"
  using assms
proof (induction "length l - k" arbitrary: k m s n)
  case 0
  then have "k = length l" by (simp add: ring_inv_def ring_rep_def)
  then show ?case using run_at_end [OF 0(2,3) _ 0(4), of "n - 4"] 0(5) by auto
next
  case (Suc d)
  then have k: "k < length l" by simp
  have rep: "ring_rep (ring_mask r) start l k m" using Suc.prems(1) by (simp add: ring_inv_def)
  have len: "rec_len (l ! k) < 2 ^ 30" using ring_rep_head(1) [OF rep k] by (simp add: holds_rec_def Let_def)
  have d: "drop k l = l ! k # drop (Suc k) l" using k by (simp add: Cons_nth_drop_Suc)
  obtain n' where n': "n = Suc (Suc n')" using Suc.prems(4) by (cases n; cases "n - 1") auto
  obtain s1 m2 s2 where run: "consumer_run n r (m, s) = consumer_run n' r (m2, s2)"
    and pc1: "cs_pc s1 = Have_Len (unat (rm_consumer_pos m AND ring_mask r)) (rec_hdr (l ! k))"
    and s1: "s1 = s\<lparr>cs_pc := cs_pc s1\<rparr>" and inv1: "ring_inv r start c0 k m l s1"
    and step: "consumer_step r (m, s1) = (m2, s2)"
    using run_one_record [OF Suc.prems(1,2) k Suc.prems(3), of n'] unfolding n' by metis
  have eqs: "cs_cnt s1 = cs_cnt s" "cs_ctx s1 = cs_ctx s" "cs_prod_pos s1 = cs_prod_pos s"
    by (subst s1, simp)+
  note hl = ring_inv_have_len [OF inv1 pc1 step]
  have go: ?case if inv2: "ring_inv r start c0 (Suc k) m2 l s2" "cs_pc s2 = Inner"
      "cs_prod_pos s2 = cs_prod_pos s" "rm_data m2 = rm_data m" "rm_producer_pos m2 = rm_producer_pos m"
      and dl: "drain_log r (drop k l) (cs_cnt s) (cs_ctx s) =
        (case drain_log r (drop (Suc k) l) (cs_cnt s2) (cs_ctx s2) of (v, j, c) \<Rightarrow> (v, Suc j, c))"
  proof -
    have "d = length l - Suc k" using Suc.hyps(2) by simp
    moreover have "cs_prod_pos s2 = rm_producer_pos m2" using inv2 Suc.prems(3) by simp
    ultimately obtain m' s' where "consumer_run n' r (m2, s2) = Some (m', s')"
      "drained r start l (Suc k) m2 (drain_log r (drop (Suc k) l) (cs_cnt s2) (cs_ctx s2)) m' s'"
      using Suc.hyps(1) [of "Suc k" m2 s2 n'] inv2 Suc.hyps(2) Suc.prems(4) n' by auto
    then show ?case using run dl inv2(4) by (auto simp: drained_def)
  qed
  show ?case
  proof (cases "l ! k")
    case (Busy x)
    then have "m2 = m" "s2 = s1\<lparr>cs_pc := Done\<rparr>" using hl rec_hdr_flags(1) [OF len] by (auto simp: is_busy_def)
    then show ?thesis using run d Busy eqs rep
      by (simp add: consumer_run_halted consumer_halted_def drained_def consumer_result_def)
  next
    case (Discard x)
    then have "rec_hdr (l ! k) AND BPF_RINGBUF_BUSY_BIT = 0" "rec_hdr (l ! k) AND BPF_RINGBUF_DISCARD_BIT \<noteq> 0"
      using rec_hdr_flags [OF len] by (simp_all add: is_busy_def)
    then show ?thesis using go hl step pc1 d Discard eqs by (auto simp: consumer_step_def Let_def)
  next
    case (Commit bs)
    let ?cb = "ring_sample_cb r (cs_ctx s) bs (of_nat (length bs))"
    have f: "rec_hdr (l ! k) AND BPF_RINGBUF_BUSY_BIT = 0" "rec_hdr (l ! k) AND BPF_RINGBUF_DISCARD_BIT = 0"
      using rec_hdr_flags [OF len] Commit by (simp_all add: is_busy_def)
    have "deliver_sample r (unat (rm_consumer_pos m AND ring_mask r)) (rec_hdr (l ! k)) m (cs_ctx s) = Inr ?cb"
      by (rule ring_rep_sample [OF rep k Commit])
    then show ?thesis using go hl step pc1 d Commit eqs f run
      by (cases ?cb) (auto simp: consumer_step_def Let_def consumer_run_halted consumer_halted_def drained_def
          consumer_result_def ring_inv_def split: if_splits)
  qed
qed

lemma process_quiet:
  assumes rep: "ring_rep (ring_mask r) start l 0 m" and n: "2 * length l + 5 \<le> n"
  shows "\<exists>m' j. ringbuf_process_ring n r m c = Some (Inr (fst (drain_log r l 0 c), m', snd (snd (drain_log r l 0 c)))) \<and>
    j = fst (snd (drain_log r l 0 c)) \<and> ring_rep (ring_mask r) start l j m' \<and> rm_data m' = rm_data m"
proof -
  obtain n' where n': "n = Suc n'" using n by (cases n) auto
  let ?s = "(consumer_start m c)\<lparr>cs_got_new_data := False, cs_prod_pos := rm_producer_pos m, cs_pc := Inner\<rparr>"
  have step: "consumer_step r (m, consumer_start m c) = (m, ?s)"
    by (simp add: consumer_step_def consumer_start_def)
  have "\<exists>j\<le>length l. unat (rm_producer_pos m) = start + log_size (take j l)"
    using rep by (intro exI [of _ "length l"]) (simp add: ring_rep_def)
  then have inv: "ring_inv r start c 0 m l ?s"
    using rep by (simp add: ring_inv_def consumer_start_def consumed_def pc_ok_def prod_seen_def)
  obtain m' s' where "consumer_run n' r (m, ?s) = Some (m', s')"
    "drained r start l 0 m (drain_log r l 0 c) m' s'"
    using run_from_inner [OF inv, of n'] n n' by (auto simp: consumer_start_def)
  moreover have "consumer_run n r (m, consumer_start m c) = consumer_run n' r (m, ?s)"
    unfolding n' step [symmetric] by (simp add: consumer_run_Suc consumer_halted_def consumer_start_def)
  ultimately show ?thesis by (auto simp: ringbuf_process_ring_def drained_def split: prod.splits)
qed

lemma ring_length_agrees:
  assumes "unat max_entries < 2 ^ 31" "0 < max_entries"
  shows "2 * (ucast (max_entries - 1 :: u32) + 1) = (ucast (2 * max_entries) :: u64)"
proof -
  have "unat (max_entries - 1) = unat max_entries - 1" using assms(2) by (simp add: unat_minus_one)
  moreover have "0 < unat max_entries" using assms(2) by (simp add: unat_gt_0)
  ultimately have "(ucast (max_entries - 1) :: u64) + 1 = ucast max_entries"
    by (metis Suc_pred' add.commute of_nat_Suc of_nat_unat)
  moreover have "unat (2 * max_entries) = 2 * unat max_entries"
    using assms(1) by (subst unat_mult_lem [THEN iffD1]) simp_all
  then have "(ucast (2 * max_entries) :: u64) = 2 * ucast max_entries"
    by (metis of_nat_mult of_nat_numeral of_nat_unat)
  ultimately show ?thesis by simp
qed

text \<open>Answers the operating system and the allocator can give: addresses of mappings and error numbers are not 0;
  the ring has between one and $2^{31} - 1$ bytes.\<close>

definition add_answers_ok :: "add_answers \<Rightarrow> bool" where
  "add_answers_ok an \<longleftrightarrow> an_mmap_consumer an \<noteq> Inr 0 \<and> an_mmap_producer an \<noteq> Inr 0 \<and>
     an_info an \<noteq> Inl 0 \<and> an_mmap_consumer an \<noteq> Inl 0 \<and> an_mmap_producer an \<noteq> Inl 0 \<and> an_epoll_add an \<noteq> Some 0 \<and>
     (case an_info an of Inl _ \<Rightarrow> True | Inr (t, n) \<Rightarrow> 0 < n \<and> unat n < 2 ^ 31)"

text \<open>What a manager holds beyond what the process held before: the mappings of its rings, the epoll descriptor,
  the structure and the arrays that are allocated.\<close>

definition ring_maps :: "u64 \<Rightarrow> 'c ring \<Rightarrow> (u64 \<times> u64) multiset" where
  "ring_maps page r = {#(ring_consumer_addr r, page), (ring_producer_addr r, page + 2 * (ring_mask r + 1))#}"

definition ptr_mset :: "u64 \<Rightarrow> u64 multiset" where
  "ptr_mset p = (if p = 0 then {#} else {#p#})"

definition rb_holds :: "'c ring_buffer \<Rightarrow> os \<Rightarrow> os" where
  "rb_holds rb o1 = o1\<lparr>os_maps := os_maps o1 + sum_list (map (ring_maps (rb_page_size rb)) (rb_rings rb)),
     os_fds := add_mset (rb_epoll_fd rb) (os_fds o1),
     os_heap := os_heap o1 + ptr_mset (rb_self rb) + ptr_mset (rb_rings_ptr rb) + ptr_mset (rb_events_ptr rb)\<rparr>"

definition rings_mapped :: "'c ring list \<Rightarrow> bool" where
  "rings_mapped rs \<longleftrightarrow> (\<forall>r\<in>set rs. ring_consumer_addr r \<noteq> 0 \<and> ring_producer_addr r \<noteq> 0)"

lemma unmap_both:
  assumes "ring_consumer_addr r \<noteq> 0" "ring_producer_addr r \<noteq> 0"
  shows "fst (ringbuf_unmap_ring page r o1) = o1\<lparr>os_maps := os_maps o1 - ring_maps page r\<rparr>"
  unfolding ringbuf_unmap_ring_def Let_def using assms
  by (simp only: if_False if_True split_beta fst_conv snd_conv ring.simps not_False_eq_True not_True_eq_False)
    (simp add: os_munmap_def ring_maps_def add_mset_commute)

lemma unmap_consumer_only:
  assumes "ring_consumer_addr r = a" "a \<noteq> 0" "ring_producer_addr r = 0"
  shows "fst (ringbuf_unmap_ring page r (os_mmap a page o1)) = o1"
  using assms by (simp add: ringbuf_unmap_ring_def os_munmap_def os_mmap_def)

lemma unmap_all:
  assumes "rings_mapped rs" "os_maps o1 = m + sum_list (map (ring_maps page) rs)"
  shows "fold (\<lambda>r o1. fst (ringbuf_unmap_ring page r o1)) rs o1 = o1\<lparr>os_maps := m\<rparr>"
  using assms
proof (induction rs arbitrary: o1)
  case (Cons r rs)
  then have r: "fst (ringbuf_unmap_ring page r o1) = o1\<lparr>os_maps := m + sum_list (map (ring_maps page) rs)\<rparr>"
    by (simp add: unmap_both rings_mapped_def)
  show ?case using Cons.IH [of "o1\<lparr>os_maps := m + sum_list (map (ring_maps page) rs)\<rparr>"] Cons.prems(1) r
    by (simp add: rings_mapped_def)
qed simp

lemma free_releases:
  assumes "rings_mapped (rb_rings rb)" "0 \<le> rb_epoll_fd rb"
  shows "ring_buffer__free (Some rb) (rb_holds rb o1) = o1"
proof -
  have "fold (\<lambda>r o1. fst (ringbuf_unmap_ring (rb_page_size rb) r o1)) (rb_rings rb) (rb_holds rb o1) =
      (rb_holds rb o1)\<lparr>os_maps := os_maps o1\<rparr>"
    by (rule unmap_all [OF assms(1)]) (simp add: rb_holds_def)
  then show ?thesis using assms(2)
    by (simp add: ring_buffer__free_def rb_holds_def os_close_def os_free_def ptr_mset_def)
qed

text \<open>An addition keeps the account exact, whether it succeeds or not; new arrays stay with the manager in both cases.\<close>

lemma realloc_rings_holds:
  "q \<noteq> 0 \<Longrightarrow> os_realloc (rb_rings_ptr rb) q (rb_holds rb o1) = rb_holds (rb\<lparr>rb_rings_ptr := q\<rparr>) o1"
  by (simp add: rb_holds_def os_realloc_def os_alloc_def os_free_def ptr_mset_def)

lemma realloc_events_holds:
  "q \<noteq> 0 \<Longrightarrow> os_realloc (rb_events_ptr rb) q (rb_holds rb o1) = rb_holds (rb\<lparr>rb_events_ptr := q\<rparr>) o1"
  by (simp add: rb_holds_def os_realloc_def os_alloc_def os_free_def ptr_mset_def)

lemma map_ring_holds:
  assumes "ring_consumer_addr r = a" "ring_producer_addr r = p" "rb_page_size rb + 2 * (ring_mask r + 1) = len"
  shows "os_mmap p len (os_mmap a (rb_page_size rb) (rb_holds rb o1)) = rb_holds (rb\<lparr>rb_rings := rb_rings rb @ [r]\<rparr>) o1"
  using assms by (simp add: rb_holds_def os_mmap_def ring_maps_def)

lemma unmap_restores:
  assumes "ring_consumer_addr r = a" "a \<noteq> 0" "ring_producer_addr r = p" "p \<noteq> 0"
    and "page + 2 * (ring_mask r + 1) = len"
  shows "fst (ringbuf_unmap_ring page r (os_mmap p len (os_mmap a page o1))) = o1"
  using assms by (simp add: unmap_both ring_maps_def os_mmap_def)

lemma ring_add_holds:
  assumes ok: "add_answers_ok an" and rs: "rings_mapped (rb_rings rb)"
    and add: "ring_buffer__add an fd cb (rb, rb_holds rb o1) = (e, rb', o2)"
  shows "o2 = rb_holds rb' o1 \<and> rings_mapped (rb_rings rb') \<and> rb_epoll_fd rb' = rb_epoll_fd rb"
proof (cases "\<exists>n a p. an_info an = Inr (BPF_MAP_TYPE_RINGBUF, n) \<and> an_mmap_consumer an = Inr a \<and> an_mmap_producer an = Inr p \<and>
    an_realloc_rings an \<noteq> 0 \<and> an_realloc_events an \<noteq> 0")
  case False
  then show ?thesis using ok add rs
    by (auto simp: ring_buffer__add_def add_answers_ok_def Let_def unmap_consumer_only realloc_rings_holds realloc_events_holds
        realloc_events_holds [of _ "rb\<lparr>rb_rings_ptr := an_realloc_rings an\<rparr>" o1, simplified]
        split: sum.splits option.splits prod.splits if_splits)
next
  case True
  then obtain n a p where info: "an_info an = Inr (BPF_MAP_TYPE_RINGBUF, n)" "an_mmap_consumer an = Inr a"
    "an_mmap_producer an = Inr p" "an_realloc_rings an \<noteq> 0" "an_realloc_events an \<noteq> 0" by blast
  define rb2 where "rb2 = rb\<lparr>rb_rings_ptr := an_realloc_rings an, rb_events_ptr := an_realloc_events an\<rparr>"
  let ?r = "\<lparr>ring_sample_cb = cb, ring_consumer_addr = a, ring_producer_addr = p, ring_mask = ucast (n - 1), ring_map_fd = fd\<rparr>"
  let ?len = "rb_page_size rb + ucast (2 * n)"
  have len: "rb_page_size rb + 2 * (ring_mask ?r + 1) = ?len"
    using ok info ring_length_agrees [of n] by (simp add: add_answers_ok_def)
  have ap: "a \<noteq> 0" "p \<noteq> 0" using ok info by (auto simp: add_answers_ok_def)
  have arrays: "os_realloc (rb_events_ptr rb) (an_realloc_events an) (os_realloc (rb_rings_ptr rb) (an_realloc_rings an) (rb_holds rb o1)) = rb_holds rb2 o1"
    using info realloc_events_holds [of _ "rb\<lparr>rb_rings_ptr := an_realloc_rings an\<rparr>" o1] by (simp add: rb2_def realloc_rings_holds)
  have run: "ring_buffer__add an fd cb (rb, rb_holds rb o1) =
    (case an_epoll_add an of Some errno \<Rightarrow> (- errno, rb2, fst (ringbuf_unmap_ring (rb_page_size rb) ?r (os_mmap p ?len (os_mmap a (rb_page_size rb) (rb_holds rb2 o1)))))
     | None \<Rightarrow> (0, rb2\<lparr>rb_rings := rb_rings rb @ [?r]\<rparr>, os_mmap p ?len (os_mmap a (rb_page_size rb) (rb_holds rb2 o1))))"
    using info arrays by (cases "an_epoll_add an") (simp_all add: ring_buffer__add_def Let_def rb2_def)
  have m: "rings_mapped (rb_rings rb @ [?r])" using rs ap by (simp add: rings_mapped_def)
  note un = unmap_restores [of ?r a p "rb_page_size rb" ?len "rb_holds rb2 o1", OF _ ap(1) _ ap(2) len]
  note mp = map_ring_holds [of ?r a p rb2 ?len o1]
  show ?thesis using add run un mp len m rs by (cases "an_epoll_add an") (auto simp: rb2_def)
qed

lemma ring_adds_holds:
  assumes "\<forall>(an, fd, cb)\<in>set adds. add_answers_ok an" "rings_mapped (rb_rings rb)"
    and "ring_adds adds (rb, rb_holds rb o1) = (rb', o2)"
  shows "o2 = rb_holds rb' o1 \<and> rings_mapped (rb_rings rb') \<and> rb_epoll_fd rb' = rb_epoll_fd rb"
  using assms
proof (induction adds arbitrary: rb)
  case (Cons a adds)
  obtain an fd cb where a: "a = (an, fd, cb)" by (cases a)
  obtain e rb1 o3 where add: "ring_buffer__add an fd cb (rb, rb_holds rb o1) = (e, rb1, o3)" by (metis prod_cases3)
  have h: "o3 = rb_holds rb1 o1" "rings_mapped (rb_rings rb1)" "rb_epoll_fd rb1 = rb_epoll_fd rb"
    using ring_add_holds [OF _ Cons.prems(2) add] Cons.prems(1) a by auto
  show ?case using Cons.IH [OF _ h(2)] Cons.prems(1,3) a add h by auto
qed simp

text \<open>The same for all rings of a manager in turn.\<close>

fun drain_rings :: "('c ring \<times> ring_rec list) list \<Rightarrow> int \<Rightarrow> 'c \<Rightarrow> int \<times> 'c" where
  "drain_rings [] res c = (min res INT_MAX, c)"
| "drain_rings ((r, l) # rls) res c =
     (case drain_log r l 0 c of (v, k, c) \<Rightarrow> if v < 0 then (v, c) else drain_rings rls (res + v) c)"

definition rings_rep :: "(int \<Rightarrow> ring_mem) \<Rightarrow> ('c ring \<times> ring_rec list) list \<Rightarrow> bool" where
  "rings_rep ms rls \<longleftrightarrow> distinct (map (ring_map_fd \<circ> fst) rls) \<and>
     list_all (\<lambda>(r, l). \<exists>start. ring_rep (ring_mask r) start l 0 (ms (ring_map_fd r))) rls"

lemma rings_rep_tail:
  assumes "rings_rep ms ((r, l) # rls)"
  shows "rings_rep (ms(ring_map_fd r := m)) rls"
  using assms by (force simp: rings_rep_def list_all_iff)

lemma process_rings_quiet:
  assumes "rings_rep ms rls" "list_all (\<lambda>(r, l). 2 * length l + 5 \<le> n) rls"
  shows "\<exists>ms'. process_rings n (map fst rls) res (ms, c) =
    Some (Inr (fst (drain_rings rls res c), ms', snd (drain_rings rls res c)))"
  using assms
proof (induction rls arbitrary: ms res c)
  case Nil
  then show ?case by (simp add: min_def)
next
  case (Cons rl rls)
  obtain r l where rl: "rl = (r, l)" by (cases rl)
  obtain start where "ring_rep (ring_mask r) start l 0 (ms (ring_map_fd r))"
    using Cons.prems(1) rl by (auto simp: rings_rep_def)
  then obtain m' where p: "ringbuf_process_ring n r (ms (ring_map_fd r)) c =
      Some (Inr (fst (drain_log r l 0 c), m', snd (snd (drain_log r l 0 c))))"
    using process_quiet [of r start l _ n c] Cons.prems(2) rl by auto
  have "rings_rep (ms(ring_map_fd r := m')) rls" using Cons.prems(1) rl by (simp add: rings_rep_tail)
  from Cons.IH [OF this] Cons.prems(2) show ?case
    using p rl by (auto simp: Let_def simp del: fun_upd_apply split: prod.split)
qed

lemma ring_reach_run:
  assumes "(consumer_step r ^^ n) (m, consumer_start m c) = (m', s')"
  shows "ring_reach r start (m, l) c (m', l, s')"
  using assms
proof (induction n arbitrary: m' s')
  case 0
  then show ?case by (auto intro: ring_start)
next
  case (Suc n)
  obtain m1 s1 where "(consumer_step r ^^ n) (m, consumer_start m c) = (m1, s1)" by fastforce
  with Suc show ?case by (auto intro: ring_consume)
qed

section \<open>A small ring\<close>

text \<open>Sixteen bytes of data, mapped twice, with one committed record of two bytes; the callback
  collects the samples.\<close>

definition demo_ring :: "u8 list list ring" where
  "demo_ring = \<lparr>ring_sample_cb = (\<lambda>c bs n. (0, c @ [bs])), ring_consumer_addr = 4096, ring_producer_addr = 8192,
     ring_mask = 15, ring_map_fd = 3\<rparr>"

definition demo_mem :: ring_mem where
  "demo_mem = \<lparr>rm_consumer_pos = 0, rm_producer_pos = 16,
     rm_data = [2, 0, 0, 0, 0, 0, 0, 0, 7, 9, 0, 0, 0, 0, 0, 0, 2, 0, 0, 0, 0, 0, 0, 0, 7, 9, 0, 0, 0, 0, 0, 0]\<rparr>"

lemma demo_rep: "ring_rep (ring_mask demo_ring) 0 [Commit [7, 9]] 0 demo_mem"
  by (simp add: ring_rep_def demo_ring_def demo_mem_def rec_size_def holds_rec_def Let_def read_le_def)

section \<open>Properties\<close>

text \<open>
  C2. Exactly once, in order, whatever the producer does. Under every interleaving of the consumer
  with a producer that only appends records and completes busy ones, the consumer position stands
  after a prefix of the log without busy records, the callback has been applied to exactly the
  committed samples of that prefix in order, and the consumer has made no access outside the mapping.
\<close>

theorem ring_consumer_exactly_once:
  assumes "ring_reach r start (m0, l0) c0 (m, l, s)" and "ring_rep (ring_mask r) start l0 0 m0"
  shows "\<exists>k\<le>length l. unat (rm_consumer_pos m) = start + log_size (take k l) \<and>
    list_all (\<lambda>x. \<not> is_busy x) (take k l) \<and>
    cs_ctx s = fold (feed_sample r) (log_samples (take k l)) c0 \<and>
    (\<forall>f. cs_pc s \<noteq> Stuck f) \<and>
    (cs_pc s = Done \<longrightarrow> consumer_result s = Inr (int (length (log_samples (take k l)))))"
proof -
  obtain k where "ring_inv r start c0 k m l s" using ring_reach_inv [OF assms] by auto
  then show ?thesis
    by (intro exI [of _ k]) (auto simp: ring_inv_def ring_rep_def consumed_def pc_ok_def consumer_result_def)
qed

theorem ring_consumer_exactly_once_witness:
  "\<exists>k\<le>1. unat (rm_consumer_pos (fst ((consumer_step demo_ring ^^ 3) (demo_mem, consumer_start demo_mem [])))) =
     log_size (take k [Commit [7, 9]]) \<and>
   cs_ctx (snd ((consumer_step demo_ring ^^ 3) (demo_mem, consumer_start demo_mem []))) =
     fold (feed_sample demo_ring) (log_samples (take k [Commit [7, 9]])) []"
proof -
  obtain m s where "(consumer_step demo_ring ^^ 3) (demo_mem, consumer_start demo_mem []) = (m, s)" by fastforce
  with ring_consumer_exactly_once [OF ring_reach_run [OF this, of 0] demo_rep] show ?thesis by force
qed

text \<open>
  C27. A call returns. With no concurrent producer, two steps per record (and five more) are enough
  for \<open>ringbuf_process_ring\<close> to return, with the result of draining the log: it stops before the
  first busy record or after the first callback error, skips discarded records, and leaves the
  consumer position after what it consumed.
\<close>

theorem process_ring_returns:
  assumes "ring_rep (ring_mask r) start l 0 m" and "2 * length l + 5 \<le> n"
  shows "\<exists>m'. ringbuf_process_ring n r m c =
      Some (Inr (fst (drain_log r l 0 c), m', snd (snd (drain_log r l 0 c)))) \<and>
    ring_rep (ring_mask r) start l (fst (snd (drain_log r l 0 c))) m'"
  using process_quiet [OF assms] by auto

theorem process_ring_returns_witness:
  "\<exists>m'. ringbuf_process_ring 7 demo_ring demo_mem [] = Some (Inr (1, m', [[7, 9]])) \<and>
    ring_rep 15 0 [Commit [7, 9]] 1 m'"
  using process_ring_returns [OF demo_rep, of 7 "[]"] by (simp add: demo_ring_def)

text \<open>
  C29. \<open>ring_buffer__consume\<close> drains every ring in turn, stops at the first callback error, and
  returns the number of samples clamped to \<open>INT_MAX\<close>.
\<close>

theorem ring_consume_all:
  assumes "rings_rep ms (zip (rb_rings rb) logs)" and "length logs = length (rb_rings rb)"
    and "list_all (\<lambda>l. 2 * length l + 5 \<le> n) logs"
  shows "\<exists>ms'. ring_buffer__consume n rb (ms, c) =
    Some (Inr (fst (drain_rings (zip (rb_rings rb) logs) 0 c), ms', snd (drain_rings (zip (rb_rings rb) logs) 0 c)))"
proof -
  have "list_all (\<lambda>(r, l). 2 * length l + 5 \<le> n) (zip (rb_rings rb) logs)"
    using assms(3) by (auto simp: list_all_iff dest: set_zip_rightD)
  from process_rings_quiet [OF assms(1) this, of 0 c] assms(2) show ?thesis
    by (simp add: ring_buffer__consume_def)
qed

theorem ring_consume_all_witness:
  "\<exists>ms'. ring_buffer__consume 7 \<lparr>rb_self = 16, rb_events_ptr = 48, rb_rings_ptr = 32, rb_rings = [demo_ring], rb_page_size = 4096, rb_epoll_fd = 5\<rparr> (\<lambda>_. demo_mem, []) =
    Some (Inr (1, ms', [[7, 9]]))"
proof -
  have "rings_rep (\<lambda>_. demo_mem) (zip (rb_rings \<lparr>rb_self = 16, rb_events_ptr = 48, rb_rings_ptr = 32, rb_rings = [demo_ring], rb_page_size = 4096, rb_epoll_fd = 5\<rparr>) [[Commit [7, 9]]])"
    using demo_rep by (auto simp: rings_rep_def)
  from ring_consume_all [OF this, of 7 "[]"] show ?thesis by (simp add: demo_ring_def INT_MAX_def)
qed

text \<open>
  C33. Nothing is leaked. For answers the operating system and the allocator can give (error numbers and
  addresses of mappings are not 0, descriptors not negative) and rings of between one and $2^{31} - 1$ bytes,
  \<open>ring_buffer__new\<close> either fails with everything released, or returns a manager such that, after any
  further calls of \<open>ring_buffer__add\<close>, successful or not, \<open>ring_buffer__free\<close> releases exactly what was
  acquired: the mappings, the descriptor, the structure and its two arrays.
\<close>

theorem ring_new_free_no_leak:
  fixes cb :: "'c \<Rightarrow> u8 list \<Rightarrow> u32 \<Rightarrow> int \<times> 'c"
  assumes "add_answers_ok an" and "\<forall>fd. epoll_create = Inr fd \<longrightarrow> 0 \<le> fd" and "\<forall>(an, fd, cb)\<in>set adds. add_answers_ok an"
  shows "case ring_buffer__new opts_valid calloc_ptr page epoll_create an map_fd cb o1 of
      (Inl _, o2) \<Rightarrow> o2 = o1
    | (Inr rb, o2) \<Rightarrow> (case ring_adds adds (rb, o2) of (rb', o3) \<Rightarrow> ring_buffer__free (Some rb') o3 = o1)"
proof (cases "opts_valid \<and> calloc_ptr \<noteq> 0")
  case False
  then show ?thesis by (auto simp: ring_buffer__new_def)
next
  case True
  define rb0 :: "int \<Rightarrow> 'c ring_buffer" where
    "rb0 = (\<lambda>fd. \<lparr>rb_self = calloc_ptr, rb_events_ptr = 0, rb_rings_ptr = 0, rb_rings = [], rb_page_size = page, rb_epoll_fd = fd\<rparr>)"
  show ?thesis
  proof (cases epoll_create)
    case (Inl e)
    then show ?thesis using True
      by (simp add: ring_buffer__new_def ring_buffer__free_def Let_def os_free_def os_alloc_def)
  next
    case (Inr fd)
    have fd: "0 \<le> fd" using assms(2) Inr by simp
    have h0: "os_open fd (os_alloc calloc_ptr o1) = rb_holds (rb0 fd) o1" "rings_mapped (rb_rings (rb0 fd))" "rb_epoll_fd (rb0 fd) = fd"
      using True by (simp_all add: rb_holds_def rb0_def os_open_def os_alloc_def ptr_mset_def rings_mapped_def)
    obtain e rb o2 where add: "ring_buffer__add an map_fd cb (rb0 fd, rb_holds (rb0 fd) o1) = (e, rb, o2)" by (metis prod_cases3)
    note h = ring_add_holds [OF assms(1) h0(2) add]
    have new: "ring_buffer__new opts_valid calloc_ptr page epoll_create an map_fd cb o1 =
        (if e \<noteq> 0 then (Inl (- e), ring_buffer__free (Some rb) o2) else (Inr rb, o2))"
      using True Inr add h0(1) by (simp add: ring_buffer__new_def Let_def rb0_def)
    obtain rb' o3 where adds: "ring_adds adds (rb, o2) = (rb', o3)" by fastforce
    have "ring_buffer__free (Some rb) o2 = o1" "ring_buffer__free (Some rb') o3 = o1"
      using h ring_adds_holds [OF assms(3), of rb o1 rb' o3] adds h0(3) fd by (auto simp: free_releases)
    then show ?thesis using new adds by simp
  qed
qed

theorem ring_new_free_no_leak_witness:
  "case ring_buffer__new True 16 4096 (Inr 5)
      \<lparr>an_info = Inr (BPF_MAP_TYPE_RINGBUF, 4096), an_realloc_rings = 32, an_realloc_events = 48,
       an_mmap_consumer = Inr 65536, an_mmap_producer = Inr 131072, an_epoll_add = None\<rparr> 3 (ring_sample_cb demo_ring)
      \<lparr>os_maps = {#}, os_fds = {#3#}, os_heap = {#}\<rparr> of
    (Inl _, o2) \<Rightarrow> o2 = \<lparr>os_maps = {#}, os_fds = {#3#}, os_heap = {#}\<rparr>
  | (Inr rb, o2) \<Rightarrow> (case ring_adds [(\<lparr>an_info = Inr (BPF_MAP_TYPE_RINGBUF, 8192), an_realloc_rings = 64, an_realloc_events = 0,
         an_mmap_consumer = Inr 65536, an_mmap_producer = Inr 131072, an_epoll_add = None\<rparr>, 4, ring_sample_cb demo_ring)] (rb, o2) of
       (rb', o3) \<Rightarrow> ring_buffer__free (Some rb') o3 = \<lparr>os_maps = {#}, os_fds = {#3#}, os_heap = {#}\<rparr>)"
  by (rule ring_new_free_no_leak) (simp_all add: add_answers_ok_def)

text \<open>
  The 32-bit product. For a ring of $2^{31}$ bytes, \<open>ring_buffer__add\<close> succeeds but maps no data
  page at all: the length passed to \<open>mmap\<close> is the page size, while the mask says $2^{31}$ bytes.
\<close>

theorem ring_add_length_wraps:
  "ring_buffer__add \<lparr>an_info = Inr (BPF_MAP_TYPE_RINGBUF, 0x80000000), an_realloc_rings = 32, an_realloc_events = 48,
       an_mmap_consumer = Inr a, an_mmap_producer = Inr p, an_epoll_add = None\<rparr> fd cb (rb, o1) =
   (0, rb\<lparr>rb_rings_ptr := 32, rb_events_ptr := 48, rb_rings := rb_rings rb @ [\<lparr>ring_sample_cb = cb, ring_consumer_addr = a, ring_producer_addr = p,
        ring_mask = 0x7FFFFFFF, ring_map_fd = fd\<rparr>]\<rparr>,
    os_mmap p (rb_page_size rb) (os_mmap a (rb_page_size rb) (os_realloc (rb_events_ptr rb) 48 (os_realloc (rb_rings_ptr rb) 32 o1))))"
  by (simp add: ring_buffer__add_def Let_def)

end
