(* ===== verification/Nlattr.thy ===== *)
theory Nlattr
  imports Bytes Errno
begin

text \<open>
  Netlink attributes, \<open>libbpf/src/nlattr.c\<close> and \<open>nlattr.h\<close>: the validating parser over a stream of
  attributes, and the builder of requests. Memory is a list of bytes, attributes are positions in it;
  a read outside the list is \<open>Out_Of_Bounds\<close>.
\<close>

definition EMSGSIZE :: int where "EMSGSIZE = 90"

section \<open>Attributes in memory\<close>

definition NLA_HDRLEN :: nat where "NLA_HDRLEN = 4"
definition NLMSG_HDRLEN :: nat where "NLMSG_HDRLEN = 16"

definition NLA_ALIGN :: "nat \<Rightarrow> nat" where
  "NLA_ALIGN len = (len + 3) div 4 * 4"

definition rd16 :: "u8 list \<Rightarrow> nat \<Rightarrow> fault + u16" where
  "rd16 buf pos = (case read_le 2 pos buf of None \<Rightarrow> Inl Out_Of_Bounds | Some w \<Rightarrow> Inr w)"

definition rd32 :: "u8 list \<Rightarrow> nat \<Rightarrow> fault + u32" where
  "rd32 buf pos = (case read_le 4 pos buf of None \<Rightarrow> Inl Out_Of_Bounds | Some w \<Rightarrow> Inr w)"

definition nla_len :: "u8 list \<Rightarrow> nat \<Rightarrow> fault + nat" where
  "nla_len buf pos = bindR (rd16 buf pos) (\<lambda>w. Inr (unat w))"

definition nla_type :: "u8 list \<Rightarrow> nat \<Rightarrow> fault + nat" where
  "nla_type buf pos = bindR (rd16 buf (pos + 2)) (\<lambda>w. Inr (unat (w AND 0x3FFF)))"

text \<open>
  \<open>remaining >= sizeof(*nla)\<close> compares an \<open>int\<close> with a \<open>size_t\<close>: a negative number of remaining bytes
  converts to a huge one, so that the length of the attribute is read.
\<close>

definition nla_ok :: "u8 list \<Rightarrow> nat \<Rightarrow> int \<Rightarrow> fault + bool" where
  "nla_ok buf pos remaining =
     (if remaining < 0 \<or> 4 \<le> remaining
      then bindR (nla_len buf pos) (\<lambda>l. Inr (4 \<le> l \<and> int l \<le> remaining))
      else Inr False)"

section \<open>Validation\<close>

definition LIBBPF_NLA_UNSPEC :: nat where "LIBBPF_NLA_UNSPEC = 0"
definition LIBBPF_NLA_STRING :: nat where "LIBBPF_NLA_STRING = 5"
definition LIBBPF_NLA_TYPE_MAX :: nat where "LIBBPF_NLA_TYPE_MAX = 8"

definition nla_attr_minlen :: "nat list" where
  "nla_attr_minlen = [0, 1, 2, 4, 8, 1, 0, 0, 0]"

record nla_policy =
  np_type :: nat
  np_minlen :: nat
  np_maxlen :: nat

definition libbpf_nla_len :: "nat \<Rightarrow> int" where
  "libbpf_nla_len l = int l - int NLA_HDRLEN"

definition policy_minlen :: "nla_policy \<Rightarrow> nat" where
  "policy_minlen pt = (if np_minlen pt \<noteq> 0 then np_minlen pt
     else if np_type pt \<noteq> LIBBPF_NLA_UNSPEC then nla_attr_minlen ! np_type pt else 0)"

definition validate_nla :: "u8 list \<Rightarrow> nat \<Rightarrow> nat \<Rightarrow> nla_policy list \<Rightarrow> fault + int" where
  "validate_nla buf pos maxtype policy =
     bindR (nla_type buf pos) (\<lambda>type.
       if type > maxtype then Inr 0
       else if type \<ge> length policy then Inl Out_Of_Bounds
       else
         (let pt = policy ! type in
          if np_type pt > LIBBPF_NLA_TYPE_MAX then Inr 0
          else bindR (nla_len buf pos) (\<lambda>l.
            let len = libbpf_nla_len l in
            if len < int (policy_minlen pt) then Inr (- 1)
            else if np_maxlen pt \<noteq> 0 \<and> len > int (np_maxlen pt) then Inr (- 1)
            else if np_type pt = LIBBPF_NLA_STRING then
              (let i = pos + NLA_HDRLEN + nat len - 1 in
               if i < length buf then Inr (if buf ! i \<noteq> 0 then - 1 else 0) else Inl Out_Of_Bounds)
            else Inr 0)))"

section \<open>Parsing\<close>

text \<open>The table \<open>tb\<close> maps a type to the position of the attribute. The loop returns the error and the
  table filled so far.\<close>

function nla_loop ::
  "u8 list \<Rightarrow> nat \<Rightarrow> nla_policy list option \<Rightarrow> nat \<Rightarrow> int \<Rightarrow> (nat \<Rightarrow> nat option) \<Rightarrow> fault + (int \<times> (nat \<Rightarrow> nat option))" where
  "nla_loop buf maxtype policy pos rem tb =
     (case nla_ok buf pos rem of Inl f \<Rightarrow> Inl f
      | Inr False \<Rightarrow> Inr (0, tb)
      | Inr True \<Rightarrow>
         bindR (nla_len buf pos) (\<lambda>l. bindR (nla_type buf pos) (\<lambda>type.
           let pos' = pos + NLA_ALIGN l; rem' = rem - int (NLA_ALIGN l) in
           if type > maxtype then nla_loop buf maxtype policy pos' rem' tb
           else bindR (case policy of None \<Rightarrow> Inr 0 | Some p \<Rightarrow> validate_nla buf pos maxtype p) (\<lambda>err.
             if err < 0 then Inr (err, tb)
             else nla_loop buf maxtype policy pos' rem' (tb(type \<mapsto> pos))))))"
  by pat_completeness auto

termination
  by (relation "measure (\<lambda>(buf, maxtype, policy, pos, rem, tb). nat rem)")
    (auto simp: nla_ok_def NLA_ALIGN_def split: if_splits)

declare nla_loop.simps [simp del]

definition libbpf_nla_parse ::
  "u8 list \<Rightarrow> nat \<Rightarrow> nat \<Rightarrow> int \<Rightarrow> nla_policy list option \<Rightarrow> fault + (int \<times> (nat \<Rightarrow> nat option))" where
  "libbpf_nla_parse buf maxtype head len policy = nla_loop buf maxtype policy head len Map.empty"

definition libbpf_nla_parse_nested ::
  "u8 list \<Rightarrow> nat \<Rightarrow> nat \<Rightarrow> nla_policy list option \<Rightarrow> fault + (int \<times> (nat \<Rightarrow> nat option))" where
  "libbpf_nla_parse_nested buf maxtype nla policy =
     bindR (nla_len buf nla) (\<lambda>l. libbpf_nla_parse buf maxtype (nla + NLA_HDRLEN) (libbpf_nla_len l) policy)"

section \<open>The extended acknowledgement\<close>

definition NLM_F_CAPPED :: u16 where "NLM_F_CAPPED = 0x100"
definition NLM_F_ACK_TLVS :: u16 where "NLM_F_ACK_TLVS = 0x200"
definition NLMSGERR_ATTR_MAX :: nat where "NLMSGERR_ATTR_MAX = 3"

definition extack_policy :: "nla_policy list" where
  "extack_policy = (let none = \<lparr>np_type = 0, np_minlen = 0, np_maxlen = 0\<rparr>
     in [none, none\<lparr>np_type := LIBBPF_NLA_STRING\<rparr>, none\<lparr>np_type := 3\<rparr>, none])"

text \<open>
  Position and length of the attributes behind the error: \<open>struct nlmsghdr\<close> has the length at offset 0
  and the flags at offset 6; \<open>struct nlmsgerr\<close> is an \<open>int\<close> followed by the header of the original message.
  The result is \<open>None\<close> without attributes, else the message text found (\<open>None\<close>: a null pointer is printed).
\<close>

definition extack_attrs :: "u8 list \<Rightarrow> nat \<Rightarrow> fault + (nat \<times> int) option" where
  "extack_attrs buf nlh =
     bindR (rd16 buf (nlh + 6)) (\<lambda>flags.
       if flags AND NLM_F_ACK_TLVS = 0 then Inr None
       else
         (let err = nlh + NLMSG_HDRLEN; hlen = 20 in
          bindR (if flags AND NLM_F_CAPPED = 0
                 then bindR (rd32 buf (err + 4)) (\<lambda>l. Inr (hlen + (uint l - int NLMSG_HDRLEN))) else Inr hlen) (\<lambda>hlen.
            bindR (rd32 buf nlh) (\<lambda>nlmsg_len.
              if int err + hlen < 0 then Inl Out_Of_Bounds
              else Inr (Some (nat (int err + hlen), uint nlmsg_len - hlen))))))"

definition libbpf_nla_dump_errormsg :: "u8 list \<Rightarrow> nat \<Rightarrow> fault + nat option option" where
  "libbpf_nla_dump_errormsg buf nlh =
     bindR (extack_attrs buf nlh) (\<lambda>a. case a of None \<Rightarrow> Inr None
       | Some (attr, alen) \<Rightarrow>
           bindR (libbpf_nla_parse buf NLMSGERR_ATTR_MAX attr alen (Some extack_policy)) (\<lambda>(err, tb).
             if err \<noteq> 0 then Inr None
             else Inr (Some (map_option (\<lambda>p. p + NLA_HDRLEN) (tb 1)))))"

section \<open>Building a request\<close>

text \<open>\<open>struct libbpf_nla_req\<close>: 16 bytes of message header, 20 of the union, 128 of buffer; \<open>nlmsg_len\<close> is
  kept apart.\<close>

record nla_req =
  rq_nlmsg_len :: nat
  rq_bytes :: "u8 list"

definition sizeof_nla_req :: nat where "sizeof_nla_req = 164"

definition req_tail :: "nla_req \<Rightarrow> nat" where
  "req_tail req = NLA_ALIGN (rq_nlmsg_len req)"

definition put_bytes :: "nat \<Rightarrow> u8 list \<Rightarrow> u8 list \<Rightarrow> fault + u8 list" where
  "put_bytes pos xs buf = (case write_bytes pos xs buf of None \<Rightarrow> Inl Out_Of_Bounds | Some b \<Rightarrow> Inr b)"

definition nlattr_add :: "nla_req \<Rightarrow> u16 \<Rightarrow> u8 list option \<Rightarrow> nat \<Rightarrow> fault + (int \<times> nla_req)" where
  "nlattr_add req type data len =
     (if req_tail req + NLA_ALIGN (NLA_HDRLEN + len) > sizeof_nla_req then Inr (- EMSGSIZE, req)
      else if (data \<noteq> None) \<noteq> (len \<noteq> 0) then Inr (- EINVAL, req)
      else
       (let nla = req_tail req; l = NLA_HDRLEN + len in
        bindR (put_bytes (nla + 2) (to_le 2 type) (rq_bytes req)) (\<lambda>b.
        bindR (put_bytes nla (to_le 2 (of_nat l :: u16)) b) (\<lambda>b.
        bindR (case data of None \<Rightarrow> Inr b
               | Some d \<Rightarrow> if len \<le> length d then put_bytes (nla + NLA_HDRLEN) (take len d) b else Inl Out_Of_Bounds) (\<lambda>b.
          Inr (0, req\<lparr>rq_nlmsg_len := nla + NLA_ALIGN l, rq_bytes := b\<rparr>))))))"

definition NLA_F_NESTED :: u16 where "NLA_F_NESTED = 0x8000"

definition nlattr_begin_nested :: "nla_req \<Rightarrow> u16 \<Rightarrow> fault + (nat option \<times> nla_req)" where
  "nlattr_begin_nested req type =
     bindR (nlattr_add req (type OR NLA_F_NESTED) None 0) (\<lambda>(err, req').
       Inr (if err \<noteq> 0 then None else Some (req_tail req), req'))"

definition nlattr_end_nested :: "nla_req \<Rightarrow> nat \<Rightarrow> fault + nla_req" where
  "nlattr_end_nested req tail =
     bindR (put_bytes tail (to_le 2 (of_nat (req_tail req - tail) :: u16)) (rq_bytes req)) (\<lambda>b. Inr (req\<lparr>rq_bytes := b\<rparr>))"

section \<open>What a stream of attributes means\<close>

type_synonym attr = "u16 \<times> u8 list"

definition attr_size :: "attr \<Rightarrow> nat" where
  "attr_size a = NLA_ALIGN (NLA_HDRLEN + length (snd a))"

definition attr_at :: "u8 list \<Rightarrow> nat \<Rightarrow> attr \<Rightarrow> bool" where
  "attr_at buf pos a \<longleftrightarrow> NLA_HDRLEN + length (snd a) < 2 ^ 16 \<and> pos + attr_size a \<le> length buf \<and>
     read_le 2 pos buf = Some (of_nat (NLA_HDRLEN + length (snd a)) :: u16) \<and>
     read_le 2 (pos + 2) buf = Some (fst a) \<and> take (length (snd a)) (drop (pos + NLA_HDRLEN) buf) = snd a"

fun attrs_at :: "u8 list \<Rightarrow> nat \<Rightarrow> attr list \<Rightarrow> bool" where
  "attrs_at buf pos [] = True"
| "attrs_at buf pos (a # as) \<longleftrightarrow> attr_at buf pos a \<and> attrs_at buf (pos + attr_size a) as"

definition attrs_size :: "attr list \<Rightarrow> nat" where
  "attrs_size as = sum_list (map attr_size as)"

text \<open>The index that a stream denotes: the last attribute of each type up to \<open>maxtype\<close>.\<close>

definition attr_type :: "attr \<Rightarrow> nat" where
  "attr_type a = unat (fst a AND 0x3FFF)"

fun attrs_index :: "nat \<Rightarrow> nat \<Rightarrow> attr list \<Rightarrow> (nat \<Rightarrow> nat option) \<Rightarrow> nat \<Rightarrow> nat option" where
  "attrs_index maxtype pos [] tb = tb"
| "attrs_index maxtype pos (a # as) tb =
     attrs_index maxtype (pos + attr_size a) as (if attr_type a > maxtype then tb else tb(attr_type a \<mapsto> pos))"

section \<open>Lemmas\<close>

lemma NLA_ALIGN_bounds: "len \<le> NLA_ALIGN len" "NLA_ALIGN len < len + 4" "4 dvd NLA_ALIGN len"
  by (simp_all add: NLA_ALIGN_def)

lemma NLA_ALIGN_dvd: "4 dvd n \<Longrightarrow> NLA_ALIGN n = n"
  by (auto simp: NLA_ALIGN_def elim!: dvdE)

lemma NLA_ALIGN_le: "l \<le> n \<Longrightarrow> 4 dvd n \<Longrightarrow> NLA_ALIGN l \<le> n"
  using NLA_ALIGN_dvd [of n] div_le_mono [of "l + 3" "n + 3" 4] by (simp add: NLA_ALIGN_def)

lemma unat_of_nat16: "n < 65536 \<Longrightarrow> unat (of_nat n :: u16) = n"
  by (simp add: unsigned_of_nat take_bit_nat_eq_self)

lemma attr_at_reads:
  assumes "attr_at buf pos a"
  shows "nla_len buf pos = Inr (NLA_HDRLEN + length (snd a))" "nla_type buf pos = Inr (attr_type a)"
  using assms by (simp_all add: attr_at_def nla_len_def nla_type_def rd16_def attr_type_def unat_of_nat16 del: of_nat_add)

lemma nla_loop_attrs:
  assumes "attrs_at buf pos as"
  shows "nla_loop buf maxtype None pos (int (attrs_size as)) tb = Inr (0, attrs_index maxtype pos as tb)"
  using assms
proof (induction as arbitrary: pos tb)
  case Nil
  then show ?case by (subst nla_loop.simps) (simp add: nla_ok_def attrs_size_def)
next
  case (Cons a as)
  have a: "attr_at buf pos a" "attrs_at buf (pos + attr_size a) as" using Cons.prems by auto
  note r = attr_at_reads [OF a(1)]
  have sz: "NLA_HDRLEN + length (snd a) \<le> attr_size a" "4 \<le> attr_size a"
    using NLA_ALIGN_bounds(1) [of "NLA_HDRLEN + length (snd a)"] by (auto simp: attr_size_def NLA_HDRLEN_def)
  have ok: "nla_ok buf pos (int (attrs_size (a # as))) = Inr True"
    using r(1) sz by (simp add: nla_ok_def attrs_size_def NLA_HDRLEN_def)
  have rem: "int (attrs_size (a # as)) - int (NLA_ALIGN (NLA_HDRLEN + length (snd a))) = int (attrs_size as)"
    by (simp add: attrs_size_def attr_size_def)
  show ?case
    using Cons.IH [OF a(2)] by (subst nla_loop.simps) (simp add: ok r rem Let_def attr_size_def del: fun_upd_apply)
qed

lemma rd_in: "pos + 2 \<le> length buf \<Longrightarrow> \<exists>w. rd16 buf pos = Inr w"
  by (simp add: rd16_def read_le_def)

lemma nla_ok_in:
  assumes "0 \<le> rem" "int pos + rem \<le> int (length buf)"
  shows "\<exists>b. nla_ok buf pos rem = Inr b \<and>
    (b \<longrightarrow> (\<exists>l t. nla_len buf pos = Inr l \<and> nla_type buf pos = Inr t \<and> 4 \<le> l \<and> int l \<le> rem))"
proof (cases "4 \<le> rem")
  case True
  then have "pos + 2 \<le> length buf" "pos + 2 + 2 \<le> length buf" using assms by linarith+
  then show ?thesis using True rd_in [of pos buf] rd_in [of "pos + 2" buf]
    by (auto simp: nla_ok_def nla_len_def nla_type_def)
next
  case False
  then show ?thesis using assms by (intro exI [of _ False]) (simp add: nla_ok_def)
qed

lemma validate_in:
  assumes "nla_type buf pos = Inr t" "nla_len buf pos = Inr l" "4 \<le> l" "pos + l \<le> length buf" "maxtype < length policy"
  shows "\<exists>v. validate_nla buf pos maxtype policy = Inr v"
proof -
  have min: "0 < policy_minlen pt" if "np_type pt = LIBBPF_NLA_STRING" for pt
    using that by (simp add: policy_minlen_def LIBBPF_NLA_STRING_def LIBBPF_NLA_UNSPEC_def nla_attr_minlen_def)
  have i: "pos + NLA_HDRLEN + nat (libbpf_nla_len l) - 1 < length buf" if "\<not> libbpf_nla_len l < int (policy_minlen pt)" "np_type pt = LIBBPF_NLA_STRING" for pt
    using that min [of pt] assms(3,4) by (auto simp: libbpf_nla_len_def NLA_HDRLEN_def)
  show ?thesis using assms i by (auto simp: validate_nla_def Let_def)
qed

text \<open>A stream whose length is a multiple of 4 and that lies in the buffer is parsed without a stray read.\<close>

lemma nla_loop_total:
  assumes "4 dvd rem" "0 \<le> rem" "int pos + rem \<le> int (length buf)" "\<forall>p. policy = Some p \<longrightarrow> maxtype < length p"
  shows "\<exists>r. nla_loop buf maxtype policy pos rem tb = Inr r"
  using assms
proof (induction buf maxtype policy pos rem tb rule: nla_loop.induct)
  case (1 buf maxtype policy pos rem tb)
  obtain b where b: "nla_ok buf pos rem = Inr b"
    "b \<longrightarrow> (\<exists>l t. nla_len buf pos = Inr l \<and> nla_type buf pos = Inr t \<and> 4 \<le> l \<and> int l \<le> rem)"
    using nla_ok_in [OF "1.prems"(2,3)] by blast
  show ?case
  proof (cases b)
    case False
    then show ?thesis using b(1) by (subst nla_loop.simps) simp
  next
    case True
    then obtain l t where lt: "nla_len buf pos = Inr l" "nla_type buf pos = Inr t" "4 \<le> l" "int l \<le> rem" using b(2) by auto
    have "int 4 dvd int (nat rem)" using "1.prems"(1,2) by simp
    then have "4 dvd nat rem" by (simp only: int_dvd_int_iff)
    moreover have "l \<le> nat rem" using lt(4) by (simp add: le_nat_iff)
    ultimately have al: "int (NLA_ALIGN l) \<le> rem" using NLA_ALIGN_le [of l "nat rem"] "1.prems"(2) by simp
    have dv: "4 dvd rem - int (NLA_ALIGN l)" 
      using "1.prems"(1) NLA_ALIGN_bounds(3) [of l, folded int_dvd_int_iff] by simp
    have in': "int (pos + NLA_ALIGN l) + (rem - int (NLA_ALIGN l)) \<le> int (length buf)" using "1.prems"(3) by simp
    obtain v where v: "(case policy of None \<Rightarrow> Inr 0 | Some p \<Rightarrow> validate_nla buf pos maxtype p) = Inr v"
      using validate_in [OF lt(2,1,3)] "1.prems"(3,4) lt(4) by (cases policy) force+
    note ih1 = "1.IH"(1) [OF b(1) [unfolded True] _ lt(1,2) refl refl _ dv _ in' "1.prems"(4)]
    note ih2 = "1.IH"(2) [OF b(1) [unfolded True] _ lt(1,2) refl refl _ v _ dv _ in' "1.prems"(4)]
    show ?thesis using al ih1 ih2 v lt b(1) True by (subst nla_loop.simps) (auto simp: Let_def simp del: fun_upd_apply)
  qed
qed

lemma sub_agree:
  assumes "take m buf' = take m buf" "off + n \<le> m"
  shows "take n (drop off buf') = take n (drop off buf)"
proof -
  have "take n (drop off b) = take n (drop off (take m b))" for b :: "'a list"
    using assms(2) by (simp add: drop_take min_def)
  then show ?thesis using assms(1) by metis
qed

lemma read_le_agree:
  assumes "take m buf' = take m buf" "length buf' = length buf" "off + n \<le> m"
  shows "read_le n off buf' = read_le n off buf"
  using sub_agree [OF assms(1,3)] assms(2) by (simp add: read_le_def)

lemma attr_at_agree:
  assumes "attr_at buf pos a" "take m buf' = take m buf" "length buf' = length buf" "pos + attr_size a \<le> m"
  shows "attr_at buf' pos a"
proof -
  have "NLA_HDRLEN + length (snd a) \<le> attr_size a" using NLA_ALIGN_bounds(1) by (simp add: attr_size_def)
  then have "pos + 2 \<le> m" "pos + 2 + 2 \<le> m" "pos + NLA_HDRLEN + length (snd a) \<le> m"
    using assms(4) by (auto simp: NLA_HDRLEN_def)
  then have "(read_le 2 pos buf' :: u16 option) = read_le 2 pos buf" "(read_le 2 (pos + 2) buf' :: u16 option) = read_le 2 (pos + 2) buf"
    "take (length (snd a)) (drop (pos + NLA_HDRLEN) buf') = take (length (snd a)) (drop (pos + NLA_HDRLEN) buf)"
    using read_le_agree [OF assms(2,3)] sub_agree [OF assms(2)] by blast+
  then show ?thesis using assms(1,3) unfolding attr_at_def by metis
qed

lemma attrs_at_agree:
  assumes "attrs_at buf pos as" "take m buf' = take m buf" "length buf' = length buf" "pos + attrs_size as \<le> m"
  shows "attrs_at buf' pos as"
  using assms
proof (induction as arbitrary: pos)
  case Nil
  then show ?case by simp
next
  case (Cons a as)
  then show ?case using attr_at_agree [of buf pos a m buf'] by (simp add: attrs_size_def)
qed

lemma attrs_at_append: "attrs_at buf pos (as @ bs) \<longleftrightarrow> attrs_at buf pos as \<and> attrs_at buf (pos + attrs_size as) bs"
  by (induction as arbitrary: pos) (auto simp: attrs_size_def add.assoc)

text \<open>One attribute written at the tail.\<close>

lemma nlattr_add_ok:
  assumes len: "length (rq_bytes req) = sizeof_nla_req" and tail: "4 dvd rq_nlmsg_len req"
    and room: "rq_nlmsg_len req + attr_size (type, d) \<le> sizeof_nla_req"
  shows "\<exists>req'. nlattr_add req type (if d = [] then None else Some d) (length d) = Inr (0, req') \<and>
    length (rq_bytes req') = sizeof_nla_req \<and> rq_nlmsg_len req' = rq_nlmsg_len req + attr_size (type, d) \<and>
    take (rq_nlmsg_len req) (rq_bytes req') = take (rq_nlmsg_len req) (rq_bytes req) \<and>
    attr_at (rq_bytes req') (rq_nlmsg_len req) (type, d)"
proof -
  let ?p = "rq_nlmsg_len req" and ?b = "rq_bytes req" and ?l = "NLA_HDRLEN + length d"
  have t: "req_tail req = ?p" using tail by (simp add: req_tail_def NLA_ALIGN_dvd)
  have sz: "attr_size (type, d) = NLA_ALIGN ?l" "?l \<le> NLA_ALIGN ?l" using NLA_ALIGN_bounds(1) by (auto simp: attr_size_def)
  then have in': "?p + 4 + length d \<le> length ?b" using room len by (simp add: NLA_HDRLEN_def)
  define hdr where "hdr = to_le 2 (of_nat ?l :: u16) @ to_le 2 type"
  define b3 where "b3 = take ?p ?b @ hdr @ d @ drop (?p + 4 + length d) ?b"
  have hl: "length hdr = 4" by (simp add: hdr_def)
  have b1: "put_bytes (?p + 2) (to_le 2 type) ?b = Inr (take (?p + 2) ?b @ to_le 2 type @ drop (?p + 4) ?b)"
    using in' by (simp add: put_bytes_def write_bytes_def add.commute [of _ 4] del: add_2_eq_Suc add_2_eq_Suc')
  have b2: "put_bytes ?p (to_le 2 (of_nat ?l :: u16)) (take (?p + 2) ?b @ to_le 2 type @ drop (?p + 4) ?b) =
      Inr (take ?p ?b @ hdr @ drop (?p + 4) ?b)"
    using in' by (simp add: put_bytes_def write_bytes_def hdr_def min_def del: of_nat_add)
  have b3: "put_bytes (?p + NLA_HDRLEN) d (take ?p ?b @ hdr @ drop (?p + 4) ?b) = Inr b3"
    using in' hl by (simp add: put_bytes_def write_bytes_def b3_def NLA_HDRLEN_def min_def add.commute)
  have b3': "take ?p ?b @ hdr @ drop (?p + 4) ?b = b3" if "d = []" using that by (simp add: b3_def)
  have run: "nlattr_add req type (if d = [] then None else Some d) (length d) =
      Inr (0, req\<lparr>rq_nlmsg_len := ?p + NLA_ALIGN ?l, rq_bytes := b3\<rparr>)"
    using room b1 b2 b3 b3' by (auto simp: nlattr_add_def t sz Let_def simp del: of_nat_add)
  have small: "?l < 2 ^ 16" using room sz by (simp add: sizeof_nla_req_def)
  have r1: "read_le 2 ?p b3 = Some (of_nat ?l :: u16)"
    using in' by (simp add: b3_def hdr_def del: of_nat_add)
  have r2: "read_le 2 (?p + 2) b3 = Some type"
    using in' by (simp add: b3_def hdr_def del: of_nat_add)
  have "attr_at b3 ?p (type, d)"
    using in' small r1 r2 room hl len by (simp add: attr_at_def b3_def NLA_HDRLEN_def sz)
  then show ?thesis using run in' hl len by (simp add: b3_def sz)
qed

text \<open>Adding a list of attributes one after the other.\<close>

primrec nlattr_add_all :: "attr list \<Rightarrow> nla_req \<Rightarrow> fault + (int \<times> nla_req)" where
  "nlattr_add_all [] req = Inr (0, req)"
| "nlattr_add_all (a # as) req =
     bindR (nlattr_add req (fst a) (if snd a = [] then None else Some (snd a)) (length (snd a))) (\<lambda>(err, req).
       if err \<noteq> 0 then Inr (err, req) else nlattr_add_all as req)"

lemma attrs_size_simps [simp]: "attrs_size [] = 0" "attrs_size (a # as) = attr_size a + attrs_size as"
  by (simp_all add: attrs_size_def)

lemma nlattr_add_all_ok:
  assumes "length (rq_bytes req) = sizeof_nla_req" "4 dvd rq_nlmsg_len req"
    and "rq_nlmsg_len req + attrs_size as \<le> sizeof_nla_req"
  shows "\<exists>req'. nlattr_add_all as req = Inr (0, req') \<and> length (rq_bytes req') = sizeof_nla_req \<and>
    rq_nlmsg_len req' = rq_nlmsg_len req + attrs_size as \<and>
    take (rq_nlmsg_len req) (rq_bytes req') = take (rq_nlmsg_len req) (rq_bytes req) \<and>
    attrs_at (rq_bytes req') (rq_nlmsg_len req) as"
  using assms
proof (induction as arbitrary: req)
  case Nil
  then show ?case by simp
next
  case (Cons a as)
  let ?p = "rq_nlmsg_len req"
  have "?p + attr_size (fst a, snd a) \<le> sizeof_nla_req" using Cons.prems(3) by simp
  from nlattr_add_ok [OF Cons.prems(1,2) this]
  obtain r1 where r1: "nlattr_add req (fst a) (if snd a = [] then None else Some (snd a)) (length (snd a)) = Inr (0, r1)"
    "length (rq_bytes r1) = sizeof_nla_req" "rq_nlmsg_len r1 = ?p + attr_size a"
    "take ?p (rq_bytes r1) = take ?p (rq_bytes req)" "attr_at (rq_bytes r1) ?p a" by auto
  have "4 dvd rq_nlmsg_len r1" using r1(3) Cons.prems(2) NLA_ALIGN_bounds(3) by (simp add: attr_size_def)
  from Cons.IH [OF r1(2) this] r1(3) Cons.prems(3)
  obtain r2 where r2: "nlattr_add_all as r1 = Inr (0, r2)" "length (rq_bytes r2) = sizeof_nla_req"
    "rq_nlmsg_len r2 = ?p + attr_size a + attrs_size as"
    "take (?p + attr_size a) (rq_bytes r2) = take (?p + attr_size a) (rq_bytes r1)"
    "attrs_at (rq_bytes r2) (?p + attr_size a) as" by auto
  have "take ?p (rq_bytes r2) = take ?p (rq_bytes r1)"
    using arg_cong [OF r2(4), of "take ?p"] by (simp add: min_def split: if_splits)
  moreover have "attr_at (rq_bytes r2) ?p a"
    using attr_at_agree [OF r1(5) r2(4)] r1(2) r2(2) by simp
  ultimately show ?case using r1 r2 by (simp add: add.assoc)
qed

text \<open>A request with an empty buffer.\<close>

definition demo_req :: nla_req where
  "demo_req = \<lparr>rq_nlmsg_len = 36, rq_bytes = replicate 164 0\<rparr>"

section \<open>Properties\<close>

text \<open>
  C15. Round trip. Attributes that fit into a request are added without error and without touching what
  is before them, and parsing the bytes they occupy yields the index that maps each type to its last
  attribute.
\<close>

theorem nlattr_add_parse_round_trip:
  assumes "length (rq_bytes req) = sizeof_nla_req" and "4 dvd rq_nlmsg_len req"
    and "rq_nlmsg_len req + attrs_size as \<le> sizeof_nla_req"
  shows "\<exists>req'. nlattr_add_all as req = Inr (0, req') \<and>
    take (rq_nlmsg_len req) (rq_bytes req') = take (rq_nlmsg_len req) (rq_bytes req) \<and>
    attrs_at (rq_bytes req') (rq_nlmsg_len req) as \<and>
    libbpf_nla_parse (rq_bytes req') maxtype (rq_nlmsg_len req) (int (rq_nlmsg_len req') - int (rq_nlmsg_len req)) None =
      Inr (0, attrs_index maxtype (rq_nlmsg_len req) as Map.empty)"
  using nlattr_add_all_ok [OF assms] by (auto simp: libbpf_nla_parse_def nla_loop_attrs)

theorem nlattr_add_parse_round_trip_witness:
  "\<exists>req'. nlattr_add_all [(1, [7]), (2, [])] demo_req = Inr (0, req') \<and>
    libbpf_nla_parse (rq_bytes req') 3 36 (int (rq_nlmsg_len req') - 36) None =
      Inr (0, attrs_index 3 36 [(1, [7]), (2, [])] Map.empty)"
proof -
  have d: "rq_nlmsg_len demo_req = 36" "int 36 = (36 :: int)" by (simp_all add: demo_req_def)
  have "length (rq_bytes demo_req) = sizeof_nla_req" "4 dvd rq_nlmsg_len demo_req"
    "rq_nlmsg_len demo_req + attrs_size [(1, [7]), (2, [])] \<le> sizeof_nla_req"
    by (simp_all add: demo_req_def sizeof_nla_req_def attr_size_def NLA_ALIGN_def NLA_HDRLEN_def)
  from nlattr_add_parse_round_trip [OF this, of 3] show ?thesis unfolding d by blast
qed

text \<open>
  Memory safety of the parser. A stream that lies in the buffer and whose length is a multiple of
  4 is parsed to the end or to the first invalid attribute without a read outside the buffer,
  whatever its bytes are, if the policy has an entry for every accepted type.
\<close>

theorem nla_parse_stays_in_buffer:
  assumes "4 dvd len" and "0 \<le> len" and "int head + len \<le> int (length buf)"
    and "\<forall>p. policy = Some p \<longrightarrow> maxtype < length p"
  shows "\<exists>err tb. libbpf_nla_parse buf maxtype head len policy = Inr (err, tb)"
  using nla_loop_total [OF assms, of Map.empty] by (auto simp: libbpf_nla_parse_def)

theorem nla_parse_stays_in_buffer_witness:
  "\<exists>err tb. libbpf_nla_parse [255, 255, 0, 0] 3 0 4 (Some extack_policy) = Inr (err, tb)"
  by (rule nla_parse_stays_in_buffer) (simp_all add: extack_policy_def Let_def)

text \<open>
  The unsigned comparison of \<open>nla_ok\<close>. A stream that ends with an attribute that is not padded
  makes the loop read a length behind the end of the buffer: the number of remaining bytes is
  negative then, and passes the test.
\<close>

theorem nla_parse_reads_past_unpadded_end:
  "libbpf_nla_parse [5, 0, 1, 0, 42] 3 0 5 None = Inl Out_Of_Bounds"
  unfolding libbpf_nla_parse_def
  by (subst nla_loop.simps, simp add: nla_ok_def nla_len_def nla_type_def rd16_def read_le_def NLA_ALIGN_def Let_def)
    (subst nla_loop.simps, simp add: nla_ok_def nla_len_def nla_type_def rd16_def read_le_def NLA_ALIGN_def Let_def)

end
