(* ===== verification/Mem.thy ===== *)
theory Mem
  imports Errno
begin

text \<open>
  Growing memory areas, \<open>libbpf_add_mem\<close> and \<open>libbpf_ensure_mem\<close> of \<open>libbpf/src/btf.c\<close>, and C strings
  inside a memory area. An area is the list of its bytes; its capacity counts elements.
\<close>

record mem_area =
  ma_data :: "u8 list"
  ma_cap :: nat

definition area_ok :: "nat \<Rightarrow> mem_area \<Rightarrow> bool" where
  "area_ok elem_sz a \<longleftrightarrow> length (ma_data a) = ma_cap a * elem_sz"

text \<open>The result is the offset of the unused memory, or \<open>None\<close> for the null pointer. \<open>realloc_ok\<close> is the
  answer of \<open>libbpf_reallocarray\<close>; the new part is zeroed by the caller.\<close>

definition add_mem_new_cnt :: "nat \<Rightarrow> nat \<Rightarrow> nat \<Rightarrow> nat \<Rightarrow> nat" where
  "add_mem_new_cnt cap cur_cnt max_cnt add_cnt =
     (let new_cnt = cap + cap div 4;
          new_cnt = (if new_cnt < 16 then 16 else new_cnt);
          new_cnt = (if new_cnt > max_cnt then max_cnt else new_cnt)
      in if new_cnt < cur_cnt + add_cnt then cur_cnt + add_cnt else new_cnt)"

definition libbpf_add_mem :: "bool \<Rightarrow> nat \<Rightarrow> nat \<Rightarrow> nat \<Rightarrow> nat \<Rightarrow> mem_area \<Rightarrow> nat option \<times> mem_area" where
  "libbpf_add_mem realloc_ok elem_sz cur_cnt max_cnt add_cnt a =
     (if cur_cnt + add_cnt \<le> ma_cap a then (Some (cur_cnt * elem_sz), a)
      else if cur_cnt + add_cnt > max_cnt then (None, a)
      else
        (let new_cnt = add_mem_new_cnt (ma_cap a) cur_cnt max_cnt add_cnt in
         if \<not> realloc_ok then (None, a)
         else (Some (cur_cnt * elem_sz),
               a\<lparr>ma_data := ma_data a @ replicate ((new_cnt - ma_cap a) * elem_sz) 0, ma_cap := new_cnt\<rparr>)))"

definition SIZE_MAX :: nat where "SIZE_MAX = 2 ^ 64 - 1"

definition libbpf_ensure_mem :: "bool \<Rightarrow> nat \<Rightarrow> nat \<Rightarrow> mem_area \<Rightarrow> int \<times> mem_area" where
  "libbpf_ensure_mem realloc_ok elem_sz need_cnt a =
     (if need_cnt \<le> ma_cap a then (0, a)
      else case libbpf_add_mem realloc_ok elem_sz (ma_cap a) SIZE_MAX (need_cnt - ma_cap a) a of
        (None, a) \<Rightarrow> (- ENOMEM, a) | (Some _, a) \<Rightarrow> (0, a))"

text \<open>\<open>memcpy\<close> into an area.\<close>

definition area_write :: "nat \<Rightarrow> u8 list \<Rightarrow> mem_area \<Rightarrow> mem_area" where
  "area_write off bs a = a\<lparr>ma_data := take off (ma_data a) @ bs @ drop (off + length bs) (ma_data a)\<rparr>"

text \<open>The C string at an offset; it lies inside the area when a terminator follows.\<close>

definition cstr :: "u8 list \<Rightarrow> nat \<Rightarrow> u8 list" where
  "cstr bs off = takeWhile (\<lambda>b. b \<noteq> 0) (drop off bs)"

definition cstr_ok :: "u8 list \<Rightarrow> nat \<Rightarrow> bool" where
  "cstr_ok bs off \<longleftrightarrow> 0 \<in> set (drop off bs)"

section \<open>Lemmas\<close>

lemma new_cnt_bounds:
  assumes "cur_cnt + add_cnt \<le> max_cnt" "cap < cur_cnt + add_cnt"
  shows "cur_cnt + add_cnt \<le> add_mem_new_cnt cap cur_cnt max_cnt add_cnt"
    and "add_mem_new_cnt cap cur_cnt max_cnt add_cnt \<le> max_cnt" and "cap \<le> add_mem_new_cnt cap cur_cnt max_cnt add_cnt"
  using assms by (auto simp: add_mem_new_cnt_def Let_def)

lemma add_mem_cases:
  assumes ok: "area_ok sz a" and add: "libbpf_add_mem realloc_ok sz cur max_cnt n a = (p, a')"
  shows "area_ok sz a' \<and> ma_cap a \<le> ma_cap a' \<and> (\<exists>z. ma_data a' = ma_data a @ replicate z 0) \<and>
    (p = None \<and> a' = a \<or> p = Some (cur * sz) \<and> cur + n \<le> ma_cap a' \<and> (ma_cap a' \<le> max_cnt \<or> a' = a))"
proof (cases "cur + n \<le> ma_cap a")
  case True
  then show ?thesis using assms by (auto simp: libbpf_add_mem_def intro: exI [of _ 0])
next
  case False
  show ?thesis
  proof (cases "cur + n \<le> max_cnt \<and> realloc_ok")
    case False
    then show ?thesis using assms \<open>\<not> cur + n \<le> ma_cap a\<close>
      by (auto simp: libbpf_add_mem_def Let_def intro: exI [of _ 0] split: if_splits)
  next
    case True
    then have b: "cur + n \<le> max_cnt" "ma_cap a < cur + n" using False by simp_all
    note nb = new_cnt_bounds [OF b]
    have "ma_cap a * sz + (add_mem_new_cnt (ma_cap a) cur max_cnt n - ma_cap a) * sz =
        add_mem_new_cnt (ma_cap a) cur max_cnt n * sz"
      using nb(3) by (simp add: diff_mult_distrib)
    then show ?thesis using assms True False nb by (auto simp: libbpf_add_mem_def Let_def area_ok_def)
  qed
qed

lemma cstr_prefix:
  assumes "0 \<in> set (drop off (take n bs))"
  shows "cstr bs off = cstr (take n bs) off"
proof -
  have "drop off bs = drop off (take n bs) @ drop (off - length (take n bs)) (drop n bs)"
    using drop_append [of off "take n bs" "drop n bs"] by (simp only: append_take_drop_id)
  moreover have "takeWhile (\<lambda>b. b \<noteq> 0) (drop off (take n bs) @ ys) = takeWhile (\<lambda>b. b \<noteq> 0) (drop off (take n bs))" for ys
    using assms by (rule takeWhile_append1) simp
  ultimately show ?thesis by (simp only: cstr_def)
qed

lemma cstr_agree:
  assumes "cstr_ok (take n bs) off" "take n bs' = take n bs"
  shows "cstr bs' off = cstr bs off"
  using assms cstr_prefix [of off n bs] cstr_prefix [of off n bs'] by (simp add: cstr_ok_def)

lemma takeWhile_nonzero: "0 \<notin> set s \<Longrightarrow> takeWhile (\<lambda>b. b \<noteq> 0) (s @ (0 :: u8) # post) = s"
  by (induction s) auto

lemma cstr_written:
  assumes "0 \<notin> set s" "length pre = off"
  shows "cstr (pre @ s @ 0 # post) off = s" "cstr_ok (take (off + length s + 1) (pre @ s @ 0 # post)) off"
  using assms takeWhile_nonzero by (auto simp: cstr_def cstr_ok_def)

end
