(* ===== verification/Btf.thy ===== *)
theory Btf
  imports Bytes Mem
begin

text \<open>
  BTF, the type format (\<open>libbpf/src/btf.c\<close>, \<open>btf.h\<close>): the encoding of types, the table of types of an
  instance and of the instances it is based on, lookup by id and by name, the size, alignment and
  resolution of types. An instance and its chain of base instances (\<open>base_btf\<close>) are a list; its head
  is the instance itself.
\<close>

section \<open>Types\<close>

definition BTF_KIND_UNKN :: nat where "BTF_KIND_UNKN = 0"
definition BTF_KIND_INT :: nat where "BTF_KIND_INT = 1"
definition BTF_KIND_PTR :: nat where "BTF_KIND_PTR = 2"
definition BTF_KIND_ARRAY :: nat where "BTF_KIND_ARRAY = 3"
definition BTF_KIND_STRUCT :: nat where "BTF_KIND_STRUCT = 4"
definition BTF_KIND_UNION :: nat where "BTF_KIND_UNION = 5"
definition BTF_KIND_ENUM :: nat where "BTF_KIND_ENUM = 6"
definition BTF_KIND_FWD :: nat where "BTF_KIND_FWD = 7"
definition BTF_KIND_TYPEDEF :: nat where "BTF_KIND_TYPEDEF = 8"
definition BTF_KIND_VOLATILE :: nat where "BTF_KIND_VOLATILE = 9"
definition BTF_KIND_CONST :: nat where "BTF_KIND_CONST = 10"
definition BTF_KIND_RESTRICT :: nat where "BTF_KIND_RESTRICT = 11"
definition BTF_KIND_FUNC :: nat where "BTF_KIND_FUNC = 12"
definition BTF_KIND_FUNC_PROTO :: nat where "BTF_KIND_FUNC_PROTO = 13"
definition BTF_KIND_VAR :: nat where "BTF_KIND_VAR = 14"
definition BTF_KIND_DATASEC :: nat where "BTF_KIND_DATASEC = 15"
definition BTF_KIND_FLOAT :: nat where "BTF_KIND_FLOAT = 16"
definition BTF_KIND_DECL_TAG :: nat where "BTF_KIND_DECL_TAG = 17"
definition BTF_KIND_TYPE_TAG :: nat where "BTF_KIND_TYPE_TAG = 18"
definition BTF_KIND_ENUM64 :: nat where "BTF_KIND_ENUM64 = 19"

named_theorems btf_kinds

lemmas btf_kind_values [btf_kinds] =
  BTF_KIND_UNKN_def BTF_KIND_INT_def BTF_KIND_PTR_def BTF_KIND_ARRAY_def BTF_KIND_STRUCT_def BTF_KIND_UNION_def
  BTF_KIND_ENUM_def BTF_KIND_FWD_def BTF_KIND_TYPEDEF_def BTF_KIND_VOLATILE_def BTF_KIND_CONST_def
  BTF_KIND_RESTRICT_def BTF_KIND_FUNC_def BTF_KIND_FUNC_PROTO_def BTF_KIND_VAR_def BTF_KIND_DATASEC_def
  BTF_KIND_FLOAT_def BTF_KIND_DECL_TAG_def BTF_KIND_TYPE_TAG_def BTF_KIND_ENUM64_def

text \<open>
  \<open>struct btf_type\<close>: \<open>bt_type\<close> is the union of \<open>size\<close> and \<open>type\<close>; \<open>bt_words\<close> are the 32-bit words that
  follow the structure (members, enumerators, parameters, the array, \<dots>).
\<close>

record btf_type =
  bt_name_off :: u32
  bt_info :: u32
  bt_type :: u32
  bt_words :: "u32 list"

definition btf_kind :: "btf_type \<Rightarrow> nat" where
  "btf_kind t = unat (drop_bit 24 (bt_info t) AND 0x1F)"

definition btf_vlen :: "btf_type \<Rightarrow> nat" where
  "btf_vlen t = unat (bt_info t AND 0xFFFF)"

definition btf_kflag :: "btf_type \<Rightarrow> bool" where
  "btf_kflag t = bit (bt_info t) 31"

definition btf_type_info :: "nat \<Rightarrow> nat \<Rightarrow> bool \<Rightarrow> u32" where
  "btf_type_info kind vlen kflag = push_bit 31 (of_bool kflag) OR push_bit 24 (of_nat kind) OR of_nat vlen"

definition btf_is_int :: "btf_type \<Rightarrow> bool" where "btf_is_int t \<longleftrightarrow> btf_kind t = BTF_KIND_INT"
definition btf_is_ptr :: "btf_type \<Rightarrow> bool" where "btf_is_ptr t \<longleftrightarrow> btf_kind t = BTF_KIND_PTR"
definition btf_is_array :: "btf_type \<Rightarrow> bool" where "btf_is_array t \<longleftrightarrow> btf_kind t = BTF_KIND_ARRAY"
definition btf_is_struct :: "btf_type \<Rightarrow> bool" where "btf_is_struct t \<longleftrightarrow> btf_kind t = BTF_KIND_STRUCT"
definition btf_is_union :: "btf_type \<Rightarrow> bool" where "btf_is_union t \<longleftrightarrow> btf_kind t = BTF_KIND_UNION"
definition btf_is_composite :: "btf_type \<Rightarrow> bool" where
  "btf_is_composite t \<longleftrightarrow> btf_kind t = BTF_KIND_STRUCT \<or> btf_kind t = BTF_KIND_UNION"
definition btf_is_enum :: "btf_type \<Rightarrow> bool" where "btf_is_enum t \<longleftrightarrow> btf_kind t = BTF_KIND_ENUM"
definition btf_is_enum64 :: "btf_type \<Rightarrow> bool" where "btf_is_enum64 t \<longleftrightarrow> btf_kind t = BTF_KIND_ENUM64"
definition btf_is_any_enum :: "btf_type \<Rightarrow> bool" where "btf_is_any_enum t \<longleftrightarrow> btf_is_enum t \<or> btf_is_enum64 t"
definition btf_is_fwd :: "btf_type \<Rightarrow> bool" where "btf_is_fwd t \<longleftrightarrow> btf_kind t = BTF_KIND_FWD"
definition btf_is_typedef :: "btf_type \<Rightarrow> bool" where "btf_is_typedef t \<longleftrightarrow> btf_kind t = BTF_KIND_TYPEDEF"
definition btf_is_mod :: "btf_type \<Rightarrow> bool" where
  "btf_is_mod t \<longleftrightarrow> btf_kind t = BTF_KIND_VOLATILE \<or> btf_kind t = BTF_KIND_CONST \<or> btf_kind t = BTF_KIND_RESTRICT \<or>
     btf_kind t = BTF_KIND_TYPE_TAG"
definition btf_is_func_proto :: "btf_type \<Rightarrow> bool" where "btf_is_func_proto t \<longleftrightarrow> btf_kind t = BTF_KIND_FUNC_PROTO"
definition btf_is_var :: "btf_type \<Rightarrow> bool" where "btf_is_var t \<longleftrightarrow> btf_kind t = BTF_KIND_VAR"
definition btf_is_datasec :: "btf_type \<Rightarrow> bool" where "btf_is_datasec t \<longleftrightarrow> btf_kind t = BTF_KIND_DATASEC"

definition btf_kind_core_compat :: "btf_type \<Rightarrow> btf_type \<Rightarrow> bool" where
  "btf_kind_core_compat t1 t2 \<longleftrightarrow> btf_kind t1 = btf_kind t2 \<or> btf_is_any_enum t1 \<and> btf_is_any_enum t2"

text \<open>The structures that follow a type.\<close>

record btf_member = mb_name_off :: u32  mb_type :: u32  mb_offset :: u32
record btf_param = pm_name_off :: u32  pm_type :: u32
record btf_enum = en_name_off :: u32  en_val :: u32
record btf_enum64 = e64_name_off :: u32  e64_val_lo32 :: u32  e64_val_hi32 :: u32
record btf_array = ar_type :: u32  ar_index_type :: u32  ar_nelems :: u32

definition btf_members :: "btf_type \<Rightarrow> btf_member list" where
  "btf_members t = map (\<lambda>i. \<lparr>mb_name_off = bt_words t ! (3 * i), mb_type = bt_words t ! (3 * i + 1),
     mb_offset = bt_words t ! (3 * i + 2)\<rparr>) [0..<btf_vlen t]"

definition btf_params :: "btf_type \<Rightarrow> btf_param list" where
  "btf_params t = map (\<lambda>i. \<lparr>pm_name_off = bt_words t ! (2 * i), pm_type = bt_words t ! (2 * i + 1)\<rparr>) [0..<btf_vlen t]"

definition btf_enums :: "btf_type \<Rightarrow> btf_enum list" where
  "btf_enums t = map (\<lambda>i. \<lparr>en_name_off = bt_words t ! (2 * i), en_val = bt_words t ! (2 * i + 1)\<rparr>) [0..<btf_vlen t]"

definition btf_enum64s :: "btf_type \<Rightarrow> btf_enum64 list" where
  "btf_enum64s t = map (\<lambda>i. \<lparr>e64_name_off = bt_words t ! (3 * i), e64_val_lo32 = bt_words t ! (3 * i + 1),
     e64_val_hi32 = bt_words t ! (3 * i + 2)\<rparr>) [0..<btf_vlen t]"

definition btf_array :: "btf_type \<Rightarrow> btf_array" where
  "btf_array t = \<lparr>ar_type = bt_words t ! 0, ar_index_type = bt_words t ! 1, ar_nelems = bt_words t ! 2\<rparr>"

definition btf_int_encoding :: "btf_type \<Rightarrow> u32" where
  "btf_int_encoding t = drop_bit 24 (bt_words t ! 0) AND 0x0F"

definition btf_int_offset :: "btf_type \<Rightarrow> u32" where
  "btf_int_offset t = drop_bit 16 (bt_words t ! 0) AND 0xFF"

definition btf_enum64_value :: "btf_enum64 \<Rightarrow> u64" where
  "btf_enum64_value e = push_bit 32 (ucast (e64_val_hi32 e)) OR ucast (e64_val_lo32 e)"

definition btf_member_bit_offset :: "btf_type \<Rightarrow> nat \<Rightarrow> u32" where
  "btf_member_bit_offset t i =
     (let off = mb_offset (btf_members t ! i) in if btf_kflag t then off AND 0xFFFFFF else off)"

definition btf_member_bitfield_size :: "btf_type \<Rightarrow> nat \<Rightarrow> u32" where
  "btf_member_bitfield_size t i =
     (if btf_kflag t then drop_bit 24 (mb_offset (btf_members t ! i)) else 0)"

text \<open>The number of bytes a type occupies.\<close>

definition btf_type_size :: "btf_type \<Rightarrow> int" where
  "btf_type_size t =
     (let base_size = 12; vlen = int (btf_vlen t); k = btf_kind t in
      if k \<in> {BTF_KIND_FWD, BTF_KIND_CONST, BTF_KIND_VOLATILE, BTF_KIND_RESTRICT, BTF_KIND_PTR, BTF_KIND_TYPEDEF,
              BTF_KIND_FUNC, BTF_KIND_FLOAT, BTF_KIND_TYPE_TAG} then base_size
      else if k = BTF_KIND_INT then base_size + 4
      else if k = BTF_KIND_ENUM then base_size + vlen * 8
      else if k = BTF_KIND_ENUM64 then base_size + vlen * 12
      else if k = BTF_KIND_ARRAY then base_size + 12
      else if k = BTF_KIND_STRUCT \<or> k = BTF_KIND_UNION then base_size + vlen * 12
      else if k = BTF_KIND_FUNC_PROTO then base_size + vlen * 8
      else if k = BTF_KIND_VAR then base_size + 4
      else if k = BTF_KIND_DATASEC then base_size + vlen * 12
      else if k = BTF_KIND_DECL_TAG then base_size + 4
      else - EINVAL)"

section \<open>Types in memory\<close>

definition word_at :: "u8 list \<Rightarrow> nat \<Rightarrow> u32" where
  "word_at data off = from_le (take 4 (drop off data))"

text \<open>The fixed part of the type at an offset, and the type with the words that follow it.\<close>

definition base_at :: "u8 list \<Rightarrow> nat \<Rightarrow> btf_type" where
  "base_at data off = \<lparr>bt_name_off = word_at data off, bt_info = word_at data (off + 4), bt_type = word_at data (off + 8), bt_words = []\<rparr>"

definition rest_words :: "btf_type \<Rightarrow> nat" where
  "rest_words t = nat (btf_type_size t - 12) div 4"

definition type_at :: "u8 list \<Rightarrow> nat \<Rightarrow> btf_type" where
  "type_at data off = (let t = base_at data off in
     t\<lparr>bt_words := map (\<lambda>i. word_at data (off + 12 + 4 * i)) [0..<rest_words t]\<rparr>)"

section \<open>Instances and lookup\<close>

record btf_header =
  hd_magic :: u16
  hd_version :: u8
  hd_flags :: u8
  hd_hdr_len :: u32
  hd_type_off :: u32
  hd_type_len :: u32
  hd_str_off :: u32
  hd_str_len :: u32

record btf =
  bf_hdr :: btf_header
  bf_swapped_endian :: bool
  bf_types_data :: "u8 list"
  bf_type_offs :: "nat list"
  bf_start_id :: nat
  bf_start_str_off :: nat
  bf_strs_data :: "u8 list"
  bf_ptr_sz :: int

type_synonym btf_chain = "btf list"

definition bf_nr_types :: "btf \<Rightarrow> nat" where
  "bf_nr_types b = length (bf_type_offs b)"

definition btf__type_cnt :: "btf_chain \<Rightarrow> nat" where
  "btf__type_cnt c = bf_start_id (hd c) + bf_nr_types (hd c)"

definition btf_void :: btf_type where
  "btf_void = \<lparr>bt_name_off = 0, bt_info = 0, bt_type = 0, bt_words = []\<rparr>"

text \<open>The unchecked lookup; following the base of an instance that has none, or indexing past the table,
  has no meaning.\<close>

fun btf_type_by_id :: "btf_chain \<Rightarrow> nat \<Rightarrow> fault + btf_type" where
  "btf_type_by_id [] tid = Inl Out_Of_Bounds"
| "btf_type_by_id (b # base) tid =
     (if tid = 0 then Inr btf_void
      else if tid < bf_start_id b then btf_type_by_id base tid
      else if tid - bf_start_id b < bf_nr_types b
        then Inr (type_at (bf_types_data b) (bf_type_offs b ! (tid - bf_start_id b)))
      else Inl Out_Of_Bounds)"

text \<open>\<open>None\<close> is the null pointer.\<close>

definition btf__type_by_id :: "btf_chain \<Rightarrow> u32 \<Rightarrow> fault + btf_type option" where
  "btf__type_by_id c tid = (if unat tid \<ge> btf__type_cnt c then Inr None
     else bindR (btf_type_by_id c (unat tid)) (\<lambda>t. Inr (Some t)))"

fun btf__str_by_offset :: "btf_chain \<Rightarrow> nat \<Rightarrow> fault + u8 list option" where
  "btf__str_by_offset [] off = Inl Out_Of_Bounds"
| "btf__str_by_offset (b # base) off =
     (if off < bf_start_str_off b then btf__str_by_offset base off
      else if off - bf_start_str_off b < unat (hd_str_len (bf_hdr b)) then
        (let o1 = off - bf_start_str_off b in
         if cstr_ok (bf_strs_data b) o1 then Inr (Some (cstr (bf_strs_data b) o1)) else Inl Out_Of_Bounds)
      else Inr None)"

definition btf__name_by_offset :: "btf_chain \<Rightarrow> u32 \<Rightarrow> fault + u8 list option" where
  "btf__name_by_offset c off = btf__str_by_offset c (unat off)"

section \<open>Pointer size and byte order\<close>

text \<open>C strings as bytes.\<close>

definition bytes_of :: "string \<Rightarrow> u8 list" where
  "bytes_of s = map (\<lambda>c. of_nat (of_char c)) s"

definition long_aliases :: "u8 list list" where
  "long_aliases = map bytes_of [''long'', ''long int'', ''int long'', ''unsigned long'', ''long unsigned'', ''unsigned long int'',
     ''unsigned int long'', ''long unsigned int'', ''long int unsigned'', ''int unsigned long'', ''int long unsigned'']"

fun ptr_size_scan :: "btf_chain \<Rightarrow> nat list \<Rightarrow> fault + int" where
  "ptr_size_scan c [] = Inr (- 1)"
| "ptr_size_scan c (i # is) =
     bindR (btf_type_by_id c i) (\<lambda>t.
       if \<not> btf_is_int t then ptr_size_scan c is
       else if bt_type t \<noteq> 4 \<and> bt_type t \<noteq> 8 then ptr_size_scan c is
       else bindR (btf__name_by_offset c (bt_name_off t)) (\<lambda>name. case name of
           None \<Rightarrow> ptr_size_scan c is
         | Some n \<Rightarrow> if n \<in> set long_aliases then Inr (uint (bt_type t)) else ptr_size_scan c is))"

definition determine_ptr_size :: "btf_chain \<Rightarrow> fault + int" where
  "determine_ptr_size c =
     (if tl c \<noteq> [] \<and> bf_ptr_sz (hd (tl c)) > 0 then Inr (bf_ptr_sz (hd (tl c)))
      else ptr_size_scan c [1..<btf__type_cnt c])"

text \<open>Both functions cache the size they found; the pointers of the host have 8 bytes.\<close>

definition cache_ptr_sz :: "btf_chain \<Rightarrow> fault + btf_chain" where
  "cache_ptr_sz c = (if bf_ptr_sz (hd c) = 0
     then bindR (determine_ptr_size c) (\<lambda>n. Inr ((hd c)\<lparr>bf_ptr_sz := n\<rparr> # tl c)) else Inr c)"

definition btf_ptr_sz :: "btf_chain \<Rightarrow> fault + (nat \<times> btf_chain)" where
  "btf_ptr_sz c = bindR (cache_ptr_sz c) (\<lambda>c. Inr (if bf_ptr_sz (hd c) < 0 then 8 else nat (bf_ptr_sz (hd c)), c))"

definition btf__pointer_size :: "btf_chain \<Rightarrow> fault + (nat \<times> btf_chain)" where
  "btf__pointer_size c = bindR (cache_ptr_sz c) (\<lambda>c. Inr (if bf_ptr_sz (hd c) < 0 then 0 else nat (bf_ptr_sz (hd c)), c))"

definition btf__set_pointer_size :: "nat \<Rightarrow> btf \<Rightarrow> int \<times> btf" where
  "btf__set_pointer_size ptr_sz b = (if ptr_sz \<noteq> 4 \<and> ptr_sz \<noteq> 8 then (- EINVAL, b) else (0, b\<lparr>bf_ptr_sz := int ptr_sz\<rparr>))"

datatype btf_endianness = BTF_LITTLE_ENDIAN | BTF_BIG_ENDIAN

text \<open>The host is little-endian.\<close>

definition btf__endianness :: "btf \<Rightarrow> btf_endianness" where
  "btf__endianness b = (if bf_swapped_endian b then BTF_BIG_ENDIAN else BTF_LITTLE_ENDIAN)"

definition btf__set_endianness :: "btf_endianness \<Rightarrow> btf \<Rightarrow> btf" where
  "btf__set_endianness endian b = b\<lparr>bf_swapped_endian := (endian = BTF_BIG_ENDIAN)\<rparr>"

section \<open>Size, alignment, resolution\<close>

definition btf_type_is_void :: "btf_type \<Rightarrow> bool" where
  "btf_type_is_void t \<longleftrightarrow> t = btf_void \<or> btf_is_fwd t"

definition btf_type_is_void_or_null :: "btf_type option \<Rightarrow> bool" where
  "btf_type_is_void_or_null t = (case t of None \<Rightarrow> True | Some t \<Rightarrow> btf_type_is_void t)"

definition MAX_RESOLVE_DEPTH :: nat where "MAX_RESOLVE_DEPTH = 32"

definition kind_has_size :: "nat \<Rightarrow> bool" where
  "kind_has_size k \<longleftrightarrow> k \<in> {BTF_KIND_INT, BTF_KIND_STRUCT, BTF_KIND_UNION, BTF_KIND_ENUM, BTF_KIND_ENUM64, BTF_KIND_DATASEC, BTF_KIND_FLOAT}"

definition kind_is_ref :: "nat \<Rightarrow> bool" where
  "kind_is_ref k \<longleftrightarrow> k \<in> {BTF_KIND_TYPEDEF, BTF_KIND_VOLATILE, BTF_KIND_CONST, BTF_KIND_RESTRICT, BTF_KIND_VAR, BTF_KIND_DECL_TAG, BTF_KIND_TYPE_TAG}"

text \<open>The loop of \<open>btf__resolve_size\<close>, by the iterations left. The result is the
  size (\<open>-1\<close> when none was found) and the number of elements. The 32-bit product is guarded by a
  division.\<close>

fun resolve_size_loop :: "btf_chain \<Rightarrow> nat \<Rightarrow> u32 \<Rightarrow> btf_type option \<Rightarrow> err + (int \<times> u32)" where
  "resolve_size_loop c 0 nelems t = Inr (- 1, nelems)"
| "resolve_size_loop c (Suc n) nelems None = Inr (- 1, nelems)"
| "resolve_size_loop c (Suc n) nelems (Some t) =
     (if btf_type_is_void t then Inr (- 1, nelems)
      else if kind_has_size (btf_kind t) then Inr (uint (bt_type t), nelems)
      else if btf_kind t = BTF_KIND_PTR then
        (case btf_ptr_sz c of Inl f \<Rightarrow> Inl (Fault f) | Inr (psz, _) \<Rightarrow> Inr (int psz, nelems))
      else if kind_is_ref (btf_kind t) then
        (case btf__type_by_id c (bt_type t) of Inl f \<Rightarrow> Inl (Fault f)
         | Inr t' \<Rightarrow> resolve_size_loop c n nelems t')
      else if btf_kind t = BTF_KIND_ARRAY then
        (if nelems \<noteq> 0 \<and> ar_nelems (btf_array t) > 0xFFFFFFFF div nelems then Inl (Errno (- E2BIG))
         else case btf__type_by_id c (ar_type (btf_array t)) of Inl f \<Rightarrow> Inl (Fault f)
           | Inr t' \<Rightarrow> resolve_size_loop c n (nelems * ar_nelems (btf_array t)) t')
      else Inl (Errno (- EINVAL)))"

definition btf__resolve_size :: "btf_chain \<Rightarrow> u32 \<Rightarrow> err + int" where
  "btf__resolve_size c type_id =
     (case btf__type_by_id c type_id of
        Inl f \<Rightarrow> Inl (Fault f)
      | Inr t \<Rightarrow>
          bindR (resolve_size_loop c MAX_RESOLVE_DEPTH 1 t) (\<lambda>(size, nelems).
            if size < 0 then Inl (Errno (- EINVAL))
            else if nelems \<noteq> 0 \<and> size > uint (0xFFFFFFFF div nelems :: u32) then Inl (Errno (- E2BIG))
            else Inr (uint nelems * size)))"

text \<open>\<open>btf__align_of\<close> recurses without a bound: \<open>None\<close> when the fuel is exhausted. The kind of a null pointer
  is read for an id outside the table.\<close>

fun btf__align_of :: "nat \<Rightarrow> btf_chain \<Rightarrow> u32 \<Rightarrow> (fault + int) option" where
  "btf__align_of 0 c tid = None"
| "btf__align_of (Suc n) c tid =
     (case btf__type_by_id c tid of Inl f \<Rightarrow> Some (Inl f)
      | Inr None \<Rightarrow> Some (Inl Out_Of_Bounds)
      | Inr (Some t) \<Rightarrow>
         (let k = btf_kind t in
          if k \<in> {BTF_KIND_INT, BTF_KIND_ENUM, BTF_KIND_ENUM64, BTF_KIND_FLOAT} 
            then Some (bindR (btf_ptr_sz c) (\<lambda>(psz, _). Inr (min (int psz) (uint (bt_type t)))))
          else if k = BTF_KIND_PTR then Some (bindR (btf_ptr_sz c) (\<lambda>(psz, _). Inr (int psz)))
          else if k \<in> {BTF_KIND_TYPEDEF, BTF_KIND_VOLATILE, BTF_KIND_CONST, BTF_KIND_RESTRICT, BTF_KIND_TYPE_TAG}
            then btf__align_of n c (bt_type t)
          else if k = BTF_KIND_ARRAY then btf__align_of n c (ar_type (btf_array t))
          else if k = BTF_KIND_STRUCT \<or> k = BTF_KIND_UNION then
            map_option (map_sum (\<lambda>f. f) fst) (fold (\<lambda>m acc. case acc of
                Some (Inr (max_align, False)) \<Rightarrow>
                  (case btf__align_of n c (mb_type m) of None \<Rightarrow> None | Some (Inl f) \<Rightarrow> Some (Inl f)
                   | Some (Inr a) \<Rightarrow> if a \<le> 0 then Some (Inr (a, True)) else Some (Inr (max max_align a, False)))
              | _ \<Rightarrow> acc) (btf_members t) (Some (Inr (1, False))))
          else Some (Inr 0)))"

definition resolves_further :: "btf_type option \<Rightarrow> bool" where
  "resolves_further t = (case t of None \<Rightarrow> False
     | Some t \<Rightarrow> \<not> btf_type_is_void t \<and> (btf_is_mod t \<or> btf_is_typedef t \<or> btf_is_var t))"

fun resolve_type_loop :: "btf_chain \<Rightarrow> nat \<Rightarrow> u32 \<Rightarrow> btf_type option \<Rightarrow> fault + (nat \<times> u32 \<times> btf_type option)" where
  "resolve_type_loop c 0 type_id t = Inr (0, type_id, t)"
| "resolve_type_loop c (Suc n) type_id t =
     (if resolves_further t then bindR (btf__type_by_id c (bt_type (the t))) (resolve_type_loop c n (bt_type (the t)))
      else Inr (Suc n, type_id, t))"

text \<open>\<open>depth == MAX_RESOLVE_DEPTH\<close> is \<open>0\<close> iterations left.\<close>

definition btf__resolve_type :: "btf_chain \<Rightarrow> u32 \<Rightarrow> err + u32" where
  "btf__resolve_type c type_id =
     (case bindR (btf__type_by_id c type_id) (resolve_type_loop c MAX_RESOLVE_DEPTH type_id) of
        Inl f \<Rightarrow> Inl (Fault f)
      | Inr (left, type_id, t) \<Rightarrow>
          if left = 0 \<or> btf_type_is_void_or_null t then Inl (Errno (- EINVAL)) else Inr type_id)"

section \<open>Lookup by name\<close>

fun find_by_name_from :: "btf_chain \<Rightarrow> (btf_type \<Rightarrow> bool) \<Rightarrow> u8 list \<Rightarrow> nat list \<Rightarrow> err + nat" where
  "find_by_name_from c P type_name [] = Inl (Errno (- ENOENT))"
| "find_by_name_from c P type_name (i # is) =
     (case btf__type_by_id c (of_nat i) of Inl f \<Rightarrow> Inl (Fault f)
      | Inr None \<Rightarrow> Inl (Fault Out_Of_Bounds)
      | Inr (Some t) \<Rightarrow>
         if \<not> P t then find_by_name_from c P type_name is
         else (case btf__name_by_offset c (bt_name_off t) of Inl f \<Rightarrow> Inl (Fault f)
           | Inr name \<Rightarrow> if name = Some type_name then Inr i else find_by_name_from c P type_name is))"

definition btf__find_by_name :: "btf_chain \<Rightarrow> u8 list \<Rightarrow> err + nat" where
  "btf__find_by_name c type_name = (if type_name = bytes_of ''void'' then Inr 0
     else find_by_name_from c (\<lambda>t. True) type_name [1..<btf__type_cnt c])"

definition btf_find_by_name_kind :: "btf_chain \<Rightarrow> nat \<Rightarrow> u8 list \<Rightarrow> nat \<Rightarrow> err + nat" where
  "btf_find_by_name_kind c start_id type_name kind =
     (if kind = BTF_KIND_UNKN \<or> type_name = bytes_of ''void'' then Inr 0
      else find_by_name_from c (\<lambda>t. btf_kind t = kind) type_name [start_id..<btf__type_cnt c])"

definition btf__find_by_name_kind_own :: "btf_chain \<Rightarrow> u8 list \<Rightarrow> nat \<Rightarrow> err + nat" where
  "btf__find_by_name_kind_own c type_name kind = btf_find_by_name_kind c (bf_start_id (hd c)) type_name kind"

definition btf__find_by_name_kind :: "btf_chain \<Rightarrow> u8 list \<Rightarrow> nat \<Rightarrow> err + nat" where
  "btf__find_by_name_kind c type_name kind = btf_find_by_name_kind c 1 type_name kind"

section \<open>What the size of a type is\<close>

text \<open>The size by rules, without a bound on the depth or on the product.\<close>

inductive has_size :: "btf_chain \<Rightarrow> btf_type \<Rightarrow> int \<Rightarrow> bool" for c where
  size_own: "\<not> btf_type_is_void t \<Longrightarrow> kind_has_size (btf_kind t) \<Longrightarrow> has_size c t (uint (bt_type t))"
| size_ptr: "btf_kind t = BTF_KIND_PTR \<Longrightarrow> btf_ptr_sz c = Inr (psz, c') \<Longrightarrow> has_size c t (int psz)"
| size_ref: "kind_is_ref (btf_kind t) \<Longrightarrow> btf__type_by_id c (bt_type t) = Inr (Some t') \<Longrightarrow> has_size c t' v \<Longrightarrow> has_size c t v"
| size_array: "btf_kind t = BTF_KIND_ARRAY \<Longrightarrow> btf__type_by_id c (ar_type (btf_array t)) = Inr (Some t') \<Longrightarrow>
    has_size c t' v \<Longrightarrow> has_size c t (uint (ar_nelems (btf_array t)) * v)"

lemma guarded_product:
  fixes n k :: u32
  assumes "\<not> (n \<noteq> 0 \<and> k > 0xFFFFFFFF div n)"
  shows "uint (n * k) = uint n * uint k"
proof (cases "n = 0")
  case False
  then have "uint k \<le> uint (0xFFFFFFFF div n)" using assms by (simp add: word_less_def not_less)
  then have "uint k \<le> 0xFFFFFFFF div uint n" by (simp add: uint_div)
  then have "uint k * uint n \<le> 0xFFFFFFFF div uint n * uint n" by (rule mult_right_mono) simp
  also have "\<dots> = 0xFFFFFFFF - 0xFFFFFFFF mod uint n" by (simp only: minus_mod_eq_div_mult)
  also have "\<dots> \<le> 0xFFFFFFFF" using False by (simp add: pos_mod_sign word_greater_zero_iff [symmetric] word_less_def)
  finally have "uint n * uint k < 2 ^ LENGTH(32)" by (simp add: mult.commute)
  then show ?thesis by (simp only: uint_mult_lem)
qed simp

lemma resolve_size_loop_sound:
  assumes "resolve_size_loop c n nelems t = Inr (sz, ne)" and "0 \<le> sz"
  shows "\<exists>t' v. t = Some t' \<and> has_size c t' v \<and> uint ne * sz = uint nelems * v"
  using assms
proof (induction c n nelems t rule: resolve_size_loop.induct)
  case (3 c n nelems t)
  consider (own) "kind_has_size (btf_kind t)" | (ptr) "btf_kind t = BTF_KIND_PTR" "\<not> kind_has_size (btf_kind t)"
    | (ref) "kind_is_ref (btf_kind t)" | (arr) "btf_kind t = BTF_KIND_ARRAY"
    using "3.prems" by (auto split: if_splits)
  then show ?case
  proof cases
    case own
    then show ?thesis using "3.prems" by (auto intro: size_own split: if_splits)
  next
    case ptr
    then show ?thesis using "3.prems" by (auto intro: size_ptr split: if_splits sum.splits)
  next
    case ref
    then have k: "\<not> kind_has_size (btf_kind t)" "btf_kind t \<noteq> BTF_KIND_PTR"
      by (auto simp: kind_is_ref_def kind_has_size_def btf_kinds)
    have nv: "\<not> btf_type_is_void t" using "3.prems" by (auto split: if_splits)
    obtain t1 where t1: "btf__type_by_id c (bt_type t) = Inr t1" "resolve_size_loop c n nelems t1 = Inr (sz, ne)"
      using "3.prems" ref k nv by (auto split: sum.splits)
    then show ?thesis using "3.IH"(1) [OF nv k ref t1(1)] "3.prems"(2) ref by (auto intro: size_ref)
  next
    case arr
    then have k: "\<not> kind_has_size (btf_kind t)" "btf_kind t \<noteq> BTF_KIND_PTR" "\<not> kind_is_ref (btf_kind t)"
      by (auto simp: kind_is_ref_def kind_has_size_def btf_kinds)
    have nv: "\<not> btf_type_is_void t" using "3.prems" by (auto split: if_splits)
    let ?k = "ar_nelems (btf_array t)"
    have g: "\<not> (nelems \<noteq> 0 \<and> ?k > 0xFFFFFFFF div nelems)" using "3.prems" arr k nv by (auto split: if_splits)
    obtain t1 where t1: "btf__type_by_id c (ar_type (btf_array t)) = Inr t1"
      "resolve_size_loop c n (nelems * ?k) t1 = Inr (sz, ne)"
      using "3.prems" arr k nv g by (auto split: sum.splits if_splits)
    then obtain t' v where "t1 = Some t'" "has_size c t' v" "uint ne * sz = uint (nelems * ?k) * v"
      using "3.IH"(2) [OF nv k arr g t1(1)] "3.prems"(2) by auto
    then show ?thesis using size_array [OF arr, of c t' v] t1(1) by (auto simp: guarded_product [OF g] algebra_simps)
  qed
qed auto

section \<open>An instance with one integer type\<close>

definition sample_btf :: btf where
  "sample_btf = \<lparr>bf_hdr = \<lparr>hd_magic = 0xEB9F, hd_version = 1, hd_flags = 0, hd_hdr_len = 24, hd_type_off = 0,
     hd_type_len = 16, hd_str_off = 16, hd_str_len = 5\<rparr>, bf_swapped_endian = False,
     bf_types_data = [1, 0, 0, 0, 0, 0, 0, 1, 4, 0, 0, 0, 32, 0, 0, 0], bf_type_offs = [0], bf_start_id = 1, bf_start_str_off = 0,
     bf_strs_data = [0, 105, 110, 116, 0], bf_ptr_sz = 0\<rparr>"

lemma sample_type: "type_at (bf_types_data sample_btf) 0 = \<lparr>bt_name_off = 1, bt_info = 0x01000000, bt_type = 4, bt_words = [32]\<rparr>"
  by (simp add: type_at_def base_at_def word_at_def sample_btf_def Let_def rest_words_def btf_type_size_def btf_kind_def btf_vlen_def btf_kinds)

lemma sample_by_id: "btf__type_by_id [sample_btf] 1 = Inr (Some \<lparr>bt_name_off = 1, bt_info = 0x01000000, bt_type = 4, bt_words = [32]\<rparr>)"
  using sample_type by (simp add: btf__type_by_id_def btf__type_cnt_def bf_nr_types_def) (simp add: sample_btf_def)

lemma sample_size: "btf__resolve_size [sample_btf] 1 = Inr 4"
proof -
  have depth: "MAX_RESOLVE_DEPTH = Suc 31" by (simp add: MAX_RESOLVE_DEPTH_def)
  have "resolve_size_loop [sample_btf] MAX_RESOLVE_DEPTH 1 (Some \<lparr>bt_name_off = 1, bt_info = 0x01000000, bt_type = 4, bt_words = [32]\<rparr>) = Inr (4, 1)"
    unfolding depth resolve_size_loop.simps
    by (simp add: btf_type_is_void_def btf_is_fwd_def btf_kind_def btf_kinds kind_has_size_def btf_void_def)
  then show ?thesis unfolding btf__resolve_size_def sample_by_id sum.case by simp
qed

section \<open>Properties\<close>

text \<open>
  C31. The size of a type. Whatever the type graph is, cyclic ones included, \<open>btf__resolve_size\<close> returns;
  a size it returns is the one the rules give the type, with every 32-bit product of array lengths
  exact, and fits in 32 bits.
\<close>

theorem resolve_size_sound:
  assumes "btf__resolve_size c tid = Inr v"
  shows "\<exists>t. btf__type_by_id c tid = Inr (Some t) \<and> has_size c t v \<and> 0 \<le> v \<and> v \<le> 0xFFFFFFFF"
proof -
  obtain t sz ne where r: "btf__type_by_id c tid = Inr t" "resolve_size_loop c MAX_RESOLVE_DEPTH 1 t = Inr (sz, ne)"
    "0 \<le> sz" "\<not> (ne \<noteq> 0 \<and> sz > uint (0xFFFFFFFF div ne))" "v = uint ne * sz"
    using assms by (auto simp: btf__resolve_size_def split: sum.splits if_splits)
  obtain t' where t': "t = Some t'" "has_size c t' v" using resolve_size_loop_sound [OF r(2,3)] r(5) by auto
  have "uint ne * sz \<le> 0xFFFFFFFF"
  proof (cases "ne = 0")
    case False
    then have "sz \<le> 0xFFFFFFFF div uint ne" using r(4) by (simp add: uint_div not_less)
    then have "sz * uint ne \<le> 0xFFFFFFFF div uint ne * uint ne" by (rule mult_right_mono) simp
    also have "\<dots> = 0xFFFFFFFF - 0xFFFFFFFF mod uint ne" by (simp only: minus_mod_eq_div_mult)
    also have "\<dots> \<le> 0xFFFFFFFF" using False by (simp add: pos_mod_sign word_greater_zero_iff [symmetric] word_less_def)
    finally show ?thesis by (simp add: mult.commute)
  qed simp
  then show ?thesis using r t' by auto
qed

theorem resolve_size_sound_witness:
  "\<exists>t. btf__type_by_id [sample_btf] 1 = Inr (Some t) \<and> has_size [sample_btf] t 4"
  using resolve_size_sound [OF sample_size] by blast

end
