(* ===== verification/Btf_Parse.thy ===== *)
theory Btf_Parse
  imports Btf
begin

text \<open>
  Reading BTF from memory (\<open>btf_parse_hdr\<close>, \<open>btf_parse_str_sec\<close>, \<open>btf_parse_type_sec\<close>, \<open>btf_new\<close> of
  \<open>libbpf/src/btf.c\<close>), also of the other byte order, and writing it back (\<open>btf_get_raw_data\<close>).
\<close>

section \<open>Byte order\<close>

definition bswap_16 :: "u16 \<Rightarrow> u16" where
  "bswap_16 w = from_le (rev (to_le 2 w))"

definition bswap_32 :: "u32 \<Rightarrow> u32" where
  "bswap_32 w = from_le (rev (to_le 4 w))"

text \<open>Swapping a 32-bit word in memory, and a row of words.\<close>

definition swap32_at :: "nat \<Rightarrow> u8 list \<Rightarrow> u8 list" where
  "swap32_at off data = take off data @ rev (take 4 (drop off data)) @ drop (off + 4) data"

primrec swap_words :: "nat \<Rightarrow> nat \<Rightarrow> u8 list \<Rightarrow> u8 list" where
  "swap_words 0 off data = data"
| "swap_words (Suc n) off data = swap_words n (off + 4) (swap32_at off data)"

definition btf_bswap_hdr :: "btf_header \<Rightarrow> btf_header" where
  "btf_bswap_hdr h = h\<lparr>hd_magic := bswap_16 (hd_magic h), hd_hdr_len := bswap_32 (hd_hdr_len h),
     hd_type_off := bswap_32 (hd_type_off h), hd_type_len := bswap_32 (hd_type_len h),
     hd_str_off := bswap_32 (hd_str_off h), hd_str_len := bswap_32 (hd_str_len h)\<rparr>"

definition btf_bswap_type_base :: "nat \<Rightarrow> u8 list \<Rightarrow> u8 list" where
  "btf_bswap_type_base off data = swap_words 3 off data"

text \<open>The words behind the type; every field of every structure is a 32-bit word.\<close>

definition btf_bswap_type_rest :: "nat \<Rightarrow> u8 list \<Rightarrow> int \<times> u8 list" where
  "btf_bswap_type_rest off data =
     (let t = base_at data off; vlen = btf_vlen t; k = btf_kind t; p = off + 12 in
      if k \<in> {BTF_KIND_FWD, BTF_KIND_CONST, BTF_KIND_VOLATILE, BTF_KIND_RESTRICT, BTF_KIND_PTR, BTF_KIND_TYPEDEF,
              BTF_KIND_FUNC, BTF_KIND_FLOAT, BTF_KIND_TYPE_TAG} then (0, data)
      else if k = BTF_KIND_INT then (0, swap_words 1 p data)
      else if k = BTF_KIND_ENUM then (0, swap_words (2 * vlen) p data)
      else if k = BTF_KIND_ENUM64 then (0, swap_words (3 * vlen) p data)
      else if k = BTF_KIND_ARRAY then (0, swap_words 3 p data)
      else if k = BTF_KIND_STRUCT \<or> k = BTF_KIND_UNION then (0, swap_words (3 * vlen) p data)
      else if k = BTF_KIND_FUNC_PROTO then (0, swap_words (2 * vlen) p data)
      else if k = BTF_KIND_VAR then (0, swap_words 1 p data)
      else if k = BTF_KIND_DATASEC then (0, swap_words (3 * vlen) p data)
      else if k = BTF_KIND_DECL_TAG then (0, swap_words 1 p data)
      else (- EINVAL, data))"

section \<open>The header and the sections\<close>

definition BTF_MAGIC :: u16 where "BTF_MAGIC = 0xEB9F"
definition BTF_VERSION :: u8 where "BTF_VERSION = 1"
definition BTF_MAX_STR_OFFSET :: nat where "BTF_MAX_STR_OFFSET = 0x7FFFFFFF"
definition sizeof_btf_header :: nat where "sizeof_btf_header = 24"

definition hdr_at :: "u8 list \<Rightarrow> btf_header" where
  "hdr_at raw = \<lparr>hd_magic = from_le (take 2 raw), hd_version = raw ! 2, hd_flags = raw ! 3,
     hd_hdr_len = word_at raw 4, hd_type_off = word_at raw 8, hd_type_len = word_at raw 12,
     hd_str_off = word_at raw 16, hd_str_len = word_at raw 20\<rparr>"

text \<open>The result is the byte order and the header in native order. \<open>meta_left\<close> is a 32-bit difference
  that cannot be negative; the sums are taken in 64 bits.\<close>

definition btf_parse_hdr :: "u8 list \<Rightarrow> int + (bool \<times> btf_header)" where
  "btf_parse_hdr raw =
     (let raw_size = length raw; hdr = hdr_at raw in
      if raw_size < sizeof_btf_header then Inl (- EINVAL)
      else bindR (if hd_magic hdr = bswap_16 BTF_MAGIC then
                    (if unat (bswap_32 (hd_hdr_len hdr)) \<noteq> sizeof_btf_header then Inl (- ENOTSUP)
                     else Inr (True, btf_bswap_hdr hdr))
                  else if hd_magic hdr \<noteq> BTF_MAGIC then Inl (- EINVAL) else Inr (False, hdr)) (\<lambda>(swapped, hdr).
        if raw_size < unat (hd_hdr_len hdr) then Inl (- EINVAL)
        else
          (let meta_left = raw_size - unat (hd_hdr_len hdr) in
           if meta_left < unat (hd_str_off hdr) + unat (hd_str_len hdr) then Inl (- EINVAL)
           else if unat (hd_type_off hdr) + unat (hd_type_len hdr) > unat (hd_str_off hdr) then Inl (- EINVAL)
           else if unat (hd_type_off hdr) mod 4 \<noteq> 0 then Inl (- EINVAL)
           else Inr (swapped, hdr))))"

definition btf_parse_str_sec :: "bool \<Rightarrow> u8 list \<Rightarrow> int" where
  "btf_parse_str_sec has_base strs =
     (let str_len = length strs in
      if has_base \<and> str_len = 0 then 0
      else if str_len = 0 \<or> str_len - 1 > BTF_MAX_STR_OFFSET \<or> last strs \<noteq> 0 then - EINVAL
      else if \<not> has_base \<and> hd strs \<noteq> 0 then - EINVAL
      else 0)"

lemma btf_type_size_cases: "btf_type_size t = - EINVAL \<or> (12 \<le> btf_type_size t \<and> 4 dvd btf_type_size t)"
  by (auto simp: btf_type_size_def Let_def)

text \<open>
  The loop over the types of a section of \<open>n\<close> bytes. \<open>alloc i\<close> is the answer of the allocator when the
  \<open>i\<close>-th entry of the index is added. The result is the section in native order and the index.
\<close>

function parse_types :: "(nat \<Rightarrow> bool) \<Rightarrow> bool \<Rightarrow> nat \<Rightarrow> nat \<Rightarrow> u8 list \<Rightarrow> nat list \<Rightarrow> int + (u8 list \<times> nat list)" where
  "parse_types alloc swapped n off data offs =
     (if off + 12 \<le> n then
       (let data = (if swapped then btf_bswap_type_base off data else data);
            type_size = btf_type_size (base_at data off)
        in if type_size < 0 then Inl type_size
           else if int off + type_size > int n then Inl (- EINVAL)
           else
            (let (err, data) = (if swapped then btf_bswap_type_rest off data else (0, data)) in
             if err \<noteq> 0 then Inl (- EINVAL)
             else if \<not> alloc (length offs) then Inl (- ENOMEM)
             else parse_types alloc swapped n (off + nat type_size) data (offs @ [off])))
      else if off \<noteq> n then Inl (- EINVAL)
      else Inr (data, offs))"
  by pat_completeness auto

termination
proof (relation "measure (\<lambda>(alloc, swapped, n, off, data, offs). n - off)", goal_cases)
  case (2 alloc swapped n off data offs data' sz x err y)
  then show ?case using btf_type_size_cases [of "base_at data' off"] by (auto simp: EINVAL_def)
qed simp

declare parse_types.simps [simp del]

definition sub_bytes :: "nat \<Rightarrow> nat \<Rightarrow> u8 list \<Rightarrow> u8 list" where
  "sub_bytes off n bs = take n (drop off bs)"

text \<open>\<open>btf_new\<close>: \<open>base\<close> is the chain of the base instance.\<close>

definition btf_new :: "bool \<Rightarrow> bool \<Rightarrow> (nat \<Rightarrow> bool) \<Rightarrow> btf_chain \<Rightarrow> u8 list \<Rightarrow> int + btf" where
  "btf_new calloc_ok malloc_ok alloc base data =
     (if \<not> calloc_ok \<or> \<not> malloc_ok then Inl (- ENOMEM)
      else bindR (btf_parse_hdr data) (\<lambda>(swapped, hdr).
        let strs = sub_bytes (unat (hd_hdr_len hdr) + unat (hd_str_off hdr)) (unat (hd_str_len hdr)) data;
            types = sub_bytes (unat (hd_hdr_len hdr) + unat (hd_type_off hdr)) (unat (hd_type_len hdr)) data;
            err = btf_parse_str_sec (base \<noteq> []) strs
        in if err \<noteq> 0 then Inl err
           else bindR (parse_types alloc swapped (length types) 0 types []) (\<lambda>(types, offs).
             Inr \<lparr>bf_hdr = hdr, bf_swapped_endian = swapped, bf_types_data = types, bf_type_offs = offs,
                  bf_start_id = (if base = [] then 1 else btf__type_cnt base),
                  bf_start_str_off = (if base = [] then 0 else unat (hd_str_len (bf_hdr (hd base)))),
                  bf_strs_data = strs, bf_ptr_sz = 0\<rparr>)))"

text \<open>\<open>btf_new_empty\<close>: the empty instance; the base's strings come first.\<close>

definition btf_new_empty :: "bool \<Rightarrow> bool \<Rightarrow> btf_chain \<Rightarrow> int + btf" where
  "btf_new_empty calloc_ok calloc_raw_ok base =
     (if \<not> calloc_ok \<or> \<not> calloc_raw_ok then Inl (- ENOMEM)
      else Inr \<lparr>bf_hdr = \<lparr>hd_magic = BTF_MAGIC, hd_version = BTF_VERSION, hd_flags = 0, hd_hdr_len = 24, hd_type_off = 0,
                    hd_type_len = 0, hd_str_off = 0, hd_str_len = (if base = [] then 1 else 0)\<rparr>,
                bf_swapped_endian = False, bf_types_data = [], bf_type_offs = [],
                bf_start_id = (if base = [] then 1 else btf__type_cnt base),
                bf_start_str_off = (if base = [] then 0 else unat (hd_str_len (bf_hdr (hd base)))),
                bf_strs_data = (if base = [] then [0] else []), bf_ptr_sz = 8\<rparr>)"

section \<open>Writing back\<close>

text \<open>The types section in the other byte order: for each type the words behind it first, because they
  are found by the native \<open>info\<close>, then its fixed part.\<close>

primrec swap_types :: "nat list \<Rightarrow> u8 list \<Rightarrow> int + u8 list" where
  "swap_types [] data = Inr data"
| "swap_types (off # offs) data =
     (case btf_bswap_type_rest off data of (err, data) \<Rightarrow>
        if err \<noteq> 0 then Inl err else swap_types offs (btf_bswap_type_base off data))"

definition hdr_bytes :: "btf_header \<Rightarrow> u8 list" where
  "hdr_bytes h = to_le 2 (hd_magic h) @ [hd_version h, hd_flags h] @ to_le 4 (hd_hdr_len h) @ to_le 4 (hd_type_off h) @
     to_le 4 (hd_type_len h) @ to_le 4 (hd_str_off h) @ to_le 4 (hd_str_len h)"

text \<open>\<open>btf_get_raw_data\<close> of an instance without cached data whose header has the standard length.\<close>

definition btf_get_raw_data :: "bool \<Rightarrow> bool \<Rightarrow> btf \<Rightarrow> u8 list option" where
  "btf_get_raw_data calloc_ok swap_endian b =
     (if \<not> calloc_ok then None
      else
       (let hdr = hdr_bytes (if swap_endian then btf_bswap_hdr (bf_hdr b) else bf_hdr b) in
        case (if swap_endian then swap_types (bf_type_offs b) (bf_types_data b) else Inr (bf_types_data b)) of
          Inl _ \<Rightarrow> None
        | Inr types \<Rightarrow> Some (hdr @ types @ take (unat (hd_str_len (bf_hdr b))) (bf_strs_data b))))"

section \<open>Lemmas on swapping\<close>

primrec rev_words :: "nat \<Rightarrow> u8 list \<Rightarrow> u8 list" where
  "rev_words 0 xs = xs"
| "rev_words (Suc n) xs = rev (take 4 xs) @ rev_words n (drop 4 xs)"

lemma swap_words_eq: "swap_words n off data = take off data @ rev_words n (drop off data)"
proof (induction n arbitrary: off data)
  case 0
  show ?case by simp
next
  case (Suc n)
  have "take (off + 4) (swap32_at off data) = take off data @ rev (take 4 (drop off data))"
    by (cases "off + 4 \<le> length data") (auto simp: swap32_at_def min_def)
  moreover have "drop (off + 4) (swap32_at off data) = drop 4 (drop off data)"
    by (cases "off + 4 \<le> length data") (auto simp: swap32_at_def min_def add.commute)
  ultimately show ?case by (simp add: Suc)
qed

lemma length_rev_words [simp]: "length (rev_words n xs) = length xs"
  by (induction n arbitrary: xs) auto

lemma length_swap_words [simp]: "length (swap_words n off data) = length data"
  by (simp add: swap_words_eq)

lemma rev_words_append: "4 * n \<le> length xs \<Longrightarrow> rev_words n (xs @ ys) = rev_words n xs @ ys"
  by (induction n arbitrary: xs) auto

lemma rev_words_add: "4 * m \<le> length xs \<Longrightarrow> rev_words (m + n) xs = rev_words m (take (4 * m) xs) @ rev_words n (drop (4 * m) xs)"
proof (induction m arbitrary: xs)
  case 0
  show ?case by simp
next
  case (Suc m)
  then have "rev_words (m + n) (drop 4 xs) = rev_words m (take (4 * m) (drop 4 xs)) @ rev_words n (drop (4 * m) (drop 4 xs))"
    by simp
  then show ?case by (simp add: take_drop min_def add.commute)
qed

lemma rev_words_twice: "4 * n \<le> length xs \<Longrightarrow> rev_words n (rev_words n xs) = xs"
  by (induction n arbitrary: xs) (simp_all add: min_def)

lemma word_at_drop: "word_at data (off + k) = word_at (drop off data) k"
  by (simp add: word_at_def add.commute)

lemma base_at_drop: "base_at data off = base_at (drop off data) 0"
  using word_at_drop [of data off 0] by (simp add: base_at_def word_at_drop)

lemma base_at_prefix: "12 \<le> length xs \<Longrightarrow> base_at (xs @ ys) 0 = base_at (take 12 xs) 0"
  by (simp add: base_at_def word_at_def take_drop)

lemma bswap_rest_eq:
  assumes "0 \<le> btf_type_size (base_at data off)"
  shows "btf_bswap_type_rest off data = (0, swap_words (rest_words (base_at data off)) (off + 12) data)"
  using assms unfolding btf_bswap_type_rest_def btf_type_size_def rest_words_def Let_def
  by (auto simp: nat_mult_distrib EINVAL_def btf_kinds split: if_splits)

lemma bswap_rest_err:
  assumes "btf_type_size (base_at data off) < 0"
  shows "btf_bswap_type_rest off data = (- EINVAL, data)"
  using assms unfolding btf_bswap_type_rest_def btf_type_size_def Let_def
  by (auto simp: EINVAL_def btf_kinds split: if_splits)

lemma rest_words_size: "0 \<le> btf_type_size t \<Longrightarrow> btf_type_size t = 12 + 4 * int (rest_words t)"
  using btf_type_size_cases [of t] by (auto simp: rest_words_def EINVAL_def zdiv_int elim!: dvdE)

text \<open>Swapping the types of an index touches nothing before the first of them.\<close>

lemma swap_types_prefix:
  assumes "length pre = m" "length pre' = m" "\<forall>o1\<in>set offs. m \<le> o1" "swap_types offs (pre @ r) = Inr S"
  shows "\<exists>r'. S = pre @ r' \<and> swap_types offs (pre' @ r) = Inr (pre' @ r') \<and> length r' = length r"
  using assms
proof (induction offs arbitrary: r)
  case Nil
  then show ?case by auto
next
  case (Cons o1 offs)
  have o1: "m \<le> o1" using Cons.prems(3) by simp
  have sw: "swap_words n (o1 + k) (p @ r) = p @ swap_words n (o1 - m + k) r" if "length p = m" for p n k
    using that o1 by (simp add: swap_words_eq)
  have base: "base_at (p @ r) o1 = base_at r (o1 - m)" if "length p = m" for p r
    using that o1 base_at_drop [of "p @ r" o1] base_at_drop [of r "o1 - m"] by simp
  let ?t = "base_at r (o1 - m)"
  show ?case
  proof (cases "0 \<le> btf_type_size ?t")
    case True
    define r1 where "r1 = swap_words 3 (o1 - m) (swap_words (rest_words ?t) (o1 - m + 12) r)"
    have one: "swap_types (o1 # offs) (p @ r) = swap_types offs (p @ r1)" if p: "length p = m" for p
    proof -
      have "btf_bswap_type_rest o1 (p @ r) = (0, p @ swap_words (rest_words ?t) (o1 - m + 12) r)"
        using bswap_rest_eq [of "p @ r" o1] True base [OF p] sw [OF p] by simp
      moreover have "btf_bswap_type_base o1 (p @ x) = p @ swap_words 3 (o1 - m) x" for x
        using p o1 by (simp add: btf_bswap_type_base_def swap_words_eq)
      ultimately show ?thesis by (simp add: r1_def)
    qed
    have "length r1 = length r" by (simp add: r1_def)
    then show ?thesis using Cons.IH [of r1] Cons.prems one [of pre] one [of pre'] by auto
  next
    case False
    then have "btf_bswap_type_rest o1 (pre @ r) = (- EINVAL, pre @ r)"
      using base [OF Cons.prems(1)] by (intro bswap_rest_err) simp
    then show ?thesis using Cons.prems(4) by (simp add: EINVAL_def)
  qed
qed

text \<open>One step of the loop on a native section, and its converse on a swapped one.\<close>

definition type_fits :: "nat \<Rightarrow> nat \<Rightarrow> u8 list \<Rightarrow> bool" where
  "type_fits n off data \<longleftrightarrow> off + 12 \<le> n \<and> 0 \<le> btf_type_size (base_at data off) \<and>
     int off + btf_type_size (base_at data off) \<le> int n"

lemma parse_types_native:
  assumes "parse_types alloc False n off data offs = Inr (data', offs')"
  shows "off = n \<and> data' = data \<and> offs' = offs \<or>
    type_fits n off data \<and> alloc (length offs) \<and>
      parse_types alloc False n (off + nat (btf_type_size (base_at data off))) data (offs @ [off]) = Inr (data', offs')"
  using assms by (subst (asm) parse_types.simps) (auto simp: Let_def type_fits_def split: if_splits)

lemma parse_types_swapped_step:
  assumes fits: "type_fits n off N" and len: "length N = n" and al: "alloc (length offs)"
  defines "sz \<equiv> nat (btf_type_size (base_at N off))"
  defines "k \<equiv> 3 + rest_words (base_at N off)"
  defines "chunk \<equiv> take sz (drop off N)"
  shows "parse_types alloc True n off (take off N @ rev_words k chunk @ r) offs =
    parse_types alloc True n (off + sz) (take off N @ chunk @ r) (offs @ [off])"
proof -
  let ?t = "base_at N off" and ?pre = "take off N"
  have sz: "btf_type_size ?t = int sz" "sz = 12 + 4 * rest_words ?t" "off + sz \<le> n" "off + 12 \<le> n"
    using fits rest_words_size [of ?t] by (auto simp: type_fits_def sz_def)
  have pre: "length ?pre = off" and cl: "length chunk = sz" using sz len by (auto simp: chunk_def)
  have sp: "rev_words k chunk = rev_words 3 (take 12 chunk) @ rev_words (rest_words ?t) (drop 12 chunk)"
    using rev_words_add [of 3 chunk "rest_words ?t"] cl sz(2) by (simp add: k_def)
  define D1 where "D1 = ?pre @ take 12 chunk @ rev_words (rest_words ?t) (drop 12 chunk) @ r"
  have b1: "btf_bswap_type_base off (?pre @ rev_words k chunk @ r) = D1"
    using pre cl sz(2) by (simp add: btf_bswap_type_base_def swap_words_eq sp D1_def rev_words_append rev_words_twice min_def)
  have "take 12 (drop off N) = take 12 chunk" using sz(2) by (simp add: chunk_def min_def)
  then have b2: "base_at D1 off = ?t"
    using base_at_drop [of D1 off] base_at_drop [of N off] pre cl sz(2) len
      base_at_prefix [of "take 12 chunk" "rev_words (rest_words ?t) (drop 12 chunk) @ r"]
      base_at_prefix [of "drop off N" "[]"] sz(4)
    by (simp add: D1_def)
  have b3: "swap_words (rest_words ?t) (off + 12) D1 = ?pre @ chunk @ r"
    using pre cl sz(2) by (simp add: D1_def swap_words_eq rev_words_append rev_words_twice min_def)
  show ?thesis
    using b1 b2 b3 bswap_rest_eq [of D1 off] sz(1,3,4) al by (subst parse_types.simps) (simp add: Let_def)
qed

lemma parse_types_round_trip:
  assumes "parse_types alloc False n off N offs = Inr (N', offs')" and "length N = n"
  shows "N' = N \<and> (\<exists>new S. offs' = offs @ new \<and> (\<forall>o1\<in>set new. off \<le> o1) \<and> swap_types new N = Inr S \<and>
    length S = n \<and> take off S = take off N \<and> parse_types alloc True n off S offs = Inr (N, offs'))"
  using assms
proof (induction "n - off" arbitrary: off offs rule: less_induct)
  case less
  consider (fin) "off = n" "N' = N" "offs' = offs" | (step) "type_fits n off N" "alloc (length offs)"
    "parse_types alloc False n (off + nat (btf_type_size (base_at N off))) N (offs @ [off]) = Inr (N', offs')"
    using parse_types_native [OF less.prems(1)] by blast
  then show ?case
  proof cases
    case fin
    then have "parse_types alloc True n off N offs = Inr (N, offs)" by (subst parse_types.simps) simp
    then show ?thesis using fin less.prems(2) by (intro conjI exI [of _ "[]"] exI [of _ N]) simp_all
  next
    case step
    let ?t = "base_at N off"
    define sz where "sz = nat (btf_type_size ?t)"
    define chunk where "chunk = take sz (drop off N)"
    define k where "k = 3 + rest_words ?t"
    have sz: "sz = 12 + 4 * rest_words ?t" "off + sz \<le> n" and nn: "0 \<le> btf_type_size ?t"
      using step(1) rest_words_size [of ?t] by (auto simp: type_fits_def sz_def)
    have "n - (off + sz) < n - off" using sz by simp
    from less.hyps [OF this step(3) [folded sz_def] less.prems(2)]
    obtain new S where ih: "N' = N" "offs' = (offs @ [off]) @ new" "\<forall>o1\<in>set new. off + sz \<le> o1" "swap_types new N = Inr S"
      "length S = n" "take (off + sz) S = take (off + sz) N" "parse_types alloc True n (off + sz) S (offs @ [off]) = Inr (N, offs')"
      by blast
    have pre: "length (take off N) = off" and cl: "length chunk = sz" using sz less.prems(2) by (auto simp: chunk_def)
    have N: "take (off + sz) N = take off N @ chunk" by (simp add: chunk_def take_add)
    then have N1: "N = (take off N @ chunk) @ drop (off + sz) N" by (metis append_take_drop_id)
    have one: "swap_words 3 off (swap_words (rest_words ?t) (off + 12) N) = (take off N @ rev_words k chunk) @ drop (off + sz) N"
      using pre cl sz rev_words_add [of 3 chunk "rest_words ?t"]
      by (subst (2) N1) (simp add: swap_words_eq rev_words_append k_def min_def)
    have "length (take off N @ rev_words k chunk) = off + sz" "length (take off N @ chunk) = off + sz" using pre cl by simp_all
    from swap_types_prefix [OF this(2,1) ih(3), of "drop (off + sz) N" S] ih(4) N1
    obtain r' where r': "S = (take off N @ chunk) @ r'"
      "swap_types new ((take off N @ rev_words k chunk) @ drop (off + sz) N) = Inr ((take off N @ rev_words k chunk) @ r')"
      "length r' = length (drop (off + sz) N)" by auto
    define T where "T = (take off N @ rev_words k chunk) @ r'"
    have "swap_types (off # new) N = Inr T"
      using bswap_rest_eq [OF nn] one r'(2) by (simp add: btf_bswap_type_base_def T_def)
    moreover have "parse_types alloc True n off T offs = Inr (N, offs')"
      using parse_types_swapped_step [OF step(1) less.prems(2), of alloc offs r'] step(2) ih(7) r'(1)
      by (simp add: T_def k_def chunk_def sz_def)
    moreover have "length T = n" "take off T = take off N" using r'(3) pre cl sz(2) less.prems(2) by (simp_all add: T_def)
    moreover have "\<forall>o1\<in>set (off # new). off \<le> o1" using ih(3) by auto
    ultimately show ?thesis using ih(1,2) by (intro conjI exI [of _ "off # new"] exI [of _ T]) simp_all
  qed
qed

section \<open>Well-formed instances\<close>

text \<open>The index tiles the section: each type starts where the one before it ends, and ends in the section.\<close>

fun tiles :: "nat \<Rightarrow> u8 list \<Rightarrow> nat \<Rightarrow> nat list \<Rightarrow> bool" where
  "tiles n data off [] \<longleftrightarrow> off = n"
| "tiles n data off (o1 # os) \<longleftrightarrow> o1 = off \<and> type_fits n off data \<and>
     tiles n data (off + nat (btf_type_size (base_at data off))) os"

definition btf_wf :: "bool \<Rightarrow> btf \<Rightarrow> bool" where
  "btf_wf has_base b \<longleftrightarrow> length (bf_types_data b) = unat (hd_type_len (bf_hdr b)) \<and>
     tiles (length (bf_types_data b)) (bf_types_data b) 0 (bf_type_offs b) \<and>
     length (bf_strs_data b) = unat (hd_str_len (bf_hdr b)) \<and>
     btf_parse_str_sec has_base (bf_strs_data b) = 0"

fun chain_ok :: "btf_chain \<Rightarrow> bool" where
  "chain_ok [] \<longleftrightarrow> True"
| "chain_ok (b # base) \<longleftrightarrow> btf_wf (base \<noteq> []) b \<and>
     bf_start_id b = (if base = [] then 1 else btf__type_cnt base) \<and>
     bf_start_str_off b = (if base = [] then 0 else unat (hd_str_len (bf_hdr (hd base)))) \<and> chain_ok base"

lemma base_at_agree:
  assumes "take (off + 12) d' = take (off + 12) d"
  shows "base_at d' off = base_at d off"
proof -
  have "take 4 (drop (off + k) e) = take 4 (drop (off + k) (take (off + 12) e))" if "k \<le> 8" for k and e :: "u8 list"
    using that by (simp add: drop_take min_def)
  then have "word_at d' (off + k) = word_at d (off + k)" if "k \<le> 8" for k
    using that assms unfolding word_at_def by metis
  from this [of 0] this [of 4] this [of 8] show ?thesis by (simp add: base_at_def)
qed

lemma take_agree: "take m a = take m b \<Longrightarrow> k \<le> m \<Longrightarrow> take k a = take k b"
  by (metis min.absorb1 take_take)

lemma parse_types_tiles:
  assumes "parse_types alloc swapped n off data offs = Inr (data', offs')" and "length data = n"
  shows "length data' = n \<and> take off data' = take off data \<and> (\<exists>new. offs' = offs @ new \<and> tiles n data' off new)"
  using assms
proof (induction "n - off" arbitrary: off data offs rule: less_induct)
  case less
  define d1 where "d1 = (if swapped then btf_bswap_type_base off data else data)"
  define sz where "sz = btf_type_size (base_at d1 off)"
  define d2 where "d2 = (if swapped then swap_words (rest_words (base_at d1 off)) (off + 12) d1 else d1)"
  show ?case
  proof (cases "off + 12 \<le> n")
    case False
    then have "off = n \<and> data' = data \<and> offs' = offs"
      using less.prems(1) by (subst (asm) parse_types.simps) (auto split: if_splits)
    then show ?thesis using less.prems(2) by simp
  next
    case True
    have nn: "0 \<le> sz" "int off + sz \<le> int n" and p: "parse_types alloc swapped n (off + nat sz) d2 (offs @ [off]) = Inr (data', offs')"
      using less.prems(1) True bswap_rest_eq [of d1 off]
      by (subst (asm) parse_types.simps; auto simp: Let_def d1_def sz_def d2_def split: if_splits prod.splits)+
    have "12 \<le> sz" using nn(1) btf_type_size_cases [of "base_at d1 off"] by (auto simp: sz_def EINVAL_def)
    then have lt: "n - (off + nat sz) < n - off" and ge: "off + 12 \<le> off + nat sz" using True by auto
    have len: "length d2 = n" "take off d2 = take off data"
      using less.prems(2) True by (auto simp: d2_def d1_def btf_bswap_type_base_def swap_words_eq)
    have b2: "base_at d2 off = base_at d1 off"
      using True less.prems(2) by (intro base_at_agree) (auto simp: d2_def swap_words_eq d1_def btf_bswap_type_base_def)
    from less.hyps [OF lt p len(1)] obtain new where ih: "length data' = n" "take (off + nat sz) data' = take (off + nat sz) d2"
      "offs' = (offs @ [off]) @ new" "tiles n data' (off + nat sz) new" by blast
    have b': "base_at data' off = base_at d1 off" using base_at_agree [OF take_agree [OF ih(2) ge]] b2 by simp
    have "tiles n data' off (off # new)" using ih(4) True nn by (simp add: b' type_fits_def sz_def)
    moreover have "take off data' = take off data" using take_agree [OF ih(2), of off] len(2) by simp
    ultimately show ?thesis using ih(1,3) by (intro conjI exI [of _ "off # new"]) simp_all
  qed
qed

lemma parse_hdr_bounds:
  assumes "btf_parse_hdr raw = Inr (swapped, hdr)"
  shows "unat (hd_hdr_len hdr) + unat (hd_str_off hdr) + unat (hd_str_len hdr) \<le> length raw"
    and "unat (hd_type_off hdr) + unat (hd_type_len hdr) \<le> unat (hd_str_off hdr)"
  using assms by (auto simp: btf_parse_hdr_def Let_def split: if_splits)

lemma btf_new_chain_ok:
  assumes "btf_new calloc_ok malloc_ok alloc base data = Inr b" and "chain_ok base"
  shows "chain_ok (b # base)"
proof -
  obtain swapped hdr where h: "btf_parse_hdr data = Inr (swapped, hdr)" using assms(1) by (auto simp: btf_new_def split: if_splits)
  define strs where "strs = sub_bytes (unat (hd_hdr_len hdr) + unat (hd_str_off hdr)) (unat (hd_str_len hdr)) data"
  define types where "types = sub_bytes (unat (hd_hdr_len hdr) + unat (hd_type_off hdr)) (unat (hd_type_len hdr)) data"
  note hb = parse_hdr_bounds [OF h]
  have len: "length strs = unat (hd_str_len hdr)" "length types = unat (hd_type_len hdr)"
    using hb by (auto simp: strs_def types_def sub_bytes_def)
  obtain ts offs where p: "parse_types alloc swapped (length types) 0 types [] = Inr (ts, offs)"
    and b: "b = \<lparr>bf_hdr = hdr, bf_swapped_endian = swapped, bf_types_data = ts, bf_type_offs = offs,
                  bf_start_id = (if base = [] then 1 else btf__type_cnt base),
                  bf_start_str_off = (if base = [] then 0 else unat (hd_str_len (bf_hdr (hd base)))),
                  bf_strs_data = strs, bf_ptr_sz = 0\<rparr>"
    and st: "btf_parse_str_sec (base \<noteq> []) strs = 0"
    using assms(1) h by (auto simp: btf_new_def Let_def strs_def [symmetric] types_def [symmetric] split: if_splits)
  from parse_types_tiles [OF p refl] have "length ts = length types" "tiles (length types) ts 0 offs" by auto
  then show ?thesis using b st len assms(2) by (simp add: btf_wf_def)
qed

lemma tiles_nth:
  "tiles n data off offs \<Longrightarrow> i < length offs \<Longrightarrow> type_fits n (offs ! i) data"
  by (induction n data off offs arbitrary: i rule: tiles.induct) (auto simp: nth_Cons split: nat.split)

lemma chain_type_by_id:
  assumes "chain_ok c" "c \<noteq> []" "tid < btf__type_cnt c"
  shows "\<exists>t. btf_type_by_id c tid = Inr t"
  using assms
proof (induction c)
  case (Cons b base)
  then show ?case by (cases base) (auto simp: btf__type_cnt_def)
qed simp

lemma chain_str_by_offset:
  assumes "chain_ok c" "c \<noteq> []"
  shows "\<exists>s. btf__str_by_offset c off = Inr s"
  using assms
proof (induction c)
  case (Cons b base)
  have "cstr_ok (bf_strs_data b) o1" if "o1 < length (bf_strs_data b)" for o1
  proof -
    have "bf_strs_data b \<noteq> []" using that by auto
    then have "last (bf_strs_data b) = 0"
      using Cons.prems(1) by (auto simp: btf_wf_def btf_parse_str_sec_def Let_def EINVAL_def split: if_splits)
    then show ?thesis using that unfolding cstr_ok_def by (metis drop_eq_Nil2 last_drop last_in_set not_le)
  qed
  then show ?case using Cons by (cases base) (auto simp: btf_wf_def Let_def)
qed simp

lemma tiles_parse:
  assumes "tiles n data off new" "length data = n"
  shows "parse_types (\<lambda>_. True) False n off data offs = Inr (data, offs @ new)"
  using assms
proof (induction n data off new arbitrary: offs rule: tiles.induct)
  case (1 n data off)
  then show ?case by (subst parse_types.simps) simp
next
  case (2 n data off o1 os)
  then show ?case by (subst parse_types.simps) (simp add: Let_def type_fits_def)
qed

lemma bswap_twice [simp]: "bswap_16 (bswap_16 v) = v" "bswap_32 (bswap_32 w) = w"
  using to_le_from_le [of "rev (to_le 2 v)", where 'a = 16] to_le_from_le [of "rev (to_le 4 w)", where 'a = 32]
  by (simp_all add: bswap_16_def bswap_32_def from_le_to_le)

lemma bswap_hdr_twice: "btf_bswap_hdr (btf_bswap_hdr h) = h"
  by (simp add: btf_bswap_hdr_def)

lemma magic_swapped: "bswap_16 BTF_MAGIC \<noteq> BTF_MAGIC"
proof
  assume "bswap_16 BTF_MAGIC = BTF_MAGIC"
  then have "bit (bswap_16 BTF_MAGIC) 2 = bit BTF_MAGIC 2" by simp
  moreover have "bit (bswap_16 BTF_MAGIC) 2 = bit BTF_MAGIC 10"
    by (simp add: bswap_16_def bit_from_le rev_nth nth_to_le bit_ucast_iff bit_drop_bit_eq)
  moreover have "bit BTF_MAGIC 2" "\<not> bit BTF_MAGIC 10" by (simp_all add: BTF_MAGIC_def)
  ultimately show False by simp
qed

lemma word_at_skip: "length xs \<le> off \<Longrightarrow> word_at (xs @ ys) off = word_at ys (off - length xs)"
  by (simp add: word_at_def)

lemma word_at_skip2: "2 \<le> off \<Longrightarrow> word_at (a # b # ys) off = word_at ys (off - 2)"
  using word_at_skip [of "[a, b]" off ys] by (simp add: numeral_2_eq_2)

lemma word_at_to_le [simp]: "word_at (to_le 4 w @ ys) 0 = w"
  by (simp add: word_at_def from_le_to_le)

lemma length_hdr_bytes [simp]: "length (hdr_bytes h) = 24"
  by (simp add: hdr_bytes_def)

lemma hdr_at_bytes: "hdr_at (hdr_bytes h @ r) = h"
proof -
  let ?w = "\<lambda>i. word_at (hdr_bytes h @ r) i"
  have "?w 4 = hd_hdr_len h" "?w 8 = hd_type_off h" "?w 12 = hd_type_len h" "?w 16 = hd_str_off h" "?w 20 = hd_str_len h"
    by (simp_all add: hdr_bytes_def word_at_skip word_at_skip2)
  moreover have "from_le (take 2 (hdr_bytes h @ r)) = hd_magic h" by (simp add: hdr_bytes_def from_le_to_le)
  moreover have "(hdr_bytes h @ r) ! 2 = hd_version h" "(hdr_bytes h @ r) ! 3 = hd_flags h"
    by (simp_all add: hdr_bytes_def nth_append)
  ultimately show ?thesis by (simp add: hdr_at_def)
qed

text \<open>The layout of data that \<open>btf_get_raw_data\<close> describes correctly: no gaps between the sections.\<close>

definition std_layout :: "btf_header \<Rightarrow> bool" where
  "std_layout h \<longleftrightarrow> hd_magic h = BTF_MAGIC \<and> hd_hdr_len h = 24 \<and> hd_type_off h = 0 \<and> hd_str_off h = hd_type_len h"

lemma parse_hdr_written:
  assumes "std_layout h" "length r = unat (hd_type_len h) + unat (hd_str_len h)"
  shows "btf_parse_hdr (hdr_bytes (if sw then btf_bswap_hdr h else h) @ r) = Inr (sw, h)"
proof -
  let ?raw = "hdr_bytes (if sw then btf_bswap_hdr h else h) @ r"
  have len: "length ?raw = 24 + unat (hd_type_len h) + unat (hd_str_len h)" using assms(2) by simp
  have m: "hd_magic (btf_bswap_hdr h) = bswap_16 BTF_MAGIC" "bswap_32 (hd_hdr_len (btf_bswap_hdr h)) = 24"
    using assms(1) by (simp_all add: btf_bswap_hdr_def std_layout_def)
  show ?thesis
    using assms(1) m magic_swapped unfolding btf_parse_hdr_def Let_def len hdr_at_bytes
    by (cases sw) (simp_all add: sizeof_btf_header_def bswap_hdr_twice std_layout_def)
qed

lemma raw_data_read_back:
  assumes "btf_wf False b" and "std_layout (bf_hdr b)"
  shows "\<exists>raw. btf_get_raw_data True swap_endian b = Some raw \<and>
    btf_new True True (\<lambda>_. True) [] raw =
      Inr (b\<lparr>bf_swapped_endian := swap_endian, bf_start_id := 1, bf_start_str_off := 0, bf_ptr_sz := 0\<rparr>)"
proof -
  let ?n = "length (bf_types_data b)" and ?h = "bf_hdr b" and ?d = "bf_types_data b"
  have wf: "?n = unat (hd_type_len ?h)" "tiles ?n ?d 0 (bf_type_offs b)" "length (bf_strs_data b) = unat (hd_str_len ?h)"
    "btf_parse_str_sec False (bf_strs_data b) = 0" using assms(1) by (auto simp: btf_wf_def)
  have nat: "parse_types (\<lambda>_. True) False ?n 0 ?d [] = Inr (?d, bf_type_offs b)" using tiles_parse [OF wf(2) refl, of "[]"] by simp
  obtain S where S: "swap_types (bf_type_offs b) ?d = Inr S" "length S = ?n"
    "parse_types (\<lambda>_. True) True ?n 0 S [] = Inr (?d, bf_type_offs b)"
    using parse_types_round_trip [OF nat refl] by auto
  define T where "T = (if swap_endian then S else ?d)"
  have T: "length T = ?n" "parse_types (\<lambda>_. True) swap_endian ?n 0 T [] = Inr (?d, bf_type_offs b)"
    using S nat by (auto simp: T_def)
  define raw where "raw = hdr_bytes (if swap_endian then btf_bswap_hdr ?h else ?h) @ T @ bf_strs_data b"
  have g: "btf_get_raw_data True swap_endian b = Some raw"
    using S(1) wf(3) by (simp add: btf_get_raw_data_def raw_def T_def Let_def)
  have h: "btf_parse_hdr raw = Inr (swap_endian, ?h)"
    unfolding raw_def by (rule parse_hdr_written [OF assms(2)]) (simp add: T(1) wf)
  have lay: "hd_hdr_len ?h = 24" "hd_type_off ?h = 0" "hd_str_off ?h = hd_type_len ?h" using assms(2) by (auto simp: std_layout_def)
  have strs: "sub_bytes (unat (hd_hdr_len ?h) + unat (hd_str_off ?h)) (unat (hd_str_len ?h)) raw = bf_strs_data b"
    using T(1) wf(1,3) by (simp add: raw_def sub_bytes_def lay)
  have types: "sub_bytes (unat (hd_hdr_len ?h) + unat (hd_type_off ?h)) (unat (hd_type_len ?h)) raw = T"
    using T(1) wf(1) by (simp add: raw_def sub_bytes_def lay)
  have "btf_new True True (\<lambda>_. True) [] raw =
      Inr (b\<lparr>bf_swapped_endian := swap_endian, bf_start_id := 1, bf_start_str_off := 0, bf_ptr_sz := 0\<rparr>)"
    using h T wf(4) by (simp add: btf_new_def strs types Let_def)
  with g show ?thesis by blast
qed

lemma sample_wf: "btf_wf False sample_btf"
  by (simp add: btf_wf_def) (simp add: sample_btf_def btf_parse_str_sec_def BTF_MAX_STR_OFFSET_def type_fits_def base_at_def
      word_at_def btf_type_size_def btf_kind_def btf_vlen_def btf_kinds Let_def)

lemma sample_layout: "std_layout (bf_hdr sample_btf)"
  by (simp add: std_layout_def sample_btf_def BTF_MAGIC_def)

section \<open>Properties\<close>

text \<open>
  C3. Accepting BTF means it can be read safely. For data of either byte order that \<open>btf_new\<close> accepts
  on top of a well-formed chain of instances, every lookup by an id below the count finds a type, the
  types of the new instance lie in its section with all their members, and every string offset is
  answered without a read outside the string sections.
\<close>

theorem btf_new_memory_safe:
  assumes "btf_new calloc_ok malloc_ok alloc base data = Inr b" and "chain_ok base"
  shows "chain_ok (b # base) \<and>
    (\<forall>tid<btf__type_cnt (b # base). \<exists>t. btf_type_by_id (b # base) tid = Inr t) \<and>
    (\<forall>i<bf_nr_types b. type_fits (length (bf_types_data b)) (bf_type_offs b ! i) (bf_types_data b)) \<and>
    (\<forall>off. \<exists>s. btf__str_by_offset (b # base) off = Inr s)"
proof -
  have ok: "chain_ok (b # base)" using btf_new_chain_ok [OF assms] .
  then show ?thesis
    using chain_type_by_id [OF ok] chain_str_by_offset [OF ok] tiles_nth by (auto simp: btf_wf_def bf_nr_types_def)
qed

theorem btf_new_memory_safe_witness:
  "\<exists>raw b t. btf_new True True (\<lambda>_. True) [] raw = Inr b \<and> chain_ok [b] \<and> btf_type_by_id [b] 1 = Inr t \<and>
    type_fits (length (bf_types_data b)) (bf_type_offs b ! 0) (bf_types_data b)"
proof -
  obtain raw where n: "btf_new True True (\<lambda>_. True) [] raw = Inr (sample_btf\<lparr>bf_swapped_endian := False\<rparr>)"
    using raw_data_read_back [OF sample_wf sample_layout, of False] by (auto simp: sample_btf_def)
  have "1 < btf__type_cnt [sample_btf\<lparr>bf_swapped_endian := False\<rparr>]" "0 < bf_nr_types (sample_btf\<lparr>bf_swapped_endian := False\<rparr>)"
    by (simp_all add: btf__type_cnt_def bf_nr_types_def sample_btf_def)
  then show ?thesis using btf_new_memory_safe [OF n] n by (metis chain_ok.simps(1))
qed

text \<open>
  C11. Round trip through either byte order. An instance without gaps between its sections is written
  by \<open>btf_get_raw_data\<close>, in native or in swapped order, as data that \<open>btf_new\<close> reads back to the same
  header, types, index and strings, with the byte order recorded.
\<close>

theorem btf_raw_data_round_trip:
  assumes "btf_wf False b" and "std_layout (bf_hdr b)"
  shows "\<exists>raw. btf_get_raw_data True swap_endian b = Some raw \<and>
    btf_new True True (\<lambda>_. True) [] raw =
      Inr (b\<lparr>bf_swapped_endian := swap_endian, bf_start_id := 1, bf_start_str_off := 0, bf_ptr_sz := 0\<rparr>)"
  using assms by (rule raw_data_read_back)

theorem btf_raw_data_round_trip_witness:
  "\<exists>raw. btf_get_raw_data True True sample_btf = Some raw \<and>
    btf_new True True (\<lambda>_. True) [] raw = Inr (sample_btf\<lparr>bf_swapped_endian := True\<rparr>)"
  using btf_raw_data_round_trip [OF sample_wf sample_layout, of True] by (simp add: sample_btf_def)

end
