(* ===== verification/Hashmap.thy ===== *)
theory Hashmap
  imports Errno "HOL-Library.Multiset"
begin

text \<open>
  The chained hash table of \<open>libbpf/src/hashmap.c\<close> and \<open>hashmap.h\<close>. The table's \<open>hash_fn\<close> and \<open>equal_fn\<close>,
  applied to its \<open>ctx\<close>, are the arguments \<open>hash\<close> and \<open>eq\<close> of the operations; a chain is a list of
  entries; \<open>buckets\<close> is \<open>None\<close> for the null pointer; the answers of the allocator are arguments.
\<close>

section \<open>Data and hashing\<close>

record ('k, 'v) hashmap =
  hm_buckets :: "('k \<times> 'v) list list option"
  hm_cap :: nat
  hm_cap_bits :: nat
  hm_sz :: nat

datatype hashmap_insert_strategy = HASHMAP_ADD | HASHMAP_SET | HASHMAP_UPDATE | HASHMAP_APPEND

definition HASHMAP_MIN_CAP_BITS :: nat where "HASHMAP_MIN_CAP_BITS = 2"

definition hash_bits :: "u64 \<Rightarrow> nat \<Rightarrow> u64" where
  "hash_bits h bits = (if bits = 0 then 0 else drop_bit (64 - bits) (h * 11400714819323198485))"

text \<open>\<open>char\<close> is signed on the platforms the library is built for here, so that it is sign-extended.\<close>

primrec str_hash_from :: "u64 \<Rightarrow> u8 list \<Rightarrow> u64" where
  "str_hash_from h [] = h"
| "str_hash_from h (c # s) = str_hash_from (h * 31 + scast c) s"

definition str_hash :: "u8 list \<Rightarrow> u64" where
  "str_hash s = str_hash_from 0 s"

section \<open>Operations\<close>

definition hashmap__init :: "('k, 'v) hashmap" where
  "hashmap__init = \<lparr>hm_buckets = None, hm_cap = 0, hm_cap_bits = 0, hm_sz = 0\<rparr>"

definition hashmap__new :: "bool \<Rightarrow> err + ('k, 'v) hashmap" where
  "hashmap__new malloc_ok = (if \<not> malloc_ok then Inl (Errno (- ENOMEM)) else Inr hashmap__init)"

definition hashmap__clear :: "('k, 'v) hashmap \<Rightarrow> ('k, 'v) hashmap" where
  "hashmap__clear m = m\<lparr>hm_buckets := None, hm_cap := 0, hm_cap_bits := 0, hm_sz := 0\<rparr>"

definition hashmap__size :: "('k, 'v) hashmap \<Rightarrow> nat" where
  "hashmap__size m = hm_sz m"

definition hashmap__capacity :: "('k, 'v) hashmap \<Rightarrow> nat" where
  "hashmap__capacity m = hm_cap m"

text \<open>The entries in the order of \<open>hashmap__for_each_entry\<close>.\<close>

definition hashmap_entries :: "('k, 'v) hashmap \<Rightarrow> ('k \<times> 'v) list" where
  "hashmap_entries m = (case hm_buckets m of None \<Rightarrow> [] | Some bs \<Rightarrow> concat (take (hm_cap m) bs))"

definition hashmap_needs_to_grow :: "('k, 'v) hashmap \<Rightarrow> bool" where
  "hashmap_needs_to_grow m \<longleftrightarrow> hm_cap m = 0 \<or> (hm_sz m + 1) * 4 div 3 > hm_cap m"

definition hashmap_add_entry :: "nat \<Rightarrow> 'k \<times> 'v \<Rightarrow> ('k \<times> 'v) list list \<Rightarrow> fault + ('k \<times> 'v) list list" where
  "hashmap_add_entry h e bs = (if h < length bs then Inr (bs[h := e # bs ! h]) else Inl Out_Of_Bounds)"

text \<open>\<open>calloc\<close> fails when the allocator has no memory and when the size overflows.\<close>

definition hashmap_grow :: "('k \<Rightarrow> u64) \<Rightarrow> bool \<Rightarrow> ('k, 'v) hashmap \<Rightarrow> fault + (int \<times> ('k, 'v) hashmap)" where
  "hashmap_grow hash calloc_ok m =
     (let new_cap_bits = hm_cap_bits m + 1;
          new_cap_bits = (if new_cap_bits < HASHMAP_MIN_CAP_BITS then HASHMAP_MIN_CAP_BITS else new_cap_bits)
      in if new_cap_bits \<ge> 64 then Inl Shift_Range
      else
       (let new_cap = 2 ^ new_cap_bits in
        if \<not> (calloc_ok \<and> int new_cap * 8 < 2 ^ 64) then Inr (- ENOMEM, m)
        else bindR (foldR (\<lambda>e bs. hashmap_add_entry (unat (hash_bits (hash (fst e)) new_cap_bits)) e bs)
                      (hashmap_entries m) (replicate new_cap []))
               (\<lambda>bs. Inr (0, m\<lparr>hm_cap := new_cap, hm_cap_bits := new_cap_bits, hm_buckets := Some bs\<rparr>))))"

text \<open>The position of the first matching entry in a chain, and the entry.\<close>

fun chain_find :: "('k \<Rightarrow> 'k \<Rightarrow> bool) \<Rightarrow> 'k \<Rightarrow> ('k \<times> 'v) list \<Rightarrow> (nat \<times> 'k \<times> 'v) option" where
  "chain_find eq key [] = None"
| "chain_find eq key (e # c) =
     (if eq (fst e) key then Some (0, e) else map_option (\<lambda>(i, e). (Suc i, e)) (chain_find eq key c))"

definition hashmap_find_entry ::
  "('k \<Rightarrow> 'k \<Rightarrow> bool) \<Rightarrow> ('k, 'v) hashmap \<Rightarrow> 'k \<Rightarrow> nat \<Rightarrow> fault + (nat \<times> 'k \<times> 'v) option" where
  "hashmap_find_entry eq m key h = (case hm_buckets m of None \<Rightarrow> Inr None
     | Some bs \<Rightarrow> if h < length bs then Inr (chain_find eq key (bs ! h)) else Inl Out_Of_Bounds)"

definition map_bucket :: "nat \<Rightarrow> (('k \<times> 'v) list \<Rightarrow> ('k \<times> 'v) list) \<Rightarrow> ('k, 'v) hashmap \<Rightarrow> ('k, 'v) hashmap" where
  "map_bucket h f m = m\<lparr>hm_buckets := map_option (\<lambda>bs. bs[h := f (bs ! h)]) (hm_buckets m)\<rparr>"

text \<open>The result: return value, the old entry stored through \<open>old_key\<close> and \<open>old_value\<close>, the table.\<close>

definition hashmap__insert ::
  "('k \<Rightarrow> u64) \<Rightarrow> ('k \<Rightarrow> 'k \<Rightarrow> bool) \<Rightarrow> bool \<Rightarrow> bool \<Rightarrow> hashmap_insert_strategy \<Rightarrow> 'k \<Rightarrow> 'v \<Rightarrow> ('k, 'v) hashmap \<Rightarrow>
     fault + (int \<times> ('k \<times> 'v) option \<times> ('k, 'v) hashmap)" where
  "hashmap__insert hash eq calloc_ok malloc_ok strategy key val m =
     (let h = unat (hash_bits (hash key) (hm_cap_bits m)) in
      bindR (if strategy \<noteq> HASHMAP_APPEND then hashmap_find_entry eq m key h else Inr None) (\<lambda>found.
        case found of
          Some (i, old) \<Rightarrow>
            if strategy = HASHMAP_SET \<or> strategy = HASHMAP_UPDATE
            then Inr (0, Some old, map_bucket h (\<lambda>c. c[i := (key, val)]) m)
            else Inr (- EEXIST, Some old, m)
        | None \<Rightarrow>
            if strategy = HASHMAP_UPDATE then Inr (- ENOENT, None, m)
            else
              bindR (if hashmap_needs_to_grow m then hashmap_grow hash calloc_ok m else Inr (0, m)) (\<lambda>(err, m).
                if err \<noteq> 0 then Inr (err, None, m)
                else if \<not> malloc_ok then Inr (- ENOMEM, None, m)
                else (case hm_buckets m of None \<Rightarrow> Inl Out_Of_Bounds
                  | Some bs \<Rightarrow>
                      bindR (hashmap_add_entry (unat (hash_bits (hash key) (hm_cap_bits m))) (key, val) bs) (\<lambda>bs.
                        Inr (0, None, m\<lparr>hm_buckets := Some bs, hm_sz := hm_sz m + 1\<rparr>))))))"

definition hashmap__find ::
  "('k \<Rightarrow> u64) \<Rightarrow> ('k \<Rightarrow> 'k \<Rightarrow> bool) \<Rightarrow> ('k, 'v) hashmap \<Rightarrow> 'k \<Rightarrow> fault + 'v option" where
  "hashmap__find hash eq m key =
     bindR (hashmap_find_entry eq m key (unat (hash_bits (hash key) (hm_cap_bits m)))) (\<lambda>found.
       Inr (map_option (snd \<circ> snd) found))"

definition remove_nth :: "nat \<Rightarrow> 'a list \<Rightarrow> 'a list" where
  "remove_nth i c = take i c @ drop (Suc i) c"

definition hashmap__delete ::
  "('k \<Rightarrow> u64) \<Rightarrow> ('k \<Rightarrow> 'k \<Rightarrow> bool) \<Rightarrow> 'k \<Rightarrow> ('k, 'v) hashmap \<Rightarrow> fault + (('k \<times> 'v) option \<times> ('k, 'v) hashmap)" where
  "hashmap__delete hash eq key m =
     (let h = unat (hash_bits (hash key) (hm_cap_bits m)) in
      bindR (hashmap_find_entry eq m key h) (\<lambda>found. case found of None \<Rightarrow> Inr (None, m)
        | Some (i, old) \<Rightarrow> Inr (Some old, (map_bucket h (remove_nth i) m)\<lparr>hm_sz := hm_sz m - 1\<rparr>)))"

text \<open>The entries visited by \<open>hashmap__for_each_key_entry\<close>.\<close>

definition hashmap_key_entries :: "('k \<Rightarrow> u64) \<Rightarrow> ('k \<Rightarrow> 'k \<Rightarrow> bool) \<Rightarrow> ('k, 'v) hashmap \<Rightarrow> 'k \<Rightarrow> fault + ('k \<times> 'v) list" where
  "hashmap_key_entries hash eq m key = (case hm_buckets m of None \<Rightarrow> Inr []
     | Some bs \<Rightarrow> (let h = unat (hash_bits (hash key) (hm_cap_bits m)) in
         if h < length bs then Inr (filter (\<lambda>e. eq (fst e) key) (bs ! h)) else Inl Out_Of_Bounds))"

section \<open>Representation invariant and abstraction\<close>

definition chains_ok :: "('k \<Rightarrow> u64) \<Rightarrow> nat \<Rightarrow> ('k \<times> 'v) list list \<Rightarrow> bool" where
  "chains_ok hash bits bs \<longleftrightarrow> length bs = 2 ^ bits \<and>
     (\<forall>i<length bs. \<forall>e\<in>set (bs ! i). unat (hash_bits (hash (fst e)) bits) = i)"

definition hm_inv :: "('k \<Rightarrow> u64) \<Rightarrow> ('k, 'v) hashmap \<Rightarrow> bool" where
  "hm_inv hash m \<longleftrightarrow> (case hm_buckets m of None \<Rightarrow> hm_cap m = 0 \<and> hm_cap_bits m = 0 \<and> hm_sz m = 0
     | Some bs \<Rightarrow> 2 \<le> hm_cap_bits m \<and> hm_cap_bits m \<le> 60 \<and> hm_cap m = 2 ^ hm_cap_bits m \<and>
         chains_ok hash (hm_cap_bits m) bs \<and> hm_sz m = length (concat bs))"

text \<open>Keys are unique up to \<open>eq\<close> unless \<open>HASHMAP_APPEND\<close> is used; the table then stands for a finite map.\<close>

definition keys_unique :: "('k \<Rightarrow> 'k \<Rightarrow> bool) \<Rightarrow> ('k \<times> 'v) list \<Rightarrow> bool" where
  "keys_unique eq es \<longleftrightarrow> distinct es \<and> (\<forall>e\<in>set es. \<forall>e'\<in>set es. eq (fst e) (fst e') \<longrightarrow> e = e')"

definition assoc_find :: "('k \<Rightarrow> 'k \<Rightarrow> bool) \<Rightarrow> ('k \<times> 'v) list \<Rightarrow> 'k \<Rightarrow> 'v option" where
  "assoc_find eq es k = map_option snd (List.find (\<lambda>e. eq (fst e) k) es)"

definition hm_map :: "('k \<Rightarrow> 'k \<Rightarrow> bool) \<Rightarrow> ('k, 'v) hashmap \<Rightarrow> 'k \<Rightarrow> 'v option" where
  "hm_map eq m = assoc_find eq (hashmap_entries m)"

definition upd_key :: "('k \<Rightarrow> 'k \<Rightarrow> bool) \<Rightarrow> ('k \<Rightarrow> 'v option) \<Rightarrow> 'k \<Rightarrow> 'v option \<Rightarrow> 'k \<Rightarrow> 'v option" where
  "upd_key eq f key v = (\<lambda>k. if eq key k then v else f k)"

text \<open>The entry an insertion reports as replaced, as a multiset.\<close>

definition replaced :: "('k \<times> 'v) option \<Rightarrow> ('k \<times> 'v) multiset" where
  "replaced old = (case old of None \<Rightarrow> {#} | Some e \<Rightarrow> {#e#})"

lemma replaced_simps [simp]: "replaced None = {#}" "replaced (Some e) = {#e#}"
  by (simp_all add: replaced_def)

section \<open>Lemmas\<close>

lemma hash_bits_less: "bits \<le> 64 \<Longrightarrow> unat (hash_bits h bits) < 2 ^ bits"
proof -
  assume b: "bits \<le> 64"
  show ?thesis
  proof (cases "bits = 0")
    case True
    then show ?thesis by (simp add: hash_bits_def)
  next
    case False
    define w :: u64 where "w = h * 11400714819323198485"
    have "unat w < 2 ^ (64 - bits) * 2 ^ bits"
      using unsigned_less [of w, where 'a = nat] b by (simp add: power_add [symmetric])
    then have "unat w div 2 ^ (64 - bits) < 2 ^ bits"
      by (simp add: less_mult_imp_div_less mult.commute)
    moreover have "unat (drop_bit (64 - bits) w) = unat w div 2 ^ (64 - bits)"
      unfolding unat_drop_bit_eq by (rule drop_bit_eq_div)
    ultimately show ?thesis using False by (simp only: hash_bits_def w_def [symmetric] if_False)
  qed
qed

lemma mset_concat_update:
  assumes "h < length bs"
  shows "mset (concat (bs[h := c])) + mset (bs ! h) = mset (concat bs) + mset c"
proof -
  have "bs = take h bs @ bs ! h # drop (Suc h) bs" using assms by (rule id_take_nth_drop)
  then have "mset (concat bs) = mset (concat (take h bs)) + mset (bs ! h) + mset (concat (drop (Suc h) bs))"
    by (metis concat.simps(2) concat_append mset_append add.assoc)
  moreover have "mset (concat (bs[h := c])) = mset (concat (take h bs)) + mset c + mset (concat (drop (Suc h) bs))"
    using assms by (simp add: upd_conv_take_nth_drop)
  ultimately show ?thesis by simp
qed

lemma mset_exchange:
  fixes a b c d x y :: "'a multiset"
  assumes "a + x = b + y" "c + b = d + a"
  shows "c + x = d + y"
proof -
  have "(c + x) + b = (c + b) + x" by (simp only: ac_simps)
  also have "\<dots> = d + (a + x)" unfolding assms(2) by (simp only: ac_simps)
  also have "\<dots> = (d + y) + b" unfolding assms(1) by (simp only: ac_simps)
  finally show ?thesis by (simp only: add_right_cancel)
qed

lemma mset_len_same: "mset xs + {#x#} = mset ys + {#y#} \<Longrightarrow> length xs = length ys"
  by (drule arg_cong [where f = size]) simp

lemma mset_len_Suc: "mset xs + {#x#} = mset ys \<Longrightarrow> length ys = Suc (length xs)"
  by (drule arg_cong [where f = size]) simp

lemma chains_ok_update:
  assumes "chains_ok hash bits bs" "h < length bs"
    and "\<And>e. e \<in> set c \<Longrightarrow> e \<in> set (bs ! h) \<or> unat (hash_bits (hash (fst e)) bits) = h"
  shows "chains_ok hash bits (bs[h := c])"
  unfolding chains_ok_def
proof (intro conjI allI ballI impI)
  show "length (bs[h := c]) = 2 ^ bits" using assms(1) by (simp add: chains_ok_def)
next
  fix i e assume i: "i < length (bs[h := c])" and e: "e \<in> set (bs[h := c] ! i)"
  show "unat (hash_bits (hash (fst e)) bits) = i"
    using assms(1,2) assms(3) [of e] i e by (cases "i = h") (auto simp: chains_ok_def)
qed

lemma add_entry_ok:
  fixes e :: "'k \<times> 'v"
  assumes "chains_ok hash bits bs" "bits \<le> 64"
  defines "h \<equiv> unat (hash_bits (hash (fst e)) bits)"
  shows "\<exists>bs'. hashmap_add_entry h e bs = Inr bs' \<and> chains_ok hash bits bs' \<and>
    mset (concat bs') = mset (concat bs) + {#e#}"
proof -
  have h: "h < length bs" using assms hash_bits_less [OF assms(2)] by (simp add: chains_ok_def)
  have "chains_ok hash bits (bs[h := e # bs ! h])"
    using assms(1) h by (rule chains_ok_update) (auto simp: h_def)
  moreover have "mset (concat (bs[h := e # bs ! h])) = mset (concat bs) + {#e#}"
    using mset_concat_update [OF h, of "e # bs ! h"] by simp
  ultimately show ?thesis using h by (simp add: hashmap_add_entry_def)
qed

lemma rehash_ok:
  assumes "chains_ok hash bits bs" "bits \<le> 64"
  shows "\<exists>bs'. foldR (\<lambda>e bs. hashmap_add_entry (unat (hash_bits (hash (fst e)) bits)) e bs) es bs = Inr bs' \<and>
    chains_ok hash bits bs' \<and> mset (concat bs') = mset (concat bs) + mset es"
  using assms
proof (induction es arbitrary: bs)
  case Nil
  then show ?case by simp
next
  case (Cons e es)
  obtain bs1 where bs1: "hashmap_add_entry (unat (hash_bits (hash (fst e)) bits)) e bs = Inr bs1"
    "chains_ok hash bits bs1" "mset (concat bs1) = mset (concat bs) + {#e#}"
    using add_entry_ok [OF Cons.prems] by blast
  from Cons.IH [OF bs1(2) Cons.prems(2)] bs1 show ?case by auto
qed

lemma concat_replicate_Nil: "concat (replicate n []) = []"
  by (induction n) simp_all

lemma entries_concat: "hm_inv hash m \<Longrightarrow> hashmap_entries m = (case hm_buckets m of None \<Rightarrow> [] | Some bs \<Rightarrow> concat bs)"
  by (auto simp: hm_inv_def hashmap_entries_def chains_ok_def split: option.splits)

lemma hm_sz_entries: "hm_inv hash m \<Longrightarrow> hm_sz m = length (hashmap_entries m)"
  by (auto simp: entries_concat hm_inv_def split: option.splits)

lemma grow_ok:
  assumes inv: "hm_inv hash m"
  shows "\<exists>m' err. hashmap_grow hash calloc_ok m = Inr (err, m') \<and> hm_inv hash m' \<and>
    mset (hashmap_entries m') = mset (hashmap_entries m) \<and>
    (err = 0 \<and> hm_buckets m' \<noteq> None \<and> hm_cap m < hm_cap m' \<or> err = - ENOMEM \<and> m' = m)"
proof -
  define nb where "nb = (if hm_cap_bits m + 1 < HASHMAP_MIN_CAP_BITS then HASHMAP_MIN_CAP_BITS else hm_cap_bits m + 1)"
  have nb: "2 \<le> nb" "nb \<le> 61" "hm_cap m < 2 ^ nb"
    using inv by (auto simp: nb_def HASHMAP_MIN_CAP_BITS_def hm_inv_def split: option.splits)
  have "chains_ok hash nb (replicate (2 ^ nb) ([] :: ('a \<times> 'b) list))" by (simp add: chains_ok_def)
  then obtain bs where bs: "foldR (\<lambda>e bs. hashmap_add_entry (unat (hash_bits (hash (fst e)) nb)) e bs)
      (hashmap_entries m) (replicate (2 ^ nb) []) = Inr bs" "chains_ok hash nb bs"
    "mset (concat bs) = mset (hashmap_entries m)"
    using rehash_ok [of hash nb _ "hashmap_entries m"] nb(2) by (fastforce simp: concat_replicate_Nil)
  have "nb \<le> 60" if "int (2 ^ nb) * 8 < 2 ^ 64"
  proof -
    have "(2 :: int) ^ (nb + 3) < 2 ^ 64" using that by (simp add: power_add)
    then have "nb + 3 < 64" by (rule power_less_imp_less_exp [rotated]) simp
    then show ?thesis by simp
  qed
  moreover have "hm_sz m = length (concat bs)" using hm_sz_entries [OF inv] bs(3) by (metis size_mset)
  ultimately show ?thesis
    using bs nb inv unfolding hashmap_grow_def Let_def nb_def [symmetric]
    by (auto simp: hm_inv_def hashmap_entries_def chains_ok_def split: option.splits)
qed

lemma find_append: "List.find P (xs @ ys) = (case List.find P xs of None \<Rightarrow> List.find P ys | Some x \<Rightarrow> Some x)"
  by (induction xs) auto

lemma chain_find_Some:
  "chain_find eq key c = Some (i, e) \<Longrightarrow> i < length c \<and> c ! i = e \<and> eq (fst e) key"
  by (induction c arbitrary: i) (auto split: if_splits)

lemma chain_find_find: "map_option snd (chain_find eq key c) = List.find (\<lambda>e. eq (fst e) key) c"
  by (induction c) (auto simp: option.map_comp comp_def split_beta map_option_case split: option.splits)

lemma bucket_in_entries:
  assumes "hm_inv hash m" "hm_buckets m = Some bs" "h < length bs"
  shows "set (bs ! h) \<subseteq> set (hashmap_entries m)"
  using assms by (auto simp: entries_concat intro!: bexI [of _ "bs ! h"])

lemma entries_update:
  assumes "hm_inv hash m" "hm_buckets m = Some bs"
  shows "set (hashmap_entries (m\<lparr>hm_buckets := Some (bs[h := c]), hm_sz := n\<rparr>)) \<subseteq> set c \<union> set (hashmap_entries m)"
    and "set (hashmap_entries (m\<lparr>hm_buckets := Some (bs[h := c])\<rparr>)) \<subseteq> set c \<union> set (hashmap_entries m)"
  using assms set_update_subset_insert [of bs h c]
  by (auto simp: hm_inv_def chains_ok_def hashmap_entries_def)

text \<open>Where entries come from: an insertion adds at most the new entry, and the old entry it
  reports was in the table, under an equal key.\<close>

lemma insert_entries:
  assumes inv: "hm_inv hash m" and ins: "hashmap__insert hash eq calloc_ok malloc_ok strategy key v m = Inr (ret, old, m')"
  shows "set (hashmap_entries m') \<subseteq> insert (key, v) (set (hashmap_entries m)) \<and>
    (\<forall>e. old = Some e \<longrightarrow> e \<in> set (hashmap_entries m) \<and> eq (fst e) key)"
proof -
  let ?h = "unat (hash_bits (hash key) (hm_cap_bits m))"
  obtain found where found: "(if strategy \<noteq> HASHMAP_APPEND then hashmap_find_entry eq m key ?h else Inr None) = Inr found"
    using ins by (auto simp: hashmap__insert_def Let_def)
  show ?thesis
  proof (cases found)
    case (Some ie)
    then obtain i e bs where e: "found = Some (i, e)" "hm_buckets m = Some bs" "?h < length bs" "chain_find eq key (bs ! ?h) = Some (i, e)"
      using found by (cases ie) (auto simp: hashmap_find_entry_def split: if_splits option.splits)
    have mem: "e \<in> set (hashmap_entries m)" "eq (fst e) key"
      using subsetD [OF bucket_in_entries [OF inv e(2,3)], of e] chain_find_Some [OF e(4)] by auto
    have "set ((bs ! ?h)[i := (key, v)]) \<subseteq> insert (key, v) (set (hashmap_entries m))"
      using bucket_in_entries [OF inv e(2,3)] set_update_subset_insert [of "bs ! ?h" i "(key, v)"] by blast
    then have "set (hashmap_entries (map_bucket ?h (\<lambda>c. c[i := (key, v)]) m)) \<subseteq> insert (key, v) (set (hashmap_entries m))"
      using entries_update(2) [OF inv e(2), of ?h "(bs ! ?h)[i := (key, v)]"] e(2) by (auto simp: map_bucket_def)
    then show ?thesis using ins found e(1) mem by (auto simp: hashmap__insert_def Let_def split: if_splits)
  next
    case None
    show ?thesis
    proof (cases "strategy = HASHMAP_UPDATE")
      case True
      then show ?thesis using ins found None by (auto simp: hashmap__insert_def Let_def)
    next
      case False
      obtain err m1 where g: "(if hashmap_needs_to_grow m then hashmap_grow hash calloc_ok m else Inr (0, m)) = Inr (err, m1)"
        "hm_inv hash m1" "set (hashmap_entries m1) = set (hashmap_entries m)"
        using grow_ok [OF inv, of calloc_ok] inv by (cases "hashmap_needs_to_grow m") (auto dest: mset_eq_setD)
      have "old = None" and m': "m' = m1 \<or> (\<exists>bs h. hm_buckets m1 = Some bs \<and> h < length bs \<and>
          m' = m1\<lparr>hm_buckets := Some (bs[h := (key, v) # bs ! h]), hm_sz := hm_sz m1 + 1\<rparr>)"
        using ins found None False g(1)
        by (auto simp: hashmap__insert_def Let_def hashmap_add_entry_def split: if_splits option.splits)
      then show ?thesis
        using g bucket_in_entries [OF g(2)] entries_update(1) [OF g(2)] by fastforce
    qed
  qed
qed

text \<open>\<open>HASHMAP_APPEND\<close> looks nothing up: it adds the entry to whatever the table holds.\<close>

lemma insert_append:
  assumes inv: "hm_inv hash m"
  shows "\<exists>ret m'. hashmap__insert hash eq a b HASHMAP_APPEND key v m = Inr (ret, None, m') \<and> hm_inv hash m' \<and>
    (ret = 0 \<and> mset (hashmap_entries m') = mset (hashmap_entries m) + {#(key, v)#} \<or>
     ret = - ENOMEM \<and> mset (hashmap_entries m') = mset (hashmap_entries m))"
proof -
  define g where "g = (if hashmap_needs_to_grow m then hashmap_grow hash a m else Inr (0, m))"
  have "\<exists>err m1. g = Inr (err, m1) \<and> hm_inv hash m1 \<and> mset (hashmap_entries m1) = mset (hashmap_entries m) \<and> (err = 0 \<and> hm_buckets m1 \<noteq> None \<or> err = - ENOMEM)"
  proof (cases "hashmap_needs_to_grow m")
    case True
    then show ?thesis using grow_ok [OF inv, of a] by (auto simp: g_def)
  next
    case False
    then have "hm_buckets m \<noteq> None" using inv by (auto simp: hm_inv_def hashmap_needs_to_grow_def split: option.splits)
    then show ?thesis using False inv by (simp add: g_def)
  qed
  then obtain err m1 where g: "g = Inr (err, m1)" "hm_inv hash m1" "mset (hashmap_entries m1) = mset (hashmap_entries m)"
    "err = 0 \<and> hm_buckets m1 \<noteq> None \<or> err = - ENOMEM" by metis
  have run: "hashmap__insert hash eq a b HASHMAP_APPEND key v m = bindR g (\<lambda>(err, m).
      if err \<noteq> 0 then Inr (err, None, m) else if \<not> b then Inr (- ENOMEM, None, m)
      else case hm_buckets m of None \<Rightarrow> Inl Out_Of_Bounds
        | Some bs \<Rightarrow> bindR (hashmap_add_entry (unat (hash_bits (hash key) (hm_cap_bits m))) (key, v) bs)
            (\<lambda>bs. Inr (0, None, m\<lparr>hm_buckets := Some bs, hm_sz := hm_sz m + 1\<rparr>)))"
    by (simp add: hashmap__insert_def g_def Let_def)
  show ?thesis
  proof (cases "err = 0 \<and> b")
    case False
    then show ?thesis using g run by (auto simp: ENOMEM_def)
  next
    case True
    then obtain bs where bs: "hm_buckets m1 = Some bs" using g(4) by (auto simp: ENOMEM_def)
    then have ok: "chains_ok hash (hm_cap_bits m1) bs" "hm_cap_bits m1 \<le> 64" using g(2) by (auto simp: hm_inv_def)
    obtain bs' where bs': "hashmap_add_entry (unat (hash_bits (hash key) (hm_cap_bits m1))) (key, v) bs = Inr bs'"
      "chains_ok hash (hm_cap_bits m1) bs'" "mset (concat bs') = mset (concat bs) + {#(key, v)#}" using add_entry_ok [OF ok, of "(key, v)"] by auto
    let ?m = "m1\<lparr>hm_buckets := Some bs', hm_sz := hm_sz m1 + 1\<rparr>"
    have "length (concat bs') = Suc (length (concat bs))" using bs'(3) [symmetric] by (rule mset_len_Suc)
    then have inv': "hm_inv hash ?m" using g(2) bs bs'(2) by (simp add: hm_inv_def)
    have "mset (hashmap_entries ?m) = mset (hashmap_entries m) + {#(key, v)#}"
      using entries_concat [OF inv'] entries_concat [OF g(2)] g(3) bs bs'(3) by simp
    then show ?thesis using True run g(1) bs bs'(1) inv' by simp
  qed
qed

text \<open>What the table relies on: the client's equality is an equivalence that the hash respects.\<close>

locale hash_keys =
  fixes hash :: "'k \<Rightarrow> u64" and eq :: "'k \<Rightarrow> 'k \<Rightarrow> bool"
  assumes eq_refl: "eq a a"
    and eq_sym: "eq a b \<Longrightarrow> eq b a"
    and eq_trans: "eq a b \<Longrightarrow> eq b c \<Longrightarrow> eq a c"
    and hash_eq: "eq a b \<Longrightarrow> hash a = hash b"

begin

lemma find_concat:
  fixes key :: 'k
  assumes "chains_ok hash bits bs" "bits \<le> 64"
  defines "h \<equiv> unat (hash_bits (hash key) bits)"
  shows "List.find (\<lambda>e. eq (fst e) key) (concat bs) = List.find (\<lambda>e. eq (fst e) key) (bs ! h)"
proof -
  have h: "h < length bs" using assms hash_bits_less [OF assms(2)] by (simp add: chains_ok_def)
  have other: "List.find (\<lambda>e. eq (fst e) key) (bs ! i) = None" if "i < length bs" "i \<noteq> h" for i
    using assms(1) that hash_eq by (fastforce simp: find_None_iff chains_ok_def h_def)
  have none: "List.find (\<lambda>e. eq (fst e) key) (concat cs) = None" if "\<And>c. c \<in> set cs \<Longrightarrow> List.find (\<lambda>e. eq (fst e) key) c = None" for cs
    using that by (auto simp: find_None_iff)
  have "bs = take h bs @ bs ! h # drop (Suc h) bs" using h by (rule id_take_nth_drop)
  then have "concat bs = concat (take h bs) @ bs ! h @ concat (drop (Suc h) bs)"
    by (metis concat.simps(2) concat_append)
  moreover have "List.find (\<lambda>e. eq (fst e) key) (concat (take h bs)) = None"
    using h other by (intro none) (auto simp: in_set_conv_nth)
  moreover have "List.find (\<lambda>e. eq (fst e) key) (concat (drop (Suc h) bs)) = None"
    using h other by (intro none) (auto simp: in_set_conv_nth)
  ultimately show ?thesis by (simp add: find_append split: option.split)
qed

lemma find_entry_ok:
  fixes key :: 'k
  assumes inv: "hm_inv hash m"
  defines "h \<equiv> unat (hash_bits (hash key) (hm_cap_bits m))"
  shows "\<exists>r. hashmap_find_entry eq m key h = Inr r \<and> map_option (snd \<circ> snd) r = hm_map eq m key \<and>
    (\<forall>i e. r = Some (i, e) \<longrightarrow> eq (fst e) key \<and>
       (\<exists>bs. hm_buckets m = Some bs \<and> h < length bs \<and> i < length (bs ! h) \<and> bs ! h ! i = e))"
proof (cases "hm_buckets m")
  case None
  then show ?thesis by (simp add: hashmap_find_entry_def hm_map_def assoc_find_def hashmap_entries_def)
next
  case (Some bs)
  then have ok: "chains_ok hash (hm_cap_bits m) bs" "hm_cap_bits m \<le> 64" using inv by (auto simp: hm_inv_def)
  have h: "h < length bs" using ok hash_bits_less [OF ok(2)] by (simp add: chains_ok_def h_def)
  have "hm_map eq m key = map_option snd (List.find (\<lambda>e. eq (fst e) key) (bs ! h))"
    using entries_concat [OF inv] Some find_concat [OF ok, of key] by (simp add: hm_map_def assoc_find_def h_def)
  also have "\<dots> = map_option (snd \<circ> snd) (chain_find eq key (bs ! h))"
    by (simp only: chain_find_find [symmetric] option.map_comp)
  finally show ?thesis
    using Some h chain_find_Some [of eq key "bs ! h"] by (auto simp: hashmap_find_entry_def)
qed

lemma find_ok: "hm_inv hash m \<Longrightarrow> hashmap__find hash eq m key = Inr (hm_map eq m key)"
  using find_entry_ok [of m key] by (auto simp: hashmap__find_def)

lemma assoc_find_unique:
  assumes "keys_unique eq es"
  shows "assoc_find eq es k = Some v \<longleftrightarrow> (\<exists>k'. (k', v) \<in> set es \<and> eq k' k)"
proof
  assume "assoc_find eq es k = Some v"
  then show "\<exists>k'. (k', v) \<in> set es \<and> eq k' k"
    by (auto simp: assoc_find_def find_Some_iff) (metis fst_conv nth_mem snd_conv surjective_pairing)
next
  assume "\<exists>k'. (k', v) \<in> set es \<and> eq k' k"
  then obtain k' where k': "(k', v) \<in> set es" "eq k' k" by blast
  then have "List.find (\<lambda>e. eq (fst e) k) es \<noteq> None" unfolding find_None_iff by auto
  then obtain e where e: "List.find (\<lambda>e. eq (fst e) k) es = Some e" by blast
  then have "e \<in> set es" "eq (fst e) k" by (auto simp: find_Some_iff)
  then have "e = (k', v)" using assms k' eq_sym eq_trans unfolding keys_unique_def by (metis fst_conv)
  then show "assoc_find eq es k = Some v" using e by (simp add: assoc_find_def)
qed

lemma keys_unique_mset: "mset es = mset es' \<Longrightarrow> keys_unique eq es = keys_unique eq es'"
  using mset_eq_setD [of es es'] mset_eq_imp_distinct_iff [of es es'] by (simp add: keys_unique_def)

lemma assoc_find_mset:
  assumes "mset es = mset es'" "keys_unique eq es"
  shows "assoc_find eq es = assoc_find eq es'"
proof
  fix k
  have "keys_unique eq es'" using assms keys_unique_mset by blast
  then have "assoc_find eq es k = Some v \<longleftrightarrow> assoc_find eq es' k = Some v" for v
    using assms by (simp add: assoc_find_unique mset_eq_setD [OF assms(1)])
  then show "assoc_find eq es k = assoc_find eq es' k" by (metis not_Some_eq)
qed

text \<open>Replacing the entry of a key by an entry for an equal key, adding an entry for a new key, and
  removing an entry, on lists of entries.\<close>

lemma assoc_add:
  assumes u: "keys_unique eq es" and new: "assoc_find eq es k = None"
  shows "keys_unique eq ((k, v) # es)" "assoc_find eq ((k, v) # es) = (\<lambda>k'. if eq k k' then Some v else assoc_find eq es k')"
proof -
  have no: "\<not> eq (fst e) k" "\<not> eq k (fst e)" if "e \<in> set es" for e
    using new that eq_sym by (cases e; auto simp: assoc_find_def find_None_iff)+
  then show "keys_unique eq ((k, v) # es)" using u eq_refl by (fastforce simp: keys_unique_def)
  show "assoc_find eq ((k, v) # es) = (\<lambda>k'. if eq k k' then Some v else assoc_find eq es k')"
    by (simp add: assoc_find_def fun_eq_iff)
qed

lemma assoc_remove:
  assumes u: "keys_unique eq (e # es)"
  shows "keys_unique eq es" "assoc_find eq es = (\<lambda>k'. if eq (fst e) k' then None else assoc_find eq (e # es) k')"
proof -
  show "keys_unique eq es" using u by (auto simp: keys_unique_def)
  have "assoc_find eq es k' = None" if "eq (fst e) k'" for k'
  proof -
    have "\<not> eq (fst e') k'" if "e' \<in> set es" for e'
    proof
      assume "eq (fst e') k'"
      then have "eq (fst e) (fst e')" using \<open>eq (fst e) k'\<close> eq_sym eq_trans by blast
      then show False using u that by (auto simp: keys_unique_def)
    qed
    then show ?thesis by (auto simp: assoc_find_def find_None_iff)
  qed
  then show "assoc_find eq es = (\<lambda>k'. if eq (fst e) k' then None else assoc_find eq (e # es) k')"
    by (auto simp: fun_eq_iff) (simp add: assoc_find_def)
qed

text \<open>The same on a table: the entries up to their order.\<close>

lemma hm_map_by_entries:
  assumes "mset (hashmap_entries m) = mset es" "keys_unique eq es"
  shows "keys_unique eq (hashmap_entries m)" "hm_map eq m = assoc_find eq es"
  using assms keys_unique_mset [OF assms(1)] assoc_find_mset [OF assms(1)] by (simp_all add: hm_map_def)

lemma bucket_update_inv:
  assumes inv: "hm_inv hash m" and bs: "hm_buckets m = Some bs"
    and h: "h < length bs" and i: "i < length (bs ! h)" and eqk: "eq (fst (bs ! h ! i)) key"
  shows "hm_inv hash (map_bucket h (\<lambda>c. c[i := (key, v)]) m)"
    "mset (hashmap_entries (map_bucket h (\<lambda>c. c[i := (key, v)]) m)) + {#bs ! h ! i#} = mset (hashmap_entries m) + {#(key, v)#}"
proof -
  let ?bs = "bs[h := (bs ! h)[i := (key, v)]]"
  have ok: "chains_ok hash (hm_cap_bits m) bs" using inv bs by (simp add: hm_inv_def)
  have "unat (hash_bits (hash key) (hm_cap_bits m)) = h"
    using ok h nth_mem [OF i] unfolding hash_eq [OF eqk, symmetric] chains_ok_def by blast
  then have ok': "chains_ok hash (hm_cap_bits m) ?bs"
    using ok h by (intro chains_ok_update) (auto dest: set_update_subset_insert [THEN subsetD])
  have m1: "mset ((bs ! h)[i := (key, v)]) + {#bs ! h ! i#} = mset (bs ! h) + {#(key, v)#}"
    using i by (simp add: mset_update insert_DiffM)
  have m2: "mset (concat ?bs) + mset (bs ! h) = mset (concat bs) + mset ((bs ! h)[i := (key, v)])"
    using h by (rule mset_concat_update)
  have mm: "mset (concat ?bs) + {#bs ! h ! i#} = mset (concat bs) + {#(key, v)#}"
    using m1 m2 by (rule mset_exchange)
  then have "length (concat ?bs) = length (concat bs)"
    by (rule mset_len_same)
  then show inv': "hm_inv hash (map_bucket h (\<lambda>c. c[i := (key, v)]) m)"
    using inv bs ok' by (simp add: hm_inv_def map_bucket_def)
  show "mset (hashmap_entries (map_bucket h (\<lambda>c. c[i := (key, v)]) m)) + {#bs ! h ! i#} = mset (hashmap_entries m) + {#(key, v)#}"
    using mm bs entries_concat [OF inv] entries_concat [OF inv'] by (simp add: map_bucket_def)
qed

lemma bucket_remove_inv:
  assumes inv: "hm_inv hash m" and bs: "hm_buckets m = Some bs" and h: "h < length bs" and i: "i < length (bs ! h)"
  defines "m' \<equiv> (map_bucket h (remove_nth i) m)\<lparr>hm_sz := hm_sz m - 1\<rparr>"
  shows "hm_inv hash m'" "mset (hashmap_entries m') + {#bs ! h ! i#} = mset (hashmap_entries m)"
proof -
  let ?c = "remove_nth i (bs ! h)"
  have ok: "chains_ok hash (hm_cap_bits m) bs" using inv bs by (simp add: hm_inv_def)
  then have ok': "chains_ok hash (hm_cap_bits m) (bs[h := ?c])"
    using h by (intro chains_ok_update) (auto simp: remove_nth_def dest: in_set_takeD in_set_dropD)
  have "mset (bs ! h) = mset ?c + {#bs ! h ! i#}"
    using i by (subst id_take_nth_drop [OF i]) (simp add: remove_nth_def)
  then have mm: "mset (concat (bs[h := ?c])) + {#bs ! h ! i#} = mset (concat bs)"
    using mset_concat_update [OF h, of ?c] by (simp add: add.assoc [symmetric])
  then have "length (concat bs) = Suc (length (concat (bs[h := ?c])))"
    by (rule mset_len_Suc)
  then show inv': "hm_inv hash m'" using inv bs ok' by (simp add: m'_def hm_inv_def map_bucket_def)
  show "mset (hashmap_entries m') + {#bs ! h ! i#} = mset (hashmap_entries m)"
    using mm bs entries_concat [OF inv] entries_concat [OF inv'] by (simp add: m'_def map_bucket_def)
qed

lemma entry_remove_map:
  assumes u: "keys_unique eq (hashmap_entries m)" and e: "e \<in> set (hashmap_entries m)" "eq (fst e) key"
    and es: "mset es + {#e#} = mset (hashmap_entries m)"
  shows "keys_unique eq es" "assoc_find eq es = upd_key eq (hm_map eq m) key None"
proof -
  have ms: "mset (hashmap_entries m) = mset (e # es)" using es by simp
  have u': "keys_unique eq (e # es)" using u keys_unique_mset [OF ms] by simp
  have "eq (fst e) k \<longleftrightarrow> eq key k" for k using e(2) eq_sym eq_trans by blast
  then show "keys_unique eq es" "assoc_find eq es = upd_key eq (hm_map eq m) key None"
    using assoc_remove [OF u'] hm_map_by_entries(2) [OF ms u'] by (auto simp: upd_key_def fun_eq_iff)
qed

lemma delete_ok:
  assumes inv: "hm_inv hash m" and u: "keys_unique eq (hashmap_entries m)"
  shows "\<exists>old m'. hashmap__delete hash eq key m = Inr (old, m') \<and> hm_inv hash m' \<and> keys_unique eq (hashmap_entries m') \<and>
    map_option snd old = hm_map eq m key \<and> hm_map eq m' = upd_key eq (hm_map eq m) key None"
proof -
  let ?h = "unat (hash_bits (hash key) (hm_cap_bits m))"
  obtain r where r: "hashmap_find_entry eq m key ?h = Inr r" "map_option (snd \<circ> snd) r = hm_map eq m key"
    "\<forall>i e. r = Some (i, e) \<longrightarrow> eq (fst e) key \<and>
       (\<exists>bs. hm_buckets m = Some bs \<and> ?h < length bs \<and> i < length (bs ! ?h) \<and> bs ! ?h ! i = e)"
    using find_entry_ok [OF inv, of key] by blast
  show ?thesis
  proof (cases r)
    case None
    have "upd_key eq (hm_map eq m) key None = hm_map eq m"
    proof
      fix k
      have "hm_map eq m k = None" if "eq key k"
      proof (rule ccontr)
        assume "hm_map eq m k \<noteq> None"
        then obtain v k' where "(k', v) \<in> set (hashmap_entries m)" "eq k' k"
          using assoc_find_unique [OF u] by (auto simp: hm_map_def)
        then have "(k', v) \<in> set (hashmap_entries m) \<and> eq k' key" using that eq_sym eq_trans by blast
        then have "hm_map eq m key = Some v" unfolding hm_map_def assoc_find_unique [OF u] by blast
        then show False using r(2) None by simp
      qed
      then show "upd_key eq (hm_map eq m) key None k = hm_map eq m k" by (simp add: upd_key_def)
    qed
    then show ?thesis using None r inv u by (auto simp: hashmap__delete_def Let_def)
  next
    case (Some ie)
    then obtain i e bs where e: "r = Some (i, e)" "eq (fst e) key" and bs: "hm_buckets m = Some bs" "?h < length bs"
      "i < length (bs ! ?h)" "bs ! ?h ! i = e" using r(3) by (cases ie) auto
    define m' where "m' = (map_bucket ?h (remove_nth i) m)\<lparr>hm_sz := hm_sz m - 1\<rparr>"
    have m': "hm_inv hash m'" "mset (hashmap_entries m') + {#e#} = mset (hashmap_entries m)"
      using bucket_remove_inv [OF inv bs(1-3)] bs(4) by (simp_all add: m'_def)
    have "e \<in># mset (hashmap_entries m)" unfolding m'(2) [symmetric] by simp
    then have "e \<in> set (hashmap_entries m)" by simp
    note rm = entry_remove_map [OF u this e(2) m'(2)]
    have "hashmap__delete hash eq key m = Inr (Some e, m')"
      using r(1) e(1) by (simp add: hashmap__delete_def Let_def m'_def)
    moreover have "map_option snd (Some e) = hm_map eq m key" using r(2) e(1) by simp
    ultimately show ?thesis using m'(1) rm by (auto simp: hm_map_def)
  qed
qed

lemma insert_present:
  fixes v :: 'v
  assumes inv: "hm_inv hash m" and u: "keys_unique eq (hashmap_entries m)"
    and e: "eq (fst e) key" and bs: "hm_buckets m = Some bs" "h < length bs" "i < length (bs ! h)" "bs ! h ! i = e"
  defines "m' \<equiv> map_bucket h (\<lambda>c. c[i := (key, v)]) m"
  shows "hm_inv hash m' \<and> keys_unique eq (hashmap_entries m') \<and> hm_map eq m' = upd_key eq (hm_map eq m) key (Some v) \<and>
    mset (hashmap_entries m') + {#e#} = mset (hashmap_entries m) + {#(key, v)#}"
proof -
  have m': "hm_inv hash m'" "mset (hashmap_entries m') + {#e#} = mset (hashmap_entries m) + {#(key, v)#}"
    using bucket_update_inv [OF inv bs(1-3)] e bs(4) by (simp_all add: m'_def)
  have mem: "e \<in> set (hashmap_entries m)"
    using entries_concat [OF inv] bs by (auto intro!: bexI [of _ "bs ! h"])
  then obtain es where es: "mset es + {#e#} = mset (hashmap_entries m)"
    by (metis ex_mset insert_DiffM2 set_mset_mset)
  note rm = entry_remove_map [OF u mem e es]
  have ms: "mset (hashmap_entries m') = mset ((key, v) # es)"
    using m'(2) unfolding es [symmetric] by simp
  have "assoc_find eq es key = None" using rm(2) eq_refl by (simp add: upd_key_def)
  note ad = assoc_add [OF rm(1) this, of v]
  show ?thesis using m' hm_map_by_entries [OF ms ad(1)] ad(2) rm(2) by (auto simp: upd_key_def fun_eq_iff)
qed

lemma insert_new:
  assumes inv: "hm_inv hash m" and u: "keys_unique eq (hashmap_entries m)" and new: "hm_map eq m key = None"
    and bs: "hm_buckets m = Some bs"
  shows "\<exists>bs'. hashmap_add_entry (unat (hash_bits (hash key) (hm_cap_bits m))) (key, v) bs = Inr bs' \<and>
    (let m' = m\<lparr>hm_buckets := Some bs', hm_sz := hm_sz m + 1\<rparr> in
     hm_inv hash m' \<and> keys_unique eq (hashmap_entries m') \<and> hm_map eq m' = upd_key eq (hm_map eq m) key (Some v) \<and>
     mset (hashmap_entries m') = mset (hashmap_entries m) + {#(key, v)#})"
proof -
  have ok: "chains_ok hash (hm_cap_bits m) bs" "hm_cap_bits m \<le> 64" using inv bs by (auto simp: hm_inv_def)
  obtain bs' where bs': "hashmap_add_entry (unat (hash_bits (hash key) (hm_cap_bits m))) (key, v) bs = Inr bs'"
    "chains_ok hash (hm_cap_bits m) bs'" "mset (concat bs') = mset (concat bs) + {#(key, v)#}"
    using add_entry_ok [OF ok, of "(key, v)"] by auto
  define m' where "m' = m\<lparr>hm_buckets := Some bs', hm_sz := Suc (hm_sz m)\<rparr>"
  have "length (concat bs') = Suc (length (concat bs))" using bs'(3) [symmetric] by (rule mset_len_Suc)
  then have inv': "hm_inv hash m'" using inv bs bs'(2) by (simp add: hm_inv_def m'_def)
  have ms: "mset (hashmap_entries m') = mset ((key, v) # hashmap_entries m)"
    using entries_concat [OF inv] entries_concat [OF inv'] bs bs'(3) by (simp add: m'_def)
  have "assoc_find eq (hashmap_entries m) key = None" using new by (simp add: hm_map_def)
  note ad = assoc_add [OF u this, of v]
  show ?thesis using bs'(1) inv' hm_map_by_entries [OF ms ad(1)] ad(2)
    by (intro exI [of _ bs']) (simp add: Let_def m'_def [symmetric] upd_key_def hm_map_def ms)
qed

text \<open>The return value of an insertion with a strategy other than \<open>HASHMAP_APPEND\<close>.\<close>

lemma insert_ok:
  assumes inv: "hm_inv hash m" and u: "keys_unique eq (hashmap_entries m)" and st: "strategy \<noteq> HASHMAP_APPEND"
  shows "\<exists>ret old m'. hashmap__insert hash eq calloc_ok malloc_ok strategy key v m = Inr (ret, old, m') \<and>
    hm_inv hash m' \<and> keys_unique eq (hashmap_entries m') \<and> map_option snd old = hm_map eq m key \<and>
    (ret = 0 \<and> hm_map eq m' = upd_key eq (hm_map eq m) key (Some v) \<and>
       mset (hashmap_entries m') + replaced old = mset (hashmap_entries m) + {#(key, v)#} \<and>
       (strategy = HASHMAP_ADD \<longrightarrow> hm_map eq m key = None) \<and> (strategy = HASHMAP_UPDATE \<longrightarrow> hm_map eq m key \<noteq> None) \<or>
     ret = - EEXIST \<and> m' = m \<and> strategy = HASHMAP_ADD \<and> hm_map eq m key \<noteq> None \<or>
     ret = - ENOENT \<and> m' = m \<and> strategy = HASHMAP_UPDATE \<and> hm_map eq m key = None \<or>
     ret = - ENOMEM \<and> hm_map eq m' = hm_map eq m \<and> mset (hashmap_entries m') = mset (hashmap_entries m) \<and> hm_map eq m key = None)"
proof -
  let ?h = "unat (hash_bits (hash key) (hm_cap_bits m))"
  obtain r where r: "hashmap_find_entry eq m key ?h = Inr r" "map_option (snd \<circ> snd) r = hm_map eq m key"
    "\<forall>i e. r = Some (i, e) \<longrightarrow> eq (fst e) key \<and>
       (\<exists>bs. hm_buckets m = Some bs \<and> ?h < length bs \<and> i < length (bs ! ?h) \<and> bs ! ?h ! i = e)"
    using find_entry_ok [OF inv, of key] by blast
  show ?thesis
  proof (cases r)
    case (Some ie)
    then obtain i e bs where e: "r = Some (i, e)" "eq (fst e) key" and bs: "hm_buckets m = Some bs" "?h < length bs"
      "i < length (bs ! ?h)" "bs ! ?h ! i = e" using r(3) by (cases ie) auto
    have "map_option snd (Some e) = hm_map eq m key" using r(2) e(1) by simp
    then show ?thesis
      using insert_present [OF inv u e(2) bs, of v] r(1) e(1) st inv u
      by (cases strategy) (auto simp: hashmap__insert_def Let_def)
  next
    case None
    then have new: "hm_map eq m key = None" using r(2) by simp
    define g where "g = (if hashmap_needs_to_grow m then hashmap_grow hash calloc_ok m else Inr (0, m))"
    obtain err m1 where g: "g = Inr (err, m1)" "hm_inv hash m1" "mset (hashmap_entries m1) = mset (hashmap_entries m)"
      "err = 0 \<and> hm_buckets m1 \<noteq> None \<or> err = - ENOMEM \<and> m1 = m"
    proof (cases "hashmap_needs_to_grow m")
      case True
      then show ?thesis using that grow_ok [OF inv, of calloc_ok] by (auto simp: g_def)
    next
      case False
      then have "hm_buckets m \<noteq> None" using inv by (auto simp: hashmap_needs_to_grow_def hm_inv_def split: option.splits)
      then show ?thesis using that [of 0 m] False inv by (simp add: g_def)
    qed
    have m1: "keys_unique eq (hashmap_entries m1)" "hm_map eq m1 = hm_map eq m"
      using hm_map_by_entries [OF g(3) u] by (simp_all add: hm_map_def)
    have ins: "hashmap__insert hash eq calloc_ok malloc_ok strategy key v m =
      (if strategy = HASHMAP_UPDATE then Inr (- ENOENT, None, m)
       else if err \<noteq> 0 then Inr (err, None, m1) else if \<not> malloc_ok then Inr (- ENOMEM, None, m1)
       else (case hm_buckets m1 of None \<Rightarrow> Inl Out_Of_Bounds
         | Some bs \<Rightarrow> bindR (hashmap_add_entry (unat (hash_bits (hash key) (hm_cap_bits m1))) (key, v) bs) (\<lambda>bs.
             Inr (0, None, m1\<lparr>hm_buckets := Some bs, hm_sz := hm_sz m1 + 1\<rparr>))))"
      using r(1) None st g(1) by (simp add: hashmap__insert_def Let_def g_def [symmetric])
    show ?thesis
    proof (cases "strategy = HASHMAP_UPDATE \<or> err \<noteq> 0 \<or> \<not> malloc_ok")
      case True
      then show ?thesis using ins new g m1 inv u by (auto simp: ENOMEM_def)
    next
      case False
      then obtain bs where bs: "hm_buckets m1 = Some bs" using g(4) by (auto simp: ENOMEM_def)
      have "hm_map eq m1 key = None" using new m1(2) by simp
      from insert_new [OF g(2) m1(1) this bs, of v] ins False bs new m1 g(3) show ?thesis
        by (auto simp: Let_def)
    qed
  qed
qed

end

text \<open>An empty table and a table with one entry, keyed by numbers.\<close>

definition empty_map :: "(u64, string) hashmap" where
  "empty_map = hashmap__init"

definition one_entry_map :: "(u64, string) hashmap" where
  "one_entry_map = \<lparr>hm_buckets = Some [[(0, ''z'')], [], [], []], hm_cap = 4, hm_cap_bits = 2, hm_sz = 1\<rparr>"

text \<open>An insertion fails for lack of memory only when an allocation fails or the table cannot be addressed.\<close>

lemma grow_nomem:
  assumes "hashmap_grow hash calloc_ok m = Inr (ret, m')" "ret \<noteq> 0"
  shows "\<not> calloc_ok \<or> 60 \<le> hm_cap_bits m"
proof (rule ccontr)
  assume a: "\<not> (\<not> calloc_ok \<or> 60 \<le> hm_cap_bits m)"
  let ?b = "if hm_cap_bits m + 1 < HASHMAP_MIN_CAP_BITS then HASHMAP_MIN_CAP_BITS else hm_cap_bits m + 1"
  have b: "?b \<le> 60" using a by (auto simp: HASHMAP_MIN_CAP_BITS_def)
  have "(2 :: int) ^ ?b \<le> 2 ^ 60" by (rule power_increasing [OF b]) simp
  moreover have "(2 :: nat) ^ ?b \<le> 2 ^ 60" by (rule power_increasing [OF b]) simp
  ultimately have "int (2 ^ ?b) * 8 < 2 ^ 64" "(2 :: nat) ^ ?b * 8 < 2 ^ 64" by auto
  then show False using assms a b by (auto simp: hashmap_grow_def Let_def split: if_splits)
qed

lemma insert_nomem:
  assumes "hashmap__insert hash eq calloc_ok malloc_ok strategy key v m = Inr (- ENOMEM, old, m')"
  shows "\<not> calloc_ok \<or> \<not> malloc_ok \<or> 60 \<le> hm_cap_bits m"
  using assms
  by (auto simp: hashmap__insert_def Let_def ENOMEM_def EEXIST_def ENOENT_def dest!: grow_nomem split: option.splits if_splits prod.splits)

section \<open>Properties\<close>

text \<open>
  C10. Insertion refines the update of a finite map. On a well-formed table, whatever the allocator
  answers, \<open>hashmap__insert\<close> makes no access outside the buckets and keeps the table well-formed; it
  returns 0 and puts exactly the new entry in the place of the reported old one, if there is one,
  or returns an error and keeps the entries. \<open>HASHMAP_APPEND\<close> replaces nothing and fails only with
  \<open>-ENOMEM\<close>. With the three other strategies and unique keys the keys stay unique, and the old key
  and value that are reported are those of the entry with an equal key; 0 is the update of the map at
  the key, and an error leaves the map as it was, with \<open>-EEXIST\<close> exactly for \<open>HASHMAP_ADD\<close> of a present
  key, \<open>-ENOENT\<close> exactly for \<open>HASHMAP_UPDATE\<close> of an absent one, or \<open>-ENOMEM\<close> when an allocation fails
  or the table cannot grow any more.
\<close>

theorem hashmap_insert_refines_update:
  assumes "hash_keys hash eq" and "hm_inv hash m"
    and "strategy \<noteq> HASHMAP_APPEND \<Longrightarrow> keys_unique eq (hashmap_entries m)"
  shows "\<exists>ret old m'. hashmap__insert hash eq calloc_ok malloc_ok strategy key v m = Inr (ret, old, m') \<and> hm_inv hash m' \<and>
    (\<forall>e. old = Some e \<longrightarrow> e \<in> set (hashmap_entries m) \<and> eq (fst e) key) \<and>
    (if ret = 0 then mset (hashmap_entries m') + replaced old = mset (hashmap_entries m) + {#(key, v)#}
     else mset (hashmap_entries m') = mset (hashmap_entries m)) \<and>
    (if strategy = HASHMAP_APPEND
     then old = None \<and> (ret = 0 \<or> ret = - ENOMEM \<and> (\<not> calloc_ok \<or> \<not> malloc_ok \<or> 60 \<le> hm_cap_bits m))
     else keys_unique eq (hashmap_entries m') \<and> map_option snd old = hm_map eq m key \<and>
      (ret = 0 \<and> hm_map eq m' = upd_key eq (hm_map eq m) key (Some v) \<and>
         (strategy = HASHMAP_ADD \<longrightarrow> hm_map eq m key = None) \<and> (strategy = HASHMAP_UPDATE \<longrightarrow> hm_map eq m key \<noteq> None) \<or>
       ret = - EEXIST \<and> m' = m \<and> strategy = HASHMAP_ADD \<and> hm_map eq m key \<noteq> None \<or>
       ret = - ENOENT \<and> m' = m \<and> strategy = HASHMAP_UPDATE \<and> hm_map eq m key = None \<or>
       ret = - ENOMEM \<and> hm_map eq m' = hm_map eq m \<and> hm_map eq m key = None \<and>
         (\<not> calloc_ok \<or> \<not> malloc_ok \<or> 60 \<le> hm_cap_bits m)))"
proof (cases "strategy = HASHMAP_APPEND")
  case True
  obtain ret m' where ins: "hashmap__insert hash eq calloc_ok malloc_ok strategy key v m = Inr (ret, None, m')" "hm_inv hash m'"
    and out: "ret = 0 \<and> mset (hashmap_entries m') = mset (hashmap_entries m) + {#(key, v)#} \<or>
      ret = - ENOMEM \<and> mset (hashmap_entries m') = mset (hashmap_entries m)"
    using insert_append [OF assms(2), of eq calloc_ok malloc_ok key v] True by blast
  have "ret = - ENOMEM \<longrightarrow> \<not> calloc_ok \<or> \<not> malloc_ok \<or> 60 \<le> hm_cap_bits m" using insert_nomem [of hash eq calloc_ok malloc_ok strategy key v m] ins(1) by blast
  then show ?thesis using ins out True by (auto simp: ENOMEM_def)
next
  case False
  obtain ret old m' where ins: "hashmap__insert hash eq calloc_ok malloc_ok strategy key v m = Inr (ret, old, m')"
    "hm_inv hash m'" "keys_unique eq (hashmap_entries m')" "map_option snd old = hm_map eq m key"
    and out: "ret = 0 \<and> hm_map eq m' = upd_key eq (hm_map eq m) key (Some v) \<and>
         mset (hashmap_entries m') + replaced old = mset (hashmap_entries m) + {#(key, v)#} \<and>
         (strategy = HASHMAP_ADD \<longrightarrow> hm_map eq m key = None) \<and> (strategy = HASHMAP_UPDATE \<longrightarrow> hm_map eq m key \<noteq> None) \<or>
       ret = - EEXIST \<and> m' = m \<and> strategy = HASHMAP_ADD \<and> hm_map eq m key \<noteq> None \<or>
       ret = - ENOENT \<and> m' = m \<and> strategy = HASHMAP_UPDATE \<and> hm_map eq m key = None \<or>
       ret = - ENOMEM \<and> hm_map eq m' = hm_map eq m \<and> mset (hashmap_entries m') = mset (hashmap_entries m) \<and> hm_map eq m key = None"
    using hash_keys.insert_ok [OF assms(1,2) assms(3) [OF False] False, of calloc_ok malloc_ok key v] by blast
  have nomem: "ret = - ENOMEM \<longrightarrow> \<not> calloc_ok \<or> \<not> malloc_ok \<or> 60 \<le> hm_cap_bits m"
    using insert_nomem [of hash eq calloc_ok malloc_ok strategy key v m] ins(1) by blast
  note old = insert_entries [OF assms(2) ins(1), THEN conjunct2]
  show ?thesis
    using ins False nomem old out by (auto simp: ENOMEM_def EEXIST_def ENOENT_def)
qed

theorem hashmap_insert_refines_update_witness:
  "\<exists>ret old m'. hashmap__insert (\<lambda>k. k) (=) True True HASHMAP_SET 0 ''v'' one_entry_map = Inr (ret, old, m') \<and>
    hm_inv (\<lambda>k. k) m' \<and> ret = 0 \<and> old = Some (0, ''z'') \<and> hashmap_entries m' = [(0, ''v'')]"
proof -
  have key: "hash_keys (\<lambda>k :: u64. k) (=)" by unfold_locales simp_all
  have e: "hashmap_entries one_entry_map = [(0, ''z'')]" "hm_map (=) one_entry_map 0 = Some ''z''"
    by (simp_all add: one_entry_map_def hashmap_entries_def hm_map_def assoc_find_def)
  then have u: "keys_unique (=) (hashmap_entries one_entry_map)" by (simp add: keys_unique_def)
  have inv: "hm_inv (\<lambda>k. k) one_entry_map"
    by (auto simp: one_entry_map_def hm_inv_def chains_ok_def hash_bits_def less_Suc_eq numeral_eq_Suc)
  obtain ret old m' where r: "hashmap__insert (\<lambda>k. k) (=) True True HASHMAP_SET 0 ''v'' one_entry_map = Inr (ret, old, m')"
    "hm_inv (\<lambda>k. k) m'" "ret = 0" "\<forall>e. old = Some e \<longrightarrow> e = (0, ''z'')" "old \<noteq> None"
    "mset (hashmap_entries m') + replaced old = {#(0, ''z'')#} + {#(0, ''v'')#}"
    using hashmap_insert_refines_update [OF key inv u, of True True HASHMAP_SET 0 "''v''"] e by auto
  then show ?thesis by auto
qed

text \<open>
  Lookup and deletion. On a well-formed table \<open>hashmap__find\<close> returns the value the map has at
  the key, and \<open>hashmap__delete\<close> returns the entry and removes the key from the map.
\<close>

theorem hashmap_find_delete_refine:
  assumes "hash_keys hash eq" and "hm_inv hash m" and "keys_unique eq (hashmap_entries m)"
  shows "hashmap__find hash eq m key = Inr (hm_map eq m key) \<and>
    (\<exists>old m'. hashmap__delete hash eq key m = Inr (old, m') \<and> hm_inv hash m' \<and> keys_unique eq (hashmap_entries m') \<and>
      map_option snd old = hm_map eq m key \<and> hm_map eq m' = upd_key eq (hm_map eq m) key None)"
  using hash_keys.find_ok [OF assms(1,2)] hash_keys.delete_ok [OF assms] by blast

theorem hashmap_find_delete_refine_witness:
  "hashmap__find (\<lambda>k. k) (=) one_entry_map 0 = Inr (Some ''z'')"
proof -
  have "hash_keys (\<lambda>k :: u64. k) (=)" by unfold_locales simp_all
  moreover have "hm_inv (\<lambda>k. k) one_entry_map"
    by (auto simp: one_entry_map_def hm_inv_def chains_ok_def hash_bits_def less_Suc_eq numeral_eq_Suc)
  moreover have "keys_unique (=) (hashmap_entries one_entry_map)"
    by (simp add: one_entry_map_def keys_unique_def hashmap_entries_def)
  moreover have "hm_map (=) one_entry_map 0 = Some ''z''"
    by (simp add: one_entry_map_def hm_map_def hashmap_entries_def assoc_find_def)
  ultimately show ?thesis using hashmap_find_delete_refine [of "\<lambda>k. k" "(=)" one_entry_map 0] by simp
qed

text \<open>
  Growing reverses the chains. Two values appended under one key are found in the order the
  header promises, the last one first, as long as the table does not grow; the fourth insertion
  makes it grow, and then the first value is found.
\<close>

definition append_all :: "(u64 \<times> nat) list \<Rightarrow> fault + (u64, nat) hashmap" where
  "append_all kvs = foldR (\<lambda>(k, v) m. bindR (hashmap__insert (\<lambda>k. k) (=) True True HASHMAP_APPEND k v m)
     (\<lambda>(ret, old, m). Inr m)) kvs hashmap__init"

theorem hashmap_grow_reverses_appended:
  "bindR (append_all [(7, 1), (7, 2)]) (\<lambda>m. hashmap__find (\<lambda>k. k) (=) m 7) = Inr (Some 2) \<and>
   bindR (append_all [(7, 1), (7, 2), (8, 3), (9, 4)]) (\<lambda>m. hashmap__find (\<lambda>k. k) (=) m 7) = Inr (Some 1)"
  by code_simp

end
