(* ===== verification/Strset.thy ===== *)
theory Strset
  imports Hashmap Mem
begin

text \<open>
  The set of strings of \<open>libbpf/src/strset.c\<close>: one memory area of C strings, and a hash table whose
  keys are offsets into that area and are compared and hashed by the strings they denote. The
  string to be looked up is first written behind the used part of the area.
\<close>

section \<open>Data and operations\<close>

record strset =
  ss_data :: mem_area
  ss_data_len :: nat
  ss_data_max_len :: nat
  ss_hash :: "(nat, nat) hashmap"

definition strset_hash_fn :: "u8 list \<Rightarrow> nat \<Rightarrow> u64" where
  "strset_hash_fn data key = str_hash (cstr data key)"

definition strset_equal_fn :: "u8 list \<Rightarrow> nat \<Rightarrow> nat \<Rightarrow> bool" where
  "strset_equal_fn data key1 key2 \<longleftrightarrow> cstr data key1 = cstr data key2"

text \<open>Offsets are computed as \<open>long\<close> and returned as \<open>int\<close>: only the low 32 bits are kept.\<close>

definition int_of_long :: "nat \<Rightarrow> int" where
  "int_of_long n = sint (of_nat n :: u32)"

text \<open>\<open>alloc\<close> answers the two allocations of an insertion; \<open>realloc_ok\<close> that of the string memory.\<close>

definition strset_bytes :: "strset \<Rightarrow> u8 list" where
  "strset_bytes st = ma_data (ss_data st)"

definition strset_add_str_mem :: "bool \<Rightarrow> nat \<Rightarrow> strset \<Rightarrow> nat option \<times> strset" where
  "strset_add_str_mem realloc_ok add_sz st =
     (case libbpf_add_mem realloc_ok 1 (ss_data_len st) (ss_data_max_len st) add_sz (ss_data st) of
        (p, a) \<Rightarrow> (p, st\<lparr>ss_data := a\<rparr>))"

definition strset__find_str :: "bool \<Rightarrow> u8 list \<Rightarrow> strset \<Rightarrow> fault + (int \<times> strset)" where
  "strset__find_str realloc_ok s st =
     (case strset_add_str_mem realloc_ok (length s + 1) st of
        (None, st) \<Rightarrow> Inr (- ENOMEM, st)
      | (Some p, st) \<Rightarrow>
         (let new_off = ss_data_len st;
              st = st\<lparr>ss_data := area_write p (s @ [0]) (ss_data st)\<rparr>;
              data = strset_bytes st
          in bindR (hashmap__find (strset_hash_fn data) (strset_equal_fn data) (ss_hash st) new_off) (\<lambda>found.
               Inr (case found of Some old_off \<Rightarrow> int_of_long old_off | None \<Rightarrow> - ENOENT, st))))"

definition strset__add_str :: "bool \<Rightarrow> bool \<times> bool \<Rightarrow> u8 list \<Rightarrow> strset \<Rightarrow> fault + (int \<times> strset)" where
  "strset__add_str realloc_ok alloc s st =
     (let len = length s + 1 in
      case strset_add_str_mem realloc_ok len st of
        (None, st) \<Rightarrow> Inr (- ENOMEM, st)
      | (Some p, st) \<Rightarrow>
         (let new_off = ss_data_len st;
              st = st\<lparr>ss_data := area_write p (s @ [0]) (ss_data st)\<rparr>;
              data = strset_bytes st
          in bindR (hashmap__insert (strset_hash_fn data) (strset_equal_fn data) (fst alloc) (snd alloc)
                      HASHMAP_ADD new_off new_off (ss_hash st)) (\<lambda>(err, old, h).
               let st = st\<lparr>ss_hash := h\<rparr> in
               if err = - EEXIST then Inr (case old of Some (old_off, _) \<Rightarrow> int_of_long old_off | None \<Rightarrow> 0, st)
               else if err \<noteq> 0 then Inr (err, st)
               else Inr (int_of_long new_off, st\<lparr>ss_data_len := ss_data_len st + len\<rparr>))))"

text \<open>The loop of \<open>strset__new\<close> over the initial data: every string is entered unless an equal one is there.
  A string without terminator would be read past the end of the area.\<close>

function strset_index :: "(nat \<Rightarrow> bool \<times> bool) \<Rightarrow> u8 list \<Rightarrow> nat \<Rightarrow> (nat, nat) hashmap \<Rightarrow> err + (nat, nat) hashmap" where
  "strset_index alloc data off h =
     (if off < length data then
        if \<not> cstr_ok data off then Inl (Fault Out_Of_Bounds)
        else
         (case hashmap__insert (strset_hash_fn data) (strset_equal_fn data) (fst (alloc off)) (snd (alloc off))
                 HASHMAP_ADD off off h of
            Inl f \<Rightarrow> Inl (Fault f)
          | Inr (err, _, h) \<Rightarrow>
              if err \<noteq> - EEXIST \<and> err \<noteq> 0 then Inl (Errno err)
              else strset_index alloc data (off + length (cstr data off) + 1) h)
      else Inr h)"
  by pat_completeness auto

termination
  by (relation "measure (\<lambda>(alloc, data, off, h). length data - off)") auto

declare strset_index.simps [simp del]

definition strset__new ::
  "bool \<Rightarrow> bool \<Rightarrow> bool \<Rightarrow> (nat \<Rightarrow> bool \<times> bool) \<Rightarrow> nat \<Rightarrow> u8 list option \<Rightarrow> err + strset" where
  "strset__new calloc_ok new_ok malloc_ok alloc max_data_sz init_data =
     (if \<not> calloc_ok then Inl (Errno (- ENOMEM))
      else bindR (hashmap__new new_ok) (\<lambda>hash. case init_data of
          None \<Rightarrow> Inr \<lparr>ss_data = \<lparr>ma_data = [], ma_cap = 0\<rparr>, ss_data_len = 0, ss_data_max_len = max_data_sz, ss_hash = hash\<rparr>
        | Some d \<Rightarrow>
            if \<not> malloc_ok then Inl (Errno (- ENOMEM))
            else bindR (strset_index alloc d 0 hash) (\<lambda>hash.
              Inr \<lparr>ss_data = \<lparr>ma_data = d, ma_cap = length d\<rparr>, ss_data_len = length d,
                   ss_data_max_len = max_data_sz, ss_hash = hash\<rparr>)))"

definition strset__data_size :: "strset \<Rightarrow> nat" where
  "strset__data_size st = ss_data_len st"

definition strset__data :: "strset \<Rightarrow> u8 list" where
  "strset__data st = take (ss_data_len st) (strset_bytes st)"

section \<open>Invariant and abstraction\<close>

text \<open>The strings fit the range of the \<open>int\<close> offsets: the area has at most \<open>2 ^ 31\<close> bytes and may not grow further.\<close>

definition strset_inv :: "strset \<Rightarrow> bool" where
  "strset_inv st \<longleftrightarrow> area_ok 1 (ss_data st) \<and> ss_data_len st \<le> ma_cap (ss_data st) \<and>
     ma_cap (ss_data st) \<le> 2 ^ 31 \<and> ss_data_max_len st \<le> 2 ^ 31 \<and>
     hm_inv (strset_hash_fn (strset_bytes st)) (ss_hash st) \<and>
     keys_unique (strset_equal_fn (strset_bytes st)) (hashmap_entries (ss_hash st)) \<and>
     (\<forall>e\<in>set (hashmap_entries (ss_hash st)). snd e = fst e \<and>
        cstr_ok (take (ss_data_len st) (strset_bytes st)) (fst e))"

lemma int_of_long_id: "n < 2 ^ 31 \<Longrightarrow> int_of_long n = int n"
  by (simp add: int_of_long_def sint_uint unsigned_of_nat take_bit_nat_eq_self signed_take_bit_int_eq_self)

text \<open>The offset at which a string is stored.\<close>

definition ss_map :: "strset \<Rightarrow> u8 list \<Rightarrow> nat option" where
  "ss_map st s = map_option snd (List.find (\<lambda>e. cstr (strset_bytes st) (fst e) = s) (hashmap_entries (ss_hash st)))"

interpretation strset_keys: hash_keys "strset_hash_fn data" "strset_equal_fn data" for data
  by unfold_locales (auto simp: strset_hash_fn_def strset_equal_fn_def)

lemma hm_inv_cong:
  assumes "hm_inv hash m" "\<And>e. e \<in> set (hashmap_entries m) \<Longrightarrow> hash' (fst e) = hash (fst e)"
  shows "hm_inv hash' m"
proof (cases "hm_buckets m")
  case None
  then show ?thesis using assms(1) by (simp add: hm_inv_def)
next
  case (Some bs)
  have "e \<in> set (hashmap_entries m)" if "i < length bs" "e \<in> set (bs ! i)" for i e
    using that Some entries_concat [OF assms(1)] by (auto intro!: bexI [of _ "bs ! i"])
  then show ?thesis using assms Some by (simp add: hm_inv_def chains_ok_def)
qed

lemma keys_unique_cong:
  assumes "keys_unique eq es"
    and "\<And>e e'. e \<in> set es \<Longrightarrow> e' \<in> set es \<Longrightarrow> eq' (fst e) (fst e') = eq (fst e) (fst e')"
  shows "keys_unique eq' es"
  using assms by (simp add: keys_unique_def)

lemma find_cong_list: "(\<And>x. x \<in> set xs \<Longrightarrow> P x = Q x) \<Longrightarrow> List.find P xs = List.find Q xs"
  by (induction xs) auto

text \<open>Writing behind the used part of the area keeps everything.\<close>

lemma strset_inv_scratch:
  assumes inv: "strset_inv st" and a: "area_ok 1 a" "ma_cap (ss_data st) \<le> ma_cap a" "ma_cap a \<le> 2 ^ 31"
    and same: "take (ss_data_len st) (ma_data a) = take (ss_data_len st) (strset_bytes st)"
  shows "strset_inv (st\<lparr>ss_data := a\<rparr>)" "ss_map (st\<lparr>ss_data := a\<rparr>) = ss_map st"
proof -
  have c: "cstr (ma_data a) (fst e) = cstr (strset_bytes st) (fst e)" if "e \<in> set (hashmap_entries (ss_hash st))" for e
    using inv that cstr_agree [OF _ same] by (auto simp: strset_inv_def)
  show "strset_inv (st\<lparr>ss_data := a\<rparr>)"
    unfolding strset_inv_def
  proof (intro conjI)
    show "hm_inv (strset_hash_fn (strset_bytes (st\<lparr>ss_data := a\<rparr>))) (ss_hash (st\<lparr>ss_data := a\<rparr>))"
      using inv c hm_inv_cong [of "strset_hash_fn (strset_bytes st)" "ss_hash st" "strset_hash_fn (ma_data a)"]
      by (simp add: strset_inv_def strset_bytes_def strset_hash_fn_def)
    show "keys_unique (strset_equal_fn (strset_bytes (st\<lparr>ss_data := a\<rparr>))) (hashmap_entries (ss_hash (st\<lparr>ss_data := a\<rparr>)))"
      using inv c keys_unique_cong [of "strset_equal_fn (strset_bytes st)" "hashmap_entries (ss_hash st)" "strset_equal_fn (ma_data a)"]
      by (simp add: strset_inv_def strset_bytes_def strset_equal_fn_def)
  qed (use inv a same in \<open>auto simp: strset_inv_def strset_bytes_def\<close>)
  show "ss_map (st\<lparr>ss_data := a\<rparr>) = ss_map st"
    using c by (auto simp: ss_map_def strset_bytes_def fun_eq_iff intro!: arg_cong [of _ _ "map_option snd"] find_cong_list)
qed

lemma ss_map_hm_map:
  "cstr (strset_bytes st) k = s \<Longrightarrow> hm_map (strset_equal_fn (strset_bytes st)) (ss_hash st) k = ss_map st s"
  by (simp add: hm_map_def assoc_find_def ss_map_def strset_equal_fn_def)

lemma ss_map_Some:
  assumes "strset_inv st"
  shows "ss_map st s = Some k \<longleftrightarrow> (k, k) \<in> set (hashmap_entries (ss_hash st)) \<and> cstr (strset_bytes st) k = s"
proof -
  have u: "keys_unique (strset_equal_fn (strset_bytes st)) (hashmap_entries (ss_hash st))"
    and same: "\<And>e. e \<in> set (hashmap_entries (ss_hash st)) \<Longrightarrow> snd e = fst e"
    using assms by (auto simp: strset_inv_def)
  show ?thesis
  proof
    assume "ss_map st s = Some k"
    then obtain e where e: "List.find (\<lambda>e. cstr (strset_bytes st) (fst e) = s) (hashmap_entries (ss_hash st)) = Some e" "snd e = k"
      by (auto simp: ss_map_def)
    then have "e \<in> set (hashmap_entries (ss_hash st))" "cstr (strset_bytes st) (fst e) = s"
      by (auto simp: find_Some_iff)
    moreover from this(1) have "e = (k, k)" using same [of e] e(2) by (simp add: prod_eq_iff)
    ultimately show "(k, k) \<in> set (hashmap_entries (ss_hash st)) \<and> cstr (strset_bytes st) k = s" by simp
  next
    assume k: "(k, k) \<in> set (hashmap_entries (ss_hash st)) \<and> cstr (strset_bytes st) k = s"
    then have "assoc_find (strset_equal_fn (strset_bytes st)) (hashmap_entries (ss_hash st)) k = Some k"
      using strset_keys.assoc_find_unique [OF u, of k k] strset_keys.eq_refl by blast
    then show "ss_map st s = Some k" using ss_map_hm_map [of st k s] k by (simp add: hm_map_def)
  qed
qed

lemma ss_map_less:
  assumes "strset_inv st" "ss_map st s = Some k"
  shows "k < ss_data_len st" "k < 2 ^ 31"
proof -
  have "cstr_ok (take (ss_data_len st) (strset_bytes st)) k"
    using assms ss_map_Some [OF assms(1)] by (auto simp: strset_inv_def)
  then show "k < ss_data_len st" unfolding cstr_ok_def by (cases "k < ss_data_len st") simp_all
  then show "k < 2 ^ 31" using assms(1) by (simp add: strset_inv_def)
qed

text \<open>The string written behind the used part, and what is known of the set afterwards.\<close>

lemma strset_write_scratch:
  assumes inv: "strset_inv st" and s: "0 \<notin> set s"
    and mem: "strset_add_str_mem realloc_ok (length s + 1) st = (Some p, st1)"
  defines "st2 \<equiv> st1\<lparr>ss_data := area_write p (s @ [0]) (ss_data st1)\<rparr>"
  shows "strset_inv st2 \<and> ss_map st2 = ss_map st \<and> ss_data_len st2 = ss_data_len st \<and>
    take (ss_data_len st) (strset_bytes st2) = take (ss_data_len st) (strset_bytes st) \<and>
    ss_data_len st1 = ss_data_len st \<and> ss_hash st2 = ss_hash st \<and> ss_data_max_len st2 = ss_data_max_len st \<and>
    cstr (strset_bytes st2) (ss_data_len st) = s \<and>
    cstr_ok (take (ss_data_len st + length s + 1) (strset_bytes st2)) (ss_data_len st) \<and>
    ss_data_len st + length s + 1 \<le> ma_cap (ss_data st2)"
proof -
  let ?n = "ss_data_len st"
  obtain a where a: "libbpf_add_mem realloc_ok 1 ?n (ss_data_max_len st) (length s + 1) (ss_data st) = (Some p, a)"
    "st1 = st\<lparr>ss_data := a\<rparr>"
    using mem by (auto simp: strset_add_str_mem_def split: prod.splits)
  have ok: "area_ok 1 (ss_data st)" "?n \<le> ma_cap (ss_data st)" using inv by (auto simp: strset_inv_def)
  obtain z where z: "area_ok 1 a" "ma_cap (ss_data st) \<le> ma_cap a" "ma_data a = ma_data (ss_data st) @ replicate z 0"
    "p = ?n" "?n + (length s + 1) \<le> ma_cap a" and cap: "ma_cap a \<le> ss_data_max_len st \<or> a = ss_data st"
    using add_mem_cases [OF ok(1) a(1)] by auto
  have max: "ma_cap a \<le> 2 ^ 31" using cap inv by (auto simp: strset_inv_def)
  define d where "d = area_write p (s @ [0]) a"
  have len: "length (ma_data a) = ma_cap a" "length (ma_data (ss_data st)) = ma_cap (ss_data st)"
    using z(1) ok(1) by (simp_all add: area_ok_def)
  have d: "ma_data d = take ?n (ma_data a) @ s @ 0 # drop (?n + (length s + 1)) (ma_data a)" "ma_cap d = ma_cap a"
    by (simp_all add: d_def area_write_def z(4))
  have area: "area_ok 1 d" using z(5) len(1) by (simp add: area_ok_def d)
  have pre: "take ?n (ma_data d) = take ?n (strset_bytes st)"
    using ok(2) z(3) len d(1) z(2) by (simp add: strset_bytes_def)
  have lp: "length (take ?n (ma_data a)) = ?n" using len(1) z(5) by simp
  have st2: "st2 = st\<lparr>ss_data := d\<rparr>" by (simp add: st2_def a(2) d_def)
  show ?thesis
    using strset_inv_scratch [OF inv area _ _ pre] z(2,5) max d(2) pre cstr_written [OF s lp, of "drop (?n + (length s + 1)) (ma_data a)"] d(1)
    by (simp add: st2 a(2) strset_bytes_def add.assoc)
qed

lemma cstr_ok_mono:
  assumes "cstr_ok (take n bs) off" "n \<le> n'"
  shows "cstr_ok (take n' bs) off"
proof -
  have "take n' bs = take n bs @ take (n' - n) (drop n bs)" using assms(2) by (metis le_add_diff_inverse take_add)
  then show ?thesis using assms(1) by (simp add: cstr_ok_def)
qed

lemma ss_map_ext:
  assumes inv2: "strset_inv st2" and inv3: "strset_inv st3" and b: "strset_bytes st3 = strset_bytes st2"
    and "\<And>k. hm_map (strset_equal_fn (strset_bytes st2)) (ss_hash st3) k = g (cstr (strset_bytes st2) k)"
    and "\<And>t. (\<And>k. cstr (strset_bytes st2) k \<noteq> t) \<Longrightarrow> g t = None"
  shows "ss_map st3 = g"
proof
  fix t
  show "ss_map st3 t = g t"
  proof (cases "\<exists>k. cstr (strset_bytes st2) k = t")
    case True
    then show ?thesis using assms(4) ss_map_hm_map [of st3 _ t] b by auto
  next
    case False
    then have "ss_map st3 t = None" using ss_map_Some [OF inv3, of t] b by (metis not_Some_eq)
    then show ?thesis using False assms(5) by simp
  qed
qed

lemma ss_map_after_insert:
  assumes inv2: "strset_inv st2" and inv3: "strset_inv st3" and b: "strset_bytes st3 = strset_bytes st2"
    and n: "cstr (strset_bytes st2) n = s"
  shows "hm_map (strset_equal_fn (strset_bytes st2)) (ss_hash st3) =
      upd_key (strset_equal_fn (strset_bytes st2)) (hm_map (strset_equal_fn (strset_bytes st2)) (ss_hash st2)) n (Some n) \<Longrightarrow>
      ss_map st3 = (ss_map st2)(s \<mapsto> n)"
    and "hm_map (strset_equal_fn (strset_bytes st2)) (ss_hash st3) = hm_map (strset_equal_fn (strset_bytes st2)) (ss_hash st2) \<Longrightarrow>
      ss_map st3 = ss_map st2"
proof -
  have none: "ss_map st2 t = None" if "\<And>k. cstr (strset_bytes st2) k \<noteq> t" for t
    using ss_map_Some [OF inv2, of t] that by (metis not_Some_eq)
  show "ss_map st3 = (ss_map st2)(s \<mapsto> n)" if up: "hm_map (strset_equal_fn (strset_bytes st2)) (ss_hash st3) =
      upd_key (strset_equal_fn (strset_bytes st2)) (hm_map (strset_equal_fn (strset_bytes st2)) (ss_hash st2)) n (Some n)"
    using none n by (intro ss_map_ext [OF inv2 inv3 b])
      (auto simp: up upd_key_def strset_equal_fn_def [of "strset_bytes st2" n] ss_map_hm_map [OF refl])
  show "ss_map st3 = ss_map st2" if "hm_map (strset_equal_fn (strset_bytes st2)) (ss_hash st3) = hm_map (strset_equal_fn (strset_bytes st2)) (ss_hash st2)"
    using none by (intro ss_map_ext [OF inv2 inv3 b]) (simp_all add: that ss_map_hm_map [OF refl])
qed

text \<open>Memory for one more string: the allocations succeed, the string fits, the table can grow.\<close>

definition str_room :: "bool \<Rightarrow> bool \<times> bool \<Rightarrow> u8 list \<Rightarrow> strset \<Rightarrow> bool" where
  "str_room realloc_ok alloc s st \<longleftrightarrow> realloc_ok \<and> fst alloc \<and> snd alloc \<and>
     ss_data_len st + length s + 1 \<le> ss_data_max_len st \<and> hm_cap_bits (ss_hash st) < 60"

lemma add_str_ok:
  assumes inv: "strset_inv st" and s: "0 \<notin> set s"
  shows "\<exists>ret st'. strset__add_str realloc_ok alloc s st = Inr (ret, st') \<and> strset_inv st' \<and>
    take (ss_data_len st) (strset_bytes st') = take (ss_data_len st) (strset_bytes st) \<and>
    (ret = - ENOMEM \<and> ss_map st' = ss_map st \<and> ss_data_len st' = ss_data_len st \<and> \<not> str_room realloc_ok alloc s st \<or>
     (case ss_map st s of
        Some k \<Rightarrow> ret = int k \<and> ss_map st' = ss_map st \<and> ss_data_len st' = ss_data_len st
      | None \<Rightarrow> ret = int (ss_data_len st) \<and> ss_map st' = (ss_map st)(s \<mapsto> ss_data_len st) \<and>
          ss_data_len st' = ss_data_len st + length s + 1))"
proof -
  obtain p st1 where mem: "strset_add_str_mem realloc_ok (length s + 1) st = (p, st1)" by fastforce
  show ?thesis
  proof (cases p)
    case None
    have "st1 = st" using mem None inv add_mem_cases [of 1 "ss_data st"]
      by (fastforce simp: strset_add_str_mem_def strset_inv_def split: prod.splits)
    moreover have "\<not> str_room realloc_ok alloc s st"
      using mem None by (auto simp: str_room_def strset_add_str_mem_def libbpf_add_mem_def Let_def split: prod.splits if_splits)
    ultimately show ?thesis using mem None inv by (simp add: strset__add_str_def Let_def)
  next
    case (Some off)
    define st2 where "st2 = st1\<lparr>ss_data := area_write off (s @ [0]) (ss_data st1)\<rparr>"
    let ?n = "ss_data_len st" and ?h = "strset_hash_fn (strset_bytes st2)" and ?e = "strset_equal_fn (strset_bytes st2)"
    have w: "strset_inv st2" "ss_map st2 = ss_map st" "ss_data_len st2 = ?n"
      "take ?n (strset_bytes st2) = take ?n (strset_bytes st)" "ss_data_len st1 = ?n"
      "cstr (strset_bytes st2) ?n = s" "cstr_ok (take (?n + length s + 1) (strset_bytes st2)) ?n"
      "?n + length s + 1 \<le> ma_cap (ss_data st2)" "ss_hash st2 = ss_hash st"
      using strset_write_scratch [OF inv s, of realloc_ok off st1] mem Some by (simp_all add: st2_def)
    have h2: "hm_inv ?h (ss_hash st2)" "keys_unique ?e (hashmap_entries (ss_hash st2))"
      and ent: "\<And>e. e \<in> set (hashmap_entries (ss_hash st2)) \<Longrightarrow> snd e = fst e \<and> cstr_ok (take ?n (strset_bytes st2)) (fst e)"
      using w(1,3) by (auto simp: strset_inv_def)
    have cur: "hm_map ?e (ss_hash st2) ?n = ss_map st s" using ss_map_hm_map [of st2 ?n s] w(2,6) by simp
    obtain ret old h' where ins: "hashmap__insert ?h ?e (fst alloc) (snd alloc) HASHMAP_ADD ?n ?n (ss_hash st2) = Inr (ret, old, h')"
      and h': "hm_inv ?h h'" "keys_unique ?e (hashmap_entries h')" "map_option snd old = ss_map st s"
      and out: "ret = 0 \<and> hm_map ?e h' = upd_key ?e (hm_map ?e (ss_hash st2)) ?n (Some ?n) \<and> ss_map st s = None \<or>
        ret = - EEXIST \<and> h' = ss_hash st2 \<and> ss_map st s \<noteq> None \<or>
        ret = - ENOMEM \<and> hm_map ?e h' = hm_map ?e (ss_hash st2) \<and> ss_map st s = None"
      using strset_keys.insert_ok [OF h2, of HASHMAP_ADD "fst alloc" "snd alloc" ?n ?n] cur by auto
    note ie = insert_entries [OF h2(1) ins]
    have room: "\<not> str_room realloc_ok alloc s st" if "ret = - ENOMEM"
      using insert_nomem [of ?h ?e "fst alloc" "snd alloc" HASHMAP_ADD ?n ?n "ss_hash st2"] ins that w(9) by (auto simp: str_room_def)
    have n: "int_of_long ?n = int ?n" using w(1,3,8) by (intro int_of_long_id) (simp add: strset_inv_def)
    have run: "strset__add_str realloc_ok alloc s st =
       (if ret = - EEXIST then Inr (case old of Some (k, _) \<Rightarrow> int_of_long k | None \<Rightarrow> 0, st2\<lparr>ss_hash := h'\<rparr>)
        else if ret \<noteq> 0 then Inr (ret, st2\<lparr>ss_hash := h'\<rparr>)
        else Inr (int ?n, st2\<lparr>ss_hash := h', ss_data_len := ?n + (length s + 1)\<rparr>))"
      using mem Some ins w(3,5) n by (simp add: strset__add_str_def Let_def st2_def)
    have ent': "snd e = fst e \<and> cstr_ok (take (?n + (length s + 1)) (strset_bytes st2)) (fst e)"
      if "e \<in> set (hashmap_entries h')" for e
      using ie ent [of e] that w(7) cstr_ok_mono [of ?n "strset_bytes st2" "fst e" "?n + (length s + 1)"] by (auto simp: add.assoc)
    from out show ?thesis
    proof (elim disjE conjE)
      assume r: "ret = 0" "hm_map ?e h' = upd_key ?e (hm_map ?e (ss_hash st2)) ?n (Some ?n)" "ss_map st s = None"
      define st3 where "st3 = st2\<lparr>ss_hash := h', ss_data_len := ?n + (length s + 1)\<rparr>"
      have inv3: "strset_inv st3" using w(1,8) h' ent' by (simp add: strset_inv_def st3_def strset_bytes_def)
      have "ss_map st3 = (ss_map st)(s \<mapsto> ?n)"
        using ss_map_after_insert(1) [OF w(1) inv3 _ w(6)] r(2) w(2) by (simp add: st3_def strset_bytes_def)
      then show ?thesis using run r inv3 w(4) by (auto simp: EEXIST_def st3_def strset_bytes_def)
    next
      assume r: "ret = - EEXIST" "h' = ss_hash st2" "ss_map st s \<noteq> None"
      then obtain k e where k: "ss_map st s = Some k" "old = Some e" "snd e = k" using h'(3) by (cases old) auto
      then have "fst e = k" using ie ent by auto
      then show ?thesis using run r k w(1-4) int_of_long_id [OF ss_map_less(2) [OF inv k(1)]] by (cases e) (auto simp: EEXIST_def)
    next
      assume r: "ret = - ENOMEM" "hm_map ?e h' = hm_map ?e (ss_hash st2)" "ss_map st s = None"
      define st3 where "st3 = st2\<lparr>ss_hash := h'\<rparr>"
      have "e \<in> set (hashmap_entries (ss_hash st2))" if "e \<in> set (hashmap_entries h')" for e
      proof -
        have "e \<noteq> (?n, ?n)"
          using that r(2,3) cur strset_keys.assoc_find_unique [OF h'(2), of ?n ?n] strset_keys.eq_refl by (auto simp: hm_map_def)
        then show ?thesis using ie that by auto
      qed
      then have inv3: "strset_inv st3" using w(1,3) h' ent by (simp add: strset_inv_def st3_def strset_bytes_def)
      have "ss_map st3 = ss_map st"
        using ss_map_after_insert(2) [OF w(1) inv3 _ w(6)] r(2) w(2) by (simp add: st3_def strset_bytes_def)
      then show ?thesis using run r inv3 w(3,4) room by (auto simp: EEXIST_def ENOMEM_def st3_def strset_bytes_def)
    qed
  qed
qed

lemma add_str_nomem:
  assumes "strset_inv st" "0 \<notin> set s" "strset__add_str realloc_ok alloc s st = Inr (- ENOMEM, st')"
  shows "\<not> str_room realloc_ok alloc s st"
  using add_str_ok [OF assms(1,2), of realloc_ok alloc] assms(3) by (auto simp: ENOMEM_def split: option.splits)

lemma find_str_ok:
  assumes inv: "strset_inv st" and s: "0 \<notin> set s"
  shows "\<exists>ret st'. strset__find_str realloc_ok s st = Inr (ret, st') \<and> strset_inv st' \<and> ss_map st' = ss_map st \<and>
    ss_data_len st' = ss_data_len st \<and>
    (ret = - ENOMEM \<or> ret = (case ss_map st s of Some k \<Rightarrow> int k | None \<Rightarrow> - ENOENT))"
proof -
  obtain p st1 where mem: "strset_add_str_mem realloc_ok (length s + 1) st = (p, st1)" by fastforce
  show ?thesis
  proof (cases p)
    case None
    have "st1 = st" using mem None inv add_mem_cases [of 1 "ss_data st"]
      by (fastforce simp: strset_add_str_mem_def strset_inv_def split: prod.splits)
    then show ?thesis using mem None inv by (simp add: strset__find_str_def)
  next
    case (Some off)
    define st2 where "st2 = st1\<lparr>ss_data := area_write off (s @ [0]) (ss_data st1)\<rparr>"
    let ?n = "ss_data_len st" and ?d = "strset_bytes st2"
    have w: "strset_inv st2" "ss_map st2 = ss_map st" "ss_data_len st2 = ?n" "ss_data_len st1 = ?n" "cstr ?d ?n = s"
      using strset_write_scratch [OF inv s, of realloc_ok off st1] mem Some by (simp_all add: st2_def)
    have "hashmap__find (strset_hash_fn ?d) (strset_equal_fn ?d) (ss_hash st2) ?n = Inr (ss_map st s)"
      using strset_keys.find_ok [of ?d "ss_hash st2" ?n] ss_map_hm_map [OF w(5)] w(1,2) by (simp add: strset_inv_def)
    then have "strset__find_str realloc_ok s st = Inr (case ss_map st s of Some k \<Rightarrow> int k | None \<Rightarrow> - ENOENT, st2)"
      using mem Some w(4) int_of_long_id [OF ss_map_less(2) [OF inv]]
      by (simp add: strset__find_str_def Let_def st2_def split: option.split)
    then show ?thesis using w by simp
  qed
qed

lemma take_prefix_eq: "take m xs = p @ q \<Longrightarrow> length p \<le> m \<Longrightarrow> take (length p) xs = p"
  by (metis append_eq_conv_conj min.absorb1 take_take)

text \<open>The memory of the set after a string was looked up or added.\<close>

definition same_area :: "u8 list \<Rightarrow> strset \<Rightarrow> strset \<Rightarrow> bool" where
  "same_area s st st' \<longleftrightarrow> ss_data_max_len st' = ss_data_max_len st \<and>
     ma_cap (ss_data st') \<le> max (ma_cap (ss_data st)) (ss_data_max_len st) \<and>
     (ss_data st' = ss_data st \<and> ss_data_len st' = ss_data_len st \<or>
      take (ss_data_len st + length s + 1) (strset_bytes st') = take (ss_data_len st) (strset_bytes st) @ s @ [0])"

lemma scratch_area:
  assumes inv: "strset_inv st" and mem: "strset_add_str_mem realloc_ok (length s + 1) st = (Some p, st1)"
  shows "same_area s st (st1\<lparr>ss_data := area_write p (s @ [0]) (ss_data st1), ss_hash := h, ss_data_len := n\<rparr>)"
proof -
  let ?n = "ss_data_len st"
  obtain a where a: "libbpf_add_mem realloc_ok 1 ?n (ss_data_max_len st) (length s + 1) (ss_data st) = (Some p, a)"
    "st1 = st\<lparr>ss_data := a\<rparr>"
    using mem by (auto simp: strset_add_str_mem_def split: prod.splits)
  have ok: "area_ok 1 (ss_data st)" "?n \<le> ma_cap (ss_data st)" using inv by (auto simp: strset_inv_def)
  obtain z where z: "area_ok 1 a" "ma_data a = ma_data (ss_data st) @ replicate z 0"
    "p = ?n" "?n + (length s + 1) \<le> ma_cap a" "ma_cap a \<le> ss_data_max_len st \<or> a = ss_data st"
    using add_mem_cases [OF ok(1) a(1)] by auto
  have "length (ma_data (ss_data st)) = ma_cap (ss_data st)" "length (ma_data a) = ma_cap a"
    using ok(1) z(1) by (simp_all add: area_ok_def)
  then show ?thesis
    using z ok(2) by (auto simp: same_area_def a(2) area_write_def strset_bytes_def)
qed

lemma mem_none: "strset_add_str_mem realloc_ok n st = (None, st1) \<Longrightarrow> st1 = st"
  by (auto simp: strset_add_str_mem_def libbpf_add_mem_def Let_def split: if_splits)

lemma add_str_area:
  assumes "strset_inv st" and "strset__add_str realloc_ok alloc s st = Inr (ret, st')"
  shows "same_area s st st'"
proof (cases "strset_add_str_mem realloc_ok (length s + 1) st")
  case (Pair p st1)
  show ?thesis
  proof (cases p)
    case None
    then show ?thesis using assms Pair mem_none [of realloc_ok "length s + 1" st st1]
      by (auto simp: strset__add_str_def Let_def same_area_def)
  next
    case (Some off)
    have "\<exists>h n. st' = st1\<lparr>ss_data := area_write off (s @ [0]) (ss_data st1), ss_hash := h, ss_data_len := n\<rparr>"
      using assms(2) Pair Some by (auto simp: strset__add_str_def Let_def split: if_splits) (metis strset.surjective strset.update_convs)+
    then show ?thesis using scratch_area [OF assms(1), of realloc_ok s off st1] Pair Some by auto
  qed
qed

lemma find_str_area:
  assumes "strset_inv st" and "strset__find_str realloc_ok s st = Inr (ret, st')"
  shows "same_area s st st'" and "take (ss_data_len st) (strset_bytes st') = take (ss_data_len st) (strset_bytes st)"
proof -
  have "same_area s st st' \<and> take (ss_data_len st) (strset_bytes st') = take (ss_data_len st) (strset_bytes st)"
  proof (cases "strset_add_str_mem realloc_ok (length s + 1) st")
    case (Pair p st1)
    show ?thesis
    proof (cases p)
      case None
      then show ?thesis using assms Pair mem_none [of realloc_ok "length s + 1" st st1]
        by (auto simp: strset__find_str_def Let_def same_area_def)
    next
      case (Some off)
      have st': "st' = st1\<lparr>ss_data := area_write off (s @ [0]) (ss_data st1)\<rparr>"
        using assms(2) Pair Some by (auto simp: strset__find_str_def Let_def)
      then have a: "same_area s st st'"
        using scratch_area [OF assms(1), of realloc_ok s off st1, where h = "ss_hash st1" and n = "ss_data_len st1"] Pair Some by simp
      have "length (take (ss_data_len st) (strset_bytes st)) = ss_data_len st"
        using assms(1) by (simp add: strset_inv_def strset_bytes_def area_ok_def)
      then have "take (ss_data_len st) (strset_bytes st') = take (ss_data_len st) (strset_bytes st)"
        using a take_prefix_eq [of "ss_data_len st + length s + 1" "strset_bytes st'" "take (ss_data_len st) (strset_bytes st)" "s @ [0]"]
        by (auto simp: same_area_def strset_bytes_def)
      with a show ?thesis by simp
    qed
  qed
  then show "same_area s st st'" "take (ss_data_len st) (strset_bytes st') = take (ss_data_len st) (strset_bytes st)" by auto
qed

text \<open>Building the index of the initial data.\<close>

definition index_inv :: "u8 list \<Rightarrow> (nat, nat) hashmap \<Rightarrow> bool" where
  "index_inv data h \<longleftrightarrow> hm_inv (strset_hash_fn data) h \<and> keys_unique (strset_equal_fn data) (hashmap_entries h) \<and>
     (\<forall>e\<in>set (hashmap_entries h). snd e = fst e \<and> cstr_ok data (fst e))"

lemma index_step:
  assumes h: "index_inv data h" and off: "cstr_ok data off"
  shows "\<exists>ret old h'. hashmap__insert (strset_hash_fn data) (strset_equal_fn data) a b HASHMAP_ADD off off h = Inr (ret, old, h') \<and>
    index_inv data h' \<and> (ret = 0 \<or> ret = - EEXIST \<or> ret = - ENOMEM)"
proof -
  have h2: "hm_inv (strset_hash_fn data) h" "keys_unique (strset_equal_fn data) (hashmap_entries h)"
    using h by (auto simp: index_inv_def)
  obtain ret old h' where ins: "hashmap__insert (strset_hash_fn data) (strset_equal_fn data) a b HASHMAP_ADD off off h = Inr (ret, old, h')"
    "hm_inv (strset_hash_fn data) h'" "keys_unique (strset_equal_fn data) (hashmap_entries h')"
    "ret = 0 \<or> ret = - EEXIST \<or> ret = - ENOMEM"
    using strset_keys.insert_ok [OF h2, of HASHMAP_ADD a b off off] by auto
  have "\<forall>e\<in>set (hashmap_entries h'). snd e = fst e \<and> cstr_ok data (fst e)"
    using insert_entries [OF h2(1) ins(1)] h off by (auto simp: index_inv_def)
  then show ?thesis using ins by (auto simp: index_inv_def)
qed

lemma cstr_ok_last: "off < length data \<Longrightarrow> last data = 0 \<Longrightarrow> cstr_ok data off"
  by (auto simp: cstr_ok_def) (metis drop_eq_Nil2 last_drop last_in_set not_le)

lemma strset_index_ok:
  assumes "index_inv data h" and "data = [] \<or> last data = 0"
  shows "case strset_index alloc data off h of Inl e \<Rightarrow> e = Errno (- ENOMEM) | Inr h' \<Rightarrow> index_inv data h'"
  using assms
proof (induction alloc data off h rule: strset_index.induct)
  case (1 alloc data off h)
  show ?case
  proof (cases "off < length data")
    case True
    then have ok: "cstr_ok data off" using "1.prems"(2) cstr_ok_last by auto
    obtain ret old h' where ins: "hashmap__insert (strset_hash_fn data) (strset_equal_fn data) (fst (alloc off)) (snd (alloc off)) HASHMAP_ADD off off h = Inr (ret, old, h')"
      "index_inv data h'" "ret = 0 \<or> ret = - EEXIST \<or> ret = - ENOMEM"
      using index_step [OF "1.prems"(1) ok] by blast
    show ?thesis
    proof (cases "ret \<noteq> - EEXIST \<and> ret \<noteq> 0")
      case True
      then show ?thesis using ins ok \<open>off < length data\<close> by (subst strset_index.simps) auto
    next
      case False
      have "strset_index alloc data off h = strset_index alloc data (off + length (cstr data off) + 1) h'"
        using ins(1) ok \<open>off < length data\<close> False by (subst strset_index.simps) auto
      then show ?thesis using "1.IH" [OF True _ ins(1) refl refl] ok False ins(2) "1.prems"(2) by simp
    qed
  next
    case False
    then show ?thesis using "1.prems" by (subst strset_index.simps) simp
  qed
qed

lemma strset_new_ok:
  assumes "d = [] \<or> last d = 0" and sz: "length d \<le> 2 ^ 31" "max_sz \<le> 2 ^ 31"
  shows "case strset__new calloc_ok new_ok malloc_ok alloc max_sz (Some d) of
      Inl e \<Rightarrow> e = Errno (- ENOMEM)
    | Inr st \<Rightarrow> strset_inv st \<and> strset__data st = d \<and> strset__data_size st = length d \<and>
        ss_data_max_len st = max_sz \<and> ma_cap (ss_data st) = length d"
proof -
  have "index_inv d hashmap__init"
    by (simp add: index_inv_def hm_inv_def hashmap__init_def keys_unique_def hashmap_entries_def)
  then have ix: "case strset_index alloc d 0 hashmap__init of Inl e \<Rightarrow> e = Errno (- ENOMEM) | Inr h \<Rightarrow> index_inv d h"
    using strset_index_ok [OF _ assms(1)] by blast
  show ?thesis
    using ix sz by (cases "strset_index alloc d 0 hashmap__init")
      (simp_all add: strset__new_def hashmap__new_def index_inv_def strset_inv_def area_ok_def strset_bytes_def
        strset__data_def strset__data_size_def)
qed

section \<open>Tables of strings\<close>

text \<open>Adding a list of strings, as the users of a table do.\<close>

primrec add_strs :: "(u8 list \<Rightarrow> 't \<Rightarrow> fault + (int \<times> 't)) \<Rightarrow> u8 list list \<Rightarrow> 't \<Rightarrow> fault + (int list \<times> 't)" where
  "add_strs add [] t = Inr ([], t)"
| "add_strs add (s # ss) t = bindR (add s t) (\<lambda>(r, t). bindR (add_strs add ss t) (\<lambda>(rs, t). Inr (r # rs, t)))"

text \<open>
  What users of a string table rely on: adding a string yields an offset that denotes it, and the
  offsets handed out before keep denoting their strings.
\<close>

locale str_table =
  fixes inv :: "'t \<Rightarrow> bool" and has :: "'t \<Rightarrow> nat \<Rightarrow> bool" and str :: "'t \<Rightarrow> nat \<Rightarrow> u8 list"
    and add :: "u8 list \<Rightarrow> 't \<Rightarrow> fault + (int \<times> 't)"
  assumes add_ok: "inv t \<Longrightarrow> 0 \<notin> set s \<Longrightarrow> \<exists>ret t'. add s t = Inr (ret, t') \<and> inv t' \<and>
      (0 \<le> ret \<longrightarrow> has t' (nat ret) \<and> str t' (nat ret) = s)"
    and add_keeps: "inv t \<Longrightarrow> 0 \<notin> set s \<Longrightarrow> add s t = Inr (ret, t') \<Longrightarrow> has t k \<Longrightarrow> has t' k \<and> str t' k = str t k"
    and str_inj: "inv t \<Longrightarrow> has t k \<Longrightarrow> has t k' \<Longrightarrow> str t k = str t k' \<Longrightarrow> k = k'"
begin

lemma add_all_ok:
  assumes "inv t" "\<forall>s\<in>set ss. 0 \<notin> set s"
  shows "\<exists>rs t'. add_strs add ss t = Inr (rs, t') \<and> inv t' \<and> length rs = length ss \<and>
    (\<forall>k. has t k \<longrightarrow> has t' k \<and> str t' k = str t k) \<and>
    (\<forall>i<length ss. 0 \<le> rs ! i \<longrightarrow> has t' (nat (rs ! i)) \<and> str t' (nat (rs ! i)) = ss ! i)"
  using assms
proof (induction ss arbitrary: t)
  case Nil
  then show ?case by simp
next
  case (Cons s ss)
  have s: "0 \<notin> set s" using Cons.prems(2) by simp
  obtain r t1 where t1: "add s t = Inr (r, t1)" "inv t1" "0 \<le> r \<longrightarrow> has t1 (nat r) \<and> str t1 (nat r) = s"
    using add_ok [OF Cons.prems(1) s] by blast
  obtain rs t2 where t2: "add_strs add ss t1 = Inr (rs, t2)" "inv t2" "length rs = length ss"
    "\<forall>k. has t1 k \<longrightarrow> has t2 k \<and> str t2 k = str t1 k"
    "\<forall>i<length ss. 0 \<le> rs ! i \<longrightarrow> has t2 (nat (rs ! i)) \<and> str t2 (nat (rs ! i)) = ss ! i"
    using Cons.IH [OF t1(2)] Cons.prems(2) by auto
  have "has t2 k \<and> str t2 k = str t k" if "has t k" for k
    using add_keeps [OF Cons.prems(1) s t1(1) that] t2(4) by simp
  moreover have "0 \<le> (r # rs) ! i \<longrightarrow> has t2 (nat ((r # rs) ! i)) \<and> str t2 (nat ((r # rs) ! i)) = (s # ss) ! i"
    if "i < length (s # ss)" for i
    using that t1(3) t2(4,5) by (cases i) auto
  ultimately show ?case using t1(1) t2(1-3) by auto
qed

lemma add_all_inj:
  assumes "inv t" "\<forall>s\<in>set ss. 0 \<notin> set s" "add_strs add ss t = Inr (rs, t')" "i < length ss" "j < length ss"
    and "0 \<le> rs ! i" "0 \<le> rs ! j"
  shows "rs ! i = rs ! j \<longleftrightarrow> ss ! i = ss ! j"
proof -
  have t': "inv t'" "has t' (nat (rs ! i)) \<and> str t' (nat (rs ! i)) = ss ! i" "has t' (nat (rs ! j)) \<and> str t' (nat (rs ! j)) = ss ! j"
    using add_all_ok [OF assms(1,2)] assms(3-7) by auto
  have "rs ! i = rs ! j \<longleftrightarrow> nat (rs ! i) = nat (rs ! j)" using assms(6,7) by (simp add: eq_nat_nat_iff)
  then show ?thesis using t' str_inj [OF t'(1), of "nat (rs ! i)" "nat (rs ! j)"] by metis
qed

end

definition strset_has :: "strset \<Rightarrow> nat \<Rightarrow> bool" where
  "strset_has st k \<longleftrightarrow> (k, k) \<in> set (hashmap_entries (ss_hash st))"

definition strset_str :: "strset \<Rightarrow> nat \<Rightarrow> u8 list" where
  "strset_str st k = cstr (strset_bytes st) k"

lemma has_ss_map: "strset_inv st \<Longrightarrow> strset_has st k \<longleftrightarrow> ss_map st (strset_str st k) = Some k"
  by (simp add: ss_map_Some strset_has_def strset_str_def)

lemma add_str_map:
  assumes "strset_inv st" "0 \<notin> set s" "strset__add_str realloc_ok alloc s st = Inr (ret, st')"
  shows "strset_inv st'" "ss_map st \<subseteq>\<^sub>m ss_map st'" "0 \<le> ret \<Longrightarrow> ss_map st' s = Some (nat ret)"
  using add_str_ok [OF assms(1,2), of realloc_ok alloc] assms(3)
  by (auto simp: map_le_def ENOMEM_def split: option.splits)

interpretation strset_table: str_table strset_inv strset_has strset_str "strset__add_str realloc_ok alloc" for realloc_ok alloc
proof
  fix t and s :: "u8 list" assume t: "strset_inv t" "0 \<notin> set s"
  obtain ret t' where a: "strset__add_str realloc_ok alloc s t = Inr (ret, t')" using add_str_ok [OF t] by blast
  note m = add_str_map [OF t a]
  then show "\<exists>ret t'. strset__add_str realloc_ok alloc s t = Inr (ret, t') \<and> strset_inv t' \<and>
      (0 \<le> ret \<longrightarrow> strset_has t' (nat ret) \<and> strset_str t' (nat ret) = s)"
    using a ss_map_Some [OF m(1)] by (auto simp: strset_has_def strset_str_def)
next
  fix t and s :: "u8 list" and ret t' k
  assume t: "strset_inv t" "0 \<notin> set s" "strset__add_str realloc_ok alloc s t = Inr (ret, t')" "strset_has t k"
  note m = add_str_map [OF t(1-3)]
  have "ss_map t' (strset_str t k) = Some k"
    using m(2) t(4) has_ss_map [OF t(1), of k] by (auto simp: map_le_def dom_def)
  then show "strset_has t' k \<and> strset_str t' k = strset_str t k"
    using ss_map_Some [OF m(1)] by (auto simp: strset_has_def strset_str_def)
next
  fix t k k' assume "strset_inv t" "strset_has t k" "strset_has t k'" "strset_str t k = strset_str t k'"
  then show "k = k'" by (simp add: has_ss_map)
qed

text \<open>The empty set of strings.\<close>

definition empty_strset :: strset where
  "empty_strset = \<lparr>ss_data = \<lparr>ma_data = [], ma_cap = 0\<rparr>, ss_data_len = 0, ss_data_max_len = 1024, ss_hash = hashmap__init\<rparr>"

lemma empty_strset_inv: "strset_inv empty_strset"
  by (simp add: empty_strset_def strset_inv_def area_ok_def hm_inv_def hashmap__init_def keys_unique_def hashmap_entries_def)

section \<open>Properties\<close>

text \<open>
  C14. Interning. On a well-formed set of at most \<open>2 ^ 31\<close> bytes, for a string without a zero byte and every allocator answer,
  \<open>strset__add_str\<close> keeps the set well-formed and the used bytes unchanged. Either it fails with
  \<open>-ENOMEM\<close> and the same strings, which it does not do when the allocations succeed, the string fits and
  the table can grow; or it returns the offset of the equal string that is already there and changes no
  string; or it appends the string and returns its offset, the length so far, which is 0 for the first
  string of an empty set. No offset is changed by its conversion to \<open>int\<close>.
\<close>

theorem strset_add_str_interns:
  assumes "strset_inv st" and "0 \<notin> set s"
  shows "\<exists>ret st'. strset__add_str realloc_ok alloc s st = Inr (ret, st') \<and> strset_inv st' \<and>
    take (ss_data_len st) (strset_bytes st') = take (ss_data_len st) (strset_bytes st) \<and>
    (ret = - ENOMEM \<and> ss_map st' = ss_map st \<and> ss_data_len st' = ss_data_len st \<and> \<not> str_room realloc_ok alloc s st \<or>
     (case ss_map st s of
        Some k \<Rightarrow> ret = int k \<and> ss_map st' = ss_map st \<and> ss_data_len st' = ss_data_len st
      | None \<Rightarrow> ret = int (ss_data_len st) \<and> ss_map st' = (ss_map st)(s \<mapsto> ss_data_len st) \<and>
          ss_data_len st' = ss_data_len st + length s + 1))"
  by (rule add_str_ok [OF assms])

theorem strset_add_str_interns_witness:
  "\<exists>ret st'. strset__add_str True (True, True) [97, 98] empty_strset = Inr (ret, st') \<and> strset_inv st' \<and>
    ret = 0 \<and> ss_map st' [97, 98] = Some 0"
proof -
  have "ss_map empty_strset [97, 98] = None" "ss_data_len empty_strset = 0"
    by (simp_all add: empty_strset_def ss_map_def hashmap_entries_def hashmap__init_def)
  moreover have "str_room True (True, True) [97, 98] empty_strset"
    by (simp add: str_room_def empty_strset_def hashmap__init_def)
  ultimately show ?thesis
    using strset_add_str_interns [OF empty_strset_inv, of "[97, 98]" True "(True, True)"] by fastforce
qed

text \<open>
  Offsets are stable names. After adding any list of strings to a well-formed set, every offset
  returned denotes its string, and two of the offsets are equal exactly when the strings are.
\<close>

theorem strset_offsets_name_strings:
  assumes "strset_inv st" and "\<forall>s\<in>set ss. 0 \<notin> set s"
  shows "\<exists>rs st'. add_strs (strset__add_str realloc_ok alloc) ss st = Inr (rs, st') \<and> strset_inv st' \<and> length rs = length ss \<and>
    (\<forall>i<length ss. 0 \<le> rs ! i \<longrightarrow> cstr (strset_bytes st') (nat (rs ! i)) = ss ! i \<and>
       (\<forall>j<length ss. 0 \<le> rs ! j \<longrightarrow> (rs ! i = rs ! j \<longleftrightarrow> ss ! i = ss ! j)))"
proof -
  obtain rs st' where r: "add_strs (strset__add_str realloc_ok alloc) ss st = Inr (rs, st')" "strset_inv st'" "length rs = length ss"
    "\<forall>i<length ss. 0 \<le> rs ! i \<longrightarrow> strset_has st' (nat (rs ! i)) \<and> strset_str st' (nat (rs ! i)) = ss ! i"
    using strset_table.add_all_ok [OF assms] by blast
  then show ?thesis using strset_table.add_all_inj [OF assms r(1)] by (auto simp: strset_str_def)
qed

theorem strset_offsets_name_strings_witness:
  "\<exists>rs st'. add_strs (strset__add_str True (True, True)) [[97], [98], [97]] empty_strset = Inr (rs, st') \<and> length rs = 3 \<and>
    (0 \<le> rs ! 0 \<and> 0 \<le> rs ! 2 \<longrightarrow> rs ! 0 = rs ! 2)"
proof -
  have i: "0 < length [[97], [98], [97 :: u8]]" "2 < length [[97], [98], [97 :: u8]]" by simp_all
  have "\<forall>s\<in>set [[97], [98], [97 :: u8]]. 0 \<notin> set s" by simp
  then obtain rs st' where r: "add_strs (strset__add_str True (True, True)) [[97], [98], [97]] empty_strset = Inr (rs, st')"
    "length rs = length [[97], [98], [97 :: u8]]" and eq: "\<forall>i<length [[97], [98], [97 :: u8]]. 0 \<le> rs ! i \<longrightarrow>
       (\<forall>j<length [[97], [98], [97 :: u8]]. 0 \<le> rs ! j \<longrightarrow> (rs ! i = rs ! j \<longleftrightarrow> [[97], [98], [97 :: u8]] ! i = [[97], [98], [97]] ! j))"
    using strset_offsets_name_strings [OF empty_strset_inv, of "[[97], [98], [97]]" True "(True, True)"] by blast
  have "0 \<le> rs ! 0 \<and> 0 \<le> rs ! 2 \<longrightarrow> rs ! 0 = rs ! 2" using eq i by fastforce
  with r show ?thesis by auto
qed

text \<open>
  Initial data. For initial data that is empty or ends with a terminator and sizes of at most \<open>2 ^ 31\<close>,
  \<open>strset__new\<close> either runs out of memory or returns a well-formed set over that data; it reads nothing
  past the end.
\<close>

theorem strset_new_well_formed:
  assumes "d = [] \<or> last d = 0" and "length d \<le> 2 ^ 31" and "max_sz \<le> 2 ^ 31"
  shows "case strset__new calloc_ok new_ok malloc_ok alloc max_sz (Some d) of
      Inl e \<Rightarrow> e = Errno (- ENOMEM)
    | Inr st \<Rightarrow> strset_inv st \<and> strset__data st = d \<and> strset__data_size st = length d"
  using strset_new_ok [OF assms, where calloc_ok = calloc_ok and new_ok = new_ok and malloc_ok = malloc_ok and alloc = alloc]
  by (auto split: sum.splits)

theorem strset_new_well_formed_witness:
  "case strset__new True True True (\<lambda>_. (True, True)) 1024 (Some [0, 97, 0]) of
      Inl e \<Rightarrow> e = Errno (- ENOMEM)
    | Inr st \<Rightarrow> strset_inv st \<and> strset__data st = [0, 97, 0] \<and> strset__data_size st = 3"
  using strset_new_well_formed [of "[0, 97, 0]" 1024 True True True "\<lambda>_. (True, True)"] by (simp split: sum.splits)

end
