(* ===== verification/Btf_Build.thy ===== *)
theory Btf_Build
  imports Btf_Parse Strset
begin

text \<open>
  Building BTF (\<open>libbpf/src/btf.c\<close>): an instance is split into header, types and strings before it is
  changed, strings are interned, types are appended behind the used part of the types memory and
  entered in the index, members are appended to the last type. The instances a change can reach (the
  instance and its chain of base instances, whose string index is built on demand) are a list.
\<close>

section \<open>State\<close>

text \<open>
  The strings are raw data until the instance is made modifiable (\<open>hdr == raw_data\<close>) and a set of
  strings afterwards. The length of \<open>bb_offs\<close> is \<open>nr_types\<close>.
\<close>

datatype strs_sec = Raw "u8 list" | Interned strset

record bbtf =
  bb_hdr :: btf_header
  bb_types :: mem_area
  bb_offs :: "nat list"
  bb_offs_cap :: nat
  bb_start_id :: nat
  bb_start_str_off :: nat
  bb_strs :: strs_sec
  bb_strs_deduped :: bool
  bb_raw_data :: bool
  bb_raw_data_swapped :: bool
  bb_swapped_endian :: bool
  bb_ptr_sz :: int

text \<open>The answers of the allocator during one call, for each instance of the chain.\<close>

record build_allocs =
  ba_hdr :: bool
  ba_types :: bool
  ba_set :: bool
  ba_hash :: bool
  ba_set_data :: bool
  ba_index :: "nat \<Rightarrow> bool \<times> bool"
  ba_type_mem :: bool
  ba_str_mem :: bool
  ba_str_hash :: "bool \<times> bool"
  ba_idx :: bool

type_synonym bchain = "bbtf list"

definition BTF_MAX_NR_TYPES :: nat where "BTF_MAX_NR_TYPES = 0x7FFFFFFF"

section \<open>Making an instance modifiable\<close>

definition btf_is_modifiable :: "bbtf \<Rightarrow> bool" where
  "btf_is_modifiable b = (case bb_strs b of Raw _ \<Rightarrow> False | Interned _ \<Rightarrow> True)"

definition btf_invalidate_raw_data :: "bbtf \<Rightarrow> bbtf" where
  "btf_invalidate_raw_data b = b\<lparr>bb_raw_data := False, bb_raw_data_swapped := False\<rparr>"

definition btf_ensure_modifiable :: "build_allocs \<Rightarrow> bool \<Rightarrow> bbtf \<Rightarrow> fault + (int \<times> bbtf)" where
  "btf_ensure_modifiable al has_base b =
     (case bb_strs b of
        Interned _ \<Rightarrow> Inr (0, btf_invalidate_raw_data b)
      | Raw strs \<Rightarrow>
          if \<not> ba_hdr al \<or> \<not> ba_types al then Inr (- ENOMEM, b)
          else (case strset__new (ba_set al) (ba_hash al) (ba_set_data al) (ba_index al) BTF_MAX_STR_OFFSET (Some strs) of
              Inl (Fault f) \<Rightarrow> Inl f
            | Inl (Errno e) \<Rightarrow> Inr (e, b)
            | Inr st \<Rightarrow>
               (let type_len = unat (hd_type_len (bb_hdr b)); str_len = hd_str_len (bb_hdr b) in
                Inr (0, btf_invalidate_raw_data (b\<lparr>
                  bb_types := \<lparr>ma_data = take type_len (ma_data (bb_types b)), ma_cap = type_len\<rparr>,
                  bb_strs := Interned st,
                  bb_strs_deduped := (bb_strs_deduped b \<or> str_len = 0 \<or> \<not> has_base \<and> str_len = 1)\<rparr>)))))"

section \<open>Strings\<close>

text \<open>\<open>start_str_off + off\<close> is a sum of two \<open>int\<close>.\<close>

definition global_str_off :: "bbtf \<Rightarrow> int \<Rightarrow> fault + int" where
  "global_str_off b off =
     (if int (bb_start_str_off b) + off > INT_MAX then Inl Signed_Overflow else Inr (int (bb_start_str_off b) + off))"

definition interned :: "bbtf \<Rightarrow> fault + strset" where
  "interned b = (case bb_strs b of Raw _ \<Rightarrow> Inl Out_Of_Bounds | Interned st \<Rightarrow> Inr st)"

fun btf__find_str :: "(nat \<Rightarrow> build_allocs) \<Rightarrow> u8 list \<Rightarrow> bchain \<Rightarrow> fault + (int \<times> bchain)" where
  "btf__find_str al s [] = Inl Out_Of_Bounds"
| "btf__find_str al s (b # base) =
     bindR (if base = [] then Inr (- ENOENT, []) else btf__find_str al s base) (\<lambda>(off, base).
       if off \<noteq> - ENOENT then Inr (off, b # base)
       else bindR (btf_ensure_modifiable (al (length base)) (base \<noteq> []) b) (\<lambda>(err, b).
         if err \<noteq> 0 then Inr (- ENOMEM, b # base)
         else bindR (interned b) (\<lambda>st.
           bindR (strset__find_str (ba_str_mem (al (length base))) s st) (\<lambda>(off, st).
             let b = b\<lparr>bb_strs := Interned st\<rparr> in
             if off < 0 then Inr (off, b # base)
             else bindR (global_str_off b off) (\<lambda>r. Inr (r, b # base))))))"

definition btf__add_str :: "(nat \<Rightarrow> build_allocs) \<Rightarrow> u8 list \<Rightarrow> bchain \<Rightarrow> fault + (int \<times> bchain)" where
  "btf__add_str al s c = (case c of [] \<Rightarrow> Inl Out_Of_Bounds | b # base \<Rightarrow>
     bindR (if base = [] then Inr (- ENOENT, []) else btf__find_str al s base) (\<lambda>(off, base).
       if off \<noteq> - ENOENT then Inr (off, b # base)
       else bindR (btf_ensure_modifiable (al (length base)) (base \<noteq> []) b) (\<lambda>(err, b).
         if err \<noteq> 0 then Inr (- ENOMEM, b # base)
         else bindR (interned b) (\<lambda>st.
           bindR (strset__add_str (ba_str_mem (al (length base))) (ba_str_hash (al (length base))) s st) (\<lambda>(off, st).
             let b = b\<lparr>bb_strs := Interned st\<rparr> in
             if off < 0 then Inr (off, b # base)
             else
               (let b = b\<lparr>bb_hdr := (bb_hdr b)\<lparr>hd_str_len := of_nat (strset__data_size st)\<rparr>\<rparr> in
                bindR (global_str_off b off) (\<lambda>r. Inr (r, b # base))))))))"

section \<open>Memory for types and the index\<close>

definition btf_add_type_mem :: "bool \<Rightarrow> nat \<Rightarrow> bbtf \<Rightarrow> nat option \<times> bbtf" where
  "btf_add_type_mem realloc_ok add_sz b =
     (case libbpf_add_mem realloc_ok 1 (unat (hd_type_len (bb_hdr b))) UINT32_MAX add_sz (bb_types b) of
        (p, a) \<Rightarrow> (p, b\<lparr>bb_types := a\<rparr>))"

definition btf_add_type_offs_mem :: "bool \<Rightarrow> nat \<Rightarrow> bbtf \<Rightarrow> bool \<times> bbtf" where
  "btf_add_type_offs_mem realloc_ok add_cnt b =
     (let n = length (bb_offs b); cap = bb_offs_cap b in
      if n + add_cnt \<le> cap then (True, b)
      else if n + add_cnt > BTF_MAX_NR_TYPES \<or> \<not> realloc_ok then (False, b)
      else (True, b\<lparr>bb_offs_cap := add_mem_new_cnt cap n BTF_MAX_NR_TYPES add_cnt\<rparr>))"

text \<open>The new entry is counted at once: \<open>nr_types++\<close> of the caller is part of it.\<close>

definition btf_add_type_idx_entry :: "bool \<Rightarrow> nat \<Rightarrow> bbtf \<Rightarrow> int \<times> bbtf" where
  "btf_add_type_idx_entry realloc_ok type_off b =
     (case btf_add_type_offs_mem realloc_ok 1 b of
        (False, b) \<Rightarrow> (- ENOMEM, b)
      | (True, b) \<Rightarrow> (0, b\<lparr>bb_offs := bb_offs b @ [type_off]\<rparr>))"

definition grow_types :: "nat \<Rightarrow> bbtf \<Rightarrow> bbtf" where
  "grow_types sz b = b\<lparr>bb_hdr := (bb_hdr b)\<lparr>hd_type_len := hd_type_len (bb_hdr b) + of_nat sz,
     hd_str_off := hd_str_off (bb_hdr b) + of_nat sz\<rparr>\<rparr>"

text \<open>The id is computed in 32 unsigned bits and returned as \<open>int\<close>.\<close>

definition btf_commit_type :: "bool \<Rightarrow> nat \<Rightarrow> bbtf \<Rightarrow> int \<times> bbtf" where
  "btf_commit_type realloc_ok data_sz b =
     (case btf_add_type_idx_entry realloc_ok (unat (hd_type_len (bb_hdr b))) b of (err, b) \<Rightarrow>
        if err \<noteq> 0 then (err, b)
        else (let b = grow_types data_sz b in (sint (of_nat (bb_start_id b + length (bb_offs b) - 1) :: u32), b)))"

definition words_bytes :: "u32 list \<Rightarrow> u8 list" where
  "words_bytes ws = concat (map (to_le 4) ws)"

definition put_words :: "nat \<Rightarrow> u32 list \<Rightarrow> bbtf \<Rightarrow> bbtf" where
  "put_words p ws b = b\<lparr>bb_types := area_write p (words_bytes ws) (bb_types b)\<rparr>"

section \<open>Appending a type\<close>

text \<open>A name that may be null or empty; only a non-empty one is interned.\<close>

definition has_name :: "u8 list option \<Rightarrow> bool" where
  "has_name name \<longleftrightarrow> name \<noteq> None \<and> name \<noteq> Some []"

definition intern_name :: "(nat \<Rightarrow> build_allocs) \<Rightarrow> u8 list option \<Rightarrow> bchain \<Rightarrow> fault + (int \<times> bchain)" where
  "intern_name al name c = (case name of None \<Rightarrow> Inr (0, c) | Some s \<Rightarrow> if s = [] then Inr (0, c) else btf__add_str al s c)"

text \<open>
  The common course of all functions that append a type or a member of \<open>sz\<close> bytes: make the instance
  modifiable, reserve the memory behind the types, intern the name. The result is the offset of the
  name or an error, and the place reserved.
\<close>

definition reserve :: "(nat \<Rightarrow> build_allocs) \<Rightarrow> nat \<Rightarrow> u8 list option \<Rightarrow> bchain \<Rightarrow> fault + (int \<times> nat \<times> bchain)" where
  "reserve al sz name c = (case c of [] \<Rightarrow> Inl Out_Of_Bounds | b # base \<Rightarrow>
     bindR (btf_ensure_modifiable (al (length base)) (base \<noteq> []) b) (\<lambda>(err, b).
       if err \<noteq> 0 then Inr (- ENOMEM, 0, b # base)
       else (case btf_add_type_mem (ba_type_mem (al (length base))) sz b of
           (None, b) \<Rightarrow> Inr (- ENOMEM, 0, b # base)
         | (Some p, b) \<Rightarrow> bindR (intern_name al name (b # base)) (\<lambda>(name_off, c). Inr (name_off, p, c)))))"

text \<open>
  A new type: the words \<open>mk\<close> gives for the offset of the name are filled in and the type is entered in
  the index.
\<close>

definition new_type :: "(nat \<Rightarrow> build_allocs) \<Rightarrow> nat \<Rightarrow> u8 list option \<Rightarrow> (u32 \<Rightarrow> u32 list) \<Rightarrow> bchain \<Rightarrow> fault + (int \<times> bchain)" where
  "new_type al sz name mk c = bindR (reserve al sz name c) (\<lambda>(name_off, p, c).
     if name_off < 0 then Inr (name_off, c)
     else (case btf_commit_type (ba_idx (al (length (tl c)))) sz (put_words p (mk (of_int name_off)) (hd c)) of
         (ret, b) \<Rightarrow> Inr (ret, b # tl c)))"

definition validate_type_id :: "int \<Rightarrow> int" where
  "validate_type_id tid = (if tid < 0 \<or> tid > int BTF_MAX_NR_TYPES then - EINVAL else 0)"

definition btf__add_int :: "(nat \<Rightarrow> build_allocs) \<Rightarrow> u8 list option \<Rightarrow> u64 \<Rightarrow> int \<Rightarrow> bchain \<Rightarrow> fault + (int \<times> bchain)" where
  "btf__add_int al name byte_sz encoding c =
     (if \<not> has_name name then Inr (- EINVAL, c)
      else if byte_sz = 0 \<or> byte_sz AND (byte_sz - 1) \<noteq> 0 \<or> byte_sz > 16 then Inr (- EINVAL, c)
      else if encoding AND NOT 7 \<noteq> 0 then Inr (- EINVAL, c)
      else new_type al 16 name (\<lambda>name_off. [name_off, btf_type_info BTF_KIND_INT 0 False, ucast byte_sz,
             push_bit 24 (of_int encoding) OR ucast (byte_sz * 8)]) c)"

definition btf__add_float :: "(nat \<Rightarrow> build_allocs) \<Rightarrow> u8 list option \<Rightarrow> u64 \<Rightarrow> bchain \<Rightarrow> fault + (int \<times> bchain)" where
  "btf__add_float al name byte_sz c =
     (if \<not> has_name name then Inr (- EINVAL, c)
      else if byte_sz \<noteq> 2 \<and> byte_sz \<noteq> 4 \<and> byte_sz \<noteq> 8 \<and> byte_sz \<noteq> 12 \<and> byte_sz \<noteq> 16 then Inr (- EINVAL, c)
      else new_type al 12 name (\<lambda>name_off. [name_off, btf_type_info BTF_KIND_FLOAT 0 False, ucast byte_sz]) c)"

definition btf_add_ref_kind :: "(nat \<Rightarrow> build_allocs) \<Rightarrow> nat \<Rightarrow> u8 list option \<Rightarrow> int \<Rightarrow> bchain \<Rightarrow> fault + (int \<times> bchain)" where
  "btf_add_ref_kind al kind name ref_type_id c =
     (if validate_type_id ref_type_id \<noteq> 0 then Inr (- EINVAL, c)
      else new_type al 12 name (\<lambda>name_off. [name_off, btf_type_info kind 0 False, of_int ref_type_id]) c)"

definition btf__add_ptr :: "(nat \<Rightarrow> build_allocs) \<Rightarrow> int \<Rightarrow> bchain \<Rightarrow> fault + (int \<times> bchain)" where
  "btf__add_ptr al ref_type_id c = btf_add_ref_kind al BTF_KIND_PTR None ref_type_id c"

definition btf__add_array :: "(nat \<Rightarrow> build_allocs) \<Rightarrow> int \<Rightarrow> int \<Rightarrow> u32 \<Rightarrow> bchain \<Rightarrow> fault + (int \<times> bchain)" where
  "btf__add_array al index_type_id elem_type_id nr_elems c =
     (if validate_type_id index_type_id \<noteq> 0 \<or> validate_type_id elem_type_id \<noteq> 0 then Inr (- EINVAL, c)
      else new_type al 24 None (\<lambda>_. [0, btf_type_info BTF_KIND_ARRAY 0 False, 0,
             of_int elem_type_id, of_int index_type_id, nr_elems]) c)"

definition btf_add_composite :: "(nat \<Rightarrow> build_allocs) \<Rightarrow> nat \<Rightarrow> u8 list option \<Rightarrow> u32 \<Rightarrow> bchain \<Rightarrow> fault + (int \<times> bchain)" where
  "btf_add_composite al kind name bytes_sz c =
     new_type al 12 name (\<lambda>name_off. [name_off, btf_type_info kind 0 False, bytes_sz]) c"

definition btf__add_struct :: "(nat \<Rightarrow> build_allocs) \<Rightarrow> u8 list option \<Rightarrow> u32 \<Rightarrow> bchain \<Rightarrow> fault + (int \<times> bchain)" where
  "btf__add_struct al name byte_sz c = btf_add_composite al BTF_KIND_STRUCT name byte_sz c"

definition btf__add_union :: "(nat \<Rightarrow> build_allocs) \<Rightarrow> u8 list option \<Rightarrow> u32 \<Rightarrow> bchain \<Rightarrow> fault + (int \<times> bchain)" where
  "btf__add_union al name byte_sz c = btf_add_composite al BTF_KIND_UNION name byte_sz c"

definition btf_add_enum_common ::
  "(nat \<Rightarrow> build_allocs) \<Rightarrow> u8 list option \<Rightarrow> u32 \<Rightarrow> bool \<Rightarrow> nat \<Rightarrow> bchain \<Rightarrow> fault + (int \<times> bchain)" where
  "btf_add_enum_common al name byte_sz is_signed kind c =
     (if byte_sz = 0 \<or> byte_sz AND (byte_sz - 1) \<noteq> 0 \<or> byte_sz > 8 then Inr (- EINVAL, c)
      else new_type al 12 name (\<lambda>name_off. [name_off, btf_type_info kind 0 is_signed, byte_sz]) c)"

definition btf__add_enum :: "(nat \<Rightarrow> build_allocs) \<Rightarrow> u8 list option \<Rightarrow> u32 \<Rightarrow> bchain \<Rightarrow> fault + (int \<times> bchain)" where
  "btf__add_enum al name byte_sz c = btf_add_enum_common al name byte_sz False BTF_KIND_ENUM c"

definition btf__add_enum64 :: "(nat \<Rightarrow> build_allocs) \<Rightarrow> u8 list option \<Rightarrow> u32 \<Rightarrow> bool \<Rightarrow> bchain \<Rightarrow> fault + (int \<times> bchain)" where
  "btf__add_enum64 al name byte_sz is_signed c = btf_add_enum_common al name byte_sz is_signed BTF_KIND_ENUM64 c"

definition btf__add_typedef :: "(nat \<Rightarrow> build_allocs) \<Rightarrow> u8 list option \<Rightarrow> int \<Rightarrow> bchain \<Rightarrow> fault + (int \<times> bchain)" where
  "btf__add_typedef al name ref_type_id c =
     (if \<not> has_name name then Inr (- EINVAL, c) else btf_add_ref_kind al BTF_KIND_TYPEDEF name ref_type_id c)"

definition btf__add_volatile :: "(nat \<Rightarrow> build_allocs) \<Rightarrow> int \<Rightarrow> bchain \<Rightarrow> fault + (int \<times> bchain)" where
  "btf__add_volatile al ref_type_id c = btf_add_ref_kind al BTF_KIND_VOLATILE None ref_type_id c"

definition btf__add_const :: "(nat \<Rightarrow> build_allocs) \<Rightarrow> int \<Rightarrow> bchain \<Rightarrow> fault + (int \<times> bchain)" where
  "btf__add_const al ref_type_id c = btf_add_ref_kind al BTF_KIND_CONST None ref_type_id c"

definition btf__add_restrict :: "(nat \<Rightarrow> build_allocs) \<Rightarrow> int \<Rightarrow> bchain \<Rightarrow> fault + (int \<times> bchain)" where
  "btf__add_restrict al ref_type_id c = btf_add_ref_kind al BTF_KIND_RESTRICT None ref_type_id c"

definition btf__add_type_tag :: "(nat \<Rightarrow> build_allocs) \<Rightarrow> u8 list option \<Rightarrow> int \<Rightarrow> bchain \<Rightarrow> fault + (int \<times> bchain)" where
  "btf__add_type_tag al tag_value ref_type_id c =
     (if \<not> has_name tag_value then Inr (- EINVAL, c) else btf_add_ref_kind al BTF_KIND_TYPE_TAG tag_value ref_type_id c)"

definition btf__add_func_proto :: "(nat \<Rightarrow> build_allocs) \<Rightarrow> int \<Rightarrow> bchain \<Rightarrow> fault + (int \<times> bchain)" where
  "btf__add_func_proto al ret_type_id c =
     (if validate_type_id ret_type_id \<noteq> 0 then Inr (- EINVAL, c)
      else new_type al 12 None (\<lambda>_. [0, btf_type_info BTF_KIND_FUNC_PROTO 0 False, of_int ret_type_id]) c)"

definition btf__add_var :: "(nat \<Rightarrow> build_allocs) \<Rightarrow> u8 list option \<Rightarrow> int \<Rightarrow> int \<Rightarrow> bchain \<Rightarrow> fault + (int \<times> bchain)" where
  "btf__add_var al name linkage type_id c =
     (if \<not> has_name name then Inr (- EINVAL, c)
      else if linkage \<noteq> 0 \<and> linkage \<noteq> 1 \<and> linkage \<noteq> 2 then Inr (- EINVAL, c)
      else if validate_type_id type_id \<noteq> 0 then Inr (- EINVAL, c)
      else new_type al 16 name (\<lambda>name_off. [name_off, btf_type_info BTF_KIND_VAR 0 False, of_int type_id, of_int linkage]) c)"

definition btf__add_datasec :: "(nat \<Rightarrow> build_allocs) \<Rightarrow> u8 list option \<Rightarrow> u32 \<Rightarrow> bchain \<Rightarrow> fault + (int \<times> bchain)" where
  "btf__add_datasec al name byte_sz c =
     (if \<not> has_name name then Inr (- EINVAL, c)
      else new_type al 12 name (\<lambda>name_off. [name_off, btf_type_info BTF_KIND_DATASEC 0 False, byte_sz]) c)"

definition btf__add_decl_tag :: "(nat \<Rightarrow> build_allocs) \<Rightarrow> u8 list option \<Rightarrow> int \<Rightarrow> int \<Rightarrow> bchain \<Rightarrow> fault + (int \<times> bchain)" where
  "btf__add_decl_tag al tag_value ref_type_id component_idx c =
     (if \<not> has_name tag_value \<or> component_idx < - 1 then Inr (- EINVAL, c)
      else if validate_type_id ref_type_id \<noteq> 0 then Inr (- EINVAL, c)
      else new_type al 16 tag_value (\<lambda>value_off. [value_off, btf_type_info BTF_KIND_DECL_TAG 0 False,
             of_int ref_type_id, of_int component_idx]) c)"

text \<open>Two functions correct the \<open>info\<close> of the type they have just appended.\<close>

definition set_info_at :: "nat \<Rightarrow> u32 \<Rightarrow> bbtf \<Rightarrow> bbtf" where
  "set_info_at off info b = b\<lparr>bb_types := area_write (off + 4) (to_le 4 info) (bb_types b)\<rparr>"

definition set_info_by_id :: "int \<Rightarrow> u32 \<Rightarrow> bchain \<Rightarrow> fault + bchain" where
  "set_info_by_id tid info c = (case c of [] \<Rightarrow> Inl Out_Of_Bounds | b # base \<Rightarrow>
     let i = nat tid - bb_start_id b in
     if tid < int (bb_start_id b) \<or> i \<ge> length (bb_offs b) then Inl Out_Of_Bounds
     else Inr (set_info_at (bb_offs b ! i) info b # base))"

datatype btf_fwd_kind = BTF_FWD_STRUCT | BTF_FWD_UNION | BTF_FWD_ENUM

definition btf__add_fwd :: "(nat \<Rightarrow> build_allocs) \<Rightarrow> u8 list option \<Rightarrow> btf_fwd_kind \<Rightarrow> bchain \<Rightarrow> fault + (int \<times> bchain)" where
  "btf__add_fwd al name fwd_kind c =
     (if \<not> has_name name then Inr (- EINVAL, c)
      else (case fwd_kind of
          BTF_FWD_ENUM \<Rightarrow> btf__add_enum al name 4 c
        | _ \<Rightarrow> bindR (btf_add_ref_kind al BTF_KIND_FWD name 0 c) (\<lambda>(tid, c).
            if tid \<le> 0 then Inr (tid, c)
            else bindR (set_info_by_id tid (btf_type_info BTF_KIND_FWD 0 (fwd_kind = BTF_FWD_UNION)) c) (\<lambda>c. Inr (tid, c)))))"

definition btf__add_func :: "(nat \<Rightarrow> build_allocs) \<Rightarrow> u8 list option \<Rightarrow> nat \<Rightarrow> int \<Rightarrow> bchain \<Rightarrow> fault + (int \<times> bchain)" where
  "btf__add_func al name linkage proto_type_id c =
     (if \<not> has_name name then Inr (- EINVAL, c)
      else if linkage \<noteq> 0 \<and> linkage \<noteq> 1 \<and> linkage \<noteq> 2 then Inr (- EINVAL, c)
      else bindR (btf_add_ref_kind al BTF_KIND_FUNC name proto_type_id c) (\<lambda>(tid, c).
        if tid > 0 then bindR (set_info_by_id tid (btf_type_info BTF_KIND_FUNC linkage False) c) (\<lambda>c. Inr (tid, c))
        else Inr (tid, c)))"

section \<open>Appending to the last type\<close>

definition btf_last_type :: "bbtf \<Rightarrow> btf_type" where
  "btf_last_type b = base_at (ma_data (bb_types b)) (last (bb_offs b))"

definition btf_type_inc_vlen :: "btf_type \<Rightarrow> btf_type" where
  "btf_type_inc_vlen t = t\<lparr>bt_info := btf_type_info (btf_kind t) (btf_vlen t + 1) (btf_kflag t)\<rparr>"

text \<open>The common course of the functions that append a member, an enumerator, a parameter or a variable:
  the new words go behind the types, \<open>upd\<close> gives the new fixed part of the last type.\<close>

definition add_to_last ::
  "(nat \<Rightarrow> build_allocs) \<Rightarrow> nat \<Rightarrow> u8 list option \<Rightarrow> (u32 \<Rightarrow> u32 list) \<Rightarrow> (btf_type \<Rightarrow> btf_type) \<Rightarrow> bchain \<Rightarrow> fault + (int \<times> bchain)" where
  "add_to_last al sz name mk upd c = bindR (reserve al sz name c) (\<lambda>(name_off, p, c).
     if name_off < 0 then Inr (name_off, c)
     else
      (let b = put_words p (mk (of_int name_off)) (hd c);
           b = set_info_at (last (bb_offs b)) (bt_info (upd (btf_last_type b))) b
       in Inr (0, grow_types sz b # tl c)))"

text \<open>Members with a bit size, or off the byte grid, are bit fields.\<close>

definition bitfield :: "u32 \<Rightarrow> u32 \<Rightarrow> bool" where
  "bitfield bit_offset bit_size \<longleftrightarrow> bit_size \<noteq> 0 \<or> bit_offset mod 8 \<noteq> 0"

definition btf__add_field ::
  "(nat \<Rightarrow> build_allocs) \<Rightarrow> u8 list option \<Rightarrow> int \<Rightarrow> u32 \<Rightarrow> u32 \<Rightarrow> bchain \<Rightarrow> fault + (int \<times> bchain)" where
  "btf__add_field al name type_id bit_offset bit_size c = (case c of [] \<Rightarrow> Inl Out_Of_Bounds | b # base \<Rightarrow>
     if bb_offs b = [] then Inr (- EINVAL, c)
     else
      (let t = btf_last_type b; is_bitfield = bitfield bit_offset bit_size in
       if \<not> btf_is_composite t then Inr (- EINVAL, c)
       else if validate_type_id type_id \<noteq> 0 then Inr (- EINVAL, c)
       else if is_bitfield \<and> (bit_size = 0 \<or> bit_size > 255 \<or> bit_offset > 0xFFFFFF) then Inr (- EINVAL, c)
       else if btf_is_union t \<and> bit_offset \<noteq> 0 then Inr (- EINVAL, c)
       else add_to_last al 12 name (\<lambda>name_off. [name_off, of_int type_id, bit_offset OR push_bit 24 bit_size])
              (\<lambda>t. t\<lparr>bt_info := btf_type_info (btf_kind t) (btf_vlen t + 1) (is_bitfield \<or> btf_kflag t)\<rparr>) c))"

definition btf__add_enum_value :: "(nat \<Rightarrow> build_allocs) \<Rightarrow> u8 list option \<Rightarrow> int \<Rightarrow> bchain \<Rightarrow> fault + (int \<times> bchain)" where
  "btf__add_enum_value al name enumerator c = (case c of [] \<Rightarrow> Inl Out_Of_Bounds | b # base \<Rightarrow>
     if bb_offs b = [] then Inr (- EINVAL, c)
     else if \<not> btf_is_enum (btf_last_type b) then Inr (- EINVAL, c)
     else if \<not> has_name name then Inr (- EINVAL, c)
     else if enumerator < - 2147483648 \<or> enumerator > int UINT32_MAX then Inr (- E2BIG, c)
     else add_to_last al 8 name (\<lambda>name_off. [name_off, of_int enumerator])
            (\<lambda>t. let t = btf_type_inc_vlen t in
               if enumerator < 0 then t\<lparr>bt_info := btf_type_info (btf_kind t) (btf_vlen t) True\<rparr> else t) c)"

definition btf__add_enum64_value :: "(nat \<Rightarrow> build_allocs) \<Rightarrow> u8 list option \<Rightarrow> u64 \<Rightarrow> bchain \<Rightarrow> fault + (int \<times> bchain)" where
  "btf__add_enum64_value al name enumerator c = (case c of [] \<Rightarrow> Inl Out_Of_Bounds | b # base \<Rightarrow>
     if bb_offs b = [] then Inr (- EINVAL, c)
     else if \<not> btf_is_enum64 (btf_last_type b) then Inr (- EINVAL, c)
     else if \<not> has_name name then Inr (- EINVAL, c)
     else add_to_last al 12 name (\<lambda>name_off. [name_off, ucast enumerator, ucast (drop_bit 32 enumerator)]) btf_type_inc_vlen c)"

definition btf__add_func_param :: "(nat \<Rightarrow> build_allocs) \<Rightarrow> u8 list option \<Rightarrow> int \<Rightarrow> bchain \<Rightarrow> fault + (int \<times> bchain)" where
  "btf__add_func_param al name type_id c = (case c of [] \<Rightarrow> Inl Out_Of_Bounds | b # base \<Rightarrow>
     if validate_type_id type_id \<noteq> 0 then Inr (- EINVAL, c)
     else if bb_offs b = [] then Inr (- EINVAL, c)
     else if \<not> btf_is_func_proto (btf_last_type b) then Inr (- EINVAL, c)
     else add_to_last al 8 name (\<lambda>name_off. [name_off, of_int type_id]) btf_type_inc_vlen c)"

definition btf__add_datasec_var_info :: "(nat \<Rightarrow> build_allocs) \<Rightarrow> int \<Rightarrow> u32 \<Rightarrow> u32 \<Rightarrow> bchain \<Rightarrow> fault + (int \<times> bchain)" where
  "btf__add_datasec_var_info al var_type_id var_offset byte_sz c = (case c of [] \<Rightarrow> Inl Out_Of_Bounds | b # base \<Rightarrow>
     if bb_offs b = [] then Inr (- EINVAL, c)
     else if \<not> btf_is_datasec (btf_last_type b) then Inr (- EINVAL, c)
     else if validate_type_id var_type_id \<noteq> 0 then Inr (- EINVAL, c)
     else add_to_last al 12 None (\<lambda>_. [of_int var_type_id, var_offset, byte_sz]) btf_type_inc_vlen c)"

section \<open>The instance as the readers see it\<close>

definition bb_bytes :: "bbtf \<Rightarrow> u8 list" where
  "bb_bytes b = take (unat (hd_type_len (bb_hdr b))) (ma_data (bb_types b))"

definition bb_str_bytes :: "bbtf \<Rightarrow> u8 list" where
  "bb_str_bytes b = (case bb_strs b of Raw d \<Rightarrow> d | Interned st \<Rightarrow> strset__data st)"

definition to_btf :: "bbtf \<Rightarrow> btf" where
  "to_btf b = \<lparr>bf_hdr = bb_hdr b, bf_swapped_endian = bb_swapped_endian b, bf_types_data = bb_bytes b,
     bf_type_offs = bb_offs b, bf_start_id = bb_start_id b, bf_start_str_off = bb_start_str_off b,
     bf_strs_data = bb_str_bytes b, bf_ptr_sz = bb_ptr_sz b\<rparr>"

definition set_ok :: "strset \<Rightarrow> bool" where
  "set_ok st \<longleftrightarrow> strset_inv st \<and> ss_data_max_len st = BTF_MAX_STR_OFFSET \<and> ma_cap (ss_data st) \<le> BTF_MAX_STR_OFFSET + 1"

definition bb_ok :: "bool \<Rightarrow> bbtf \<Rightarrow> bool" where
  "bb_ok has_base b \<longleftrightarrow> btf_wf has_base (to_btf b) \<and> area_ok 1 (bb_types b) \<and>
     unat (hd_type_len (bb_hdr b)) \<le> ma_cap (bb_types b) \<and> ma_cap (bb_types b) \<le> UINT32_MAX \<and>
     (case bb_strs b of Raw d \<Rightarrow> True | Interned st \<Rightarrow> set_ok st)"

text \<open>Ids and string offsets of an instance continue those of its base.\<close>

fun bchain_ok :: "bchain \<Rightarrow> bool" where
  "bchain_ok [] \<longleftrightarrow> True"
| "bchain_ok (b # base) \<longleftrightarrow> bb_ok (base \<noteq> []) b \<and>
     bb_start_id b = (case base of [] \<Rightarrow> 1 | b' # _ \<Rightarrow> bb_start_id b' + length (bb_offs b')) \<and>
     bb_start_str_off b = (case base of [] \<Rightarrow> 0 | b' # _ \<Rightarrow> bb_start_str_off b' + length (bb_str_bytes b')) \<and> bchain_ok base"

section \<open>Strings\<close>

lemma strset_data_len: "strset_inv st \<Longrightarrow> length (strset__data st) = ss_data_len st"
  by (simp add: strset_inv_def area_ok_def strset__data_def strset_bytes_def)

lemma mapped_cstr:
  assumes "strset_inv st" "ss_map st s = Some k"
  shows "cstr_ok (strset__data st) k \<and> cstr (strset__data st) k = s \<and> k < length (strset__data st)"
proof -
  have e: "(k, k) \<in> set (hashmap_entries (ss_hash st))" "cstr (strset_bytes st) k = s" using ss_map_Some assms by auto
  then have ok: "cstr_ok (strset__data st) k" using assms(1) by (fastforce simp: strset_inv_def strset__data_def)
  then have "k < length (strset__data st)" unfolding cstr_ok_def by (cases "k < length (strset__data st)") simp_all
  then show ?thesis using ok e(2) cstr_prefix [of k "ss_data_len st" "strset_bytes st"] by (simp add: cstr_ok_def strset__data_def)
qed

lemma set_add:
  assumes ok: "set_ok st" and s: "0 \<notin> set s"
  shows "\<exists>ret st'. strset__add_str ro al s st = Inr (ret, st') \<and> set_ok st' \<and>
    (ret = - ENOMEM \<and> strset__data st' = strset__data st \<or>
     0 \<le> ret \<and> cstr_ok (strset__data st') (nat ret) \<and> cstr (strset__data st') (nat ret) = s \<and> nat ret < length (strset__data st') \<and>
       (strset__data st' = strset__data st \<or> strset__data st' = strset__data st @ s @ [0]))"
proof -
  have inv: "strset_inv st" using ok by (simp add: set_ok_def)
  obtain ret st' where a: "strset__add_str ro al s st = Inr (ret, st')" "strset_inv st'"
    "take (ss_data_len st) (strset_bytes st') = take (ss_data_len st) (strset_bytes st)"
    "ret = - ENOMEM \<and> ss_map st' = ss_map st \<and> ss_data_len st' = ss_data_len st \<or>
     (case ss_map st s of
        Some k \<Rightarrow> ret = int k \<and> ss_map st' = ss_map st \<and> ss_data_len st' = ss_data_len st
      | None \<Rightarrow> ret = int (ss_data_len st) \<and> ss_map st' = (ss_map st)(s \<mapsto> ss_data_len st) \<and>
          ss_data_len st' = ss_data_len st + length s + 1)"
    using add_str_ok [OF inv s, of ro al] by blast
  have sa: "same_area s st st'" by (rule add_str_area [OF inv a(1)])
  have "set_ok st'" using ok a(2) sa by (auto simp: set_ok_def same_area_def)
  moreover have "strset__data st' = strset__data st" if "ss_data_len st' = ss_data_len st"
    using a(3) that by (simp add: strset__data_def)
  moreover have "strset__data st' = strset__data st @ s @ [0]" if l: "ss_data_len st' = ss_data_len st + length s + 1"
  proof -
    have "length (strset_bytes st') = ma_cap (ss_data st')" "ss_data_len st' \<le> ma_cap (ss_data st')"
      "length (strset_bytes st) = ma_cap (ss_data st)" "ss_data_len st \<le> ma_cap (ss_data st)"
      using a(2) inv by (auto simp: strset_inv_def area_ok_def strset_bytes_def)
    then show ?thesis using sa a(4) l
      by (auto simp: same_area_def strset__data_def)
  qed
  ultimately show ?thesis
    using a mapped_cstr [OF a(2), of s "nat ret"] by (auto split: option.splits)
qed

lemma set_find:
  assumes ok: "set_ok st" and s: "0 \<notin> set s"
  shows "\<exists>ret st'. strset__find_str ro s st = Inr (ret, st') \<and> set_ok st' \<and> strset__data st' = strset__data st \<and>
    (ret = - ENOMEM \<or> ret = - ENOENT \<or>
     0 \<le> ret \<and> cstr_ok (strset__data st) (nat ret) \<and> cstr (strset__data st) (nat ret) = s \<and> nat ret < length (strset__data st))"
proof -
  have inv: "strset_inv st" using ok by (simp add: set_ok_def)
  obtain ret st' where f: "strset__find_str ro s st = Inr (ret, st')" "strset_inv st'" "ss_data_len st' = ss_data_len st"
    "ret = - ENOMEM \<or> ret = (case ss_map st s of Some k \<Rightarrow> int k | None \<Rightarrow> - ENOENT)"
    using find_str_ok [OF inv s, of ro] by blast
  have "set_ok st'" using ok f(2) find_str_area(1) [OF inv f(1)] by (auto simp: set_ok_def same_area_def)
  moreover have "strset__data st' = strset__data st" using find_str_area(2) [OF inv f(1)] f(3) by (simp add: strset__data_def)
  ultimately show ?thesis using f mapped_cstr [OF inv, of s "nat ret"] by (auto split: option.splits)
qed

lemma wf_strs:
  assumes "btf_wf has_base (to_btf b)"
  shows "bb_str_bytes b = [] \<or> last (bb_str_bytes b) = 0" and "length (bb_str_bytes b) \<le> BTF_MAX_STR_OFFSET + 1"
    and "length (bb_str_bytes b) = unat (hd_str_len (bb_hdr b))" and "\<not> has_base \<Longrightarrow> bb_str_bytes b \<noteq> []"
  using assms by (auto simp: btf_wf_def to_btf_def btf_parse_str_sec_def Let_def EINVAL_def split: if_splits)

lemma ensure_ok:
  assumes ok: "bb_ok has_base b"
  shows "\<exists>err b'. btf_ensure_modifiable al hb b = Inr (err, b') \<and> bb_ok has_base b' \<and> to_btf b' = to_btf b \<and>
    (err = 0 \<and> (\<exists>st. bb_strs b' = Interned st) \<or> err = - ENOMEM \<and> b' = b)"
proof (cases "bb_strs b")
  case (Interned st)
  then show ?thesis using ok
    by (auto simp: btf_ensure_modifiable_def btf_invalidate_raw_data_def bb_ok_def to_btf_def bb_bytes_def bb_str_bytes_def)
next
  case (Raw d)
  have d: "d = [] \<or> last d = 0" "length d \<le> BTF_MAX_STR_OFFSET + 1"
    using wf_strs [of has_base b] ok Raw by (auto simp: bb_ok_def bb_str_bytes_def)
  have sz: "length d \<le> 2 ^ 31" "BTF_MAX_STR_OFFSET \<le> 2 ^ 31" using d(2) by (simp_all add: BTF_MAX_STR_OFFSET_def)
  note n = strset_new_ok [OF d(1) sz, where calloc_ok = "ba_set al" and new_ok = "ba_hash al" and malloc_ok = "ba_set_data al"
      and alloc = "ba_index al"]
  show ?thesis
  proof (cases "\<not> ba_hdr al \<or> \<not> ba_types al")
    case True
    then show ?thesis using ok Raw by (auto simp: btf_ensure_modifiable_def)
  next
    case False
    show ?thesis
    proof (cases "strset__new (ba_set al) (ba_hash al) (ba_set_data al) (ba_index al) BTF_MAX_STR_OFFSET (Some d)")
      case (Inl e)
      then show ?thesis using n ok Raw False by (auto simp: btf_ensure_modifiable_def)
    next
      case (Inr st)
      let ?n = "unat (hd_type_len (bb_hdr b))"
      define b' where "b' = btf_invalidate_raw_data (b\<lparr>bb_types := \<lparr>ma_data = take ?n (ma_data (bb_types b)), ma_cap = ?n\<rparr>,
        bb_strs := Interned st, bb_strs_deduped := (bb_strs_deduped b \<or> hd_str_len (bb_hdr b) = 0 \<or> \<not> hb \<and> hd_str_len (bb_hdr b) = 1)\<rparr>)"
      have st: "set_ok st" "strset__data st = d" using n Inr d(2) by (auto simp: set_ok_def)
      have "to_btf b' = to_btf b" using st Raw
        by (simp add: b'_def to_btf_def bb_bytes_def bb_str_bytes_def btf_invalidate_raw_data_def)
      moreover have "bb_ok has_base b'" using ok st calculation
        by (auto simp: bb_ok_def b'_def btf_invalidate_raw_data_def area_ok_def)
      moreover have "bb_strs b' = Interned st" by (simp add: b'_def btf_invalidate_raw_data_def)
      moreover have "btf_ensure_modifiable al hb b = Inr (0, b')"
        using Raw Inr False by (simp add: btf_ensure_modifiable_def b'_def Let_def)
      ultimately show ?thesis by auto
    qed
  qed
qed

lemma to_btf_fields:
  assumes "to_btf b' = to_btf b"
  shows "bb_hdr b' = bb_hdr b" "bb_offs b' = bb_offs b" "bb_start_id b' = bb_start_id b" "bb_start_str_off b' = bb_start_str_off b"
    "bb_str_bytes b' = bb_str_bytes b" "bb_bytes b' = bb_bytes b"
  using assms by (simp_all add: to_btf_def)

lemma bchain_same:
  assumes "bchain_ok (b # base)" "bb_ok (base \<noteq> []) b'" "to_btf b' = to_btf b" "bchain_ok base'" "map to_btf base' = map to_btf base"
  shows "bchain_ok (b' # base')"
proof (cases base)
  case Nil
  then show ?thesis using assms to_btf_fields [OF assms(3)] by simp
next
  case (Cons b0 r)
  then obtain b1 r1 where c: "base' = b1 # r1" "to_btf b1 = to_btf b0" using assms(5) by (cases base') auto
  show ?thesis using assms(1,2,4) Cons c(1) to_btf_fields [OF assms(3)] to_btf_fields [OF c(2)] by simp
qed

text \<open>What a string offset denotes, at the instance that holds it and below it.\<close>

lemma lookup_own:
  assumes "bb_ok has_base b" "k < length (bb_str_bytes b)"
  shows "btf__str_by_offset (to_btf b # base) (bb_start_str_off b + k) = Inr (Some (cstr (bb_str_bytes b) k))"
proof -
  have wf: "btf_wf has_base (to_btf b)" using assms(1) by (simp add: bb_ok_def)
  then have "cstr_ok (bb_str_bytes b) k" using wf_strs(1) [OF wf] assms(2) cstr_ok_last by auto
  then show ?thesis using wf_strs(3) [OF wf] assms(2) by (simp add: to_btf_def Let_def)
qed

lemma lookup_base:
  "off < bb_start_str_off b \<Longrightarrow> btf__str_by_offset (to_btf b # base) off = btf__str_by_offset base off"
  by (simp add: to_btf_def)

declare btf__str_by_offset.simps(2) [simp del]

definition str_end :: "bchain \<Rightarrow> nat" where
  "str_end c = (case c of [] \<Rightarrow> 0 | b # _ \<Rightarrow> bb_start_str_off b + length (bb_str_bytes b))"

lemma bchain_start: "bchain_ok (b # base) \<Longrightarrow> bb_start_str_off b = str_end base"
  by (cases base) (auto simp: str_end_def)

lemma find_str_chain:
  assumes "bchain_ok c" "c \<noteq> []" "0 \<notin> set s"
  shows "btf__find_str al s c = Inl Signed_Overflow \<or>
    (\<exists>ret c'. btf__find_str al s c = Inr (ret, c') \<and> bchain_ok c' \<and> map to_btf c' = map to_btf c \<and>
      (ret = - ENOMEM \<or> ret = - ENOENT \<or>
       0 \<le> ret \<and> ret \<le> INT_MAX \<and> nat ret < str_end c \<and> btf__str_by_offset (map to_btf c) (nat ret) = Inr (Some s)))"
  using assms
proof (induction c)
  case (Cons b base)
  have ok: "bb_ok (base \<noteq> []) b" "bchain_ok base" using Cons.prems(1) by auto
  define r where "r = (if base = [] then Inr (- ENOENT, []) else btf__find_str al s base)"
  consider (ovf) "r = Inl Signed_Overflow" | (ret) off base' where "r = Inr (off, base')" "bchain_ok base'"
    "map to_btf base' = map to_btf base" "off = - ENOMEM \<or> off = - ENOENT \<or>
       0 \<le> off \<and> off \<le> INT_MAX \<and> nat off < str_end base \<and> btf__str_by_offset (map to_btf base) (nat off) = Inr (Some s)"
    using Cons.IH [OF ok(2) _ Cons.prems(3)] by (cases "base = []") (auto simp: r_def)
  then show ?case
  proof cases
    case ovf
    then show ?thesis by (simp add: r_def [symmetric])
  next
    case (ret off base')
    note r = ret(1-3) and out = ret(4)
    have len: "length base' = length base" using map_eq_imp_length_eq [OF r(3)] .
    have nil: "base' \<noteq> [] \<longleftrightarrow> base \<noteq> []" using r(3) by auto
    note same = bchain_same [OF Cons.prems(1) _ _ r(2,3)]
    show ?thesis
    proof (cases "off = - ENOENT")
      case False
      then have "btf__find_str al s (b # base) = Inr (off, b # base')" using r(1) by (simp add: r_def [symmetric])
      moreover have "off = - ENOMEM \<or> 0 \<le> off \<and> off \<le> INT_MAX \<and> nat off < str_end (b # base) \<and>
          btf__str_by_offset (map to_btf (b # base)) (nat off) = Inr (Some s)"
        using out False bchain_start [OF Cons.prems(1)] lookup_base [of "nat off" b "map to_btf base"]
        by (auto simp: str_end_def [of "b # base"])
      ultimately show ?thesis using same [OF ok(1) refl] r(3) by (intro disjI2 exI [of _ off] exI [of _ "b # base'"]) (auto simp del: btf__find_str.simps bchain_ok.simps)
    next
      case True
      obtain err b1 where e: "btf_ensure_modifiable (al (length base)) (base \<noteq> []) b = Inr (err, b1)" "bb_ok (base \<noteq> []) b1"
        "to_btf b1 = to_btf b" "err = 0 \<and> (\<exists>st. bb_strs b1 = Interned st) \<or> err = - ENOMEM \<and> b1 = b"
        using ensure_ok [OF ok(1)] by blast
      show ?thesis
      proof (cases "err = 0")
        case False
        then have "btf__find_str al s (b # base) = Inr (- ENOMEM, b1 # base')"
          using r(1) True e(1) len nil by (simp add: r_def [symmetric])
        then show ?thesis using same [OF e(2,3)] e(3) r(3) by (simp del: btf__find_str.simps bchain_ok.simps)
      next
        case err0: True
        then obtain st where st: "bb_strs b1 = Interned st" using e(4) by (auto simp: ENOMEM_def)
        have sok: "set_ok st" using e(2) st by (simp add: bb_ok_def)
        have strs: "bb_str_bytes b = strset__data st" using to_btf_fields(5) [OF e(3)] st by (simp add: bb_str_bytes_def)
        obtain ret st' where f: "strset__find_str (ba_str_mem (al (length base))) s st = Inr (ret, st')" "set_ok st'"
          "strset__data st' = strset__data st" "ret = - ENOMEM \<or> ret = - ENOENT \<or> 0 \<le> ret \<and>
             cstr_ok (strset__data st) (nat ret) \<and> cstr (strset__data st) (nat ret) = s \<and> nat ret < length (strset__data st)"
          using set_find [OF sok Cons.prems(3)] by blast
        define b2 where "b2 = b1\<lparr>bb_strs := Interned st'\<rparr>"
        have b2: "to_btf b2 = to_btf b"
          unfolding e(3) [symmetric] using f(3) st by (simp add: b2_def to_btf_def bb_bytes_def bb_str_bytes_def)
        have b2ok: "bb_ok (base \<noteq> []) b2" using e(2) f(2) b2 e(3) by (simp add: bb_ok_def) (simp add: b2_def)
        have start: "bb_start_str_off b2 = bb_start_str_off b" using to_btf_fields(4) [OF b2] .
        have run: "btf__find_str al s (b # base) = (if ret < 0 then Inr (ret, b2 # base')
            else bindR (global_str_off b2 ret) (\<lambda>r. Inr (r, b2 # base')))"
          using r(1) True e(1) err0 st f(1) len nil by (simp add: r_def [symmetric] interned_def b2_def Let_def)
        have own: "btf__str_by_offset (map to_btf (b # base)) (bb_start_str_off b + nat ret) = Inr (Some s)"
          "bb_start_str_off b + nat ret < str_end (b # base)" if "0 \<le> ret"
          using that f(4) lookup_own [OF ok(1), of "nat ret"] strs by (auto simp: ENOMEM_def ENOENT_def str_end_def)
        show ?thesis
          using run same [OF b2ok b2] b2 r(3) own f(4) start
          by (cases "ret < 0")
            (auto simp: global_str_off_def nat_add_distrib ENOMEM_def ENOENT_def simp del: btf__find_str.simps bchain_ok.simps)
      qed
    qed
  qed
qed simp

text \<open>A modifiable instance after its strings have grown: nothing else has changed.\<close>

definition strs_grow :: "bbtf \<Rightarrow> bbtf \<Rightarrow> bool" where
  "strs_grow b b' \<longleftrightarrow> (\<exists>st. bb_strs b' = Interned st) \<and> (\<exists>n. bb_hdr b' = (bb_hdr b)\<lparr>hd_str_len := n\<rparr>) \<and>
     bb_types b' = bb_types b \<and> bb_offs b' = bb_offs b \<and> bb_offs_cap b' = bb_offs_cap b \<and> bb_start_id b' = bb_start_id b \<and>
     bb_start_str_off b' = bb_start_str_off b \<and> bb_swapped_endian b' = bb_swapped_endian b \<and> bb_ptr_sz b' = bb_ptr_sz b \<and>
     (\<exists>xs. bb_str_bytes b' = bb_str_bytes b @ xs)"

lemma grown_strs_ok:
  assumes ok: "bb_ok has_base b" and st: "bb_strs b = Interned st" and st': "set_ok st'"
    and d: "strset__data st' = strset__data st \<or> strset__data st' = strset__data st @ s @ [0]"
  defines "b' \<equiv> b\<lparr>bb_strs := Interned st', bb_hdr := (bb_hdr b)\<lparr>hd_str_len := of_nat (strset__data_size st')\<rparr>\<rparr>"
  shows "bb_ok has_base b' \<and> strs_grow b b' \<and> bb_str_bytes b' = strset__data st'"
proof -
  have sb: "bb_str_bytes b = strset__data st" using st by (simp add: bb_str_bytes_def)
  have sb': "bb_str_bytes b' = strset__data st'" by (simp add: b'_def bb_str_bytes_def)
  have inv: "strset_inv st'" and cap: "ma_cap (ss_data st') \<le> BTF_MAX_STR_OFFSET + 1" using st' by (auto simp: set_ok_def)
  have len: "length (strset__data st') = strset__data_size st'" "strset__data_size st' \<le> BTF_MAX_STR_OFFSET + 1"
    using strset_data_len [OF inv] inv cap by (auto simp: strset__data_size_def strset_inv_def)
  then have n: "unat (of_nat (strset__data_size st') :: u32) = strset__data_size st'"
    by (simp add: unsigned_of_nat take_bit_nat_eq_self BTF_MAX_STR_OFFSET_def)
  have wf: "btf_wf has_base (to_btf b)" using ok by (simp add: bb_ok_def)
  have sec: "btf_parse_str_sec has_base (strset__data st') = 0"
  proof (cases "strset__data st' = strset__data st")
    case True
    then show ?thesis using wf sb by (simp add: btf_wf_def to_btf_def)
  next
    case False
    then have "strset__data st' = strset__data st @ s @ [0]" using d by blast
    then show ?thesis using wf_strs(4) [OF wf] wf sb len
      by (auto simp: btf_parse_str_sec_def Let_def btf_wf_def to_btf_def EINVAL_def hd_append split: if_splits)
  qed
  have f: "bb_bytes b' = bb_bytes b" "bb_offs b' = bb_offs b" "hd_type_len (bb_hdr b') = hd_type_len (bb_hdr b)"
    "hd_str_len (bb_hdr b') = of_nat (strset__data_size st')" by (simp_all add: b'_def bb_bytes_def)
  have "btf_wf has_base (to_btf b')"
    using wf sec n len(1) sb' f by (auto simp: btf_wf_def to_btf_def)
  then have "bb_ok has_base b'" using ok st' by (simp add: bb_ok_def) (simp add: b'_def)
  moreover have "strs_grow b b'"
    using d sb sb' by (auto simp: strs_grow_def) (auto simp: b'_def)
  ultimately show ?thesis using sb' by blast
qed

lemma strs_grow_refl: "bb_strs b = Interned st \<Longrightarrow> strs_grow b b"
  by (auto simp: strs_grow_def intro: exI [of _ "hd_str_len (bb_hdr b)"])

lemma strs_grow_set: "strs_grow b b1 \<Longrightarrow> strset__data st = bb_str_bytes b1 \<Longrightarrow> strs_grow b (b1\<lparr>bb_strs := Interned st\<rparr>)"
  by (simp add: strs_grow_def bb_str_bytes_def)

lemma strs_grow_trans: "strs_grow b b1 \<Longrightarrow> strs_grow b1 b2 \<Longrightarrow> strs_grow b b2"
  by (force simp: strs_grow_def)

lemma add_str_chain:
  assumes c: "bchain_ok (b # base)" and st: "bb_strs b = Interned st" and s: "0 \<notin> set s"
  shows "btf__add_str al s (b # base) = Inl Signed_Overflow \<and> base \<noteq> [] \<or>
    (\<exists>ret b' base'. btf__add_str al s (b # base) = Inr (ret, b' # base') \<and> bchain_ok (b' # base') \<and> strs_grow b b' \<and>
      map to_btf base' = map to_btf base \<and>
      (ret = - ENOMEM \<or> 0 \<le> ret \<and> ret \<le> INT_MAX \<and> btf__str_by_offset (map to_btf (b' # base')) (nat ret) = Inr (Some s)))"
proof -
  have ok: "bb_ok (base \<noteq> []) b" "bchain_ok base" using c by auto
  define r where "r = (if base = [] then Inr (- ENOENT, []) else btf__find_str al s base)"
  consider (ovf) "r = Inl Signed_Overflow" "base \<noteq> []" | (ret) off base' where "r = Inr (off, base')" "bchain_ok base'"
    "map to_btf base' = map to_btf base" "off = - ENOMEM \<or> off = - ENOENT \<or>
       0 \<le> off \<and> off \<le> INT_MAX \<and> nat off < str_end base \<and> btf__str_by_offset (map to_btf base) (nat off) = Inr (Some s)"
    using find_str_chain [OF ok(2) _ s, of al] by (cases "base = []") (auto simp: r_def)
  then show ?thesis
  proof cases
    case ovf
    then have "btf__add_str al s (b # base) = Inl Signed_Overflow" by (simp add: btf__add_str_def r_def)
    then show ?thesis using ovf by blast
  next
    case (ret off base')
    have len: "length base' = length base" using map_eq_imp_length_eq [OF ret(3)] .
    have nil: "base' \<noteq> [] \<longleftrightarrow> base \<noteq> []" using ret(3) by auto
    note same = bchain_same [OF c _ _ ret(2,3)]
    show ?thesis
    proof (cases "off = - ENOENT")
      case False
      then have run: "btf__add_str al s (b # base) = Inr (off, b # base')" using ret(1) by (simp add: btf__add_str_def r_def [symmetric])
      have "off = - ENOMEM \<or> 0 \<le> off \<and> off \<le> INT_MAX \<and> btf__str_by_offset (map to_btf (b # base')) (nat off) = Inr (Some s)"
        using ret(3,4) False bchain_start [OF c] lookup_base [of "nat off" b "map to_btf base"] by auto
      then show ?thesis using run same [OF ok(1) refl] ret(3) strs_grow_refl [OF st] by blast
    next
      case True
      define b1 where "b1 = btf_invalidate_raw_data b"
      have b1: "to_btf b1 = to_btf b" "bb_strs b1 = Interned st" "strs_grow b b1"
        using st by (auto simp: b1_def btf_invalidate_raw_data_def to_btf_def bb_bytes_def bb_str_bytes_def strs_grow_def
            intro: exI [of _ "hd_str_len (bb_hdr b)"])
      have b1ok: "bb_ok (base \<noteq> []) b1" using ok(1) b1(1) by (simp add: bb_ok_def) (simp add: b1_def btf_invalidate_raw_data_def)
      have sok: "set_ok st" using ok(1) st by (simp add: bb_ok_def)
      obtain ret st' where a: "strset__add_str (ba_str_mem (al (length base))) (ba_str_hash (al (length base))) s st = Inr (ret, st')"
        "set_ok st'" "ret = - ENOMEM \<and> strset__data st' = strset__data st \<or>
         0 \<le> ret \<and> cstr_ok (strset__data st') (nat ret) \<and> cstr (strset__data st') (nat ret) = s \<and> nat ret < length (strset__data st') \<and>
           (strset__data st' = strset__data st \<or> strset__data st' = strset__data st @ s @ [0])"
        using set_add [OF sok s] by blast
      define b2 where "b2 = b1\<lparr>bb_strs := Interned st'\<rparr>"
      have run: "btf__add_str al s (b # base) = (if ret < 0 then Inr (ret, b2 # base')
          else bindR (global_str_off b2 ret) (\<lambda>r. Inr (r, b2\<lparr>bb_hdr := (bb_hdr b2)\<lparr>hd_str_len := of_nat (strset__data_size st')\<rparr>\<rparr> # base')))"
        using ret(1) True st a(1) len nil
        by (simp add: btf__add_str_def r_def [symmetric] btf_ensure_modifiable_def interned_def b2_def b1_def [symmetric] b1(2) Let_def global_str_off_def)
      show ?thesis
      proof (cases "ret < 0")
        case neg: True
        then have d: "ret = - ENOMEM" "strset__data st' = strset__data st" using a(3) by auto
        have b2: "to_btf b2 = to_btf b"
          unfolding b1(1) [symmetric] using d(2) b1(2) by (simp add: b2_def to_btf_def bb_bytes_def bb_str_bytes_def)
        have "bb_ok (base \<noteq> []) b2" using b1ok a(2) b2 b1(1) by (simp add: bb_ok_def) (simp add: b2_def)
        moreover have "strs_grow b b2"
          unfolding b2_def using b1(2) d(2) by (intro strs_grow_set [OF b1(3)]) (simp add: bb_str_bytes_def)
        moreover have "btf__add_str al s (b # base) = Inr (- ENOMEM, b2 # base')" using run neg d(1) by simp
        ultimately show ?thesis using same [of b2] b2 ret(3) by blast
      next
        case pos: False
        define b3 where "b3 = b1\<lparr>bb_strs := Interned st', bb_hdr := (bb_hdr b1)\<lparr>hd_str_len := of_nat (strset__data_size st')\<rparr>\<rparr>"
        have a3: "strset__data st' = strset__data st \<or> strset__data st' = strset__data st @ s @ [0]"
          "cstr (strset__data st') (nat ret) = s" "nat ret < length (strset__data st')" using a(3) pos by (auto simp: ENOMEM_def)
        have g: "bb_ok (base \<noteq> []) b3" "strs_grow b1 b3" "bb_str_bytes b3 = strset__data st'"
          using grown_strs_ok [OF b1ok b1(2) a(2) a3(1)] by (auto simp: b3_def)
        have gr: "strs_grow b b3" by (rule strs_grow_trans [OF b1(3) g(2)])
        have ch: "bchain_ok (b3 # base')"
          using same [OF ok(1) refl] g(1) gr nil by (simp add: strs_grow_def)
        have run3: "btf__add_str al s (b # base) = bindR (global_str_off b ret) (\<lambda>r. Inr (r, b3 # base'))"
          using run pos by (simp add: b2_def b3_def b1_def btf_invalidate_raw_data_def global_str_off_def)
        show ?thesis
        proof (cases "int (bb_start_str_off b) + ret > INT_MAX")
          case True
          have "base \<noteq> []"
          proof
            assume "base = []"
            then have "bb_start_str_off b = 0" using c by simp
            moreover have "length (bb_str_bytes b3) \<le> BTF_MAX_STR_OFFSET + 1" using g(1) wf_strs(2) [of "base \<noteq> []" b3] by (simp add: bb_ok_def)
            ultimately show False using True a3(3) g(3) by (simp add: INT_MAX_def BTF_MAX_STR_OFFSET_def)
          qed
          then show ?thesis using True run3 by (simp add: global_str_off_def)
        next
          case False
          have "bb_start_str_off b3 = bb_start_str_off b" using gr by (simp add: strs_grow_def)
          then have "btf__str_by_offset (map to_btf (b3 # base')) (nat (int (bb_start_str_off b) + ret)) = Inr (Some s)"
            using lookup_own [OF g(1), of "nat ret" "map to_btf base'"] a3(2,3) g(3) pos by (simp add: nat_add_distrib)
          then show ?thesis using run3 False pos ch gr ret(3)
            by (intro disjI2 exI [of _ "int (bb_start_str_off b) + ret"] exI [of _ b3] exI [of _ base']) (simp add: global_str_off_def)
        qed
      qed
    qed
  qed
qed

section \<open>Types in memory\<close>

lemma length_words_bytes [simp]: "length (words_bytes ws) = 4 * length ws"
  by (induction ws) (simp_all add: words_bytes_def)

lemma word_at_words:
  "i < length ws \<Longrightarrow> word_at (d @ words_bytes ws @ r) (length d + 4 * i) = ws ! i"
proof (induction ws arbitrary: d i)
  case (Cons w ws)
  show ?case
  proof (cases i)
    case 0
    then show ?thesis by (simp add: words_bytes_def word_at_skip)
  next
    case (Suc j)
    then show ?thesis using Cons.IH [of j "d @ to_le 4 w"] Cons.prems by (simp add: words_bytes_def add.assoc)
  qed
qed simp

definition type_of_words :: "u32 list \<Rightarrow> btf_type" where
  "type_of_words ws = \<lparr>bt_name_off = ws ! 0, bt_info = ws ! 1, bt_type = ws ! 2, bt_words = drop 3 ws\<rparr>"

definition words_ok :: "u32 list \<Rightarrow> bool" where
  "words_ok ws \<longleftrightarrow> btf_type_size (type_of_words ws) = 4 * int (length ws) \<and> 3 \<le> length ws"

lemma type_size_cong: "bt_info t = bt_info t' \<Longrightarrow> btf_type_size t = btf_type_size t'"
  by (simp add: btf_type_size_def btf_kind_def btf_vlen_def)

lemma base_at_words:
  assumes "3 \<le> length ws"
  shows "base_at (d @ words_bytes ws @ r) (length d) = (type_of_words ws)\<lparr>bt_words := []\<rparr>"
proof -
  have "ws \<noteq> []" using assms by auto
  then show ?thesis
    using word_at_words [of 0 ws d r] word_at_words [of 1 ws d r] word_at_words [of 2 ws d r] assms
    by (simp add: base_at_def type_of_words_def)
qed

lemma type_at_words:
  assumes "words_ok ws"
  shows "type_at (d @ words_bytes ws @ r) (length d) = type_of_words ws"
proof -
  let ?t = "(type_of_words ws)\<lparr>bt_words := []\<rparr>"
  have l: "3 \<le> length ws" using assms by (simp add: words_ok_def)
  have "btf_type_size ?t = 4 * int (length ws)"
    using assms type_size_cong [of ?t "type_of_words ws"] by (simp add: words_ok_def)
  then have rw: "rest_words ?t = length ws - 3" by (simp add: rest_words_def)
  have "map (\<lambda>i. word_at (d @ words_bytes ws @ r) (length d + 12 + 4 * i)) [0..<length ws - 3] = drop 3 ws"
  proof (rule nth_equalityI)
    fix i assume "i < length (map (\<lambda>i. word_at (d @ words_bytes ws @ r) (length d + 12 + 4 * i)) [0..<length ws - 3])"
    then show "map (\<lambda>i. word_at (d @ words_bytes ws @ r) (length d + 12 + 4 * i)) [0..<length ws - 3] ! i = drop 3 ws ! i"
      using word_at_words [of "3 + i" ws d r] by (simp add: algebra_simps)
  qed simp
  then show ?thesis using l rw by (simp add: type_at_def base_at_words [OF l] Let_def) (simp add: type_of_words_def)
qed

lemma word_at_agree: "take (off + 4) d' = take (off + 4) d \<Longrightarrow> word_at d' off = word_at d off"
  by (metis (no_types, lifting) add_diff_cancel_left' drop_take word_at_def)

lemma type_at_agree:
  assumes fits: "type_fits n off d" and same: "take n d' = take n d"
  shows "type_at d' off = type_at d off" and "type_fits n off d'"
proof -
  let ?t = "base_at d off"
  have f: "off + 12 \<le> n" "0 \<le> btf_type_size ?t" "int off + btf_type_size ?t \<le> int n" using fits by (auto simp: type_fits_def)
  have b: "base_at d' off = ?t" by (rule base_at_agree [OF take_agree [OF same f(1)]])
  have "word_at d' (off + 12 + 4 * i) = word_at d (off + 12 + 4 * i)" if "i < rest_words ?t" for i
    using that f(2,3) rest_words_size [OF f(2)] by (intro word_at_agree take_agree [OF same]) simp
  then show "type_at d' off = type_at d off" by (simp add: type_at_def b Let_def cong: map_cong)
  show "type_fits n off d'" using fits by (simp add: type_fits_def b)
qed

lemma tiles_append:
  assumes "tiles n d off offs" "take n d' = take n d" "type_fits m n d'" "m = n + nat (btf_type_size (base_at d' n))"
  shows "tiles m d' off (offs @ [n])"
  using assms
proof (induction n d off offs rule: tiles.induct)
  case (1 n d off)
  then show ?case by simp
next
  case (2 n d off o1 os)
  have f: "type_fits n off d" using "2.prems"(1) by simp
  have b: "base_at d' off = base_at d off"
    using f by (intro base_at_agree take_agree [OF "2.prems"(2)]) (simp add: type_fits_def)
  have "n \<le> m" using "2.prems"(4) by simp
  then have "type_fits m off d'" using type_at_agree(2) [OF f "2.prems"(2)] by (auto simp: type_fits_def)
  then show ?case using "2.IH" [OF _ "2.prems"(2-4)] "2.prems"(1) b by simp
qed

text \<open>Writing the words of a type behind the types and entering it in the index.\<close>

definition append_words :: "u32 list \<Rightarrow> nat \<Rightarrow> bbtf \<Rightarrow> bbtf" where
  "append_words ws cap b = grow_types (4 * length ws)
     ((put_words (unat (hd_type_len (bb_hdr b))) ws b)\<lparr>bb_offs := bb_offs b @ [unat (hd_type_len (bb_hdr b))], bb_offs_cap := cap\<rparr>)"

lemma unat_add_small: "unat (a :: u32) + n \<le> UINT32_MAX \<Longrightarrow> unat (a + of_nat n) = unat a + n"
  by (simp add: unat_word_ariths unsigned_of_nat take_bit_nat_eq_self UINT32_MAX_def)

lemma append_words_ok:
  fixes cap :: nat
  assumes ok: "bb_ok has_base b" and ws: "words_ok ws"
    and room: "unat (hd_type_len (bb_hdr b)) + 4 * length ws \<le> ma_cap (bb_types b)"
  defines "b' \<equiv> append_words ws cap b"
  shows "bb_ok has_base b' \<and> bb_bytes b' = bb_bytes b @ words_bytes ws \<and> bb_offs b' = bb_offs b @ [length (bb_bytes b)] \<and>
    bb_start_id b' = bb_start_id b \<and> bb_start_str_off b' = bb_start_str_off b \<and> bb_str_bytes b' = bb_str_bytes b"
proof -
  let ?n = "unat (hd_type_len (bb_hdr b))"
  have wf: "btf_wf has_base (to_btf b)" and area: "length (ma_data (bb_types b)) = ma_cap (bb_types b)" "ma_cap (bb_types b) \<le> UINT32_MAX"
    using ok by (auto simp: bb_ok_def area_ok_def)
  have len: "length (bb_bytes b) = ?n" using area room by (simp add: bb_bytes_def)
  have tl: "unat (hd_type_len (bb_hdr b')) = ?n + 4 * length ws"
    using room area(2) by (simp add: b'_def append_words_def grow_types_def put_words_def unat_add_small del: of_nat_mult)
  have data: "ma_data (bb_types b') = bb_bytes b @ words_bytes ws @ drop (?n + 4 * length ws) (ma_data (bb_types b))"
    by (simp add: b'_def append_words_def grow_types_def put_words_def area_write_def bb_bytes_def)
  then have bytes: "bb_bytes b' = bb_bytes b @ words_bytes ws" using tl len by (simp add: bb_bytes_def [of b'])
  have offs: "bb_offs b' = bb_offs b @ [?n]" and strs: "bb_str_bytes b' = bb_str_bytes b" "bb_strs b' = bb_strs b"
    and starts: "bb_start_id b' = bb_start_id b" "bb_start_str_off b' = bb_start_str_off b" "hd_str_len (bb_hdr b') = hd_str_len (bb_hdr b)"
    and cap: "ma_cap (bb_types b') = ma_cap (bb_types b)"
    by (simp_all add: b'_def append_words_def grow_types_def put_words_def area_write_def bb_str_bytes_def)
  have w: "btf_type_size (type_of_words ws) = 4 * int (length ws)" "3 \<le> length ws" using ws by (auto simp: words_ok_def)
  have base: "base_at (bb_bytes b') ?n = (type_of_words ws)\<lparr>bt_words := []\<rparr>"
    using base_at_words [OF w(2), of "bb_bytes b" "[]"] len bytes by simp
  then have sz: "btf_type_size (base_at (bb_bytes b') ?n) = 4 * int (length ws)"
    using w(1) type_size_cong [of "(type_of_words ws)\<lparr>bt_words := []\<rparr>" "type_of_words ws"] by simp
  have old: "tiles ?n (bb_bytes b) 0 (bb_offs b)" using wf len by (simp add: btf_wf_def to_btf_def)
  have "tiles (?n + 4 * length ws) (bb_bytes b') 0 (bb_offs b @ [?n])"
    by (rule tiles_append [OF old]) (use bytes len sz w(2) in \<open>auto simp: type_fits_def\<close>)
  then have "btf_wf has_base (to_btf b')"
    using wf tl bytes len offs strs(1) starts(3) by (simp add: btf_wf_def to_btf_def)
  moreover have "area_ok 1 (bb_types b')" using data len cap area(1) room by (simp add: area_ok_def)
  ultimately have "bb_ok has_base b'" using ok tl room cap strs(2) by (simp add: bb_ok_def)
  then show ?thesis using bytes offs len starts strs(1) by simp
qed

section \<open>What later readers keep seeing\<close>

definition keeps :: "btf_chain \<Rightarrow> btf_chain \<Rightarrow> bool" where
  "keeps c c' \<longleftrightarrow> (\<forall>i<btf__type_cnt c. btf_type_by_id c' i = btf_type_by_id c i) \<and>
     (\<forall>off s. btf__str_by_offset c off = Inr (Some s) \<longrightarrow> btf__str_by_offset c' off = Inr (Some s))"

definition extends :: "bbtf \<Rightarrow> bbtf \<Rightarrow> bool" where
  "extends b b' \<longleftrightarrow> bb_start_id b' = bb_start_id b \<and> bb_start_str_off b' = bb_start_str_off b \<and>
     (\<exists>xs. bb_str_bytes b' = bb_str_bytes b @ xs) \<and> (\<exists>xs. bb_bytes b' = bb_bytes b @ xs) \<and> (\<exists>xs. bb_offs b' = bb_offs b @ xs)"

lemma extends_trans: "extends a b \<Longrightarrow> extends b c \<Longrightarrow> extends a c"
  by (auto simp: extends_def)

lemma strs_grow_extends: "strs_grow b b' \<Longrightarrow> extends b b'"
  by (auto simp: strs_grow_def extends_def bb_bytes_def)

lemma same_view_extends: "to_btf b' = to_btf b \<Longrightarrow> extends b b'"
  using to_btf_fields [of b' b] by (simp add: extends_def)

lemma extends_keeps:
  assumes ok: "bb_ok has_base b" and ok': "bb_ok has_base' b'" and e: "extends b b'"
  shows "keeps (to_btf b # base) (to_btf b' # base)"
proof -
  obtain xs ys os where x: "bb_str_bytes b' = bb_str_bytes b @ xs" "bb_bytes b' = bb_bytes b @ ys" "bb_offs b' = bb_offs b @ os"
    and st: "bb_start_id b' = bb_start_id b" "bb_start_str_off b' = bb_start_str_off b"
    using e by (auto simp: extends_def)
  have wf: "btf_wf has_base (to_btf b)" "btf_wf has_base' (to_btf b')" using ok ok' by (auto simp: bb_ok_def)
  have t: "tiles (length (bb_bytes b)) (bb_bytes b) 0 (bb_offs b)" using wf(1) by (auto simp: btf_wf_def to_btf_def)
  have "type_at (bb_bytes b') (bb_offs b ! k) = type_at (bb_bytes b) (bb_offs b ! k)" if "k < length (bb_offs b)" for k
    using type_at_agree(1) [OF tiles_nth [OF t that], of "bb_bytes b'"] x(2) by simp
  then have "btf_type_by_id (to_btf b' # base) i = btf_type_by_id (to_btf b # base) i"
    if "i < bb_start_id b + length (bb_offs b)" for i
    using that x(3) st by (auto simp: to_btf_def bf_nr_types_def nth_append)
  moreover have "btf__str_by_offset (to_btf b' # base) off = Inr (Some s)"
    if s: "btf__str_by_offset (to_btf b # base) off = Inr (Some s)" for off s
  proof (cases "off < bb_start_str_off b")
    case True
    then show ?thesis using s st by (simp add: lookup_base)
  next
    case False
    then have k: "off - bb_start_str_off b < length (bb_str_bytes b)" "bb_start_str_off b + (off - bb_start_str_off b) = off"
      using s wf_strs(3) [OF wf(1)] by (auto simp: btf__str_by_offset.simps to_btf_def split: if_splits)
    then have "cstr_ok (bb_str_bytes b) (off - bb_start_str_off b)" using wf_strs(1) [OF wf(1)] cstr_ok_last by auto
    then have "cstr (bb_str_bytes b') (off - bb_start_str_off b) = cstr (bb_str_bytes b) (off - bb_start_str_off b)"
      using cstr_agree [of "length (bb_str_bytes b)" "bb_str_bytes b" _ "bb_str_bytes b'"] x(1) by simp
    then show ?thesis using lookup_own [OF ok k(1), of base] lookup_own [OF ok', of "off - bb_start_str_off b" base] s k st x(1) by simp
  qed
  ultimately show ?thesis by (simp add: keeps_def btf__type_cnt_def to_btf_def bf_nr_types_def)
qed

text \<open>The offset a type stores for its name: that of the name, or 0 for no name.\<close>

definition named :: "btf_chain \<Rightarrow> u8 list option \<Rightarrow> nat \<Rightarrow> bool" where
  "named c name off \<longleftrightarrow> (if has_name name then btf__str_by_offset c off = Inr (Some (the name)) else off = 0)"

lemma intern_name_ok:
  assumes c: "bchain_ok (b # base)" and st: "bb_strs b = Interned st" and n: "\<forall>s. name = Some s \<longrightarrow> 0 \<notin> set s"
  shows "intern_name al name (b # base) = Inl Signed_Overflow \<and> base \<noteq> [] \<or>
    (\<exists>ret b' base'. intern_name al name (b # base) = Inr (ret, b' # base') \<and> bchain_ok (b' # base') \<and> strs_grow b b' \<and>
      map to_btf base' = map to_btf base \<and>
      (ret = - ENOMEM \<or> 0 \<le> ret \<and> ret \<le> INT_MAX \<and> named (map to_btf (b' # base')) name (nat ret)))"
proof (cases "has_name name")
  case True
  then obtain s where s: "name = Some s" "s \<noteq> []" by (auto simp: has_name_def)
  then show ?thesis using add_str_chain [OF c st, of s al] n True by (simp add: intern_name_def named_def)
next
  case False
  then have "intern_name al name (b # base) = Inr (0, b # base)" by (auto simp: intern_name_def has_name_def split: option.splits)
  then show ?thesis using False c strs_grow_refl [OF st] by (auto simp: INT_MAX_def named_def)
qed

lemma add_type_mem_ok:
  assumes ok: "bb_ok has_base b" and mem: "btf_add_type_mem realloc_ok sz b = (p, b1)"
  shows "bb_ok has_base b1 \<and> to_btf b1 = to_btf b \<and> bb_strs b1 = bb_strs b \<and>
    (p = None \<or> p = Some (unat (hd_type_len (bb_hdr b))) \<and> unat (hd_type_len (bb_hdr b)) + sz \<le> ma_cap (bb_types b1))"
proof -
  let ?n = "unat (hd_type_len (bb_hdr b))"
  obtain a where a: "libbpf_add_mem realloc_ok 1 ?n UINT32_MAX sz (bb_types b) = (p, a)" "b1 = b\<lparr>bb_types := a\<rparr>"
    using mem by (auto simp: btf_add_type_mem_def split: prod.splits)
  have area: "area_ok 1 (bb_types b)" "?n \<le> ma_cap (bb_types b)" "ma_cap (bb_types b) \<le> UINT32_MAX" using ok by (auto simp: bb_ok_def)
  obtain z where z: "area_ok 1 a" "ma_cap (bb_types b) \<le> ma_cap a" "ma_data a = ma_data (bb_types b) @ replicate z 0"
    "p = None \<and> a = bb_types b \<or> p = Some ?n \<and> ?n + sz \<le> ma_cap a \<and> (ma_cap a \<le> UINT32_MAX \<or> a = bb_types b)"
    using add_mem_cases [OF area(1) a(1)] by auto
  have "to_btf b1 = to_btf b"
    using z(3) area(1,2) by (simp add: a(2) to_btf_def bb_bytes_def bb_str_bytes_def area_ok_def)
  moreover have "bb_ok has_base b1" using ok z area calculation by (auto simp: bb_ok_def a(2))
  ultimately show ?thesis using z(4) by (auto simp: a(2))
qed

lemma offs_cap_self: "\<exists>cap. b = b\<lparr>bb_offs_cap := cap\<rparr>"
  by (rule exI [of _ "bb_offs_cap b"]) simp

lemma commit_words:
  assumes "btf_commit_type realloc_ok (4 * length ws) (put_words (unat (hd_type_len (bb_hdr b))) ws b) = (ret, b')"
  shows "ret = - ENOMEM \<and> b' = put_words (unat (hd_type_len (bb_hdr b))) ws b \<or>
    ret = sint (of_nat (bb_start_id b + length (bb_offs b)) :: u32) \<and> (\<exists>cap. b' = append_words ws cap b)"
proof (cases "btf_add_type_offs_mem realloc_ok 1 (put_words (unat (hd_type_len (bb_hdr b))) ws b)")
  case (Pair ok b1)
  let ?p = "put_words (unat (hd_type_len (bb_hdr b))) ws b"
  have b1: "\<exists>cap. b1 = ?p\<lparr>bb_offs_cap := cap\<rparr>" and fail: "\<not> ok \<Longrightarrow> b1 = ?p"
    using Pair by (auto simp: btf_add_type_offs_mem_def Let_def intro: offs_cap_self split: if_splits)
  show ?thesis
  proof (cases ok)
    case False
    then show ?thesis using assms Pair fail
      by (auto simp: btf_commit_type_def btf_add_type_idx_entry_def put_words_def ENOMEM_def)
  next
    case True
    obtain cap where cap: "b1 = ?p\<lparr>bb_offs_cap := cap\<rparr>" using b1 by blast
    have "b' = append_words ws cap b"
      using assms Pair True by (auto simp: cap btf_commit_type_def btf_add_type_idx_entry_def put_words_def append_words_def grow_types_def Let_def)
    moreover have "ret = sint (of_nat (bb_start_id b + length (bb_offs b)) :: u32)"
      using assms Pair True by (auto simp: cap btf_commit_type_def btf_add_type_idx_entry_def put_words_def grow_types_def Let_def)
    ultimately show ?thesis by blast
  qed
qed

lemma put_words_view:
  assumes "bb_ok has_base b" "unat (hd_type_len (bb_hdr b)) + 4 * length ws \<le> ma_cap (bb_types b)"
  shows "to_btf (put_words (unat (hd_type_len (bb_hdr b))) ws b) = to_btf b \<and> bb_ok has_base (put_words (unat (hd_type_len (bb_hdr b))) ws b)"
proof -
  let ?b = "put_words (unat (hd_type_len (bb_hdr b))) ws b"
  have l: "length (ma_data (bb_types b)) = ma_cap (bb_types b)" using assms(1) by (simp add: bb_ok_def area_ok_def)
  then have "to_btf ?b = to_btf b" using assms(2)
    by (simp add: put_words_def to_btf_def bb_bytes_def bb_str_bytes_def area_write_def)
  moreover have "area_ok 1 (bb_types ?b)" using l assms(2) by (simp add: put_words_def area_write_def area_ok_def)
  ultimately show ?thesis using assms(1) by (simp add: bb_ok_def) (simp add: put_words_def area_write_def)
qed

text \<open>The outcome of appending a type.\<close>

definition appended :: "bchain \<Rightarrow> u8 list option \<Rightarrow> (u32 \<Rightarrow> u32 list) \<Rightarrow> int \<Rightarrow> bchain \<Rightarrow> bool" where
  "appended c name mk ret c' \<longleftrightarrow> bchain_ok c' \<and> map to_btf (tl c') = map to_btf (tl c) \<and> keeps (map to_btf c) (map to_btf c') \<and>
     (ret = - ENOMEM \<and> btf__type_cnt (map to_btf c') = btf__type_cnt (map to_btf c) \<or>
      (\<exists>name_off. ret = sint (of_nat (btf__type_cnt (map to_btf c)) :: u32) \<and>
         btf__type_cnt (map to_btf c') = btf__type_cnt (map to_btf c) + 1 \<and>
         btf_type_by_id (map to_btf c') (btf__type_cnt (map to_btf c)) = Inr (type_of_words (mk name_off)) \<and>
         named (map to_btf c') name (unat name_off)))"

lemma cnt_to_btf: "btf__type_cnt (to_btf b # base) = bb_start_id b + length (bb_offs b)"
  by (simp add: btf__type_cnt_def to_btf_def bf_nr_types_def)

lemma appended_same:
  assumes "bchain_ok (b # base)" "bchain_ok (b' # base')" "extends b b'" "bb_offs b' = bb_offs b" "map to_btf base' = map to_btf base"
  shows "appended (b # base) name mk (- ENOMEM) (b' # base')"
  using assms extends_keeps [of "base \<noteq> []" b "base' \<noteq> []" b' "map to_btf base"]
  by (auto simp: appended_def cnt_to_btf extends_def)

lemma bchain_head:
  assumes "bchain_ok (b # base)" "bb_ok (base \<noteq> []) b'" "bb_start_id b' = bb_start_id b" "bb_start_str_off b' = bb_start_str_off b"
  shows "bchain_ok (b' # base)"
  using assms by simp

lemma unat_of_int_small: "0 \<le> i \<Longrightarrow> i \<le> INT_MAX \<Longrightarrow> unat (of_int i :: u32) = nat i"
  by (simp add: unsigned_of_int take_bit_int_eq_self INT_MAX_def)

lemma bchain_start_id: "bchain_ok (b # base) \<Longrightarrow> 0 < bb_start_id b"
proof (induction base arbitrary: b)
  case (Cons a base)
  then have "0 < bb_start_id a" "bb_start_id b = bb_start_id a + length (bb_offs a)" by auto
  then show ?case by simp
qed simp

lemma commit_ok:
  assumes c: "bchain_ok (b # base)" and c3: "bchain_ok (b3 # base')" and x: "extends b b3" "bb_offs b3 = bb_offs b"
    and bs: "map to_btf base' = map to_btf base" and ws: "words_ok (mk (of_int off))"
    and room: "unat (hd_type_len (bb_hdr b3)) + 4 * length (mk (of_int off)) \<le> ma_cap (bb_types b3)"
    and off: "0 \<le> off" "off \<le> INT_MAX"
    and name: "named (map to_btf (b3 # base')) name (nat off)"
    and cm: "btf_commit_type al (4 * length (mk (of_int off))) (put_words (unat (hd_type_len (bb_hdr b3))) (mk (of_int off)) b3) = (r, b4)"
  shows "appended (b # base) name mk r (b4 # base')"
proof -
  let ?ws = "mk (of_int off)"
  have ok: "bb_ok (base \<noteq> []) b" and ok3: "bb_ok (base' \<noteq> []) b3" using c c3 by auto
  consider (nomem) "r = - ENOMEM" "b4 = put_words (unat (hd_type_len (bb_hdr b3))) ?ws b3"
    | (added) cap where "r = sint (of_nat (bb_start_id b3 + length (bb_offs b3)) :: u32)" "b4 = append_words ?ws cap b3"
    using commit_words [OF cm] by blast
  then show ?thesis
  proof cases
    case nomem
    have v: "to_btf b4 = to_btf b3" "bb_ok (base' \<noteq> []) b4" using put_words_view [OF ok3 room] nomem(2) by auto
    have "bchain_ok (b4 # base')" by (rule bchain_same [OF c3 v(2,1) _ refl]) (use c3 in simp)
    moreover have "extends b b4" using extends_trans [OF x(1) same_view_extends [OF v(1)]] .
    moreover have "bb_offs b4 = bb_offs b" using to_btf_fields(2) [OF v(1)] x(2) by simp
    ultimately show ?thesis using appended_same [OF c] bs nomem(1) by blast
  next
    case (added cap)
    have a: "bb_ok (base' \<noteq> []) b4" "bb_bytes b4 = bb_bytes b3 @ words_bytes ?ws" "bb_offs b4 = bb_offs b3 @ [length (bb_bytes b3)]"
      "bb_start_id b4 = bb_start_id b3" "bb_start_str_off b4 = bb_start_str_off b3" "bb_str_bytes b4 = bb_str_bytes b3"
      using append_words_ok [OF ok3 ws room, of cap] added(2) by auto
    have e34: "extends b3 b4" using a by (simp add: extends_def)
    have ch: "bchain_ok (b4 # base')" by (rule bchain_head [OF c3 a(1,4,5)])
    have k: "keeps (to_btf b # map to_btf base) (to_btf b4 # map to_btf base)"
      "keeps (to_btf b3 # map to_btf base) (to_btf b4 # map to_btf base)"
      using extends_keeps [OF ok a(1) extends_trans [OF x(1) e34]] extends_keeps [OF ok3 a(1) e34] by auto
    have id: "bb_start_id b3 = bb_start_id b" using x(1) by (simp add: extends_def)
    have "type_at (bb_bytes b4) (length (bb_bytes b3)) = type_of_words ?ws"
      using type_at_words [OF ws, of "bb_bytes b3" "[]"] a(2) by simp
    then have ty: "btf_type_by_id (to_btf b4 # map to_btf base) (bb_start_id b + length (bb_offs b)) = Inr (type_of_words ?ws)"
      using a(3,4) id x(2) bchain_start_id [OF c] by (simp add: to_btf_def bf_nr_types_def nth_append)
    have "named (to_btf b4 # map to_btf base) name (nat off)"
      using k(2) name bs by (auto simp: keeps_def named_def)
    then show ?thesis unfolding appended_def using ch k(1) ty added(1) id x(2) a(3,4) bs unat_of_int_small [OF off]
      by (auto simp: cnt_to_btf intro!: exI [of _ "of_int off"] simp del: bchain_ok.simps)
  qed
qed

lemma reserve_ok:
  assumes c: "bchain_ok (b # base)" and n: "\<forall>s. name = Some s \<longrightarrow> 0 \<notin> set s"
  shows "reserve al sz name (b # base) = Inl Signed_Overflow \<and> base \<noteq> [] \<or>
    (\<exists>off p b' base'. reserve al sz name (b # base) = Inr (off, p, b' # base') \<and> bchain_ok (b' # base') \<and> extends b b' \<and>
      bb_offs b' = bb_offs b \<and> bb_bytes b' = bb_bytes b \<and> map to_btf base' = map to_btf base \<and>
      (off = - ENOMEM \<or> 0 \<le> off \<and> off \<le> INT_MAX \<and> named (map to_btf (b' # base')) name (nat off) \<and>
         p = unat (hd_type_len (bb_hdr b')) \<and> p + sz \<le> ma_cap (bb_types b')))"
proof -
  have ok: "bb_ok (base \<noteq> []) b" using c by simp
  obtain err b1 where e: "btf_ensure_modifiable (al (length base)) (base \<noteq> []) b = Inr (err, b1)" "bb_ok (base \<noteq> []) b1"
    "to_btf b1 = to_btf b" "err = 0 \<and> (\<exists>st. bb_strs b1 = Interned st) \<or> err = - ENOMEM \<and> b1 = b"
    using ensure_ok [OF ok] by blast
  have c1: "bchain_ok (b1 # base)" using bchain_same [OF c e(2,3)] c by simp
  have x1: "extends b b1" "bb_offs b1 = bb_offs b" "bb_bytes b1 = bb_bytes b"
    using same_view_extends [OF e(3)] to_btf_fields [OF e(3)] by auto
  show ?thesis
  proof (cases "err = 0")
    case False
    then have "reserve al sz name (b # base) = Inr (- ENOMEM, 0, b1 # base)" using e(1) by (simp add: reserve_def)
    then show ?thesis using c1 x1 by blast
  next
    case True
    then obtain st where st: "bb_strs b1 = Interned st" using e(4) by (auto simp: ENOMEM_def)
    obtain p b2 where m: "btf_add_type_mem (ba_type_mem (al (length base))) sz b1 = (p, b2)" by fastforce
    note am = add_type_mem_ok [OF e(2) m]
    have c2: "bchain_ok (b2 # base)" using bchain_same [OF c1 _ _ _ refl, of b2] am c1 by simp
    have x2: "extends b b2" using am x1(1) extends_trans same_view_extends by blast
    have o2: "bb_offs b2 = bb_offs b" "bb_bytes b2 = bb_bytes b" "hd_type_len (bb_hdr b2) = hd_type_len (bb_hdr b1)"
      using am to_btf_fields [of b2 b1] x1 by simp_all
    show ?thesis
    proof (cases p)
      case None
      then have "reserve al sz name (b # base) = Inr (- ENOMEM, 0, b2 # base)" using e(1) True m by (simp add: reserve_def)
      then show ?thesis using c2 x2 o2 by blast
    next
      case (Some q)
      have q: "q = unat (hd_type_len (bb_hdr b2))" "q + sz \<le> ma_cap (bb_types b2)" using am Some o2 by auto
      have run: "reserve al sz name (b # base) = bindR (intern_name al name (b2 # base)) (\<lambda>(name_off, c). Inr (name_off, q, c))"
        using e(1) True m Some by (simp add: reserve_def)
      consider (ovf) "intern_name al name (b2 # base) = Inl Signed_Overflow" "base \<noteq> []"
        | (ret) off b3 base' where "intern_name al name (b2 # base) = Inr (off, b3 # base')" "bchain_ok (b3 # base')" "strs_grow b2 b3"
            "map to_btf base' = map to_btf base"
            "off = - ENOMEM \<or> 0 \<le> off \<and> off \<le> INT_MAX \<and> named (map to_btf (b3 # base')) name (nat off)"
        using intern_name_ok [OF c2 _ n, of st al] am st by metis
      then show ?thesis
      proof cases
        case ovf
        then show ?thesis using run by simp
      next
        case (ret off b3 base')
        have x3: "extends b b3" by (rule extends_trans [OF x2 strs_grow_extends [OF ret(3)]])
        have g: "bb_offs b3 = bb_offs b" "bb_types b3 = bb_types b2" "hd_type_len (bb_hdr b3) = hd_type_len (bb_hdr b2)"
          using ret(3) o2 by (auto simp: strs_grow_def)
        have "bb_bytes b3 = bb_bytes b" using o2(2) g by (simp add: bb_bytes_def)
        moreover have "reserve al sz name (b # base) = Inr (off, q, b3 # base')" using run ret(1) by simp
        ultimately show ?thesis using ret(2,4,5) x3 g q by (metis (no_types, lifting))
      qed
    qed
  qed
qed

lemma new_type_ok:
  assumes c: "bchain_ok (b # base)" and n: "\<forall>s. name = Some s \<longrightarrow> 0 \<notin> set s"
    and mk: "\<And>off. words_ok (mk off)" "\<And>off. 4 * length (mk off) = sz"
  shows "new_type al sz name mk (b # base) = Inl Signed_Overflow \<and> base \<noteq> [] \<or>
    (\<exists>ret c'. new_type al sz name mk (b # base) = Inr (ret, c') \<and> appended (b # base) name mk ret c')"
proof -
  consider (ovf) "reserve al sz name (b # base) = Inl Signed_Overflow" "base \<noteq> []"
    | (ret) off p b3 base' where "reserve al sz name (b # base) = Inr (off, p, b3 # base')" "bchain_ok (b3 # base')" "extends b b3"
        "bb_offs b3 = bb_offs b" "map to_btf base' = map to_btf base"
        "off = - ENOMEM \<or> 0 \<le> off \<and> off \<le> INT_MAX \<and> named (map to_btf (b3 # base')) name (nat off) \<and>
           p = unat (hd_type_len (bb_hdr b3)) \<and> p + sz \<le> ma_cap (bb_types b3)"
    using reserve_ok [OF c n, of al sz] by metis
  then show ?thesis
  proof cases
    case ovf
    then show ?thesis by (simp add: new_type_def)
  next
    case (ret off p b3 base')
    show ?thesis
    proof (cases "off < 0")
      case True
      then have "new_type al sz name mk (b # base) = Inr (- ENOMEM, b3 # base')" using ret(1,6) by (simp add: new_type_def)
      then show ?thesis using appended_same [OF c ret(2,3,4,5)] by blast
    next
      case False
      let ?ws = "mk (of_int off)"
      have off: "0 \<le> off" "off \<le> INT_MAX" "named (map to_btf (b3 # base')) name (nat off)" "p = unat (hd_type_len (bb_hdr b3))"
        "p + sz \<le> ma_cap (bb_types b3)" using ret(6) False by (auto simp: ENOMEM_def)
      obtain r b4 where cm: "btf_commit_type (ba_idx (al (length base'))) sz (put_words p ?ws b3) = (r, b4)" by fastforce
      have run: "new_type al sz name mk (b # base) = Inr (r, b4 # base')" using ret(1) False cm by (simp add: new_type_def)
      have room: "unat (hd_type_len (bb_hdr b3)) + 4 * length ?ws \<le> ma_cap (bb_types b3)" using off(4,5) mk(2) by simp
      have "btf_commit_type (ba_idx (al (length base'))) (4 * length ?ws) (put_words (unat (hd_type_len (bb_hdr b3))) ?ws b3) = (r, b4)"
        using cm off(4) mk(2) by simp
      then have "appended (b # base) name mk r (b4 # base')"
        using off by (intro commit_ok [where mk = mk and off = off, OF c ret(2,3,4,5) mk(1) room])
      then show ?thesis using run by blast
    qed
  qed
qed

end
