(* ===== verification/Btf_Add.thy ===== *)
theory Btf_Add
  imports Btf_Build
begin

text \<open>
  What the functions of \<open>libbpf/src/btf.c\<close> that append types and members promise their callers: the
  arguments they refuse, the type a reader finds afterwards under the returned id, and that every
  type and string known before keeps its id and its offset.
\<close>

section \<open>The fields of \<open>info\<close>\<close>

lemma info_fields:
  assumes "kind < 32" "vlen < 65536"
  shows "unat (drop_bit 24 (btf_type_info kind vlen kflag) AND 0x1F) = kind" "unat (btf_type_info kind vlen kflag AND 0xFFFF) = vlen"
    "bit (btf_type_info kind vlen kflag) 31 \<longleftrightarrow> kflag"
proof -
  have m: "(0x1F :: u32) = mask 5" "(0xFFFF :: u32) = mask 16" by (simp_all add: mask_eq_exp_minus_1)
  have kb: "n < 5" if "bit kind n" for n
    using assms(1) that bit_take_bit_iff [of 5 kind n] by (simp add: take_bit_nat_eq_self)
  have vb: "n < 16" if "bit vlen n" for n
    using assms(2) that bit_take_bit_iff [of 16 vlen n] by (simp add: take_bit_nat_eq_self)
  have k: "unat (of_nat kind :: u32) = kind" and v: "unat (of_nat vlen :: u32) = vlen"
    using assms by (simp_all add: unsigned_of_nat take_bit_nat_eq_self)
  have "drop_bit 24 (btf_type_info kind vlen kflag) AND 0x1F = of_nat kind"
    unfolding m by (rule bit_word_eqI) (auto simp: btf_type_info_def bit_simps dest: kb vb)
  then show "unat (drop_bit 24 (btf_type_info kind vlen kflag) AND 0x1F) = kind" using k by simp
  have "btf_type_info kind vlen kflag AND 0xFFFF = of_nat vlen"
    unfolding m by (rule bit_word_eqI) (auto simp: btf_type_info_def bit_simps dest: kb vb)
  then show "unat (btf_type_info kind vlen kflag AND 0xFFFF) = vlen" using v by simp
  show "bit (btf_type_info kind vlen kflag) 31 \<longleftrightarrow> kflag"
    by (auto simp: btf_type_info_def bit_simps dest: kb vb)
qed

lemma type_info_fields:
  assumes "bt_info t = btf_type_info kind vlen kflag" "kind < 32" "vlen < 65536"
  shows "btf_kind t = kind" "btf_vlen t = vlen" "btf_kflag t = kflag"
  using assms info_fields by (simp_all add: btf_kind_def btf_vlen_def btf_kflag_def)

section \<open>The last type\<close>

lemma words_bytes_append [simp]: "words_bytes (xs @ ys) = words_bytes xs @ words_bytes ys"
  by (simp add: words_bytes_def)

lemma words_of_bytes:
  assumes "length d = 4 * n"
  shows "\<exists>ws. d = words_bytes ws \<and> length ws = n"
  using assms
proof (induction n arbitrary: d)
  case 0
  then show ?case by (simp add: words_bytes_def)
next
  case (Suc n)
  obtain ws where ws: "drop 4 d = words_bytes ws" "length ws = n" using Suc.IH [of "drop 4 d"] Suc.prems by auto
  have "to_le 4 (from_le (take 4 d) :: u32) = take 4 d" using to_le_from_le [of "take 4 d", where 'a = 32] Suc.prems by simp
  then have "d = words_bytes (from_le (take 4 d) # ws)" using ws(1) by (simp add: words_bytes_def) (metis append_take_drop_id)
  then show ?case using ws(2) by (intro exI [of _ "from_le (take 4 d) # ws"]) simp
qed

lemma type_size_min: "0 \<le> btf_type_size t \<Longrightarrow> 12 \<le> btf_type_size t"
  by (auto simp: btf_type_size_def Let_def EINVAL_def split: if_splits)

lemma tiles_end: "tiles n d off os \<Longrightarrow> off \<le> n"
proof (induction os arbitrary: off)
  case (Cons o1 os)
  then have "off + nat (btf_type_size (base_at d off)) \<le> n" by simp
  then show ?case by simp
qed simp

lemma tiles_snoc:
  assumes "tiles n d off (os @ [k])"
  shows "tiles k d off os \<and> type_fits n k d \<and> k + nat (btf_type_size (base_at d k)) = n"
  using assms
proof (induction os arbitrary: off)
  case Nil
  then show ?case by simp
next
  case (Cons o1 os)
  have ih: "tiles k d (off + nat (btf_type_size (base_at d off))) os" "type_fits n k d" "k + nat (btf_type_size (base_at d k)) = n"
    using Cons by auto
  have "0 \<le> btf_type_size (base_at d off)" "o1 = off" using Cons.prems by (auto simp: type_fits_def)
  then show ?case using ih tiles_end [OF ih(1)] type_size_min [of "base_at d off"] by (auto simp: type_fits_def)
qed

lemma tiles_agree:
  assumes "tiles n d off os" "take n d' = take n d"
  shows "tiles n d' off os"
  using assms
proof (induction os arbitrary: off)
  case (Cons o1 os)
  have f: "type_fits n off d" using Cons.prems(1) by simp
  have "base_at d' off = base_at d off" using f by (intro base_at_agree take_agree [OF Cons.prems(2)]) (simp add: type_fits_def)
  then show ?case using Cons type_at_agree(2) [OF f Cons.prems(2)] by simp
qed simp

lemma last_type_words:
  assumes ok: "bb_ok has_base b" and ne: "bb_offs b \<noteq> []"
  obtains d ws where "bb_bytes b = d @ words_bytes ws" "words_ok ws" "last (bb_offs b) = length d"
    "tiles (length d) d 0 (butlast (bb_offs b))" "btf_last_type b = (type_of_words ws)\<lparr>bt_words := []\<rparr>"
    "type_at (bb_bytes b) (length d) = type_of_words ws"
proof -
  let ?k = "last (bb_offs b)" and ?n = "length (bb_bytes b)"
  have "tiles ?n (bb_bytes b) 0 (butlast (bb_offs b) @ [?k])" using ok ne by (auto simp: bb_ok_def btf_wf_def to_btf_def)
  then have t: "tiles ?k (bb_bytes b) 0 (butlast (bb_offs b))" "type_fits ?n ?k (bb_bytes b)"
    "?k + nat (btf_type_size (base_at (bb_bytes b) ?k)) = ?n" using tiles_snoc by blast+
  let ?t = "base_at (bb_bytes b) ?k"
  have sz: "12 \<le> btf_type_size ?t" using t(2) type_size_min [of ?t] by (auto simp: type_fits_def)
  have k: "?k \<le> ?n" using t(3) by simp
  then have ld: "length (take ?k (bb_bytes b)) = ?k" by simp
  have rw: "btf_type_size ?t = 12 + 4 * int (rest_words ?t)" using rest_words_size [of ?t] sz by simp
  then have "length (drop ?k (bb_bytes b)) = 4 * (3 + rest_words ?t)" using t(3) by simp
  then obtain ws where ws: "drop ?k (bb_bytes b) = words_bytes ws" "length ws = 3 + rest_words ?t"
    using words_of_bytes by blast
  have len: "3 \<le> length ws" "btf_type_size ?t = 4 * int (length ws)" using ws(2) rw by simp_all
  have bytes: "bb_bytes b = take ?k (bb_bytes b) @ words_bytes ws" by (simp flip: ws(1))
  have base: "?t = (type_of_words ws)\<lparr>bt_words := []\<rparr>"
    using base_at_words [OF len(1), of "take ?k (bb_bytes b)" "[]"] bytes ld by simp
  then have wok: "words_ok ws" using len type_size_cong [of ?t "type_of_words ws"] by (simp add: words_ok_def)
  have "btf_last_type b = ?t" unfolding btf_last_type_def
    using t(2) by (intro base_at_agree) (simp add: bb_bytes_def type_fits_def)
  moreover have "tiles ?k (take ?k (bb_bytes b)) 0 (butlast (bb_offs b))" by (rule tiles_agree [OF t(1)]) simp
  ultimately show thesis using that [OF bytes wok] ld base type_at_words [OF wok, of "take ?k (bb_bytes b)" "[]"] bytes by simp
qed

text \<open>Another last type in place of the one there.\<close>

lemma replace_last:
  assumes ok: "bb_ok has_base b" and ne: "bb_offs b \<noteq> []" and last: "last (bb_offs b) = length d"
    and t: "tiles (length d) d 0 (butlast (bb_offs b))" and ws: "words_ok ws"
    and bytes: "bb_bytes b' = d @ words_bytes ws" and len: "unat (hd_type_len (bb_hdr b')) = length d + 4 * length ws"
    and area: "area_ok 1 (bb_types b')" "unat (hd_type_len (bb_hdr b')) \<le> ma_cap (bb_types b')" "ma_cap (bb_types b') \<le> UINT32_MAX"
    and same: "bb_offs b' = bb_offs b" "bb_strs b' = bb_strs b" "hd_str_len (bb_hdr b') = hd_str_len (bb_hdr b)"
  shows "bb_ok has_base b'"
proof -
  have w: "btf_type_size (type_of_words ws) = 4 * int (length ws)" "3 \<le> length ws" using ws by (auto simp: words_ok_def)
  have "base_at (bb_bytes b') (length d) = (type_of_words ws)\<lparr>bt_words := []\<rparr>"
    using base_at_words [OF w(2), of d "[]"] bytes by simp
  then have sz: "btf_type_size (base_at (bb_bytes b') (length d)) = 4 * int (length ws)"
    using w(1) type_size_cong [of "(type_of_words ws)\<lparr>bt_words := []\<rparr>" "type_of_words ws"] by simp
  have "tiles (length d + 4 * length ws) (bb_bytes b') 0 (butlast (bb_offs b) @ [length d])"
    by (rule tiles_append [OF t]) (use bytes sz w(2) in \<open>auto simp: type_fits_def\<close>)
  moreover have "butlast (bb_offs b) @ [length d] = bb_offs b'" using ne last same(1) by (metis append_butlast_last_id)
  moreover have "bb_str_bytes b' = bb_str_bytes b" using same(2) by (simp add: bb_str_bytes_def)
  ultimately have "btf_wf has_base (to_btf b')"
    using ok bytes len same(3) by (simp add: bb_ok_def btf_wf_def to_btf_def)
  then show ?thesis using ok area same(2) by (simp add: bb_ok_def)
qed

text \<open>The lookups after that: the last id gives the new type, the others give what they gave.\<close>

lemma replaced_lookup:
  assumes ok: "bb_ok has_base b" and ne: "bb_offs b \<noteq> []" and last: "last (bb_offs b) = length d"
    and t: "tiles (length d) d 0 (butlast (bb_offs b))" and ws: "words_ok ws"
    and bytes: "bb_bytes b = d @ r" "bb_bytes b' = d @ words_bytes ws"
    and same: "bb_offs b' = bb_offs b" "bb_start_id b' = bb_start_id b" and pos: "0 < bb_start_id b"
  shows "btf_type_by_id (to_btf b' # base) (bb_start_id b + length (bb_offs b) - 1) = Inr (type_of_words ws)"
    and "i < bb_start_id b + length (bb_offs b) - 1 \<Longrightarrow> btf_type_by_id (to_btf b' # base) i = btf_type_by_id (to_btf b # base) i"
proof -
  have ty: "type_at (bb_bytes b') (length d) = type_of_words ws" using type_at_words [OF ws, of d "[]"] bytes(2) by simp
  obtain m where m: "length (bb_offs b) = Suc m" using ne by (cases "bb_offs b") auto
  show "btf_type_by_id (to_btf b' # base) (bb_start_id b + length (bb_offs b) - 1) = Inr (type_of_words ws)"
    using ty last ne m pos same by (simp add: to_btf_def bf_nr_types_def last_conv_nth)
  show "btf_type_by_id (to_btf b' # base) i = btf_type_by_id (to_btf b # base) i" if i: "i < bb_start_id b + length (bb_offs b) - 1"
  proof (cases "i < bb_start_id b")
    case True
    then show ?thesis using same by (simp add: to_btf_def bf_nr_types_def)
  next
    case False
    let ?k = "i - bb_start_id b"
    have k: "?k < length (butlast (bb_offs b))" using i False by simp
    have "type_fits (length d) (butlast (bb_offs b) ! ?k) d" by (rule tiles_nth [OF t k])
    then have "type_at (bb_bytes b') (bb_offs b ! ?k) = type_at d (bb_offs b ! ?k)" "type_at (bb_bytes b) (bb_offs b ! ?k) = type_at d (bb_offs b ! ?k)"
      using k bytes by (auto simp: nth_butlast intro!: type_at_agree(1))
    then show ?thesis using same False by (simp add: to_btf_def bf_nr_types_def)
  qed
qed

lemma last_type_lookup:
  assumes c: "bchain_ok (b # base)" and ne: "bb_offs b \<noteq> []"
  shows "\<exists>t. btf_type_by_id (map to_btf (b # base)) (btf__type_cnt (map to_btf (b # base)) - 1) = Inr t \<and>
    btf_last_type b = t\<lparr>bt_words := []\<rparr>"
proof -
  have ok: "bb_ok (base \<noteq> []) b" using c by simp
  obtain d ws where l: "bb_bytes b = d @ words_bytes ws" "words_ok ws" "last (bb_offs b) = length d"
    "tiles (length d) d 0 (butlast (bb_offs b))" "btf_last_type b = (type_of_words ws)\<lparr>bt_words := []\<rparr>"
    by (rule last_type_words [OF ok ne])
  show ?thesis
    using replaced_lookup(1) [OF ok ne l(3,4,2,1,1) refl refl bchain_start_id [OF c], of "map to_btf base"] l(5) by (simp add: cnt_to_btf)
qed

lemma set_info_bytes:
  assumes ok: "bb_ok has_base b" and bytes: "bb_bytes b = d @ words_bytes ws" and ws: "3 \<le> length ws"
  shows "bb_bytes (set_info_at (length d) info b) = d @ words_bytes (ws[1 := info])"
    and "ma_data (bb_types (set_info_at (length d) info b)) =
      d @ words_bytes (ws[1 := info]) @ drop (unat (hd_type_len (bb_hdr b))) (ma_data (bb_types b))"
    and "unat (hd_type_len (bb_hdr b)) = length d + 4 * length ws"
proof -
  let ?n = "unat (hd_type_len (bb_hdr b))"
  obtain w0 w1 r where w: "ws = w0 # w1 # r" using ws by (metis Suc_le_length_iff numeral_3_eq_3)
  have len: "length (ma_data (bb_types b)) = ma_cap (bb_types b)" "?n \<le> ma_cap (bb_types b)" using ok by (auto simp: bb_ok_def area_ok_def)
  have data: "ma_data (bb_types b) = d @ words_bytes ws @ drop ?n (ma_data (bb_types b))"
    using bytes by (metis append_assoc append_take_drop_id bb_bytes_def)
  show n: "?n = length d + 4 * length ws"
    using len arg_cong [OF bytes, of length] by (simp add: bb_bytes_def min_def split: if_splits)
  show new: "ma_data (bb_types (set_info_at (length d) info b)) = d @ words_bytes (ws[1 := info]) @ drop ?n (ma_data (bb_types b))"
    by (simp add: set_info_at_def area_write_def, subst (1 2) data) (simp add: w words_bytes_def)
  show "bb_bytes (set_info_at (length d) info b) = d @ words_bytes (ws[1 := info])"
    unfolding bb_bytes_def new by (simp add: set_info_at_def n)
qed

lemma set_info_fields [simp]:
  "bb_offs (set_info_at off info b) = bb_offs b" "bb_strs (set_info_at off info b) = bb_strs b"
  "bb_hdr (set_info_at off info b) = bb_hdr b" "bb_start_id (set_info_at off info b) = bb_start_id b"
  "bb_start_str_off (set_info_at off info b) = bb_start_str_off b" "ma_cap (bb_types (set_info_at off info b)) = ma_cap (bb_types b)"
  "bb_str_bytes (set_info_at off info b) = bb_str_bytes b"
  by (simp_all add: set_info_at_def area_write_def bb_str_bytes_def)

lemma keeps_strs:
  assumes "bb_ok has_base b" "bb_ok has_base' b'" "bb_start_str_off b' = bb_start_str_off b" "bb_str_bytes b' = bb_str_bytes b"
  shows "btf__str_by_offset (to_btf b' # base) off = btf__str_by_offset (to_btf b # base) off"
proof -
  have "unat (hd_str_len (bb_hdr b')) = unat (hd_str_len (bb_hdr b))"
    using assms wf_strs(3) [of has_base b] wf_strs(3) [of has_base' b'] by (simp add: bb_ok_def)
  then have "hd_str_len (bb_hdr b') = hd_str_len (bb_hdr b)" by (simp add: word_unat_eq_iff)
  then show ?thesis using assms(3,4) by (simp add: btf__str_by_offset.simps to_btf_def Let_def)
qed

lemma set_info_ok:
  assumes c: "bchain_ok (b # base)" and ne: "bb_offs b \<noteq> []"
    and info: "btf_type_size ((btf_last_type b)\<lparr>bt_info := info\<rparr>) = btf_type_size (btf_last_type b)"
  defines "b' \<equiv> set_info_at (last (bb_offs b)) info b" and "n \<equiv> btf__type_cnt (map to_btf (b # base)) - 1"
  obtains t where "bchain_ok (b' # base)" "btf_type_by_id (map to_btf (b # base)) n = Inr t"
    "btf_type_by_id (map to_btf (b' # base)) n = Inr (t\<lparr>bt_info := info\<rparr>)"
    "\<And>i. i < n \<Longrightarrow> btf_type_by_id (map to_btf (b' # base)) i = btf_type_by_id (map to_btf (b # base)) i"
    "\<And>off. btf__str_by_offset (map to_btf (b' # base)) off = btf__str_by_offset (map to_btf (b # base)) off"
proof -
  have ok: "bb_ok (base \<noteq> []) b" using c by simp
  obtain d ws where l: "bb_bytes b = d @ words_bytes ws" "words_ok ws" "last (bb_offs b) = length d"
    "tiles (length d) d 0 (butlast (bb_offs b))" "btf_last_type b = (type_of_words ws)\<lparr>bt_words := []\<rparr>"
    by (rule last_type_words [OF ok ne])
  have w3: "3 \<le> length ws" using l(2) by (simp add: words_ok_def)
  have tw: "type_of_words (ws[1 := info]) = (type_of_words ws)\<lparr>bt_info := info\<rparr>" using w3 by (auto simp: type_of_words_def)
  have "btf_type_size (type_of_words (ws[1 := info])) = btf_type_size (type_of_words ws)"
    using info type_size_cong [of "(type_of_words ws)\<lparr>bt_info := info\<rparr>" "(btf_last_type b)\<lparr>bt_info := info\<rparr>"]
      type_size_cong [of "type_of_words ws" "btf_last_type b"] unfolding tw by (simp add: l(5))
  then have wok: "words_ok (ws[1 := info])" using l(2) by (simp add: words_ok_def)
  note sb = set_info_bytes [OF ok l(1) w3]
  have b': "b' = set_info_at (length d) info b" by (simp add: b'_def l(3))
  have len: "ma_cap (bb_types b) = length (ma_data (bb_types b))" "unat (hd_type_len (bb_hdr b)) \<le> ma_cap (bb_types b)" "ma_cap (bb_types b) \<le> UINT32_MAX"
    using ok by (auto simp: bb_ok_def area_ok_def)
  have ok': "bb_ok (base \<noteq> []) b'"
    by (rule replace_last [OF ok ne l(3,4) wok]) (use sb len in \<open>simp_all add: b' area_ok_def\<close>)
  note lk = replaced_lookup [OF ok ne l(3,4) l(2) l(1,1) refl refl bchain_start_id [OF c]]
    replaced_lookup [OF ok ne l(3,4) wok l(1) _ _ _ bchain_start_id [OF c], of b']
  have n: "n = bb_start_id b + length (bb_offs b) - 1" by (simp add: n_def cnt_to_btf)
  show thesis
    by (rule that [of "type_of_words ws"])
      (use bchain_head [OF c ok'] lk sb(1) n tw keeps_strs [OF ok ok'] in \<open>simp_all add: b' del: bchain_ok.simps\<close>)
qed

section \<open>When memory suffices\<close>

text \<open>
  A modifiable instance without base and with memory for \<open>sz\<close> bytes of types, a name and an index entry:
  no allocation fails and no limit of a section is reached.
\<close>

definition roomy :: "build_allocs \<Rightarrow> nat \<Rightarrow> u8 list option \<Rightarrow> bbtf \<Rightarrow> bool" where
  "roomy a sz name b \<longleftrightarrow> ba_type_mem a \<and> ba_idx a \<and> unat (hd_type_len (bb_hdr b)) + sz \<le> UINT32_MAX \<and>
     length (bb_offs b) < BTF_MAX_NR_TYPES \<and>
     (case bb_strs b of Raw _ \<Rightarrow> False
      | Interned st \<Rightarrow> str_room (ba_str_mem a) (ba_str_hash a) (case name of None \<Rightarrow> [] | Some s \<Rightarrow> s) st)"

lemma add_type_mem_room:
  assumes "btf_add_type_mem True sz b = (p, b1)" "unat (hd_type_len (bb_hdr b)) + sz \<le> UINT32_MAX"
  shows "p \<noteq> None"
  using assms by (auto simp: btf_add_type_mem_def libbpf_add_mem_def Let_def split: if_splits prod.splits)

lemma intern_room:
  assumes ok: "bb_ok False b" and st: "bb_strs b = Interned st" and n: "\<forall>s. name = Some s \<longrightarrow> 0 \<notin> set s"
    and room: "str_room (ba_str_mem (al 0)) (ba_str_hash (al 0)) (case name of None \<Rightarrow> [] | Some s \<Rightarrow> s) st"
    and run: "intern_name al name [b] = Inr (ret, c')"
  shows "ret \<noteq> - ENOMEM"
proof (cases "has_name name")
  case True
  then obtain s where s: "name = Some s" "s \<noteq> []" by (auto simp: has_name_def)
  have sok: "set_ok st" using ok st by (simp add: bb_ok_def)
  obtain off st' where a: "strset__add_str (ba_str_mem (al 0)) (ba_str_hash (al 0)) s st = Inr (off, st')"
    "off = - ENOMEM \<or> 0 \<le> off" using set_add [OF sok, of s] n s(1) by blast
  have inv: "strset_inv st" using sok by (simp add: set_ok_def)
  have "off \<noteq> - ENOMEM" using a(1) add_str_nomem [OF inv, of s] n room s(1) by fastforce
  then have "0 \<le> off" using a(2) by blast
  then show ?thesis using run s st a(1)
    by (auto simp: intern_name_def btf__add_str_def btf_ensure_modifiable_def btf_invalidate_raw_data_def interned_def Let_def
      global_str_off_def ENOMEM_def split: if_splits)
next
  case False
  then show ?thesis using run by (auto simp: intern_name_def has_name_def ENOMEM_def split: option.splits)
qed

lemma sint_count: "n \<le> nat INT_MAX \<Longrightarrow> sint (of_nat n :: u32) = int n"
  by (simp add: sint_uint unsigned_of_nat take_bit_nat_eq_self signed_take_bit_int_eq_self INT_MAX_def)

lemma reserve_room:
  assumes c: "bchain_ok [b]" and n: "\<forall>s. name = Some s \<longrightarrow> 0 \<notin> set s" and room: "roomy (al 0) sz name b"
    and run: "reserve al sz name [b] = Inr (off, p, c')"
  shows "0 \<le> off \<and> length c' = 1 \<and> bb_offs (hd c') = bb_offs b"
proof -
  obtain st where st: "bb_strs b = Interned st" "str_room (ba_str_mem (al 0)) (ba_str_hash (al 0)) (case name of None \<Rightarrow> [] | Some s \<Rightarrow> s) st"
    using room by (auto simp: roomy_def split: strs_sec.splits)
  have "to_btf (btf_invalidate_raw_data b) = to_btf b" by (simp add: btf_invalidate_raw_data_def to_btf_def bb_bytes_def bb_str_bytes_def)
  then have ok: "bb_ok False (btf_invalidate_raw_data b)" using c by (simp add: bb_ok_def) (simp add: btf_invalidate_raw_data_def)
  obtain q b2 where m: "btf_add_type_mem True sz (btf_invalidate_raw_data b) = (q, b2)" by fastforce
  have q: "q \<noteq> None" using add_type_mem_room [OF m] room by (simp add: roomy_def btf_invalidate_raw_data_def)
  have b2: "bb_ok False b2" "bb_strs b2 = Interned st" using add_type_mem_ok [OF ok m] st(1) by (simp_all add: btf_invalidate_raw_data_def)
  have "intern_name al name [b2] = Inr (off, c')"
    using run st(1) room m q by (auto simp: reserve_def btf_ensure_modifiable_def roomy_def)
  then have "off \<noteq> - ENOMEM" by (rule intern_room [where al = al, OF b2 n st(2)])
  then show ?thesis using reserve_ok [OF c n, of al sz] run by auto
qed

lemma new_type_room:
  assumes c: "bchain_ok [b]" and n: "\<forall>s. name = Some s \<longrightarrow> 0 \<notin> set s" and room: "roomy (al 0) sz name b"
    and run: "new_type al sz name mk [b] = Inr (ret, c')" and cnt: "btf__type_cnt [to_btf b] \<le> nat INT_MAX"
  shows "0 \<le> ret"
proof -
  obtain off p c1 where r: "reserve al sz name [b] = Inr (off, p, c1)" using run by (auto simp: new_type_def)
  note o = reserve_room [where al = al, OF c n room r]
  then obtain b1 where b1: "c1 = [b1]" by (auto simp: length_Suc_conv)
  have id: "bb_start_id b1 = bb_start_id b" using reserve_ok [OF c n, of al sz] r b1 by (auto simp: extends_def)
  let ?b = "put_words p (mk (of_int off)) b1"
  obtain r1 b2 where cm: "btf_commit_type True sz ?b = (r1, b2)" by fastforce
  have "r1 = sint (of_nat (bb_start_id b1 + length (bb_offs b1)) :: u32)"
    using cm o room b1 by (auto simp: btf_commit_type_def btf_add_type_idx_entry_def btf_add_type_offs_mem_def put_words_def grow_types_def
        Let_def roomy_def split: if_splits prod.splits)
  moreover have "ret = r1" using run r o b1 room cm by (simp add: new_type_def roomy_def)
  ultimately show ?thesis using cnt o b1 id sint_count [of "bb_start_id b + length (bb_offs b)"] by (simp add: cnt_to_btf)
qed

lemma add_to_last_room:
  assumes c: "bchain_ok [b]" and n: "\<forall>s. name = Some s \<longrightarrow> 0 \<notin> set s" and room: "roomy (al 0) sz name b"
    and run: "add_to_last al sz name mk upd [b] = Inr (ret, c')"
  shows "ret = 0"
proof -
  obtain off p c1 where r: "reserve al sz name [b] = Inr (off, p, c1)" using run by (auto simp: add_to_last_def)
  show ?thesis using run r reserve_room [where al = al, OF c n room r] by (auto simp: add_to_last_def Let_def)
qed

section \<open>Requests to append a type\<close>

text \<open>The functions that append a type, as requests, with what each of them accepts and what it stores.\<close>

datatype add_req =
    Add_Int "u8 list option" u64 int
  | Add_Float "u8 list option" u64
  | Add_Ptr int
  | Add_Array int int u32
  | Add_Struct "u8 list option" u32
  | Add_Union "u8 list option" u32
  | Add_Enum "u8 list option" u32
  | Add_Enum64 "u8 list option" u32 bool
  | Add_Fwd "u8 list option" btf_fwd_kind
  | Add_Typedef "u8 list option" int
  | Add_Volatile int
  | Add_Const int
  | Add_Restrict int
  | Add_Type_Tag "u8 list option" int
  | Add_Func "u8 list option" nat int
  | Add_Func_Proto int
  | Add_Var "u8 list option" int int
  | Add_Datasec "u8 list option" u32
  | Add_Decl_Tag "u8 list option" int int

fun run_add :: "(nat \<Rightarrow> build_allocs) \<Rightarrow> add_req \<Rightarrow> bchain \<Rightarrow> fault + (int \<times> bchain)" where
  "run_add al (Add_Int name byte_sz encoding) c = btf__add_int al name byte_sz encoding c"
| "run_add al (Add_Float name byte_sz) c = btf__add_float al name byte_sz c"
| "run_add al (Add_Ptr t) c = btf__add_ptr al t c"
| "run_add al (Add_Array index elem nr) c = btf__add_array al index elem nr c"
| "run_add al (Add_Struct name byte_sz) c = btf__add_struct al name byte_sz c"
| "run_add al (Add_Union name byte_sz) c = btf__add_union al name byte_sz c"
| "run_add al (Add_Enum name byte_sz) c = btf__add_enum al name byte_sz c"
| "run_add al (Add_Enum64 name byte_sz is_signed) c = btf__add_enum64 al name byte_sz is_signed c"
| "run_add al (Add_Fwd name fwd_kind) c = btf__add_fwd al name fwd_kind c"
| "run_add al (Add_Typedef name t) c = btf__add_typedef al name t c"
| "run_add al (Add_Volatile t) c = btf__add_volatile al t c"
| "run_add al (Add_Const t) c = btf__add_const al t c"
| "run_add al (Add_Restrict t) c = btf__add_restrict al t c"
| "run_add al (Add_Type_Tag value t) c = btf__add_type_tag al value t c"
| "run_add al (Add_Func name linkage t) c = btf__add_func al name linkage t c"
| "run_add al (Add_Func_Proto t) c = btf__add_func_proto al t c"
| "run_add al (Add_Var name linkage t) c = btf__add_var al name linkage t c"
| "run_add al (Add_Datasec name byte_sz) c = btf__add_datasec al name byte_sz c"
| "run_add al (Add_Decl_Tag value t component_idx) c = btf__add_decl_tag al value t component_idx c"

fun req_name :: "add_req \<Rightarrow> u8 list option" where
  "req_name (Add_Int name _ _) = name"
| "req_name (Add_Float name _) = name"
| "req_name (Add_Struct name _) = name"
| "req_name (Add_Union name _) = name"
| "req_name (Add_Enum name _) = name"
| "req_name (Add_Enum64 name _ _) = name"
| "req_name (Add_Fwd name _) = name"
| "req_name (Add_Typedef name _) = name"
| "req_name (Add_Type_Tag value _) = value"
| "req_name (Add_Func name _ _) = name"
| "req_name (Add_Var name _ _) = name"
| "req_name (Add_Datasec name _) = name"
| "req_name (Add_Decl_Tag value _ _) = value"
| "req_name _ = None"

text \<open>Type ids must be in the range of ids; a forward reference is allowed.\<close>

definition id_ok :: "int \<Rightarrow> bool" where
  "id_ok t \<longleftrightarrow> 0 \<le> t \<and> t \<le> int BTF_MAX_NR_TYPES"

fun req_valid :: "add_req \<Rightarrow> bool" where
  "req_valid (Add_Int name byte_sz encoding) \<longleftrightarrow> has_name name \<and> byte_sz \<in> {1, 2, 4, 8, 16} \<and> encoding \<in> {0..7}"
| "req_valid (Add_Float name byte_sz) \<longleftrightarrow> has_name name \<and> byte_sz \<in> {2, 4, 8, 12, 16}"
| "req_valid (Add_Ptr t) \<longleftrightarrow> id_ok t"
| "req_valid (Add_Array index elem nr) \<longleftrightarrow> id_ok index \<and> id_ok elem"
| "req_valid (Add_Struct name byte_sz) \<longleftrightarrow> True"
| "req_valid (Add_Union name byte_sz) \<longleftrightarrow> True"
| "req_valid (Add_Enum name byte_sz) \<longleftrightarrow> byte_sz \<in> {1, 2, 4, 8}"
| "req_valid (Add_Enum64 name byte_sz is_signed) \<longleftrightarrow> byte_sz \<in> {1, 2, 4, 8}"
| "req_valid (Add_Fwd name fwd_kind) \<longleftrightarrow> has_name name"
| "req_valid (Add_Typedef name t) \<longleftrightarrow> has_name name \<and> id_ok t"
| "req_valid (Add_Volatile t) \<longleftrightarrow> id_ok t"
| "req_valid (Add_Const t) \<longleftrightarrow> id_ok t"
| "req_valid (Add_Restrict t) \<longleftrightarrow> id_ok t"
| "req_valid (Add_Type_Tag value t) \<longleftrightarrow> has_name value \<and> id_ok t"
| "req_valid (Add_Func name linkage t) \<longleftrightarrow> has_name name \<and> linkage \<in> {0, 1, 2} \<and> id_ok t"
| "req_valid (Add_Func_Proto t) \<longleftrightarrow> id_ok t"
| "req_valid (Add_Var name linkage t) \<longleftrightarrow> has_name name \<and> linkage \<in> {0, 1, 2} \<and> id_ok t"
| "req_valid (Add_Datasec name byte_sz) \<longleftrightarrow> has_name name"
| "req_valid (Add_Decl_Tag value t component_idx) \<longleftrightarrow> has_name value \<and> - 1 \<le> component_idx \<and> id_ok t"

text \<open>Kind, length field, flag, third word and the words that follow the fixed part.\<close>

fun req_type :: "add_req \<Rightarrow> nat \<times> nat \<times> bool \<times> u32 \<times> u32 list" where
  "req_type (Add_Int _ byte_sz encoding) =
     (BTF_KIND_INT, 0, False, ucast byte_sz, [push_bit 24 (of_int encoding) OR ucast (byte_sz * 8)])"
| "req_type (Add_Float _ byte_sz) = (BTF_KIND_FLOAT, 0, False, ucast byte_sz, [])"
| "req_type (Add_Ptr t) = (BTF_KIND_PTR, 0, False, of_int t, [])"
| "req_type (Add_Array index elem nr) = (BTF_KIND_ARRAY, 0, False, 0, [of_int elem, of_int index, nr])"
| "req_type (Add_Struct _ byte_sz) = (BTF_KIND_STRUCT, 0, False, byte_sz, [])"
| "req_type (Add_Union _ byte_sz) = (BTF_KIND_UNION, 0, False, byte_sz, [])"
| "req_type (Add_Enum _ byte_sz) = (BTF_KIND_ENUM, 0, False, byte_sz, [])"
| "req_type (Add_Enum64 _ byte_sz is_signed) = (BTF_KIND_ENUM64, 0, is_signed, byte_sz, [])"
| "req_type (Add_Fwd _ BTF_FWD_ENUM) = (BTF_KIND_ENUM, 0, False, 4, [])"
| "req_type (Add_Fwd _ BTF_FWD_STRUCT) = (BTF_KIND_FWD, 0, False, 0, [])"
| "req_type (Add_Fwd _ BTF_FWD_UNION) = (BTF_KIND_FWD, 0, True, 0, [])"
| "req_type (Add_Typedef _ t) = (BTF_KIND_TYPEDEF, 0, False, of_int t, [])"
| "req_type (Add_Volatile t) = (BTF_KIND_VOLATILE, 0, False, of_int t, [])"
| "req_type (Add_Const t) = (BTF_KIND_CONST, 0, False, of_int t, [])"
| "req_type (Add_Restrict t) = (BTF_KIND_RESTRICT, 0, False, of_int t, [])"
| "req_type (Add_Type_Tag _ t) = (BTF_KIND_TYPE_TAG, 0, False, of_int t, [])"
| "req_type (Add_Func _ linkage t) = (BTF_KIND_FUNC, linkage, False, of_int t, [])"
| "req_type (Add_Func_Proto t) = (BTF_KIND_FUNC_PROTO, 0, False, of_int t, [])"
| "req_type (Add_Var _ linkage t) = (BTF_KIND_VAR, 0, False, of_int t, [of_int linkage])"
| "req_type (Add_Datasec _ byte_sz) = (BTF_KIND_DATASEC, 0, False, byte_sz, [])"
| "req_type (Add_Decl_Tag _ t component_idx) = (BTF_KIND_DECL_TAG, 0, False, of_int t, [of_int component_idx])"

definition has_shape :: "nat \<times> nat \<times> bool \<times> u32 \<times> u32 list \<Rightarrow> btf_type \<Rightarrow> bool" where
  "has_shape sh t \<longleftrightarrow> (btf_kind t, btf_vlen t, btf_kflag t, bt_type t, bt_words t) = sh"

text \<open>
  The outcome: without memory nothing a reader sees has changed; otherwise the id is the number of types
  before, and the type and its name are found. Older types and strings are kept in both cases.
\<close>

definition outcome :: "bchain \<Rightarrow> u8 list option \<Rightarrow> nat \<times> nat \<times> bool \<times> u32 \<times> u32 list \<Rightarrow> int \<Rightarrow> bchain \<Rightarrow> bool" where
  "outcome c name sh ret c' \<longleftrightarrow> bchain_ok c' \<and> keeps (map to_btf c) (map to_btf c') \<and> map to_btf (tl c') = map to_btf (tl c) \<and>
     (let n = btf__type_cnt (map to_btf c) in
      ret = - ENOMEM \<and> btf__type_cnt (map to_btf c') = n \<or>
      ret = int n \<and> btf__type_cnt (map to_btf c') = n + 1 \<and>
        (\<exists>t. btf_type_by_id (map to_btf c') n = Inr t \<and> has_shape sh t \<and> named (map to_btf c') name (unat (bt_name_off t))))"

definition add_result :: "bchain \<Rightarrow> u8 list option \<Rightarrow> nat \<times> nat \<times> bool \<times> u32 \<times> u32 list \<Rightarrow> fault + (int \<times> bchain) \<Rightarrow> bool" where
  "add_result c name sh r \<longleftrightarrow> r = Inl Signed_Overflow \<and> tl c \<noteq> [] \<or> (\<exists>ret c'. r = Inr (ret, c') \<and> outcome c name sh ret c')"

section \<open>Proofs\<close>

lemma shape_of_words:
  assumes "kind < 32" "vlen < 65536" "\<And>t. btf_kind t = kind \<Longrightarrow> btf_vlen t = vlen \<Longrightarrow> btf_type_size t = 12 + 4 * int (length ws)"
  shows "words_ok (off # btf_type_info kind vlen kflag # w # ws)"
    and "has_shape (kind, vlen, kflag, w, ws) (type_of_words (off # btf_type_info kind vlen kflag # w # ws))"
proof -
  let ?t = "type_of_words (off # btf_type_info kind vlen kflag # w # ws)"
  have "bt_info ?t = btf_type_info kind vlen kflag" by (simp add: type_of_words_def)
  note f = type_info_fields [OF this assms(1,2)]
  show "words_ok (off # btf_type_info kind vlen kflag # w # ws)" using assms(3) [OF f(1,2)] by (simp add: words_ok_def)
  show "has_shape (kind, vlen, kflag, w, ws) ?t" using f by (simp add: has_shape_def type_of_words_def)
qed

lemma new_type_result:
  assumes c: "bchain_ok c" "c \<noteq> []" and n: "\<forall>s. name = Some s \<longrightarrow> 0 \<notin> set s"
    and cnt: "btf__type_cnt (map to_btf c) \<le> nat INT_MAX"
    and sh: "kind < 32" "vlen < 65536" "\<And>t. btf_kind t = kind \<Longrightarrow> btf_vlen t = vlen \<Longrightarrow> btf_type_size t = 12 + 4 * int (length ws)"
    and nm: "nm = (\<lambda>off. off) \<or> nm = (\<lambda>_. 0) \<and> name = None" and sz: "sz = 12 + 4 * length ws"
  shows "add_result c name (kind, vlen, kflag, w, ws) (new_type al sz name (\<lambda>off. nm off # btf_type_info kind vlen kflag # w # ws) c)"
proof -
  let ?mk = "\<lambda>off. nm off # btf_type_info kind vlen kflag # w # ws"
  obtain b base where bb: "c = b # base" using c(2) by (cases c) auto
  note words = shape_of_words [OF sh]
  have "new_type al sz name ?mk c = Inl Signed_Overflow \<and> base \<noteq> [] \<or>
      (\<exists>ret c'. new_type al sz name ?mk c = Inr (ret, c') \<and> appended c name ?mk ret c')"
    unfolding bb using c(1) bb n words(1) sz by (intro new_type_ok) (simp_all del: bchain_ok.simps)
  moreover have "outcome c name (kind, vlen, kflag, w, ws) ret c'" if "appended c name ?mk ret c'" for ret c'
  proof -
    have "bt_name_off (type_of_words (?mk off)) = off" if "named c name (unat off)" for off c
      using nm that by (auto simp: type_of_words_def named_def has_name_def unat_eq_zero)
    then show ?thesis using that sint_count [OF cnt] words(2) by (auto simp: appended_def outcome_def Let_def)
  qed
  ultimately show ?thesis using bb by (auto simp: add_result_def)
qed

lemma start_id_cong:
  assumes "bchain_ok (b # base)" "bchain_ok (b' # base')" "map to_btf base' = map to_btf base"
  shows "bb_start_id b' = bb_start_id b"
proof (cases base)
  case Nil
  then show ?thesis using assms by simp
next
  case (Cons a r)
  then obtain a' r' where c: "base' = a' # r'" "to_btf a' = to_btf a" using assms(3) by (cases base') auto
  show ?thesis using assms(1,2) Cons c(1) to_btf_fields [OF c(2)] by simp
qed

text \<open>Two functions correct the \<open>info\<close> of the type they have appended.\<close>

lemma corrected_result:
  assumes r: "add_result c name (kind, vlen, kflag, w, ws) r" and c: "bchain_ok c" "c \<noteq> []"
    and k: "kind < 32" "vlen < 65536" "vlen' < 65536"
    and sz: "\<And>t t'. btf_kind t = kind \<Longrightarrow> btf_kind t' = kind \<Longrightarrow> btf_vlen t = vlen \<Longrightarrow> btf_vlen t' = vlen' \<Longrightarrow> btf_type_size t' = btf_type_size t"
  shows "add_result c name (kind, vlen', kflag', w, ws) (bindR r (\<lambda>(tid, c). if tid \<le> 0 then Inr (tid, c)
    else bindR (set_info_by_id tid (btf_type_info kind vlen' kflag') c) (\<lambda>c. Inr (tid, c))))"
proof (cases r)
  case (Inl e)
  then show ?thesis using r by (simp add: add_result_def)
next
  case (Inr x)
  obtain ret c1 where x: "x = (ret, c1)" by fastforce
  have out: "outcome c name (kind, vlen, kflag, w, ws) ret c1" using r Inr x by (simp add: add_result_def)
  show ?thesis
  proof (cases "ret \<le> 0")
    case True
    have "0 < btf__type_cnt (map to_btf c)" using c by (cases c) (use bchain_start_id in \<open>force simp: cnt_to_btf\<close>)+
    then have "outcome c name (kind, vlen', kflag', w, ws) ret c1" using out True by (auto simp: outcome_def Let_def)
    then show ?thesis using Inr x True by (simp add: add_result_def)
  next
    case False
    define n where "n = btf__type_cnt (map to_btf c)"
    obtain t where o: "bchain_ok c1" "keeps (map to_btf c) (map to_btf c1)" "map to_btf (tl c1) = map to_btf (tl c)"
      "ret = int n" "btf__type_cnt (map to_btf c1) = n + 1" "btf_type_by_id (map to_btf c1) n = Inr t"
      "has_shape (kind, vlen, kflag, w, ws) t" "named (map to_btf c1) name (unat (bt_name_off t))"
      using out False by (auto simp: outcome_def Let_def n_def ENOMEM_def)
    obtain b base where bb: "c1 = b # base" using o(5,6) by (cases c1) (auto simp: btf__type_cnt_def)
    obtain b0 base0 where b0: "c = b0 # base0" using c(2) by (cases c) auto
    have start: "bb_start_id b = bb_start_id b0"
      by (rule start_id_cong [of b0 base0 b base]) (use c(1) o(1,3) bb b0 in simp_all)
    have len: "length (bb_offs b) = Suc (length (bb_offs b0))" "n = bb_start_id b + length (bb_offs b0)"
      using o(5) start by (simp_all add: n_def bb b0 cnt_to_btf)
    have ne: "bb_offs b \<noteq> []" using len(1) by auto
    have n1: "n = btf__type_cnt (map to_btf (b # base)) - 1" using o(5) bb by simp
    have last: "btf_last_type b = t\<lparr>bt_words := []\<rparr>" using last_type_lookup [of b base] o(1,6) bb ne n1 by auto
    let ?info = "btf_type_info kind vlen' kflag'"
    have f: "btf_kind (u\<lparr>bt_info := ?info\<rparr>) = kind" "btf_vlen (u\<lparr>bt_info := ?info\<rparr>) = vlen'"
      "btf_kflag (u\<lparr>bt_info := ?info\<rparr>) = kflag'" for u :: btf_type
      using type_info_fields [of "u\<lparr>bt_info := ?info\<rparr>", OF _ k(1,3)] by auto
    have kt: "btf_kind (btf_last_type b) = kind" "btf_vlen (btf_last_type b) = vlen"
      using o(7) by (simp_all add: last has_shape_def btf_kind_def btf_vlen_def)
    define c2 where "c2 = set_info_at (last (bb_offs b)) ?info b # base"
    obtain t1 where s: "bchain_ok c2" "btf_type_by_id (map to_btf c1) n = Inr t1"
      "btf_type_by_id (map to_btf c2) n = Inr (t1\<lparr>bt_info := ?info\<rparr>)"
      "\<And>i. i < n \<Longrightarrow> btf_type_by_id (map to_btf c2) i = btf_type_by_id (map to_btf c1) i"
      "\<And>off. btf__str_by_offset (map to_btf c2) off = btf__str_by_offset (map to_btf c1) off"
      using set_info_ok [of b base ?info] o(1) bb ne sz [OF kt(1) f(1) kt(2) f(2)] n1 c2_def by metis
    have cnt: "btf__type_cnt (map to_btf c2) = n + 1" "map to_btf (tl c2) = map to_btf (tl c)"
      using o(3,5) by (simp_all add: c2_def bb cnt_to_btf)
    have "t1 = t" using s(2) o(6) by simp
    then have "has_shape (kind, vlen', kflag', w, ws) (t1\<lparr>bt_info := ?info\<rparr>)" "named (map to_btf c2) name (unat (bt_name_off t1))"
      using o(7,8) f [of t] s(5) by (simp_all add: has_shape_def named_def)
    moreover have "keeps (map to_btf c) (map to_btf c2)" using o(2) s(4,5) by (simp add: keeps_def n_def)
    ultimately have "outcome c name (kind, vlen', kflag', w, ws) ret c2"
      using o(4) s(1,3) cnt by (simp add: outcome_def Let_def n_def)
    moreover have "set_info_by_id ret ?info c1 = Inr c2"
      using len o(4) ne by (simp add: set_info_by_id_def bb c2_def last_conv_nth Let_def nat_add_distrib)
    ultimately show ?thesis using Inr x False by (simp add: add_result_def)
  qed
qed

text \<open>What the checks of the arguments accept.\<close>

lemma validate_id [simp]: "validate_type_id t = 0 \<longleftrightarrow> id_ok t"
  by (auto simp: validate_type_id_def id_ok_def EINVAL_def)

lemma small_cases:
  fixes x :: "'a::len word"
  assumes "x \<le> 16" "4 < LENGTH('a)"
  shows "x \<in> {0, 1, 2, 3, 4, 5, 6, 7, 8, 9, 10, 11, 12, 13, 14, 15, 16}"
proof -
  have "(2::nat) ^ 5 \<le> 2 ^ LENGTH('a)" using assms(2) by (intro power_increasing) auto
  then have u: "unat (16 :: 'a word) = 16" by (simp add: unsigned_numeral take_bit_nat_eq_self)
  then have "unat x \<le> 16" using assms(1) by (simp add: word_le_nat_alt)
  then have "unat x \<in> {0, 1, 2, 3, 4, 5, 6, 7, 8, 9, 10, 11, 12, 13, 14, 15, 16}" by simp presburger
  then have "(of_nat (unat x) :: 'a word) \<in> of_nat ` {0, 1, 2, 3, 4, 5, 6, 7, 8, 9, 10, 11, 12, 13, 14, 15, 16}" by (rule imageI)
  then show ?thesis by simp
qed

lemma int_size_ok: "byte_sz = 0 \<or> byte_sz AND (byte_sz - 1) \<noteq> 0 \<or> 16 < byte_sz \<longleftrightarrow> byte_sz \<notin> {1, 2, 4, 8, 16 :: u64}"
proof (cases "byte_sz \<le> 16")
  case True
  then show ?thesis using small_cases [OF True] by auto
next
  case False
  then show ?thesis by auto
qed

lemma enum_size_ok: "byte_sz = 0 \<or> byte_sz AND (byte_sz - 1) \<noteq> 0 \<or> 8 < byte_sz \<longleftrightarrow> byte_sz \<notin> {1, 2, 4, 8 :: u32}"
proof (cases "byte_sz \<le> 16")
  case True
  then show ?thesis using small_cases [OF True] by auto
next
  case False
  then have "8 < byte_sz" by (simp add: word_less_nat_alt word_le_nat_alt)
  then show ?thesis by auto
qed

lemma encoding_ok: "encoding AND NOT 7 = 0 \<longleftrightarrow> encoding \<in> {0..7 :: int}"
proof -
  have m: "(7 :: int) = mask 3" by (simp add: mask_eq_exp_minus_1)
  have "encoding AND NOT 7 = 0 \<longleftrightarrow> take_bit 3 encoding = encoding"
    unfolding m by (auto simp: bit_eq_iff bit_simps)
  then show ?thesis by (auto simp: take_bit_int_eq_self_iff)
qed

lemma named_result:
  assumes "bchain_ok c" "c \<noteq> []" "\<forall>s. name = Some s \<longrightarrow> 0 \<notin> set s" "btf__type_cnt (map to_btf c) \<le> nat INT_MAX"
    and "kind < 32" "\<And>t. btf_kind t = kind \<Longrightarrow> btf_vlen t = 0 \<Longrightarrow> btf_type_size t = 12 + 4 * int (length ws)" "sz = 12 + 4 * length ws"
  shows "add_result c name (kind, 0, kflag, w, ws) (new_type al sz name (\<lambda>off. off # btf_type_info kind 0 kflag # w # ws) c)"
  by (rule new_type_result [where nm = "\<lambda>off. off"]) (use assms in simp_all)

lemma nameless_result:
  assumes "bchain_ok c" "c \<noteq> []" "btf__type_cnt (map to_btf c) \<le> nat INT_MAX"
    and "kind < 32" "\<And>t. btf_kind t = kind \<Longrightarrow> btf_vlen t = 0 \<Longrightarrow> btf_type_size t = 12 + 4 * int (length ws)" "sz = 12 + 4 * length ws"
  shows "add_result c None (kind, 0, kflag, w, ws) (new_type al sz None (\<lambda>_. 0 # btf_type_info kind 0 kflag # w # ws) c)"
  by (rule new_type_result [where nm = "\<lambda>_. 0"]) (use assms in simp_all)

lemma ref_kind_result:
  assumes c: "bchain_ok c" "c \<noteq> []" "\<forall>s. name = Some s \<longrightarrow> 0 \<notin> set s" "btf__type_cnt (map to_btf c) \<le> nat INT_MAX"
    and k: "kind \<in> {BTF_KIND_FWD, BTF_KIND_CONST, BTF_KIND_VOLATILE, BTF_KIND_RESTRICT, BTF_KIND_PTR, BTF_KIND_TYPEDEF, BTF_KIND_FUNC, BTF_KIND_TYPE_TAG}"
    and t: "id_ok t"
  shows "add_result c name (kind, 0, False, of_int t, []) (btf_add_ref_kind al kind name t c)"
proof -
  have "kind < 32" using k by (auto simp: btf_kinds)
  moreover have "btf_type_size u = 12" if "btf_kind u = kind" for u
  proof -
    have "btf_kind u \<in> {BTF_KIND_FWD, BTF_KIND_CONST, BTF_KIND_VOLATILE, BTF_KIND_RESTRICT, BTF_KIND_PTR, BTF_KIND_TYPEDEF,
      BTF_KIND_FUNC, BTF_KIND_FLOAT, BTF_KIND_TYPE_TAG}" using that k by blast
    then show ?thesis unfolding btf_type_size_def Let_def by (simp only: if_True)
  qed
  ultimately have "add_result c name (kind, 0, False, of_int t, []) (new_type al 12 name (\<lambda>off. [off, btf_type_info kind 0 False, of_int t]) c)"
    by (simp add: named_result [OF c])
  then show ?thesis using t by (simp add: btf_add_ref_kind_def)
qed

lemma if_swap: "(if tid > (0::int) then a else b) = (if tid \<le> 0 then b else a)"
  by simp

lemma run_add_valid:
  assumes c: "bchain_ok c" "c \<noteq> []" and n: "\<forall>s. req_name r = Some s \<longrightarrow> 0 \<notin> set s"
    and cnt: "btf__type_cnt (map to_btf c) \<le> nat INT_MAX" and v: "req_valid r"
  shows "add_result c (req_name r) (req_type r) (run_add al r c)"
proof -
  note named = named_result [OF c _ cnt] and nameless = nameless_result [OF c cnt]
  have lt: "BTF_KIND_FLOAT < 32" "BTF_KIND_ARRAY < 32" "BTF_KIND_INT < 32" "BTF_KIND_VAR < 32" "BTF_KIND_DECL_TAG < 32" "BTF_KIND_STRUCT < 32"
    "BTF_KIND_UNION < 32" "BTF_KIND_ENUM < 32" "BTF_KIND_ENUM64 < 32" "BTF_KIND_FUNC_PROTO < 32" "BTF_KIND_DATASEC < 32"
    by (simp_all add: btf_kinds)
  note ref = ref_kind_result [OF c n cnt, where al = al]
  have sz: "btf_kind t = BTF_KIND_FLOAT \<Longrightarrow> btf_type_size t = 12" "btf_kind t = BTF_KIND_ARRAY \<Longrightarrow> btf_type_size t = 24"
    "btf_kind t = BTF_KIND_INT \<Longrightarrow> btf_type_size t = 16" "btf_kind t = BTF_KIND_VAR \<Longrightarrow> btf_type_size t = 16"
    "btf_kind t = BTF_KIND_DECL_TAG \<Longrightarrow> btf_type_size t = 16"
    "btf_kind t \<in> {BTF_KIND_STRUCT, BTF_KIND_UNION, BTF_KIND_ENUM, BTF_KIND_ENUM64, BTF_KIND_FUNC_PROTO, BTF_KIND_DATASEC} \<Longrightarrow>
      btf_vlen t = 0 \<Longrightarrow> btf_type_size t = 12" for t
    by (auto simp: btf_type_size_def Let_def btf_kinds)
  show ?thesis
  proof (cases r)
    case (Add_Int name byte_sz encoding)
    then show ?thesis using v n int_size_ok [of byte_sz] encoding_ok [of encoding]
      by (simp add: btf__add_int_def) (rule named, simp_all add: lt sz)
  next
    case (Add_Array index elem nr)
    then show ?thesis using v by (simp add: btf__add_array_def) (rule nameless, simp_all add: lt sz)
  next
    case (Add_Fwd name fwd_kind)
    show ?thesis
    proof (cases "fwd_kind = BTF_FWD_ENUM")
      case True
      then show ?thesis using Add_Fwd v n
        by (simp add: btf__add_fwd_def btf__add_enum_def btf_add_enum_common_def) (rule named, simp_all add: lt sz)
    next
      case False
      let ?r = "btf_add_ref_kind al BTF_KIND_FWD name 0 c"
      have "add_result c name (BTF_KIND_FWD, 0, False, 0, []) ?r" using Add_Fwd ref [of BTF_KIND_FWD 0] by (simp add: id_ok_def)
      then have "add_result c name (BTF_KIND_FWD, 0, fwd_kind = BTF_FWD_UNION, 0, []) (bindR ?r (\<lambda>(tid, c). if tid \<le> 0 then Inr (tid, c)
          else bindR (set_info_by_id tid (btf_type_info BTF_KIND_FWD 0 (fwd_kind = BTF_FWD_UNION)) c) (\<lambda>c. Inr (tid, c))))"
        by (rule corrected_result [OF _ c]) (auto simp: btf_type_size_def Let_def btf_kinds)
      then show ?thesis using Add_Fwd v False by (cases fwd_kind) (simp_all add: btf__add_fwd_def cong: if_cong)
    qed
  next
    case (Add_Func name linkage t)
    let ?r = "btf_add_ref_kind al BTF_KIND_FUNC name t c"
    have "add_result c name (BTF_KIND_FUNC, 0, False, of_int t, []) ?r" using Add_Func v ref [of BTF_KIND_FUNC t] by simp
    then have "add_result c name (BTF_KIND_FUNC, linkage, False, of_int t, []) (bindR ?r (\<lambda>(tid, c). if tid \<le> 0 then Inr (tid, c)
        else bindR (set_info_by_id tid (btf_type_info BTF_KIND_FUNC linkage False) c) (\<lambda>c. Inr (tid, c))))"
      by (rule corrected_result [OF _ c]) (use Add_Func v in \<open>auto simp: btf_type_size_def Let_def btf_kinds\<close>)
    then show ?thesis using Add_Func v by (auto simp: btf__add_func_def if_swap)
  next
    case (Add_Float name byte_sz)
    have "\<not> (byte_sz \<noteq> 2 \<and> byte_sz \<noteq> 4 \<and> byte_sz \<noteq> 8 \<and> byte_sz \<noteq> 12 \<and> byte_sz \<noteq> 16)" using v Add_Float by auto
    then show ?thesis unfolding Add_Float run_add.simps btf__add_float_def using Add_Float v n by (simp del: de_Morgan_conj) (rule named, simp_all add: lt sz)
  next
    case (Add_Ptr t)
    then show ?thesis using v ref [of BTF_KIND_PTR t] by (simp add: btf__add_ptr_def)
  next
    case (Add_Struct name byte_sz)
    then show ?thesis using n by (simp add: btf__add_struct_def btf_add_composite_def) (rule named, simp_all add: lt sz)
  next
    case (Add_Union name byte_sz)
    then show ?thesis using n by (simp add: btf__add_union_def btf_add_composite_def) (rule named, simp_all add: lt sz)
  next
    case (Add_Enum name byte_sz)
    then show ?thesis using v n enum_size_ok [of byte_sz]
      by (simp add: btf__add_enum_def btf_add_enum_common_def) (rule named, simp_all add: lt sz)
  next
    case (Add_Enum64 name byte_sz is_signed)
    then show ?thesis using v n enum_size_ok [of byte_sz]
      by (simp add: btf__add_enum64_def btf_add_enum_common_def) (rule named, simp_all add: lt sz)
  next
    case (Add_Typedef name t)
    then show ?thesis using v ref [of BTF_KIND_TYPEDEF t] by (simp add: btf__add_typedef_def)
  next
    case (Add_Volatile t)
    then show ?thesis using v ref [of BTF_KIND_VOLATILE t] by (simp add: btf__add_volatile_def)
  next
    case (Add_Const t)
    then show ?thesis using v ref [of BTF_KIND_CONST t] by (simp add: btf__add_const_def)
  next
    case (Add_Restrict t)
    then show ?thesis using v ref [of BTF_KIND_RESTRICT t] by (simp add: btf__add_restrict_def)
  next
    case (Add_Type_Tag name t)
    then show ?thesis using v ref [of BTF_KIND_TYPE_TAG t] by (simp add: btf__add_type_tag_def)
  next
    case (Add_Func_Proto t)
    then show ?thesis using v by (simp add: btf__add_func_proto_def) (rule nameless, simp_all add: lt sz)
  next
    case (Add_Var name linkage t)
    have "\<not> (linkage \<noteq> 0 \<and> linkage \<noteq> 1 \<and> linkage \<noteq> 2)" using v Add_Var by auto
    then show ?thesis unfolding Add_Var run_add.simps btf__add_var_def using Add_Var v n by (simp del: de_Morgan_conj) (rule named, simp_all add: lt sz)
  next
    case (Add_Datasec name byte_sz)
    then show ?thesis using v n by (simp add: btf__add_datasec_def) (rule named, simp_all add: lt sz)
  next
    case (Add_Decl_Tag name t component_idx)
    then show ?thesis using v n by (simp add: btf__add_decl_tag_def) (rule named, simp_all add: lt sz)
  qed
qed

lemma run_add_invalid:
  assumes "\<not> req_valid r"
  shows "run_add al r c = Inr (- EINVAL, c)"
proof (cases r)
  case (Add_Int name byte_sz encoding)
  then show ?thesis using assms int_size_ok [of byte_sz] encoding_ok [of encoding] by (simp add: btf__add_int_def) blast
next
  case (Add_Enum name byte_sz)
  then show ?thesis using assms enum_size_ok [of byte_sz] by (simp add: btf__add_enum_def btf_add_enum_common_def)
next
  case (Add_Enum64 name byte_sz is_signed)
  then show ?thesis using assms enum_size_ok [of byte_sz] by (simp add: btf__add_enum64_def btf_add_enum_common_def)
qed (use assms in \<open>auto simp: btf__add_float_def btf__add_ptr_def btf_add_ref_kind_def btf__add_array_def btf__add_fwd_def btf__add_typedef_def
  btf__add_volatile_def btf__add_const_def btf__add_restrict_def btf__add_type_tag_def btf__add_func_def btf__add_func_proto_def
  btf__add_var_def btf__add_datasec_def btf__add_decl_tag_def EINVAL_def\<close>)

lemma roomy_mono: "roomy a n name b \<Longrightarrow> sz \<le> n \<Longrightarrow> roomy a sz name b"
  by (simp add: roomy_def)

lemma run_add_room:
  assumes c: "bchain_ok [b]" and n: "\<forall>s. req_name r = Some s \<longrightarrow> 0 \<notin> set s" and room: "roomy (al 0) 24 (req_name r) b"
    and cnt: "btf__type_cnt [to_btf b] \<le> nat INT_MAX" and v: "req_valid r" and run: "run_add al r [b] = Inr (ret, c')"
  shows "0 \<le> ret"
proof -
  have new: "0 \<le> ret1" if "new_type al sz (req_name r) mk [b] = Inr (ret1, c1)" "sz \<le> 24" for sz mk ret1 c1
    by (rule new_type_room [where al = al, OF c n roomy_mono [OF room that(2)] that(1) cnt])
  show ?thesis
  proof (cases r)
    case (Add_Int name byte_sz encoding)
    then show ?thesis using run v new int_size_ok [of byte_sz] encoding_ok [of encoding] by (simp add: btf__add_int_def)
  next
    case (Add_Enum name byte_sz)
    then show ?thesis using run v new enum_size_ok [of byte_sz] by (simp add: btf__add_enum_def btf_add_enum_common_def)
  next
    case (Add_Enum64 name byte_sz is_signed)
    then show ?thesis using run v new enum_size_ok [of byte_sz] by (simp add: btf__add_enum64_def btf_add_enum_common_def)
  qed (use run v new in \<open>auto simp: btf__add_float_def btf__add_ptr_def btf_add_ref_kind_def btf__add_array_def btf__add_fwd_def btf__add_typedef_def
    btf__add_volatile_def btf__add_const_def btf__add_restrict_def btf__add_type_tag_def btf__add_func_def btf__add_func_proto_def
    btf__add_var_def btf__add_datasec_def btf__add_decl_tag_def btf__add_struct_def btf__add_union_def btf_add_composite_def
    btf__add_enum_def btf_add_enum_common_def id_ok_def split: if_splits btf_fwd_kind.splits\<close>)
qed

section \<open>Appending to the last type\<close>

text \<open>The requests that append a member, an enumerator, a parameter or a variable to the last type.\<close>

datatype member_req =
    Add_Field "u8 list option" int u32 u32
  | Add_Enum_Value "u8 list option" int
  | Add_Enum64_Value "u8 list option" u64
  | Add_Func_Param "u8 list option" int
  | Add_Datasec_Var int u32 u32

fun run_member :: "(nat \<Rightarrow> build_allocs) \<Rightarrow> member_req \<Rightarrow> bchain \<Rightarrow> fault + (int \<times> bchain)" where
  "run_member al (Add_Field name t bit_offset bit_size) c = btf__add_field al name t bit_offset bit_size c"
| "run_member al (Add_Enum_Value name enumerator) c = btf__add_enum_value al name enumerator c"
| "run_member al (Add_Enum64_Value name enumerator) c = btf__add_enum64_value al name enumerator c"
| "run_member al (Add_Func_Param name t) c = btf__add_func_param al name t c"
| "run_member al (Add_Datasec_Var t var_offset byte_sz) c = btf__add_datasec_var_info al t var_offset byte_sz c"

fun mem_name :: "member_req \<Rightarrow> u8 list option" where
  "mem_name (Add_Field name _ _ _) = name"
| "mem_name (Add_Enum_Value name _) = name"
| "mem_name (Add_Enum64_Value name _) = name"
| "mem_name (Add_Func_Param name _) = name"
| "mem_name (Add_Datasec_Var _ _ _) = None"

text \<open>What a request needs of its arguments and of the last type.\<close>

fun mem_valid :: "member_req \<Rightarrow> btf_type \<Rightarrow> bool" where
  "mem_valid (Add_Field name t bit_offset bit_size) l \<longleftrightarrow> btf_is_composite l \<and> id_ok t \<and>
     (bitfield bit_offset bit_size \<longrightarrow> bit_size \<noteq> 0 \<and> bit_size \<le> 255 \<and> bit_offset \<le> 0xFFFFFF) \<and> (btf_is_union l \<longrightarrow> bit_offset = 0)"
| "mem_valid (Add_Enum_Value name enumerator) l \<longleftrightarrow> btf_is_enum l \<and> has_name name \<and> - 2147483648 \<le> enumerator \<and> enumerator \<le> int UINT32_MAX"
| "mem_valid (Add_Enum64_Value name enumerator) l \<longleftrightarrow> btf_is_enum64 l \<and> has_name name"
| "mem_valid (Add_Func_Param name t) l \<longleftrightarrow> btf_is_func_proto l \<and> id_ok t"
| "mem_valid (Add_Datasec_Var t var_offset byte_sz) l \<longleftrightarrow> btf_is_datasec l \<and> id_ok t"

text \<open>The words of the new entry for the offset of its name, and the flag of the type afterwards.\<close>

fun mem_words :: "member_req \<Rightarrow> u32 \<Rightarrow> u32 list" where
  "mem_words (Add_Field name t bit_offset bit_size) off = [off, of_int t, bit_offset OR push_bit 24 bit_size]"
| "mem_words (Add_Enum_Value name enumerator) off = [off, of_int enumerator]"
| "mem_words (Add_Enum64_Value name enumerator) off = [off, ucast enumerator, ucast (drop_bit 32 enumerator)]"
| "mem_words (Add_Func_Param name t) off = [off, of_int t]"
| "mem_words (Add_Datasec_Var t var_offset byte_sz) off = [of_int t, var_offset, byte_sz]"

fun mem_flag :: "member_req \<Rightarrow> btf_type \<Rightarrow> bool" where
  "mem_flag (Add_Field name t bit_offset bit_size) l \<longleftrightarrow> bitfield bit_offset bit_size \<or> btf_kflag l"
| "mem_flag (Add_Enum_Value name enumerator) l \<longleftrightarrow> enumerator < 0 \<or> btf_kflag l"
| "mem_flag _ l \<longleftrightarrow> btf_kflag l"

definition same_strs :: "btf_chain \<Rightarrow> btf_chain \<Rightarrow> bool" where
  "same_strs c c' \<longleftrightarrow> (\<forall>off s. btf__str_by_offset c off = Inr (Some s) \<longrightarrow> btf__str_by_offset c' off = Inr (Some s))"

text \<open>
  The last type afterwards has one entry more, its name and its third word are as before; the types before
  it and all strings are kept. Without memory all types are kept.
\<close>

definition member_outcome :: "bchain \<Rightarrow> member_req \<Rightarrow> int \<Rightarrow> bchain \<Rightarrow> bool" where
  "member_outcome c r ret c' \<longleftrightarrow> bchain_ok c' \<and> map to_btf (tl c') = map to_btf (tl c) \<and> same_strs (map to_btf c) (map to_btf c') \<and>
     btf__type_cnt (map to_btf c') = btf__type_cnt (map to_btf c) \<and>
     (let n = btf__type_cnt (map to_btf c) - 1 in
      (\<forall>i<n. btf_type_by_id (map to_btf c') i = btf_type_by_id (map to_btf c) i) \<and>
      (ret = - ENOMEM \<and> btf_type_by_id (map to_btf c') n = btf_type_by_id (map to_btf c) n \<or>
       ret = 0 \<and> (\<exists>l off t. btf_type_by_id (map to_btf c) n = Inr l \<and> btf_type_by_id (map to_btf c') n = Inr t \<and>
         has_shape (btf_kind l, btf_vlen l + 1, mem_flag r l, bt_type l, bt_words l @ mem_words r off) t \<and>
         bt_name_off t = bt_name_off l \<and> named (map to_btf c') (mem_name r) (unat off))))"

lemma grow_last_bytes:
  fixes info :: u32
  assumes ok: "bb_ok has_base b" and bytes: "bb_bytes b = d @ words_bytes ws" and ws: "3 \<le> length ws"
    and room: "unat (hd_type_len (bb_hdr b)) + 4 * length xs \<le> ma_cap (bb_types b)"
  defines "b' \<equiv> grow_types (4 * length xs) (set_info_at (length d) info (put_words (unat (hd_type_len (bb_hdr b))) xs b))"
  shows "bb_bytes b' = d @ words_bytes (ws[1 := info] @ xs)" "unat (hd_type_len (bb_hdr b')) = length d + 4 * length (ws[1 := info] @ xs)"
    "area_ok 1 (bb_types b')" "ma_cap (bb_types b') = ma_cap (bb_types b)"
proof -
  let ?n = "unat (hd_type_len (bb_hdr b))"
  obtain w0 w1 r where w: "ws = w0 # w1 # r" using ws by (metis Suc_le_length_iff numeral_3_eq_3)
  have len: "length (ma_data (bb_types b)) = ma_cap (bb_types b)" "?n \<le> ma_cap (bb_types b)" "ma_cap (bb_types b) \<le> UINT32_MAX"
    using ok by (auto simp: bb_ok_def area_ok_def)
  have pre: "take ?n (ma_data (bb_types b)) = d @ words_bytes ws" using bytes by (simp add: bb_bytes_def)
  have n: "?n = length d + 4 * length ws" using len arg_cong [OF pre, of length] by (simp add: min_def split: if_splits)
  show tl: "unat (hd_type_len (bb_hdr b')) = length d + 4 * length (ws[1 := info] @ xs)"
    using room len(3) n by (simp add: b'_def grow_types_def put_words_def unat_add_small del: of_nat_mult)
  have data: "ma_data (bb_types b') = d @ words_bytes (ws[1 := info] @ xs) @ drop (?n + 4 * length xs) (ma_data (bb_types b))"
    by (simp add: b'_def grow_types_def set_info_at_def put_words_def area_write_def pre) (simp add: w words_bytes_def)
  then show "bb_bytes b' = d @ words_bytes (ws[1 := info] @ xs)" using tl by (simp add: bb_bytes_def)
  show cap: "ma_cap (bb_types b') = ma_cap (bb_types b)" by (simp add: b'_def grow_types_def put_words_def area_write_def)
  show "area_ok 1 (bb_types b')" using data cap len n room by (simp add: area_ok_def)
qed

lemma grow_last_fields:
  "bb_offs (grow_types sz (set_info_at off info (put_words p xs b))) = bb_offs b"
  "bb_strs (grow_types sz (set_info_at off info (put_words p xs b))) = bb_strs b"
  "hd_str_len (bb_hdr (grow_types sz (set_info_at off info (put_words p xs b)))) = hd_str_len (bb_hdr b)"
  "bb_start_id (grow_types sz (set_info_at off info (put_words p xs b))) = bb_start_id b"
  "bb_start_str_off (grow_types sz (set_info_at off info (put_words p xs b))) = bb_start_str_off b"
  by (simp_all add: grow_types_def put_words_def)

text \<open>The new last type: the words of the old one with another \<open>info\<close>, then those of the entry.\<close>

lemma grown_words:
  assumes ws: "words_ok ws" and k: "btf_kind (type_of_words ws) = kind" "btf_vlen (type_of_words ws) = vlen"
    and info: "info = btf_type_info kind (vlen + 1) fl" "kind < 32" "vlen + 1 < 65536"
    and sz: "\<And>t t'. btf_kind t = kind \<Longrightarrow> btf_kind t' = kind \<Longrightarrow> btf_vlen t = vlen \<Longrightarrow> btf_vlen t' = vlen + 1 \<Longrightarrow>
      btf_type_size t' = btf_type_size t + 4 * int (length xs)"
  shows "words_ok (ws[1 := info] @ xs)"
    and "has_shape (kind, vlen + 1, fl, bt_type (type_of_words ws), bt_words (type_of_words ws) @ xs) (type_of_words (ws[1 := info] @ xs))"
    and "bt_name_off (type_of_words (ws[1 := info] @ xs)) = bt_name_off (type_of_words ws)"
proof -
  let ?t = "type_of_words (ws[1 := info] @ xs)"
  have w: "3 \<le> length ws" "btf_type_size (type_of_words ws) = 4 * int (length ws)" using ws by (auto simp: words_ok_def)
  have t: "bt_info ?t = info" "bt_type ?t = bt_type (type_of_words ws)" "bt_words ?t = bt_words (type_of_words ws) @ xs"
    "bt_name_off ?t = bt_name_off (type_of_words ws)"
    using w(1) by (auto simp: type_of_words_def nth_append)
  note f = type_info_fields [OF trans [OF t(1) info(1)] info(2,3)]
  show "words_ok (ws[1 := info] @ xs)" using sz [OF k(1) f(1) k(2) f(2)] w by (simp add: words_ok_def)
  show "has_shape (kind, vlen + 1, fl, bt_type (type_of_words ws), bt_words (type_of_words ws) @ xs) ?t" using f t by (simp add: has_shape_def)
  show "bt_name_off ?t = bt_name_off (type_of_words ws)" by (rule t(4))
qed

lemma last_type_put:
  assumes ok: "bb_ok has_base b" and ne: "bb_offs b \<noteq> []"
  shows "btf_last_type (put_words (unat (hd_type_len (bb_hdr b))) xs b) = btf_last_type b"
proof -
  let ?n = "unat (hd_type_len (bb_hdr b))"
  obtain d ws where l: "bb_bytes b = d @ words_bytes ws" "words_ok ws" "last (bb_offs b) = length d"
    by (rule last_type_words [OF ok ne])
  have len: "length (ma_data (bb_types b)) = ma_cap (bb_types b)" "?n \<le> ma_cap (bb_types b)" using ok by (auto simp: bb_ok_def area_ok_def)
  then have "length d + 12 \<le> ?n" using arg_cong [OF l(1), of length] l(2) by (simp add: bb_bytes_def words_ok_def)
  then show ?thesis unfolding btf_last_type_def using len
    by (simp add: put_words_def area_write_def l(3)) (intro base_at_agree, simp)
qed

lemma grow_last_ok:
  fixes xs :: "u32 list"
  assumes c: "bchain_ok (b # base)" and ne: "bb_offs b \<noteq> []"
    and l: "btf_type_by_id (map to_btf (b # base)) (btf__type_cnt (map to_btf (b # base)) - 1) = Inr l"
    and room: "unat (hd_type_len (bb_hdr b)) + 4 * length xs \<le> ma_cap (bb_types b)"
    and info: "info = btf_type_info (btf_kind l) (btf_vlen l + 1) fl" "btf_vlen l < 65535"
    and sz: "\<And>t t'. btf_kind t = btf_kind l \<Longrightarrow> btf_kind t' = btf_kind l \<Longrightarrow> btf_vlen t = btf_vlen l \<Longrightarrow> btf_vlen t' = btf_vlen l + 1 \<Longrightarrow>
      btf_type_size t' = btf_type_size t + 4 * int (length xs)"
  defines "b' \<equiv> grow_types (4 * length xs) (set_info_at (last (bb_offs b)) info (put_words (unat (hd_type_len (bb_hdr b))) xs b))"
    and "n \<equiv> btf__type_cnt (map to_btf (b # base)) - 1"
  shows "\<exists>t. bchain_ok (b' # base) \<and> btf_type_by_id (map to_btf (b' # base)) n = Inr t \<and>
    has_shape (btf_kind l, btf_vlen l + 1, fl, bt_type l, bt_words l @ xs) t \<and> bt_name_off t = bt_name_off l \<and>
    btf__type_cnt (map to_btf (b' # base)) = btf__type_cnt (map to_btf (b # base)) \<and>
    (\<forall>i<n. btf_type_by_id (map to_btf (b' # base)) i = btf_type_by_id (map to_btf (b # base)) i) \<and>
    (\<forall>off. btf__str_by_offset (map to_btf (b' # base)) off = btf__str_by_offset (map to_btf (b # base)) off)"
proof -
  have ok: "bb_ok (base \<noteq> []) b" using c by simp
  obtain d ws where d: "bb_bytes b = d @ words_bytes ws" "words_ok ws" "last (bb_offs b) = length d"
    "tiles (length d) d 0 (butlast (bb_offs b))"
    by (rule last_type_words [OF ok ne])
  have n: "n = bb_start_id b + length (bb_offs b) - 1" by (simp add: n_def cnt_to_btf)
  have tw: "type_of_words ws = l"
    using replaced_lookup(1) [OF ok ne d(3,4,2,1,1) refl refl bchain_start_id [OF c], of "map to_btf base"] l by (simp add: cnt_to_btf)
  have w3: "3 \<le> length ws" using d(2) by (simp add: words_ok_def)
  have kind: "btf_kind l < 32" using word_and_le1 [of "drop_bit 24 (bt_info l)" 31] by (simp add: btf_kind_def word_le_nat_alt)
  have v: "btf_vlen l + 1 < 65536" using info(2) by simp
  note g = grown_words [OF d(2) _ _ info(1) kind v sz, unfolded tw, OF refl refl]
  have b': "b' = grow_types (4 * length xs) (set_info_at (length d) info (put_words (unat (hd_type_len (bb_hdr b))) xs b))"
    by (simp add: b'_def d(3))
  note by' = grow_last_bytes [OF ok d(1) w3 room, of info, folded b'] and f = grow_last_fields [of "4 * length xs" "length d" info "unat (hd_type_len (bb_hdr b))" xs b, folded b']
  have sb: "bb_str_bytes b' = bb_str_bytes b" using f by (simp add: b' bb_str_bytes_def)
  have cap: "unat (hd_type_len (bb_hdr b)) = length d + 4 * length ws" by (rule set_info_bytes(3) [OF ok d(1) w3])
  have ok': "bb_ok (base \<noteq> []) b'"
    using by' f ok room cap by (intro replace_last [OF ok ne d(3,4) g(1) by'(1,2,3)]) (simp_all add: bb_ok_def)
  note lk = replaced_lookup [OF ok ne d(3,4) g(1) d(1) by'(1) f(1,4) bchain_start_id [OF c], where base = "map to_btf base", folded n]
  have cnt: "btf__type_cnt (map to_btf (b' # base)) = btf__type_cnt (map to_btf (b # base))" using f(1,4) by (simp add: cnt_to_btf)
  show ?thesis
    using bchain_head [OF c ok' f(4,5)] lk g(2,3) keeps_strs [OF ok ok' f(5) sb] cnt unfolding list.map by blast
qed

lemma add_to_last_ok:
  assumes c: "bchain_ok (b # base)" and ne: "bb_offs b \<noteq> []" and n: "\<forall>s. name = Some s \<longrightarrow> 0 \<notin> set s"
    and l: "btf_type_by_id (map to_btf (b # base)) (btf__type_cnt (map to_btf (b # base)) - 1) = Inr l"
    and nm: "name = mem_name r" and mk: "mk = mem_words r" "\<And>off. 4 * length (mk off) = sz"
    and upd: "bt_info (upd (l\<lparr>bt_words := []\<rparr>)) = btf_type_info (btf_kind l) (btf_vlen l + 1) (mem_flag r l)" "btf_vlen l < 65535"
    and sz: "\<And>t t'. btf_kind t = btf_kind l \<Longrightarrow> btf_kind t' = btf_kind l \<Longrightarrow> btf_vlen t = btf_vlen l \<Longrightarrow> btf_vlen t' = btf_vlen l + 1 \<Longrightarrow>
      btf_type_size t' = btf_type_size t + int sz"
  shows "add_to_last al sz name mk upd (b # base) = Inl Signed_Overflow \<and> base \<noteq> [] \<or>
    (\<exists>ret c'. add_to_last al sz name mk upd (b # base) = Inr (ret, c') \<and> member_outcome (b # base) r ret c')"
proof -
  have ok: "bb_ok (base \<noteq> []) b" using c by simp
  consider (ovf) "reserve al sz name (b # base) = Inl Signed_Overflow" "base \<noteq> []"
    | (ret) off p b3 base' where "reserve al sz name (b # base) = Inr (off, p, b3 # base')" "bchain_ok (b3 # base')" "extends b b3"
        "bb_offs b3 = bb_offs b" "bb_bytes b3 = bb_bytes b" "map to_btf base' = map to_btf base"
        "off = - ENOMEM \<or> 0 \<le> off \<and> off \<le> INT_MAX \<and> named (map to_btf (b3 # base')) name (nat off) \<and>
           p = unat (hd_type_len (bb_hdr b3)) \<and> p + sz \<le> ma_cap (bb_types b3)"
    using reserve_ok [OF c n, of al sz] by metis
  then show ?thesis
  proof cases
    case ovf
    then show ?thesis by (simp add: add_to_last_def)
  next
    case (ret off p b3 base')
    have ok3: "bb_ok (base' \<noteq> []) b3" using ret(2) by simp
    have k3: "keeps (map to_btf (b # base)) (map to_btf (b3 # base'))" using extends_keeps [OF ok ok3 ret(3)] ret(6) by simp
    have id: "bb_start_id b3 = bb_start_id b" "bb_start_str_off b3 = bb_start_str_off b" using ret(3) by (auto simp: extends_def)
    have cnt3: "btf__type_cnt (map to_btf (b3 # base')) = btf__type_cnt (map to_btf (b # base))" using id ret(4) by (simp add: cnt_to_btf)
    have pos: "btf__type_cnt (map to_btf (b # base)) - 1 < btf__type_cnt (map to_btf (b # base))" using ne by (cases "bb_offs b") (auto simp: cnt_to_btf)
    show ?thesis
    proof (cases "off < 0")
      case True
      then have "add_to_last al sz name mk upd (b # base) = Inr (- ENOMEM, b3 # base')" using ret(1,7) by (simp add: add_to_last_def)
      moreover have "member_outcome (b # base) r (- ENOMEM) (b3 # base')"
        using ret(2,6) k3 cnt3 pos by (simp add: member_outcome_def Let_def keeps_def same_strs_def del: bchain_ok.simps btf_type_by_id.simps)
      ultimately show ?thesis by blast
    next
      case False
      let ?ws = "mk (of_int off)"
      have off: "0 \<le> off" "off \<le> INT_MAX" "named (map to_btf (b3 # base')) name (nat off)" "p = unat (hd_type_len (bb_hdr b3))"
        "p + sz \<le> ma_cap (bb_types b3)" using ret(7) False by (auto simp: ENOMEM_def)
      have x: "btf__type_cnt (map to_btf (b3 # base')) - 1 = btf__type_cnt (map to_btf (b # base)) - 1" using cnt3 by simp
      have l3: "btf_type_by_id (map to_btf (b3 # base')) (btf__type_cnt (map to_btf (b3 # base')) - 1) = Inr l"
        using k3 l pos unfolding x by (simp add: keeps_def del: btf_type_by_id.simps)
      have room: "unat (hd_type_len (bb_hdr b3)) + 4 * length ?ws \<le> ma_cap (bb_types b3)" using off(4,5) mk(2) by simp
      have sz': "4 * int (length ?ws) = int sz" using mk(2) [of "of_int off"] by simp
      have ne3: "bb_offs b3 \<noteq> []" using ne ret(4) by simp
      have last: "btf_last_type (put_words p ?ws b3) = l\<lparr>bt_words := []\<rparr>"
        using last_type_put [OF ok3 ne3] last_type_lookup [OF ret(2) ne3] l3 off(4) by auto
      let ?b = "grow_types (4 * length ?ws) (set_info_at (last (bb_offs b3)) (bt_info (upd (l\<lparr>bt_words := []\<rparr>)))
        (put_words (unat (hd_type_len (bb_hdr b3))) ?ws b3))"
      have run: "add_to_last al sz name mk upd (b # base) = Inr (0, ?b # base')"
        using ret(1) False last off(4) mk(2) by (simp add: add_to_last_def Let_def) (simp add: put_words_def)
      define c' where "c' = ?b # base'"
      obtain t where t: "bchain_ok c'" "btf_type_by_id (map to_btf c') (btf__type_cnt (map to_btf (b # base)) - 1) = Inr t"
        "has_shape (btf_kind l, btf_vlen l + 1, mem_flag r l, bt_type l, bt_words l @ ?ws) t" "bt_name_off t = bt_name_off l"
        "btf__type_cnt (map to_btf c') = btf__type_cnt (map to_btf (b # base))"
        "\<forall>i<btf__type_cnt (map to_btf (b # base)) - 1. btf_type_by_id (map to_btf c') i = btf_type_by_id (map to_btf (b3 # base')) i"
        "\<forall>o1. btf__str_by_offset (map to_btf c') o1 = btf__str_by_offset (map to_btf (b3 # base')) o1"
        using grow_last_ok [OF ret(2) ne3 l3 room upd sz [folded sz']] unfolding c'_def cnt3 by blast
      have "named (map to_btf c') (mem_name r) (unat (of_int off :: u32))"
        using off(3) nm t(7) unat_of_int_small [OF off(1,2)] by (simp add: named_def)
      moreover have "map to_btf (tl c') = map to_btf (tl (b # base))" using ret(6) by (simp add: c'_def)
      ultimately have "member_outcome (b # base) r 0 c'"
        unfolding member_outcome_def Let_def using t(1,5,6,7) k3 pos l t(2,3,4) mk(1)
        by (auto simp: keeps_def same_strs_def simp del: bchain_ok.simps btf_type_by_id.simps)
      then have "member_outcome (b # base) r 0 (?b # base')" by (simp only: c'_def)
      then show ?thesis using run by blast
    qed
  qed
qed

lemma entry_size:
  assumes "btf_kind t' = btf_kind t" "btf_vlen t' = btf_vlen t + 1"
  shows "btf_kind t \<in> {BTF_KIND_STRUCT, BTF_KIND_UNION, BTF_KIND_ENUM64, BTF_KIND_DATASEC} \<Longrightarrow> btf_type_size t' = btf_type_size t + 12"
    and "btf_kind t \<in> {BTF_KIND_ENUM, BTF_KIND_FUNC_PROTO} \<Longrightarrow> btf_type_size t' = btf_type_size t + 8"
  using assms by (auto simp: btf_type_size_def Let_def btf_kinds)

text \<open>How each request reaches the common course.\<close>

fun mem_upd :: "member_req \<Rightarrow> btf_type \<Rightarrow> btf_type" where
  "mem_upd (Add_Field name t bit_offset bit_size) = (\<lambda>t. t\<lparr>bt_info := btf_type_info (btf_kind t) (btf_vlen t + 1) (bitfield bit_offset bit_size \<or> btf_kflag t)\<rparr>)"
| "mem_upd (Add_Enum_Value name enumerator) = (\<lambda>t. let t = btf_type_inc_vlen t in
     if enumerator < 0 then t\<lparr>bt_info := btf_type_info (btf_kind t) (btf_vlen t) True\<rparr> else t)"
| "mem_upd _ = btf_type_inc_vlen"

lemma run_member_course:
  assumes "mem_valid r (btf_last_type b)" "bb_offs b \<noteq> []"
  shows "run_member al r (b # base) = add_to_last al (4 * length (mem_words r 0)) (mem_name r) (mem_words r) (mem_upd r) (b # base)"
proof -
  have w: "mem_words (Add_Field nm t bo bs) = (\<lambda>off. [off, of_int t, bo OR push_bit 24 bs])" "mem_words (Add_Enum_Value nm e) = (\<lambda>off. [off, of_int e])"
    "mem_words (Add_Enum64_Value nm e64) = (\<lambda>off. [off, ucast e64, ucast (drop_bit 32 e64)])" "mem_words (Add_Func_Param nm t) = (\<lambda>off. [off, of_int t])"
    "mem_words (Add_Datasec_Var t vo bz) = (\<lambda>off. [of_int t, vo, bz])" for nm t bo bs e e64 vo bz
    by auto
  show ?thesis using assms
    by (cases r) (auto simp: w btf__add_field_def btf__add_enum_value_def btf__add_enum64_value_def btf__add_func_param_def
      btf__add_datasec_var_info_def Let_def)
qed

lemma mem_upd_info:
  assumes "btf_vlen l < 65535" "btf_kind l < 32"
  shows "bt_info (mem_upd r (l\<lparr>bt_words := []\<rparr>)) = btf_type_info (btf_kind l) (btf_vlen l + 1) (mem_flag r l)"
proof -
  have k: "btf_kind (l\<lparr>bt_words := []\<rparr>) = btf_kind l" "btf_vlen (l\<lparr>bt_words := []\<rparr>) = btf_vlen l" "btf_kflag (l\<lparr>bt_words := []\<rparr>) = btf_kflag l"
    by (simp_all add: btf_kind_def btf_vlen_def btf_kflag_def)
  have i: "btf_kind (t\<lparr>bt_info := btf_type_info (btf_kind l) (btf_vlen l + 1) fl\<rparr>) = btf_kind l"
    "btf_vlen (t\<lparr>bt_info := btf_type_info (btf_kind l) (btf_vlen l + 1) fl\<rparr>) = btf_vlen l + 1" for t :: btf_type and fl
    using type_info_fields [of "t\<lparr>bt_info := btf_type_info (btf_kind l) (btf_vlen l + 1) fl\<rparr>"] assms by simp_all
  show ?thesis using k i by (cases r) (auto simp: btf_type_inc_vlen_def Let_def)
qed

lemma kind_bound: "btf_kind t < 32"
  using word_and_le1 [of "drop_bit 24 (bt_info t)" 31] by (simp add: btf_kind_def word_le_nat_alt)

lemma member_valid:
  assumes c: "bchain_ok (b # base)" and ne: "bb_offs b \<noteq> []" and n: "\<forall>s. mem_name r = Some s \<longrightarrow> 0 \<notin> set s"
    and v: "mem_valid r (btf_last_type b)" "btf_vlen (btf_last_type b) < 65535"
  shows "run_member al r (b # base) = Inl Signed_Overflow \<and> base \<noteq> [] \<or>
    (\<exists>ret c'. run_member al r (b # base) = Inr (ret, c') \<and> member_outcome (b # base) r ret c')"
proof -
  obtain l where l: "btf_type_by_id (map to_btf (b # base)) (btf__type_cnt (map to_btf (b # base)) - 1) = Inr l"
    "btf_last_type b = l\<lparr>bt_words := []\<rparr>"
    using last_type_lookup [OF c ne] by blast
  have k: "btf_kind (btf_last_type b) = btf_kind l" "btf_vlen (btf_last_type b) = btf_vlen l"
    by (simp_all add: l(2) btf_kind_def btf_vlen_def)
  have vl: "btf_vlen l < 65535" using v(2) k by simp
  have sz: "btf_type_size t' = btf_type_size t + int (4 * length (mem_words r 0))"
    if "btf_kind t = btf_kind l" "btf_kind t' = btf_kind l" "btf_vlen t = btf_vlen l" "btf_vlen t' = btf_vlen l + 1" for t t'
    using v(1) k entry_size [of t' t] that
    by (cases r) (auto simp: btf_is_composite_def btf_is_enum_def btf_is_enum64_def btf_is_func_proto_def btf_is_datasec_def)
  have "4 * length (mem_words r off) = 4 * length (mem_words r 0)" for off by (cases r) simp_all
  then show ?thesis
    unfolding run_member_course [OF v(1) ne]
    by (intro add_to_last_ok [where r = r and mk = "mem_words r" and upd = "mem_upd r", OF c ne n l(1) refl refl _ mem_upd_info [OF vl kind_bound] vl sz])
qed

lemma member_invalid:
  assumes "bb_offs b = [] \<or> \<not> mem_valid r (btf_last_type b)"
  shows "run_member al r (b # base) \<in> {Inr (- EINVAL, b # base), Inr (- E2BIG, b # base)}"
  using assms by (cases r) (auto simp: btf__add_field_def btf__add_enum_value_def btf__add_enum64_value_def btf__add_func_param_def
    btf__add_datasec_var_info_def Let_def EINVAL_def)

text \<open>The count of entries of a type is not bounded when one is added: after 65535 it is 0.\<close>

lemma inc_vlen_wraps:
  assumes "btf_vlen t = 65535"
  shows "btf_vlen (btf_type_inc_vlen t) = 0"
proof -
  have "(0xFFFF :: u32) = mask 16" by (simp add: mask_eq_exp_minus_1)
  moreover have "take_bit 16 (btf_type_info (btf_kind t) 65536 (btf_kflag t)) = 0"
    by (rule bit_word_eqI) (auto simp: btf_type_info_def bit_simps)
  ultimately show ?thesis using assms by (simp add: btf_vlen_def btf_type_inc_vlen_def take_bit_eq_mask)
qed

section \<open>Properties\<close>

text \<open>
  C37. Names are strings without a zero byte, and the number of types fits an \<open>int\<close>. A request to append a type with arguments outside the documented range is refused with
  \<open>EINVAL\<close> and changes nothing. A valid request on a well-formed chain of instances leaves a well-formed
  chain in which all older types and strings are kept; it returns \<open>ENOMEM\<close> without a new type, which
  does not happen to a modifiable instance with memory and room left in its sections, or the next free id, under which a reader finds a type of the requested kind and contents whose name offset gives the
  requested name. The only other outcome, for instances on a base, is that the sum of the string offsets exceeds
  \<open>int\<close>.
\<close>

theorem add_type_found_by_readers:
  assumes "bchain_ok (b # base)" "\<forall>s. req_name r = Some s \<longrightarrow> 0 \<notin> set s" "btf__type_cnt (map to_btf (b # base)) \<le> nat INT_MAX"
  shows "if req_valid r
    then add_result (b # base) (req_name r) (req_type r) (run_add al r (b # base)) \<and>
      (base = [] \<and> roomy (al 0) 24 (req_name r) b \<longrightarrow> (\<exists>c'. run_add al r [b] = Inr (int (btf__type_cnt [to_btf b]), c')))
    else run_add al r (b # base) = Inr (- EINVAL, b # base)"
proof (cases "req_valid r")
  case True
  have res: "add_result (b # base) (req_name r) (req_type r) (run_add al r (b # base))"
    by (rule run_add_valid [OF assms(1) _ assms(2,3) True]) simp
  moreover have "\<exists>c'. run_add al r [b] = Inr (int (btf__type_cnt [to_btf b]), c')" if nil: "base = []" and room: "roomy (al 0) 24 (req_name r) b"
  proof -
    obtain ret c' where r: "run_add al r [b] = Inr (ret, c')" "outcome [b] (req_name r) (req_type r) ret c'"
      using res unfolding nil by (auto simp: add_result_def)
    have "0 \<le> ret" using run_add_room [where al = al, OF _ assms(2) room _ True r(1)] assms(1,3) nil by simp
    then have "ret = int (btf__type_cnt [to_btf b])" using r(2) by (simp add: outcome_def Let_def ENOMEM_def)
    then show ?thesis using r(1) by blast
  qed
  ultimately show ?thesis using True by simp
next
  case False
  then show ?thesis using run_add_invalid by simp
qed

text \<open>
  C38. The last type has fewer than 65535 entries (the next one would overflow the count), and names are strings without a zero byte. A request to append a
  member, an enumerator, a parameter or a variable is refused, changing nothing, when
  there is no type, when the last type is of another kind or when its arguments are out of range. Otherwise
  the last type keeps its name, kind and third word and gets one entry more, the requested one, behind those
  it has, and the types before it, the strings and the base instances are kept; or there is no memory, and all types
  and strings are kept; or, over a base, the addition of the string offset overflows. Without a base, and with memory and room in the
  sections, the entry is added.
\<close>

theorem add_member_extends_last_type:
  assumes "bchain_ok (b # base)" "\<forall>s. mem_name r = Some s \<longrightarrow> 0 \<notin> set s" "btf_vlen (btf_last_type b) < 65535"
  shows "if bb_offs b = [] \<or> \<not> mem_valid r (btf_last_type b)
    then run_member al r (b # base) \<in> {Inr (- EINVAL, b # base), Inr (- E2BIG, b # base)}
    else run_member al r (b # base) = Inl Signed_Overflow \<and> base \<noteq> [] \<or>
      (\<exists>ret c'. run_member al r (b # base) = Inr (ret, c') \<and> member_outcome (b # base) r ret c' \<and>
         (base = [] \<and> roomy (al 0) 12 (mem_name r) b \<longrightarrow> ret = 0))"
proof (cases "bb_offs b = [] \<or> \<not> mem_valid r (btf_last_type b)")
  case True
  then show ?thesis using member_invalid by simp
next
  case False
  have "ret = 0" if "base = []" "roomy (al 0) 12 (mem_name r) b" "run_member al r (b # base) = Inr (ret, c')" for ret c'
  proof -
    have "4 * length (mem_words r 0) \<le> 12" by (cases r) simp_all
    then have room: "roomy (al 0) (4 * length (mem_words r 0)) (mem_name r) b" by (rule roomy_mono [OF that(2)])
    have "add_to_last al (4 * length (mem_words r 0)) (mem_name r) (mem_words r) (mem_upd r) [b] = Inr (ret, c')"
      using run_member_course [of r b al base] that(1,3) False by simp
    then show ?thesis using add_to_last_room [where al = al, OF _ assms(2) room] assms(1) that(1) by blast
  qed
  then show ?thesis using False member_valid [OF assms(1) _ assms(2) _ assms(3), of al] by auto
qed

section \<open>A structure without members\<close>

definition struct_set :: strset where
  "struct_set = \<lparr>ss_data = \<lparr>ma_data = [0, 115, 0], ma_cap = 3\<rparr>, ss_data_len = 3, ss_data_max_len = BTF_MAX_STR_OFFSET, ss_hash = hashmap__init\<rparr>"

definition struct_bb :: bbtf where
  "struct_bb = \<lparr>bb_hdr = \<lparr>hd_magic = 0xEB9F, hd_version = 1, hd_flags = 0, hd_hdr_len = 24, hd_type_off = 0,
     hd_type_len = 12, hd_str_off = 12, hd_str_len = 3\<rparr>,
     bb_types = \<lparr>ma_data = [1, 0, 0, 0, 0, 0, 0, 4, 4, 0, 0, 0], ma_cap = 12\<rparr>, bb_offs = [0], bb_offs_cap = 16,
     bb_start_id = 1, bb_start_str_off = 0, bb_strs = Interned struct_set, bb_strs_deduped = False, bb_raw_data = False,
     bb_raw_data_swapped = False, bb_swapped_endian = False, bb_ptr_sz = 0\<rparr>"

definition all_memory :: "nat \<Rightarrow> build_allocs" where
  "all_memory = (\<lambda>_. \<lparr>ba_hdr = True, ba_types = True, ba_set = True, ba_hash = True, ba_set_data = True, ba_index = \<lambda>_. (True, True),
     ba_type_mem = True, ba_str_mem = True, ba_str_hash = (True, True), ba_idx = True\<rparr>)"

lemma struct_chain: "bchain_ok [struct_bb]"
proof -
  have v: "to_btf struct_bb = \<lparr>bf_hdr = bb_hdr struct_bb, bf_swapped_endian = False, bf_types_data = [1, 0, 0, 0, 0, 0, 0, 4, 4, 0, 0, 0],
      bf_type_offs = [0], bf_start_id = 1, bf_start_str_off = 0, bf_strs_data = [0, 115, 0], bf_ptr_sz = 0\<rparr>"
    by (simp add: to_btf_def bb_bytes_def bb_str_bytes_def struct_bb_def strset__data_def strset_bytes_def struct_set_def)
  have "btf_wf False (to_btf struct_bb)"
    unfolding v by (simp add: btf_wf_def struct_bb_def) (simp add: btf_parse_str_sec_def BTF_MAX_STR_OFFSET_def type_fits_def base_at_def
      word_at_def btf_type_size_def btf_kind_def btf_vlen_def btf_kinds Let_def)
  moreover have "set_ok struct_set"
    by (simp add: set_ok_def struct_set_def strset_inv_def area_ok_def hm_inv_def hashmap__init_def keys_unique_def hashmap_entries_def BTF_MAX_STR_OFFSET_def)
  ultimately have "bb_ok False struct_bb" by (simp add: bb_ok_def) (simp add: struct_bb_def area_ok_def UINT32_MAX_def)
  then show ?thesis by (simp add: struct_bb_def)
qed

lemma struct_last: "btf_last_type struct_bb = \<lparr>bt_name_off = 1, bt_info = 0x04000000, bt_type = 4, bt_words = []\<rparr>"
  by (simp add: btf_last_type_def struct_bb_def base_at_def word_at_def)

lemma struct_roomy: "n \<le> 24 \<Longrightarrow> roomy (all_memory 0) n (Some [c]) struct_bb"
  by (simp add: roomy_def all_memory_def struct_bb_def struct_set_def str_room_def hashmap__init_def UINT32_MAX_def BTF_MAX_NR_TYPES_def BTF_MAX_STR_OFFSET_def)

lemma struct_cnt: "btf__type_cnt [to_btf struct_bb] = 2"
  by (simp add: cnt_to_btf struct_bb_def)

theorem add_type_found_by_readers_witness:
  "\<exists>c'. run_add all_memory (Add_Int (Some [105]) 4 1) [struct_bb] = Inr (2, c') \<and>
     outcome [struct_bb] (Some [105]) (BTF_KIND_INT, 0, False, 4, [push_bit 24 1 OR ucast ((4 :: u64) * 8)]) 2 c'"
  using add_type_found_by_readers [OF struct_chain, of "Add_Int (Some [105]) 4 1" all_memory] struct_roomy [of 24 105]
  by (auto simp: struct_cnt has_name_def INT_MAX_def add_result_def)

theorem add_member_extends_last_type_witness:
  "\<exists>c'. run_member all_memory (Add_Field (Some [120]) 1 0 0) [struct_bb] = Inr (0, c') \<and>
     member_outcome [struct_bb] (Add_Field (Some [120]) 1 0 0) 0 c'"
proof -
  have v: "mem_valid (Add_Field (Some [120]) 1 0 0) (btf_last_type struct_bb)" "btf_vlen (btf_last_type struct_bb) < 65535"
    by (simp_all add: struct_last btf_is_composite_def btf_is_union_def btf_kind_def btf_vlen_def btf_kinds id_ok_def bitfield_def BTF_MAX_NR_TYPES_def)
  have ne: "bb_offs struct_bb \<noteq> []" by (simp add: struct_bb_def)
  show ?thesis using add_member_extends_last_type [OF struct_chain _ v(2), of "Add_Field (Some [120]) 1 0 0" all_memory]
      v(1) ne struct_roomy [of 12 120] by auto
qed

end
