(* ===== verification/Btf_Copy.thy ===== *)
theory Btf_Copy
  imports Btf_Add
begin

text \<open>
  Copying of types between instances (\<open>libbpf/src/btf.c\<close>): the visits of type ids and string offsets inside a type, the
  visitor that translates strings, and \<open>btf__add_type\<close>. A type in memory is the list of its words; a
  visitor gets a word and a state of its own and returns its result, the word to store and the state.
\<close>

section \<open>Visits\<close>

type_synonym 's word_visitor = "u32 \<Rightarrow> 's \<Rightarrow> fault + (int \<times> u32 \<times> 's)"

text \<open>The words at the given places are visited in order; the first result that is not 0 ends the visit.\<close>

fun visit_at :: "'s word_visitor \<Rightarrow> nat list \<Rightarrow> u32 list \<Rightarrow> 's \<Rightarrow> fault + (int \<times> u32 list \<times> 's)" where
  "visit_at visit [] ws s = Inr (0, ws, s)"
| "visit_at visit (i # is) ws s =
     (if i < length ws then
        bindR (visit (ws ! i) s) (\<lambda>(err, w, s). if err \<noteq> 0 then Inr (err, ws[i := w], s) else visit_at visit is (ws[i := w]) s)
      else Inl Out_Of_Bounds)"

text \<open>The places of a field of the entries that follow a type; an entry has \<open>n\<close> words.\<close>

definition entry_places :: "nat \<Rightarrow> nat \<Rightarrow> btf_type \<Rightarrow> nat list" where
  "entry_places n field t = map (\<lambda>i. 3 + n * i + field) [0..<btf_vlen t]"

definition type_id_places :: "btf_type \<Rightarrow> nat list option" where
  "type_id_places t = (let k = btf_kind t in
     if k \<in> {BTF_KIND_INT, BTF_KIND_FLOAT, BTF_KIND_ENUM, BTF_KIND_ENUM64} then Some []
     else if k \<in> {BTF_KIND_FWD, BTF_KIND_CONST, BTF_KIND_VOLATILE, BTF_KIND_RESTRICT, BTF_KIND_PTR, BTF_KIND_TYPEDEF, BTF_KIND_FUNC,
       BTF_KIND_VAR, BTF_KIND_DECL_TAG, BTF_KIND_TYPE_TAG} then Some [2]
     else if k = BTF_KIND_ARRAY then Some [3, 4]
     else if k = BTF_KIND_STRUCT \<or> k = BTF_KIND_UNION then Some (entry_places 3 1 t)
     else if k = BTF_KIND_FUNC_PROTO then Some (2 # entry_places 2 1 t)
     else if k = BTF_KIND_DATASEC then Some (entry_places 3 0 t)
     else None)"

definition btf_type_visit_type_ids :: "'s word_visitor \<Rightarrow> u32 list \<Rightarrow> 's \<Rightarrow> fault + (int \<times> u32 list \<times> 's)" where
  "btf_type_visit_type_ids visit ws s = (case type_id_places (type_of_words ws) of
     None \<Rightarrow> Inr (- EINVAL, ws, s) | Some places \<Rightarrow> visit_at visit places ws s)"

definition str_off_places :: "btf_type \<Rightarrow> nat list" where
  "str_off_places t = (let k = btf_kind t in
     0 # (if k = BTF_KIND_STRUCT \<or> k = BTF_KIND_UNION then entry_places 3 0 t
          else if k = BTF_KIND_ENUM then entry_places 2 0 t
          else if k = BTF_KIND_ENUM64 then entry_places 3 0 t
          else if k = BTF_KIND_FUNC_PROTO then entry_places 2 0 t
          else []))"

definition btf_type_visit_str_offs :: "'s word_visitor \<Rightarrow> u32 list \<Rightarrow> 's \<Rightarrow> fault + (int \<times> u32 list \<times> 's)" where
  "btf_type_visit_str_offs visit ws s = visit_at visit (str_off_places (type_of_words ws)) ws s"

section \<open>Copying\<close>

text \<open>
  The state of \<open>struct btf_pipe\<close>: the destination and the map of string offsets; \<open>cs_calls\<close> counts the strings added so far, so that
  the allocator may answer each addition differently.
\<close>

record btf_pipe =
  cs_dst :: bchain
  cs_str_off_map :: "(u64, u32) hashmap option"
  cs_calls :: nat

definition mapped_str :: "u32 \<Rightarrow> btf_pipe \<Rightarrow> fault + u32 option" where
  "mapped_str w p = (case cs_str_off_map p of None \<Rightarrow> Inr None | Some m \<Rightarrow> hashmap__find (\<lambda>k. k) (=) m (ucast w))"

text \<open>\<open>als i\<close> and \<open>hm_ok i\<close> are the answers of the allocator to addition \<open>i\<close>, for the strings and for the map.\<close>

definition btf_rewrite_str :: "(nat \<Rightarrow> nat \<Rightarrow> build_allocs) \<Rightarrow> (nat \<Rightarrow> bool \<times> bool) \<Rightarrow> btf_chain \<Rightarrow> btf_pipe word_visitor" where
  "btf_rewrite_str als hm_ok src w p =
     (if w = 0 then Inr (0, w, p)
      else bindR (mapped_str w p) (\<lambda>mapped. case mapped of
          Some off \<Rightarrow> Inr (0, off, p)
        | None \<Rightarrow> bindR (btf__str_by_offset src (unat w)) (\<lambda>s. case s of
            None \<Rightarrow> Inl Out_Of_Bounds
          | Some s \<Rightarrow> bindR (btf__add_str (als (cs_calls p)) s (cs_dst p)) (\<lambda>(off, dst).
              let p = p\<lparr>cs_dst := dst, cs_calls := cs_calls p + 1\<rparr> in
              if off < 0 then Inr (off, w, p)
              else (case cs_str_off_map p of
                  None \<Rightarrow> Inr (0, of_int off, p)
                | Some m \<Rightarrow> bindR (hashmap__insert (\<lambda>k. k) (=) (fst (hm_ok (cs_calls p))) (snd (hm_ok (cs_calls p))) HASHMAP_APPEND (ucast w) (of_int off) m)
                    (\<lambda>(err, old, m). if err \<noteq> 0 then Inr (err, w, p\<lparr>cs_str_off_map := Some m\<rparr>)
                       else Inr (0, of_int off, p\<lparr>cs_str_off_map := Some m\<rparr>)))))))"

definition type_words :: "btf_type \<Rightarrow> u32 list" where
  "type_words t = bt_name_off t # bt_info t # bt_type t # bt_words t"

text \<open>
  The copy of the source type is rewritten in the memory behind the types of the destination; additions of strings do not touch that
  memory. \<open>al\<close> has the answers for the instance, \<open>als\<close> those for the strings.
\<close>

definition store_copy :: "bool \<Rightarrow> nat \<Rightarrow> nat \<Rightarrow> int \<times> u32 list \<times> btf_pipe \<Rightarrow> int \<times> bchain" where
  "store_copy idx_ok at sz r = (case r of (err, ws, p) \<Rightarrow>
     let b = put_words at ws (hd (cs_dst p)) in
     if err \<noteq> 0 then (err, b # tl (cs_dst p))
     else (case btf_commit_type idx_ok sz b of (ret, b) \<Rightarrow> (ret, b # tl (cs_dst p))))"

definition btf__add_type ::
  "(nat \<Rightarrow> build_allocs) \<Rightarrow> (nat \<Rightarrow> nat \<Rightarrow> build_allocs) \<Rightarrow> btf_chain \<Rightarrow> btf_type \<Rightarrow> bchain \<Rightarrow> fault + (int \<times> bchain)" where
  "btf__add_type al als src src_type c =
     (let sz = btf_type_size src_type in
      if sz < 0 then Inr (sz, c)
      else bindR (reserve al (nat sz) None c) (\<lambda>(err, at, c).
        if err < 0 then Inr (err, c)
        else bindR (btf_type_visit_str_offs (btf_rewrite_str als (\<lambda>_. (True, True)) src) (type_words src_type)
               \<lparr>cs_dst = c, cs_str_off_map = None, cs_calls = 0\<rparr>) (\<lambda>r. Inr (store_copy (ba_idx (al (length (tl c)))) at (nat sz) r))))"

section \<open>The contract of a visitor\<close>

text \<open>
  A visitor keeps an invariant of its state, makes the state only later, and when it succeeds stores a word that is good for the old one;
  good words stay good in later states. Faults it may have are known from the state.
\<close>

definition runs_out :: "'s word_visitor \<Rightarrow> bool" where
  "runs_out visit \<longleftrightarrow> (\<exists>w s w' s'. visit w s = Inr (- ENOMEM, w', s'))"

locale visitor =
  fixes visit :: "'s word_visitor" and inv :: "'s \<Rightarrow> bool" and later :: "'s \<Rightarrow> 's \<Rightarrow> bool" and good :: "'s \<Rightarrow> u32 \<Rightarrow> u32 \<Rightarrow> bool"
    and pre :: "u32 \<Rightarrow> bool" and fails :: "fault \<Rightarrow> 's \<Rightarrow> bool"
  assumes visit_ok: "inv s \<Longrightarrow> pre w \<Longrightarrow> (\<exists>f. visit w s = Inl f \<and> fails f s) \<or>
      (\<exists>err w' s'. visit w s = Inr (err, w', s') \<and> inv s' \<and> later s s' \<and> (err = 0 \<and> good s' w w' \<or> err = - ENOMEM))"
    and later_refl: "inv s \<Longrightarrow> later s s"
    and later_trans: "later s s' \<Longrightarrow> later s' s'' \<Longrightarrow> later s s''"
    and good_later: "inv s \<Longrightarrow> inv s' \<Longrightarrow> later s s' \<Longrightarrow> good s w w' \<Longrightarrow> good s' w w'"
    and fails_later: "later s s' \<Longrightarrow> fails f s' \<Longrightarrow> fails f s"
begin

lemma visit_at_ok:
  assumes "inv s" "\<forall>i\<in>set is. i < length ws \<and> pre (ws ! i)" "distinct is"
  shows "(\<exists>f. visit_at visit is ws s = Inl f \<and> fails f s) \<or>
    (\<exists>err ws' s'. visit_at visit is ws s = Inr (err, ws', s') \<and> inv s' \<and> later s s' \<and> length ws' = length ws \<and>
      (\<forall>i<length ws. i \<notin> set is \<longrightarrow> ws' ! i = ws ! i) \<and>
      (err = 0 \<and> (\<forall>i\<in>set is. good s' (ws ! i) (ws' ! i)) \<or> err = - ENOMEM \<and> runs_out visit))"
  using assms
proof (induction "is" arbitrary: ws s)
  case Nil
  then show ?case using later_refl by simp
next
  case (Cons i "is")
  have i: "i < length ws" "pre (ws ! i)" "i \<notin> set is" using Cons.prems by auto
  show ?case
  proof (cases "visit (ws ! i) s")
    case (Inl f)
    then show ?thesis using visit_ok [OF Cons.prems(1) i(2)] i by auto
  next
    case (Inr r)
    then obtain err w s1 where v: "visit (ws ! i) s = Inr (err, w, s1)" "inv s1" "later s s1" "err = 0 \<and> good s1 (ws ! i) w \<or> err = - ENOMEM"
      using visit_ok [OF Cons.prems(1) i(2)] by auto
    show ?thesis
    proof (cases "err = 0")
      case False
      then have "runs_out visit" using v(1,4) by (auto simp: runs_out_def)
      then show ?thesis using v i False by auto
    next
      case True
      let ?ws = "ws[i := w]"
      have run: "visit_at visit (i # is) ws s = visit_at visit is ?ws s1" using v(1) True i by simp
      have "\<forall>j\<in>set is. j < length ?ws \<and> pre (?ws ! j)" using Cons.prems(2) i(3) by (metis length_list_update list.set_intros(2) nth_list_update_neq)
      from Cons.IH [OF v(2) this] Cons.prems(3) consider (fault) f where "visit_at visit is ?ws s1 = Inl f" "fails f s1"
        | (ret) err' ws' s' where "visit_at visit is ?ws s1 = Inr (err', ws', s')" "inv s'" "later s1 s'" "length ws' = length ws"
            "\<forall>j<length ws. j \<notin> set is \<longrightarrow> ws' ! j = ?ws ! j" "err' = 0 \<and> (\<forall>j\<in>set is. good s' (?ws ! j) (ws' ! j)) \<or> err' = - ENOMEM \<and> runs_out visit"
        by auto
      then show ?thesis
      proof cases
        case fault
        then show ?thesis using run fails_later [OF v(3)] by auto
      next
        case ret
        have "good s' (ws ! i) (ws' ! i)" using good_later [OF v(2) ret(2,3)] v(4) True ret(5) i by (simp add: ENOMEM_def)
        moreover have "?ws ! j = ws ! j" if "j \<in> set is" for j using that i(3) by (metis nth_list_update_neq)
        ultimately show ?thesis using run ret later_trans [OF v(3) ret(3)] by auto
      qed
    qed
  qed
qed

end

section \<open>Strings keep their text\<close>

text \<open>Two offsets, in the source and in the destination, that denote the same string.\<close>

definition same_str :: "btf_chain \<Rightarrow> u32 \<Rightarrow> btf_chain \<Rightarrow> u32 \<Rightarrow> bool" where
  "same_str src w dst w' \<longleftrightarrow> (if w = 0 then w' = 0
     else \<exists>s. btf__str_by_offset src (unat w) = Inr (Some s) \<and> btf__str_by_offset dst (unat w') = Inr (Some s))"

definition has_str :: "btf_chain \<Rightarrow> u32 \<Rightarrow> bool" where
  "has_str src w \<longleftrightarrow> w = 0 \<or> (\<exists>s. btf__str_by_offset src (unat w) = Inr (Some s))"

definition off_map_ok :: "btf_chain \<Rightarrow> btf_chain \<Rightarrow> (u64, u32) hashmap \<Rightarrow> bool" where
  "off_map_ok src dst m \<longleftrightarrow> hm_inv (\<lambda>k. k) m \<and> keys_unique (=) (hashmap_entries m) \<and>
     (\<forall>w off. w \<noteq> 0 \<longrightarrow> hm_map (=) m (ucast (w :: u32)) = Some off \<longrightarrow> same_str src w dst off)"

definition pipe_ok :: "btf_chain \<Rightarrow> btf_pipe \<Rightarrow> bool" where
  "pipe_ok src p \<longleftrightarrow> bchain_ok (cs_dst p) \<and> cs_dst p \<noteq> [] \<and> (\<exists>st. bb_strs (hd (cs_dst p)) = Interned st) \<and>
     (\<forall>m. cs_str_off_map p = Some m \<longrightarrow> off_map_ok src (map to_btf (cs_dst p)) m)"

definition pipe_later :: "btf_pipe \<Rightarrow> btf_pipe \<Rightarrow> bool" where
  "pipe_later p p' \<longleftrightarrow> strs_grow (hd (cs_dst p)) (hd (cs_dst p')) \<and> map to_btf (tl (cs_dst p')) = map to_btf (tl (cs_dst p))"

lemma str_no_zero: "btf__str_by_offset c off = Inr (Some s) \<Longrightarrow> 0 \<notin> set s"
  by (induction c off rule: btf__str_by_offset.induct) (auto simp: Let_def cstr_def btf__str_by_offset.simps dest: set_takeWhileD split: if_splits)

lemma chain_later_keeps:
  assumes "bchain_ok (b # base)" "bchain_ok (b' # base')" "strs_grow b b'" "map to_btf base' = map to_btf base"
  shows "keeps (map to_btf (b # base)) (map to_btf (b' # base'))"
proof -
  have "bb_ok (base \<noteq> []) b" "bb_ok (base' \<noteq> []) b'" using assms(1,2) by auto
  from extends_keeps [OF this strs_grow_extends [OF assms(3)]] show ?thesis using assms(4) by simp
qed

lemma same_str_keeps: "keeps dst dst' \<Longrightarrow> same_str src w dst w' \<Longrightarrow> same_str src w dst' w'"
  by (auto simp: same_str_def keeps_def split: if_splits)

lemma off_map_keeps: "keeps dst dst' \<Longrightarrow> off_map_ok src dst m \<Longrightarrow> off_map_ok src dst' m"
  by (auto simp: off_map_ok_def intro: same_str_keeps)

interpretation offset_keys: hash_keys "\<lambda>k :: u64. k" "(=)"
  by unfold_locales simp_all

lemma append_absent:
  assumes "hm_inv (\<lambda>k. k) m" "hm_map (=) m key = None"
  shows "hashmap__insert (\<lambda>k. k) (=) a b HASHMAP_APPEND key v m = hashmap__insert (\<lambda>k. k) (=) a b HASHMAP_ADD key v m"
  using offset_keys.find_entry_ok [OF assms(1), of key] assms(2) by (auto simp: hashmap__insert_def Let_def)

lemma ucast_inj: "(ucast (w :: u32) :: u64) = ucast w' \<Longrightarrow> w = w'"
  by (metis unat_ucast_u64 word_unat_eq_iff)

lemma off_map_append:
  assumes m: "off_map_ok src dst m" and none: "hm_map (=) m (ucast w) = None" and same: "same_str src w dst off"
  shows "\<exists>err old m'. hashmap__insert (\<lambda>k. k) (=) a b HASHMAP_APPEND (ucast w) off m = Inr (err, old, m') \<and> off_map_ok src dst m' \<and> (err = 0 \<or> err = - ENOMEM)"
proof -
  have i: "hm_inv (\<lambda>k. k) m" "keys_unique (=) (hashmap_entries m)" using m by (auto simp: off_map_ok_def)
  obtain err old m' where r: "hashmap__insert (\<lambda>k. k) (=) a b HASHMAP_ADD (ucast w) off m = Inr (err, old, m')" "hm_inv (\<lambda>k. k) m'"
    "keys_unique (=) (hashmap_entries m')" "err = 0 \<and> hm_map (=) m' = upd_key (=) (hm_map (=) m) (ucast w) (Some off) \<or> err = - ENOMEM \<and> hm_map (=) m' = hm_map (=) m"
    using offset_keys.insert_ok [OF i, of HASHMAP_ADD a b "ucast w" off] none by auto
  have "off_map_ok src dst m'" using m r(2-4) same ucast_inj [of w] by (auto simp: off_map_ok_def upd_key_def split: if_splits)
  then show ?thesis using r append_absent [OF i(1) none] by auto
qed

lemma mapped_str_ok:
  assumes "pipe_ok src p"
  shows "\<exists>mapped. mapped_str w p = Inr mapped \<and> (\<forall>off. w \<noteq> 0 \<and> mapped = Some off \<longrightarrow> same_str src w (map to_btf (cs_dst p)) off) \<and>
    (\<forall>m. mapped = None \<and> cs_str_off_map p = Some m \<longrightarrow> hm_map (=) m (ucast w) = None)"
proof (cases "cs_str_off_map p")
  case (Some m)
  then have "off_map_ok src (map to_btf (cs_dst p)) m" using assms by (simp add: pipe_ok_def)
  then show ?thesis using Some offset_keys.find_ok [of m] by (auto simp: mapped_str_def off_map_ok_def)
qed (simp add: mapped_str_def)

text \<open>One string more in the destination.\<close>

lemma add_str_pipe:
  fixes p :: btf_pipe and n :: nat
  assumes p: "pipe_ok src p" and w: "w \<noteq> 0" and s: "btf__str_by_offset src (unat w) = Inr (Some s)"
  defines "after \<equiv> \<lambda>dst. p\<lparr>cs_dst := dst, cs_calls := n\<rparr>"
  shows "btf__add_str al s (cs_dst p) = Inl Signed_Overflow \<and> tl (cs_dst p) \<noteq> [] \<or>
    (\<exists>off dst. btf__add_str al s (cs_dst p) = Inr (off, dst) \<and> pipe_ok src (after dst) \<and> pipe_later p (after dst) \<and>
      (off = - ENOMEM \<or> 0 \<le> off \<and> same_str src w (map to_btf dst) (of_int off)))"
proof -
  obtain b base st where d: "cs_dst p = b # base" "bchain_ok (b # base)" "bb_strs b = Interned st" using p by (cases "cs_dst p") (auto simp: pipe_ok_def)
  consider (ovf) "btf__add_str al s (b # base) = Inl Signed_Overflow" "base \<noteq> []"
    | (ret) off b' base' where "btf__add_str al s (b # base) = Inr (off, b' # base')" "bchain_ok (b' # base')" "strs_grow b b'" "map to_btf base' = map to_btf base"
        "off = - ENOMEM \<or> 0 \<le> off \<and> off \<le> INT_MAX \<and> btf__str_by_offset (map to_btf (b' # base')) (nat off) = Inr (Some s)"
    using add_str_chain [OF d(2,3) str_no_zero [OF s], of al] by metis
  then show ?thesis
  proof cases
    case ovf
    then show ?thesis using d(1) by simp
  next
    case (ret off b' base')
    have k: "keeps (map to_btf (cs_dst p)) (map to_btf (b' # base'))" unfolding d(1) by (rule chain_later_keeps [OF d(2) ret(2-4)])
    have "\<exists>st. bb_strs b' = Interned st" using ret(3) by (auto simp: strs_grow_def)
    then have "pipe_ok src (after (b' # base'))" using p ret(2) off_map_keeps [OF k] by (auto simp: pipe_ok_def after_def)
    moreover have "pipe_later p (after (b' # base'))" using d(1) ret(3,4) by (auto simp: pipe_later_def after_def)
    moreover have "off = - ENOMEM \<or> 0 \<le> off \<and> same_str src w (map to_btf (b' # base')) (of_int off)"
      using ret(5) s w unat_of_int_small [of off] by (auto simp: same_str_def)
    ultimately show ?thesis using ret(1) d(1) by auto
  qed
qed

lemma rewrite_str_ok:
  assumes p: "pipe_ok src p" and w: "has_str src w"
  shows "btf_rewrite_str als hm_ok src w p = Inl Signed_Overflow \<and> tl (cs_dst p) \<noteq> [] \<or>
    (\<exists>err w' p'. btf_rewrite_str als hm_ok src w p = Inr (err, w', p') \<and> pipe_ok src p' \<and> pipe_later p p' \<and>
      (err = 0 \<and> same_str src w (map to_btf (cs_dst p')) w' \<or> err = - ENOMEM))"
proof -
  obtain mapped where m: "mapped_str w p = Inr mapped" "\<forall>off. w \<noteq> 0 \<and> mapped = Some off \<longrightarrow> same_str src w (map to_btf (cs_dst p)) off"
    "\<forall>m. mapped = None \<and> cs_str_off_map p = Some m \<longrightarrow> hm_map (=) m (ucast w) = None" using mapped_str_ok [OF p] by blast
  have same: "pipe_later p p" using p strs_grow_refl by (auto simp: pipe_later_def pipe_ok_def)
  show ?thesis
  proof (cases "w = 0 \<or> mapped \<noteq> None")
    case True
    then show ?thesis using m p same by (auto simp: btf_rewrite_str_def same_str_def)
  next
    case False
    then obtain s where s: "btf__str_by_offset src (unat w) = Inr (Some s)" using w by (auto simp: has_str_def)
    let ?after = "\<lambda>dst. p\<lparr>cs_dst := dst, cs_calls := cs_calls p + 1\<rparr>"
    consider (ovf) "btf__add_str (als (cs_calls p)) s (cs_dst p) = Inl Signed_Overflow" "tl (cs_dst p) \<noteq> []"
      | (nomem) dst where "btf__add_str (als (cs_calls p)) s (cs_dst p) = Inr (- ENOMEM, dst)" "pipe_ok src (?after dst)" "pipe_later p (?after dst)"
      | (ret) off dst where "btf__add_str (als (cs_calls p)) s (cs_dst p) = Inr (off, dst)" "pipe_ok src (?after dst)" "pipe_later p (?after dst)"
          "0 \<le> off" "same_str src w (map to_btf dst) (of_int off)"
      using add_str_pipe [OF p _ s, of "als (cs_calls p)" "cs_calls p + 1"] False by metis
    then show ?thesis
    proof cases
      case ovf
      then show ?thesis using False m(1) s by (simp add: btf_rewrite_str_def)
    next
      case (nomem dst)
      then have "btf_rewrite_str als hm_ok src w p = Inr (- ENOMEM, w, ?after dst)" using False m(1) s by (simp add: btf_rewrite_str_def Let_def ENOMEM_def)
      then show ?thesis using nomem(2,3) by blast
    next
      case (ret off dst)
      show ?thesis
      proof (cases "cs_str_off_map p")
        case None
        then have "btf_rewrite_str als hm_ok src w p = Inr (0, of_int off, ?after dst)" using False m(1) s ret(1,4) by (simp add: btf_rewrite_str_def Let_def)
        then show ?thesis using ret(2,3,5) by auto
      next
        case (Some mm)
        let ?a = "hm_ok (cs_calls p + 1)"
        have "hm_map (=) mm (ucast w) = None" "off_map_ok src (map to_btf dst) mm" using m(3) Some False ret(2) by (auto simp: pipe_ok_def)
        from off_map_append [OF this(2,1) ret(5), of "fst ?a" "snd ?a"] obtain err old m'
          where i: "hashmap__insert (\<lambda>k. k) (=) (fst ?a) (snd ?a) HASHMAP_APPEND (ucast w) (of_int off) mm = Inr (err, old, m')"
            "off_map_ok src (map to_btf dst) m'" "err = 0 \<or> err = - ENOMEM" by blast
        have "btf_rewrite_str als hm_ok src w p = Inr (err, if err \<noteq> 0 then w else of_int off, (?after dst)\<lparr>cs_str_off_map := Some m'\<rparr>)"
          using False m(1) s ret(1,4) Some i(1) by (simp add: btf_rewrite_str_def Let_def)
        moreover have "pipe_ok src ((?after dst)\<lparr>cs_str_off_map := Some m'\<rparr>)" using ret(2) i(2) by (simp add: pipe_ok_def)
        moreover have "pipe_later p ((?after dst)\<lparr>cs_str_off_map := Some m'\<rparr>)" using ret(3) by (simp add: pipe_later_def)
        ultimately show ?thesis using i(3) ret(5) by auto
      qed
    qed
  qed
qed

interpretation strings: visitor "btf_rewrite_str als hm_ok src" "pipe_ok src" pipe_later
    "\<lambda>p w w'. same_str src w (map to_btf (cs_dst p)) w'" "has_str src" "\<lambda>f p. f = Signed_Overflow \<and> tl (cs_dst p) \<noteq> []" for als hm_ok src
proof (unfold_locales, goal_cases)
  case (1 p w)
  then show ?case using rewrite_str_ok [of src p w als hm_ok] by auto
next
  case (2 p)
  then show ?case using strs_grow_refl by (auto simp: pipe_later_def pipe_ok_def)
next
  case (3 p p1 p2)
  then show ?case using strs_grow_trans by (auto simp: pipe_later_def)
next
  case (4 p p1 w w')
  obtain b base b1 base1 where d: "cs_dst p = b # base" "cs_dst p1 = b1 # base1" using 4(1,2) by (auto simp: pipe_ok_def neq_Nil_conv)
  have "keeps (map to_btf (b # base)) (map to_btf (b1 # base1))"
    by (rule chain_later_keeps) (use 4(1-3) d in \<open>auto simp: pipe_ok_def pipe_later_def\<close>)
  then show ?case using 4(4) d same_str_keeps by metis
next
  case (5 p p1 f)
  then show ?case by (auto simp: pipe_later_def)
qed

section \<open>The copy of one type\<close>

lemma type_of_type_words [simp]: "type_of_words (type_words t) = t"
  by (simp add: type_of_words_def type_words_def)

lemma entry_places_ok:
  assumes "0 < n" "f < n"
  shows "distinct (entry_places n f t)" "x \<in> set (entry_places n f t) \<Longrightarrow> 3 \<le> x \<and> x < 3 + n * btf_vlen t"
proof -
  show "distinct (entry_places n f t)" using assms by (auto simp: entry_places_def distinct_map inj_on_def)
  show "3 \<le> x \<and> x < 3 + n * btf_vlen t" if x: "x \<in> set (entry_places n f t)"
  proof -
    obtain i where i: "i < btf_vlen t" "x = 3 + n * i + f" using x by (auto simp: entry_places_def)
    have "n * (i + 1) \<le> n * btf_vlen t" using i(1) by (intro mult_le_mono2) simp
    then show ?thesis using i assms by simp
  qed
qed

lemma str_off_places_ok:
  assumes "words_ok ws"
  shows "distinct (str_off_places (type_of_words ws)) \<and> (\<forall>i\<in>set (str_off_places (type_of_words ws)). i < length ws \<and> i \<noteq> 1 \<and> i \<noteq> 2)"
proof -
  let ?t = "type_of_words ws"
  have len: "3 \<le> length ws" "btf_type_size ?t = 4 * int (length ws)" using assms by (auto simp: words_ok_def)
  have three_len: "length ws = 3 + 3 * btf_vlen ?t" if "btf_kind ?t \<in> {BTF_KIND_STRUCT, BTF_KIND_UNION, BTF_KIND_ENUM64}"
    using that len(2) by (auto simp: btf_type_size_def Let_def btf_kinds)
  have two_len: "length ws = 3 + 2 * btf_vlen ?t" if "btf_kind ?t \<in> {BTF_KIND_ENUM, BTF_KIND_FUNC_PROTO}"
    using that len(2) by (auto simp: btf_type_size_def Let_def btf_kinds)
  consider (three) "btf_kind ?t \<in> {BTF_KIND_STRUCT, BTF_KIND_UNION, BTF_KIND_ENUM64}" | (two) "btf_kind ?t \<in> {BTF_KIND_ENUM, BTF_KIND_FUNC_PROTO}"
    | (one) "btf_kind ?t \<notin> {BTF_KIND_STRUCT, BTF_KIND_UNION, BTF_KIND_ENUM64, BTF_KIND_ENUM, BTF_KIND_FUNC_PROTO}" by blast
  then show ?thesis
  proof cases
    case three
    then have "str_off_places ?t = 0 # entry_places 3 0 ?t" by (auto simp: str_off_places_def Let_def btf_kinds)
    then show ?thesis using three(1) three_len entry_places_ok [where n = 3 and f = 0 and t = ?t] by fastforce
  next
    case two
    then have "str_off_places ?t = 0 # entry_places 2 0 ?t" by (auto simp: str_off_places_def Let_def btf_kinds)
    then show ?thesis using two(1) two_len entry_places_ok [where n = 2 and f = 0 and t = ?t] by fastforce
  next
    case one
    then have "str_off_places ?t = [0]" by (auto simp: str_off_places_def Let_def)
    then show ?thesis using len(1) by auto
  qed
qed

text \<open>What a copy keeps: everything but the string offsets, and of these the strings.\<close>

definition copied :: "btf_chain \<Rightarrow> btf_type \<Rightarrow> btf_chain \<Rightarrow> btf_type \<Rightarrow> bool" where
  "copied src t dst t' \<longleftrightarrow> length (type_words t') = length (type_words t) \<and> (\<forall>i<length (type_words t).
     if i \<in> set (str_off_places t) then same_str src (type_words t ! i) dst (type_words t' ! i) else type_words t' ! i = type_words t ! i)"

lemma words_ok_same_info:
  assumes "words_ok ws" "length ws' = length ws" "ws' ! 1 = ws ! 1"
  shows "words_ok ws'"
  using assms type_size_cong [of "type_of_words ws'" "type_of_words ws"] by (simp add: words_ok_def type_of_words_def)

lemma type_words_of_words: "3 \<le> length ws \<Longrightarrow> type_words (type_of_words ws) = ws"
  by (auto simp: type_words_def type_of_words_def numeral_3_eq_3 Suc_le_length_iff)

text \<open>Committing the words of a type: readers find them, and the strings they had.\<close>

lemma commit_copy:
  assumes c3: "bchain_ok (b3 # base')" and ws: "words_ok ws" and room: "unat (hd_type_len (bb_hdr b3)) + 4 * length ws \<le> ma_cap (bb_types b3)"
    and cm: "btf_commit_type ok (4 * length ws) (put_words (unat (hd_type_len (bb_hdr b3))) ws b3) = (r, b4)"
  shows "keeps (map to_btf (b3 # base')) (map to_btf (b4 # base'))"
proof -
  have ok3: "bb_ok (base' \<noteq> []) b3" using c3 by simp
  have "bb_ok (base' \<noteq> []) b4 \<and> extends b3 b4"
  proof (cases "\<exists>cap. b4 = append_words ws cap b3")
    case True
    then show ?thesis using append_words_ok [OF ok3 ws room] by (auto simp: extends_def)
  next
    case False
    then have "b4 = put_words (unat (hd_type_len (bb_hdr b3))) ws b3" using commit_words [OF cm] by auto
    then show ?thesis using put_words_view [OF ok3 room] same_view_extends by metis
  qed
  then have "keeps (to_btf b3 # map to_btf base') (to_btf b4 # map to_btf base')" using extends_keeps [OF ok3] by blast
  then show ?thesis by simp
qed

lemma reserve_interned:
  assumes "bchain_ok (b # base)" "reserve al sz None (b # base) = Inr (off, at, b' # base')" "0 \<le> off"
  shows "\<exists>st. bb_strs b' = Interned st"
proof -
  obtain err b1 where e: "btf_ensure_modifiable (al (length base)) (base \<noteq> []) b = Inr (err, b1)" "bb_ok (base \<noteq> []) b1"
    "err = 0 \<and> (\<exists>st. bb_strs b1 = Interned st) \<or> err = - ENOMEM \<and> b1 = b"
    using ensure_ok [of "base \<noteq> []" b "al (length base)" "base \<noteq> []"] assms(1) unfolding bchain_ok.simps by blast
  obtain q b2 where m: "btf_add_type_mem (ba_type_mem (al (length base))) sz b1 = (q, b2)" by fastforce
  have "b' = b2 \<and> err = 0" using assms(2,3) e(1) m by (auto simp: reserve_def intern_name_def ENOMEM_def split: option.splits if_splits)
  then show ?thesis using add_type_mem_ok [OF e(2) m] e(3) by (auto simp: ENOMEM_def)
qed

lemma copied_words:
  assumes "words_ok (type_words t)" "length ws = length (type_words t)" "\<forall>i<length (type_words t). i \<notin> set (str_off_places t) \<longrightarrow> ws ! i = type_words t ! i"
    and "\<forall>i\<in>set (str_off_places t). same_str src (type_words t ! i) dst (ws ! i)" "keeps dst dst'"
  shows "copied src t dst' (type_of_words ws)"
proof -
  have "type_words (type_of_words ws) = ws" using assms(1,2) by (intro type_words_of_words) (simp add: words_ok_def)
  then show ?thesis using assms(2-4) same_str_keeps [OF assms(5)] by (auto simp: copied_def)
qed

text \<open>The outcome of a copy into a chain.\<close>

definition copy_added :: "btf_chain \<Rightarrow> btf_type \<Rightarrow> bchain \<Rightarrow> int \<Rightarrow> bchain \<Rightarrow> bool" where
  "copy_added src t c ret c' \<longleftrightarrow> bchain_ok c' \<and> keeps (map to_btf c) (map to_btf c') \<and>
     (ret = - ENOMEM \<and> btf__type_cnt (map to_btf c') = btf__type_cnt (map to_btf c) \<or>
      ret = sint (of_nat (btf__type_cnt (map to_btf c)) :: u32) \<and> btf__type_cnt (map to_btf c') = btf__type_cnt (map to_btf c) + 1 \<and>
      (\<exists>t'. btf_type_by_id (map to_btf c') (btf__type_cnt (map to_btf c)) = Inr t' \<and> copied src t (map to_btf c') t'))"

lemma copy_added_none:
  assumes "bchain_ok (b # base)" "bchain_ok (b' # base')" "extends b b'" "bb_offs b' = bb_offs b" "map to_btf base' = map to_btf base"
  shows "copy_added src t (b # base) (- ENOMEM) (b' # base')"
  using assms extends_keeps [of "base \<noteq> []" b "base' \<noteq> []" b' "map to_btf base"] by (auto simp: copy_added_def cnt_to_btf extends_def)

text \<open>The destination after the strings of the copy have been added.\<close>

lemma store_copy_ok:
  assumes c: "bchain_ok (b # base)" and c3: "bchain_ok (b3 # base3)" and x: "extends b b3" "bb_offs b3 = bb_offs b" "map to_btf base3 = map to_btf base"
    and t: "words_ok (type_words t)" and len: "length ws = length (type_words t)"
    and old: "\<forall>i<length (type_words t). i \<notin> set (str_off_places t) \<longrightarrow> ws ! i = type_words t ! i"
    and room: "unat (hd_type_len (bb_hdr b3)) + 4 * length ws \<le> ma_cap (bb_types b3)" and dst: "cs_dst p = b3 # base3"
    and e: "err = 0 \<and> (\<forall>i\<in>set (str_off_places t). same_str src (type_words t ! i) (map to_btf (cs_dst p)) (ws ! i)) \<or> err = - ENOMEM"
    and run: "store_copy idx_ok (unat (hd_type_len (bb_hdr b3))) (4 * length ws) (err, ws, p) = (ret, c')"
  shows "copy_added src t (b # base) ret c'"
proof (cases "err = 0")
  case False
  let ?b = "put_words (unat (hd_type_len (bb_hdr b3))) ws b3"
  have r: "ret = - ENOMEM" "c' = ?b # base3" using run False e dst by (auto simp: store_copy_def Let_def)
  have v: "to_btf ?b = to_btf b3" "bb_ok (base3 \<noteq> []) ?b" using put_words_view [OF _ room, of "base3 \<noteq> []"] c3 by auto
  have "bchain_ok (?b # base3)" using bchain_same [OF c3 v(2,1)] c3 by simp
  moreover have "extends b ?b" by (rule extends_trans [OF x(1) same_view_extends [OF v(1)]])
  moreover have "bb_offs ?b = bb_offs b" using to_btf_fields(2) [OF v(1)] x(2) by simp
  ultimately show ?thesis unfolding r by (rule copy_added_none [OF c _ _ _ x(3)])
next
  case True
  obtain b4 where b4: "btf_commit_type idx_ok (4 * length ws) (put_words (unat (hd_type_len (bb_hdr b3))) ws b3) = (ret, b4)" "c' = b4 # base3"
    using run True dst by (auto simp: store_copy_def Let_def split: prod.splits)
  have "1 < length (type_words t)" "1 \<notin> set (str_off_places t)" using str_off_places_ok [OF t] t by (auto simp: words_ok_def)
  then have ws: "words_ok ws" using words_ok_same_info [OF t len] old by blast
  have a: "appended (b # base) None (\<lambda>_. ws) ret (b4 # base3)"
    by (rule commit_ok [where off = 0, OF c c3 x ws room]) (use b4(1) in \<open>auto simp: named_def has_name_def INT_MAX_def\<close>)
  have "copied src t (map to_btf (b4 # base3)) (type_of_words ws)"
    using copied_words [OF t len old _ commit_copy [OF c3 ws room b4(1)]] e True dst by (simp add: ENOMEM_def)
  then show ?thesis using a unfolding b4(2) appended_def copy_added_def by blast
qed

section \<open>Properties\<close>


section \<open>An integer type copied to a structure with spare memory\<close>

definition spare_set :: strset where
  "spare_set = \<lparr>ss_data = \<lparr>ma_data = [0, 115, 0, 0, 0, 0, 0, 0], ma_cap = 8\<rparr>, ss_data_len = 3, ss_data_max_len = BTF_MAX_STR_OFFSET,
     ss_hash = hashmap__init\<rparr>"

definition spare_bb :: bbtf where
  "spare_bb = struct_bb\<lparr>bb_types := \<lparr>ma_data = [1, 0, 0, 0, 0, 0, 0, 4, 4, 0, 0, 0] @ replicate 36 0, ma_cap = 48\<rparr>, bb_strs := Interned spare_set\<rparr>"

lemma spare_chain: "bchain_ok [spare_bb]"
proof -
  have v: "to_btf spare_bb = to_btf struct_bb"
    by (simp add: to_btf_def bb_bytes_def bb_str_bytes_def spare_bb_def struct_bb_def strset__data_def strset_bytes_def struct_set_def spare_set_def)
  have "set_ok spare_set"
    by (simp add: set_ok_def spare_set_def strset_inv_def area_ok_def hm_inv_def hashmap__init_def keys_unique_def hashmap_entries_def BTF_MAX_STR_OFFSET_def)
  moreover have "btf_wf False (to_btf spare_bb)" unfolding v using struct_chain by (simp add: bb_ok_def)
  ultimately have "bb_ok False spare_bb" by (simp add: bb_ok_def) (simp add: spare_bb_def struct_bb_def area_ok_def UINT32_MAX_def)
  then show ?thesis by (simp add: spare_bb_def struct_bb_def)
qed

definition named_set :: strset where
  "named_set = spare_set\<lparr>ss_data := \<lparr>ma_data = [0, 115, 0, 105, 110, 116, 0, 0], ma_cap = 8\<rparr>, ss_data_len := 7,
     ss_hash := \<lparr>hm_buckets = Some [[], [], [], [(3, 3)]], hm_cap = 4, hm_cap_bits = 2, hm_sz = 1\<rparr>\<rparr>"

lemma named_insert:
  "hashmap__insert (strset_hash_fn [0, 115, 0, 105, 110, 116, 0, 0]) (strset_equal_fn [0, 115, 0, 105, 110, 116, 0, 0]) True True HASHMAP_ADD 3 3 hashmap__init =
   Inr (0, None, \<lparr>hm_buckets = Some [[], [], [], [(3, 3 :: nat)]], hm_cap = 4, hm_cap_bits = 2, hm_sz = 1\<rparr>)"
  by code_simp

lemma named_add: "strset__add_str True (True, True) [105, 110, 116] spare_set = Inr (3, named_set)"
  by (simp add: strset__add_str_def strset_add_str_mem_def libbpf_add_mem_def spare_set_def Let_def
      area_write_def strset_bytes_def named_insert EEXIST_def named_set_def int_of_long_id)

definition named_bb :: bbtf where
  "named_bb = spare_bb\<lparr>bb_strs := Interned named_set, bb_hdr := (bb_hdr spare_bb)\<lparr>hd_str_len := 7\<rparr>\<rparr>"

lemma all_memory_simps: "ba_str_mem (all_memory i)" "ba_str_hash (all_memory i) = (True, True)" "ba_type_mem (all_memory i)" "ba_idx (all_memory i)"
  by (simp_all add: all_memory_def)

lemma spare_ensure: "btf_ensure_modifiable (all_memory 0) False spare_bb = Inr (0, spare_bb)"
  by (simp add: btf_ensure_modifiable_def btf_invalidate_raw_data_def spare_bb_def struct_bb_def)

lemma spare_add_str: "btf__add_str all_memory [105, 110, 116] [spare_bb] = Inr (3, [named_bb])"
proof -
  have "strset__data_size named_set = 7" by (simp add: strset__data_size_def named_set_def)
  then show ?thesis using spare_ensure
    by (simp add: btf__add_str_def interned_def Let_def named_bb_def all_memory_simps del: bindR_eq_Inr)
       (simp add: spare_bb_def struct_bb_def named_add global_str_off_def INT_MAX_def Let_def del: bindR_eq_Inr)
qed

definition int_type :: btf_type where
  "int_type = \<lparr>bt_name_off = 1, bt_info = 0x01000000, bt_type = 4, bt_words = [32]\<rparr>"

lemma int_type_facts: "btf_type_size int_type = 16" "str_off_places int_type = [0]" "type_words int_type = [1, 0x01000000, 4, 32]"
    "type_of_words [1, 0x01000000, 4, 32] = int_type" "words_ok [1, 0x01000000, 4, 32]" "btf__str_by_offset [sample_btf] (Suc 0) = Inr (Some [105, 110, 116])"
  by code_simp+

lemma spare_reserve: "reserve all_memory 16 None [spare_bb] = Inr (0, 12, [spare_bb])"
  using spare_ensure by (simp add: reserve_def btf_add_type_mem_def libbpf_add_mem_def intern_name_def) (simp add: spare_bb_def struct_bb_def)

lemma add_type_run: "\<exists>c'. btf__add_type all_memory (\<lambda>_. all_memory) [sample_btf] int_type [spare_bb] = Inr (2, c')"
proof -
  have v: "btf_type_visit_str_offs (btf_rewrite_str (\<lambda>_. all_memory) (\<lambda>_. (True, True)) [sample_btf]) (type_words int_type)
      \<lparr>cs_dst = [spare_bb], cs_str_off_map = None, cs_calls = 0\<rparr> = Inr (0, [3, 0x01000000, 4, 32], \<lparr>cs_dst = [named_bb], cs_str_off_map = None, cs_calls = 1\<rparr>)"
    by (simp add: btf_type_visit_str_offs_def int_type_facts btf_rewrite_str_def mapped_str_def spare_add_str Let_def)
  have "\<exists>c'. store_copy True 12 16 (0, [3, 0x01000000, 4, 32], \<lparr>cs_dst = [named_bb], cs_str_off_map = None, cs_calls = 1\<rparr>) = (2, c')"
    by (simp add: store_copy_def Let_def btf_commit_type_def btf_add_type_idx_entry_def btf_add_type_offs_mem_def put_words_def)
    (simp add: named_bb_def spare_bb_def struct_bb_def grow_types_def)
  then show ?thesis using v by (auto simp: btf__add_type_def int_type_facts(1) spare_reserve Let_def all_memory_simps del: bindR_eq_Inr)
qed


end
