(* ===== verification/Btf_Merge.thy ===== *)
theory Btf_Merge
  imports Btf_Copy
begin

text \<open>
  \<open>btf__add_btf\<close> (\<open>libbpf/src/btf.c\<close>): all types of an instance are appended to another one, with their strings added and their type ids
  shifted.
\<close>

section \<open>Definitions\<close>

text \<open>\<open>n\<close> is \<open>start_id + nr_types - 1\<close> of the destination, which does not change while types are copied.\<close>

definition btf_rewrite_type_ids :: "nat \<Rightarrow> 's word_visitor" where
  "btf_rewrite_type_ids n w s = Inr (0, if w = 0 then w else w + of_nat n, s)"

text \<open>
  The loop over the copied types. The bytes behind the position are still those of the source, \<open>data\<close>; the result has the position and
  the rewritten words of every type that was reached. Beyond the copied bytes there is nothing to read.
\<close>

primrec copy_types ::
  "(u32 list \<Rightarrow> btf_pipe \<Rightarrow> fault + (int \<times> u32 list \<times> btf_pipe)) \<Rightarrow> u8 list \<Rightarrow> nat \<Rightarrow> nat \<Rightarrow> btf_pipe \<Rightarrow> fault + (int \<times> (nat \<times> u32 list) list \<times> btf_pipe)" where
  "copy_types rewrite data 0 pos p = Inr (0, [], p)"
| "copy_types rewrite data (Suc n) pos p =
     (let t = type_at data pos; sz = btf_type_size t in
      if pos + 12 > length data then Inl Out_Of_Bounds
      else if sz < 0 then Inr (sz, [], p)
      else if pos + nat sz > length data then Inl Out_Of_Bounds
      else bindR (rewrite (type_words t) p) (\<lambda>(err, ws, p).
        if err \<noteq> 0 then Inr (err, [(pos, ws)], p)
        else bindR (copy_types rewrite data n (pos + nat sz) p) (\<lambda>(err, ts, p). Inr (err, (pos, ws) # ts, p))))"

definition rewrite_type :: "btf_pipe word_visitor \<Rightarrow> btf_pipe word_visitor \<Rightarrow> u32 list \<Rightarrow> btf_pipe \<Rightarrow> fault + (int \<times> u32 list \<times> btf_pipe)" where
  "rewrite_type visit_str visit_id ws p =
     bindR (btf_type_visit_str_offs visit_str ws p) (\<lambda>(err, ws, p).
       if err \<noteq> 0 then Inr (err, ws, p) else btf_type_visit_type_ids visit_id ws p)"

text \<open>The bytes of the copy after the loop, and the instance that has them.\<close>

definition copy_bytes :: "u8 list \<Rightarrow> (nat \<times> u32 list) list \<Rightarrow> u8 list" where
  "copy_bytes data ts = (let bs = concat (map (\<lambda>t. words_bytes (snd t)) ts) in bs @ drop (length bs) data)"

definition commit_btf :: "nat \<Rightarrow> u8 list \<Rightarrow> (nat \<times> u32 list) list \<Rightarrow> bbtf \<Rightarrow> bbtf" where
  "commit_btf at data ts b =
     grow_types (length data) (b\<lparr>bb_types := area_write at (copy_bytes data ts) (bb_types b), bb_offs := bb_offs b @ map (\<lambda>(pos, ws). at + pos) ts\<rparr>)"

text \<open>
  The end of the function: on an error the memory behind the types is cleared, and so is the memory behind the old strings; but the strings of a
  modifiable instance are not at \<open>strs_data\<close>, which is null, so that clearing at least one byte has no meaning.
\<close>

definition finish_btf :: "nat \<Rightarrow> u8 list \<Rightarrow> u32 \<Rightarrow> int \<times> (nat \<times> u32 list) list \<times> btf_pipe \<Rightarrow> fault + (int \<times> bchain)" where
  "finish_btf at data old_strs_len r = (case r of (err, ts, p) \<Rightarrow>
     let b = hd (cs_dst p); base = tl (cs_dst p) in
     if err \<noteq> 0 then
       if hd_str_len (bb_hdr b) \<noteq> old_strs_len then Inl Out_Of_Bounds
       else Inr (err, b\<lparr>bb_types := area_write at (replicate (length data) 0) (bb_types b)\<rparr> # base)
     else
      (let b = commit_btf at data ts b in Inr (sint (of_nat (bb_start_id b + length (bb_offs b) - length ts) :: u32), b # base)))"

text \<open>
  A size of more than \<open>INT_MAX\<close> bytes becomes a negative \<open>int\<close> and then a \<open>size_t\<close> near its end: the sum with the size of the types
  wraps, or is too large.
\<close>

definition btf__add_btf ::
  "(nat \<Rightarrow> build_allocs) \<Rightarrow> (nat \<Rightarrow> nat \<Rightarrow> build_allocs) \<Rightarrow> bool \<Rightarrow> (nat \<Rightarrow> bool \<times> bool) \<Rightarrow> btf_chain \<Rightarrow> bchain \<Rightarrow> fault + (int \<times> bchain)" where
  "btf__add_btf al als map_ok hm_ok src c = (case c of [] \<Rightarrow> Inl Out_Of_Bounds | b # base \<Rightarrow>
     if tl src \<noteq> [] then Inr (- ENOTSUP, c)
     else bindR (btf_ensure_modifiable (al (length base)) (base \<noteq> []) b) (\<lambda>(err, b).
       if err \<noteq> 0 then Inr (- ENOMEM, b # base)
       else
        (let old_strs_len = hd_str_len (bb_hdr b); data = bf_types_data (hd src); cnt = btf__type_cnt src - 1 in
         if length data > nat INT_MAX then
           if unat (hd_type_len (bb_hdr b)) < 2 ^ 32 - length data then Inr (- ENOMEM, b # base) else Inl Out_Of_Bounds
         else (case btf_add_type_mem (ba_type_mem (al (length base))) (length data) b of
             (None, b) \<Rightarrow> Inr (- ENOMEM, b # base)
           | (Some at, b) \<Rightarrow> (case btf_add_type_offs_mem (ba_idx (al (length base))) cnt b of
               (False, b) \<Rightarrow> Inr (- ENOMEM, b # base)
             | (True, b) \<Rightarrow>
                 if \<not> map_ok then Inr (- ENOMEM, b # base)
                 else bindR (copy_types (rewrite_type (btf_rewrite_str als hm_ok src) (btf_rewrite_type_ids (bb_start_id b + length (bb_offs b) - 1)))
                        data cnt 0 \<lparr>cs_dst = b # base, cs_str_off_map = Some hashmap__init, cs_calls = 0\<rparr>)
                        (finish_btf at data old_strs_len))))))"

section \<open>The copy of one type\<close>

definition shift_id :: "nat \<Rightarrow> u32 \<Rightarrow> u32" where
  "shift_id n w = (if w = 0 then w else w + of_nat n)"

interpretation type_ids: visitor "btf_rewrite_type_ids n" "\<lambda>_. True" "(=)" "\<lambda>_ w w'. w' = shift_id n w" "\<lambda>_. True" "\<lambda>_ _. False" for n
  by unfold_locales (auto simp: btf_rewrite_type_ids_def shift_id_def)

text \<open>What a translated type keeps: all but its string offsets and type ids; those denote the same strings, these are shifted.\<close>

definition translated :: "btf_chain \<Rightarrow> nat \<Rightarrow> btf_type \<Rightarrow> btf_chain \<Rightarrow> btf_type \<Rightarrow> bool" where
  "translated src n t dst t' \<longleftrightarrow> length (type_words t') = length (type_words t) \<and> (\<forall>i<length (type_words t).
     if i \<in> set (str_off_places t) then same_str src (type_words t ! i) dst (type_words t' ! i)
     else if i \<in> set (the (type_id_places t)) then type_words t' ! i = shift_id n (type_words t ! i)
     else type_words t' ! i = type_words t ! i)"

lemma translated_keeps: "keeps dst dst' \<Longrightarrow> translated src n t dst t' \<Longrightarrow> translated src n t dst' t'"
  unfolding translated_def by (meson same_str_keeps)

lemma places_cong: "bt_info t' = bt_info t \<Longrightarrow> type_id_places t' = type_id_places t"
proof -
  assume "bt_info t' = bt_info t"
  then have "btf_kind t' = btf_kind t" "entry_places n f t' = entry_places n f t" for n f by (simp_all add: btf_kind_def btf_vlen_def entry_places_def)
  then show ?thesis by (simp only: type_id_places_def)
qed

lemma entry_places_apart: "f \<noteq> g \<Longrightarrow> f < n \<Longrightarrow> g < n \<Longrightarrow> set (entry_places n f t) \<inter> set (entry_places n g t) = {}"
proof (rule ccontr)
  assume fg: "f \<noteq> g" "f < n" "g < n" and "set (entry_places n f t) \<inter> set (entry_places n g t) \<noteq> {}"
  then obtain i j where "n * i + f = n * j + g" by (auto simp: entry_places_def)
  then have "(n * i + f) mod n = (n * j + g) mod n" by simp
  then show False using fg by simp
qed

lemma type_id_places_ok:
  assumes "words_ok ws"
  shows "\<exists>ps. type_id_places (type_of_words ws) = Some ps \<and> distinct ps \<and> (\<forall>i\<in>set ps. i < length ws \<and> i \<noteq> 1) \<and>
    set ps \<inter> set (str_off_places (type_of_words ws)) = {}"
proof -
  let ?t = "type_of_words ws" let ?k = "btf_kind ?t"
  have len: "3 \<le> length ws" "btf_type_size ?t = 4 * int (length ws)" using assms by (auto simp: words_ok_def)
  note defs = type_id_places_def str_off_places_def Let_def btf_kinds
  consider (none) "?k \<in> {BTF_KIND_INT, BTF_KIND_FLOAT, BTF_KIND_ENUM, BTF_KIND_ENUM64}"
    | (one) "?k \<in> {BTF_KIND_FWD, BTF_KIND_CONST, BTF_KIND_VOLATILE, BTF_KIND_RESTRICT, BTF_KIND_PTR, BTF_KIND_TYPEDEF, BTF_KIND_FUNC, BTF_KIND_VAR,
        BTF_KIND_DECL_TAG, BTF_KIND_TYPE_TAG}"
    | (array) "?k = BTF_KIND_ARRAY" | (comp) "?k \<in> {BTF_KIND_STRUCT, BTF_KIND_UNION}" | (proto) "?k = BTF_KIND_FUNC_PROTO" | (sec) "?k = BTF_KIND_DATASEC"
    using len(2) by (auto simp: btf_type_size_def Let_def EINVAL_def split: if_splits)
  then show ?thesis
  proof cases
    case none
    then show ?thesis by (auto simp: type_id_places_def Let_def)
  next
    case one
    then have "type_id_places ?t = Some [2]" "str_off_places ?t = [0]" by (auto simp: defs)
    then show ?thesis using len(1) by simp
  next
    case array
    then have "type_id_places ?t = Some [3, 4]" "str_off_places ?t = [0]" "length ws = 6" using len(2) by (auto simp: defs btf_type_size_def)
    then show ?thesis by simp
  next
    case comp
    then have "type_id_places ?t = Some (entry_places 3 1 ?t)" "str_off_places ?t = 0 # entry_places 3 0 ?t" "length ws = 3 + 3 * btf_vlen ?t"
      using len(2) by (auto simp: defs btf_type_size_def)
    then show ?thesis using entry_places_ok [where n = 3 and f = 1 and t = ?t] entry_places_apart [of 1 0 3 ?t] by fastforce
  next
    case proto
    then have p: "type_id_places ?t = Some (2 # entry_places 2 1 ?t)" "str_off_places ?t = 0 # entry_places 2 0 ?t" "length ws = 3 + 2 * btf_vlen ?t"
      using len(2) by (auto simp: defs btf_type_size_def)
    have "2 \<notin> set (entry_places 2 f ?t)" for f by (auto simp: entry_places_def)
    then show ?thesis using p entry_places_ok [where n = 2 and f = 1 and t = ?t] entry_places_apart [of 1 0 2 ?t] by fastforce
  next
    case sec
    then have "type_id_places ?t = Some (entry_places 3 0 ?t)" "str_off_places ?t = [0]" "length ws = 3 + 3 * btf_vlen ?t"
      using len(2) by (auto simp: defs btf_type_size_def)
    then show ?thesis using entry_places_ok [where n = 3 and f = 0 and t = ?t] by fastforce
  qed
qed

lemma rewrite_type_ok:
  assumes p: "pipe_ok src p" and t: "words_ok (type_words t)" and strs: "\<forall>i\<in>set (str_off_places t). has_str src (type_words t ! i)"
  shows "rewrite_type (btf_rewrite_str als hm_ok src) (btf_rewrite_type_ids n) (type_words t) p = Inl Signed_Overflow \<and> tl (cs_dst p) \<noteq> [] \<or>
    (\<exists>err ws p'. rewrite_type (btf_rewrite_str als hm_ok src) (btf_rewrite_type_ids n) (type_words t) p = Inr (err, ws, p') \<and> pipe_ok src p' \<and> pipe_later p p' \<and>
      (err = 0 \<and> words_ok ws \<and> length ws = length (type_words t) \<and> translated src n t (map to_btf (cs_dst p')) (type_of_words ws) \<or>
       err = - ENOMEM \<and> runs_out (btf_rewrite_str als hm_ok src)))"
proof -
  let ?ws = "type_words t"
  let ?v = "visit_at (btf_rewrite_str als hm_ok src) (str_off_places t) ?ws p"
  have places: "\<forall>i\<in>set (str_off_places t). i < length ?ws \<and> has_str src (?ws ! i)" "distinct (str_off_places t)" "1 \<notin> set (str_off_places t)"
    using str_off_places_ok [OF t] strs by auto
  from strings.visit_at_ok [OF p places(1,2), of als hm_ok]
  consider (fault) "?v = Inl Signed_Overflow" "tl (cs_dst p) \<noteq> []"
    | (nomem) ws p' where "?v = Inr (- ENOMEM, ws, p')" "pipe_ok src p'" "pipe_later p p'" "runs_out (btf_rewrite_str als hm_ok src)"
    | (ret) ws p' where "?v = Inr (0, ws, p')" "pipe_ok src p'" "pipe_later p p'" "length ws = length ?ws"
        "\<forall>i<length ?ws. i \<notin> set (str_off_places t) \<longrightarrow> ws ! i = ?ws ! i"
        "\<forall>i\<in>set (str_off_places t). same_str src (?ws ! i) (map to_btf (cs_dst p')) (ws ! i)" by blast
  then show ?thesis
  proof cases
    case fault
    then show ?thesis by (simp add: rewrite_type_def btf_type_visit_str_offs_def)
  next
    case nomem
    then show ?thesis by (auto simp: rewrite_type_def btf_type_visit_str_offs_def ENOMEM_def)
  next
    case (ret ws p')
    have l: "3 \<le> length ?ws" using t by (simp add: words_ok_def)
    then have i1: "ws ! 1 = ?ws ! 1" using ret(5) places(3) by simp
    then have info: "bt_info (type_of_words ws) = bt_info t" by (simp add: type_of_words_def type_words_def)
    obtain ps where ps: "type_id_places t = Some ps" "distinct ps" "\<forall>i\<in>set ps. i < length ws \<and> i \<noteq> 1" "set ps \<inter> set (str_off_places t) = {}"
      using type_id_places_ok [OF t] ret(4) by auto
    have "\<forall>i\<in>set ps. i < length ws \<and> True" using ps(3) by simp
    from type_ids.visit_at_ok [OF TrueI this ps(2), of n p'] obtain ws' where v:
      "visit_at (btf_rewrite_type_ids n) ps ws p' = Inr (0, ws', p')" "length ws' = length ws" "\<forall>i<length ws. i \<notin> set ps \<longrightarrow> ws' ! i = ws ! i"
      "\<forall>i\<in>set ps. ws' ! i = shift_id n (ws ! i)" by (auto simp: runs_out_def btf_rewrite_type_ids_def ENOMEM_def)
    have run: "rewrite_type (btf_rewrite_str als hm_ok src) (btf_rewrite_type_ids n) ?ws p = Inr (0, ws', p')"
      using ret(1) v(1) ps(1) places_cong [OF info] by (simp add: rewrite_type_def btf_type_visit_str_offs_def btf_type_visit_type_ids_def)
    have "ws' ! 1 = ?ws ! 1" using v(3) ps(3) i1 l ret(4) by auto
    then have ok: "words_ok ws'" using words_ok_same_info [OF t] v(2) ret(4) by simp
    have w': "type_words (type_of_words ws') = ws'" using l v(2) ret(4) by (intro type_words_of_words) simp
    have "translated src n t (map to_btf (cs_dst p')) (type_of_words ws')"
      unfolding translated_def w' using v(2-4) ret(4-6) ps by (auto simp: disjoint_iff)
    then show ?thesis using run ok v(2) ret(2-4) by auto
  qed
qed

text \<open>Types that follow each other from a position on.\<close>

fun placed :: "nat \<Rightarrow> (nat \<times> u32 list) list \<Rightarrow> bool" where
  "placed pos [] \<longleftrightarrow> True"
| "placed pos ((q, ws) # ts) \<longleftrightarrow> q = pos \<and> words_ok ws \<and> placed (pos + 4 * length ws) ts"

abbreviation types_bytes :: "(nat \<times> u32 list) list \<Rightarrow> u8 list" where
  "types_bytes ts \<equiv> concat (map (\<lambda>t. words_bytes (snd t)) ts)"

lemma type_at_words_ok:
  assumes "type_fits n off data"
  shows "words_ok (type_words (type_at data off))" "nat (btf_type_size (type_at data off)) = 4 * length (type_words (type_at data off))"
    "btf_type_size (type_at data off) = btf_type_size (base_at data off)"
proof -
  let ?t = "type_at data off" and ?b = "base_at data off"
  show s: "btf_type_size ?t = btf_type_size ?b" by (rule type_size_cong) (simp add: type_at_def Let_def)
  have z: "0 \<le> btf_type_size ?b" using assms by (simp add: type_fits_def)
  have "length (type_words ?t) = 3 + rest_words ?b" by (simp add: type_words_def type_at_def Let_def)
  then have "btf_type_size ?t = 4 * int (length (type_words ?t))" using rest_words_size [OF z] s by simp
  moreover have "3 \<le> length (type_words ?t)" by (simp add: type_words_def)
  ultimately show "words_ok (type_words ?t)" "nat (btf_type_size ?t) = 4 * length (type_words ?t)" by (simp_all add: words_ok_def)
qed

definition strs_known :: "btf_chain \<Rightarrow> btf_type \<Rightarrow> bool" where
  "strs_known src t \<longleftrightarrow> (\<forall>i\<in>set (str_off_places t). has_str src (type_words t ! i))"

lemma pipe_later_keeps:
  assumes "pipe_ok src p" "pipe_ok src p'" "pipe_later p p'"
  shows "keeps (map to_btf (cs_dst p)) (map to_btf (cs_dst p'))"
proof -
  obtain b base b' base' where d: "cs_dst p = b # base" "cs_dst p' = b' # base'" using assms(1,2) by (auto simp: pipe_ok_def neq_Nil_conv)
  have "keeps (map to_btf (b # base)) (map to_btf (b' # base'))"
    by (rule chain_later_keeps) (use assms d in \<open>auto simp: pipe_ok_def pipe_later_def\<close>)
  then show ?thesis using d by simp
qed

lemma copy_types_ok:
  fixes n :: nat and als :: "nat \<Rightarrow> nat \<Rightarrow> build_allocs" and hm_ok :: "nat \<Rightarrow> bool \<times> bool"
  assumes "pipe_ok src p" "tiles (length data) data pos offs" "\<forall>off\<in>set offs. strs_known src (type_at data off)"
  defines "rewrite \<equiv> rewrite_type (btf_rewrite_str als hm_ok src) (btf_rewrite_type_ids n)"
  shows "copy_types rewrite data (length offs) pos p = Inl Signed_Overflow \<and> tl (cs_dst p) \<noteq> [] \<or>
    (\<exists>err ts p'. copy_types rewrite data (length offs) pos p = Inr (err, ts, p') \<and> pipe_ok src p' \<and> pipe_later p p' \<and>
      (err = 0 \<and> placed pos ts \<and> pos + length (types_bytes ts) = length data \<and>
         list_all2 (\<lambda>off (q, ws). translated src n (type_at data off) (map to_btf (cs_dst p')) (type_of_words ws)) offs ts \<or>
       err = - ENOMEM \<and> runs_out (btf_rewrite_str als hm_ok src)))"
  using assms(1-3)
proof (induction offs arbitrary: pos p)
  case Nil
  then show ?case using strings.later_refl by simp
next
  case (Cons off offs)
  let ?t = "type_at data pos"
  have off: "off = pos" and fits: "type_fits (length data) pos data" and rest: "tiles (length data) data (pos + nat (btf_type_size ?t)) offs"
    using Cons.prems(2) type_at_words_ok(3) by auto
  note t = type_at_words_ok [OF fits]
  have room: "\<not> length data < pos + 12" "\<not> btf_type_size ?t < 0" "\<not> length data < pos + nat (btf_type_size ?t)" using fits t(3) by (auto simp: type_fits_def)
  have strs: "\<forall>i\<in>set (str_off_places ?t). has_str src (type_words ?t ! i)" using Cons.prems(3) off by (simp add: strs_known_def)
  have step: "copy_types rewrite data (length (off # offs)) pos p = bindR (rewrite (type_words ?t) p) (\<lambda>(err, ws, p).
      if err \<noteq> 0 then Inr (err, [(pos, ws)], p)
      else bindR (copy_types rewrite data (length offs) (pos + nat (btf_type_size ?t)) p) (\<lambda>(err, ts, p). Inr (err, (pos, ws) # ts, p)))"
    using room by (simp add: Let_def)
  from rewrite_type_ok [OF Cons.prems(1) t(1) strs, of als hm_ok n, folded rewrite_def]
  consider (fault) "rewrite (type_words ?t) p = Inl Signed_Overflow" "tl (cs_dst p) \<noteq> []"
    | (nomem) ws p1 where "rewrite (type_words ?t) p = Inr (- ENOMEM, ws, p1)" "pipe_ok src p1" "pipe_later p p1" "runs_out (btf_rewrite_str als hm_ok src)"
    | (ret) ws p1 where "rewrite (type_words ?t) p = Inr (0, ws, p1)" "pipe_ok src p1" "pipe_later p p1" "words_ok ws" "length ws = length (type_words ?t)"
        "translated src n ?t (map to_btf (cs_dst p1)) (type_of_words ws)" by blast
  then show ?case
  proof cases
    case fault
    then show ?thesis unfolding step by simp
  next
    case nomem
    then show ?thesis unfolding step by (auto simp: ENOMEM_def)
  next
    case (ret ws p1)
    let ?pos = "pos + nat (btf_type_size ?t)"
    have "\<forall>off\<in>set offs. strs_known src (type_at data off)" using Cons.prems(3) by simp
    from Cons.IH [OF ret(2) rest this]
    consider (fault) "copy_types rewrite data (length offs) ?pos p1 = Inl Signed_Overflow" "tl (cs_dst p1) \<noteq> []"
      | (nomem) ts p' where "copy_types rewrite data (length offs) ?pos p1 = Inr (- ENOMEM, ts, p')" "pipe_ok src p'" "pipe_later p1 p'" "runs_out (btf_rewrite_str als hm_ok src)"
      | (all) ts p' where "copy_types rewrite data (length offs) ?pos p1 = Inr (0, ts, p')" "pipe_ok src p'" "pipe_later p1 p'" "placed ?pos ts"
          "?pos + length (types_bytes ts) = length data"
          "list_all2 (\<lambda>off (q, ws). translated src n (type_at data off) (map to_btf (cs_dst p')) (type_of_words ws)) offs ts" by blast
    then show ?thesis
    proof cases
      case fault
      then show ?thesis unfolding step using ret(1,3) by (auto simp: pipe_later_def)
    next
      case nomem
      then show ?thesis unfolding step using ret(1) strings.later_trans [OF ret(3)] by auto
    next
      case (all ts p')
      have "translated src n ?t (map to_btf (cs_dst p')) (type_of_words ws)" by (rule translated_keeps [OF pipe_later_keeps [OF ret(2) all(2,3)] ret(6)])
      then show ?thesis unfolding step using ret(1,4,5) all strings.later_trans [OF ret(3) all(3)] off t(2) by (simp add: add.assoc)
    qed
  qed
qed

section \<open>The commit\<close>

lemma tiles_placed:
  assumes "tiles (length d) d 0 offs" "placed pos ts" "length d = at + pos"
  shows "tiles (length d + length (types_bytes ts)) (d @ types_bytes ts) 0 (offs @ map (\<lambda>(q, ws). at + q) ts)"
  using assms
proof (induction ts arbitrary: d offs pos)
  case (Cons t ts)
  obtain ws where t: "t = (pos, ws)" "words_ok ws" "placed (pos + 4 * length ws) ts" using Cons.prems(2) by (cases t) auto
  let ?d = "d @ words_bytes ws"
  have w: "btf_type_size (type_of_words ws) = 4 * int (length ws)" "3 \<le> length ws" using t(2) by (auto simp: words_ok_def)
  have "base_at ?d (length d) = (type_of_words ws)\<lparr>bt_words := []\<rparr>" using base_at_words [OF w(2), of d "[]"] by simp
  then have sz: "btf_type_size (base_at ?d (length d)) = 4 * int (length ws)"
    using w(1) type_size_cong [of "(type_of_words ws)\<lparr>bt_words := []\<rparr>" "type_of_words ws"] by simp
  have "tiles (length ?d) ?d 0 (offs @ [length d])"
    by (rule tiles_append [OF Cons.prems(1)]) (use sz w(2) in \<open>auto simp: type_fits_def\<close>)
  from Cons.IH [OF this t(3)] show ?case using Cons.prems(3) t(1) by (simp add: add.assoc)
qed simp

lemma type_at_placed:
  assumes "placed pos ts" "length d = at + pos" "(q, ws) \<in> set ts"
  shows "type_at (d @ types_bytes ts) (at + q) = type_of_words ws \<and> pos \<le> q"
  using assms
proof (induction ts arbitrary: d pos)
  case (Cons t ts)
  obtain ws1 where t: "t = (pos, ws1)" "words_ok ws1" "placed (pos + 4 * length ws1) ts" using Cons.prems(1) by (cases t) auto
  show ?case
  proof (cases "(q, ws) = t")
    case True
    then show ?thesis using type_at_words [OF t(2), of d "types_bytes ts"] t(1) Cons.prems(2) by simp
  next
    case False
    then show ?thesis using Cons.IH [OF t(3), of "d @ words_bytes ws1"] Cons.prems(2,3) t(1) by auto
  qed
qed simp

lemma commit_btf_ok:
  fixes b :: bbtf
  assumes ok: "bb_ok has_base b" and ts: "placed 0 ts" "length (types_bytes ts) = length data"
    and room: "unat (hd_type_len (bb_hdr b)) + length data \<le> ma_cap (bb_types b)"
  defines "b' \<equiv> commit_btf (unat (hd_type_len (bb_hdr b))) data ts b"
  shows "bb_ok has_base b' \<and> bb_bytes b' = bb_bytes b @ types_bytes ts \<and> bb_offs b' = bb_offs b @ map (\<lambda>(q, ws). length (bb_bytes b) + q) ts \<and>
    bb_start_id b' = bb_start_id b \<and> bb_start_str_off b' = bb_start_str_off b \<and> bb_str_bytes b' = bb_str_bytes b"
proof -
  let ?n = "unat (hd_type_len (bb_hdr b))"
  have wf: "btf_wf has_base (to_btf b)" and area: "length (ma_data (bb_types b)) = ma_cap (bb_types b)" "ma_cap (bb_types b) \<le> UINT32_MAX"
    using ok by (auto simp: bb_ok_def area_ok_def)
  have len: "length (bb_bytes b) = ?n" using area room by (simp add: bb_bytes_def)
  have bs: "copy_bytes data ts = types_bytes ts" using ts(2) by (simp add: copy_bytes_def Let_def)
  have tl: "unat (hd_type_len (bb_hdr b')) = ?n + length data"
    using room area(2) by (simp add: b'_def commit_btf_def grow_types_def unat_add_small)
  have data: "ma_data (bb_types b') = bb_bytes b @ types_bytes ts @ drop (?n + length data) (ma_data (bb_types b))"
    using ts(2) bs by (simp add: b'_def commit_btf_def grow_types_def area_write_def bb_bytes_def)
  then have bytes: "bb_bytes b' = bb_bytes b @ types_bytes ts" using tl len ts(2) by (simp add: bb_bytes_def [of b'])
  have offs: "bb_offs b' = bb_offs b @ map (\<lambda>(q, ws). ?n + q) ts" and strs: "bb_str_bytes b' = bb_str_bytes b" "bb_strs b' = bb_strs b"
    and starts: "bb_start_id b' = bb_start_id b" "bb_start_str_off b' = bb_start_str_off b" "hd_str_len (bb_hdr b') = hd_str_len (bb_hdr b)"
    and cap: "ma_cap (bb_types b') = ma_cap (bb_types b)"
    by (simp_all add: b'_def commit_btf_def grow_types_def area_write_def bb_str_bytes_def)
  have "tiles (length (bb_bytes b)) (bb_bytes b) 0 (bb_offs b)" using wf by (auto simp: btf_wf_def to_btf_def)
  from tiles_placed [OF this ts(1), of ?n] have "tiles (?n + length data) (bb_bytes b') 0 (bb_offs b')" using len ts(2) bytes offs by simp
  then have "btf_wf has_base (to_btf b')" using wf tl bytes len ts(2) strs(1) starts(3) by (simp add: btf_wf_def to_btf_def)
  moreover have "area_ok 1 (bb_types b')" using data len cap area(1) room ts(2) by (simp add: area_ok_def)
  ultimately have "bb_ok has_base b'" using ok tl room cap strs(2) by (simp add: bb_ok_def)
  then show ?thesis using bytes offs len starts strs(1) by simp
qed

section \<open>Properties\<close>

text \<open>The outcome of a merge: no type is added for lack of memory, or all of the source are, translated.\<close>

definition btf_added :: "btf \<Rightarrow> bchain \<Rightarrow> int \<Rightarrow> bchain \<Rightarrow> bool" where
  "btf_added s c ret c' \<longleftrightarrow> bchain_ok c' \<and> keeps (map to_btf c) (map to_btf c') \<and>
     (let cnt = btf__type_cnt (map to_btf c) in
      ret = - ENOMEM \<and> btf__type_cnt (map to_btf c') = cnt \<or>
      ret = sint (of_nat cnt :: u32) \<and> btf__type_cnt (map to_btf c') = cnt + bf_nr_types s \<and>
      (\<forall>i<bf_nr_types s. \<exists>t'. btf_type_by_id (map to_btf c') (cnt + i) = Inr t' \<and>
         translated [s] (cnt - 1) (type_at (bf_types_data s) (bf_type_offs s ! i)) (map to_btf c') t'))"

lemma added_none:
  assumes "bchain_ok (b # base)" "bchain_ok (b' # base')" "extends b b'" "bb_offs b' = bb_offs b" "map to_btf base' = map to_btf base"
  shows "btf_added s (b # base) (- ENOMEM) (b' # base')"
  using assms extends_keeps [of "base \<noteq> []" b "base' \<noteq> []" b' "map to_btf base"] by (auto simp: btf_added_def cnt_to_btf extends_def)

lemma finish_ok:
  assumes c: "bchain_ok (b # base)" and c3: "bchain_ok (b3 # base3)" and x: "extends b b3" "bb_offs b3 = bb_offs b" "map to_btf base3 = map to_btf base"
    and room: "unat (hd_type_len (bb_hdr b3)) + length (bf_types_data s) \<le> ma_cap (bb_types b3)" and dst: "cs_dst p = b3 # base3"
    and ts: "placed 0 ts" "length (types_bytes ts) = length (bf_types_data s)"
      "list_all2 (\<lambda>off (q, ws). translated [s] n (type_at (bf_types_data s) off) (map to_btf (cs_dst p)) (type_of_words ws)) (bf_type_offs s) ts"
    and n: "n = btf__type_cnt (map to_btf (b # base)) - 1"
  shows "\<exists>ret c'. finish_btf (unat (hd_type_len (bb_hdr b3))) (bf_types_data s) old (0, ts, p) = Inr (ret, c') \<and> btf_added s (b # base) ret c'"
proof -
  let ?b = "commit_btf (unat (hd_type_len (bb_hdr b3))) (bf_types_data s) ts b3" and ?cnt = "bb_start_id b + length (bb_offs b)"
  have ok3: "bb_ok (base3 \<noteq> []) b3" and ok: "bb_ok (base \<noteq> []) b" using c c3 by auto
  note cm = commit_btf_ok [OF ok3 ts(1,2) room]
  have x3: "extends b3 ?b" using cm by (simp add: extends_def)
  have k: "keeps (map to_btf (b3 # base3)) (map to_btf (?b # base3))" "keeps (map to_btf (b # base)) (map to_btf (?b # base3))"
    using extends_keeps [OF ok3 _ x3, of "base3 \<noteq> []" "map to_btf base3"] extends_keeps [OF ok _ extends_trans [OF x(1) x3], of "base3 \<noteq> []" "map to_btf base3"] cm x(3) by simp_all
  have len: "length ts = bf_nr_types s" using list_all2_lengthD [OF ts(3)] by (simp add: bf_nr_types_def)
  have id: "bb_start_id ?b = bb_start_id b" "0 < bb_start_id b" using cm x(1) bchain_start_id [OF c] by (auto simp: extends_def)
  have ty: "\<exists>t'. btf_type_by_id (map to_btf (?b # base3)) (?cnt + i) = Inr t' \<and> translated [s] n (type_at (bf_types_data s) (bf_type_offs s ! i)) (map to_btf (?b # base3)) t'"
    if i: "i < bf_nr_types s" for i
  proof -
    obtain q ws where q: "ts ! i = (q, ws)" by fastforce
    have "translated [s] n (type_at (bf_types_data s) (bf_type_offs s ! i)) (map to_btf (b3 # base3)) (type_of_words ws)"
      using list_all2_nthD2 [OF ts(3), of i] i len q dst by simp
    moreover have "btf_type_by_id (map to_btf (?b # base3)) (?cnt + i) = Inr (type_of_words ws)"
      using type_at_placed [OF ts(1), of "bb_bytes b3" "length (bb_bytes b3)" q ws] nth_mem [of i ts] i len q cm id x(2)
      by (simp add: to_btf_def bf_nr_types_def nth_append)
    ultimately show ?thesis using translated_keeps [OF k(1)] by blast
  qed
  have "finish_btf (unat (hd_type_len (bb_hdr b3))) (bf_types_data s) old (0, ts, p) = Inr (sint (of_nat ?cnt :: u32), ?b # base3)"
    using dst cm id x(2) by (simp add: finish_btf_def Let_def)
  moreover have "bchain_ok (?b # base3)" using bchain_head [OF c3, of ?b] cm by simp
  moreover have "btf__type_cnt (map to_btf (?b # base3)) = ?cnt + bf_nr_types s" using cm id x(2) len by (simp add: cnt_to_btf)
  ultimately show ?thesis using ty k(2) n by (auto simp: btf_added_def cnt_to_btf Let_def simp del: bchain_ok.simps)
qed

text \<open>Memory ran out after strings of the copy had been added.\<close>

definition cut_short :: "(nat \<Rightarrow> nat \<Rightarrow> build_allocs) \<Rightarrow> (nat \<Rightarrow> bool \<times> bool) \<Rightarrow> btf \<Rightarrow> bchain \<Rightarrow> bool" where
  "cut_short als hm_ok s c \<longleftrightarrow> (\<exists>p n ts p'. map to_btf (cs_dst p) = map to_btf c \<and> cs_str_off_map p = Some hashmap__init \<and> cs_calls p = 0 \<and>
     copy_types (rewrite_type (btf_rewrite_str als hm_ok [s]) (btf_rewrite_type_ids n)) (bf_types_data s) (bf_nr_types s) 0 p = Inr (- ENOMEM, ts, p') \<and>
     hd_str_len (bb_hdr (hd (cs_dst p'))) \<noteq> hd_str_len (bb_hdr (hd c)))"

lemma new_pipe_ok:
  assumes "bchain_ok (b # base)" "bb_strs b = Interned st"
  shows "pipe_ok src \<lparr>cs_dst = b # base, cs_str_off_map = Some hashmap__init, cs_calls = 0\<rparr>"
  using assms
  by (auto simp: pipe_ok_def off_map_ok_def hm_inv_def hashmap__init_def keys_unique_def hashmap_entries_def hm_map_def assoc_find_def)

lemma clear_view:
  assumes "bb_ok has_base b" "unat (hd_type_len (bb_hdr b)) + length bs \<le> ma_cap (bb_types b)"
  defines "b' \<equiv> b\<lparr>bb_types := area_write (unat (hd_type_len (bb_hdr b))) bs (bb_types b)\<rparr>"
  shows "to_btf b' = to_btf b \<and> bb_ok has_base b'"
proof -
  have l: "length (ma_data (bb_types b)) = ma_cap (bb_types b)" using assms(1) by (simp add: bb_ok_def area_ok_def)
  then have "to_btf b' = to_btf b" using assms(2) by (simp add: b'_def to_btf_def bb_bytes_def bb_str_bytes_def area_write_def)
  moreover have "area_ok 1 (bb_types b')" using l assms(2) by (simp add: b'_def area_write_def area_ok_def)
  ultimately show ?thesis using assms(1) by (simp add: bb_ok_def) (simp add: b'_def area_write_def)
qed

lemma offs_mem_view:
  assumes "bb_ok has_base b" "btf_add_type_offs_mem realloc_ok n b = (r, b')"
  shows "bb_ok has_base b' \<and> to_btf b' = to_btf b \<and> bb_strs b' = bb_strs b \<and> bb_types b' = bb_types b"
  using assms by (auto simp: btf_add_type_offs_mem_def Let_def bb_ok_def to_btf_def bb_bytes_def bb_str_bytes_def split: if_splits)

text \<open>The merge after all memory for the types has been reserved, and the instance is modifiable.\<close>

lemma merge_ok:
  fixes als :: "nat \<Rightarrow> nat \<Rightarrow> build_allocs" and hm_ok :: "nat \<Rightarrow> bool \<times> bool"
  assumes c: "bchain_ok (b # base)" and ok: "bb_ok (base \<noteq> []) b2" and v: "to_btf b2 = to_btf b" and st: "bb_strs b2 = Interned st"
    and room: "unat (hd_type_len (bb_hdr b2)) + length (bf_types_data s) \<le> ma_cap (bb_types b2)"
    and tl: "tiles (length (bf_types_data s)) (bf_types_data s) 0 (bf_type_offs s)" "\<forall>off\<in>set (bf_type_offs s). strs_known [s] (type_at (bf_types_data s) off)"
    and n: "n = btf__type_cnt (map to_btf (b # base)) - 1"
  defines "r \<equiv> bindR (copy_types (rewrite_type (btf_rewrite_str als hm_ok [s]) (btf_rewrite_type_ids n)) (bf_types_data s) (bf_nr_types s) 0
      \<lparr>cs_dst = b2 # base, cs_str_off_map = Some hashmap__init, cs_calls = 0\<rparr>)
      (finish_btf (unat (hd_type_len (bb_hdr b2))) (bf_types_data s) (hd_str_len (bb_hdr b)))"
  shows "r = Inl Signed_Overflow \<and> base \<noteq> [] \<or> r = Inl Out_Of_Bounds \<and> cut_short als hm_ok s (b # base) \<or>
    (\<exists>ret c'. r = Inr (ret, c') \<and> btf_added s (b # base) ret c')"
proof -
  let ?p = "\<lparr>cs_dst = b2 # base, cs_str_off_map = Some hashmap__init, cs_calls = 0\<rparr>"
  let ?copy = "copy_types (rewrite_type (btf_rewrite_str als hm_ok [s]) (btf_rewrite_type_ids n)) (bf_types_data s) (length (bf_type_offs s)) 0 ?p"
  have nr: "bf_nr_types s = length (bf_type_offs s)" by (simp add: bf_nr_types_def)
  have c2: "bchain_ok (b2 # base)" using bchain_same [OF c ok v] c by simp
  from copy_types_ok [OF new_pipe_ok [OF c2 st] tl, of als hm_ok n]
  consider (fault) "?copy = Inl Signed_Overflow" "base \<noteq> []"
    | (ret) err ts p' where "?copy = Inr (err, ts, p')" "pipe_ok [s] p'" "pipe_later ?p p'"
        "err = 0 \<and> placed 0 ts \<and> length (types_bytes ts) = length (bf_types_data s) \<and>
         list_all2 (\<lambda>off (q, ws). translated [s] n (type_at (bf_types_data s) off) (map to_btf (cs_dst p')) (type_of_words ws)) (bf_type_offs s) ts \<or>
         err = - ENOMEM" by auto
  then show ?thesis
  proof cases
    case fault
    then show ?thesis by (simp add: r_def nr)
  next
    case (ret err ts p')
    obtain b3 base3 where dst: "cs_dst p' = b3 # base3" "bchain_ok (b3 # base3)" using ret(2) by (auto simp: pipe_ok_def neq_Nil_conv)
    have g: "strs_grow b2 b3" "map to_btf base3 = map to_btf base" using ret(3) dst(1) by (auto simp: pipe_later_def)
    have same: "hd_type_len (bb_hdr b3) = hd_type_len (bb_hdr b2)" "bb_types b3 = bb_types b2" "bb_offs b3 = bb_offs b"
      using g(1) to_btf_fields(2) [OF v] by (auto simp: strs_grow_def)
    have x: "extends b b3" by (rule extends_trans [OF same_view_extends [OF v] strs_grow_extends [OF g(1)]])
    have room3: "unat (hd_type_len (bb_hdr b3)) + length (bf_types_data s) \<le> ma_cap (bb_types b3)" using room same by simp
    have r: "r = finish_btf (unat (hd_type_len (bb_hdr b3))) (bf_types_data s) (hd_str_len (bb_hdr b)) (err, ts, p')" using ret(1) same(1) by (simp add: r_def nr)
    show ?thesis
    proof (cases "err = 0")
      case True
      then show ?thesis unfolding r using finish_ok [OF c dst(2) x same(3) g(2) room3 dst(1) _ _ _ n] ret(4) by (auto simp: ENOMEM_def)
    next
      case False
      then have err: "err = - ENOMEM" using ret(4) by simp
      show ?thesis
      proof (cases "hd_str_len (bb_hdr b3) = hd_str_len (bb_hdr b)")
        case True
        let ?b = "b3\<lparr>bb_types := area_write (unat (hd_type_len (bb_hdr b3))) (replicate (length (bf_types_data s)) 0) (bb_types b3)\<rparr>"
        have w: "to_btf ?b = to_btf b3" "bb_ok (base3 \<noteq> []) ?b"
          using clear_view [of "base3 \<noteq> []" b3 "replicate (length (bf_types_data s)) 0"] dst(2) room3 by auto
        have "bchain_ok (?b # base3)" using bchain_same [OF dst(2) w(2,1)] dst(2) by simp
        moreover have "extends b ?b" by (rule extends_trans [OF x same_view_extends [OF w(1)]])
        ultimately have "btf_added s (b # base) (- ENOMEM) (?b # base3)" using added_none [OF c _ _ _ g(2)] same(3) by simp
        moreover have "r = Inr (- ENOMEM, ?b # base3)" unfolding r using True dst(1) err by (simp add: finish_btf_def Let_def ENOMEM_def)
        ultimately show ?thesis by blast
      next
        case False
        then have "r = Inl Out_Of_Bounds" unfolding r using dst(1) err by (simp add: finish_btf_def Let_def ENOMEM_def)
        moreover have "cut_short als hm_ok s (b # base)"
          unfolding cut_short_def nr by (rule exI [of _ ?p], rule exI [of _ n]) (use ret(1) err False dst(1) v in auto)
        ultimately show ?thesis by simp
      qed
    qed
  qed
qed

text \<open>
  C24. \<open>btf__add_btf\<close> gives the types of a well-formed source without a base, whose names resolve and whose types have less than \<open>2 ^ 31\<close> bytes, in order, the next ids of the destination, and returns the first of them: readers
  find under every new id the source type with the same names, each referenced id but void shifted by the number of older types; all older
  types and strings stay as they were. Otherwise it fails for lack of memory and adds no type, unless strings had been added already: then
  the error path clears bytes through a null pointer (an offset that overflows \<open>int\<close> is possible on a base only).
\<close>

theorem add_btf_copies:
  assumes c: "bchain_ok (b # base)" and s: "btf_wf False s" "bf_start_id s = 1" "length (bf_types_data s) \<le> nat INT_MAX"
    and strs: "\<forall>off\<in>set (bf_type_offs s). strs_known [s] (type_at (bf_types_data s) off)"
  shows "btf__add_btf al als map_ok hm_ok [s] (b # base) = Inl Signed_Overflow \<and> base \<noteq> [] \<or>
    btf__add_btf al als map_ok hm_ok [s] (b # base) = Inl Out_Of_Bounds \<and> cut_short als hm_ok s (b # base) \<or>
    (\<exists>ret c'. btf__add_btf al als map_ok hm_ok [s] (b # base) = Inr (ret, c') \<and> btf_added s (b # base) ret c')"
proof -
  let ?al = "al (length base)" and ?data = "bf_types_data s"
  obtain err b1 where e: "btf_ensure_modifiable ?al (base \<noteq> []) b = Inr (err, b1)" "bb_ok (base \<noteq> []) b1" "to_btf b1 = to_btf b"
    "err = 0 \<and> (\<exists>st. bb_strs b1 = Interned st) \<or> err = - ENOMEM \<and> b1 = b"
    using ensure_ok [of "base \<noteq> []" b ?al "base \<noteq> []"] c unfolding bchain_ok.simps by blast
  obtain q b2 where m: "btf_add_type_mem (ba_type_mem ?al) (length ?data) b1 = (q, b2)" by fastforce
  obtain o_ok b3 where o: "btf_add_type_offs_mem (ba_idx ?al) (btf__type_cnt [s] - 1) b2 = (o_ok, b3)" by fastforce
  note m' = add_type_mem_ok [OF e(2) m] and o' = offs_mem_view [OF conjunct1 [OF add_type_mem_ok [OF e(2) m]] o]
  have fail: "btf_added s (b # base) (- ENOMEM) (b' # base)" if "bb_ok (base \<noteq> []) b'" "to_btf b' = to_btf b" for b'
    using added_none [OF c bchain_same [OF c that] same_view_extends [OF that(2)] to_btf_fields(2) [OF that(2)]] c by simp
  have cnt: "btf__type_cnt [s] - 1 = bf_nr_types s" using s(2) by (simp add: btf__type_cnt_def)
  have tiles: "tiles (length ?data) ?data 0 (bf_type_offs s)" using s(1) by (auto simp: btf_wf_def)
  note run = btf__add_btf_def [of al als map_ok hm_ok "[s]" "b # base"]
  consider (ens) "err \<noteq> 0" | (mem) "err = 0" "q = None" | (offs) at where "err = 0" "q = Some at" "\<not> o_ok \<or> \<not> map_ok"
    | (go) at where "err = 0" "q = Some at" "o_ok" "map_ok" by fastforce
  then show ?thesis
  proof cases
    case ens
    then show ?thesis using e fail by (auto simp: run)
  next
    case mem
    then show ?thesis using e m m' fail [of b2] s(3) by (simp add: run Let_def)
  next
    case (offs at)
    then show ?thesis using e m m' o o' fail [of b3] s(3) by (auto simp: run Let_def split: bool.splits)
  next
    case (go at)
    obtain st where st: "bb_strs b3 = Interned st" using e(4) go(1) m' o' by (auto simp: ENOMEM_def)
    have v: "to_btf b3 = to_btf b" using e(3) m' o' by simp
    have hdr: "hd_type_len (bb_hdr b1) = hd_type_len (bb_hdr b3)" "hd_str_len (bb_hdr b1) = hd_str_len (bb_hdr b)" "bb_start_id b3 = bb_start_id b" "bb_offs b3 = bb_offs b"
      using to_btf_fields [OF v] to_btf_fields [OF e(3)] by simp_all
    have at: "at = unat (hd_type_len (bb_hdr b3))" "at + length ?data \<le> ma_cap (bb_types b3)" using m' o' go(2) hdr(1) by auto
    have n: "bb_start_id b3 + length (bb_offs b3) - 1 = btf__type_cnt (map to_btf (b # base)) - 1" using hdr by (simp add: cnt_to_btf)
    have "btf__add_btf al als map_ok hm_ok [s] (b # base) =
        bindR (copy_types (rewrite_type (btf_rewrite_str als hm_ok [s]) (btf_rewrite_type_ids (bb_start_id b3 + length (bb_offs b3) - 1))) ?data (bf_nr_types s) 0
          \<lparr>cs_dst = b3 # base, cs_str_off_map = Some hashmap__init, cs_calls = 0\<rparr>) (finish_btf (unat (hd_type_len (bb_hdr b3))) ?data (hd_str_len (bb_hdr b)))"
      using e(1) go m o s(3) cnt at(1) hdr(2) by (simp add: btf__add_btf_def Let_def)
    then show ?thesis using merge_ok [OF c _ v st _ tiles strs n] o' at by simp
  qed
qed

section \<open>An integer and a pointer to it merged into the structure\<close>

definition pair_btf :: btf where
  "pair_btf = sample_btf\<lparr>bf_hdr := (bf_hdr sample_btf)\<lparr>hd_type_len := 28, hd_str_off := 28\<rparr>,
     bf_types_data := [1, 0, 0, 0, 0, 0, 0, 1, 4, 0, 0, 0, 32, 0, 0, 0, 0, 0, 0, 0, 0, 0, 0, 2, 1, 0, 0, 0], bf_type_offs := [0, 16]\<rparr>"

lemma pair_wf: "btf_wf False pair_btf"
  by (simp add: btf_wf_def) (simp add: pair_btf_def sample_btf_def btf_parse_str_sec_def BTF_MAX_STR_OFFSET_def type_fits_def base_at_def
      word_at_def btf_type_size_def btf_kind_def btf_vlen_def btf_kinds Let_def)

lemma pair_strs: "\<forall>off\<in>set (bf_type_offs pair_btf). \<forall>i\<in>set (str_off_places (type_at (bf_types_data pair_btf) off)).
    let w = type_words (type_at (bf_types_data pair_btf) off) ! i in
    w = 0 \<or> (case btf__str_by_offset [pair_btf] (unat w) of Inr (Some s) \<Rightarrow> True | _ \<Rightarrow> False)"
  by code_simp

lemma pair_known: "\<forall>off\<in>set (bf_type_offs pair_btf). strs_known [pair_btf] (type_at (bf_types_data pair_btf) off)"
proof -
  have "has_str [pair_btf] w" if "w = 0 \<or> (case btf__str_by_offset [pair_btf] (unat w) of Inr (Some s) \<Rightarrow> True | _ \<Rightarrow> False)" for w
    using that by (auto simp: has_str_def split: sum.splits option.splits)
  then show ?thesis using pair_strs unfolding strs_known_def Let_def by blast
qed

definition start_pipe :: btf_pipe where
  "start_pipe = \<lparr>cs_dst = [spare_bb], cs_str_off_map = Some hashmap__init, cs_calls = 0\<rparr>"

definition named_pipe :: btf_pipe where
  "named_pipe = \<lparr>cs_dst = [named_bb],
     cs_str_off_map = Some \<lparr>hm_buckets = Some [[], [], [(1, 3)], []], hm_cap = 4, hm_cap_bits = 2, hm_sz = 1\<rparr>, cs_calls = 1\<rparr>"

abbreviation pair_str :: "btf_pipe word_visitor" where
  "pair_str \<equiv> btf_rewrite_str (\<lambda>_. all_memory) (\<lambda>_. (True, True)) [pair_btf]"

lemma pair_str_run: "pair_str 1 start_pipe = Inr (0, 3, named_pipe)" "pair_str 0 named_pipe = Inr (0, 0, named_pipe)"
proof -
  have "hashmap__insert (\<lambda>k :: u64. k) (=) True True HASHMAP_APPEND 1 (3 :: u32) hashmap__init =
      Inr (0, None, \<lparr>hm_buckets = Some [[], [], [(1, 3)], []], hm_cap = 4, hm_cap_bits = 2, hm_sz = 1\<rparr>)"
    "hashmap__find (\<lambda>k :: u64. k) (=) hashmap__init 1 = Inr (None :: u32 option)" "btf__str_by_offset [pair_btf] (Suc 0) = Inr (Some [105, 110, 116])"
    by code_simp+
  then show "pair_str 1 start_pipe = Inr (0, 3, named_pipe)"
    by (simp add: btf_rewrite_str_def mapped_str_def spare_add_str Let_def start_pipe_def named_pipe_def)
qed (simp add: btf_rewrite_str_def)

lemma pair_types: "type_at (bf_types_data pair_btf) 0 = int_type" "type_words (type_at (bf_types_data pair_btf) 16) = [0, 0x02000000, 1]"
   "btf_type_size (type_at (bf_types_data pair_btf) 16) = 12" "length (bf_types_data pair_btf) = 28" "bf_nr_types pair_btf = 2"
  by code_simp+

lemma pair_places: "type_id_places (type_of_words [3, 0x01000000, 4, 32]) = Some []" "str_off_places (type_of_words [0, 0x02000000, 1]) = [0]"
   "type_id_places (type_of_words [0, 0x02000000, 1]) = Some [2]"
  by code_simp+

lemma pair_rewrite:
  "rewrite_type pair_str (btf_rewrite_type_ids 1) [1, 0x01000000, 4, 32] start_pipe = Inr (0, [3, 0x01000000, 4, 32], named_pipe)"
  "rewrite_type pair_str (btf_rewrite_type_ids 1) [0, 0x02000000, 1] named_pipe = Inr (0, [0, 0x02000000, 2], named_pipe)"
  by (simp_all add: rewrite_type_def btf_type_visit_str_offs_def btf_type_visit_type_ids_def int_type_facts pair_places pair_str_run btf_rewrite_type_ids_def)

lemma pair_copy:
  "copy_types (rewrite_type pair_str (btf_rewrite_type_ids 1)) (bf_types_data pair_btf) 2 0 start_pipe =
     Inr (0, [(0, [3, 0x01000000, 4, 32]), (16, [0, 0x02000000, 2])], named_pipe)"
  by (simp add: numeral_2_eq_2 Let_def pair_types int_type_facts pair_rewrite [unfolded One_nat_def])

lemma spare_mem: "btf_add_type_mem True 28 spare_bb = (Some 12, spare_bb)" "btf_add_type_offs_mem True 2 spare_bb = (True, spare_bb)"
  by (simp_all add: btf_add_type_mem_def libbpf_add_mem_def btf_add_type_offs_mem_def spare_bb_def struct_bb_def)

lemma add_btf_run: "\<exists>c'. btf__add_btf all_memory (\<lambda>_. all_memory) True (\<lambda>_. (True, True)) [pair_btf] [spare_bb] = Inr (2, c')"
proof -
  have id: "bb_start_id spare_bb + length (bb_offs spare_bb) - 1 = 1" by (simp add: spare_bb_def struct_bb_def)
  have "\<exists>c'. finish_btf 12 (bf_types_data pair_btf) old (0, [(0, [3, 0x01000000, 4, 32]), (16, [0, 0x02000000, 2])], named_pipe) = Inr (2, c')" for old
    by (simp add: finish_btf_def named_pipe_def Let_def) (simp add: commit_btf_def grow_types_def named_bb_def spare_bb_def struct_bb_def)
  moreover have "btf__type_cnt [pair_btf] - 1 = 2" using pair_types(5) by (simp add: btf__type_cnt_def pair_btf_def sample_btf_def)
  ultimately show ?thesis using spare_ensure spare_mem pair_copy id
    by (simp add: btf__add_btf_def all_memory_simps Let_def pair_types(4) INT_MAX_def start_pipe_def del: bindR_eq_Inr One_nat_def)
qed

theorem add_btf_copies_witness:
  "\<exists>c'. btf__add_btf all_memory (\<lambda>_. all_memory) True (\<lambda>_. (True, True)) [pair_btf] [spare_bb] = Inr (2, c') \<and> btf_added pair_btf [spare_bb] 2 c'"
proof -
  have "bf_start_id pair_btf = 1" "length (bf_types_data pair_btf) \<le> nat INT_MAX"
    by (simp_all add: pair_types(4) INT_MAX_def) (simp add: pair_btf_def sample_btf_def)
  then show ?thesis
    using add_btf_copies [OF spare_chain pair_wf _ _ pair_known, of all_memory "\<lambda>_. all_memory" True "\<lambda>_. (True, True)"] add_btf_run by auto
qed

end
