(* ===== verification/Dedup.thy ===== *)
theory Dedup
  imports Btf_Merge
begin

text \<open>
  Deduplication of types (\<open>libbpf/src/btf.c\<close>, passes 2 to 6 of \<open>btf__dedup\<close>): comparison and hashes of types, the canonical map, the
  comparison of type graphs with its hypothetical map, the passes over primitive types, structures and reference
  types, compaction and the rewriting of ids. The types of an instance and its base are a table indexed by id, with
  void at 0; ids and the two maps are words as in the code.
\<close>

section \<open>State\<close>

definition BTF_UNPROCESSED_ID :: u32 where "BTF_UNPROCESSED_ID = - 1"
definition BTF_IN_PROGRESS_ID :: u32 where "BTF_IN_PROGRESS_ID = - 2"

text \<open>The test \<open>id <= BTF_MAX_NR_TYPES\<close>.\<close>

definition known_id :: "u32 \<Rightarrow> bool" where
  "known_id i \<longleftrightarrow> i \<le> 0x7FFFFFFF"

text \<open>\<open>hypot_cnt\<close> is the length of \<open>hypot_list\<close>; \<open>dd_collide\<close> is the option that makes all hashes equal; \<open>dd_calls\<close> counts the
  calls of the allocator, which answers call \<open>i\<close> by \<open>mem i\<close>.\<close>

record btf_dedup =
  dd_types :: "btf_type list"
  dd_start_id :: nat
  dd_table :: "(u64, u32) hashmap"
  dd_collide :: bool
  dd_map :: "u32 list"
  dd_hypot_map :: "u32 list"
  dd_hypot_list :: "u32 list"
  dd_hypot_cap :: nat
  dd_hypot_adjust_canon :: bool
  dd_calls :: nat

type_synonym mem_answers = "nat \<Rightarrow> bool \<times> bool"

definition at_id :: "'a list \<Rightarrow> u32 \<Rightarrow> fault + 'a" where
  "at_id xs i = (if unat i < length xs then Inr (xs ! unat i) else Inl Out_Of_Bounds)"

definition set_map :: "u32 \<Rightarrow> u32 \<Rightarrow> btf_dedup \<Rightarrow> fault + btf_dedup" where
  "set_map i v d = (if unat i < length (dd_map d) then Inr (d\<lparr>dd_map := (dd_map d)[unat i := v]\<rparr>) else Inl Out_Of_Bounds)"

text \<open>Hashes are computed modulo \<open>2\<^sup>6\<^sup>4\<close>, although the C type \<open>long\<close> is signed.\<close>

definition hash_combine :: "u64 \<Rightarrow> u32 \<Rightarrow> u64" where
  "hash_combine h value = h * 31 + ucast value"

definition dedup_hash_fn :: "bool \<Rightarrow> u64 \<Rightarrow> u64" where
  "dedup_hash_fn collide key = (if collide then 0 else key)"

definition dedup_cands :: "btf_dedup \<Rightarrow> u64 \<Rightarrow> fault + u32 list" where
  "dedup_cands d h = bindR (hashmap_key_entries (dedup_hash_fn (dd_collide d)) (=) (dd_table d) h) (\<lambda>es. Inr (map snd es))"

definition btf_dedup_table_add :: "mem_answers \<Rightarrow> u64 \<Rightarrow> u32 \<Rightarrow> btf_dedup \<Rightarrow> fault + (int \<times> btf_dedup)" where
  "btf_dedup_table_add mem h type_id d =
     bindR (hashmap__insert (dedup_hash_fn (dd_collide d)) (=) (fst (mem (dd_calls d))) (snd (mem (dd_calls d))) HASHMAP_APPEND h type_id (dd_table d))
       (\<lambda>(err, old, m). Inr (err, d\<lparr>dd_table := m, dd_calls := dd_calls d + 1\<rparr>))"

text \<open>The list grows by half, at least by 16; the capacity is raised before the memory is there.\<close>

definition btf_dedup_hypot_map_add :: "mem_answers \<Rightarrow> u32 \<Rightarrow> u32 \<Rightarrow> btf_dedup \<Rightarrow> fault + (int \<times> btf_dedup)" where
  "btf_dedup_hypot_map_add mem from_id to_id d =
     (let full = length (dd_hypot_list d) = dd_hypot_cap d;
          d' = (if full then d\<lparr>dd_hypot_cap := dd_hypot_cap d + max 16 (dd_hypot_cap d div 2), dd_calls := dd_calls d + 1\<rparr> else d) in
      if full \<and> \<not> fst (mem (dd_calls d)) then Inr (- ENOMEM, d')
      else if unat from_id < length (dd_hypot_map d)
      then Inr (0, d'\<lparr>dd_hypot_list := dd_hypot_list d @ [from_id], dd_hypot_map := (dd_hypot_map d)[unat from_id := to_id]\<rparr>)
      else Inl Out_Of_Bounds)"

text \<open>The places that are cleared are those \<open>btf_dedup_hypot_map_add\<close> has written.\<close>

definition btf_dedup_clear_hypot_map :: "btf_dedup \<Rightarrow> btf_dedup" where
  "btf_dedup_clear_hypot_map d = d\<lparr>dd_hypot_map := fold (\<lambda>i m. m[unat i := BTF_UNPROCESSED_ID]) (dd_hypot_list d) (dd_hypot_map d),
     dd_hypot_list := [], dd_hypot_adjust_canon := False\<rparr>"

text \<open>The two maps at the start; the answers are those of \<open>calloc\<close> and of the three other allocations.\<close>

definition first_map :: "btf_type list \<Rightarrow> u32 list" where
  "first_map ts = map (\<lambda>i. if i = 0 then 0 else if btf_is_var (ts ! i) \<or> btf_is_datasec (ts ! i) then of_nat i else BTF_UNPROCESSED_ID) [0..<length ts]"

definition btf_dedup_new :: "bool \<Rightarrow> bool \<Rightarrow> bool \<Rightarrow> bool \<Rightarrow> bool \<Rightarrow> btf_type list \<Rightarrow> nat \<Rightarrow> int + btf_dedup" where
  "btf_dedup_new calloc_ok table_ok map_ok hypot_ok collide ts start_id =
     (if \<not> (calloc_ok \<and> table_ok \<and> map_ok \<and> hypot_ok) then Inl (- ENOMEM)
      else Inr \<lparr>dd_types = ts, dd_start_id = start_id, dd_table = hashmap__init, dd_collide = collide, dd_map = first_map ts,
        dd_hypot_map = replicate (length ts) BTF_UNPROCESSED_ID, dd_hypot_list = [], dd_hypot_cap = 0, dd_hypot_adjust_canon = False, dd_calls = 0\<rparr>)"

section \<open>Hashes and comparison\<close>

definition btf_hash_common :: "btf_type \<Rightarrow> u64" where
  "btf_hash_common t = hash_combine (hash_combine (hash_combine 0 (bt_name_off t)) (bt_info t)) (bt_type t)"

definition btf_equal_common :: "btf_type \<Rightarrow> btf_type \<Rightarrow> bool" where
  "btf_equal_common t1 t2 \<longleftrightarrow> bt_name_off t1 = bt_name_off t2 \<and> bt_info t1 = bt_info t2 \<and> bt_type t1 = bt_type t2"

definition btf_hash_int_decl_tag :: "btf_type \<Rightarrow> u64" where
  "btf_hash_int_decl_tag t = hash_combine (btf_hash_common t) (bt_words t ! 0)"

definition btf_equal_int_tag :: "btf_type \<Rightarrow> btf_type \<Rightarrow> bool" where
  "btf_equal_int_tag t1 t2 \<longleftrightarrow> btf_equal_common t1 t2 \<and> bt_words t1 ! 0 = bt_words t2 ! 0"

text \<open>The info word without the length.\<close>

definition info_kind :: "btf_type \<Rightarrow> u32" where
  "info_kind t = bt_info t AND NOT 0xffff"

definition btf_hash_enum :: "btf_type \<Rightarrow> u64" where
  "btf_hash_enum t = hash_combine (hash_combine (hash_combine 0 (bt_name_off t)) (info_kind t)) (bt_type t)"

definition btf_equal_enum :: "btf_type \<Rightarrow> btf_type \<Rightarrow> bool" where
  "btf_equal_enum t1 t2 \<longleftrightarrow> btf_equal_common t1 t2 \<and> list_all2 (=) (btf_enums t1) (btf_enums t2)"

definition btf_equal_enum64 :: "btf_type \<Rightarrow> btf_type \<Rightarrow> bool" where
  "btf_equal_enum64 t1 t2 \<longleftrightarrow> btf_equal_common t1 t2 \<and> list_all2 (=) (btf_enum64s t1) (btf_enum64s t2)"

definition btf_is_enum_fwd :: "btf_type \<Rightarrow> bool" where
  "btf_is_enum_fwd t \<longleftrightarrow> btf_is_any_enum t \<and> btf_vlen t = 0"

definition same_but_vlen :: "btf_type \<Rightarrow> btf_type \<Rightarrow> bool" where
  "same_but_vlen t1 t2 \<longleftrightarrow> bt_name_off t1 = bt_name_off t2 \<and> info_kind t1 = info_kind t2 \<and> bt_type t1 = bt_type t2"

definition btf_compat_enum :: "btf_type \<Rightarrow> btf_type \<Rightarrow> bool" where
  "btf_compat_enum t1 t2 \<longleftrightarrow> (if \<not> btf_is_enum_fwd t1 \<and> \<not> btf_is_enum_fwd t2 then btf_equal_enum t1 t2 else same_but_vlen t1 t2)"

definition btf_compat_enum64 :: "btf_type \<Rightarrow> btf_type \<Rightarrow> bool" where
  "btf_compat_enum64 t1 t2 \<longleftrightarrow> (if \<not> btf_is_enum_fwd t1 \<and> \<not> btf_is_enum_fwd t2 then btf_equal_enum64 t1 t2 else same_but_vlen t1 t2)"

definition btf_hash_struct :: "btf_type \<Rightarrow> u64" where
  "btf_hash_struct t = fold (\<lambda>m h. hash_combine (hash_combine h (mb_name_off m)) (mb_offset m)) (btf_members t) (btf_hash_common t)"

definition btf_shallow_equal_struct :: "btf_type \<Rightarrow> btf_type \<Rightarrow> bool" where
  "btf_shallow_equal_struct t1 t2 \<longleftrightarrow> btf_equal_common t1 t2 \<and>
     list_all2 (\<lambda>m1 m2. mb_name_off m1 = mb_name_off m2 \<and> mb_offset m1 = mb_offset m2) (btf_members t1) (btf_members t2)"

definition btf_hash_array :: "btf_type \<Rightarrow> u64" where
  "btf_hash_array t = (let info = btf_array t in
     hash_combine (hash_combine (hash_combine (btf_hash_common t) (ar_type info)) (ar_index_type info)) (ar_nelems info))"

definition btf_equal_array :: "btf_type \<Rightarrow> btf_type \<Rightarrow> bool" where
  "btf_equal_array t1 t2 \<longleftrightarrow> btf_equal_common t1 t2 \<and> ar_type (btf_array t1) = ar_type (btf_array t2) \<and>
     ar_index_type (btf_array t1) = ar_index_type (btf_array t2) \<and> ar_nelems (btf_array t1) = ar_nelems (btf_array t2)"

definition btf_compat_array :: "btf_type \<Rightarrow> btf_type \<Rightarrow> bool" where
  "btf_compat_array t1 t2 \<longleftrightarrow> btf_equal_common t1 t2 \<and> ar_nelems (btf_array t1) = ar_nelems (btf_array t2)"

definition btf_hash_fnproto :: "btf_type \<Rightarrow> u64" where
  "btf_hash_fnproto t = fold (\<lambda>m h. hash_combine (hash_combine h (pm_name_off m)) (pm_type m)) (btf_params t) (btf_hash_common t)"

definition btf_equal_fnproto :: "btf_type \<Rightarrow> btf_type \<Rightarrow> bool" where
  "btf_equal_fnproto t1 t2 \<longleftrightarrow> btf_equal_common t1 t2 \<and>
     list_all2 (\<lambda>m1 m2. pm_name_off m1 = pm_name_off m2 \<and> pm_type m1 = pm_type m2) (btf_params t1) (btf_params t2)"

definition btf_compat_fnproto :: "btf_type \<Rightarrow> btf_type \<Rightarrow> bool" where
  "btf_compat_fnproto t1 t2 \<longleftrightarrow> bt_name_off t1 = bt_name_off t2 \<and> bt_info t1 = bt_info t2 \<and>
     list_all2 (\<lambda>m1 m2. pm_name_off m1 = pm_name_off m2) (btf_params t1) (btf_params t2)"

section \<open>Base types and primitive types\<close>

text \<open>The hash under which a type of the base is entered; types that are never deduplicated have none.\<close>

definition base_hash :: "btf_type \<Rightarrow> int + u64 option" where
  "base_hash t = (let k = btf_kind t in
     if k = BTF_KIND_VAR \<or> k = BTF_KIND_DATASEC then Inr None
     else if k \<in> {BTF_KIND_CONST, BTF_KIND_VOLATILE, BTF_KIND_RESTRICT, BTF_KIND_PTR, BTF_KIND_FWD, BTF_KIND_TYPEDEF, BTF_KIND_FUNC,
       BTF_KIND_FLOAT, BTF_KIND_TYPE_TAG} then Inr (Some (btf_hash_common t))
     else if k = BTF_KIND_INT \<or> k = BTF_KIND_DECL_TAG then Inr (Some (btf_hash_int_decl_tag t))
     else if k = BTF_KIND_ENUM \<or> k = BTF_KIND_ENUM64 then Inr (Some (btf_hash_enum t))
     else if k = BTF_KIND_STRUCT \<or> k = BTF_KIND_UNION then Inr (Some (btf_hash_struct t))
     else if k = BTF_KIND_ARRAY then Inr (Some (btf_hash_array t))
     else if k = BTF_KIND_FUNC_PROTO then Inr (Some (btf_hash_fnproto t))
     else Inl (- EINVAL))"

text \<open>A loop over ids that ends at the first error.\<close>

primrec each_id :: "(u32 \<Rightarrow> btf_dedup \<Rightarrow> fault + (int \<times> btf_dedup)) \<Rightarrow> nat list \<Rightarrow> btf_dedup \<Rightarrow> fault + (int \<times> btf_dedup)" where
  "each_id f [] d = Inr (0, d)"
| "each_id f (i # is) d = bindR (f (of_nat i) d) (\<lambda>(err, d). if err < 0 then Inr (err, d) else each_id f is d)"

definition prep_type :: "mem_answers \<Rightarrow> u32 \<Rightarrow> btf_dedup \<Rightarrow> fault + (int \<times> btf_dedup)" where
  "prep_type mem type_id d =
     bindR (at_id (dd_types d) type_id) (\<lambda>t. bindR (set_map type_id type_id d) (\<lambda>d. case base_hash t of
         Inl err \<Rightarrow> Inr (err, d)
       | Inr None \<Rightarrow> Inr (0, d)
       | Inr (Some h) \<Rightarrow> bindR (btf_dedup_table_add mem h type_id d) (\<lambda>(err, d). Inr (if err \<noteq> 0 then - ENOMEM else 0, d))))"

text \<open>An instance without base starts at 1.\<close>

definition btf_dedup_prep :: "mem_answers \<Rightarrow> btf_dedup \<Rightarrow> fault + (int \<times> btf_dedup)" where
  "btf_dedup_prep mem d = each_id (prep_type mem) [1..<dd_start_id d] d"

text \<open>The first candidate that satisfies a test.\<close>

fun first_cand :: "(btf_type \<Rightarrow> bool) \<Rightarrow> btf_type list \<Rightarrow> u32 list \<Rightarrow> fault + u32 option" where
  "first_cand p ts [] = Inr None"
| "first_cand p ts (c # cs) = bindR (at_id ts c) (\<lambda>cand. if p cand then Inr (Some c) else first_cand p ts cs)"

definition equal_cand :: "(btf_type \<Rightarrow> btf_type \<Rightarrow> bool) \<Rightarrow> u64 \<Rightarrow> btf_type \<Rightarrow> u32 \<Rightarrow> btf_dedup \<Rightarrow> fault + u32" where
  "equal_cand equal h t type_id d = bindR (dedup_cands d h) (\<lambda>cs. bindR (first_cand (equal t) (dd_types d) cs) (\<lambda>c.
     Inr (case c of None \<Rightarrow> type_id | Some c \<Rightarrow> c)))"

fun enum_cands ::
  "(btf_type \<Rightarrow> btf_type \<Rightarrow> bool) \<Rightarrow> (btf_type \<Rightarrow> btf_type \<Rightarrow> bool) \<Rightarrow> btf_type \<Rightarrow> u32 \<Rightarrow> u32 list \<Rightarrow> btf_dedup \<Rightarrow> fault + (u32 \<times> btf_dedup)" where
  "enum_cands equal fits t type_id [] d = Inr (type_id, d)"
| "enum_cands equal fits t type_id (c # cs) d = bindR (at_id (dd_types d) c) (\<lambda>cand.
     if equal t cand then Inr (c, d)
     else if fits t cand then
       if btf_is_enum_fwd t then Inr (c, d)
       else bindR (set_map c type_id d) (enum_cands equal fits t type_id cs)
     else enum_cands equal fits t type_id cs d)"

text \<open>The end of a pass for one type: the canonical id is recorded, and a type that is its own canonical type becomes a candidate.\<close>

definition settle :: "mem_answers \<Rightarrow> u64 \<Rightarrow> u32 \<Rightarrow> u32 \<Rightarrow> btf_dedup \<Rightarrow> fault + (int \<times> btf_dedup)" where
  "settle mem h type_id new_id d = bindR (set_map type_id new_id d) (\<lambda>d.
     if type_id = new_id then bindR (btf_dedup_table_add mem h type_id d) (\<lambda>(err, d). Inr (if err \<noteq> 0 then - ENOMEM else 0, d))
     else Inr (0, d))"

definition btf_dedup_prim_type :: "mem_answers \<Rightarrow> u32 \<Rightarrow> btf_dedup \<Rightarrow> fault + (int \<times> btf_dedup)" where
  "btf_dedup_prim_type mem type_id d = bindR (at_id (dd_types d) type_id) (\<lambda>t. let k = btf_kind t in
     if k \<in> {BTF_KIND_CONST, BTF_KIND_VOLATILE, BTF_KIND_RESTRICT, BTF_KIND_PTR, BTF_KIND_TYPEDEF, BTF_KIND_ARRAY, BTF_KIND_STRUCT, BTF_KIND_UNION,
       BTF_KIND_FUNC, BTF_KIND_FUNC_PROTO, BTF_KIND_VAR, BTF_KIND_DATASEC, BTF_KIND_DECL_TAG, BTF_KIND_TYPE_TAG} then Inr (0, d)
     else if k = BTF_KIND_INT then
       bindR (equal_cand btf_equal_int_tag (btf_hash_int_decl_tag t) t type_id d) (\<lambda>new_id. settle mem (btf_hash_int_decl_tag t) type_id new_id d)
     else if k = BTF_KIND_ENUM then
       bindR (dedup_cands d (btf_hash_enum t)) (\<lambda>cs. bindR (enum_cands btf_equal_enum btf_compat_enum t type_id cs d) (\<lambda>(new_id, d).
         settle mem (btf_hash_enum t) type_id new_id d))
     else if k = BTF_KIND_ENUM64 then
       bindR (dedup_cands d (btf_hash_enum t)) (\<lambda>cs. bindR (enum_cands btf_equal_enum64 btf_compat_enum64 t type_id cs d) (\<lambda>(new_id, d).
         settle mem (btf_hash_enum t) type_id new_id d))
     else if k = BTF_KIND_FWD \<or> k = BTF_KIND_FLOAT then
       bindR (equal_cand btf_equal_common (btf_hash_common t) t type_id d) (\<lambda>new_id. settle mem (btf_hash_common t) type_id new_id d)
     else Inr (- EINVAL, d))"

abbreviation own_ids :: "btf_dedup \<Rightarrow> nat list" where
  "own_ids d \<equiv> [dd_start_id d..<length (dd_types d)]"

definition btf_dedup_prim_types :: "mem_answers \<Rightarrow> btf_dedup \<Rightarrow> fault + (int \<times> btf_dedup)" where
  "btf_dedup_prim_types mem d = each_id (btf_dedup_prim_type mem) (own_ids d) d"

section \<open>Resolution\<close>

definition is_type_mapped :: "btf_dedup \<Rightarrow> u32 \<Rightarrow> bool" where
  "is_type_mapped d type_id \<longleftrightarrow> known_id (dd_map d ! unat type_id)"

text \<open>A walk over more ids than there are visits one twice and never ends.\<close>

fun resolve_loop :: "u32 list \<Rightarrow> nat \<Rightarrow> u32 \<Rightarrow> fault + u32" where
  "resolve_loop m 0 type_id = Inl No_Return"
| "resolve_loop m (Suc n) type_id = bindR (at_id m type_id) (\<lambda>next.
     if known_id next \<and> next \<noteq> type_id then resolve_loop m n next else Inr type_id)"

definition resolve_type_id :: "btf_dedup \<Rightarrow> u32 \<Rightarrow> fault + u32" where
  "resolve_type_id d type_id = resolve_loop (dd_map d) (Suc (length (dd_map d))) type_id"

definition resolve_fwd_id :: "btf_dedup \<Rightarrow> u32 \<Rightarrow> fault + u32" where
  "resolve_fwd_id d type_id = bindR (at_id (dd_types d) type_id) (\<lambda>t.
     if \<not> btf_is_fwd t then Inr type_id
     else bindR (resolve_type_id d type_id) (\<lambda>r. bindR (at_id (dd_types d) r) (\<lambda>t'. Inr (if \<not> btf_is_fwd t' then r else type_id))))"

definition fwd_kind_of :: "btf_type \<Rightarrow> nat" where
  "fwd_kind_of t = (if btf_kflag t then BTF_KIND_UNION else BTF_KIND_STRUCT)"

definition btf_dedup_identical_arrays :: "btf_dedup \<Rightarrow> u32 \<Rightarrow> u32 \<Rightarrow> fault + bool" where
  "btf_dedup_identical_arrays d id1 id2 = bindR (at_id (dd_types d) id1) (\<lambda>t1. bindR (at_id (dd_types d) id2) (\<lambda>t2.
     Inr (btf_is_array t1 \<and> btf_is_array t2 \<and> btf_equal_array t1 t2)))"

definition btf_dedup_identical_structs :: "btf_dedup \<Rightarrow> u32 \<Rightarrow> u32 \<Rightarrow> fault + bool" where
  "btf_dedup_identical_structs d id1 id2 = bindR (at_id (dd_types d) id1) (\<lambda>t1. bindR (at_id (dd_types d) id2) (\<lambda>t2.
     Inr (btf_is_composite t1 \<and> btf_kind t1 = btf_kind t2 \<and> btf_shallow_equal_struct t1 t2 \<and>
       list_all2 (\<lambda>m1 m2. mb_type m1 = mb_type m2) (btf_members t1) (btf_members t2))))"

section \<open>Comparison of type graphs\<close>

text \<open>The referenced types are compared in order until a pair differs.\<close>

fun equiv_refs :: "(u32 \<Rightarrow> u32 \<Rightarrow> btf_dedup \<Rightarrow> fault + (int \<times> btf_dedup)) \<Rightarrow> (u32 \<times> u32) list \<Rightarrow> btf_dedup \<Rightarrow> fault + (int \<times> btf_dedup)" where
  "equiv_refs rec [] d = Inr (1, d)"
| "equiv_refs rec ((a, b) # ps) d = bindR (rec a b d) (\<lambda>(eq, d). if eq \<le> 0 then Inr (eq, d) else equiv_refs rec ps d)"

text \<open>The part of \<open>btf_dedup_is_equiv\<close> behind the hypothetical map: the two types and what they refer to.\<close>

definition equiv_types ::
  "(u32 \<Rightarrow> u32 \<Rightarrow> btf_dedup \<Rightarrow> fault + (int \<times> btf_dedup)) \<Rightarrow> u32 \<Rightarrow> btf_type \<Rightarrow> btf_type \<Rightarrow> btf_dedup \<Rightarrow> fault + (int \<times> btf_dedup)" where
  "equiv_types rec canon_id cand canon d =
     (let cand_kind = btf_kind cand; canon_kind = btf_kind canon in
      if bt_name_off cand \<noteq> bt_name_off canon then Inr (0, d)
      else if (cand_kind = BTF_KIND_FWD \<or> canon_kind = BTF_KIND_FWD) \<and> cand_kind \<noteq> canon_kind then
        if cand_kind = BTF_KIND_FWD then Inr (of_bool (fwd_kind_of cand = canon_kind), d)
        else Inr (of_bool (fwd_kind_of canon = cand_kind),
          if fwd_kind_of canon = cand_kind \<and> unat canon_id < dd_start_id d then d\<lparr>dd_hypot_adjust_canon := True\<rparr> else d)
      else if cand_kind \<noteq> canon_kind then Inr (0, d)
      else if cand_kind = BTF_KIND_INT then Inr (of_bool (btf_equal_int_tag cand canon), d)
      else if cand_kind = BTF_KIND_ENUM then Inr (of_bool (btf_compat_enum cand canon), d)
      else if cand_kind = BTF_KIND_ENUM64 then Inr (of_bool (btf_compat_enum64 cand canon), d)
      else if cand_kind = BTF_KIND_FWD \<or> cand_kind = BTF_KIND_FLOAT then Inr (of_bool (btf_equal_common cand canon), d)
      else if cand_kind \<in> {BTF_KIND_CONST, BTF_KIND_VOLATILE, BTF_KIND_RESTRICT, BTF_KIND_PTR, BTF_KIND_TYPEDEF, BTF_KIND_FUNC, BTF_KIND_TYPE_TAG} then
        if bt_info cand \<noteq> bt_info canon then Inr (0, d) else equiv_refs rec [(bt_type cand, bt_type canon)] d
      else if cand_kind = BTF_KIND_ARRAY then
        if \<not> btf_compat_array cand canon then Inr (0, d)
        else equiv_refs rec [(ar_index_type (btf_array cand), ar_index_type (btf_array canon)), (ar_type (btf_array cand), ar_type (btf_array canon))] d
      else if cand_kind = BTF_KIND_STRUCT \<or> cand_kind = BTF_KIND_UNION then
        if \<not> btf_shallow_equal_struct cand canon then Inr (0, d)
        else equiv_refs rec (zip (map mb_type (btf_members cand)) (map mb_type (btf_members canon))) d
      else if cand_kind = BTF_KIND_FUNC_PROTO then
        if \<not> btf_compat_fnproto cand canon then Inr (0, d)
        else equiv_refs rec ((bt_type cand, bt_type canon) # zip (map pm_type (btf_params cand)) (map pm_type (btf_params canon))) d
      else Inr (- EINVAL, d))"

text \<open>The recursion is as deep as the first argument allows; each level but the last enters a new id in the map.\<close>

primrec btf_dedup_is_equiv :: "mem_answers \<Rightarrow> nat \<Rightarrow> u32 \<Rightarrow> u32 \<Rightarrow> btf_dedup \<Rightarrow> fault + (int \<times> btf_dedup)" where
  "btf_dedup_is_equiv mem 0 cand_id canon_id d = Inl No_Return"
| "btf_dedup_is_equiv mem (Suc n) cand_id canon_id d =
     bindR (resolve_type_id d cand_id) (\<lambda>r1. bindR (resolve_type_id d canon_id) (\<lambda>r2.
       if r1 = r2 then Inr (1, d)
       else bindR (resolve_fwd_id d canon_id) (\<lambda>canon_id. bindR (at_id (dd_hypot_map d) canon_id) (\<lambda>hypot_type_id.
         if known_id hypot_type_id then
           if hypot_type_id = cand_id then Inr (1, d)
           else bindR (btf_dedup_identical_arrays d hypot_type_id cand_id) (\<lambda>arrays.
             if arrays then Inr (1, d)
             else bindR (btf_dedup_identical_structs d hypot_type_id cand_id) (\<lambda>structs. Inr (of_bool structs, d)))
         else bindR (btf_dedup_hypot_map_add mem canon_id cand_id d) (\<lambda>(err, d).
           if err \<noteq> 0 then Inr (- ENOMEM, d)
           else bindR (at_id (dd_types d) cand_id) (\<lambda>cand_type. bindR (at_id (dd_types d) canon_id) (\<lambda>canon_type.
             equiv_types (btf_dedup_is_equiv mem n) canon_id cand_type canon_type d)))))))"

section \<open>Structures\<close>

fun merge_pairs :: "u32 list \<Rightarrow> btf_dedup \<Rightarrow> fault + btf_dedup" where
  "merge_pairs [] d = Inr d"
| "merge_pairs (canon_type_id # ids) d =
     bindR (at_id (dd_hypot_map d) canon_type_id) (\<lambda>targ_type_id.
     bindR (resolve_type_id d targ_type_id) (\<lambda>t_id.
     bindR (resolve_type_id d canon_type_id) (\<lambda>c_id.
     bindR (at_id (dd_types d) t_id) (\<lambda>t.
     bindR (at_id (dd_types d) c_id) (\<lambda>c.
       let t_kind = btf_kind t; c_kind = btf_kind c in
       bindR (if t_kind \<noteq> BTF_KIND_FWD \<and> c_kind = BTF_KIND_FWD then set_map c_id t_id d else Inr d) (\<lambda>d.
         bindR (if dd_hypot_adjust_canon d then Inr d
           else bindR (if t_kind = BTF_KIND_FWD \<and> c_kind \<noteq> BTF_KIND_FWD then set_map t_id c_id d else Inr d) (\<lambda>d.
             if (t_kind = BTF_KIND_STRUCT \<or> t_kind = BTF_KIND_UNION) \<and> c_kind \<noteq> BTF_KIND_FWD \<and> is_type_mapped d c_id \<and> \<not> is_type_mapped d t_id
             then set_map t_id c_id d else Inr d))
         (merge_pairs ids)))))))"

definition btf_dedup_merge_hypot_map :: "btf_dedup \<Rightarrow> fault + btf_dedup" where
  "btf_dedup_merge_hypot_map d = merge_pairs (dd_hypot_list d) d"

text \<open>The loop over the candidates: an error, or the canonical id.\<close>

fun struct_cands :: "mem_answers \<Rightarrow> btf_type \<Rightarrow> u32 \<Rightarrow> u32 list \<Rightarrow> btf_dedup \<Rightarrow> fault + (int \<times> u32 \<times> btf_dedup)" where
  "struct_cands mem t type_id [] d = Inr (0, type_id, d)"
| "struct_cands mem t type_id (cand_id # cs) d = bindR (at_id (dd_types d) cand_id) (\<lambda>cand_type.
     if \<not> btf_shallow_equal_struct t cand_type then struct_cands mem t type_id cs d
     else bindR (btf_dedup_is_equiv mem (Suc (length (dd_types d))) type_id cand_id (btf_dedup_clear_hypot_map d)) (\<lambda>(eq, d).
       if eq < 0 then Inr (eq, type_id, d)
       else if eq = 0 then struct_cands mem t type_id cs d
       else bindR (btf_dedup_merge_hypot_map d) (\<lambda>d.
         if dd_hypot_adjust_canon d then struct_cands mem t type_id cs d else Inr (0, cand_id, d))))"

definition btf_dedup_struct_type :: "mem_answers \<Rightarrow> u32 \<Rightarrow> btf_dedup \<Rightarrow> fault + (int \<times> btf_dedup)" where
  "btf_dedup_struct_type mem type_id d = bindR (at_id (dd_map d) type_id) (\<lambda>m.
     if known_id m then Inr (0, d)
     else bindR (at_id (dd_types d) type_id) (\<lambda>t.
       if btf_kind t \<noteq> BTF_KIND_STRUCT \<and> btf_kind t \<noteq> BTF_KIND_UNION then Inr (0, d)
       else bindR (dedup_cands d (btf_hash_struct t)) (\<lambda>cs. bindR (struct_cands mem t type_id cs d) (\<lambda>(err, new_id, d).
         if err < 0 then Inr (err, d) else settle mem (btf_hash_struct t) type_id new_id d))))"

definition btf_dedup_struct_types :: "mem_answers \<Rightarrow> btf_dedup \<Rightarrow> fault + (int \<times> btf_dedup)" where
  "btf_dedup_struct_types mem d = each_id (btf_dedup_struct_type mem) (own_ids d) d"

section \<open>Reference types\<close>

text \<open>The ids at the given places of a type are replaced one after the other by their canonical ids.\<close>

fun dedup_refs :: "(u32 \<Rightarrow> btf_dedup \<Rightarrow> fault + (int \<times> btf_dedup)) \<Rightarrow> u32 \<Rightarrow> nat list \<Rightarrow> btf_dedup \<Rightarrow> fault + (int \<times> btf_dedup)" where
  "dedup_refs rec type_id [] d = Inr (0, d)"
| "dedup_refs rec type_id (i # is) d = bindR (at_id (dd_types d) type_id) (\<lambda>t.
     if i \<ge> length (type_words t) then Inl Out_Of_Bounds
     else bindR (rec (type_words t ! i) d) (\<lambda>(ref_type_id, d).
       if ref_type_id < 0 then Inr (ref_type_id, d)
       else bindR (at_id (dd_types d) type_id) (\<lambda>t.
         dedup_refs rec type_id is
           (d\<lparr>dd_types := (dd_types d)[unat type_id := type_of_words ((type_words t)[i := of_int ref_type_id])]\<rparr>))))"

text \<open>Which ids a kind has, and its hash and comparison.\<close>

definition ref_kind :: "btf_type \<Rightarrow> (nat list \<times> (btf_type \<Rightarrow> u64) \<times> (btf_type \<Rightarrow> btf_type \<Rightarrow> bool)) option" where
  "ref_kind t = (let k = btf_kind t in
     if k \<in> {BTF_KIND_CONST, BTF_KIND_VOLATILE, BTF_KIND_RESTRICT, BTF_KIND_PTR, BTF_KIND_TYPEDEF, BTF_KIND_FUNC, BTF_KIND_TYPE_TAG}
     then Some ([2], btf_hash_common, btf_equal_common)
     else if k = BTF_KIND_DECL_TAG then Some ([2], btf_hash_int_decl_tag, btf_equal_int_tag)
     else if k = BTF_KIND_ARRAY then Some ([3, 4], btf_hash_array, btf_equal_array)
     else if k = BTF_KIND_FUNC_PROTO then Some (2 # entry_places 2 1 t, btf_hash_fnproto, btf_equal_fnproto)
     else None)"

primrec btf_dedup_ref_type :: "mem_answers \<Rightarrow> nat \<Rightarrow> u32 \<Rightarrow> btf_dedup \<Rightarrow> fault + (int \<times> btf_dedup)" where
  "btf_dedup_ref_type mem 0 type_id d = Inl No_Return"
| "btf_dedup_ref_type mem (Suc n) type_id d = bindR (at_id (dd_map d) type_id) (\<lambda>m.
     if m = BTF_IN_PROGRESS_ID then Inr (- ELOOP, d)
     else if known_id m then bindR (resolve_type_id d type_id) (\<lambda>r. Inr (sint r, d))
     else bindR (at_id (dd_types d) type_id) (\<lambda>t. bindR (set_map type_id BTF_IN_PROGRESS_ID d) (\<lambda>d. case ref_kind t of
         None \<Rightarrow> Inr (- EINVAL, d)
       | Some (places, hash, equal) \<Rightarrow>
           bindR (dedup_refs (btf_dedup_ref_type mem n) type_id places d) (\<lambda>(err, d).
             if err < 0 then Inr (err, d)
             else bindR (at_id (dd_types d) type_id) (\<lambda>t. bindR (equal_cand equal (hash t) t type_id d) (\<lambda>new_id.
               bindR (settle mem (hash t) type_id new_id d) (\<lambda>(err, d). Inr (if err < 0 then err else sint new_id, d))))))))"

definition btf_dedup_ref_types :: "mem_answers \<Rightarrow> btf_dedup \<Rightarrow> fault + (int \<times> btf_dedup)" where
  "btf_dedup_ref_types mem d = each_id (btf_dedup_ref_type mem (Suc (length (dd_types d)))) (own_ids d) d"

section \<open>Compaction and rewriting\<close>

text \<open>
  The ids that stay, and the new ids of all: the memory of the types that stay is moved together, in order, so that the table has
  them one after the other. The final answer is that of \<open>realloc\<close> for the index. When a type has an unknown kind, which the parser
  does not accept, the error is returned and the state of the half-moved memory is left out.
\<close>

definition kept_ids :: "btf_dedup \<Rightarrow> nat list" where
  "kept_ids d = filter (\<lambda>i. dd_map d ! i = of_nat i) (own_ids d)"

fun new_ids :: "nat \<Rightarrow> nat list \<Rightarrow> u32 list \<Rightarrow> u32 list" where
  "new_ids next [] m = m"
| "new_ids next (i # is) m = new_ids (Suc next) is (m[i := of_nat next])"

definition btf_dedup_compact_types :: "bool \<Rightarrow> btf_dedup \<Rightarrow> int \<times> btf_dedup" where
  "btf_dedup_compact_types realloc_ok d =
     (let start = map of_nat [0..<dd_start_id d] @ replicate (length (dd_types d) - dd_start_id d) BTF_UNPROCESSED_ID;
          kept = kept_ids d; bad = filter (\<lambda>i. btf_type_size (dd_types d ! i) < 0) kept in
      if bad \<noteq> [] then (btf_type_size (dd_types d ! hd bad), d)
      else (if kept \<noteq> [] \<and> \<not> realloc_ok then - ENOMEM else 0,
        d\<lparr>dd_hypot_map := new_ids (dd_start_id d) kept start, dd_types := take (dd_start_id d) (dd_types d) @ map ((!) (dd_types d)) kept\<rparr>))"

definition btf_dedup_remap_type_id :: "btf_dedup word_visitor" where
  "btf_dedup_remap_type_id w d = bindR (resolve_type_id d w) (\<lambda>r. bindR (at_id (dd_hypot_map d) r) (\<lambda>new_type_id.
     if \<not> known_id new_type_id then Inr (- EINVAL, w, d) else Inr (0, new_type_id, d)))"

definition remap_type :: "u32 \<Rightarrow> btf_dedup \<Rightarrow> fault + (int \<times> btf_dedup)" where
  "remap_type type_id d = bindR (at_id (dd_types d) type_id) (\<lambda>t.
     bindR (btf_type_visit_type_ids btf_dedup_remap_type_id (type_words t) d) (\<lambda>(r, ws, d).
       Inr (r, d\<lparr>dd_types := (dd_types d)[unat type_id := type_of_words ws]\<rparr>)))"

definition btf_dedup_remap_types :: "btf_dedup \<Rightarrow> fault + (int \<times> btf_dedup)" where
  "btf_dedup_remap_types d = each_id remap_type (own_ids d) d"

text \<open>The passes in order, each only when those before have succeeded.\<close>

definition then_pass :: "(btf_dedup \<Rightarrow> fault + (int \<times> btf_dedup)) \<Rightarrow> fault + (int \<times> btf_dedup) \<Rightarrow> fault + (int \<times> btf_dedup)" where
  "then_pass f r = bindR r (\<lambda>(err, d). if err < 0 then Inr (err, d) else f d)"

definition dedup_passes :: "mem_answers \<Rightarrow> bool \<Rightarrow> btf_dedup \<Rightarrow> fault + (int \<times> btf_dedup)" where
  "dedup_passes mem realloc_ok d =
     then_pass btf_dedup_remap_types (then_pass (\<lambda>d. Inr (btf_dedup_compact_types realloc_ok d)) (then_pass (btf_dedup_ref_types mem)
       (then_pass (btf_dedup_struct_types mem) (then_pass (btf_dedup_prim_types mem) (btf_dedup_prep mem d)))))"

end
