(* ===== verification/Dedup_Map.thy ===== *)
theory Dedup_Map
  imports Dedup
begin

text \<open>
  The data structures of the deduplication: the table of candidates as a multimap, the canonical map as a forest in which every walk
  to a root ends, and the invariant of the state that all passes keep.
\<close>

section \<open>The table of candidates\<close>

text \<open>What the passes rely on: under a hash are the ids that were added under it, in some order; an addition that fails changes nothing.\<close>

locale cand_table =
  fixes inv :: "'t \<Rightarrow> bool" and cands :: "'t \<Rightarrow> u64 \<Rightarrow> fault + u32 list" and add :: "bool \<times> bool \<Rightarrow> u64 \<Rightarrow> u32 \<Rightarrow> 't \<Rightarrow> fault + (int \<times> 't)"
    and elems :: "'t \<Rightarrow> (u64 \<times> u32) set"
  assumes cands_ok: "inv t \<Longrightarrow> \<exists>cs. cands t h = Inr cs \<and> set cs = {i. (h, i) \<in> elems t}"
    and add_ok: "inv t \<Longrightarrow> \<exists>err t'. add a h i t = Inr (err, t') \<and> inv t' \<and>
      (err = 0 \<and> elems t' = insert (h, i) (elems t) \<or> err = - ENOMEM \<and> elems t' = elems t)"

definition table_add :: "bool \<Rightarrow> bool \<times> bool \<Rightarrow> u64 \<Rightarrow> u32 \<Rightarrow> (u64, u32) hashmap \<Rightarrow> fault + (int \<times> (u64, u32) hashmap)" where
  "table_add collide a h i m = bindR (hashmap__insert (dedup_hash_fn collide) (=) (fst a) (snd a) HASHMAP_APPEND h i m) (\<lambda>(err, old, m). Inr (err, m))"

definition table_cands :: "bool \<Rightarrow> (u64, u32) hashmap \<Rightarrow> u64 \<Rightarrow> fault + u32 list" where
  "table_cands collide m h = bindR (hashmap_key_entries (dedup_hash_fn collide) (=) m h) (\<lambda>es. Inr (map snd es))"

abbreviation table_elems :: "(u64, u32) hashmap \<Rightarrow> (u64 \<times> u32) set" where
  "table_elems m \<equiv> set (hashmap_entries m)"

lemma append_ok:
  assumes "hm_inv hash m"
  shows "\<exists>err old m'. hashmap__insert hash eq a b HASHMAP_APPEND k v m = Inr (err, old, m') \<and> hm_inv hash m' \<and>
    (err = 0 \<and> set (hashmap_entries m') = insert (k, v) (set (hashmap_entries m)) \<or> err = - ENOMEM \<and> set (hashmap_entries m') = set (hashmap_entries m))"
  using insert_append [OF assms, of eq a b k v]
  by (metis add_mset_add_single set_mset_add_mset_insert set_mset_mset)

lemma key_entries_ok:
  assumes inv: "hm_inv hash m"
  shows "\<exists>es. hashmap_key_entries hash (=) m k = Inr es \<and> set es = {e \<in> set (hashmap_entries m). fst e = k}"
proof (cases "hm_buckets m")
  case None
  then show ?thesis using entries_concat [OF inv] by (simp add: hashmap_key_entries_def)
next
  case (Some bs)
  let ?h = "unat (hash_bits (hash k) (hm_cap_bits m))"
  have ok: "chains_ok hash (hm_cap_bits m) bs" "hm_cap_bits m \<le> 64" using inv Some by (auto simp: hm_inv_def)
  have h: "?h < length bs" using ok hash_bits_less [OF ok(2)] by (simp add: chains_ok_def)
  have "e \<in> set (bs ! ?h)" if e: "e \<in> set b" "b \<in> set bs" "fst e = k" for e b
  proof -
    obtain i where "i < length bs" "b = bs ! i" using e(2) by (auto simp: in_set_conv_nth)
    then show ?thesis using ok(1) e(1,3) by (auto simp: chains_ok_def)
  qed
  then have "{e \<in> set (concat bs). fst e = k} = {e \<in> set (bs ! ?h). fst e = k}" using h nth_mem by auto
  then show ?thesis using Some h entries_concat [OF inv] by (auto simp: hashmap_key_entries_def Let_def)
qed

interpretation table: cand_table "hm_inv (dedup_hash_fn collide)" "table_cands collide" "table_add collide" table_elems for collide
proof
  fix t :: "(u64, u32) hashmap" and h :: u64 and a :: "bool \<times> bool" and i :: u32
  assume inv: "hm_inv (dedup_hash_fn collide) t"
  show "\<exists>cs. table_cands collide t h = Inr cs \<and> set cs = {i. (h, i) \<in> table_elems t}"
    using key_entries_ok [OF inv, of h] by (force simp: table_cands_def)
  show "\<exists>err t'. table_add collide a h i t = Inr (err, t') \<and> hm_inv (dedup_hash_fn collide) t' \<and>
      (err = 0 \<and> table_elems t' = insert (h, i) (table_elems t) \<or> err = - ENOMEM \<and> table_elems t' = table_elems t)"
    using append_ok [OF inv, of "(=)" "fst a" "snd a" h i] by (auto simp: table_add_def)
qed

lemma dedup_cands_eq: "dedup_cands d h = table_cands (dd_collide d) (dd_table d) h"
  by (simp add: dedup_cands_def table_cands_def)

lemma table_add_eq:
  "btf_dedup_table_add mem h i d = bindR (table_add (dd_collide d) (mem (dd_calls d)) h i (dd_table d)) (\<lambda>(err, m).
     Inr (err, d\<lparr>dd_table := m, dd_calls := dd_calls d + 1\<rparr>))"
  by (simp add: btf_dedup_table_add_def table_add_def bindR_case split: sum.split prod.split)

section \<open>The canonical map\<close>

definition map_next :: "u32 list \<Rightarrow> u32 \<Rightarrow> u32 option" where
  "map_next m i = (if unat i < length m \<and> known_id (m ! unat i) \<and> m ! unat i \<noteq> i then Some (m ! unat i) else None)"

definition map_edges :: "u32 list \<Rightarrow> (u32 \<times> u32) set" where
  "map_edges m = {(i, j). map_next m i = Some j}"

definition map_ok :: "u32 list \<Rightarrow> bool" where
  "map_ok m \<longleftrightarrow> acyclic (map_edges m) \<and> (\<forall>i<length m. known_id (m ! i) \<longrightarrow> unat (m ! i) < length m)"

text \<open>The root of an id.\<close>

definition is_root :: "u32 list \<Rightarrow> u32 \<Rightarrow> bool" where
  "is_root m r \<longleftrightarrow> unat r < length m \<and> map_next m r = None"

lemma map_edges_finite: "finite (map_edges m)"
  by (rule finite_subset [OF subset_UNIV]) simp

lemma map_walk_ends:
  assumes "acyclic (map_edges m)"
  shows "walk (map_next m) (Suc (length m)) i = None"
proof (rule ccontr)
  let ?S = "{i :: u32. unat i < length m}"
  assume "walk (map_next m) (Suc (length m)) i \<noteq> None"
  then obtain y where "walk (map_next m) (Suc (length m)) i = Some y" by blast
  then obtain z where z: "walk (map_next m) (Suc (card ?S)) i = Some z" using walk_prefix card_ids [of "length m"] by (meson Suc_le_mono)
  have "\<exists>y. walk (map_next m) n i = Some y" for n
    by (rule walk_forever [OF _ _ z]) (use card_ids in \<open>auto simp: map_next_def split: if_splits\<close>)
  moreover have "wf ((map_edges m)\<inverse>)" using assms by (intro finite_acyclic_wf_converse map_edges_finite)
  then have "\<exists>n. walk (map_next m) n i = None"
  proof (induction i rule: wf_induct_rule)
    case (less i)
    show ?case
    proof (cases "map_next m i")
      case None
      then have "walk (map_next m) 1 i = None" by simp
      then show ?thesis ..
    next
      case (Some j)
      then obtain n where "walk (map_next m) n j = None" using less [of j] by (auto simp: map_edges_def)
      then have "walk (map_next m) (Suc n) i = None" using Some by simp
      then show ?thesis ..
    qed
  qed
  ultimately show False by (metis option.distinct(1))
qed

lemma resolve_loop_ok:
  assumes "\<forall>i<length m. known_id (m ! i) \<longrightarrow> unat (m ! i) < length m" "unat i < length m" "walk (map_next m) n i = None"
  shows "\<exists>r. resolve_loop m n i = Inr r \<and> is_root m r \<and> (i, r) \<in> (map_edges m)\<^sup>*"
  using assms
proof (induction n arbitrary: i)
  case (Suc n)
  show ?case
  proof (cases "map_next m i")
    case None
    then show ?thesis using Suc.prems(2) by (auto simp: at_id_def is_root_def map_next_def split: if_splits)
  next
    case (Some j)
    have j: "unat j < length m" "j = m ! unat i" "known_id j" "j \<noteq> i" using Some Suc.prems(1,2) by (auto simp: map_next_def split: if_splits)
    obtain r where "resolve_loop m n j = Inr r" "is_root m r" "(j, r) \<in> (map_edges m)\<^sup>*" using Suc.IH [OF Suc.prems(1) j(1)] Suc.prems(3) Some by auto
    moreover have "(i, j) \<in> map_edges m" using Some by (simp add: map_edges_def)
    ultimately show ?thesis using j Suc.prems(2) by (auto simp: at_id_def intro: converse_rtrancl_into_rtrancl)
  qed
qed simp

lemma root_unique:
  assumes "(i, r) \<in> (map_edges m)\<^sup>*" "(i, r') \<in> (map_edges m)\<^sup>*" "map_next m r = None" "map_next m r' = None"
  shows "r = r'"
  using assms
proof (induction rule: converse_rtrancl_induct)
  case base
  then show ?case by (auto simp: map_edges_def elim: converse_rtranclE)
next
  case (step i j)
  from step.prems(1) show ?case
  proof (cases rule: converse_rtranclE)
    case base
    then show ?thesis using step.hyps(1) step.prems(3) by (simp add: map_edges_def)
  next
    case (step k)
    then show ?thesis using \<open>(i, j) \<in> map_edges m\<close> step.prems \<open>(i, r') \<in> _\<close> \<open>\<lbrakk>(j, r') \<in> (map_edges m)\<^sup>*; map_next m r = None; map_next m r' = None\<rbrakk> \<Longrightarrow> r = r'\<close> assms(3,4)
      by (auto simp: map_edges_def)
  qed
qed

text \<open>A new edge from an id that its target does not lead to keeps the map a forest.\<close>

lemma map_next_update:
  assumes "unat c < length m"
  shows "map_next (m[unat c := t]) i = (if i = c then if known_id t \<and> t \<noteq> c then Some t else None else map_next m i)"
  using assms by (auto simp: map_next_def nth_list_update word_unat_eq_iff)

lemma map_ok_update:
  assumes m: "map_ok m" and c: "unat c < length m" and t: "known_id t \<Longrightarrow> unat t < length m" "t = c \<or> \<not> known_id t \<or> (t, c) \<notin> (map_edges m)\<^sup>*"
  shows "map_ok (m[unat c := t])"
proof -
  have "acyclic (map_edges (m[unat c := t]))"
  proof (cases "known_id t \<and> t \<noteq> c")
    case False
    then have "map_edges (m[unat c := t]) \<subseteq> map_edges m" by (auto simp: map_edges_def map_next_update [OF c] split: if_splits)
    then show ?thesis using m acyclic_subset by (auto simp: map_ok_def)
  next
    case True
    then have "map_edges (m[unat c := t]) \<subseteq> insert (c, t) (map_edges m)" by (auto simp: map_edges_def map_next_update [OF c] split: if_splits)
    moreover have "acyclic (insert (c, t) (map_edges m))" using m t(2) True by (simp add: map_ok_def acyclic_insert)
    ultimately show ?thesis by (rule acyclic_subset [rotated])
  qed
  moreover have "\<forall>i<length m. known_id (m[unat c := t] ! i) \<longrightarrow> unat (m[unat c := t] ! i) < length m"
    using m t(1) c by (metis map_ok_def nth_list_update_eq nth_list_update_neq)
  ultimately show ?thesis by (simp add: map_ok_def)
qed

lemma root_no_path: "map_next m t = None \<Longrightarrow> t \<noteq> c \<Longrightarrow> (t, c) \<notin> (map_edges m)\<^sup>*"
  by (auto simp: map_edges_def elim: converse_rtranclE)

lemma no_edge_no_path: "(\<And>i. map_next m i \<noteq> Some c) \<Longrightarrow> t \<noteq> c \<Longrightarrow> (t, c) \<notin> (map_edges m)\<^sup>*"
  by (auto simp: map_edges_def elim: rtranclE)

lemma resolve_ok:
  assumes "map_ok (dd_map d)" "unat i < length (dd_map d)"
  shows "\<exists>r. resolve_type_id d i = Inr r \<and> is_root (dd_map d) r \<and> (i, r) \<in> (map_edges (dd_map d))\<^sup>*"
  unfolding resolve_type_id_def by (rule resolve_loop_ok) (use assms map_walk_ends in \<open>auto simp: map_ok_def\<close>)

end
