(* ===== verification/Dedup_Shape.thy ===== *)
theory Dedup_Shape
  imports Dedup_Map
begin

text \<open>
  What the comparisons of types say. The shape of a type is its words without the ids, and its ids in order; an unfolding of a type is
  the tree of shapes that is reached through ids, to a depth. Types that a comparison calls equal are the same.
\<close>

section \<open>Shapes and unfoldings\<close>

definition id_places :: "btf_type \<Rightarrow> nat list" where
  "id_places t = (case type_id_places t of None \<Rightarrow> [] | Some ps \<Rightarrow> ps)"

definition ref_ids :: "btf_type \<Rightarrow> u32 list" where
  "ref_ids t = map ((!) (type_words t)) (id_places t)"

definition label :: "btf_type \<Rightarrow> u32 list" where
  "label t = map (\<lambda>i. if i \<in> set (id_places t) then 0 else type_words t ! i) [0..<length (type_words t)]"

datatype tree = Node "u32 list" "tree list"

primrec unfolding_of :: "btf_type list \<Rightarrow> nat \<Rightarrow> u32 \<Rightarrow> tree" where
  "unfolding_of ts 0 i = Node [] []"
| "unfolding_of ts (Suc n) i = (if unat i < length ts then Node (label (ts ! unat i)) (map (unfolding_of ts n) (ref_ids (ts ! unat i))) else Node [] [])"

text \<open>Forward declarations of structures, unions and enumerations.\<close>

definition fwdish :: "btf_type \<Rightarrow> bool" where
  "fwdish t \<longleftrightarrow> btf_is_fwd t \<or> btf_is_enum_fwd t"

definition typ_ok :: "btf_type \<Rightarrow> bool" where
  "typ_ok t \<longleftrightarrow> t = btf_void \<or> words_ok (type_words t)"

definition types_ok :: "btf_type list \<Rightarrow> bool" where
  "types_ok ts \<longleftrightarrow> 0 < length ts \<and> length ts \<le> 0x7FFFFFFF \<and> ts ! 0 = btf_void \<and> (\<forall>t\<in>set ts. typ_ok t \<and> (\<forall>r\<in>set (ref_ids t). unat r < length ts))"

section \<open>Types by their words\<close>

lemma type_words_inj: "type_words a = type_words b \<Longrightarrow> a = b"
  by (metis type_of_type_words)

lemma type_words_nth [simp]: "type_words t ! 0 = bt_name_off t" "type_words t ! Suc 0 = bt_info t" "type_words t ! 1 = bt_info t" "type_words t ! 2 = bt_type t"
  "type_words t ! (3 + k) = bt_words t ! k" "length (type_words t) = 3 + length (bt_words t)"
  by (simp_all add: type_words_def numeral_2_eq_2 numeral_3_eq_3)

lemma void_facts: "btf_kind btf_void = 0" "id_places btf_void = []" "ref_ids btf_void = []"
  by (simp_all add: btf_void_def btf_kind_def id_places_def type_id_places_def ref_ids_def btf_kinds)

lemma info_cong:
  assumes "bt_info a = bt_info b"
  shows "btf_kind a = btf_kind b" "btf_vlen a = btf_vlen b" "id_places a = id_places b" "btf_type_size a = btf_type_size b"
  using assms places_cong [OF assms] type_size_cong [OF assms] by (simp_all add: btf_kind_def btf_vlen_def id_places_def)

lemma same_info_len:
  assumes "typ_ok a" "typ_ok b" "bt_info a = bt_info b"
  shows "length (bt_words a) = length (bt_words b)"
proof -
  have kind: "btf_type_size btf_void < 0" by (simp add: btf_type_size_def void_facts btf_kinds Let_def EINVAL_def)
  have "a = btf_void \<longleftrightarrow> b = btf_void \<or> btf_type_size a < 0" "b = btf_void \<longleftrightarrow> a = btf_void \<or> btf_type_size b < 0"
    using assms kind info_cong(4) [OF assms(3)] by (auto simp: typ_ok_def words_ok_def)
  then show ?thesis using assms(1,2) info_cong(4) [OF assms(3)] kind by (auto simp: typ_ok_def words_ok_def)
qed

lemma words_len:
  assumes "typ_ok t"
  shows "btf_kind t \<in> {BTF_KIND_FWD, BTF_KIND_CONST, BTF_KIND_VOLATILE, BTF_KIND_RESTRICT, BTF_KIND_PTR, BTF_KIND_TYPEDEF, BTF_KIND_FUNC, BTF_KIND_FLOAT, BTF_KIND_TYPE_TAG} \<Longrightarrow> bt_words t = []"
    "btf_kind t \<in> {BTF_KIND_INT, BTF_KIND_DECL_TAG} \<Longrightarrow> length (bt_words t) = 1" "btf_kind t = BTF_KIND_ARRAY \<Longrightarrow> length (bt_words t) = 3"
    "btf_kind t \<in> {BTF_KIND_STRUCT, BTF_KIND_UNION, BTF_KIND_ENUM64} \<Longrightarrow> length (bt_words t) = 3 * btf_vlen t"
    "btf_kind t \<in> {BTF_KIND_FUNC_PROTO, BTF_KIND_ENUM} \<Longrightarrow> length (bt_words t) = 2 * btf_vlen t"
proof -
  have sz: "btf_type_size t = 12 + 4 * int (length (bt_words t))" if "btf_kind t \<noteq> 0"
    using assms that by (auto simp: typ_ok_def words_ok_def void_facts)
  show "btf_kind t \<in> {BTF_KIND_FWD, BTF_KIND_CONST, BTF_KIND_VOLATILE, BTF_KIND_RESTRICT, BTF_KIND_PTR, BTF_KIND_TYPEDEF, BTF_KIND_FUNC, BTF_KIND_FLOAT, BTF_KIND_TYPE_TAG} \<Longrightarrow> bt_words t = []"
    "btf_kind t \<in> {BTF_KIND_INT, BTF_KIND_DECL_TAG} \<Longrightarrow> length (bt_words t) = 1" "btf_kind t = BTF_KIND_ARRAY \<Longrightarrow> length (bt_words t) = 3"
    "btf_kind t \<in> {BTF_KIND_STRUCT, BTF_KIND_UNION, BTF_KIND_ENUM64} \<Longrightarrow> length (bt_words t) = 3 * btf_vlen t"
    "btf_kind t \<in> {BTF_KIND_FUNC_PROTO, BTF_KIND_ENUM} \<Longrightarrow> length (bt_words t) = 2 * btf_vlen t"
    using sz by (auto simp: btf_type_size_def btf_kinds Let_def)
qed

text \<open>Words in groups of two or three.\<close>

lemma list_eq_by2:
  assumes "length xs = 2 * n" "length ys = 2 * n" "\<And>j. j < n \<Longrightarrow> xs ! (2 * j) = ys ! (2 * j) \<and> xs ! (2 * j + 1) = ys ! (2 * j + 1)"
  shows "xs = ys"
proof (rule nth_equalityI)
  fix i assume "i < length xs"
  then have i: "i div 2 < n" "i = 2 * (i div 2) \<or> i = 2 * (i div 2) + 1" using assms(1) by auto
  then show "xs ! i = ys ! i" using assms(3) [OF i(1)] by metis
qed (use assms in simp)

lemma list_eq_by3:
  assumes "length xs = 3 * n" "length ys = 3 * n"
    "\<And>j. j < n \<Longrightarrow> xs ! (3 * j) = ys ! (3 * j) \<and> xs ! (3 * j + 1) = ys ! (3 * j + 1) \<and> xs ! (3 * j + 2) = ys ! (3 * j + 2)"
  shows "xs = ys"
proof (rule nth_equalityI)
  fix i assume "i < length xs"
  then have i: "i div 3 < n" "i = 3 * (i div 3) \<or> i = 3 * (i div 3) + 1 \<or> i = 3 * (i div 3) + 2" using assms(1) by auto
  then show "xs ! i = ys ! i" using assms(3) [OF i(1)] by metis
qed (use assms in simp)

section \<open>Equal types are the same\<close>

lemma equal_common_words: "btf_equal_common a b \<Longrightarrow> bt_words a = bt_words b \<Longrightarrow> a = b"
  by (simp add: btf_equal_common_def)

lemma equal_common_same:
  assumes "btf_equal_common a b" "typ_ok a" "typ_ok b" "bt_words a = []"
  shows "a = b"
  using assms same_info_len [of a b] by (intro equal_common_words) (auto simp: btf_equal_common_def)

lemma equal_int_tag_same:
  assumes "btf_equal_int_tag a b" "typ_ok a" "typ_ok b" "length (bt_words a) = 1"
  shows "a = b"
proof (rule equal_common_words)
  have "length (bt_words b) = 1" using assms same_info_len [of a b] by (simp add: btf_equal_int_tag_def btf_equal_common_def)
  then show "bt_words a = bt_words b" using assms(1,4) by (auto simp: btf_equal_int_tag_def length_Suc_conv)
qed (use assms in \<open>simp add: btf_equal_int_tag_def\<close>)

lemma equal_array_same:
  assumes "btf_equal_array a b" "typ_ok a" "typ_ok b" "btf_kind a = BTF_KIND_ARRAY"
  shows "a = b"
proof (rule equal_common_words)
  have "length (bt_words a) = 3" "length (bt_words b) = 3"
    using assms words_len(3) same_info_len [of a b] by (auto simp: btf_equal_array_def btf_equal_common_def)
  then show "bt_words a = bt_words b" using assms(1)
    by (intro list_eq_by3 [where n = 1]) (auto simp: btf_equal_array_def btf_array_def numeral_2_eq_2)
qed (use assms in \<open>simp add: btf_equal_array_def\<close>)

lemma equal_enum_same:
  assumes "btf_equal_enum a b" "typ_ok a" "typ_ok b" "btf_kind a = BTF_KIND_ENUM"
  shows "a = b"
proof (rule equal_common_words)
  have info: "bt_info a = bt_info b" using assms(1) by (simp add: btf_equal_enum_def btf_equal_common_def)
  have len: "length (bt_words a) = 2 * btf_vlen a" "length (bt_words b) = 2 * btf_vlen a"
    using assms words_len(5) same_info_len [OF assms(2,3) info] by auto
  have "btf_enums a ! j = btf_enums b ! j" if "j < btf_vlen a" for j using assms(1) that by (auto simp: btf_equal_enum_def list.rel_eq)
  then show "bt_words a = bt_words b" using len info_cong(2) [OF info]
    by (intro list_eq_by2 [where n = "btf_vlen a"]) (auto simp: btf_enums_def)
qed (use assms in \<open>simp add: btf_equal_enum_def\<close>)

lemma equal_enum64_same:
  assumes "btf_equal_enum64 a b" "typ_ok a" "typ_ok b" "btf_kind a = BTF_KIND_ENUM64"
  shows "a = b"
proof (rule equal_common_words)
  have info: "bt_info a = bt_info b" using assms(1) by (simp add: btf_equal_enum64_def btf_equal_common_def)
  have len: "length (bt_words a) = 3 * btf_vlen a" "length (bt_words b) = 3 * btf_vlen a"
    using assms words_len(4) same_info_len [OF assms(2,3) info] by auto
  have "btf_enum64s a ! j = btf_enum64s b ! j" if "j < btf_vlen a" for j using assms(1) that by (auto simp: btf_equal_enum64_def list.rel_eq)
  then show "bt_words a = bt_words b" using len info_cong(2) [OF info]
    by (intro list_eq_by3 [where n = "btf_vlen a"]) (auto simp: btf_enum64s_def)
qed (use assms in \<open>simp add: btf_equal_enum64_def\<close>)

lemma equal_fnproto_same:
  assumes "btf_equal_fnproto a b" "typ_ok a" "typ_ok b" "btf_kind a = BTF_KIND_FUNC_PROTO"
  shows "a = b"
proof (rule equal_common_words)
  have info: "bt_info a = bt_info b" using assms(1) by (simp add: btf_equal_fnproto_def btf_equal_common_def)
  have len: "length (bt_words a) = 2 * btf_vlen a" "length (bt_words b) = 2 * btf_vlen a"
    using assms words_len(5) same_info_len [OF assms(2,3) info] by auto
  show "bt_words a = bt_words b" using len info_cong(2) [OF info] assms(1)
    by (intro list_eq_by2 [where n = "btf_vlen a"]) (auto simp: btf_params_def btf_equal_fnproto_def list_all2_conv_all_nth)
qed (use assms in \<open>simp add: btf_equal_fnproto_def\<close>)

lemma identical_struct_same:
  assumes "btf_shallow_equal_struct a b" "list_all2 (\<lambda>m1 m2. mb_type m1 = mb_type m2) (btf_members a) (btf_members b)" "typ_ok a" "typ_ok b"
    and "btf_is_composite a"
  shows "a = b"
proof (rule equal_common_words)
  have info: "bt_info a = bt_info b" using assms(1) by (simp add: btf_shallow_equal_struct_def btf_equal_common_def)
  have len: "length (bt_words a) = 3 * btf_vlen a" "length (bt_words b) = 3 * btf_vlen a"
    using assms words_len(4) [OF assms(3)] same_info_len [OF assms(3,4) info] by (auto simp: btf_is_composite_def)
  show "bt_words a = bt_words b" using len info_cong(2) [OF info] assms(1,2)
    by (intro list_eq_by3 [where n = "btf_vlen a"]) (auto simp: btf_members_def btf_shallow_equal_struct_def list_all2_conv_all_nth)
qed (use assms in \<open>simp add: btf_shallow_equal_struct_def\<close>)

section \<open>The ids of a kind\<close>

lemma ref_ids_kind:
  "btf_kind t \<in> {BTF_KIND_CONST, BTF_KIND_VOLATILE, BTF_KIND_RESTRICT, BTF_KIND_PTR, BTF_KIND_TYPEDEF, BTF_KIND_FUNC, BTF_KIND_TYPE_TAG, BTF_KIND_DECL_TAG} \<Longrightarrow>
     id_places t = [2] \<and> ref_ids t = [bt_type t]"
  "btf_kind t = BTF_KIND_ARRAY \<Longrightarrow> id_places t = [3, 4] \<and> ref_ids t = [ar_type (btf_array t), ar_index_type (btf_array t)]"
  "btf_kind t \<in> {BTF_KIND_STRUCT, BTF_KIND_UNION} \<Longrightarrow> id_places t = entry_places 3 1 t \<and> ref_ids t = map mb_type (btf_members t)"
  "btf_kind t = BTF_KIND_FUNC_PROTO \<Longrightarrow> id_places t = 2 # entry_places 2 1 t \<and> ref_ids t = bt_type t # map pm_type (btf_params t)"
  "btf_kind t \<in> {BTF_KIND_INT, BTF_KIND_ENUM, BTF_KIND_ENUM64, BTF_KIND_FLOAT} \<Longrightarrow> id_places t = [] \<and> ref_ids t = []"
proof -
  have w: "type_words t ! 3 = bt_words t ! 0" "type_words t ! 4 = bt_words t ! 1" "type_words t ! (3 + n * i + 1) = bt_words t ! (n * i + 1)" for n i
    using type_words_nth(5) [of t 0] type_words_nth(5) [of t 1] type_words_nth(5) [of t "n * i + 1"] by (simp_all add: add.assoc)
  note defs = id_places_def type_id_places_def ref_ids_def btf_kinds Let_def
  show "btf_kind t \<in> {BTF_KIND_CONST, BTF_KIND_VOLATILE, BTF_KIND_RESTRICT, BTF_KIND_PTR, BTF_KIND_TYPEDEF, BTF_KIND_FUNC, BTF_KIND_TYPE_TAG, BTF_KIND_DECL_TAG} \<Longrightarrow>
     id_places t = [2] \<and> ref_ids t = [bt_type t]" by (auto simp: defs)
  show "btf_kind t = BTF_KIND_ARRAY \<Longrightarrow> id_places t = [3, 4] \<and> ref_ids t = [ar_type (btf_array t), ar_index_type (btf_array t)]"
    using w by (simp add: defs btf_array_def)
  show "btf_kind t \<in> {BTF_KIND_STRUCT, BTF_KIND_UNION} \<Longrightarrow> id_places t = entry_places 3 1 t \<and> ref_ids t = map mb_type (btf_members t)"
    using w(3) [of 3] by (auto simp: defs btf_members_def entry_places_def)
  show "btf_kind t = BTF_KIND_FUNC_PROTO \<Longrightarrow> id_places t = 2 # entry_places 2 1 t \<and> ref_ids t = bt_type t # map pm_type (btf_params t)"
    using w(3) [of 2] by (auto simp: defs btf_params_def entry_places_def)
  show "btf_kind t \<in> {BTF_KIND_INT, BTF_KIND_ENUM, BTF_KIND_ENUM64, BTF_KIND_FLOAT} \<Longrightarrow> id_places t = [] \<and> ref_ids t = []" by (auto simp: defs)
qed

lemma label_eqI:
  assumes "bt_info a = bt_info b" "typ_ok a" "typ_ok b" "\<And>i. i < 3 + length (bt_words a) \<Longrightarrow> i \<notin> set (id_places a) \<Longrightarrow> type_words a ! i = type_words b ! i"
  shows "label a = label b" "length (ref_ids a) = length (ref_ids b)"
  using assms(4) info_cong(3) [OF assms(1)] same_info_len [OF assms(2,3,1)] by (auto simp: label_def ref_ids_def)

lemma word_cases: "i < 3 \<Longrightarrow> i = 0 \<or> i = 1 \<or> i = (2 :: nat)"
  by auto

lemma label_ref:
  assumes "bt_info a = bt_info b" "bt_name_off a = bt_name_off b" "typ_ok a" "typ_ok b" "bt_words a = []" "id_places a = [2]"
  shows "label a = label b"
proof (rule label_eqI(1) [OF assms(1,3,4)])
  fix i assume i: "i < 3 + length (bt_words a)" "i \<notin> set (id_places a)"
  then have "i = 0 \<or> i = 1" using assms(5,6) by auto
  then show "type_words a ! i = type_words b ! i" using assms(1,2) by auto
qed

lemma label_array:
  assumes "btf_compat_array a b" "typ_ok a" "typ_ok b" "btf_kind a = BTF_KIND_ARRAY"
  shows "label a = label b"
proof -
  have c: "bt_name_off a = bt_name_off b" "bt_info a = bt_info b" "bt_type a = bt_type b" "bt_words a ! 2 = bt_words b ! 2"
    using assms(1) by (auto simp: btf_compat_array_def btf_equal_common_def btf_array_def)
  show ?thesis
  proof (rule label_eqI(1) [OF c(2) assms(2,3)])
    fix i assume i: "i < 3 + length (bt_words a)" "i \<notin> set (id_places a)"
    then have "i = 0 \<or> i = 1 \<or> i = 2 \<or> i = 3 + 2" using ref_ids_kind(2) [OF assms(4)] words_len(3) [OF assms(2,4)] by auto
    then show "type_words a ! i = type_words b ! i" using c by (auto simp only: type_words_nth)
  qed
qed

lemma label_struct:
  assumes "btf_shallow_equal_struct a b" "typ_ok a" "typ_ok b" "btf_kind a \<in> {BTF_KIND_STRUCT, BTF_KIND_UNION}"
  shows "label a = label b"
proof -
  have c: "bt_name_off a = bt_name_off b" "bt_info a = bt_info b" "bt_type a = bt_type b"
    using assms(1) by (auto simp: btf_shallow_equal_struct_def btf_equal_common_def)
  have m: "bt_words a ! (3 * j) = bt_words b ! (3 * j) \<and> bt_words a ! (3 * j + 2) = bt_words b ! (3 * j + 2)" if "j < btf_vlen a" for j
    using assms(1) that info_cong(2) [OF c(2)] by (auto simp: btf_shallow_equal_struct_def btf_members_def list_all2_conv_all_nth)
  show ?thesis
  proof (rule label_eqI(1) [OF c(2) assms(2,3)])
    fix i assume i: "i < 3 + length (bt_words a)" "i \<notin> set (id_places a)"
    show "type_words a ! i = type_words b ! i"
    proof (cases "i < 3")
      case True
      then show ?thesis using word_cases [OF True] c by (auto simp only: type_words_nth)
    next
      case False
      define j where "j = (i - 3) div 3"
      have j: "j < btf_vlen a" "i = 3 + 3 * j \<or> i = 3 + (3 * j + 1) \<or> i = 3 + (3 * j + 2)"
        using i(1) False words_len(4) [OF assms(2)] assms(4) by (auto simp: j_def)
      then have "i \<noteq> 3 + (3 * j + 1)" using i(2) ref_ids_kind(3) [OF assms(4)] by (auto simp: entry_places_def)
      then show ?thesis using j(2) m [OF j(1)] by (auto simp only: type_words_nth)
    qed
  qed
qed

lemma label_fnproto:
  assumes "btf_compat_fnproto a b" "typ_ok a" "typ_ok b" "btf_kind a = BTF_KIND_FUNC_PROTO"
  shows "label a = label b"
proof -
  have c: "bt_name_off a = bt_name_off b" "bt_info a = bt_info b"
    using assms(1) by (auto simp: btf_compat_fnproto_def)
  have m: "bt_words a ! (2 * j) = bt_words b ! (2 * j)" if "j < btf_vlen a" for j
    using assms(1) that info_cong(2) [OF c(2)] by (auto simp: btf_compat_fnproto_def btf_params_def list_all2_conv_all_nth)
  show ?thesis
  proof (rule label_eqI(1) [OF c(2) assms(2,3)])
    fix i assume i: "i < 3 + length (bt_words a)" "i \<notin> set (id_places a)"
    show "type_words a ! i = type_words b ! i"
    proof (cases "i < 3")
      case True
      then show ?thesis using word_cases [OF True] c i(2) ref_ids_kind(4) [OF assms(4)] by auto
    next
      case False
      define j where "j = (i - 3) div 2"
      have j: "j < btf_vlen a" "i = 3 + 2 * j \<or> i = 3 + (2 * j + 1)"
        using i(1) False words_len(5) [OF assms(2)] assms(4) by (auto simp: j_def)
      then have "i \<noteq> 3 + (2 * j + 1)" using i(2) ref_ids_kind(4) [OF assms(4)] by (auto simp: entry_places_def)
      then show ?thesis using j(2) m [OF j(1)] by (auto simp only: type_words_nth)
    qed
  qed
qed

section \<open>What the comparison of two types decides\<close>

text \<open>The comparison of two types is decided at once, or by the comparison of the types they refer to, which then have the same shape.\<close>

definition decided :: "btf_type \<Rightarrow> btf_type \<Rightarrow> int \<Rightarrow> bool" where
  "decided a b e \<longleftrightarrow> e = 0 \<or> e = - EINVAL \<or> e = 1 \<and> (fwdish a \<or> fwdish b \<or> a = b \<and> ref_ids a = [])"

definition compared :: "btf_type \<Rightarrow> btf_type \<Rightarrow> (u32 \<times> u32) list \<Rightarrow> bool" where
  "compared a b ps \<longleftrightarrow> label a = label b \<and> length (ref_ids a) = length (ref_ids b) \<and> set ps = set (zip (ref_ids a) (ref_ids b))"

lemma equiv_types_cases:
  assumes a: "typ_ok a" and b: "typ_ok b"
  shows "(\<exists>e adj. equiv_types rec canon_id a b d = Inr (e, if adj then d\<lparr>dd_hypot_adjust_canon := True\<rparr> else d) \<and> decided a b e \<and> (adj \<longrightarrow> btf_is_fwd b)) \<or>
    (\<exists>ps. equiv_types rec canon_id a b d = equiv_refs rec ps d \<and> compared a b ps)"
proof -
  let ?k = "btf_kind a"
  have fin: ?thesis if "equiv_types rec canon_id a b d = Inr (e, d)" "decided a b e" for e
    using that by (intro disjI1 exI [of _ e] exI [of _ False]) simp
  have cmp: ?thesis if "equiv_types rec canon_id a b d = equiv_refs rec ps d" "compared a b ps" for ps using that by blast
  consider (name) "bt_name_off a \<noteq> bt_name_off b" | (fwd) "bt_name_off a = bt_name_off b" "?k = BTF_KIND_FWD \<or> btf_kind b = BTF_KIND_FWD" "?k \<noteq> btf_kind b"
    | (diff) "bt_name_off a = bt_name_off b" "?k \<noteq> BTF_KIND_FWD" "btf_kind b \<noteq> BTF_KIND_FWD" "?k \<noteq> btf_kind b"
    | (same) "bt_name_off a = bt_name_off b" "?k = btf_kind b" by blast
  then show ?thesis
  proof cases
    case name
    then show ?thesis by (intro fin [of 0]) (simp_all add: equiv_types_def decided_def)
  next
    case fwd
    have f: "fwdish a \<or> fwdish b" using fwd(2) by (auto simp: fwdish_def btf_is_fwd_def)
    show ?thesis
    proof (cases "?k = BTF_KIND_FWD")
      case True
      then show ?thesis using fwd f by (intro fin [of "of_bool (fwd_kind_of a = btf_kind b)"]) (auto simp: equiv_types_def Let_def decided_def)
    next
      case False
      then show ?thesis using fwd f
        by (intro disjI1 exI [of _ "of_bool (fwd_kind_of b = ?k)"] exI [of _ "fwd_kind_of b = ?k \<and> unat canon_id < dd_start_id d"])
           (auto simp: equiv_types_def Let_def decided_def btf_is_fwd_def)
    qed
  next
    case diff
    then show ?thesis by (intro fin [of 0]) (simp_all add: equiv_types_def decided_def Let_def)
  next
    case same
    note run = equiv_types_def [of rec canon_id a b d, unfolded Let_def]
    consider (int) "?k = BTF_KIND_INT" | (enum) "?k = BTF_KIND_ENUM" | (enum64) "?k = BTF_KIND_ENUM64" | (fwd) "?k = BTF_KIND_FWD" | (float) "?k = BTF_KIND_FLOAT"
      | (ref) "?k \<in> {BTF_KIND_CONST, BTF_KIND_VOLATILE, BTF_KIND_RESTRICT, BTF_KIND_PTR, BTF_KIND_TYPEDEF, BTF_KIND_FUNC, BTF_KIND_TYPE_TAG}"
      | (array) "?k = BTF_KIND_ARRAY" | (struct) "?k \<in> {BTF_KIND_STRUCT, BTF_KIND_UNION}" | (proto) "?k = BTF_KIND_FUNC_PROTO"
      | (other) "?k \<notin> {BTF_KIND_INT, BTF_KIND_ENUM, BTF_KIND_ENUM64, BTF_KIND_FWD, BTF_KIND_FLOAT, BTF_KIND_CONST, BTF_KIND_VOLATILE, BTF_KIND_RESTRICT,
          BTF_KIND_PTR, BTF_KIND_TYPEDEF, BTF_KIND_FUNC, BTF_KIND_TYPE_TAG, BTF_KIND_ARRAY, BTF_KIND_STRUCT, BTF_KIND_UNION, BTF_KIND_FUNC_PROTO}" by auto
    then show ?thesis
    proof cases
      case int
      have "btf_equal_int_tag a b \<Longrightarrow> a = b" using words_len(2) [OF a] int by (intro equal_int_tag_same a b) auto
      then show ?thesis using same int ref_ids_kind(5) [of a]
        by (intro fin [of "of_bool (btf_equal_int_tag a b)"]) (simp add: run btf_kinds, auto simp: decided_def)
    next
      case enum
      have "btf_equal_enum a b \<Longrightarrow> a = b" by (rule equal_enum_same [OF _ a b enum])
      then show ?thesis using same enum ref_ids_kind(5) [of a]
        by (intro fin [of "of_bool (btf_compat_enum a b)"]) (simp add: run btf_kinds, auto simp: decided_def btf_compat_enum_def fwdish_def)
    next
      case enum64
      have "btf_equal_enum64 a b \<Longrightarrow> a = b" by (rule equal_enum64_same [OF _ a b enum64])
      then show ?thesis using same enum64 ref_ids_kind(5) [of a]
        by (intro fin [of "of_bool (btf_compat_enum64 a b)"]) (simp add: run btf_kinds, auto simp: decided_def btf_compat_enum64_def fwdish_def)
    next
      case fwd
      then show ?thesis using same
        by (intro fin [of "of_bool (btf_equal_common a b)"]) (simp add: run btf_kinds, auto simp: decided_def fwdish_def btf_is_fwd_def)
    next
      case float
      have "btf_equal_common a b \<Longrightarrow> a = b" using words_len(1) [OF a] float by (intro equal_common_same a b) auto
      then show ?thesis using same float ref_ids_kind(5) [of a]
        by (intro fin [of "of_bool (btf_equal_common a b)"]) (simp add: run btf_kinds, auto simp: decided_def)
    next
      case ref
      show ?thesis
      proof (cases "bt_info a = bt_info b")
        case False
        then show ?thesis using ref same by (intro fin [of 0]; elim insertE emptyE) (simp_all add: run btf_kinds decided_def)
      next
        case True
        have "label a = label b" using words_len(1) [OF a] ref ref_ids_kind(1) [of a] by (intro label_ref True same(1) a b) auto
        moreover have "ref_ids a = [bt_type a]" "ref_ids b = [bt_type b]" using ref_ids_kind(1) [of a] ref_ids_kind(1) [of b] ref same(2) by auto
        ultimately have "compared a b [(bt_type a, bt_type b)]" by (simp add: compared_def)
        moreover have "equiv_types rec canon_id a b d = equiv_refs rec [(bt_type a, bt_type b)] d" using ref same True by (elim insertE emptyE) (simp_all add: run btf_kinds del: equiv_refs.simps)
        ultimately show ?thesis by (rule cmp [rotated])
      qed
    next
      case array
      show ?thesis
      proof (cases "btf_compat_array a b")
        case False
        then show ?thesis using array same by (intro fin [of 0]) (simp add: run btf_kinds, auto simp: decided_def)
      next
        case True
        let ?ps = "[(ar_index_type (btf_array a), ar_index_type (btf_array b)), (ar_type (btf_array a), ar_type (btf_array b))]"
        have "compared a b ?ps" using label_array [OF True a b array] ref_ids_kind(2) [of a] ref_ids_kind(2) [of b] array same(2) by (auto simp: compared_def)
        moreover have "equiv_types rec canon_id a b d = equiv_refs rec ?ps d" using array same True by (simp add: run btf_kinds del: equiv_refs.simps)
        ultimately show ?thesis by (rule cmp [rotated])
      qed
    next
      case struct
      show ?thesis
      proof (cases "btf_shallow_equal_struct a b")
        case False
        then show ?thesis using struct same by (intro fin [of 0]; elim insertE emptyE) (simp_all add: run btf_kinds decided_def)
      next
        case True
        let ?ps = "zip (map mb_type (btf_members a)) (map mb_type (btf_members b))"
        have "bt_info a = bt_info b" using True by (simp add: btf_shallow_equal_struct_def btf_equal_common_def)
        then have "compared a b ?ps" using label_struct [OF True a b struct] ref_ids_kind(3) [of a] ref_ids_kind(3) [of b] struct same(2) info_cong(2) [of a b]
          by (simp add: compared_def btf_members_def)
        moreover have "equiv_types rec canon_id a b d = equiv_refs rec ?ps d" using struct same True by (elim insertE emptyE) (simp_all add: run btf_kinds del: equiv_refs.simps zip_map_map)
        ultimately show ?thesis by (rule cmp [rotated])
      qed
    next
      case proto
      show ?thesis
      proof (cases "btf_compat_fnproto a b")
        case False
        then show ?thesis using proto same by (intro fin [of 0]) (simp add: run btf_kinds, auto simp: decided_def)
      next
        case True
        let ?ps = "(bt_type a, bt_type b) # zip (map pm_type (btf_params a)) (map pm_type (btf_params b))"
        have "bt_info a = bt_info b" using True by (simp add: btf_compat_fnproto_def)
        then have "compared a b ?ps" using label_fnproto [OF True a b proto] ref_ids_kind(4) [of a] ref_ids_kind(4) [of b] proto same(2) info_cong(2) [of a b]
          by (simp add: compared_def btf_params_def)
        moreover have "equiv_types rec canon_id a b d = equiv_refs rec ?ps d" using proto same True by (simp add: run btf_kinds del: equiv_refs.simps)
        ultimately show ?thesis by (rule cmp [rotated])
      qed
    next
      case other
      then show ?thesis using same by (intro fin [of "- EINVAL"]) (simp add: run btf_kinds, auto simp: decided_def)
    qed
  qed
qed

end
