(* ===== verification/Dedup_Equiv.thy ===== *)
theory Dedup_Equiv
  imports Dedup_Shape
begin

text \<open>
  The invariant of the deduplication, and the comparison of type graphs: it always returns, and when it finds two graphs equivalent, the
  pairs in the hypothetical map have the same shape and refer to types that are again paired.
\<close>

section \<open>The invariant\<close>

text \<open>
  Candidates are in the canonical map, and those that are no forward declarations are roots. Without forward declarations, a type unfolds
  like the types mapped to it.
\<close>

definition no_fwd :: "btf_type list \<Rightarrow> bool" where
  "no_fwd ts \<longleftrightarrow> (\<forall>t\<in>set ts. \<not> fwdish t)"

definition alike :: "btf_type list \<Rightarrow> u32 \<Rightarrow> u32 \<Rightarrow> bool" where
  "alike ts a b \<longleftrightarrow> (\<forall>n. unfolding_of ts n a = unfolding_of ts n b)"

definition map_sound :: "btf_type list \<Rightarrow> u32 list \<Rightarrow> bool" where
  "map_sound ts m \<longleftrightarrow> (\<forall>i :: u32. unat i < length m \<longrightarrow> known_id (m ! unat i) \<longrightarrow> alike ts (m ! unat i) i)"

abbreviation ntypes :: "btf_dedup \<Rightarrow> nat" where
  "ntypes d \<equiv> length (dd_types d)"

definition hypot_ok :: "btf_dedup \<Rightarrow> bool" where
  "hypot_ok d \<longleftrightarrow> length (dd_hypot_map d) = ntypes d \<and>
     (\<forall>i. unat i < ntypes d \<longrightarrow> known_id (dd_hypot_map d ! unat i) \<longrightarrow> unat (dd_hypot_map d ! unat i) < ntypes d \<and> i \<in> set (dd_hypot_list d)) \<and>
     (\<forall>i\<in>set (dd_hypot_list d). unat i < ntypes d \<and> known_id (dd_hypot_map d ! unat i))"

definition dd_ok :: "btf_dedup \<Rightarrow> bool" where
  "dd_ok d \<longleftrightarrow> types_ok (dd_types d) \<and> 1 \<le> dd_start_id d \<and> dd_start_id d \<le> ntypes d \<and> length (dd_map d) = ntypes d \<and> map_ok (dd_map d) \<and>
     hm_inv (dedup_hash_fn (dd_collide d)) (dd_table d) \<and> hypot_ok d \<and>
     (\<forall>(h, i)\<in>table_elems (dd_table d). unat i < ntypes d \<and> known_id (dd_map d ! unat i) \<and> (\<not> fwdish (dd_types d ! unat i) \<longrightarrow> map_next (dd_map d) i = None)) \<and>
     (no_fwd (dd_types d) \<longrightarrow> map_sound (dd_types d) (dd_map d))"

lemma known_id_iff: "known_id i \<longleftrightarrow> unat i \<le> 0x7FFFFFFF"
  by (simp add: known_id_def word_le_nat_alt)

lemma id_known: "types_ok ts \<Longrightarrow> unat i < length ts \<Longrightarrow> known_id i"
  by (simp add: types_ok_def known_id_iff)

lemma types_okD:
  assumes "types_ok ts" "unat i < length ts"
  shows "typ_ok (ts ! unat i)" "r \<in> set (ref_ids (ts ! unat i)) \<Longrightarrow> unat r < length ts"
  using assms nth_mem [of "unat i" ts] by (auto simp: types_ok_def)

lemma dd_okD:
  assumes "dd_ok d"
  shows "types_ok (dd_types d)" "length (dd_map d) = ntypes d" "map_ok (dd_map d)" "hypot_ok d" "length (dd_hypot_map d) = ntypes d"
    "hm_inv (dedup_hash_fn (dd_collide d)) (dd_table d)" "dd_start_id d \<le> ntypes d"
    "no_fwd (dd_types d) \<Longrightarrow> map_sound (dd_types d) (dd_map d)"
  using assms unfolding dd_ok_def hypot_ok_def by blast+

lemma dd_ok_cong:
  assumes "dd_types d' = dd_types d" "dd_start_id d' = dd_start_id d" "dd_table d' = dd_table d" "dd_collide d' = dd_collide d" "dd_map d' = dd_map d"
    "dd_hypot_map d' = dd_hypot_map d" "dd_hypot_list d' = dd_hypot_list d"
  shows "dd_ok d' = dd_ok d"
  unfolding dd_ok_def hypot_ok_def assms by (rule refl)

lemma hypot_partner:
  assumes "dd_ok d" "unat c < ntypes d" "known_id (dd_hypot_map d ! unat c)"
  shows "unat (dd_hypot_map d ! unat c) < ntypes d" "c \<in> set (dd_hypot_list d)"
  using dd_okD(4) [OF assms(1)] assms(2,3) unfolding hypot_ok_def by blast+

lemma at_id_in [simp]: "unat i < length xs \<Longrightarrow> at_id xs i = Inr (xs ! unat i)"
  by (simp add: at_id_def)

lemma resolved:
  assumes "dd_ok d" "unat i < ntypes d"
  obtains r where "resolve_type_id d i = Inr r" "unat r < ntypes d" "is_root (dd_map d) r" "(i, r) \<in> (map_edges (dd_map d))\<^sup>*"
  using resolve_ok [of d i] dd_okD [OF assms(1)] assms(2) by (auto simp: is_root_def)

lemma resolved_fwd:
  assumes "dd_ok d" "unat i < ntypes d"
  obtains r where "resolve_fwd_id d i = Inr r" "unat r < ntypes d" "\<not> btf_is_fwd (dd_types d ! unat i) \<longrightarrow> r = i"
proof -
  obtain r where r: "resolve_type_id d i = Inr r" "unat r < ntypes d" by (rule resolved [OF assms])
  have "resolve_fwd_id d i = Inr (if \<not> btf_is_fwd (dd_types d ! unat i) then i else if \<not> btf_is_fwd (dd_types d ! unat r) then r else i)"
    using assms(2) r by (simp add: resolve_fwd_id_def)
  then show ?thesis using that [of "if \<not> btf_is_fwd (dd_types d ! unat i) then i else if \<not> btf_is_fwd (dd_types d ! unat r) then r else i"] assms(2) r(2) by simp
qed

section \<open>Pairs of types\<close>

text \<open>The candidate \<open>a\<close> and the canonical type \<open>b\<close> are related as far as the two maps know.\<close>

definition related :: "btf_dedup \<Rightarrow> u32 \<Rightarrow> u32 \<Rightarrow> bool" where
  "related d a b \<longleftrightarrow> resolve_type_id d a = resolve_type_id d b \<or>
     (\<exists>c. resolve_fwd_id d b = Inr c \<and> unat c < ntypes d \<and> known_id (dd_hypot_map d ! unat c) \<and>
        dd_types d ! unat (dd_hypot_map d ! unat c) = dd_types d ! unat a)"

definition pair_ok :: "btf_dedup \<Rightarrow> u32 \<Rightarrow> bool" where
  "pair_ok d c \<longleftrightarrow> (let a = dd_types d ! unat (dd_hypot_map d ! unat c); b = dd_types d ! unat c in
     fwdish a \<or> fwdish b \<or> label a = label b \<and> length (ref_ids a) = length (ref_ids b) \<and> (\<forall>(x, y)\<in>set (zip (ref_ids a) (ref_ids b)). related d x y))"

text \<open>The comparison changes the hypothetical map only, and only by new entries.\<close>

definition progress :: "btf_dedup \<Rightarrow> btf_dedup \<Rightarrow> bool" where
  "progress d d' \<longleftrightarrow> dd_ok d' \<and> dd_types d' = dd_types d \<and> dd_start_id d' = dd_start_id d \<and> dd_table d' = dd_table d \<and> dd_collide d' = dd_collide d \<and>
     dd_map d' = dd_map d \<and> (\<forall>i :: u32. unat i < ntypes d \<longrightarrow> known_id (dd_hypot_map d ! unat i) \<longrightarrow> dd_hypot_map d' ! unat i = dd_hypot_map d ! unat i) \<and>
     (dd_hypot_adjust_canon d' \<longrightarrow> dd_hypot_adjust_canon d \<or> (\<exists>t\<in>set (dd_types d). fwdish t))"

definition closed :: "btf_dedup \<Rightarrow> btf_dedup \<Rightarrow> bool" where
  "closed d d' \<longleftrightarrow> (\<forall>c. unat c < ntypes d \<longrightarrow> known_id (dd_hypot_map d' ! unat c) \<longrightarrow> \<not> known_id (dd_hypot_map d ! unat c) \<longrightarrow> pair_ok d' c)"

lemma progress_refl: "dd_ok d \<Longrightarrow> progress d d"
  by (simp add: progress_def)

lemma progress_trans: "progress d d1 \<Longrightarrow> progress d1 d2 \<Longrightarrow> progress d d2"
  by (auto simp: progress_def)

lemma resolve_frame: "dd_map d' = dd_map d \<Longrightarrow> resolve_type_id d' i = resolve_type_id d i"
  by (simp add: resolve_type_id_def)

lemma resolve_fwd_frame:
  assumes "dd_map d' = dd_map d" "dd_types d' = dd_types d"
  shows "resolve_fwd_id d' i = resolve_fwd_id d i"
  unfolding resolve_fwd_id_def resolve_frame [OF assms(1)] assms(2) by (rule refl)

lemma related_progress: "progress d d' \<Longrightarrow> related d a b \<Longrightarrow> related d' a b"
  by (auto simp: related_def progress_def resolve_frame [of d' d] resolve_fwd_frame [of d' d])

lemma pair_ok_progress:
  assumes "progress d d'" "unat c < ntypes d" "known_id (dd_hypot_map d ! unat c)" "pair_ok d c"
  shows "pair_ok d' c"
proof -
  have "dd_types d' = dd_types d" "dd_hypot_map d' ! unat c = dd_hypot_map d ! unat c" using assms(1-3) by (auto simp: progress_def)
  then show ?thesis using assms(4) related_progress [OF assms(1)] unfolding pair_ok_def Let_def by (smt (verit) case_prodD case_prodI2)
qed

lemma closed_refl: "closed d d"
  by (simp add: closed_def)

lemma closed_trans:
  assumes "closed d d1" "closed d1 d2" "progress d d1" "progress d1 d2"
  shows "closed d d2"
  unfolding closed_def
proof (intro allI impI)
  fix c :: u32 assume c: "unat c < ntypes d" "known_id (dd_hypot_map d2 ! unat c)" "\<not> known_id (dd_hypot_map d ! unat c)"
  have n: "ntypes d1 = ntypes d" using assms(3) by (simp add: progress_def)
  show "pair_ok d2 c"
  proof (cases "known_id (dd_hypot_map d1 ! unat c)")
    case True
    then show ?thesis using assms(1) c n by (intro pair_ok_progress [OF assms(4)]) (auto simp: closed_def)
  next
    case False
    then show ?thesis using assms(2) c n by (simp add: closed_def)
  qed
qed

text \<open>The ids without a hypothetical partner bound the depth of the recursion.\<close>

definition free_ids :: "btf_dedup \<Rightarrow> nat" where
  "free_ids d = card {i :: u32. unat i < ntypes d \<and> \<not> known_id (dd_hypot_map d ! unat i)}"

lemma free_finite: "finite {i :: u32. P i}"
  by (rule finite_subset [OF subset_UNIV]) simp

lemma free_progress: "progress d d' \<Longrightarrow> free_ids d' \<le> free_ids d"
  unfolding free_ids_def by (rule card_mono [OF free_finite]) (auto simp: progress_def)

lemma free_bound: "free_ids d \<le> ntypes d"
proof -
  have "free_ids d \<le> card {i :: u32. unat i < ntypes d}" unfolding free_ids_def by (rule card_mono [OF free_finite]) auto
  then show ?thesis using card_ids [of "ntypes d"] by simp
qed

text \<open>The outcome of a comparison.\<close>

definition equiv_spec :: "nat \<Rightarrow> (u32 \<Rightarrow> u32 \<Rightarrow> btf_dedup \<Rightarrow> fault + (int \<times> btf_dedup)) \<Rightarrow> bool" where
  "equiv_spec n rec \<longleftrightarrow> (\<forall>a b d. dd_ok d \<longrightarrow> unat a < ntypes d \<longrightarrow> unat b < ntypes d \<longrightarrow> free_ids d < n \<longrightarrow>
     (\<exists>eq d'. rec a b d = Inr (eq, d') \<and> progress d d' \<and> eq \<in> {1, 0, - ENOMEM, - EINVAL} \<and> (eq = 1 \<longrightarrow> closed d d' \<and> related d' a b)))"

lemma equiv_specD:
  assumes "equiv_spec n rec" "dd_ok d" "unat a < ntypes d" "unat b < ntypes d" "free_ids d < n"
  obtains eq d' where "rec a b d = Inr (eq, d')" "progress d d'" "eq \<in> {1, 0, - ENOMEM, - EINVAL}" "eq = 1 \<longrightarrow> closed d d' \<and> related d' a b"
proof -
  have "\<exists>eq d'. rec a b d = Inr (eq, d') \<and> progress d d' \<and> eq \<in> {1, 0, - ENOMEM, - EINVAL} \<and> (eq = 1 \<longrightarrow> closed d d' \<and> related d' a b)"
    using assms unfolding equiv_spec_def by blast
  then show ?thesis using that by blast
qed

lemma equiv_refs_ok:
  assumes "equiv_spec n rec" "dd_ok d" "free_ids d < n" "\<forall>(x, y)\<in>set ps. unat x < ntypes d \<and> unat y < ntypes d"
  shows "\<exists>eq d'. equiv_refs rec ps d = Inr (eq, d') \<and> progress d d' \<and> eq \<in> {1, 0, - ENOMEM, - EINVAL} \<and>
    (eq = 1 \<longrightarrow> closed d d' \<and> (\<forall>(x, y)\<in>set ps. related d' x y))"
  using assms(2-4)
proof (induction ps arbitrary: d)
  case Nil
  then show ?case using progress_refl closed_refl by simp
next
  case (Cons p ps)
  obtain x y where p: "p = (x, y)" by (cases p)
  have xy: "unat x < ntypes d" "unat y < ntypes d" using Cons.prems(3) p by auto
  obtain e d1 where r: "rec x y d = Inr (e, d1)" "progress d d1" "e \<in> {1, 0, - ENOMEM, - EINVAL}" "e = 1 \<longrightarrow> closed d d1 \<and> related d1 x y"
    by (rule equiv_specD [OF assms(1) Cons.prems(1) xy Cons.prems(2)])
  show ?case
  proof (cases "e = 1")
    case False
    then have "e \<le> 0" using r(3) by (auto simp: ENOMEM_def EINVAL_def)
    then show ?thesis using r False p by auto
  next
    case True
    have n: "ntypes d1 = ntypes d" "dd_ok d1" using r(2) by (auto simp: progress_def)
    obtain eq d' where i: "equiv_refs rec ps d1 = Inr (eq, d')" "progress d1 d'" "eq \<in> {1, 0, - ENOMEM, - EINVAL}"
        "eq = 1 \<longrightarrow> closed d1 d' \<and> (\<forall>(x, y)\<in>set ps. related d' x y)"
      using Cons.IH [OF n(2)] Cons.prems(2,3) n(1) free_progress [OF r(2)] by fastforce
    have "equiv_refs rec (p # ps) d = Inr (eq, d')" using r(1) True i(1) p by simp
    moreover have "eq = 1 \<longrightarrow> closed d d' \<and> (\<forall>(x, y)\<in>set (p # ps). related d' x y)"
      using i(4) r(4) True closed_trans [OF _ _ r(2) i(2)] related_progress [OF i(2)] p by auto
    ultimately show ?thesis using progress_trans [OF r(2) i(2)] i(3) by blast
  qed
qed

section \<open>The comparison\<close>

lemma hypot_add_ok:
  assumes ok: "dd_ok d" and c: "unat c < ntypes d" "unat a < ntypes d" and new: "\<not> known_id (dd_hypot_map d ! unat c)"
  shows "\<exists>err d'. btf_dedup_hypot_map_add mem c a d = Inr (err, d') \<and> progress d d' \<and>
    (err = - ENOMEM \<or> err = 0 \<and> dd_hypot_map d' = (dd_hypot_map d)[unat c := a])"
proof -
  have len: "length (dd_hypot_map d) = ntypes d" by (rule dd_okD [OF ok])
  have h: "hypot_ok (d'\<lparr>dd_hypot_list := dd_hypot_list d @ [c], dd_hypot_map := (dd_hypot_map d)[unat c := a]\<rparr>)"
    if "dd_types d' = dd_types d" for d'
  proof -
    have old: "(dd_hypot_map d)[unat c := a] ! unat i = (if i = c then a else dd_hypot_map d ! unat i)" for i :: u32
      using c(1) len by (simp add: nth_list_update word_unat_eq_iff)
    have k: "known_id a" by (rule id_known [OF dd_okD(1) [OF ok] c(2)])
    have 1: "\<forall>i. unat i < ntypes d \<longrightarrow> known_id (dd_hypot_map d ! unat i) \<longrightarrow> unat (dd_hypot_map d ! unat i) < ntypes d \<and> i \<in> set (dd_hypot_list d)"
      and 2: "\<forall>i\<in>set (dd_hypot_list d). unat i < ntypes d \<and> known_id (dd_hypot_map d ! unat i)"
      using dd_okD(4) [OF ok] unfolding hypot_ok_def by blast+
    have "\<forall>i. unat i < ntypes d \<longrightarrow> known_id ((dd_hypot_map d)[unat c := a] ! unat i) \<longrightarrow>
        unat ((dd_hypot_map d)[unat c := a] ! unat i) < ntypes d \<and> i \<in> set (dd_hypot_list d @ [c])" unfolding old using 1 c(2) by auto
    moreover have "\<forall>i\<in>set (dd_hypot_list d @ [c]). unat i < ntypes d \<and> known_id ((dd_hypot_map d)[unat c := a] ! unat i)" unfolding old using 2 c(1) k by auto
    ultimately show ?thesis using that len k by (simp add: hypot_ok_def)
  qed
  have keep: "(dd_hypot_map d)[unat c := a] ! unat i = dd_hypot_map d ! unat i" if "known_id (dd_hypot_map d ! unat i)" for i :: u32
    using that new by (metis nth_list_update_neq)
  have p: "progress d (d'\<lparr>dd_hypot_list := dd_hypot_list d @ [c], dd_hypot_map := (dd_hypot_map d)[unat c := a]\<rparr>)" if "dd_types d' = dd_types d"
      "dd_start_id d' = dd_start_id d" "dd_table d' = dd_table d" "dd_collide d' = dd_collide d" "dd_map d' = dd_map d" "dd_hypot_adjust_canon d' = dd_hypot_adjust_canon d" for d'
  proof -
    have "dd_ok (d'\<lparr>dd_hypot_list := dd_hypot_list d @ [c], dd_hypot_map := (dd_hypot_map d)[unat c := a]\<rparr>)" using h [OF that(1)] ok that by (simp add: dd_ok_def)
    then show ?thesis using that keep by (simp add: progress_def)
  qed
  show ?thesis
  proof (cases "length (dd_hypot_list d) = dd_hypot_cap d")
    case False
    then show ?thesis using p [of d] len c(1) by (simp add: btf_dedup_hypot_map_add_def)
  next
    case True
    let ?d = "d\<lparr>dd_hypot_cap := dd_hypot_cap d + max 16 (dd_hypot_cap d div 2), dd_calls := dd_calls d + 1\<rparr>"
    have "progress d ?d" using ok dd_ok_cong [of ?d d] by (simp add: progress_def)
    then show ?thesis using True p [of ?d] len c(1) by (simp add: btf_dedup_hypot_map_add_def Let_def)
  qed
qed

lemma identical_same:
  assumes "dd_ok d" "unat x < ntypes d" "unat y < ntypes d"
  obtains p q where "btf_dedup_identical_arrays d x y = Inr p" "btf_dedup_identical_structs d x y = Inr q"
    "p \<or> q \<longrightarrow> dd_types d ! unat x = dd_types d ! unat y"
proof -
  note ok = types_okD(1) [OF dd_okD(1) [OF assms(1)]]
  show ?thesis
    by (rule that) (use assms(2,3) in \<open>auto simp: btf_dedup_identical_arrays_def btf_dedup_identical_structs_def btf_is_array_def
        intro: equal_array_same identical_struct_same ok\<close>)
qed

declare btf_dedup_is_equiv.simps [simp del]

text \<open>A new pair has one more id with a partner.\<close>

lemma free_less:
  fixes c :: u32
  assumes "progress d d1" "unat c < ntypes d" "\<not> known_id (dd_hypot_map d ! unat c)" "known_id (dd_hypot_map d1 ! unat c)"
  shows "free_ids d1 < free_ids d"
proof -
  have "{i :: u32. unat i < ntypes d1 \<and> \<not> known_id (dd_hypot_map d1 ! unat i)} \<subset> {i. unat i < ntypes d \<and> \<not> known_id (dd_hypot_map d ! unat i)}"
  proof
    show "{i :: u32. unat i < ntypes d1 \<and> \<not> known_id (dd_hypot_map d1 ! unat i)} \<noteq> {i. unat i < ntypes d \<and> \<not> known_id (dd_hypot_map d ! unat i)}"
      using assms(2-4) by blast
  qed (use assms(1) in \<open>auto simp: progress_def\<close>)
  then show ?thesis unfolding free_ids_def by (rule psubset_card_mono [OF free_finite])
qed

lemma closed_new_pair:
  assumes hyp: "dd_hypot_map d1 = (dd_hypot_map d)[unat c := a]" and types: "dd_types d1 = dd_types d" and cl: "closed d1 d'" "pair_ok d' c"
  shows "closed d d'"
  unfolding closed_def
proof (intro allI impI)
  fix x :: u32 assume x: "unat x < ntypes d" "known_id (dd_hypot_map d' ! unat x)" "\<not> known_id (dd_hypot_map d ! unat x)"
  show "pair_ok d' x"
  proof (cases "x = c")
    case False
    then have "\<not> known_id (dd_hypot_map d1 ! unat x)" using x(3) hyp by (simp add: word_unat_eq_iff)
    then show ?thesis using cl(1) x(1,2) types by (simp add: closed_def)
  qed (use cl(2) in simp)
qed

lemma equiv_new_pair:
  assumes rec: "equiv_spec n rec" and ok: "dd_ok d" and a: "unat a < ntypes d" and c: "unat c < ntypes d" and new: "\<not> known_id (dd_hypot_map d ! unat c)"
    and d1: "progress d d1" "dd_hypot_map d1 = (dd_hypot_map d)[unat c := a]" and n: "free_ids d < Suc n"
  shows "\<exists>eq d'. equiv_types rec c (dd_types d ! unat a) (dd_types d ! unat c) d1 = Inr (eq, d') \<and> progress d1 d' \<and> eq \<in> {1, 0, - ENOMEM, - EINVAL} \<and>
    (eq = 1 \<longrightarrow> closed d d')"
proof -
  let ?A = "dd_types d ! unat a" and ?C = "dd_types d ! unat c"
  have same: "dd_types d1 = dd_types d" "dd_ok d1" using d1(1) by (auto simp: progress_def)
  have hc: "dd_hypot_map d1 ! unat c = a" using d1(2) c dd_okD(5) [OF ok] by simp
  have known: "known_id (dd_hypot_map d1 ! unat c)" using hc id_known [OF dd_okD(1) [OF ok] a] by simp
  have free: "free_ids d1 < n" using free_less [OF d1(1) c new known] n by simp
  have AC: "typ_ok ?A" "typ_ok ?C" using types_okD(1) [OF dd_okD(1) [OF ok]] a c by auto
  from equiv_types_cases [OF AC, of rec c d1]
  consider (now) e adj where "equiv_types rec c ?A ?C d1 = Inr (e, if adj then d1\<lparr>dd_hypot_adjust_canon := True\<rparr> else d1)" "decided ?A ?C e" "adj \<longrightarrow> btf_is_fwd ?C"
    | (refs) ps where "equiv_types rec c ?A ?C d1 = equiv_refs rec ps d1" "compared ?A ?C ps" by blast
  then show ?thesis
  proof cases
    case now
    let ?d = "if adj then d1\<lparr>dd_hypot_adjust_canon := True\<rparr> else d1"
    have "progress d1 (d1\<lparr>dd_hypot_adjust_canon := True\<rparr>)" if "btf_is_fwd ?C"
      using same that c dd_ok_cong [of "d1\<lparr>dd_hypot_adjust_canon := True\<rparr>" d1] by (auto simp: progress_def fwdish_def intro!: bexI [of _ ?C])
    then have p: "progress d1 ?d" using now(3) progress_refl [OF same(2)] by simp
    have "pair_ok ?d c" if "e = 1" using now(2) that hc same(1) by (auto simp: pair_ok_def decided_def EINVAL_def)
    moreover have "closed d1 ?d" by (simp add: closed_def)
    moreover have "e \<in> {1, 0, - ENOMEM, - EINVAL}" using now(2) by (auto simp: decided_def)
    ultimately show ?thesis unfolding now(1) using p closed_new_pair [OF d1(2) same(1)] by blast
  next
    case (refs ps)
    have ids: "\<forall>(x, y)\<in>set ps. unat x < ntypes d1 \<and> unat y < ntypes d1"
      using refs(2) types_okD(2) [OF dd_okD(1) [OF ok]] a c same(1) by (auto simp: compared_def dest: set_zip_leftD set_zip_rightD)
    obtain eq d' where e: "equiv_refs rec ps d1 = Inr (eq, d')" "progress d1 d'" "eq \<in> {1, 0, - ENOMEM, - EINVAL}"
        "eq = 1 \<longrightarrow> closed d1 d' \<and> (\<forall>(x, y)\<in>set ps. related d' x y)"
      using equiv_refs_ok [OF rec same(2) free ids] by blast
    have "pair_ok d' c" if "eq = 1" using e(2,4) that refs(2) hc known same(1) c by (auto simp: pair_ok_def compared_def progress_def)
    then show ?thesis unfolding refs(1) e(1) using e(2-4) closed_new_pair [OF d1(2) same(1)] by blast
  qed
qed

lemma is_equiv_step:
  assumes rec: "equiv_spec n (btf_dedup_is_equiv mem n)" and ok: "dd_ok d" and a: "unat a < ntypes d" and b: "unat b < ntypes d" and n: "free_ids d < Suc n"
  shows "\<exists>eq d'. btf_dedup_is_equiv mem (Suc n) a b d = Inr (eq, d') \<and> progress d d' \<and> eq \<in> {1, 0, - ENOMEM, - EINVAL} \<and> (eq = 1 \<longrightarrow> closed d d' \<and> related d' a b)"
    (is "?goal (btf_dedup_is_equiv mem (Suc n) a b d)")
proof -
  have now: "?goal (Inr (eq, d))" if "eq = 0 \<or> eq = 1 \<and> related d a b" for eq using that progress_refl [OF ok] closed_refl by auto
  obtain ra where ra: "resolve_type_id d a = Inr ra" by (rule resolved [OF ok a])
  obtain rb where rb: "resolve_type_id d b = Inr rb" by (rule resolved [OF ok b])
  obtain c where c: "resolve_fwd_id d b = Inr c" "unat c < ntypes d" by (rule resolved_fwd [OF ok b])
  let ?h = "dd_hypot_map d ! unat c"
  have len: "length (dd_hypot_map d) = ntypes d" by (rule dd_okD [OF ok])
  note run = btf_dedup_is_equiv.simps(2) [of mem n a b d, unfolded ra rb c(1) bindR.simps]
  consider (root) "ra = rb" | (old) "ra \<noteq> rb" "known_id ?h" | (new) "ra \<noteq> rb" "\<not> known_id ?h" by blast
  then show ?thesis
  proof cases
    case root
    then show ?thesis using now [of 1] ra rb by (simp add: run related_def)
  next
    case old
    have h: "unat ?h < ntypes d" by (rule hypot_partner [OF ok c(2) old(2)])
    have rel: "related d a b" if "dd_types d ! unat ?h = dd_types d ! unat a" using that c old(2) by (auto simp: related_def)
    obtain p q where pq: "btf_dedup_identical_arrays d ?h a = Inr p" "btf_dedup_identical_structs d ?h a = Inr q"
        "p \<or> q \<longrightarrow> dd_types d ! unat ?h = dd_types d ! unat a" by (rule identical_same [OF ok h a])
    have "btf_dedup_is_equiv mem (Suc n) a b d = Inr (of_bool (?h = a \<or> p \<or> q), d)"
      using old c(2) len pq(1,2) by (simp add: run del: bindR_eq_Inr)
    moreover have "?goal (Inr (of_bool (?h = a \<or> p \<or> q), d))" using now rel pq(3) by (cases "?h = a \<or> p \<or> q") auto
    ultimately show ?thesis by (simp only:)
  next
    case new
    obtain err d1 where d1: "btf_dedup_hypot_map_add mem c a d = Inr (err, d1)" "progress d d1"
        "err = - ENOMEM \<or> err = 0 \<and> dd_hypot_map d1 = (dd_hypot_map d)[unat c := a]"
      using hypot_add_ok [OF ok c(2) a new(2), of mem] by blast
    show ?thesis
    proof (cases "err = 0")
      case False
      then show ?thesis using new c(2) len d1 by (auto simp: run ENOMEM_def simp del: bindR_eq_Inr)
    next
      case True
      have same: "dd_types d1 = dd_types d" "dd_map d1 = dd_map d" using d1(2) by (auto simp: progress_def)
      have hyp: "dd_hypot_map d1 = (dd_hypot_map d)[unat c := a]" using d1(3) True by (simp add: ENOMEM_def)
      have r: "btf_dedup_is_equiv mem (Suc n) a b d = equiv_types (btf_dedup_is_equiv mem n) c (dd_types d ! unat a) (dd_types d ! unat c) d1"
        using new c(2) len d1(1) True same(1) a by (simp add: run del: bindR_eq_Inr)
      obtain eq d' where e: "equiv_types (btf_dedup_is_equiv mem n) c (dd_types d ! unat a) (dd_types d ! unat c) d1 = Inr (eq, d')" "progress d1 d'"
          "eq \<in> {1, 0, - ENOMEM, - EINVAL}" "eq = 1 \<longrightarrow> closed d d'"
        using equiv_new_pair [OF rec ok a c(2) new(2) d1(2) hyp n] by blast
      have "known_id a" by (rule id_known [OF dd_okD(1) [OF ok] a])
      then have h': "dd_hypot_map d' ! unat c = a" "dd_types d' = dd_types d" "dd_map d' = dd_map d"
        using e(2) same hyp c(2) len by (auto simp: progress_def)
      then have "related d' a b" unfolding related_def using c \<open>known_id a\<close> resolve_fwd_frame [of d' d] by auto
      then show ?thesis unfolding r e(1) using progress_trans [OF d1(2) e(2)] e(3,4) by blast
    qed
  qed
qed

lemma is_equiv_ok: "equiv_spec n (btf_dedup_is_equiv mem n)"
proof (induction n)
  case 0
  then show ?case by (simp add: equiv_spec_def)
next
  case (Suc n)
  show ?case unfolding equiv_spec_def using is_equiv_step [OF Suc.IH] by blast
qed

section \<open>Paired types unfold alike\<close>

lemma same_type_alike: "unat a < length ts \<Longrightarrow> unat b < length ts \<Longrightarrow> ts ! unat a = ts ! unat b \<Longrightarrow> unfolding_of ts n a = unfolding_of ts n b"
  by (cases n) simp_all

lemma root_alike:
  assumes "map_sound ts m" "(i, r) \<in> (map_edges m)\<^sup>*"
  shows "alike ts r i"
  using assms(2)
proof (induction rule: converse_rtrancl_induct)
  case (step i j)
  then have "alike ts j i" using assms(1) by (auto simp: map_sound_def map_edges_def map_next_def split: if_splits)
  then show ?case using step by (simp add: alike_def)
qed (simp add: alike_def)

lemma resolved_alike:
  assumes "dd_ok d" "no_fwd (dd_types d)" "unat i < ntypes d" "resolve_type_id d i = Inr r"
  shows "alike (dd_types d) r i"
proof -
  obtain r' where "resolve_type_id d i = Inr r'" "(i, r') \<in> (map_edges (dd_map d))\<^sup>*" by (rule resolved [OF assms(1,3)])
  then show ?thesis using root_alike [OF dd_okD(8) [OF assms(1,2)]] assms(4) by simp
qed

lemma map_eq_zip: "length xs = length ys \<Longrightarrow> (\<And>x y. (x, y) \<in> set (zip xs ys) \<Longrightarrow> f x = g y) \<Longrightarrow> map f xs = map g ys"
  by (induction xs ys rule: list_induct2) auto

text \<open>Related types unfold alike as far as the pairs do.\<close>

lemma related_unfold:
  assumes ok: "dd_ok d" and fwd: "no_fwd (dd_types d)" and r: "related d x y" "unat x < ntypes d" "unat y < ntypes d"
    and pairs: "\<And>c. unat c < ntypes d \<Longrightarrow> known_id (dd_hypot_map d ! unat c) \<Longrightarrow> unfolding_of (dd_types d) n (dd_hypot_map d ! unat c) = unfolding_of (dd_types d) n c"
  shows "unfolding_of (dd_types d) n x = unfolding_of (dd_types d) n y"
proof (cases "resolve_type_id d x = resolve_type_id d y")
  case True
  obtain rx where "resolve_type_id d x = Inr rx" by (rule resolved [OF ok r(2)])
  then show ?thesis using True resolved_alike [OF ok fwd r(2)] resolved_alike [OF ok fwd r(3)] by (simp add: alike_def)
next
  case False
  obtain c where c: "resolve_fwd_id d y = Inr c" "\<not> btf_is_fwd (dd_types d ! unat y) \<longrightarrow> c = y" by (rule resolved_fwd [OF ok r(3)])
  then have "c = y" using fwd r(3) by (auto simp: fwdish_def no_fwd_def)
  then have k: "known_id (dd_hypot_map d ! unat y)" "dd_types d ! unat (dd_hypot_map d ! unat y) = dd_types d ! unat x" using r(1) False c(1) by (auto simp: related_def)
  then show ?thesis using pairs [OF r(3) k(1)] same_type_alike [OF r(2) hypot_partner(1) [OF ok r(3) k(1)], of n] by simp
qed

lemma pairs_alike:
  assumes ok: "dd_ok d" and fwd: "no_fwd (dd_types d)"
    and pairs: "\<And>c. unat c < ntypes d \<Longrightarrow> known_id (dd_hypot_map d ! unat c) \<Longrightarrow> pair_ok d c"
    and c: "unat c < ntypes d" "known_id (dd_hypot_map d ! unat c)"
  shows "unfolding_of (dd_types d) n (dd_hypot_map d ! unat c) = unfolding_of (dd_types d) n c"
  using c
proof (induction n arbitrary: c)
  case (Suc n)
  let ?ts = "dd_types d" and ?a = "dd_hypot_map d ! unat c"
  have a: "unat ?a < ntypes d" by (rule hypot_partner [OF ok Suc.prems])
  have nf: "\<not> fwdish (?ts ! unat i)" if "unat i < ntypes d" for i :: u32 using fwd that by (simp add: no_fwd_def)
  note rel = related_unfold [OF ok fwd _ _ _ Suc.IH]
  have "label (?ts ! unat ?a) = label (?ts ! unat c)" "length (ref_ids (?ts ! unat ?a)) = length (ref_ids (?ts ! unat c))"
      "\<forall>(x, y)\<in>set (zip (ref_ids (?ts ! unat ?a)) (ref_ids (?ts ! unat c))). related d x y"
    using pairs [OF Suc.prems] nf [OF a] nf [OF Suc.prems(1)] by (auto simp: pair_ok_def Let_def)
  moreover have "unat x < ntypes d \<and> unat y < ntypes d" if "(x, y) \<in> set (zip (ref_ids (?ts ! unat ?a)) (ref_ids (?ts ! unat c)))" for x y
    using that types_okD(2) [OF dd_okD(1) [OF ok]] a Suc.prems(1) by (auto dest: set_zip_leftD set_zip_rightD)
  ultimately have "map (unfolding_of ?ts n) (ref_ids (?ts ! unat ?a)) = map (unfolding_of ?ts n) (ref_ids (?ts ! unat c))"
    using rel by (intro map_eq_zip) blast+
  then show ?case using a Suc.prems(1) \<open>label _ = label _\<close> by simp
qed simp

end
