(* ===== verification/Dedup_Prim.thy ===== *)
theory Dedup_Prim
  imports Dedup_Equiv
begin

text \<open>
  What every step of the deduplication map_grows, and the first passes: the base is entered, and each primitive type gets a canonical type
  that is the same type.
\<close>

section \<open>Steps\<close>

text \<open>
  A step keeps the invariant, the shapes of all types, the canonical ids that are known and their types. Without forward
  declarations it also keeps all unfoldings.
\<close>

definition advance :: "btf_dedup \<Rightarrow> btf_dedup \<Rightarrow> bool" where
  "advance d d' \<longleftrightarrow> dd_ok d' \<and> ntypes d' = ntypes d \<and> dd_start_id d' = dd_start_id d \<and>
     (\<forall>j<ntypes d. label (dd_types d' ! j) = label (dd_types d ! j) \<and> bt_info (dd_types d' ! j) = bt_info (dd_types d ! j)) \<and>
     (\<forall>i :: u32. unat i < ntypes d \<longrightarrow> known_id (dd_map d ! unat i) \<longrightarrow> known_id (dd_map d' ! unat i) \<and> dd_types d' ! unat i = dd_types d ! unat i) \<and>
     (no_fwd (dd_types d) \<longrightarrow> (\<forall>n i. unfolding_of (dd_types d') n i = unfolding_of (dd_types d) n i))"

lemma fwdish_cong: "bt_info a = bt_info b \<Longrightarrow> fwdish a = fwdish b"
  by (simp add: fwdish_def btf_is_fwd_def btf_is_enum_fwd_def btf_is_any_enum_def btf_is_enum_def btf_is_enum64_def btf_kind_def btf_vlen_def)

lemma no_fwd_cong: "length ts' = length ts \<Longrightarrow> \<forall>j<length ts. bt_info (ts' ! j) = bt_info (ts ! j) \<Longrightarrow> no_fwd ts' = no_fwd ts"
  unfolding no_fwd_def all_set_conv_all_nth using fwdish_cong by metis

lemma advance_no_fwd: "advance d d' \<Longrightarrow> no_fwd (dd_types d') = no_fwd (dd_types d)"
  by (rule no_fwd_cong) (auto simp: advance_def)

lemma advance_refl: "dd_ok d \<Longrightarrow> advance d d"
  by (simp add: advance_def)

lemma advance_trans:
  assumes "advance d d1" "advance d1 d2"
  shows "advance d d2"
  using assms advance_no_fwd [OF assms(1)] unfolding advance_def by simp

lemma advance_ok: "advance d d' \<Longrightarrow> dd_ok d'" "advance d d' \<Longrightarrow> ntypes d' = ntypes d" "advance d d' \<Longrightarrow> dd_start_id d' = dd_start_id d"
  by (simp_all add: advance_def)

lemma advance_known:
  fixes i :: u32
  assumes "advance d d'" "unat i < ntypes d" "known_id (dd_map d ! unat i)"
  shows "known_id (dd_map d' ! unat i)" "dd_types d' ! unat i = dd_types d ! unat i"
  using assms by (auto simp: advance_def)

text \<open>Fields a step leaves alone.\<close>

lemma advance_frame:
  assumes ok: "dd_ok d'" and f: "dd_types d' = dd_types d" "dd_start_id d' = dd_start_id d"
    and known: "\<And>i :: u32. unat i < ntypes d \<Longrightarrow> known_id (dd_map d ! unat i) \<Longrightarrow> known_id (dd_map d' ! unat i)"
  shows "advance d d'"
  using assms by (simp add: advance_def)

lemma hypot_ok_cong:
  "ntypes d' = ntypes d \<Longrightarrow> dd_hypot_map d' = dd_hypot_map d \<Longrightarrow> dd_hypot_list d' = dd_hypot_list d \<Longrightarrow> hypot_ok d' = hypot_ok d"
  unfolding hypot_ok_def by (simp only:)

lemma elem_facts:
  assumes "dd_ok d" "(h, i) \<in> table_elems (dd_table d)"
  shows "unat i < ntypes d" "known_id (dd_map d ! unat i)" "\<not> fwdish (dd_types d ! unat i) \<Longrightarrow> map_next (dd_map d) i = None"
proof -
  have "\<forall>(h, i)\<in>table_elems (dd_table d). unat i < ntypes d \<and> known_id (dd_map d ! unat i) \<and> (\<not> fwdish (dd_types d ! unat i) \<longrightarrow> map_next (dd_map d) i = None)"
    using assms(1) unfolding dd_ok_def by blast
  from bspec [OF this assms(2)] show "unat i < ntypes d" "known_id (dd_map d ! unat i)" "\<not> fwdish (dd_types d ! unat i) \<Longrightarrow> map_next (dd_map d) i = None" by auto
qed

definition in_table :: "btf_dedup \<Rightarrow> u32 \<Rightarrow> bool" where
  "in_table d i \<longleftrightarrow> (\<exists>h. (h, i) \<in> table_elems (dd_table d))"

lemma in_tableI: "(h, i) \<in> table_elems (dd_table d) \<Longrightarrow> in_table d i"
  by (auto simp: in_table_def)

lemma unknown_not_in_table: "dd_ok d \<Longrightarrow> \<not> known_id (dd_map d ! unat i) \<Longrightarrow> \<not> in_table d i"
  using elem_facts(2) by (auto simp: in_table_def)

lemma map_sound_update:
  assumes "map_sound ts m" "unat c < length m" "known_id t \<Longrightarrow> alike ts t c"
  shows "map_sound ts (m[unat c := t])"
proof -
  have "m[unat c := t] ! unat i = (if i = c then t else m ! unat i)" for i :: u32 using assms(2) by (simp add: nth_list_update word_unat_eq_iff)
  then show ?thesis using assms by (auto simp: map_sound_def)
qed

lemma set_map_ok:
  assumes ok: "dd_ok d" and c: "unat c < ntypes d" and t: "known_id t \<Longrightarrow> unat t < ntypes d" and path: "t = c \<or> \<not> known_id t \<or> (t, c) \<notin> (map_edges (dd_map d))\<^sup>*"
    and mono: "known_id (dd_map d ! unat c) \<Longrightarrow> known_id t" and tab: "in_table d c \<Longrightarrow> fwdish (dd_types d ! unat c)"
    and sound: "no_fwd (dd_types d) \<Longrightarrow> known_id t \<Longrightarrow> alike (dd_types d) t c"
  shows "set_map c t d = Inr (d\<lparr>dd_map := (dd_map d)[unat c := t]\<rparr>)" "advance d (d\<lparr>dd_map := (dd_map d)[unat c := t]\<rparr>)"
proof -
  let ?m = "(dd_map d)[unat c := t]" let ?d = "d\<lparr>dd_map := ?m\<rparr>"
  note D = dd_okD [OF ok]
  show "set_map c t d = Inr ?d" using c D(2) by (simp add: set_map_def)
  have nth: "?m ! unat i = (if i = c then t else dd_map d ! unat i)" for i :: u32 using c D(2) by (simp add: nth_list_update word_unat_eq_iff)
  have "map_ok ?m" using c t path D(2) by (intro map_ok_update [OF D(3)]) auto
  moreover have "\<forall>(h, i)\<in>table_elems (dd_table d). unat i < ntypes d \<and> known_id (?m ! unat i) \<and> (\<not> fwdish (dd_types d ! unat i) \<longrightarrow> map_next ?m i = None)"
  proof (clarify, intro conjI impI)
    fix h i assume e: "(h, i) \<in> table_elems (dd_table d)"
    show "unat i < ntypes d" "known_id (?m ! unat i)" using elem_facts [OF ok e] mono by (auto simp: nth)
    show "map_next ?m i = None" if "\<not> fwdish (dd_types d ! unat i)"
      using elem_facts(3) [OF ok e that] tab e that c D(2) by (auto simp: map_next_update in_table_def)
  qed
  moreover have "hypot_ok ?d" using D(4) hypot_ok_cong [of ?d d] by simp
  moreover have "no_fwd (dd_types d) \<longrightarrow> map_sound (dd_types d) ?m" using sound c D(2,8) by (auto intro!: map_sound_update)
  ultimately have "dd_ok ?d" using ok unfolding dd_ok_def by simp
  then show "advance d ?d" using mono by (intro advance_frame) (auto simp: nth)
qed

lemma table_add_ok:
  assumes ok: "dd_ok d" and i: "unat i < ntypes d" "known_id (dd_map d ! unat i)" "\<not> fwdish (dd_types d ! unat i) \<Longrightarrow> map_next (dd_map d) i = None"
  shows "\<exists>err d'. btf_dedup_table_add mem h i d = Inr (err, d') \<and> advance d d' \<and> dd_types d' = dd_types d \<and> dd_map d' = dd_map d \<and>
    (err = 0 \<and> table_elems (dd_table d') = insert (h, i) (table_elems (dd_table d)) \<or> err = - ENOMEM \<and> table_elems (dd_table d') = table_elems (dd_table d))"
proof -
  obtain err m where a: "table_add (dd_collide d) (mem (dd_calls d)) h i (dd_table d) = Inr (err, m)" "hm_inv (dedup_hash_fn (dd_collide d)) m"
      "err = 0 \<and> table_elems m = insert (h, i) (table_elems (dd_table d)) \<or> err = - ENOMEM \<and> table_elems m = table_elems (dd_table d)"
    using table.add_ok [OF dd_okD(6) [OF ok], of "mem (dd_calls d)" h i] by blast
  let ?d = "d\<lparr>dd_table := m, dd_calls := dd_calls d + 1\<rparr>"
  have "\<forall>(h, i)\<in>table_elems m. unat i < ntypes d \<and> known_id (dd_map d ! unat i) \<and> (\<not> fwdish (dd_types d ! unat i) \<longrightarrow> map_next (dd_map d) i = None)"
    using a(3) i elem_facts [OF ok] by auto
  moreover have "hypot_ok ?d" using dd_okD(4) [OF ok] hypot_ok_cong [of ?d d] by simp
  ultimately have "dd_ok ?d" using ok a(2) unfolding dd_ok_def by simp
  then have "advance d ?d" by (intro advance_frame) auto
  then show ?thesis using a(1,3) by (simp add: table_add_eq)
qed

text \<open>The end of a pass for one type.\<close>

lemma settle_ok:
  assumes ok: "dd_ok d" and i: "unat i < ntypes d" "\<not> in_table d i" and new: "unat new < ntypes d" "new = i \<or> (new, i) \<notin> (map_edges (dd_map d))\<^sup>*"
    and sound: "no_fwd (dd_types d) \<Longrightarrow> alike (dd_types d) new i"
  shows "\<exists>ret d'. settle mem h i new d = Inr (ret, d') \<and> advance d d' \<and> dd_types d' = dd_types d \<and> dd_map d' = (dd_map d)[unat i := new] \<and> (ret = 0 \<or> ret = - ENOMEM) \<and>
    table_elems (dd_table d') \<subseteq> insert (h, i) (table_elems (dd_table d)) \<and>
    (ret = 0 \<longrightarrow> table_elems (dd_table d') = (if new = i then insert (h, i) (table_elems (dd_table d)) else table_elems (dd_table d)))"
proof -
  let ?d = "d\<lparr>dd_map := (dd_map d)[unat i := new]\<rparr>"
  have k: "known_id new" by (rule id_known [OF dd_okD(1) [OF ok] new(1)])
  note s = set_map_ok [where c = i and t = new, OF ok i(1)]
  have st: "set_map i new d = Inr ?d" "advance d ?d" using new i(2) k sound by (intro s; auto)+
  have ok': "dd_ok ?d" using st(2) by (rule advance_ok)
  have len: "unat i < length (dd_map d)" using i(1) dd_okD(2) [OF ok] by simp
  show ?thesis
  proof (cases "new = i")
    case False
    then show ?thesis using st by (simp add: settle_def subset_insertI)
  next
    case True
    have "map_next (dd_map ?d) i = None" using map_next_update [OF len, of new i] True by simp
    moreover have "known_id (dd_map ?d ! unat i)" using len k by simp
    ultimately obtain err d' where a: "btf_dedup_table_add mem h i ?d = Inr (err, d')" "advance ?d d'" "dd_types d' = dd_types ?d" "dd_map d' = dd_map ?d"
        "err = 0 \<and> table_elems (dd_table d') = insert (h, i) (table_elems (dd_table ?d)) \<or> err = - ENOMEM \<and> table_elems (dd_table d') = table_elems (dd_table ?d)"
      using table_add_ok [OF ok', of i mem h] i(1) by auto
    have run: "settle mem h i new d = Inr (if err \<noteq> 0 then - ENOMEM else 0, d')" using st(1) True a(1) by (simp add: settle_def)
    have "advance d d'" by (rule advance_trans [OF st(2) a(2)])
    moreover have "dd_types d' = dd_types d" "dd_map d' = (dd_map d)[unat i := new]" using a(3,4) by simp_all
    moreover have "dd_table ?d = dd_table d" "- ENOMEM \<noteq> 0" by (simp_all add: ENOMEM_def)
    with a(5) have "table_elems (dd_table d') \<subseteq> insert (h, i) (table_elems (dd_table d))" "err = 0 \<longrightarrow> table_elems (dd_table d') = insert (h, i) (table_elems (dd_table d))"
      by (metis order_refl subset_insertI)+
    ultimately show ?thesis unfolding run using True \<open>table_elems (dd_table d') \<subseteq> _\<close> \<open>err = 0 \<longrightarrow> _\<close> by (intro exI [of _ "if err \<noteq> 0 then - ENOMEM else 0"] exI [of _ d']) (simp add: ENOMEM_def)
  qed
qed

section \<open>Candidates\<close>

lemma dedup_cands_ok:
  assumes "dd_ok d"
  obtains cs where "dedup_cands d h = Inr cs" "set cs = {i. (h, i) \<in> table_elems (dd_table d)}"
  using table.cands_ok [OF dd_okD(6) [OF assms], of h] by (auto simp: dedup_cands_eq)

lemma first_cand_ok:
  assumes "\<forall>c\<in>set cs. unat c < length ts"
  shows "\<exists>r. first_cand p ts cs = Inr r \<and> (case r of None \<Rightarrow> \<forall>c\<in>set cs. \<not> p (ts ! unat c) | Some c \<Rightarrow> c \<in> set cs \<and> p (ts ! unat c))"
  using assms
proof (induction cs)
  case (Cons c cs)
  then obtain r where "first_cand p ts cs = Inr r" "case r of None \<Rightarrow> \<forall>c\<in>set cs. \<not> p (ts ! unat c) | Some c \<Rightarrow> c \<in> set cs \<and> p (ts ! unat c)" by auto
  then show ?case using Cons.prems by (cases "p (ts ! unat c)") (auto split: option.splits)
qed simp

lemma equal_cand_ok:
  assumes ok: "dd_ok d"
  obtains c where "equal_cand equal h t i d = Inr c"
    "c = i \<and> (\<forall>j. (h, j) \<in> table_elems (dd_table d) \<longrightarrow> \<not> equal t (dd_types d ! unat j)) \<or> (h, c) \<in> table_elems (dd_table d) \<and> equal t (dd_types d ! unat c)"
proof -
  obtain cs where cs: "dedup_cands d h = Inr cs" "set cs = {i. (h, i) \<in> table_elems (dd_table d)}" by (rule dedup_cands_ok [OF ok])
  have "\<forall>c\<in>set cs. unat c < ntypes d" using cs(2) elem_facts(1) [OF ok] by auto
  from first_cand_ok [OF this, of "equal t"] obtain r where r: "first_cand (equal t) (dd_types d) cs = Inr r"
    "case r of None \<Rightarrow> \<forall>c\<in>set cs. \<not> equal t (dd_types d ! unat c) | Some c \<Rightarrow> c \<in> set cs \<and> equal t (dd_types d ! unat c)" by blast
  show ?thesis using that [of "case r of None \<Rightarrow> i | Some c \<Rightarrow> c"] r cs by (auto simp: equal_cand_def split: option.splits)
qed

section \<open>Loops over ids\<close>

lemma unat_id: "types_ok ts \<Longrightarrow> k < length ts \<Longrightarrow> unat (of_nat k :: u32) = k"
  by (simp add: types_ok_def unsigned_of_nat take_bit_nat_eq_self)

lemma each_id_ok:
  assumes step: "\<And>k d. a \<le> k \<Longrightarrow> k < b \<Longrightarrow> I k d \<Longrightarrow> \<exists>ret d'. f (of_nat k) d = Inr (ret, d') \<and> advance d d' \<and> (0 \<le> ret \<longrightarrow> I (Suc k) d')"
    and ok: "\<And>k d. I k d \<Longrightarrow> dd_ok d" and start: "I a d" "a \<le> b"
  shows "\<exists>ret d'. each_id f [a..<b] d = Inr (ret, d') \<and> advance d d' \<and> (0 \<le> ret \<longrightarrow> ret = 0 \<and> I b d')"
  using start step
proof (induction "b - a" arbitrary: a d)
  case 0
  then show ?case using ok advance_refl by simp
next
  case (Suc n)
  then have ab: "a < b" "[a..<b] = a # [Suc a..<b]" by (simp_all add: upt_rec)
  obtain ret d1 where r: "f (of_nat a) d = Inr (ret, d1)" "advance d d1" "0 \<le> ret \<longrightarrow> I (Suc a) d1" using Suc.prems(1,3) ab(1) by blast
  show ?case
  proof (cases "ret < 0")
    case True
    then show ?thesis using r ab(2) by auto
  next
    case False
    have "n = b - Suc a" "Suc a \<le> b" "I (Suc a) d1" using Suc.hyps(2) ab(1) r(3) False by auto
    from Suc.hyps(1) [OF this(1,3,2)] Suc.prems(3) obtain ret' d' where "each_id f [Suc a..<b] d1 = Inr (ret', d')" "advance d1 d'" "0 \<le> ret' \<longrightarrow> ret' = 0 \<and> I b d'"
      by (metis Suc_leD)
    then show ?thesis using r(1) False ab(2) advance_trans [OF r(2)] by auto
  qed
qed

section \<open>No duplicates among candidates\<close>

abbreviation own :: "btf_dedup \<Rightarrow> u32 \<Rightarrow> bool" where
  "own d i \<equiv> dd_start_id d \<le> unat i \<and> unat i < ntypes d"

definition never_deduped :: "btf_type \<Rightarrow> bool" where
  "never_deduped t \<longleftrightarrow> btf_is_var t \<or> btf_is_datasec t"

text \<open>
  Candidates are entered under their hash, candidates of the instance other than structures and unions differ from all other candidates, and
  every type that is its own canonical type is a candidate.
\<close>

definition uniq :: "btf_dedup \<Rightarrow> bool" where
  "uniq d \<longleftrightarrow> (\<forall>(h, i)\<in>table_elems (dd_table d). base_hash (dd_types d ! unat i) = Inr (Some h)) \<and>
     (\<forall>i j. own d i \<longrightarrow> in_table d i \<longrightarrow> in_table d j \<longrightarrow> \<not> btf_is_composite (dd_types d ! unat i) \<longrightarrow> dd_types d ! unat i = dd_types d ! unat j \<longrightarrow> i = j) \<and>
     (\<forall>i. unat i < ntypes d \<longrightarrow> i \<noteq> 0 \<longrightarrow> dd_map d ! unat i = i \<longrightarrow> \<not> never_deduped (dd_types d ! unat i) \<longrightarrow> in_table d i)"

lemma uniqD:
  assumes "uniq d"
  shows "(h, i) \<in> table_elems (dd_table d) \<Longrightarrow> base_hash (dd_types d ! unat i) = Inr (Some h)"
    "own d i \<Longrightarrow> in_table d i \<Longrightarrow> in_table d j \<Longrightarrow> \<not> btf_is_composite (dd_types d ! unat i) \<Longrightarrow> dd_types d ! unat i = dd_types d ! unat j \<Longrightarrow> i = j"
    "unat i < ntypes d \<Longrightarrow> i \<noteq> 0 \<Longrightarrow> dd_map d ! unat i = i \<Longrightarrow> \<not> never_deduped (dd_types d ! unat i) \<Longrightarrow> in_table d i"
  using assms unfolding uniq_def by blast+

lemma uniq_frame:
  assumes u: "uniq d" and f: "dd_table d' = dd_table d" "ntypes d' = ntypes d" "dd_start_id d' = dd_start_id d"
    and same: "\<And>i. in_table d i \<Longrightarrow> dd_types d' ! unat i = dd_types d ! unat i"
    and map: "\<And>i. unat i < ntypes d \<Longrightarrow> dd_map d' ! unat i = i \<Longrightarrow> dd_map d ! unat i = i \<and> dd_types d' ! unat i = dd_types d ! unat i"
  shows "uniq d'"
proof -
  have t: "in_table d' i = in_table d i" for i by (simp add: in_table_def f(1))
  have "base_hash (dd_types d' ! unat i) = Inr (Some h)" if "(h, i) \<in> table_elems (dd_table d)" for h i
  proof -
    have "base_hash (dd_types d ! unat i) = Inr (Some h)" using u that unfolding uniq_def by blast
    then show ?thesis using same [OF in_tableI [OF that]] by simp
  qed
  moreover have "i = j" if "own d i" "in_table d i" "in_table d j" "\<not> btf_is_composite (dd_types d' ! unat i)" "dd_types d' ! unat i = dd_types d' ! unat j" for i j
    using u that same unfolding uniq_def by metis
  moreover have "in_table d i" if "unat i < ntypes d" "dd_map d' ! unat i = i" "i \<noteq> 0" "\<not> never_deduped (dd_types d' ! unat i)" for i
    using u map [OF that(1,2)] that unfolding uniq_def by metis
  ultimately show ?thesis using f unfolding uniq_def by (auto simp: t)
qed

lemma uniq_settle:
  assumes ok: "dd_ok d" and u: "uniq d" and i: "own d i" and hash: "base_hash (dd_types d ! unat i) = Inr (Some h)"
    and new: "new = i \<Longrightarrow> \<not> btf_is_composite (dd_types d ! unat i) \<Longrightarrow> (\<And>j. (h, j) \<in> table_elems (dd_table d) \<Longrightarrow> dd_types d ! unat j \<noteq> dd_types d ! unat i)"
    and d': "dd_types d' = dd_types d" "dd_start_id d' = dd_start_id d" "dd_map d' = (dd_map d)[unat i := new]"
      "table_elems (dd_table d') = (if new = i then insert (h, i) (table_elems (dd_table d)) else table_elems (dd_table d))"
  shows "uniq d'"
proof -
  have nth: "dd_map d' ! unat j = (if j = i then new else dd_map d ! unat j)" for j
    using i d'(3) dd_okD(2) [OF ok] by (simp add: nth_list_update word_unat_eq_iff)
  have t: "in_table d' j \<longleftrightarrow> in_table d j \<or> j = i \<and> new = i" for j by (auto simp: in_table_def d'(4))
  have h: "\<forall>(h, j)\<in>table_elems (dd_table d). base_hash (dd_types d ! unat j) = Inr (Some h)" using u by (simp add: uniq_def)
  have apart: "dd_types d ! unat j \<noteq> dd_types d ! unat i" if j: "in_table d j" "new = i" "\<not> btf_is_composite (dd_types d ! unat i)" for j
  proof
    assume e: "dd_types d ! unat j = dd_types d ! unat i"
    obtain h' where "(h', j) \<in> table_elems (dd_table d)" using j(1) by (auto simp: in_table_def)
    then have "(h, j) \<in> table_elems (dd_table d)" using h hash e by auto
    then show False using new [OF j(2,3)] e by blast
  qed
  have "k = j" if "own d k" "in_table d' k" "in_table d' j" "\<not> btf_is_composite (dd_types d ! unat k)" "dd_types d ! unat k = dd_types d ! unat j" for k j
    using u apart that t unfolding uniq_def by metis
  moreover have "in_table d' k" if "unat k < ntypes d" "k \<noteq> 0" "dd_map d' ! unat k = k" "\<not> never_deduped (dd_types d ! unat k)" for k
    using u that nth t unfolding uniq_def by metis
  ultimately show ?thesis using h hash d' unfolding uniq_def by (auto split: if_splits)
qed

section \<open>Primitive types\<close>

text \<open>While primitive types are mapped, ids that are not in the canonical map are not used in it either.\<close>

definition targets_known :: "btf_dedup \<Rightarrow> bool" where
  "targets_known d \<longleftrightarrow> (\<forall>i j. map_next (dd_map d) i = Some j \<longrightarrow> known_id (dd_map d ! unat j))"

lemma unknown_no_path: "targets_known d \<Longrightarrow> \<not> known_id (dd_map d ! unat c) \<Longrightarrow> t \<noteq> c \<Longrightarrow> (t, c) \<notin> (map_edges (dd_map d))\<^sup>*"
  by (rule no_edge_no_path) (auto simp: targets_known_def)

definition is_prim :: "btf_type \<Rightarrow> bool" where
  "is_prim t \<longleftrightarrow> btf_kind t \<in> {BTF_KIND_INT, BTF_KIND_ENUM, BTF_KIND_ENUM64, BTF_KIND_FWD, BTF_KIND_FLOAT}"

text \<open>Without forward declarations, the canonical map only grows.\<close>

definition map_grows :: "btf_dedup \<Rightarrow> btf_dedup \<Rightarrow> bool" where
  "map_grows d d' \<longleftrightarrow> (no_fwd (dd_types d) \<longrightarrow> (\<forall>i :: u32. unat i < ntypes d \<longrightarrow> known_id (dd_map d ! unat i) \<longrightarrow> dd_map d' ! unat i = dd_map d ! unat i) \<and>
     (targets_known d \<longrightarrow> targets_known d'))"

lemma map_grows_refl: "map_grows d d"
  by (simp add: map_grows_def)

lemma map_grows_trans:
  assumes "map_grows d d1" "map_grows d1 d2" "advance d d1"
  shows "map_grows d d2"
  using assms advance_no_fwd [OF assms(3)] advance_ok(2) [OF assms(3)] unfolding map_grows_def by auto

text \<open>What one primitive type does to the state.\<close>

definition prim_step :: "u32 \<Rightarrow> btf_dedup \<Rightarrow> int \<Rightarrow> btf_dedup \<Rightarrow> bool" where
  "prim_step i d ret d' \<longleftrightarrow> advance d d' \<and> dd_types d' = dd_types d \<and> (\<forall>j. unat j < ntypes d \<longrightarrow> j \<noteq> i \<longrightarrow> known_id (dd_map d' ! unat j) = known_id (dd_map d ! unat j)) \<and>
     map_grows d d' \<and> (\<forall>j. in_table d' j \<longrightarrow> in_table d j \<or> j = i) \<and> ret \<le> 0 \<and> (ret = 0 \<longrightarrow> targets_known d' \<and> known_id (dd_map d' ! unat i) \<and> (uniq d \<longrightarrow> uniq d'))"

lemma settle_prim:
  assumes ok: "dd_ok d" and i: "own d i" "\<not> in_table d i" "\<not> known_id (dd_map d ! unat i)"
    and new: "unat new < ntypes d" "new = i \<or> known_id (dd_map d ! unat new) \<and> (new, i) \<notin> (map_edges (dd_map d))\<^sup>*"
    and targets: "\<And>k j. map_next (dd_map d) k = Some j \<Longrightarrow> known_id (dd_map d ! unat j) \<or> j = i"
    and sound: "no_fwd (dd_types d) \<Longrightarrow> alike (dd_types d) new i"
    and hash: "base_hash (dd_types d ! unat i) = Inr (Some h)"
    and apart: "new = i \<Longrightarrow> \<not> btf_is_composite (dd_types d ! unat i) \<Longrightarrow> (\<And>j. (h, j) \<in> table_elems (dd_table d) \<Longrightarrow> dd_types d ! unat j \<noteq> dd_types d ! unat i)"
  shows "\<exists>ret d'. settle mem h i new d = Inr (ret, d') \<and> prim_step i d ret d'"
proof -
  obtain ret d' where s: "settle mem h i new d = Inr (ret, d')" "advance d d'" "dd_types d' = dd_types d" "dd_map d' = (dd_map d)[unat i := new]"
      "ret = 0 \<longrightarrow> table_elems (dd_table d') = (if new = i then insert (h, i) (table_elems (dd_table d)) else table_elems (dd_table d))"
      "ret = 0 \<or> ret = - ENOMEM" "table_elems (dd_table d') \<subseteq> insert (h, i) (table_elems (dd_table d))"
    using settle_ok [OF ok, of i new mem h] i new sound by blast
  have len: "unat i < length (dd_map d)" using i(1) dd_okD(2) [OF ok] by simp
  have nth: "dd_map d' ! unat j = (if j = i then new else dd_map d ! unat j)" for j using len s(4) by (simp add: nth_list_update word_unat_eq_iff)
  have k: "known_id new" by (rule id_known [OF dd_okD(1) [OF ok] new(1)])
  have "targets_known d'" using new(2) targets k unfolding targets_known_def nth by (auto simp: s(4) map_next_update [OF len] split: if_splits)
  moreover have "uniq d'" if "uniq d" "ret = 0"
    by (rule uniq_settle [OF ok that(1) i(1) hash apart s(3) advance_ok(3) [OF s(2)] s(4)]) (use s(5) that(2) in auto)
  moreover have "map_grows d d'" using calculation(1) i(3) unfolding map_grows_def nth by auto
  moreover have "in_table d j \<or> j = i" if "in_table d' j" for j using that s(7) by (auto simp: in_table_def)
  ultimately show ?thesis using s(1-3,6) k by (auto simp: prim_step_def nth ENOMEM_def)
qed

lemma equal_cand_prim:
  assumes ok: "dd_ok d" and i: "own d i" "\<not> known_id (dd_map d ! unat i)" "targets_known d"
    and same: "\<And>b. typ_ok b \<Longrightarrow> equal (dd_types d ! unat i) b \<Longrightarrow> b = dd_types d ! unat i" and refl: "equal (dd_types d ! unat i) (dd_types d ! unat i)"
    and hash: "base_hash (dd_types d ! unat i) = Inr (Some h)"
  shows "\<exists>ret d'. bindR (equal_cand equal h (dd_types d ! unat i) i d) (\<lambda>new. settle mem h i new d) = Inr (ret, d') \<and> prim_step i d ret d'"
proof -
  let ?t = "dd_types d ! unat i"
  obtain c where c: "equal_cand equal h ?t i d = Inr c"
    "c = i \<and> (\<forall>j. (h, j) \<in> table_elems (dd_table d) \<longrightarrow> \<not> equal ?t (dd_types d ! unat j)) \<or> (h, c) \<in> table_elems (dd_table d) \<and> equal ?t (dd_types d ! unat c)"
    by (rule equal_cand_ok [OF ok])
  have tab: "\<not> in_table d i" by (rule unknown_not_in_table [OF ok i(2)])
  have "\<exists>ret d'. settle mem h i c d = Inr (ret, d') \<and> prim_step i d ret d'"
  proof (cases "c = i")
    case True
    then have "\<forall>j. (h, j) \<in> table_elems (dd_table d) \<longrightarrow> \<not> equal ?t (dd_types d ! unat j)" using c(2) tab in_tableI by blast
    then show ?thesis using True i(1,3) refl by (intro settle_prim [OF ok i(1) tab i(2) _ _ _ _ hash]) (auto simp: alike_def targets_known_def)
  next
    case False
    then have e: "(h, c) \<in> table_elems (dd_table d)" "equal ?t (dd_types d ! unat c)" using c(2) by auto
    note f = elem_facts [OF ok e(1)]
    have "dd_types d ! unat c = ?t" by (rule same [OF types_okD(1) [OF dd_okD(1) [OF ok] f(1)] e(2)])
    then have "alike (dd_types d) c i" using same_type_alike [OF f(1)] i(1) by (simp add: alike_def)
    then show ?thesis using False f i(3) unknown_no_path [OF i(3,2) False] by (intro settle_prim [OF ok i(1) tab i(2) _ _ _ _ hash]) (auto simp: targets_known_def)
  qed
  then show ?thesis using c(1) by simp
qed

text \<open>
  Enumerations: forward declarations among the candidates are redirected to the type, until an equal candidate ends the search. A type that is
  a forward declaration itself takes the first candidate that fits.
\<close>

definition enum_step :: "u32 \<Rightarrow> btf_dedup \<Rightarrow> btf_dedup \<Rightarrow> bool" where
  "enum_step i d d' \<longleftrightarrow> advance d d' \<and> dd_types d' = dd_types d \<and> dd_table d' = dd_table d \<and>
     (\<forall>j. unat j < ntypes d \<longrightarrow> known_id (dd_map d' ! unat j) = known_id (dd_map d ! unat j) \<and> (dd_map d' ! unat j = dd_map d ! unat j \<or> dd_map d' ! unat j = i \<and> j \<noteq> i)) \<and>
     (\<forall>k j. map_next (dd_map d') k = Some j \<longrightarrow> known_id (dd_map d' ! unat j) \<or> j = i) \<and> (no_fwd (dd_types d) \<longrightarrow> dd_map d' = dd_map d)"

lemma enum_step_trans:
  assumes "enum_step i d d1" "enum_step i d1 d2"
  shows "enum_step i d d2"
proof -
  have "advance d d2" using assms advance_trans by (auto simp: enum_step_def)
  then show ?thesis using assms unfolding enum_step_def by (smt (verit))
qed

lemma enum_redirect:
  assumes ok: "dd_ok d" and i: "own d i" "\<not> known_id (dd_map d ! unat i)" and c: "(h, c) \<in> table_elems (dd_table d)" "fwdish (dd_types d ! unat c)"
    and targets: "\<forall>k j. map_next (dd_map d) k = Some j \<longrightarrow> known_id (dd_map d ! unat j) \<or> j = i"
  obtains d1 where "set_map c i d = Inr d1" "enum_step i d d1"
proof -
  let ?d = "d\<lparr>dd_map := (dd_map d)[unat c := i]\<rparr>"
  note f = elem_facts [OF ok c(1)]
  have ic: "i \<noteq> c" using f(2) i(2) by auto
  have root: "map_next (dd_map d) i = None" using i(2) by (auto simp: map_next_def)
  have k: "known_id i" using id_known [OF dd_okD(1) [OF ok]] i(1) by blast
  have nf: "\<not> no_fwd (dd_types d)" using c(2) f(1) nth_mem by (auto simp: no_fwd_def)
  have "(i, c) \<notin> (map_edges (dd_map d))\<^sup>*" by (rule root_no_path [OF root ic])
  then have s: "set_map c i d = Inr ?d" "advance d ?d" using i(1) k c(2) nf by (intro set_map_ok [OF ok f(1)]; auto)+
  have len: "unat c < length (dd_map d)" using f(1) dd_okD(2) [OF ok] by simp
  have nth: "dd_map ?d ! unat j = (if j = c then i else dd_map d ! unat j)" for j using len by (simp add: nth_list_update word_unat_eq_iff)
  have "map_next (dd_map ?d) x = Some j \<longrightarrow> known_id (dd_map ?d ! unat j) \<or> j = i" for x j
    unfolding nth using targets k by (auto simp: map_next_update [OF len] split: if_splits)
  then have "enum_step i d ?d" unfolding enum_step_def nth using s(2) f(2) k ic nf by auto
  with s(1) show ?thesis by (rule that)
qed

lemma enum_cands_ok:
  assumes ok: "dd_ok d" and i: "own d i" "\<not> known_id (dd_map d ! unat i)" and targets: "\<forall>k j. map_next (dd_map d) k = Some j \<longrightarrow> known_id (dd_map d ! unat j) \<or> j = i"
    and cs: "\<forall>c\<in>set cs. (h, c) \<in> table_elems (dd_table d)"
    and fits: "\<And>b. fits t b \<Longrightarrow> \<not> equal t b \<Longrightarrow> \<not> btf_is_enum_fwd t \<Longrightarrow> fwdish b"
  shows "\<exists>new d'. enum_cands equal fits t i cs d = Inr (new, d') \<and> enum_step i d d' \<and>
    (new = i \<and> (\<forall>c\<in>set cs. \<not> equal t (dd_types d ! unat c)) \<or> new \<in> set cs \<and> (equal t (dd_types d ! unat new) \<or> btf_is_enum_fwd t) \<and> (btf_is_enum_fwd t \<longrightarrow> d' = d))"
  using ok i targets cs
proof (induction cs arbitrary: d)
  case Nil
  then show ?case using advance_refl by (auto simp: enum_step_def)
next
  case (Cons c cs)
  let ?c = "dd_types d ! unat c"
  have e: "(h, c) \<in> table_elems (dd_table d)" using Cons.prems(5) by simp
  have c: "at_id (dd_types d) c = Inr ?c" using elem_facts(1) [OF Cons.prems(1) e] by simp
  have refl: "enum_step i d d" using Cons.prems advance_refl by (auto simp: enum_step_def)
  consider (stop) "equal t ?c \<or> fits t ?c \<and> btf_is_enum_fwd t" | (redirect) "\<not> equal t ?c" "fits t ?c" "\<not> btf_is_enum_fwd t" | (skip) "\<not> equal t ?c" "\<not> fits t ?c" by blast
  then show ?case
  proof cases
    case stop
    then have run: "enum_cands equal fits t i (c # cs) d = Inr (c, d)" using c by auto
    show ?thesis unfolding run using stop refl by auto
  next
    case redirect
    obtain d1 where d1: "set_map c i d = Inr d1" "enum_step i d d1"
      by (rule enum_redirect [OF Cons.prems(1-3) e fits [OF redirect(2,1,3)] Cons.prems(4)])
    then have s: "dd_ok d1" "dd_types d1 = dd_types d" "dd_table d1 = dd_table d" "dd_start_id d1 = dd_start_id d" "\<not> known_id (dd_map d1 ! unat i)"
        "\<forall>k j. map_next (dd_map d1) k = Some j \<longrightarrow> known_id (dd_map d1 ! unat j) \<or> j = i"
      using Cons.prems(2,3) advance_ok by (auto simp: enum_step_def)
    have "own d1 i" "\<forall>c\<in>set cs. (h, c) \<in> table_elems (dd_table d1)" using s Cons.prems(2,5) by auto
    from Cons.IH [OF s(1) this(1) s(5,6) this(2)] redirect(3) obtain new d' where
      "enum_cands equal fits t i cs d1 = Inr (new, d')" "enum_step i d1 d'"
      "new = i \<and> (\<forall>c\<in>set cs. \<not> equal t (dd_types d ! unat c)) \<or> new \<in> set cs \<and> equal t (dd_types d ! unat new)" unfolding s(2) by blast
    moreover have run: "enum_cands equal fits t i (c # cs) d = enum_cands equal fits t i cs d1" using c d1(1) redirect by (simp del: bindR_eq_Inr)
    ultimately show ?thesis unfolding run using redirect enum_step_trans [OF d1(2)] by auto
  next
    case skip
    then have run: "enum_cands equal fits t i (c # cs) d = enum_cands equal fits t i cs d" using c by (simp del: bindR_eq_Inr)
    show ?thesis unfolding run using Cons.IH [OF Cons.prems(1-4)] Cons.prems(5) skip by auto
  qed
qed

lemma enum_prim:
  assumes ok: "dd_ok d" and i: "own d i" "\<not> known_id (dd_map d ! unat i)" "targets_known d"
    and same: "\<And>b. typ_ok b \<Longrightarrow> equal (dd_types d ! unat i) b \<Longrightarrow> b = dd_types d ! unat i" and refl: "equal (dd_types d ! unat i) (dd_types d ! unat i)"
    and fits: "\<And>b. fits (dd_types d ! unat i) b \<Longrightarrow> \<not> equal (dd_types d ! unat i) b \<Longrightarrow> \<not> btf_is_enum_fwd (dd_types d ! unat i) \<Longrightarrow> fwdish b"
    and fwd: "fwdish (dd_types d ! unat i) = btf_is_enum_fwd (dd_types d ! unat i)"
    and hash: "base_hash (dd_types d ! unat i) = Inr (Some h)"
  shows "\<exists>ret d'. bindR (dedup_cands d h) (\<lambda>cs. bindR (enum_cands equal fits (dd_types d ! unat i) i cs d) (\<lambda>(new, d). settle mem h i new d)) = Inr (ret, d') \<and> prim_step i d ret d'"
proof -
  let ?t = "dd_types d ! unat i"
  obtain cs where cs: "dedup_cands d h = Inr cs" "set cs = {i. (h, i) \<in> table_elems (dd_table d)}" by (rule dedup_cands_ok [OF ok])
  have t: "\<forall>k j. map_next (dd_map d) k = Some j \<longrightarrow> known_id (dd_map d ! unat j) \<or> j = i" using i(3) by (auto simp: targets_known_def)
  obtain new d1 where e: "enum_cands equal fits ?t i cs d = Inr (new, d1)" "enum_step i d d1"
      "new = i \<and> (\<forall>c\<in>set cs. \<not> equal ?t (dd_types d ! unat c)) \<or> new \<in> set cs \<and> (equal ?t (dd_types d ! unat new) \<or> btf_is_enum_fwd ?t) \<and> (btf_is_enum_fwd ?t \<longrightarrow> d1 = d)"
    using enum_cands_ok [where fits = fits and equal = equal and t = ?t and h = h, OF ok i(1,2) t _ fits] cs(2) by blast
  have s: "advance d d1" "dd_ok d1" "dd_types d1 = dd_types d" "dd_table d1 = dd_table d" "dd_start_id d1 = dd_start_id d"
      "\<And>k j. map_next (dd_map d1) k = Some j \<Longrightarrow> known_id (dd_map d1 ! unat j) \<or> j = i"
      "\<And>j. unat j < ntypes d \<Longrightarrow> known_id (dd_map d1 ! unat j) = known_id (dd_map d ! unat j) \<and> (dd_map d1 ! unat j = dd_map d ! unat j \<or> dd_map d1 ! unat j = i \<and> j \<noteq> i)"
    using e(2) advance_ok by (auto simp: enum_step_def)
  have tab: "\<not> in_table d1 i" using unknown_not_in_table [OF ok i(2)] s(4) by (simp add: in_table_def)
  have own: "own d1 i" and new1: "\<not> known_id (dd_map d1 ! unat i)" using i(1,2) s by simp_all
  have "\<exists>ret d'. settle mem h i new d1 = Inr (ret, d') \<and> prim_step i d1 ret d'"
  proof (cases "new = i")
    case True
    then have "\<forall>j. (h, j) \<in> table_elems (dd_table d1) \<longrightarrow> \<not> equal ?t (dd_types d1 ! unat j)" using e(3) cs(2) s(3,4) tab in_tableI by auto
    then show ?thesis using True own refl hash s(3,6) by (intro settle_prim [OF s(2) own tab new1]) (auto simp: alike_def)
  next
    case False
    then have n: "(h, new) \<in> table_elems (dd_table d1)" "equal ?t (dd_types d ! unat new) \<or> btf_is_enum_fwd ?t" "btf_is_enum_fwd ?t \<longrightarrow> d1 = d" using e(3) cs(2) s(4) by auto
    note f = elem_facts [OF s(2) n(1)]
    have eq: "dd_types d ! unat new = ?t" if "equal ?t (dd_types d ! unat new)" using same [OF types_okD(1) [OF dd_okD(1) [OF ok]] that] f(1) s(3) by simp
    have "(new, i) \<notin> (map_edges (dd_map d1))\<^sup>*"
    proof (cases "btf_is_enum_fwd ?t")
      case True
      then show ?thesis using n(3) unknown_no_path [OF i(3,2) False] by simp
    next
      case nf: False
      then have "map_next (dd_map d1) new = None" using f(3) eq n(2) fwd s(3) by simp
      then show ?thesis using False by (rule root_no_path)
    qed
    moreover have "alike (dd_types d1) new i" if "no_fwd (dd_types d1)"
    proof -
      have "\<not> btf_is_enum_fwd ?t" using that fwd i(1) s(3) by (simp add: no_fwd_def)
      then show ?thesis using n(2) eq same_type_alike [of new "dd_types d" i] f(1) i(1) s(3) by (simp add: alike_def)
    qed
    ultimately show ?thesis using False f own hash s(3,6) by (intro settle_prim [OF s(2) own tab new1]) auto
  qed
  then obtain ret d' where r: "settle mem h i new d1 = Inr (ret, d')" "prim_step i d1 ret d'" by blast
  have "uniq d1" if "uniq d" by (rule uniq_frame [OF that s(4)]) (use s in force)+
  moreover have "map_grows d d1" using e(2) by (auto simp: enum_step_def map_grows_def targets_known_def)
  moreover have "in_table d1 j = in_table d j" for j using s(4) by (simp add: in_table_def)
  ultimately have "prim_step i d ret d'" using r(2) s advance_trans map_grows_trans [of d d1 d'] unfolding prim_step_def by auto
  then show ?thesis using cs(1) e(1) r(1) by (simp del: bindR_eq_Inr)
qed

text \<open>A step of the pass over primitive types.\<close>

lemma prim_type_ok:
  assumes ok: "dd_ok d" and i: "own d i" "is_prim (dd_types d ! unat i) \<Longrightarrow> \<not> known_id (dd_map d ! unat i)" "targets_known d"
  shows "\<exists>ret d'. btf_dedup_prim_type mem i d = Inr (ret, d') \<and> (prim_step i d ret d' \<and> is_prim (dd_types d ! unat i) \<or> \<not> is_prim (dd_types d ! unat i) \<and> d' = d)"
proof -
  let ?t = "dd_types d ! unat i" let ?k = "btf_kind ?t"
  have t: "typ_ok ?t" using types_okD(1) [OF dd_okD(1) [OF ok]] i(1) by blast
  have at: "at_id (dd_types d) i = Inr ?t" using i(1) by simp
  note run = btf_dedup_prim_type_def [of mem i d, unfolded at bindR.simps Let_def]
  consider (int) "?k = BTF_KIND_INT" | (enum) "?k = BTF_KIND_ENUM" | (enum64) "?k = BTF_KIND_ENUM64" | (common) "?k \<in> {BTF_KIND_FWD, BTF_KIND_FLOAT}" | (other) "\<not> is_prim ?t"
    by (auto simp: is_prim_def)
  then show ?thesis
  proof cases
    case int
    have new: "\<not> known_id (dd_map d ! unat i)" using i(2) int by (simp add: is_prim_def)
    have same: "b = ?t" if "typ_ok b" "btf_equal_int_tag ?t b" for b using equal_int_tag_same [OF that(2) t that(1)] words_len(2) [OF t] int by simp
    have "base_hash ?t = Inr (Some (btf_hash_int_decl_tag ?t))" using int by (simp add: base_hash_def btf_kinds)
    from equal_cand_prim [where equal = btf_equal_int_tag and mem = mem, OF ok i(1) new i(3) same _ this] show ?thesis
      using int by (auto simp: run btf_kinds is_prim_def btf_equal_int_tag_def btf_equal_common_def simp del: bindR_eq_Inr)
  next
    case enum
    have new: "\<not> known_id (dd_map d ! unat i)" using i(2) enum by (simp add: is_prim_def)
    have same: "b = ?t" if "typ_ok b" "btf_equal_enum ?t b" for b using equal_enum_same [OF that(2) t that(1) enum] by simp
    have fits: "fwdish b" if "btf_compat_enum ?t b" "\<not> btf_equal_enum ?t b" "\<not> btf_is_enum_fwd ?t" for b using that by (auto simp: btf_compat_enum_def fwdish_def split: if_splits)
    have fwd: "fwdish ?t = btf_is_enum_fwd ?t" using enum by (simp add: fwdish_def btf_is_fwd_def btf_kinds)
    have "base_hash ?t = Inr (Some (btf_hash_enum ?t))" using enum by (simp add: base_hash_def btf_kinds)
    from enum_prim [where equal = btf_equal_enum and fits = btf_compat_enum and mem = mem, OF ok i(1) new i(3) same _ fits fwd this] show ?thesis
      using enum by (auto simp: run btf_kinds is_prim_def btf_equal_enum_def btf_equal_common_def list.rel_eq simp del: bindR_eq_Inr)
  next
    case enum64
    have new: "\<not> known_id (dd_map d ! unat i)" using i(2) enum64 by (simp add: is_prim_def)
    have same: "b = ?t" if "typ_ok b" "btf_equal_enum64 ?t b" for b using equal_enum64_same [OF that(2) t that(1) enum64] by simp
    have fits: "fwdish b" if "btf_compat_enum64 ?t b" "\<not> btf_equal_enum64 ?t b" "\<not> btf_is_enum_fwd ?t" for b using that by (auto simp: btf_compat_enum64_def fwdish_def split: if_splits)
    have fwd: "fwdish ?t = btf_is_enum_fwd ?t" using enum64 by (simp add: fwdish_def btf_is_fwd_def btf_kinds)
    have "base_hash ?t = Inr (Some (btf_hash_enum ?t))" using enum64 by (simp add: base_hash_def btf_kinds)
    from enum_prim [where equal = btf_equal_enum64 and fits = btf_compat_enum64 and mem = mem, OF ok i(1) new i(3) same _ fits fwd this] show ?thesis
      using enum64 by (auto simp: run btf_kinds is_prim_def btf_equal_enum64_def btf_equal_common_def list.rel_eq simp del: bindR_eq_Inr)
  next
    case common
    have new: "\<not> known_id (dd_map d ! unat i)" using i(2) common by (auto simp: is_prim_def)
    have same: "b = ?t" if "typ_ok b" "btf_equal_common ?t b" for b using equal_common_same [OF that(2) t that(1)] words_len(1) [OF t] common by auto
    have "base_hash ?t = Inr (Some (btf_hash_common ?t))" using common by (auto simp: base_hash_def btf_kinds)
    from equal_cand_prim [where equal = btf_equal_common and mem = mem, OF ok i(1) new i(3) same _ this] show ?thesis
      using common by (auto simp: run btf_kinds is_prim_def btf_equal_common_def simp del: bindR_eq_Inr)
  next
    case other
    then have "btf_dedup_prim_type mem i d = Inr (0, d) \<or> btf_dedup_prim_type mem i d = Inr (- EINVAL, d)" by (simp add: run is_prim_def)
    then show ?thesis using other by auto
  qed
qed

section \<open>The first passes\<close>

text \<open>Before the ids from \<open>k\<close> on are entered as base types.\<close>

definition prep_inv :: "nat \<Rightarrow> btf_dedup \<Rightarrow> bool" where
  "prep_inv k d \<longleftrightarrow> dd_ok d \<and> targets_known d \<and> uniq d \<and> (\<forall>j :: u32. unat j < k \<longrightarrow> dd_map d ! unat j = j) \<and> (\<forall>j. in_table d j \<longrightarrow> unat j < k) \<and>
     (\<forall>j. own d j \<longrightarrow> is_prim (dd_types d ! unat j) \<longrightarrow> \<not> known_id (dd_map d ! unat j))"

lemma not_known: "\<not> known_id BTF_UNPROCESSED_ID" "\<not> known_id BTF_IN_PROGRESS_ID" "BTF_UNPROCESSED_ID \<noteq> BTF_IN_PROGRESS_ID"
  by code_simp+

lemma first_map_nth:
  fixes i :: u32
  assumes "types_ok ts" "unat i < length ts"
  shows "first_map ts ! unat i = (if i = 0 \<or> never_deduped (ts ! unat i) then i else BTF_UNPROCESSED_ID)"
  using assms(2) by (auto simp: first_map_def never_deduped_def unat_eq_0)

lemma dedup_new_ok:
  assumes new: "btf_dedup_new ok1 ok2 ok3 ok4 collide ts start = Inr d" and ts: "types_ok ts" "1 \<le> start" "start \<le> length ts"
  shows "prep_inv 1 d" "dd_types d = ts" "dd_start_id d = start"
proof -
  have d: "dd_types d = ts" "dd_start_id d = start" "dd_map d = first_map ts" "dd_table d = hashmap__init" "dd_collide d = collide"
      "dd_hypot_map d = replicate (length ts) BTF_UNPROCESSED_ID" "dd_hypot_list d = []"
    using new by (auto simp: btf_dedup_new_def split: if_splits)
  show "dd_types d = ts" "dd_start_id d = start" by (rule d)+
  note u = not_known(1)
  have len: "length (first_map ts) = length ts" by (simp add: first_map_def)
  note nth = first_map_nth [OF ts(1)]
  have none: "map_next (first_map ts) i = None" for i using nth [of i] u len by (auto simp: map_next_def split: if_splits)
  have k: "unat (first_map ts ! i) < length ts" if "i < length ts" "known_id (first_map ts ! i)" for i
    using nth [of "of_nat i"] unat_id [OF ts(1) that(1)] that u by (auto split: if_splits)
  have "hypot_ok d" using u unfolding hypot_ok_def d by simp
  moreover have "map_ok (first_map ts)" using k len none by (auto simp: map_ok_def map_edges_def acyclic_def)
  moreover have tab: "table_elems hashmap__init = {}" by (simp add: hashmap__init_def hashmap_entries_def)
  moreover have "hm_inv (dedup_hash_fn collide) hashmap__init" by (simp add: hashmap__init_def hm_inv_def)
  moreover have "map_sound ts (first_map ts)" using nth len u by (auto simp: map_sound_def alike_def)
  ultimately have "dd_ok d" using ts len unfolding dd_ok_def d by simp
  moreover have "uniq d" using nth ts(2) u id_known [OF ts(1)] by (auto simp: uniq_def d tab in_table_def split: if_splits)
  moreover have "\<not> never_deduped t" if "is_prim t" for t
    using that by (auto simp: is_prim_def never_deduped_def btf_is_var_def btf_is_datasec_def btf_kinds)
  moreover have "first_map ts ! 0 = 0" using nth [of 0] ts(1) by (simp add: types_ok_def)
  ultimately show "prep_inv 1 d" using nth ts(1,2) u none by (auto simp: prep_inv_def d targets_known_def in_table_def tab types_ok_def unat_eq_0 known_id_def)
qed

text \<open>A base type is its own canonical type, and a candidate unless it is never deduplicated.\<close>

lemma prep_uniq:
  assumes inv: "prep_inv k d" and k: "k < dd_start_id d" "unat i = k"
    and d': "dd_types d' = dd_types d" "dd_start_id d' = dd_start_id d" "dd_map d' = (dd_map d)[unat i := i]" "table_elems (dd_table d') = E \<union> table_elems (dd_table d)"
    and E: "E = {} \<and> never_deduped (dd_types d ! unat i) \<or> E = {(h, i)} \<and> base_hash (dd_types d ! unat i) = Inr (Some h)"
  shows "uniq d'"
proof -
  have u: "uniq d" and ok: "dd_ok d" using inv by (simp_all add: prep_inv_def)
  have nth: "dd_map d' ! unat j = (if j = i then i else dd_map d ! unat j)" for j
    using k d'(3) dd_okD(2,7) [OF ok] by (simp add: nth_list_update word_unat_eq_iff)
  have t: "in_table d' j \<longleftrightarrow> in_table d j \<or> j = i \<and> E \<noteq> {}" for j using E by (auto simp: in_table_def d'(4))
  have "\<not> own d j" if "in_table d' j" for j using that inv k t by (auto simp: prep_inv_def)
  moreover have "in_table d' j" if "unat j < ntypes d" "j \<noteq> 0" "dd_map d' ! unat j = j" "\<not> never_deduped (dd_types d ! unat j)" for j
    using uniqD(3) [OF u that(1,2) _ that(4)] that(3,4) t E unfolding nth by (cases "j = i") auto
  moreover have "base_hash (dd_types d ! unat j) = Inr (Some x)" if "(x, j) \<in> table_elems (dd_table d')" for x j
    using uniqD(1) [OF u] that E by (auto simp: d'(4))
  ultimately show ?thesis unfolding uniq_def d'(1,2) by blast
qed

lemma prep_type_ok:
  assumes inv: "prep_inv k d" and k: "k < dd_start_id d"
  shows "\<exists>ret d'. prep_type mem (of_nat k) d = Inr (ret, d') \<and> advance d d' \<and> dd_types d' = dd_types d \<and> (0 \<le> ret \<longrightarrow> prep_inv (Suc k) d')"
proof -
  define i :: u32 where "i = of_nat k"
  have ok: "dd_ok d" using inv by (simp add: prep_inv_def)
  have u: "unat i = k" using unat_id [OF dd_okD(1) [OF ok]] k dd_okD(7) [OF ok] by (simp add: i_def)
  have i: "unat i < ntypes d" "\<not> own d i" using k u dd_okD(7) [OF ok] by auto
  have ki: "known_id i" by (rule id_known [OF dd_okD(1) [OF ok] i(1)])
  have tab: "\<not> in_table d i" using inv u by (auto simp: prep_inv_def)
  let ?t = "dd_types d ! unat i" let ?d = "d\<lparr>dd_map := (dd_map d)[unat i := i]\<rparr>"
  have s: "set_map i i d = Inr ?d" "advance d ?d" using i(1) ki tab by (intro set_map_ok [OF ok i(1)]; simp add: alike_def)+
  have len: "unat i < length (dd_map d)" using i(1) dd_okD(2) [OF ok] by simp
  have nth: "(dd_map d)[unat i := i] ! unat j = (if j = i then i else dd_map d ! unat j)" for j using len by (simp add: nth_list_update word_unat_eq_iff)
  have "targets_known ?d" using inv ki by (auto simp: prep_inv_def targets_known_def nth map_next_update [OF len] split: if_splits)
  moreover have below: "j = i \<or> unat j < k" if "unat j < Suc k" for j using that u by (metis less_SucE word_unat_eq_iff)
  ultimately have inv1: "targets_known ?d" "\<forall>j :: u32. unat j < Suc k \<longrightarrow> dd_map ?d ! unat j = j" "\<forall>j. in_table ?d j \<longrightarrow> unat j < k"
      "\<forall>j. own ?d j \<longrightarrow> is_prim (dd_types ?d ! unat j) \<longrightarrow> \<not> known_id (dd_map ?d ! unat j)"
    using inv i(2) ki by (auto simp: prep_inv_def nth in_table_def split: if_splits)
  have run: "prep_type mem (of_nat k) d = (case base_hash ?t of Inl err \<Rightarrow> Inr (err, ?d) | Inr None \<Rightarrow> Inr (0, ?d)
      | Inr (Some h) \<Rightarrow> bindR (btf_dedup_table_add mem h i ?d) (\<lambda>(err, d). Inr (if err \<noteq> 0 then - ENOMEM else 0, d)))"
    using i(1) s(1) by (simp add: prep_type_def i_def [symmetric] del: bindR_eq_Inr)
  have ok1: "dd_ok ?d" by (rule advance_ok [OF s(2)])
  consider (bad) err where "base_hash ?t = Inl err" | (none) "base_hash ?t = Inr None" | (hash) h where "base_hash ?t = Inr (Some h)"
    by (cases "base_hash ?t"; force)
  then show ?thesis
  proof cases
    case bad
    then have "err < 0" by (auto simp: base_hash_def Let_def EINVAL_def split: if_splits)
    then show ?thesis using bad s(2) by (simp add: run)
  next
    case none
    then have "never_deduped ?t" by (auto simp: base_hash_def Let_def never_deduped_def btf_is_var_def btf_is_datasec_def split: if_splits)
    then have "uniq ?d" using prep_uniq [OF inv k u, of ?d "{}"] by simp
    then have "prep_inv (Suc k) ?d" using ok1 inv1 by (auto simp: prep_inv_def)
    then show ?thesis using none s(2) by (simp add: run)
  next
    case hash
    have "map_next (dd_map ?d) i = None" using map_next_update [OF len, of i i] by simp
    then obtain err d' where a: "btf_dedup_table_add mem h i ?d = Inr (err, d')" "advance ?d d'" "dd_types d' = dd_types d" "dd_map d' = dd_map ?d"
        "err = 0 \<and> table_elems (dd_table d') = insert (h, i) (table_elems (dd_table d)) \<or> err = - ENOMEM"
      using table_add_ok [OF ok1, of i mem h] i(1) len ki by (auto simp: nth)
    have "prep_inv (Suc k) d'" if "err = 0"
    proof -
      have e: "table_elems (dd_table d') = insert (h, i) (table_elems (dd_table d))" "dd_start_id d' = dd_start_id d" using a(5) that advance_ok(3) [OF a(2)] by (auto simp: ENOMEM_def)
      have t: "in_table d' j \<longleftrightarrow> in_table d j \<or> j = i" for j by (auto simp: in_table_def e(1))
      have "uniq d'" using prep_uniq [OF inv k u, of d' "{(h, i)}" h] a(3,4) e hash by simp
      moreover have "targets_known d'" using inv1(1) a(4) by (simp add: targets_known_def)
      ultimately show ?thesis using inv1 a(3,4) e(2) t u advance_ok(1) [OF a(2)] by (auto simp: prep_inv_def less_Suc_eq in_table_def)
    qed
    then show ?thesis using hash a(1,3) advance_trans [OF s(2) a(2)] by (auto simp: run ENOMEM_def)
  qed
qed

lemma prep_ok:
  assumes "prep_inv 1 d"
  shows "\<exists>ret d'. btf_dedup_prep mem d = Inr (ret, d') \<and> advance d d' \<and> (0 \<le> ret \<longrightarrow> ret = 0 \<and> dd_types d' = dd_types d \<and> prep_inv (dd_start_id d') d')"
proof -
  let ?I = "\<lambda>k d'. prep_inv k d' \<and> dd_start_id d' = dd_start_id d \<and> dd_types d' = dd_types d"
  have "\<exists>ret d'. each_id (prep_type mem) [1..<dd_start_id d] d = Inr (ret, d') \<and> advance d d' \<and> (0 \<le> ret \<longrightarrow> ret = 0 \<and> ?I (dd_start_id d) d')"
  proof (rule each_id_ok [where I = ?I])
    fix k d1 assume "(1 :: nat) \<le> k" "k < dd_start_id d" "?I k d1"
    then show "\<exists>ret d'. prep_type mem (of_nat k) d1 = Inr (ret, d') \<and> advance d1 d' \<and> (0 \<le> ret \<longrightarrow> ?I (Suc k) d')"
      using prep_type_ok [of k d1 mem] advance_ok(3) [of d1] by metis
  qed (use assms in \<open>auto simp: prep_inv_def dd_ok_def\<close>)
  then show ?thesis by (auto simp: btf_dedup_prep_def)
qed

text \<open>
  What holds between the types of a pass: the base is known. Without forward declarations, the base is its own canonical map, and the candidates of the instance
  other than structures and unions refer to canonical types.
\<close>

definition canonical :: "btf_dedup \<Rightarrow> btf_type \<Rightarrow> bool" where
  "canonical d t \<longleftrightarrow> btf_is_composite t \<or> (\<forall>r\<in>set (ref_ids t). dd_map d ! unat r = r)"

definition pass_inv :: "btf_dedup \<Rightarrow> bool" where
  "pass_inv d \<longleftrightarrow> dd_ok d \<and> uniq d \<and> (\<forall>j :: u32. unat j < dd_start_id d \<longrightarrow> known_id (dd_map d ! unat j)) \<and> (no_fwd (dd_types d) \<longrightarrow> targets_known d \<and> (\<forall>j :: u32. unat j < dd_start_id d \<longrightarrow> dd_map d ! unat j = j) \<and>
     (\<forall>i. own d i \<longrightarrow> in_table d i \<longrightarrow> canonical d (dd_types d ! unat i)))"

lemma pass_invD:
  assumes "pass_inv d"
  shows "dd_ok d" "uniq d" "no_fwd (dd_types d) \<Longrightarrow> own d i \<Longrightarrow> in_table d i \<Longrightarrow> canonical d (dd_types d ! unat i)"
  using assms unfolding pass_inv_def by blast+

lemma pass_inv_step:
  assumes inv: "pass_inv d" and a: "advance d d'" and k: "map_grows d d'" and u: "uniq d'"
    and table: "\<And>j. in_table d' j \<Longrightarrow> in_table d j \<or> (no_fwd (dd_types d') \<longrightarrow> canonical d' (dd_types d' ! unat j))"
  shows "pass_inv d'"
proof -
  have ok: "dd_ok d" using inv by (simp add: pass_inv_def)
  have self: "dd_map d' ! unat r = r" if "no_fwd (dd_types d)" "unat r < ntypes d" "dd_map d ! unat r = r" for r
    using k that id_known [OF dd_okD(1) [OF ok] that(2)] by (simp add: map_grows_def)
  have "targets_known d' \<and> (\<forall>j :: u32. unat j < dd_start_id d' \<longrightarrow> dd_map d' ! unat j = j) \<and>
     (\<forall>i. own d' i \<longrightarrow> in_table d' i \<longrightarrow> canonical d' (dd_types d' ! unat i))" if nf: "no_fwd (dd_types d')"
  proof (intro conjI allI impI)
    have nf': "no_fwd (dd_types d)" using nf advance_no_fwd [OF a] by simp
    show "targets_known d'" using k inv nf' by (simp add: map_grows_def pass_inv_def)
    show "dd_map d' ! unat j = j" if "unat j < dd_start_id d'" for j :: u32
      using that self [OF nf'] inv nf' dd_okD(7) [OF ok] advance_ok(3) [OF a] by (simp add: pass_inv_def)
    fix i assume i: "own d' i" "in_table d' i"
    show "canonical d' (dd_types d' ! unat i)"
    proof (cases "in_table d i")
      case True
      have i': "unat i < ntypes d" "own d i" using i(1) advance_ok(2,3) [OF a] by auto
      have "known_id (dd_map d ! unat i)" using True elem_facts(2) [OF ok] by (auto simp: in_table_def)
      then have "dd_types d' ! unat i = dd_types d ! unat i" by (rule advance_known [OF a i'(1)])
      moreover have "canonical d (dd_types d ! unat i)" using inv nf' i'(2) True by (simp add: pass_inv_def)
      ultimately show ?thesis using self [OF nf'] types_okD(2) [OF dd_okD(1) [OF ok] i'(1)] by (auto simp: canonical_def)
    next
      case False
      then show ?thesis using table [OF i(2)] nf by simp
    qed
  qed
  moreover have "known_id (dd_map d' ! unat j)" if "unat j < dd_start_id d'" for j :: u32
    using that inv advance_known(1) [OF a, of j] advance_ok(3) [OF a] dd_okD(7) [OF ok] by (simp add: pass_inv_def)
  ultimately show ?thesis using u advance_ok(1) [OF a] unfolding pass_inv_def by blast
qed

text \<open>A pass over the types of the instance.\<close>

lemma pass_ok:
  assumes inv: "pass_inv d" and step: "\<And>d i. pass_inv d \<Longrightarrow> own d i \<Longrightarrow> \<exists>ret d'. f i d = Inr (ret, d') \<and> advance d d' \<and> (0 \<le> ret \<longrightarrow> pass_inv d')"
  shows "\<exists>ret d'. each_id f (own_ids d) d = Inr (ret, d') \<and> advance d d' \<and> (0 \<le> ret \<longrightarrow> ret = 0 \<and> pass_inv d')"
proof -
  let ?I = "\<lambda>k d'. pass_inv d' \<and> dd_start_id d' = dd_start_id d \<and> ntypes d' = ntypes d"
  have ok: "dd_ok d1" if "pass_inv d1" for d1 using that by (simp add: pass_inv_def)
  have "\<exists>ret d'. each_id f (own_ids d) d = Inr (ret, d') \<and> advance d d' \<and> (0 \<le> ret \<longrightarrow> ret = 0 \<and> ?I (ntypes d) d')"
  proof (rule each_id_ok [where I = ?I])
    fix k d1 assume k: "dd_start_id d \<le> k" "k < ntypes d" and I: "?I k d1"
    have "own d1 (of_nat k)" using k I unat_id [OF dd_okD(1) [OF ok], of d1 k] by simp
    then show "\<exists>ret d'. f (of_nat k) d1 = Inr (ret, d') \<and> advance d1 d' \<and> (0 \<le> ret \<longrightarrow> ?I (Suc k) d')"
      using step [of d1 "of_nat k"] I advance_ok(2,3) [of d1] by metis
  qed (use inv ok dd_okD(7) in auto)
  then show ?thesis by blast
qed

text \<open>The primitive types from \<open>k\<close> on are not yet known.\<close>

definition prim_inv :: "nat \<Rightarrow> btf_dedup \<Rightarrow> bool" where
  "prim_inv k d \<longleftrightarrow> pass_inv d \<and> targets_known d \<and> (\<forall>j. own d j \<longrightarrow> k \<le> unat j \<longrightarrow> is_prim (dd_types d ! unat j) \<longrightarrow> \<not> known_id (dd_map d ! unat j))"

lemma prim_inv_step:
  assumes inv: "prim_inv k d" and i: "unat i = k" and s: "prim_step i d 0 d'" "is_prim (dd_types d ! unat i)" "own d i"
  shows "prim_inv (Suc k) d'"
proof -
  have a: "advance d d'" "dd_types d' = dd_types d" "dd_start_id d' = dd_start_id d" using s advance_ok(3) by (auto simp: prim_step_def)
  have "uniq d'" "targets_known d'" "map_grows d d'" using s inv by (auto simp: prim_step_def prim_inv_def pass_inv_def)
  moreover have "canonical d' (dd_types d' ! unat i)" if "no_fwd (dd_types d')"
  proof -
    have "\<not> fwdish (dd_types d ! unat i)" using that a(2) s(3) by (simp add: no_fwd_def)
    then have "ref_ids (dd_types d ! unat i) = []" using s(2) ref_ids_kind(5) [of "dd_types d ! unat i"] by (auto simp: is_prim_def fwdish_def btf_is_fwd_def)
    then show ?thesis using a(2) by (simp add: canonical_def)
  qed
  ultimately have "pass_inv d'" using inv s(1) by (intro pass_inv_step [OF _ a(1)]) (auto simp: prim_step_def prim_inv_def)
  moreover have "\<not> known_id (dd_map d' ! unat j)" if "own d' j" "Suc k \<le> unat j" "is_prim (dd_types d' ! unat j)" for j
  proof -
    have "j \<noteq> i" "k \<le> unat j" using that(2) i by auto
    then show ?thesis using s(1) inv that a unfolding prim_step_def prim_inv_def by metis
  qed
  ultimately show ?thesis using \<open>targets_known d'\<close> by (simp add: prim_inv_def)
qed

lemma prep_pass_inv:
  assumes "prep_inv (dd_start_id d) d"
  shows "pass_inv d"
proof -
  have ok: "dd_ok d" using assms by (simp add: prep_inv_def)
  then show ?thesis using assms id_known [OF dd_okD(1) [OF ok]] dd_okD(7) [OF ok] by (auto simp: prep_inv_def pass_inv_def)
qed

lemma prim_types_ok:
  assumes "prep_inv (dd_start_id d) d"
  shows "\<exists>ret d'. btf_dedup_prim_types mem d = Inr (ret, d') \<and> advance d d' \<and> (0 \<le> ret \<longrightarrow> ret = 0 \<and> pass_inv d')"
proof -
  let ?I = "\<lambda>k d'. prim_inv k d' \<and> dd_start_id d' = dd_start_id d \<and> ntypes d' = ntypes d"
  have ok: "dd_ok d" using assms by (simp add: prep_inv_def)
  have "pass_inv d" using assms by (rule prep_pass_inv)
  then have start: "?I (dd_start_id d) d" using assms by (auto simp: prim_inv_def prep_inv_def)
  have "\<exists>ret d'. each_id (btf_dedup_prim_type mem) (own_ids d) d = Inr (ret, d') \<and> advance d d' \<and> (0 \<le> ret \<longrightarrow> ret = 0 \<and> ?I (ntypes d) d')"
  proof (rule each_id_ok [where I = ?I])
    fix k d1 assume k: "dd_start_id d \<le> k" "k < ntypes d" and I: "?I k d1"
    let ?i = "of_nat k :: u32"
    have ok1: "dd_ok d1" using I by (simp add: prim_inv_def pass_inv_def)
    have u: "unat ?i = k" using unat_id [OF dd_okD(1) [OF ok1]] k I by simp
    have own: "own d1 ?i" using k I u by simp
    have new: "is_prim (dd_types d1 ! unat ?i) \<Longrightarrow> \<not> known_id (dd_map d1 ! unat ?i)" and targets: "targets_known d1"
      using I own u unfolding prim_inv_def by (blast intro: eq_imp_le [OF sym])+
    obtain ret d' where r: "btf_dedup_prim_type mem ?i d1 = Inr (ret, d')"
        "prim_step ?i d1 ret d' \<and> is_prim (dd_types d1 ! unat ?i) \<or> \<not> is_prim (dd_types d1 ! unat ?i) \<and> d' = d1"
      using prim_type_ok [OF ok1 own new] targets by blast
    from r(2) show "\<exists>ret d'. btf_dedup_prim_type mem ?i d1 = Inr (ret, d') \<and> advance d1 d' \<and> (0 \<le> ret \<longrightarrow> ?I (Suc k) d')"
    proof
      assume s: "prim_step ?i d1 ret d' \<and> is_prim (dd_types d1 ! unat ?i)"
      have "?I (Suc k) d'" if "0 \<le> ret"
        using prim_inv_step [of k d1 ?i d'] I u s that own advance_ok(2,3) [of d1 d'] by (simp add: prim_step_def)
      then show ?thesis using r(1) s by (auto simp: prim_step_def)
    next
      assume "\<not> is_prim (dd_types d1 ! unat ?i) \<and> d' = d1"
      then show ?thesis using r(1) I advance_refl [OF ok1] Suc_leD by (auto simp: prim_inv_def)
    qed
  qed (use start dd_okD(7) [OF ok] in \<open>auto simp: prim_inv_def pass_inv_def\<close>)
  then show ?thesis by (auto simp: btf_dedup_prim_types_def prim_inv_def)
qed

end
