(* ===== verification/Dedup_Struct.thy ===== *)
theory Dedup_Struct
  imports Dedup_Prim
begin

text \<open>
  The pass over structures and unions: each is compared with the candidates of its hash; the pairs of an equivalent candidate are merged into
  the canonical map.
\<close>

section \<open>The hypothetical map\<close>

lemma clear_nth: "k < length m \<Longrightarrow> fold (\<lambda>i m. m[unat i := v]) is m ! k = (if \<exists>i\<in>set is. unat i = k then v else m ! k)"
proof (induction "is" arbitrary: m)
  case (Cons i "is")
  then show ?case by (auto simp: nth_list_update)
qed simp

lemma clear_len: "length (fold (\<lambda>i m. m[unat i := v]) is m) = length m"
  by (induction "is" arbitrary: m) auto

text \<open>Clearing forgets all pairs and nothing else.\<close>

lemma clear_ok:
  fixes c :: u32
  assumes ok: "dd_ok d"
  shows "dd_ok (btf_dedup_clear_hypot_map d)" "unat c < ntypes d \<Longrightarrow> \<not> known_id (dd_hypot_map (btf_dedup_clear_hypot_map d) ! unat c)"
proof -
  let ?d = "btf_dedup_clear_hypot_map d"
  have len: "length (dd_hypot_map ?d) = ntypes d" using dd_okD(5) [OF ok] by (simp add: btf_dedup_clear_hypot_map_def clear_len)
  have none: "\<not> known_id (dd_hypot_map ?d ! unat i)" if "unat i < ntypes d" for i :: u32
  proof
    assume k: "known_id (dd_hypot_map ?d ! unat i)"
    then have "known_id (dd_hypot_map d ! unat i)" "\<not> (\<exists>j\<in>set (dd_hypot_list d). unat j = unat i)"
      using not_known(1) that dd_okD(5) [OF ok] by (auto simp: btf_dedup_clear_hypot_map_def clear_nth split: if_splits)
    then show False using hypot_partner(2) [OF ok that] by auto
  qed
  then show "unat c < ntypes d \<Longrightarrow> \<not> known_id (dd_hypot_map ?d ! unat c)" by blast
  have f: "dd_types ?d = dd_types d" "dd_start_id ?d = dd_start_id d" "dd_table ?d = dd_table d" "dd_collide ?d = dd_collide d" "dd_map ?d = dd_map d" "dd_hypot_list ?d = []"
    by (simp_all add: btf_dedup_clear_hypot_map_def)
  have "hypot_ok ?d" unfolding hypot_ok_def f using len none by simp
  then show "dd_ok ?d" using ok unfolding dd_ok_def f by simp
qed

section \<open>Merging\<close>

text \<open>What a merge may do: the table and the types stay, and ids are redirected to others.\<close>

definition redirects :: "btf_dedup \<Rightarrow> btf_dedup \<Rightarrow> bool" where
  "redirects d d' \<longleftrightarrow> advance d d' \<and> dd_types d' = dd_types d \<and> dd_table d' = dd_table d \<and> dd_hypot_map d' = dd_hypot_map d \<and> dd_hypot_list d' = dd_hypot_list d \<and>
     (\<forall>i :: u32. unat i < ntypes d \<longrightarrow> dd_map d' ! unat i = i \<longrightarrow> dd_map d ! unat i = i) \<and> map_grows d d'"

lemma redirects_refl: "dd_ok d \<Longrightarrow> redirects d d"
  by (simp add: redirects_def advance_refl map_grows_refl)

lemma redirects_trans: "redirects d d1 \<Longrightarrow> redirects d1 d2 \<Longrightarrow> redirects d d2"
  using advance_trans [of d d1 d2] map_grows_trans [of d d1 d2] by (auto simp: redirects_def)

lemma redirects_uniq: "redirects d d' \<Longrightarrow> uniq d \<Longrightarrow> uniq d'"
  by (erule uniq_frame) (auto simp: redirects_def advance_def)

lemma no_fwdD: "no_fwd ts \<Longrightarrow> unat i < length ts \<Longrightarrow> \<not> fwdish (ts ! unat i)"
  by (simp add: no_fwd_def)

lemma redirect_ok:
  assumes ok: "dd_ok d" and c: "unat c < ntypes d" "in_table d c \<Longrightarrow> fwdish (dd_types d ! unat c)" and t: "unat t < ntypes d" "map_next (dd_map d) t = None" "t \<noteq> c"
    and sound: "no_fwd (dd_types d) \<Longrightarrow> alike (dd_types d) t c \<and> \<not> known_id (dd_map d ! unat c) \<and> known_id (dd_map d ! unat t)"
  obtains d' where "set_map c t d = Inr d'" "redirects d d'"
proof -
  let ?d = "d\<lparr>dd_map := (dd_map d)[unat c := t]\<rparr>"
  have k: "known_id t" by (rule id_known [OF dd_okD(1) [OF ok] t(1)])
  have p: "(t, c) \<notin> (map_edges (dd_map d))\<^sup>*" using t(2,3) by (rule root_no_path)
  have s: "set_map c t d = Inr ?d" "advance d ?d" using t(1) k p c(2) sound by (intro set_map_ok [OF ok c(1)]; auto)+
  have len: "unat c < length (dd_map d)" using c(1) dd_okD(2) [OF ok] by simp
  have nth: "dd_map ?d ! unat i = (if i = c then t else dd_map d ! unat i)" for i using len by (simp add: nth_list_update word_unat_eq_iff)
  have "map_grows d ?d" using sound k unfolding map_grows_def targets_known_def nth by (auto simp: map_next_update [OF len] split: if_splits)
  then have "redirects d ?d" using s(2) t(3) unfolding redirects_def nth by auto
  with s(1) show ?thesis by (rule that)
qed

definition pairs_sound :: "btf_dedup \<Rightarrow> bool" where
  "pairs_sound d \<longleftrightarrow> (\<forall>c :: u32. unat c < ntypes d \<longrightarrow> known_id (dd_hypot_map d ! unat c) \<longrightarrow> alike (dd_types d) (dd_hypot_map d ! unat c) c)"

lemma alike_sym: "alike ts a b \<Longrightarrow> alike ts b a" and alike_trans: "alike ts a b \<Longrightarrow> alike ts b c \<Longrightarrow> alike ts a c"
  by (simp_all add: alike_def)

text \<open>One pair.\<close>

definition merge_pair :: "u32 \<Rightarrow> u32 \<Rightarrow> btf_dedup \<Rightarrow> fault + btf_dedup" where
  "merge_pair t_id c_id d = (let t_kind = btf_kind (dd_types d ! unat t_id); c_kind = btf_kind (dd_types d ! unat c_id) in
     bindR (if t_kind \<noteq> BTF_KIND_FWD \<and> c_kind = BTF_KIND_FWD then set_map c_id t_id d else Inr d) (\<lambda>d.
         if dd_hypot_adjust_canon d then Inr d
           else bindR (if t_kind = BTF_KIND_FWD \<and> c_kind \<noteq> BTF_KIND_FWD then set_map t_id c_id d else Inr d) (\<lambda>d.
             if (t_kind = BTF_KIND_STRUCT \<or> t_kind = BTF_KIND_UNION) \<and> c_kind \<noteq> BTF_KIND_FWD \<and> is_type_mapped d c_id \<and> \<not> is_type_mapped d t_id
             then set_map t_id c_id d else Inr d)))"

lemma merge_pair_ok:
  assumes ok: "dd_ok d" and t: "unat t < ntypes d" "map_next (dd_map d) t = None" and c: "unat c < ntypes d" "map_next (dd_map d) c = None"
    and sound: "no_fwd (dd_types d) \<Longrightarrow> alike (dd_types d) t c"
  shows "\<exists>d'. merge_pair t c d = Inr d' \<and> redirects d d'"
proof -
  let ?t = "btf_kind (dd_types d ! unat t)" and ?c = "btf_kind (dd_types d ! unat c)"
  consider (ct) "?t \<noteq> BTF_KIND_FWD" "?c = BTF_KIND_FWD" | (tc) "?t = BTF_KIND_FWD" "?c \<noteq> BTF_KIND_FWD" "\<not> dd_hypot_adjust_canon d"
    | (struct) "?t = BTF_KIND_STRUCT \<or> ?t = BTF_KIND_UNION" "?c \<noteq> BTF_KIND_FWD" "is_type_mapped d c" "\<not> is_type_mapped d t" "\<not> dd_hypot_adjust_canon d"
    | (none) "?t = BTF_KIND_FWD \<longleftrightarrow> ?c = BTF_KIND_FWD" "\<not> ((?t = BTF_KIND_STRUCT \<or> ?t = BTF_KIND_UNION) \<and> ?c \<noteq> BTF_KIND_FWD \<and> is_type_mapped d c \<and> \<not> is_type_mapped d t)"
    | (canon) "?t = BTF_KIND_FWD \<or> ?c \<noteq> BTF_KIND_FWD" "dd_hypot_adjust_canon d" by blast
  then show ?thesis
  proof cases
    case ct
    have f: "fwdish (dd_types d ! unat c)" using ct by (simp add: fwdish_def btf_is_fwd_def)
    then obtain d' where "set_map c t d = Inr d'" "redirects d d'" using redirect_ok [OF ok c(1) _ t] ct no_fwdD [OF _ c(1)] by blast
    then show ?thesis using ct by (auto simp: merge_pair_def Let_def)
  next
    case tc
    have f: "fwdish (dd_types d ! unat t)" using tc by (simp add: fwdish_def btf_is_fwd_def)
    then obtain d' where "set_map t c d = Inr d'" "redirects d d'" using redirect_ok [OF ok t(1) _ c] tc no_fwdD [OF _ t(1)] by blast
    then show ?thesis using tc by (simp add: merge_pair_def Let_def btf_kinds)
  next
    case struct
    have n: "\<not> in_table d t" using unknown_not_in_table [OF ok] struct(4) by (simp add: is_type_mapped_def)
    obtain d' where "set_map t c d = Inr d'" "redirects d d'" using redirect_ok [OF ok t(1) _ c] n struct(3,4) alike_sym sound unfolding is_type_mapped_def by metis
    then show ?thesis using struct by (auto simp: merge_pair_def Let_def btf_kinds)
  next
    case none
    then have "merge_pair t c d = Inr d" by (auto simp: merge_pair_def Let_def)
    then show ?thesis using redirects_refl [OF ok] by blast
  next
    case canon
    then have "merge_pair t c d = Inr d" by (auto simp: merge_pair_def Let_def)
    then show ?thesis using redirects_refl [OF ok] by blast
  qed
qed

lemma merge_pairs_ok:
  assumes "dd_ok d" "\<forall>c\<in>set cs. unat c < ntypes d \<and> known_id (dd_hypot_map d ! unat c)" "no_fwd (dd_types d) \<longrightarrow> pairs_sound d"
  shows "\<exists>d'. merge_pairs cs d = Inr d' \<and> redirects d d'"
  using assms
proof (induction cs arbitrary: d)
  case Nil
  then show ?case using redirects_refl by simp
next
  case (Cons c cs)
  note ok = Cons.prems(1)
  have c: "unat c < ntypes d" "known_id (dd_hypot_map d ! unat c)" using Cons.prems(2) by auto
  let ?t = "dd_hypot_map d ! unat c"
  have t: "unat ?t < ntypes d" by (rule hypot_partner [OF ok c])
  obtain ti where ti: "resolve_type_id d ?t = Inr ti" "unat ti < ntypes d" "is_root (dd_map d) ti" by (rule resolved [OF ok t])
  obtain ci where ci: "resolve_type_id d c = Inr ci" "unat ci < ntypes d" "is_root (dd_map d) ci" by (rule resolved [OF ok c(1)])
  have at: "at_id (dd_hypot_map d) c = Inr ?t" using c(1) dd_okD(5) [OF ok] by simp
  have run: "merge_pairs (c # cs) d = bindR (merge_pair ti ci d) (merge_pairs cs)"
    using ti ci by (simp add: merge_pair_def Let_def at bindR_assoc del: bindR_eq_Inr)
  have "alike (dd_types d) ti ci" if s: "no_fwd (dd_types d)"
  proof -
    have "alike (dd_types d) ?t c" using Cons.prems(3) s c by (simp add: pairs_sound_def)
    then show ?thesis using resolved_alike [OF ok s t ti(1)] resolved_alike [OF ok s c(1) ci(1)] by (simp add: alike_def)
  qed
  then obtain d1 where d1: "merge_pair ti ci d = Inr d1" "redirects d d1"
    using merge_pair_ok [OF ok ti(2) _ ci(2)] ti(3) ci(3) by (auto simp: is_root_def)
  have same: "dd_ok d1" "dd_types d1 = dd_types d" "dd_hypot_map d1 = dd_hypot_map d" using d1(2) advance_ok(1) by (auto simp: redirects_def)
  then have "\<exists>d'. merge_pairs cs d1 = Inr d' \<and> redirects d1 d'" using Cons.prems(2,3) same by (intro Cons.IH) (auto simp: pairs_sound_def)
  then show ?case unfolding run using d1(1) redirects_trans [OF d1(2)] by auto
qed

section \<open>The pass\<close>

lemma composite_not_fwdish: "btf_is_composite t \<Longrightarrow> \<not> fwdish t"
  by (auto simp: btf_is_composite_def fwdish_def btf_is_fwd_def btf_is_enum_fwd_def btf_is_any_enum_def btf_is_enum_def btf_is_enum64_def btf_kinds)

text \<open>
  Comparison of a type with a candidate in a cleared map, and the merge after success: without forward declarations the two unfold alike.
\<close>

lemma clear_advance: "dd_ok d \<Longrightarrow> advance d (btf_dedup_clear_hypot_map d)"
  using clear_ok(1) by (intro advance_frame) (auto simp: btf_dedup_clear_hypot_map_def)

lemma progress_advance: "progress d d' \<Longrightarrow> advance d d'"
  by (intro advance_frame) (auto simp: progress_def)

lemma compare_ok:
  assumes ok: "dd_ok d" and a: "unat a < ntypes d" and b: "unat b < ntypes d"
  shows "\<exists>eq d'. btf_dedup_is_equiv mem (Suc (ntypes d)) a b (btf_dedup_clear_hypot_map d) = Inr (eq, d') \<and> advance d d' \<and> eq \<in> {1, 0, - ENOMEM, - EINVAL} \<and>
    dd_types d' = dd_types d \<and> dd_table d' = dd_table d \<and> dd_map d' = dd_map d \<and>
    (eq = 1 \<longrightarrow> no_fwd (dd_types d) \<longrightarrow> pairs_sound d' \<and> alike (dd_types d) a b)"
proof -
  let ?d = "btf_dedup_clear_hypot_map d"
  have f: "dd_types ?d = dd_types d" "dd_table ?d = dd_table d" "dd_map ?d = dd_map d" by (simp_all add: btf_dedup_clear_hypot_map_def)
  have ok1: "dd_ok ?d" by (rule clear_ok [OF ok])
  have "free_ids ?d < Suc (ntypes d)" using free_bound [of ?d] f(1) by simp
  then obtain eq d' where e: "btf_dedup_is_equiv mem (Suc (ntypes d)) a b ?d = Inr (eq, d')" "progress ?d d'" "eq \<in> {1, 0, - ENOMEM, - EINVAL}"
      "eq = 1 \<longrightarrow> closed ?d d' \<and> related d' a b"
    using equiv_specD [OF is_equiv_ok ok1] a b f(1) by metis
  have same: "dd_ok d'" "dd_types d' = dd_types d" "dd_table d' = dd_table d" "dd_map d' = dd_map d" using e(2) f by (auto simp: progress_def)
  have "pairs_sound d' \<and> alike (dd_types d) a b" if "eq = 1" "no_fwd (dd_types d)"
  proof -
    have nf: "no_fwd (dd_types d')" using that(2) same(2) by simp
    have pairs: "pair_ok d' c" if "unat c < ntypes d'" "known_id (dd_hypot_map d' ! unat c)" for c
      using e(4) \<open>eq = 1\<close> clear_ok(2) [OF ok, of c] that same(2) f(1) by (simp add: closed_def)
    have p: "alike (dd_types d') (dd_hypot_map d' ! unat c) c" if "unat c < ntypes d'" "known_id (dd_hypot_map d' ! unat c)" for c
      using pairs_alike [OF same(1) nf pairs that] by (simp add: alike_def)
    have "alike (dd_types d') a b" using related_unfold [OF same(1) nf, of a b] e(4) \<open>eq = 1\<close> p a b same(2) by (simp add: alike_def)
    then show ?thesis using p same(2) by (simp add: pairs_sound_def)
  qed
  then show ?thesis using e(1,3) same advance_trans [OF clear_advance [OF ok] progress_advance [OF e(2)]] by blast
qed

lemma struct_cands_ok:
  assumes "dd_ok d" "\<forall>c\<in>set cs. (h, c) \<in> table_elems (dd_table d)" "own d i" "btf_is_composite (dd_types d ! unat i)" "uniq d" "\<not> in_table d i"
  shows "\<exists>err new d'. struct_cands mem (dd_types d ! unat i) i cs d = Inr (err, new, d') \<and> advance d d' \<and> map_grows d d' \<and> dd_types d' = dd_types d \<and> dd_table d' = dd_table d \<and> err \<le> 0 \<and>
    (err = 0 \<longrightarrow> uniq d' \<and> (new = i \<or> (h, new) \<in> table_elems (dd_table d') \<and> \<not> fwdish (dd_types d ! unat new) \<and> (no_fwd (dd_types d) \<longrightarrow> alike (dd_types d) new i)))"
  using assms
proof (induction cs arbitrary: d)
  case Nil
  then show ?case using advance_refl map_grows_refl by auto
next
  case (Cons c cs)
  let ?t = "dd_types d ! unat i" and ?c = "dd_types d ! unat c"
  note ok = Cons.prems(1)
  have e: "(h, c) \<in> table_elems (dd_table d)" using Cons.prems(2) by simp
  have c: "unat c < ntypes d" by (rule elem_facts [OF ok e])
  show ?case
  proof (cases "btf_shallow_equal_struct ?t ?c")
    case False
    then have run: "struct_cands mem ?t i (c # cs) d = struct_cands mem ?t i cs d" using c by (simp del: bindR_eq_Inr)
    show ?thesis unfolding run by (rule Cons.IH) (use Cons.prems in auto)
  next
    case True
    then have info: "bt_info ?t = bt_info ?c" by (simp add: btf_shallow_equal_struct_def btf_equal_common_def)
    then have fc: "\<not> fwdish ?c" using Cons.prems(4) info_cong(1) [OF info] by (auto simp: composite_not_fwdish btf_is_composite_def)
    obtain eq d1 where r: "btf_dedup_is_equiv mem (Suc (ntypes d)) i c (btf_dedup_clear_hypot_map d) = Inr (eq, d1)" "advance d d1" "eq \<in> {1, 0, - ENOMEM, - EINVAL}"
        "dd_types d1 = dd_types d" "dd_table d1 = dd_table d" "dd_map d1 = dd_map d" "eq = 1 \<longrightarrow> no_fwd (dd_types d) \<longrightarrow> pairs_sound d1 \<and> alike (dd_types d) i c"
      using compare_ok [OF ok _ c, of i mem] Cons.prems(3) by blast
    have ok1: "dd_ok d1" and st: "dd_start_id d1 = dd_start_id d" by (rule advance_ok [OF r(2)])+
    have k1: "map_grows d d1" using r(6) by (simp add: map_grows_def targets_known_def)
    have u1: "uniq d1" by (rule uniq_frame [OF Cons.prems(5)]) (use r(4-6) st in auto)
    have run: "struct_cands mem ?t i (c # cs) d = (if eq < 0 then Inr (eq, i, d1) else if eq = 0 then struct_cands mem ?t i cs d1
        else bindR (btf_dedup_merge_hypot_map d1) (\<lambda>d. if dd_hypot_adjust_canon d then struct_cands mem ?t i cs d else Inr (0, c, d)))"
      using c True r(1) by (simp del: bindR_eq_Inr)
    have rest: "\<exists>err new d'. struct_cands mem ?t i cs d2 = Inr (err, new, d') \<and> advance d d' \<and> map_grows d d' \<and> dd_types d' = dd_types d \<and> dd_table d' = dd_table d \<and> err \<le> 0 \<and>
        (err = 0 \<longrightarrow> uniq d' \<and> (new = i \<or> (h, new) \<in> table_elems (dd_table d') \<and> \<not> fwdish (dd_types d ! unat new) \<and> (no_fwd (dd_types d) \<longrightarrow> alike (dd_types d) new i)))"
      if d2: "advance d d2" "dd_types d2 = dd_types d" "dd_table d2 = dd_table d" "uniq d2" "map_grows d d2" for d2
    proof -
      have "own d2 i" "\<not> in_table d2 i" using Cons.prems(3,6) d2 advance_ok(3) [OF d2(1)] by (simp_all add: in_table_def)
      then show ?thesis using Cons.IH [of d2] Cons.prems(2,4) d2 advance_ok(1) [OF d2(1)] advance_trans [OF d2(1)] map_grows_trans [OF d2(5) _ d2(1)] by auto
    qed
    consider (err) "eq < 0" | (differ) "eq = 0" | (same) "eq = 1" using r(3) by (auto simp: ENOMEM_def EINVAL_def)
    then show ?thesis
    proof cases
      case err
      then show ?thesis unfolding run using r(2,4,5) k1 by auto
    next
      case differ
      then show ?thesis unfolding run using rest [OF r(2,4,5) u1 k1] by simp
    next
      case same
      have "\<forall>c\<in>set (dd_hypot_list d1). unat c < ntypes d1 \<and> known_id (dd_hypot_map d1 ! unat c)" using dd_okD(4) [OF ok1] unfolding hypot_ok_def by blast
      then obtain d2 where m: "btf_dedup_merge_hypot_map d1 = Inr d2" "redirects d1 d2"
        using merge_pairs_ok [OF ok1] r(7) same r(4) by (auto simp: btf_dedup_merge_hypot_map_def)
      have d2: "advance d d2" "dd_types d2 = dd_types d" "dd_table d2 = dd_table d" "uniq d2" "map_grows d d2"
        using m(2) r(4,5) advance_trans [OF r(2)] redirects_uniq [OF m(2) u1] map_grows_trans [OF k1 _ r(2)] by (auto simp: redirects_def)
      show ?thesis
      proof (cases "dd_hypot_adjust_canon d2")
        case True
        then show ?thesis unfolding run using same m(1) rest [OF d2] by simp
      next
        case False
        then show ?thesis unfolding run using same m(1) d2 fc e r(7) alike_sym by auto
      qed
    qed
  qed
qed

lemma struct_type_ok:
  assumes inv: "pass_inv d" and i: "own d i"
  shows "\<exists>ret d'. btf_dedup_struct_type mem i d = Inr (ret, d') \<and> advance d d' \<and> (0 \<le> ret \<longrightarrow> pass_inv d')"
proof -
  let ?t = "dd_types d ! unat i" let ?h = "btf_hash_struct ?t"
  have ok: "dd_ok d" and u: "uniq d" using inv by (simp_all add: pass_inv_def)
  have len: "unat i < length (dd_map d)" using i dd_okD(2) [OF ok] by simp
  show ?thesis
  proof (cases "known_id (dd_map d ! unat i) \<or> \<not> btf_is_composite ?t")
    case True
    then have "btf_dedup_struct_type mem i d = Inr (0, d)" using len i by (auto simp: btf_dedup_struct_type_def btf_is_composite_def)
    then show ?thesis using inv advance_refl [OF ok] by simp
  next
    case False
    then have t: "\<not> known_id (dd_map d ! unat i)" "btf_is_composite ?t" by auto
    have tab: "\<not> in_table d i" by (rule unknown_not_in_table [OF ok t(1)])
    have hash: "base_hash ?t = Inr (Some ?h)" using t(2) by (auto simp: base_hash_def btf_is_composite_def btf_kinds)
    obtain cs where cs: "dedup_cands d ?h = Inr cs" "set cs = {i. (?h, i) \<in> table_elems (dd_table d)}" by (rule dedup_cands_ok [OF ok])
    obtain err new d1 where c: "struct_cands mem ?t i cs d = Inr (err, new, d1)" "advance d d1" "map_grows d d1" "dd_types d1 = dd_types d" "dd_table d1 = dd_table d" "err \<le> 0"
        "err = 0 \<longrightarrow> uniq d1 \<and> (new = i \<or> (?h, new) \<in> table_elems (dd_table d1) \<and> \<not> fwdish (dd_types d ! unat new) \<and> (no_fwd (dd_types d) \<longrightarrow> alike (dd_types d) new i))"
      using struct_cands_ok [where h = ?h, OF ok _ i t(2) u tab, of cs mem] cs(2) by blast
    have run: "btf_dedup_struct_type mem i d = (if err < 0 then Inr (err, d1) else settle mem ?h i new d1)"
      using len i t cs(1) c(1) by (auto simp: btf_dedup_struct_type_def btf_is_composite_def simp del: bindR_eq_Inr)
    show ?thesis
    proof (cases "err = 0")
      case False
      then show ?thesis unfolding run using c(2,6) by simp
    next
      case True
      have ok1: "dd_ok d1" and st: "dd_start_id d1 = dd_start_id d" by (rule advance_ok [OF c(2)])+
      have i1: "own d1 i" "\<not> in_table d1 i" using i tab c(4,5) st by (simp_all add: in_table_def)
      have new: "unat new < ntypes d1" "new = i \<or> map_next (dd_map d1) new = None \<and> known_id (dd_map d1 ! unat new)" "no_fwd (dd_types d1) \<longrightarrow> alike (dd_types d1) new i" "uniq d1"
        using c(4,7) True i1(1) elem_facts [OF ok1, of ?h new] by (auto simp: alike_def)
      have "new = i \<or> (new, i) \<notin> (map_edges (dd_map d1))\<^sup>*" using new(2) root_no_path by blast
      then obtain ret d' where s: "settle mem ?h i new d1 = Inr (ret, d')" "advance d1 d'" "dd_types d' = dd_types d1" "dd_map d' = (dd_map d1)[unat i := new]" "ret = 0 \<or> ret = - ENOMEM"
          "table_elems (dd_table d') \<subseteq> insert (?h, i) (table_elems (dd_table d1))"
          "ret = 0 \<longrightarrow> table_elems (dd_table d') = (if new = i then insert (?h, i) (table_elems (dd_table d1)) else table_elems (dd_table d1))"
        using settle_ok [OF ok1, of i new mem ?h] i1 new by blast
      have a: "advance d d'" by (rule advance_trans [OF c(2) s(2)])
      have len1: "unat i < length (dd_map d1)" using i1(1) dd_okD(2) [OF ok1] by simp
      have nth: "dd_map d' ! unat j = (if j = i then new else dd_map d1 ! unat j)" for j using len1 s(4) by (simp add: nth_list_update word_unat_eq_iff)
      have "known_id new" by (rule id_known [OF dd_okD(1) [OF ok1] new(1)])
      then have "targets_known d'" if "targets_known d1"
        using that new(2) unfolding targets_known_def nth by (auto simp: s(4) map_next_update [OF len1] split: if_splits)
      then have "map_grows d d'" using c(3) t(1) unfolding map_grows_def nth by auto
      moreover have "uniq d'" if "ret = 0"
        by (rule uniq_settle [where d = d1 and new = new and h = ?h, OF ok1 new(4) i1(1)]) (use s that t(2) hash c(4) st advance_ok(3) [OF s(2)] in auto)
      moreover have "in_table d j \<or> j = i" if "in_table d' j" for j using that s(6) c(5) by (auto simp: in_table_def)
      moreover have "canonical d' (dd_types d' ! unat i)" using t(2) s(3) c(4) by (simp add: canonical_def)
      ultimately have "pass_inv d'" if "ret = 0" using that by (intro pass_inv_step [OF inv a]) blast+
      then show ?thesis unfolding run using True s(1,5) a by (auto simp: ENOMEM_def)
    qed
  qed
qed

lemma struct_types_ok:
  assumes "pass_inv d"
  shows "\<exists>ret d'. btf_dedup_struct_types mem d = Inr (ret, d') \<and> advance d d' \<and> (0 \<le> ret \<longrightarrow> ret = 0 \<and> pass_inv d')"
  unfolding btf_dedup_struct_types_def by (rule pass_ok [OF assms struct_type_ok])

end
