(* ===== verification/Dedup_Ref.thy ===== *)
theory Dedup_Ref
  imports Dedup_Struct
begin

text \<open>
  The pass over reference types: a type's ids are replaced by their canonical ids first, depth first; a type that is met again on the way is a
  loop. Then the type has an equal candidate, or becomes one.
\<close>

section \<open>Changing an id of a type\<close>

definition put_word :: "btf_type \<Rightarrow> nat \<Rightarrow> u32 \<Rightarrow> btf_type" where
  "put_word t p w = type_of_words ((type_words t)[p := w])"

lemma places_ok:
  assumes "typ_ok t" "p \<in> set (id_places t)"
  shows "p < length (type_words t)" "p \<noteq> 1"
proof -
  have "words_ok (type_words t)" using assms by (auto simp: typ_ok_def void_facts)
  then show "p < length (type_words t)" "p \<noteq> 1" using type_id_places_ok [of "type_words t"] assms(2) by (auto simp: id_places_def)
qed

lemma places_distinct: "typ_ok t \<Longrightarrow> distinct (id_places t)"
  using type_id_places_ok [of "type_words t"] by (auto simp: typ_ok_def id_places_def void_facts type_id_places_def btf_kinds)

lemma put_word_words: "type_words (put_word t p w) = (type_words t)[p := w]"
  unfolding put_word_def by (rule type_words_of_words) simp

lemma put_word_ok:
  assumes t: "typ_ok t" and p: "p \<in> set (id_places t)"
  shows "bt_info (put_word t p w) = bt_info t" "typ_ok (put_word t p w)" "id_places (put_word t p w) = id_places t" "label (put_word t p w) = label t"
    "ref_ids (put_word t p w) = map (\<lambda>q. if q = p then w else type_words t ! q) (id_places t)"
proof -
  note P = places_ok [OF t p]
  have ws: "words_ok (type_words t)" using t p by (auto simp: typ_ok_def void_facts)
  show info: "bt_info (put_word t p w) = bt_info t" using type_words_nth(3) [of "put_word t p w"] P(2) by (simp add: put_word_words del: type_words_nth(3))
  then show places: "id_places (put_word t p w) = id_places t" by (rule info_cong)
  have "words_ok ((type_words t)[p := w])" using ws P(2) by (intro words_ok_same_info [OF ws]) auto
  then show "typ_ok (put_word t p w)" by (simp add: typ_ok_def put_word_words)
  show "label (put_word t p w) = label t" unfolding label_def places put_word_words using p by (auto simp: nth_list_update intro!: nth_list_update_neq)
  show "ref_ids (put_word t p w) = map (\<lambda>q. if q = p then w else type_words t ! q) (id_places t)"
    unfolding ref_ids_def places put_word_words using P(1) by (auto simp: nth_list_update)
qed

lemma unfolding_update:
  assumes i: "i < length ts" and t: "label t = label (ts ! i)" "length (ref_ids t) = length (ref_ids (ts ! i))"
    and refs: "\<And>x y. (x, y) \<in> set (zip (ref_ids t) (ref_ids (ts ! i))) \<Longrightarrow> alike ts x y"
  shows "unfolding_of (ts[i := t]) n j = unfolding_of ts n j"
proof (induction n arbitrary: j)
  case (Suc n)
  have IH: "unfolding_of (ts[i := t]) n = unfolding_of ts n" using Suc by blast
  have "map (unfolding_of ts n) (ref_ids t) = map (unfolding_of ts n) (ref_ids (ts ! i))"
    using t(2) refs by (intro map_eq_zip) (auto simp: alike_def)
  then show ?case using i t(1) by (simp add: IH nth_list_update)
qed simp

text \<open>The type is not yet in the canonical map, and the new id stands for a type that unfolds like the old.\<close>

definition put_ref :: "u32 \<Rightarrow> nat \<Rightarrow> u32 \<Rightarrow> btf_dedup \<Rightarrow> btf_dedup" where
  "put_ref i p w d = d\<lparr>dd_types := (dd_types d)[unat i := put_word (dd_types d ! unat i) p w]\<rparr>"

lemma put_ref_ok:
  assumes inv: "pass_inv d" and i: "unat i < ntypes d" "\<not> known_id (dd_map d ! unat i)" and p: "p \<in> set (id_places (dd_types d ! unat i))" and w: "unat w < ntypes d"
    and sound: "no_fwd (dd_types d) \<Longrightarrow> alike (dd_types d) w (type_words (dd_types d ! unat i) ! p)"
  shows "advance d (put_ref i p w d)" "pass_inv (put_ref i p w d)" "map_grows d (put_ref i p w d)"
proof -
  let ?t = "dd_types d ! unat i" let ?t' = "put_word ?t p w" let ?ts = "(dd_types d)[unat i := ?t']" let ?d = "put_ref i p w d"
  have ok: "dd_ok d" and u: "uniq d" using inv by (simp_all add: pass_inv_def)
  note D = dd_okD [OF ok]
  have t: "typ_ok ?t" using types_okD(1) [OF D(1) i(1)] .
  note P = put_word_ok [OF t p, of w]
  have nth: "?ts ! unat j = (if j = i then ?t' else dd_types d ! unat j)" for j :: u32 using i(1) by (simp add: nth_list_update word_unat_eq_iff)
  have f: "dd_types ?d = ?ts" "dd_start_id ?d = dd_start_id d" "dd_table ?d = dd_table d" "dd_map ?d = dd_map d" "dd_collide ?d = dd_collide d"
      "dd_hypot_map ?d = dd_hypot_map d" "dd_hypot_list ?d = dd_hypot_list d" by (simp_all add: put_ref_def)
  have tab: "j \<noteq> i" if "in_table d j" for j using unknown_not_in_table [OF ok i(2)] that by auto
  have info: "bt_info (?ts ! j) = bt_info (dd_types d ! j) \<and> label (?ts ! j) = label (dd_types d ! j)" if "j < ntypes d" for j using that P(1,4) by (cases "j = unat i") simp_all
  have nf: "no_fwd ?ts = no_fwd (dd_types d)" using info by (intro no_fwd_cong) auto
  have unf: "unfolding_of ?ts n j = unfolding_of (dd_types d) n j" if "no_fwd (dd_types d)" for n j
  proof (rule unfolding_update [OF i(1) P(4)])
    show "length (ref_ids ?t') = length (ref_ids ?t)" by (simp add: P(3) ref_ids_def)
    fix x y assume "(x, y) \<in> set (zip (ref_ids ?t') (ref_ids ?t))"
    then obtain q where "q \<in> set (id_places ?t)" "x = (if q = p then w else type_words ?t ! q)" "y = type_words ?t ! q" unfolding P(5) ref_ids_def [of ?t] by (auto simp: zip_map_map zip_same_conv_map)
    then show "alike (dd_types d) x y" using sound [OF that] by (auto simp: alike_def)
  qed
  have "types_ok ?ts"
  proof -
    have "i \<noteq> 0" using i(2) p D(1) void_facts(2) by (auto simp: types_ok_def)
    then have "?ts ! 0 = btf_void" using D(1) unat_eq_0 [of i] by (simp add: types_ok_def nth_list_update)
    moreover have "unat r < ntypes d" if "r \<in> set (ref_ids ?t')" for r using that w types_okD(2) [OF D(1) i(1)] unfolding P(5) by (auto simp: ref_ids_def)
    moreover have "typ_ok x \<and> (\<forall>r\<in>set (ref_ids x). unat r < ntypes d)" if "x \<in> set ?ts" for x
      using set_update_subset_insert [THEN subsetD, OF that] P(2) calculation(2) D(1) unfolding types_ok_def by blast
    ultimately show ?thesis using D(1) by (simp add: types_ok_def)
  qed
  moreover have "hypot_ok ?d" using D(4) hypot_ok_cong [of ?d d] f by simp
  moreover have "\<forall>(h, j)\<in>table_elems (dd_table d). unat j < ntypes d \<and> known_id (dd_map d ! unat j) \<and> (\<not> fwdish (?ts ! unat j) \<longrightarrow> map_next (dd_map d) j = None)"
  proof clarify
    fix h j assume e: "(h, j) \<in> table_elems (dd_table d)"
    have "j \<noteq> i" using tab in_tableI [OF e] by blast
    then show "unat j < ntypes d \<and> known_id (dd_map d ! unat j) \<and> (\<not> fwdish (?ts ! unat j) \<longrightarrow> map_next (dd_map d) j = None)"
      using elem_facts [OF ok e] unfolding nth by simp
  qed
  moreover have "map_sound ?ts (dd_map d)" if "no_fwd (dd_types d)" using D(8) [OF that] unf [OF that] by (simp add: map_sound_def alike_def)
  ultimately have ok': "dd_ok ?d" using ok unfolding dd_ok_def f by (simp add: nf)
  then show a: "advance d ?d" using info unf i(2) nth unfolding advance_def f by auto
  show k: "map_grows d ?d" using f(4) by (simp add: map_grows_def targets_known_def)
  have "uniq ?d"
  proof (rule uniq_frame [OF u])
    fix j assume j: "unat j < ntypes d" "dd_map ?d ! unat j = j"
    then have "j \<noteq> i" using i(2) id_known [OF D(1) j(1)] f(4) by auto
    then show "dd_map d ! unat j = j \<and> dd_types ?d ! unat j = dd_types d ! unat j" using j(2) by (simp add: f nth)
  qed (use f nth tab in auto)
  then show "pass_inv ?d" using f(3) by (intro pass_inv_step [OF inv a k]) (simp_all add: in_table_def)
qed

section \<open>The ids of a type\<close>

text \<open>Ids that are neither in the canonical map nor on the way; their number bounds the depth of the recursion.\<close>

definition fresh :: "btf_dedup \<Rightarrow> u32 \<Rightarrow> bool" where
  "fresh d i \<longleftrightarrow> dd_map d ! unat i \<noteq> BTF_IN_PROGRESS_ID \<and> \<not> known_id (dd_map d ! unat i)"

definition fresh_ids :: "btf_dedup \<Rightarrow> nat" where
  "fresh_ids d = card {i. unat i < ntypes d \<and> fresh d i}"

text \<open>A step that leaves types on the way as they are, up to one.\<close>

definition ref_step :: "u32 option \<Rightarrow> btf_dedup \<Rightarrow> btf_dedup \<Rightarrow> bool" where
  "ref_step x d d' \<longleftrightarrow> advance d d' \<and> pass_inv d' \<and> map_grows d d' \<and> (\<forall>j. unat j < ntypes d \<longrightarrow> fresh d' j \<longrightarrow> fresh d j) \<and>
     (\<forall>j. unat j < ntypes d \<longrightarrow> dd_map d ! unat j = BTF_IN_PROGRESS_ID \<longrightarrow> dd_map d' ! unat j = BTF_IN_PROGRESS_ID \<and> (x \<noteq> Some j \<longrightarrow> dd_types d' ! unat j = dd_types d ! unat j))"

lemma ref_step_refl: "pass_inv d \<Longrightarrow> ref_step x d d"
  by (simp add: ref_step_def advance_refl map_grows_refl pass_inv_def)

lemma ref_step_trans:
  assumes "ref_step x d d1" "ref_step x d1 d2"
  shows "ref_step x d d2"
proof -
  have s: "advance d d1" "advance d1 d2" "map_grows d d1" "map_grows d1 d2" using assms by (auto simp: ref_step_def)
  then have "advance d d2" "ntypes d1 = ntypes d" "map_grows d d2" using advance_trans [OF s(1,2)] advance_ok(2) [OF s(1)] map_grows_trans [OF s(3,4,1)] by auto
  then show ?thesis using assms unfolding ref_step_def by simp
qed

lemma ref_step_weaken: "ref_step None d d' \<Longrightarrow> ref_step x d d'"
  by (simp add: ref_step_def)

lemma fresh_mono: "ref_step x d d' \<Longrightarrow> fresh_ids d' \<le> fresh_ids d"
  unfolding fresh_ids_def by (rule card_mono [OF free_finite]) (auto simp: ref_step_def advance_def)

text \<open>The canonical id of a type.\<close>

definition canon_id :: "btf_dedup \<Rightarrow> u32 \<Rightarrow> u32 \<Rightarrow> bool" where
  "canon_id d i c \<longleftrightarrow> unat c < ntypes d \<and> (no_fwd (dd_types d) \<longrightarrow> alike (dd_types d) c i \<and> dd_map d ! unat c = c)"

definition ref_spec :: "nat \<Rightarrow> (u32 \<Rightarrow> btf_dedup \<Rightarrow> fault + (int \<times> btf_dedup)) \<Rightarrow> bool" where
  "ref_spec n rec \<longleftrightarrow> (\<forall>i d. pass_inv d \<longrightarrow> unat i < ntypes d \<longrightarrow> fresh_ids d < n \<longrightarrow>
     (\<exists>r d'. rec i d = Inr (r, d') \<and> advance d d' \<and> (0 \<le> r \<longrightarrow> ref_step None d d' \<and> known_id (dd_map d' ! unat i) \<and> canon_id d' i (of_int r))))"

lemma ref_specD:
  assumes "ref_spec n rec" "pass_inv d" "unat i < ntypes d" "fresh_ids d < n"
  obtains r d' where "rec i d = Inr (r, d')" "advance d d'" "0 \<le> r \<longrightarrow> ref_step None d d' \<and> known_id (dd_map d' ! unat i) \<and> canon_id d' i (of_int r)"
  using assms unfolding ref_spec_def by blast

text \<open>The places in \<open>Q\<close> have canonical ids already.\<close>

definition places_done :: "btf_dedup \<Rightarrow> u32 \<Rightarrow> nat set \<Rightarrow> bool" where
  "places_done d i Q \<longleftrightarrow> (no_fwd (dd_types d) \<longrightarrow> (\<forall>p\<in>Q. dd_map d ! unat (type_words (dd_types d ! unat i) ! p) = type_words (dd_types d ! unat i) ! p))"

lemma dedup_refs_ok:
  assumes "ref_spec n rec" "pass_inv d" "unat i < ntypes d" "dd_map d ! unat i = BTF_IN_PROGRESS_ID" "fresh_ids d < n"
    "set ps \<union> Q \<subseteq> set (id_places (dd_types d ! unat i))" "places_done d i Q"
  shows "\<exists>err d'. dedup_refs rec i ps d = Inr (err, d') \<and> advance d d' \<and> (0 \<le> err \<longrightarrow> err = 0 \<and> ref_step (Some i) d d' \<and> places_done d' i (set ps \<union> Q))"
  using assms(2-7)
proof (induction ps arbitrary: d Q)
  case Nil
  then show ?case using ref_step_refl advance_refl by (auto simp: pass_inv_def)
next
  case (Cons p ps)
  let ?t = "dd_types d ! unat i" let ?w = "type_words ?t ! p"
  have ok: "dd_ok d" using Cons.prems(1) by (simp add: pass_inv_def)
  have t: "typ_ok ?t" using types_okD(1) [OF dd_okD(1) [OF ok] Cons.prems(2)] .
  have p: "p \<in> set (id_places ?t)" using Cons.prems(5) by simp
  have w: "unat ?w < ntypes d" using types_okD(2) [OF dd_okD(1) [OF ok] Cons.prems(2)] p by (simp add: ref_ids_def)
  obtain r d1 where r: "rec ?w d = Inr (r, d1)" "advance d d1" "0 \<le> r \<longrightarrow> ref_step None d d1 \<and> known_id (dd_map d1 ! unat ?w) \<and> canon_id d1 ?w (of_int r)"
    by (rule ref_specD [OF assms(1) Cons.prems(1) w Cons.prems(4)])
  let ?d = "put_ref i p (of_int r) d1"
  have n1: "ntypes d1 = ntypes d" by (rule advance_ok [OF r(2)])
  have run: "dedup_refs rec i (p # ps) d = (if r < 0 then Inr (r, d1) else dedup_refs rec i ps ?d)"
    using Cons.prems(2) places_ok(1) [OF t p] r(1) n1 by (simp add: put_ref_def put_word_def del: bindR_eq_Inr)
  show ?case
  proof (cases "r < 0")
    case True
    then show ?thesis unfolding run using r(2) by simp
  next
    case False
    then have s: "ref_step None d d1" "canon_id d1 ?w (of_int r)" using r(3) by auto
    then have s1: "pass_inv d1" "map_grows d d1" "dd_map d1 ! unat i = BTF_IN_PROGRESS_ID" "dd_types d1 ! unat i = ?t" using Cons.prems(2,3) by (auto simp: ref_step_def)
    have new: "\<not> known_id (dd_map d1 ! unat i)" using s1(3) not_known(2) by simp
    have P: "advance d1 ?d" "pass_inv ?d" "map_grows d1 ?d"
      using s(2) p Cons.prems(2) n1 s1(4) by (intro put_ref_ok [OF s1(1) _ new]; simp add: canon_id_def)+
    have f: "dd_map ?d = dd_map d1" "ntypes ?d = ntypes d" by (simp_all add: put_ref_def n1)
    have "dd_types ?d ! unat j = dd_types d1 ! unat j" if "j \<noteq> i" for j using that by (simp add: put_ref_def word_unat_eq_iff)
    then have "ref_step (Some i) d1 ?d" using P unfolding ref_step_def fresh_def f by auto
    then have s2: "ref_step (Some i) d ?d" by (rule ref_step_trans [OF ref_step_weaken [OF s(1)]])
    have ti: "dd_types ?d ! unat i = put_word ?t p (of_int r)" using Cons.prems(2) n1 s1(4) by (simp add: put_ref_def)
    have "set ps \<union> insert p Q \<subseteq> set (id_places (dd_types ?d ! unat i))" using Cons.prems(5) unfolding ti put_word_ok(3) [OF t p] by auto
    moreover have "places_done ?d i (insert p Q)"
      unfolding places_done_def
    proof (intro impI ballI)
      fix q assume nf: "no_fwd (dd_types ?d)" and q: "q \<in> insert p Q"
      have nf': "no_fwd (dd_types d1)" "no_fwd (dd_types d)" using nf advance_no_fwd [OF P(1)] advance_no_fwd [OF r(2)] by auto
      show "dd_map ?d ! unat (type_words (dd_types ?d ! unat i) ! q) = type_words (dd_types ?d ! unat i) ! q"
      proof (cases "q = p")
        case True
        then show ?thesis using s(2) nf'(1) places_ok(1) [OF t p] unfolding f ti put_word_words by (simp add: canon_id_def)
      next
        case False
        let ?v = "type_words ?t ! q"
        have q': "q \<in> set (id_places ?t)" "dd_map d ! unat ?v = ?v" using q False Cons.prems(5,6) nf'(2) by (auto simp: places_done_def)
        have "unat ?v < ntypes d" using types_okD(2) [OF dd_okD(1) [OF ok] Cons.prems(2)] q'(1) by (simp add: ref_ids_def)
        then have "dd_map d1 ! unat ?v = ?v" using s1(2) q'(2) nf'(2) id_known [OF dd_okD(1) [OF ok]] by (simp add: map_grows_def)
        then show ?thesis using False unfolding f ti put_word_words by simp
      qed
    qed
    moreover have "fresh_ids ?d < n" using fresh_mono [OF s2] Cons.prems(4) by simp
    moreover have "dd_map ?d ! unat i = BTF_IN_PROGRESS_ID" "unat i < ntypes ?d" using s1(3) Cons.prems(2) f by auto
    ultimately obtain err d' where e: "dedup_refs rec i ps ?d = Inr (err, d')" "advance ?d d'" "0 \<le> err \<longrightarrow> err = 0 \<and> ref_step (Some i) ?d d' \<and> places_done d' i (set ps \<union> insert p Q)"
      using Cons.IH [OF P(2)] by blast
    moreover have "advance d d'" using advance_trans [OF r(2) advance_trans [OF P(1) e(2)]] .
    ultimately show ?thesis unfolding run using False ref_step_trans [OF s2] by auto
  qed
qed

section \<open>The kinds of reference types\<close>

lemma ref_kind_cong:
  assumes "bt_info t' = bt_info t"
  shows "ref_kind t' = ref_kind t"
proof -
  have "entry_places 2 1 t' = entry_places 2 1 t" using info_cong(2) [OF assms] by (simp add: entry_places_def)
  then show ?thesis by (simp only: ref_kind_def info_cong(1) [OF assms])
qed

lemma ref_kind_facts:
  assumes t: "typ_ok t" and k: "ref_kind t = Some (ps, hash, equal)"
  shows "ps = id_places t" "base_hash t = Inr (Some (hash t))" "typ_ok b \<Longrightarrow> equal t b \<Longrightarrow> b = t" "equal t t" "\<not> fwdish t" "\<not> btf_is_composite t"
proof -
  let ?k = "btf_kind t"
  have nf: "\<not> fwdish t" "\<not> btf_is_composite t"
    using k by (auto simp: ref_kind_def Let_def fwdish_def btf_is_composite_def btf_is_fwd_def btf_is_enum_fwd_def btf_is_any_enum_def btf_is_enum_def btf_is_enum64_def btf_kinds
      split: if_splits)
  then show "\<not> fwdish t" "\<not> btf_is_composite t" by auto
  consider (ref) "?k \<in> {BTF_KIND_CONST, BTF_KIND_VOLATILE, BTF_KIND_RESTRICT, BTF_KIND_PTR, BTF_KIND_TYPEDEF, BTF_KIND_FUNC, BTF_KIND_TYPE_TAG}"
      "ps = [2]" "hash = btf_hash_common" "equal = btf_equal_common"
    | (tag) "?k = BTF_KIND_DECL_TAG" "ps = [2]" "hash = btf_hash_int_decl_tag" "equal = btf_equal_int_tag"
    | (array) "?k = BTF_KIND_ARRAY" "ps = [3, 4]" "hash = btf_hash_array" "equal = btf_equal_array"
    | (proto) "?k = BTF_KIND_FUNC_PROTO" "ps = 2 # entry_places 2 1 t" "hash = btf_hash_fnproto" "equal = btf_equal_fnproto"
    using k by (auto simp: ref_kind_def Let_def split: if_splits)
  then have "ps = id_places t \<and> base_hash t = Inr (Some (hash t)) \<and> (typ_ok b \<longrightarrow> equal t b \<longrightarrow> b = t) \<and> equal t t"
  proof cases
    case ref
    have "typ_ok b \<Longrightarrow> btf_equal_common t b \<Longrightarrow> b = t" using equal_common_same [OF _ t] words_len(1) [OF t] ref(1) by auto
    moreover have "base_hash t = Inr (Some (btf_hash_common t))" using ref(1) by (elim insertE emptyE) (simp_all add: base_hash_def btf_kinds)
    moreover have "id_places t = [2]" using ref_ids_kind(1) [of t] ref(1) by blast
    ultimately show ?thesis using ref(2-4) by (simp add: btf_equal_common_def)
  next
    case tag
    have "typ_ok b \<Longrightarrow> btf_equal_int_tag t b \<Longrightarrow> b = t" using equal_int_tag_same [OF _ t] words_len(2) [OF t] tag(1) by auto
    then show ?thesis using tag ref_ids_kind(1) [of t] by (simp add: base_hash_def btf_kinds) (simp add: btf_equal_int_tag_def btf_equal_common_def)
  next
    case array
    have "typ_ok b \<Longrightarrow> btf_equal_array t b \<Longrightarrow> b = t" using equal_array_same [OF _ t _ array(1)] by auto
    then show ?thesis using array ref_ids_kind(2) [of t] by (simp add: base_hash_def btf_kinds) (simp add: btf_equal_array_def btf_equal_common_def)
  next
    case proto
    have "typ_ok b \<Longrightarrow> btf_equal_fnproto t b \<Longrightarrow> b = t" using equal_fnproto_same [OF _ t _ proto(1)] by auto
    then show ?thesis using proto ref_ids_kind(4) [of t] by (simp add: base_hash_def btf_kinds) (simp add: btf_equal_fnproto_def btf_equal_common_def list.rel_refl)
  qed
  then show "ps = id_places t" "base_hash t = Inr (Some (hash t))" "typ_ok b \<Longrightarrow> equal t b \<Longrightarrow> b = t" "equal t t" by auto
qed

section \<open>The pass\<close>

lemma root_self: "map_next m i = None \<Longrightarrow> unat i < length m \<Longrightarrow> known_id (m ! unat i) \<Longrightarrow> m ! unat i = i"
  by (auto simp: map_next_def split: if_splits)

lemma target_known: "targets_known d \<Longrightarrow> known_id (dd_map d ! unat i) \<Longrightarrow> (i, r) \<in> (map_edges (dd_map d))\<^sup>* \<Longrightarrow> known_id (dd_map d ! unat r)"
  by (erule rtranclE) (auto simp: targets_known_def map_edges_def)

lemma resolved_canon:
  assumes inv: "pass_inv d" and i: "unat i < ntypes d" "known_id (dd_map d ! unat i)"
  obtains r where "resolve_type_id d i = Inr r" "canon_id d i r"
proof -
  have ok: "dd_ok d" using inv by (simp add: pass_inv_def)
  obtain r where r: "resolve_type_id d i = Inr r" "unat r < ntypes d" "is_root (dd_map d) r" "(i, r) \<in> (map_edges (dd_map d))\<^sup>*" by (rule resolved [OF ok i(1)])
  have "alike (dd_types d) r i \<and> dd_map d ! unat r = r" if nf: "no_fwd (dd_types d)"
  proof -
    have "targets_known d" using inv nf by (simp add: pass_inv_def)
    then have "known_id (dd_map d ! unat r)" using i(2) r(4) by (rule target_known)
    then show ?thesis using resolved_alike [OF ok nf i(1) r(1)] r(3) by (auto simp: is_root_def intro: root_self)
  qed
  then show ?thesis using that r(1,2) by (simp add: canon_id_def)
qed

text \<open>The mark of a type on the way.\<close>

lemma mark_ok:
  assumes inv: "pass_inv d" and i: "unat i < ntypes d" "fresh d i"
  obtains d1 where "set_map i BTF_IN_PROGRESS_ID d = Inr d1" "ref_step None d d1" "dd_types d1 = dd_types d" "dd_map d1 ! unat i = BTF_IN_PROGRESS_ID" "fresh_ids d1 < fresh_ids d"
proof -
  let ?d = "d\<lparr>dd_map := (dd_map d)[unat i := BTF_IN_PROGRESS_ID]\<rparr>"
  have ok: "dd_ok d" and u: "uniq d" using inv by (simp_all add: pass_inv_def)
  have new: "\<not> known_id (dd_map d ! unat i)" "dd_map d ! unat i \<noteq> BTF_IN_PROGRESS_ID" using i(2) by (simp_all add: fresh_def)
  have len: "unat i < length (dd_map d)" using i(1) dd_okD(2) [OF ok] by simp
  have nth: "dd_map ?d ! unat j = (if j = i then BTF_IN_PROGRESS_ID else dd_map d ! unat j)" for j using len by (simp add: nth_list_update word_unat_eq_iff)
  have s: "set_map i BTF_IN_PROGRESS_ID d = Inr ?d" "advance d ?d"
    using not_known(2) new unknown_not_in_table [OF ok new(1)] by (intro set_map_ok [OF ok i(1)]; simp)+
  have fewer: "map_next (dd_map ?d) k = Some j \<Longrightarrow> j \<noteq> i \<and> map_next (dd_map d) k = Some j" if "targets_known d" for k j
    using that new(1) not_known(2) by (auto simp: map_next_update [OF len] targets_known_def split: if_splits)
  have "targets_known ?d" if tk: "targets_known d"
    unfolding targets_known_def nth
  proof (intro allI impI)
    fix x j assume "map_next (dd_map ?d) x = Some j"
    from fewer [OF tk this] show "known_id (if j = i then BTF_IN_PROGRESS_ID else dd_map d ! unat j)" using tk by (auto simp: targets_known_def)
  qed
  then have k: "map_grows d ?d" using new(1) unfolding map_grows_def nth by auto
  have "uniq ?d"
  proof (rule uniq_frame [OF u])
    fix j assume j: "unat j < ntypes d" "dd_map ?d ! unat j = j"
    then have "j \<noteq> i" using not_known(2) id_known [OF dd_okD(1) [OF ok] j(1)] unfolding nth by auto
    then show "dd_map d ! unat j = j \<and> dd_types ?d ! unat j = dd_types d ! unat j" using j(2) unfolding nth by simp
  qed simp_all
  then have "pass_inv ?d" by (intro pass_inv_step [OF inv s(2) k]) (simp_all add: in_table_def)
  moreover have fr: "fresh ?d j \<longleftrightarrow> fresh d j \<and> j \<noteq> i" for j unfolding fresh_def nth by auto
  ultimately have step: "ref_step None d ?d" using s(2) k unfolding ref_step_def nth by auto
  have "{j. unat j < ntypes ?d \<and> fresh ?d j} \<subset> {j. unat j < ntypes d \<and> fresh d j}" using i by (auto simp: fr)
  then have "fresh_ids ?d < fresh_ids d" unfolding fresh_ids_def by (rule psubset_card_mono [OF free_finite])
  then show ?thesis using that [OF s(1) step] len by simp
qed

text \<open>The end for a type whose ids are canonical: an equal candidate, or the type itself.\<close>

lemma finish_ref:
  assumes inv: "pass_inv d" and i: "own d i" "dd_map d ! unat i = BTF_IN_PROGRESS_ID" and k: "ref_kind (dd_types d ! unat i) = Some (ps, hash, equal)"
    and placed: "places_done d i (set (id_places (dd_types d ! unat i)))"
  shows "\<exists>new err d'. equal_cand equal (hash (dd_types d ! unat i)) (dd_types d ! unat i) i d = Inr new \<and>
    settle mem (hash (dd_types d ! unat i)) i new d = Inr (err, d') \<and> advance d d' \<and> known_id new \<and>
    (0 \<le> err \<longrightarrow> pass_inv d' \<and> map_grows d d' \<and> dd_types d' = dd_types d \<and> dd_map d' = (dd_map d)[unat i := new] \<and> canon_id d' i new)"
proof -
  let ?t = "dd_types d ! unat i" let ?h = "hash ?t"
  have ok: "dd_ok d" and u: "uniq d" using inv by (simp_all add: pass_inv_def)
  have t: "typ_ok ?t" using types_okD(1) [OF dd_okD(1) [OF ok]] i(1) by blast
  note K = ref_kind_facts [OF t k]
  have new: "\<not> known_id (dd_map d ! unat i)" using i(2) not_known(2) by simp
  have tab: "\<not> in_table d i" by (rule unknown_not_in_table [OF ok new])
  obtain c where c: "equal_cand equal ?h ?t i d = Inr c"
    "c = i \<and> (\<forall>j. (?h, j) \<in> table_elems (dd_table d) \<longrightarrow> \<not> equal ?t (dd_types d ! unat j)) \<or> (?h, c) \<in> table_elems (dd_table d) \<and> equal ?t (dd_types d ! unat c)"
    by (rule equal_cand_ok [OF ok])
  have cand: "unat c < ntypes d \<and> dd_types d ! unat c = ?t \<and> known_id (dd_map d ! unat c) \<and> map_next (dd_map d) c = None" if "c \<noteq> i"
  proof -
    have e: "(?h, c) \<in> table_elems (dd_table d)" "equal ?t (dd_types d ! unat c)" using c(2) that by auto
    note f = elem_facts [OF ok e(1)]
    have "dd_types d ! unat c = ?t" by (rule K(3) [OF types_okD(1) [OF dd_okD(1) [OF ok] f(1)] e(2)])
    then show ?thesis using f K(5) by simp
  qed
  have c': "unat c < ntypes d" "c = i \<or> (c, i) \<notin> (map_edges (dd_map d))\<^sup>*" "alike (dd_types d) c i"
    using cand i(1) root_no_path [of "dd_map d" c i] same_type_alike [of c "dd_types d" i] by (auto simp: alike_def)
  obtain err d' where s: "settle mem ?h i c d = Inr (err, d')" "advance d d'" "dd_types d' = dd_types d" "dd_map d' = (dd_map d)[unat i := c]" "err = 0 \<or> err = - ENOMEM"
      "table_elems (dd_table d') \<subseteq> insert (?h, i) (table_elems (dd_table d))"
      "err = 0 \<longrightarrow> table_elems (dd_table d') = (if c = i then insert (?h, i) (table_elems (dd_table d)) else table_elems (dd_table d))"
    using settle_ok [OF ok, of i c mem ?h] i(1) tab c' by blast
  have len: "unat i < length (dd_map d)" using i(1) dd_okD(2) [OF ok] by simp
  have nth: "dd_map d' ! unat j = (if j = i then c else dd_map d ! unat j)" for j using len s(4) by (simp add: nth_list_update word_unat_eq_iff)
  have kc: "known_id c" by (rule id_known [OF dd_okD(1) [OF ok] c'(1)])
  have "targets_known d'" if "targets_known d"
    using that cand kc unfolding targets_known_def nth by (auto simp: s(4) map_next_update [OF len] split: if_splits)
  then have map_grows: "map_grows d d'" using new unfolding map_grows_def nth by auto
  have self: "dd_map d' ! unat c = c" using cand root_self [of "dd_map d" c] dd_okD(2) [OF ok] unfolding nth by auto
  have canon: "canon_id d' i c" using c' self s(3) by (simp add: canon_id_def)
  have "uniq d'" if "err = 0"
  proof (rule uniq_settle [where d = d and new = c and h = ?h, OF ok u i(1) K(2) _ s(3) advance_ok(3) [OF s(2)] s(4)])
    show "dd_types d ! unat j \<noteq> ?t" if "c = i" "(?h, j) \<in> table_elems (dd_table d)" for j
      using c(2) K(4) that in_tableI tab by metis
  qed (use s(7) that in simp)
  moreover have "canonical d' (dd_types d' ! unat i)" if "no_fwd (dd_types d')"
  proof -
    have "dd_map d' ! unat r = r" if "r \<in> set (ref_ids ?t)" for r
    proof -
      have r: "unat r < ntypes d" by (rule types_okD(2) [OF dd_okD(1) [OF ok] _ that]) (use i(1) in simp)
      have "dd_map d ! unat r = r" using placed that \<open>no_fwd (dd_types d')\<close> s(3) by (auto simp: places_done_def ref_ids_def)
      then show ?thesis using map_grows id_known [OF dd_okD(1) [OF ok] r] r \<open>no_fwd (dd_types d')\<close> s(3) by (simp add: map_grows_def)
    qed
    then show ?thesis using s(3) by (simp add: canonical_def)
  qed
  moreover have "in_table d j \<or> j = i" if "in_table d' j" for j using that s(6) by (auto simp: in_table_def)
  ultimately have "pass_inv d'" if "err = 0" using that by (intro pass_inv_step [OF inv s(2) map_grows]) blast+
  then show ?thesis using c(1) s(1-5) map_grows canon kc by (auto simp: ENOMEM_def)
qed

declare btf_dedup_ref_type.simps [simp del]

lemma ref_type_step:
  assumes rec: "ref_spec n (btf_dedup_ref_type mem n)" and inv: "pass_inv d" and i: "unat i < ntypes d" and n: "fresh_ids d < Suc n"
  shows "\<exists>r d'. btf_dedup_ref_type mem (Suc n) i d = Inr (r, d') \<and> advance d d' \<and>
    (0 \<le> r \<longrightarrow> ref_step None d d' \<and> known_id (dd_map d' ! unat i) \<and> canon_id d' i (of_int r))"
proof -
  let ?m = "dd_map d ! unat i" let ?t = "dd_types d ! unat i"
  have ok: "dd_ok d" using inv by (simp add: pass_inv_def)
  have at: "at_id (dd_map d) i = Inr ?m" "at_id (dd_types d) i = Inr ?t" using i dd_okD(2) [OF ok] by simp_all
  note run = btf_dedup_ref_type.simps(2) [of mem n i d, unfolded at bindR.simps]
  consider (loop) "?m = BTF_IN_PROGRESS_ID" | (known) "?m \<noteq> BTF_IN_PROGRESS_ID" "known_id ?m" | (fresh) "fresh d i" by (auto simp: fresh_def)
  then show ?thesis
  proof cases
    case loop
    then show ?thesis using advance_refl [OF ok] by (simp add: run ELOOP_def)
  next
    case known
    obtain r where r: "resolve_type_id d i = Inr r" "canon_id d i r" by (rule resolved_canon [OF inv i known(2)])
    then show ?thesis using known advance_refl [OF ok] ref_step_refl [OF inv] by (simp add: run)
  next
    case fresh
    have own: "own d i" using inv fresh i by (force simp: pass_inv_def fresh_def)
    obtain d1 where m: "set_map i BTF_IN_PROGRESS_ID d = Inr d1" "ref_step None d d1" "dd_types d1 = dd_types d" "dd_map d1 ! unat i = BTF_IN_PROGRESS_ID" "fresh_ids d1 < fresh_ids d"
      by (rule mark_ok [OF inv i fresh])
    have a1: "advance d d1" "pass_inv d1" using m(2) by (simp_all add: ref_step_def)
    show ?thesis
    proof (cases "ref_kind ?t")
      case None
      then show ?thesis using fresh m(1) a1(1) by (simp add: run fresh_def EINVAL_def)
    next
      case (Some k)
      obtain ps hash equal where k: "ref_kind ?t = Some (ps, hash, equal)" using Some by (cases k) auto
      have ps: "ps = id_places ?t" by (rule ref_kind_facts [OF types_okD(1) [OF dd_okD(1) [OF ok] i] k])
      have "fresh_ids d1 < n" "unat i < ntypes d1" "set ps \<union> {} \<subseteq> set (id_places (dd_types d1 ! unat i))" "places_done d1 i {}"
        using m(3,5) n i ps by (auto simp: places_done_def)
      then obtain err d2 where e: "dedup_refs (btf_dedup_ref_type mem n) i ps d1 = Inr (err, d2)" "advance d1 d2"
          "0 \<le> err \<longrightarrow> err = 0 \<and> ref_step (Some i) d1 d2 \<and> places_done d2 i (set ps)"
        using dedup_refs_ok [OF rec a1(2) _ m(4)] by (metis Un_empty_right)
      have a2: "advance d d2" by (rule advance_trans [OF a1(1) e(2)])
      let ?t2 = "dd_types d2 ! unat i"
      have run2: "btf_dedup_ref_type mem (Suc n) i d = (if err < 0 then Inr (err, d2)
          else bindR (equal_cand equal (hash ?t2) ?t2 i d2) (\<lambda>new. bindR (settle mem (hash ?t2) i new d2) (\<lambda>(err, d). Inr (if err < 0 then err else sint new, d))))"
        using fresh m(1) k e(1) i advance_ok(2) [OF a2] by (simp add: run fresh_def del: bindR_eq_Inr)
      show ?thesis
      proof (cases "err < 0")
        case True
        then show ?thesis using run2 a2 by simp
      next
        case False
        then have s2: "ref_step (Some i) d1 d2" "places_done d2 i (set ps)" using e(3) by auto
        have i2: "dd_map d2 ! unat i = BTF_IN_PROGRESS_ID" "pass_inv d2" "own d2 i" using s2(1) i m(3,4) own advance_ok(2,3) [OF a2] by (auto simp: ref_step_def)
        have info: "bt_info ?t2 = bt_info ?t" using a2 i by (simp add: advance_def)
        have k2: "ref_kind ?t2 = Some (ps, hash, equal)" using k ref_kind_cong [OF info] by simp
        have "places_done d2 i (set (id_places ?t2))" using s2(2) ps info_cong(3) [OF info] by simp
        from finish_ref [OF i2(2,3,1) k2 this, of mem] obtain new err' d' where f: "equal_cand equal (hash ?t2) ?t2 i d2 = Inr new" "settle mem (hash ?t2) i new d2 = Inr (err', d')"
            "advance d2 d'" "known_id new"
            "0 \<le> err' \<longrightarrow> pass_inv d' \<and> map_grows d2 d' \<and> dd_types d' = dd_types d2 \<and> dd_map d' = (dd_map d2)[unat i := new] \<and> canon_id d' i new" by blast
        have run3: "btf_dedup_ref_type mem (Suc n) i d = Inr (if err' < 0 then err' else sint new, d')" using run2 False f(1,2) by (simp del: bindR_eq_Inr)
        have a3: "advance d d'" by (rule advance_trans [OF a2 f(3)])
        show ?thesis
        proof (cases "err' < 0")
          case True
          then show ?thesis using run3 a3 by simp
        next
          case False
          then have g: "pass_inv d'" "map_grows d2 d'" "dd_types d' = dd_types d2" "dd_map d' = (dd_map d2)[unat i := new]" "canon_id d' i new" using f(5) by auto
          have len: "unat i < length (dd_map d2)" using i2(3) i2(2) dd_okD(2) by (auto simp: pass_inv_def)
          have nth: "dd_map d' ! unat j = (if j = i then new else dd_map d2 ! unat j)" for j using len g(4) by (simp add: nth_list_update word_unat_eq_iff)
          have s3: "ref_step (Some i) d d2" by (rule ref_step_trans [OF ref_step_weaken [OF m(2)] s2(1)])
          have "map_grows d d'" using s3 by (intro map_grows_trans [OF _ g(2) a2]) (simp add: ref_step_def)
          moreover have "fresh d j" if "fresh d' j" "unat j < ntypes d" for j
          proof -
            have "j \<noteq> i" using that(1) f(4) unfolding fresh_def nth by auto
            then have "fresh d2 j" using that(1) unfolding fresh_def nth by simp
            then show ?thesis using s3 that(2) unfolding ref_step_def by blast
          qed
          moreover have "dd_map d' ! unat j = BTF_IN_PROGRESS_ID \<and> dd_types d' ! unat j = dd_types d ! unat j"
            if j: "unat j < ntypes d" "dd_map d ! unat j = BTF_IN_PROGRESS_ID" for j :: u32
          proof -
            have "j \<noteq> i" using j(2) fresh by (auto simp: fresh_def)
            then show ?thesis using s3 j unfolding nth g(3) by (simp add: ref_step_def)
          qed
          ultimately have "ref_step None d d'" using a3 g(1) unfolding ref_step_def by blast
          then show ?thesis using run3 False a3 g(5) f(4) nth by simp
        qed
      qed
    qed
  qed
qed

lemma ref_type_ok: "ref_spec n (btf_dedup_ref_type mem n)"
proof (induction n)
  case 0
  then show ?case by (simp add: ref_spec_def)
next
  case (Suc n)
  show ?case unfolding ref_spec_def using ref_type_step [OF Suc.IH] by blast
qed

lemma fresh_bound: "fresh_ids d \<le> ntypes d"
proof -
  have "fresh_ids d \<le> card {i :: u32. unat i < ntypes d}" unfolding fresh_ids_def by (rule card_mono [OF free_finite]) auto
  then show ?thesis using card_ids [of "ntypes d"] by simp
qed

text \<open>After the pass every id is in the canonical map.\<close>

lemma ref_types_ok:
  assumes inv: "pass_inv d"
  shows "\<exists>ret d'. btf_dedup_ref_types mem d = Inr (ret, d') \<and> advance d d' \<and>
    (0 \<le> ret \<longrightarrow> ret = 0 \<and> pass_inv d' \<and> (\<forall>j :: u32. unat j < ntypes d' \<longrightarrow> known_id (dd_map d' ! unat j)))"
proof -
  let ?f = "btf_dedup_ref_type mem (Suc (ntypes d))"
  let ?I = "\<lambda>k d'. pass_inv d' \<and> dd_start_id d' = dd_start_id d \<and> ntypes d' = ntypes d \<and> (\<forall>j :: u32. unat j < k \<longrightarrow> known_id (dd_map d' ! unat j))"
  have ok: "dd_ok d1" if "pass_inv d1" for d1 using that by (simp add: pass_inv_def)
  have "\<exists>ret d'. each_id ?f (own_ids d) d = Inr (ret, d') \<and> advance d d' \<and> (0 \<le> ret \<longrightarrow> ret = 0 \<and> ?I (ntypes d) d')"
  proof (rule each_id_ok [where I = ?I])
    fix k d1 assume k: "dd_start_id d \<le> k" "k < ntypes d" and I: "?I k d1"
    let ?i = "of_nat k :: u32"
    have i: "unat ?i = k" using k I unat_id [OF dd_okD(1) [OF ok], of d1 k] by simp
    have "fresh_ids d1 < Suc (ntypes d)" using fresh_bound [of d1] I by simp
    then obtain r d' where r: "?f ?i d1 = Inr (r, d')" "advance d1 d'" "0 \<le> r \<longrightarrow> ref_step None d1 d' \<and> known_id (dd_map d' ! unat ?i) \<and> canon_id d' ?i (of_int r)"
      using ref_specD [OF ref_type_ok, of d1 ?i "Suc (ntypes d)" mem] I k(2) i by metis
    have "?I (Suc k) d'" if "0 \<le> r"
    proof -
      have s: "pass_inv d'" "known_id (dd_map d' ! unat ?i)" using r(3) that by (auto simp: ref_step_def)
      have "known_id (dd_map d' ! unat j)" if "unat j < Suc k" for j :: u32
      proof (cases "j = ?i")
        case False
        then have "unat j < k" using that i by (metis less_SucE word_unat_eq_iff)
        then show ?thesis using advance_known(1) [OF r(2), of j] I k(2) by simp
      qed (use s(2) in simp)
      then show ?thesis using s(1) I advance_ok(2,3) [OF r(2)] by simp
    qed
    then show "\<exists>ret d'. ?f ?i d1 = Inr (ret, d') \<and> advance d1 d' \<and> (0 \<le> ret \<longrightarrow> ?I (Suc k) d')" using r(1,2) by blast
  qed (use inv ok dd_okD(7) in \<open>auto simp: pass_inv_def\<close>)
  then show ?thesis unfolding btf_dedup_ref_types_def by (metis (no_types, lifting))
qed

end
