(* ===== verification/Dedup_Result.thy ===== *)
theory Dedup_Result
  imports Dedup_Ref
begin

text \<open>
  Compaction and the rewriting of ids, and what the passes together give: they always return; without forward declarations every type
  unfolds as before under its new id, and the types other than structures and unions are pairwise different.
\<close>

section \<open>Compaction\<close>

lemma new_ids_ok:
  assumes "distinct is" "\<forall>i\<in>set is. i < length m"
  shows "length (new_ids n is m) = length m \<and> (\<forall>k<length is. new_ids n is m ! (is ! k) = of_nat (n + k)) \<and> (\<forall>j. j \<notin> set is \<longrightarrow> new_ids n is m ! j = m ! j)"
  using assms
proof (induction "is" arbitrary: n m)
  case (Cons i "is")
  let ?m = "m[i := of_nat n]"
  have IH: "length (new_ids (Suc n) is ?m) = length m" "\<forall>k<length is. new_ids (Suc n) is ?m ! (is ! k) = of_nat (Suc n + k)"
      "\<forall>j. j \<notin> set is \<longrightarrow> new_ids (Suc n) is ?m ! j = ?m ! j"
    using Cons.IH [of ?m "Suc n"] Cons.prems by auto
  have "new_ids n (i # is) m ! ((i # is) ! k) = of_nat (n + k)" if "k < length (i # is)" for k
    using that IH(2,3) Cons.prems by (cases k) auto
  moreover have "new_ids n (i # is) m ! j = m ! j" if "j \<notin> set (i # is)" for j using that IH(3) by simp
  ultimately show ?case using IH(1) by simp
qed simp

text \<open>The id a type of the compacted table had before.\<close>

definition orig :: "btf_dedup \<Rightarrow> nat \<Rightarrow> nat" where
  "orig d j = (if j < dd_start_id d then j else kept_ids d ! (j - dd_start_id d))"

definition compact_len :: "btf_dedup \<Rightarrow> nat" where
  "compact_len d = dd_start_id d + length (kept_ids d)"

lemma kept_facts:
  assumes ok: "dd_ok d"
  shows "distinct (kept_ids d)" "i \<in> set (kept_ids d) \<longleftrightarrow> dd_start_id d \<le> i \<and> i < ntypes d \<and> dd_map d ! i = of_nat i" "length (kept_ids d) \<le> ntypes d - dd_start_id d"
  using length_filter_le [of "\<lambda>i. dd_map d ! i = of_nat i" "own_ids d"] by (auto simp: kept_ids_def)

lemma orig_facts:
  assumes ok: "dd_ok d" and j: "j < compact_len d"
  shows "orig d j < ntypes d" "dd_start_id d \<le> j \<Longrightarrow> dd_start_id d \<le> orig d j \<and> dd_map d ! orig d j = of_nat (orig d j)"
    "j' < compact_len d \<Longrightarrow> orig d j = orig d j' \<Longrightarrow> j = j'"
proof -
  have k: "dd_start_id d \<le> orig d j \<and> orig d j < ntypes d \<and> dd_map d ! orig d j = of_nat (orig d j)" if "dd_start_id d \<le> j" "j < compact_len d" for j
  proof -
    have "j - dd_start_id d < length (kept_ids d)" using that by (simp add: compact_len_def)
    then show ?thesis using nth_mem [of "j - dd_start_id d" "kept_ids d"] that(1) kept_facts(2) [OF ok, of "orig d j"] by (simp add: orig_def)
  qed
  show "orig d j < ntypes d" using k [OF _ j] dd_okD(7) [OF ok] by (cases "j < dd_start_id d") (auto simp: orig_def)
  show "dd_start_id d \<le> j \<Longrightarrow> dd_start_id d \<le> orig d j \<and> dd_map d ! orig d j = of_nat (orig d j)" using k [OF _ j] by blast
  show "j = j'" if "j' < compact_len d" "orig d j = orig d j'"
  proof (cases "j < dd_start_id d \<or> j' < dd_start_id d")
    case True
    then show ?thesis using that k [of j] k [of j'] j by (auto simp: orig_def split: if_splits)
  next
    case False
    then have "kept_ids d ! (j - dd_start_id d) = kept_ids d ! (j' - dd_start_id d)" using that(2) by (simp add: orig_def)
    moreover have "j - dd_start_id d < length (kept_ids d)" "j' - dd_start_id d < length (kept_ids d)" using False j that(1) by (auto simp: compact_len_def)
    ultimately have "j - dd_start_id d = j' - dd_start_id d" using nth_eq_iff_index_eq [OF kept_facts(1) [OF ok]] by blast
    then show ?thesis using False by linarith
  qed
qed

text \<open>A type that is its own canonical type has its new place in the compacted table.\<close>

definition place_ok :: "btf_dedup \<Rightarrow> u32 list \<Rightarrow> u32 \<Rightarrow> bool" where
  "place_ok d m r \<longleftrightarrow> unat (m ! unat r) < compact_len d \<and> orig d (unat (m ! unat r)) = unat r"

lemma compact_ok:
  assumes ok: "dd_ok d" and run: "btf_dedup_compact_types realloc_ok d = (ret, d1)" and ret: "0 \<le> ret"
  shows "ret = 0" "dd_map d1 = dd_map d" "dd_start_id d1 = dd_start_id d" "length (dd_hypot_map d1) = ntypes d" "ntypes d1 = compact_len d"
    "j < compact_len d \<Longrightarrow> dd_types d1 ! j = dd_types d ! orig d j" "dd_start_id d \<le> j \<Longrightarrow> j < compact_len d \<Longrightarrow> words_ok (type_words (dd_types d1 ! j))"
    "unat r < ntypes d \<Longrightarrow> dd_map d ! unat r = r \<Longrightarrow> place_ok d (dd_hypot_map d1) r"
proof -
  let ?s = "dd_start_id d" let ?kept = "kept_ids d"
  let ?start = "map of_nat [0..<?s] @ replicate (ntypes d - ?s) BTF_UNPROCESSED_ID :: u32 list"
  note K = kept_facts [OF ok] and s = dd_okD(7) [OF ok] and T = dd_okD(1) [OF ok]
  have bad: "filter (\<lambda>i. btf_type_size (dd_types d ! i) < 0) ?kept = []"
  proof (rule ccontr)
    assume b: "filter (\<lambda>i. btf_type_size (dd_types d ! i) < 0) ?kept \<noteq> []"
    then have "btf_type_size (dd_types d ! hd (filter (\<lambda>i. btf_type_size (dd_types d ! i) < 0) ?kept)) < 0" using hd_in_set [OF b] by simp
    then show False using run ret b by (simp add: btf_dedup_compact_types_def Let_def)
  qed
  then have d1: "d1 = d\<lparr>dd_hypot_map := new_ids ?s ?kept ?start, dd_types := take ?s (dd_types d) @ map ((!) (dd_types d)) ?kept\<rparr>" and "ret = 0"
    using run ret by (auto simp: btf_dedup_compact_types_def Let_def ENOMEM_def split: if_splits)
  have len: "length ?start = ntypes d" using s by simp
  note N = new_ids_ok [OF K(1), of ?start ?s]
  have N': "length (dd_hypot_map d1) = ntypes d" "\<And>k. k < length ?kept \<Longrightarrow> dd_hypot_map d1 ! (?kept ! k) = of_nat (?s + k)" "\<And>j. j \<notin> set ?kept \<Longrightarrow> dd_hypot_map d1 ! j = ?start ! j"
    using N K(2) unfolding d1 len by simp_all
  show "ret = 0" "dd_map d1 = dd_map d" "dd_start_id d1 = ?s" "length (dd_hypot_map d1) = ntypes d" using \<open>ret = 0\<close> N'(1) by (simp_all add: d1)
  show nt: "ntypes d1 = compact_len d" using s by (simp add: d1 compact_len_def)
  have ty: "dd_types d1 ! j = dd_types d ! orig d j" if "j < compact_len d" for j using that s by (simp add: d1 orig_def nth_append compact_len_def)
  then show "j < compact_len d \<Longrightarrow> dd_types d1 ! j = dd_types d ! orig d j" .
  show "words_ok (type_words (dd_types d1 ! j))" if j: "?s \<le> j" "j < compact_len d"
  proof -
    have o: "orig d j \<in> set ?kept" "orig d j < ntypes d" using orig_facts [OF ok j(2)] j(1) K(2) by auto
    then have "\<not> btf_type_size (dd_types d ! orig d j) < 0" using bad by (auto simp: filter_empty_conv)
    moreover have "typ_ok (dd_types d ! orig d j)" using T o(2) by (simp add: types_ok_def)
    ultimately show ?thesis using ty [OF j(2)] by (auto simp: typ_ok_def btf_type_size_def void_facts btf_kinds Let_def EINVAL_def)
  qed
  show "place_ok d (dd_hypot_map d1) r" if r: "unat r < ntypes d" "dd_map d ! unat r = r"
  proof (cases "unat r < ?s")
    case True
    then have "dd_hypot_map d1 ! unat r = r" using N'(3) [of "unat r"] K(2) by (simp add: nth_append)
    then show ?thesis using True by (simp add: place_ok_def orig_def compact_len_def)
  next
    case False
    then have "unat r \<in> set ?kept" using r K(2) by simp
    then obtain k where k: "k < length ?kept" "?kept ! k = unat r" by (auto simp: in_set_conv_nth)
    have "?s + k < ntypes d" using k(1) K(3) s by simp
    then have "unat (dd_hypot_map d1 ! unat r) = ?s + k" using N'(2) [OF k(1)] k(2) unat_id [OF T, of "?s + k"] by (simp del: of_nat_add)
    then show ?thesis using k by (simp add: place_ok_def orig_def compact_len_def)
  qed
qed

section \<open>New ids\<close>

definition final_id :: "btf_dedup \<Rightarrow> u32 \<Rightarrow> u32" where
  "final_id d w = (case resolve_type_id d w of Inl _ \<Rightarrow> 0 | Inr r \<Rightarrow> dd_hypot_map d ! unat r)"

definition remappable :: "nat \<Rightarrow> btf_dedup \<Rightarrow> bool" where
  "remappable n d \<longleftrightarrow> (\<forall>w. unat w < n \<longrightarrow> (\<exists>r. resolve_type_id d w = Inr r \<and> unat r < length (dd_hypot_map d) \<and> known_id (dd_hypot_map d ! unat r)))"

lemma remap_id_ok: "remappable n d \<Longrightarrow> unat w < n \<Longrightarrow> btf_dedup_remap_type_id w d = Inr (0, final_id d w, d)"
  unfolding remappable_def by (force simp: btf_dedup_remap_type_id_def final_id_def)

interpretation remap: visitor btf_dedup_remap_type_id "remappable n" "(=)" "\<lambda>d w w'. w' = final_id d w" "\<lambda>w. unat w < n" "\<lambda>_ _. False" for n
  by unfold_locales (auto simp: remap_id_ok)

lemma remap_not_runs_out: "\<not> runs_out btf_dedup_remap_type_id"
proof
  assume "runs_out btf_dedup_remap_type_id"
  then obtain w d w' d' where "btf_dedup_remap_type_id w d = Inr (- ENOMEM, w', d')" by (auto simp: runs_out_def)
  then show False by (auto simp: btf_dedup_remap_type_id_def ENOMEM_def EINVAL_def split: if_splits)
qed

definition map_ids :: "(u32 \<Rightarrow> u32) \<Rightarrow> btf_type \<Rightarrow> btf_type" where
  "map_ids f t = type_of_words (map (\<lambda>p. if p \<in> set (id_places t) then f (type_words t ! p) else type_words t ! p) [0..<length (type_words t)])"

lemma map_ids_words: "type_words (map_ids f t) = map (\<lambda>p. if p \<in> set (id_places t) then f (type_words t ! p) else type_words t ! p) [0..<length (type_words t)]"
  unfolding map_ids_def by (rule type_words_of_words) simp

lemma map_ids_ok:
  assumes t: "typ_ok t"
  shows "bt_info (map_ids f t) = bt_info t" "typ_ok (map_ids f t)" "id_places (map_ids f t) = id_places t" "label (map_ids f t) = label t" "ref_ids (map_ids f t) = map f (ref_ids t)"
proof -
  note P = places_ok [OF t]
  have "1 < length (type_words t)" by simp
  then have w1: "type_words (map_ids f t) ! 1 = type_words t ! 1" using P(2) unfolding map_ids_words by (auto simp del: type_words_nth)
  then show info: "bt_info (map_ids f t) = bt_info t" by simp
  then show places: "id_places (map_ids f t) = id_places t" by (rule info_cong)
  show "typ_ok (map_ids f t)"
  proof (cases "t = btf_void")
    case True
    then have "map_ids f t = t" by (intro type_words_inj) (simp add: map_ids_words void_facts map_nth del: type_words_nth(6))
    then show ?thesis using t by simp
  next
    case False
    then have ws: "words_ok (type_words t)" using t by (simp add: typ_ok_def)
    have "words_ok (type_words (map_ids f t))" by (rule words_ok_same_info [OF ws _ w1]) (simp add: map_ids_words)
    then show ?thesis by (simp add: typ_ok_def)
  qed
  show "label (map_ids f t) = label t" unfolding label_def places map_ids_words by auto
  show "ref_ids (map_ids f t) = map f (ref_ids t)" unfolding ref_ids_def places map_ids_words using P(1) by (auto simp del: type_words_nth(6))
qed

lemma map_ids_words_ok:
  assumes "words_ok (type_words t)"
  shows "words_ok (type_words (map_ids f t))"
proof (rule words_ok_same_info [OF assms])
  have "typ_ok t" using assms by (simp add: typ_ok_def)
  then show "type_words (map_ids f t) ! 1 = type_words t ! 1" using map_ids_ok(1) by simp
qed (simp add: map_ids_words)

text \<open>The shape and the ids are all of a type.\<close>

lemma type_eqI:
  assumes "typ_ok a" "typ_ok b" "bt_info a = bt_info b" "label a = label b" "ref_ids a = ref_ids b"
  shows "a = b"
proof (rule type_words_inj, rule nth_equalityI)
  show len: "length (type_words a) = length (type_words b)" using same_info_len [OF assms(1-3)] by simp
  fix p assume p: "p < length (type_words a)"
  have pl: "id_places a = id_places b" by (rule info_cong [OF assms(3)])
  show "type_words a ! p = type_words b ! p"
  proof (cases "p \<in> set (id_places a)")
    case True
    then show ?thesis using assms(5) pl by (auto simp: ref_ids_def)
  next
    case False
    have "label a ! p = label b ! p" using assms(4) by simp
    then show ?thesis using False p len pl by (simp add: label_def del: type_words_nth(6))
  qed
qed

lemma remap_type_ok:
  assumes r: "remappable n d" and i: "unat i < ntypes d" and t: "words_ok (type_words (dd_types d ! unat i))" "\<forall>r\<in>set (ref_ids (dd_types d ! unat i)). unat r < n"
  shows "remap_type i d = Inr (0, d\<lparr>dd_types := (dd_types d)[unat i := map_ids (final_id d) (dd_types d ! unat i)]\<rparr>)"
proof -
  let ?t = "dd_types d ! unat i" let ?ws = "type_words ?t"
  obtain ps where ps: "type_id_places ?t = Some ps" "distinct ps" "\<forall>p\<in>set ps. p < length ?ws \<and> p \<noteq> 1" using type_id_places_ok [OF t(1)] by auto
  have id: "id_places ?t = ps" by (simp add: id_places_def ps(1))
  have "\<forall>p\<in>set ps. p < length ?ws \<and> unat (?ws ! p) < n" using ps(3) t(2) by (simp add: ref_ids_def id)
  from remap.visit_at_ok [OF r this ps(2)] remap_not_runs_out obtain ws where ws: "visit_at btf_dedup_remap_type_id ps ?ws d = Inr (0, ws, d)" "length ws = length ?ws"
      "\<forall>p<length ?ws. p \<notin> set ps \<longrightarrow> ws ! p = ?ws ! p" "\<forall>p\<in>set ps. ws ! p = final_id d (?ws ! p)" by auto
  have "ws = type_words (map_ids (final_id d) ?t)"
    by (rule nth_equalityI) (use ws in \<open>auto simp: map_ids_words id simp del: type_words_nth(6)\<close>)
  then have "type_of_words ws = map_ids (final_id d) ?t" by simp
  then show ?thesis using i ws(1) ps(1) by (simp add: remap_type_def btf_type_visit_type_ids_def del: bindR_eq_Inr)
qed

text \<open>The loop rewrites the types from \<open>a\<close> on.\<close>

lemma remap_loop:
  assumes "remappable n d" "ntypes d \<le> 0x7FFFFFFF" "\<And>j. a \<le> j \<Longrightarrow> j < ntypes d \<Longrightarrow> words_ok (type_words (dd_types d ! j)) \<and> (\<forall>r\<in>set (ref_ids (dd_types d ! j)). unat r < n)" "a \<le> ntypes d"
  shows "\<exists>ts. each_id remap_type [a..<ntypes d] d = Inr (0, d\<lparr>dd_types := ts\<rparr>) \<and> length ts = ntypes d \<and>
    (\<forall>j<ntypes d. ts ! j = (if a \<le> j then map_ids (final_id d) (dd_types d ! j) else dd_types d ! j))"
  using assms
proof (induction "ntypes d - a" arbitrary: a d)
  case 0
  then show ?case by (intro exI [of _ "dd_types d"]) auto
next
  case (Suc m)
  let ?t = "map_ids (final_id d) (dd_types d ! a)" let ?d = "d\<lparr>dd_types := (dd_types d)[a := ?t]\<rparr>"
  have a: "a < ntypes d" "[a..<ntypes d] = a # [Suc a..<ntypes d]" using Suc.hyps(2) by (simp_all add: upt_rec)
  have u: "unat (of_nat a :: u32) = a" using a(1) Suc.prems(2) by (simp add: unsigned_of_nat take_bit_nat_eq_self)
  have one: "remap_type (of_nat a) d = Inr (0, ?d)" using remap_type_ok [OF Suc.prems(1), of "of_nat a"] Suc.prems(3) [of a] a(1) by (simp add: u)
  have f: "final_id ?d = final_id d" by (rule ext) (simp add: final_id_def resolve_frame [of ?d d] split: sum.split)
  have rest: "words_ok (type_words (dd_types ?d ! j)) \<and> (\<forall>r\<in>set (ref_ids (dd_types ?d ! j)). unat r < n)" if "Suc a \<le> j" "j < ntypes ?d" for j
    using Suc.prems(3) [of j] that by simp
  have "remappable n ?d" using Suc.prems(1) by (simp add: remappable_def resolve_frame [of ?d d])
  then have "\<exists>ts. each_id remap_type [Suc a..<ntypes ?d] ?d = Inr (0, ?d\<lparr>dd_types := ts\<rparr>) \<and> length ts = ntypes ?d \<and>
    (\<forall>j<ntypes ?d. ts ! j = (if Suc a \<le> j then map_ids (final_id ?d) (dd_types ?d ! j) else dd_types ?d ! j))"
    using Suc.hyps(2) Suc.prems(2) a(1) by (intro Suc.hyps(1) rest) auto
  then obtain ts where ts: "each_id remap_type [Suc a..<ntypes d] ?d = Inr (0, d\<lparr>dd_types := ts\<rparr>)" "length ts = ntypes d"
      "\<forall>j<ntypes d. ts ! j = (if Suc a \<le> j then map_ids (final_id d) ((dd_types d)[a := ?t] ! j) else (dd_types d)[a := ?t] ! j)" by (auto simp: f)
  have "ts ! j = (if a \<le> j then map_ids (final_id d) (dd_types d ! j) else dd_types d ! j)" if "j < ntypes d" for j
    using ts(3) that by (cases "j = a") (auto simp: nth_list_update)
  then show ?case unfolding a(2) using one ts(1,2) by auto
qed

section \<open>The result\<close>

text \<open>The table at the end, by the new ids \<open>f\<close>.\<close>

definition renumbered :: "btf_dedup \<Rightarrow> (u32 \<Rightarrow> u32) \<Rightarrow> btf_type list \<Rightarrow> bool" where
  "renumbered d f ts \<longleftrightarrow> length ts = compact_len d \<and> (\<forall>j<length ts. ts ! j = (if j < dd_start_id d then dd_types d ! j else map_ids f (dd_types d ! orig d j))) \<and>
     (\<forall>j<length ts. dd_start_id d \<le> j \<longrightarrow> words_ok (type_words (ts ! j))) \<and>
     (\<forall>i. unat i < ntypes d \<longrightarrow> unat (f i) < length ts \<and> (\<exists>r. resolve_type_id d i = Inr r \<and> unat r < ntypes d \<and> dd_map d ! unat r = r \<and> orig d (unat (f i)) = unat r))"

text \<open>The visitor of the last pass gives the new ids.\<close>

definition remaps :: "nat \<Rightarrow> (u32 \<Rightarrow> u32) \<Rightarrow> btf_dedup \<Rightarrow> bool" where
  "remaps n f d \<longleftrightarrow> (\<forall>w. unat w < n \<longrightarrow> btf_dedup_remap_type_id w d = Inr (0, f w, d))"

lemma remappable_frame:
  assumes "remappable n d" "dd_map d' = dd_map d" "dd_hypot_map d' = dd_hypot_map d"
  shows "remaps n (final_id d) d'"
  using assms unfolding remaps_def remappable_def by (force simp: btf_dedup_remap_type_id_def final_id_def resolve_frame [OF assms(2)])

lemma compact_remap_ok:
  assumes inv: "pass_inv d" and known: "\<And>j :: u32. unat j < ntypes d \<Longrightarrow> known_id (dd_map d ! unat j)"
  shows "\<exists>ret d'. then_pass btf_dedup_remap_types (Inr (btf_dedup_compact_types realloc_ok d)) = Inr (ret, d') \<and> (0 \<le> ret \<longrightarrow> ret = 0 \<and> (\<exists>f. renumbered d f (dd_types d') \<and> remaps (ntypes d) f d'))"
proof -
  have ok: "dd_ok d" using inv by (simp add: pass_inv_def)
  obtain ret d1 where run: "btf_dedup_compact_types realloc_ok d = (ret, d1)" by (cases "btf_dedup_compact_types realloc_ok d")
  show ?thesis
  proof (cases "ret < 0")
    case True
    then show ?thesis using run by (simp add: then_pass_def)
  next
    case False
    note C = compact_ok [OF ok run] 
    have ret: "0 \<le> ret" using False by simp
    let ?f = "final_id d1"
    have res: "\<exists>r. resolve_type_id d i = Inr r \<and> unat r < ntypes d \<and> dd_map d ! unat r = r \<and> ?f i = dd_hypot_map d1 ! unat r \<and> place_ok d (dd_hypot_map d1) r" if i: "unat i < ntypes d" for i
    proof -
      obtain r where r: "resolve_type_id d i = Inr r" "unat r < ntypes d" "is_root (dd_map d) r" by (rule resolved [OF ok i])
      have "dd_map d ! unat r = r" using r(2,3) known by (auto simp: is_root_def intro: root_self)
      then show ?thesis using r(1,2) C(8) [OF ret r(2)] resolve_frame [OF C(2) [OF ret], of i] by (auto simp: final_id_def)
    qed
    have n: "compact_len d \<le> ntypes d" using kept_facts(3) [OF ok] dd_okD(7) [OF ok] by (simp add: compact_len_def)
    have "known_id x" if "unat x < compact_len d" for x using that n by (intro id_known [OF dd_okD(1) [OF ok]]) simp
    then have map: "remappable (ntypes d) d1"
      unfolding remappable_def resolve_frame [OF C(2) [OF ret]] C(4) [OF ret] using res by (force simp: place_ok_def)
    have "words_ok (type_words (dd_types d1 ! j)) \<and> (\<forall>r\<in>set (ref_ids (dd_types d1 ! j)). unat r < ntypes d)" if j: "dd_start_id d \<le> j" "j < ntypes d1" for j
    proof -
      have j': "j < compact_len d" using j C(5) [OF ret] by simp
      have "dd_types d ! orig d j \<in> set (dd_types d)" using orig_facts(1) [OF ok j'] by simp
      then show ?thesis using C(6) [OF ret j'] C(7) [OF ret j(1) j'] dd_okD(1) [OF ok] by (simp add: types_ok_def)
    qed
    moreover have "ntypes d1 \<le> 0x7FFFFFFF" "dd_start_id d \<le> ntypes d1" using C(5) [OF ret] n dd_okD(1) [OF ok] by (auto simp: types_ok_def compact_len_def)
    ultimately obtain ts where ts: "each_id remap_type [dd_start_id d..<ntypes d1] d1 = Inr (0, d1\<lparr>dd_types := ts\<rparr>)" "length ts = ntypes d1"
        "\<forall>j<ntypes d1. ts ! j = (if dd_start_id d \<le> j then map_ids ?f (dd_types d1 ! j) else dd_types d1 ! j)"
      using remap_loop [OF map, of "dd_start_id d"] by blast
    have nth: "ts ! j = (if j < dd_start_id d then dd_types d ! j else map_ids ?f (dd_types d ! orig d j))" if "j < length ts" for j
      using that ts(2,3) C(5,6) [OF ret] by (simp add: orig_def)
    moreover have "words_ok (type_words (ts ! j))" if "j < length ts" "dd_start_id d \<le> j" for j
    proof -
      have j': "j < compact_len d" using that ts(2) C(5) [OF ret] by simp
      have "words_ok (type_words (dd_types d ! orig d j))" using C(6) [OF ret j'] C(7) [OF ret that(2) j'] by simp
      then have "words_ok (type_words (map_ids ?f (dd_types d ! orig d j)))" by (rule map_ids_words_ok)
      then show ?thesis using nth [OF that(1)] that(2) by simp
    qed
    moreover have "unat (?f i) < length ts \<and> (\<exists>r. resolve_type_id d i = Inr r \<and> unat r < ntypes d \<and> dd_map d ! unat r = r \<and> orig d (unat (?f i)) = unat r)" if "unat i < ntypes d" for i
      using res [OF that] ts(2) C(5) [OF ret] by (auto simp: place_ok_def)
    ultimately have "renumbered d ?f ts" using ts(2) C(5) [OF ret] unfolding renumbered_def by auto
    moreover have "then_pass btf_dedup_remap_types (Inr (btf_dedup_compact_types realloc_ok d)) = Inr (0, d1\<lparr>dd_types := ts\<rparr>)"
      using run False ts(1) C(3) [OF ret] by (simp add: then_pass_def btf_dedup_remap_types_def)
    moreover have "remaps (ntypes d) ?f (d1\<lparr>dd_types := ts\<rparr>)" by (rule remappable_frame [OF map]) simp_all
    ultimately show ?thesis by auto
  qed
qed

text \<open>Types of the base refer to types of the base.\<close>

definition base_closed :: "nat \<Rightarrow> btf_type list \<Rightarrow> bool" where
  "base_closed start ts \<longleftrightarrow> (\<forall>j. j < start \<longrightarrow> (\<forall>r\<in>set (ref_ids (ts ! j)). unat r < start))"

lemma resolve_self: "unat r < length (dd_map d) \<Longrightarrow> dd_map d ! unat r = r \<Longrightarrow> resolve_type_id d r = Inr r"
  by (simp add: resolve_type_id_def)

lemma renumbered_self:
  assumes "renumbered d f ts" "dd_ok d" "unat r < ntypes d" "dd_map d ! unat r = r"
  shows "unat (f r) < length ts" "orig d (unat (f r)) = unat r"
  using assms resolve_self [of r d] dd_okD(2) [OF assms(2)] by (auto simp: renumbered_def)

text \<open>Without forward declarations, the whole table is the old one by the new ids.\<close>

lemma renumbered_nth:
  assumes re: "renumbered d f ts" and inv: "pass_inv d" and nf: "no_fwd (dd_types d)" and base: "base_closed (dd_start_id d) (dd_types d)" and j: "j < length ts"
  shows "ts ! j = map_ids f (dd_types d ! orig d j)" "dd_map d ! orig d j = of_nat (orig d j)" "orig d j < ntypes d"
proof -
  have ok: "dd_ok d" using inv by (simp add: pass_inv_def)
  note T = dd_okD(1) [OF ok]
  have j': "j < compact_len d" using re j by (simp add: renumbered_def)
  show oj: "orig d j < ntypes d" by (rule orig_facts [OF ok j'])
  have self: "dd_map d ! unat r = r" if "unat r < dd_start_id d" for r :: u32 using that inv nf by (simp add: pass_inv_def)
  show "dd_map d ! orig d j = of_nat (orig d j)"
  proof (cases "j < dd_start_id d")
    case True
    then have "unat (of_nat j :: u32) = j" using dd_okD(7) [OF ok] by (intro unat_id [OF T]) simp
    then show ?thesis using self [of "of_nat j"] True by (simp add: orig_def)
  next
    case False
    then show ?thesis using orig_facts(2) [OF ok j'] by simp
  qed
  show "ts ! j = map_ids f (dd_types d ! orig d j)"
  proof (cases "j < dd_start_id d")
    case True
    let ?t = "dd_types d ! j"
    have t: "typ_ok ?t" using T oj True by (simp add: types_ok_def orig_def)
    have "f r = r" if r: "r \<in> set (ref_ids ?t)" for r
    proof -
      have b: "unat r < dd_start_id d" using base True r by (simp add: base_closed_def)
      have "unat r < ntypes d" using b dd_okD(7) [OF ok] by simp
      from renumbered_self [OF re ok this self [OF b]] have "unat (f r) < compact_len d" "orig d (unat (f r)) = orig d (unat r)" using re b by (auto simp: renumbered_def orig_def)
      moreover have "unat r < compact_len d" using b by (simp add: compact_len_def)
      ultimately have "unat (f r) = unat r" using orig_facts(3) [OF ok] by blast
      then show ?thesis by (simp add: word_unat_eq_iff)
    qed
    then have "ref_ids (map_ids f ?t) = ref_ids ?t" unfolding map_ids_ok(5) [OF t] by (rule map_idI)
    then have "map_ids f ?t = ?t" using map_ids_ok(1-4) [OF t, of f] by (intro type_eqI t) auto
    then show ?thesis using re j True by (simp add: renumbered_def orig_def)
  next
    case False
    then show ?thesis using re j by (simp add: renumbered_def)
  qed
qed

lemma renumbered_unfolds:
  assumes re: "renumbered d f ts" and inv: "pass_inv d" and nf: "no_fwd (dd_types d)" and base: "base_closed (dd_start_id d) (dd_types d)"
  shows "unat i < ntypes d \<Longrightarrow> unfolding_of ts n (f i) = unfolding_of (dd_types d) n i"
proof (induction n arbitrary: i)
  case (Suc n)
  have ok: "dd_ok d" using inv by (simp add: pass_inv_def)
  obtain r where r: "unat (f i) < length ts" "resolve_type_id d i = Inr r" "unat r < ntypes d" "orig d (unat (f i)) = unat r" using re Suc.prems by (auto simp: renumbered_def)
  let ?t = "dd_types d ! unat r"
  have t: "ts ! unat (f i) = map_ids f ?t" using renumbered_nth(1) [OF re inv nf base r(1)] r(4) by simp
  have ty: "typ_ok ?t" by (rule types_okD [OF dd_okD(1) [OF ok] r(3)])
  have "map (unfolding_of ts n) (ref_ids (ts ! unat (f i))) = map (unfolding_of (dd_types d) n) (ref_ids ?t)"
    using Suc.IH types_okD(2) [OF dd_okD(1) [OF ok] r(3)] by (simp add: t map_ids_ok(5) [OF ty])
  then have "unfolding_of ts (Suc n) (f i) = unfolding_of (dd_types d) (Suc n) r" using r(1,3) by (simp add: t map_ids_ok(4) [OF ty])
  also have "\<dots> = unfolding_of (dd_types d) (Suc n) i" using resolved_alike [OF ok nf Suc.prems r(2)] unfolding alike_def by blast
  finally show ?case .
qed simp

text \<open>Types of the result that are deduplicated by comparison differ from all others.\<close>

lemma renumbered_uniq:
  assumes re: "renumbered d f ts" and inv: "pass_inv d" and nf: "no_fwd (dd_types d)" and base: "base_closed (dd_start_id d) (dd_types d)"
    and i: "dd_start_id d \<le> i" "i < length ts" and j: "j < length ts" and t: "\<not> btf_is_composite (ts ! i)" "\<not> never_deduped (ts ! i)" and eq: "ts ! i = ts ! j"
  shows "i = j"
proof -
  have ok: "dd_ok d" and u: "uniq d" using inv by (simp_all add: pass_inv_def)
  note T = dd_okD(1) [OF ok]
  define a b :: u32 where "a = of_nat (orig d i)" and "b = of_nat (orig d j)"
  let ?a = "dd_types d ! unat a" and ?b = "dd_types d ! unat b"
  note I = renumbered_nth [OF re inv nf base i(2)] and J = renumbered_nth [OF re inv nf base j]
  have ab: "unat a = orig d i" "unat b = orig d j" using unat_id [OF T] I(3) J(3) by (simp_all add: a_def b_def)
  have ty: "typ_ok ?a" "typ_ok ?b" using types_okD(1) [OF T] ab I(3) J(3) by metis+
  have ts: "ts ! i = map_ids f ?a" "ts ! j = map_ids f ?b" using I(1) J(1) ab by simp_all
  have info: "bt_info ?a = bt_info (ts ! i)" "bt_info ?b = bt_info (ts ! i)" using map_ids_ok(1) [OF ty(1), of f] map_ids_ok(1) [OF ty(2), of f] ts eq by metis+
  have nd: "\<not> btf_is_composite ?a" "\<not> never_deduped ?a" "\<not> btf_is_composite ?b" "\<not> never_deduped ?b"
    using t info_cong(1) [OF info(1)] info_cong(1) [OF info(2)] by (auto simp: btf_is_composite_def never_deduped_def btf_is_var_def btf_is_datasec_def)
  have "words_ok (type_words (ts ! i))" using re i unfolding renumbered_def by blast
  moreover have "btf_type_size (ts ! i) < 0" if "btf_kind (ts ! i) = 0" using that by (simp add: btf_type_size_def Let_def btf_kinds EINVAL_def)
  ultimately have "btf_kind (ts ! i) \<noteq> 0" by (cases "btf_kind (ts ! i) = 0") (auto simp: words_ok_def)
  then have "btf_kind ?a \<noteq> 0" "btf_kind ?b \<noteq> 0" using info_cong(1) [OF info(1)] info_cong(1) [OF info(2)] by auto
  then have nz: "a \<noteq> 0" "b \<noteq> 0" using T void_facts(1) by (auto simp: types_ok_def)
  have tab: "in_table d a" "in_table d b" using uniqD(3) [OF u] nz nd I(2,3) J(2,3) ab by (auto simp: a_def b_def)
  have canon: "dd_map d ! unat r = r \<and> unat r < ntypes d" if "r \<in> set (ref_ids ?a) \<or> r \<in> set (ref_ids ?b)" for r
  proof -
    have r: "unat r < ntypes d" using that types_okD(2) [OF T] ab I(3) J(3) by metis
    show ?thesis
    proof (cases "r \<in> set (ref_ids ?a)")
      case True
      have "own d a" using orig_facts(2) [OF ok _ i(1)] i(2) re I(3) ab by (simp add: renumbered_def)
      then show ?thesis using pass_invD(3) [OF inv nf _ tab(1)] nd(1) True r by (simp add: canonical_def)
    next
      case False
      then have rb: "r \<in> set (ref_ids ?b)" using that by simp
      show ?thesis
      proof (cases "own d b")
        case True
        then show ?thesis using pass_invD(3) [OF inv nf _ tab(2)] nd(3) rb r by (simp add: canonical_def)
      next
        case False
        then have "unat b < dd_start_id d" using J(3) ab by auto
        then show ?thesis using base rb inv nf r by (simp add: base_closed_def pass_inv_def)
      qed
    qed
  qed
  have inj: "x = y" if "f x = f y" "dd_map d ! unat x = x \<and> unat x < ntypes d" "dd_map d ! unat y = y \<and> unat y < ntypes d" for x y
    using renumbered_self(2) [OF re ok, of x] renumbered_self(2) [OF re ok, of y] that by (simp add: word_unat_eq_iff)
  have refs: "map f (ref_ids ?a) = map f (ref_ids ?b)" using ts eq map_ids_ok(5) [OF ty(1), of f] map_ids_ok(5) [OF ty(2), of f] by metis
  have "ref_ids ?a = ref_ids ?b"
  proof (rule nth_equalityI)
    show len: "length (ref_ids ?a) = length (ref_ids ?b)" using refs by (rule map_eq_imp_length_eq)
    show "ref_ids ?a ! k = ref_ids ?b ! k" if "k < length (ref_ids ?a)" for k
      using that len refs canon inj by (metis nth_map nth_mem)
  qed
  moreover have "label ?a = label ?b" using ts eq map_ids_ok(4) [OF ty(1), of f] map_ids_ok(4) [OF ty(2), of f] by metis
  ultimately have "?a = ?b" using info by (intro type_eqI ty) auto
  then have "a = b" using uniqD(2) [OF u _ tab nd(1)] orig_facts(2) [OF ok _ i(1)] i re I(3) ab by (auto simp: renumbered_def)
  then show ?thesis using ab orig_facts(3) [OF ok] i(2) j re by (auto simp: renumbered_def)
qed

lemma renumbered_types_ok:
  assumes re: "renumbered d f ts" and ok: "dd_ok d" and base: "base_closed (dd_start_id d) (dd_types d)"
  shows "types_ok ts"
proof -
  note T = dd_okD(1) [OF ok] and s = dd_okD(7) [OF ok]
  have len: "length ts = compact_len d" "dd_start_id d \<le> length ts" "length ts \<le> ntypes d" "1 \<le> dd_start_id d"
    using re kept_facts(3) [OF ok] s ok by (auto simp: renumbered_def compact_len_def dd_ok_def)
  have "typ_ok (ts ! j) \<and> (\<forall>r\<in>set (ref_ids (ts ! j)). unat r < length ts)" if j: "j < length ts" for j
  proof (cases "j < dd_start_id d")
    case True
    then have "dd_types d ! j \<in> set (dd_types d)" "ts ! j = dd_types d ! j" using re j s by (auto simp: renumbered_def)
    moreover have "\<forall>r\<in>set (ref_ids (dd_types d ! j)). unat r < length ts" using base True less_le_trans [OF _ len(2)] by (simp add: base_closed_def)
    ultimately show ?thesis using T by (simp add: types_ok_def)
  next
    case False
    let ?t = "dd_types d ! orig d j"
    have "?t \<in> set (dd_types d)" using orig_facts(1) [OF ok] j len(1) by simp
    then have t: "typ_ok ?t" "\<forall>r\<in>set (ref_ids ?t). unat r < ntypes d" using T by (simp_all add: types_ok_def)
    have "ts ! j = map_ids f ?t" using re j False by (simp add: renumbered_def)
    then show ?thesis using t re map_ids_ok(2,5) [OF t(1), of f] by (auto simp: renumbered_def)
  qed
  moreover have "ts ! 0 = btf_void" using re len T by (auto simp: renumbered_def types_ok_def)
  ultimately show ?thesis using T len by (auto simp: types_ok_def all_set_conv_all_nth)
qed

section \<open>All passes\<close>

lemma then_pass_assoc: "then_pass g (then_pass f r) = then_pass (\<lambda>d. then_pass g (f d)) r"
  by (auto simp: then_pass_def bindR_case split: sum.split)

lemma then_pass_ok:
  assumes "\<exists>ret d. r = Inr (ret, d) \<and> (0 \<le> ret \<longrightarrow> P d)" "\<And>d. P d \<Longrightarrow> \<exists>ret d'. f d = Inr (ret, d') \<and> (0 \<le> ret \<longrightarrow> ret = (0 :: int) \<and> Q d')"
  shows "\<exists>ret d'. then_pass f r = Inr (ret, d') \<and> (0 \<le> ret \<longrightarrow> ret = 0 \<and> Q d')"
proof -
  obtain ret d where r: "r = Inr (ret, d)" "0 \<le> ret \<longrightarrow> P d" using assms(1) by blast
  then show ?thesis using assms(2) [of d] by (cases "ret < 0") (auto simp: then_pass_def)
qed

text \<open>The state before compaction, reached from the first.\<close>

definition reached :: "btf_dedup \<Rightarrow> btf_dedup \<Rightarrow> bool" where
  "reached d0 d \<longleftrightarrow> advance d0 d \<and> (\<forall>j<dd_start_id d0. dd_types d ! j = dd_types d0 ! j)"

lemma reached_advance:
  assumes "reached d0 d" "advance d d'" "pass_inv d"
  shows "reached d0 d'"
proof -
  have a: "advance d0 d" using assms(1) by (simp add: reached_def)
  have ok: "dd_ok d" using assms(3) by (simp add: pass_inv_def)
  have "dd_types d' ! j = dd_types d0 ! j" if j: "j < dd_start_id d0" for j
  proof -
    have n: "j < dd_start_id d" "j < ntypes d" using j advance_ok(3) [OF a] dd_okD(7) [OF ok] by auto
    have u: "unat (of_nat j :: u32) = j" by (rule unat_id [OF dd_okD(1) [OF ok] n(2)])
    have "known_id (dd_map d ! unat (of_nat j :: u32))" using assms(3) n(1) u unfolding pass_inv_def by metis
    then have "dd_types d' ! j = dd_types d ! j" using advance_known(2) [OF assms(2), of "of_nat j"] n(2) u by simp
    then show ?thesis using assms(1) j by (simp add: reached_def)
  qed
  then show ?thesis using advance_trans [OF a assms(2)] by (simp add: reached_def)
qed

lemma passes_ok:
  assumes inv: "prep_inv 1 d0"
  shows "\<exists>ret d'. dedup_passes mem realloc_ok d0 = Inr (ret, d') \<and> (0 \<le> ret \<longrightarrow> ret = 0 \<and> (\<exists>d f. reached d0 d \<and> pass_inv d \<and> renumbered d f (dd_types d') \<and> remaps (ntypes d) f d'))"
proof -
  have prep: "\<exists>ret d. btf_dedup_prep mem d0 = Inr (ret, d) \<and> (0 \<le> ret \<longrightarrow> reached d0 d \<and> prep_inv (dd_start_id d) d)"
    using prep_ok [OF inv, of mem] by (auto simp: reached_def)
  have prim: "\<exists>ret d'. btf_dedup_prim_types mem d = Inr (ret, d') \<and> (0 \<le> ret \<longrightarrow> ret = 0 \<and> reached d0 d' \<and> pass_inv d')" if "reached d0 d \<and> prep_inv (dd_start_id d) d" for d
    using prim_types_ok [of d mem] that reached_advance [of d0 d] prep_pass_inv [of d] by blast
  have struct: "\<exists>ret d'. btf_dedup_struct_types mem d = Inr (ret, d') \<and> (0 \<le> ret \<longrightarrow> ret = 0 \<and> reached d0 d' \<and> pass_inv d')" if "reached d0 d \<and> pass_inv d" for d
    using struct_types_ok [of d mem] that reached_advance [of d0 d] by blast
  let ?P = "\<lambda>d'. reached d0 d' \<and> pass_inv d' \<and> (\<forall>j :: u32. unat j < ntypes d' \<longrightarrow> known_id (dd_map d' ! unat j))"
  have ref: "\<exists>ret d'. btf_dedup_ref_types mem d = Inr (ret, d') \<and> (0 \<le> ret \<longrightarrow> ret = 0 \<and> ?P d')" if "reached d0 d \<and> pass_inv d" for d
    using ref_types_ok [of d mem] that reached_advance [of d0 d] by blast
  have fin: "\<exists>ret d'. then_pass btf_dedup_remap_types (Inr (btf_dedup_compact_types realloc_ok d)) = Inr (ret, d') \<and>
      (0 \<le> ret \<longrightarrow> ret = 0 \<and> (\<exists>d f. reached d0 d \<and> pass_inv d \<and> renumbered d f (dd_types d') \<and> remaps (ntypes d) f d'))" if "?P d" for d
    using compact_remap_ok [of d realloc_ok] that by blast
  let ?r1 = "then_pass (btf_dedup_prim_types mem) (btf_dedup_prep mem d0)"
  let ?r2 = "then_pass (btf_dedup_struct_types mem) ?r1" let ?r3 = "then_pass (btf_dedup_ref_types mem) ?r2"
  let ?Q = "\<lambda>d. reached d0 d \<and> pass_inv d"
  have p1: "\<exists>ret d. ?r1 = Inr (ret, d) \<and> (0 \<le> ret \<longrightarrow> ?Q d)" using then_pass_ok [where Q = ?Q and f = "btf_dedup_prim_types mem", OF prep prim] by blast
  have p2: "\<exists>ret d. ?r2 = Inr (ret, d) \<and> (0 \<le> ret \<longrightarrow> ?Q d)" using then_pass_ok [where Q = ?Q and f = "btf_dedup_struct_types mem", OF p1 struct] by blast
  have p3: "\<exists>ret d. ?r3 = Inr (ret, d) \<and> (0 \<le> ret \<longrightarrow> ?P d)" using then_pass_ok [where Q = ?P and f = "btf_dedup_ref_types mem", OF p2 ref] by blast
  show ?thesis unfolding dedup_passes_def then_pass_assoc [of btf_dedup_remap_types] by (rule then_pass_ok [OF p3 fin])
qed

text \<open>From the first state: the shapes of the result and the state before compaction.\<close>

lemma dedup_result:
  assumes ts: "types_ok ts" "1 \<le> start" "start \<le> length ts" "base_closed start ts" and new: "btf_dedup_new ok1 ok2 ok3 ok4 collide ts start = Inr d0"
  obtains ret d' where "dedup_passes mem realloc_ok d0 = Inr (ret, d')" "ret \<le> 0"
    "ret = 0 \<longrightarrow> (\<exists>d f. reached d0 d \<and> pass_inv d \<and> dd_ok d \<and> dd_start_id d = start \<and> ntypes d = length ts \<and> base_closed start (dd_types d) \<and> renumbered d f (dd_types d') \<and> remaps (ntypes d) f d')"
proof -
  note N = dedup_new_ok [OF new ts(1-3)]
  obtain ret d' where r: "dedup_passes mem realloc_ok d0 = Inr (ret, d')" "0 \<le> ret \<longrightarrow> ret = 0 \<and> (\<exists>d f. reached d0 d \<and> pass_inv d \<and> renumbered d f (dd_types d') \<and> remaps (ntypes d) f d')"
    using passes_ok [OF N(1), of mem realloc_ok] by (elim exE conjE)
  have "\<exists>d f. reached d0 d \<and> pass_inv d \<and> dd_ok d \<and> dd_start_id d = start \<and> ntypes d = length ts \<and> base_closed start (dd_types d) \<and> renumbered d f (dd_types d') \<and> remaps (ntypes d) f d'" if ret: "ret = 0"
  proof -
    obtain d f where d: "reached d0 d" "pass_inv d" "renumbered d f (dd_types d')" "remaps (ntypes d) f d'" using r(2) ret by auto
    have a: "advance d0 d" "\<forall>j<dd_start_id d0. dd_types d ! j = dd_types d0 ! j" using d(1) by (simp_all add: reached_def)
    have "base_closed start (dd_types d)" using ts(4) a(2) N(2,3) by (simp add: base_closed_def)
    moreover have "dd_start_id d = start" "ntypes d = length ts" using advance_ok(2,3) [OF a(1)] N(2,3) by simp_all
    ultimately show ?thesis using d pass_invD(1) [OF d(2)] by blast
  qed
  then have "ret = 0 \<longrightarrow> (\<exists>d f. reached d0 d \<and> pass_inv d \<and> dd_ok d \<and> dd_start_id d = start \<and> ntypes d = length ts \<and> base_closed start (dd_types d) \<and> renumbered d f (dd_types d') \<and> remaps (ntypes d) f d')"
    by (rule impI)
  moreover have "ret \<le> 0" using r(2) by (cases "0 \<le> ret") simp_all
  ultimately show ?thesis using that [OF r(1)] by blast
qed

section \<open>What deduplication gives\<close>

text \<open>A table of two copies of a list node: a number, and a pointer to the next.\<close>

definition node_table :: "btf_type list" where
  "node_table = map (\<lambda>(name, info, t, ws). \<lparr>bt_name_off = name, bt_info = info, bt_type = t, bt_words = ws\<rparr>)
     [(0, 0, 0, []), (1, 0x01000000, 4, [32]), (1, 0x01000000, 4, [32]), (0, 0x02000000, 5, []), (0, 0x02000000, 6, []),
      (5, 0x04000002, 16, [7, 1, 0, 9, 3, 64]), (5, 0x04000002, 16, [7, 2, 0, 9, 4, 64])]"

definition node_result :: "btf_type list" where
  "node_result = map (\<lambda>(name, info, t, ws). \<lparr>bt_name_off = name, bt_info = info, bt_type = t, bt_words = ws\<rparr>)
     [(0, 0, 0, []), (1, 0x01000000, 4, [32]), (0, 0x02000000, 3, []), (5, 0x04000002, 16, [7, 1, 0, 9, 2, 64])]"

definition node_start :: btf_dedup where
  "node_start = \<lparr>dd_types = node_table, dd_start_id = 1, dd_table = hashmap__init, dd_collide = False, dd_map = first_map node_table,
     dd_hypot_map = replicate 7 BTF_UNPROCESSED_ID, dd_hypot_list = [], dd_hypot_cap = 0, dd_hypot_adjust_canon = False, dd_calls = 0\<rparr>"

lemma node_types: "list_all (\<lambda>t. typ_ok t \<and> (\<forall>r\<in>set (ref_ids t). unat r < 7) \<and> \<not> fwdish t) node_table" "node_table ! 0 = btf_void" "ref_ids (node_table ! 0) = []"
  by code_simp+

lemma node_facts: "length node_table = 7" "length node_result = 4" "types_ok node_table" "base_closed 1 node_table" "no_fwd node_table"
    "btf_dedup_new True True True True False node_table 1 = Inr node_start"
proof -
  show len: "length node_table = 7" "length node_result = 4" by (simp_all add: node_table_def node_result_def)
  show "types_ok node_table" "no_fwd node_table" using node_types len by (auto simp: types_ok_def no_fwd_def list_all_iff)
  show "base_closed 1 node_table" using node_types(3) by (simp add: base_closed_def)
  show "btf_dedup_new True True True True False node_table 1 = Inr node_start" by (simp add: btf_dedup_new_def node_start_def len)
qed

lemma node_run: "(case dedup_passes (\<lambda>_. (True, True)) True node_start of Inl _ \<Rightarrow> None | Inr (ret, d) \<Rightarrow> Some (ret, dd_types d)) = Some (0, node_result)"
  by code_simp

lemma node_passes: "\<exists>d. dedup_passes (\<lambda>_. (True, True)) True node_start = Inr (0, d) \<and> dd_types d = node_result"
  using node_run by (auto split: sum.splits)

text \<open>C5. The passes of the deduplication (the base entered, primitive types, structures, reference types, compaction, new ids) return for every table
  whose types are well-formed and whose ids are below its length, with any cycles and forward declarations and any failures of the
  allocator: the walks along the canonical map, the comparison of type graphs and the recursion over references all end within their
  bounds and no access is out of range. The result is 0 or an error code; after success the table is well-formed, and the base is unchanged.\<close>

theorem dedup_returns:
  assumes "types_ok ts" "1 \<le> start" "start \<le> length ts" "base_closed start ts" "btf_dedup_new ok1 ok2 ok3 ok4 collide ts start = Inr d"
  shows "\<exists>ret d'. dedup_passes mem realloc_ok d = Inr (ret, d') \<and> ret \<le> 0 \<and>
    (ret = 0 \<longrightarrow> types_ok (dd_types d') \<and> length (dd_types d') \<le> length ts \<and> take start (dd_types d') = take start ts)"
proof -
  note N = dedup_new_ok [OF assms(5,1-3)]
  obtain ret d' where r: "dedup_passes mem realloc_ok d = Inr (ret, d')" "ret \<le> 0"
      "ret = 0 \<longrightarrow> (\<exists>d1 f. reached d d1 \<and> pass_inv d1 \<and> dd_ok d1 \<and> dd_start_id d1 = start \<and> ntypes d1 = length ts \<and> base_closed start (dd_types d1) \<and> renumbered d1 f (dd_types d') \<and> remaps (ntypes d1) f d')"
    by (rule dedup_result [OF assms])
  have "types_ok (dd_types d') \<and> length (dd_types d') \<le> length ts \<and> take start (dd_types d') = take start ts" if ret: "ret = 0"
  proof -
    obtain d1 f where d1: "reached d d1" "dd_ok d1" "dd_start_id d1 = start" "ntypes d1 = length ts" "base_closed start (dd_types d1)" "renumbered d1 f (dd_types d')"
      using r(3) ret by blast
    have len: "start \<le> length (dd_types d')" "length (dd_types d') \<le> length ts"
      using d1(3,4,6) kept_facts(3) [OF d1(2)] assms(3) by (auto simp: renumbered_def compact_len_def)
    have "dd_types d' ! j = ts ! j" if "j < start" for j using that d1(1,3,6) len(1) N(2,3) by (simp add: renumbered_def reached_def)
    then have "take start (dd_types d') = take start ts" using len(1) assms(3) by (intro nth_equalityI) auto
    then show ?thesis using renumbered_types_ok [OF d1(6,2)] d1(3,5) len(2) by simp
  qed
  then show ?thesis using r(1,2) by blast
qed

theorem dedup_returns_witness:
  "\<exists>ret d'. dedup_passes (\<lambda>_. (True, True)) True node_start = Inr (ret, d') \<and> ret = 0 \<and> types_ok (dd_types d') \<and> dd_types d' = node_result"
proof -
  obtain d where d: "dedup_passes (\<lambda>_. (True, True)) True node_start = Inr (0, d)" "dd_types d = node_result" using node_passes by blast
  have "types_ok (dd_types d)" using dedup_returns [OF node_facts(3) _ _ node_facts(4,6), of "\<lambda>_. (True, True)" True] node_facts(1) d(1) by simp
  then show ?thesis using d by blast
qed

text \<open>The new ids unfold as the old ones.\<close>

lemma new_ids_unfold:
  assumes "types_ok ts" "1 \<le> start" "start \<le> length ts" "base_closed start ts" "btf_dedup_new ok1 ok2 ok3 ok4 collide ts start = Inr d"
    and nf: "no_fwd ts" and run: "dedup_passes mem realloc_ok d = Inr (0, d')"
  shows "\<exists>f. remaps (length ts) f d' \<and> (\<forall>i. unat i < length ts \<longrightarrow> unat (f i) < length (dd_types d') \<and> (\<forall>n. unfolding_of (dd_types d') n (f i) = unfolding_of ts n i))"
proof -
  note N = dedup_new_ok [OF assms(5,1-3)]
  obtain d1 f where d1: "reached d d1" "pass_inv d1" "dd_start_id d1 = start" "ntypes d1 = length ts" "base_closed start (dd_types d1)" "renumbered d1 f (dd_types d')" "remaps (ntypes d1) f d'"
    by (rule dedup_result [OF assms(1-5), of mem realloc_ok]) (use run in auto)
  have a: "advance d d1" using d1(1) by (simp add: reached_def)
  have nf1: "no_fwd (dd_types d1)" using nf advance_no_fwd [OF a] N(2) by simp
  have "unfolding_of (dd_types d1) n i = unfolding_of ts n i" for n i using a nf N(2) by (simp add: advance_def)
  then show ?thesis using renumbered_unfolds [OF d1(6,2) nf1] d1(3-7) by (intro exI [of _ f]) (auto simp: renumbered_def)
qed

text \<open>C4. Deduplication keeps the meaning of every type. When the table has no forward declarations and the passes succeed, the visitor of the last pass gives
  every old id, wherever it is found, a new id in the resulting table such that the trees of shapes reached from both through ids are the same to every depth: names, kinds, sizes, offsets and
  all referenced types, also through cycles. The merging of type graphs by hypothetical pairs is sound.\<close>

theorem dedup_preserves_types:
  assumes "types_ok ts" "1 \<le> start" "start \<le> length ts" "base_closed start ts" "btf_dedup_new ok1 ok2 ok3 ok4 collide ts start = Inr d"
    and nf: "no_fwd ts" and run: "dedup_passes mem realloc_ok d = Inr (0, d')"
  shows "\<exists>f. \<forall>i. unat i < length ts \<longrightarrow> btf_dedup_remap_type_id i d' = Inr (0, f i, d') \<and> unat (f i) < length (dd_types d') \<and>
    (\<forall>n. unfolding_of (dd_types d') n (f i) = unfolding_of ts n i)"
  using new_ids_unfold [OF assms] unfolding remaps_def by blast

theorem dedup_preserves_types_witness:
  "\<exists>f :: u32 \<Rightarrow> u32. unat (f 6) < 4 \<and> (\<forall>n. unfolding_of node_result n (f 6) = unfolding_of node_table n 6)"
proof -
  obtain d where d: "dedup_passes (\<lambda>_. (True, True)) True node_start = Inr (0, d)" "dd_types d = node_result" using node_passes by blast
  from dedup_preserves_types [OF node_facts(3) _ _ node_facts(4,6,5) d(1)] node_facts(1,2) d(2)
  obtain f :: "u32 \<Rightarrow> u32" where "\<forall>i. unat i < 7 \<longrightarrow> unat (f i) < 4 \<and> (\<forall>n. unfolding_of node_result n (f i) = unfolding_of node_table n i)" by auto
  from spec [OF this, of 6] show ?thesis by auto
qed

text \<open>C6. Deduplication is complete for the types that are compared by their words. When the table has no forward declarations and the passes
  succeed, a type of the instance that is no structure, union, variable or data section (a number, an enumeration, a pointer, a typedef, an array, a function and so on)
  differs from every other type of the resulting table, those of the base included.\<close>

theorem dedup_no_duplicates:
  assumes "types_ok ts" "1 \<le> start" "start \<le> length ts" "base_closed start ts" "btf_dedup_new ok1 ok2 ok3 ok4 collide ts start = Inr d"
    and nf: "no_fwd ts" and run: "dedup_passes mem realloc_ok d = Inr (0, d')"
    and i: "start \<le> i" "i < length (dd_types d')" "\<not> btf_is_composite (dd_types d' ! i)" "\<not> btf_is_var (dd_types d' ! i)" "\<not> btf_is_datasec (dd_types d' ! i)"
    and j: "j < length (dd_types d')" "i \<noteq> j"
  shows "dd_types d' ! i \<noteq> dd_types d' ! j"
proof
  assume eq: "dd_types d' ! i = dd_types d' ! j"
  note N = dedup_new_ok [OF assms(5,1-3)]
  obtain d1 f where d1: "reached d d1" "pass_inv d1" "dd_start_id d1 = start" "base_closed start (dd_types d1)" "renumbered d1 f (dd_types d')"
    by (rule dedup_result [OF assms(1-5), of mem realloc_ok]) (use run in auto)
  have "advance d d1" using d1(1) by (simp add: reached_def)
  then have "no_fwd (dd_types d1)" using nf advance_no_fwd N(2) by simp
  then have "i = j" using i j eq d1(3,4) by (intro renumbered_uniq [OF d1(5,2)]) (auto simp: never_deduped_def)
  then show False using j(2) by simp
qed

lemma node_result_kind: "\<not> btf_is_composite (node_result ! 2)" "\<not> btf_is_var (node_result ! 2)" "\<not> btf_is_datasec (node_result ! 2)"
  by code_simp+

theorem dedup_no_duplicates_witness: "node_result ! 2 \<noteq> node_result ! 1"
proof -
  obtain d where d: "dedup_passes (\<lambda>_. (True, True)) True node_start = Inr (0, d)" "dd_types d = node_result" using node_passes by blast
  show ?thesis using dedup_no_duplicates [OF node_facts(3) _ _ node_facts(4,6,5) d(1), of 2 1] node_facts(1,2) node_result_kind d(2) by simp
qed

end
