(* ===== verification/Btf_Ext.thy ===== *)
theory Btf_Ext
  imports Btf_Parse
begin

text \<open>
  The \<open>.BTF.ext\<close> section (\<open>libbpf/src/btf.c\<close>): its checks in \<open>btf_ext__new\<close>, and the functions that visit, and may rewrite, the
  type ids and string offsets in it. Pointers into the section are offsets.
\<close>

section \<open>State\<close>

record btf_ext_info =
  ei_info :: nat
  ei_rec_size :: u32
  ei_len :: u32
  ei_sec_cnt :: nat

record btf_ext =
  ex_data :: "u8 list"
  ex_data_size :: u32
  ex_func_info :: btf_ext_info
  ex_line_info :: btf_ext_info
  ex_core_relo_info :: btf_ext_info

definition no_info :: btf_ext_info where
  "no_info = \<lparr>ei_info = 0, ei_rec_size = 0, ei_len = 0, ei_sec_cnt = 0\<rparr>"

definition rd :: "nat \<Rightarrow> nat \<Rightarrow> u8 list \<Rightarrow> fault + 'a::len word" where
  "rd n off data = (case read_le n off data of None \<Rightarrow> Inl Out_Of_Bounds | Some w \<Rightarrow> Inr w)"

text \<open>A checked read in a function whose errors are error numbers.\<close>

definition rdE :: "nat \<Rightarrow> nat \<Rightarrow> u8 list \<Rightarrow> err + 'a::len word" where
  "rdE n off data = (case rd n off data of Inl f \<Rightarrow> Inl (Fault f) | Inr w \<Rightarrow> Inr w)"

section \<open>Construction\<close>

definition total_record_size :: "u32 \<Rightarrow> u32 \<Rightarrow> u64" where
  "total_record_size num_records record_size = 8 + ucast num_records * ucast record_size"

lemma unat_total_record_size: "unat (total_record_size n rs) = 8 + unat n * unat rs"
proof -
  have "unat n \<le> 2 ^ 32 - 1" "unat rs \<le> 2 ^ 32 - 1" using unat_lt32 [of n] unat_lt32 [of rs] by simp_all
  then have b: "unat n * unat rs \<le> (2 ^ 32 - 1) * (2 ^ 32 - 1)" by (rule mult_le_mono)
  then have m: "unat (ucast n * ucast rs :: u64) = unat n * unat rs" by (subst unat_mult_lem [THEN iffD1]) (simp_all add: unat_ucast_u64)
  then show ?thesis using b unfolding total_record_size_def by (subst unat_add_lem [THEN iffD1]) simp_all
qed

text \<open>What is left after a section that fits.\<close>

lemma unat_left:
  assumes "\<not> ucast (left :: u32) < total_record_size n rs"
  shows "unat (left - ucast (total_record_size n rs)) = unat left - (8 + unat n * unat rs)" "8 + unat n * unat rs \<le> unat left"
proof -
  show le: "8 + unat n * unat rs \<le> unat left" using assms by (simp add: word_less_nat_alt unat_total_record_size unat_ucast_u64)
  have "unat left < 2 ^ 32" using unat_lt32 by simp
  then have t: "unat (ucast (total_record_size n rs) :: u32) = 8 + unat n * unat rs"
    using le by (simp add: unsigned_ucast_eq unat_total_record_size take_bit_nat_eq_self)
  then show "unat (left - ucast (total_record_size n rs)) = unat left - (8 + unat n * unat rs)"
    using le by (simp add: unat_sub word_le_nat_alt)
qed

function setup_loop :: "u8 list \<Rightarrow> u32 \<Rightarrow> nat \<Rightarrow> u32 \<Rightarrow> nat \<Rightarrow> err + nat" where
  "setup_loop data record_size sinfo info_left sec_cnt =
     (if info_left = 0 then Inr sec_cnt
      else if info_left < 8 then Inl (Errno (- EINVAL))
      else bindR (rdE 4 (sinfo + 4) data) (\<lambda>num_records.
        if num_records = 0 then Inl (Errno (- EINVAL))
        else if ucast info_left < total_record_size num_records record_size then Inl (Errno (- EINVAL))
        else setup_loop data record_size (sinfo + unat (total_record_size num_records record_size))
          (info_left - ucast (total_record_size num_records record_size)) (sec_cnt + 1)))"
  by pat_completeness auto
termination
proof (relation "measure (\<lambda>(data, rs, p, left, n). unat left)", goal_cases)
  case (2 data rs p left n num)
  then show ?case using unat_left [OF 2(5)] by simp
qed simp

declare setup_loop.simps [simp del]

record btf_ext_sec_setup_param =
  pa_off :: u32
  pa_len :: u32
  pa_min_rec_size :: u32

text \<open>The result replaces the information of the area.\<close>

definition btf_ext_setup_info :: "u8 list \<Rightarrow> u32 \<Rightarrow> u32 \<Rightarrow> btf_ext_sec_setup_param \<Rightarrow> btf_ext_info \<Rightarrow> err + btf_ext_info" where
  "btf_ext_setup_info data data_size hdr_len ext_sec ext_info =
     (if pa_len ext_sec = 0 then Inr ext_info
      else if pa_off ext_sec AND 3 \<noteq> 0 then Inl (Errno (- EINVAL))
      else
       (let info = unat hdr_len + unat (pa_off ext_sec) in
        if unat data_size < info + unat (pa_len ext_sec) then Inl (Errno (- EINVAL))
        else if pa_len ext_sec < 4 then Inl (Errno (- EINVAL))
        else bindR (rdE 4 info data) (\<lambda>record_size.
          if record_size < pa_min_rec_size ext_sec \<or> record_size AND 3 \<noteq> 0 then Inl (Errno (- EINVAL))
          else if pa_len ext_sec - 4 = 0 then Inl (Errno (- EINVAL))
          else bindR (setup_loop data record_size (info + 4) (pa_len ext_sec - 4) 0) (\<lambda>sec_cnt.
            Inr \<lparr>ei_info = info + 4, ei_rec_size = record_size, ei_len = pa_len ext_sec - 4, ei_sec_cnt = sec_cnt\<rparr>))))"

text \<open>The three areas, their place in the header and the sizes of \<open>bpf_func_info_min\<close>, \<open>bpf_line_info_min\<close> and \<open>bpf_core_relo\<close>.\<close>

definition setup_area :: "nat \<Rightarrow> u32 \<Rightarrow> btf_ext \<Rightarrow> btf_ext_info \<Rightarrow> err + btf_ext_info" where
  "setup_area field min_size e ext_info =
     bindR (rdE 4 4 (ex_data e)) (\<lambda>hdr_len.
     bindR (rdE 4 field (ex_data e)) (\<lambda>off.
     bindR (rdE 4 (field + 4) (ex_data e)) (\<lambda>len.
       btf_ext_setup_info (ex_data e) (ex_data_size e) hdr_len \<lparr>pa_off = off, pa_len = len, pa_min_rec_size = min_size\<rparr> ext_info)))"

definition btf_ext_setup_func_info :: "btf_ext \<Rightarrow> err + btf_ext" where
  "btf_ext_setup_func_info e = bindR (setup_area 8 8 e (ex_func_info e)) (\<lambda>i. Inr (e\<lparr>ex_func_info := i\<rparr>))"

definition btf_ext_setup_line_info :: "btf_ext \<Rightarrow> err + btf_ext" where
  "btf_ext_setup_line_info e = bindR (setup_area 16 16 e (ex_line_info e)) (\<lambda>i. Inr (e\<lparr>ex_line_info := i\<rparr>))"

definition btf_ext_setup_core_relos :: "btf_ext \<Rightarrow> err + btf_ext" where
  "btf_ext_setup_core_relos e = bindR (setup_area 24 16 e (ex_core_relo_info e)) (\<lambda>i. Inr (e\<lparr>ex_core_relo_info := i\<rparr>))"

definition btf_ext_parse_hdr :: "u8 list \<Rightarrow> u32 \<Rightarrow> err + unit" where
  "btf_ext_parse_hdr data data_size =
     (if data_size < 8 then Inl (Errno (- EINVAL))
      else bindR (rdE 4 4 data) (\<lambda>hdr_len.
        if data_size < hdr_len then Inl (Errno (- EINVAL))
        else bindR (rdE 2 0 data) (\<lambda>magic.
          if magic = bswap_16 BTF_MAGIC then Inl (Errno (- ENOTSUP))
          else if magic \<noteq> BTF_MAGIC then Inl (Errno (- EINVAL))
          else bindR (rdE 1 2 data) (\<lambda>version.
            if version \<noteq> BTF_VERSION then Inl (Errno (- ENOTSUP))
            else bindR (rdE 1 3 data) (\<lambda>flags.
              if (flags :: u8) \<noteq> 0 then Inl (Errno (- ENOTSUP))
              else if data_size = hdr_len then Inl (Errno (- EINVAL))
              else Inr ())))))"

definition ext_areas :: "btf_ext \<Rightarrow> err + btf_ext" where
  "ext_areas e =
     bindR (rdE 4 4 (ex_data e)) (\<lambda>hdr_len.
       if (hdr_len :: u32) < 24 then Inl (Errno (- EINVAL))
       else bindR (btf_ext_setup_func_info e) (\<lambda>e.
         bindR (btf_ext_setup_line_info e) (\<lambda>e.
           if hdr_len < 32 then Inr e else btf_ext_setup_core_relos e)))"

text \<open>\<open>calloc_ok\<close> and \<open>malloc_ok\<close> are the answers of the allocator.\<close>

definition btf_ext__new :: "bool \<Rightarrow> bool \<Rightarrow> u8 list \<Rightarrow> u32 \<Rightarrow> err + btf_ext" where
  "btf_ext__new calloc_ok malloc_ok data sz =
     (if \<not> calloc_ok \<or> \<not> malloc_ok then Inl (Errno (- ENOMEM))
      else if length data < unat sz then Inl (Fault Out_Of_Bounds)
      else
       (let data = take (unat sz) data in
        bindR (btf_ext_parse_hdr data sz) (\<lambda>_.
          ext_areas \<lparr>ex_data = data, ex_data_size = sz, ex_func_info = no_info, ex_line_info = no_info, ex_core_relo_info = no_info\<rparr>)))"

section \<open>Visits\<close>

text \<open>
  A visitor gets a word and a context of its own; it returns its result, the word to store and the context. A visit works on the bytes
  of the section and that context. The number of records is read anew for every test of a loop, as the code does.
\<close>

type_synonym 's visitor = "u32 \<Rightarrow> 's \<Rightarrow> fault + (int \<times> u32 \<times> 's)"
type_synonym 's visit_result = "fault + (int \<times> u8 list \<times> 's)"

definition put32 :: "nat \<Rightarrow> u32 \<Rightarrow> u8 list \<Rightarrow> u8 list" where
  "put32 off w data = take off data @ to_le 4 w @ drop (off + 4) data"

definition visit_word :: "'s visitor \<Rightarrow> nat \<Rightarrow> u8 list \<times> 's \<Rightarrow> 's visit_result" where
  "visit_word visit off st =
     bindR (rd 4 off (fst st)) (\<lambda>w. bindR (visit w (snd st)) (\<lambda>(err, w', ctx). Inr (err, put32 off w' (fst st), ctx)))"

text \<open>\<open>for_each_btf_ext_sec\<close>: a body that stops the walk returns its error.\<close>

function each_sec :: "(nat \<Rightarrow> u8 list \<times> 's \<Rightarrow> 's visit_result) \<Rightarrow> btf_ext_info \<Rightarrow> nat \<Rightarrow> u8 list \<times> 's \<Rightarrow> 's visit_result" where
  "each_sec body seg sec st =
     (if sec < ei_info seg + unat (ei_len seg) then
        bindR (body sec st) (\<lambda>(err, st).
          if err \<noteq> 0 then Inr (err, st)
          else bindR (rd 4 (sec + 4) (fst st)) (\<lambda>num_info. each_sec body seg (sec + 8 + unat (ei_rec_size seg * num_info)) st))
      else Inr (0, st))"
  by pat_completeness auto
termination
  by (relation "measure (\<lambda>(body, seg, sec, st). ei_info seg + unat (ei_len seg) - sec)") auto

declare each_sec.simps [simp del]

text \<open>\<open>for_each_btf_ext_rec\<close>; \<open>stop\<close> says for which results the enclosing function returns.\<close>

function each_rec ::
  "(int \<Rightarrow> bool) \<Rightarrow> (nat \<Rightarrow> u8 list \<times> 's \<Rightarrow> 's visit_result) \<Rightarrow> btf_ext_info \<Rightarrow> nat \<Rightarrow> nat \<Rightarrow> u8 list \<times> 's \<Rightarrow> 's visit_result" where
  "each_rec stop body seg sec i st =
     bindR (rd 4 (sec + 4) (fst st)) (\<lambda>num_info.
       if i < unat (num_info :: u32) then
         bindR (body (sec + 8 + i * unat (ei_rec_size seg)) st) (\<lambda>(err, st).
           if stop err then Inr (err, st) else each_rec stop body seg sec (i + 1) st)
       else Inr (0, st))"
  by pat_completeness auto
termination
proof (relation "measure (\<lambda>(stop, body, seg, sec, i, st). 4294967296 - i)", goal_cases)
  case (2 stop body seg sec i st num_info)
  then show ?case using unat_lt32 [of num_info] by simp
qed simp

declare each_rec.simps [simp del]

definition visit_type_id :: "'s visitor \<Rightarrow> btf_ext_info \<Rightarrow> nat \<Rightarrow> u8 list \<times> 's \<Rightarrow> 's visit_result" where
  "visit_type_id visit seg sec st = each_rec (\<lambda>err. err < 0) (\<lambda>rec. visit_word visit (rec + 4)) seg sec 0 st"

definition btf_ext_visit_type_ids :: "'s visitor \<Rightarrow> btf_ext \<Rightarrow> 's \<Rightarrow> fault + (int \<times> btf_ext \<times> 's)" where
  "btf_ext_visit_type_ids visit e ctx =
     bindR (each_sec (visit_type_id visit (ex_func_info e)) (ex_func_info e) (ei_info (ex_func_info e)) (ex_data e, ctx)) (\<lambda>(err, data, ctx).
       if err \<noteq> 0 then Inr (err, e\<lparr>ex_data := data\<rparr>, ctx)
       else
         bindR (each_sec (visit_type_id visit (ex_core_relo_info e)) (ex_core_relo_info e) (ei_info (ex_core_relo_info e)) (data, ctx)) (\<lambda>(err, data, ctx).
           Inr (err, e\<lparr>ex_data := data\<rparr>, ctx)))"

definition visit_line_rec :: "'s visitor \<Rightarrow> nat \<Rightarrow> u8 list \<times> 's \<Rightarrow> 's visit_result" where
  "visit_line_rec visit rec st =
     bindR (visit_word visit (rec + 4) st) (\<lambda>(err, st). if err \<noteq> 0 then Inr (err, st) else visit_word visit (rec + 8) st)"

definition visit_named_sec :: "'s visitor \<Rightarrow> (nat \<Rightarrow> u8 list \<times> 's \<Rightarrow> 's visit_result) \<Rightarrow> btf_ext_info \<Rightarrow> nat \<Rightarrow> u8 list \<times> 's \<Rightarrow> 's visit_result" where
  "visit_named_sec visit body seg sec st =
     bindR (visit_word visit sec st) (\<lambda>(err, st). if err \<noteq> 0 then Inr (err, st) else each_rec (\<lambda>err. err \<noteq> 0) body seg sec 0 st)"

definition btf_ext_visit_str_offs :: "'s visitor \<Rightarrow> btf_ext \<Rightarrow> 's \<Rightarrow> fault + (int \<times> btf_ext \<times> 's)" where
  "btf_ext_visit_str_offs visit e ctx =
     bindR (each_sec (visit_word visit) (ex_func_info e) (ei_info (ex_func_info e)) (ex_data e, ctx)) (\<lambda>(err, data, ctx).
       if err \<noteq> 0 then Inr (err, e\<lparr>ex_data := data\<rparr>, ctx)
       else
         bindR (each_sec (visit_named_sec visit (visit_line_rec visit) (ex_line_info e)) (ex_line_info e) (ei_info (ex_line_info e)) (data, ctx)) (\<lambda>(err, data, ctx).
           if err \<noteq> 0 then Inr (err, e\<lparr>ex_data := data\<rparr>, ctx)
           else
             bindR (each_sec (visit_named_sec visit (\<lambda>rec. visit_word visit (rec + 8)) (ex_core_relo_info e)) (ex_core_relo_info e)
                 (ei_info (ex_core_relo_info e)) (data, ctx)) (\<lambda>(err, data, ctx).
               Inr (err, e\<lparr>ex_data := data\<rparr>, ctx))))"

section \<open>The layout of an accepted area\<close>

text \<open>A section is its name, the number of its records and their bytes; an area is a sequence of sections.\<close>

type_synonym ext_sec = "u32 \<times> u32 \<times> u8 list"

definition sec_ok :: "u32 \<Rightarrow> ext_sec \<Rightarrow> bool" where
  "sec_ok rs s = (case s of (name, n, recs) \<Rightarrow> n \<noteq> 0 \<and> length recs = unat n * unat rs)"

definition sec_bytes :: "ext_sec \<Rightarrow> u8 list" where
  "sec_bytes s = (case s of (name, n, recs) \<Rightarrow> to_le 4 name @ to_le 4 n @ recs)"

definition bytes_at :: "nat \<Rightarrow> nat \<Rightarrow> u8 list \<Rightarrow> u8 list" where
  "bytes_at pos n data = take n (drop pos data)"

lemma rd_bytes_at:
  assumes "bytes_at pos n data = a @ b @ c" "length a + k \<le> n" "length b = k" "pos + n \<le> length data" "LENGTH('a::len) \<le> 8 * k"
  shows "rd k (pos + length a) data = Inr (from_le b :: 'a word)"
proof -
  have "take k (drop (pos + length a) data) = take k (drop (length a) (bytes_at pos n data))"
    using assms(2) by (simp add: bytes_at_def drop_take take_take add.commute min_def)
  also have "\<dots> = b" using assms by simp
  finally show ?thesis using assms by (simp add: rd_def read_le_def)
qed

lemma length_bytes_at: "pos + n \<le> length data \<Longrightarrow> length (bytes_at pos n data) = n"
  by (simp add: bytes_at_def)

lemma bytes_at_add: "bytes_at pos (m + n) data = bytes_at pos m data @ bytes_at (pos + m) n data"
  by (simp add: bytes_at_def take_add add.commute)

lemma bytes_at_skip: "bytes_at pos n data = xs @ ys \<Longrightarrow> bytes_at (pos + length xs) (n - length xs) data = ys"
  by (metis add.commute append_eq_conv_conj drop_drop drop_take bytes_at_def)

lemma length_sec_bytes [simp]: "sec_ok rs (name, n, recs) \<Longrightarrow> length (sec_bytes (name, n, recs)) = 8 + unat n * unat rs"
  by (simp add: sec_ok_def sec_bytes_def)

lemma setup_loop_accepts:
  assumes "\<forall>s\<in>set secs. sec_ok rs s" "bytes_at pos (unat left) data = concat (map sec_bytes secs)" "pos + unat left \<le> length data"
  shows "setup_loop data rs pos left k = Inr (k + length secs)"
  using assms
proof (induction secs arbitrary: pos left k)
  case Nil
  then have "left = 0" using length_bytes_at [OF Nil(3)] by (simp add: unat_eq_zero)
  then show ?case by (simp add: setup_loop.simps)
next
  case (Cons s secs)
  obtain name n recs where s: "s = (name, n, recs)" by (cases s)
  let ?L = "8 + unat n * unat rs"
  have ok: "sec_ok rs (name, n, recs)" using Cons.prems(1) s by simp
  have sl: "bytes_at pos (unat left) data = sec_bytes (name, n, recs) @ concat (map sec_bytes secs)" using Cons.prems(2) s by simp
  have le: "?L \<le> unat left" using length_bytes_at [OF Cons.prems(3)] ok by (simp add: sl)
  have "rd 4 (pos + length (to_le 4 name)) data = Inr (from_le (to_le 4 n) :: u32)"
    by (rule rd_bytes_at [where c = "recs @ concat (map sec_bytes secs)"]) (use sl le Cons.prems(3) in \<open>simp_all add: sec_bytes_def\<close>)
  then have r: "rdE 4 (pos + 4) data = Inr n" by (simp add: rdE_def from_le_to_le)
  have nz: "left \<noteq> 0" using le by auto
  have fit: "\<not> ucast left < total_record_size n rs" using le by (simp add: word_less_nat_alt unat_total_record_size unat_ucast_u64)
  have "bytes_at (pos + ?L) (unat left - ?L) data = concat (map sec_bytes secs)" using bytes_at_skip [OF sl] ok by simp
  then have "setup_loop data rs (pos + ?L) (left - ucast (total_record_size n rs)) (k + 1) = Inr (k + 1 + length secs)"
    using Cons.prems le by (intro Cons.IH) (simp_all add: unat_left(1) [OF fit])
  then show ?case using le r fit ok nz
    by (simp add: setup_loop.simps [of _ _ pos] word_less_nat_alt unat_total_record_size sec_ok_def unat_eq_zero)
qed

lemma setup_loop_accepted:
  assumes "setup_loop data rs pos left k = Inr m" "pos + unat left \<le> length data"
  shows "\<exists>secs. m = k + length secs \<and> (\<forall>s\<in>set secs. sec_ok rs s) \<and> bytes_at pos (unat left) data = concat (map sec_bytes secs)"
  using assms
proof (induction data rs pos left k rule: setup_loop.induct)
  case (1 data rs pos left k)
  show ?case
  proof (cases "left = 0")
    case True
    then show ?thesis using 1(2) by (intro exI [of _ "[]"]) (simp add: setup_loop.simps bytes_at_def)
  next
    case False
    then have l8: "\<not> left < 8" using 1(2) by (auto simp: setup_loop.simps [of _ _ pos])
    obtain n :: u32 where n: "rdE 4 (pos + 4) data = Inr n" using 1(2) False l8 by (auto simp: setup_loop.simps [of _ _ pos])
    then have nz: "n \<noteq> 0" and fit: "\<not> ucast left < total_record_size n rs" using 1(2) False l8 by (auto simp: setup_loop.simps [of _ _ pos] split: if_splits)
    let ?L = "8 + unat n * unat rs"
    note left = unat_left [OF fit]
    have "setup_loop data rs (pos + unat (total_record_size n rs)) (left - ucast (total_record_size n rs)) (k + 1) = Inr m"
      using 1(2) False l8 n nz fit by (simp add: setup_loop.simps [of _ _ pos])
    from 1(1) [OF False l8 n nz fit this] obtain secs where secs: "m = k + 1 + length secs" "\<forall>s\<in>set secs. sec_ok rs s"
      "bytes_at (pos + ?L) (unat left - ?L) data = concat (map sec_bytes secs)" using 1(3) left by (auto simp: unat_total_record_size)
    let ?s = "(from_le (bytes_at pos 4 data), n, bytes_at (pos + 8) (unat n * unat rs) data)"
    have w: "bytes_at (pos + 4) 4 data = to_le 4 n"
      using n to_le_from_le [of "bytes_at (pos + 4) 4 data", where ?'a = 32] by (auto simp: rdE_def rd_def read_le_def bytes_at_def split: option.splits if_splits)
    have "bytes_at pos 4 data = to_le 4 (from_le (bytes_at pos 4 data) :: u32)"
      using to_le_from_le [of "bytes_at pos 4 data", where ?'a = 32] left 1(3) by (simp add: length_bytes_at)
    then have "sec_bytes ?s = bytes_at pos 4 data @ bytes_at (pos + 4) 4 data @ bytes_at (pos + 8) (unat n * unat rs) data" by (simp add: sec_bytes_def w)
    also have "\<dots> = bytes_at pos (4 + (4 + unat n * unat rs)) data" unfolding bytes_at_add by (simp add: add.commute)
    also have "\<dots> = bytes_at pos ?L data" by simp
    finally have "bytes_at pos (unat left) data = sec_bytes ?s @ concat (map sec_bytes secs)"
      using secs(3) left(2) bytes_at_add [of pos ?L "unat left - ?L" data] by simp
    moreover have "sec_ok rs ?s" using nz left(2) 1(3) by (simp add: sec_ok_def length_bytes_at)
    ultimately show ?thesis using secs by (intro exI [of _ "?s # secs"]) simp
  qed
qed

text \<open>What an area promises to its readers: nothing when it is empty, or sections from its start to its end.\<close>

definition area_secs :: "u8 list \<Rightarrow> btf_ext_info \<Rightarrow> ext_sec list \<Rightarrow> bool" where
  "area_secs data i secs \<longleftrightarrow> ei_sec_cnt i = length secs \<and> (\<forall>s\<in>set secs. sec_ok (ei_rec_size i) s) \<and>
     bytes_at (ei_info i) (unat (ei_len i)) data = concat (map sec_bytes secs) \<and> ei_info i + unat (ei_len i) \<le> length data"

definition area_ok :: "u8 list \<Rightarrow> u32 \<Rightarrow> u32 \<Rightarrow> btf_ext_info \<Rightarrow> bool" where
  "area_ok data hdr_len min_size i \<longleftrightarrow> i = no_info \<or>
     unat hdr_len \<le> ei_info i \<and> min_size \<le> ei_rec_size i \<and> ei_rec_size i AND 3 = 0 \<and> (\<exists>secs. secs \<noteq> [] \<and> area_secs data i secs)"

text \<open>The bytes of an area that is described by parameters of the header.\<close>

definition area_layout :: "u8 list \<Rightarrow> u32 \<Rightarrow> btf_ext_sec_setup_param \<Rightarrow> btf_ext_info \<Rightarrow> ext_sec list \<Rightarrow> bool" where
  "area_layout data hdr_len ps i secs \<longleftrightarrow> secs \<noteq> [] \<and> pa_off ps AND 3 = 0 \<and>
     unat hdr_len + unat (pa_off ps) + unat (pa_len ps) \<le> length data \<and>
     pa_min_rec_size ps \<le> ei_rec_size i \<and> ei_rec_size i AND 3 = 0 \<and> (\<forall>s\<in>set secs. sec_ok (ei_rec_size i) s) \<and>
     bytes_at (unat hdr_len + unat (pa_off ps)) (unat (pa_len ps)) data = to_le 4 (ei_rec_size i) @ concat (map sec_bytes secs) \<and>
     ei_info i = unat hdr_len + unat (pa_off ps) + 4 \<and> ei_len i = pa_len ps - 4 \<and> ei_sec_cnt i = length secs"

lemma unat_minus_4: "4 \<le> unat (w :: u32) \<Longrightarrow> unat (w - 4) = unat w - 4"
  by (simp add: unat_sub word_le_nat_alt)

lemma rdE_eq_Inr [simp]: "rdE n off data = Inr w \<longleftrightarrow> rd n off data = Inr w"
  by (simp add: rdE_def split: sum.splits)

lemma setup_info_accepted:
  assumes "btf_ext_setup_info data sz hdr_len ps i0 = Inr i" "length data = unat sz" "pa_len ps \<noteq> 0"
  shows "\<exists>secs. area_layout data hdr_len ps i secs"
proof -
  let ?info = "unat hdr_len + unat (pa_off ps)" and ?len = "unat (pa_len ps)" and ?left = "pa_len ps - 4"
  have r: "ei_rec_size i \<ge> pa_min_rec_size ps" "ei_rec_size i AND 3 = 0" "?left \<noteq> 0" "setup_loop data (ei_rec_size i) (?info + 4) ?left 0 = Inr (ei_sec_cnt i)"
    "ei_info i = ?info + 4" "ei_len i = ?left" "\<not> pa_len ps < 4" "?info + ?len \<le> length data" "rd 4 ?info data = Inr (ei_rec_size i)" "pa_off ps AND 3 = 0"
    using assms by (auto simp: btf_ext_setup_info_def Let_def not_less split: if_splits)
  have len: "4 \<le> ?len" using r(7) by (simp add: word_less_nat_alt)
  have bound: "?info + 4 + unat ?left \<le> length data" using r(8) unat_minus_4 [OF len] len by linarith
  from setup_loop_accepted [OF r(4) this] obtain secs where secs: "ei_sec_cnt i = length secs" "\<forall>s\<in>set secs. sec_ok (ei_rec_size i) s"
    "bytes_at (?info + 4) (unat ?left) data = concat (map sec_bytes secs)" by auto
  have "secs \<noteq> []" using secs(3) r(3) length_bytes_at [OF bound] by (auto simp: unat_eq_zero)
  moreover have "bytes_at ?info 4 data = to_le 4 (ei_rec_size i)"
    using r(8,9) len to_le_from_le [of "bytes_at ?info 4 data", where ?'a = 32] by (auto simp: rd_def read_le_def bytes_at_def)
  moreover have "?len = 4 + unat ?left" using unat_minus_4 [OF len] len by simp
  ultimately show ?thesis using r secs bytes_at_add [of ?info 4 "unat ?left" data] by (intro exI [of _ secs]) (simp add: area_layout_def)
qed

lemma layout_rest:
  assumes "area_layout data hdr_len ps i secs"
  shows "bytes_at (ei_info i) (unat (ei_len i)) data = concat (map sec_bytes secs) \<and> ei_info i + unat (ei_len i) \<le> length data \<and> ei_len i \<noteq> 0 \<and>
    unat (pa_len ps) = 4 + unat (ei_len i)"
proof -
  let ?info = "unat hdr_len + unat (pa_off ps)" and ?len = "unat (pa_len ps)"
  have b: "bytes_at ?info ?len data = to_le 4 (ei_rec_size i) @ concat (map sec_bytes secs)" and i: "ei_info i = ?info + 4" "ei_len i = pa_len ps - 4"
    and le: "?info + ?len \<le> length data" and ne: "secs \<noteq> []" using assms by (auto simp: area_layout_def)
  have l: "?len = 4 + length (concat (map sec_bytes secs))" using length_bytes_at [OF le] b by simp
  have u: "unat (ei_len i) = ?len - 4" using unat_minus_4 [of "pa_len ps"] l i(2) by simp
  obtain s where "s \<in> set secs" using ne by (cases secs) auto
  moreover have "length (sec_bytes s) \<noteq> 0" by (cases s) (simp add: sec_bytes_def)
  ultimately have "concat (map sec_bytes secs) \<noteq> []" by auto
  then have "ei_len i \<noteq> 0" using u l by auto
  then show ?thesis using bytes_at_skip [OF b] i u l le by simp
qed

lemma setup_info_accepts:
  assumes "area_layout data hdr_len ps i secs" "length data = unat sz" "pa_len ps \<noteq> 0"
  shows "btf_ext_setup_info data sz hdr_len ps i0 = Inr i"
proof -
  let ?info = "unat hdr_len + unat (pa_off ps)"
  note rest = layout_rest [OF assms(1)]
  note secs = assms(1) [unfolded area_layout_def]
  have b: "bytes_at ?info (unat (pa_len ps)) data = to_le 4 (ei_rec_size i) @ concat (map sec_bytes secs)" using secs by blast
  have l: "4 \<le> unat (pa_len ps)" using rest by linarith
  have "rd 4 (?info + length ([] :: u8 list)) data = Inr (from_le (to_le 4 (ei_rec_size i)) :: u32)"
    by (rule rd_bytes_at [where c = "concat (map sec_bytes secs)" and n = "unat (pa_len ps)"]) (use b l secs in simp_all)
  then have "rdE 4 ?info data = Inr (ei_rec_size i)" by (simp add: from_le_to_le)
  moreover have "setup_loop data (ei_rec_size i) (?info + 4) (pa_len ps - 4) 0 = Inr (0 + length secs)"
    by (rule setup_loop_accepts) (use secs rest in auto)
  ultimately show ?thesis using assms(2,3) secs rest
    by (cases i) (simp add: btf_ext_setup_info_def Let_def word_less_nat_alt not_less word_le_nat_alt)
qed

lemma setup_info_ok:
  assumes "btf_ext_setup_info data sz hdr_len ps no_info = Inr i" "length data = unat sz"
  shows "area_ok data hdr_len (pa_min_rec_size ps) i"
proof (cases "pa_len ps = 0")
  case True
  then show ?thesis using assms by (simp add: btf_ext_setup_info_def area_ok_def)
next
  case False
  then obtain secs where l: "area_layout data hdr_len ps i secs" using setup_info_accepted [OF assms] by blast
  then show ?thesis using layout_rest [OF l] by (auto simp: area_ok_def area_secs_def area_layout_def)
qed

lemma setup_area_ok:
  assumes "setup_area field min_size e no_info = Inr i" "length (ex_data e) = unat (ex_data_size e)" "rdE 4 4 (ex_data e) = Inr hdr_len"
  shows "area_ok (ex_data e) hdr_len min_size i"
proof -
  obtain ps where "btf_ext_setup_info (ex_data e) (ex_data_size e) hdr_len ps no_info = Inr i" "pa_min_rec_size ps = min_size"
    using assms(1,3) by (auto simp: setup_area_def)
  then show ?thesis using setup_info_ok assms(2) by metis
qed

text \<open>The state of a parsed section.\<close>

definition ext_wf :: "btf_ext \<Rightarrow> bool" where
  "ext_wf e \<longleftrightarrow> length (ex_data e) = unat (ex_data_size e) \<and>
     (\<exists>hdr_len. rd 4 4 (ex_data e) = Inr hdr_len \<and> 24 \<le> hdr_len \<and> hdr_len < ex_data_size e \<and> area_ok (ex_data e) hdr_len 8 (ex_func_info e) \<and>
        area_ok (ex_data e) hdr_len 16 (ex_line_info e) \<and> area_ok (ex_data e) hdr_len 16 (ex_core_relo_info e))"

lemma parse_hdr_ok:
  assumes "btf_ext_parse_hdr data sz = Inr u"
  shows "\<exists>hdr_len. rd 4 4 data = Inr hdr_len \<and> hdr_len < sz"
  using assms by (auto simp: btf_ext_parse_hdr_def not_less order_less_le split: if_splits)

lemma ext_areas_ok:
  assumes "ext_areas e = Inr e'" "length (ex_data e) = unat (ex_data_size e)" "rd 4 4 (ex_data e) = Inr hdr_len" "hdr_len < ex_data_size e"
    and "ex_func_info e = no_info" "ex_line_info e = no_info" "ex_core_relo_info e = no_info"
  shows "ext_wf e' \<and> ex_data e' = ex_data e"
proof -
  obtain f l where fl: "setup_area 8 8 e no_info = Inr f" "setup_area 16 16 (e\<lparr>ex_func_info := f\<rparr>) no_info = Inr l" "24 \<le> hdr_len"
    "(if hdr_len < 32 then Inr (e\<lparr>ex_func_info := f, ex_line_info := l\<rparr>) else btf_ext_setup_core_relos (e\<lparr>ex_func_info := f, ex_line_info := l\<rparr>)) = Inr e'"
    using assms by (auto simp: ext_areas_def btf_ext_setup_func_info_def btf_ext_setup_line_info_def not_less split: if_splits)
  then obtain c where c: "e' = e\<lparr>ex_func_info := f, ex_line_info := l, ex_core_relo_info := c\<rparr>"
    "c = no_info \<or> setup_area 24 16 (e\<lparr>ex_func_info := f, ex_line_info := l\<rparr>) no_info = Inr c"
  proof (cases "hdr_len < 32")
    case True
    have "e\<lparr>ex_func_info := f, ex_line_info := l\<rparr> = e\<lparr>ex_func_info := f, ex_line_info := l, ex_core_relo_info := no_info\<rparr>" using assms(7) by (cases e) simp
    then show ?thesis using that fl(4) True by auto
  qed (use fl(4) assms(7) that in \<open>auto simp: btf_ext_setup_core_relos_def\<close>)
  have "area_ok (ex_data e) hdr_len 8 f" "area_ok (ex_data e) hdr_len 16 l" "area_ok (ex_data e) hdr_len 16 c"
    using setup_area_ok [OF fl(1)] setup_area_ok [OF fl(2)] c(2) setup_area_ok [of 24 16 "e\<lparr>ex_func_info := f, ex_line_info := l\<rparr>" c] assms(2,3)
    by (auto simp: area_ok_def)
  then show ?thesis using c(1) fl(3) assms by (auto simp: ext_wf_def)
qed

lemma ext_new_wf:
  assumes "btf_ext__new calloc_ok malloc_ok data sz = Inr e"
  shows "ext_wf e \<and> ex_data e = take (unat sz) data"
proof -
  have sz: "unat sz \<le> length data" using assms by (auto simp: btf_ext__new_def split: if_splits)
  let ?e = "\<lparr>ex_data = take (unat sz) data, ex_data_size = sz, ex_func_info = no_info, ex_line_info = no_info, ex_core_relo_info = no_info\<rparr>"
  have a: "btf_ext_parse_hdr (take (unat sz) data) sz = Inr ()" "ext_areas ?e = Inr e"
    using assms by (auto simp: btf_ext__new_def Let_def split: if_splits)
  obtain hdr_len where h: "rd 4 4 (take (unat sz) data) = Inr hdr_len" "hdr_len < sz" using parse_hdr_ok [OF a(1)] by blast
  show ?thesis using ext_areas_ok [OF a(2), of hdr_len] h sz by simp
qed

section \<open>What a visit does\<close>

text \<open>The plain visit of a list of offsets.\<close>

fun visit_words :: "(int \<Rightarrow> bool) \<Rightarrow> 's visitor \<Rightarrow> nat list \<Rightarrow> u8 list \<times> 's \<Rightarrow> 's visit_result" where
  "visit_words stop visit [] st = Inr (0, st)"
| "visit_words stop visit (x # xs) st = bindR (visit_word visit x st) (\<lambda>(err, st). if stop err then Inr (err, st) else visit_words stop visit xs st)"

lemma put32_same: "off + 4 \<le> length data \<Longrightarrow> length (put32 off w data) = length data"
  by (simp add: put32_def)

lemma rd_put32_other:
  assumes "off + 4 \<le> length data" "p + 4 \<le> off \<or> off + 4 \<le> p"
  shows "rd 4 p (put32 off w data) = (rd 4 p data :: fault + u32)"
proof -
  have "take 4 (drop p (put32 off w data)) = take 4 (drop p data)" if "p + 4 \<le> length data"
  proof (rule nth_equalityI)
    show "length (take 4 (drop p (put32 off w data))) = length (take 4 (drop p data))" using put32_same [OF assms(1)] by simp
  next
    fix i assume "i < length (take 4 (drop p (put32 off w data)))"
    then have "i < 4" "p + i < length data" using put32_same [OF assms(1)] by auto
    then show "take 4 (drop p (put32 off w data)) ! i = take 4 (drop p data) ! i"
      using assms by (auto simp: put32_def nth_append)
  qed
  then show ?thesis using put32_same [OF assms(1)] by (auto simp: rd_def read_le_def)
qed

lemma visit_word_keep:
  assumes "visit_word visit x st = Inr (e, st')"
  shows "length (fst st') = length (fst st) \<and> x + 4 \<le> length (fst st) \<and> (p + 4 \<le> x \<or> x + 4 \<le> p \<longrightarrow> rd 4 p (fst st') = (rd 4 p (fst st) :: fault + u32))"
proof -
  obtain w :: u32 where w: "rd 4 x (fst st) = Inr w" using assms by (auto simp: visit_word_def)
  then have x: "x + 4 \<le> length (fst st)" by (auto simp: rd_def read_le_def split: if_splits)
  obtain w' c where "st' = (put32 x w' (fst st), c)" using assms by (auto simp: visit_word_def)
  then show ?thesis using x put32_same [OF x] rd_put32_other [OF x] by simp
qed

lemma visit_words_keep:
  assumes "visit_words stop visit xs st = Inr (e, st')"
  shows "length (fst st') = length (fst st) \<and> ((\<forall>x\<in>set xs. p + 4 \<le> x \<or> x + 4 \<le> p) \<longrightarrow> rd 4 p (fst st') = (rd 4 p (fst st) :: fault + u32))"
  using assms
proof (induction xs arbitrary: st)
  case (Cons x xs)
  obtain e1 st1 where v: "visit_word visit x st = Inr (e1, st1)" "(if stop e1 then Inr (e1, st1) else visit_words stop visit xs st1) = Inr (e, st')"
    using Cons.prems by auto
  note k = visit_word_keep [OF v(1), of p]
  show ?case
  proof (cases "stop e1")
    case True
    then show ?thesis using v(2) k by auto
  next
    case False
    then show ?thesis using Cons.IH [of st1] v(2) k by auto
  qed
qed simp

lemma visit_words_result:
  assumes "visit_words stop visit xs st = Inr (e, st')"
  shows "e = 0 \<or> stop e"
  using assms by (induction xs arbitrary: st) (auto split: if_splits)

lemma visit_words_append:
  assumes "\<not> stop 0"
  shows "visit_words stop visit (xs @ ys) st = bindR (visit_words stop visit xs st) (\<lambda>(e, st). if e \<noteq> 0 then Inr (e, st) else visit_words stop visit ys st)"
proof (induction xs arbitrary: st)
  case (Cons x xs)
  show ?case
  proof (cases "visit_word visit x st")
    case (Inr r)
    then obtain e st1 where "r = (e, st1)" by (cases r)
    then show ?thesis using Inr Cons assms by auto
  qed simp
qed simp

lemma visit_words_total:
  assumes "\<forall>x\<in>set xs. x + 4 \<le> length (fst st)" "\<And>w c. \<exists>r. visit w c = Inr r"
  shows "\<exists>r. visit_words stop visit xs st = Inr r"
  using assms(1)
proof (induction xs arbitrary: st)
  case (Cons x xs)
  have "rd 4 x (fst st) = Inr (from_le (take 4 (drop x (fst st))) :: u32)" using Cons.prems by (simp add: rd_def read_le_def)
  then obtain e st1 where v: "visit_word visit x st = Inr (e, st1)" using assms(2) [of "from_le (take 4 (drop x (fst st)))" "snd st"] by (auto simp: visit_word_def)
  show ?case
  proof (cases "stop e")
    case False
    then show ?thesis using v Cons.IH [of st1] Cons.prems visit_word_keep [OF v] by auto
  qed (use v in simp)
qed simp

text \<open>A body that visits the offsets \<open>offs rec\<close> of a record.\<close>

definition acts :: "(int \<Rightarrow> bool) \<Rightarrow> 's visitor \<Rightarrow> (nat \<Rightarrow> u8 list \<times> 's \<Rightarrow> 's visit_result) \<Rightarrow> (nat \<Rightarrow> nat list) \<Rightarrow> bool" where
  "acts stop visit body offs \<longleftrightarrow> (\<forall>rec st k. bindR (body rec st) (\<lambda>(e, st). if stop e then Inr (e, st) else k st) =
     bindR (visit_words stop visit (offs rec) st) (\<lambda>(e, st). if stop e then Inr (e, st) else (k st :: 's visit_result)))"

lemma acts_word: "\<not> stop 0 \<Longrightarrow> acts stop visit (\<lambda>rec. visit_word visit (rec + a)) (\<lambda>rec. [rec + a])"
  unfolding acts_def
proof (intro allI, goal_cases)
  case (1 rec st k)
  then show ?case by (cases "visit_word visit (rec + a) st") auto
qed

lemma acts_line: "acts (\<lambda>e. e \<noteq> 0) visit (visit_line_rec visit) (\<lambda>rec. [rec + 4, rec + 8])"
  unfolding acts_def
proof (intro allI, goal_cases)
  case (1 rec st k)
  show ?case
  proof (cases "visit_word visit (rec + 4) st")
    case (Inr r)
    then obtain e st1 where r: "visit_word visit (rec + 4) st = Inr (e, st1)" by (cases r) auto
    show ?thesis by (cases "visit_word visit (rec + 8) st1") (auto simp: visit_line_rec_def r)
  qed (simp add: visit_line_rec_def)
qed

lemma each_rec_visits:
  assumes act: "acts stop visit body offs" and st0: "\<not> stop 0"
    and out: "\<And>i x. i < unat w \<Longrightarrow> x \<in> set (offs (sec + 8 + i * unat (ei_rec_size seg))) \<Longrightarrow> sec + 8 \<le> x"
    and "rd 4 (sec + 4) (fst st) = Inr (w :: u32)" "i \<le> unat w"
  shows "each_rec stop body seg sec i st = visit_words stop visit (concat (map (\<lambda>i. offs (sec + 8 + i * unat (ei_rec_size seg))) [i..<unat w])) st"
  using assms(4,5)
proof (induction "unat w - i" arbitrary: i st)
  case 0
  then show ?case by (simp add: each_rec.simps [of _ _ _ _ i])
next
  case (Suc d)
  let ?x = "sec + 8 + i * unat (ei_rec_size seg)"
  have i: "i < unat w" using Suc(2) by simp
  have next_rec: "each_rec stop body seg sec (i + 1) st1 =
      visit_words stop visit (concat (map (\<lambda>i. offs (sec + 8 + i * unat (ei_rec_size seg))) [i + 1..<unat w])) st1"
    if "visit_words stop visit (offs ?x) st = Inr (e, st1)" for e st1
  proof (rule Suc.hyps(1))
    have "\<forall>x\<in>set (offs ?x). sec + 4 + 4 \<le> x \<or> x + 4 \<le> sec + 4" using out [OF i] by (auto simp: add.commute)
    then show "rd 4 (sec + 4) (fst st1) = Inr w" using visit_words_keep [OF that, of "sec + 4"] Suc.prems(1) by simp
  qed (use Suc(2) i in auto)
  have "each_rec stop body seg sec i st = bindR (body ?x st) (\<lambda>(e, st). if stop e then Inr (e, st) else each_rec stop body seg sec (i + 1) st)"
    using Suc.prems i by (simp add: each_rec.simps [of _ _ _ _ i])
  also have "\<dots> = bindR (visit_words stop visit (offs ?x) st) (\<lambda>(e, st). if stop e then Inr (e, st) else each_rec stop body seg sec (i + 1) st)"
    by (rule act [unfolded acts_def, rule_format])
  also have "\<dots> = visit_words stop visit (offs ?x @ concat (map (\<lambda>i. offs (sec + 8 + i * unat (ei_rec_size seg))) [i + 1..<unat w])) st"
    unfolding visit_words_append [of stop, OF st0] using next_rec visit_words_result [of stop visit "offs ?x" st] st0
    by (cases "visit_words stop visit (offs ?x) st") auto
  finally show ?case using i by (simp add: upt_conv_Cons)
qed

text \<open>Where the sections of an area start and how many records they have; the offsets that are visited in them.\<close>

fun sec_pos :: "u32 \<Rightarrow> nat \<Rightarrow> ext_sec list \<Rightarrow> (nat \<times> u32) list" where
  "sec_pos rs pos [] = []"
| "sec_pos rs pos ((name, n, recs) # secs) = (pos, n) # sec_pos rs (pos + 8 + unat n * unat rs) secs"

definition sec_offs :: "bool \<Rightarrow> nat list \<Rightarrow> u32 \<Rightarrow> nat \<times> u32 \<Rightarrow> nat list" where
  "sec_offs named flds rs s = (case s of (pos, n) \<Rightarrow> (if named then [pos] else []) @
     concat (map (\<lambda>i. map (\<lambda>f. pos + 8 + i * unat rs + f) flds) [0..<unat n]))"

definition area_offs :: "bool \<Rightarrow> nat list \<Rightarrow> btf_ext_info \<Rightarrow> ext_sec list \<Rightarrow> nat list" where
  "area_offs named flds i secs = concat (map (sec_offs named flds (ei_rec_size i)) (sec_pos (ei_rec_size i) (ei_info i) secs))"

lemma sec_offs_bounds:
  assumes "x \<in> set (sec_offs named flds rs (pos, n))" "\<forall>f\<in>set flds. f + 4 \<le> unat rs"
  shows "(x = pos \<or> pos + 8 \<le> x) \<and> x + 4 \<le> pos + 8 + unat n * unat rs"
proof -
  have "(x = pos \<and> named) \<or> (\<exists>i<unat n. \<exists>f\<in>set flds. x = pos + 8 + i * unat rs + f)" using assms(1) by (auto simp: sec_offs_def split: if_splits)
  then show ?thesis
  proof
    assume "\<exists>i<unat n. \<exists>f\<in>set flds. x = pos + 8 + i * unat rs + f"
    then obtain i f where i: "i < unat n" "f \<in> set flds" "x = pos + 8 + i * unat rs + f" by blast
    have "(i + 1) * unat rs \<le> unat n * unat rs" using i(1) by (intro mult_le_mono1) simp
    then show ?thesis using i assms(2) by fastforce
  qed auto
qed

lemma sec_pos_bounds: "(p, n) \<in> set (sec_pos rs pos secs) \<Longrightarrow> \<forall>s\<in>set secs. sec_ok rs s \<Longrightarrow>
    pos \<le> p \<and> p + 8 + unat n * unat rs \<le> pos + length (concat (map sec_bytes secs))"
proof (induction secs arbitrary: pos)
  case (Cons s secs)
  obtain name m recs where "s = (name, m, recs)" by (cases s)
  then show ?case using Cons by force
qed simp

lemma area_offs_bounds:
  assumes "area_secs data i secs" "x \<in> set (area_offs named flds i secs)" "\<forall>f\<in>set flds. f + 4 \<le> unat (ei_rec_size i)"
  shows "ei_info i \<le> x \<and> x + 4 \<le> ei_info i + unat (ei_len i)"
proof -
  obtain p n where p: "(p, n) \<in> set (sec_pos (ei_rec_size i) (ei_info i) secs)" "x \<in> set (sec_offs named flds (ei_rec_size i) (p, n))"
    using assms(2) by (auto simp: area_offs_def)
  have "length (concat (map sec_bytes secs)) = unat (ei_len i)" using assms(1) length_bytes_at [of "ei_info i" "unat (ei_len i)" data] by (simp add: area_secs_def)
  then show ?thesis using sec_pos_bounds [OF p(1)] sec_offs_bounds [OF p(2) assms(3)] assms(1) by (auto simp: area_secs_def)
qed

definition counts_ok :: "u8 list \<Rightarrow> (nat \<times> u32) list \<Rightarrow> bool" where
  "counts_ok data ps \<longleftrightarrow> (\<forall>(p, n)\<in>set ps. rd 4 (p + 4) data = Inr n)"

lemma counts_ok_keep:
  assumes "counts_ok (fst st) ps" "visit_words stop visit xs st = Inr (e, st')" "\<forall>(p, n)\<in>set ps. \<forall>x\<in>set xs. x + 4 \<le> p + 4 \<or> p + 8 \<le> x"
  shows "counts_ok (fst st') ps"
  unfolding counts_ok_def
proof (clarify)
  fix p n assume p: "(p, n) \<in> set ps"
  have "rd 4 (p + 4) (fst st') = (rd 4 (p + 4) (fst st) :: fault + u32)" using visit_words_keep [OF assms(2), of "p + 4"] assms(3) p by fastforce
  then show "rd 4 (p + 4) (fst st') = Inr n" using assms(1) p by (auto simp: counts_ok_def)
qed

lemma each_sec_visits:
  assumes body: "\<And>pos n st. rd 4 (pos + 4) (fst st) = Inr n \<Longrightarrow> body pos st = visit_words stop visit (sec_offs named flds (ei_rec_size seg) (pos, n)) st"
    and st0: "\<not> stop 0" and flds: "\<forall>f\<in>set flds. f + 4 \<le> unat (ei_rec_size seg)"
    and "\<forall>s\<in>set secs. sec_ok (ei_rec_size seg) s" "pos + length (concat (map sec_bytes secs)) = ei_info seg + unat (ei_len seg)"
    and "ei_info seg \<le> pos" "counts_ok (fst st) (sec_pos (ei_rec_size seg) pos secs)"
  shows "each_sec body seg pos st = visit_words stop visit (concat (map (sec_offs named flds (ei_rec_size seg)) (sec_pos (ei_rec_size seg) pos secs))) st"
  using assms(4-7)
proof (induction secs arbitrary: pos st)
  case Nil
  then show ?case by (simp add: each_sec.simps)
next
  case (Cons s secs)
  obtain name n recs where s: "s = (name, n, recs)" by (cases s)
  let ?rs = "ei_rec_size seg" let ?L = "8 + unat n * unat ?rs" let ?offs = "sec_offs named flds ?rs (pos, n)"
  have ok: "sec_ok ?rs (name, n, recs)" using Cons.prems(1) s by simp
  have len: "pos + ?L + length (concat (map sec_bytes secs)) = ei_info seg + unat (ei_len seg)" using Cons.prems(2) s ok by simp
  have "unat ?rs * unat n < 4294967296" using len Cons.prems(3) unat_lt32 [of "ei_len seg"] by (simp add: mult.commute)
  from unat_mult_small [OF this] have prod: "pos + 8 + unat (?rs * n) = pos + ?L" by simp
  have n: "rd 4 (pos + 4) (fst st) = Inr n" using Cons.prems(4) s by (simp add: counts_ok_def)
  have tail: "each_sec body seg (pos + ?L) st1 = visit_words stop visit (concat (map (sec_offs named flds ?rs) (sec_pos ?rs (pos + ?L) secs))) st1"
    "rd 4 (pos + 4) (fst st1) = Inr n" if v: "visit_words stop visit ?offs st = Inr (e, st1)" for e st1
  proof -
    have out: "\<forall>(p, m)\<in>set ((pos, n) # sec_pos ?rs (pos + ?L) secs). \<forall>x\<in>set ?offs. x + 4 \<le> p + 4 \<or> p + 8 \<le> x"
      using sec_offs_bounds [OF _ flds, of _ named pos n] sec_pos_bounds [of _ _ ?rs "pos + ?L" secs] Cons.prems(1) by fastforce
    have "counts_ok (fst st) ((pos, n) # sec_pos ?rs (pos + ?L) secs)" using Cons.prems(4) s by (simp add: add.assoc)
    from counts_ok_keep [OF this v out] have c: "counts_ok (fst st1) ((pos, n) # sec_pos ?rs (pos + ?L) secs)" .
    then show "rd 4 (pos + 4) (fst st1) = Inr n" by (simp add: counts_ok_def)
    show "each_sec body seg (pos + ?L) st1 = visit_words stop visit (concat (map (sec_offs named flds ?rs) (sec_pos ?rs (pos + ?L) secs))) st1"
      by (rule Cons.IH) (use Cons.prems(1,3) len c in \<open>auto simp: counts_ok_def\<close>)
  qed
  have "each_sec body seg pos st = bindR (visit_words stop visit ?offs st) (\<lambda>(e, st). if e \<noteq> 0 then Inr (e, st)
      else bindR (rd 4 (pos + 4) (fst st)) (\<lambda>num_info. each_sec body seg (pos + 8 + unat (?rs * num_info)) st))"
    using len by (simp add: each_sec.simps [of body seg pos] body [OF n])
  also have "\<dots> = visit_words stop visit (?offs @ concat (map (sec_offs named flds ?rs) (sec_pos ?rs (pos + ?L) secs))) st"
    unfolding visit_words_append [of stop, OF st0] using tail prod by (cases "visit_words stop visit ?offs st") (auto simp: add.assoc)
  finally show ?case using s by (simp add: add.assoc)
qed

lemma sec_counts:
  assumes "\<forall>s\<in>set secs. sec_ok rs s" "bytes_at pos n data = concat (map sec_bytes secs)" "pos + n \<le> length data"
  shows "counts_ok data (sec_pos rs pos secs)"
  using assms
proof (induction secs arbitrary: pos n)
  case (Cons s secs)
  obtain name m recs where s: "s = (name, m, recs)" by (cases s)
  have ok: "sec_ok rs (name, m, recs)" using Cons.prems(1) s by simp
  have b: "bytes_at pos n data = sec_bytes (name, m, recs) @ concat (map sec_bytes secs)" using Cons.prems(2) s by simp
  have le: "8 + unat m * unat rs \<le> n" using length_bytes_at [OF Cons.prems(3)] ok by (simp add: b)
  have "rd 4 (pos + length (to_le 4 name)) data = Inr (from_le (to_le 4 m) :: u32)"
    by (rule rd_bytes_at [where c = "recs @ concat (map sec_bytes secs)"]) (use b le Cons.prems(3) in \<open>simp_all add: sec_bytes_def\<close>)
  then have "rd 4 (pos + 4) data = Inr m" by (simp add: from_le_to_le)
  moreover have "counts_ok data (sec_pos rs (pos + (8 + unat m * unat rs)) secs)"
    using bytes_at_skip [OF b] ok le Cons.prems by (intro Cons.IH [of _ "n - (8 + unat m * unat rs)"]) simp_all
  ultimately show ?case by (simp add: counts_ok_def s add.assoc)
qed (simp add: counts_ok_def)

lemma area_visits:
  assumes a: "area_secs data seg secs" and c: "counts_ok (fst st) (sec_pos (ei_rec_size seg) (ei_info seg) secs)"
    and body: "\<And>pos n st. rd 4 (pos + 4) (fst st) = Inr n \<Longrightarrow> body pos st = visit_words stop visit (sec_offs named flds (ei_rec_size seg) (pos, n)) st"
    and "\<not> stop 0" "\<forall>f\<in>set flds. f + 4 \<le> unat (ei_rec_size seg)"
  shows "each_sec body seg (ei_info seg) st = visit_words stop visit (area_offs named flds seg secs) st"
  unfolding area_offs_def
proof (rule each_sec_visits [OF body assms(4,5)])
  show "ei_info seg + length (concat (map sec_bytes secs)) = ei_info seg + unat (ei_len seg)"
    using a length_bytes_at [of "ei_info seg" "unat (ei_len seg)" data] by (simp add: area_secs_def)
qed (use a c in \<open>auto simp: area_secs_def\<close>)

lemma type_id_body:
  assumes "rd 4 (pos + 4) (fst st) = Inr n"
  shows "visit_type_id visit seg pos st = visit_words (\<lambda>e. e < 0) visit (sec_offs False [4] (ei_rec_size seg) (pos, n)) st"
  unfolding visit_type_id_def using each_rec_visits [OF acts_word [of "\<lambda>e. e < 0" visit 4] _ _ assms, of seg 0] by (simp add: sec_offs_def)

lemma named_sec_body:
  assumes "rd 4 (pos + 4) (fst st) = Inr n" and act: "acts (\<lambda>e. e \<noteq> 0) visit body (\<lambda>rec. map (\<lambda>f. rec + f) flds)"
  shows "visit_named_sec visit body seg pos st = visit_words (\<lambda>e. e \<noteq> 0) visit (sec_offs True flds (ei_rec_size seg) (pos, n)) st"
proof (cases "visit_word visit pos st")
  case (Inr r)
  then obtain e st1 where v: "visit_word visit pos st = Inr (e, st1)" by (cases r) auto
  have "rd 4 (pos + 4) (fst st1) = Inr n" using visit_word_keep [OF v, of "pos + 4"] assms(1) by simp
  from each_rec_visits [OF act _ _ this, of seg 0]
  have "each_rec (\<lambda>e. e \<noteq> 0) body seg pos 0 st1 =
      visit_words (\<lambda>e. e \<noteq> 0) visit (concat (map (\<lambda>i. map ((+) (pos + 8 + i * unat (ei_rec_size seg))) flds) [0..<unat n])) st1" by force
  then show ?thesis by (simp add: visit_named_sec_def sec_offs_def v del: bindR_eq_Inr)
qed (simp add: visit_named_sec_def sec_offs_def)

lemma func_name_body: "visit_word visit pos st = visit_words (\<lambda>e. e \<noteq> 0) visit (sec_offs True [] rs (pos, n)) st"
proof -
  have "sec_offs True [] rs (pos, n) = [pos]" by (simp add: sec_offs_def)
  then show ?thesis by (cases "visit_word visit pos st") auto
qed

section \<open>Properties\<close>

text \<open>
  C20. \<open>btf_ext_setup_info\<close> accepts an area that is not empty exactly when it lies inside the data, starts with a record size that is large
  enough and a multiple of four, and goes on with at least one section, each with at least one record and all of its records present, up
  to the end of the area; it reports the place, the size of the records and the number of these sections.
\<close>

theorem ext_area_accepted_iff:
  assumes "length data = unat sz" "pa_len ps \<noteq> 0"
  shows "btf_ext_setup_info data sz hdr_len ps i0 = Inr i \<longleftrightarrow> (\<exists>secs. area_layout data hdr_len ps i secs)"
  using setup_info_accepted [OF _ assms] setup_info_accepts [OF _ assms] by blast

text \<open>A header, an area with one function record and one with one line record.\<close>

definition ext_sample :: "u8 list" where
  "ext_sample = [159, 235, 1, 0, 24, 0, 0, 0, 0, 0, 0, 0, 20, 0, 0, 0, 20, 0, 0, 0, 28, 0, 0, 0, 8, 0, 0, 0, 1, 0, 0, 0, 1, 0, 0, 0, 0, 0, 0, 0, 7, 0, 0, 0, 16, 0, 0, 0, 1, 0, 0, 0, 1, 0, 0, 0, 0, 0, 0, 0, 3, 0, 0, 0, 5, 0, 0, 0, 1, 0, 0, 0]"

definition sample_func :: btf_ext_info where
  "sample_func = \<lparr>ei_info = 28, ei_rec_size = 8, ei_len = 16, ei_sec_cnt = 1\<rparr>"

definition sample_line :: btf_ext_info where
  "sample_line = \<lparr>ei_info = 48, ei_rec_size = 16, ei_len = 24, ei_sec_cnt = 1\<rparr>"

lemma sample_area: "btf_ext_setup_info ext_sample 72 24 \<lparr>pa_off = 0, pa_len = 20, pa_min_rec_size = 8\<rparr> no_info = Inr sample_func"
  by code_simp

definition sample_ext :: btf_ext where
  "sample_ext = \<lparr>ex_data = ext_sample, ex_data_size = 72, ex_func_info = sample_func, ex_line_info = sample_line, ex_core_relo_info = no_info\<rparr>"

lemma ext_sample_new: "btf_ext__new True True ext_sample 72 = Inr sample_ext"
  by code_simp

theorem ext_area_accepted_iff_witness:
  "\<exists>secs. area_layout ext_sample 24 \<lparr>pa_off = 0, pa_len = 20, pa_min_rec_size = 8\<rparr> sample_func secs"
  using ext_area_accepted_iff [of ext_sample 72 "\<lparr>pa_off = 0, pa_len = 20, pa_min_rec_size = 8\<rparr>" 24 no_info sample_func] sample_area
  by (simp add: ext_sample_def)

text \<open>Areas that share no byte.\<close>

definition apart :: "btf_ext_info \<Rightarrow> btf_ext_info \<Rightarrow> bool" where
  "apart a b \<longleftrightarrow> ei_info a + unat (ei_len a) \<le> ei_info b \<or> ei_info b + unat (ei_len b) \<le> ei_info a"

lemma counts_apart:
  assumes "visit_words stop visit (area_offs named flds a asecs) st = Inr (e, st')" "area_secs data a asecs" "\<forall>f\<in>set flds. f + 4 \<le> unat (ei_rec_size a)"
    and "counts_ok (fst st) (sec_pos (ei_rec_size b) (ei_info b) bsecs)" "area_secs data b bsecs" "apart a b"
  shows "counts_ok (fst st') (sec_pos (ei_rec_size b) (ei_info b) bsecs)"
proof (rule counts_ok_keep [OF assms(4,1)], clarify)
  fix p n x assume p: "(p, n) \<in> set (sec_pos (ei_rec_size b) (ei_info b) bsecs)" and x: "x \<in> set (area_offs named flds a asecs)" "\<not> p + 8 \<le> x"
  have "length (concat (map sec_bytes bsecs)) = unat (ei_len b)" using assms(5) length_bytes_at [of "ei_info b" "unat (ei_len b)" data] by (simp add: area_secs_def)
  then show "x + 4 \<le> p + 4" using area_offs_bounds [OF assms(2) x(1) assms(3)] sec_pos_bounds [OF p] x(2) assms(5,6) by (auto simp: area_secs_def apart_def)
qed

lemma area_ok_secs: "area_ok data hdr_len m i \<Longrightarrow> \<exists>secs. area_secs data i secs \<and> (secs = [] \<or> unat m \<le> unat (ei_rec_size i))"
  by (auto simp: area_ok_def word_le_nat_alt no_info_def area_secs_def bytes_at_def intro: exI [of _ "[]"])

lemma area_visits_ok:
  assumes a: "area_secs data seg secs" and c: "counts_ok (fst st) (sec_pos (ei_rec_size seg) (ei_info seg) secs)"
    and body: "\<And>pos n st. rd 4 (pos + 4) (fst st) = Inr n \<Longrightarrow> body pos st = visit_words stop visit (sec_offs named flds (ei_rec_size seg) (pos, n)) st"
    and "\<not> stop 0" "secs = [] \<or> (\<forall>f\<in>set flds. f + 4 \<le> unat (ei_rec_size seg))"
  shows "each_sec body seg (ei_info seg) st = visit_words stop visit (area_offs named flds seg secs) st"
proof (cases "secs = []")
  case True
  then have "unat (ei_len seg) = 0" using a length_bytes_at [of "ei_info seg" "unat (ei_len seg)" data] by (simp add: area_secs_def)
  then show ?thesis using True by (simp add: each_sec.simps area_offs_def)
qed (use area_visits [OF a c body assms(4)] assms(5) in blast)

definition with_data :: "btf_ext \<Rightarrow> int \<times> u8 list \<times> 's \<Rightarrow> fault + (int \<times> btf_ext \<times> 's)" where
  "with_data e r = (case r of (err, data, ctx) \<Rightarrow> Inr (err, e\<lparr>ex_data := data\<rparr>, ctx))"

lemma visit_then:
  assumes "\<not> stop 0" "\<And>r data1 ctx1. visit_words stop visit xs st = Inr (r, data1, ctx1) \<Longrightarrow>
    rest data1 ctx1 = bindR (visit_words stop visit ys (data1, ctx1)) (with_data e)"
  shows "bindR (visit_words stop visit xs st) (\<lambda>(err, data, ctx). if err \<noteq> 0 then Inr (err, e\<lparr>ex_data := data\<rparr>, ctx) else rest data ctx) =
    bindR (visit_words stop visit (xs @ ys) st) (with_data e)"
  unfolding visit_words_append [of stop, OF assms(1)] using assms(2) by (cases "visit_words stop visit xs st") (auto simp: with_data_def)

text \<open>What the visits rely on: for each area its sections, and records that are large enough.\<close>

definition ext_secs :: "btf_ext \<Rightarrow> ext_sec list \<Rightarrow> ext_sec list \<Rightarrow> ext_sec list \<Rightarrow> bool" where
  "ext_secs e f l c \<longleftrightarrow> area_secs (ex_data e) (ex_func_info e) f \<and> area_secs (ex_data e) (ex_line_info e) l \<and> area_secs (ex_data e) (ex_core_relo_info e) c \<and>
     (f = [] \<or> 8 \<le> unat (ei_rec_size (ex_func_info e))) \<and> (l = [] \<or> 16 \<le> unat (ei_rec_size (ex_line_info e))) \<and>
     (c = [] \<or> 16 \<le> unat (ei_rec_size (ex_core_relo_info e)))"

lemma ext_wf_secs:
  assumes "ext_wf e"
  shows "\<exists>f l c. ext_secs e f l c"
proof -
  obtain h where "area_ok (ex_data e) h 8 (ex_func_info e)" "area_ok (ex_data e) h 16 (ex_line_info e)" "area_ok (ex_data e) h 16 (ex_core_relo_info e)"
    using assms by (auto simp: ext_wf_def)
  from this [THEN area_ok_secs] show ?thesis by (fastforce simp: ext_secs_def)
qed

abbreviation counts_in :: "u8 list \<Rightarrow> btf_ext_info \<Rightarrow> ext_sec list \<Rightarrow> bool" where
  "counts_in data i secs \<equiv> counts_ok data (sec_pos (ei_rec_size i) (ei_info i) secs)"

lemma ext_counts:
  assumes "area_secs data i secs"
  shows "counts_in data i secs"
  using assms sec_counts [of secs "ei_rec_size i" "ei_info i" "unat (ei_len i)" data] by (simp add: area_secs_def)

lemma area_offs_inside:
  assumes "area_secs data i secs" "secs = [] \<or> (\<forall>f\<in>set flds. f + 4 \<le> unat (ei_rec_size i))"
  shows "\<forall>x\<in>set (area_offs named flds i secs). x + 4 \<le> length data"
proof (cases "secs = []")
  case False
  then show ?thesis using area_offs_bounds [OF assms(1)] assms by (fastforce simp: area_secs_def)
qed (simp add: area_offs_def)

lemma counts_stay:
  assumes "visit_words stop visit (area_offs named flds a asecs) st = Inr (e, st')" "area_secs data a asecs" "asecs = [] \<or> (\<forall>f\<in>set flds. f + 4 \<le> unat (ei_rec_size a))"
    and "counts_in (fst st) b bsecs" "area_secs data b bsecs" "apart a b"
  shows "counts_in (fst st') b bsecs"
proof (cases "asecs = []")
  case True
  then show ?thesis using assms by (auto simp: area_offs_def)
qed (use counts_apart [OF assms(1,2) _ assms(4-6)] assms(3) in blast)

lemma visit_type_ids_eq:
  assumes s: "ext_secs e f l c" and ap: "apart (ex_func_info e) (ex_core_relo_info e)"
  shows "btf_ext_visit_type_ids visit e ctx =
    bindR (visit_words (\<lambda>err. err < 0) visit (area_offs False [4] (ex_func_info e) f @ area_offs False [4] (ex_core_relo_info e) c) (ex_data e, ctx)) (with_data e)"
proof -
  have a: "area_secs (ex_data e) (ex_func_info e) f" "area_secs (ex_data e) (ex_core_relo_info e) c"
    and m: "f = [] \<or> (\<forall>x\<in>set [4]. x + 4 \<le> unat (ei_rec_size (ex_func_info e)))" "c = [] \<or> (\<forall>x\<in>set [4]. x + 4 \<le> unat (ei_rec_size (ex_core_relo_info e)))"
    using s by (auto simp: ext_secs_def)
  have f: "each_sec (visit_type_id visit (ex_func_info e)) (ex_func_info e) (ei_info (ex_func_info e)) (ex_data e, ctx) =
      visit_words (\<lambda>err. err < 0) visit (area_offs False [4] (ex_func_info e) f) (ex_data e, ctx)"
    by (rule area_visits_ok [OF a(1) _ type_id_body _ m(1)]) (use ext_counts [OF a(1)] in simp_all)
  show ?thesis unfolding btf_ext_visit_type_ids_def f
  proof (rule visit_then)
    fix r data1 ctx1 assume v: "visit_words (\<lambda>err. err < 0) visit (area_offs False [4] (ex_func_info e) f) (ex_data e, ctx) = Inr (r, data1, ctx1)"
    have "counts_in (fst (data1, ctx1)) (ex_core_relo_info e) c" by (rule counts_stay [OF v a(1) m(1) _ a(2) ap]) (use ext_counts [OF a(2)] in simp)
    from area_visits_ok [OF a(2) this type_id_body _ m(2)]
    show "bindR (each_sec (visit_type_id visit (ex_core_relo_info e)) (ex_core_relo_info e) (ei_info (ex_core_relo_info e)) (data1, ctx1))
        (\<lambda>(err, data, ctx). Inr (err, e\<lparr>ex_data := data\<rparr>, ctx)) =
      bindR (visit_words (\<lambda>err. err < 0) visit (area_offs False [4] (ex_core_relo_info e) c) (data1, ctx1)) (with_data e)"
      by (simp add: with_data_def [abs_def])
  qed simp
qed

lemma acts_core: "acts (\<lambda>e. e \<noteq> 0) visit (\<lambda>rec. visit_word visit (rec + 8)) (\<lambda>rec. map (\<lambda>f. rec + f) [8])"
  using acts_word [of "\<lambda>e. e \<noteq> 0" visit 8] by simp

lemma acts_line_map: "acts (\<lambda>e. e \<noteq> 0) visit (visit_line_rec visit) (\<lambda>rec. map (\<lambda>f. rec + f) [4, 8])"
  using acts_line by simp

lemma visit_str_offs_eq:
  assumes s: "ext_secs e f l c"
    and ap: "apart (ex_func_info e) (ex_core_relo_info e)" "apart (ex_func_info e) (ex_line_info e)" "apart (ex_line_info e) (ex_core_relo_info e)"
  shows "btf_ext_visit_str_offs visit e ctx =
    bindR (visit_words (\<lambda>err. err \<noteq> 0) visit (area_offs True [] (ex_func_info e) f @ area_offs True [4, 8] (ex_line_info e) l @
      area_offs True [8] (ex_core_relo_info e) c) (ex_data e, ctx)) (with_data e)"
proof -
  have a: "area_secs (ex_data e) (ex_func_info e) f" "area_secs (ex_data e) (ex_line_info e) l" "area_secs (ex_data e) (ex_core_relo_info e) c"
    and m: "f = [] \<or> (\<forall>x\<in>set []. x + 4 \<le> unat (ei_rec_size (ex_func_info e)))" "l = [] \<or> (\<forall>x\<in>set [4, 8]. x + 4 \<le> unat (ei_rec_size (ex_line_info e)))"
      "c = [] \<or> (\<forall>x\<in>set [8]. x + 4 \<le> unat (ei_rec_size (ex_core_relo_info e)))"
    using s by (auto simp: ext_secs_def)
  have f: "each_sec (visit_word visit) (ex_func_info e) (ei_info (ex_func_info e)) (ex_data e, ctx) =
      visit_words (\<lambda>err. err \<noteq> 0) visit (area_offs True [] (ex_func_info e) f) (ex_data e, ctx)"
    by (rule area_visits_ok [OF a(1) _ func_name_body _ m(1)]) (use ext_counts [OF a(1)] in simp_all)
  show ?thesis unfolding btf_ext_visit_str_offs_def f
  proof (rule visit_then, goal_cases)
    case (2 r data1 ctx1)
    have c1: "counts_in (fst (data1, ctx1)) (ex_core_relo_info e) c" by (rule counts_stay [OF 2 a(1) m(1) _ a(3) ap(1)]) (use ext_counts [OF a(3)] in simp)
    have "counts_in (fst (data1, ctx1)) (ex_line_info e) l" by (rule counts_stay [OF 2 a(1) m(1) _ a(2) ap(2)]) (use ext_counts [OF a(2)] in simp)
    then have l: "each_sec (visit_named_sec visit (visit_line_rec visit) (ex_line_info e)) (ex_line_info e) (ei_info (ex_line_info e)) (data1, ctx1) =
        visit_words (\<lambda>err. err \<noteq> 0) visit (area_offs True [4, 8] (ex_line_info e) l) (data1, ctx1)"
      by (intro area_visits_ok [OF a(2) _ named_sec_body [OF _ acts_line_map] _ m(2)]) simp_all
    show ?case unfolding l
    proof (rule visit_then, goal_cases)
      case (2 r data2 ctx2)
      have "counts_in (fst (data2, ctx2)) (ex_core_relo_info e) c" by (rule counts_stay [OF 2 a(2) m(2) c1 a(3) ap(3)])
      from area_visits_ok [OF a(3) this named_sec_body [OF _ acts_core] _ m(3)] show ?case by (simp add: with_data_def [abs_def])
    qed simp
  qed simp
qed

text \<open>
  C21. In accepted data whose areas share no byte, \<open>btf_ext_visit_type_ids\<close> visits exactly the type ids of the function and relocation records,
  and \<open>btf_ext_visit_str_offs\<close> exactly the names of all sections and the string offsets of the line and relocation records, each in the order
  of the data and inside it, although the visitor rewrites the data that the loops read; the first error ends the visit.
\<close>

theorem ext_visits_exact:
  assumes new: "btf_ext__new calloc_ok malloc_ok data sz = Inr e"
    and ap: "apart (ex_func_info e) (ex_core_relo_info e)" "apart (ex_func_info e) (ex_line_info e)" "apart (ex_line_info e) (ex_core_relo_info e)"
  shows "\<exists>f l c. ext_secs e f l c \<and>
    (let ids = area_offs False [4] (ex_func_info e) f @ area_offs False [4] (ex_core_relo_info e) c;
         strs = area_offs True [] (ex_func_info e) f @ area_offs True [4, 8] (ex_line_info e) l @ area_offs True [8] (ex_core_relo_info e) c in
     (\<forall>x\<in>set (ids @ strs). x + 4 \<le> length (ex_data e)) \<and>
     btf_ext_visit_type_ids visit e ctx = bindR (visit_words (\<lambda>err. err < 0) visit ids (ex_data e, ctx)) (with_data e) \<and>
     btf_ext_visit_str_offs visit e ctx = bindR (visit_words (\<lambda>err. err \<noteq> 0) visit strs (ex_data e, ctx)) (with_data e))"
proof -
  obtain f l c where s: "ext_secs e f l c" using ext_wf_secs ext_new_wf [OF new] by blast
  then have a: "area_secs (ex_data e) (ex_func_info e) f" "area_secs (ex_data e) (ex_line_info e) l" "area_secs (ex_data e) (ex_core_relo_info e) c"
    and m: "f = [] \<or> 8 \<le> unat (ei_rec_size (ex_func_info e))" "l = [] \<or> 16 \<le> unat (ei_rec_size (ex_line_info e))" "c = [] \<or> 16 \<le> unat (ei_rec_size (ex_core_relo_info e))"
    by (auto simp: ext_secs_def)
  have "\<forall>x\<in>set (area_offs named [4] (ex_func_info e) f). x + 4 \<le> length (ex_data e)" "\<forall>x\<in>set (area_offs named [] (ex_func_info e) f). x + 4 \<le> length (ex_data e)"
    "\<forall>x\<in>set (area_offs named [4, 8] (ex_line_info e) l). x + 4 \<le> length (ex_data e)" "\<forall>x\<in>set (area_offs named [4] (ex_core_relo_info e) c). x + 4 \<le> length (ex_data e)"
    "\<forall>x\<in>set (area_offs named [8] (ex_core_relo_info e) c). x + 4 \<le> length (ex_data e)" for named
    using a m by (intro area_offs_inside; auto)+
  then show ?thesis using s visit_type_ids_eq [OF s ap(1)] visit_str_offs_eq [OF s ap] by (intro exI [of _ f] exI [of _ l] exI [of _ c]) (auto simp: Let_def)
qed

lemma sample_apart:
  "apart (ex_func_info sample_ext) (ex_core_relo_info sample_ext)" "apart (ex_func_info sample_ext) (ex_line_info sample_ext)"
  "apart (ex_line_info sample_ext) (ex_core_relo_info sample_ext)"
  by (simp_all add: apart_def sample_ext_def sample_func_def sample_line_def no_info_def)

theorem ext_visits_exact_witness:
  "\<exists>f l c. ext_secs sample_ext f l c \<and> btf_ext_visit_type_ids (\<lambda>w ctx. Inr (0, w, w # ctx)) sample_ext [] =
     bindR (visit_words (\<lambda>err. err < 0) (\<lambda>w ctx. Inr (0, w, w # ctx)) (area_offs False [4] (ex_func_info sample_ext) f @
       area_offs False [4] (ex_core_relo_info sample_ext) c) (ex_data sample_ext, [])) (with_data sample_ext)"
  using ext_visits_exact [OF ext_sample_new sample_apart, of "\<lambda>w ctx. Inr (0, w, w # ctx)" "[]"] unfolding Let_def by blast

text \<open>
  Areas that overlap are accepted; then a visitor can change the number of records of a section that is visited later, and the visit
  leaves the data.
\<close>

definition ext_overlap :: "u8 list" where
  "ext_overlap = [159, 235, 1, 0, 32, 0, 0, 0, 0, 0, 0, 0, 140, 0, 0, 0, 140, 0, 0, 0, 0, 0, 0, 0, 8, 0, 0, 0, 28, 0, 0, 0, 8, 0, 0, 0, 0, 0, 0, 0, 16, 0, 0, 0, 0, 0, 0, 0, 1, 0, 0, 0, 0, 0, 0, 0, 0, 0, 0, 0, 0, 0, 0, 0, 0, 0, 0, 0, 0, 0, 0, 0, 0, 0, 0, 0, 0, 0, 0, 0, 0, 0, 0, 0, 0, 0, 0, 0, 0, 0, 0, 0, 0, 0, 0, 0, 0, 0, 0, 0, 0, 0, 0, 0, 0, 0, 0, 0, 0, 0, 0, 0, 0, 0, 0, 0, 0, 0, 0, 0, 0, 0, 0, 0, 0, 0, 0, 0, 0, 0, 0, 0, 0, 0, 0, 0, 0, 0, 0, 0, 0, 0, 0, 0, 0, 0, 0, 0, 0, 0, 0, 0, 0, 0, 0, 0, 0, 0, 0, 0, 0, 0, 0, 0, 0, 0, 0, 0, 0, 0, 0, 0]"

lemma ext_overlap_leaves_data:
  "bindR (btf_ext__new True True ext_overlap 172) (\<lambda>e. case btf_ext_visit_type_ids (\<lambda>w ctx. Inr (0, w + 1000, ctx)) e () of Inl f \<Rightarrow> Inl (Fault f) | Inr r \<Rightarrow> Inr r) =
    Inl (Fault Out_Of_Bounds)"
  by code_simp

end
