(* ===== verification/Dedup_Strings.thy ===== *)
theory Dedup_Strings
  imports Btf_Merge Btf_Ext
begin

text \<open>
  The string pass of the deduplication (\<open>libbpf/src/btf.c\<close>): every string the types and the \<open>.BTF.ext\<close> data refer to is entered in a
  new set, unless a base instance has it, its offset is rewritten, and the set replaces the strings of the instance. Strings nobody
  refers to and second copies are gone.
\<close>

section \<open>Operations\<close>

text \<open>
  The state of the pass: the instance with its bases, whose string index is built on demand, and the new set; \<open>sd_calls\<close> counts
  the strings looked up so far, for the answers of the allocator.
\<close>

record str_dedup =
  sd_chain :: bchain
  sd_set :: strset
  sd_calls :: nat

definition strs_dedup_remap_str_off :: "(nat \<Rightarrow> nat \<Rightarrow> build_allocs) \<Rightarrow> str_dedup word_visitor" where
  "strs_dedup_remap_str_off als w d = (case sd_chain d of [] \<Rightarrow> Inl Out_Of_Bounds | b # base \<Rightarrow>
     if w = 0 \<or> unat w < bb_start_str_off b then Inr (0, w, d)
     else bindR (btf__str_by_offset (map to_btf (b # base)) (unat w)) (\<lambda>s. case s of
         None \<Rightarrow> Inl Out_Of_Bounds
       | Some s \<Rightarrow>
           let al = als (sd_calls d); d = d\<lparr>sd_calls := sd_calls d + 1\<rparr> in
           bindR (if base = [] then Inr (- ENOENT, []) else btf__find_str al s base) (\<lambda>(err, base).
             let d = d\<lparr>sd_chain := b # base\<rparr> in
             if 0 \<le> err then Inr (0, of_int err, d)
             else if err \<noteq> - ENOENT then Inr (err, w, d)
             else bindR (strset__add_str (ba_str_mem (al (length base))) (ba_str_hash (al (length base))) s (sd_set d)) (\<lambda>(off, st).
               let d = d\<lparr>sd_set := st\<rparr> in
               if off < 0 then Inr (off, w, d)
               else bindR (global_str_off b off) (\<lambda>r. Inr (0, of_int r, d))))))"

text \<open>The loop over the types, whose words are rewritten in place; a type that is not inside the data would be read past its end.\<close>

definition put_at :: "nat \<Rightarrow> u32 list \<Rightarrow> u8 list \<Rightarrow> u8 list" where
  "put_at off ws data = take off data @ words_bytes ws @ drop (off + 4 * length ws) data"

fun visit_types :: "'s word_visitor \<Rightarrow> nat list \<Rightarrow> u8 list \<Rightarrow> 's \<Rightarrow> fault + (int \<times> u8 list \<times> 's)" where
  "visit_types visit [] data s = Inr (0, data, s)"
| "visit_types visit (off # offs) data s =
     (if type_fits (length data) off data then
        bindR (btf_type_visit_str_offs visit (type_words (type_at data off)) s) (\<lambda>(r, ws, s).
          if r \<noteq> 0 then Inr (r, put_at off ws data, s) else visit_types visit offs (put_at off ws data) s)
      else Inl Out_Of_Bounds)"

definition btf_for_each_str_off :: "'s word_visitor \<Rightarrow> nat list \<Rightarrow> u8 list \<Rightarrow> btf_ext option \<Rightarrow> 's \<Rightarrow> fault + (int \<times> u8 list \<times> btf_ext option \<times> 's)" where
  "btf_for_each_str_off visit offs data ext s = bindR (visit_types visit offs data s) (\<lambda>(r, data, s).
     if r \<noteq> 0 then Inr (r, data, ext, s)
     else (case ext of
         None \<Rightarrow> Inr (0, data, None, s)
       | Some e \<Rightarrow> bindR (btf_ext_visit_str_offs visit e s) (\<lambda>(r, e, s). Inr (r, data, Some e, s))))"

text \<open>The instance after the loop, and after the strings have been replaced.\<close>

definition with_types :: "u8 list \<Rightarrow> bbtf \<Rightarrow> bbtf" where
  "with_types data b = b\<lparr>bb_types := area_write 0 data (bb_types b)\<rparr>"

definition with_strs :: "strset \<Rightarrow> bbtf \<Rightarrow> bbtf" where
  "with_strs st b = b\<lparr>bb_hdr := (bb_hdr b)\<lparr>hd_str_len := of_nat (strset__data_size st)\<rparr>, bb_strs := Interned st, bb_strs_deduped := True\<rparr>"

text \<open>\<open>new_ok\<close> are the answers of the allocator for the new set, \<open>empty_ok\<close> those for its empty string, \<open>als\<close> those for the other strings.\<close>

definition btf_dedup_strings ::
  "bool \<times> bool \<Rightarrow> bool \<times> bool \<times> bool \<Rightarrow> (nat \<Rightarrow> nat \<Rightarrow> build_allocs) \<Rightarrow> btf_ext option \<Rightarrow> bchain \<Rightarrow> fault + (int \<times> btf_ext option \<times> bchain)" where
  "btf_dedup_strings new_ok empty_ok als ext c = (case c of [] \<Rightarrow> Inl Out_Of_Bounds | b # base \<Rightarrow>
     if bb_strs_deduped b then Inr (0, ext, c)
     else (case strset__new (fst new_ok) (snd new_ok) True (\<lambda>_. (True, True)) BTF_MAX_STR_OFFSET None of
         Inl (Fault f) \<Rightarrow> Inl f
       | Inl (Errno err) \<Rightarrow> Inr (err, ext, c)
       | Inr st \<Rightarrow>
           bindR (if base = [] then strset__add_str (fst empty_ok) (snd empty_ok) [] st else Inr (0, st)) (\<lambda>(err, st).
             if err < 0 then Inr (err, ext, c)
             else bindR (btf_for_each_str_off (strs_dedup_remap_str_off als) (bb_offs b) (bb_bytes b) ext
                    \<lparr>sd_chain = c, sd_set = st, sd_calls = 0\<rparr>) (\<lambda>(err, data, ext, d).
               let b = with_types data b; base = tl (sd_chain d) in
               if err \<noteq> 0 then Inr (err, ext, b # base)
               else Inr (0, ext, with_strs (sd_set d) b # base)))))"

declare btf__str_by_offset.simps(2) [simp del]

section \<open>Visits of all types\<close>

lemma drop_eq_word_at: "drop k d' = drop k d \<Longrightarrow> k \<le> off \<Longrightarrow> word_at d' off = word_at d off"
  using word_at_drop [of d' k "off - k"] word_at_drop [of d k "off - k"] by simp

lemma tail_agree:
  assumes "drop k d' = drop k d" "k \<le> off"
  shows "base_at d' off = base_at d off" "type_at d' off = type_at d off" "type_fits n off d' = type_fits n off d"
proof -
  have w: "word_at d' (off + i) = word_at d (off + i)" for i using drop_eq_word_at [OF assms(1), of "off + i"] assms(2) by simp
  show b: "base_at d' off = base_at d off" using w [of 0] w [of 4] w [of 8] by (simp add: base_at_def)
  show "type_at d' off = type_at d off" using w by (simp add: type_at_def b Let_def add.assoc)
  show "type_fits n off d' = type_fits n off d" by (simp add: type_fits_def b)
qed

lemma tiles_tail: "drop k d' = drop k d \<Longrightarrow> k \<le> off \<Longrightarrow> tiles n d' off offs = tiles n d off offs"
proof (induction offs arbitrary: off)
  case (Cons o1 offs)
  note a = tail_agree [OF Cons.prems]
  have "tiles n d' (off + nat (btf_type_size (base_at d off))) offs = tiles n d (off + nat (btf_type_size (base_at d off))) offs"
    using Cons.prems by (intro Cons.IH) simp_all
  then show ?case by (simp only: tiles.simps a)
qed simp

lemma tiles_from: "tiles n d pos offs \<Longrightarrow> off \<in> set offs \<Longrightarrow> pos \<le> off \<and> type_fits n off d"
proof (induction offs arbitrary: pos)
  case (Cons o1 offs)
  show ?case
  proof (cases "off = o1")
    case True
    then show ?thesis using Cons.prems by simp
  next
    case False
    then have "pos + nat (btf_type_size (base_at d pos)) \<le> off \<and> type_fits n off d" using Cons.prems by (intro Cons.IH) simp_all
    then show ?thesis by simp
  qed
qed simp

text \<open>One type rewritten in place by words that keep its size.\<close>

lemma put_at_ok:
  assumes fits: "type_fits (length data) off data" and ws: "words_ok ws" "length ws = length (type_words (type_at data off))"
    and info: "btf_type_size (type_of_words ws) = btf_type_size (type_at data off)"
  shows "length (put_at off ws data) = length data" "take off (put_at off ws data) = take off data" "off + 4 * length ws \<le> length data"
    "drop (off + 4 * length ws) (put_at off ws data) = drop (off + 4 * length ws) data" "type_at (put_at off ws data) off = type_of_words ws"
    "off + nat (btf_type_size (base_at data off)) = off + 4 * length ws" "btf_type_size (base_at data off) = 4 * int (length ws)" "3 \<le> length ws" "type_fits (length data) off (put_at off ws data)"
    "btf_type_size (base_at (put_at off ws data) off) = btf_type_size (base_at data off)"
proof -
  note t = type_at_words_ok [OF fits]
  show n: "btf_type_size (base_at data off) = 4 * int (length ws)" using t(1,3) ws(2) by (simp add: words_ok_def)
  show "3 \<le> length ws" using ws(1) by (simp add: words_ok_def)
  show "off + nat (btf_type_size (base_at data off)) = off + 4 * length ws" using n by simp
  show room: "off + 4 * length ws \<le> length data" using fits n by (simp add: type_fits_def)
  then have len: "length (take off data) = off" by simp
  show "length (put_at off ws data) = length data" using room by (simp add: put_at_def)
  show "take off (put_at off ws data) = take off data" using len by (simp add: put_at_def)
  show "drop (off + 4 * length ws) (put_at off ws data) = drop (off + 4 * length ws) data" using len by (simp add: put_at_def)
  show at: "type_at (put_at off ws data) off = type_of_words ws" using type_at_words [OF ws(1), of "take off data"] len by (simp add: put_at_def)
  have "base_at (put_at off ws data) off = (type_of_words ws)\<lparr>bt_words := []\<rparr>"
    using base_at_words [of ws "take off data"] ws(1) len by (simp add: put_at_def words_ok_def)
  then show "btf_type_size (base_at (put_at off ws data) off) = btf_type_size (base_at data off)"
    using info t(3) type_size_cong [of "(type_of_words ws)\<lparr>bt_words := []\<rparr>" "type_of_words ws"] by simp
  then show "type_fits (length data) off (put_at off ws data)" using fits by (simp add: type_fits_def)
qed

text \<open>A type rewritten by a visitor: the words at the visited places are good for the old ones, the others are the old ones.\<close>

definition rewritten :: "(u32 \<Rightarrow> u32 \<Rightarrow> bool) \<Rightarrow> btf_type \<Rightarrow> btf_type \<Rightarrow> bool" where
  "rewritten good t t' \<longleftrightarrow> length (type_words t') = length (type_words t) \<and> (\<forall>i<length (type_words t).
     if i \<in> set (str_off_places t) then good (type_words t ! i) (type_words t' ! i) else type_words t' ! i = type_words t ! i)"

definition names_ok :: "(u32 \<Rightarrow> bool) \<Rightarrow> btf_type \<Rightarrow> bool" where
  "names_ok pre t \<longleftrightarrow> (\<forall>i\<in>set (str_off_places t). pre (type_words t ! i))"

lemma rewritten_mono: "rewritten g t t' \<Longrightarrow> (\<And>w w'. g w w' \<Longrightarrow> h w w') \<Longrightarrow> rewritten h t t'"
  by (simp add: rewritten_def)

text \<open>Words in bytes that have no byte in common, and bytes that differ in some words only.\<close>

definition words_apart :: "nat list \<Rightarrow> bool" where
  "words_apart xs \<longleftrightarrow> sorted_wrt (\<lambda>x y. x + 4 \<le> y \<or> y + 4 \<le> x) xs"

definition bytes_but :: "nat list \<Rightarrow> u8 list \<Rightarrow> u8 list \<Rightarrow> bool" where
  "bytes_but xs data data' \<longleftrightarrow> length data' = length data \<and> (\<forall>k<length data. (\<forall>x\<in>set xs. k < x \<or> x + 4 \<le> k) \<longrightarrow> data' ! k = data ! k)"

lemma rd_word_at: "x + 4 \<le> length data \<Longrightarrow> rd 4 x data = Inr (word_at data x)"
  by (simp add: rd_def read_le_def word_at_def)

lemma bytes_but_word:
  assumes but: "bytes_but xs data data'" and y: "y + 4 \<le> length data" "\<forall>x\<in>set xs. y + 4 \<le> x \<or> x + 4 \<le> y"
  shows "word_at data' y = word_at data y"
proof -
  have "take 4 (drop y data') = take 4 (drop y data)"
  proof (rule nth_equalityI)
    fix i assume "i < length (take 4 (drop y data'))"
    then have "i < 4" by simp
    moreover have "y + i < x \<or> x + 4 \<le> y + i" if "x \<in> set xs" for x using y(2) that \<open>i < 4\<close> by fastforce
    ultimately show "take 4 (drop y data') ! i = take 4 (drop y data) ! i" using but y(1) by (simp add: bytes_but_def)
  qed (use but in \<open>simp add: bytes_but_def\<close>)
  then show ?thesis by (simp add: word_at_def)
qed

lemma put32_but:
  assumes "x + 4 \<le> length data"
  shows "bytes_but [x] data (put32 x w data)"
  using assms by (auto simp: bytes_but_def put32_def nth_append)

lemma word_at_put32: "x + 4 \<le> length data \<Longrightarrow> word_at (put32 x w data) x = w"
  by (simp add: put32_def word_at_def from_le_to_le)

context visitor begin

lemma visit_type_ok:
  assumes "inv s" "words_ok (type_words t)" "names_ok pre t"
  shows "(\<exists>f. btf_type_visit_str_offs visit (type_words t) s = Inl f \<and> fails f s) \<or>
    (\<exists>err ws s'. btf_type_visit_str_offs visit (type_words t) s = Inr (err, ws, s') \<and> inv s' \<and> later s s' \<and> words_ok ws \<and> length ws = length (type_words t) \<and>
      btf_type_size (type_of_words ws) = btf_type_size t \<and>
      (err = 0 \<and> rewritten (good s') t (type_of_words ws) \<or> err = - ENOMEM \<and> runs_out visit))"
proof -
  let ?ws = "type_words t"
  have places: "\<forall>i\<in>set (str_off_places t). i < length ?ws \<and> pre (?ws ! i)" "distinct (str_off_places t)" "1 \<notin> set (str_off_places t)"
    using str_off_places_ok [OF assms(2)] assms(3) by (auto simp: names_ok_def)
  have l: "3 \<le> length ?ws" using assms(2) by (simp add: words_ok_def)
  from visit_at_ok [OF assms(1) places(1,2)] consider (fault) f where "visit_at visit (str_off_places t) ?ws s = Inl f" "fails f s"
    | (ret) err ws s' where "visit_at visit (str_off_places t) ?ws s = Inr (err, ws, s')" "inv s'" "later s s'" "length ws = length ?ws"
        "\<forall>i<length ?ws. i \<notin> set (str_off_places t) \<longrightarrow> ws ! i = ?ws ! i"
        "err = 0 \<and> (\<forall>i\<in>set (str_off_places t). good s' (?ws ! i) (ws ! i)) \<or> err = - ENOMEM \<and> runs_out visit" by blast
  then show ?thesis
  proof cases
    case fault
    then show ?thesis by (simp add: btf_type_visit_str_offs_def)
  next
    case (ret err ws s')
    have i1: "ws ! 1 = ?ws ! 1" using ret(5) places(3) l by simp
    then have info: "bt_info (type_of_words ws) = bt_info t" by (simp add: type_of_words_def type_words_def)
    have w: "type_words (type_of_words ws) = ws" using l ret(4) by (intro type_words_of_words) simp
    have "err = 0 \<and> rewritten (good s') t (type_of_words ws) \<or> err = - ENOMEM \<and> runs_out visit"
      using ret(4-6) by (auto simp: rewritten_def w)
    then show ?thesis using ret(1-4) words_ok_same_info [OF assms(2) ret(4) i1] type_size_cong [OF info] by (auto simp: btf_type_visit_str_offs_def)
  qed
qed

lemma visit_types_ok:
  assumes "inv s" "tiles (length data) data pos offs" "\<forall>off\<in>set offs. names_ok pre (type_at data off)"
  shows "(\<exists>f. visit_types visit offs data s = Inl f \<and> fails f s) \<or>
    (\<exists>err data' s'. visit_types visit offs data s = Inr (err, data', s') \<and> inv s' \<and> later s s' \<and> length data' = length data \<and>
      take pos data' = take pos data \<and> tiles (length data) data' pos offs \<and>
      (err = 0 \<and> (\<forall>off\<in>set offs. rewritten (good s') (type_at data off) (type_at data' off)) \<or> err = - ENOMEM \<and> runs_out visit))"
  using assms
proof (induction offs arbitrary: pos data s)
  case Nil
  then show ?case using later_refl by simp
next
  case (Cons off offs)
  let ?t = "type_at data pos"
  have off: "off = pos" and fits: "type_fits (length data) pos data"
    and rest: "tiles (length data) data (pos + nat (btf_type_size (base_at data pos))) offs" using Cons.prems(2) by auto
  note t = type_at_words_ok [OF fits]
  have names: "names_ok pre ?t" using Cons.prems(3) off by simp
  from visit_type_ok [OF Cons.prems(1) t(1) names] consider (fault) f where "btf_type_visit_str_offs visit (type_words ?t) s = Inl f" "fails f s"
    | (ret) err ws s1 where "btf_type_visit_str_offs visit (type_words ?t) s = Inr (err, ws, s1)" "inv s1" "later s s1" "words_ok ws"
        "length ws = length (type_words ?t)" "btf_type_size (type_of_words ws) = btf_type_size ?t"
        "err = 0 \<and> rewritten (good s1) ?t (type_of_words ws) \<or> err = - ENOMEM \<and> runs_out visit" by blast
  then show ?case
  proof cases
    case fault
    then show ?thesis using fits off by simp
  next
    case (ret err ws s1)
    let ?data = "put_at pos ws data" and ?next = "pos + 4 * length ws"
    note p = put_at_ok [OF fits ret(4-6)]
    have tl: "tiles (length data) ?data ?next offs" using rest p(6) tiles_tail [OF p(4) order_refl] by metis
    show ?thesis
    proof (cases "err = 0")
      case False
      have "tiles (length data) ?data pos (off # offs)" using off p(6,9) tl by (simp add: p(10))
      then show ?thesis using ret(1-3,7) False fits off p(1,2) by auto
    next
      case True
      have run: "visit_types visit (off # offs) data s = visit_types visit offs ?data s1" using ret(1) True fits off by simp
      have later_types: "type_at ?data o1 = type_at data o1 \<and> ?next \<le> o1" if "o1 \<in> set offs" for o1
        using tiles_from [OF tl that] tail_agree(2) [OF p(4)] by simp
      have "tiles (length ?data) ?data ?next offs" "\<forall>off\<in>set offs. names_ok pre (type_at ?data off)"
        using tl p(1) later_types Cons.prems(3) by auto
      from Cons.IH [OF ret(2) this] consider (fault) f where "visit_types visit offs ?data s1 = Inl f" "fails f s1"
        | (all) err data' s' where "visit_types visit offs ?data s1 = Inr (err, data', s')" "inv s'" "later s1 s'" "length data' = length data"
            "take ?next data' = take ?next ?data" "tiles (length data) data' ?next offs"
            "err = 0 \<and> (\<forall>off\<in>set offs. rewritten (good s') (type_at ?data off) (type_at data' off)) \<or> err = - ENOMEM \<and> runs_out visit"
        using p(1) by auto
      then show ?thesis
      proof cases
        case fault
        then show ?thesis using run fails_later [OF ret(3)] by auto
      next
        case (all err' data' s')
        have f: "type_fits ?next pos ?data" using p(3,7,8,10) by (simp add: type_fits_def)
        have at: "type_at data' pos = type_of_words ws" using type_at_agree(1) [OF f all(5)] p(5) by simp
        have b: "base_at data' pos = base_at ?data pos" using f by (intro base_at_agree take_agree [OF all(5)]) (simp add: type_fits_def)
        have "tiles (length data) data' pos (off # offs)" using off all(6) p(3,6-8,10) b by (simp add: type_fits_def)
        moreover have "take pos data' = take pos data" using take_agree [OF all(5), of pos] p(2) by simp
        moreover have "rewritten (good s') ?t (type_of_words ws)"
          using ret(7) True rewritten_mono good_later [OF ret(2) all(2,3)] by (metis ENOMEM_def neg_equal_0_iff_equal zero_neq_numeral)
        ultimately show ?thesis using run all later_trans [OF ret(3) all(3)] off at later_types by auto
      qed
    qed
  qed
qed

text \<open>A list of words in the bytes of \<open>.BTF.ext\<close>.\<close>

lemma visit_words_ok:
  assumes stop: "\<not> stop 0" "stop (- ENOMEM)" and "inv s" "\<forall>x\<in>set xs. x + 4 \<le> length data \<and> pre (word_at data x)" "words_apart xs"
  shows "(\<exists>f. visit_words stop visit xs (data, s) = Inl f \<and> fails f s) \<or>
    (\<exists>err data' s'. visit_words stop visit xs (data, s) = Inr (err, data', s') \<and> inv s' \<and> later s s' \<and> bytes_but xs data data' \<and>
      (err = 0 \<and> (\<forall>x\<in>set xs. good s' (word_at data x) (word_at data' x)) \<or> err = - ENOMEM \<and> runs_out visit))"
  using assms(3-5)
proof (induction xs arbitrary: data s)
  case Nil
  then show ?case using later_refl by (simp add: bytes_but_def)
next
  case (Cons x xs)
  have x: "x + 4 \<le> length data" "pre (word_at data x)" "words_apart xs" using Cons.prems(2,3) by (auto simp: words_apart_def)
  have apart: "y + 4 \<le> x \<or> x + 4 \<le> y" if "y \<in> set xs" for y using Cons.prems(3) that by (auto simp: words_apart_def)
  note rd = rd_word_at [OF x(1)]
  show ?case
  proof (cases "visit (word_at data x) s")
    case (Inl f)
    then show ?thesis using visit_ok [OF Cons.prems(1) x(2)] rd by (auto simp: visit_word_def)
  next
    case (Inr r)
    then obtain err w s1 where v: "visit (word_at data x) s = Inr (err, w, s1)" "inv s1" "later s s1" "err = 0 \<and> good s1 (word_at data x) w \<or> err = - ENOMEM"
      using visit_ok [OF Cons.prems(1) x(2)] by auto
    let ?data = "put32 x w data"
    have step: "visit_word visit x (data, s) = Inr (err, ?data, s1)" using v(1) rd by (simp add: visit_word_def)
    have but: "bytes_but [x] data ?data" by (rule put32_but [OF x(1)])
    show ?thesis
    proof (cases "err = 0")
      case False
      then have "runs_out visit" using v(1,4) by (auto simp: runs_out_def)
      moreover have "bytes_but (x # xs) data ?data" using but by (auto simp: bytes_but_def)
      ultimately show ?thesis using step v(2-4) False stop by auto
    next
      case True
      have run: "visit_words stop visit (x # xs) (data, s) = visit_words stop visit xs (?data, s1)" using step True stop(1) by simp
      have same: "word_at ?data y = word_at data y" if "y \<in> set xs" for y
        using bytes_but_word [OF but, of y] apart [OF that] Cons.prems(2) that by simp
      have "\<forall>y\<in>set xs. y + 4 \<le> length ?data \<and> pre (word_at ?data y)" using Cons.prems(2) same but by (simp add: bytes_but_def)
      from Cons.IH [OF v(2) this x(3)] consider (fault) f where "visit_words stop visit xs (?data, s1) = Inl f" "fails f s1"
        | (all) err data' s' where "visit_words stop visit xs (?data, s1) = Inr (err, data', s')" "inv s'" "later s1 s'" "bytes_but xs ?data data'"
            "err = 0 \<and> (\<forall>y\<in>set xs. good s' (word_at ?data y) (word_at data' y)) \<or> err = - ENOMEM \<and> runs_out visit" by blast
      then show ?thesis
      proof cases
        case fault
        then show ?thesis using run fails_later [OF v(3)] by auto
      next
        case (all err' data' s')
        have "word_at data' x = w" using bytes_but_word [OF all(4), of x] apart x(1) word_at_put32 [OF x(1)] put32_same [OF x(1)] by (metis (no_types))
        then have "good s' (word_at data x) (word_at data' x)" using good_later [OF v(2) all(2,3)] v(4) True by (simp add: ENOMEM_def)
        moreover have but_all: "bytes_but (x # xs) data data'" using but all(4) by (auto simp: bytes_but_def)
        moreover have "err' = 0 \<longrightarrow> (\<forall>y\<in>set xs. good s' (word_at data y) (word_at data' y))" using all(5) same by (auto simp: ENOMEM_def)
        ultimately have "err' = 0 \<and> (\<forall>y\<in>set (x # xs). good s' (word_at data y) (word_at data' y)) \<or> err' = - ENOMEM \<and> runs_out visit" using all(5) by auto
        then show ?thesis unfolding run using all(1,2) later_trans [OF v(3) all(3)] but_all by blast
      qed
    qed
  qed
qed

end

section \<open>The string offsets of \<open>.BTF.ext\<close>\<close>

definition ext_str_offs :: "btf_ext \<Rightarrow> ext_sec list \<Rightarrow> ext_sec list \<Rightarrow> ext_sec list \<Rightarrow> nat list" where
  "ext_str_offs e f l c = area_offs True [] (ex_func_info e) f @ area_offs True [4, 8] (ex_line_info e) l @ area_offs True [8] (ex_core_relo_info e) c"

text \<open>The offsets \<open>xs\<close> at which the data, if there is any, has its string offsets; its areas share no byte.\<close>

definition ext_places :: "btf_ext option \<Rightarrow> nat list \<Rightarrow> bool" where
  "ext_places ext xs \<longleftrightarrow> (case ext of None \<Rightarrow> xs = [] | Some e \<Rightarrow> apart (ex_func_info e) (ex_core_relo_info e) \<and>
     apart (ex_func_info e) (ex_line_info e) \<and> apart (ex_line_info e) (ex_core_relo_info e) \<and> (\<exists>f l c. ext_secs e f l c \<and> xs = ext_str_offs e f l c))"

definition ext_bytes :: "btf_ext option \<Rightarrow> u8 list" where
  "ext_bytes ext = (case ext of None \<Rightarrow> [] | Some e \<Rightarrow> ex_data e)"

abbreviation before :: "nat \<Rightarrow> nat \<Rightarrow> bool" where
  "before x y \<equiv> x + 4 \<le> y"

lemma sec_offs_sorted:
  assumes flds: "sorted_wrt before flds" "\<forall>f\<in>set flds. f + 4 \<le> unat rs"
  shows "sorted_wrt before (sec_offs nm flds rs (pos, n))"
proof -
  have "sorted_wrt before (concat (map (\<lambda>i. map (\<lambda>f. pos + 8 + i * unat rs + f) flds) [0..<m]))" for m
  proof (induction m)
    case (Suc m)
    have "x + 4 \<le> pos + 8 + m * unat rs + f" if "i < m" "g \<in> set flds" "x = pos + 8 + i * unat rs + g" for i g f x
    proof -
      have "(i + 1) * unat rs \<le> m * unat rs" using that(1) by (intro mult_le_mono1) simp
      then show ?thesis using that(3) flds(2) [rule_format, OF that(2)] by simp
    qed
    moreover have "sorted_wrt before (map (\<lambda>f. pos + 8 + m * unat rs + f) flds)" using flds(1) by (simp add: sorted_wrt_map add.commute)
    ultimately show ?case using Suc by (auto simp: sorted_wrt_append)
  qed simp
  then show ?thesis by (auto simp: sec_offs_def)
qed

lemma area_offs_sorted:
  assumes secs: "\<forall>s\<in>set secs. sec_ok rs s" and flds: "sorted_wrt before flds" "\<forall>f\<in>set flds. f + 4 \<le> unat rs"
  shows "sorted_wrt before (concat (map (sec_offs nm flds rs) (sec_pos rs pos secs)))"
  using secs
proof (induction secs arbitrary: pos)
  case (Cons s secs)
  obtain name n recs where s: "s = (name, n, recs)" by (cases s)
  let ?next = "pos + 8 + unat n * unat rs"
  have "x + 4 \<le> y" if x: "x \<in> set (sec_offs nm flds rs (pos, n))" and y: "y \<in> set (concat (map (sec_offs nm flds rs) (sec_pos rs ?next secs)))" for x y
  proof -
    obtain p m where p: "(p, m) \<in> set (sec_pos rs ?next secs)" "y \<in> set (sec_offs nm flds rs (p, m))" using y by auto
    have "?next \<le> p" using sec_pos_bounds [OF p(1)] Cons.prems by simp
    then show ?thesis using sec_offs_bounds [OF x flds(2)] sec_offs_bounds [OF p(2) flds(2)] by auto
  qed
  then show ?case using Cons.IH [of ?next] Cons.prems sec_offs_sorted [OF flds] s by (auto simp: sorted_wrt_append)
qed simp

lemma apart_append:
  assumes "words_apart xs" "words_apart ys" "\<And>x y. x \<in> set xs \<Longrightarrow> y \<in> set ys \<Longrightarrow> x + 4 \<le> y \<or> y + 4 \<le> x"
  shows "words_apart (xs @ ys)"
  using assms by (simp add: words_apart_def sorted_wrt_append)

lemma area_words:
  assumes a: "area_secs data i secs" and flds: "sorted_wrt before flds" "secs = [] \<or> (\<forall>f\<in>set flds. f + 4 \<le> unat (ei_rec_size i))"
  shows "words_apart (area_offs nm flds i secs)" "x \<in> set (area_offs nm flds i secs) \<Longrightarrow> ei_info i \<le> x \<and> x + 4 \<le> ei_info i + unat (ei_len i)"
proof -
  show "words_apart (area_offs nm flds i secs)"
  proof (cases "secs = []")
    case False
    then have "sorted_wrt before (area_offs nm flds i secs)" using area_offs_sorted [OF _ flds(1)] a flds(2) by (simp add: area_offs_def area_secs_def)
    then show ?thesis unfolding words_apart_def by (rule sorted_wrt_mono_rel [rotated]) simp
  qed (simp add: area_offs_def words_apart_def)
  show "ei_info i \<le> x \<and> x + 4 \<le> ei_info i + unat (ei_len i)" if "x \<in> set (area_offs nm flds i secs)"
    using that area_offs_bounds [OF a that] flds(2) by (cases "secs = []") (auto simp: area_offs_def)
qed

lemma ext_places_ok:
  assumes "ext_places (Some e) xs"
  shows "words_apart xs" "x \<in> set xs \<Longrightarrow> x + 4 \<le> length (ex_data e)"
    "btf_ext_visit_str_offs visit e s = bindR (visit_words (\<lambda>err. err \<noteq> 0) visit xs (ex_data e, s)) (with_data e)"
proof -
  obtain f l c where s: "ext_secs e f l c" "xs = ext_str_offs e f l c"
    and ap: "apart (ex_func_info e) (ex_core_relo_info e)" "apart (ex_func_info e) (ex_line_info e)" "apart (ex_line_info e) (ex_core_relo_info e)"
    using assms by (auto simp: ext_places_def)
  let ?f = "area_offs True [] (ex_func_info e) f" and ?l = "area_offs True [4, 8] (ex_line_info e) l" and ?c = "area_offs True [8] (ex_core_relo_info e) c"
  have a: "area_secs (ex_data e) (ex_func_info e) f" "area_secs (ex_data e) (ex_line_info e) l" "area_secs (ex_data e) (ex_core_relo_info e) c"
    using s(1) by (auto simp: ext_secs_def)
  have f: "words_apart ?f" "\<And>x. x \<in> set ?f \<Longrightarrow> ei_info (ex_func_info e) \<le> x \<and> x + 4 \<le> ei_info (ex_func_info e) + unat (ei_len (ex_func_info e))"
    using area_words [OF a(1), where flds = "[]" and nm = True] by simp_all
  have l: "words_apart ?l" "\<And>x. x \<in> set ?l \<Longrightarrow> ei_info (ex_line_info e) \<le> x \<and> x + 4 \<le> ei_info (ex_line_info e) + unat (ei_len (ex_line_info e))"
    using area_words [OF a(2), where flds = "[4, 8]" and nm = True] s(1) by (auto simp: ext_secs_def)
  have c: "words_apart ?c" "\<And>x. x \<in> set ?c \<Longrightarrow> ei_info (ex_core_relo_info e) \<le> x \<and> x + 4 \<le> ei_info (ex_core_relo_info e) + unat (ei_len (ex_core_relo_info e))"
    using area_words [OF a(3), where flds = "[8]" and nm = True] s(1) by (auto simp: ext_secs_def)
  have xs: "xs = ?f @ (?l @ ?c)" using s(2) by (simp add: ext_str_offs_def)
  have "words_apart (?l @ ?c)" by (rule apart_append [OF l(1) c(1)]) (use l(2) c(2) ap(3) in \<open>fastforce simp: apart_def\<close>)
  then show "words_apart xs" unfolding xs by (rule apart_append [OF f(1)]) (use f(2) l(2) c(2) ap(1,2) in \<open>fastforce simp: apart_def\<close>)
  show "x + 4 \<le> length (ex_data e)" if "x \<in> set xs" using that f(2) l(2) c(2) a unfolding xs by (fastforce simp: area_secs_def)
  show "btf_ext_visit_str_offs visit e s = bindR (visit_words (\<lambda>err. err \<noteq> 0) visit xs (ex_data e, s)) (with_data e)"
    unfolding visit_str_offs_eq [OF s(1) ap] s(2) ext_str_offs_def ..
qed

section \<open>Visits of everything\<close>

definition ext_rewritten :: "(u32 \<Rightarrow> u32 \<Rightarrow> bool) \<Rightarrow> nat list \<Rightarrow> btf_ext option \<Rightarrow> btf_ext option \<Rightarrow> bool" where
  "ext_rewritten good xs ext ext' \<longleftrightarrow> (\<exists>d. ext' = map_option (\<lambda>e. e\<lparr>ex_data := d\<rparr>) ext) \<and> bytes_but xs (ext_bytes ext) (ext_bytes ext') \<and>
     (\<forall>x\<in>set xs. good (word_at (ext_bytes ext) x) (word_at (ext_bytes ext') x))"

definition all_rewritten :: "(u32 \<Rightarrow> u32 \<Rightarrow> bool) \<Rightarrow> nat list \<Rightarrow> nat list \<Rightarrow> u8 list \<Rightarrow> btf_ext option \<Rightarrow> u8 list \<Rightarrow> btf_ext option \<Rightarrow> bool" where
  "all_rewritten good offs xs data ext data' ext' \<longleftrightarrow>
     (\<forall>off\<in>set offs. rewritten good (type_at data off) (type_at data' off)) \<and> ext_rewritten good xs ext ext'"

context visitor begin

lemma for_each_ok:
  assumes s: "inv s" and ts: "tiles (length data) data 0 offs" and names: "\<forall>off\<in>set offs. names_ok pre (type_at data off)"
    and xs: "ext_places ext xs" "\<forall>x\<in>set xs. pre (word_at (ext_bytes ext) x)"
  shows "(\<exists>f. btf_for_each_str_off visit offs data ext s = Inl f \<and> fails f s) \<or>
    (\<exists>err data' ext' s'. btf_for_each_str_off visit offs data ext s = Inr (err, data', ext', s') \<and> inv s' \<and> later s s' \<and> length data' = length data \<and>
      tiles (length data) data' 0 offs \<and> (err = 0 \<and> all_rewritten (good s') offs xs data ext data' ext' \<or> err = - ENOMEM \<and> runs_out visit))"
proof -
  from visit_types_ok [OF s ts names] consider (fault) f where "visit_types visit offs data s = Inl f" "fails f s"
    | (ret) err data' s1 where "visit_types visit offs data s = Inr (err, data', s1)" "inv s1" "later s s1" "length data' = length data"
        "tiles (length data) data' 0 offs"
        "err = 0 \<and> (\<forall>off\<in>set offs. rewritten (good s1) (type_at data off) (type_at data' off)) \<or> err = - ENOMEM \<and> runs_out visit" by blast
  then show ?thesis
  proof cases
    case fault
    then show ?thesis by (simp add: btf_for_each_str_off_def)
  next
    case (ret err data' s1)
    show ?thesis
    proof (cases "err \<noteq> 0 \<or> ext = None")
      case True
      then have "btf_for_each_str_off visit offs data ext s = Inr (err, data', ext, s1)" using ret(1) by (auto simp: btf_for_each_str_off_def)
      moreover have "err = 0 \<longrightarrow> all_rewritten (good s1) offs xs data ext data' ext"
        using ret(6) True xs(1) by (auto simp: all_rewritten_def ext_rewritten_def ext_places_def ext_bytes_def bytes_but_def ENOMEM_def)
      ultimately show ?thesis using ret by blast
    next
      case False
      then obtain e where e: "ext = Some e" and err0: "err = 0" by auto
      note x = ext_places_ok [OF xs(1) [unfolded e]]
      have known: "\<forall>x\<in>set xs. x + 4 \<le> length (ex_data e) \<and> pre (word_at (ex_data e) x)" using x(2) xs(2) by (simp add: e ext_bytes_def)
      have stop: "\<not> (0 :: int) \<noteq> 0" "- ENOMEM \<noteq> 0" by (simp_all add: ENOMEM_def)
      from visit_words_ok [of "\<lambda>err. err \<noteq> 0", OF stop ret(2) known x(1)] consider (fault) f where "visit_words (\<lambda>err. err \<noteq> 0) visit xs (ex_data e, s1) = Inl f" "fails f s1"
        | (ext) err d s' where "visit_words (\<lambda>err. err \<noteq> 0) visit xs (ex_data e, s1) = Inr (err, d, s')" "inv s'" "later s1 s'" "bytes_but xs (ex_data e) d"
            "err = 0 \<and> (\<forall>x\<in>set xs. good s' (word_at (ex_data e) x) (word_at d x)) \<or> err = - ENOMEM \<and> runs_out visit" by blast
      then show ?thesis
      proof cases
        case fault
        then have "btf_for_each_str_off visit offs data ext s = Inl f" using ret(1) e err0 by (simp add: btf_for_each_str_off_def x(3))
        then show ?thesis using fails_later [OF ret(3) fault(2)] by blast
      next
        case (ext err' d s')
        have run: "btf_for_each_str_off visit offs data (Some e) s = Inr (err', data', Some (e\<lparr>ex_data := d\<rparr>), s')"
          using ret(1) err0 ext(1) by (simp add: btf_for_each_str_off_def with_data_def x(3))
        have "\<forall>off\<in>set offs. rewritten (good s') (type_at data off) (type_at data' off)"
          using ret(6) err0 rewritten_mono good_later [OF ret(2) ext(2,3)] by (metis ENOMEM_def neg_equal_0_iff_equal zero_neq_numeral)
        then have "err' = 0 \<longrightarrow> all_rewritten (good s') offs xs data (Some e) data' (Some (e\<lparr>ex_data := d\<rparr>))"
          using ext(4,5) by (auto simp: all_rewritten_def ext_rewritten_def ext_bytes_def ENOMEM_def)
        then show ?thesis unfolding e using run ext(2,5) later_trans [OF ret(3) ext(3)] ret(4,5) by blast
      qed
    qed
  qed
qed

end
end
