(* ===== verification/Dedup_Names.thy ===== *)
theory Dedup_Names
  imports Dedup_Strings
begin

text \<open>
  What the string pass of the deduplication gives: the visitor keeps the new set exact (no string twice, none that nobody refers to),
  every rewritten offset denotes the string it denoted before, and the instance with the new strings is well-formed.
\<close>

section \<open>The new set\<close>

definition str_blob :: "u8 list list \<Rightarrow> u8 list" where
  "str_blob ss = concat (map (\<lambda>s. s @ [0]) ss)"

text \<open>The bytes of the set are its strings, each once; all are wanted, and without a base the first is the empty string.\<close>

definition set_exact :: "bool \<Rightarrow> u8 list set \<Rightarrow> strset \<Rightarrow> bool" where
  "set_exact root U st \<longleftrightarrow> set_ok st \<and> dom (ss_map st) \<subseteq> U \<and> (root \<longrightarrow> ss_map st [] = Some 0) \<and>
     (\<exists>ss. strset__data st = str_blob ss \<and> distinct ss \<and> set ss = dom (ss_map st) \<and> (root \<longrightarrow> ss \<noteq> [] \<and> hd ss = []))"

lemma add_exact:
  assumes ok: "set_exact root U st" and s: "0 \<notin> set s" "s \<in> U"
  shows "\<exists>ret st'. strset__add_str ro al s st = Inr (ret, st') \<and> set_exact root U st' \<and> ss_map st \<subseteq>\<^sub>m ss_map st' \<and>
    (ret = - ENOMEM \<or> 0 \<le> ret \<and> ss_map st' s = Some (nat ret) \<and> nat ret < length (strset__data st'))"
proof -
  have sok: "set_ok st" and inv: "strset_inv st" using ok by (auto simp: set_exact_def set_ok_def)
  obtain ss where ss: "strset__data st = str_blob ss" "distinct ss" "set ss = dom (ss_map st)" "root \<longrightarrow> ss \<noteq> [] \<and> hd ss = []"
    using ok by (auto simp: set_exact_def)
  obtain ret st' where a: "strset__add_str ro al s st = Inr (ret, st')" "set_ok st'"
    "ret = - ENOMEM \<and> strset__data st' = strset__data st \<or> 0 \<le> ret \<and> cstr_ok (strset__data st') (nat ret) \<and> cstr (strset__data st') (nat ret) = s \<and>
       nat ret < length (strset__data st') \<and> (strset__data st' = strset__data st \<or> strset__data st' = strset__data st @ s @ [0])"
    using set_add [OF sok s(1), of ro al] by blast
  have b: "strset_inv st'" "ret = - ENOMEM \<and> ss_map st' = ss_map st \<and> ss_data_len st' = ss_data_len st \<or>
     (case ss_map st s of
        Some k \<Rightarrow> ret = int k \<and> ss_map st' = ss_map st \<and> ss_data_len st' = ss_data_len st
      | None \<Rightarrow> ret = int (ss_data_len st) \<and> ss_map st' = (ss_map st)(s \<mapsto> ss_data_len st) \<and> ss_data_len st' = ss_data_len st + length s + 1)"
    using add_str_ok [OF inv s(1), of ro al] a(1) by (auto simp del: fun_upd_apply)
  note len = strset_data_len [OF inv] strset_data_len [OF b(1)]
  consider (same) "ss_map st' = ss_map st" "ss_data_len st' = ss_data_len st" "ret = - ENOMEM \<or> (\<exists>k. ret = int k \<and> ss_map st s = Some k)"
    | (new) "ss_map st s = None" "ret = int (ss_data_len st)" "ss_map st' = (ss_map st)(s \<mapsto> ss_data_len st)" "ss_data_len st' = ss_data_len st + length s + 1"
    using b(2) by (auto split: option.splits)
  then show ?thesis
  proof cases
    case same
    then have "length (strset__data st') \<noteq> length (strset__data st @ s @ [0])" using len by simp
    then have "strset__data st' = strset__data st" using a(3) by metis
    then have "set_exact root U st'" using ok a(2) same(1) by (simp add: set_exact_def)
    moreover have "ret = - ENOMEM \<or> 0 \<le> ret \<and> ss_map st' s = Some (nat ret) \<and> nat ret < length (strset__data st')" using same(1,3) a(3) by auto
    ultimately show ?thesis using a(1) same(1) by (intro exI [of _ ret] exI [of _ st']) auto
  next
    case new
    then have d: "strset__data st' = strset__data st @ s @ [0]" using a(3) len by (auto simp: ENOMEM_def)
    have "s \<noteq> []" if root using ok that new(1) by (auto simp: set_exact_def)
    moreover have "s \<notin> set ss" using ss(3) new(1) by auto
    ultimately have "strset__data st' = str_blob (ss @ [s]) \<and> distinct (ss @ [s]) \<and> set (ss @ [s]) = dom (ss_map st') \<and> (root \<longrightarrow> ss @ [s] \<noteq> [] \<and> hd (ss @ [s]) = [])"
      using d ss new(3) by (auto simp: str_blob_def)
    moreover have "dom (ss_map st') \<subseteq> U" "root \<longrightarrow> ss_map st' [] = Some 0" using ok new(1,3) s(2) by (auto simp: set_exact_def)
    ultimately have "set_exact root U st'" using a(2) unfolding set_exact_def by blast
    moreover have "ss_map st \<subseteq>\<^sub>m ss_map st'" using new(1,3) by (auto simp: map_le_def)
    ultimately show ?thesis using a(1,3) new(2,3) d len by (intro exI [of _ ret] exI [of _ st']) auto
  qed
qed

section \<open>The visitor\<close>

definition sd_ok :: "bbtf \<Rightarrow> bchain \<Rightarrow> u8 list set \<Rightarrow> str_dedup \<Rightarrow> bool" where
  "sd_ok b base U d \<longleftrightarrow> (\<exists>base'. sd_chain d = b # base' \<and> bchain_ok (b # base') \<and> map to_btf base' = map to_btf base) \<and> set_exact (base = []) U (sd_set d)"

text \<open>An offset that may be visited: it denotes a string, and if the string is the instance's own, it is wanted.\<close>

definition name_ok :: "bbtf \<Rightarrow> bchain \<Rightarrow> u8 list set \<Rightarrow> u32 \<Rightarrow> bool" where
  "name_ok b base U w \<longleftrightarrow> has_str (map to_btf (b # base)) w \<and>
     (\<forall>s. w \<noteq> 0 \<longrightarrow> btf__str_by_offset (map to_btf (b # base)) (unat w) = Inr (Some s) \<longrightarrow> s \<in> U)"

definition new_name :: "bbtf \<Rightarrow> bchain \<Rightarrow> strset \<Rightarrow> u32 \<Rightarrow> u32 \<Rightarrow> bool" where
  "new_name b base st w w' \<longleftrightarrow> (if w = 0 \<or> unat w < bb_start_str_off b then w' = w
     else \<exists>s. btf__str_by_offset (map to_btf (b # base)) (unat w) = Inr (Some s) \<and>
       (unat w' < bb_start_str_off b \<and> btf__str_by_offset (map to_btf base) (unat w') = Inr (Some s) \<or>
        (\<exists>k. ss_map st s = Some k \<and> unat w' = bb_start_str_off b + k)))"

lemma remap_str_ok:
  assumes d: "sd_ok b base U d" and w: "name_ok b base U w"
  shows "strs_dedup_remap_str_off als w d = Inl Signed_Overflow \<and> base \<noteq> [] \<or>
    (\<exists>err w' d'. strs_dedup_remap_str_off als w d = Inr (err, w', d') \<and> sd_ok b base U d' \<and> ss_map (sd_set d) \<subseteq>\<^sub>m ss_map (sd_set d') \<and>
      (err = 0 \<and> new_name b base (sd_set d') w w' \<or> err = - ENOMEM))"
proof -
  obtain base1 where c: "sd_chain d = b # base1" "bchain_ok (b # base1)" "map to_btf base1 = map to_btf base" using d by (auto simp: sd_ok_def)
  have nil: "base1 = [] \<longleftrightarrow> base = []" using c(3) by auto
  have st: "set_exact (base = []) U (sd_set d)" using d by (simp add: sd_ok_def)
  show ?thesis
  proof (cases "w = 0 \<or> unat w < bb_start_str_off b")
    case True
    then have "strs_dedup_remap_str_off als w d = Inr (0, w, d)" using c(1) by (auto simp: strs_dedup_remap_str_off_def)
    then show ?thesis using d True by (auto simp: new_name_def)
  next
    case own: False
    then obtain s where s: "btf__str_by_offset (map to_btf (b # base)) (unat w) = Inr (Some s)" "s \<in> U" using w by (auto simp: name_ok_def has_str_def)
    then have s1: "btf__str_by_offset (map to_btf (b # base1)) (unat w) = Inr (Some s)" using c(3) by simp
    have nz: "0 \<notin> set s" by (rule str_no_zero [OF s(1)])
    let ?al = "als (sd_calls d)" and ?d = "\<lambda>base2. d\<lparr>sd_calls := sd_calls d + 1, sd_chain := b # base2\<rparr>"
    define r where "r = (if base1 = [] then Inr (- ENOENT, []) else btf__find_str ?al s base1)"
    have ok1: "bchain_ok base1" using c(2) by simp
    consider (ovf) "r = Inl Signed_Overflow" "base \<noteq> []" | (ret) err base2 where "r = Inr (err, base2)" "bchain_ok base2" "map to_btf base2 = map to_btf base1"
        "err = - ENOMEM \<or> err = - ENOENT \<or> 0 \<le> err \<and> err \<le> INT_MAX \<and> nat err < str_end base1 \<and> btf__str_by_offset (map to_btf base1) (nat err) = Inr (Some s)"
      using find_str_chain [OF ok1 _ nz, of ?al] nil by (cases "base1 = []") (auto simp: r_def)
    then show ?thesis
    proof cases
      case ovf
      then have "strs_dedup_remap_str_off als w d = Inl Signed_Overflow" using c(1) own s1 by (simp add: strs_dedup_remap_str_off_def r_def Let_def)
      then show ?thesis using ovf(2) by blast
    next
      case (ret err base2)
      let ?a = "?al (length base2)"
      have run: "strs_dedup_remap_str_off als w d = (if 0 \<le> err then Inr (0, of_int err, ?d base2) else if err \<noteq> - ENOENT then Inr (err, w, ?d base2)
          else bindR (strset__add_str (ba_str_mem ?a) (ba_str_hash ?a) s (sd_set d)) (\<lambda>(off, st). if off < 0 then Inr (off, w, (?d base2)\<lparr>sd_set := st\<rparr>)
            else bindR (global_str_off b off) (\<lambda>r. Inr (0, of_int r, (?d base2)\<lparr>sd_set := st\<rparr>))))"
        using c(1) own s1 ret(1) by (simp add: strs_dedup_remap_str_off_def r_def [symmetric] Let_def cong: if_cong)
      have ch: "bchain_ok (b # base2)" by (rule bchain_same [OF c(2) _ refl ret(2,3)]) (use c(2) in simp)
      have dok: "sd_ok b base U ((?d base2)\<lparr>sd_set := st\<rparr>)" if "set_exact (base = []) U st" for st
        using that ch ret(3) c(3) by (simp add: sd_ok_def)
      have dok0: "sd_ok b base U (?d base2)" using dok [OF st] by (simp add: sd_ok_def)
      consider (mem) "err = - ENOMEM" | (base) "0 \<le> err" | (own) "err = - ENOENT" using ret(4) by blast
      then show ?thesis
      proof cases
        case mem
        then show ?thesis using run dok0 by (auto simp: ENOMEM_def ENOENT_def)
      next
        case base
        then have e: "err \<le> INT_MAX" "nat err < bb_start_str_off b" "btf__str_by_offset (map to_btf base) (nat err) = Inr (Some s)"
          using ret(4) bchain_start [OF c(2)] c(3) by (auto simp: ENOMEM_def ENOENT_def)
        have "new_name b base (sd_set (?d base2)) w (of_int err)"
          using own s(1) e unat_of_int_small [OF base e(1)] by (auto simp: new_name_def)
        then show ?thesis using run base dok0 by auto
      next
        case own: own
        obtain off st' where a: "strset__add_str (ba_str_mem ?a) (ba_str_hash ?a) s (sd_set d) = Inr (off, st')" "set_exact (base = []) U st'"
          "ss_map (sd_set d) \<subseteq>\<^sub>m ss_map st'" "off = - ENOMEM \<or> 0 \<le> off \<and> ss_map st' s = Some (nat off) \<and> nat off < length (strset__data st')"
          using add_exact [OF st nz s(2)] by blast
        have run1: "strs_dedup_remap_str_off als w d = (if off < 0 then Inr (off, w, (?d base2)\<lparr>sd_set := st'\<rparr>)
            else bindR (global_str_off b off) (\<lambda>r. Inr (0, of_int r, (?d base2)\<lparr>sd_set := st'\<rparr>)))"
          using run a(1) own by (simp add: ENOENT_def)
        consider (mem) "off = - ENOMEM" | (ovf) "0 \<le> off" "int (bb_start_str_off b) + off > INT_MAX" | (off) "0 \<le> off" "int (bb_start_str_off b) + off \<le> INT_MAX"
          using a(4) by linarith
        then show ?thesis
        proof cases
          case mem
          then show ?thesis using run1 dok [OF a(2)] a(3) by (auto simp: ENOMEM_def)
        next
          case ovf
          have "base \<noteq> []"
          proof
            assume "base = []"
            then have "bb_start_str_off b = 0" using c(2) nil by simp
            moreover have "length (strset__data st') \<le> BTF_MAX_STR_OFFSET + 1"
              using a(2) strset_data_len [of st'] by (auto simp: set_exact_def set_ok_def strset_inv_def)
            ultimately show False using ovf a(4) by (auto simp: INT_MAX_def BTF_MAX_STR_OFFSET_def ENOMEM_def)
          qed
          then show ?thesis using run1 ovf by (simp add: global_str_off_def)
        next
          case off
          have "unat (of_int (int (bb_start_str_off b) + off) :: u32) = bb_start_str_off b + nat off"
            using unat_of_int_small [of "int (bb_start_str_off b) + off"] off by (simp add: nat_add_distrib del: of_int_add)
          then have "new_name b base st' w (of_int (int (bb_start_str_off b) + off))"
            using s(1) a(4) off(1) \<open>\<not> (w = 0 \<or> unat w < bb_start_str_off b)\<close> by (auto simp: new_name_def ENOMEM_def simp del: of_int_add)
          then show ?thesis using run1 off dok [OF a(2)] a(3) by (auto simp: global_str_off_def simp del: of_int_add)
        qed
      qed
    qed
  qed
qed

lemma new_name_later: "ss_map st \<subseteq>\<^sub>m ss_map st' \<Longrightarrow> new_name b base st w w' \<Longrightarrow> new_name b base st' w w'"
  by (auto simp: new_name_def map_le_def dom_def split: if_splits)

interpretation new_strs: visitor "strs_dedup_remap_str_off als" "sd_ok b base U" "\<lambda>d d'. ss_map (sd_set d) \<subseteq>\<^sub>m ss_map (sd_set d')"
    "\<lambda>d. new_name b base (sd_set d)" "name_ok b base U" "\<lambda>f _. f = Signed_Overflow \<and> base \<noteq> []" for als b base U
proof (unfold_locales, goal_cases)
  case (1 d w)
  then show ?case using remap_str_ok [of b base U d w als] by auto
next
  case (3 d d1 d2)
  then show ?case using map_le_trans by blast
next
  case (4 d d1 w w')
  then show ?case using new_name_later by blast
qed simp_all

section \<open>The instance with its new strings\<close>

lemma with_types_ok:
  assumes ok: "bb_ok hb b" and data: "length data = length (bb_bytes b)" "tiles (length data) data 0 (bb_offs b)"
  shows "bb_ok hb (with_types data b)" "bb_bytes (with_types data b) = data" "bb_str_bytes (with_types data b) = bb_str_bytes b"
proof -
  have len: "length (bb_bytes b) = unat (hd_type_len (bb_hdr b))" using ok by (simp add: bb_ok_def btf_wf_def to_btf_def)
  have area: "Mem.area_ok 1 (bb_types b)" "unat (hd_type_len (bb_hdr b)) \<le> ma_cap (bb_types b)" using ok by (auto simp: bb_ok_def)
  then have area': "Mem.area_ok 1 (area_write 0 data (bb_types b))" using data(1) len by (simp add: Mem.area_ok_def area_write_def)
  show bytes: "bb_bytes (with_types data b) = data" using data(1) len by (simp add: with_types_def bb_bytes_def area_write_def)
  show strs: "bb_str_bytes (with_types data b) = bb_str_bytes b" by (simp add: with_types_def bb_str_bytes_def)
  have "btf_wf hb (to_btf (with_types data b))"
    using ok bytes strs data len by (auto simp: bb_ok_def btf_wf_def to_btf_def with_types_def)
  then show "bb_ok hb (with_types data b)" using ok area' by (simp add: bb_ok_def) (simp add: with_types_def area_write_def)
qed

lemma blob_ends: "ss \<noteq> [] \<Longrightarrow> str_blob ss \<noteq> [] \<and> last (str_blob ss) = 0"
  by (induction ss) (auto simp: str_blob_def)

lemma with_strs_ok:
  assumes ok: "bb_ok hb b" and st: "set_exact (\<not> hb) U st"
  shows "bb_ok hb (with_strs st b)" "bb_bytes (with_strs st b) = bb_bytes b" "bb_str_bytes (with_strs st b) = strset__data st"
proof -
  obtain ss where ss: "strset__data st = str_blob ss" "\<not> hb \<longrightarrow> ss \<noteq> [] \<and> hd ss = []" using st by (auto simp: set_exact_def)
  have sok: "set_ok st" and inv: "strset_inv st" using st by (auto simp: set_exact_def set_ok_def)
  have len: "length (strset__data st) = strset__data_size st" "strset__data_size st \<le> BTF_MAX_STR_OFFSET + 1"
    using strset_data_len [OF inv] inv sok by (auto simp: strset__data_size_def strset_inv_def set_ok_def)
  then have n: "unat (of_nat (strset__data_size st) :: u32) = strset__data_size st"
    by (simp add: unsigned_of_nat take_bit_nat_eq_self BTF_MAX_STR_OFFSET_def)
  show bytes: "bb_bytes (with_strs st b) = bb_bytes b" by (simp add: with_strs_def bb_bytes_def)
  show strs: "bb_str_bytes (with_strs st b) = strset__data st" by (simp add: with_strs_def bb_str_bytes_def)
  have "hd (strset__data st) = 0" if "\<not> hb" using ss that by (cases ss) (auto simp: str_blob_def)
  then have "btf_parse_str_sec hb (strset__data st) = 0"
    using ss blob_ends [of ss] len by (cases "ss = []") (auto simp: btf_parse_str_sec_def Let_def str_blob_def)
  then have "btf_wf hb (to_btf (with_strs st b))" using ok bytes strs len(1) n by (auto simp: bb_ok_def btf_wf_def to_btf_def with_strs_def)
  then show "bb_ok hb (with_strs st b)" using ok sok by (simp add: bb_ok_def) (simp add: with_strs_def)
qed

lemma same_base_chain:
  assumes "bchain_ok (b # base)" "bb_ok (base \<noteq> []) b'" "bb_offs b' = bb_offs b" "bb_start_id b' = bb_start_id b" "bb_start_str_off b' = bb_start_str_off b"
    and "bchain_ok base'" "map to_btf base' = map to_btf base"
  shows "bchain_ok (b' # base')"
proof (cases base)
  case Nil
  then show ?thesis using assms by simp
next
  case (Cons b0 r)
  then obtain b1 r1 where c: "base' = b1 # r1" "to_btf b1 = to_btf b0" using assms(7) by (cases base') auto
  show ?thesis using assms(1-6) Cons c(1) to_btf_fields [OF c(2)] by simp
qed

section \<open>The pass\<close>

lemma new_set:
  assumes "strset__new calloc_ok hash_ok malloc_ok alloc BTF_MAX_STR_OFFSET None = Inr st"
  shows "set_exact False U st \<and> ss_map st = Map.empty \<and> strset__data st = []"
proof -
  have st: "st = \<lparr>ss_data = \<lparr>ma_data = [], ma_cap = 0\<rparr>, ss_data_len = 0, ss_data_max_len = BTF_MAX_STR_OFFSET, ss_hash = hashmap__init\<rparr>"
    using assms by (auto simp: strset__new_def hashmap__new_def split: if_splits)
  then have "set_ok st" by (simp add: set_ok_def strset_inv_def Mem.area_ok_def hm_inv_def hashmap__init_def keys_unique_def hashmap_entries_def BTF_MAX_STR_OFFSET_def)
  moreover have m: "ss_map st = Map.empty" by (simp add: st ss_map_def hashmap__init_def hashmap_entries_def fun_eq_iff)
  moreover have "strset__data st = []" by (simp add: st strset__data_def strset_bytes_def)
  ultimately show ?thesis by (auto simp: set_exact_def str_blob_def intro: exI [of _ "[]"])
qed

lemma new_set_error: "strset__new calloc_ok hash_ok malloc_ok alloc n None = Inl e \<Longrightarrow> e = Errno (- ENOMEM)"
  by (auto simp: strset__new_def hashmap__new_def split: if_splits)

text \<open>The set with the empty string of an instance without a base.\<close>

lemma root_set:
  assumes st: "set_exact False U st" "ss_map st = Map.empty" "strset__data st = []" and U: "[] \<in> U"
  shows "\<exists>ret st'. strset__add_str ro al [] st = Inr (ret, st') \<and> (ret = - ENOMEM \<or> 0 \<le> ret \<and> set_exact True U st')"
proof -
  obtain ret st' where a: "strset__add_str ro al [] st = Inr (ret, st')" "set_exact False U st'"
    using add_exact [OF st(1) _ U, of ro al] by auto
  have inv: "strset_inv st" using st(1) by (simp add: set_exact_def set_ok_def)
  have l: "ss_data_len st = 0" using strset_data_len [OF inv] st(3) by simp
  consider "ret = - ENOMEM" | "ret = 0" "ss_map st' = [[] \<mapsto> 0]" using add_str_ok [OF inv, of "[]" ro al] a(1) st(2) l by auto
  then show ?thesis
  proof cases
    case 2
    obtain ss where ss: "strset__data st' = str_blob ss" "distinct ss" "set ss = dom (ss_map st')" using a(2) by (auto simp: set_exact_def)
    have "ss = [[]]" using ss(2,3) 2(2) by (cases ss) (auto simp: subset_singleton_iff)
    then have "set_exact True U st'" using a(2) 2(2) ss by (auto simp: set_exact_def)
    then show ?thesis using a(1) 2(1) by simp
  qed (use a in auto)
qed

definition all_ok :: "(u32 \<Rightarrow> bool) \<Rightarrow> bbtf \<Rightarrow> btf_ext option \<Rightarrow> nat list \<Rightarrow> bool" where
  "all_ok pre b ext xs \<longleftrightarrow> (\<forall>off\<in>set (bb_offs b). names_ok pre (type_at (bb_bytes b) off)) \<and> ext_places ext xs \<and> (\<forall>x\<in>set xs. pre (word_at (ext_bytes ext) x))"

lemma dedup_strings_run:
  assumes c: "bchain_ok (b # base)" and dirty: "\<not> bb_strs_deduped b" and names: "all_ok (name_ok b base U) b ext xs" and U: "base = [] \<Longrightarrow> [] \<in> U"
  shows "btf_dedup_strings new_ok empty_ok als ext (b # base) = Inl Signed_Overflow \<and> base \<noteq> [] \<or>
    (\<exists>ret ext' b' base'. btf_dedup_strings new_ok empty_ok als ext (b # base) = Inr (ret, ext', b' # base') \<and> bchain_ok (b' # base') \<and>
      map to_btf base' = map to_btf base \<and> bb_offs b' = bb_offs b \<and> bb_start_str_off b' = bb_start_str_off b \<and> (ret = - ENOMEM \<or> ret = 0 \<and> bb_strs_deduped b' \<and>
      (\<exists>st. bb_str_bytes b' = strset__data st \<and> set_exact (base = []) U st \<and>
         all_rewritten (new_name b base st) (bb_offs b) xs (bb_bytes b) ext (bb_bytes b') ext')))"
proof -
  have ok: "bb_ok (base \<noteq> []) b" and okb: "bchain_ok base" using c by auto
  have ts: "tiles (length (bb_bytes b)) (bb_bytes b) 0 (bb_offs b)" using ok by (auto simp: bb_ok_def btf_wf_def to_btf_def)
  let ?new = "strset__new (fst new_ok) (snd new_ok) True (\<lambda>_. (True, True)) BTF_MAX_STR_OFFSET None"
  define first where "first = (\<lambda>st. if base = [] then strset__add_str (fst empty_ok) (snd empty_ok) [] st else Inr (0, st))"
  let ?rest = "\<lambda>st. bindR (btf_for_each_str_off (strs_dedup_remap_str_off als) (bb_offs b) (bb_bytes b) ext \<lparr>sd_chain = b # base, sd_set = st, sd_calls = 0\<rparr>)
      (\<lambda>(err, data, ext, d). if err \<noteq> 0 then Inr (err, ext, with_types data b # tl (sd_chain d))
         else Inr (0, ext, with_strs (sd_set d) (with_types data b) # tl (sd_chain d)))"
  have fail: ?thesis if "btf_dedup_strings new_ok empty_ok als ext (b # base) = Inr (- ENOMEM, ext, b # base)" using that c by blast
  show ?thesis
  proof (cases ?new)
    case (Inl e)
    then have "btf_dedup_strings new_ok empty_ok als ext (b # base) = Inr (- ENOMEM, ext, b # base)"
      using new_set_error [OF Inl] dirty by (simp add: btf_dedup_strings_def)
    then show ?thesis by (rule fail)
  next
    case (Inr st0)
    have run: "btf_dedup_strings new_ok empty_ok als ext (b # base) = bindR (first st0) (\<lambda>(err, st). if err < 0 then Inr (err, ext, b # base) else ?rest st)"
      using Inr dirty by (simp add: btf_dedup_strings_def first_def Let_def cong: if_cong)
    obtain ret0 st where f: "first st0 = Inr (ret0, st)" "ret0 = - ENOMEM \<or> 0 \<le> ret0 \<and> set_exact (base = []) U st"
      using new_set [OF Inr, of U] root_set [of U st0 "fst empty_ok" "snd empty_ok"] U by (cases "base = []") (auto simp: first_def)
    show ?thesis
    proof (cases "ret0 = - ENOMEM")
      case True
      then show ?thesis using run f(1) by (intro fail) (simp add: ENOMEM_def)
    next
      case False
      then have run1: "btf_dedup_strings new_ok empty_ok als ext (b # base) = ?rest st" and st: "set_exact (base = []) U st" using run f by (auto simp: ENOMEM_def)
      let ?d = "\<lparr>sd_chain = b # base, sd_set = st, sd_calls = 0\<rparr>"
      have d: "sd_ok b base U ?d" using c st by (simp add: sd_ok_def)
      from new_strs.for_each_ok [OF d ts, of ext xs als] names consider
          (fault) "btf_for_each_str_off (strs_dedup_remap_str_off als) (bb_offs b) (bb_bytes b) ext ?d = Inl Signed_Overflow" "base \<noteq> []"
        | (ret) err data ext' d' where "btf_for_each_str_off (strs_dedup_remap_str_off als) (bb_offs b) (bb_bytes b) ext ?d = Inr (err, data, ext', d')"
            "sd_ok b base U d'" "length data = length (bb_bytes b)" "tiles (length (bb_bytes b)) data 0 (bb_offs b)"
            "err = 0 \<and> all_rewritten (new_name b base (sd_set d')) (bb_offs b) xs (bb_bytes b) ext data ext' \<or> err = - ENOMEM"
        unfolding all_ok_def by blast
      then show ?thesis
      proof cases
        case fault
        then show ?thesis using run1 by simp
      next
        case (ret err data ext' d')
        obtain base' where b': "sd_chain d' = b # base'" "bchain_ok base'" "map to_btf base' = map to_btf base" and st': "set_exact (base = []) U (sd_set d')"
          using ret(2) by (auto simp: sd_ok_def)
        note wt = with_types_ok [OF ok ret(3)] and tl = ret(4) [folded ret(3)]
        have same: "bb_offs (with_types data b) = bb_offs b" "bb_start_id (with_types data b) = bb_start_id b" "bb_start_str_off (with_types data b) = bb_start_str_off b"
          by (simp_all add: with_types_def)
        show ?thesis
        proof (cases "err = 0")
          case False
          then have "err = - ENOMEM" using ret(5) by simp
          then show ?thesis using run1 ret(1) b' False same same_base_chain [OF c wt(1) [OF tl] same b'(2,3)]
            by (intro disjI2 exI [of _ err] exI [of _ ext'] exI [of _ "with_types data b"] exI [of _ base']) simp
        next
          case True
          let ?b' = "with_strs (sd_set d') (with_types data b)"
          have ws: "bb_ok (base \<noteq> []) ?b'" "bb_bytes ?b' = data" "bb_str_bytes ?b' = strset__data (sd_set d')"
            using with_strs_ok [OF wt(1) [OF tl], of U "sd_set d'"] st' wt(2) [OF tl] by auto
          have same': "bb_offs ?b' = bb_offs b" "bb_start_id ?b' = bb_start_id b" "bb_start_str_off ?b' = bb_start_str_off b" "bb_strs_deduped ?b'"
            using same by (simp_all add: with_strs_def)
          then show ?thesis using run1 ret(1,5) b' True ws st' same_base_chain [OF c ws(1) same'(1-3) b'(2,3)]
            by (intro disjI2 exI [of _ 0] exI [of _ ext'] exI [of _ ?b'] exI [of _ base']) (auto simp: ENOMEM_def)
        qed
      qed
    qed
  qed
qed

section \<open>What the pass gives\<close>

lemma new_name_same_str:
  assumes c: "bchain_ok (b # base)" and c': "bchain_ok (b' # base')" "map to_btf base' = map to_btf base" "bb_start_str_off b' = bb_start_str_off b"
    and st: "set_exact root U st" "bb_str_bytes b' = strset__data st" and w: "has_str (map to_btf (b # base)) w" "new_name b base st w w'"
  shows "same_str (map to_btf (b # base)) w (map to_btf (b' # base')) w'"
proof (cases "w = 0 \<or> unat w < bb_start_str_off b")
  case True
  then have "w' = w" using w(2) by (simp add: new_name_def)
  moreover have "btf__str_by_offset (map to_btf (b' # base')) (unat w) = btf__str_by_offset (map to_btf (b # base)) (unat w)" if "w \<noteq> 0"
    using that True lookup_base [of "unat w" b "map to_btf base"] lookup_base [of "unat w" b' "map to_btf base'"] c'(2,3) by simp
  ultimately show ?thesis using w(1) by (auto simp: same_str_def has_str_def)
next
  case False
  then obtain s where s: "btf__str_by_offset (map to_btf (b # base)) (unat w) = Inr (Some s)"
    "unat w' < bb_start_str_off b \<and> btf__str_by_offset (map to_btf base) (unat w') = Inr (Some s) \<or> (\<exists>k. ss_map st s = Some k \<and> unat w' = bb_start_str_off b + k)"
    using w(2) by (auto simp: new_name_def)
  have "btf__str_by_offset (map to_btf (b' # base')) (unat w') = Inr (Some s)"
  proof (cases "unat w' < bb_start_str_off b")
    case True
    then show ?thesis using s(2) lookup_base [of "unat w'" b' "map to_btf base'"] c'(2,3) by auto
  next
    case False
    then obtain k where k: "ss_map st s = Some k" "unat w' = bb_start_str_off b + k" using s(2) by auto
    have "strset_inv st" using st(1) by (simp add: set_exact_def set_ok_def)
    from mapped_cstr [OF this k(1)] show ?thesis using lookup_own [of "base' \<noteq> []" b' k "map to_btf base'"] c'(1,3) st(2) k(2) by simp
  qed
  then show ?thesis using s(1) False by (auto simp: same_str_def)
qed

lemma rewritten_cong:
  assumes "rewritten g t t'" "names_ok pre t" "\<And>w w'. pre w \<Longrightarrow> g w w' \<Longrightarrow> h w w'"
  shows "rewritten h t t'"
  using assms by (auto simp: rewritten_def names_ok_def)

lemma all_rewritten_cong:
  assumes "all_rewritten g (bb_offs b) xs (bb_bytes b) ext data ext'" "all_ok pre b ext xs" "\<And>w w'. pre w \<Longrightarrow> g w w' \<Longrightarrow> h w w'"
  shows "all_rewritten h (bb_offs b) xs (bb_bytes b) ext data ext'"
  using assms(1,2) rewritten_cong [where pre = pre] assms(3) unfolding all_rewritten_def all_ok_def ext_rewritten_def by blast

text \<open>
  C8. The instance is not marked deduplicated yet, its name offsets resolve, and the areas of \<open>.BTF.ext\<close> share no byte. Then the string pass of \<open>btf__dedup\<close> keeps the instance well-formed and its bases the same, and when it succeeds every type and every record
  of \<open>.BTF.ext\<close> is as before but for its string offsets, and these denote in the new strings what they denoted in the old ones. It fails only
  for want of memory, or, on a base whose strings reach the largest \<open>int\<close>, in an addition of offsets.
\<close>

theorem dedup_strings_keep_names:
  assumes c: "bchain_ok (b # base)" and dirty: "\<not> bb_strs_deduped b" and names: "all_ok (has_str (map to_btf (b # base))) b ext xs"
  shows "btf_dedup_strings new_ok empty_ok als ext (b # base) = Inl Signed_Overflow \<and> base \<noteq> [] \<or>
    (\<exists>ret ext' b' base'. btf_dedup_strings new_ok empty_ok als ext (b # base) = Inr (ret, ext', b' # base') \<and> bchain_ok (b' # base') \<and>
      map to_btf base' = map to_btf base \<and> bb_offs b' = bb_offs b \<and> (ret = - ENOMEM \<or> ret = 0 \<and> bb_strs_deduped b' \<and>
      all_rewritten (\<lambda>w w'. same_str (map to_btf (b # base)) w (map to_btf (b' # base')) w') (bb_offs b) xs (bb_bytes b) ext (bb_bytes b') ext'))"
proof -
  have "name_ok b base UNIV = has_str (map to_btf (b # base))" by (simp add: name_ok_def fun_eq_iff)
  then have names': "all_ok (name_ok b base UNIV) b ext xs" using names by simp
  from dedup_strings_run [OF c dirty names', of new_ok empty_ok als] consider
      (fault) "btf_dedup_strings new_ok empty_ok als ext (b # base) = Inl Signed_Overflow" "base \<noteq> []"
    | (ret) ret ext' b' base' where "btf_dedup_strings new_ok empty_ok als ext (b # base) = Inr (ret, ext', b' # base')" "bchain_ok (b' # base')"
        "map to_btf base' = map to_btf base" "bb_offs b' = bb_offs b" "bb_start_str_off b' = bb_start_str_off b" "ret = - ENOMEM \<or> ret = 0 \<and> bb_strs_deduped b' \<and>
        (\<exists>st. bb_str_bytes b' = strset__data st \<and> set_exact (base = []) UNIV st \<and>
           all_rewritten (new_name b base st) (bb_offs b) xs (bb_bytes b) ext (bb_bytes b') ext')" by blast
  then show ?thesis
  proof cases
    case ret
    have "all_rewritten (\<lambda>w w'. same_str (map to_btf (b # base)) w (map to_btf (b' # base')) w') (bb_offs b) xs (bb_bytes b) ext (bb_bytes b') ext'"
      if "bb_str_bytes b' = strset__data st" "set_exact (base = []) UNIV st" "all_rewritten (new_name b base st) (bb_offs b) xs (bb_bytes b) ext (bb_bytes b') ext'" for st
      by (rule all_rewritten_cong [OF that(3) names]) (rule new_name_same_str [OF c ret(2,3,5) that(2,1)])
    then show ?thesis using ret by blast
  qed blast
qed

section \<open>The new strings\<close>

text \<open>All words that are offsets of strings, and the string at an offset.\<close>

definition type_names :: "btf_type \<Rightarrow> u32 list" where
  "type_names t = map (\<lambda>i. type_words t ! i) (str_off_places t)"

definition all_names :: "nat list \<Rightarrow> nat list \<Rightarrow> u8 list \<Rightarrow> btf_ext option \<Rightarrow> u32 list" where
  "all_names offs xs data ext = concat (map (\<lambda>off. type_names (type_at data off)) offs) @ map (word_at (ext_bytes ext)) xs"

definition str_at :: "btf_chain \<Rightarrow> u32 \<Rightarrow> u8 list" where
  "str_at c w = (case btf__str_by_offset c (unat w) of Inr (Some s) \<Rightarrow> s | _ \<Rightarrow> [])"

lemma rewritten_names:
  assumes "rewritten g t t'" "words_ok (type_words t)"
  shows "list_all2 g (type_names t) (type_names t')"
proof -
  have p: "1 \<notin> set (str_off_places t)" "\<forall>i\<in>set (str_off_places t). i < length (type_words t)" using str_off_places_ok [OF assms(2)] by auto
  have "1 < length (type_words t)" using assms(2) by (simp add: words_ok_def)
  then have "type_words t' ! 1 = type_words t ! 1" using assms(1) p(1) by (auto simp: rewritten_def)
  then have i: "bt_info t' = bt_info t" by (simp add: type_words_def)
  then have k: "btf_kind t' = btf_kind t" "entry_places n f t' = entry_places n f t" for n f by (simp_all add: btf_kind_def btf_vlen_def entry_places_def)
  have "str_off_places t' = str_off_places t" unfolding str_off_places_def k ..
  then show ?thesis using assms(1) p(2) by (auto simp: type_names_def rewritten_def list_all2_conv_all_nth)
qed

lemma list_all2_concat: "list_all2 (list_all2 g) xss yss \<Longrightarrow> list_all2 g (concat xss) (concat yss)"
  by (induction rule: list_all2_induct) (auto intro: list_all2_appendI)

lemma all_rewritten_names:
  assumes "all_rewritten g offs xs data ext data' ext'" "\<forall>off\<in>set offs. words_ok (type_words (type_at data off))"
  shows "list_all2 g (all_names offs xs data ext) (all_names offs xs data' ext')"
proof -
  have "list_all2 g (concat (map (\<lambda>off. type_names (type_at data off)) offs)) (concat (map (\<lambda>off. type_names (type_at data' off)) offs))"
    using assms rewritten_names by (intro list_all2_concat) (simp add: all_rewritten_def list.rel_map list.rel_refl_strong)
  moreover have "list_all2 g (map (word_at (ext_bytes ext)) xs) (map (word_at (ext_bytes ext')) xs)"
    using assms(1) by (auto simp: all_rewritten_def ext_rewritten_def list_all2_conv_all_nth)
  ultimately show ?thesis unfolding all_names_def by (rule list_all2_appendI)
qed

lemma all_ok_iff: "all_ok pre b ext xs \<longleftrightarrow> ext_places ext xs \<and> (\<forall>w\<in>set (all_names (bb_offs b) xs (bb_bytes b) ext). pre w)"
  by (auto simp: all_ok_def all_names_def type_names_def names_ok_def)

text \<open>Without a base every name is mapped by the set.\<close>

lemma root_name:
  assumes c: "bchain_ok [b]" and st: "set_exact True U st" and w: "has_str [to_btf b] w" "new_name b [] st w w'"
  shows "ss_map st (str_at [to_btf b] w) = Some (unat w')"
proof -
  have start: "bb_start_str_off b = 0" and ok: "bb_ok False b" using c by auto
  show ?thesis
  proof (cases "w = 0")
    case True
    have wf: "btf_wf False (to_btf b)" using ok by (simp add: bb_ok_def)
    have ne: "bb_str_bytes b \<noteq> []" using wf_strs(4) [OF wf] by simp
    then have "hd (bb_str_bytes b) = 0" using wf by (auto simp: btf_wf_def to_btf_def btf_parse_str_sec_def Let_def EINVAL_def split: if_splits)
    then have "cstr (bb_str_bytes b) 0 = []" using ne by (cases "bb_str_bytes b") (auto simp: cstr_def)
    then have "str_at [to_btf b] 0 = []" using lookup_own [OF ok, of 0 "[]"] ne start by (simp add: str_at_def)
    then show ?thesis using True w(2) st by (simp add: new_name_def set_exact_def)
  next
    case False
    then show ?thesis using w(2) start by (auto simp: new_name_def str_at_def)
  qed
qed

lemma same_offset:
  assumes "strset_inv st" "ss_map st s = Some k" "ss_map st s' = Some k'"
  shows "k = k' \<longleftrightarrow> s = s'"
proof
  assume "k = k'"
  then show "s = s'" using mapped_cstr [OF assms(1,2)] mapped_cstr [OF assms(1,3)] by metis
qed (use assms(2,3) in simp)

text \<open>
  C7. The instance is not marked deduplicated yet, its name offsets resolve, and the areas of \<open>.BTF.ext\<close> share no byte. After a successful pass without a
  base the new strings are exactly the empty string and the strings the types and \<open>.BTF.ext\<close> refer to, each once; and two names
  have the same offset after the pass exactly if they are the same string, so that the later passes compare names by their offsets.
\<close>

theorem dedup_strings_exact:
  assumes c: "bchain_ok [b]" and dirty: "\<not> bb_strs_deduped b" and names: "all_ok (has_str [to_btf b]) b ext xs"
    and run: "btf_dedup_strings new_ok empty_ok als ext [b] = Inr (0, ext', c')"
  shows "\<exists>b'. c' = [b'] \<and> (let ns = all_names (bb_offs b) xs (bb_bytes b) ext; ns' = all_names (bb_offs b') xs (bb_bytes b') ext' in
    (\<exists>ss. bb_str_bytes b' = str_blob ss \<and> distinct ss \<and> set ss = insert [] (str_at [to_btf b] ` set ns)) \<and> length ns' = length ns \<and>
    (\<forall>i<length ns. \<forall>j<length ns. ns' ! i = ns' ! j \<longleftrightarrow> str_at [to_btf b] (ns ! i) = str_at [to_btf b] (ns ! j)))"
proof -
  let ?ns = "all_names (bb_offs b) xs (bb_bytes b) ext" and ?s = "str_at [to_btf b]"
  let ?U = "insert [] (?s ` set ?ns)"
  have known: "has_str [to_btf b] w" if "w \<in> set ?ns" for w using names that by (simp add: all_ok_iff)
  have "name_ok b [] ?U w" if "w \<in> set ?ns" for w using known [OF that] that by (force simp: name_ok_def str_at_def)
  then have names': "all_ok (name_ok b [] ?U) b ext xs" using names by (simp add: all_ok_iff)
  obtain b' st where b': "c' = [b']" "bb_offs b' = bb_offs b" "bb_str_bytes b' = strset__data st" "set_exact True ?U st"
    "all_rewritten (new_name b [] st) (bb_offs b) xs (bb_bytes b) ext (bb_bytes b') ext'"
    using dedup_strings_run [OF c dirty names', of new_ok empty_ok als] run by (auto simp: ENOMEM_def)
  have "tiles (length (bb_bytes b)) (bb_bytes b) 0 (bb_offs b)" using c by (auto simp: bb_ok_def btf_wf_def to_btf_def)
  then have "\<forall>off\<in>set (bb_offs b). words_ok (type_words (type_at (bb_bytes b) off))" using tiles_from type_at_words_ok(1) by blast
  from all_rewritten_names [OF b'(5) this] have l: "list_all2 (new_name b [] st) ?ns (all_names (bb_offs b') xs (bb_bytes b') ext')" using b'(2) by simp
  have m: "ss_map st (?s (?ns ! i)) = Some (unat (all_names (bb_offs b') xs (bb_bytes b') ext' ! i))" if "i < length ?ns" for i
    using that l root_name [OF c b'(4) known] by (simp add: list_all2_conv_all_nth)
  have inv: "strset_inv st" using b'(4) by (simp add: set_exact_def set_ok_def)
  obtain ss where ss: "strset__data st = str_blob ss" "distinct ss" "set ss = dom (ss_map st)" using b'(4) by (auto simp: set_exact_def)
  have le: "?U \<subseteq> dom (ss_map st)" using m b'(4) by (auto simp: set_exact_def in_set_conv_nth)
  have ge: "dom (ss_map st) \<subseteq> ?U" using b'(4) by (simp add: set_exact_def)
  have all: "set ss = ?U" unfolding ss(3) by (rule equalityI [OF ge le])
  show ?thesis unfolding Let_def
  proof (intro exI [of _ b'] conjI exI [of _ ss] allI impI)
    show "c' = [b']" "distinct ss" "set ss = ?U" by (rule b'(1) ss(2) all)+
    show "bb_str_bytes b' = str_blob ss" using b'(3) ss(1) by simp
    show "length (all_names (bb_offs b') xs (bb_bytes b') ext') = length ?ns" using list_all2_lengthD [OF l] by simp
    show "all_names (bb_offs b') xs (bb_bytes b') ext' ! i = all_names (bb_offs b') xs (bb_bytes b') ext' ! j \<longleftrightarrow> ?s (?ns ! i) = ?s (?ns ! j)"
      if "i < length ?ns" "j < length ?ns" for i j
      unfolding word_unat_eq_iff by (rule same_offset [OF inv m [OF that(1)] m [OF that(2)]])
  qed
qed

section \<open>A run\<close>

text \<open>Two structures of the same name, each with its own copy of it, and a string that is not used.\<close>

definition twice_set :: strset where
  "twice_set = \<lparr>ss_data = \<lparr>ma_data = [0, 115, 0, 115, 0, 117, 0], ma_cap = 7\<rparr>, ss_data_len = 7, ss_data_max_len = BTF_MAX_STR_OFFSET,
     ss_hash = hashmap__init\<rparr>"

definition twice_bb :: bbtf where
  "twice_bb = struct_bb\<lparr>bb_hdr := (bb_hdr struct_bb)\<lparr>hd_type_len := 24, hd_str_off := 24, hd_str_len := 7\<rparr>, bb_offs := [0, 12],
     bb_types := \<lparr>ma_data = [1, 0, 0, 0, 0, 0, 0, 4, 4, 0, 0, 0, 3, 0, 0, 0, 0, 0, 0, 4, 4, 0, 0, 0], ma_cap = 24\<rparr>, bb_strs := Interned twice_set\<rparr>"

lemma twice_bytes: "bb_bytes twice_bb = [1, 0, 0, 0, 0, 0, 0, 4, 4, 0, 0, 0, 3, 0, 0, 0, 0, 0, 0, 4, 4, 0, 0, 0]" "bb_str_bytes twice_bb = [0, 115, 0, 115, 0, 117, 0]"
  "bb_offs twice_bb = [0, 12]" "bb_start_str_off twice_bb = 0" "\<not> bb_strs_deduped twice_bb"
  by (simp_all add: bb_bytes_def bb_str_bytes_def twice_bb_def struct_bb_def strset__data_def strset_bytes_def twice_set_def)

abbreviation twice_struct :: "u32 \<Rightarrow> btf_type" where
  "twice_struct w \<equiv> \<lparr>bt_name_off = w, bt_info = 0x04000000, bt_type = 4, bt_words = []\<rparr>"

lemma twice_types: "type_at (bb_bytes twice_bb) 0 = twice_struct 1" "type_at (bb_bytes twice_bb) 12 = twice_struct 3"
proof -
  have bs: "words_bytes [1, 0x04000000, 4] = [1, 0, 0, 0, 0, 0, 0, 4, 4, 0, 0, 0]" "words_bytes [3, 0x04000000, 4] = [3, 0, 0, 0, 0, 0, 0, 4, 4, 0, 0, 0]" by code_simp+
  have ok: "words_ok [w, 0x04000000, 4]" for w by (simp add: words_ok_def type_of_words_def btf_type_size_def btf_kind_def btf_vlen_def btf_kinds Let_def)
  have of: "type_of_words [w, 0x04000000, 4] = twice_struct w" for w by (simp add: type_of_words_def)
  show "type_at (bb_bytes twice_bb) 0 = twice_struct 1"
    using type_at_words [OF ok, of "[]" 1 "[3, 0, 0, 0, 0, 0, 0, 4, 4, 0, 0, 0]"] unfolding bs of by (simp add: twice_bytes)
  have twelve: "length [1, 0, 0, 0, 0, 0, 0, 4, 4, 0, 0, 0 :: u8] = 12" by simp
  show "type_at (bb_bytes twice_bb) 12 = twice_struct 3"
    using type_at_words [OF ok, of "[1, 0, 0, 0, 0, 0, 0, 4, 4, 0, 0, 0]" 3 "[]"] unfolding bs of twelve by (simp add: twice_bytes)
qed

lemma twice_chain: "bchain_ok [twice_bb]"
proof -
  have v: "hd_type_len (bb_hdr twice_bb) = 24" "hd_str_len (bb_hdr twice_bb) = 7" by (simp_all add: twice_bb_def)
  have "btf_wf False (to_btf twice_bb)"
    by (simp add: btf_wf_def to_btf_def twice_bytes v) (simp add: btf_parse_str_sec_def BTF_MAX_STR_OFFSET_def type_fits_def base_at_def
      word_at_def btf_type_size_def btf_kind_def btf_vlen_def btf_kinds Let_def)
  moreover have "set_ok twice_set"
    by (simp add: set_ok_def twice_set_def strset_inv_def Mem.area_ok_def hm_inv_def hashmap__init_def keys_unique_def hashmap_entries_def BTF_MAX_STR_OFFSET_def)
  ultimately have "bb_ok False twice_bb" by (simp add: bb_ok_def) (simp add: twice_bb_def Mem.area_ok_def UINT32_MAX_def)
  then show ?thesis by (simp add: twice_bb_def struct_bb_def)
qed

definition hash_of :: "(nat \<times> nat) list \<Rightarrow> (nat, nat) hashmap" where
  "hash_of es = \<lparr>hm_buckets = Some [es, [], [], []], hm_cap = 4, hm_cap_bits = 2, hm_sz = length es\<rparr>"

definition set_of :: "u8 list \<Rightarrow> nat \<Rightarrow> (nat \<times> nat) list \<Rightarrow> strset" where
  "set_of data n es = \<lparr>ss_data = \<lparr>ma_data = data, ma_cap = 16\<rparr>, ss_data_len = n, ss_data_max_len = BTF_MAX_STR_OFFSET, ss_hash = hash_of es\<rparr>"

abbreviation insert_at :: "u8 list \<Rightarrow> nat \<Rightarrow> (nat, nat) hashmap \<Rightarrow> fault + (int \<times> (nat \<times> nat) option \<times> (nat, nat) hashmap)" where
  "insert_at data k \<equiv> hashmap__insert (strset_hash_fn data) (strset_equal_fn data) True True HASHMAP_ADD k k"

abbreviation first_set :: strset where "first_set \<equiv> set_of [0, 0, 0, 0, 0, 0, 0, 0, 0, 0, 0, 0, 0, 0, 0, 0] 1 [(0, 0)]"

abbreviation second_set :: strset where "second_set \<equiv> set_of [0, 115, 0, 0, 0, 0, 0, 0, 0, 0, 0, 0, 0, 0, 0, 0] 3 [(1, 1), (0, 0)]"

abbreviation third_set :: strset where "third_set \<equiv> set_of [0, 115, 0, 115, 0, 0, 0, 0, 0, 0, 0, 0, 0, 0, 0, 0] 3 [(1, 1), (0, 0)]"

lemma twice_inserts:
  "insert_at [0, 0, 0, 0, 0, 0, 0, 0, 0, 0, 0, 0, 0, 0, 0, 0] 0 hashmap__init = Inr (0, None, hash_of [(0, 0)])"
  "insert_at [0, 115, 0, 0, 0, 0, 0, 0, 0, 0, 0, 0, 0, 0, 0, 0] 1 (hash_of [(0, 0)]) = Inr (0, None, hash_of [(1, 1), (0, 0)])"
  "insert_at [0, 115, 0, 115, 0, 0, 0, 0, 0, 0, 0, 0, 0, 0, 0, 0] 3 (hash_of [(1, 1), (0, 0)]) = Inr (- EEXIST, Some (1, 1), hash_of [(1, 1), (0, 0)])"
  by code_simp+

lemma sixteen: "replicate 16 (0 :: u8) = [0, 0, 0, 0, 0, 0, 0, 0, 0, 0, 0, 0, 0, 0, 0, 0]"
  by (simp add: numeral_eq_Suc)

lemma twice_adds:
  "strset__add_str True (True, True) [] \<lparr>ss_data = \<lparr>ma_data = [], ma_cap = 0\<rparr>, ss_data_len = 0, ss_data_max_len = BTF_MAX_STR_OFFSET, ss_hash = hashmap__init\<rparr> =
     Inr (0, first_set)"
  "strset__add_str True (True, True) [115] first_set =
    Inr (1, second_set)"
  "strset__add_str True (True, True) [115] second_set =
    Inr (1, third_set)"
  by (simp_all add: strset__add_str_def strset_add_str_mem_def libbpf_add_mem_def add_mem_new_cnt_def set_of_def Let_def
      area_write_def strset_bytes_def EEXIST_def BTF_MAX_STR_OFFSET_def sixteen twice_inserts [unfolded One_nat_def] int_of_long_id del: bindR_eq_Inr)

lemma twice_lookup: "w \<in> {1, 3} \<Longrightarrow> btf__str_by_offset [to_btf twice_bb] w = Inr (Some [115])"
  using lookup_own [of False twice_bb w "[]"] twice_chain by (auto simp: twice_bytes cstr_def)

lemma twice_remap:
  assumes "w \<in> {1, 3}" "strset__add_str True (True, True) [115] st = Inr (1, st')"
  shows "strs_dedup_remap_str_off (\<lambda>_. all_memory) w \<lparr>sd_chain = [twice_bb], sd_set = st, sd_calls = n\<rparr> = Inr (0, 1, \<lparr>sd_chain = [twice_bb], sd_set = st', sd_calls = n + 1\<rparr>)"
  using assms twice_lookup [of "unat w"]
  by (auto simp: strs_dedup_remap_str_off_def all_memory_simps global_str_off_def twice_bytes INT_MAX_def ENOENT_def simp del: bindR_eq_Inr)

lemma twice_visit:
  assumes "w \<in> {1, 3}" "strset__add_str True (True, True) [115] st = Inr (1, st')"
  shows "btf_type_visit_str_offs (strs_dedup_remap_str_off (\<lambda>_. all_memory)) (type_words (twice_struct w)) \<lparr>sd_chain = [twice_bb], sd_set = st, sd_calls = n\<rparr> =
    Inr (0, [1, 0x04000000, 4], \<lparr>sd_chain = [twice_bb], sd_set = st', sd_calls = n + 1\<rparr>)"
proof -
  have "str_off_places (twice_struct w) = [0]" by (simp add: str_off_places_def entry_places_def btf_kind_def btf_vlen_def btf_kinds Let_def)
  then show ?thesis using twice_remap [OF assms, of n] by (simp add: btf_type_visit_str_offs_def del: bindR_eq_Inr) (simp add: type_words_def del: bindR_eq_Inr)
qed

lemma twice_visits:
  "visit_types (strs_dedup_remap_str_off (\<lambda>_. all_memory)) [0, 12] (bb_bytes twice_bb) \<lparr>sd_chain = [twice_bb], sd_set = first_set, sd_calls = 0\<rparr> =
   Inr (0, put_at 12 [1, 0x04000000, 4] (bb_bytes twice_bb), \<lparr>sd_chain = [twice_bb], sd_set = third_set, sd_calls = 2\<rparr>)"
proof -
  have put: "put_at 0 [1, 0x04000000, 4] (bb_bytes twice_bb) = bb_bytes twice_bb" by (simp add: twice_bytes put_at_def words_bytes_def) code_simp
  have fits: "type_fits (length (bb_bytes twice_bb)) 0 (bb_bytes twice_bb)" "type_fits (length (bb_bytes twice_bb)) 12 (bb_bytes twice_bb)"
    using twice_chain by (auto simp: bb_ok_def btf_wf_def to_btf_def twice_bytes(3))
  show ?thesis using twice_visit [of 1 first_set second_set 0] twice_visit [of 3 second_set third_set 1] twice_adds fits put
    by (simp add: twice_types del: bindR_eq_Inr)
qed

lemma twice_run:
  "btf_dedup_strings (True, True) (True, (True, True)) (\<lambda>_. all_memory) None [twice_bb] =
   Inr (0, None, [with_strs third_set (with_types (put_at 12 [1, 0x04000000, 4] (bb_bytes twice_bb)) twice_bb)])"
  using twice_visits twice_adds(1)
  by (simp add: btf_dedup_strings_def twice_bytes(3,5) strset__new_def hashmap__new_def btf_for_each_str_off_def Let_def del: bindR_eq_Inr)

lemma twice_names: "all_names (bb_offs twice_bb) [] (bb_bytes twice_bb) None = [1, 3]"
proof -
  have "str_off_places (twice_struct w) = [0]" for w by (simp add: str_off_places_def entry_places_def btf_kind_def btf_vlen_def btf_kinds Let_def)
  then show ?thesis by (simp add: all_names_def twice_bytes(3) twice_types type_names_def) (simp add: type_words_def)
qed

lemma twice_ok: "all_ok (has_str [to_btf twice_bb]) twice_bb None []"
  by (simp add: all_ok_iff twice_names ext_places_def) (simp add: has_str_def twice_lookup)

theorem dedup_strings_exact_witness:
  "\<exists>b' ss. btf_dedup_strings (True, True) (True, (True, True)) (\<lambda>_. all_memory) None [twice_bb] = Inr (0, None, [b']) \<and>
     bb_str_bytes b' = str_blob ss \<and> distinct ss \<and> set ss = {[], [115]}"
proof -
  have "str_at [to_btf twice_bb] ` set (all_names (bb_offs twice_bb) [] (bb_bytes twice_bb) None) = {[115]}"
    by (simp add: twice_names str_at_def twice_lookup)
  then show ?thesis using dedup_strings_exact [OF twice_chain twice_bytes(5) twice_ok twice_run] twice_run by (auto simp: Let_def)
qed

theorem dedup_strings_keep_names_witness:
  "\<exists>b'. btf_dedup_strings (True, True) (True, (True, True)) (\<lambda>_. all_memory) None [twice_bb] = Inr (0, None, [b']) \<and> bchain_ok [b'] \<and>
     (\<forall>off\<in>{0, 12}. rewritten (\<lambda>w w'. same_str [to_btf twice_bb] w [to_btf b'] w') (type_at (bb_bytes twice_bb) off) (type_at (bb_bytes b') off))"
  using dedup_strings_keep_names [of twice_bb "[]" None "[]" "(True, True)" "(True, (True, True))" "\<lambda>_. all_memory"] twice_chain twice_bytes(3,5) twice_ok twice_run
  by (auto simp: all_rewritten_def ENOMEM_def)

end
