(* ===== verification/Dedup_Ext.thy ===== *)
theory Dedup_Ext
  imports Dedup_Result Dedup_Names
begin

text \<open>
  The end of the last pass of the deduplication (\<open>libbpf/src/btf.c\<close>): the type ids in the records of \<open>.BTF.ext\<close> get the new ids.
\<close>

definition btf_dedup_remap_ext :: "btf_ext option \<Rightarrow> btf_dedup \<Rightarrow> fault + (int \<times> btf_ext option \<times> btf_dedup)" where
  "btf_dedup_remap_ext ext d = (case ext of
     None \<Rightarrow> Inr (0, None, d)
   | Some e \<Rightarrow> bindR (btf_ext_visit_type_ids btf_dedup_remap_type_id e d) (\<lambda>(r, e, d). Inr (r, Some e, d)))"

text \<open>The offsets at which the records have type ids.\<close>

definition ext_ids :: "btf_ext \<Rightarrow> nat list \<Rightarrow> bool" where
  "ext_ids e xs \<longleftrightarrow> apart (ex_func_info e) (ex_core_relo_info e) \<and> (\<exists>f l c. ext_secs e f l c \<and>
     xs = area_offs False [4] (ex_func_info e) f @ area_offs False [4] (ex_core_relo_info e) c)"

lemma ext_ids_ok:
  assumes "ext_ids e xs"
  shows "words_apart xs" "x \<in> set xs \<Longrightarrow> x + 4 \<le> length (ex_data e)"
    "btf_ext_visit_type_ids visit e s = bindR (visit_words (\<lambda>err. err < 0) visit xs (ex_data e, s)) (with_data e)"
proof -
  obtain f l c where s: "ext_secs e f l c" "xs = area_offs False [4] (ex_func_info e) f @ area_offs False [4] (ex_core_relo_info e) c"
    and ap: "apart (ex_func_info e) (ex_core_relo_info e)" using assms by (auto simp: ext_ids_def)
  have a: "area_secs (ex_data e) (ex_func_info e) f" "area_secs (ex_data e) (ex_core_relo_info e) c" using s(1) by (auto simp: ext_secs_def)
  let ?f = "area_offs False [4] (ex_func_info e) f" and ?c = "area_offs False [4] (ex_core_relo_info e) c"
  have f: "words_apart ?f" "\<And>x. x \<in> set ?f \<Longrightarrow> ei_info (ex_func_info e) \<le> x \<and> x + 4 \<le> ei_info (ex_func_info e) + unat (ei_len (ex_func_info e))"
    using area_words [OF a(1), where flds = "[4]" and nm = False] s(1) by (auto simp: ext_secs_def)
  have c: "words_apart ?c" "\<And>x. x \<in> set ?c \<Longrightarrow> ei_info (ex_core_relo_info e) \<le> x \<and> x + 4 \<le> ei_info (ex_core_relo_info e) + unat (ei_len (ex_core_relo_info e))"
    using area_words [OF a(2), where flds = "[4]" and nm = False] s(1) by (auto simp: ext_secs_def)
  show "words_apart xs" unfolding s(2) by (rule apart_append [OF f(1) c(1)]) (use f(2) c(2) ap in \<open>fastforce simp: apart_def\<close>)
  show "x + 4 \<le> length (ex_data e)" if "x \<in> set xs" using that f(2) c(2) a unfolding s(2) by (fastforce simp: area_secs_def)
  show "btf_ext_visit_type_ids visit e s = bindR (visit_words (\<lambda>err. err < 0) visit xs (ex_data e, s)) (with_data e)"
    unfolding visit_type_ids_eq [OF s(1) ap] s(2) ..
qed

interpretation new_ids: visitor btf_dedup_remap_type_id "remaps n f" "(=)" "\<lambda>_ w w'. w' = f w" "\<lambda>w. unat w < n" "\<lambda>_ _. False" for n f
  by unfold_locales (auto simp: remaps_def)

lemma remap_ext_ok:
  assumes d: "remaps n f d" and ext: "ext_ids e xs" "\<forall>x\<in>set xs. unat (word_at (ex_data e) x) < n"
  shows "\<exists>data'. btf_dedup_remap_ext (Some e) d = Inr (0, Some (e\<lparr>ex_data := data'\<rparr>), d) \<and> bytes_but xs (ex_data e) data' \<and>
    (\<forall>x\<in>set xs. word_at data' x = f (word_at (ex_data e) x))"
proof -
  note x = ext_ids_ok [OF ext(1)]
  have stop: "\<not> (0 :: int) < 0" "- ENOMEM < 0" by (simp_all add: ENOMEM_def)
  have known: "\<forall>x\<in>set xs. x + 4 \<le> length (ex_data e) \<and> unat (word_at (ex_data e) x) < n" using x(2) ext(2) by blast
  from new_ids.visit_words_ok [of "\<lambda>err. err < 0", OF stop d known x(1)] remap_not_runs_out
  obtain data' where v: "visit_words (\<lambda>err. err < 0) btf_dedup_remap_type_id xs (ex_data e, d) = Inr (0, data', d)" "bytes_but xs (ex_data e) data'"
    "\<forall>x\<in>set xs. word_at data' x = f (word_at (ex_data e) x)" by auto
  have "btf_dedup_remap_ext (Some e) d = Inr (0, Some (e\<lparr>ex_data := data'\<rparr>), d)" by (simp add: btf_dedup_remap_ext_def x(3) v(1) with_data_def)
  then show ?thesis using v(2,3) by blast
qed

section \<open>Records keep their types\<close>

text \<open>
  C9. After the passes over the types of a well-formed table without forward declarations have succeeded, the ids of the types in \<open>.BTF.ext\<close>
  are rewritten to ids of the resulting table under which the same trees of shapes are reached, and nothing else in the data changes. The
  areas of function and relocation records must share no byte, and the ids must be below the number of types. (A forward declaration that is
  resolved to a structure has another tree afterwards.)
\<close>

theorem dedup_ext_types:
  assumes "types_ok ts" "1 \<le> start" "start \<le> length ts" "base_closed start ts" "btf_dedup_new ok1 ok2 ok3 ok4 collide ts start = Inr d"
    and nf: "no_fwd ts" and run: "dedup_passes mem realloc_ok d = Inr (0, d')" and ext: "ext_ids e xs" "\<forall>x\<in>set xs. unat (word_at (ex_data e) x) < length ts"
  shows "\<exists>data'. btf_dedup_remap_ext (Some e) d' = Inr (0, Some (e\<lparr>ex_data := data'\<rparr>), d') \<and> bytes_but xs (ex_data e) data' \<and>
    (\<forall>x\<in>set xs. unat (word_at data' x) < length (dd_types d') \<and> (\<forall>n. unfolding_of (dd_types d') n (word_at data' x) = unfolding_of ts n (word_at (ex_data e) x)))"
proof -
  obtain f where f: "remaps (length ts) f d'"
    "\<And>i. unat i < length ts \<Longrightarrow> unat (f i) < length (dd_types d') \<and> (\<forall>n. unfolding_of (dd_types d') n (f i) = unfolding_of ts n i)"
    using new_ids_unfold [OF assms(1-7)] by blast
  obtain data' where r: "btf_dedup_remap_ext (Some e) d' = Inr (0, Some (e\<lparr>ex_data := data'\<rparr>), d')" "bytes_but xs (ex_data e) data'"
    "\<forall>x\<in>set xs. word_at data' x = f (word_at (ex_data e) x)" using remap_ext_ok [OF f(1) ext] by blast
  then show ?thesis using f(2) ext(2) by fastforce
qed

text \<open>A function record for the second structure of the table.\<close>

definition node_ext :: btf_ext where
  "node_ext = sample_ext\<lparr>ex_data := put32 40 6 ext_sample\<rparr>"

lemma node_secs: "ext_secs node_ext [(1, 1, [0, 0, 0, 0, 6, 0, 0, 0])] [(1, 1, [0, 0, 0, 0, 3, 0, 0, 0, 5, 0, 0, 0, 1, 0, 0, 0])] []"
  by code_simp

lemma node_offs: "area_offs False [4] (ex_func_info node_ext) [(1, 1, [0, 0, 0, 0, 6, 0, 0, 0])] @ area_offs False [4] (ex_core_relo_info node_ext) [] = [40]"
  by code_simp

lemma node_ids: "ext_ids node_ext [40]" "word_at (ex_data node_ext) 40 = 6"
proof -
  have "apart (ex_func_info node_ext) (ex_core_relo_info node_ext)" using sample_apart(1) by (simp add: node_ext_def)
  then show "ext_ids node_ext [40]" using node_secs node_offs unfolding ext_ids_def by metis
  show "word_at (ex_data node_ext) 40 = 6" by code_simp
qed

theorem dedup_ext_types_witness:
  "\<exists>d data'. dedup_passes (\<lambda>_. (True, True)) True node_start = Inr (0, d) \<and> btf_dedup_remap_ext (Some node_ext) d = Inr (0, Some (node_ext\<lparr>ex_data := data'\<rparr>), d) \<and>
     unat (word_at data' 40) < 4 \<and> (\<forall>n. unfolding_of node_result n (word_at data' 40) = unfolding_of node_table n 6)"
proof -
  obtain d where d: "dedup_passes (\<lambda>_. (True, True)) True node_start = Inr (0, d)" "dd_types d = node_result" using node_passes by blast
  show ?thesis using dedup_ext_types [OF node_facts(3) _ _ node_facts(4,6,5) d(1) node_ids(1)] node_facts(1,2) node_ids(2) d by auto
qed

end
