(* ===== verification/Core_Types.thy ===== *)
theory Core_Types
  imports Btf_Parse
begin

text \<open>
  Types of two BTF instances compared for CO-RE relocations (\<open>libbpf/src/relo_core.c\<close>, with the helpers of
  \<open>libbpf/src/libbpf.c\<close>): modifiers and typedefs are skipped, names are compared without their flavor,
  types are compatible or match by three different sets of rules.
\<close>

section \<open>Skipping modifiers and typedefs\<close>

text \<open>
  One step of \<open>skip_mods_and_typedefs\<close>: the type at an id, and whether the walk goes on from it. For an
  id outside the table the code reads the kind of a null pointer, so the null checks of the callers
  never see one.
\<close>

definition type_of_id :: "btf_chain \<Rightarrow> u32 \<Rightarrow> fault + btf_type" where
  "type_of_id c tid = bindR (btf__type_by_id c tid) (\<lambda>t. case t of None \<Rightarrow> Inl Out_Of_Bounds | Some t \<Rightarrow> Inr t)"

definition skipped :: "btf_type \<Rightarrow> bool" where
  "skipped t \<longleftrightarrow> btf_is_mod t \<or> btf_is_typedef t"

fun skip_loop :: "btf_chain \<Rightarrow> nat \<Rightarrow> u32 \<Rightarrow> fault + (u32 \<times> btf_type)" where
  "skip_loop c 0 tid = Inl No_Return"
| "skip_loop c (Suc n) tid = bindR (type_of_id c tid) (\<lambda>t. if skipped t then skip_loop c n (bt_type t) else Inr (tid, t))"

text \<open>A walk over more types than there are visits one twice and never ends.\<close>

definition skip_mods_and_typedefs :: "btf_chain \<Rightarrow> u32 \<Rightarrow> fault + (u32 \<times> btf_type)" where
  "skip_mods_and_typedefs c tid = skip_loop c (Suc (btf__type_cnt c)) tid"

section \<open>Names\<close>

definition str_is_empty :: "u8 list option \<Rightarrow> bool" where
  "str_is_empty s \<longleftrightarrow> s = None \<or> s = Some []"

definition underscore :: u8 where "underscore = 95"

text \<open>Names are lists without the terminator; the byte behind the name is 0.\<close>

definition byte_of :: "u8 list \<Rightarrow> nat \<Rightarrow> u8" where
  "byte_of s i = (if i < length s then s ! i else 0)"

definition bpf_core_is_flavor_sep :: "u8 list \<Rightarrow> nat \<Rightarrow> bool" where
  "bpf_core_is_flavor_sep s i \<longleftrightarrow> byte_of s i \<noteq> underscore \<and> byte_of s (i + 1) = underscore \<and> byte_of s (i + 2) = underscore \<and>
     byte_of s (i + 3) = underscore \<and> byte_of s (i + 4) \<noteq> underscore"

text \<open>The loop over \<open>i = n - 5, ..., 0\<close>; the first argument is the number of positions left.\<close>

fun essential_loop :: "nat \<Rightarrow> u8 list \<Rightarrow> nat" where
  "essential_loop 0 s = length s"
| "essential_loop (Suc i) s = (if bpf_core_is_flavor_sep s i then i + 1 else essential_loop i s)"

definition bpf_core_essential_name_len :: "u8 list \<Rightarrow> nat" where
  "bpf_core_essential_name_len s = essential_loop (length s - 4) s"

definition essential_name :: "u8 list \<Rightarrow> u8 list" where
  "essential_name s = take (bpf_core_essential_name_len s) s"

text \<open>\<open>strncmp\<close> over the first \<open>n\<close> bytes of two names.\<close>

definition strncmp_eq :: "nat \<Rightarrow> u8 list \<Rightarrow> u8 list \<Rightarrow> bool" where
  "strncmp_eq n s t \<longleftrightarrow> take n s = take n t"

definition same_essential :: "u8 list \<Rightarrow> u8 list \<Rightarrow> bool" where
  "same_essential s t \<longleftrightarrow> bpf_core_essential_name_len t = bpf_core_essential_name_len s \<and>
     strncmp_eq (bpf_core_essential_name_len s) s t"

text \<open>The length of a name that is not there is a read of the null pointer.\<close>

definition named_at :: "btf_chain \<Rightarrow> u32 \<Rightarrow> fault + u8 list" where
  "named_at c off = bindR (btf__name_by_offset c off) (\<lambda>s. case s of None \<Rightarrow> Inl Out_Of_Bounds | Some s \<Rightarrow> Inr s)"

definition bpf_core_names_match :: "btf_chain \<Rightarrow> u32 \<Rightarrow> btf_chain \<Rightarrow> u32 \<Rightarrow> fault + bool" where
  "bpf_core_names_match local_btf local_off targ_btf targ_off =
     bindR (btf__name_by_offset local_btf local_off) (\<lambda>local_n.
     bindR (btf__name_by_offset targ_btf targ_off) (\<lambda>targ_n.
       if str_is_empty targ_n then Inr (str_is_empty local_n)
       else (case local_n of None \<Rightarrow> Inl Out_Of_Bounds | Some l \<Rightarrow> Inr (same_essential l (the targ_n)))))"

section \<open>Compatible types\<close>

text \<open>
  \<open>__bpf_core_types_are_compat\<close>. \<open>rec\<close> is the function at the next lower level, \<open>None\<close> when no level is
  left; the jump back to \<open>recur\<close> is the recursion over the depth. The results are 1, 0 or a
  negative error number.
\<close>

type_synonym type_cmp = "u32 \<Rightarrow> u32 \<Rightarrow> fault + int"

fun compat_params :: "btf_chain \<Rightarrow> btf_chain \<Rightarrow> type_cmp option \<Rightarrow> (btf_param \<times> btf_param) list \<Rightarrow> fault + int" where
  "compat_params l t rec [] = Inr 1"
| "compat_params l t rec ((lp, tp) # ps) = (case rec of None \<Rightarrow> Inr (- EINVAL)
     | Some f \<Rightarrow>
        bindR (skip_mods_and_typedefs l (pm_type lp)) (\<lambda>(local_id, _).
        bindR (skip_mods_and_typedefs t (pm_type tp)) (\<lambda>(targ_id, _).
        bindR (f local_id targ_id) (\<lambda>err. if err \<le> 0 then Inr err else compat_params l t rec ps))))"

fun compat_loop :: "btf_chain \<Rightarrow> btf_chain \<Rightarrow> type_cmp option \<Rightarrow> nat \<Rightarrow> type_cmp" where
  "compat_loop l t rec 0 local_id targ_id = Inr (- EINVAL)"
| "compat_loop l t rec (Suc depth) local_id targ_id =
     bindR (skip_mods_and_typedefs l local_id) (\<lambda>(local_id, local_type).
     bindR (skip_mods_and_typedefs t targ_id) (\<lambda>(targ_id, targ_type).
       let k = btf_kind local_type in
       if \<not> btf_kind_core_compat local_type targ_type then Inr 0
       else if k \<in> {BTF_KIND_UNKN, BTF_KIND_STRUCT, BTF_KIND_UNION, BTF_KIND_ENUM, BTF_KIND_FWD, BTF_KIND_ENUM64} then Inr 1
       else if k = BTF_KIND_INT then Inr (of_bool (btf_int_offset local_type = 0 \<and> btf_int_offset targ_type = 0))
       else if k = BTF_KIND_PTR then compat_loop l t rec depth (bt_type local_type) (bt_type targ_type)
       else if k = BTF_KIND_ARRAY then
         compat_loop l t rec depth (ar_type (btf_array local_type)) (ar_type (btf_array targ_type))
       else if k = BTF_KIND_FUNC_PROTO then
        (if btf_vlen local_type \<noteq> btf_vlen targ_type then Inr 0
         else bindR (compat_params l t rec (zip (btf_params local_type) (btf_params targ_type))) (\<lambda>err.
           if err \<le> 0 then Inr err
           else bindR (skip_mods_and_typedefs l (bt_type local_type)) (\<lambda>(local_id, _).
                bindR (skip_mods_and_typedefs t (bt_type targ_type)) (\<lambda>(targ_id, _).
                  compat_loop l t rec depth local_id targ_id))))
       else Inr 0))"

definition compat_entry :: "btf_chain \<Rightarrow> btf_chain \<Rightarrow> type_cmp option \<Rightarrow> type_cmp" where
  "compat_entry l t rec local_id targ_id =
     bindR (btf_type_by_id l (unat local_id)) (\<lambda>local_type.
     bindR (btf_type_by_id t (unat targ_id)) (\<lambda>targ_type.
       if \<not> btf_kind_core_compat local_type targ_type then Inr 0 else compat_loop l t rec 32 local_id targ_id))"

primrec types_are_compat :: "btf_chain \<Rightarrow> btf_chain \<Rightarrow> nat \<Rightarrow> type_cmp" where
  "types_are_compat l t 0 = compat_entry l t None"
| "types_are_compat l t (Suc level) = compat_entry l t (Some (types_are_compat l t level))"

definition bpf_core_types_are_compat :: "btf_chain \<Rightarrow> u32 \<Rightarrow> btf_chain \<Rightarrow> u32 \<Rightarrow> fault + int" where
  "bpf_core_types_are_compat l local_id t targ_id = types_are_compat l t 32 local_id targ_id"

text \<open>
  \<open>bpf_core_fields_are_compat\<close>. The walk through arrays has no bound; there are at most as many pairs of
  ids as the product of the numbers of types.
\<close>

fun fields_loop :: "btf_chain \<Rightarrow> btf_chain \<Rightarrow> nat \<Rightarrow> type_cmp" where
  "fields_loop l t 0 local_id targ_id = Inl No_Return"
| "fields_loop l t (Suc n) local_id targ_id =
     bindR (skip_mods_and_typedefs l local_id) (\<lambda>(local_id, local_type).
     bindR (skip_mods_and_typedefs t targ_id) (\<lambda>(targ_id, targ_type).
       let k = btf_kind local_type in
       if btf_is_composite local_type \<and> btf_is_composite targ_type then Inr 1
       else if \<not> btf_kind_core_compat local_type targ_type then Inr 0
       else if k = BTF_KIND_PTR \<or> k = BTF_KIND_FLOAT then Inr 1
       else if k \<in> {BTF_KIND_FWD, BTF_KIND_ENUM64, BTF_KIND_ENUM} then
         bindR (named_at l (bt_name_off local_type)) (\<lambda>local_name.
         bindR (named_at t (bt_name_off targ_type)) (\<lambda>targ_name.
           Inr (of_bool (bpf_core_essential_name_len local_name = 0 \<or> bpf_core_essential_name_len targ_name = 0 \<or>
             same_essential local_name targ_name))))
       else if k = BTF_KIND_INT then Inr (of_bool (btf_int_offset local_type = 0 \<and> btf_int_offset targ_type = 0))
       else if k = BTF_KIND_ARRAY then fields_loop l t n (ar_type (btf_array local_type)) (ar_type (btf_array targ_type))
       else Inr 0))"

definition bpf_core_fields_are_compat :: "btf_chain \<Rightarrow> u32 \<Rightarrow> btf_chain \<Rightarrow> u32 \<Rightarrow> fault + int" where
  "bpf_core_fields_are_compat l local_id t targ_id =
     fields_loop l t (Suc (btf__type_cnt l * btf__type_cnt t)) local_id targ_id"

section \<open>Matching types\<close>

definition enum_names :: "btf_type \<Rightarrow> u32 list" where
  "enum_names t = (if btf_is_enum t then map en_name_off (btf_enums t) else map e64_name_off (btf_enum64s t))"

fun find_match :: "('a \<Rightarrow> fault + bool) \<Rightarrow> 'a list \<Rightarrow> fault + bool" where
  "find_match p [] = Inr False"
| "find_match p (x # xs) = bindR (p x) (\<lambda>b. if b then Inr True else find_match p xs)"

fun enums_loop :: "btf_chain \<Rightarrow> btf_chain \<Rightarrow> u32 list \<Rightarrow> u32 list \<Rightarrow> fault + int" where
  "enums_loop l t [] targ = Inr 1"
| "enums_loop l t (x # xs) targ = bindR (find_match (\<lambda>y. bpf_core_names_match l x t y) targ) (\<lambda>matched.
     if matched then enums_loop l t xs targ else Inr 0)"

definition bpf_core_enums_match :: "btf_chain \<Rightarrow> btf_type \<Rightarrow> btf_chain \<Rightarrow> btf_type \<Rightarrow> fault + int" where
  "bpf_core_enums_match l local_t t targ_t =
     (if bt_type local_t \<noteq> bt_type targ_t then Inr 0
      else if btf_vlen local_t > btf_vlen targ_t then Inr 0
      else enums_loop l t (enum_names local_t) (enum_names targ_t))"

text \<open>The inner loop over the target members: an error ends it at once, a type that does not match does not.\<close>

fun member_loop :: "btf_chain \<Rightarrow> btf_chain \<Rightarrow> type_cmp \<Rightarrow> btf_member \<Rightarrow> btf_member list \<Rightarrow> fault + int" where
  "member_loop l t rec m [] = Inr 0"
| "member_loop l t rec m (tm # tms) = bindR (bpf_core_names_match l (mb_name_off m) t (mb_name_off tm)) (\<lambda>same.
     if \<not> same then member_loop l t rec m tms
     else bindR (rec (mb_type m) (mb_type tm)) (\<lambda>err.
       if err < 0 then Inr err else if err > 0 then Inr 1 else member_loop l t rec m tms))"

fun members_loop :: "btf_chain \<Rightarrow> btf_chain \<Rightarrow> type_cmp \<Rightarrow> btf_member list \<Rightarrow> btf_member list \<Rightarrow> fault + int" where
  "members_loop l t rec [] tms = Inr 1"
| "members_loop l t rec (m # ms) tms = bindR (member_loop l t rec m tms) (\<lambda>err.
     if err \<le> 0 then Inr err else members_loop l t rec ms tms)"

definition bpf_core_composites_match :: "btf_chain \<Rightarrow> btf_type \<Rightarrow> btf_chain \<Rightarrow> btf_type \<Rightarrow> type_cmp \<Rightarrow> fault + int" where
  "bpf_core_composites_match l local_t t targ_t rec =
     (if btf_vlen local_t > btf_vlen targ_t then Inr 0 else members_loop l t rec (btf_members local_t) (btf_members targ_t))"

fun match_params :: "type_cmp \<Rightarrow> (btf_param \<times> btf_param) list \<Rightarrow> fault + int" where
  "match_params rec [] = Inr 1"
| "match_params rec ((lp, tp) # ps) = bindR (rec (pm_type lp) (pm_type tp)) (\<lambda>err. if err \<le> 0 then Inr err else match_params rec ps)"

text \<open>\<open>__bpf_core_types_match\<close>; \<open>rec\<close> is the function at the next lower level, with the flag \<open>behind_ptr\<close>.\<close>

fun match_loop :: "btf_chain \<Rightarrow> btf_chain \<Rightarrow> (bool \<Rightarrow> type_cmp) \<Rightarrow> nat \<Rightarrow> bool \<Rightarrow> type_cmp" where
  "match_loop l t rec 0 behind_ptr local_id targ_id = Inr (- EINVAL)"
| "match_loop l t rec (Suc depth) behind_ptr local_id targ_id =
     bindR (skip_mods_and_typedefs l local_id) (\<lambda>(local_id, local_t).
     bindR (skip_mods_and_typedefs t targ_id) (\<lambda>(targ_id, targ_t).
     bindR (bpf_core_names_match l (bt_name_off local_t) t (bt_name_off targ_t)) (\<lambda>same.
       let local_k = btf_kind local_t; targ_k = btf_kind targ_t in
       if \<not> same then Inr 0
       else if local_k = BTF_KIND_UNKN then Inr (of_bool (local_k = targ_k))
       else if local_k = BTF_KIND_FWD then
        (if behind_ptr then
          (if local_k = targ_k then Inr (of_bool (btf_kflag local_t = btf_kflag targ_t))
           else Inr (of_bool (targ_k = BTF_KIND_STRUCT \<and> \<not> btf_kflag local_t \<or> targ_k = BTF_KIND_UNION \<and> btf_kflag local_t)))
         else if local_k \<noteq> targ_k then Inr 0
         else Inr (of_bool (btf_kflag local_t = btf_kflag targ_t)))
       else if local_k = BTF_KIND_ENUM \<or> local_k = BTF_KIND_ENUM64 then
        (if \<not> btf_is_any_enum targ_t then Inr 0 else bpf_core_enums_match l local_t t targ_t)
       else if local_k = BTF_KIND_STRUCT \<or> local_k = BTF_KIND_UNION then
        (if behind_ptr then
          (if local_k = targ_k then Inr 1
           else if targ_k \<noteq> BTF_KIND_FWD then Inr 0
           else Inr (of_bool ((local_k = BTF_KIND_UNION) = btf_kflag targ_t)))
         else if local_k \<noteq> targ_k then Inr 0
         else bpf_core_composites_match l local_t t targ_t (rec behind_ptr))
       else if local_k = BTF_KIND_INT then
        (if local_k \<noteq> targ_k then Inr 0
         else Inr (of_bool (bt_type local_t = bt_type targ_t \<and> btf_int_encoding local_t AND 1 = btf_int_encoding targ_t AND 1)))
       else if local_k = BTF_KIND_PTR then
        (if local_k \<noteq> targ_k then Inr 0 else match_loop l t rec depth True (bt_type local_t) (bt_type targ_t))
       else if local_k = BTF_KIND_ARRAY then
        (if local_k \<noteq> targ_k then Inr 0
         else if ar_nelems (btf_array local_t) \<noteq> ar_nelems (btf_array targ_t) then Inr 0
         else match_loop l t rec depth behind_ptr (ar_type (btf_array local_t)) (ar_type (btf_array targ_t)))
       else if local_k = BTF_KIND_FUNC_PROTO then
        (if local_k \<noteq> targ_k then Inr 0
         else if btf_vlen local_t \<noteq> btf_vlen targ_t then Inr 0
         else bindR (match_params (rec behind_ptr) (zip (btf_params local_t) (btf_params targ_t))) (\<lambda>err.
           if err \<le> 0 then Inr err else match_loop l t rec depth behind_ptr (bt_type local_t) (bt_type targ_t)))
       else Inr 0)))"

text \<open>The two types read before the loop are not used.\<close>

primrec types_match :: "btf_chain \<Rightarrow> btf_chain \<Rightarrow> nat \<Rightarrow> bool \<Rightarrow> type_cmp" where
  "types_match l t 0 = (\<lambda>behind_ptr local_id targ_id. Inr (- EINVAL))"
| "types_match l t (Suc level) = (\<lambda>behind_ptr local_id targ_id.
     bindR (btf_type_by_id l (unat local_id)) (\<lambda>_. bindR (btf_type_by_id t (unat targ_id)) (\<lambda>_.
       match_loop l t (types_match l t level) 32 behind_ptr local_id targ_id)))"

definition bpf_core_types_match :: "btf_chain \<Rightarrow> u32 \<Rightarrow> btf_chain \<Rightarrow> u32 \<Rightarrow> fault + int" where
  "bpf_core_types_match l local_id t targ_id = types_match l t 32 False local_id targ_id"

section \<open>The walk over modifiers ends or never ends\<close>

text \<open>The ids a walk passes through, as long as it goes on.\<close>

definition skip_next :: "btf_chain \<Rightarrow> u32 \<Rightarrow> u32 option" where
  "skip_next c tid = (case type_of_id c tid of Inl _ \<Rightarrow> None | Inr t \<Rightarrow> if skipped t then Some (bt_type t) else None)"

lemma skip_loop_walk:
  "skip_loop c n tid = Inl No_Return \<longleftrightarrow> (\<exists>y. walk (skip_next c) n tid = Some y)"
  if "\<And>tid. type_of_id c tid \<noteq> Inl No_Return"
proof (induction n arbitrary: tid)
  case (Suc n)
  show ?case using Suc that [of tid] by (cases "type_of_id c tid") (auto simp: skip_next_def)
qed simp

lemma type_by_id_fault: "btf_type_by_id c i \<noteq> Inl No_Return"
  by (induction c) auto

lemma type_of_id_fault: "type_of_id c tid \<noteq> Inl No_Return"
proof -
  have "type_of_id c tid = (if unat tid \<ge> btf__type_cnt c then Inl Out_Of_Bounds else btf_type_by_id c (unat tid))"
    by (cases "btf_type_by_id c (unat tid)") (simp_all add: type_of_id_def btf__type_by_id_def)
  then show ?thesis by (simp add: type_by_id_fault)
qed

lemma skip_next_dom: "skip_next c tid = Some y \<Longrightarrow> tid \<in> {t. unat t < btf__type_cnt c}"
  by (auto simp: skip_next_def type_of_id_def btf__type_by_id_def split: sum.splits if_splits)

lemma skip_never_returns:
  assumes "skip_mods_and_typedefs c tid = Inl No_Return"
  shows "skip_loop c n tid = Inl No_Return"
proof -
  let ?S = "{t :: u32. unat t < btf__type_cnt c}"
  obtain y where y: "walk (skip_next c) (Suc (btf__type_cnt c)) tid = Some y"
    using assms skip_loop_walk [OF type_of_id_fault] unfolding skip_mods_and_typedefs_def by blast
  then obtain z where "walk (skip_next c) (Suc (card ?S)) tid = Some z" using walk_prefix card_ids [of "btf__type_cnt c"] by (meson Suc_le_mono)
  then have "\<exists>z. walk (skip_next c) n tid = Some z" using walk_forever [of ?S "skip_next c"] card_ids skip_next_dom by metis
  then show ?thesis using skip_loop_walk [OF type_of_id_fault] by blast
qed

lemma skip_loop_stable:
  assumes "skip_loop c n tid \<noteq> Inl No_Return" "n \<le> m"
  shows "skip_loop c m tid = skip_loop c n tid"
  using assms
proof (induction n arbitrary: tid m)
  case (Suc n)
  then obtain m' where m: "m = Suc m'" "n \<le> m'" by (cases m) auto
  show ?case using Suc.IH [OF _ m(2)] Suc.prems(1) m(1) by (cases "type_of_id c tid") auto
qed simp

text \<open>What the walk ends at is no modifier and no typedef.\<close>

lemma skip_result: "skip_loop c n tid = Inr (rid, t) \<Longrightarrow> type_of_id c rid = Inr t \<and> \<not> skipped t"
  by (induction n arbitrary: tid) (auto split: if_splits)

section \<open>Symmetry\<close>

lemma core_compat_sym: "btf_kind_core_compat t1 t2 \<longleftrightarrow> btf_kind_core_compat t2 t1"
  by (auto simp: btf_kind_core_compat_def)

definition swapped_cmp :: "type_cmp option \<Rightarrow> type_cmp option \<Rightarrow> bool" where
  "swapped_cmp f g \<longleftrightarrow> (case (f, g) of (None, None) \<Rightarrow> True
     | (Some f, Some g) \<Rightarrow> (\<forall>a b r. f a b = Inr r \<longleftrightarrow> g b a = Inr r) | _ \<Rightarrow> False)"

lemma compat_params_sym:
  assumes "swapped_cmp f g"
  shows "compat_params l t f ps = Inr r \<longleftrightarrow> compat_params t l g (map prod.swap ps) = Inr r"
proof (induction ps)
  case (Cons p ps)
  obtain lp tp where p: "p = (lp, tp)" by fastforce
  show ?case
  proof (cases f)
    case None
    then show ?thesis using assms p by (cases g) (simp_all add: swapped_cmp_def)
  next
    case (Some f')
    then obtain g' where g: "g = Some g'" "\<And>a b r. f' a b = Inr r \<longleftrightarrow> g' b a = Inr r" using assms by (cases g) (auto simp: swapped_cmp_def)
    show ?thesis using Cons Some g p by (auto split: if_splits)
  qed
qed simp

lemma zip_swap: "map prod.swap (zip xs ys) = zip ys xs"
  by (induction xs ys rule: list_induct2') simp_all

lemma compat_loop_flat:
  assumes "skip_mods_and_typedefs l a = Inr (i, u)" "skip_mods_and_typedefs t b = Inr (j, v)" "btf_kind_core_compat u v"
    "btf_kind u \<in> {BTF_KIND_UNKN, BTF_KIND_STRUCT, BTF_KIND_UNION, BTF_KIND_ENUM, BTF_KIND_FWD, BTF_KIND_ENUM64}"
  shows "compat_loop l t f (Suc d) a b = Inr 1"
  unfolding compat_loop.simps assms(1,2) bindR.simps prod.case Let_def using assms(3,4) by (simp only: if_True if_False not_True_eq_False)

lemma compat_loop_sym:
  assumes "swapped_cmp f g"
  shows "compat_loop l t f d a b = Inr r \<longleftrightarrow> compat_loop t l g d b a = Inr r"
proof (induction d arbitrary: a b)
  case (Suc d)
  show ?case
  proof (cases "skip_mods_and_typedefs l a")
    case (Inl e)
    then show ?thesis by (cases "skip_mods_and_typedefs t b") auto
  next
    case (Inr x)
    obtain i u where x: "x = (i, u)" by fastforce
    show ?thesis
    proof (cases "skip_mods_and_typedefs t b")
      case (Inl e)
      then show ?thesis using Inr x by auto
    next
      case Inr2: (Inr y)
      obtain j v where y: "y = (j, v)" by fastforce
      show ?thesis
      proof (cases "btf_kind u = btf_kind v")
        case False
        show ?thesis
        proof (cases "btf_kind_core_compat u v")
          case c: True
          then have k: "btf_kind u \<in> {BTF_KIND_ENUM, BTF_KIND_ENUM64}" "btf_kind v \<in> {BTF_KIND_ENUM, BTF_KIND_ENUM64}"
            using False by (auto simp: btf_kind_core_compat_def btf_is_any_enum_def btf_is_enum_def btf_is_enum64_def)
          have "compat_loop l t f (Suc d) a b = Inr 1"
            by (rule compat_loop_flat [OF Inr [unfolded x] Inr2 [unfolded y] c]) (use k in blast)
          moreover have "compat_loop t l g (Suc d) b a = Inr 1"
            by (rule compat_loop_flat [OF Inr2 [unfolded y] Inr [unfolded x] c [unfolded core_compat_sym [of u v]]]) (use k in blast)
          ultimately show ?thesis by (simp only:)
        next
          case c: False
          then show ?thesis unfolding compat_loop.simps Inr Inr2 x y bindR.simps prod.case Let_def core_compat_sym [of v u]
            by (simp only: if_True not_False_eq_True)
        qed
      next
        case True
        have ps: "compat_params l t f (zip (btf_params u) (btf_params v)) = Inr r' \<longleftrightarrow>
            compat_params t l g (zip (btf_params v) (btf_params u)) = Inr r'" for r'
          using compat_params_sym [OF assms, of l t "zip (btf_params u) (btf_params v)" r'] by (simp add: zip_swap)
        have kc: "btf_kind_core_compat u v" "btf_kind_core_compat v u" using True by (simp_all add: btf_kind_core_compat_def)
        show ?thesis
        proof (cases "btf_kind v = BTF_KIND_FUNC_PROTO")
          case fp: True
          let ?L = "\<lambda>f l t u v. bindR (compat_params l t f (zip (btf_params u) (btf_params v))) (\<lambda>err. if err \<le> 0 then Inr err
            else bindR (skip_mods_and_typedefs l (bt_type u)) (\<lambda>(local_id, _). bindR (skip_mods_and_typedefs t (bt_type v)) (\<lambda>(targ_id, _).
              compat_loop l t f d local_id targ_id)))"
          have "?L f l t u v = Inr r \<longleftrightarrow> ?L g t l v u = Inr r"
            using ps Suc.IH by (auto split: if_splits)
          then show ?thesis using fp True Inr Inr2 x y kc by (simp add: Let_def btf_kinds)
        next
          case False
          then show ?thesis using True kc Suc.IH [of "bt_type u" "bt_type v"] Suc.IH [of "ar_type (btf_array u)" "ar_type (btf_array v)"]
            unfolding compat_loop.simps Inr Inr2 x y by (simp add: Let_def conj_commute)
        qed
      qed
    qed
  qed
qed simp

lemma compat_entry_sym:
  assumes "swapped_cmp f g"
  shows "compat_entry l t f a b = Inr r \<longleftrightarrow> compat_entry t l g b a = Inr r"
proof (cases "btf_type_by_id l (unat a)")
  case (Inl e)
  then show ?thesis by (auto simp: compat_entry_def)
next
  case u: (Inr u)
  show ?thesis
  proof (cases "btf_type_by_id t (unat b)")
    case (Inl e)
    then show ?thesis using u by (simp add: compat_entry_def)
  next
    case (Inr v)
    show ?thesis unfolding compat_entry_def u Inr bindR.simps core_compat_sym [of v u]
      using compat_loop_sym [OF assms, of l t 32 a b r] by (cases "btf_kind_core_compat u v") (simp_all only: if_True if_False not_True_eq_False not_False_eq_True)
  qed
qed

lemma types_are_compat_sym:
  "types_are_compat l t n a b = Inr r \<longleftrightarrow> types_are_compat t l n b a = Inr r"
proof (induction n arbitrary: a b r)
  case 0
  have "swapped_cmp None None" by (simp add: swapped_cmp_def)
  then show ?case unfolding types_are_compat.simps by (rule compat_entry_sym)
next
  case (Suc n)
  then have "swapped_cmp (Some (types_are_compat l t n)) (Some (types_are_compat t l n))" by (simp add: swapped_cmp_def)
  then show ?case unfolding types_are_compat.simps by (rule compat_entry_sym)
qed

section \<open>Names without flavor\<close>

lemma essential_loop_cases:
  "essential_loop n s = length s \<and> (\<forall>i<n. \<not> bpf_core_is_flavor_sep s i) \<or>
   (\<exists>i<n. essential_loop n s = i + 1 \<and> bpf_core_is_flavor_sep s i \<and> (\<forall>j<n. i < j \<longrightarrow> \<not> bpf_core_is_flavor_sep s j))"
  by (induction n) (auto simp: less_Suc_eq)

lemma essential_len_le: "bpf_core_essential_name_len s \<le> length s"
  using essential_loop_cases [of "length s - 4" s] by (auto simp: bpf_core_essential_name_len_def)

lemma flavor_sep_bound: "bpf_core_is_flavor_sep s i \<Longrightarrow> i + 3 < length s"
  by (auto simp: bpf_core_is_flavor_sep_def byte_of_def underscore_def split: if_splits)

lemma same_essential_iff: "same_essential s t \<longleftrightarrow> essential_name s = essential_name t"
proof
  assume "essential_name s = essential_name t"
  then have "length (essential_name s) = length (essential_name t)" by simp
  then have "bpf_core_essential_name_len s = bpf_core_essential_name_len t"
    using essential_len_le [of s] essential_len_le [of t] by (simp add: essential_name_def)
  then show "same_essential s t" using \<open>essential_name s = essential_name t\<close> by (simp add: same_essential_def strncmp_eq_def essential_name_def)
qed (simp add: same_essential_def strncmp_eq_def essential_name_def)

lemma skip_loop_path:
  assumes "skip_loop c n tid = Inr (rid, t)"
  shows "\<exists>k<n. walk (skip_next c) k tid = Some rid"
  using assms
proof (induction n arbitrary: tid)
  case (Suc n)
  obtain u where u: "type_of_id c tid = Inr u" using Suc.prems by auto
  show ?case
  proof (cases "skipped u")
    case True
    then obtain k where "k < n" "walk (skip_next c) k (bt_type u) = Some rid" using Suc u by auto
    moreover have "skip_next c tid = Some (bt_type u)" using True u by (simp add: skip_next_def)
    ultimately show ?thesis by (intro exI [of _ "Suc k"]) simp
  next
    case False
    then show ?thesis using Suc.prems u by (intro exI [of _ 0]) simp
  qed
qed simp

section \<open>Properties\<close>

text \<open>
  Skipping modifiers and typedefs, over any table of types, a damaged one included. The model's bound of one
  round more than there are types decides the walk: when it gives a type, that type is no modifier and no
  typedef, it is reached by following the references, and no larger bound changes the result; a read outside
  of the table stays one; and when it does not give a result, the loop of the code never ends.
\<close>

theorem skip_mods_ends_or_never_does:
  "case skip_mods_and_typedefs c tid of
     Inr (rid, t) \<Rightarrow> type_of_id c rid = Inr t \<and> \<not> skipped t \<and> (\<exists>k. walk (skip_next c) k tid = Some rid) \<and>
       (\<forall>n. skip_loop c (btf__type_cnt c + 1 + n) tid = Inr (rid, t))
   | Inl f \<Rightarrow> if f = No_Return then \<forall>n. skip_loop c n tid = Inl No_Return
       else \<forall>n. skip_loop c (btf__type_cnt c + 1 + n) tid = Inl f"
proof -
  let ?N = "btf__type_cnt c"
  have stable: "skip_loop c (?N + 1 + n) tid = skip_loop c (Suc ?N) tid" if "skip_loop c (Suc ?N) tid \<noteq> Inl No_Return" for n
    by (rule skip_loop_stable [OF that]) simp
  show ?thesis
  proof (cases "skip_loop c (Suc ?N) tid")
    case (Inl f)
    then show ?thesis using stable skip_never_returns [of c tid] unfolding skip_mods_and_typedefs_def by (simp del: skip_loop.simps)
  next
    case (Inr x)
    obtain rid t where x: "x = (rid, t)" by fastforce
    show ?thesis using stable Inr x skip_result [of c "Suc ?N" tid rid t] skip_loop_path [of c "Suc ?N" tid rid t]
      unfolding skip_mods_and_typedefs_def by (auto simp del: skip_loop.simps)
  qed
qed

text \<open>
  Compatibility of types is symmetric: comparing the target with the local type gives the same verdict, the
  same error included, as comparing the local type with the target.
\<close>

theorem core_types_compat_symmetric:
  "bpf_core_types_are_compat l a t b = Inr r \<longleftrightarrow> bpf_core_types_are_compat t b l a = Inr r"
  unfolding bpf_core_types_are_compat_def by (rule types_are_compat_sym)

end
