(* ===== verification/Core_Spec.thy ===== *)
theory Core_Spec
  imports Core_Types
begin

text \<open>
  Access specifications of CO-RE relocations (\<open>libbpf/src/relo_core.c\<close>): the access string of a relocation is
  parsed against the local type, and the specification is matched against a candidate type of the target.
\<close>

section \<open>Relocations and specifications\<close>

text \<open>The kind is read from the object file; a value outside the enumeration is \<open>Other_Kind\<close>.\<close>

datatype bpf_core_relo_kind =
    BPF_CORE_FIELD_BYTE_OFFSET | BPF_CORE_FIELD_BYTE_SIZE | BPF_CORE_FIELD_EXISTS | BPF_CORE_FIELD_SIGNED
  | BPF_CORE_FIELD_LSHIFT_U64 | BPF_CORE_FIELD_RSHIFT_U64 | BPF_CORE_TYPE_ID_LOCAL | BPF_CORE_TYPE_ID_TARGET
  | BPF_CORE_TYPE_EXISTS | BPF_CORE_TYPE_SIZE | BPF_CORE_ENUMVAL_EXISTS | BPF_CORE_ENUMVAL_VALUE | BPF_CORE_TYPE_MATCHES
  | Other_Kind u32

record bpf_core_relo =
  ro_insn_off :: u32
  ro_type_id :: u32
  ro_access_str_off :: u32
  ro_kind :: bpf_core_relo_kind

record bpf_core_accessor =
  ac_type_id :: u32
  ac_idx :: u32
  ac_name :: "u8 list option"

definition BPF_CORE_SPEC_MAX_LEN :: nat where "BPF_CORE_SPEC_MAX_LEN = 64"

text \<open>The two arrays with their lengths are lists.\<close>

record bpf_core_spec =
  sp_btf :: btf_chain
  sp_spec :: "bpf_core_accessor list"
  sp_root_type_id :: u32
  sp_relo_kind :: bpf_core_relo_kind
  sp_raw_spec :: "int list"
  sp_bit_offset :: u32

definition core_relo_is_field_based :: "bpf_core_relo_kind \<Rightarrow> bool" where
  "core_relo_is_field_based k \<longleftrightarrow> k \<in> {BPF_CORE_FIELD_BYTE_OFFSET, BPF_CORE_FIELD_BYTE_SIZE, BPF_CORE_FIELD_EXISTS,
     BPF_CORE_FIELD_SIGNED, BPF_CORE_FIELD_LSHIFT_U64, BPF_CORE_FIELD_RSHIFT_U64}"

definition core_relo_is_type_based :: "bpf_core_relo_kind \<Rightarrow> bool" where
  "core_relo_is_type_based k \<longleftrightarrow> k \<in> {BPF_CORE_TYPE_ID_LOCAL, BPF_CORE_TYPE_ID_TARGET, BPF_CORE_TYPE_EXISTS,
     BPF_CORE_TYPE_MATCHES, BPF_CORE_TYPE_SIZE}"

definition core_relo_is_enumval_based :: "bpf_core_relo_kind \<Rightarrow> bool" where
  "core_relo_is_enumval_based k \<longleftrightarrow> k \<in> {BPF_CORE_ENUMVAL_EXISTS, BPF_CORE_ENUMVAL_VALUE}"

text \<open>The index is compared with \<open>vlen - 1\<close> as an unsigned number.\<close>

definition is_flex_arr :: "btf_chain \<Rightarrow> bpf_core_accessor \<Rightarrow> btf_array \<Rightarrow> fault + bool" where
  "is_flex_arr c acc arr =
     (if ac_name acc = None \<or> ar_nelems arr > 0 then Inr False
      else bindR (btf_type_by_id c (unat (ac_type_id acc))) (\<lambda>t. Inr (ac_idx acc = of_nat (btf_vlen t) - 1)))"

definition liftF :: "fault + 'a \<Rightarrow> err + 'a" where
  "liftF r = (case r of Inl f \<Rightarrow> Inl (Fault f) | Inr x \<Rightarrow> Inr x)"

section \<open>The access string\<close>

definition is_digit :: "u8 \<Rightarrow> bool" where "is_digit c \<longleftrightarrow> 48 \<le> c \<and> c \<le> 57"
definition is_space :: "u8 \<Rightarrow> bool" where "is_space c \<longleftrightarrow> c = 32 \<or> 9 \<le> c \<and> c \<le> 13"

definition digits_value :: "u8 list \<Rightarrow> int" where
  "digits_value ds = foldl (\<lambda>n d. 10 * n + (uint d - 48)) 0 ds"

definition after_sign :: "u8 list \<Rightarrow> u8 list" where
  "after_sign s = (if s \<noteq> [] \<and> (hd s = 45 \<or> hd s = 43) then tl s else s)"

text \<open>
  \<open>sscanf(s, "%d%n", ...)\<close>: the number and the rest of the string, \<open>None\<close> when there is no number. A number that
  does not fit \<open>int\<close> has no defined result.
\<close>

definition sscanf_d :: "u8 list \<Rightarrow> fault + (int \<times> u8 list) option" where
  "sscanf_d s =
     (let s1 = dropWhile is_space s;
          ds = takeWhile is_digit (after_sign s1);
          v = (if s1 \<noteq> [] \<and> hd s1 = 45 then - digits_value ds else digits_value ds)
      in if ds = [] then Inr None
         else if v < - 2147483648 \<or> v > INT_MAX then Inl Indeterminate
         else Inr (Some (v, dropWhile is_digit (after_sign s1))))"

definition colon :: u8 where "colon = 58"

lemma sscanf_shorter:
  assumes "sscanf_d s = Inr (Some (v, rest))"
  shows "length rest < length s"
proof -
  let ?s2 = "after_sign (dropWhile is_space s)"
  have r: "rest = dropWhile is_digit ?s2" "takeWhile is_digit ?s2 \<noteq> []"
    using assms unfolding sscanf_d_def Let_def by (simp_all only: split: if_splits) auto
  have "length rest + length (takeWhile is_digit ?s2) = length ?s2"
    unfolding r(1) by (metis add.commute length_append takeWhile_dropWhile_id)
  moreover have "length ?s2 \<le> length s" using length_dropWhile_le [of is_space s] by (auto simp: after_sign_def)
  ultimately show ?thesis using r(2) by (cases "takeWhile is_digit ?s2") auto
qed

function parse_raw :: "u8 list \<Rightarrow> int list \<Rightarrow> err + int list" where
  "parse_raw s raw =
     (if s = [] then Inr raw
      else case sscanf_d (if hd s = colon then tl s else s) of
        Inl f \<Rightarrow> Inl (Fault f)
      | Inr None \<Rightarrow> Inl (Errno (- EINVAL))
      | Inr (Some (access_idx, rest)) \<Rightarrow>
          if length raw = BPF_CORE_SPEC_MAX_LEN then Inl (Errno (- E2BIG)) else parse_raw rest (raw @ [access_idx]))"
  by pat_completeness auto
termination
proof (relation "measure (\<lambda>(s, raw). length s)", goal_cases)
  case (2 s raw x2 y access_idx rest)
  then have "length rest < length (if hd s = colon then tl s else s)" by (intro sscanf_shorter [of _ access_idx]) auto
  then show ?case using 2(1) by (auto split: if_splits)
qed simp

declare parse_raw.simps [simp del]

text \<open>An index times a size in 64 signed bits, then in the 32 bits of the offset.\<close>

definition elem_bits :: "int \<Rightarrow> int \<Rightarrow> fault + u32" where
  "elem_bits idx sz = (let v = idx * sz * 8 in if v < - (2 ^ 63) \<or> v \<ge> 2 ^ 63 then Inl Signed_Overflow else Inr (of_int v))"

text \<open>
  The loop over the indices after the first. A negative index of a member passes the comparison with
  the number of members and reads outside the type.
\<close>

fun parse_steps :: "btf_chain \<Rightarrow> int list \<Rightarrow> u32 \<Rightarrow> bpf_core_spec \<Rightarrow> err + bpf_core_spec" where
  "parse_steps c [] tid spec = Inr spec"
| "parse_steps c (access_idx # rest) tid spec =
     bindR (liftF (skip_mods_and_typedefs c tid)) (\<lambda>(tid, t).
       if btf_is_composite t then
         if access_idx \<ge> int (btf_vlen t) then Inl (Errno (- EINVAL))
         else if access_idx < 0 then Inl (Fault Out_Of_Bounds)
         else
          (let m = btf_members t ! nat access_idx;
               spec = spec\<lparr>sp_bit_offset := sp_bit_offset spec + btf_member_bit_offset t (nat access_idx)\<rparr>
           in if mb_name_off m \<noteq> 0 then
                bindR (liftF (btf__name_by_offset c (mb_name_off m))) (\<lambda>name.
                  if str_is_empty name then Inl (Errno (- EINVAL))
                  else parse_steps c rest (mb_type m)
                    (spec\<lparr>sp_spec := sp_spec spec @ [\<lparr>ac_type_id = tid, ac_idx = of_int access_idx, ac_name = name\<rparr>]\<rparr>))
              else parse_steps c rest (mb_type m) spec)
       else if btf_is_array t then
         bindR (liftF (skip_mods_and_typedefs c (ar_type (btf_array t)))) (\<lambda>(tid, _).
         bindR (liftF (is_flex_arr c (last (sp_spec spec)) (btf_array t))) (\<lambda>flex.
           if \<not> flex \<and> (of_int access_idx :: u32) \<ge> ar_nelems (btf_array t) then Inl (Errno (- EINVAL))
           else bindR (btf__resolve_size c tid) (\<lambda>sz.
                bindR (liftF (elem_bits access_idx sz)) (\<lambda>bits.
                  parse_steps c rest tid (spec\<lparr>sp_spec := sp_spec spec @ [\<lparr>ac_type_id = tid, ac_idx = of_int access_idx, ac_name = None\<rparr>],
                    sp_bit_offset := sp_bit_offset spec + bits\<rparr>)))))
       else Inl (Errno (- EINVAL)))"

definition bpf_core_parse_spec :: "btf_chain \<Rightarrow> bpf_core_relo \<Rightarrow> err + bpf_core_spec" where
  "bpf_core_parse_spec c relo =
     bindR (liftF (btf__name_by_offset c (ro_access_str_off relo))) (\<lambda>spec_str.
       if str_is_empty spec_str \<or> hd (the spec_str) = colon then Inl (Errno (- EINVAL))
       else
        (let spec = \<lparr>sp_btf = c, sp_spec = [], sp_root_type_id = ro_type_id relo, sp_relo_kind = ro_kind relo,
               sp_raw_spec = [], sp_bit_offset = 0\<rparr> in
         if core_relo_is_type_based (ro_kind relo) then
           if the spec_str \<noteq> [48] then Inl (Errno (- EINVAL)) else Inr spec
         else bindR (parse_raw (the spec_str) []) (\<lambda>raw.
           if raw = [] then Inl (Errno (- EINVAL))
           else bindR (liftF (skip_mods_and_typedefs c (ro_type_id relo))) (\<lambda>(tid, t).
             let access_idx = hd raw;
                 spec = spec\<lparr>sp_raw_spec := raw, sp_spec := [\<lparr>ac_type_id = tid, ac_idx = of_int access_idx, ac_name = None\<rparr>]\<rparr>
             in if core_relo_is_enumval_based (ro_kind relo) then
                  if \<not> btf_is_any_enum t \<or> length raw > 1 \<or> access_idx \<ge> int (btf_vlen t) then Inl (Errno (- EINVAL))
                  else if access_idx < 0 then Inl (Fault Out_Of_Bounds)
                  else bindR (liftF (btf__name_by_offset c (enum_names t ! nat access_idx))) (\<lambda>name.
                    Inr (spec\<lparr>sp_spec := [\<lparr>ac_type_id = tid, ac_idx = of_int access_idx, ac_name = name\<rparr>]\<rparr>))
                else if \<not> core_relo_is_field_based (ro_kind relo) then Inl (Errno (- EINVAL))
                else bindR (btf__resolve_size c tid) (\<lambda>sz.
                     bindR (liftF (elem_bits access_idx sz)) (\<lambda>bits.
                       parse_steps c (tl raw) tid (spec\<lparr>sp_bit_offset := bits\<rparr>)))))))"

section \<open>Matching a specification\<close>

text \<open>
  The search for a member. It descends into unnamed members; the specification is changed on the way and
  restored when a member is not the one. When a member of the name is found but its type is not compatible,
  only the accessor is taken back. The result is 1, 0 or an error, the specification and the type of the member.
\<close>

type_synonym member_result = "fault + (int \<times> bpf_core_spec \<times> u32 option)"

fun member_search ::
  "btf_chain \<Rightarrow> btf_member \<Rightarrow> u8 list option \<Rightarrow> btf_chain \<Rightarrow> (u32 \<Rightarrow> bpf_core_spec \<Rightarrow> member_result) \<Rightarrow> u32 \<Rightarrow> btf_type \<Rightarrow>
     nat \<Rightarrow> btf_member list \<Rightarrow> bpf_core_spec \<Rightarrow> member_result" where
  "member_search l local_member local_name t rec targ_id targ_type i [] spec = Inr (0, spec, None)"
| "member_search l local_member local_name t rec targ_id targ_type i (m # ms) spec =
     (let bit_offset = btf_member_bit_offset targ_type i;
          undo = (\<lambda>s. s\<lparr>sp_bit_offset := sp_bit_offset s - bit_offset, sp_raw_spec := butlast (sp_raw_spec s)\<rparr>)
      in if length (sp_raw_spec spec) = BPF_CORE_SPEC_MAX_LEN then Inr (- E2BIG, spec, None)
      else
       (let spec = spec\<lparr>sp_bit_offset := sp_bit_offset spec + bit_offset, sp_raw_spec := sp_raw_spec spec @ [int i]\<rparr> in
        bindR (btf__name_by_offset t (mb_name_off m)) (\<lambda>targ_name.
          if str_is_empty targ_name then
            bindR (rec (mb_type m) spec) (\<lambda>(found, spec, next_id).
              if found \<noteq> 0 then Inr (found, spec, next_id)
              else member_search l local_member local_name t rec targ_id targ_type (i + 1) ms (undo spec))
          else (case local_name of
              None \<Rightarrow> Inl Out_Of_Bounds
            | Some name \<Rightarrow>
                if name = the targ_name then
                 (let acc = \<lparr>ac_type_id = targ_id, ac_idx = of_nat i, ac_name = targ_name\<rparr> in
                  bindR (bpf_core_fields_are_compat l (mb_type local_member) t (mb_type m)) (\<lambda>found.
                    Inr (found, if found = 0 then spec else spec\<lparr>sp_spec := sp_spec spec @ [acc]\<rparr>, Some (mb_type m))))
                else member_search l local_member local_name t rec targ_id targ_type (i + 1) ms (undo spec)))))"

fun match_member :: "btf_chain \<Rightarrow> bpf_core_accessor \<Rightarrow> btf_chain \<Rightarrow> nat \<Rightarrow> u32 \<Rightarrow> bpf_core_spec \<Rightarrow> member_result" where
  "match_member l local_acc t 0 targ_id spec = Inl No_Return"
| "match_member l local_acc t (Suc n) targ_id spec =
     bindR (skip_mods_and_typedefs t targ_id) (\<lambda>(targ_id, targ_type).
       if \<not> btf_is_composite targ_type then Inr (0, spec, None)
       else bindR (btf_type_by_id l (unat (ac_type_id local_acc))) (\<lambda>local_type.
         if unat (ac_idx local_acc) \<ge> btf_vlen local_type then Inl Out_Of_Bounds
         else
          (let local_member = btf_members local_type ! unat (ac_idx local_acc) in
           bindR (btf__name_by_offset l (mb_name_off local_member)) (\<lambda>local_name.
             member_search l local_member local_name t (match_member l local_acc t n) targ_id targ_type 0
               (btf_members targ_type) spec))))"

text \<open>Every level of nesting adds an index, and there is room for 64.\<close>

definition bpf_core_match_member :: "btf_chain \<Rightarrow> bpf_core_accessor \<Rightarrow> btf_chain \<Rightarrow> u32 \<Rightarrow> bpf_core_spec \<Rightarrow> member_result" where
  "bpf_core_match_member l local_acc t targ_id spec = match_member l local_acc t (BPF_CORE_SPEC_MAX_LEN + 1) targ_id spec"

fun enumval_search :: "btf_chain \<Rightarrow> u8 list \<Rightarrow> u32 \<Rightarrow> nat \<Rightarrow> u32 list \<Rightarrow> bpf_core_spec \<Rightarrow> fault + (int \<times> bpf_core_spec)" where
  "enumval_search t local_name targ_id i [] spec = Inr (0, spec)"
| "enumval_search t local_name targ_id i (name_off # offs) spec =
     bindR (named_at t name_off) (\<lambda>targ_name.
       if same_essential local_name targ_name then
         Inr (1, spec\<lparr>sp_spec := sp_spec spec @ [\<lparr>ac_type_id = targ_id, ac_idx = of_nat i, ac_name = Some targ_name\<rparr>],
           sp_raw_spec := sp_raw_spec spec @ [int i]\<rparr>)
       else enumval_search t local_name targ_id (i + 1) offs spec)"

text \<open>The size is stored in an \<open>int\<close>; the product is one of unsigned 32-bit numbers.\<close>

definition size_as_int :: "btf_chain \<Rightarrow> u32 \<Rightarrow> fault + int" where
  "size_as_int c tid = (case btf__resolve_size c tid of Inl (Errno e) \<Rightarrow> Inr e | Inl (Fault f) \<Rightarrow> Inl f
     | Inr sz \<Rightarrow> Inr (sint (of_int sz :: u32)))"

fun field_steps :: "btf_chain \<Rightarrow> btf_chain \<Rightarrow> bool \<Rightarrow> bpf_core_accessor list \<Rightarrow> u32 \<Rightarrow> bpf_core_spec \<Rightarrow> fault + (int \<times> bpf_core_spec)" where
  "field_steps l t first [] targ_id spec = Inr (1, spec)"
| "field_steps l t first (local_acc # accs) targ_id spec =
     bindR (skip_mods_and_typedefs t targ_id) (\<lambda>(targ_id, targ_type).
       if ac_name local_acc \<noteq> None then
         bindR (bpf_core_match_member l local_acc t targ_id spec) (\<lambda>(matched, spec, next_id).
           if matched \<le> 0 then Inr (matched, spec) else field_steps l t False accs (the next_id) spec)
       else
         bindR (if first then Inr (Some targ_id)
                else if \<not> btf_is_array targ_type then Inr None
                else bindR (is_flex_arr t (last (sp_spec spec)) (btf_array targ_type)) (\<lambda>flex.
                  if \<not> flex \<and> ac_idx local_acc \<ge> ar_nelems (btf_array targ_type) then Inr None
                  else bindR (skip_mods_and_typedefs t (ar_type (btf_array targ_type))) (\<lambda>(tid, _). Inr (Some tid))))
           (\<lambda>elem. case elem of None \<Rightarrow> Inr (0, spec)
             | Some targ_id \<Rightarrow>
                 if length (sp_raw_spec spec) = BPF_CORE_SPEC_MAX_LEN then Inr (- E2BIG, spec)
                 else
                  (let spec = spec\<lparr>sp_spec := sp_spec spec @ [\<lparr>ac_type_id = targ_id, ac_idx = ac_idx local_acc, ac_name = None\<rparr>],
                         sp_raw_spec := sp_raw_spec spec @ [sint (ac_idx local_acc)]\<rparr> in
                   bindR (size_as_int t targ_id) (\<lambda>sz.
                     if sz < 0 then Inr (sz, spec)
                     else field_steps l t False accs targ_id
                       (spec\<lparr>sp_bit_offset := sp_bit_offset spec + ac_idx local_acc * of_int sz * 8\<rparr>)))))"

definition bpf_core_spec_match :: "bpf_core_spec \<Rightarrow> btf_chain \<Rightarrow> u32 \<Rightarrow> fault + (int \<times> bpf_core_spec)" where
  "bpf_core_spec_match local_spec t targ_id =
     (let spec = \<lparr>sp_btf = t, sp_spec = [], sp_root_type_id = targ_id, sp_relo_kind = sp_relo_kind local_spec,
            sp_raw_spec = [], sp_bit_offset = 0\<rparr>;
          l = sp_btf local_spec; kind = sp_relo_kind local_spec
      in if core_relo_is_type_based kind then
           if kind = BPF_CORE_TYPE_MATCHES
           then bindR (bpf_core_types_match l (sp_root_type_id local_spec) t targ_id) (\<lambda>r. Inr (r, spec))
           else bindR (bpf_core_types_are_compat l (sp_root_type_id local_spec) t targ_id) (\<lambda>r. Inr (r, spec))
         else if core_relo_is_enumval_based kind then
           bindR (skip_mods_and_typedefs t targ_id) (\<lambda>(targ_id, targ_type).
             if \<not> btf_is_any_enum targ_type then Inr (0, spec)
             else (case sp_spec local_spec of [] \<Rightarrow> Inl Out_Of_Bounds | acc # _ \<Rightarrow>
               (case ac_name acc of None \<Rightarrow> Inl Out_Of_Bounds
                | Some local_name \<Rightarrow> enumval_search t local_name targ_id 0 (enum_names targ_type) spec)))
         else if \<not> core_relo_is_field_based kind then Inr (- EINVAL, spec)
         else field_steps l t True (sp_spec local_spec) targ_id spec)"

section \<open>The depth of the search\<close>

text \<open>A search never leaves the specification with fewer raw indices, or with more than there is room for.\<close>

abbreviation raw_len :: "bpf_core_spec \<Rightarrow> nat" where
  "raw_len s \<equiv> length (sp_raw_spec s)"

definition keeps_len :: "(u32 \<Rightarrow> bpf_core_spec \<Rightarrow> member_result) \<Rightarrow> bool" where
  "keeps_len rec \<longleftrightarrow> (\<forall>tid s f s' n. raw_len s \<le> 64 \<longrightarrow> rec tid s = Inr (f, s', n) \<longrightarrow> raw_len s \<le> raw_len s' \<and> raw_len s' \<le> 64)"

lemma member_search_len:
  assumes "keeps_len rec" "raw_len spec \<le> 64"
    "member_search l m nm t rec tid ty i ms spec = Inr (f, s', n)"
  shows "raw_len spec \<le> raw_len s' \<and> raw_len s' \<le> 64"
  using assms(2,3)
proof (induction ms arbitrary: i spec)
  case (Cons x ms)
  let ?s = "spec\<lparr>sp_bit_offset := sp_bit_offset spec + btf_member_bit_offset ty i, sp_raw_spec := sp_raw_spec spec @ [int i]\<rparr>"
  show ?case
  proof (cases "raw_len spec = 64")
    case True
    then show ?thesis using Cons.prems by (auto simp: BPF_CORE_SPEC_MAX_LEN_def)
  next
    case False
    then have lt: "raw_len ?s = raw_len spec + 1" "raw_len ?s \<le> 64" using Cons.prems(1) by auto
    obtain tn where tn: "btf__name_by_offset t (mb_name_off x) = Inr tn"
      using Cons.prems(2) False by (auto simp: Let_def BPF_CORE_SPEC_MAX_LEN_def)
    show ?thesis
    proof (cases "str_is_empty tn")
      case e: True
      obtain f1 s1 n1 where r: "rec (mb_type x) ?s = Inr (f1, s1, n1)"
        using Cons.prems(2) False tn e by (auto simp: Let_def BPF_CORE_SPEC_MAX_LEN_def)
      then have b: "raw_len ?s \<le> raw_len s1 \<and> raw_len s1 \<le> 64" using assms(1) lt(2) unfolding keeps_len_def by blast
      show ?thesis
      proof (cases "f1 = 0")
        case True
        let ?u = "s1\<lparr>sp_bit_offset := sp_bit_offset s1 - btf_member_bit_offset ty i, sp_raw_spec := butlast (sp_raw_spec s1)\<rparr>"
        have "member_search l m nm t rec tid ty (i + 1) ms ?u = Inr (f, s', n)"
          using Cons.prems(2) False tn e r True by (simp add: Let_def BPF_CORE_SPEC_MAX_LEN_def)
        moreover have "raw_len ?u \<le> 64" "raw_len spec \<le> raw_len ?u" using b lt(1) by auto
        ultimately show ?thesis using Cons.IH [of ?u "i + 1"] by linarith
      next
        case fn: False
        then have "s' = s1" using Cons.prems(2) False tn e r by (simp add: Let_def BPF_CORE_SPEC_MAX_LEN_def)
        then show ?thesis using b lt(1) by simp
      qed
    next
      case e: False
      obtain name where nm: "nm = Some name" using Cons.prems(2) False tn e by (cases nm) (auto simp: Let_def BPF_CORE_SPEC_MAX_LEN_def)
      show ?thesis
      proof (cases "name = the tn")
        case True
        then show ?thesis using Cons.prems(2) False tn e nm lt by (auto simp: Let_def BPF_CORE_SPEC_MAX_LEN_def split: if_splits)
      next
        case ne: False
        have "member_search l m nm t rec tid ty (i + 1) ms spec = Inr (f, s', n)"
          using Cons.prems(2) False tn e nm ne by (simp add: Let_def BPF_CORE_SPEC_MAX_LEN_def)
        then show ?thesis using Cons.IH Cons.prems(1) by blast
      qed
    qed
  qed
qed simp

lemma match_member_len: "keeps_len (match_member l acc t n)"
proof (induction n)
  case (Suc n)
  show ?case unfolding keeps_len_def
  proof (intro allI impI)
    fix tid s f s' nx
    assume a: "raw_len s \<le> 64" "match_member l acc t (Suc n) tid s = Inr (f, s', nx)"
    then show "raw_len s \<le> raw_len s' \<and> raw_len s' \<le> 64"
      by (auto simp: Let_def split: if_splits dest!: member_search_len [OF Suc a(1)])
  qed
qed (simp add: keeps_len_def)

lemma member_search_cong:
  assumes "keeps_len rec" and eq: "\<And>tid s. L < raw_len s \<Longrightarrow> raw_len s \<le> 64 \<Longrightarrow> rec tid s = rec' tid s"
    and "L \<le> raw_len spec" "raw_len spec \<le> 64"
  shows "member_search l m nm t rec tid ty i ms spec = member_search l m nm t rec' tid ty i ms spec"
  using assms(3,4)
proof (induction ms arbitrary: i spec)
  case (Cons x ms)
  let ?s = "spec\<lparr>sp_bit_offset := sp_bit_offset spec + btf_member_bit_offset ty i, sp_raw_spec := sp_raw_spec spec @ [int i]\<rparr>"
  show ?case
  proof (cases "raw_len spec = 64")
    case False
    then have lt: "raw_len ?s = raw_len spec + 1" "raw_len ?s \<le> 64" using Cons.prems by auto
    then have r: "rec' (mb_type x) ?s = rec (mb_type x) ?s" using eq [of ?s] Cons.prems by auto
    have u: "L \<le> length (butlast (sp_raw_spec s1)) \<and> length (butlast (sp_raw_spec s1)) \<le> 64" if "rec (mb_type x) ?s = Inr (f1, s1, n1)" for f1 s1 n1
    proof -
      have "raw_len ?s \<le> raw_len s1 \<and> raw_len s1 \<le> 64" using assms(1) lt(2) that unfolding keeps_len_def by blast
      then show ?thesis using lt(1) Cons.prems(1) by auto
    qed
    show ?thesis using r u Cons.IH Cons.prems
      by (cases "rec (mb_type x) ?s"; cases "btf__name_by_offset t (mb_name_off x)") (auto simp: Let_def split: option.splits)
  qed (simp add: BPF_CORE_SPEC_MAX_LEN_def)
qed simp

lemma match_member_fuel:
  assumes "64 - raw_len spec < n" "64 - raw_len spec < m" "raw_len spec \<le> 64"
  shows "match_member l acc t n tid spec = match_member l acc t m tid spec"
  using assms
proof (induction n arbitrary: m tid spec)
  case (Suc n)
  then obtain m' where m: "m = Suc m'" by (cases m) auto
  have "match_member l acc t n tid s = match_member l acc t m' tid s" if "raw_len spec < raw_len s" "raw_len s \<le> 64" for tid s
    using Suc.IH [of s m' tid] Suc.prems that m by auto
  then have "member_search l a nm t (match_member l acc t n) tid ty i ms spec = member_search l a nm t (match_member l acc t m') tid ty i ms spec"
    for a nm tid ty i ms using member_search_cong [OF match_member_len, of "raw_len spec"] Suc.prems(3) by blast
  note step = this
  show ?case unfolding m match_member.simps step ..
qed simp

section \<open>Properties\<close>

text \<open>
  The search for a member ends, whatever the target types are, with structures that contain themselves
  included: it never nests deeper than there is room for raw indices, so a bound of 65 calls gives the
  result of every larger one.
\<close>

theorem match_member_depth_bounded:
  assumes "length (sp_raw_spec spec) \<le> BPF_CORE_SPEC_MAX_LEN" "BPF_CORE_SPEC_MAX_LEN < n"
  shows "match_member l acc t n targ_id spec = bpf_core_match_member l acc t targ_id spec"
  using assms unfolding bpf_core_match_member_def by (intro match_member_fuel) (simp_all add: BPF_CORE_SPEC_MAX_LEN_def)

theorem match_member_depth_bounded_witness:
  "match_member [sample_btf] \<lparr>ac_type_id = 1, ac_idx = 0, ac_name = None\<rparr> [sample_btf] 1000 1
     \<lparr>sp_btf = [sample_btf], sp_spec = [], sp_root_type_id = 1, sp_relo_kind = BPF_CORE_FIELD_EXISTS, sp_raw_spec = [0], sp_bit_offset = 0\<rparr> =
   bpf_core_match_member [sample_btf] \<lparr>ac_type_id = 1, ac_idx = 0, ac_name = None\<rparr> [sample_btf] 1
     \<lparr>sp_btf = [sample_btf], sp_spec = [], sp_root_type_id = 1, sp_relo_kind = BPF_CORE_FIELD_EXISTS, sp_raw_spec = [0], sp_bit_offset = 0\<rparr>"
  by (rule match_member_depth_bounded) (simp_all add: BPF_CORE_SPEC_MAX_LEN_def)

end
