(* ===== verification/Core_Relo.thy ===== *)
theory Core_Relo
  imports Core_Spec
begin

text \<open>
  CO-RE relocations (\<open>libbpf/src/relo_core.c\<close>, with the search for candidates of \<open>libbpf/src/libbpf.c\<close>): the values a
  relocation has in the local and in the target types, the agreement of all candidates, and the patching of the
  instruction. Messages to the log are left out.
\<close>

section \<open>Candidates\<close>

record bpf_core_cand =
  cd_btf :: btf_chain
  cd_id :: u32

text \<open>The argument \<open>realloc_ok\<close> gives the answer of the allocator for a list of a length.\<close>

fun add_cands_loop ::
  "(nat \<Rightarrow> bool) \<Rightarrow> btf_type \<Rightarrow> u8 list \<Rightarrow> nat \<Rightarrow> btf_chain \<Rightarrow> nat list \<Rightarrow> bpf_core_cand list \<Rightarrow>
     fault + (int \<times> bpf_core_cand list)" where
  "add_cands_loop realloc_ok local_t local_name local_essent_len t [] cands = Inr (0, cands)"
| "add_cands_loop realloc_ok local_t local_name local_essent_len t (i # is) cands =
     bindR (type_of_id t (of_nat i)) (\<lambda>ty.
       if \<not> btf_kind_core_compat ty local_t then add_cands_loop realloc_ok local_t local_name local_essent_len t is cands
       else bindR (btf__name_by_offset t (bt_name_off ty)) (\<lambda>targ_name.
         if str_is_empty targ_name then add_cands_loop realloc_ok local_t local_name local_essent_len t is cands
         else if bpf_core_essential_name_len (the targ_name) \<noteq> local_essent_len then
           add_cands_loop realloc_ok local_t local_name local_essent_len t is cands
         else if \<not> strncmp_eq local_essent_len local_name (the targ_name) then add_cands_loop realloc_ok local_t local_name local_essent_len t is cands
         else if \<not> realloc_ok (length cands + 1) then Inr (- ENOMEM, cands)
         else add_cands_loop realloc_ok local_t local_name local_essent_len t is (cands @ [\<lparr>cd_btf = t, cd_id = of_nat i\<rparr>])))"

definition bpf_core_add_cands ::
  "(nat \<Rightarrow> bool) \<Rightarrow> bpf_core_cand \<Rightarrow> nat \<Rightarrow> btf_chain \<Rightarrow> nat \<Rightarrow> bpf_core_cand list \<Rightarrow> fault + (int \<times> bpf_core_cand list)" where
  "bpf_core_add_cands realloc_ok local_cand local_essent_len t start cands =
     bindR (type_of_id (cd_btf local_cand) (cd_id local_cand)) (\<lambda>local_t.
     bindR (named_at (cd_btf local_cand) (bt_name_off local_t)) (\<lambda>local_name.
       add_cands_loop realloc_ok local_t local_name local_essent_len t [start..<btf__type_cnt t] cands))"

section \<open>The value of a relocation\<close>

record bpf_core_relo_res =
  rr_orig_val :: u64
  rr_new_val :: u64
  rr_poison :: bool
  rr_validate :: bool
  rr_fail_memsz_adjust :: bool
  rr_orig_sz :: u32
  rr_orig_type_id :: u32
  rr_new_sz :: u32
  rr_new_type_id :: u32

text \<open>
  The bytes that are loaded for a bit field: from the size of the field's type the size is doubled until the
  load, aligned to its size, covers the bits. The result is the size and the offset.
\<close>

function bitfield_window :: "u32 \<Rightarrow> u32 \<Rightarrow> u32 \<Rightarrow> err + (u32 \<times> u32)" where
  "bitfield_window bit_off bit_sz byte_sz =
     (if byte_sz = 0 then Inl (Fault Div_By_Zero)
      else
       (let byte_off = bit_off div 8 div byte_sz * byte_sz in
        if bit_off + bit_sz - byte_off * 8 > byte_sz * 8 then
          if byte_sz \<ge> 8 then Inl (Errno (- E2BIG)) else bitfield_window bit_off bit_sz (byte_sz * 2)
        else Inr (byte_sz, byte_off)))"
  by pat_completeness auto
termination
proof (relation "measure (\<lambda>(bit_off, bit_sz, byte_sz). 8 - unat byte_sz)", goal_cases)
  case (2 bit_off bit_sz byte_sz x)
  then have "unat byte_sz < 8" "0 < unat byte_sz" by (simp_all add: word_le_nat_alt unat_gt_0)
  then have "unat (byte_sz * 2) = 2 * unat byte_sz" by (simp add: unat_word_ariths)
  then show ?case using \<open>unat byte_sz < 8\<close> \<open>0 < unat byte_sz\<close> by simp
qed simp

declare bitfield_window.simps [simp del]

text \<open>Value, size and type of the field, and whether the instruction's value is checked.\<close>

record field_value =
  fv_val :: u64
  fv_sz :: u32
  fv_type_id :: u32
  fv_validate :: bool

text \<open>The sign of a field that is no integer is read from the word behind its type, if there is one.\<close>

definition field_signed :: "btf_type \<Rightarrow> err + bool" where
  "field_signed mt = (if btf_is_any_enum mt \<and> btf_kflag mt then Inr True
     else if bt_words mt = [] then Inl (Fault Indeterminate) else Inr (btf_int_encoding mt AND 1 \<noteq> 0))"

definition size_or_EINVAL :: "btf_chain \<Rightarrow> u32 \<Rightarrow> err + u32" where
  "size_or_EINVAL c tid = (case btf__resolve_size c tid of Inl (Errno _) \<Rightarrow> Inl (Errno (- EINVAL)) | Inl (Fault f) \<Rightarrow> Inl (Fault f)
     | Inr sz \<Rightarrow> Inr (of_int sz))"

definition array_value :: "bpf_core_relo \<Rightarrow> bpf_core_spec \<Rightarrow> bpf_core_accessor \<Rightarrow> err + field_value" where
  "array_value relo spec acc =
     (if ro_kind relo = BPF_CORE_FIELD_BYTE_OFFSET then
        bindR (size_or_EINVAL (sp_btf spec) (ac_type_id acc)) (\<lambda>sz.
          Inr \<lparr>fv_val = ucast (sp_bit_offset spec div 8), fv_sz = sz, fv_type_id = ac_type_id acc, fv_validate = True\<rparr>)
      else if ro_kind relo = BPF_CORE_FIELD_BYTE_SIZE then
        bindR (size_or_EINVAL (sp_btf spec) (ac_type_id acc)) (\<lambda>sz.
          Inr \<lparr>fv_val = ucast sz, fv_sz = 0, fv_type_id = 0, fv_validate = True\<rparr>)
      else Inl (Errno (- EINVAL)))"

definition member_value :: "bpf_core_relo_kind \<Rightarrow> u32 \<Rightarrow> u32 \<Rightarrow> u32 \<Rightarrow> u32 \<Rightarrow> bool \<Rightarrow> btf_type \<Rightarrow> u32 \<Rightarrow> err + field_value" where
  "member_value kind bit_off bit_sz byte_sz byte_off bitfield mt field_type_id =
     (case kind of
        BPF_CORE_FIELD_BYTE_OFFSET \<Rightarrow> Inr (if bitfield
          then \<lparr>fv_val = ucast byte_off, fv_sz = 0, fv_type_id = 0, fv_validate = False\<rparr>
          else \<lparr>fv_val = ucast byte_off, fv_sz = byte_sz, fv_type_id = field_type_id, fv_validate = True\<rparr>)
      | BPF_CORE_FIELD_BYTE_SIZE \<Rightarrow> Inr \<lparr>fv_val = ucast byte_sz, fv_sz = 0, fv_type_id = 0, fv_validate = \<not> bitfield\<rparr>
      | BPF_CORE_FIELD_SIGNED \<Rightarrow> bindR (field_signed mt) (\<lambda>b.
          Inr \<lparr>fv_val = of_bool b, fv_sz = 0, fv_type_id = 0, fv_validate = True\<rparr>)
      | BPF_CORE_FIELD_LSHIFT_U64 \<Rightarrow>
          Inr \<lparr>fv_val = ucast (64 - (bit_off + bit_sz - byte_off * 8)), fv_sz = 0, fv_type_id = 0, fv_validate = \<not> bitfield\<rparr>
      | BPF_CORE_FIELD_RSHIFT_U64 \<Rightarrow> Inr \<lparr>fv_val = ucast (64 - bit_sz), fv_sz = 0, fv_type_id = 0, fv_validate = True\<rparr>
      | _ \<Rightarrow> Inl (Errno (- EOPNOTSUPP)))"

definition bpf_core_calc_field_relo :: "bpf_core_relo \<Rightarrow> bpf_core_spec option \<Rightarrow> err + field_value" where
  "bpf_core_calc_field_relo relo spec =
     (if ro_kind relo = BPF_CORE_FIELD_EXISTS
      then Inr \<lparr>fv_val = of_bool (spec \<noteq> None), fv_sz = 0, fv_type_id = 0, fv_validate = True\<rparr>
      else case spec of None \<Rightarrow> Inl (Errno (- EUCLEAN)) | Some spec \<Rightarrow>
       if sp_spec spec = [] then Inl (Fault Out_Of_Bounds)
       else
        (let acc = last (sp_spec spec) in
         bindR (liftF (btf_type_by_id (sp_btf spec) (unat (ac_type_id acc)))) (\<lambda>t.
           if ac_name acc = None then array_value relo spec acc
           else if unat (ac_idx acc) \<ge> btf_vlen t then Inl (Fault Out_Of_Bounds)
           else
            (let m = btf_members t ! unat (ac_idx acc); bit_off = sp_bit_offset spec;
                 bit_sz = btf_member_bitfield_size t (unat (ac_idx acc)) in
             bindR (liftF (skip_mods_and_typedefs (sp_btf spec) (mb_type m))) (\<lambda>(field_type_id, mt).
               if bit_sz > 0 then
                 bindR (bitfield_window bit_off bit_sz (bt_type mt)) (\<lambda>(byte_sz, byte_off).
                   member_value (ro_kind relo) bit_off bit_sz byte_sz byte_off True mt field_type_id)
               else
                 bindR (size_or_EINVAL (sp_btf spec) field_type_id) (\<lambda>byte_sz.
                   member_value (ro_kind relo) bit_off (byte_sz * 8) byte_sz (bit_off div 8) False mt field_type_id))))))"

text \<open>Value and check of a type relocation.\<close>

definition bpf_core_calc_type_relo :: "bpf_core_relo \<Rightarrow> bpf_core_spec option \<Rightarrow> err + (u64 \<times> bool)" where
  "bpf_core_calc_type_relo relo spec = (case spec of None \<Rightarrow> Inr (0, True)
     | Some spec \<Rightarrow>
        if ro_kind relo = BPF_CORE_TYPE_ID_TARGET then Inr (ucast (sp_root_type_id spec), False)
        else if ro_kind relo = BPF_CORE_TYPE_EXISTS \<or> ro_kind relo = BPF_CORE_TYPE_MATCHES then Inr (1, True)
        else if ro_kind relo = BPF_CORE_TYPE_SIZE then
          (case btf__resolve_size (sp_btf spec) (sp_root_type_id spec) of Inl (Errno _) \<Rightarrow> Inl (Errno (- EINVAL))
           | Inl (Fault f) \<Rightarrow> Inl (Fault f) | Inr sz \<Rightarrow> Inr (of_int sz, True))
        else Inl (Errno (- EOPNOTSUPP)))"

text \<open>The value of a 32-bit enumerator is signed and extends to 64 bits.\<close>

definition bpf_core_calc_enumval_relo :: "bpf_core_relo \<Rightarrow> bpf_core_spec option \<Rightarrow> err + u64" where
  "bpf_core_calc_enumval_relo relo spec =
     (if ro_kind relo = BPF_CORE_ENUMVAL_EXISTS then Inr (of_bool (spec \<noteq> None))
      else if ro_kind relo = BPF_CORE_ENUMVAL_VALUE then
       (case spec of None \<Rightarrow> Inl (Errno (- EUCLEAN)) | Some spec \<Rightarrow>
         (case sp_spec spec of [] \<Rightarrow> Inl (Fault Out_Of_Bounds) | acc # _ \<Rightarrow>
           bindR (liftF (btf_type_by_id (sp_btf spec) (unat (ac_type_id acc)))) (\<lambda>t.
             if unat (ac_idx acc) \<ge> btf_vlen t then Inl (Fault Out_Of_Bounds)
             else if btf_is_enum t then Inr (scast (en_val (btf_enums t ! unat (ac_idx acc))))
             else Inr (btf_enum64_value (btf_enum64s t ! unat (ac_idx acc))))))
      else Inl (Errno (- EOPNOTSUPP)))"

text \<open>Resizing a load or store is right for pointers and for integers that are not signed.\<close>

definition memsz_adjustable :: "btf_type \<Rightarrow> btf_type \<Rightarrow> bool" where
  "memsz_adjustable orig_t new_t \<longleftrightarrow> btf_is_ptr orig_t \<and> btf_is_ptr new_t \<or>
     btf_is_int orig_t \<and> btf_is_int new_t \<and> btf_int_encoding orig_t \<noteq> 1 \<and> btf_int_encoding new_t \<noteq> 1"

definition relo_res_init :: bpf_core_relo_res where
  "relo_res_init = \<lparr>rr_orig_val = 0, rr_new_val = 0, rr_poison = False, rr_validate = True, rr_fail_memsz_adjust = False,
     rr_orig_sz = 0, rr_orig_type_id = 0, rr_new_sz = 0, rr_new_type_id = 0\<rparr>"

definition poisoned :: "bpf_core_relo_res \<Rightarrow> err + 'a \<Rightarrow> ('a \<Rightarrow> err + bpf_core_relo_res) \<Rightarrow> err + bpf_core_relo_res" where
  "poisoned res r f = (if r = Inl (Errno (- EUCLEAN)) then Inr (res\<lparr>rr_poison := True\<rparr>) else bindR r f)"

definition bpf_core_calc_relo :: "bpf_core_relo \<Rightarrow> bpf_core_spec \<Rightarrow> bpf_core_spec option \<Rightarrow> err + bpf_core_relo_res" where
  "bpf_core_calc_relo relo local_spec targ_spec =
     (let res = relo_res_init in
      if core_relo_is_field_based (ro_kind relo) then
        poisoned res (bpf_core_calc_field_relo relo (Some local_spec)) (\<lambda>orig.
          let res = res\<lparr>rr_orig_val := fv_val orig, rr_orig_sz := fv_sz orig, rr_orig_type_id := fv_type_id orig,
                rr_validate := fv_validate orig\<rparr> in
          poisoned res (bpf_core_calc_field_relo relo targ_spec) (\<lambda>new.
            let res = res\<lparr>rr_new_val := fv_val new, rr_new_sz := fv_sz new, rr_new_type_id := fv_type_id new\<rparr> in
            if rr_orig_sz res \<noteq> rr_new_sz res then
             (case targ_spec of None \<Rightarrow> Inl (Fault Out_Of_Bounds) | Some targ \<Rightarrow>
                bindR (liftF (btf_type_by_id (sp_btf local_spec) (unat (rr_orig_type_id res)))) (\<lambda>orig_t.
                bindR (liftF (btf_type_by_id (sp_btf targ) (unat (rr_new_type_id res)))) (\<lambda>new_t.
                  Inr (res\<lparr>rr_fail_memsz_adjust := \<not> memsz_adjustable orig_t new_t\<rparr>))))
            else Inr res))
      else if core_relo_is_type_based (ro_kind relo) then
        bindR (bpf_core_calc_type_relo relo (Some local_spec)) (\<lambda>(orig, validate).
        bindR (bpf_core_calc_type_relo relo targ_spec) (\<lambda>(new, _).
          Inr (res\<lparr>rr_orig_val := orig, rr_new_val := new, rr_validate := validate\<rparr>)))
      else if core_relo_is_enumval_based (ro_kind relo) then
        poisoned res (bpf_core_calc_enumval_relo relo (Some local_spec)) (\<lambda>orig.
          let res = res\<lparr>rr_orig_val := orig\<rparr> in
          poisoned res (bpf_core_calc_enumval_relo relo targ_spec) (\<lambda>new. Inr (res\<lparr>rr_new_val := new\<rparr>)))
      else Inl (Errno (- EOPNOTSUPP)))"

section \<open>All candidates agree\<close>

text \<open>
  The loop over the candidates: the result and the specification of the first one that matches, and the candidates
  that match, in order.
\<close>

fun cand_loop ::
  "bpf_core_relo \<Rightarrow> bpf_core_spec \<Rightarrow> bpf_core_cand list \<Rightarrow> (bpf_core_relo_res \<times> bpf_core_spec) option \<Rightarrow> bpf_core_cand list \<Rightarrow>
     err + ((bpf_core_relo_res \<times> bpf_core_spec) option \<times> bpf_core_cand list)" where
  "cand_loop relo local_spec [] best kept = Inr (best, kept)"
| "cand_loop relo local_spec (cand # cands) best kept =
     bindR (liftF (bpf_core_spec_match local_spec (cd_btf cand) (cd_id cand))) (\<lambda>(err, cand_spec).
       if err < 0 then Inl (Errno err)
       else if err = 0 then cand_loop relo local_spec cands best kept
       else bindR (bpf_core_calc_relo relo local_spec (Some cand_spec)) (\<lambda>cand_res.
         case best of
           None \<Rightarrow> cand_loop relo local_spec cands (Some (cand_res, cand_spec)) (kept @ [cand])
         | Some (targ_res, targ_spec) \<Rightarrow>
             if sp_bit_offset cand_spec \<noteq> sp_bit_offset targ_spec then Inl (Errno (- EINVAL))
             else if rr_poison cand_res \<noteq> rr_poison targ_res \<or> rr_new_val cand_res \<noteq> rr_new_val targ_res
               then Inl (Errno (- EINVAL))
             else cand_loop relo local_spec cands best (kept @ [cand])))"

text \<open>The list of candidates is shortened only when one matches; on an error the caller gives up.\<close>

definition bpf_core_calc_relo_insn ::
  "bpf_core_relo \<Rightarrow> btf_chain \<Rightarrow> bpf_core_cand list \<Rightarrow> err + (bpf_core_relo_res \<times> bpf_core_cand list)" where
  "bpf_core_calc_relo_insn relo local_btf cands =
     bindR (liftF (btf_type_by_id local_btf (unat (ro_type_id relo)))) (\<lambda>local_type.
     bindR (liftF (btf__name_by_offset local_btf (bt_name_off local_type))) (\<lambda>local_name.
       if local_name = None then Inl (Errno (- EINVAL))
       else (case bpf_core_parse_spec local_btf relo of
           Inl (Errno _) \<Rightarrow> Inl (Errno (- EINVAL))
         | Inl (Fault f) \<Rightarrow> Inl (Fault f)
         | Inr local_spec \<Rightarrow>
             if ro_kind relo = BPF_CORE_TYPE_ID_LOCAL then
               Inr (relo_res_init\<lparr>rr_validate := False, rr_orig_val := ucast (sp_root_type_id local_spec),
                 rr_new_val := ucast (sp_root_type_id local_spec)\<rparr>, cands)
             else if str_is_empty local_name then Inl (Errno (- EOPNOTSUPP))
             else bindR (cand_loop relo local_spec cands None []) (\<lambda>(best, kept).
               case best of
                 Some (res, _) \<Rightarrow> Inr (res, kept)
               | None \<Rightarrow> bindR (bpf_core_calc_relo relo local_spec None) (\<lambda>res. Inr (res, cands))))))"

section \<open>Patching the instruction\<close>

record bpf_insn =
  in_code :: u8
  in_dst :: "4 word"
  in_src :: "4 word"
  in_off :: u16
  in_imm :: u32

definition BPF_CLASS :: "u8 \<Rightarrow> u8" where "BPF_CLASS code = code AND 0x07"
definition BPF_SIZE :: "u8 \<Rightarrow> u8" where "BPF_SIZE code = code AND 0x18"
definition BPF_MODE :: "u8 \<Rightarrow> u8" where "BPF_MODE code = code AND 0xE0"
definition BPF_SRC :: "u8 \<Rightarrow> u8" where "BPF_SRC code = code AND 0x08"
definition BPF_LD :: u8 where "BPF_LD = 0x00"
definition BPF_LDX :: u8 where "BPF_LDX = 0x01"
definition BPF_ST :: u8 where "BPF_ST = 0x02"
definition BPF_STX :: u8 where "BPF_STX = 0x03"
definition BPF_ALU :: u8 where "BPF_ALU = 0x04"
definition BPF_ALU64 :: u8 where "BPF_ALU64 = 0x07"

definition is_ldimm64_insn :: "bpf_insn \<Rightarrow> bool" where
  "is_ldimm64_insn insn \<longleftrightarrow> in_code insn = 0x18"

definition bpf_core_poison_insn :: bpf_insn where
  "bpf_core_poison_insn = \<lparr>in_code = 0x85, in_dst = 0, in_src = 0, in_off = 0, in_imm = 195896080\<rparr>"

definition insn_bpf_size_to_bytes :: "bpf_insn \<Rightarrow> int" where
  "insn_bpf_size_to_bytes insn = (let s = BPF_SIZE (in_code insn) in
     if s = 0x18 then 8 else if s = 0x00 then 4 else if s = 0x08 then 2 else if s = 0x10 then 1 else - 1)"

definition insn_bytes_to_bpf_size :: "u32 \<Rightarrow> u8 option" where
  "insn_bytes_to_bpf_size sz = (if sz = 8 then Some 0x18 else if sz = 4 then Some 0x00 else if sz = 2 then Some 0x08
     else if sz = 1 then Some 0x10 else None)"

text \<open>The instruction and, of a 64-bit load, the one behind it are replaced.\<close>

definition poison_insns :: "bpf_insn list \<Rightarrow> fault + (int \<times> bpf_insn list)" where
  "poison_insns insns = (case insns of
     insn # insn2 # r \<Rightarrow> Inr (0, bpf_core_poison_insn # (if is_ldimm64_insn insn then bpf_core_poison_insn else insn2) # r)
   | [insn] \<Rightarrow> if is_ldimm64_insn insn then Inl Out_Of_Bounds else Inr (0, [bpf_core_poison_insn])
   | [] \<Rightarrow> Inl Out_Of_Bounds)"

definition patch_mem :: "bpf_core_relo_res \<Rightarrow> bpf_insn \<Rightarrow> bpf_insn list \<Rightarrow> fault + (int \<times> bpf_insn list)" where
  "patch_mem res insn r =
     (if rr_validate res \<and> scast (in_off insn) \<noteq> rr_orig_val res then Inr (- EINVAL, insn # r)
      else if rr_new_val res > 32767 then Inr (- ERANGE, insn # r)
      else if rr_fail_memsz_adjust res then poison_insns (insn # r)
      else
       (let insn = insn\<lparr>in_off := ucast (rr_new_val res)\<rparr> in
        if rr_new_sz res \<noteq> rr_orig_sz res then
          if of_int (insn_bpf_size_to_bytes insn) \<noteq> rr_orig_sz res then Inr (- EINVAL, insn # r)
          else (case insn_bytes_to_bpf_size (rr_new_sz res) of
              None \<Rightarrow> Inr (- EINVAL, insn # r)
            | Some s \<Rightarrow> Inr (0, insn\<lparr>in_code := BPF_MODE (in_code insn) OR s OR BPF_CLASS (in_code insn)\<rparr> # r))
        else Inr (0, insn # r)))"

definition ldimm64_val :: "bpf_insn \<Rightarrow> bpf_insn \<Rightarrow> u64" where
  "ldimm64_val insn insn2 = ucast (in_imm insn) OR push_bit 32 (scast (in_imm insn2))"

definition patch_ld :: "bpf_core_relo_res \<Rightarrow> bpf_insn \<Rightarrow> bpf_insn list \<Rightarrow> fault + (int \<times> bpf_insn list)" where
  "patch_ld res insn r =
     (if \<not> is_ldimm64_insn insn \<or> in_src insn \<noteq> 0 \<or> in_off insn \<noteq> 0 then Inr (- EINVAL, insn # r)
      else (case r of [] \<Rightarrow> Inl Out_Of_Bounds | insn2 # r' \<Rightarrow>
        if in_code insn2 \<noteq> 0 \<or> in_dst insn2 \<noteq> 0 \<or> in_src insn2 \<noteq> 0 \<or> in_off insn2 \<noteq> 0 then Inr (- EINVAL, insn # r)
        else if rr_validate res \<and> ldimm64_val insn insn2 \<noteq> rr_orig_val res then Inr (- EINVAL, insn # r)
        else Inr (0, insn\<lparr>in_imm := ucast (rr_new_val res)\<rparr> # insn2\<lparr>in_imm := ucast (drop_bit 32 (rr_new_val res))\<rparr> # r')))"

text \<open>The list starts with the instruction to patch; the result is the code and the list afterwards.\<close>

definition bpf_core_patch_insn :: "bpf_core_relo_res \<Rightarrow> bpf_insn list \<Rightarrow> fault + (int \<times> bpf_insn list)" where
  "bpf_core_patch_insn res insns =
     (if rr_poison res then poison_insns insns
      else (case insns of [] \<Rightarrow> Inl Out_Of_Bounds | insn # r \<Rightarrow>
        let cls = BPF_CLASS (in_code insn) in
        if cls = BPF_ALU \<or> cls = BPF_ALU64 then
          if BPF_SRC (in_code insn) \<noteq> 0 then Inr (- EINVAL, insns)
          else if rr_validate res \<and> scast (in_imm insn) \<noteq> rr_orig_val res then Inr (- EINVAL, insns)
          else Inr (0, insn\<lparr>in_imm := ucast (rr_new_val res)\<rparr> # r)
        else if cls = BPF_LDX \<or> cls = BPF_ST \<or> cls = BPF_STX then patch_mem res insn r
        else if cls = BPF_LD then patch_ld res insn r
        else Inr (- EINVAL, insns)))"

section \<open>The load of a bit field\<close>

lemma unat_div_mult: "unat (x div y * y :: u32) = unat x div unat y * unat y"
proof -
  have "unat x div unat y * unat y < 4294967296" using le_less_trans [OF div_times_less_eq_dividend unat_lt32] .
  then show ?thesis by (simp add: unat_word_ariths(2) unat_div)
qed

lemma bitfield_window_covers:
  assumes "bitfield_window bit_off bit_sz byte_sz = Inr (sz, off)" "unat bit_off + unat bit_sz < 4294967296" "byte_sz \<in> {1, 2, 4, 8}"
  shows "sz \<in> {1, 2, 4, 8} \<and> unat off mod unat sz = 0 \<and> unat off * 8 \<le> unat bit_off \<and>
    unat bit_off + unat bit_sz \<le> (unat off + unat sz) * 8 \<and>
    unat (bit_off + bit_sz - off * 8) = unat bit_off + unat bit_sz - unat off * 8"
  using assms
proof (induction bit_off bit_sz byte_sz rule: bitfield_window.induct)
  case (1 bit_off bit_sz byte_sz)
  define o1 where "o1 = bit_off div 8 div byte_sz * byte_sz"
  have nz: "byte_sz \<noteq> 0" using "1.prems"(3) by auto
  have o: "unat o1 = unat bit_off div 8 div unat byte_sz * unat byte_sz"
    using unat_div_mult [of "bit_off div 8" byte_sz] by (simp add: unat_div o1_def)
  have "unat o1 \<le> unat bit_off div 8" unfolding o by (rule div_times_less_eq_dividend)
  then have le: "unat o1 * 8 \<le> unat bit_off" by simp
  have e: "unat (bit_off + bit_sz) = unat bit_off + unat bit_sz" using "1.prems"(2) by (simp add: unat_word_ariths)
  have o8: "unat (o1 * 8) = unat o1 * 8" using le_less_trans [OF le unat_lt32] by (simp add: unat_word_ariths)
  have "o1 * 8 \<le> bit_off + bit_sz" unfolding word_le_nat_alt e o8 using le by simp
  then have d: "unat (bit_off + bit_sz - o1 * 8) = unat bit_off + unat bit_sz - unat o1 * 8" using e o8 by (simp add: unat_sub)
  have s8: "unat (byte_sz * 8) = unat byte_sz * 8" using "1.prems"(3) by auto
  have step: "bitfield_window bit_off bit_sz byte_sz = (if bit_off + bit_sz - o1 * 8 > byte_sz * 8 then
      if byte_sz \<ge> 8 then Inl (Errno (- E2BIG)) else bitfield_window bit_off bit_sz (byte_sz * 2) else Inr (byte_sz, o1))"
    using nz by (subst bitfield_window.simps) (simp add: o1_def Let_def)
  show ?case
  proof (cases "bit_off + bit_sz - o1 * 8 > byte_sz * 8")
    case True
    then have lt: "\<not> byte_sz \<ge> 8" and rec: "bitfield_window bit_off bit_sz (byte_sz * 2) = Inr (sz, off)"
      using "1.prems"(1) step by (auto split: if_splits)
    have "byte_sz * 2 \<in> {1, 2, 4, 8}" using "1.prems"(3) lt by auto
    then show ?thesis using "1.IH" [OF nz o1_def True lt rec "1.prems"(2)] by simp
  next
    case False
    then have r: "sz = byte_sz" "off = o1" using "1.prems"(1) step by auto
    have "unat bit_off + unat bit_sz - unat o1 * 8 \<le> unat byte_sz * 8" using False d s8 by (simp add: word_less_nat_alt)
    then have "unat bit_off + unat bit_sz \<le> (unat o1 + unat byte_sz) * 8" using le by (simp add: algebra_simps)
    then show ?thesis unfolding r using "1.prems"(3) le d o by simp
  qed
qed

text \<open>The two shifts leave the bits of the field.\<close>

lemma shifted_bits:
  fixes w :: u64
  assumes "x \<le> 64" "n \<le> x"
  shows "bit (drop_bit (64 - n) (push_bit (64 - x) w)) k \<longleftrightarrow> k < n \<and> bit w (x - n + k)"
proof -
  have e: "64 - n + k - (64 - x) = x - n + k" "64 - n + k \<ge> 64 - x" using assms by auto
  show ?thesis
  proof (cases "k < n")
    case True
    then have "64 - n + k < 64" using assms by simp
    then show ?thesis using True e by (simp add: bit_drop_bit_eq bit_push_bit_iff)
  next
    case False
    then show ?thesis using assms by (auto simp: bit_drop_bit_eq bit_push_bit_iff)
  qed
qed

text \<open>The bits of a little-endian load from a window of memory.\<close>

lemma loaded_bit:
  assumes "off * 8 \<le> b" "b + k < (off + sz) * 8" "off + sz \<le> length mem" "sz \<le> 8"
  shows "bit (from_le (take sz (drop off mem)) :: u64) (b - off * 8 + k) \<longleftrightarrow> bit (mem ! ((b + k) div 8)) ((b + k) mod 8)"
proof -
  let ?j = "b - off * 8 + k"
  have j: "b + k = off * 8 + ?j" using assms(1) by simp
  have "?j < sz * 8" using assms(1,2) by (simp add: algebra_simps)
  then have lt: "?j div 8 < sz" "?j < 64" using assms(4) by (simp_all add: less_mult_imp_div_less)
  have "(b + k) div 8 = off + ?j div 8" "(b + k) mod 8 = ?j mod 8" unfolding j by simp_all
  moreover have "?j div 8 < length mem - off" using lt(1) assms(3) by linarith
  ultimately show ?thesis using lt assms(3) by (simp add: bit_from_le)
qed

lemma calc_bitfield:
  assumes "sp_spec spec \<noteq> []" "ac_name (last (sp_spec spec)) \<noteq> None"
    and "btf_type_by_id (sp_btf spec) (unat (ac_type_id (last (sp_spec spec)))) = Inr t"
    and "0 < btf_member_bitfield_size t (unat (ac_idx (last (sp_spec spec))))"
    and "skip_mods_and_typedefs (sp_btf spec) (mb_type (btf_members t ! unat (ac_idx (last (sp_spec spec))))) = Inr (fid, mt)"
    and "bpf_core_calc_field_relo relo (Some spec) = Inr v" "ro_kind relo \<noteq> BPF_CORE_FIELD_EXISTS"
  shows "\<exists>sz off. bitfield_window (sp_bit_offset spec) (btf_member_bitfield_size t (unat (ac_idx (last (sp_spec spec))))) (bt_type mt) = Inr (sz, off) \<and>
    member_value (ro_kind relo) (sp_bit_offset spec) (btf_member_bitfield_size t (unat (ac_idx (last (sp_spec spec))))) sz off True mt fid = Inr v"
  using assms by (auto simp: bpf_core_calc_field_relo_def Let_def liftF_def split: if_splits)

section \<open>The value in an instruction\<close>

text \<open>The operand a relocation concerns: the immediate of an arithmetic instruction, the offset of a load or store,
  the 64-bit immediate of a pair.\<close>

definition insn_value :: "bpf_insn list \<Rightarrow> u64 option" where
  "insn_value insns = (case insns of [] \<Rightarrow> None | insn # r \<Rightarrow>
     let cls = BPF_CLASS (in_code insn) in
     if cls = BPF_ALU \<or> cls = BPF_ALU64 then Some (scast (in_imm insn))
     else if cls = BPF_LDX \<or> cls = BPF_ST \<or> cls = BPF_STX then Some (scast (in_off insn))
     else (case r of [] \<Rightarrow> None | insn2 # _ \<Rightarrow> Some (ldimm64_val insn insn2)))"

definition is_alu :: "bpf_insn \<Rightarrow> bool" where
  "is_alu insn \<longleftrightarrow> BPF_CLASS (in_code insn) = BPF_ALU \<or> BPF_CLASS (in_code insn) = BPF_ALU64"

definition is_mem :: "bpf_insn \<Rightarrow> bool" where
  "is_mem insn \<longleftrightarrow> BPF_CLASS (in_code insn) \<in> {BPF_LDX, BPF_ST, BPF_STX}"

text \<open>Everything but operand and access size is kept.\<close>

definition same_but_operand :: "bpf_insn \<Rightarrow> bpf_insn \<Rightarrow> bool" where
  "same_but_operand i j \<longleftrightarrow> in_dst j = in_dst i \<and> in_src j = in_src i \<and> BPF_CLASS (in_code j) = BPF_CLASS (in_code i) \<and>
     (is_mem i \<longrightarrow> in_imm j = in_imm i \<and> BPF_MODE (in_code j) = BPF_MODE (in_code i)) \<and>
     (\<not> is_mem i \<longrightarrow> in_off j = in_off i \<and> in_code j = in_code i)"

lemma size_code_cases:
  assumes "insn_bytes_to_bpf_size sz = Some s"
  shows "s \<in> {0x18, 0x00, 0x08, 0x10}"
  using assms by (auto simp: insn_bytes_to_bpf_size_def split: if_splits)

lemma code_fields:
  assumes "s \<in> {0x18, 0x00, 0x08, 0x10 :: u8}"
  shows "BPF_CLASS (BPF_MODE c OR s OR BPF_CLASS c) = BPF_CLASS c" "BPF_MODE (BPF_MODE c OR s OR BPF_CLASS c) = BPF_MODE c"
    "BPF_SIZE (BPF_MODE c OR s OR BPF_CLASS c) = s"
proof -
  have z: "s AND 7 = 0" "s AND 0xE0 = 0" "s AND 0x18 = s" using assms by auto
  have c: "(7 :: u8) AND 0xE0 = 0" "(0xE0 :: u8) AND 7 = 0" "(0xE0 :: u8) AND 0x18 = 0" "(7 :: u8) AND 0x18 = 0" by simp_all
  show "BPF_CLASS (BPF_MODE c OR s OR BPF_CLASS c) = BPF_CLASS c" "BPF_MODE (BPF_MODE c OR s OR BPF_CLASS c) = BPF_MODE c"
    "BPF_SIZE (BPF_MODE c OR s OR BPF_CLASS c) = s"
    using z c by (simp_all add: BPF_CLASS_def BPF_MODE_def BPF_SIZE_def bit.conj_disj_distrib2 and.assoc)
qed

lemma small_off:
  assumes "\<not> (32767 :: u64) < v"
  shows "scast (ucast v :: u16) = v"
proof (rule bit_word_eqI)
  fix n assume "n < LENGTH(64)"
  have "unat v < 2 ^ 15" using assms by (simp add: word_less_nat_alt)
  then have "take_bit 15 (unat v) = unat v" by (simp add: take_bit_nat_eq_self)
  then have "take_bit 15 v = v" by (simp add: word_unat_eq_iff unsigned_take_bit_eq)
  then have hi: "\<not> bit v m" if "15 \<le> m" for m using that by (metis bit_take_bit_iff not_le)
  show "bit (scast (ucast v :: u16) :: u64) n = bit v n"
    using hi [of n] hi [of 15] \<open>n < LENGTH(64)\<close> by (auto simp: bit_simps min_def)
qed

lemma ldimm64_read_back:
  "ldimm64_val (i\<lparr>in_imm := ucast v\<rparr>) (j\<lparr>in_imm := ucast (drop_bit 32 v)\<rparr>) = v"
proof (rule bit_word_eqI)
  fix n assume n: "n < LENGTH(64)"
  consider "n < 32" | "32 \<le> n" "n < 63" | "n = 63" using n by fastforce
  then show "bit (ldimm64_val (i\<lparr>in_imm := ucast v\<rparr>) (j\<lparr>in_imm := ucast (drop_bit 32 v)\<rparr>)) n = bit v n"
    by cases (auto simp: ldimm64_val_def bit_simps min_def)
qed

lemma patch_mem_ok:
  assumes p: "patch_mem res insn r = Inr (0, insns')" and m: "is_mem insn" and nf: "\<not> rr_fail_memsz_adjust res"
  shows "\<exists>insn'. insns' = insn' # r \<and> same_but_operand insn insn' \<and> (rr_validate res \<longrightarrow> scast (in_off insn) = rr_orig_val res) \<and>
    scast (in_off insn') = rr_new_val res \<and>
    (if rr_new_sz res = rr_orig_sz res then in_code insn' = in_code insn
     else of_int (insn_bpf_size_to_bytes insn) = rr_orig_sz res \<and> of_int (insn_bpf_size_to_bytes insn') = rr_new_sz res)"
proof -
  have v: "rr_validate res \<longrightarrow> scast (in_off insn) = rr_orig_val res" "\<not> rr_new_val res > 32767"
    using p by (auto simp: patch_mem_def EINVAL_def ERANGE_def split: if_splits)
  note off = small_off [OF v(2)]
  show ?thesis
  proof (cases "rr_new_sz res = rr_orig_sz res")
    case True
    then have "insns' = insn\<lparr>in_off := ucast (rr_new_val res)\<rparr> # r" using p v nf by (auto simp: patch_mem_def Let_def EINVAL_def ERANGE_def split: if_splits)
    then show ?thesis using True v off m by (simp add: same_but_operand_def)
  next
    case False
    let ?i = "insn\<lparr>in_off := ucast (rr_new_val res)\<rparr>"
    obtain s where s: "insn_bytes_to_bpf_size (rr_new_sz res) = Some s" "of_int (insn_bpf_size_to_bytes ?i) = rr_orig_sz res"
      "insns' = ?i\<lparr>in_code := BPF_MODE (in_code insn) OR s OR BPF_CLASS (in_code insn)\<rparr> # r"
      using p v nf False by (auto simp: patch_mem_def Let_def EINVAL_def ERANGE_def split: if_splits option.splits)
    note cf = code_fields [OF size_code_cases [OF s(1)]]
    have "insn_bpf_size_to_bytes ?i = insn_bpf_size_to_bytes insn" by (simp add: insn_bpf_size_to_bytes_def)
    moreover have "of_int (insn_bpf_size_to_bytes (?i\<lparr>in_code := BPF_MODE (in_code insn) OR s OR BPF_CLASS (in_code insn)\<rparr>)) = rr_new_sz res"
      using s(1) cf(3) [of "in_code insn"] by (auto simp: insn_bytes_to_bpf_size_def insn_bpf_size_to_bytes_def Let_def split: if_splits)
    ultimately show ?thesis using False s(2,3) v off m cf(1,2) [of "in_code insn"] by (simp add: same_but_operand_def)
  qed
qed

section \<open>Agreement\<close>

definition cand_matches :: "bpf_core_spec \<Rightarrow> bpf_core_cand \<Rightarrow> bool" where
  "cand_matches local_spec cand \<longleftrightarrow> (case bpf_core_spec_match local_spec (cd_btf cand) (cd_id cand) of Inl _ \<Rightarrow> False | Inr (m, _) \<Rightarrow> 0 < m)"

text \<open>The candidate matches, and relocating against it gives this decision, this value and this bit offset.\<close>

definition cand_gives :: "bpf_core_relo \<Rightarrow> bpf_core_spec \<Rightarrow> bool \<Rightarrow> u64 \<Rightarrow> u32 \<Rightarrow> bpf_core_cand \<Rightarrow> bool" where
  "cand_gives relo local_spec poison val bit_off cand \<longleftrightarrow>
     (\<exists>m s r. bpf_core_spec_match local_spec (cd_btf cand) (cd_id cand) = Inr (m, s) \<and> 0 < m \<and>
        bpf_core_calc_relo relo local_spec (Some s) = Inr r \<and> rr_poison r = poison \<and> rr_new_val r = val \<and> sp_bit_offset s = bit_off)"

lemma cand_loop_ok:
  assumes "cand_loop relo local_spec cands best kept = Inr (best', kept')"
  shows "kept' = kept @ filter (cand_matches local_spec) cands \<and>
    (case best' of None \<Rightarrow> best = None \<and> filter (cand_matches local_spec) cands = []
     | Some (res, spec) \<Rightarrow> (best = None \<longrightarrow> filter (cand_matches local_spec) cands \<noteq> []) \<and> (best \<noteq> None \<longrightarrow> best = best') \<and>
         (\<forall>c\<in>set (filter (cand_matches local_spec) cands).
            cand_gives relo local_spec (rr_poison res) (rr_new_val res) (sp_bit_offset spec) c))"
  using assms
proof (induction cands arbitrary: best kept)
  case Nil
  then show ?case by (auto split: option.splits)
next
  case (Cons cand cands)
  obtain m s where m: "bpf_core_spec_match local_spec (cd_btf cand) (cd_id cand) = Inr (m, s)"
    using Cons.prems by (cases "bpf_core_spec_match local_spec (cd_btf cand) (cd_id cand)") (auto simp: liftF_def)
  show ?case
  proof (cases "m = 0")
    case True
    have "\<not> cand_matches local_spec cand" using m True by (simp add: cand_matches_def)
    moreover have "cand_loop relo local_spec cands best kept = Inr (best', kept')" using Cons.prems m True by (simp add: liftF_def)
    ultimately show ?thesis using Cons.IH [of best kept] by (simp only: filter.simps if_False)
  next
    case False
    have pos: "0 < m" using Cons.prems m False by (auto simp: liftF_def split: if_splits)
    obtain r where r: "bpf_core_calc_relo relo local_spec (Some s) = Inr r" using Cons.prems m pos by (auto simp: liftF_def)
    have mt: "cand_matches local_spec cand" using m pos by (simp add: cand_matches_def)
    have gives: "cand_gives relo local_spec (rr_poison r) (rr_new_val r) (sp_bit_offset s) cand" using m pos r by (auto simp: cand_gives_def)
    show ?thesis
    proof (cases best)
      case None
      then have "cand_loop relo local_spec cands (Some (r, s)) (kept @ [cand]) = Inr (best', kept')"
        using Cons.prems m pos r by (simp add: liftF_def)
      then show ?thesis using Cons.IH [of "Some (r, s)" "kept @ [cand]"] None mt gives by (auto split: option.splits)
    next
      case (Some b)
      obtain tr ts where b: "b = (tr, ts)" by fastforce
      have eq: "sp_bit_offset s = sp_bit_offset ts" "rr_poison r = rr_poison tr" "rr_new_val r = rr_new_val tr"
        and "cand_loop relo local_spec cands best (kept @ [cand]) = Inr (best', kept')"
        using Cons.prems m pos r Some b by (auto simp: liftF_def split: if_splits)
      then show ?thesis using Cons.IH [of best "kept @ [cand]"] Some b mt gives by (auto split: option.splits)
    qed
  qed
qed

text \<open>The search for candidates finds every type of a compatible kind and the same essential name.\<close>

definition is_cand :: "btf_type \<Rightarrow> u8 list \<Rightarrow> btf_chain \<Rightarrow> nat \<Rightarrow> bool" where
  "is_cand local_t local_name t i \<longleftrightarrow> (\<exists>ty n. type_of_id t (of_nat i) = Inr ty \<and> btf_kind_core_compat ty local_t \<and>
     btf__name_by_offset t (bt_name_off ty) = Inr (Some n) \<and> n \<noteq> [] \<and> essential_name n = essential_name local_name)"

lemma add_cands_loop_ok:
  assumes "add_cands_loop realloc_ok local_t local_name (bpf_core_essential_name_len local_name) t is cands = Inr (0, cands')"
  shows "cands' = cands @ map (\<lambda>i. \<lparr>cd_btf = t, cd_id = of_nat i\<rparr>) (filter (is_cand local_t local_name t) is)"
  using assms
proof (induction "is" arbitrary: cands)
  case (Cons i "is")
  obtain ty where ty: "type_of_id t (of_nat i) = Inr ty" using Cons.prems by auto
  show ?case
  proof (cases "btf_kind_core_compat ty local_t")
    case False
    then show ?thesis using Cons ty by (simp add: is_cand_def)
  next
    case k: True
    obtain n where n: "btf__name_by_offset t (bt_name_off ty) = Inr n" using Cons.prems ty k by auto
    show ?thesis
    proof (cases "str_is_empty n")
      case True
      then show ?thesis using Cons ty k n by (auto simp: is_cand_def str_is_empty_def)
    next
      case False
      then obtain nm where nm: "n = Some nm" "nm \<noteq> []" by (auto simp: str_is_empty_def)
      have c: "is_cand local_t local_name t i \<longleftrightarrow> same_essential local_name nm"
        using ty k n nm by (auto simp: is_cand_def same_essential_iff)
      show ?thesis
      proof (cases "same_essential local_name nm")
        case True
        then show ?thesis using Cons.IH [of "cands @ [\<lparr>cd_btf = t, cd_id = of_nat i\<rparr>]"] Cons.prems ty k n nm c False
          by (auto simp: same_essential_def ENOMEM_def split: if_splits)
      next
        case ns: False
        then show ?thesis using Cons.IH [of cands] Cons.prems ty k n nm c False
          by (auto simp: same_essential_def split: if_splits)
      qed
    qed
  qed
qed simp

section \<open>A structure with a bit field\<close>

text \<open>An \<open>int\<close> and a structure of three bits at bit 5, both named \<open>a\<close>, with the access string \<open>0:0\<close>.\<close>

definition core_sample :: btf where
  "core_sample = \<lparr>bf_hdr = \<lparr>hd_magic = 0xEB9F, hd_version = 1, hd_flags = 0, hd_hdr_len = 24, hd_type_off = 0,
     hd_type_len = 40, hd_str_off = 40, hd_str_len = 7\<rparr>, bf_swapped_endian = False,
     bf_types_data = [1, 0, 0, 0, 0, 0, 0, 1, 4, 0, 0, 0, 32, 0, 0, 0,
       1, 0, 0, 0, 1, 0, 0, 0x84, 4, 0, 0, 0, 1, 0, 0, 0, 1, 0, 0, 0, 5, 0, 0, 3],
     bf_type_offs = [0, 16], bf_start_id = 1, bf_start_str_off = 0, bf_strs_data = [0, 97, 0, 48, 58, 48, 0], bf_ptr_sz = 0\<rparr>"

definition sample_relo :: bpf_core_relo where
  "sample_relo = \<lparr>ro_insn_off = 0, ro_type_id = 2, ro_access_str_off = 3, ro_kind = BPF_CORE_FIELD_BYTE_OFFSET\<rparr>"

definition sample_spec :: bpf_core_spec where
  "sample_spec = \<lparr>sp_btf = [core_sample], sp_spec = [\<lparr>ac_type_id = 2, ac_idx = 0, ac_name = None\<rparr>, \<lparr>ac_type_id = 2, ac_idx = 0, ac_name = Some [97]\<rparr>],
     sp_root_type_id = 2, sp_relo_kind = BPF_CORE_FIELD_BYTE_OFFSET, sp_raw_spec = [0, 0], sp_bit_offset = 5\<rparr>"

definition sample_cand :: "u32 \<Rightarrow> bpf_core_cand" where
  "sample_cand i = \<lparr>cd_btf = [core_sample], cd_id = i\<rparr>"

definition field_val :: "u64 \<Rightarrow> bool \<Rightarrow> field_value" where
  "field_val v b = \<lparr>fv_val = v, fv_sz = 0, fv_type_id = 0, fv_validate = b\<rparr>"

lemma sample_parsed: "bpf_core_parse_spec [core_sample] sample_relo = Inr sample_spec"
  by code_simp

lemma sample_struct: "btf_type_by_id [core_sample] (unat (ac_type_id (last (sp_spec sample_spec)))) =
    Inr \<lparr>bt_name_off = 1, bt_info = 0x84000001, bt_type = 4, bt_words = [1, 1, 0x03000005]\<rparr>"
  by code_simp

lemma sample_bits: "3 = btf_member_bitfield_size \<lparr>bt_name_off = 1, bt_info = 0x84000001, bt_type = 4, bt_words = [1, 1, 0x03000005]\<rparr>
    (unat (ac_idx (last (sp_spec sample_spec))))"
  by code_simp

lemma sample_int: "skip_mods_and_typedefs [core_sample] (mb_type (btf_members \<lparr>bt_name_off = 1, bt_info = 0x84000001, bt_type = 4,
      bt_words = [1, 1, 0x03000005]\<rparr> ! unat (ac_idx (last (sp_spec sample_spec))))) =
    Inr (1, \<lparr>bt_name_off = 1, bt_info = 0x01000000, bt_type = 4, bt_words = [32]\<rparr>)"
  by code_simp

lemma sample_values:
  "bpf_core_calc_field_relo (sample_relo\<lparr>ro_kind := BPF_CORE_FIELD_BYTE_OFFSET\<rparr>) (Some sample_spec) = Inr (field_val 0 False)"
  "bpf_core_calc_field_relo (sample_relo\<lparr>ro_kind := BPF_CORE_FIELD_BYTE_SIZE\<rparr>) (Some sample_spec) = Inr (field_val 4 False)"
  "bpf_core_calc_field_relo (sample_relo\<lparr>ro_kind := BPF_CORE_FIELD_LSHIFT_U64\<rparr>) (Some sample_spec) = Inr (field_val 56 False)"
  "bpf_core_calc_field_relo (sample_relo\<lparr>ro_kind := BPF_CORE_FIELD_RSHIFT_U64\<rparr>) (Some sample_spec) = Inr (field_val 61 True)"
  by code_simp+

lemma sample_calc: "bpf_core_calc_relo_insn sample_relo [core_sample] [sample_cand 1, sample_cand 2] =
    Inr (relo_res_init\<lparr>rr_validate := False\<rparr>, [sample_cand 2])"
  by code_simp

definition sample_insn :: "u8 \<Rightarrow> u16 \<Rightarrow> bpf_insn" where
  "sample_insn code off = \<lparr>in_code = code, in_dst = 1, in_src = 2, in_off = off, in_imm = 0\<rparr>"

definition sample_res :: bpf_core_relo_res where
  "sample_res = relo_res_init\<lparr>rr_orig_val := 8, rr_new_val := 16, rr_orig_sz := 4, rr_new_sz := 8\<rparr>"

lemma sample_patch: "bpf_core_patch_insn sample_res [sample_insn 0x61 8] = Inr (0, [sample_insn 0x79 16])"
  by code_simp

section \<open>Properties\<close>

text \<open>
  C16. Reading a bit field with relocated offset, size and shifts gives the bits of the field: a
  little-endian load of the relocated size at the relocated byte offset, shifted left and then right by the
  relocated amounts, has as its bits the bits of memory from the bit offset of the specification on, as
  many as the field has, and zeros above. The field's type has 1, 2, 4 or 8 bytes and the offset does not wrap.
\<close>

theorem bitfield_read_extracts_field:
  fixes mem :: "u8 list"
  assumes spec: "sp_spec spec \<noteq> []" "ac_name (last (sp_spec spec)) \<noteq> None"
    "btf_type_by_id (sp_btf spec) (unat (ac_type_id (last (sp_spec spec)))) = Inr t"
    "bits = btf_member_bitfield_size t (unat (ac_idx (last (sp_spec spec))))" "0 < bits"
    "skip_mods_and_typedefs (sp_btf spec) (mb_type (btf_members t ! unat (ac_idx (last (sp_spec spec))))) = Inr (fid, mt)"
    "bt_type mt \<in> {1, 2, 4, 8}" "unat (sp_bit_offset spec) + unat bits < 4294967296"
    and vals: "bpf_core_calc_field_relo (relo\<lparr>ro_kind := BPF_CORE_FIELD_BYTE_OFFSET\<rparr>) (Some spec) = Inr vo"
    "bpf_core_calc_field_relo (relo\<lparr>ro_kind := BPF_CORE_FIELD_BYTE_SIZE\<rparr>) (Some spec) = Inr vs"
    "bpf_core_calc_field_relo (relo\<lparr>ro_kind := BPF_CORE_FIELD_LSHIFT_U64\<rparr>) (Some spec) = Inr vl"
    "bpf_core_calc_field_relo (relo\<lparr>ro_kind := BPF_CORE_FIELD_RSHIFT_U64\<rparr>) (Some spec) = Inr vr"
    and mem: "unat (fv_val vo) + unat (fv_val vs) \<le> length mem"
  shows "bit (drop_bit (unat (fv_val vr)) (push_bit (unat (fv_val vl))
      (from_le (take (unat (fv_val vs)) (drop (unat (fv_val vo)) mem)) :: u64))) k \<longleftrightarrow>
    k < unat bits \<and> bit (mem ! ((unat (sp_bit_offset spec) + k) div 8)) ((unat (sp_bit_offset spec) + k) mod 8)"
proof -
  let ?b = "sp_bit_offset spec"
  note calc = calc_bitfield [OF spec(1-3) _ spec(6), unfolded spec(4) [symmetric], OF spec(5)]
  obtain sz off where w: "bitfield_window ?b bits (bt_type mt) = Inr (sz, off)" and vo: "fv_val vo = ucast off"
    using calc [OF vals(1)] by (auto simp: member_value_def)
  have vs: "fv_val vs = ucast sz" using calc [OF vals(2)] w by (auto simp: member_value_def)
  have vl: "fv_val vl = ucast (64 - (?b + bits - off * 8))" using calc [OF vals(3)] w by (auto simp: member_value_def)
  have vr: "fv_val vr = ucast (64 - bits)" using calc [OF vals(4)] w by (auto simp: member_value_def)
  have c: "sz \<in> {1, 2, 4, 8}" "unat off * 8 \<le> unat ?b" "unat ?b + unat bits \<le> (unat off + unat sz) * 8"
    "unat (?b + bits - off * 8) = unat ?b + unat bits - unat off * 8"
    using bitfield_window_covers [OF w spec(8,7)] by blast+
  have sz: "unat sz \<le> 8" using c(1) by auto
  define x where "x = unat ?b + unat bits - unat off * 8"
  have x: "x \<le> 64" "unat bits \<le> x" "x - unat bits = unat ?b - unat off * 8" using c(2,3) sz by (auto simp: x_def algebra_simps)
  have b64: "unat bits \<le> 64" using x by simp
  have "unat (64 - (?b + bits - off * 8)) = 64 - x" using c(4) x(1) by (simp add: x_def unat_sub word_le_nat_alt)
  moreover have "unat (64 - bits) = 64 - unat bits" using b64 by (simp add: unat_sub word_le_nat_alt)
  ultimately have "bit (drop_bit (unat (fv_val vr)) (push_bit (unat (fv_val vl)) (from_le (take (unat (fv_val vs)) (drop (unat (fv_val vo)) mem)) :: u64))) k
      \<longleftrightarrow> k < unat bits \<and> bit (from_le (take (unat sz) (drop (unat off) mem)) :: u64) (unat ?b - unat off * 8 + k)"
    unfolding vo vs vl vr unat_ucast_u64 using shifted_bits [OF x(1,2)] x(3) by simp
  also have "\<dots> \<longleftrightarrow> k < unat bits \<and> bit (mem ! ((unat ?b + k) div 8)) ((unat ?b + k) mod 8)"
    using loaded_bit [of "unat off" "unat ?b" k "unat sz" mem] c(2,3) sz mem unfolding vo vs unat_ucast_u64 by auto
  finally show ?thesis .
qed

theorem bitfield_read_extracts_field_witness:
  "\<forall>k. bit (drop_bit 61 (push_bit 56 (from_le (take 4 (drop 0 [0xE0, 0, 0, 0 :: u8])) :: u64))) k \<longleftrightarrow>
     k < 3 \<and> bit ([0xE0, 0, 0, 0 :: u8] ! ((5 + k) div 8)) ((5 + k) mod 8)"
proof
  fix k
  show "bit (drop_bit 61 (push_bit 56 (from_le (take 4 (drop 0 [0xE0, 0, 0, 0 :: u8])) :: u64))) k \<longleftrightarrow>
     k < 3 \<and> bit ([0xE0, 0, 0, 0 :: u8] ! ((5 + k) div 8)) ((5 + k) mod 8)"
    using bitfield_read_extracts_field [OF _ _ _ sample_bits _ _ _ _ sample_values, where fid = 1 and k = k and mem = "[0xE0, 0, 0, 0]"
        and mt = "\<lparr>bt_name_off = 1, bt_info = 0x01000000, bt_type = 4, bt_words = [32]\<rparr>"]
      sample_struct sample_int by (simp add: field_val_def sample_spec_def)
qed

text \<open>
  C17. A successful patch of an instruction that is neither poisoned nor of a field that cannot be resized puts the new value
  where the old one was: the operand reads as the new value (of an arithmetic instruction as its low 32 bits, sign extended),
  a checked instruction had the original value, a load or store of another size now has the new size, and nothing else
  of the program has changed.
\<close>

theorem patch_insn_replaces_operand:
  assumes "bpf_core_patch_insn res (insn # r) = Inr (0, insns')" "\<not> rr_poison res" "\<not> rr_fail_memsz_adjust res"
  shows "\<exists>insn' r'. insns' = insn' # r' \<and> same_but_operand insn insn' \<and>
    (rr_validate res \<longrightarrow> insn_value (insn # r) = Some (rr_orig_val res)) \<and>
    insn_value insns' = Some (if is_alu insn then scast (ucast (rr_new_val res) :: u32) else rr_new_val res) \<and>
    (if is_alu insn \<or> is_mem insn then r' = r
     else \<exists>insn2 r2. r = insn2 # r2 \<and> r' = insn2\<lparr>in_imm := ucast (drop_bit 32 (rr_new_val res))\<rparr> # r2) \<and>
    (is_mem insn \<and> rr_new_sz res \<noteq> rr_orig_sz res \<longrightarrow>
       of_int (insn_bpf_size_to_bytes insn) = rr_orig_sz res \<and> of_int (insn_bpf_size_to_bytes insn') = rr_new_sz res)"
proof -
  consider (alu) "is_alu insn" | (mem) "is_mem insn" | (ld) "\<not> is_alu insn" "\<not> is_mem insn" by blast
  then show ?thesis
  proof cases
    case alu
    then have nm: "\<not> is_mem insn" by (auto simp: is_alu_def is_mem_def BPF_ALU_def BPF_ALU64_def BPF_LDX_def BPF_ST_def BPF_STX_def)
    have "insns' = insn\<lparr>in_imm := ucast (rr_new_val res)\<rparr> # r" "rr_validate res \<longrightarrow> scast (in_imm insn) = rr_orig_val res"
      using assms alu by (auto simp: bpf_core_patch_insn_def is_alu_def Let_def EINVAL_def split: if_splits)
    then show ?thesis using alu nm by (auto simp: is_alu_def insn_value_def same_but_operand_def Let_def)
  next
    case mem
    then have na: "\<not> is_alu insn" by (auto simp: is_alu_def is_mem_def BPF_ALU_def BPF_ALU64_def BPF_LDX_def BPF_ST_def BPF_STX_def)
    have "patch_mem res insn r = Inr (0, insns')"
      using assms mem na by (auto simp: bpf_core_patch_insn_def is_alu_def is_mem_def Let_def EINVAL_def split: if_splits)
    from patch_mem_ok [OF this mem assms(3)] obtain insn' where i: "insns' = insn' # r" "same_but_operand insn insn'"
      "rr_validate res \<longrightarrow> scast (in_off insn) = rr_orig_val res" "scast (in_off insn') = rr_new_val res"
      "if rr_new_sz res = rr_orig_sz res then in_code insn' = in_code insn
       else of_int (insn_bpf_size_to_bytes insn) = rr_orig_sz res \<and> of_int (insn_bpf_size_to_bytes insn') = rr_new_sz res" by blast
    have c: "is_alu insn' = is_alu insn" "is_mem insn' = is_mem insn"
      using i(2) by (simp_all add: same_but_operand_def is_alu_def is_mem_def)
    have v: "insn_value (insn # r) = Some (scast (in_off insn))" "insn_value insns' = Some (rr_new_val res)"
      using mem na c i(1,4) by (simp_all add: insn_value_def is_alu_def is_mem_def Let_def)
    show ?thesis using mem na i v by (intro exI [of _ insn'] exI [of _ r]) simp
  next
    case ld
    have "patch_ld res insn r = Inr (0, insns')"
      using assms ld by (auto simp: bpf_core_patch_insn_def is_alu_def is_mem_def Let_def EINVAL_def split: if_splits)
    then obtain insn2 r2 where l: "r = insn2 # r2" "rr_validate res \<longrightarrow> ldimm64_val insn insn2 = rr_orig_val res"
      "insns' = insn\<lparr>in_imm := ucast (rr_new_val res)\<rparr> # insn2\<lparr>in_imm := ucast (drop_bit 32 (rr_new_val res))\<rparr> # r2"
      by (auto simp: patch_ld_def EINVAL_def split: if_splits list.splits)
    have v: "insn_value (insn # r) = Some (ldimm64_val insn insn2)" "insn_value insns' = Some (rr_new_val res)"
      using ld l(1,3) ldimm64_read_back by (simp_all add: insn_value_def is_alu_def is_mem_def Let_def)
    have "same_but_operand insn (insn\<lparr>in_imm := ucast (rr_new_val res)\<rparr>)" using ld by (simp add: same_but_operand_def)
    then show ?thesis using ld l v by simp
  qed
qed

theorem patch_insn_replaces_operand_witness:
  "same_but_operand (sample_insn 0x61 8) (sample_insn 0x79 16) \<and> insn_value [sample_insn 0x79 16] = Some 16 \<and>
   of_int (insn_bpf_size_to_bytes (sample_insn 0x61 8)) = (4 :: u32) \<and> of_int (insn_bpf_size_to_bytes (sample_insn 0x79 16)) = (8 :: u32)"
proof -
  have "\<not> is_alu (sample_insn 0x61 8)" "is_mem (sample_insn 0x61 8)" by code_simp+
  moreover have "\<not> rr_poison sample_res" "\<not> rr_fail_memsz_adjust sample_res" by code_simp+
  ultimately show ?thesis using patch_insn_replaces_operand [OF sample_patch] by (auto simp: sample_res_def)
qed

text \<open>
  C18. When a relocation of another kind than \<open>BPF_CORE_TYPE_ID_LOCAL\<close>, which looks at no candidate, succeeds against a list of
  candidates, every candidate that matches the access
  gives the same decision, the same value and the same bit offset, these are the result, and the list is reduced to the
  matching candidates in their order. When none matches, the list is kept and the result is that of a
  missing target.
\<close>

theorem relocation_is_unambiguous:
  assumes "bpf_core_calc_relo_insn relo local_btf cands = Inr (res, cands')" "ro_kind relo \<noteq> BPF_CORE_TYPE_ID_LOCAL"
  shows "\<exists>local_spec. bpf_core_parse_spec local_btf relo = Inr local_spec \<and>
    (if \<exists>c\<in>set cands. cand_matches local_spec c
     then cands' = filter (cand_matches local_spec) cands \<and>
       (\<exists>bit_off. \<forall>c\<in>set cands'. cand_gives relo local_spec (rr_poison res) (rr_new_val res) bit_off c)
     else cands' = cands \<and> bpf_core_calc_relo relo local_spec None = Inr res)"
proof -
  obtain local_spec where p: "bpf_core_parse_spec local_btf relo = Inr local_spec"
  proof (cases "bpf_core_parse_spec local_btf relo")
    case (Inl e)
    then show ?thesis using assms(1) that by (cases e) (auto simp: bpf_core_calc_relo_insn_def split: if_splits)
  qed (rule that)
  obtain best kept where c: "cand_loop relo local_spec cands None [] = Inr (best, kept)"
    and b: "(case best of Some (r, _) \<Rightarrow> Inr (r, kept) | None \<Rightarrow>
      bindR (bpf_core_calc_relo relo local_spec None) (\<lambda>res. Inr (res, cands))) = Inr (res, cands')"
    using assms p by (auto simp: bpf_core_calc_relo_insn_def simp del: bindR_eq_Inr split: if_splits dest!: bindR_eq_Inr [THEN iffD1])
  note l = cand_loop_ok [OF c]
  show ?thesis
  proof (cases best)
    case None
    then have "\<not> (\<exists>c\<in>set cands. cand_matches local_spec c)" using l by (simp add: filter_empty_conv)
    then show ?thesis using p b None by auto
  next
    case (Some b')
    obtain r s where rs: "b' = (r, s)" by fastforce
    have "filter (cand_matches local_spec) cands \<noteq> []" using l Some rs by simp
    then have "\<exists>c\<in>set cands. cand_matches local_spec c" by (simp add: filter_empty_conv)
    moreover have "res = r" "cands' = kept" using b Some rs by auto
    ultimately show ?thesis using p l Some rs by auto
  qed
qed

theorem relocation_is_unambiguous_witness:
  "\<exists>bit_off. cand_matches sample_spec (sample_cand 2) \<and> \<not> cand_matches sample_spec (sample_cand 1) \<and>
     cand_gives sample_relo sample_spec False 0 bit_off (sample_cand 2)"
proof -
  have "ro_kind sample_relo \<noteq> BPF_CORE_TYPE_ID_LOCAL" by (simp add: sample_relo_def)
  moreover have m: "cand_matches sample_spec (sample_cand 2)" "\<not> cand_matches sample_spec (sample_cand 1)" by code_simp+
  ultimately show ?thesis using relocation_is_unambiguous [OF sample_calc] sample_parsed by (auto simp: relo_res_init_def)
qed

text \<open>
  C32. The search for candidates adds, in the order of their ids, exactly the types from the start id on whose kind goes
  with the local type and whose name, without flavor, is that of the local type; they are added behind the candidates
  of the instances searched before.
\<close>

theorem add_cands_exact:
  assumes "type_of_id (cd_btf local_cand) (cd_id local_cand) = Inr local_t"
    "named_at (cd_btf local_cand) (bt_name_off local_t) = Inr local_name"
    "bpf_core_add_cands realloc_ok local_cand (bpf_core_essential_name_len local_name) t start cands = Inr (0, cands')"
  shows "cands' = cands @ map (\<lambda>i. \<lparr>cd_btf = t, cd_id = of_nat i\<rparr>) (filter (is_cand local_t local_name t) [start..<btf__type_cnt t])"
  using assms(3) unfolding bpf_core_add_cands_def assms(1,2) bindR.simps by (rule add_cands_loop_ok)

theorem add_cands_exact_witness:
  "\<exists>local_t. [sample_cand 2] = map (\<lambda>i. \<lparr>cd_btf = [core_sample], cd_id = of_nat i\<rparr>)
     (filter (is_cand local_t [97] [core_sample]) [1..<btf__type_cnt [core_sample]])"
proof -
  have t: "type_of_id (cd_btf (sample_cand 2)) (cd_id (sample_cand 2)) =
    Inr \<lparr>bt_name_off = 1, bt_info = 0x84000001, bt_type = 4, bt_words = [1, 1, 0x03000005]\<rparr>" by code_simp
  have n: "named_at (cd_btf (sample_cand 2)) (bt_name_off \<lparr>bt_name_off = 1, bt_info = 0x84000001, bt_type = 4, bt_words = [1, 1, 0x03000005]\<rparr>) = Inr [97]"
    by code_simp
  have "bpf_core_add_cands (\<lambda>_. True) (sample_cand 2) (bpf_core_essential_name_len [97]) [core_sample] 1 [] = Inr (0, [sample_cand 2])" by code_simp
  then show ?thesis using add_cands_exact [OF t n] by (metis append_Nil)
qed

end
