(* ===== verification/Linfo.thy ===== *)
theory Linfo
  imports Bytes Errno
begin

text \<open>
  Line information of programs (\<open>libbpf/src/bpf_prog_linfo.c\<close>): the records of a loaded program and of its
  translation to machine code, split by function, and the search for the record of an instruction or of an
  address. Where the code stores an error number in \<open>errno\<close> and returns a null pointer, the result is \<open>Inl\<close> of the
  negative number.
\<close>

section \<open>State\<close>

text \<open>The part of \<open>struct bpf_prog_info\<close> that is read; a pointer is the memory behind it or \<open>None\<close>.\<close>

record prog_info =
  pi_nr_line_info :: u32
  pi_line_info_rec_size :: u32
  pi_line_info :: "u8 list"
  pi_nr_jited_ksyms :: u32
  pi_jited_ksyms :: "u64 list option"
  pi_nr_jited_func_lens :: u32
  pi_jited_func_lens :: "u32 list option"
  pi_nr_jited_line_info :: u32
  pi_jited_line_info_rec_size :: u32
  pi_jited_line_info :: "u8 list option"

text \<open>The two arrays per function come from \<open>malloc\<close>: an element that is not written yet is \<open>None\<close>.\<close>

record bpf_prog_linfo =
  li_raw_linfo :: "u8 list"
  li_raw_jited_linfo :: "u8 list"
  li_nr_jited_linfo_per_func :: "u32 option list"
  li_jited_linfo_func_idx :: "u32 option list"
  li_nr_linfo :: u32
  li_nr_jited_func :: u32
  li_rec_size :: u32
  li_jited_rec_size :: u32

definition rd :: "nat \<Rightarrow> nat \<Rightarrow> u8 list \<Rightarrow> err + 'a::len word" where
  "rd n off bs = (case read_le n off bs of None \<Rightarrow> Inl (Fault Out_Of_Bounds) | Some w \<Rightarrow> Inr w)"

definition at :: "'a list \<Rightarrow> nat \<Rightarrow> err + 'a" where
  "at xs i = (if i < length xs then Inr (xs ! i) else Inl (Fault Out_Of_Bounds))"

definition put :: "'a list \<Rightarrow> nat \<Rightarrow> 'a \<Rightarrow> err + 'a list" where
  "put xs i x = (if i < length xs then Inr (xs[i := x]) else Inl (Fault Out_Of_Bounds))"

definition init :: "'a option \<Rightarrow> err + 'a" where
  "init x = (case x of None \<Rightarrow> Inl (Fault Indeterminate) | Some y \<Rightarrow> Inr y)"

section \<open>Splitting by function\<close>

text \<open>
  The loop of \<open>dissect_jited_func\<close>. The record \<open>i\<close> is at the offset \<open>i\<close> times the record size; \<open>last\<close> is the
  address of the record before it. The result is the number of functions found, the index of the last one's first record
  and the structure.
\<close>

function dissect_loop ::
  "u64 list \<Rightarrow> u32 list \<Rightarrow> nat \<Rightarrow> nat \<Rightarrow> nat \<Rightarrow> u64 \<Rightarrow> bpf_prog_linfo \<Rightarrow> err + (nat \<times> nat \<times> bpf_prog_linfo)" where
  "dissect_loop ksym_func ksym_len i prev_i f last_jited_linfo p =
     (if i < unat (li_nr_linfo p) \<and> f < unat (li_nr_jited_func p) then
        bindR (rd 8 (i * unat (li_jited_rec_size p)) (li_raw_jited_linfo p)) (\<lambda>jited_linfo.
        bindR (at ksym_func f) (\<lambda>ksym.
          if ksym = jited_linfo then
            bindR (put (li_jited_linfo_func_idx p) f (Some (of_nat i))) (\<lambda>idx.
            bindR (at ksym_func (f - 1)) (\<lambda>prev_ksym.
            bindR (at ksym_len (f - 1)) (\<lambda>len.
              if last_jited_linfo - prev_ksym + 1 > ucast len then Inl (Errno (- EINVAL))
              else bindR (put (li_nr_jited_linfo_per_func p) (f - 1) (Some (of_nat i - of_nat prev_i))) (\<lambda>nr.
                dissect_loop ksym_func ksym_len (i + 1) i (f + 1) jited_linfo
                  (p\<lparr>li_jited_linfo_func_idx := idx, li_nr_jited_linfo_per_func := nr\<rparr>)))))
          else if jited_linfo \<le> last_jited_linfo then Inl (Errno (- EINVAL))
          else dissect_loop ksym_func ksym_len (i + 1) prev_i f jited_linfo p))
      else Inr (f, prev_i, p))"
  by pat_completeness auto
termination
  by (relation "measure (\<lambda>(ksym_func, ksym_len, i, prev_i, f, l, p). unat (li_nr_linfo p) - i)") auto

declare dissect_loop.simps [simp del]

definition dissect_jited_func :: "u64 list \<Rightarrow> u32 list \<Rightarrow> bpf_prog_linfo \<Rightarrow> err + bpf_prog_linfo" where
  "dissect_jited_func ksym_func ksym_len p =
     bindR (at ksym_func 0) (\<lambda>k0.
     bindR (rd 8 0 (li_raw_jited_linfo p)) (\<lambda>jited_linfo.
       if k0 \<noteq> jited_linfo then Inl (Errno (- EINVAL))
       else
         bindR (put (li_jited_linfo_func_idx p) 0 (Some 0)) (\<lambda>idx.
         bindR (dissect_loop ksym_func ksym_len 1 0 1 jited_linfo (p\<lparr>li_jited_linfo_func_idx := idx\<rparr>)) (\<lambda>(f, prev_i, p).
           if f \<noteq> unat (li_nr_jited_func p) then Inl (Errno (- EINVAL))
           else bindR (put (li_nr_jited_linfo_per_func p) (f - 1) (Some (li_nr_linfo p - of_nat prev_i))) (\<lambda>nr.
             Inr (p\<lparr>li_nr_jited_linfo_per_func := nr\<rparr>))))))"

section \<open>Construction\<close>

text \<open>
  \<open>alloc i\<close> is the answer of the allocator to the call \<open>i\<close>; only the first failure is reported as such.
  The copies read as many bytes as the counts and sizes say.
\<close>

definition copy :: "u8 list \<Rightarrow> nat \<Rightarrow> err + u8 list" where
  "copy src n = (if n \<le> length src then Inr (take n src) else Inl (Fault Out_Of_Bounds))"

definition need_alloc :: "bool \<Rightarrow> err + unit" where
  "need_alloc ok = (if ok then Inr () else Inl (Errno (- EINVAL)))"

definition new_jited :: "(nat \<Rightarrow> bool) \<Rightarrow> prog_info \<Rightarrow> bpf_prog_linfo \<Rightarrow> err + bpf_prog_linfo" where
  "new_jited alloc info p =
     (let nr_jited_func = pi_nr_jited_ksyms info in
      case (pi_jited_line_info info, pi_jited_ksyms info, pi_jited_func_lens info) of
        (Some jited, Some ksyms, Some lens) \<Rightarrow>
          if nr_jited_func = 0 \<or> pi_nr_jited_line_info info \<noteq> li_nr_linfo p \<or> pi_jited_line_info_rec_size info < 8 \<or>
             pi_nr_jited_func_lens info \<noteq> nr_jited_func
          then Inr p
          else
            bindR (need_alloc (alloc 2)) (\<lambda>_.
            bindR (copy jited (unat (li_nr_linfo p) * unat (pi_jited_line_info_rec_size info))) (\<lambda>raw_jited.
            bindR (need_alloc (alloc 3)) (\<lambda>_.
            bindR (need_alloc (alloc 4)) (\<lambda>_.
              dissect_jited_func ksyms lens
                (p\<lparr>li_nr_jited_func := nr_jited_func, li_jited_rec_size := pi_jited_line_info_rec_size info,
                   li_raw_jited_linfo := raw_jited, li_nr_jited_linfo_per_func := replicate (unat nr_jited_func) None,
                   li_jited_linfo_func_idx := replicate (unat nr_jited_func) None\<rparr>)))))
      | _ \<Rightarrow> Inr p)"

definition bpf_prog_linfo__new :: "(nat \<Rightarrow> bool) \<Rightarrow> prog_info \<Rightarrow> err + bpf_prog_linfo" where
  "bpf_prog_linfo__new alloc info =
     (let nr_linfo = pi_nr_line_info info in
      if nr_linfo = 0 then Inl (Errno (- EINVAL))
      else if pi_line_info_rec_size info < 4 then Inl (Errno (- EINVAL))
      else if \<not> alloc 0 then Inl (Errno (- ENOMEM))
      else
        bindR (need_alloc (alloc 1)) (\<lambda>_.
        bindR (copy (pi_line_info info) (unat nr_linfo * unat (pi_line_info_rec_size info))) (\<lambda>raw.
          new_jited alloc info
            \<lparr>li_raw_linfo = raw, li_raw_jited_linfo = [], li_nr_jited_linfo_per_func = [], li_jited_linfo_func_idx = [],
             li_nr_linfo = nr_linfo, li_nr_jited_func = 0, li_rec_size = pi_line_info_rec_size info, li_jited_rec_size = 0\<rparr>)))"

section \<open>Search\<close>

text \<open>
  The loop over the records of a function. Offsets are those of the next record; the result is the offset of
  the record the loop stops at.
\<close>

fun addr_loop :: "u64 \<Rightarrow> bpf_prog_linfo \<Rightarrow> nat \<Rightarrow> nat \<Rightarrow> nat \<Rightarrow> err + nat" where
  "addr_loop addr p 0 raw raw_jited = Inr raw"
| "addr_loop addr p (Suc n) raw raw_jited =
     bindR (rd 8 raw_jited (li_raw_jited_linfo p)) (\<lambda>jited_linfo.
       if addr < jited_linfo then Inr raw
       else addr_loop addr p n (raw + unat (li_rec_size p)) (raw_jited + unat (li_jited_rec_size p)))"

text \<open>
  The result is the offset of a record in \<open>li_raw_linfo\<close>. The products with the record sizes have 32 bits.
\<close>

definition bpf_prog_linfo__lfind_addr_func :: "bpf_prog_linfo \<Rightarrow> u64 \<Rightarrow> u32 \<Rightarrow> u32 \<Rightarrow> err + nat" where
  "bpf_prog_linfo__lfind_addr_func p addr func_idx nr_skip =
     (if func_idx \<ge> li_nr_jited_func p then Inl (Errno (- ENOENT))
      else
        bindR (bindR (at (li_nr_jited_linfo_per_func p) (unat func_idx)) init) (\<lambda>nr_linfo.
          if nr_skip \<ge> nr_linfo then Inl (Errno (- ENOENT))
          else bindR (bindR (at (li_jited_linfo_func_idx p) (unat func_idx)) init) (\<lambda>idx.
            let start = idx + nr_skip; raw_jited = unat (start * li_jited_rec_size p) in
            bindR (rd 8 raw_jited (li_raw_jited_linfo p)) (\<lambda>jited_linfo.
              if addr < jited_linfo then Inl (Errno (- ENOENT))
              else bindR (addr_loop addr p (unat (nr_linfo - nr_skip)) (unat (start * li_rec_size p)) raw_jited) (\<lambda>raw.
                Inr (raw - unat (li_rec_size p)))))))"

fun insn_loop :: "u32 \<Rightarrow> bpf_prog_linfo \<Rightarrow> nat \<Rightarrow> nat \<Rightarrow> err + nat" where
  "insn_loop insn_off p 0 raw = Inr raw"
| "insn_loop insn_off p (Suc n) raw =
     bindR (rd 4 raw (li_raw_linfo p)) (\<lambda>off.
       if insn_off < off then Inr raw else insn_loop insn_off p n (raw + unat (li_rec_size p)))"

definition bpf_prog_linfo__lfind :: "bpf_prog_linfo \<Rightarrow> u32 \<Rightarrow> u32 \<Rightarrow> err + nat" where
  "bpf_prog_linfo__lfind p insn_off nr_skip =
     (if nr_skip \<ge> li_nr_linfo p then Inl (Errno (- ENOENT))
      else
       (let raw = unat (nr_skip * li_rec_size p) in
        bindR (rd 4 raw (li_raw_linfo p)) (\<lambda>off.
          if insn_off < off then Inl (Errno (- ENOENT))
          else bindR (insn_loop insn_off p (unat (li_nr_linfo p - nr_skip)) raw) (\<lambda>raw. Inr (raw - unat (li_rec_size p))))))"

section \<open>Records and functions\<close>

abbreviation nr_recs :: "bpf_prog_linfo \<Rightarrow> nat" where "nr_recs p \<equiv> unat (li_nr_linfo p)"
abbreviation nr_funcs :: "bpf_prog_linfo \<Rightarrow> nat" where "nr_funcs p \<equiv> unat (li_nr_jited_func p)"

text \<open>The address of a record of machine code and the instruction of a record.\<close>

definition rec_addr :: "bpf_prog_linfo \<Rightarrow> nat \<Rightarrow> u64" where
  "rec_addr p k = from_le (take 8 (drop (k * unat (li_jited_rec_size p)) (li_raw_jited_linfo p)))"

definition rec_insn :: "bpf_prog_linfo \<Rightarrow> nat \<Rightarrow> u32" where
  "rec_insn p k = from_le (take 4 (drop (k * unat (li_rec_size p)) (li_raw_linfo p)))"

definition jited_sized :: "bpf_prog_linfo \<Rightarrow> bool" where
  "jited_sized p \<longleftrightarrow> 8 \<le> unat (li_jited_rec_size p) \<and> length (li_raw_jited_linfo p) = nr_recs p * unat (li_jited_rec_size p) \<and>
     length (li_nr_jited_linfo_per_func p) = nr_funcs p \<and> length (li_jited_linfo_func_idx p) = nr_funcs p"

definition insn_sized :: "bpf_prog_linfo \<Rightarrow> bool" where
  "insn_sized p \<longleftrightarrow> 0 < nr_recs p \<and> 4 \<le> unat (li_rec_size p) \<and> length (li_raw_linfo p) = nr_recs p * unat (li_rec_size p)"

text \<open>The records up to \<open>i\<close> are split at the indices \<open>starts\<close>; \<open>ends\<close> is where the functions end.\<close>

definition func_end :: "nat list \<Rightarrow> nat \<Rightarrow> nat \<Rightarrow> nat" where
  "func_end starts n f = (if f + 1 < length starts then starts ! (f + 1) else n)"

definition split_upto :: "u64 list \<Rightarrow> u32 list \<Rightarrow> nat list \<Rightarrow> nat \<Rightarrow> bpf_prog_linfo \<Rightarrow> bool" where
  "split_upto ksyms lens starts i p \<longleftrightarrow>
     starts \<noteq> [] \<and> starts ! 0 = 0 \<and> sorted_wrt (<) starts \<and> last starts < i \<and> i \<le> nr_recs p \<and> length starts \<le> nr_funcs p \<and>
     (\<forall>g<length starts. li_jited_linfo_func_idx p ! g = Some (of_nat (starts ! g)) \<and> rec_addr p (starts ! g) = ksyms ! g) \<and>
     (\<forall>g. g + 1 < length starts \<longrightarrow> li_nr_jited_linfo_per_func p ! g = Some (of_nat (starts ! (g + 1) - starts ! g))) \<and>
     (\<forall>k. 0 < k \<longrightarrow> k < i \<longrightarrow> k \<notin> set starts \<longrightarrow> rec_addr p (k - 1) < rec_addr p k) \<and>
     (\<forall>g. g + 1 < length starts \<longrightarrow> rec_addr p (starts ! (g + 1) - 1) - ksyms ! g + 1 \<le> ucast (lens ! g)) \<and>
     (\<forall>g k. g + 1 < length starts \<longrightarrow> starts ! g < k \<longrightarrow> k < starts ! (g + 1) \<longrightarrow> rec_addr p k \<noteq> ksyms ! (g + 1)) \<and>
     (\<forall>k. last starts < k \<longrightarrow> k < i \<longrightarrow> length starts < nr_funcs p \<longrightarrow> rec_addr p k \<noteq> ksyms ! length starts)"

definition same_linfo :: "bpf_prog_linfo \<Rightarrow> bpf_prog_linfo \<Rightarrow> bool" where
  "same_linfo p q \<longleftrightarrow> li_raw_linfo q = li_raw_linfo p \<and> li_raw_jited_linfo q = li_raw_jited_linfo p \<and> li_nr_linfo q = li_nr_linfo p \<and>
     li_nr_jited_func q = li_nr_jited_func p \<and> li_rec_size q = li_rec_size p \<and> li_jited_rec_size q = li_jited_rec_size p"

lemma same_linfo_addr: "same_linfo p q \<Longrightarrow> rec_addr q = rec_addr p"
  by (simp add: same_linfo_def rec_addr_def fun_eq_iff)

lemma sorted_less_last:
  assumes "sorted_wrt (<) (xs :: nat list)" "x \<in> set xs"
  shows "x \<le> last xs"
proof -
  have "xs = butlast xs @ [last xs]" using assms(2) by (cases xs rule: rev_cases) auto
  then have "x \<in> set (butlast xs) \<or> x = last xs" "\<forall>y\<in>set (butlast xs). y < last xs"
    using assms by (metis Un_iff empty_iff insert_iff list.set set_append, metis list.set_intros(1) sorted_wrt_append)
  then show ?thesis by auto
qed

lemma rec_fits:
  assumes "k < n" "w \<le> sz"
  shows "k * sz + w \<le> n * (sz :: nat)"
proof -
  have "k * sz + w \<le> (k + 1) * sz" using assms(2) by simp
  also have "\<dots> \<le> n * sz" using assms(1) by (intro mult_le_mono1) simp
  finally show ?thesis .
qed

lemma rd_addr: "jited_sized p \<Longrightarrow> k < nr_recs p \<Longrightarrow> rd 8 (k * unat (li_jited_rec_size p)) (li_raw_jited_linfo p) = Inr (rec_addr p k)"
  using rec_fits [of k "nr_recs p" 8 "unat (li_jited_rec_size p)"] by (simp add: rd_def read_le_def rec_addr_def jited_sized_def)

lemma rd_insn: "insn_sized p \<Longrightarrow> k < nr_recs p \<Longrightarrow> rd 4 (k * unat (li_rec_size p)) (li_raw_linfo p) = Inr (rec_insn p k)"
  using rec_fits [of k "nr_recs p" 4 "unat (li_rec_size p)"] by (simp add: rd_def read_le_def rec_insn_def insn_sized_def)

lemma rec_addr_update [simp]:
  "rec_addr (p\<lparr>li_jited_linfo_func_idx := idx\<rparr>) = rec_addr p" "rec_addr (p\<lparr>li_nr_jited_linfo_per_func := nr\<rparr>) = rec_addr p"
  by (simp_all add: rec_addr_def fun_eq_iff)

text \<open>One more function is found, or one more record of the last one.\<close>

lemma split_next_func:
  assumes s: "split_upto ksyms lens starts i p" and i: "i < nr_recs p" and f: "length starts < nr_funcs p"
    and sz: "jited_sized p" and k: "rec_addr p i = ksyms ! length starts"
    and l: "rec_addr p (i - 1) - ksyms ! (length starts - 1) + 1 \<le> ucast (lens ! (length starts - 1))"
  shows "split_upto ksyms lens (starts @ [i]) (i + 1) (p\<lparr>li_jited_linfo_func_idx := (li_jited_linfo_func_idx p)[length starts := Some (of_nat i)],
    li_nr_jited_linfo_per_func := (li_nr_jited_linfo_per_func p)[length starts - 1 := Some (of_nat (i - last starts))]\<rparr>)"
proof -
  let ?n = "length starts"
  have ne: "starts \<noteq> []" and srt: "sorted_wrt (<) starts" and last: "last starts < i" using s by (simp_all add: split_upto_def)
  have lt: "x < i" if "x \<in> set starts" for x using sorted_less_last [OF srt that] last by simp
  have prev: "starts ! (?n - 1) = last starts" using ne by (simp add: last_conv_nth)
  have n: "?n - 1 < nr_funcs p" "?n - 1 + 1 = ?n" using f ne by (cases starts; simp)+
  define q where "q = p\<lparr>li_jited_linfo_func_idx := (li_jited_linfo_func_idx p)[?n := Some (of_nat i)],
    li_nr_jited_linfo_per_func := (li_nr_jited_linfo_per_func p)[?n - 1 := Some (of_nat (i - last starts))]\<rparr>"
  have q: "rec_addr q = rec_addr p" "nr_recs q = nr_recs p" "nr_funcs q = nr_funcs p" by (simp_all add: q_def)
  have app: "(starts @ [i]) ! g = (if g < ?n then starts ! g else i)" if "g \<le> ?n" for g using that by (simp add: nth_append)
  have last_g: "g = ?n - 1" "starts ! g = last starts" if "g + 1 < ?n + 1" "\<not> g + 1 < ?n" for g
  proof -
    show g: "g = ?n - 1" using that by simp
    show "starts ! g = last starts" unfolding g by (rule prev)
  qed
  have "split_upto ksyms lens (starts @ [i]) (i + 1) q"
    unfolding split_upto_def q
  proof (intro conjI allI impI)
    show "sorted_wrt (<) (starts @ [i])" using srt lt by (simp add: sorted_wrt_append)
    show "(starts @ [i]) ! 0 = 0" using s ne by (simp add: split_upto_def nth_append)
    fix g
    show "li_jited_linfo_func_idx q ! g = Some (of_nat ((starts @ [i]) ! g))" "rec_addr p ((starts @ [i]) ! g) = ksyms ! g"
      if "g < length (starts @ [i])"
      using that s f sz k app [of g] by (auto simp: q_def split_upto_def jited_sized_def nth_list_update less_Suc_eq)
    assume g: "g + 1 < length (starts @ [i])"
    show "li_nr_jited_linfo_per_func q ! g = Some (of_nat ((starts @ [i]) ! (g + 1) - (starts @ [i]) ! g))"
      using g s f sz n prev app [of g] app [of "g + 1"]
      by (cases "g + 1 < ?n") (auto simp: q_def split_upto_def jited_sized_def nth_list_update dest: last_g)
    show "rec_addr p ((starts @ [i]) ! (g + 1) - 1) - ksyms ! g + 1 \<le> ucast (lens ! g)"
      using g s l app [of "g + 1"] last_g [of g] by (cases "g + 1 < ?n") (auto simp: split_upto_def)
    fix k' assume "(starts @ [i]) ! g < k'" "k' < (starts @ [i]) ! (g + 1)"
    then show "rec_addr p k' \<noteq> ksyms ! (g + 1)"
      using g s f n app [of g] app [of "g + 1"] last_g [of g] by (cases "g + 1 < ?n") (auto simp: split_upto_def)
  qed (use s i f in \<open>auto simp: split_upto_def less_Suc_eq\<close>)
  then show ?thesis by (simp add: q_def)
qed

lemma split_next_rec:
  assumes "split_upto ksyms lens starts i p" "i < nr_recs p" "rec_addr p (i - 1) < rec_addr p i"
    "length starts < nr_funcs p \<Longrightarrow> rec_addr p i \<noteq> ksyms ! length starts"
  shows "split_upto ksyms lens starts (i + 1) p"
  using assms by (auto simp: split_upto_def less_Suc_eq)

text \<open>One turn of the loop: the record starts the next function, belongs to the last one, or is refused.\<close>

definition next_func :: "nat list \<Rightarrow> nat \<Rightarrow> bpf_prog_linfo \<Rightarrow> bpf_prog_linfo" where
  "next_func starts i p = p\<lparr>li_jited_linfo_func_idx := (li_jited_linfo_func_idx p)[length starts := Some (of_nat i)],
     li_nr_jited_linfo_per_func := (li_nr_jited_linfo_per_func p)[length starts - 1 := Some (of_nat (i - last starts))]\<rparr>"

lemma next_func_same: "jited_sized p \<Longrightarrow> jited_sized (next_func starts i p)" "same_linfo p (next_func starts i p)"
  "nr_recs (next_func starts i p) = nr_recs p" "nr_funcs (next_func starts i p) = nr_funcs p" "rec_addr (next_func starts i p) = rec_addr p"
  by (simp_all add: next_func_def jited_sized_def same_linfo_def)

lemma dissect_loop_step:
  assumes s: "split_upto ksyms lens starts i p" and sz: "jited_sized p" and k: "nr_funcs p \<le> length ksyms" "nr_funcs p \<le> length lens"
    and i: "i < nr_recs p" "length starts < nr_funcs p"
  shows "dissect_loop ksyms lens i (last starts) (length starts) (rec_addr p (i - 1)) p =
      (if ksyms ! length starts = rec_addr p i then
         if rec_addr p (i - 1) - ksyms ! (length starts - 1) + 1 > ucast (lens ! (length starts - 1)) then Inl (Errno (- EINVAL))
         else dissect_loop ksyms lens (i + 1) (last (starts @ [i])) (length (starts @ [i])) (rec_addr p i) (next_func starts i p)
       else if rec_addr p i \<le> rec_addr p (i - 1) then Inl (Errno (- EINVAL))
       else dissect_loop ksyms lens (i + 1) (last starts) (length starts) (rec_addr p i) p)"
    and "ksyms ! length starts = rec_addr p i \<Longrightarrow>
      rec_addr p (i - 1) - ksyms ! (length starts - 1) + 1 \<le> ucast (lens ! (length starts - 1)) \<Longrightarrow> split_upto ksyms lens (starts @ [i]) (i + 1) (next_func starts i p)"
proof -
  let ?f = "length starts"
  have r: "rd 8 (i * unat (li_jited_rec_size p)) (li_raw_jited_linfo p) = Inr (rec_addr p i)"
    "at ksyms ?f = Inr (ksyms ! ?f)" "at ksyms (?f - 1) = Inr (ksyms ! (?f - 1))" "at lens (?f - 1) = Inr (lens ! (?f - 1))"
    using assms rd_addr [of p i] by (auto simp: at_def)
  have l: "last starts < i" "0 < i" using s by (auto simp: split_upto_def)
  have w: "put (li_jited_linfo_func_idx p) ?f (Some (of_nat i)) = Inr ((li_jited_linfo_func_idx p)[?f := Some (of_nat i)])"
    "put (li_nr_jited_linfo_per_func p) (?f - 1) (Some (of_nat i - of_nat (last starts))) =
     Inr ((li_nr_jited_linfo_per_func p)[?f - 1 := Some (of_nat (i - last starts))])"
    using i sz l by (auto simp: put_def jited_sized_def of_nat_diff)
  show "dissect_loop ksyms lens i (last starts) (length starts) (rec_addr p (i - 1)) p =
      (if ksyms ! length starts = rec_addr p i then
         if rec_addr p (i - 1) - ksyms ! (length starts - 1) + 1 > ucast (lens ! (length starts - 1)) then Inl (Errno (- EINVAL))
         else dissect_loop ksyms lens (i + 1) (last (starts @ [i])) (length (starts @ [i])) (rec_addr p i) (next_func starts i p)
       else if rec_addr p i \<le> rec_addr p (i - 1) then Inl (Errno (- EINVAL))
       else dissect_loop ksyms lens (i + 1) (last starts) (length starts) (rec_addr p i) p)"
    by (subst dissect_loop.simps)
      (simp only: i r w bindR.simps simp_thms if_True next_func_def last_snoc length_append_singleton Suc_eq_plus1)
  show "split_upto ksyms lens (starts @ [i]) (i + 1) (next_func starts i p)" if "ksyms ! length starts = rec_addr p i"
    "rec_addr p (i - 1) - ksyms ! (length starts - 1) + 1 \<le> ucast (lens ! (length starts - 1))"
    using split_next_func [OF s i sz] that by (simp add: next_func_def)
qed

lemma dissect_loop_ok:
  assumes "split_upto ksyms lens starts i p" "jited_sized p" "nr_funcs p \<le> length ksyms" "nr_funcs p \<le> length lens"
  shows "case dissect_loop ksyms lens i (last starts) (length starts) (rec_addr p (i - 1)) p of
      Inl e \<Rightarrow> e = Errno (- EINVAL)
    | Inr (f, prev_i, q) \<Rightarrow> \<exists>starts' i'. f = length starts' \<and> prev_i = last starts' \<and> split_upto ksyms lens starts' i' q \<and> jited_sized q \<and>
        same_linfo p q"
  using assms
proof (induction "nr_recs p - i" arbitrary: starts i p rule: less_induct)
  case less
  show ?case
  proof (cases "i < nr_recs p \<and> length starts < nr_funcs p")
    case False
    then show ?thesis using less.prems by (subst dissect_loop.simps) (auto simp: same_linfo_def)
  next
    case True
    then have i: "i < nr_recs p" "length starts < nr_funcs p" by simp_all
    note step = dissect_loop_step [OF less.prems i]
    show ?thesis
    proof (cases "ksyms ! length starts = rec_addr p i")
      case same: True
      show ?thesis
        using less.hyps [of "next_func starts i p" "i + 1" "starts @ [i]"] step(2) same less.prems(2-4) True
          next_func_same unfolding step(1)
        by (auto simp: same_linfo_def split: sum.splits if_splits)
    next
      case False
      then show ?thesis using less.hyps [of p "i + 1" starts] split_next_rec [OF less.prems(1)] less.prems(2-4) True unfolding step(1)
        by (auto simp: not_le split: sum.splits if_splits)
    qed
  qed
qed

text \<open>
  When the records can be split: from its first record on, which is the first one with the address of the function, the
  addresses of a function rise until the first one with the address of the next function, and the last of
  them lies within the length of the function. The search finds this split.
\<close>

definition starts_fit :: "u64 list \<Rightarrow> u32 list \<Rightarrow> (nat \<Rightarrow> u64) \<Rightarrow> nat \<Rightarrow> nat list \<Rightarrow> bool" where
  "starts_fit ksyms lens addr n starts \<longleftrightarrow> starts \<noteq> [] \<and> starts ! 0 = 0 \<and> sorted_wrt (<) (starts @ [n]) \<and>
     (\<forall>f<length starts. addr (starts ! f) = ksyms ! f) \<and>
     (\<forall>f. f + 1 < length starts \<longrightarrow> addr (starts ! (f + 1) - 1) - ksyms ! f + 1 \<le> ucast (lens ! f)) \<and>
     (\<forall>f k. f + 1 < length starts \<longrightarrow> starts ! f < k \<longrightarrow> k < starts ! (f + 1) \<longrightarrow> addr (k - 1) < addr k \<and> addr k \<noteq> ksyms ! (f + 1))"

lemma starts_fit_mono: "starts_fit ksyms lens addr n starts \<Longrightarrow> f < g \<Longrightarrow> g < length starts \<Longrightarrow> starts ! f < starts ! g"
  by (auto simp: starts_fit_def sorted_wrt_append intro: sorted_wrt_nth_less)

lemma starts_fit_less: "starts_fit ksyms lens addr n starts \<Longrightarrow> f < length starts \<Longrightarrow> starts ! f < n"
  by (auto simp: starts_fit_def sorted_wrt_append)

lemma dissect_loop_complete:
  assumes "split_upto ksyms lens (take f fit) i p" "jited_sized p" "nr_funcs p \<le> length ksyms" "nr_funcs p \<le> length lens"
    and "starts_fit ksyms lens (rec_addr p) (nr_recs p) fit" "length fit = nr_funcs p" "0 < f" "f \<le> length fit"
    and "f < length fit \<Longrightarrow> i \<le> fit ! f"
  shows "\<exists>prev_i q. dissect_loop ksyms lens i (last (take f fit)) f (rec_addr p (i - 1)) p = Inr (nr_funcs p, prev_i, q)"
  using assms
proof (induction "nr_recs p - i" arbitrary: f i p rule: less_induct)
  case less
  show ?case
  proof (cases "f < length fit")
    case False
    then show ?thesis using less.prems(6,8) by (subst dissect_loop.simps) auto
  next
    case f: True
    note fit = less.prems(5) [unfolded starts_fit_def]
    have len: "length (take f fit) = f" using f by simp
    have i: "i < nr_recs p" using less.prems(9) [OF f] starts_fit_less [OF less.prems(5) f] by simp
    have fn: "f < nr_funcs p" using f less.prems(6) by simp
    note step = dissect_loop_step [OF less.prems(1-4), unfolded len, OF i fn]
    have prev: "last (take f fit) = fit ! (f - 1)" using f less.prems(7) by (subst last_conv_nth) auto
    have f1: "f - 1 + 1 = f" using less.prems(7) by simp
    show ?thesis
    proof (cases "i = fit ! f")
      case True
      have k: "rec_addr p i = ksyms ! f" "rec_addr p (i - 1) - ksyms ! (f - 1) + 1 \<le> ucast (lens ! (f - 1))"
        using fit f f1 True by metis+
      have take: "take f fit @ [i] = take (Suc f) fit" using True f by (simp add: take_Suc_conv_app_nth)
      have lenS: "length (take (Suc f) fit) = Suc f" using f by simp
      have nxt: "i + 1 \<le> fit ! Suc f" if "Suc f < length fit"
        using starts_fit_mono [OF less.prems(5), of f "Suc f"] that True by simp
      have run: "dissect_loop ksyms lens i (last (take f fit)) f (rec_addr p (i - 1)) p =
          dissect_loop ksyms lens (i + 1) (last (take (Suc f) fit)) (Suc f) (rec_addr p i) (next_func (take f fit) i p)"
        using k(2) by (simp only: step(1) k(1) [symmetric] not_less [symmetric] if_True if_False take lenS refl simp_thms)
      have "split_upto ksyms lens (take (Suc f) fit) (i + 1) (next_func (take f fit) i p)" using step(2) k take by simp
      then show ?thesis
        using less.hyps [of "next_func (take f fit) i p" "i + 1" "Suc f"] less.prems i f nxt next_func_same unfolding run
        by (auto simp: starts_fit_def)
    next
      case False
      have lt: "fit ! (f - 1) < i" using less.prems(1) prev by (simp add: split_upto_def)
      then have k: "rec_addr p (i - 1) < rec_addr p i" "rec_addr p i \<noteq> ksyms ! f"
        using fit f f1 False less.prems(9) [OF f] by (metis le_neq_implies_less)+
      then have run: "dissect_loop ksyms lens i (last (take f fit)) f (rec_addr p (i - 1)) p =
          dissect_loop ksyms lens (i + 1) (last (take f fit)) f (rec_addr p i) p"
        by (simp only: step(1)) (auto simp: not_le)
      have nxt: "Suc i \<le> fit ! f" "nr_recs p - Suc i < nr_recs p - i" using less.prems(9) [OF f] False i by simp_all
      show ?thesis
        using less.hyps [of p "i + 1" f] nxt split_next_rec [OF less.prems(1) i k(1)] k(2) len less.prems i unfolding run by simp
    qed
  qed
qed

text \<open>What a successful split leaves: every function has a first record, at its address, and all records up to the next.\<close>

definition functions_split :: "u64 list \<Rightarrow> nat list \<Rightarrow> bpf_prog_linfo \<Rightarrow> bool" where
  "functions_split ksyms starts p \<longleftrightarrow> length starts = nr_funcs p \<and> starts ! 0 = 0 \<and> sorted_wrt (<) (starts @ [nr_recs p]) \<and>
     (\<forall>f<nr_funcs p. li_jited_linfo_func_idx p ! f = Some (of_nat (starts ! f)) \<and> rec_addr p (starts ! f) = ksyms ! f \<and>
        li_nr_jited_linfo_per_func p ! f = Some (of_nat (func_end starts (nr_recs p) f - starts ! f))) \<and>
     (\<forall>f k. f + 1 < nr_funcs p \<longrightarrow> starts ! f < k \<longrightarrow> k < starts ! (f + 1) \<longrightarrow> rec_addr p (k - 1) < rec_addr p k)"

lemma between_starts:
  assumes "sorted_wrt (<) (starts :: nat list)" "f + 1 < length starts" "starts ! f < k" "k < starts ! (f + 1)"
  shows "k \<notin> set starts"
proof
  assume "k \<in> set starts"
  then obtain j where j: "j < length starts" "starts ! j = k" by (auto simp: in_set_conv_nth)
  have mono: "a < b \<Longrightarrow> b < length starts \<Longrightarrow> starts ! a < starts ! b" for a b using assms(1) by (simp add: sorted_wrt_iff_nth_less)
  have "f < j" "j < f + 1" using mono [of j f] mono [of "f + 1" j] assms(2-4) j by (metis linorder_neqE_nat less_asym less_irrefl Suc_eq_plus1 Suc_lessD)+
  then show False by simp
qed

lemma split_fits:
  assumes s: "split_upto ksyms lens starts i p"
  shows "starts_fit ksyms lens (rec_addr p) (nr_recs p) starts"
proof -
  have srt: "sorted_wrt (<) starts" "last starts < i" "i \<le> nr_recs p" using s by (auto simp: split_upto_def)
  have lt: "x < i" if "x \<in> set starts" for x using sorted_less_last [OF srt(1) that] srt(2) by simp
  have rise: "rec_addr p (k - 1) < rec_addr p k" if "g + 1 < length starts" "starts ! g < k" "k < starts ! (g + 1)" for g k
  proof -
    have "k < i" using lt [of "starts ! (g + 1)"] that by simp
    then show ?thesis using between_starts [OF srt(1) that] that s by (auto simp: split_upto_def)
  qed
  have "sorted_wrt (<) (starts @ [nr_recs p])" using srt lt by (auto simp: sorted_wrt_append intro: less_le_trans)
  then show ?thesis using s rise unfolding starts_fit_def split_upto_def by blast
qed

lemma split_complete:
  assumes sp: "split_upto ksyms lens starts i q" and sz: "jited_sized q" and len: "length starts = nr_funcs q"
  shows "functions_split ksyms starts
    (q\<lparr>li_nr_jited_linfo_per_func := (li_nr_jited_linfo_per_func q)[length starts - 1 := Some (li_nr_linfo q - of_nat (last starts))]\<rparr>)"
  unfolding functions_split_def
proof (simp, intro conjI allI impI)
  show "length starts = nr_funcs q" "starts ! 0 = 0" using len sp by (simp_all add: split_upto_def)
  have srt: "sorted_wrt (<) starts" and ne: "starts \<noteq> []" "last starts < nr_recs q" using sp by (auto simp: split_upto_def)
  show "sorted_wrt (<) (starts @ [nr_recs q])" using srt le_less_trans [OF sorted_less_last [OF srt] ne(2)] by (simp add: sorted_wrt_append)
  have last_nr: "li_nr_linfo q - of_nat (last starts) = of_nat (nr_recs q - last starts)" using ne(2) by (simp add: of_nat_diff)
  fix g assume g: "g < nr_funcs q"
  show "li_jited_linfo_func_idx q ! g = Some (of_nat (starts ! g))" "rec_addr q (starts ! g) = ksyms ! g"
    using sp g len by (auto simp: split_upto_def)
  show "(li_nr_jited_linfo_per_func q)[length starts - Suc 0 := Some (li_nr_linfo q - of_nat (last starts))] ! g =
      Some (of_nat (func_end starts (nr_recs q) g - starts ! g))"
  proof (cases "g + 1 < length starts")
    case True
    then show ?thesis using sp by (simp add: func_end_def split_upto_def)
  next
    case False
    then have "g = length starts - 1" using g len by simp
    then show ?thesis using False ne g len sz last_nr by (simp add: func_end_def last_conv_nth jited_sized_def)
  qed
next
  fix g k assume g: "Suc g < nr_funcs q" "starts ! g < k" "k < starts ! Suc g"
  have "k \<notin> set starts" by (rule between_starts [of _ g]) (use sp g len in \<open>auto simp: split_upto_def\<close>)
  moreover have "starts ! Suc g \<le> last starts" using sp g len by (intro sorted_less_last) (auto simp: split_upto_def)
  ultimately show "rec_addr q (k - Suc 0) < rec_addr q k" using sp g by (auto simp: split_upto_def)
qed

lemma dissect_ok:
  assumes sz: "jited_sized p" and n: "0 < nr_recs p" "0 < nr_funcs p" and k: "nr_funcs p \<le> length ksyms" "nr_funcs p \<le> length lens"
  shows "case dissect_jited_func ksyms lens p of Inl e \<Rightarrow> e = Errno (- EINVAL) \<and>
        \<not> (\<exists>starts. length starts = nr_funcs p \<and> starts_fit ksyms lens (rec_addr p) (nr_recs p) starts)
    | Inr q \<Rightarrow> same_linfo p q \<and> jited_sized q \<and> (\<exists>starts. functions_split ksyms starts q \<and>
        starts_fit ksyms lens (rec_addr p) (nr_recs p) starts)"
proof -
  have r: "at ksyms 0 = Inr (ksyms ! 0)" "rd 8 0 (li_raw_jited_linfo p) = Inr (rec_addr p 0)"
    using n k rd_addr [OF sz n(1)] by (auto simp: at_def)
  show ?thesis
  proof (cases "ksyms ! 0 = rec_addr p 0")
    case False
    then show ?thesis using r n by (auto simp: dissect_jited_func_def starts_fit_def)
  next
    case True
    define p1 where "p1 = p\<lparr>li_jited_linfo_func_idx := (li_jited_linfo_func_idx p)[0 := Some 0]\<rparr>"
    have w: "put (li_jited_linfo_func_idx p) 0 (Some 0) = Inr ((li_jited_linfo_func_idx p)[0 := Some 0])"
      using sz n by (simp add: put_def jited_sized_def)
    have s1: "split_upto ksyms lens [0] 1 p1" "jited_sized p1" "same_linfo p p1"
      using sz n True by (auto simp: split_upto_def jited_sized_def p1_def same_linfo_def)
    have fn: "nr_funcs p1 = nr_funcs p" "rec_addr p1 = rec_addr p" by (simp_all add: p1_def)
    have nr1: "nr_recs p1 = nr_recs p" by (simp add: p1_def)
    note loop = dissect_loop_ok [OF s1(1,2), unfolded fn, OF k]
    have complete: "\<exists>prev_i q. dissect_loop ksyms lens 1 0 1 (rec_addr p 0) p1 = Inr (nr_funcs p, prev_i, q)"
      if fit: "length starts = nr_funcs p" "starts_fit ksyms lens (rec_addr p) (nr_recs p) starts" for starts
    proof -
      have t1: "take 1 starts = [0]" using fit by (cases starts) (auto simp: starts_fit_def)
      have "1 \<le> starts ! 1" if "1 < length starts"
        using starts_fit_mono [OF fit(2), of 0 1] that by simp
      then show ?thesis
        using dissect_loop_complete [of ksyms lens 1 starts 1 p1, unfolded t1 fn nr1] s1(1,2) k fit n(2) by simp
    qed
    show ?thesis
    proof (cases "dissect_loop ksyms lens 1 0 1 (rec_addr p 0) p1")
      case (Inl e)
      then have "\<not> (\<exists>starts. length starts = nr_funcs p \<and> starts_fit ksyms lens (rec_addr p) (nr_recs p) starts)"
        using complete by auto
      then show ?thesis using Inl loop r w True by (simp add: dissect_jited_func_def p1_def)
    next
      case (Inr x)
      obtain f prev q where x: "x = (f, prev, q)" by (metis prod.exhaust)
      obtain starts i where l: "f = length starts" "prev = last starts" "split_upto ksyms lens starts i q" "jited_sized q" "same_linfo p1 q"
        using loop Inr x by auto
      have d: "dissect_jited_func ksyms lens p = (if f \<noteq> nr_funcs q then Inl (Errno (- EINVAL))
        else bindR (put (li_nr_jited_linfo_per_func q) (f - 1) (Some (li_nr_linfo q - of_nat prev))) (\<lambda>nr. Inr (q\<lparr>li_nr_jited_linfo_per_func := nr\<rparr>)))"
        using r w True Inr x by (simp add: dissect_jited_func_def p1_def)
      show ?thesis
      proof (cases "f = nr_funcs q")
        case False
        then have "\<not> (\<exists>starts. length starts = nr_funcs p \<and> starts_fit ksyms lens (rec_addr p) (nr_recs p) starts)"
          using complete Inr x l(5) by (auto simp: same_linfo_def p1_def)
        then show ?thesis using d False by simp
      next
        case f: True
        define nr where "nr = (li_nr_jited_linfo_per_func q)[f - 1 := Some (li_nr_linfo q - of_nat prev)]"
        have ne: "starts \<noteq> []" "last starts < nr_recs q" using l(3) by (auto simp: split_upto_def)
        then have "put (li_nr_jited_linfo_per_func q) (f - 1) (Some (li_nr_linfo q - of_nat prev)) = Inr nr"
          using l(1,4) f by (cases starts) (auto simp: put_def nr_def jited_sized_def)
        then have d2: "dissect_jited_func ksyms lens p = Inr (q\<lparr>li_nr_jited_linfo_per_func := nr\<rparr>)" using d f by simp
        have "functions_split ksyms starts (q\<lparr>li_nr_jited_linfo_per_func := nr\<rparr>)"
          using split_complete [OF l(3,4)] f l(1,2) by (simp add: nr_def)
        moreover have "starts_fit ksyms lens (rec_addr p) (nr_recs p) starts"
          using split_fits [OF l(3)] same_linfo_addr [OF l(5)] l(5) fn nr1 by (simp add: same_linfo_def)
        moreover have "jited_sized (q\<lparr>li_nr_jited_linfo_per_func := nr\<rparr>)" "same_linfo p (q\<lparr>li_nr_jited_linfo_per_func := nr\<rparr>)"
          using l(4,5) s1(3) by (simp_all add: jited_sized_def same_linfo_def nr_def)
        ultimately show ?thesis unfolding d2 by auto
      qed
    qed
  qed
qed

section \<open>Search\<close>

lemma addr_loop_ok:
  assumes "jited_sized p" "start + n \<le> nr_recs p"
  shows "\<exists>k\<le>n. addr_loop addr p n (start * unat (li_rec_size p)) (start * unat (li_jited_rec_size p)) = Inr ((start + k) * unat (li_rec_size p)) \<and>
    (\<forall>j<k. rec_addr p (start + j) \<le> addr) \<and> (k = n \<or> addr < rec_addr p (start + k))"
  using assms(2)
proof (induction n arbitrary: start)
  case (Suc n)
  show ?case
  proof (cases "addr < rec_addr p start")
    case True
    then show ?thesis using rd_addr [OF assms(1), of start] Suc.prems by (intro exI [of _ 0]) simp
  next
    case False
    obtain k where k: "k \<le> n" "addr_loop addr p n (Suc start * unat (li_rec_size p)) (Suc start * unat (li_jited_rec_size p)) = Inr ((Suc start + k) * unat (li_rec_size p))"
      "\<forall>j<k. rec_addr p (Suc start + j) \<le> addr" "k = n \<or> addr < rec_addr p (Suc start + k)" using Suc.IH [of "Suc start"] Suc.prems by auto
    have "\<forall>j<Suc k. rec_addr p (start + j) \<le> addr" using k(3) False by (auto simp: less_Suc_eq_0_disj)
    then show ?thesis using rd_addr [OF assms(1), of start] Suc.prems k False by (intro exI [of _ "Suc k"]) (simp add: algebra_simps)
  qed
qed simp

lemma insn_loop_ok:
  assumes "insn_sized p" "start + n \<le> nr_recs p"
  shows "\<exists>k\<le>n. insn_loop off p n (start * unat (li_rec_size p)) = Inr ((start + k) * unat (li_rec_size p)) \<and>
    (\<forall>j<k. rec_insn p (start + j) \<le> off) \<and> (k = n \<or> off < rec_insn p (start + k))"
  using assms(2)
proof (induction n arbitrary: start)
  case (Suc n)
  show ?case
  proof (cases "off < rec_insn p start")
    case True
    then show ?thesis using rd_insn [OF assms(1), of start] Suc.prems by (intro exI [of _ 0]) simp
  next
    case False
    obtain k where k: "k \<le> n" "insn_loop off p n (Suc start * unat (li_rec_size p)) = Inr ((Suc start + k) * unat (li_rec_size p))"
      "\<forall>j<k. rec_insn p (Suc start + j) \<le> off" "k = n \<or> off < rec_insn p (Suc start + k)" using Suc.IH [of "Suc start"] Suc.prems by auto
    have "\<forall>j<Suc k. rec_insn p (start + j) \<le> off" using k(3) False by (auto simp: less_Suc_eq_0_disj)
    then show ?thesis using rd_insn [OF assms(1), of start] Suc.prems k False by (intro exI [of _ "Suc k"]) (simp add: algebra_simps)
  qed
qed simp

text \<open>
  The record \<open>k\<close> is the one a search among the records from \<open>a\<close> up to \<open>b\<close> finds: the keys up to it are not greater than
  the key looked for, the next one is, or there is none.
\<close>

definition found_rec :: "(nat \<Rightarrow> 'a::linorder) \<Rightarrow> 'a \<Rightarrow> nat \<Rightarrow> nat \<Rightarrow> nat \<Rightarrow> bool" where
  "found_rec rkey key a b k \<longleftrightarrow> a \<le> k \<and> k < b \<and> (\<forall>j. a \<le> j \<and> j \<le> k \<longrightarrow> rkey j \<le> key) \<and> (k + 1 = b \<or> key < rkey (k + 1))"

lemma found_recI:
  assumes "a < b" "k \<le> b - a" "\<forall>j<k. rkey (a + j) \<le> key" "k = b - a \<or> key < rkey (a + k)" "rkey a \<le> key"
  shows "0 < k \<and> found_rec rkey key a b (a + k - 1)"
proof
  show k: "0 < k" using assms by (cases k) auto
  have "rkey j \<le> key" if "a \<le> j" "j \<le> a + k - 1" for j using assms(3) [rule_format, of "j - a"] that k by auto
  then show "found_rec rkey key a b (a + k - 1)" using assms k by (auto simp: found_rec_def)
qed

lemma start_offset:
  assumes "k < n" "n * unat sz < 4294967296" "unat s = k"
  shows "unat (s * sz :: u32) = k * unat sz"
proof -
  have "k * unat sz \<le> n * unat sz" using assms(1) by (intro mult_le_mono1) simp
  then have "k * unat sz < 4294967296" using assms(2) by linarith
  then show ?thesis using unat_mult_small [of s sz] assms(3) by simp
qed

lemma lfind_insn:
  assumes sz: "insn_sized p" and w: "nr_recs p * unat (li_rec_size p) < 4294967296"
  shows "if unat nr_skip < nr_recs p \<and> rec_insn p (unat nr_skip) \<le> off
    then \<exists>k. bpf_prog_linfo__lfind p off nr_skip = Inr (k * unat (li_rec_size p)) \<and> found_rec (rec_insn p) off (unat nr_skip) (nr_recs p) k
    else bpf_prog_linfo__lfind p off nr_skip = Inl (Errno (- ENOENT))"
proof (cases "unat nr_skip < nr_recs p")
  case False
  then show ?thesis by (simp add: bpf_prog_linfo__lfind_def word_le_nat_alt)
next
  case True
  let ?a = "unat nr_skip"
  have o: "unat (nr_skip * li_rec_size p) = ?a * unat (li_rec_size p)" by (rule start_offset [OF True w refl])
  have n: "unat (li_nr_linfo p - nr_skip) = nr_recs p - ?a" using True by (simp add: unat_sub word_le_nat_alt)
  obtain k where k: "k \<le> nr_recs p - ?a" "insn_loop off p (nr_recs p - ?a) (?a * unat (li_rec_size p)) = Inr ((?a + k) * unat (li_rec_size p))"
    "\<forall>j<k. rec_insn p (?a + j) \<le> off" "k = nr_recs p - ?a \<or> off < rec_insn p (?a + k)" using insn_loop_ok [OF sz, of ?a "nr_recs p - ?a" off] True by auto
  have l: "bpf_prog_linfo__lfind p off nr_skip = (if off < rec_insn p ?a then Inl (Errno (- ENOENT))
      else Inr ((?a + k) * unat (li_rec_size p) - unat (li_rec_size p)))"
    using True rd_insn [OF sz True] k(2) by (simp add: bpf_prog_linfo__lfind_def word_le_nat_alt Let_def o n)
  have "(?a + k) * unat (li_rec_size p) - unat (li_rec_size p) = (?a + k - 1) * unat (li_rec_size p)" by (simp add: diff_mult_distrib)
  then show ?thesis using l True found_recI [OF True k(1,3,4)] by (auto simp: not_less)
qed

lemma lfind_addr:
  assumes sz: "jited_sized p" and sp: "functions_split ksyms starts p" and f: "unat func_idx < nr_funcs p"
    and w: "nr_recs p * unat (li_rec_size p) < 4294967296" "nr_recs p * unat (li_jited_rec_size p) < 4294967296"
  shows "if starts ! unat func_idx + unat nr_skip < func_end starts (nr_recs p) (unat func_idx) \<and> rec_addr p (starts ! unat func_idx + unat nr_skip) \<le> addr
    then \<exists>k. bpf_prog_linfo__lfind_addr_func p addr func_idx nr_skip = Inr (k * unat (li_rec_size p)) \<and>
      found_rec (rec_addr p) addr (starts ! unat func_idx + unat nr_skip) (func_end starts (nr_recs p) (unat func_idx)) k
    else bpf_prog_linfo__lfind_addr_func p addr func_idx nr_skip = Inl (Errno (- ENOENT))"
proof -
  let ?f = "unat func_idx" and ?S = "starts ! unat func_idx" and ?E = "func_end starts (nr_recs p) (unat func_idx)"
  have len: "length starts = nr_funcs p" and srt: "sorted_wrt (<) (starts @ [nr_recs p])" using sp by (auto simp: functions_split_def)
  have mono: "a < b \<Longrightarrow> b < length (starts @ [nr_recs p]) \<Longrightarrow> (starts @ [nr_recs p]) ! a < (starts @ [nr_recs p]) ! b" for a b
    using srt by (simp only: sorted_wrt_iff_nth_less)
  have SE: "?S < ?E" "?E \<le> nr_recs p"
    using mono [of ?f "?f + 1"] mono [of "?f + 1" "length starts"] f len by (auto simp: func_end_def nth_append split: if_splits)
  have lt32: "nr_recs p < 4294967296" using unsigned_less [of "li_nr_linfo p" , where 'a = nat] by simp
  define S where "S = (of_nat ?S :: u32)"
  define cnt where "cnt = (of_nat (?E - ?S) :: u32)"
  have u: "unat S = ?S" "unat cnt = ?E - ?S" using SE lt32 by (simp_all add: S_def cnt_def unsigned_of_nat take_bit_nat_eq_self del: of_nat_diff)
  have at: "bindR (at (li_nr_jited_linfo_per_func p) ?f) init = Inr cnt" "bindR (at (li_jited_linfo_func_idx p) ?f) init = Inr S"
    using sp sz f by (auto simp: functions_split_def jited_sized_def at_def init_def S_def cnt_def)
  have fi: "\<not> func_idx \<ge> li_nr_jited_func p" using f by (simp add: word_le_nat_alt)
  show ?thesis
  proof (cases "?S + unat nr_skip < ?E")
    case False
    then have "nr_skip \<ge> cnt" using u by (simp add: word_le_nat_alt)
    then show ?thesis using False fi unfolding bpf_prog_linfo__lfind_addr_func_def at bindR.simps by simp
  next
    case True
    let ?a = "?S + unat nr_skip"
    have lt: "?a < nr_recs p" using True SE by simp
    have c: "\<not> nr_skip \<ge> cnt" "unat (cnt - nr_skip) = ?E - ?a" using True u by (simp_all add: word_le_nat_alt unat_sub)
    have a: "unat (S + nr_skip) = ?a" using lt lt32 u by (simp add: unat_word_ariths)
    have o: "unat ((S + nr_skip) * li_rec_size p) = ?a * unat (li_rec_size p)" "unat ((S + nr_skip) * li_jited_rec_size p) = ?a * unat (li_jited_rec_size p)"
      by (rule start_offset [OF lt w(1) a], rule start_offset [OF lt w(2) a])
    obtain k where k: "k \<le> ?E - ?a" "addr_loop addr p (?E - ?a) (?a * unat (li_rec_size p)) (?a * unat (li_jited_rec_size p)) = Inr ((?a + k) * unat (li_rec_size p))"
      "\<forall>j<k. rec_addr p (?a + j) \<le> addr" "k = ?E - ?a \<or> addr < rec_addr p (?a + k)" using addr_loop_ok [OF sz, of ?a "?E - ?a" addr] True SE by auto
    have l: "bpf_prog_linfo__lfind_addr_func p addr func_idx nr_skip = (if addr < rec_addr p ?a then Inl (Errno (- ENOENT))
        else Inr ((?a + k) * unat (li_rec_size p) - unat (li_rec_size p)))"
      using fi c(1) rd_addr [OF sz lt] k(2) unfolding bpf_prog_linfo__lfind_addr_func_def at bindR.simps by (simp add: Let_def o c(2))
    have "(?a + k) * unat (li_rec_size p) - unat (li_rec_size p) = (?a + k - 1) * unat (li_rec_size p)" by (simp add: diff_mult_distrib)
    then show ?thesis using l True found_recI [OF True k(1,3,4)] by (auto simp: not_less)
  qed
qed

section \<open>Construction\<close>

text \<open>The arrays behind the pointers are as long as the counts say.\<close>

definition info_sized :: "prog_info \<Rightarrow> bool" where
  "info_sized info \<longleftrightarrow> unat (pi_nr_line_info info) * unat (pi_line_info_rec_size info) \<le> length (pi_line_info info) \<and>
     (case pi_jited_line_info info of None \<Rightarrow> True
      | Some j \<Rightarrow> unat (pi_nr_jited_line_info info) * unat (pi_jited_line_info_rec_size info) \<le> length j) \<and>
     (case pi_jited_ksyms info of None \<Rightarrow> True | Some k \<Rightarrow> unat (pi_nr_jited_ksyms info) \<le> length k) \<and>
     (case pi_jited_func_lens info of None \<Rightarrow> True | Some l \<Rightarrow> unat (pi_nr_jited_func_lens info) \<le> length l)"

text \<open>The kernel reports the machine code: addresses and lengths of the functions and one record of a readable size for every record.\<close>

definition has_jit_info :: "prog_info \<Rightarrow> bool" where
  "has_jit_info info \<longleftrightarrow> pi_jited_line_info info \<noteq> None \<and> pi_jited_ksyms info \<noteq> None \<and> pi_jited_func_lens info \<noteq> None \<and>
     0 < unat (pi_nr_jited_ksyms info) \<and> pi_nr_jited_func_lens info = pi_nr_jited_ksyms info \<and>
     pi_nr_jited_line_info info = pi_nr_line_info info \<and> 8 \<le> unat (pi_jited_line_info_rec_size info)"

definition info_addr :: "prog_info \<Rightarrow> nat \<Rightarrow> u64" where
  "info_addr info k = from_le (take 8 (drop (k * unat (pi_jited_line_info_rec_size info)) (the (pi_jited_line_info info))))"

definition jit_starts :: "prog_info \<Rightarrow> nat list \<Rightarrow> bool" where
  "jit_starts info starts \<longleftrightarrow> length starts = unat (pi_nr_jited_ksyms info) \<and>
     starts_fit (the (pi_jited_ksyms info)) (the (pi_jited_func_lens info)) (info_addr info) (unat (pi_nr_line_info info)) starts"

definition linfo_ok :: "prog_info \<Rightarrow> bpf_prog_linfo \<Rightarrow> bool" where
  "linfo_ok info p \<longleftrightarrow> li_nr_linfo p = pi_nr_line_info info \<and> li_rec_size p = pi_line_info_rec_size info \<and> insn_sized p \<and>
     li_raw_linfo p = take (length (li_raw_linfo p)) (pi_line_info info) \<and>
     (if has_jit_info info then li_nr_jited_func p = pi_nr_jited_ksyms info \<and>
        li_jited_rec_size p = pi_jited_line_info_rec_size info \<and> jited_sized p \<and>
        li_raw_jited_linfo p = take (length (li_raw_jited_linfo p)) (the (pi_jited_line_info info)) \<and>
        (\<exists>starts. jit_starts info starts \<and> functions_split (the (pi_jited_ksyms info)) starts p)
      else li_nr_jited_func p = 0)"

lemma starts_fit_cong:
  assumes "\<And>k. k < n \<Longrightarrow> addr' k = addr k"
  shows "starts_fit ksyms lens addr' n starts = starts_fit ksyms lens addr n starts"
proof -
  have lt: "starts ! f < n" if "sorted_wrt (<) (starts @ [n])" "f < length starts" for f using that by (auto simp: sorted_wrt_append)
  then have lt1: "starts ! (f + 1) - 1 < n" "starts ! f < k \<Longrightarrow> k < starts ! (f + 1) \<Longrightarrow> k < n \<and> k - 1 < n"
    if "sorted_wrt (<) (starts @ [n])" "f + 1 < length starts" for f k using that by (meson less_imp_diff_less less_trans)+
  show ?thesis unfolding starts_fit_def using lt lt1 assms by (intro conj_cong refl all_cong imp_cong) auto
qed

lemma new_jited_ok:
  assumes sz: "info_sized info" and n: "0 < nr_recs p" "li_nr_linfo p = pi_nr_line_info info"
  shows "case new_jited alloc info p of
      Inl e \<Rightarrow> e = Errno (- EINVAL) \<and> has_jit_info info \<and> (alloc 2 \<and> alloc 3 \<and> alloc 4 \<longrightarrow> \<not> (\<exists>starts. jit_starts info starts))
    | Inr q \<Rightarrow> if has_jit_info info then li_raw_linfo q = li_raw_linfo p \<and> li_nr_linfo q = li_nr_linfo p \<and> li_rec_size q = li_rec_size p \<and>
        li_nr_jited_func q = pi_nr_jited_ksyms info \<and> li_jited_rec_size q = pi_jited_line_info_rec_size info \<and> jited_sized q \<and>
        li_raw_jited_linfo q = take (length (li_raw_jited_linfo q)) (the (pi_jited_line_info info)) \<and>
        (\<exists>starts. jit_starts info starts \<and> functions_split (the (pi_jited_ksyms info)) starts q) else q = p"
proof (cases "has_jit_info info")
  case False
  then show ?thesis using n
    by (auto simp: new_jited_def Let_def has_jit_info_def word_less_nat_alt unat_gt_0 split: option.splits)
next
  case jit: True
  then obtain jited ksyms lens where j: "pi_jited_line_info info = Some jited" "pi_jited_ksyms info = Some ksyms" "pi_jited_func_lens info = Some lens"
    "pi_nr_jited_ksyms info \<noteq> 0" "pi_nr_jited_line_info info = li_nr_linfo p" "\<not> pi_jited_line_info_rec_size info < 8"
    "pi_nr_jited_func_lens info = pi_nr_jited_ksyms info"
    using n by (fastforce simp: has_jit_info_def word_less_nat_alt unat_gt_0)
  define len where "len = unat (li_nr_linfo p) * unat (pi_jited_line_info_rec_size info)"
  have le: "len \<le> length jited" using j(1,5) sz by (simp add: info_sized_def len_def)
  show ?thesis
  proof (cases "alloc 2 \<and> alloc 3 \<and> alloc 4")
    case False
    then show ?thesis using j jit le by (auto simp: new_jited_def Let_def need_alloc_def copy_def len_def)
  next
    case True
    define q where "q = p\<lparr>li_nr_jited_func := pi_nr_jited_ksyms info, li_jited_rec_size := pi_jited_line_info_rec_size info,
      li_raw_jited_linfo := take len jited, li_nr_jited_linfo_per_func := replicate (unat (pi_nr_jited_ksyms info)) None,
      li_jited_linfo_func_idx := replicate (unat (pi_nr_jited_ksyms info)) None\<rparr>"
    have run: "new_jited alloc info p = dissect_jited_func ksyms lens q"
      using j True le by (simp add: new_jited_def Let_def need_alloc_def copy_def q_def len_def)
    have szq: "jited_sized q" using j(5,6) le by (auto simp: jited_sized_def q_def len_def word_less_nat_alt)
    have nq: "nr_recs q = unat (pi_nr_line_info info)" using n(2) by (simp add: q_def)
    have addr: "rec_addr q k = info_addr info k" if "k < unat (pi_nr_line_info info)" for k
      using rec_fits [of k "unat (pi_nr_line_info info)" 8 "unat (pi_jited_line_info_rec_size info)"] that j(1,6) n(2)
      by (simp add: rec_addr_def info_addr_def q_def len_def drop_take min_def word_less_nat_alt)
    have fit: "starts_fit ksyms lens (rec_addr q) (nr_recs q) starts =
        starts_fit ksyms lens (info_addr info) (unat (pi_nr_line_info info)) starts" for starts
      unfolding nq by (rule starts_fit_cong) (rule addr)
    have "case dissect_jited_func ksyms lens q of Inl e \<Rightarrow> e = Errno (- EINVAL) \<and>
          \<not> (\<exists>starts. length starts = nr_funcs q \<and> starts_fit ksyms lens (rec_addr q) (nr_recs q) starts)
        | Inr r \<Rightarrow> same_linfo q r \<and> jited_sized r \<and> (\<exists>starts. functions_split ksyms starts r \<and>
            starts_fit ksyms lens (rec_addr q) (nr_recs q) starts)"
      by (rule dissect_ok [OF szq]) (use j n sz in \<open>auto simp: q_def info_sized_def unat_gt_0\<close>)
    note res = this
    show ?thesis
    proof (cases "dissect_jited_func ksyms lens q")
      case (Inl e)
      have "\<not> (\<exists>starts. jit_starts info starts)" using res Inl unfolding fit jit_starts_def j(2,3) option.sel by (simp add: q_def)
      then show ?thesis using res Inl run jit by simp
    next
      case (Inr r)
      obtain starts where same: "same_linfo q r" "jited_sized r" "functions_split ksyms starts r"
        "starts_fit ksyms lens (info_addr info) (unat (pi_nr_line_info info)) starts" using res Inr unfolding fit by auto
      have "jit_starts info starts" using same(1,3,4) j(2,3) by (simp add: jit_starts_def functions_split_def same_linfo_def q_def)
      then show ?thesis using Inr run jit same(1-3) j(1,2) le by (auto simp: same_linfo_def q_def)
    qed
  qed
qed

lemma new_ok:
  assumes "info_sized info"
  shows "case bpf_prog_linfo__new alloc info of
      Inl e \<Rightarrow> e = Errno (- ENOMEM) \<and> pi_nr_line_info info \<noteq> 0 \<and> 4 \<le> pi_line_info_rec_size info \<and> \<not> alloc 0 \<or>
        e = Errno (- EINVAL) \<and> (pi_nr_line_info info = 0 \<or> pi_line_info_rec_size info < 4 \<or> alloc 0 \<and> (\<not> alloc 1 \<or>
          has_jit_info info \<and> (alloc 2 \<and> alloc 3 \<and> alloc 4 \<longrightarrow> \<not> (\<exists>starts. jit_starts info starts))))
    | Inr p \<Rightarrow> linfo_ok info p"
proof (cases "pi_nr_line_info info = 0 \<or> pi_line_info_rec_size info < 4 \<or> \<not> alloc 0 \<or> \<not> alloc 1")
  case True
  then show ?thesis by (auto simp: bpf_prog_linfo__new_def Let_def need_alloc_def)
next
  case False
  define n where "n = unat (pi_nr_line_info info) * unat (pi_line_info_rec_size info)"
  define p where "p = \<lparr>li_raw_linfo = take n (pi_line_info info), li_raw_jited_linfo = [], li_nr_jited_linfo_per_func = [],
    li_jited_linfo_func_idx = [], li_nr_linfo = pi_nr_line_info info, li_nr_jited_func = 0, li_rec_size = pi_line_info_rec_size info, li_jited_rec_size = 0\<rparr>"
  have le: "n \<le> length (pi_line_info info)" using assms by (simp add: n_def info_sized_def)
  have p: "0 < nr_recs p" "li_nr_linfo p = pi_nr_line_info info" using False by (simp_all add: p_def unat_gt_0)
  have ins: "insn_sized p" "li_raw_linfo p = take (length (li_raw_linfo p)) (pi_line_info info)" "li_rec_size p = pi_line_info_rec_size info"
    using False le by (auto simp: p_def insn_sized_def n_def word_less_nat_alt unat_gt_0)
  have run: "bpf_prog_linfo__new alloc info = new_jited alloc info p"
    using False le by (simp add: bpf_prog_linfo__new_def Let_def need_alloc_def copy_def p_def n_def)
  have f0: "li_nr_jited_func p = 0" by (simp add: p_def)
  show ?thesis unfolding run using new_jited_ok [OF assms p, of alloc] p ins f0 False
    by (auto simp: linfo_ok_def insn_sized_def split: sum.splits if_splits)
qed

section \<open>Properties\<close>

text \<open>
  C22. Line information built from arrays of the lengths given with them never reads outside of them, whatever
  the allocator answers. When it is built, it holds the records. When the kernel reports the machine code as well
  (\<open>has_jit_info\<close>: addresses and lengths of the functions and a record for every record), it also holds
  those records, split into one non-empty run for every function, in order and without a gap; each run starts with the
  first record at the address of its function, and in every run but the last addresses rise and the last one lies
  within the length of the function. Otherwise, and only then, there are no functions. It fails with \<open>ENOMEM\<close>
  when the first allocation fails, and with \<open>EINVAL\<close> only without records, with too small ones, when a later
  allocation fails, or when the records of the machine code have no such split.
\<close>

theorem linfo_new_splits_by_function:
  assumes "info_sized info"
  shows "case bpf_prog_linfo__new alloc info of
      Inl e \<Rightarrow> e = Errno (- ENOMEM) \<and> pi_nr_line_info info \<noteq> 0 \<and> 4 \<le> pi_line_info_rec_size info \<and> \<not> alloc 0 \<or>
        e = Errno (- EINVAL) \<and> (pi_nr_line_info info = 0 \<or> pi_line_info_rec_size info < 4 \<or> alloc 0 \<and> (\<not> alloc 1 \<or>
          has_jit_info info \<and> (alloc 2 \<and> alloc 3 \<and> alloc 4 \<longrightarrow> \<not> (\<exists>starts. jit_starts info starts))))
    | Inr p \<Rightarrow> linfo_ok info p"
  by (rule new_ok [OF assms])

text \<open>
  C23. Searching line information that was built, when both tables have less than \<open>2 ^ 32\<close> bytes. From the first record that is not to be skipped
  on, the search for an instruction finds the last one of the leading run of records that are not behind the instruction: it
  ends before the first one that is behind, whatever follows. It reports \<open>ENOENT\<close> exactly when that run is empty. The
  search for an address does the same among the records of one of the functions.
\<close>

theorem linfo_search_finds_record:
  assumes "info_sized info" "bpf_prog_linfo__new alloc info = Inr p"
    "unat (pi_nr_line_info info) * unat (pi_line_info_rec_size info) < 2 ^ 32"
    "unat (pi_nr_line_info info) * unat (pi_jited_line_info_rec_size info) < 2 ^ 32"
    "functions_split ksyms starts p" "func_idx < li_nr_jited_func p"
    "first = starts ! unat func_idx + unat nr_skip" "bound = func_end starts (nr_recs p) (unat func_idx)"
  shows "(if unat nr_skip < nr_recs p \<and> rec_insn p (unat nr_skip) \<le> insn_off
      then \<exists>k. bpf_prog_linfo__lfind p insn_off nr_skip = Inr (k * unat (li_rec_size p)) \<and>
        found_rec (rec_insn p) insn_off (unat nr_skip) (nr_recs p) k
      else bpf_prog_linfo__lfind p insn_off nr_skip = Inl (Errno (- ENOENT))) \<and>
    (if first < bound \<and> rec_addr p first \<le> addr
      then \<exists>k. bpf_prog_linfo__lfind_addr_func p addr func_idx nr_skip = Inr (k * unat (li_rec_size p)) \<and> found_rec (rec_addr p) addr first bound k
      else bpf_prog_linfo__lfind_addr_func p addr func_idx nr_skip = Inl (Errno (- ENOENT)))"
proof -
  have ok: "linfo_ok info p" using new_ok [OF assms(1), of alloc] assms(2) by simp
  moreover have "li_nr_jited_func p \<noteq> 0" using assms(6) by auto
  ultimately have p: "insn_sized p" "jited_sized p" "nr_recs p * unat (li_rec_size p) < 4294967296" "nr_recs p * unat (li_jited_rec_size p) < 4294967296"
    using assms(3,4) by (auto simp: linfo_ok_def split: if_splits)
  have f: "unat func_idx < nr_funcs p" using assms(6) by (simp add: word_less_nat_alt)
  show ?thesis unfolding assms(7,8) by (intro conjI lfind_insn [OF p(1,3)] lfind_addr [OF p(2) assms(5) f p(3,4)])
qed

section \<open>Two functions of two records\<close>

definition sample_info :: prog_info where
  "sample_info = \<lparr>pi_nr_line_info = 4, pi_line_info_rec_size = 4,
     pi_line_info = concat (map (to_le 4) [0 :: u32, 2, 5, 6]), pi_nr_jited_ksyms = 2, pi_jited_ksyms = Some [100, 200],
     pi_nr_jited_func_lens = 2, pi_jited_func_lens = Some [50, 50], pi_nr_jited_line_info = 4, pi_jited_line_info_rec_size = 8,
     pi_jited_line_info = Some (concat (map (to_le 8) [100 :: u64, 120, 200, 230]))\<rparr>"

definition sample_linfo :: bpf_prog_linfo where
  "sample_linfo = \<lparr>li_raw_linfo = concat (map (to_le 4) [0 :: u32, 2, 5, 6]), li_raw_jited_linfo = concat (map (to_le 8) [100 :: u64, 120, 200, 230]),
     li_nr_jited_linfo_per_func = [Some 2, Some 2], li_jited_linfo_func_idx = [Some 0, Some 2], li_nr_linfo = 4, li_nr_jited_func = 2,
     li_rec_size = 4, li_jited_rec_size = 8\<rparr>"

lemma sample_new: "bpf_prog_linfo__new (\<lambda>_. True) sample_info = Inr sample_linfo"
  by code_simp

lemma sample_info_sized: "info_sized sample_info"
  by code_simp

theorem linfo_new_splits_by_function_witness:
  "linfo_ok sample_info sample_linfo"
  using linfo_new_splits_by_function [OF sample_info_sized, of "\<lambda>_. True"] sample_new by simp

lemma sample_split: "functions_split [100, 200] [0, 2] sample_linfo"
proof -
  have a: "rec_addr sample_linfo 0 = 100" "rec_addr sample_linfo 1 = 120" "rec_addr sample_linfo 2 = 200" by code_simp+
  have n: "nr_recs sample_linfo = 4" "nr_funcs sample_linfo = 2" by code_simp+
  have i: "li_jited_linfo_func_idx sample_linfo = [Some 0, Some 2]" "li_nr_jited_linfo_per_func sample_linfo = [Some 2, Some 2]"
    by (simp_all add: sample_linfo_def)
  have "\<forall>k. 0 < k \<longrightarrow> k < 2 \<longrightarrow> rec_addr sample_linfo (k - 1) < rec_addr sample_linfo k"
  proof (intro allI impI)
    fix k :: nat assume "0 < k" "k < 2"
    then have "k = 1" by simp
    then show "rec_addr sample_linfo (k - 1) < rec_addr sample_linfo k" using a by simp
  qed
  then show ?thesis unfolding functions_split_def n i using a by (auto simp: func_end_def less_2_cases_iff)
qed

theorem linfo_search_finds_record_witness:
  "\<exists>k. bpf_prog_linfo__lfind_addr_func sample_linfo 215 1 0 = Inr (k * 4) \<and> found_rec (rec_addr sample_linfo) 215 2 4 k"
proof -
  have v: "rec_addr sample_linfo 2 = 200" "nr_recs sample_linfo = 4" "li_nr_jited_func sample_linfo = 2" "unat (li_rec_size sample_linfo) = 4"
    "unat (pi_nr_line_info sample_info) = 4" "unat (pi_line_info_rec_size sample_info) = 4" "unat (pi_jited_line_info_rec_size sample_info) = 8"
    by code_simp+
  have "(2 :: nat) = [0, 2] ! unat (1 :: u32) + unat (0 :: u32)" "4 = func_end [0, 2] (nr_recs sample_linfo) (unat (1 :: u32))"
    unfolding v by (simp_all add: func_end_def)
  from linfo_search_finds_record [OF sample_info_sized sample_new _ _ sample_split _ this] show ?thesis unfolding v by auto
qed

end
