(* ===== verification/Dump_Order.thy ===== *)
theory Dump_Order
  imports Core_Types
begin

text \<open>
  The order in which a BTF dump defines types (\<open>libbpf/src/btf_dump.c\<close>): the state per type, the marking of referenced types
  and the depth-first search \<open>btf_dump_order_type\<close> that fills the queue of definitions.
\<close>

section \<open>State\<close>

datatype btf_dump_type_order_state = NOT_ORDERED | ORDERING | ORDERED

datatype btf_dump_type_emit_state = NOT_EMITTED | EMITTING | EMITTED

record btf_dump_type_aux_state =
  ax_order_state :: btf_dump_type_order_state
  ax_emit_state :: btf_dump_type_emit_state
  ax_fwd_emitted :: bool
  ax_name_resolved :: bool
  ax_referenced :: bool

definition zero_state :: btf_dump_type_aux_state where
  "zero_state = \<lparr>ax_order_state = NOT_ORDERED, ax_emit_state = NOT_EMITTED, ax_fwd_emitted = False, ax_name_resolved = False, ax_referenced = False\<rparr>"

text \<open>
  The fields of \<open>struct btf_dump\<close> that ordering reads and writes. \<open>dp_type_states\<close> is as long as its capacity; of the cached names
  only the capacity matters here. The queue is the list of its used entries.
\<close>

record btf_dump =
  dp_btf :: btf_chain
  dp_last_id :: int
  dp_type_states :: "btf_dump_type_aux_state list"
  dp_cached_names_cap :: nat
  dp_emit_queue :: "u32 list"
  dp_emit_queue_cap :: int

definition state_of :: "btf_dump \<Rightarrow> u32 \<Rightarrow> fault + btf_dump_type_aux_state" where
  "state_of d i = (if unat i < length (dp_type_states d) then Inr (dp_type_states d ! unat i) else Inl Out_Of_Bounds)"

definition set_order_state :: "u32 \<Rightarrow> btf_dump_type_order_state \<Rightarrow> btf_dump \<Rightarrow> btf_dump" where
  "set_order_state i s d = d\<lparr>dp_type_states := (dp_type_states d)[unat i := (dp_type_states d ! unat i)\<lparr>ax_order_state := s\<rparr>]\<rparr>"

text \<open>The zeroed structure of \<open>btf_dump__new\<close> for a chain of types.\<close>

definition btf_dump_start :: "btf_chain \<Rightarrow> btf_dump" where
  "btf_dump_start c = \<lparr>dp_btf = c, dp_last_id = 0, dp_type_states = [], dp_cached_names_cap = 0, dp_emit_queue = [], dp_emit_queue_cap = 0\<rparr>"

section \<open>Referenced types\<close>

definition secinfo_types :: "btf_type \<Rightarrow> u32 list" where
  "secinfo_types t = map (\<lambda>i. bt_words t ! (3 * i)) [0..<btf_vlen t]"

text \<open>The ids a type marks as referenced; of a function prototype these are the parameters only.\<close>

definition marked_refs :: "btf_type \<Rightarrow> u32 list option" where
  "marked_refs t = (let k = btf_kind t in
     if k \<in> {BTF_KIND_INT, BTF_KIND_ENUM, BTF_KIND_ENUM64, BTF_KIND_FWD, BTF_KIND_FLOAT} then Some []
     else if k \<in> {BTF_KIND_VOLATILE, BTF_KIND_CONST, BTF_KIND_RESTRICT, BTF_KIND_PTR, BTF_KIND_TYPEDEF, BTF_KIND_FUNC, BTF_KIND_VAR,
       BTF_KIND_DECL_TAG, BTF_KIND_TYPE_TAG} then Some [bt_type t]
     else if k = BTF_KIND_ARRAY then Some [ar_index_type (btf_array t), ar_type (btf_array t)]
     else if k = BTF_KIND_STRUCT \<or> k = BTF_KIND_UNION then Some (map mb_type (btf_members t))
     else if k = BTF_KIND_FUNC_PROTO then Some (map pm_type (btf_params t))
     else if k = BTF_KIND_DATASEC then Some (secinfo_types t)
     else None)"

fun mark_ids :: "u32 list \<Rightarrow> btf_dump_type_aux_state list \<Rightarrow> fault + btf_dump_type_aux_state list" where
  "mark_ids [] sts = Inr sts"
| "mark_ids (i # is) sts = (if unat i < length sts then mark_ids is (sts[unat i := (sts ! unat i)\<lparr>ax_referenced := True\<rparr>]) else Inl Out_Of_Bounds)"

fun mark_types :: "btf_chain \<Rightarrow> nat list \<Rightarrow> btf_dump_type_aux_state list \<Rightarrow> fault + (int \<times> btf_dump_type_aux_state list)" where
  "mark_types c [] sts = Inr (0, sts)"
| "mark_types c (i # is) sts =
     bindR (type_of_id c (of_nat i)) (\<lambda>t. case marked_refs t of
         None \<Rightarrow> Inr (- EINVAL, sts)
       | Some ids \<Rightarrow> bindR (mark_ids ids sts) (mark_types c is))"

definition btf_dump_mark_referenced :: "btf_dump \<Rightarrow> fault + (int \<times> btf_dump)" where
  "btf_dump_mark_referenced d =
     bindR (mark_types (dp_btf d) [nat (dp_last_id d + 1)..<btf__type_cnt (dp_btf d)] (dp_type_states d)) (\<lambda>(err, sts).
       Inr (err, d\<lparr>dp_type_states := sts\<rparr>))"

text \<open>\<open>libbpf_ensure_mem\<close> on the number of elements; \<open>None\<close> when there is no memory.\<close>

definition ensure_cap :: "bool \<Rightarrow> nat \<Rightarrow> nat \<Rightarrow> nat option" where
  "ensure_cap realloc_ok need_cnt cap =
     (if need_cnt \<le> cap then Some cap else if realloc_ok then Some (add_mem_new_cnt cap cap SIZE_MAX (need_cnt - cap)) else None)"

definition btf_dump_resize :: "bool \<Rightarrow> bool \<Rightarrow> btf_dump \<Rightarrow> fault + (int \<times> btf_dump)" where
  "btf_dump_resize states_ok names_ok d =
     (let last_id = int (btf__type_cnt (dp_btf d)) - 1; cap = length (dp_type_states d) in
      if last_id \<le> dp_last_id d then Inr (0, d)
      else (case ensure_cap states_ok (nat (last_id + 1)) cap of
          None \<Rightarrow> Inr (- ENOMEM, d)
        | Some n \<Rightarrow>
           (let d = d\<lparr>dp_type_states := dp_type_states d @ replicate (n - cap) zero_state\<rparr> in
            case ensure_cap names_ok (nat (last_id + 1)) (dp_cached_names_cap d) of
              None \<Rightarrow> Inr (- ENOMEM, d)
            | Some m \<Rightarrow>
               (let d = d\<lparr>dp_cached_names_cap := m\<rparr>;
                    d = (if dp_last_id d = 0
                      then d\<lparr>dp_type_states := (dp_type_states d)[0 := (dp_type_states d ! 0)\<lparr>ax_order_state := ORDERED, ax_emit_state := EMITTED\<rparr>]\<rparr>
                      else d)
                in bindR (btf_dump_mark_referenced d) (\<lambda>(err, d).
                     if err \<noteq> 0 then Inr (err, d) else Inr (0, d\<lparr>dp_last_id := last_id\<rparr>))))))"

section \<open>Ordering\<close>

text \<open>\<open>realloc_ok\<close> gives the answer of the allocator for a capacity; the capacity is computed as an \<open>int\<close>.\<close>

definition btf_dump_add_emit_queue_id :: "(int \<Rightarrow> bool) \<Rightarrow> u32 \<Rightarrow> btf_dump \<Rightarrow> fault + (int \<times> btf_dump)" where
  "btf_dump_add_emit_queue_id realloc_ok i d =
     (if int (length (dp_emit_queue d)) \<ge> dp_emit_queue_cap d then
        if dp_emit_queue_cap d * 3 > INT_MAX then Inl Signed_Overflow
        else
         (let new_cap = max 16 (dp_emit_queue_cap d * 3 div 2) in
          if \<not> realloc_ok new_cap then Inr (- ENOMEM, d)
          else Inr (0, d\<lparr>dp_emit_queue_cap := new_cap, dp_emit_queue := dp_emit_queue d @ [i]\<rparr>))
      else Inr (0, d\<lparr>dp_emit_queue := dp_emit_queue d @ [i]\<rparr>))"

type_synonym order_result = "fault + (int \<times> btf_dump)"

fun order_members :: "(u32 \<Rightarrow> bool \<Rightarrow> btf_dump \<Rightarrow> order_result) \<Rightarrow> u32 list \<Rightarrow> btf_dump \<Rightarrow> order_result" where
  "order_members rec [] d = Inr (0, d)"
| "order_members rec (i # is) d = bindR (rec i False d) (\<lambda>(err, d). if err < 0 then Inr (err, d) else order_members rec is d)"

fun order_params :: "(u32 \<Rightarrow> bool \<Rightarrow> btf_dump \<Rightarrow> order_result) \<Rightarrow> bool \<Rightarrow> u32 list \<Rightarrow> bool \<Rightarrow> btf_dump \<Rightarrow> order_result" where
  "order_params rec through_ptr [] is_strong d = Inr (of_bool is_strong, d)"
| "order_params rec through_ptr (i # is) is_strong d = bindR (rec i through_ptr d) (\<lambda>(err, d).
     if err < 0 then Inr (err, d) else order_params rec through_ptr is (is_strong \<or> err > 0) d)"

text \<open>The cases of \<open>btf_dump_order_type\<close>; \<open>rec\<close> is the recursive call.\<close>

definition order_composite :: "(int \<Rightarrow> bool) \<Rightarrow> (u32 \<Rightarrow> bool \<Rightarrow> btf_dump \<Rightarrow> order_result) \<Rightarrow> u32 \<Rightarrow> bool \<Rightarrow> btf_type \<Rightarrow> btf_dump \<Rightarrow> order_result" where
  "order_composite realloc_ok rec i through_ptr t d =
     (if through_ptr \<and> bt_name_off t \<noteq> 0 then Inr (0, d)
      else bindR (order_members rec (map mb_type (btf_members t)) (set_order_state i ORDERING d)) (\<lambda>(err, d).
        if err < 0 then Inr (err, d)
        else bindR (if bt_name_off t \<noteq> 0 then btf_dump_add_emit_queue_id realloc_ok i d else Inr (0, d)) (\<lambda>(err, d).
          if err < 0 then Inr (err, d) else Inr (1, set_order_state i ORDERED d))))"

definition order_enum :: "(int \<Rightarrow> bool) \<Rightarrow> u32 \<Rightarrow> btf_dump_type_aux_state \<Rightarrow> btf_type \<Rightarrow> btf_dump \<Rightarrow> order_result" where
  "order_enum realloc_ok i tstate t d =
     bindR (if bt_name_off t \<noteq> 0 \<or> \<not> ax_referenced tstate then btf_dump_add_emit_queue_id realloc_ok i d else Inr (0, d)) (\<lambda>(err, d).
       if err \<noteq> 0 then Inr (err, d) else Inr (1, set_order_state i ORDERED d))"

definition order_typedef :: "(int \<Rightarrow> bool) \<Rightarrow> (u32 \<Rightarrow> bool \<Rightarrow> btf_dump \<Rightarrow> order_result) \<Rightarrow> u32 \<Rightarrow> bool \<Rightarrow> btf_type \<Rightarrow> btf_dump \<Rightarrow> order_result" where
  "order_typedef realloc_ok rec i through_ptr t d =
     bindR (rec (bt_type t) through_ptr d) (\<lambda>(is_strong, d).
       if is_strong < 0 then Inr (is_strong, d)
       else if through_ptr \<and> is_strong = 0 then Inr (0, d)
       else bindR (btf_dump_add_emit_queue_id realloc_ok i d) (\<lambda>(err, d).
         if err \<noteq> 0 then Inr (err, d) else Inr (1, set_order_state i ORDERED d)))"

definition order_kind ::
  "(int \<Rightarrow> bool) \<Rightarrow> (u32 \<Rightarrow> bool \<Rightarrow> btf_dump \<Rightarrow> order_result) \<Rightarrow> u32 \<Rightarrow> bool \<Rightarrow> btf_dump_type_aux_state \<Rightarrow> btf_type \<Rightarrow> btf_dump \<Rightarrow> order_result" where
  "order_kind realloc_ok rec i through_ptr tstate t d = (let k = btf_kind t in
     if k = BTF_KIND_INT \<or> k = BTF_KIND_FLOAT then Inr (0, set_order_state i ORDERED d)
     else if k = BTF_KIND_PTR then bindR (rec (bt_type t) True d) (\<lambda>(err, d). Inr (err, set_order_state i ORDERED d))
     else if k = BTF_KIND_ARRAY then rec (ar_type (btf_array t)) False d
     else if k = BTF_KIND_STRUCT \<or> k = BTF_KIND_UNION then order_composite realloc_ok rec i through_ptr t d
     else if k = BTF_KIND_ENUM \<or> k = BTF_KIND_ENUM64 \<or> k = BTF_KIND_FWD then order_enum realloc_ok i tstate t d
     else if k = BTF_KIND_TYPEDEF then order_typedef realloc_ok rec i through_ptr t d
     else if k = BTF_KIND_VOLATILE \<or> k = BTF_KIND_CONST \<or> k = BTF_KIND_RESTRICT \<or> k = BTF_KIND_TYPE_TAG then rec (bt_type t) through_ptr d
     else if k = BTF_KIND_FUNC_PROTO then
       bindR (rec (bt_type t) through_ptr d) (\<lambda>(err, d).
         if err < 0 then Inr (err, d) else order_params rec through_ptr (map pm_type (btf_params t)) (err > 0) d)
     else if k = BTF_KIND_FUNC \<or> k = BTF_KIND_VAR \<or> k = BTF_KIND_DATASEC \<or> k = BTF_KIND_DECL_TAG then Inr (0, set_order_state i ORDERED d)
     else Inr (- EINVAL, d))"

text \<open>The depth of the recursion is bounded by the first argument.\<close>

primrec order_type :: "(int \<Rightarrow> bool) \<Rightarrow> nat \<Rightarrow> u32 \<Rightarrow> bool \<Rightarrow> btf_dump \<Rightarrow> order_result" where
  "order_type realloc_ok 0 = (\<lambda>i through_ptr d. Inl No_Return)"
| "order_type realloc_ok (Suc n) = (\<lambda>i through_ptr d.
     bindR (state_of d i) (\<lambda>tstate.
       if ax_order_state tstate = ORDERED then Inr (1, d)
       else bindR (type_of_id (dp_btf d) i) (\<lambda>t.
         if ax_order_state tstate = ORDERING then
           if btf_is_composite t \<and> through_ptr \<and> bt_name_off t \<noteq> 0 then Inr (0, d) else Inr (- ELOOP, d)
         else order_kind realloc_ok (order_type realloc_ok n) i through_ptr tstate t d)))"

text \<open>The first pass of \<open>btf_dump__dump_type\<close>: the queue is filled, or the error is returned.\<close>

definition dump_type_order :: "bool \<Rightarrow> bool \<Rightarrow> (int \<Rightarrow> bool) \<Rightarrow> nat \<Rightarrow> u32 \<Rightarrow> btf_dump \<Rightarrow> order_result" where
  "dump_type_order states_ok names_ok realloc_ok n i d =
     (if unat i \<ge> btf__type_cnt (dp_btf d) then Inr (- EINVAL, d)
      else bindR (btf_dump_resize states_ok names_ok d) (\<lambda>(err, d).
        if err \<noteq> 0 then Inr (err, d)
        else bindR (order_type realloc_ok n i False (d\<lparr>dp_emit_queue := []\<rparr>)) (\<lambda>(err, d).
          Inr (if err < 0 then err else 0, d))))"

section \<open>What a definition needs\<close>

text \<open>The kinds that are definitions of their own.\<close>

definition def_kind :: "btf_type \<Rightarrow> bool" where
  "def_kind t \<longleftrightarrow> btf_is_composite t \<or> btf_is_any_enum t \<or> btf_is_fwd t \<or> btf_is_typedef t"

text \<open>The definition that a value of a type consists of: arrays and modifiers are passed through, pointers and functions end the way.\<close>

inductive byval :: "btf_chain \<Rightarrow> u32 \<Rightarrow> u32 \<Rightarrow> bool" for c where
  byval_def: "type_of_id c i = Inr t \<Longrightarrow> def_kind t \<Longrightarrow> byval c i i"
| byval_array: "type_of_id c i = Inr t \<Longrightarrow> btf_is_array t \<Longrightarrow> byval c (ar_type (btf_array t)) j \<Longrightarrow> byval c i j"
| byval_mod: "type_of_id c i = Inr t \<Longrightarrow> btf_is_mod t \<Longrightarrow> byval c (bt_type t) j \<Longrightarrow> byval c i j"

text \<open>A structure or union needs what its members consist of, a typedef what it names.\<close>

definition needs :: "btf_chain \<Rightarrow> u32 \<Rightarrow> u32 \<Rightarrow> bool" where
  "needs c x y \<longleftrightarrow> (\<exists>t. type_of_id c x = Inr t \<and>
     (btf_is_composite t \<and> (\<exists>m\<in>set (map mb_type (btf_members t)). byval c m y) \<or> btf_is_typedef t \<and> byval c (bt_type t) y))"

text \<open>The definitions that stand at the top level.\<close>

definition emittable :: "btf_chain \<Rightarrow> u32 \<Rightarrow> bool" where
  "emittable c z \<longleftrightarrow> (\<exists>t. type_of_id c z = Inr t \<and> (btf_is_typedef t \<or> def_kind t \<and> bt_name_off t \<noteq> 0))"

definition ordered :: "btf_dump \<Rightarrow> u32 set" where
  "ordered d = {i. unat i < length (dp_type_states d) \<and> ax_order_state (dp_type_states d ! unat i) = ORDERED}"

definition closed_order :: "btf_chain \<Rightarrow> btf_dump \<Rightarrow> bool" where
  "closed_order c d \<longleftrightarrow> dp_btf d = c \<and> (\<forall>x\<in>ordered d. (\<forall>t. type_of_id c x = Inr t \<longrightarrow> \<not> btf_is_array t \<and> \<not> btf_is_mod t) \<and>
     (\<forall>y. needs c x y \<longrightarrow> y \<in> ordered d))"

text \<open>Every entry of a queue comes behind all definitions it needs, directly or not, unless they were ordered before.\<close>

definition topological :: "btf_chain \<Rightarrow> u32 set \<Rightarrow> u32 list \<Rightarrow> bool" where
  "topological c O0 q \<longleftrightarrow> (\<forall>a x b. q = a @ x # b \<longrightarrow> (\<forall>y. (needs c)\<^sup>+\<^sup>+ x y \<longrightarrow> emittable c y \<longrightarrow> y \<in> O0 \<union> set a))"

definition order_inv :: "btf_chain \<Rightarrow> u32 set \<Rightarrow> btf_dump \<Rightarrow> bool" where
  "order_inv c O0 d \<longleftrightarrow> closed_order c d \<and> O0 \<subseteq> ordered d \<and> (\<forall>z\<in>ordered d. emittable c z \<longrightarrow> z \<in> O0 \<union> set (dp_emit_queue d)) \<and>
     topological c O0 (dp_emit_queue d)"

lemma topological_snoc:
  assumes "topological c O0 q" "\<And>y. (needs c)\<^sup>+\<^sup>+ x y \<Longrightarrow> emittable c y \<Longrightarrow> y \<in> O0 \<union> set q"
  shows "topological c O0 (q @ [x])"
  unfolding topological_def
proof (intro allI impI)
  fix a z b y assume eq: "q @ [x] = a @ z # b" and y: "(needs c)\<^sup>+\<^sup>+ z y" "emittable c y"
  show "y \<in> O0 \<union> set a"
  proof (cases b rule: rev_cases)
    case Nil
    then show ?thesis using eq y assms(2) by simp
  next
    case (snoc b' w)
    then have "q = a @ z # b'" using eq by simp
    then show ?thesis using assms(1) y unfolding topological_def by blast
  qed
qed

lemma needs_trancl_ordered:
  assumes "closed_order c d" "\<And>y. needs c x y \<Longrightarrow> y \<in> ordered d" "(needs c)\<^sup>+\<^sup>+ x y"
  shows "y \<in> ordered d"
  using assms(3)
proof induction
  case (step y z)
  then show ?case using assms(1) by (auto simp: closed_order_def)
qed (rule assms(2))

lemma ordered_queue [simp]: "ordered (d\<lparr>dp_emit_queue := q\<rparr>) = ordered d" "ordered (d\<lparr>dp_emit_queue_cap := n\<rparr>) = ordered d"
  by (simp_all add: ordered_def)

lemma queue_push:
  assumes inv: "order_inv c O0 d" and n: "\<And>y. needs c x y \<Longrightarrow> y \<in> ordered d"
    and a: "btf_dump_add_emit_queue_id realloc_ok x d = Inr (err, d')"
  shows "order_inv c O0 d' \<and> ordered d' = ordered d \<and> length (dp_type_states d') = length (dp_type_states d) \<and> err \<le> 0 \<and>
    (err = 0 \<longrightarrow> x \<in> set (dp_emit_queue d'))"
proof -
  have t: "topological c O0 (dp_emit_queue d @ [x])"
    using inv needs_trancl_ordered [OF _ n] by (intro topological_snoc) (auto simp: order_inv_def)
  have "order_inv c O0 (d\<lparr>dp_emit_queue := dp_emit_queue d @ [x]\<rparr>)" "order_inv c O0 (d\<lparr>dp_emit_queue_cap := m, dp_emit_queue := dp_emit_queue d @ [x]\<rparr>)" for m
    using inv t by (auto simp: order_inv_def closed_order_def)
  then show ?thesis using a inv by (auto simp: btf_dump_add_emit_queue_id_def Let_def ENOMEM_def split: if_splits)
qed

lemma ordered_set:
  "x \<in> ordered (set_order_state i s d) \<longleftrightarrow> (if x = i then unat i < length (dp_type_states d) \<and> s = ORDERED else x \<in> ordered d)"
proof (cases "x = i")
  case False
  then have "unat i \<noteq> unat x" by (simp add: word_unat_eq_iff)
  then show ?thesis using False by (simp add: ordered_def set_order_state_def)
qed (auto simp: ordered_def set_order_state_def)

text \<open>Entering a type and completing it.\<close>

lemma enter_ordering:
  assumes "i \<notin> ordered d"
  shows "ordered (set_order_state i ORDERING d) = ordered d" "order_inv c O0 d \<Longrightarrow> order_inv c O0 (set_order_state i ORDERING d)"
    "length (dp_type_states (set_order_state i ORDERING d)) = length (dp_type_states d)"
proof -
  show o: "ordered (set_order_state i ORDERING d) = ordered d"
    using assms by (auto simp: ordered_set split: if_splits)
  show "order_inv c O0 d \<Longrightarrow> order_inv c O0 (set_order_state i ORDERING d)"
    unfolding order_inv_def closed_order_def o by (simp add: set_order_state_def)
qed (simp add: set_order_state_def)

lemma complete_type:
  assumes inv: "order_inv c O0 d" and i: "unat i < length (dp_type_states d)"
    and t: "type_of_id c i = Inr t" "\<not> btf_is_array t" "\<not> btf_is_mod t"
    and n: "\<And>y. needs c i y \<Longrightarrow> y \<in> ordered d" and e: "emittable c i \<Longrightarrow> i \<in> set (dp_emit_queue d)"
  shows "order_inv c O0 (set_order_state i ORDERED d) \<and> ordered (set_order_state i ORDERED d) = insert i (ordered d)"
proof -
  have o: "ordered (set_order_state i ORDERED d) = insert i (ordered d)"
    using i by (auto simp: ordered_set split: if_splits)
  have "order_inv c O0 (set_order_state i ORDERED d)"
    unfolding order_inv_def closed_order_def o using inv t n e by (auto simp: order_inv_def closed_order_def set_order_state_def)
  then show ?thesis using o by blast
qed

section \<open>The search keeps the order\<close>

text \<open>What a call promises: it keeps the invariant, forgets nothing, and when it reports a strong link or does not come
  through a pointer, the definition of the value is complete.\<close>

definition call_ok :: "btf_chain \<Rightarrow> u32 set \<Rightarrow> u32 \<Rightarrow> bool \<Rightarrow> btf_dump \<Rightarrow> int \<Rightarrow> btf_dump \<Rightarrow> bool" where
  "call_ok c O0 i through_ptr d r d' \<longleftrightarrow> order_inv c O0 d' \<and> ordered d \<subseteq> ordered d' \<and> length (dp_type_states d') = length (dp_type_states d) \<and>
     (0 < r \<or> \<not> through_ptr \<and> 0 \<le> r \<longrightarrow> (\<forall>y. byval c i y \<longrightarrow> y \<in> ordered d'))"

definition rec_ok :: "btf_chain \<Rightarrow> u32 set \<Rightarrow> (u32 \<Rightarrow> bool \<Rightarrow> btf_dump \<Rightarrow> order_result) \<Rightarrow> bool" where
  "rec_ok c O0 rec \<longleftrightarrow> (\<forall>i through_ptr d r d'. order_inv c O0 d \<longrightarrow> rec i through_ptr d = Inr (r, d') \<longrightarrow> call_ok c O0 i through_ptr d r d')"

lemma rec_okD: "rec_ok c O0 rec \<Longrightarrow> order_inv c O0 d \<Longrightarrow> rec i tp d = Inr (r, d') \<Longrightarrow> call_ok c O0 i tp d r d'"
  by (simp add: rec_ok_def)

lemma order_members_ok:
  assumes "rec_ok c O0 rec" "order_inv c O0 d" "order_members rec is d = Inr (r, d')"
  shows "order_inv c O0 d' \<and> ordered d \<subseteq> ordered d' \<and> length (dp_type_states d') = length (dp_type_states d) \<and>
    (0 \<le> r \<longrightarrow> (\<forall>m\<in>set is. \<forall>y. byval c m y \<longrightarrow> y \<in> ordered d'))"
  using assms(2,3)
proof (induction "is" arbitrary: d)
  case (Cons i "is")
  obtain e d1 where e: "rec i False d = Inr (e, d1)" using Cons.prems(2) by auto
  note c1 = rec_okD [OF assms(1) Cons.prems(1) e, unfolded call_ok_def]
  show ?case
  proof (cases "e < 0")
    case True
    then show ?thesis using Cons.prems(2) e c1 by auto
  next
    case False
    then have "order_members rec is d1 = Inr (r, d')" using Cons.prems(2) e by simp
    from Cons.IH [OF _ this] show ?thesis using c1 False by auto
  qed
qed simp

lemma order_params_ok:
  assumes "rec_ok c O0 rec" "order_inv c O0 d" "order_params rec tp is b d = Inr (r, d')"
  shows "order_inv c O0 d' \<and> ordered d \<subseteq> ordered d' \<and> length (dp_type_states d') = length (dp_type_states d)"
  using assms(2,3)
proof (induction "is" arbitrary: b d)
  case (Cons i "is")
  obtain e d1 where e: "rec i tp d = Inr (e, d1)" using Cons.prems(2) by auto
  note c1 = rec_okD [OF assms(1) Cons.prems(1) e, unfolded call_ok_def]
  show ?case
  proof (cases "e < 0")
    case True
    then show ?thesis using Cons.prems(2) e c1 by auto
  next
    case False
    then have "order_params rec tp is (b \<or> 0 < e) d1 = Inr (r, d')" using Cons.prems(2) e by simp
    from Cons.IH [OF _ this] show ?thesis using c1 by auto
  qed
qed simp

named_theorems kind_tests

lemmas kind_test_defs [kind_tests] = btf_is_int_def btf_is_ptr_def btf_is_array_def btf_is_composite_def btf_is_enum_def btf_is_enum64_def
  btf_is_any_enum_def btf_is_fwd_def btf_is_typedef_def btf_is_mod_def btf_is_func_proto_def

lemma byval_self:
  assumes "type_of_id c i = Inr t" "\<not> btf_is_array t" "\<not> btf_is_mod t" "byval c i y"
  shows "y = i \<and> def_kind t"
  using assms(4) by cases (use assms in auto)

lemma byval_arrayD:
  assumes "byval c i y" "type_of_id c i = Inr t" "btf_is_array t" "\<not> def_kind t" "\<not> btf_is_mod t"
  shows "byval c (ar_type (btf_array t)) y"
  using assms(1) by cases (use assms in auto)

lemma byval_modD:
  assumes "byval c i y" "type_of_id c i = Inr t" "btf_is_mod t" "\<not> def_kind t" "\<not> btf_is_array t"
  shows "byval c (bt_type t) y"
  using assms(1) by cases (use assms in auto)

lemma composite_ok:
  assumes rec: "rec_ok c O0 rec" and inv: "order_inv c O0 d" and i: "unat i < length (dp_type_states d)" "i \<notin> ordered d"
    and t: "type_of_id c i = Inr t" "btf_is_composite t" and r: "order_composite realloc_ok rec i tp t d = Inr (r, d')"
  shows "call_ok c O0 i tp d r d'"
proof (cases "tp \<and> bt_name_off t \<noteq> 0")
  case True
  then show ?thesis using r inv by (simp add: order_composite_def call_ok_def)
next
  case False
  have kt: "\<not> btf_is_array t" "\<not> btf_is_mod t" "\<not> btf_is_typedef t" using t(2) by (auto simp: kind_tests btf_kinds)
  let ?d0 = "set_order_state i ORDERING d"
  note en = enter_ordering [OF i(2)]
  obtain e d1 where e: "order_members rec (map mb_type (btf_members t)) ?d0 = Inr (e, d1)"
    using r False by (auto simp: order_composite_def)
  note m = order_members_ok [OF rec en(2) [OF inv] e, unfolded en]
  show ?thesis
  proof (cases "e < 0")
    case True
    then have "r = e" "d' = d1" using r False e by (auto simp: order_composite_def)
    then show ?thesis using m True by (simp add: call_ok_def)
  next
    case pos: False
    have nd: "y \<in> ordered d1" if "needs c i y" for y using that m pos t kt by (auto simp: needs_def)
    obtain e2 d2 where e2: "(if bt_name_off t \<noteq> 0 then btf_dump_add_emit_queue_id realloc_ok i d1 else Inr (0, d1)) = Inr (e2, d2)"
      using r False e pos by (auto simp: order_composite_def)
    have q: "order_inv c O0 d2 \<and> ordered d2 = ordered d1 \<and> length (dp_type_states d2) = length (dp_type_states d1) \<and> e2 \<le> 0 \<and>
        (e2 = 0 \<longrightarrow> bt_name_off t \<noteq> 0 \<longrightarrow> i \<in> set (dp_emit_queue d2))"
      using e2 m queue_push [OF _ nd] by (auto split: if_splits)
    show ?thesis
    proof (cases "e2 < 0")
      case True
      then have "r = e2" "d' = d2" using r False e pos e2 by (auto simp: order_composite_def)
      then show ?thesis using m q True by (simp add: call_ok_def)
    next
      case e20: False
      then have rd: "r = 1" "d' = set_order_state i ORDERED d2" using r False e pos e2 by (auto simp: order_composite_def)
      have "order_inv c O0 d' \<and> ordered d' = insert i (ordered d2)" unfolding rd(2)
        by (rule complete_type [OF _ _ t(1) kt(1,2)]) (use q m nd e20 i t kt in \<open>auto simp: emittable_def\<close>)
      then show ?thesis using m q byval_self [OF t(1) kt(1,2)] by (auto simp: call_ok_def rd set_order_state_def)
    qed
  qed
qed

lemma enum_ok:
  assumes inv: "order_inv c O0 d" and i: "unat i < length (dp_type_states d)"
    and t: "type_of_id c i = Inr t" "btf_is_any_enum t \<or> btf_is_fwd t" and r: "order_enum realloc_ok i st t d = Inr (r, d')"
  shows "call_ok c O0 i tp d r d'"
proof -
  have kt: "\<not> btf_is_array t" "\<not> btf_is_mod t" "\<not> btf_is_typedef t" "\<not> btf_is_composite t" using t(2) by (auto simp: kind_tests btf_kinds)
  have nd: "\<not> needs c i y" for y using t kt by (simp add: needs_def)
  obtain e d1 where e: "(if bt_name_off t \<noteq> 0 \<or> \<not> ax_referenced st then btf_dump_add_emit_queue_id realloc_ok i d else Inr (0, d)) = Inr (e, d1)"
    using r by (auto simp: order_enum_def)
  have q: "order_inv c O0 d1 \<and> ordered d1 = ordered d \<and> length (dp_type_states d1) = length (dp_type_states d) \<and> e \<le> 0 \<and>
      (e = 0 \<longrightarrow> bt_name_off t \<noteq> 0 \<longrightarrow> i \<in> set (dp_emit_queue d1))"
    using e inv queue_push [OF inv, of i realloc_ok e d1] nd by (auto split: if_splits)
  show ?thesis
  proof (cases "e = 0")
    case False
    then have "r = e" "d' = d1" using r e by (auto simp: order_enum_def)
    then show ?thesis using q False by (simp add: call_ok_def)
  next
    case True
    then have rd: "r = 1" "d' = set_order_state i ORDERED d1" using r e by (auto simp: order_enum_def)
    have "order_inv c O0 d' \<and> ordered d' = insert i (ordered d1)" unfolding rd(2)
      by (rule complete_type [OF _ _ t(1) kt(1,2)]) (use q nd True i t kt in \<open>auto simp: emittable_def\<close>)
    then show ?thesis using q byval_self [OF t(1) kt(1,2)] by (auto simp: call_ok_def rd set_order_state_def)
  qed
qed

lemma typedef_ok:
  assumes rec: "rec_ok c O0 rec" and inv: "order_inv c O0 d" and i: "unat i < length (dp_type_states d)"
    and t: "type_of_id c i = Inr t" "btf_is_typedef t" and r: "order_typedef realloc_ok rec i tp t d = Inr (r, d')"
  shows "call_ok c O0 i tp d r d'"
proof -
  have kt: "\<not> btf_is_array t" "\<not> btf_is_mod t" "\<not> btf_is_composite t" using t(2) by (auto simp: kind_tests btf_kinds)
  obtain e d1 where e: "rec (bt_type t) tp d = Inr (e, d1)" using r by (auto simp: order_typedef_def)
  note c1 = rec_okD [OF rec inv e, unfolded call_ok_def]
  consider "e < 0" | "0 \<le> e" "tp" "e = 0" | "0 \<le> e" "\<not> (tp \<and> e = 0)" by linarith
  then show ?thesis
  proof cases
    case 1
    then have "r = e" "d' = d1" using r e by (auto simp: order_typedef_def)
    then show ?thesis using c1 1 by (simp add: call_ok_def)
  next
    case 2
    then have "r = 0" "d' = d1" using r e by (auto simp: order_typedef_def)
    then show ?thesis using c1 2 by (simp add: call_ok_def)
  next
    case 3
    have nd: "y \<in> ordered d1" if "needs c i y" for y using that c1 3 t kt by (auto simp: needs_def)
    obtain e2 d2 where e2: "btf_dump_add_emit_queue_id realloc_ok i d1 = Inr (e2, d2)" using r e 3 by (auto simp: order_typedef_def split: if_splits)
    have q: "order_inv c O0 d2 \<and> ordered d2 = ordered d1 \<and> length (dp_type_states d2) = length (dp_type_states d1) \<and> e2 \<le> 0 \<and>
        (e2 = 0 \<longrightarrow> i \<in> set (dp_emit_queue d2))" using queue_push [OF _ nd e2] c1 by blast
    show ?thesis
    proof (cases "e2 = 0")
      case False
      then have "r = e2" "d' = d2" using r e e2 3 by (auto simp: order_typedef_def split: if_splits)
      then show ?thesis using c1 q False by (simp add: call_ok_def)
    next
      case True
      then have rd: "r = 1" "d' = set_order_state i ORDERED d2" using r e e2 3 by (auto simp: order_typedef_def split: if_splits)
      have "order_inv c O0 d' \<and> ordered d' = insert i (ordered d2)" unfolding rd(2)
        by (rule complete_type [OF _ _ t(1) kt(1,2)]) (use q c1 nd True i in auto)
      then show ?thesis using c1 q byval_self [OF t(1) kt(1,2)] by (auto simp: call_ok_def rd set_order_state_def)
    qed
  qed
qed

lemma leaf_ok:
  assumes inv: "order_inv c O0 d" and i: "unat i < length (dp_type_states d)"
    and t: "type_of_id c i = Inr t" "\<not> def_kind t" "\<not> btf_is_array t" "\<not> btf_is_mod t"
  shows "call_ok c O0 i tp d r (set_order_state i ORDERED d)"
proof -
  have "\<not> needs c i y" "\<not> emittable c i" for y using t by (auto simp: needs_def emittable_def def_kind_def)
  then have "order_inv c O0 (set_order_state i ORDERED d) \<and> ordered (set_order_state i ORDERED d) = insert i (ordered d)"
    by (intro complete_type [OF inv i t(1,3,4)]) auto
  then show ?thesis using byval_self [OF t(1,3,4)] t(2) by (auto simp: call_ok_def set_order_state_def)
qed

lemma through_ok:
  assumes "call_ok c O0 j tp' d r d'" "\<And>y. byval c i y \<Longrightarrow> byval c j y" "tp' \<longrightarrow> tp"
  shows "call_ok c O0 i tp d r d'"
  using assms by (auto simp: call_ok_def)

lemma order_kind_ok:
  assumes rec: "rec_ok c O0 rec" and inv: "order_inv c O0 d" and i: "unat i < length (dp_type_states d)" "i \<notin> ordered d"
    and t: "type_of_id c i = Inr t" and r: "order_kind realloc_ok rec i tp st t d = Inr (r, d')"
  shows "call_ok c O0 i tp d r d'"
proof -
  let ?k = "btf_kind t"
  consider (leaf) "?k \<in> {BTF_KIND_INT, BTF_KIND_FLOAT, BTF_KIND_FUNC, BTF_KIND_VAR, BTF_KIND_DATASEC, BTF_KIND_DECL_TAG}"
    | (ptr) "?k = BTF_KIND_PTR" | (array) "?k = BTF_KIND_ARRAY" | (comp) "?k \<in> {BTF_KIND_STRUCT, BTF_KIND_UNION}"
    | (enum) "?k \<in> {BTF_KIND_ENUM, BTF_KIND_ENUM64, BTF_KIND_FWD}" | (tdef) "?k = BTF_KIND_TYPEDEF"
    | (modifier) "?k \<in> {BTF_KIND_VOLATILE, BTF_KIND_CONST, BTF_KIND_RESTRICT, BTF_KIND_TYPE_TAG}"
    | (proto) "?k = BTF_KIND_FUNC_PROTO"
    | (other) "?k \<notin> {BTF_KIND_INT, BTF_KIND_FLOAT, BTF_KIND_FUNC, BTF_KIND_VAR, BTF_KIND_DATASEC, BTF_KIND_DECL_TAG, BTF_KIND_PTR,
        BTF_KIND_ARRAY, BTF_KIND_STRUCT, BTF_KIND_UNION, BTF_KIND_ENUM, BTF_KIND_ENUM64, BTF_KIND_FWD, BTF_KIND_TYPEDEF, BTF_KIND_VOLATILE,
        BTF_KIND_CONST, BTF_KIND_RESTRICT, BTF_KIND_TYPE_TAG, BTF_KIND_FUNC_PROTO}" by blast
  then show ?thesis
  proof cases
    case leaf
    then have k: "\<not> def_kind t" "\<not> btf_is_array t" "\<not> btf_is_mod t" by (auto simp: def_kind_def kind_tests btf_kinds)
    have "r = 0" "d' = set_order_state i ORDERED d" using r leaf by (auto simp: order_kind_def Let_def btf_kinds)
    then show ?thesis using leaf_ok [OF inv i(1) t k] by simp
  next
    case ptr
    then have k: "\<not> def_kind t" "\<not> btf_is_array t" "\<not> btf_is_mod t" by (auto simp: def_kind_def kind_tests btf_kinds)
    obtain d1 where e: "rec (bt_type t) True d = Inr (r, d1)" "d' = set_order_state i ORDERED d1" using r ptr by (auto simp: order_kind_def Let_def btf_kinds)
    note c1 = rec_okD [OF rec inv e(1), unfolded call_ok_def]
    then have "call_ok c O0 i tp d1 r d'" unfolding e(2) by (intro leaf_ok [OF _ _ t k]) (use i in auto)
    then show ?thesis using c1 by (auto simp: call_ok_def)
  next
    case array
    then have k: "btf_is_array t" "\<not> def_kind t" "\<not> btf_is_mod t" by (auto simp: def_kind_def kind_tests btf_kinds)
    have "rec (ar_type (btf_array t)) False d = Inr (r, d')" using r array by (auto simp: order_kind_def Let_def btf_kinds)
    from rec_okD [OF rec inv this] show ?thesis by (rule through_ok) (use byval_arrayD [OF _ t k] in auto)
  next
    case comp
    then have "btf_is_composite t" "order_composite realloc_ok rec i tp t d = Inr (r, d')" using r by (auto simp: order_kind_def Let_def kind_tests btf_kinds)
    then show ?thesis by (rule composite_ok [OF rec inv i t])
  next
    case enum
    then have "btf_is_any_enum t \<or> btf_is_fwd t" "order_enum realloc_ok i st t d = Inr (r, d')" using r by (auto simp: order_kind_def Let_def kind_tests btf_kinds)
    then show ?thesis by (rule enum_ok [OF inv i(1) t])
  next
    case tdef
    then have "btf_is_typedef t" "order_typedef realloc_ok rec i tp t d = Inr (r, d')" using r by (auto simp: order_kind_def Let_def kind_tests btf_kinds)
    then show ?thesis by (rule typedef_ok [OF rec inv i(1) t])
  next
    case modifier
    then have k: "btf_is_mod t" "\<not> def_kind t" "\<not> btf_is_array t" by (auto simp: def_kind_def kind_tests btf_kinds)
    have "rec (bt_type t) tp d = Inr (r, d')" using r modifier by (auto simp: order_kind_def Let_def btf_kinds)
    from rec_okD [OF rec inv this] show ?thesis by (rule through_ok) (use byval_modD [OF _ t k] in auto)
  next
    case proto
    then have k: "\<not> btf_is_mod t" "\<not> def_kind t" "\<not> btf_is_array t" by (auto simp: def_kind_def kind_tests btf_kinds)
    obtain e d1 where e: "rec (bt_type t) tp d = Inr (e, d1)" using r proto by (auto simp: order_kind_def Let_def btf_kinds)
    note c1 = rec_okD [OF rec inv e, unfolded call_ok_def]
    have "order_inv c O0 d' \<and> ordered d \<subseteq> ordered d' \<and> length (dp_type_states d') = length (dp_type_states d)"
    proof (cases "e < 0")
      case True
      then have "d' = d1" using r proto e by (auto simp: order_kind_def Let_def btf_kinds)
      then show ?thesis using c1 by simp
    next
      case False
      then have "order_params rec tp (map pm_type (btf_params t)) (0 < e) d1 = Inr (r, d')" using r proto e by (simp add: order_kind_def Let_def btf_kinds)
      then show ?thesis using c1 order_params_ok [OF rec, of d1] by (metis subset_trans)
    qed
    then show ?thesis using byval_self [OF t k(3,1)] k(2) by (auto simp: call_ok_def)
  next
    case other
    then have "r = - EINVAL" "d' = d" using r by (auto simp: order_kind_def Let_def)
    then show ?thesis using inv by (simp add: call_ok_def EINVAL_def)
  qed
qed

lemma order_type_ok: "rec_ok c O0 (order_type realloc_ok n)"
proof (induction n)
  case (Suc n)
  show ?case unfolding rec_ok_def
  proof (intro allI impI)
    fix i tp d r d' assume inv: "order_inv c O0 d" and r: "order_type realloc_ok (Suc n) i tp d = Inr (r, d')"
    then have c: "dp_btf d = c" by (simp add: order_inv_def closed_order_def)
    obtain st where st: "unat i < length (dp_type_states d)" "st = dp_type_states d ! unat i" "state_of d i = Inr st"
      using r by (auto simp: state_of_def split: if_splits)
    show "call_ok c O0 i tp d r d'"
    proof (cases "ax_order_state st = ORDERED")
      case True
      then have o: "i \<in> ordered d" "r = 1" "d' = d" using r st by (auto simp: ordered_def)
      have "y = i" if "byval c i y" for y using that
        by cases (use o inv in \<open>auto simp: order_inv_def closed_order_def\<close>)
      then show ?thesis using o inv by (auto simp: call_ok_def)
    next
      case no: False
      then have i: "i \<notin> ordered d" using st by (simp add: ordered_def)
      obtain t where t: "type_of_id c i = Inr t" using r st no c by auto
      show ?thesis
      proof (cases "ax_order_state st = ORDERING")
        case True
        then have "d' = d" "r = - ELOOP \<or> r = 0 \<and> tp" using r st t c by (auto split: if_splits)
        then show ?thesis using inv by (auto simp: call_ok_def ELOOP_def)
      next
        case False
        then have "order_kind realloc_ok (order_type realloc_ok n) i tp st t d = Inr (r, d')" using r st no t c by simp
        then show ?thesis by (rule order_kind_ok [OF Suc inv st(1) i t])
      qed
    qed
  qed
qed (simp add: rec_ok_def)

section \<open>The search ends\<close>

text \<open>The ids the search follows from a type; those of a structure or union are entered at most once, because it is marked.\<close>

definition followed :: "btf_type \<Rightarrow> u32 list" where
  "followed t = (let k = btf_kind t in
     if k \<in> {BTF_KIND_PTR, BTF_KIND_TYPEDEF, BTF_KIND_VOLATILE, BTF_KIND_CONST, BTF_KIND_RESTRICT, BTF_KIND_TYPE_TAG} then [bt_type t]
     else if k = BTF_KIND_ARRAY then [ar_type (btf_array t)]
     else if k = BTF_KIND_STRUCT \<or> k = BTF_KIND_UNION then map mb_type (btf_members t)
     else if k = BTF_KIND_FUNC_PROTO then bt_type t # map pm_type (btf_params t)
     else [])"

definition refs_ok :: "btf_chain \<Rightarrow> bool" where
  "refs_ok c \<longleftrightarrow> (\<forall>i. unat i < btf__type_cnt c \<longrightarrow> (\<exists>t. type_of_id c i = Inr t \<and> (\<forall>j\<in>set (followed t). unat j < btf__type_cnt c)))"

text \<open>Types that are no structures or unions do not form a cycle among themselves: references lower the rank.\<close>

definition ranked :: "btf_chain \<Rightarrow> (u32 \<Rightarrow> nat) \<Rightarrow> nat \<Rightarrow> bool" where
  "ranked c rk R \<longleftrightarrow> (\<forall>i. rk i \<le> R) \<and>
     (\<forall>i t. type_of_id c i = Inr t \<longrightarrow> \<not> btf_is_composite t \<longrightarrow> (\<forall>j\<in>set (followed t). rk j < rk i))"

definition fresh :: "btf_dump \<Rightarrow> u32 set" where
  "fresh d = {i. unat i < length (dp_type_states d) \<and> ax_order_state (dp_type_states d ! unat i) = NOT_ORDERED \<and>
     (\<exists>t. type_of_id (dp_btf d) i = Inr t \<and> btf_is_composite t)}"

text \<open>A state a later call may start from.\<close>

definition later :: "btf_dump \<Rightarrow> btf_dump \<Rightarrow> bool" where
  "later d d' \<longleftrightarrow> dp_btf d' = dp_btf d \<and> length (dp_type_states d') = length (dp_type_states d) \<and> fresh d' \<subseteq> fresh d"

lemma later_refl [simp]: "later d d"
  by (simp add: later_def)

lemma later_trans: "later d d' \<Longrightarrow> later d' d'' \<Longrightarrow> later d d''"
  by (auto simp: later_def)

lemma later_queue: "btf_dump_add_emit_queue_id realloc_ok i d = Inr (e, d') \<Longrightarrow> later d d'"
  by (auto simp: btf_dump_add_emit_queue_id_def Let_def later_def fresh_def split: if_splits)

lemma fresh_set:
  assumes "s \<noteq> NOT_ORDERED" "unat i < length (dp_type_states d)"
  shows "fresh (set_order_state i s d) = fresh d - {i}"
proof (intro set_eqI)
  fix x
  show "x \<in> fresh (set_order_state i s d) \<longleftrightarrow> x \<in> fresh d - {i}"
  proof (cases "x = i")
    case True
    then show ?thesis using assms by (simp add: fresh_def set_order_state_def)
  next
    case False
    then have "unat i \<noteq> unat x" by (simp add: word_unat_eq_iff)
    then show ?thesis using False by (simp add: fresh_def set_order_state_def)
  qed
qed

lemma later_set: "s \<noteq> NOT_ORDERED \<Longrightarrow> unat i < length (dp_type_states d) \<Longrightarrow> later d (set_order_state i s d)"
  using fresh_set [of s i d] by (auto simp: later_def set_order_state_def)

text \<open>A run returns, in a later state, or overflows the capacity of the queue.\<close>

definition fine :: "btf_dump \<Rightarrow> order_result \<Rightarrow> bool" where
  "fine d res \<longleftrightarrow> (case res of Inl f \<Rightarrow> f = Signed_Overflow | Inr (r, d') \<Rightarrow> later d d')"

lemma fine_Inr [simp]: "fine d (Inr (r, d')) \<longleftrightarrow> later d d'"
  by (simp add: fine_def)

lemma fine_bind:
  assumes "fine d m" "\<And>r d1. m = Inr (r, d1) \<Longrightarrow> later d d1 \<Longrightarrow> fine d (f (r, d1))"
  shows "fine d (bindR m f)"
  using assms by (cases m) (auto simp: fine_def)

lemma fine_from: "fine d1 res \<Longrightarrow> later d d1 \<Longrightarrow> fine d res"
  by (auto simp: fine_def intro: later_trans split: sum.splits)

lemma fine_queue:
  assumes "later d d1"
  shows "fine d (btf_dump_add_emit_queue_id realloc_ok i d1)"
proof (rule fine_from [OF _ assms])
  show "fine d1 (btf_dump_add_emit_queue_id realloc_ok i d1)"
    using later_queue [of realloc_ok i d1] by (auto simp: fine_def btf_dump_add_emit_queue_id_def Let_def split: sum.splits if_splits)
qed

lemma later_complete:
  assumes "later d d1" "unat i < length (dp_type_states d)" "s \<noteq> NOT_ORDERED"
  shows "later d (set_order_state i s d1)"
proof (rule later_trans [OF assms(1)])
  show "later d1 (set_order_state i s d1)" by (rule later_set) (use assms in \<open>simp_all add: later_def\<close>)
qed

text \<open>\<open>room d i\<close> says for which states and ids a depth is enough; it stays enough.\<close>

definition settles :: "(btf_dump \<Rightarrow> u32 \<Rightarrow> bool) \<Rightarrow> (u32 \<Rightarrow> bool \<Rightarrow> btf_dump \<Rightarrow> order_result) \<Rightarrow> bool" where
  "settles room rec \<longleftrightarrow> (\<forall>d d' i. room d i \<longrightarrow> later d d' \<longrightarrow> room d' i) \<and> (\<forall>d i tp. room d i \<longrightarrow> fine d (rec i tp d))"

lemma fine_rec: "settles room rec \<Longrightarrow> room d i \<Longrightarrow> later d d1 \<Longrightarrow> fine d (rec i tp d1)"
  unfolding settles_def using fine_from by blast

lemma members_settle:
  assumes "settles room rec" "\<forall>i\<in>set is. room d i" "later d d1"
  shows "fine d (order_members rec is d1)"
  using assms(2,3) by (induction "is" arbitrary: d1) (auto intro!: fine_bind fine_rec [OF assms(1)])

lemma params_settle:
  assumes "settles room rec" "\<forall>i\<in>set is. room d i" "later d d1"
  shows "fine d (order_params rec tp is b d1)"
  using assms(2,3) by (induction "is" arbitrary: b d1) (auto intro!: fine_bind fine_rec [OF assms(1)])

lemmas fine_steps = fine_bind fine_queue later_complete

lemma composite_settles:
  assumes "settles room rec" "unat i < length (dp_type_states d)"
    and "tp \<and> bt_name_off t \<noteq> 0 \<or> (\<forall>j\<in>set (map mb_type (btf_members t)). room (set_order_state i ORDERING d) j)"
  shows "fine d (order_composite realloc_ok rec i tp t d)"
proof (cases "tp \<and> bt_name_off t \<noteq> 0")
  case True
  then show ?thesis by (simp add: order_composite_def)
next
  case False
  let ?d0 = "set_order_state i ORDERING d"
  have l: "later d ?d0" by (rule later_set) (use assms(2) in simp_all)
  have i: "unat i < length (dp_type_states ?d0)" using assms(2) by (simp add: set_order_state_def)
  have "fine ?d0 (order_members rec (map mb_type (btf_members t)) ?d0)" using assms(1,3) False by (intro members_settle) auto
  then have "fine ?d0 (order_composite realloc_ok rec i tp t d)"
    using False i by (auto simp: order_composite_def intro!: fine_steps)
  then show ?thesis by (rule fine_from [OF _ l])
qed

lemma kind_settles:
  assumes rec: "settles room rec" and i: "unat i < length (dp_type_states d)"
    and comp: "btf_is_composite t \<Longrightarrow> \<forall>j\<in>set (followed t). room (set_order_state i ORDERING d) j"
    and other: "\<not> btf_is_composite t \<Longrightarrow> \<forall>j\<in>set (followed t). room d j"
  shows "fine d (order_kind realloc_ok rec i tp st t d)"
proof -
  let ?k = "btf_kind t"
  consider (comp) "?k \<in> {BTF_KIND_STRUCT, BTF_KIND_UNION}" | (ref) "?k \<in> {BTF_KIND_PTR, BTF_KIND_VOLATILE, BTF_KIND_CONST, BTF_KIND_RESTRICT, BTF_KIND_TYPE_TAG, BTF_KIND_TYPEDEF}"
    | (array) "?k = BTF_KIND_ARRAY" | (proto) "?k = BTF_KIND_FUNC_PROTO"
    | (plain) "?k \<notin> {BTF_KIND_STRUCT, BTF_KIND_UNION, BTF_KIND_PTR, BTF_KIND_VOLATILE, BTF_KIND_CONST, BTF_KIND_RESTRICT, BTF_KIND_TYPE_TAG, BTF_KIND_TYPEDEF, BTF_KIND_ARRAY, BTF_KIND_FUNC_PROTO}"
    by blast
  then show ?thesis
  proof cases
    case comp
    then have "btf_is_composite t" "set (followed t) = set (map mb_type (btf_members t))" by (auto simp: followed_def Let_def kind_tests btf_kinds)
    then have "fine d (order_composite realloc_ok rec i tp t d)" using assms(3) by (intro composite_settles [OF rec i]) auto
    then show ?thesis using comp by (auto simp: order_kind_def Let_def btf_kinds)
  next
    case ref
    then have "\<not> btf_is_composite t" "followed t = [bt_type t]" by (auto simp: followed_def Let_def kind_tests btf_kinds)
    then have f: "fine d (rec (bt_type t) b d)" for b using other fine_rec [OF rec _ later_refl] by simp
    have "fine d (bindR (rec (bt_type t) True d) (\<lambda>(err, d). Inr (err, set_order_state i ORDERED d)))"
      "fine d (order_typedef realloc_ok rec i tp t d)"
      unfolding order_typedef_def using f i by (auto intro!: fine_steps)
    then show ?thesis using ref f by (auto simp: order_kind_def Let_def btf_kinds)
  next
    case array
    then have "\<not> btf_is_composite t" "followed t = [ar_type (btf_array t)]" by (auto simp: followed_def Let_def kind_tests btf_kinds)
    then show ?thesis using other fine_rec [OF rec _ later_refl] array by (simp add: order_kind_def Let_def btf_kinds)
  next
    case proto
    then have nc: "\<not> btf_is_composite t" "followed t = bt_type t # map pm_type (btf_params t)" by (auto simp: followed_def Let_def kind_tests btf_kinds)
    then have f: "fine d (rec (bt_type t) tp d)" using other fine_rec [OF rec _ later_refl] by simp
    have "fine d (order_params rec tp (map pm_type (btf_params t)) b d1)" if "later d d1" for d1 b
      using nc other that by (intro params_settle [OF rec]) auto
    then have "fine d (bindR (rec (bt_type t) tp d) (\<lambda>(err, d). if err < 0 then Inr (err, d)
        else order_params rec tp (map pm_type (btf_params t)) (err > 0) d))" using f by (auto intro!: fine_bind)
    then show ?thesis using proto by (simp add: order_kind_def Let_def btf_kinds)
  next
    case plain
    have "fine d (order_enum realloc_ok i st t d)" unfolding order_enum_def using i by (auto intro!: fine_steps)
    moreover have "later d (set_order_state i ORDERED d)" using i by (intro later_complete) auto
    ultimately show ?thesis using plain by (auto simp: order_kind_def Let_def)
  qed
qed

definition depth_room :: "btf_chain \<Rightarrow> (u32 \<Rightarrow> nat) \<Rightarrow> nat \<Rightarrow> nat \<Rightarrow> btf_dump \<Rightarrow> u32 \<Rightarrow> bool" where
  "depth_room c rk R n d i \<longleftrightarrow> dp_btf d = c \<and> unat i < btf__type_cnt c \<and> btf__type_cnt c \<le> length (dp_type_states d) \<and>
     card (fresh d) * (R + 1) + rk i < n"

lemma finite_fresh: "finite (fresh d)"
proof (rule inj_on_finite [of unat _ "{..<length (dp_type_states d)}"])
  show "inj_on unat (fresh d)" by (simp add: inj_on_def word_unat_eq_iff)
qed (auto simp: fresh_def)

lemma order_type_settles:
  assumes ok: "refs_ok c" and rk: "ranked c rk R"
  shows "settles (depth_room c rk R n) (order_type realloc_ok n)"
proof -
  have down: "depth_room c rk R n d i \<Longrightarrow> later d d' \<Longrightarrow> depth_room c rk R n d' i" for n d d' i
    using card_mono [OF finite_fresh, of "fresh d'" d] mult_le_mono1 [of "card (fresh d')" "card (fresh d)" "R + 1"]
    by (auto simp: depth_room_def later_def)
  show ?thesis
  proof (induction n)
    case 0
    then show ?case by (simp add: settles_def depth_room_def)
  next
    case (Suc n)
    have "fine d (order_type realloc_ok (Suc n) i tp d)" if room: "depth_room c rk R (Suc n) d i" for d i tp
    proof -
      have i: "unat i < length (dp_type_states d)" "dp_btf d = c" "unat i < btf__type_cnt c" using room by (auto simp: depth_room_def)
      obtain t where t: "type_of_id c i = Inr t" "\<forall>j\<in>set (followed t). unat j < btf__type_cnt c" using ok i by (auto simp: refs_ok_def)
      let ?st = "dp_type_states d ! unat i"
      have "fine d (order_kind realloc_ok (order_type realloc_ok n) i tp ?st t d)" if no: "ax_order_state ?st = NOT_ORDERED"
      proof (rule kind_settles [OF Suc i(1)]; intro ballI)
        fix j assume c: "btf_is_composite t" and j: "j \<in> set (followed t)"
        let ?d0 = "set_order_state i ORDERING d"
        have "i \<in> fresh d" using no c t i by (simp add: fresh_def)
        then have "card (fresh d) = Suc (card (fresh ?d0))" using fresh_set [of ORDERING i d] i card_Suc_Diff1 [OF finite_fresh] by simp
        moreover have "rk j \<le> R" using rk by (simp add: ranked_def)
        ultimately have "card (fresh ?d0) * (R + 1) + rk j < n" using room by (simp add: depth_room_def)
        then show "depth_room c rk R n ?d0 j" using room j t by (simp add: depth_room_def set_order_state_def)
      next
        fix j assume c: "\<not> btf_is_composite t" and j: "j \<in> set (followed t)"
        have "rk j < rk i" using rk t c j by (auto simp: ranked_def)
        then show "depth_room c rk R n d j" using room j t by (simp add: depth_room_def)
      qed
      then show ?thesis using i t by (cases "ax_order_state ?st") (auto simp: state_of_def)
    qed
    then show ?case using down by (auto simp: settles_def)
  qed
qed

section \<open>Growing the state\<close>

lemma mark_ids_ok:
  assumes "mark_ids ids sts = Inr sts'"
  shows "length sts' = length sts \<and> (\<forall>k. ax_order_state (sts' ! k) = ax_order_state (sts ! k))"
  using assms
proof (induction ids arbitrary: sts)
  case (Cons i ids)
  let ?sts = "sts[unat i := (sts ! unat i)\<lparr>ax_referenced := True\<rparr>]"
  have r: "unat i < length sts" "mark_ids ids ?sts = Inr sts'" using Cons.prems by (auto split: if_splits)
  have "ax_order_state (?sts ! k) = ax_order_state (sts ! k)" for k using r(1) by (cases "k = unat i") auto
  then show ?case using Cons.IH [OF r(2)] by simp
qed simp

lemma mark_types_ok:
  assumes "mark_types c is sts = Inr (e, sts')"
  shows "length sts' = length sts \<and> (\<forall>k. ax_order_state (sts' ! k) = ax_order_state (sts ! k))"
  using assms
proof (induction "is" arbitrary: sts)
  case (Cons i "is")
  obtain t where t: "type_of_id c (of_nat i) = Inr t" using Cons.prems by auto
  show ?case
  proof (cases "marked_refs t")
    case None
    then show ?thesis using Cons.prems t by simp
  next
    case (Some ids)
    then obtain sts1 where m: "mark_ids ids sts = Inr sts1" "mark_types c is sts1 = Inr (e, sts')" using Cons.prems t by auto
    show ?thesis using Cons.IH [OF m(2)] mark_ids_ok [OF m(1)] by simp
  qed
qed simp

lemma mark_referenced_ok:
  assumes "btf_dump_mark_referenced d = Inr (e, d')"
  shows "ordered d' = ordered d \<and> dp_btf d' = dp_btf d \<and> dp_emit_queue d' = dp_emit_queue d \<and> length (dp_type_states d') = length (dp_type_states d)"
proof -
  obtain sts where m: "mark_types (dp_btf d) [nat (dp_last_id d + 1)..<btf__type_cnt (dp_btf d)] (dp_type_states d) = Inr (e, sts)"
    "d' = d\<lparr>dp_type_states := sts\<rparr>" using assms by (auto simp: btf_dump_mark_referenced_def)
  show ?thesis using mark_types_ok [OF m(1)] m(2) by (simp add: ordered_def)
qed

lemma ordered_grow: "ordered (d\<lparr>dp_type_states := dp_type_states d @ replicate n zero_state\<rparr>) = ordered d"
proof (intro set_eqI)
  fix x
  show "x \<in> ordered (d\<lparr>dp_type_states := dp_type_states d @ replicate n zero_state\<rparr>) \<longleftrightarrow> x \<in> ordered d"
  proof (cases "unat x < length (dp_type_states d)")
    case False
    then have "unat x < length (dp_type_states d) + n \<Longrightarrow> (dp_type_states d @ replicate n zero_state) ! unat x = zero_state" by (simp add: nth_append)
    then show ?thesis using False by (auto simp: ordered_def zero_state_def)
  qed (simp add: ordered_def nth_append)
qed

lemma ordered_void:
  assumes "0 < length (dp_type_states d)"
  shows "ordered (d\<lparr>dp_type_states := (dp_type_states d)[0 := (dp_type_states d ! 0)\<lparr>ax_order_state := ORDERED, ax_emit_state := EMITTED\<rparr>]\<rparr>) = insert 0 (ordered d)"
proof (intro set_eqI)
  fix x
  show "x \<in> ordered (d\<lparr>dp_type_states := (dp_type_states d)[0 := (dp_type_states d ! 0)\<lparr>ax_order_state := ORDERED, ax_emit_state := EMITTED\<rparr>]\<rparr>) \<longleftrightarrow> x \<in> insert 0 (ordered d)"
    using assms by (cases "x = 0") (auto simp: ordered_def nth_list_update unat_eq_zero)
qed

lemma resize_ok:
  assumes r: "btf_dump_resize states_ok names_ok d = Inr (e, d')" and c: "0 < btf__type_cnt (dp_btf d)"
  shows "ordered d \<subseteq> ordered d' \<and> ordered d' \<subseteq> insert 0 (ordered d) \<and> dp_btf d' = dp_btf d"
proof (cases "int (btf__type_cnt (dp_btf d)) - 1 \<le> dp_last_id d")
  case True
  then show ?thesis using r by (auto simp: btf_dump_resize_def)
next
  case False
  let ?c = "btf__type_cnt (dp_btf d)"
  have nat: "nat (int ?c - 1 + 1) = ?c" by simp
  show ?thesis
  proof (cases "ensure_cap states_ok ?c (length (dp_type_states d))")
    case None
    then show ?thesis using r False by (auto simp: btf_dump_resize_def Let_def nat)
  next
    case (Some n)
    define d1 where "d1 = d\<lparr>dp_type_states := dp_type_states d @ replicate (n - length (dp_type_states d)) zero_state\<rparr>"
    have n: "?c \<le> n" using Some new_cnt_bounds(1) [of "length (dp_type_states d)" "?c - length (dp_type_states d)" SIZE_MAX "length (dp_type_states d)"]
      by (auto simp: ensure_cap_def add_mem_new_cnt_def Let_def split: if_splits)
    have d1: "ordered d1 = ordered d" "dp_btf d1 = dp_btf d" "0 < length (dp_type_states d1)" using ordered_grow n c by (auto simp: d1_def)
    show ?thesis
    proof (cases "ensure_cap names_ok ?c (dp_cached_names_cap d)")
      case None
      then have "d' = d1" using r False Some by (auto simp: btf_dump_resize_def Let_def nat d1_def)
      then show ?thesis using d1 by auto
    next
      case names: (Some m)
      define d2 where "d2 = d1\<lparr>dp_cached_names_cap := m\<rparr>"
      define d3 where "d3 = (if dp_last_id d2 = 0 then d2\<lparr>dp_type_states := (dp_type_states d2)[0 := (dp_type_states d2 ! 0)\<lparr>ax_order_state := ORDERED, ax_emit_state := EMITTED\<rparr>]\<rparr> else d2)"
      have d2: "ordered d2 = ordered d" "0 < length (dp_type_states d2)" "dp_btf d2 = dp_btf d" using d1 by (auto simp: d2_def ordered_def)
      have d3: "ordered d3 = (if dp_last_id d2 = 0 then insert 0 (ordered d) else ordered d)" "dp_btf d3 = dp_btf d" using ordered_void d2 by (auto simp: d3_def)
      obtain e4 d4 where m: "btf_dump_mark_referenced d3 = Inr (e4, d4)" "d' = (if e4 \<noteq> 0 then d4 else d4\<lparr>dp_last_id := int ?c - 1\<rparr>)"
        using r False Some names by (auto simp: btf_dump_resize_def Let_def nat d1_def d2_def d3_def split: if_splits)
      have "ordered (d4\<lparr>dp_last_id := k\<rparr>) = ordered d4" for k by (simp add: ordered_def)
      then show ?thesis using mark_referenced_ok [OF m(1)] m(2) d3 by auto
    qed
  qed
qed

lemma void_type: "type_of_id c 0 = Inr t \<Longrightarrow> t = btf_void"
  by (cases c) (auto simp: type_of_id_def btf__type_by_id_def split: if_splits)

lemma void_is_plain: "\<not> emittable c 0" "\<not> needs c 0 y" "type_of_id c 0 = Inr t \<Longrightarrow> \<not> btf_is_array t \<and> \<not> btf_is_mod t"
  by (auto dest!: void_type simp: emittable_def needs_def def_kind_def kind_tests btf_kinds btf_kind_def btf_void_def)

lemma closed_order_void:
  assumes "closed_order c d" "ordered d \<subseteq> ordered d'" "ordered d' \<subseteq> insert 0 (ordered d)" "dp_btf d' = dp_btf d"
  shows "closed_order c d'"
  using assms void_is_plain unfolding closed_order_def by blast

lemma topological_void: "topological c O1 q \<Longrightarrow> O1 \<subseteq> insert 0 O0 \<Longrightarrow> topological c O0 q"
  using void_is_plain unfolding topological_def by blast

section \<open>Properties\<close>

text \<open>
  C19. When the first pass of \<open>btf_dump__dump_type\<close> ends without an error, every definition in the queue comes behind all definitions it
  contains by value, directly or through others, unless an earlier dump has ordered them; everything that became ordered and stands at the
  top level is in the queue, and so is what the requested type consists of. On an error too, the marks stay closed under what definitions need.
\<close>

theorem dump_order_topological:
  assumes d: "closed_order c d" and r: "dump_type_order states_ok names_ok realloc_ok n i d = Inr (err, d')"
  shows "closed_order c d' \<and> (err = 0 \<longrightarrow> topological c (ordered d) (dp_emit_queue d') \<and>
    (\<forall>z\<in>ordered d'. emittable c z \<longrightarrow> z \<in> ordered d \<union> set (dp_emit_queue d')) \<and> (\<forall>y. byval c i y \<longrightarrow> y \<in> ordered d'))"
proof (cases "unat i \<ge> btf__type_cnt c")
  case True
  then show ?thesis using d r by (auto simp: dump_type_order_def closed_order_def EINVAL_def)
next
  case False
  have c: "dp_btf d = c" using d by (simp add: closed_order_def)
  obtain e1 d1 where rs: "btf_dump_resize states_ok names_ok d = Inr (e1, d1)" using r False c by (auto simp: dump_type_order_def)
  have ro: "ordered d \<subseteq> ordered d1" "ordered d1 \<subseteq> insert 0 (ordered d)" "dp_btf d1 = dp_btf d" using resize_ok [OF rs] False c by auto
  have cl: "closed_order c d1" by (rule closed_order_void [OF d ro])
  show ?thesis
  proof (cases "e1 = 0")
    case False
    then show ?thesis using r rs cl \<open>\<not> unat i \<ge> btf__type_cnt c\<close> c by (auto simp: dump_type_order_def)
  next
    case True
    let ?d = "d1\<lparr>dp_emit_queue := []\<rparr>"
    obtain e2 where o: "order_type realloc_ok n i False ?d = Inr (e2, d')" "err = (if e2 < 0 then e2 else 0)"
      using r rs True \<open>\<not> unat i \<ge> btf__type_cnt c\<close> c by (auto simp: dump_type_order_def)
    have "order_inv c (ordered d1) ?d" using cl by (auto simp: order_inv_def closed_order_def topological_def)
    from rec_okD [OF order_type_ok this o(1)] have ok: "call_ok c (ordered d1) i False ?d e2 d'" .
    then have inv: "order_inv c (ordered d1) d'" by (simp add: call_ok_def)
    then have "closed_order c d'" "topological c (ordered d) (dp_emit_queue d')" using topological_void [OF _ ro(2)] by (auto simp: order_inv_def)
    moreover have "z \<in> ordered d \<union> set (dp_emit_queue d')" if "z \<in> ordered d'" "emittable c z" for z
      using that inv ro(2) void_is_plain(1) [of c] by (auto simp: order_inv_def)
    moreover have "byval c i y \<Longrightarrow> y \<in> ordered d'" if "err = 0" for y using ok o(2) that by (auto simp: call_ok_def split: if_splits)
    ultimately show ?thesis by blast
  qed
qed

text \<open>A structure \<open>B\<close> with a member \<open>A\<close> by value and a pointer to itself.\<close>

definition dump_sample :: btf where
  "dump_sample = \<lparr>bf_hdr = \<lparr>hd_magic = 0xEB9F, hd_version = 1, hd_flags = 0, hd_hdr_len = 24, hd_type_off = 0,
       hd_type_len = 88, hd_str_off = 88, hd_str_len = 5\<rparr>, bf_swapped_endian = False,
     bf_types_data = [1, 0, 0, 0, 0, 0, 0, 1, 4, 0, 0, 0, 32, 0, 0, 0, 3, 0, 0, 0, 2, 0, 0, 4, 16, 0, 0, 0, 1, 0, 0, 0, 3, 0, 0, 0, 0, 0, 0, 0, 1, 0, 0, 0, 4, 0, 0, 0, 64, 0, 0, 0, 1, 0, 0, 0, 1, 0, 0, 4, 4, 0, 0, 0, 1, 0, 0, 0, 1, 0, 0, 0, 0, 0, 0, 0, 0, 0, 0, 0, 0, 0, 0, 2, 2, 0, 0, 0],
     bf_type_offs = [0, 16, 52, 76], bf_start_id = 1, bf_start_str_off = 0, bf_strs_data = [0, 65, 0, 66, 0], bf_ptr_sz = 0\<rparr>"

definition resized_sample :: btf_dump where
  "resized_sample = (btf_dump_start [dump_sample])\<lparr>dp_last_id := 4, dp_cached_names_cap := 16,
     dp_type_states := zero_state\<lparr>ax_order_state := ORDERED, ax_emit_state := EMITTED\<rparr> #
       zero_state\<lparr>ax_referenced := True\<rparr> # zero_state\<lparr>ax_referenced := True\<rparr> # zero_state\<lparr>ax_referenced := True\<rparr> #
       zero_state\<lparr>ax_referenced := True\<rparr> # replicate 11 zero_state\<rparr>"

lemma sample_marked:
  "mark_types [dump_sample] [1..<5] ((replicate 16 zero_state)[0 := zero_state\<lparr>ax_order_state := ORDERED, ax_emit_state := EMITTED\<rparr>]) =
   Inr (0, dp_type_states resized_sample)"
  by code_simp

lemma sample_resized: "btf_dump_resize True True (btf_dump_start [dump_sample]) = Inr (0, resized_sample)"
proof -
  have c: "btf__type_cnt [dump_sample] = 5" by (simp add: btf__type_cnt_def bf_nr_types_def dump_sample_def)
  have e: "ensure_cap True 5 0 = Some 16" by (simp add: ensure_cap_def add_mem_new_cnt_def SIZE_MAX_def)
  show ?thesis using sample_marked
    by (simp add: btf_dump_resize_def btf_dump_start_def c e btf_dump_mark_referenced_def nth_list_update Let_def resized_sample_def)
qed

lemma sample_ordered:
  "\<exists>d'. order_type (\<lambda>_. True) 20 2 False (resized_sample\<lparr>dp_emit_queue := []\<rparr>) = Inr (1, d') \<and> dp_emit_queue d' = [3, 2]"
proof -
  have "(case order_type (\<lambda>_. True) 20 2 False (resized_sample\<lparr>dp_emit_queue := []\<rparr>) of Inr (e, d) \<Rightarrow> e = 1 \<and> dp_emit_queue d = [3, 2] | _ \<Rightarrow> False)"
    by code_simp
  then show ?thesis by (cases "order_type (\<lambda>_. True) 20 2 False (resized_sample\<lparr>dp_emit_queue := []\<rparr>)") auto
qed

lemma dump_sample_ordered: "\<exists>d'. dump_type_order True True (\<lambda>_. True) 20 2 (btf_dump_start [dump_sample]) = Inr (0, d') \<and> dp_emit_queue d' = [3, 2]"
proof -
  have c: "btf__type_cnt (dp_btf (btf_dump_start [dump_sample])) = 5" by (simp add: btf__type_cnt_def bf_nr_types_def dump_sample_def btf_dump_start_def)
  obtain d' where "order_type (\<lambda>_. True) 20 2 False (resized_sample\<lparr>dp_emit_queue := []\<rparr>) = Inr (1, d')" "dp_emit_queue d' = [3, 2]"
    using sample_ordered by blast
  then show ?thesis unfolding dump_type_order_def c sample_resized bindR.simps by simp
qed

lemma start_closed: "closed_order c (btf_dump_start c)" "ordered (btf_dump_start c) = {}"
  by (simp_all add: closed_order_def ordered_def btf_dump_start_def)

theorem dump_order_topological_witness:
  "topological [dump_sample] {} [3, 2]"
proof -
  obtain d' where "dump_type_order True True (\<lambda>_. True) 20 2 (btf_dump_start [dump_sample]) = Inr (0, d')" "dp_emit_queue d' = [3, 2]"
    using dump_sample_ordered by blast
  then show ?thesis using dump_order_topological [OF start_closed(1)] start_closed(2) by metis
qed

text \<open>
  C26. When references stay inside the table and types other than structures and unions form no cycle among themselves, the search returns:
  a depth of the number of structures and unions not yet entered times the longest chain of other types is enough, whatever pointers
  lead back into structures. The only other end is the overflow of the queue's capacity.
\<close>

theorem order_type_returns:
  assumes "refs_ok c" "ranked c rk R" "dp_btf d = c" "unat i < btf__type_cnt c" "btf__type_cnt c \<le> length (dp_type_states d)"
    and "card (fresh d) * (R + 1) + rk i < n"
  shows "(\<exists>r d'. order_type realloc_ok n i through_ptr d = Inr (r, d')) \<or> order_type realloc_ok n i through_ptr d = Inl Signed_Overflow"
proof -
  have "fine d (order_type realloc_ok n i through_ptr d)"
    by (rule fine_rec [OF order_type_settles [OF assms(1,2)] _ later_refl]) (use assms in \<open>simp add: depth_room_def\<close>)
  then show ?thesis by (cases "order_type realloc_ok n i through_ptr d") (auto simp: fine_def)
qed

lemma sample_types:
  "type_of_id [dump_sample] 0 = Inr btf_void"
  "type_of_id [dump_sample] 1 = Inr \<lparr>bt_name_off = 1, bt_info = 0x01000000, bt_type = 4, bt_words = [32]\<rparr>"
  "type_of_id [dump_sample] 2 = Inr \<lparr>bt_name_off = 3, bt_info = 0x04000002, bt_type = 16, bt_words = [1, 3, 0, 1, 4, 64]\<rparr>"
  "type_of_id [dump_sample] 3 = Inr \<lparr>bt_name_off = 1, bt_info = 0x04000001, bt_type = 4, bt_words = [1, 1, 0]\<rparr>"
  "type_of_id [dump_sample] 4 = Inr \<lparr>bt_name_off = 0, bt_info = 0x02000000, bt_type = 2, bt_words = []\<rparr>"
  by code_simp+

lemma sample_ids:
  assumes "unat (i :: u32) < 5"
  shows "i = 0 \<or> i = 1 \<or> i = 2 \<or> i = 3 \<or> i = 4"
proof -
  have "unat i = 0 \<or> unat i = 1 \<or> unat i = 2 \<or> unat i = 3 \<or> unat i = 4" using assms by linarith
  then show ?thesis by (simp add: word_unat_eq_iff)
qed

lemma sample_cnt: "btf__type_cnt [dump_sample] = 5"
  by (simp add: btf__type_cnt_def bf_nr_types_def dump_sample_def)

lemmas sample_follow = followed_def Let_def btf_kind_def btf_kinds btf_members_def btf_vlen_def

lemma sample_followed:
  "set (followed btf_void) = {}"
  "set (followed \<lparr>bt_name_off = 1, bt_info = 0x01000000, bt_type = 4, bt_words = [32]\<rparr>) = {}"
  "set (followed \<lparr>bt_name_off = 3, bt_info = 0x04000002, bt_type = 16, bt_words = [1, 3, 0, 1, 4, 64]\<rparr>) = {3, 4}"
  "set (followed \<lparr>bt_name_off = 1, bt_info = 0x04000001, bt_type = 4, bt_words = [1, 1, 0]\<rparr>) = {1}"
  "set (followed \<lparr>bt_name_off = 0, bt_info = 0x02000000, bt_type = 2, bt_words = []\<rparr>) = {2}"
  by code_simp+

lemma sample_refs_ok: "refs_ok [dump_sample]"
  unfolding refs_ok_def sample_cnt by (auto dest!: sample_ids simp: sample_types sample_followed)

lemma sample_ranked: "ranked [dump_sample] (\<lambda>i. if i = 4 then 1 else 0) 1"
proof -
  have "rk j < rk i" if "rk = (\<lambda>i. if i = 4 then 1 else 0 :: nat)" "type_of_id [dump_sample] i = Inr t" "\<not> btf_is_composite t" "j \<in> set (followed t)" for rk i j t
  proof -
    have "unat i < 5" using that(2) by (auto simp: type_of_id_def btf__type_by_id_def sample_cnt split: if_splits)
    from sample_ids [OF this] show ?thesis using that by (auto simp: sample_types sample_followed btf_is_composite_def btf_kind_def btf_kinds)
  qed
  then show ?thesis by (auto simp: ranked_def)
qed

theorem order_type_returns_witness:
  "(\<exists>r d'. order_type (\<lambda>_. True) 7 2 False resized_sample = Inr (r, d')) \<or> order_type (\<lambda>_. True) 7 2 False resized_sample = Inl Signed_Overflow"
proof (rule order_type_returns [OF sample_refs_ok sample_ranked])
  have "fresh resized_sample \<subseteq> {2, 3}"
  proof
    fix i assume i: "i \<in> fresh resized_sample"
    then obtain t where t: "type_of_id [dump_sample] i = Inr t" "btf_is_composite t" by (auto simp: fresh_def resized_sample_def btf_dump_start_def)
    then have "unat i < 5" by (auto simp: type_of_id_def btf__type_by_id_def sample_cnt split: if_splits)
    from sample_ids [OF this] show "i \<in> {2, 3}" using t by (auto simp: sample_types btf_is_composite_def btf_kind_def btf_kinds btf_void_def)
  qed
  then have "card (fresh resized_sample) \<le> 2" using card_mono [of "{2, 3 :: u32}" "fresh resized_sample"] by simp
  then show "card (fresh resized_sample) * (1 + 1) + (if (2 :: u32) = 4 then 1 else 0) < 7" by simp
qed (simp_all add: resized_sample_def btf_dump_start_def sample_cnt)

end
