(* ===== verification/Spec2Isabelle.thy ===== *)
theory Spec2Isabelle
  imports Lensx Ringbuf Nlattr Dedup_Ext Core_Relo Linfo Dump_Order Btf_Ext
begin

text \<open>
  LensX, an eBPF latency tracer, and the part of libbpf it is built on.

  \<^bold>\<open>The program.\<close> LensX (\<open>src/src\<close>) reads a YAML configuration, generates and compiles a BPF program that
  stamps events at probe points, reads the events from a BPF ring buffer, pairs them to latencies and
  prints histograms. The ring buffer, the BPF object and the type information are handled by libbpf
  (\<open>src/libbpf/src\<close>), which is part of the repository.

  \<^bold>\<open>Theories of LensX.\<close> \<open>Matcher\<close> has the data of \<open>matcher.h\<close> and the interface of the base class as a
  locale; \<open>Seq_Matcher\<close> and \<open>Key_Matcher\<close> model the two pairing strategies (\<open>SeqMatcher::feed\<close>,
  \<open>KeyMatcher::feed\<close>, \<open>drain\<close>, the constructors) and refine them to abstract machines that see the
  events of one hash slot or of one key alone; \<open>Fifo_Queue\<close> refines the bounded queue \<open>FifoQueue\<close> to a
  list; \<open>Hist\<close> has \<open>Hist::record\<close> and the percentile loop of \<open>Hist::print\<close>; \<open>Config\<close> is \<open>parse_config\<close> over the
  interface of yaml-cpp; \<open>Bpf_Gen\<close> is the text of the generated program; \<open>Lensx\<close> is \<open>main\<close>: choice of the
  process, attach requests, wiring of matchers, queues and reports, the ring handler and the final
  drain. \<open>Text_Util\<close> has the string functions these use.

  \<^bold>\<open>Theories of libbpf.\<close> \<open>Errno\<close> has the error numbers and \<open>libbpf_strerror\<close>; \<open>Ringbuf\<close> models \<open>ringbuf.c\<close>, the
  consumer loop as a machine that a producer may interrupt between any two steps; \<open>Hashmap\<close> models
  \<open>hashmap.c\<close> and proves, in the locale of a hash function that respects the key equality, that it is a
  finite map; \<open>Mem\<close> has the growing memory areas of \<open>btf.c\<close>; \<open>Strset\<close> models \<open>strset.c\<close> as a user of that
  locale and offers the locale of string tables; \<open>Nlattr\<close> models \<open>nlattr.c\<close> and the request builders of
  \<open>nlattr.h\<close> on byte buffers; \<open>Btf\<close> and \<open>Btf_Parse\<close> model the reading part of \<open>btf.c\<close>: the type format, lookup over
  chains of split instances, parsing and writing in both byte orders; \<open>Btf_Build\<close> and \<open>Btf_Add\<close> model the
  functions that make an instance modifiable and append strings, types and members, over the string
  tables of \<open>Strset\<close>; \<open>Btf_Copy\<close> and \<open>Btf_Merge\<close> add the visits of the ids and strings in a type, with the locale of a visitor, and the
  functions that copy a type and a whole instance. \<open>Dedup\<close> models the passes of \<open>btf__dedup\<close> over a table of types; \<open>Dedup_Map\<close> has its two data
  structures, the multimap of candidates as a locale and the forest of canonical types, \<open>Dedup_Shape\<close> what the comparisons of types decide,
  \<open>Dedup_Equiv\<close> the comparison of type graphs, \<open>Dedup_Prim\<close>, \<open>Dedup_Struct\<close> and \<open>Dedup_Ref\<close> the passes, and \<open>Dedup_Result\<close> the compaction and what all passes
  together give; \<open>Dedup_Strings\<close> and \<open>Dedup_Names\<close> are the pass over strings, on the bytes of the instance and of \<open>.BTF.ext\<close>, and \<open>Dedup_Ext\<close> the
  new ids in \<open>.BTF.ext\<close>. \<open>Core_Types\<close>, \<open>Core_Spec\<close> and \<open>Core_Relo\<close> model \<open>relo_core.c\<close> and the helpers it calls in
  \<open>libbpf.c\<close>: how types of the program and of the kernel are compared, how an access string becomes a
  specification and is matched against a candidate, which values a relocation has, that all
  candidates must agree, and how the instruction is patched. \<open>Dump_Order\<close> models the first pass of a dump in
  \<open>btf_dump.c\<close>, the depth-first search that puts type definitions in an order a compiler accepts; \<open>Btf_Ext\<close>
  models the section \<open>.BTF.ext\<close>, its checks and the functions that visit and rewrite its ids and offsets;
  \<open>Linfo\<close> models \<open>bpf_prog_linfo.c\<close>, the line records of a loaded program split by function and searched.

  \<^bold>\<open>What is shown.\<close> The matchers, the queue, the hash map and the string set refine abstract machines, finite maps
  and tables; the ring buffer consumer delivers every record once and in order against a
  concurrent producer, and a manager of rings holds exactly what it has acquired and releases all of it; accepted BTF data can be read without leaving its sections, written data is
  read back, and what the append functions write is what the readers find, also for types copied from another instance; deduplication ends,
  keeps every name and, without forward declarations, the tree of types reached from every id, also in \<open>.BTF.ext\<close>, leaves exactly the strings in use, each once, and no two equal
  types that it compares by their words; a relocated bit field
  load reads the bits of the field, a patch changes the operand and nothing else, and a relocation
  that succeeds is the same for every matching candidate; a dump queues every definition behind those
  it contains; accepted \<open>.BTF.ext\<close> data is an encoding of sections and is visited inside its bounds; line
  records are split by function exactly when they can be, and a search finds the last of the leading records that are not behind the
  address. A session of \<open>main\<close> with one sequential matcher reports every sample twice
  (\<open>seq_session_reports_twice\<close>), which is a flaw of the program. Each theory ends with its properties; the
  lemmas before them are the steps.

  \<^bold>\<open>Conventions.\<close> Machine integers are words of their width, C \<open>int\<close> values are \<open>int\<close> with the overflow written
  out. A run that the language gives no meaning to is \<open>Inl\<close> of a \<open>fault\<close>; negative error numbers are
  results. The answers of system calls and of the allocator are arguments, so that the theorems hold
  for every failure pattern. Code outside the repository (yaml-cpp, \<open>strerror_r\<close>, the kernel) is a
  parameter.

  \<^bold>\<open>Loops.\<close> Loops over indices are recursive functions with a measure. The consumer loop may run forever
  against a fast producer: it is a step function, and \<open>ringbuf_process_ring\<close> takes the number of steps;
  \<open>process_ring_returns\<close> shows that a number linear in the committed records is enough when the producer
  rests. \<open>btf__align_of\<close> recurses without a bound and takes fuel; \<open>btf__resolve_size\<close> and
  \<open>btf__resolve_type\<close> have the bound 32 of the code, as have depth and level of the comparison of types.
  \<open>skip_mods_and_typedefs\<close> may run forever on a cycle of typedefs; one round more than there are types decides
  it (\<open>skip_mods_ends_or_never_does\<close>), and the fault \<open>No_Return\<close> stands for the endless loop. The comparison of
  fields walks at most through all pairs of types. The search for a member nests at most 65 deep
  (\<open>match_member_depth_bounded\<close>). \<open>btf_dump_order_type\<close> takes the depth of its recursion; \<open>order_type_returns\<close> says which
  depth is enough, and for which types there is one. In the deduplication a walk along the canonical map, the comparison of two
  graphs and the recursion over reference types take one step more than there are types, and \<open>dedup_returns\<close> shows that none runs out: the
  map has no cycles, each nested comparison pairs a new type, and each nested reference marks a new type.

  \<^bold>\<open>Not modelled.\<close> Printing, signals, child processes and the file system of \<open>main\<close>; in libbpf everything
  that is mainly system calls or libelf (\<open>libbpf.c\<close> but for the helpers of relocations, \<open>linker.c\<close>, \<open>netlink.c\<close>, \<open>bpf.c\<close>, \<open>libbpf_probes.c\<close>,
  \<open>usdt.c\<close>), the text that \<open>btf_dump.c\<close> emits and \<open>gen_loader.c\<close>; the passes of the deduplication over types work on the table of types by id, not on the
  bytes that hold it; of \<open>relo_core.c\<close> the text of specifications in the log. Releasing memory has no
  observable effect in the model except in \<open>Ringbuf\<close>, where leaks are the subject.
\<close>

end
